(* ===== verification/Prelude.thy ===== *)
theory Prelude
  imports Main "HOL-Library.Word"
begin

text \<open>
  Shared vocabulary of the development: the outcome of a C++ function that may
  abort (the macros NOT_REACHED and UNIMPLEMENTED of debug.hpp, a failed assert), run into
  undefined behaviour, recurse without end or leave what is modelled, the plumbing to sequence such
  functions, the ordered enumerations of types.hpp, the rounding function of
  util.hpp, and the generic lemmas every component uses.
\<close>

unbundle bit_operations_syntax

named_theorems outcome_simps \<open>unfolding rules for sequenced outcomes\<close>
named_theorems layout_simps \<open>arithmetic of sizes, alignments and offsets\<close>

section \<open>Outcomes\<close>

datatype error =
    Not_reached | Unimplemented | Assertion_failed | Undefined_behaviour | Out_of_fuel | Outside_model | Rejected nat

type_synonym 'a outcome = "error + 'a"

definition obind :: "'a outcome \<Rightarrow> ('a \<Rightarrow> 'b outcome) \<Rightarrow> 'b outcome" where
  "obind m f = (case m of Inl e \<Rightarrow> Inl e | Inr x \<Rightarrow> f x)"

lemma obind_simps [simp]:
  "obind (Inl e) f = Inl e"
  "obind (Inr x) f = f x"
  by (simp_all add: obind_def)

lemma obind_cong [fundef_cong]:
  "m = m' \<Longrightarrow> (\<And>x. m' = Inr x \<Longrightarrow> f x = f' x) \<Longrightarrow> obind m f = obind m' f'"
  by (cases m') (simp_all add: obind_def)

lemma obind_eq_Inr [outcome_simps]:
  "obind m f = Inr y \<longleftrightarrow> (\<exists>x. m = Inr x \<and> f x = Inr y)"
  by (cases m) simp_all

lemma obind_eq_Inl [outcome_simps]:
  "obind m f = Inl e \<longleftrightarrow> m = Inl e \<or> (\<exists>x. m = Inr x \<and> f x = Inl e)"
  by (cases m) simp_all

lemma obind_assoc: "obind (obind m f) g = obind m (\<lambda>x. obind (f x) g)"
  by (cases m) simp_all

text \<open>The function returns a value: it neither aborts nor runs out of fuel.\<close>

definition returns :: "'a outcome \<Rightarrow> bool" where
  "returns m \<longleftrightarrow> (\<exists>x. m = Inr x)"

lemma returns_simps [simp]: "returns (Inr x)" "\<not> returns (Inl e)"
  by (simp_all add: returns_def)

lemma returns_obind: "returns m \<Longrightarrow> (\<And>x. m = Inr x \<Longrightarrow> returns (f x)) \<Longrightarrow> returns (obind m f)"
  by (auto simp: returns_def)

lemma returns_if [simp]:
  "returns (if b then x else y) \<longleftrightarrow> (b \<longrightarrow> returns x) \<and> (\<not> b \<longrightarrow> returns y)"
  by simp

text \<open>A loop over a list that threads an accumulator and stops at the first error.\<close>

fun ofold :: "('s \<Rightarrow> 'a \<Rightarrow> 's outcome) \<Rightarrow> 'a list \<Rightarrow> 's \<Rightarrow> 's outcome" where
  "ofold f [] s = Inr s"
| "ofold f (x # xs) s = obind (f s x) (ofold f xs)"

lemma ofold_cong [fundef_cong]:
  assumes "xs = ys" and "s = t" and "\<And>x a. x \<in> set ys \<Longrightarrow> f a x = g a x"
  shows "ofold f xs s = ofold g ys t"
  using assms(3) unfolding assms(1,2)
  by (induction ys arbitrary: t) (auto intro!: obind_cong)

lemma ofold_append:
  "ofold f (xs @ ys) s = obind (ofold f xs s) (ofold f ys)"
  by (induction xs arbitrary: s) (auto simp: obind_def split: sum.splits)

lemma ofold_mono:
  assumes "\<And>x a r. x \<in> set xs \<Longrightarrow> f a x = Inr r \<Longrightarrow> g a x = Inr r"
  assumes "ofold f xs s = Inr r"
  shows "ofold g xs s = Inr r"
  using assms
proof (induction xs arbitrary: s)
  case (Cons x xs)
  then obtain a where a: "f s x = Inr a" "ofold f xs a = Inr r"
    by (auto simp: outcome_simps)
  then have "ofold g xs a = Inr r" using Cons.IH Cons.prems(1) by simp
  then show ?case using Cons.prems(1) a(1) by simp
qed simp

lemma ofold_total:
  assumes "\<And>x a. x \<in> set xs \<Longrightarrow> \<exists>r. f a x = Inr r"
  shows "\<exists>r. ofold f xs s = Inr r"
  using assms
proof (induction xs arbitrary: s)
  case (Cons x xs)
  then obtain a where "f s x = Inr a" by fastforce
  then show ?case using Cons by simp
qed simp

section \<open>Ordered enumerations\<close>

text \<open>
  The enumerations of types.hpp are ordered by declaration; the code compares
  them with \<open><\<close> and takes their maximum with std::max.
\<close>

datatype mutability = Mutable | Immutable | Foreign

datatype receiver_access = AccessNone | AccessRead | AccessWrite

fun mutability_index :: "mutability \<Rightarrow> nat" where
  "mutability_index Mutable = 0"
| "mutability_index Immutable = 1"
| "mutability_index Foreign = 2"

fun access_index :: "receiver_access \<Rightarrow> nat" where
  "access_index AccessNone = 0"
| "access_index AccessRead = 1"
| "access_index AccessWrite = 2"

lemma mutability_index_inject: "mutability_index x = mutability_index y \<longleftrightarrow> x = y"
  by (cases x; cases y) simp_all

lemma access_index_inject: "access_index x = access_index y \<longleftrightarrow> x = y"
  by (cases x; cases y) simp_all

instantiation mutability :: linorder
begin

definition less_eq_mutability :: "mutability \<Rightarrow> mutability \<Rightarrow> bool" where
  "x \<le> y \<longleftrightarrow> mutability_index x \<le> mutability_index y"

definition less_mutability :: "mutability \<Rightarrow> mutability \<Rightarrow> bool" where
  "x < y \<longleftrightarrow> mutability_index x < mutability_index y"

instance
  by standard
    (auto simp: less_eq_mutability_def less_mutability_def mutability_index_inject)

end

instantiation receiver_access :: linorder
begin

definition less_eq_receiver_access :: "receiver_access \<Rightarrow> receiver_access \<Rightarrow> bool" where
  "x \<le> y \<longleftrightarrow> access_index x \<le> access_index y"

definition less_receiver_access :: "receiver_access \<Rightarrow> receiver_access \<Rightarrow> bool" where
  "x < y \<longleftrightarrow> access_index x < access_index y"

instance
  by standard
    (auto simp: less_eq_receiver_access_def less_receiver_access_def access_index_inject)

end

instantiation receiver_access :: order_bot
begin

definition bot_receiver_access :: receiver_access where
  "bot = AccessNone"

instance
  by standard (simp add: bot_receiver_access_def less_eq_receiver_access_def)

end

lemmas enum_order_defs =
  less_eq_mutability_def less_mutability_def
  less_eq_receiver_access_def less_receiver_access_def

lemma access_none_least [simp]: "AccessNone \<le> a"
  by (simp add: less_eq_receiver_access_def)

lemma access_write_greatest [simp]: "a \<le> AccessWrite"
  by (cases a) (simp_all add: less_eq_receiver_access_def)

lemma access_max_simps [simp]:
  "max AccessNone a = a" "max a AccessNone = a"
  "max AccessWrite a = AccessWrite" "max a AccessWrite = AccessWrite"
  by (auto simp: max_def antisym)

section \<open>Rounding up\<close>

text \<open>
  util::align_up of util.hpp on 64-bit words: the value (a ptrdiff_t) and the
  alignment (a size_t) are brought to 64 bits and the arithmetic wraps.
\<close>

definition align_up :: "64 word \<Rightarrow> 64 word \<Rightarrow> 64 word" where
  "align_up value alignment = (value + (alignment - 1)) AND NOT (alignment - 1)"

text \<open>util::is_lowercase (islower in the C locale).\<close>

definition is_lowercase :: "string \<Rightarrow> bool" where
  "is_lowercase s \<longleftrightarrow>
     (case s of [] \<Rightarrow> False | c # _ \<Rightarrow> (of_char c :: nat) \<ge> 97 \<and> (of_char c :: nat) \<le> 122)"

text \<open>The same rounding on unbounded naturals.\<close>

definition round_up :: "nat \<Rightarrow> nat \<Rightarrow> nat" where
  "round_up n a = (if a = 0 then 0 else a * ((n + (a - 1)) div a))"

lemma round_up_0 [simp]: "0 < a \<Longrightarrow> round_up 0 a = 0"
  by (simp add: round_up_def)

lemma round_up_quotient: "0 < a \<Longrightarrow> (a * k + (a - 1)) div a = (k :: nat)"
  by (rule div_nat_eqI) (simp_all add: algebra_simps)

lemma round_up_ge: "0 < a \<Longrightarrow> n \<le> round_up n a"
proof -
  assume a: "0 < a"
  define m where "m = n + (a - 1)"
  have "m = a * (m div a) + m mod a" by simp
  moreover have "m mod a < a" using a by simp
  ultimately have "n \<le> a * (m div a)" unfolding m_def by linarith
  then show ?thesis using a by (simp add: round_up_def m_def)
qed

lemma round_up_less: "0 < a \<Longrightarrow> round_up n a < n + a"
proof -
  assume a: "0 < a"
  have "a * ((n + (a - 1)) div a) \<le> n + (a - 1)" by simp
  then have "a * ((n + (a - 1)) div a) < n + a" using a by linarith
  then show ?thesis using a by (simp add: round_up_def)
qed

lemma round_up_dvd: "a dvd round_up n a"
  by (simp add: round_up_def)

lemma round_up_exact: "a dvd n \<Longrightarrow> 0 < a \<Longrightarrow> round_up n a = n"
  using round_up_quotient[of a "n div a"] by (simp add: round_up_def)

lemma round_up_least: "a dvd m \<Longrightarrow> n \<le> m \<Longrightarrow> 0 < a \<Longrightarrow> round_up n a \<le> m"
proof -
  assume a: "a dvd m" "n \<le> m" "0 < a"
  then obtain k where k: "m = a * k" by (auto simp: dvd_def)
  have "(n + (a - 1)) div a \<le> (a * k + (a - 1)) div a" using a k by (intro div_le_mono) simp
  also have "\<dots> = k" by (rule round_up_quotient[OF a(3)])
  finally show ?thesis using a(3) k by (simp add: round_up_def)
qed

lemma word_and_not_mask:
  "word_of_int i AND NOT (mask k) = word_of_int (2 ^ k * (i div 2 ^ k))"
  for i :: int
proof -
  have "2 ^ k * (i div 2 ^ k) = push_bit k (drop_bit k i)"
    by (simp add: push_bit_eq_mult drop_bit_eq_div mult.commute)
  moreover have "word_of_int i AND NOT (mask k) = word_of_int (push_bit k (drop_bit k i))"
    by (rule bit_word_eqI) (auto simp: bit_simps)
  ultimately show ?thesis by simp
qed

lemma align_up_zero [simp]: "align_up v 0 = 0"
  by (simp add: align_up_def)

lemma align_up_of_nat [layout_simps]:
  "align_up (of_nat n) (2 ^ k) = of_nat (round_up n (2 ^ k))"
proof -
  have "(of_nat (2 ^ k - 1) :: 64 word) = 2 ^ k - 1"
    by (subst of_nat_diff) simp_all
  then have e: "(of_nat n :: 64 word) + (2 ^ k - 1) = word_of_int (int (n + (2 ^ k - 1)))"
    by (subst of_int_of_nat_eq) (simp only: of_nat_add)
  have "align_up (of_nat n) (2 ^ k) = word_of_int (2 ^ k * (int (n + (2 ^ k - 1)) div 2 ^ k))"
    unfolding align_up_def e
    by (simp only: word_and_not_mask mask_eq_exp_minus_1 [symmetric])
  also have "2 ^ k * (int (n + (2 ^ k - 1)) div 2 ^ k) = int (2 ^ k * ((n + (2 ^ k - 1)) div 2 ^ k))"
    by (simp only: of_nat_mult of_nat_power of_nat_numeral zdiv_int)
  finally show ?thesis by (simp add: round_up_def)
qed

section \<open>Bytes\<close>

text \<open>Little-endian bytes of a 64-bit word and back.\<close>

fun le_bytes :: "nat \<Rightarrow> 64 word \<Rightarrow> 8 word list" where
  "le_bytes 0 w = []"
| "le_bytes (Suc k) w = ucast w # le_bytes k (drop_bit 8 w)"

fun le_word :: "8 word list \<Rightarrow> 64 word" where
  "le_word [] = 0"
| "le_word (b # bs) = ucast b OR push_bit 8 (le_word bs)"

lemma length_le_bytes [simp]: "length (le_bytes k w) = k"
  by (induction k arbitrary: w) simp_all

lemma le_word_bytes: "le_word (le_bytes k w) = take_bit (8 * k) w"
proof (induction k arbitrary: w)
  case (Suc k)
  show ?case
    by (rule bit_word_eqI) (auto simp: Suc.IH bit_simps)
qed simp

lemma le_word_bytes_8 [simp]: "le_word (le_bytes 8 w) = w"
  by (rule bit_word_eqI) (simp add: le_word_bytes bit_simps)

section \<open>Updating a stretch of a list\<close>

text \<open>memcpy into a byte array, and the stretch it reads.\<close>

definition blit :: "'a list \<Rightarrow> nat \<Rightarrow> 'a list \<Rightarrow> 'a list" where
  "blit xs i ys = take i xs @ ys @ drop (i + length ys) xs"

definition stretch :: "'a list \<Rightarrow> nat \<Rightarrow> nat \<Rightarrow> 'a list" where
  "stretch xs i n = take n (drop i xs)"

lemma length_blit [simp]: "i + length ys \<le> length xs \<Longrightarrow> length (blit xs i ys) = length xs"
  by (simp add: blit_def)

lemma length_stretch [simp]: "i + n \<le> length xs \<Longrightarrow> length (stretch xs i n) = n"
  by (simp add: stretch_def)

lemma nth_blit:
  "i + length ys \<le> length xs \<Longrightarrow> k < length xs \<Longrightarrow>
     blit xs i ys ! k = (if i \<le> k \<and> k < i + length ys then ys ! (k - i) else xs ! k)"
  by (auto simp: blit_def nth_append)

lemma nth_stretch: "i + n \<le> length xs \<Longrightarrow> k < n \<Longrightarrow> stretch xs i n ! k = xs ! (i + k)"
  by (simp add: stretch_def)

lemma stretch_blit_same [simp]:
  "i + length ys \<le> length xs \<Longrightarrow> n = length ys \<Longrightarrow> stretch (blit xs i ys) i n = ys"
  by (rule nth_equalityI) (simp_all add: nth_stretch nth_blit)

lemma stretch_blit_other:
  "i + length ys \<le> length xs \<Longrightarrow> j + n \<le> length xs \<Longrightarrow> j + n \<le> i \<or> i + length ys \<le> j \<Longrightarrow>
     stretch (blit xs i ys) j n = stretch xs j n"
  by (rule nth_equalityI) (auto simp: nth_stretch nth_blit)

lemma stretch_cong:
  "(\<And>k. k < n \<Longrightarrow> xs ! (i + k) = ys ! (i + k)) \<Longrightarrow> i + n \<le> length xs \<Longrightarrow> i + n \<le> length ys \<Longrightarrow>
     stretch xs i n = stretch ys i n"
  by (rule nth_equalityI) (simp_all add: nth_stretch)

end
