(* ===== verification/Types.thy ===== *)
theory Types
  imports Prelude
begin

text \<open>
  The type system of type.hpp and type.cpp: the ordered enumeration of kinds, the
  types as a datatype, the predicates over kinds, the canonical identity test
  are_identical and the pick functions that select the type of a binary operator.

  A C++ type object is known by its address.  Unnamed composite types
  that are cached per base (pointers, slices, arrays, heaps, maps) and the
  singletons are compared by address and by structure alike; struct, component,
  function, port, method and interface types are allocated afresh, so they carry
  the identity of their object (a natural number) and equality of the model is
  equality of addresses.  A named type is the index of its declaration; the type
  underneath is looked up in an environment, which NamedType::underlying_type
  keeps free of named types.
\<close>

section \<open>Kinds\<close>

datatype kind =
    Untyped_Nil_Kind | Untyped_Boolean_Kind | Untyped_Rune_Kind | Untyped_Integer_Kind
  | Untyped_Float_Kind | Untyped_Complex_Kind | Untyped_String_Kind
  | Bool_Kind | Uint8_Kind | Uint16_Kind | Uint32_Kind | Uint64_Kind
  | Int8_Kind | Int16_Kind | Int32_Kind | Int64_Kind
  | Float32_Kind | Float64_Kind | Complex64_Kind | Complex128_Kind
  | Uint_Kind | Int_Kind | Uintptr_Kind | String_Kind
  | Struct_Kind | Component_Kind | Array_Kind | Map_Kind | Pointer_Kind | Slice_Kind
  | Heap_Kind | Function_Kind | Push_Port_Kind | Pull_Port_Kind
  | Method_Kind | Initializer_Kind | Getter_Kind | Reaction_Kind
  | Interface_Kind | Polymorphic_Function_Kind | File_Descriptor_Kind | Named_Kind

text \<open>The enumerators in the order of their declaration; \<open><\<close> on kinds compares positions.\<close>

definition kinds :: "kind list" where
  "kinds =
    [Untyped_Nil_Kind, Untyped_Boolean_Kind, Untyped_Rune_Kind, Untyped_Integer_Kind,
     Untyped_Float_Kind, Untyped_Complex_Kind, Untyped_String_Kind,
     Bool_Kind, Uint8_Kind, Uint16_Kind, Uint32_Kind, Uint64_Kind,
     Int8_Kind, Int16_Kind, Int32_Kind, Int64_Kind,
     Float32_Kind, Float64_Kind, Complex64_Kind, Complex128_Kind,
     Uint_Kind, Int_Kind, Uintptr_Kind, String_Kind,
     Struct_Kind, Component_Kind, Array_Kind, Map_Kind, Pointer_Kind, Slice_Kind,
     Heap_Kind, Function_Kind, Push_Port_Kind, Pull_Port_Kind,
     Method_Kind, Initializer_Kind, Getter_Kind, Reaction_Kind,
     Interface_Kind, Polymorphic_Function_Kind, File_Descriptor_Kind, Named_Kind]"

fun position :: "'a list \<Rightarrow> 'a \<Rightarrow> nat" where
  "position [] x = 0"
| "position (y # ys) x = (if x = y then 0 else Suc (position ys x))"

definition kind_index :: "kind \<Rightarrow> nat" where
  "kind_index k = position kinds k"

lemma nth_position: "x \<in> set xs \<Longrightarrow> xs ! position xs x = x"
  by (induction xs) auto

lemma in_kinds: "k \<in> set kinds"
  by (cases k) (simp_all add: kinds_def)

lemma kind_index_inject: "kind_index x = kind_index y \<longleftrightarrow> x = y"
  unfolding kind_index_def by (metis nth_position in_kinds)

instantiation kind :: linorder
begin

definition less_eq_kind :: "kind \<Rightarrow> kind \<Rightarrow> bool" where
  "x \<le> y \<longleftrightarrow> kind_index x \<le> kind_index y"

definition less_kind :: "kind \<Rightarrow> kind \<Rightarrow> bool" where
  "x < y \<longleftrightarrow> kind_index x < kind_index y"

instance
  by standard (auto simp: less_eq_kind_def less_kind_def kind_index_inject)

end

lemmas kind_order_eval =
  less_eq_kind_def less_kind_def kind_index_def kinds_def

section \<open>Types\<close>

datatype parameter_kind = Ordinary | Ordinary_Duplicate | Receiver | Receiver_Duplicate | Return

text \<open>
  The types with a single instance (the Scalar template, String, FileDescriptor,
  PolymorphicFunction and the untyped types of constants).
\<close>

datatype singleton =
    UntypedNil | UntypedBoolean | UntypedRune | UntypedInteger
  | UntypedFloat | UntypedComplex | UntypedString
  | Bool | Uint8 | Uint16 | Uint32 | Uint64 | Int8 | Int16 | Int32 | Int64
  | Float32 | Float64 | Complex64 | Complex128 | Uint | Intt | Uintptr | String
  | PolymorphicFunction | FileDescriptor

text \<open>The classes derived from Struct, FunctionBase and MethodBase.\<close>

datatype struct_class = Plain_Struct | Component
datatype function_class = Function | PushPort | PullPort
datatype method_class = Method | Initializer | Getter | Reaction

datatype ty =
    Basic singleton
  | Struct struct_class nat "field list"
  | Array ty int
  | Mapt ty ty
  | Pointer ty
  | Slice ty
  | Heap ty
  | FunctionBase function_class nat parameter_list parameter_list
  | MethodBase method_class nat nat parameter parameter_list parameter_list
  | Interface nat nat "(string \<times> ty) list"
  | NamedType nat
and field =
    Field (fpackage: nat) (is_anonymous: bool) (fname: string) (ftype: ty) (ftags: "string set")
and parameter =
    Parameter (pname: string) (ptype: ty)
      (pintrinsic: mutability) (pindirection: mutability) (pkind: parameter_kind)
and parameter_list =
    Parameter_List (parameters: "parameter list") (is_variadic: bool)

fun singleton_kind :: "singleton \<Rightarrow> kind" where
  "singleton_kind UntypedNil = Untyped_Nil_Kind"
| "singleton_kind UntypedBoolean = Untyped_Boolean_Kind"
| "singleton_kind UntypedRune = Untyped_Rune_Kind"
| "singleton_kind UntypedInteger = Untyped_Integer_Kind"
| "singleton_kind UntypedFloat = Untyped_Float_Kind"
| "singleton_kind UntypedComplex = Untyped_Complex_Kind"
| "singleton_kind UntypedString = Untyped_String_Kind"
| "singleton_kind Bool = Bool_Kind"
| "singleton_kind Uint8 = Uint8_Kind"
| "singleton_kind Uint16 = Uint16_Kind"
| "singleton_kind Uint32 = Uint32_Kind"
| "singleton_kind Uint64 = Uint64_Kind"
| "singleton_kind Int8 = Int8_Kind"
| "singleton_kind Int16 = Int16_Kind"
| "singleton_kind Int32 = Int32_Kind"
| "singleton_kind Int64 = Int64_Kind"
| "singleton_kind Float32 = Float32_Kind"
| "singleton_kind Float64 = Float64_Kind"
| "singleton_kind Complex64 = Complex64_Kind"
| "singleton_kind Complex128 = Complex128_Kind"
| "singleton_kind Uint = Uint_Kind"
| "singleton_kind Intt = Int_Kind"
| "singleton_kind Uintptr = Uintptr_Kind"
| "singleton_kind String = String_Kind"
| "singleton_kind PolymorphicFunction = Polymorphic_Function_Kind"
| "singleton_kind FileDescriptor = File_Descriptor_Kind"

fun struct_kind :: "struct_class \<Rightarrow> kind" where
  "struct_kind Plain_Struct = Struct_Kind"
| "struct_kind Component = Component_Kind"

fun function_kind :: "function_class \<Rightarrow> kind" where
  "function_kind Function = Function_Kind"
| "function_kind PushPort = Push_Port_Kind"
| "function_kind PullPort = Pull_Port_Kind"

fun method_kind :: "method_class \<Rightarrow> kind" where
  "method_kind Method = Method_Kind"
| "method_kind Initializer = Initializer_Kind"
| "method_kind Getter = Getter_Kind"
| "method_kind Reaction = Reaction_Kind"

text \<open>The virtual function Type::kind.\<close>

fun kind_of :: "ty \<Rightarrow> kind" where
  "kind_of (Basic s) = singleton_kind s"
| "kind_of (Struct c i fs) = struct_kind c"
| "kind_of (Array b d) = Array_Kind"
| "kind_of (Mapt k v) = Map_Kind"
| "kind_of (Pointer b) = Pointer_Kind"
| "kind_of (Slice b) = Slice_Kind"
| "kind_of (Heap b) = Heap_Kind"
| "kind_of (FunctionBase c i ps rs) = function_kind c"
| "kind_of (MethodBase c i n r ps rs) = method_kind c"
| "kind_of (Interface i p ms) = Interface_Kind"
| "kind_of (NamedType n) = Named_Kind"

lemma singleton_kind_inject [simp]: "singleton_kind s = singleton_kind s' \<longleftrightarrow> s = s'"
  by (cases s; cases s'; simp)

lemma struct_kind_inject [simp]: "struct_kind c = struct_kind c' \<longleftrightarrow> c = c'"
  by (cases c; cases c') simp_all

lemma function_kind_inject [simp]: "function_kind c = function_kind c' \<longleftrightarrow> c = c'"
  by (cases c; cases c') simp_all

lemma method_kind_inject [simp]: "method_kind c = method_kind c' \<longleftrightarrow> c = c'"
  by (cases c; cases c') simp_all

text \<open>The ranges of the kind functions are disjoint.\<close>

lemma singleton_kind_disjoint [simp]:
  "singleton_kind s \<noteq> struct_kind c"
  "singleton_kind s \<noteq> function_kind f"
  "singleton_kind s \<noteq> method_kind m"
  "singleton_kind s \<noteq> Array_Kind"
  "singleton_kind s \<noteq> Map_Kind"
  "singleton_kind s \<noteq> Pointer_Kind"
  "singleton_kind s \<noteq> Slice_Kind"
  "singleton_kind s \<noteq> Heap_Kind"
  "singleton_kind s \<noteq> Interface_Kind"
  "singleton_kind s \<noteq> Named_Kind"
  by ((cases c; cases s; simp; fail) | (cases f; cases s; simp; fail) |
      (cases m; cases s; simp; fail) | (cases s; simp; fail))+

lemma struct_kind_disjoint [simp]:
  "struct_kind c \<noteq> function_kind f"
  "struct_kind c \<noteq> method_kind m"
  "struct_kind c \<noteq> Array_Kind"
  "struct_kind c \<noteq> Map_Kind"
  "struct_kind c \<noteq> Pointer_Kind"
  "struct_kind c \<noteq> Slice_Kind"
  "struct_kind c \<noteq> Heap_Kind"
  "struct_kind c \<noteq> Interface_Kind"
  "struct_kind c \<noteq> Named_Kind"
  by (cases c; cases f; cases m; simp; fail)+

lemma function_kind_disjoint [simp]:
  "function_kind f \<noteq> method_kind m"
  "function_kind f \<noteq> Array_Kind"
  "function_kind f \<noteq> Map_Kind"
  "function_kind f \<noteq> Pointer_Kind"
  "function_kind f \<noteq> Slice_Kind"
  "function_kind f \<noteq> Heap_Kind"
  "function_kind f \<noteq> Interface_Kind"
  "function_kind f \<noteq> Named_Kind"
  by (cases f; cases m; simp; fail)+

lemma method_kind_disjoint [simp]:
  "method_kind m \<noteq> Array_Kind"
  "method_kind m \<noteq> Map_Kind"
  "method_kind m \<noteq> Pointer_Kind"
  "method_kind m \<noteq> Slice_Kind"
  "method_kind m \<noteq> Heap_Kind"
  "method_kind m \<noteq> Interface_Kind"
  "method_kind m \<noteq> Named_Kind"
  by (cases m; simp; fail)+

lemmas kind_disjoint_sym [simp] =
  singleton_kind_disjoint [symmetric] struct_kind_disjoint [symmetric]
  function_kind_disjoint [symmetric] method_kind_disjoint [symmetric]

section \<open>Named types and the type underneath\<close>

text \<open>
  A type environment gives underlyingType_ of each declared name.  The
  constructor and the setter of NamedType store \<open>u->underlying_type ()\<close> and assert
  that it is unnamed (neither untyped nor named): \<open>wf_tenv\<close>.
\<close>

definition is_untyped :: "ty \<Rightarrow> bool" where
  "is_untyped t \<longleftrightarrow> Untyped_Nil_Kind \<le> kind_of t \<and> kind_of t \<le> Untyped_String_Kind"

definition is_unnamed :: "ty \<Rightarrow> bool" where
  "is_unnamed t \<longleftrightarrow> Bool_Kind \<le> kind_of t \<and> kind_of t \<le> File_Descriptor_Kind"

type_synonym tenv = "nat \<Rightarrow> ty"

fun is_named :: "ty \<Rightarrow> bool" where
  "is_named (NamedType n) = True"
| "is_named t = False"

fun underlying_type :: "tenv \<Rightarrow> ty \<Rightarrow> ty" where
  "underlying_type env (NamedType n) = env n"
| "underlying_type env t = t"

definition set_underlying_type :: "tenv \<Rightarrow> nat \<Rightarrow> ty \<Rightarrow> tenv" where
  "set_underlying_type env n u = env(n := underlying_type env u)"

definition wf_tenv :: "tenv \<Rightarrow> bool" where
  "wf_tenv env \<longleftrightarrow> (\<forall>n. is_unnamed (env n))"

definition underlying_kind :: "tenv \<Rightarrow> ty \<Rightarrow> kind" where
  "underlying_kind env t = kind_of (underlying_type env t)"

lemma kind_named: "kind_of t = Named_Kind \<longleftrightarrow> is_named t"
  by (cases t) simp_all

text \<open>Inversion: the kind of a type determines its constructor.\<close>

lemma kind_of_eq:
  "kind_of t = singleton_kind s \<longleftrightarrow> t = Basic s"
  "kind_of t = struct_kind c \<longleftrightarrow> (\<exists>i fs. t = Struct c i fs)"
  "kind_of t = function_kind f \<longleftrightarrow> (\<exists>i ps rs. t = FunctionBase f i ps rs)"
  "kind_of t = method_kind m \<longleftrightarrow> (\<exists>i n r ps rs. t = MethodBase m i n r ps rs)"
  "kind_of t = Array_Kind \<longleftrightarrow> (\<exists>b d. t = Array b d)"
  "kind_of t = Map_Kind \<longleftrightarrow> (\<exists>k v. t = Mapt k v)"
  "kind_of t = Pointer_Kind \<longleftrightarrow> (\<exists>b. t = Pointer b)"
  "kind_of t = Slice_Kind \<longleftrightarrow> (\<exists>b. t = Slice b)"
  "kind_of t = Heap_Kind \<longleftrightarrow> (\<exists>b. t = Heap b)"
  "kind_of t = Interface_Kind \<longleftrightarrow> (\<exists>i p ms. t = Interface i p ms)"
  by (cases t; simp; fail)+

lemma kind_index_range:
  "kind_index k \<le> kind_index Named_Kind"
  "k \<noteq> Named_Kind \<longleftrightarrow> k \<le> File_Descriptor_Kind"
  by (cases k; simp add: kind_order_eval)+

lemma kind_partition:
  "k \<le> Untyped_String_Kind \<or> (Bool_Kind \<le> k \<and> k \<le> File_Descriptor_Kind) \<or> k = Named_Kind"
  by (cases k) (simp_all add: kind_order_eval)

lemma underlying_unnamed [simp]: "\<not> is_named t \<Longrightarrow> underlying_type env t = t"
  by (cases t) simp_all

lemma unnamed_not_named: "is_unnamed t \<Longrightarrow> \<not> is_named t"
  by (simp add: is_unnamed_def kind_named [symmetric] kind_index_range(2))

lemma underlying_not_named: "wf_tenv env \<Longrightarrow> \<not> is_named (underlying_type env t)"
  by (cases t) (simp_all add: wf_tenv_def unnamed_not_named)

lemma set_underlying_type_wf:
  "wf_tenv env \<Longrightarrow> is_unnamed (underlying_type env u) \<Longrightarrow> wf_tenv (set_underlying_type env n u)"
  by (simp add: wf_tenv_def set_underlying_type_def)

text \<open>Exactly the types that are neither untyped nor named are unnamed.\<close>

lemma unnamed_iff: "is_unnamed t \<longleftrightarrow> \<not> is_untyped t \<and> \<not> is_named t"
proof -
  have "Untyped_Nil_Kind \<le> kind_of t"
    by (cases "kind_of t") (simp_all add: kind_order_eval)
  moreover have "\<not> (Bool_Kind \<le> k \<and> k \<le> Untyped_String_Kind)" for k
    by (cases k) (simp_all add: kind_order_eval)
  ultimately show ?thesis
    using kind_partition[of "kind_of t"] kind_index_range(2)[of "kind_of t"]
    unfolding is_unnamed_def is_untyped_def kind_named [symmetric] by blast
qed

text \<open>The predeclared names of type.cpp, in the order of their definition.\<close>

definition named_bool :: ty where "named_bool = NamedType 0"
definition named_uint8 :: ty where "named_uint8 = NamedType 1"
definition named_uint16 :: ty where "named_uint16 = NamedType 2"
definition named_uint32 :: ty where "named_uint32 = NamedType 3"
definition named_uint64 :: ty where "named_uint64 = NamedType 4"
definition named_int8 :: ty where "named_int8 = NamedType 5"
definition named_int16 :: ty where "named_int16 = NamedType 6"
definition named_int32 :: ty where "named_int32 = NamedType 7"
definition named_int64 :: ty where "named_int64 = NamedType 8"
definition named_float32 :: ty where "named_float32 = NamedType 9"
definition named_float64 :: ty where "named_float64 = NamedType 10"
definition named_complex64 :: ty where "named_complex64 = NamedType 11"
definition named_complex128 :: ty where "named_complex128 = NamedType 12"
definition named_byte :: ty where "named_byte = NamedType 13"
definition named_rune :: ty where "named_rune = NamedType 14"
definition named_uint :: ty where "named_uint = NamedType 15"
definition named_int :: ty where "named_int = NamedType 16"
definition named_uintptr :: ty where "named_uintptr = NamedType 17"
definition named_string :: ty where "named_string = NamedType 18"
definition named_file_descriptor :: ty where "named_file_descriptor = NamedType 19"
definition named_timespec :: ty where "named_timespec = NamedType 20"

lemmas named_defs =
  named_bool_def named_uint8_def named_uint16_def named_uint32_def named_uint64_def
  named_int8_def named_int16_def named_int32_def named_int64_def
  named_float32_def named_float64_def named_complex64_def named_complex128_def
  named_byte_def named_rune_def named_uint_def named_int_def named_uintptr_def
  named_string_def named_file_descriptor_def named_timespec_def

definition predeclared_list :: "ty list" where
  "predeclared_list =
     [Basic Bool, Basic Uint8, Basic Uint16, Basic Uint32, Basic Uint64,
      Basic Int8, Basic Int16, Basic Int32, Basic Int64, Basic Float32, Basic Float64,
      Basic Complex64, Basic Complex128, Basic Uint8, Basic Int32,
      Basic Uint, Basic Intt, Basic Uintptr, Basic String, Basic FileDescriptor,
      Struct Plain_Struct 0
        [Field 0 False ''tv_sec'' named_uint64 {}, Field 0 False ''tv_nsec'' named_uint64 {}]]"

text \<open>An environment that has the predeclared names and no others of interest.\<close>

definition predeclared :: tenv where
  "predeclared n = (if n < 21 then predeclared_list ! n else Basic Bool)"

end
