(* ===== verification/Identity.thy ===== *)
theory Identity
  imports Types
begin

text \<open>
  The predicates and selections of type.cpp over the types of Types: membership
  of a kind in the classes of the language, the constructor-specific views
  (to_pointer and the like), field lookup through names and pointers, the heap
  type operations move and merge_change, the identity of types and the choice of
  the type of a binary operator.
\<close>

section \<open>Predicates over kinds\<close>

definition is_numeric :: "tenv \<Rightarrow> ty \<Rightarrow> bool" where
  "is_numeric env t \<longleftrightarrow> underlying_kind env t \<in>
     {Untyped_Rune_Kind, Untyped_Integer_Kind, Untyped_Float_Kind, Untyped_Complex_Kind,
      Uint8_Kind, Uint16_Kind, Uint32_Kind, Uint64_Kind, Int8_Kind, Int16_Kind, Int32_Kind,
      Int64_Kind, Float32_Kind, Float64_Kind, Complex64_Kind, Complex128_Kind,
      Uint_Kind, Int_Kind, Uintptr_Kind}"

definition is_typed_integer :: "tenv \<Rightarrow> ty \<Rightarrow> bool" where
  "is_typed_integer env t \<longleftrightarrow> kind_of (underlying_type env t) \<in>
     {Uint8_Kind, Uint16_Kind, Uint32_Kind, Uint64_Kind, Int8_Kind, Int16_Kind, Int32_Kind,
      Int64_Kind, Uint_Kind, Int_Kind, Uintptr_Kind}"

definition is_typed_unsigned_integer :: "tenv \<Rightarrow> ty \<Rightarrow> bool" where
  "is_typed_unsigned_integer env t \<longleftrightarrow> underlying_kind env t \<in>
     {Uint8_Kind, Uint16_Kind, Uint32_Kind, Uint64_Kind, Uint_Kind}"

definition is_typed_float :: "tenv \<Rightarrow> ty \<Rightarrow> bool" where
  "is_typed_float env t \<longleftrightarrow> underlying_kind env t \<in> {Float32_Kind, Float64_Kind}"

definition is_typed_complex :: "tenv \<Rightarrow> ty \<Rightarrow> bool" where
  "is_typed_complex env t \<longleftrightarrow> underlying_kind env t \<in> {Complex64_Kind, Complex128_Kind}"

definition is_typed_numeric :: "tenv \<Rightarrow> ty \<Rightarrow> bool" where
  "is_typed_numeric env t \<longleftrightarrow> underlying_kind env t \<in>
     {Uint8_Kind, Uint16_Kind, Uint32_Kind, Uint64_Kind, Int8_Kind, Int16_Kind, Int32_Kind,
      Int64_Kind, Float32_Kind, Float64_Kind, Complex64_Kind, Complex128_Kind,
      Uint_Kind, Int_Kind, Uintptr_Kind}"

definition is_untyped_numeric :: "tenv \<Rightarrow> ty \<Rightarrow> bool" where
  "is_untyped_numeric env t \<longleftrightarrow> underlying_kind env t \<in>
     {Untyped_Rune_Kind, Untyped_Integer_Kind, Untyped_Float_Kind, Untyped_Complex_Kind}"

definition is_typed_string :: "tenv \<Rightarrow> ty \<Rightarrow> bool" where
  "is_typed_string env t \<longleftrightarrow> underlying_kind env t = String_Kind"

definition is_any_string :: "tenv \<Rightarrow> ty \<Rightarrow> bool" where
  "is_any_string env t \<longleftrightarrow>
     underlying_kind env t = String_Kind \<or> underlying_kind env t = Untyped_String_Kind"

definition is_arithmetic :: "tenv \<Rightarrow> ty \<Rightarrow> bool" where
  "is_arithmetic env t \<longleftrightarrow> underlying_kind env t \<in>
     {Uint8_Kind, Uint16_Kind, Uint32_Kind, Uint64_Kind, Int8_Kind, Int16_Kind, Int32_Kind,
      Int64_Kind, Float32_Kind, Float64_Kind, Complex64_Kind, Complex128_Kind,
      Uint_Kind, Int_Kind, Uintptr_Kind,
      Untyped_Rune_Kind, Untyped_Integer_Kind, Untyped_Float_Kind, Untyped_Complex_Kind}"

definition is_integral :: "tenv \<Rightarrow> ty \<Rightarrow> bool" where
  "is_integral env t \<longleftrightarrow> underlying_kind env t \<in>
     {Uint8_Kind, Uint16_Kind, Uint32_Kind, Uint64_Kind, Int8_Kind, Int16_Kind, Int32_Kind,
      Int64_Kind, Uint_Kind, Int_Kind, Uintptr_Kind, Untyped_Rune_Kind, Untyped_Integer_Kind}"

definition is_any_boolean :: "tenv \<Rightarrow> ty \<Rightarrow> bool" where
  "is_any_boolean env t \<longleftrightarrow>
     underlying_kind env t = Bool_Kind \<or> underlying_kind env t = Untyped_Boolean_Kind"

section \<open>Views\<close>

fun to_pointer :: "ty \<Rightarrow> ty option" where
  "to_pointer (Pointer b) = Some b"
| "to_pointer _ = None"

fun to_slice :: "ty \<Rightarrow> ty option" where
  "to_slice (Slice b) = Some b"
| "to_slice _ = None"

fun to_array :: "ty \<Rightarrow> (ty \<times> int) option" where
  "to_array (Array b d) = Some (b, d)"
| "to_array _ = None"

fun to_heap :: "ty \<Rightarrow> ty option" where
  "to_heap (Heap b) = Some b"
| "to_heap _ = None"

fun to_struct :: "ty \<Rightarrow> field list option" where
  "to_struct (Struct c i fs) = Some fs"
| "to_struct _ = None"

definition is_slice_of_bytes :: "tenv \<Rightarrow> ty \<Rightarrow> bool" where
  "is_slice_of_bytes env t =
     (case to_slice (underlying_type env t) of
        None \<Rightarrow> False
      | Some b \<Rightarrow> kind_of (underlying_type env b) = Uint8_Kind)"

definition is_slice_of_runes :: "tenv \<Rightarrow> ty \<Rightarrow> bool" where
  "is_slice_of_runes env t =
     (case to_slice (underlying_type env t) of
        None \<Rightarrow> False
      | Some b \<Rightarrow> kind_of (underlying_type env b) = Int32_Kind)"

definition pointer_to_array :: "tenv \<Rightarrow> ty \<Rightarrow> ty option" where
  "pointer_to_array env t =
     (case to_pointer (underlying_type env t) of
        None \<Rightarrow> None
      | Some b \<Rightarrow> if underlying_kind env b = Array_Kind then Some (Pointer b) else None)"

text \<open>Get a type making this type the base type.\<close>

definition get_pointer :: "ty \<Rightarrow> ty" where "get_pointer t = Pointer t"
definition get_slice :: "ty \<Rightarrow> ty" where "get_slice t = Slice t"
definition get_heap :: "ty \<Rightarrow> ty" where "get_heap t = Heap t"
definition get_array :: "ty \<Rightarrow> int \<Rightarrow> ty" where "get_array t d = Array t d"

section \<open>Field lookup\<close>

text \<open>
  Struct::find_field_i, Pointer::find_field_i and Type::find_field.  A pointer
  looks through to its base type, whatever that is, so a chain of pointers is
  followed to its end; a named type goes to the type underneath.  A name may stand
  for a pointer to itself, so the recursion is bounded by fuel.
\<close>

fun find_in_fields :: "field list \<Rightarrow> string \<Rightarrow> field option" where
  "find_in_fields [] name = None"
| "find_in_fields (f # fs) name = (if name = fname f then Some f else find_in_fields fs name)"

fun find_field :: "tenv \<Rightarrow> nat \<Rightarrow> ty \<Rightarrow> string \<Rightarrow> field option outcome" where
  "find_field env 0 t name = Inl Out_of_fuel"
| "find_field env (Suc n) t name =
     (case underlying_type env t of
        Struct c i fs \<Rightarrow> Inr (find_in_fields fs name)
      | Pointer b \<Rightarrow> find_field env n b name
      | _ \<Rightarrow> Inr None)"

text \<open>Struct::append_field; the constructor of Component appends the runtime pointer.\<close>

definition append_field :: "field list \<Rightarrow> nat \<Rightarrow> bool \<Rightarrow> string \<Rightarrow> ty \<Rightarrow> string set \<Rightarrow> field list" where
  "append_field fs package anonymous name t tags = fs @ [Field package anonymous name t tags]"

definition make_component :: "nat \<Rightarrow> nat \<Rightarrow> ty" where
  "make_component i package =
     Struct Component i
       (append_field [] package True ''0runtime'' (get_pointer (Basic Int32)) {})"

section \<open>Heap types\<close>

definition move :: "ty \<Rightarrow> ty option" where
  "move t =
     (case to_pointer t of
        None \<Rightarrow> None
      | Some b \<Rightarrow> (case to_heap b of None \<Rightarrow> None | Some h \<Rightarrow> Some (Pointer b)))"

definition merge_change :: "ty \<Rightarrow> ty option" where
  "merge_change t =
     (case to_pointer t of
        None \<Rightarrow> None
      | Some b \<Rightarrow> (case to_heap b of None \<Rightarrow> None | Some h \<Rightarrow> Some (get_pointer h)))"

section \<open>Function types of methods\<close>

text \<open>MethodBase::make_function_type: the receiver becomes the first parameter.\<close>

definition make_function_type :: "nat \<Rightarrow> parameter \<Rightarrow> parameter_list \<Rightarrow> parameter_list \<Rightarrow> ty" where
  "make_function_type i receiver ps rs =
     FunctionBase Function i (Parameter_List (receiver # parameters ps) False) rs"

section \<open>Default types\<close>

fun default_type :: "ty \<Rightarrow> ty" where
  "default_type (Basic s) =
     (case s of
        UntypedBoolean \<Rightarrow> named_bool
      | UntypedRune \<Rightarrow> named_rune
      | UntypedInteger \<Rightarrow> named_int
      | UntypedFloat \<Rightarrow> named_float64
      | UntypedComplex \<Rightarrow> named_complex128
      | UntypedString \<Rightarrow> named_string
      | _ \<Rightarrow> Basic s)"
| "default_type t = t"

section \<open>Identity\<close>

text \<open>
  are_identical of type.cpp, with function_base_are_identical.  The switch runs
  only on two distinct unnamed types of one kind; its default branch aborts.
\<close>

definition byte_pair :: "ty \<Rightarrow> ty \<Rightarrow> bool" where
  "byte_pair x y \<longleftrightarrow>
     (x = named_uint8 \<and> y = named_byte) \<or> (x = named_byte \<and> y = named_uint8)"

definition oand :: "bool outcome \<Rightarrow> bool outcome \<Rightarrow> bool outcome" where
  "oand p q = obind p (\<lambda>b. if b then q else Inr False)"

lemma oand_cong [fundef_cong]:
  "p = p' \<Longrightarrow> (p' = Inr True \<Longrightarrow> q = q') \<Longrightarrow> oand p q = oand p' q'"
  by (auto simp: oand_def obind_def split: sum.splits)

lemma oand_simps [simp]:
  "oand (Inr True) q = q" "oand (Inr False) q = Inr False" "oand (Inl e) q = Inl e"
  by (simp_all add: oand_def)

lemma oand_eq_True [outcome_simps]:
  "oand p q = Inr True \<longleftrightarrow> p = Inr True \<and> q = Inr True"
  by (cases p) (auto simp: oand_def)

fun to_map :: "ty \<Rightarrow> (ty \<times> ty) option" where
  "to_map (Mapt k v) = Some (k, v)"
| "to_map _ = None"

fun to_function_base :: "ty \<Rightarrow> (parameter_list \<times> parameter_list) option" where
  "to_function_base (FunctionBase c i ps rs) = Some (ps, rs)"
| "to_function_base _ = None"

fun to_interface :: "ty \<Rightarrow> (nat \<times> (string \<times> ty) list) option" where
  "to_interface (Interface i p ms) = Some (p, ms)"
| "to_interface _ = None"

function (sequential) are_identical :: "ty \<Rightarrow> ty \<Rightarrow> bool outcome"
and fields_identical :: "field list \<Rightarrow> field list \<Rightarrow> bool outcome"
and parameters_identical :: "parameter list \<Rightarrow> parameter list \<Rightarrow> bool outcome"
and methods_identical ::
  "nat \<Rightarrow> nat \<Rightarrow> (string \<times> ty) list \<Rightarrow> (string \<times> ty) list \<Rightarrow> bool outcome"
where
  "are_identical x y =
     (if byte_pair x y then Inr True
      else if x = y then Inr True
      else if is_named x \<or> is_named y then Inr False
      else if kind_of x \<noteq> kind_of y then Inr False
      else (case x of
          Array b1 d1 \<Rightarrow>
            (case to_array y of
               Some (b2, d2) \<Rightarrow> oand (are_identical b1 b2) (Inr (d1 = d2))
             | None \<Rightarrow> Inl Not_reached)
        | Slice b1 \<Rightarrow>
            (case to_slice y of Some b2 \<Rightarrow> are_identical b1 b2 | None \<Rightarrow> Inl Not_reached)
        | Struct c1 i1 fs1 \<Rightarrow>
            (case to_struct y of
               Some fs2 \<Rightarrow>
                 (if length fs1 \<noteq> length fs2 then Inr False else fields_identical fs1 fs2)
             | None \<Rightarrow> Inl Not_reached)
        | Pointer b1 \<Rightarrow>
            (case to_pointer y of Some b2 \<Rightarrow> are_identical b1 b2 | None \<Rightarrow> Inl Not_reached)
        | FunctionBase c1 i1 (Parameter_List ps1 v1) (Parameter_List rs1 w1) \<Rightarrow>
            (case to_function_base y of
               Some (ps2, rs2) \<Rightarrow>
                 (if length ps1 \<noteq> length (parameters ps2) then Inr False
                  else if length rs1 \<noteq> length (parameters rs2) then Inr False
                  else if w1 \<noteq> is_variadic rs2 then Inr False
                  else oand (parameters_identical ps1 (parameters ps2))
                            (parameters_identical rs1 (parameters rs2)))
             | None \<Rightarrow> Inl Not_reached)
        | Interface i1 p1 ms1 \<Rightarrow>
            (case to_interface y of
               Some (p2, ms2) \<Rightarrow>
                 (if length ms1 \<noteq> length ms2 then Inr False
                  else methods_identical p1 p2 ms1 ms2)
             | None \<Rightarrow> Inl Not_reached)
        | Mapt k1 v1 \<Rightarrow>
            (case to_map y of
               Some (k2, v2) \<Rightarrow> oand (are_identical k1 k2) (are_identical v1 v2)
             | None \<Rightarrow> Inl Not_reached)
        | Heap b1 \<Rightarrow>
            (case to_heap y of Some b2 \<Rightarrow> are_identical b1 b2 | None \<Rightarrow> Inl Not_reached)
        | Basic s1 \<Rightarrow> Inl Not_reached
        | MethodBase c1 i1 n1 r1 ps1 rs1 \<Rightarrow> Inl Not_reached
        | NamedType n1 \<Rightarrow> Inl Not_reached))"
| "fields_identical (Field p1 a1 n1 t1 g1 # fs1) (f2 # fs2) =
     (if a1 \<noteq> is_anonymous f2 then Inr False
      else if \<not> a1 \<and> n1 \<noteq> fname f2 then Inr False
      else if \<not> a1 \<and> is_lowercase n1 \<and> p1 \<noteq> fpackage f2 then Inr False
      else oand (are_identical t1 (ftype f2))
        (if g1 \<noteq> ftags f2 then Inr False else fields_identical fs1 fs2))"
| "fields_identical fs1 fs2 = Inr True"
| "parameters_identical (Parameter n1 t1 i1 m1 k1 # ps1) (q2 # ps2) =
     oand (are_identical t1 (ptype q2)) (parameters_identical ps1 ps2)"
| "parameters_identical ps1 ps2 = Inr True"
| "methods_identical p1 p2 ((n1, t1) # ms1) (m2 # ms2) =
     (if n1 \<noteq> fst m2 then Inr False
      else if is_lowercase n1 \<and> p1 \<noteq> p2 then Inr False
      else oand (are_identical t1 (snd m2)) (methods_identical p1 p2 ms1 ms2))"
| "methods_identical p1 p2 ms1 ms2 = Inr True"

  by pat_completeness auto

termination
  by (relation "measure (\<lambda>a. case a of
        Inl (Inl (x, y)) \<Rightarrow> size x
      | Inl (Inr (fs, gs)) \<Rightarrow> size_list size fs
      | Inr (Inl (ps, qs)) \<Rightarrow> size_list size ps
      | Inr (Inr (p, q, ms, ns)) \<Rightarrow> size_list (size_prod (\<lambda>_. 0) size) ms)") simp_all

declare are_identical.simps [simp del]

text \<open>
  The canonical form of a type drops what identity ignores: the address of the
  object, the package of exported fields and methods, the names of anonymous
  fields, the names and mutabilities of parameters, whether the parameters are
  variadic, and the difference between byte and uint8.
\<close>

fun canonical :: "ty \<Rightarrow> ty"
and canonical_field :: "field \<Rightarrow> field"
and canonical_parameter :: "parameter \<Rightarrow> parameter"
and canonical_parameters :: "parameter_list \<Rightarrow> parameter_list"
where
  "canonical (Basic s) = Basic s"
| "canonical (Struct c i fs) = Struct c 0 (map canonical_field fs)"
| "canonical (Array b d) = Array (canonical b) d"
| "canonical (Mapt k v) = Mapt (canonical k) (canonical v)"
| "canonical (Pointer b) = Pointer (canonical b)"
| "canonical (Slice b) = Slice (canonical b)"
| "canonical (Heap b) = Heap (canonical b)"
| "canonical (FunctionBase c i (Parameter_List ps v) rs) =
     FunctionBase c 0 (Parameter_List (map canonical_parameter ps) False) (canonical_parameters rs)"
| "canonical (MethodBase c i n r ps rs) = MethodBase c i n r ps rs"
| "canonical (Interface i p ms) =
     Interface 0 (if \<exists>m \<in> set ms. is_lowercase (fst m) then p else 0)
       (map (\<lambda>(n, t). (n, canonical t)) ms)"
| "canonical (NamedType n) = (if NamedType n = named_byte then named_uint8 else NamedType n)"
| "canonical_field (Field p a n t g) =
     Field (if \<not> a \<and> is_lowercase n then p else 0) a (if a then [] else n) (canonical t) g"
| "canonical_parameter (Parameter n t i m k) = Parameter [] (canonical t) Mutable Mutable Ordinary"
| "canonical_parameters (Parameter_List ps v) = Parameter_List (map canonical_parameter ps) v"

lemma kind_canonical [simp]: "kind_of (canonical t) = kind_of t"
proof (cases t)
  case (FunctionBase c i ps rs) then show ?thesis by (cases ps) simp
qed (simp_all add: named_uint8_def)

lemma byte_pair_canonical: "byte_pair x y \<Longrightarrow> canonical x = canonical y"
  by (auto simp: byte_pair_def named_defs)

lemma canonical_named:
  assumes "is_named x \<or> is_named y" "x \<noteq> y" "canonical x = canonical y"
  shows "byte_pair x y"
proof -
  from assms(1,3) have "is_named x" "is_named y"
    by (metis kind_canonical kind_named)+
  then obtain m n where "x = NamedType m" "y = NamedType n"
    by (metis is_named.elims(2))
  with assms(2,3) show ?thesis
    by (auto simp: byte_pair_def named_defs split: if_splits)
qed

lemma canonical_parameter_eq:
  "canonical_parameter p = canonical_parameter q \<longleftrightarrow> canonical (ptype p) = canonical (ptype q)"
  by (cases p; cases q) simp

text \<open>The branches of the switch, on two distinct types of one kind.\<close>

lemma are_identical_unfold:
  "are_identical (Array b d) (Array b' d') = oand (are_identical b b') (Inr (d = d'))"
  "are_identical (Slice b) (Slice b') = are_identical b b'"
  "are_identical (Pointer b) (Pointer b') = are_identical b b'"
  "are_identical (Heap b) (Heap b') = are_identical b b'"
  "are_identical (Mapt k v) (Mapt k' v') = oand (are_identical k k') (are_identical v v')"
  by (subst are_identical.simps; simp add: byte_pair_def named_defs are_identical.simps; fail)+

lemma are_identical_unfold_distinct:
  "Struct c i fs \<noteq> Struct c j gs \<Longrightarrow> are_identical (Struct c i fs) (Struct c j gs) =
     (if length fs \<noteq> length gs then Inr False else fields_identical fs gs)"
  "Interface i p ms \<noteq> Interface j q ns \<Longrightarrow> are_identical (Interface i p ms) (Interface j q ns) =
     (if length ms \<noteq> length ns then Inr False else methods_identical p q ms ns)"
  "FunctionBase f i (Parameter_List ps v) (Parameter_List rs w) \<noteq>
     FunctionBase f j (Parameter_List qs v') (Parameter_List ss w') \<Longrightarrow>
   are_identical (FunctionBase f i (Parameter_List ps v) (Parameter_List rs w))
     (FunctionBase f j (Parameter_List qs v') (Parameter_List ss w')) =
     (if length ps \<noteq> length qs then Inr False
      else if length rs \<noteq> length ss then Inr False
      else if w \<noteq> w' then Inr False
      else oand (parameters_identical ps qs) (parameters_identical rs ss))"
  "MethodBase m i n r pl rl \<noteq> MethodBase m j n' r' pl' rl' \<Longrightarrow>
   are_identical (MethodBase m i n r pl rl) (MethodBase m j n' r' pl' rl') = Inl Not_reached"
proof -
  assume "Struct c i fs \<noteq> Struct c j gs"
  then show "are_identical (Struct c i fs) (Struct c j gs) =
     (if length fs \<noteq> length gs then Inr False else fields_identical fs gs)"
    by (simp only: are_identical.simps[of "Struct c i fs"]) (simp add: byte_pair_def named_defs)
next
  assume "Interface i p ms \<noteq> Interface j q ns"
  then show "are_identical (Interface i p ms) (Interface j q ns) =
     (if length ms \<noteq> length ns then Inr False else methods_identical p q ms ns)"
    by (simp only: are_identical.simps[of "Interface i p ms"]) (simp add: byte_pair_def named_defs)
next
  assume "FunctionBase f i (Parameter_List ps v) (Parameter_List rs w) \<noteq>
     FunctionBase f j (Parameter_List qs v') (Parameter_List ss w')"
  then show "are_identical (FunctionBase f i (Parameter_List ps v) (Parameter_List rs w))
     (FunctionBase f j (Parameter_List qs v') (Parameter_List ss w')) =
     (if length ps \<noteq> length qs then Inr False
      else if length rs \<noteq> length ss then Inr False
      else if w \<noteq> w' then Inr False
      else oand (parameters_identical ps qs) (parameters_identical rs ss))"
    by (simp only: are_identical.simps[of "FunctionBase f i (Parameter_List ps v) (Parameter_List rs w)"])
      (simp add: byte_pair_def named_defs)
next
  assume "MethodBase m i n r pl rl \<noteq> MethodBase m j n' r' pl' rl'"
  then show "are_identical (MethodBase m i n r pl rl) (MethodBase m j n' r' pl' rl') = Inl Not_reached"
    by (simp only: are_identical.simps[of "MethodBase m i n r pl rl"]) (simp add: byte_pair_def named_defs)
qed

text \<open>The shapes of two distinct unnamed types of one kind.\<close>

lemma same_kind_cases [consumes 3]:
  assumes "kind_of y = kind_of x" "\<not> is_named x" "x \<noteq> y"
  obtains
    (Array) b d b' d' where "x = Array b d" "y = Array b' d'"
  | (Slice) b b' where "x = Slice b" "y = Slice b'"
  | (Pointer) b b' where "x = Pointer b" "y = Pointer b'"
  | (Heap) b b' where "x = Heap b" "y = Heap b'"
  | (Mapt) k v k' v' where "x = Mapt k v" "y = Mapt k' v'"
  | (Struct) c i fs j gs where "x = Struct c i fs" "y = Struct c j gs"
  | (Interface) i p ms j q ns where "x = Interface i p ms" "y = Interface j q ns"
  | (Function) c i ps v rs w j qs v' ss w' where
      "x = FunctionBase c i (Parameter_List ps v) (Parameter_List rs w)"
      "y = FunctionBase c j (Parameter_List qs v') (Parameter_List ss w')"
  | (Method) c i n r ps rs j n' r' qs ss where
      "x = MethodBase c i n r ps rs" "y = MethodBase c j n' r' qs ss"
proof (cases x)
  case (FunctionBase c i ps rs)
  then obtain j qs ss where "y = FunctionBase c j qs ss"
    using assms by (auto simp: kind_of_eq)
  then show ?thesis
    using FunctionBase that(8) by (cases ps; cases rs; cases qs; cases ss) blast
next
  case (MethodBase c i n r ps rs)
  then obtain j n' r' qs ss where "y = MethodBase c j n' r' qs ss"
    using assms by (auto simp: kind_of_eq)
  then show ?thesis using MethodBase that(9) by blast
qed (use assms that(1-7) in \<open>auto simp: kind_of_eq\<close>)

lemma are_identical_trivial:
  "byte_pair x y \<or> x = y \<Longrightarrow> are_identical x y = Inr True"
  "\<not> byte_pair x y \<Longrightarrow> x \<noteq> y \<Longrightarrow> is_named x \<or> is_named y \<or> kind_of x \<noteq> kind_of y \<Longrightarrow>
     are_identical x y = Inr False"
  by (subst are_identical.simps; auto)+

lemma canonical_methods_lower:
  assumes "map (\<lambda>(n, t). (n, canonical t)) ms = map (\<lambda>(n, t). (n, canonical t)) ns"
  shows "(\<exists>m \<in> set ms. is_lowercase (fst m)) \<longleftrightarrow> (\<exists>m \<in> set ns. is_lowercase (fst m))"
proof -
  have "map fst ms = map fst ns"
    using arg_cong[OF assms, of "map fst"] by (simp add: case_prod_beta comp_def)
  then have "fst ` set ms = fst ` set ns" by (metis set_map)
  then show ?thesis by (metis (no_types, lifting) image_iff)
qed

lemma are_identical_canonical_aux:
  "are_identical x y = Inr True \<longleftrightarrow> canonical x = canonical y"
  "length fs = length gs \<Longrightarrow>
     fields_identical fs gs = Inr True \<longleftrightarrow> map canonical_field fs = map canonical_field gs"
  "length ps = length qs \<Longrightarrow>
     parameters_identical ps qs = Inr True \<longleftrightarrow> map canonical_parameter ps = map canonical_parameter qs"
  "length ms = length ns \<Longrightarrow>
     methods_identical p q ms ns = Inr True \<longleftrightarrow>
       map (\<lambda>(n, t). (n, canonical t)) ms = map (\<lambda>(n, t). (n, canonical t)) ns \<and>
       ((\<exists>m \<in> set ms. is_lowercase (fst m)) \<longrightarrow> p = q)"
proof (induction x y and fs gs and ps qs and p q ms ns
    rule: are_identical_fields_identical_parameters_identical_methods_identical.induct)
  case (1 x y)
  consider "byte_pair x y \<or> x = y"
    | "\<not> byte_pair x y" "x \<noteq> y" "is_named x \<or> is_named y \<or> kind_of x \<noteq> kind_of y"
    | "\<not> byte_pair x y" "x \<noteq> y" "\<not> (is_named x \<or> is_named y)" "\<not> kind_of x \<noteq> kind_of y"
    by blast
  then show ?case
  proof cases
    case 1
    then show ?thesis by (auto simp: are_identical_trivial byte_pair_canonical)
  next
    case 2
    moreover have "canonical x = canonical y \<Longrightarrow> kind_of x = kind_of y"
      by (metis kind_canonical)
    ultimately show ?thesis
      using canonical_named[of x y] by (auto simp: are_identical_trivial)
  next
    case h: 3
    note IH = "1.IH"[OF h]
    have "kind_of y = kind_of x" "\<not> is_named x" using h by auto
    then show ?thesis using h(2)
    proof (cases rule: same_kind_cases)
      case (Array b d b' d')
      then show ?thesis using IH(2)[OF Array(1)] by (simp add: are_identical_unfold outcome_simps)
    next
      case (Slice b b')
      then show ?thesis using IH(6)[OF Slice(1)] by (simp add: are_identical_unfold outcome_simps)
    next
      case (Pointer b b')
      then show ?thesis using IH(5)[OF Pointer(1)] by (simp add: are_identical_unfold outcome_simps)
    next
      case (Heap b b')
      then show ?thesis using IH(7)[OF Heap(1)] by (simp add: are_identical_unfold outcome_simps)
    next
      case (Mapt k v k' v')
      then show ?thesis using IH(3,4)[OF Mapt(1)] by (auto simp: are_identical_unfold outcome_simps)
    next
      case (Struct c i fs j gs)
      then show ?thesis using h(2) IH(1)[OF Struct(1)]
        by (auto simp: are_identical_unfold_distinct dest: map_eq_imp_length_eq)
    next
      case (Interface i p ms j q ns)
      then show ?thesis using h(2) IH(10)[OF Interface(1) _ refl, of q ns] canonical_methods_lower[of ms ns]
        by (auto simp: are_identical_unfold_distinct dest: map_eq_imp_length_eq)
    next
      case (Function c i ps v rs w j qs v' ss w')
      note IH' = IH(8,9)[OF Function(1) refl refl _ refl, of "Parameter_List qs v'" "Parameter_List ss w'"]
      show ?thesis using Function h(2) IH'
        by (auto simp: are_identical_unfold_distinct outcome_simps dest: map_eq_imp_length_eq)
    next
      case (Method c i n r ps rs j n' r' qs ss)
      then show ?thesis using h(2) by (simp add: are_identical_unfold_distinct)
    qed
  qed
next
  case (2 p1 a1 n1 t1 g1 fs1 f2 fs2)
  then show ?case by (cases f2) (auto simp: outcome_simps)
next
  case (4 n1 t1 i1 m1 k1 ps1 q2 ps2)
  then show ?case by (cases q2) (auto simp: outcome_simps)
next
  case (6 p1 p2 n1 t1 ms1 m2 ms2)
  then show ?case by (cases m2) (auto simp: outcome_simps)
qed auto

text \<open>Types in which no method, initializer, getter or reaction type occurs.\<close>

fun method_free :: "ty \<Rightarrow> bool"
and method_free_field :: "field \<Rightarrow> bool"
and method_free_parameter :: "parameter \<Rightarrow> bool"
where
  "method_free (Basic s) = True"
| "method_free (Struct c i fs) = (\<forall>f \<in> set fs. method_free_field f)"
| "method_free (Array b d) = method_free b"
| "method_free (Mapt k v) = (method_free k \<and> method_free v)"
| "method_free (Pointer b) = method_free b"
| "method_free (Slice b) = method_free b"
| "method_free (Heap b) = method_free b"
| "method_free (FunctionBase c i (Parameter_List ps v) (Parameter_List rs w)) =
     ((\<forall>p \<in> set ps. method_free_parameter p) \<and> (\<forall>p \<in> set rs. method_free_parameter p))"
| "method_free (MethodBase c i n r ps rs) = False"
| "method_free (Interface i p ms) = (\<forall>m \<in> set ms. method_free (snd m))"
| "method_free (NamedType n) = True"
| "method_free_field (Field p a n t g) = method_free t"
| "method_free_parameter (Parameter n t i m k) = method_free t"

lemma returns_oand:
  "returns p \<Longrightarrow> (p = Inr True \<Longrightarrow> returns q) \<Longrightarrow> returns (oand p q)"
  by (auto simp: oand_def intro: returns_obind)

lemma are_identical_returns_aux:
  "method_free x \<Longrightarrow> returns (are_identical x y)"
  "(\<And>f. f \<in> set fs \<Longrightarrow> method_free_field f) \<Longrightarrow> returns (fields_identical fs gs)"
  "(\<And>p. p \<in> set ps \<Longrightarrow> method_free_parameter p) \<Longrightarrow> returns (parameters_identical ps qs)"
  "(\<And>m. m \<in> set ms \<Longrightarrow> method_free (snd m)) \<Longrightarrow> returns (methods_identical p q ms ns)"
proof (induction x y and fs gs and ps qs and p q ms ns
    rule: are_identical_fields_identical_parameters_identical_methods_identical.induct)
  case (1 x y)
  consider "byte_pair x y \<or> x = y"
    | "\<not> byte_pair x y" "x \<noteq> y" "is_named x \<or> is_named y \<or> kind_of x \<noteq> kind_of y"
    | "\<not> byte_pair x y" "x \<noteq> y" "\<not> (is_named x \<or> is_named y)" "\<not> kind_of x \<noteq> kind_of y"
    by blast
  then show ?case
  proof cases
    case 1
    then show ?thesis by (simp add: are_identical_trivial)
  next
    case 2
    then show ?thesis by (simp add: are_identical_trivial)
  next
    case h: 3
    note IH = "1.IH"[OF h]
    have "kind_of y = kind_of x" "\<not> is_named x" using h by auto
    then show ?thesis using h(2)
    proof (cases rule: same_kind_cases)
      case (Array b d b' d')
      then show ?thesis using "1.prems" IH(2)[OF Array(1)] by (simp add: are_identical_unfold returns_oand)
    next
      case (Slice b b')
      then show ?thesis using "1.prems" IH(6)[OF Slice(1)] by (simp add: are_identical_unfold returns_oand)
    next
      case (Pointer b b')
      then show ?thesis using "1.prems" IH(5)[OF Pointer(1)] by (simp add: are_identical_unfold returns_oand)
    next
      case (Heap b b')
      then show ?thesis using "1.prems" IH(7)[OF Heap(1)] by (simp add: are_identical_unfold returns_oand)
    next
      case (Mapt k v k' v')
      then show ?thesis using "1.prems" IH(3,4)[OF Mapt(1)] by (simp add: are_identical_unfold returns_oand)
    next
      case (Struct c i fs j gs)
      then show ?thesis using "1.prems" h(2) IH(1)[OF Struct(1)]
        by (simp add: are_identical_unfold_distinct)
    next
      case (Interface i p ms j q ns)
      then show ?thesis using "1.prems" h(2) IH(10)[OF Interface(1)]
        by (simp add: are_identical_unfold_distinct)
    next
      case (Function c i ps v rs w j qs v' ss w')
      note IH' = IH(8,9)[OF Function(1) refl refl _ refl, of "Parameter_List qs v'" "Parameter_List ss w'"]
      have free: "p \<in> set ps \<Longrightarrow> method_free_parameter p" "p \<in> set rs \<Longrightarrow> method_free_parameter p" for p
        using "1.prems" Function(1) by simp_all
      have "returns (oand (parameters_identical ps qs) (parameters_identical rs ss))"
        if "length ps = length qs" "length rs = length ss" "w = w'"
      proof (rule returns_oand)
        show "returns (parameters_identical ps qs)"
          using IH'(1)[OF _ _ _ _ free(1)] Function(2) that by simp
        show "returns (parameters_identical rs ss)" if "parameters_identical ps qs = Inr True"
          using IH'(2)[OF _ _ _ _ _ free(2)] Function(2) \<open>length ps = length qs\<close>
            \<open>length rs = length ss\<close> \<open>w = w'\<close> that by simp
      qed
      then show ?thesis
        unfolding Function are_identical_unfold_distinct(3)[OF h(2)[unfolded Function]] by simp
    next
      case (Method c i n r ps rs j n' r' qs ss)
      then show ?thesis using "1.prems" h(2) by (simp add: are_identical_unfold_distinct)
    qed
  qed
next
  case (2 p1 a1 n1 t1 g1 fs1 f2 fs2)
  have "method_free t1" "f \<in> set fs1 \<Longrightarrow> method_free_field f" for f
    using "2.prems"[of "Field p1 a1 n1 t1 g1"] "2.prems" by auto
  then show ?case using "2.IH" by (simp add: returns_oand)
next
  case (4 n1 t1 i1 m1 k1 ps1 q2 ps2)
  have "method_free t1" "p \<in> set ps1 \<Longrightarrow> method_free_parameter p" for p
    using "4.prems"[of "Parameter n1 t1 i1 m1 k1"] "4.prems" by auto
  then show ?case using "4.IH" by (simp add: returns_oand)
next
  case (6 p1 p2 n1 t1 ms1 m2 ms2)
  have "method_free t1" "m \<in> set ms1 \<Longrightarrow> method_free (snd m)" for m
    using "6.prems"[of "(n1, t1)"] "6.prems" by auto
  then show ?case using "6.IH" by (simp add: returns_oand)
qed simp_all

section \<open>The type of a binary operator\<close>

definition choose_type :: "ty \<Rightarrow> ty \<Rightarrow> ty" where
  "choose_type x y = (if kind_of x > kind_of y then x else y)"

definition Arithmetic_pick :: "tenv \<Rightarrow> ty \<Rightarrow> ty \<Rightarrow> ty option" where
  "Arithmetic_pick env l r =
     (if underlying_kind env l \<in>
        {Uint8_Kind, Uint16_Kind, Uint32_Kind, Uint64_Kind, Int8_Kind, Int16_Kind, Int32_Kind,
         Int64_Kind, Float32_Kind, Float64_Kind, Complex64_Kind, Complex128_Kind,
         Uint_Kind, Int_Kind, Uintptr_Kind}
      then (if l = r then Some l else None)
      else if underlying_kind env l \<in>
        {Untyped_Rune_Kind, Untyped_Integer_Kind, Untyped_Float_Kind, Untyped_Complex_Kind}
      then (if is_untyped_numeric env r then Some (choose_type l r) else None)
      else None)"

definition Integral_pick :: "tenv \<Rightarrow> ty \<Rightarrow> ty \<Rightarrow> ty option" where
  "Integral_pick env l r =
     (if underlying_kind env l \<in>
        {Uint8_Kind, Uint16_Kind, Uint32_Kind, Uint64_Kind, Int8_Kind, Int16_Kind, Int32_Kind,
         Int64_Kind, Uint_Kind, Int_Kind, Uintptr_Kind}
      then (if l = r then Some l else None)
      else if underlying_kind env l \<in> {Untyped_Rune_Kind, Untyped_Integer_Kind}
      then (if underlying_kind env r = Untyped_Rune_Kind \<or> underlying_kind env r = Untyped_Integer_Kind
            then Some (choose_type l r) else None)
      else None)"

definition Comparable_pick :: "tenv \<Rightarrow> ty \<Rightarrow> ty \<Rightarrow> ty option" where
  "Comparable_pick env l r =
     (if underlying_kind env l \<in>
        {Untyped_Nil_Kind, Untyped_Boolean_Kind, Untyped_String_Kind, Bool_Kind,
         Uint8_Kind, Uint16_Kind, Uint32_Kind, Uint64_Kind, Int8_Kind, Int16_Kind, Int32_Kind,
         Int64_Kind, Float32_Kind, Float64_Kind, Complex64_Kind, Complex128_Kind,
         Uint_Kind, Int_Kind, Uintptr_Kind, String_Kind, Pointer_Kind}
      then (if l = r then Some l else None)
      else if underlying_kind env l \<in>
        {Untyped_Rune_Kind, Untyped_Integer_Kind, Untyped_Float_Kind, Untyped_Complex_Kind}
      then (if is_untyped_numeric env r then Some (choose_type l r) else None)
      else None)"

definition Orderable_pick :: "tenv \<Rightarrow> ty \<Rightarrow> ty \<Rightarrow> ty option" where
  "Orderable_pick env l r =
     (if underlying_kind env l \<in>
        {Untyped_String_Kind,
         Uint8_Kind, Uint16_Kind, Uint32_Kind, Uint64_Kind, Int8_Kind, Int16_Kind, Int32_Kind,
         Int64_Kind, Float32_Kind, Float64_Kind, Uint_Kind, Int_Kind, Uintptr_Kind, String_Kind}
      then (if l = r then Some l else None)
      else if underlying_kind env l \<in> {Untyped_Rune_Kind, Untyped_Integer_Kind, Untyped_Float_Kind}
      then (if underlying_kind env r = Untyped_Rune_Kind \<or>
               underlying_kind env r = Untyped_Integer_Kind \<or>
               underlying_kind env r = Untyped_Float_Kind
            then Some (choose_type l r) else None)
      else None)"

definition Logical_pick :: "tenv \<Rightarrow> ty \<Rightarrow> ty \<Rightarrow> ty option" where
  "Logical_pick env l r =
     (if (underlying_kind env l = Bool_Kind \<or> underlying_kind env l = Untyped_Boolean_Kind) \<and>
         (underlying_kind env r = Bool_Kind \<or> underlying_kind env r = Untyped_Boolean_Kind)
      then Some (choose_type l r) else None)"

lemmas pick_defs =
  Arithmetic_pick_def Integral_pick_def Comparable_pick_def Orderable_pick_def Logical_pick_def

text \<open>A type whose underlying kind is that of a constant is the untyped singleton itself.\<close>

lemma untyped_underlying:
  assumes "wf_tenv env" "underlying_kind env t = singleton_kind s" "singleton_kind s \<le> Untyped_String_Kind"
  shows "t = Basic s"
proof (cases "is_named t")
  case True
  then obtain n where "t = NamedType n" by (cases t) simp_all
  then have "is_unnamed (env n)" "kind_of (env n) = singleton_kind s"
    using assms by (simp_all add: wf_tenv_def underlying_kind_def)
  then show ?thesis
    using assms(3) by (cases s) (simp_all add: is_unnamed_def kind_order_eval)
next
  case False
  then show ?thesis using assms(2) by (simp add: underlying_kind_def kind_of_eq)
qed

lemma choose_type_commute: "kind_of x = kind_of y \<longrightarrow> x = y \<Longrightarrow> choose_type x y = choose_type y x"
  by (auto simp: choose_type_def)

lemma untyped_numeric_cases:
  assumes "wf_tenv env" "is_untyped_numeric env t"
  shows "t \<in> {Basic UntypedRune, Basic UntypedInteger, Basic UntypedFloat, Basic UntypedComplex}"
  using assms untyped_underlying[of env t UntypedRune] untyped_underlying[of env t UntypedInteger]
    untyped_underlying[of env t UntypedFloat] untyped_underlying[of env t UntypedComplex]
  by (auto simp: is_untyped_numeric_def kind_order_eval)

lemma underlying_kind_Basic [simp]: "underlying_kind env (Basic s) = singleton_kind s"
  by (simp add: underlying_kind_def)

text \<open>
  The contract the four pick functions of the non-logical operators share: a
  class of kinds whose operands must have the same type and a class of untyped
  numeric kinds that mix, the later kind winning.
\<close>

definition untyped_numeric_kinds :: "kind set" where
  "untyped_numeric_kinds =
     {Untyped_Rune_Kind, Untyped_Integer_Kind, Untyped_Float_Kind, Untyped_Complex_Kind}"

locale operand_class =
  fixes pick :: "tenv \<Rightarrow> ty \<Rightarrow> ty \<Rightarrow> ty option"
    and same :: "kind set"
    and mixed :: "kind set"
  assumes pick_eq: "pick env l r =
      (if underlying_kind env l \<in> same then (if l = r then Some l else None)
       else if underlying_kind env l \<in> mixed then
         (if underlying_kind env r \<in> mixed then Some (choose_type l r) else None)
       else None)"
    and disjoint: "same \<inter> mixed = {}"
    and mixed: "mixed \<subseteq> untyped_numeric_kinds"
begin

lemma mixed_singleton:
  assumes "wf_tenv env" "underlying_kind env t \<in> mixed"
  obtains s where "t = Basic s" "singleton_kind s \<in> untyped_numeric_kinds"
proof -
  have "underlying_kind env t \<in> untyped_numeric_kinds" using assms(2) mixed by blast
  then obtain s where s: "underlying_kind env t = singleton_kind s" "s \<in> {UntypedRune, UntypedInteger, UntypedFloat, UntypedComplex}"
    unfolding untyped_numeric_kinds_def by (metis insertE insertI1 insertI2 singletonD singleton_kind.simps(3-6))
  then have "singleton_kind s \<le> Untyped_String_Kind" by (auto simp: kind_order_eval)
  with s show ?thesis
    using untyped_underlying[OF assms(1), of t s] that \<open>underlying_kind env t \<in> untyped_numeric_kinds\<close>
    by metis
qed

lemma pick_commutes:
  assumes "wf_tenv env"
  shows "pick env l r = pick env r l"
proof (cases "underlying_kind env l \<in> mixed \<and> underlying_kind env r \<in> mixed")
  case True
  then have "underlying_kind env l \<in> mixed" "underlying_kind env r \<in> mixed" by blast+
  from mixed_singleton[OF assms this(1)] mixed_singleton[OF assms this(2)]
  obtain s s' where s: "l = Basic s" and s': "r = Basic s'" by metis
  from s s' have "kind_of l = kind_of r \<longrightarrow> l = r" by simp
  with True show ?thesis
    using disjoint choose_type_commute[of l r] by (auto simp: pick_eq)
next
  case False
  then show ?thesis by (auto simp: pick_eq)
qed

lemma pick_result:
  assumes "pick env l r = Some t"
  shows "(t = l \<or> t = r) \<and> kind_of t = max (kind_of l) (kind_of r)"
  using assms by (auto simp: pick_eq choose_type_def max_def split: if_splits)

lemma pick_defined:
  "pick env l r \<noteq> None \<longleftrightarrow>
     (underlying_kind env l \<in> same \<and> l = r) \<or>
     (underlying_kind env l \<in> mixed \<and> underlying_kind env r \<in> mixed)"
  using disjoint by (auto simp: pick_eq)

end

definition typed_numeric_kinds :: "kind set" where
  "typed_numeric_kinds =
     {Uint8_Kind, Uint16_Kind, Uint32_Kind, Uint64_Kind, Int8_Kind, Int16_Kind, Int32_Kind,
      Int64_Kind, Float32_Kind, Float64_Kind, Complex64_Kind, Complex128_Kind,
      Uint_Kind, Int_Kind, Uintptr_Kind}"

definition integral_kinds :: "kind set" where
  "integral_kinds =
     {Uint8_Kind, Uint16_Kind, Uint32_Kind, Uint64_Kind, Int8_Kind, Int16_Kind, Int32_Kind,
      Int64_Kind, Uint_Kind, Int_Kind, Uintptr_Kind}"

definition comparable_kinds :: "kind set" where
  "comparable_kinds =
     {Untyped_Nil_Kind, Untyped_Boolean_Kind, Untyped_String_Kind, Bool_Kind,
      Uint8_Kind, Uint16_Kind, Uint32_Kind, Uint64_Kind, Int8_Kind, Int16_Kind, Int32_Kind,
      Int64_Kind, Float32_Kind, Float64_Kind, Complex64_Kind, Complex128_Kind,
      Uint_Kind, Int_Kind, Uintptr_Kind, String_Kind, Pointer_Kind}"

definition orderable_kinds :: "kind set" where
  "orderable_kinds =
     {Untyped_String_Kind,
      Uint8_Kind, Uint16_Kind, Uint32_Kind, Uint64_Kind, Int8_Kind, Int16_Kind, Int32_Kind,
      Int64_Kind, Float32_Kind, Float64_Kind, Uint_Kind, Int_Kind, Uintptr_Kind, String_Kind}"

lemmas kind_class_defs =
  typed_numeric_kinds_def untyped_numeric_kinds_def integral_kinds_def
  comparable_kinds_def orderable_kinds_def

interpretation arithmetic: operand_class Arithmetic_pick typed_numeric_kinds untyped_numeric_kinds
proof
  fix env l r
  show "Arithmetic_pick env l r =
      (if underlying_kind env l \<in> typed_numeric_kinds then (if l = r then Some l else None)
       else if underlying_kind env l \<in> untyped_numeric_kinds then
         (if underlying_kind env r \<in> untyped_numeric_kinds then Some (choose_type l r) else None)
       else None)"
    unfolding Arithmetic_pick_def is_untyped_numeric_def typed_numeric_kinds_def untyped_numeric_kinds_def by (rule refl)
qed (simp_all add: kind_class_defs)

interpretation integral: operand_class Integral_pick integral_kinds "{Untyped_Rune_Kind, Untyped_Integer_Kind}"
proof
  fix env l r
  have m: "underlying_kind env r \<in> {Untyped_Rune_Kind, Untyped_Integer_Kind} \<longleftrightarrow>
      underlying_kind env r = Untyped_Rune_Kind \<or> underlying_kind env r = Untyped_Integer_Kind"
    by blast
  show "Integral_pick env l r =
      (if underlying_kind env l \<in> integral_kinds then (if l = r then Some l else None)
       else if underlying_kind env l \<in> {Untyped_Rune_Kind, Untyped_Integer_Kind} then
         (if underlying_kind env r \<in> {Untyped_Rune_Kind, Untyped_Integer_Kind} then Some (choose_type l r) else None)
       else None)"
    unfolding Integral_pick_def integral_kinds_def m by (rule refl)
qed (simp_all add: kind_class_defs)

interpretation comparable: operand_class Comparable_pick comparable_kinds untyped_numeric_kinds
proof
  fix env l r
  show "Comparable_pick env l r =
      (if underlying_kind env l \<in> comparable_kinds then (if l = r then Some l else None)
       else if underlying_kind env l \<in> untyped_numeric_kinds then
         (if underlying_kind env r \<in> untyped_numeric_kinds then Some (choose_type l r) else None)
       else None)"
    unfolding Comparable_pick_def is_untyped_numeric_def comparable_kinds_def untyped_numeric_kinds_def by (rule refl)
qed (simp_all add: kind_class_defs)

interpretation orderable: operand_class Orderable_pick orderable_kinds "{Untyped_Rune_Kind, Untyped_Integer_Kind, Untyped_Float_Kind}"
proof
  fix env l r
  have m: "underlying_kind env r \<in> {Untyped_Rune_Kind, Untyped_Integer_Kind, Untyped_Float_Kind} \<longleftrightarrow>
      underlying_kind env r = Untyped_Rune_Kind \<or> underlying_kind env r = Untyped_Integer_Kind \<or>
      underlying_kind env r = Untyped_Float_Kind"
    by blast
  show "Orderable_pick env l r =
      (if underlying_kind env l \<in> orderable_kinds then (if l = r then Some l else None)
       else if underlying_kind env l \<in> {Untyped_Rune_Kind, Untyped_Integer_Kind, Untyped_Float_Kind} then
         (if underlying_kind env r \<in> {Untyped_Rune_Kind, Untyped_Integer_Kind, Untyped_Float_Kind} then Some (choose_type l r) else None)
       else None)"
    unfolding Orderable_pick_def orderable_kinds_def m by (rule refl)
qed (simp_all add: kind_class_defs)

section \<open>Properties\<close>

lemma wf_predeclared: "wf_tenv predeclared"
  unfolding wf_tenv_def
proof
  fix n
  have u: "\<forall>t \<in> set predeclared_list. is_unnamed t"
    by (simp add: predeclared_list_def is_unnamed_def kind_order_eval)
  have len: "length predeclared_list = 21" by (simp add: predeclared_list_def)
  show "is_unnamed (predeclared n)"
  proof (cases "n < 21")
    case True
    then show ?thesis using u len nth_mem[of n predeclared_list] by (simp add: predeclared_def)
  next
    case False
    then show ?thesis by (simp add: predeclared_def is_unnamed_def kind_order_eval)
  qed
qed

text \<open>C22: are_identical answers true exactly when the two types have the same canonical
  form, that is, when they differ only in what identity ignores.\<close>

theorem are_identical_iff_canonical:
  "are_identical x y = Inr True \<longleftrightarrow> canonical x = canonical y"
  by (rule are_identical_canonical_aux(1))

text \<open>Identity of types is an equivalence relation.\<close>

theorem are_identical_equivalence:
  "equivp (\<lambda>x y. are_identical x y = Inr True)"
  unfolding are_identical_canonical_aux(1)
  by (auto intro!: equivpI reflpI sympI transpI)

text \<open>C23: the switch of are_identical never falls into its aborting default branch when no
  method, initializer, getter or reaction type occurs in the first type.\<close>

theorem are_identical_returns:
  "method_free x \<Longrightarrow> \<exists>b. are_identical x y = Inr b"
  using are_identical_returns_aux(1) by (simp add: returns_def)

theorem are_identical_returns_witness:
  "\<exists>b. are_identical (Array (Slice named_byte) 3) (Array (Slice named_rune) 3) = Inr b"
  by (rule are_identical_returns) (simp add: named_defs)

text \<open>Two different method types reach the aborting branch.\<close>

lemma are_identical_method_aborts:
  "are_identical (MethodBase Method 1 n r ps rs) (MethodBase Method 2 n r ps rs) = Inl Not_reached"
  by (rule are_identical_unfold_distinct(4)) simp

text \<open>The type picked for an arithmetic, integral, comparison or ordering operator
  does not depend on the order of the operands.\<close>

theorem picks_commute:
  assumes "wf_tenv env"
  shows "Arithmetic_pick env l r = Arithmetic_pick env r l \<and>
    Integral_pick env l r = Integral_pick env r l \<and>
    Comparable_pick env l r = Comparable_pick env r l \<and>
    Orderable_pick env l r = Orderable_pick env r l"
  using arithmetic.pick_commutes[OF assms] integral.pick_commutes[OF assms]
    comparable.pick_commutes[OF assms] orderable.pick_commutes[OF assms] by blast

theorem picks_commute_witness:
  "Arithmetic_pick predeclared (Basic UntypedInteger) (Basic UntypedFloat) =
     Arithmetic_pick predeclared (Basic UntypedFloat) (Basic UntypedInteger)"
  using picks_commute[OF wf_predeclared] by blast

end
