(* ===== verification/Arch.thy ===== *)
theory Arch
  imports Identity
begin

text \<open>
  Sizes, alignments and field offsets (arch.cpp) on a 64-bit little-endian
  target: \<open>sizeof (void*)\<close>, \<open>sizeof (long)\<close> and \<open>sizeof (size_t)\<close> are 8, a
  runtime String is 16 bytes, a Slice 24, a PullPort 16.  All arithmetic is on
  64-bit words.  The code recurses through named types, so a type that contains
  itself by value makes it recurse forever: the functions take fuel, and the
  types on which they return are characterised by the inductive predicate
  \<open>allocatable\<close>.
\<close>

section \<open>Alignment and size\<close>

definition stack_alignment :: "64 word" where
  "stack_alignment = 8"

fun basic_alignment :: "singleton \<Rightarrow> 64 word outcome" where
  "basic_alignment Bool = Inr 1"
| "basic_alignment Uint8 = Inr 1"
| "basic_alignment Uint16 = Inr 2"
| "basic_alignment Uint32 = Inr 4"
| "basic_alignment Uint64 = Inr 8"
| "basic_alignment Int8 = Inr 1"
| "basic_alignment Int16 = Inr 2"
| "basic_alignment Int32 = Inr 4"
| "basic_alignment Int64 = Inr 8"
| "basic_alignment Float32 = Inr 4"
| "basic_alignment Float64 = Inr 8"
| "basic_alignment Complex64 = Inr 4"
| "basic_alignment Complex128 = Inr 8"
| "basic_alignment Uint = Inr 8"
| "basic_alignment Intt = Inr 8"
| "basic_alignment Uintptr = Inr 8"
| "basic_alignment String = Inr 8"
| "basic_alignment FileDescriptor = Inr 8"
| "basic_alignment _ = Inl Not_reached"

fun alignment :: "tenv \<Rightarrow> nat \<Rightarrow> ty \<Rightarrow> 64 word outcome" where
  "alignment env 0 t = Inl Out_of_fuel"
| "alignment env (Suc n) t =
     (case underlying_type env t of
        Basic s \<Rightarrow> basic_alignment s
      | Struct c i fs \<Rightarrow>
          ofold (\<lambda>sz f. obind (alignment env n (ftype f)) (\<lambda>a. Inr (max sz a))) fs 0
      | Array b d \<Rightarrow> alignment env n b
      | Mapt k v \<Rightarrow> Inl Unimplemented
      | Pointer b \<Rightarrow> Inr 8
      | Slice b \<Rightarrow> Inr 8
      | Heap b \<Rightarrow> Inl Not_reached
      | FunctionBase c i ps rs \<Rightarrow> Inr 8
      | MethodBase c i m r ps rs \<Rightarrow> Inl Not_reached
      | Interface i p ms \<Rightarrow> Inl Unimplemented
      | NamedType m \<Rightarrow> Inl Not_reached)"

fun basic_size :: "singleton \<Rightarrow> 64 word outcome" where
  "basic_size Bool = Inr 1"
| "basic_size Uint8 = Inr 1"
| "basic_size Uint16 = Inr 2"
| "basic_size Uint32 = Inr 4"
| "basic_size Uint64 = Inr 8"
| "basic_size Int8 = Inr 1"
| "basic_size Int16 = Inr 2"
| "basic_size Int32 = Inr 4"
| "basic_size Int64 = Inr 8"
| "basic_size Float32 = Inr 4"
| "basic_size Float64 = Inr 8"
| "basic_size Complex64 = Inr 8"
| "basic_size Complex128 = Inr 16"
| "basic_size Uint = Inr 8"
| "basic_size Intt = Inr 8"
| "basic_size Uintptr = Inr 8"
| "basic_size String = Inr 16"
| "basic_size FileDescriptor = Inr 8"
| "basic_size _ = Inl Not_reached"

fun function_size :: "function_class \<Rightarrow> 64 word" where
  "function_size Function = 8"
| "function_size PushPort = 8"
| "function_size PullPort = 16"

text \<open>The function size of arch.cpp; its Array case inlines unit_size.\<close>

fun type_size :: "tenv \<Rightarrow> nat \<Rightarrow> ty \<Rightarrow> 64 word outcome" where
  "type_size env 0 t = Inl Out_of_fuel"
| "type_size env (Suc n) t =
     (case underlying_type env t of
        Basic s \<Rightarrow> basic_size s
      | Struct c i fs \<Rightarrow>
          ofold (\<lambda>sz f. obind (alignment env n (ftype f)) (\<lambda>a.
                        obind (type_size env n (ftype f)) (\<lambda>s.
                        Inr (align_up sz a + s)))) fs 0
      | Array b d \<Rightarrow>
          obind (type_size env n b) (\<lambda>s.
          obind (alignment env n b) (\<lambda>a. Inr (align_up s a * word_of_int d)))
      | Mapt k v \<Rightarrow> Inl Unimplemented
      | Pointer b \<Rightarrow> Inr 8
      | Slice b \<Rightarrow> Inr 24
      | Heap b \<Rightarrow> Inl Not_reached
      | FunctionBase c i ps rs \<Rightarrow> Inr (function_size c)
      | MethodBase c i m r ps rs \<Rightarrow> Inl Not_reached
      | Interface i p ms \<Rightarrow> Inl Unimplemented
      | NamedType m \<Rightarrow> Inl Not_reached)"

text \<open>unit_size of an array or slice with base type \<open>b\<close>.\<close>

definition unit_size :: "tenv \<Rightarrow> nat \<Rightarrow> ty \<Rightarrow> 64 word outcome" where
  "unit_size env n b =
     obind (type_size env n b) (\<lambda>s. obind (alignment env n b) (\<lambda>a. Inr (align_up s a)))"

definition size_on_stack :: "tenv \<Rightarrow> nat \<Rightarrow> ty \<Rightarrow> 64 word outcome" where
  "size_on_stack env n t = obind (type_size env n t) (\<lambda>s. Inr (align_up s stack_alignment))"

definition list_size_on_stack :: "tenv \<Rightarrow> nat \<Rightarrow> parameter_list \<Rightarrow> 64 word outcome" where
  "list_size_on_stack env n ps =
     ofold (\<lambda>sz p. obind (size_on_stack env n (ptype p)) (\<lambda>s. Inr (sz + s))) (parameters ps) 0"

text \<open>
  One turn of the loops of size and offset over the fields of a struct, and the
  offset of the field at position \<open>k\<close>.  The loop of offset runs until it meets the
  field, so a position outside the struct is undefined behaviour.
\<close>

definition layout_step :: "tenv \<Rightarrow> nat \<Rightarrow> 64 word \<Rightarrow> field \<Rightarrow> 64 word outcome" where
  "layout_step env n sz f =
     obind (alignment env n (ftype f)) (\<lambda>a.
     obind (type_size env n (ftype f)) (\<lambda>s. Inr (align_up sz a + s)))"

definition offset :: "tenv \<Rightarrow> nat \<Rightarrow> field list \<Rightarrow> nat \<Rightarrow> 64 word outcome" where
  "offset env n fs k =
     (if k < length fs then
        obind (ofold (layout_step env n) (take k fs) 0) (\<lambda>sz.
        obind (alignment env n (ftype (fs ! k))) (\<lambda>a. Inr (align_up sz a)))
      else Inl Undefined_behaviour)"

lemma type_size_struct:
  "underlying_type env t = Struct c i fs \<Longrightarrow>
     type_size env (Suc n) t = ofold (layout_step env n) fs 0"
  by (simp add: layout_step_def [abs_def])

section \<open>Fuel\<close>

lemma alignment_mono_Suc:
  "alignment env n t = Inr a \<Longrightarrow> alignment env (Suc n) t = Inr a"
proof (induction n arbitrary: t a)
  case (Suc n)
  then show ?case
  proof (cases "underlying_type env t")
    case (Struct c i fs)
    then have "ofold (\<lambda>sz f. obind (alignment env n (ftype f)) (\<lambda>a. Inr (max sz a))) fs 0 = Inr a"
      using Suc.prems by simp
    then have "ofold (\<lambda>sz f. obind (alignment env (Suc n) (ftype f)) (\<lambda>a. Inr (max sz a))) fs 0 = Inr a"
      by (rule ofold_mono [rotated]) (use Suc.IH in \<open>auto simp: outcome_simps simp del: alignment.simps\<close>)
    then show ?thesis
      using Struct by (subst alignment.simps(2)) simp
  next
    case (Array b d)
    then have "alignment env n b = Inr a" using Suc.prems by simp
    then have "alignment env (Suc n) b = Inr a" by (rule Suc.IH)
    then show ?thesis using Array by (subst alignment.simps(2)) simp
  qed simp_all
qed simp

lemma alignment_mono: "alignment env n t = Inr a \<Longrightarrow> n \<le> m \<Longrightarrow> alignment env m t = Inr a"
  by (induction m) (auto simp: le_Suc_eq simp del: alignment.simps dest: alignment_mono_Suc)

lemma type_size_mono_Suc:
  "type_size env n t = Inr s \<Longrightarrow> type_size env (Suc n) t = Inr s"
proof (induction n arbitrary: t s)
  case (Suc n)
  note mono = alignment_mono_Suc Suc.IH
  show ?case
  proof (cases "underlying_type env t")
    case (Struct c i fs)
    then have "ofold (layout_step env n) fs 0 = Inr s"
      using Suc.prems type_size_struct by simp
    then have "ofold (layout_step env (Suc n)) fs 0 = Inr s"
      by (rule ofold_mono [rotated])
        (use mono in \<open>auto simp: layout_step_def outcome_simps simp del: alignment.simps type_size.simps\<close>)
    then show ?thesis
      using Struct by (subst type_size_struct)
  next
    case (Array b d)
    then obtain z a where "type_size env n b = Inr z" "alignment env n b = Inr a"
        "s = align_up z a * word_of_int d"
      using Suc.prems by (auto simp: outcome_simps)
    then show ?thesis using Array mono
      by (subst type_size.simps(2)) (simp del: alignment.simps type_size.simps)
  qed (use Suc.prems in simp_all)
qed simp

lemma type_size_mono: "type_size env n t = Inr s \<Longrightarrow> n \<le> m \<Longrightarrow> type_size env m t = Inr s"
  by (induction m) (auto simp: le_Suc_eq simp del: type_size.simps dest: type_size_mono_Suc)

text \<open>
  The types that can be allocated: those built from allocatable parts without
  containing themselves by value.
\<close>

inductive allocatable :: "tenv \<Rightarrow> ty \<Rightarrow> bool" for env where
  basic_type: "underlying_type env t = Basic s \<Longrightarrow> returns (basic_size s) \<Longrightarrow> allocatable env t"
| struct_type: "underlying_type env t = Struct c i fs \<Longrightarrow>
    (\<And>f. f \<in> set fs \<Longrightarrow> allocatable env (ftype f)) \<Longrightarrow> allocatable env t"
| array_type: "underlying_type env t = Array b d \<Longrightarrow> allocatable env b \<Longrightarrow> allocatable env t"
| pointer_type: "underlying_type env t = Pointer b \<Longrightarrow> allocatable env t"
| slice_type: "underlying_type env t = Slice b \<Longrightarrow> allocatable env t"
| function_type: "underlying_type env t = FunctionBase c i ps rs \<Longrightarrow> allocatable env t"

lemma basic_size_alignment: "returns (basic_size s) \<longleftrightarrow> returns (basic_alignment s)"
  by (cases s) simp_all

lemma allocatable_returns:
  "allocatable env t \<Longrightarrow> \<exists>n. returns (alignment env n t) \<and> returns (type_size env n t)"
proof (induction rule: allocatable.induct)
  case (basic_type t s)
  then have "returns (alignment env 1 t) \<and> returns (type_size env 1 t)"
    by (simp add: basic_size_alignment)
  then show ?case by blast
next
  case (struct_type t c i fs)
  then obtain N where N: "\<And>f. f \<in> set fs \<Longrightarrow>
      returns (alignment env (N f) (ftype f)) \<and> returns (type_size env (N f) (ftype f))"
    by metis
  define n where "n = Max (insert 0 (N ` set fs))"
  have le: "f \<in> set fs \<Longrightarrow> N f \<le> n" for f by (simp add: n_def)
  have ex: "f \<in> set fs \<Longrightarrow> (\<exists>a. alignment env n (ftype f) = Inr a) \<and> (\<exists>s. type_size env n (ftype f) = Inr s)" for f
    using N le alignment_mono type_size_mono by (metis returns_def)
  have "\<exists>r. ofold (\<lambda>sz f. obind (alignment env n (ftype f)) (\<lambda>a. Inr (max sz a))) fs 0 = Inr r"
    using ex by (intro ofold_total) fastforce
  moreover have "\<exists>r. ofold (layout_step env n) fs 0 = Inr r"
    using ex by (intro ofold_total) (fastforce simp: layout_step_def)
  ultimately have "returns (alignment env (Suc n) t) \<and> returns (type_size env (Suc n) t)"
    using struct_type(1) by (simp add: returns_def type_size_struct del: type_size.simps)
  then show ?case by blast
next
  case (array_type t b d)
  then obtain n where n: "returns (alignment env n b)" "returns (type_size env n b)" by blast
  then have "returns (alignment env (Suc n) t) \<and> returns (type_size env (Suc n) t)"
    using array_type(1) by (auto simp: returns_def)
  then show ?case by blast
next
  case (pointer_type t b)
  then have "returns (alignment env 1 t) \<and> returns (type_size env 1 t)" by simp
  then show ?case by blast
next
  case (slice_type t b)
  then have "returns (alignment env 1 t) \<and> returns (type_size env 1 t)" by simp
  then show ?case by blast
next
  case (function_type t c i ps rs)
  then have "returns (alignment env 1 t) \<and> returns (type_size env 1 t)" by simp
  then show ?case by blast
qed

lemma ofold_returns_all:
  assumes "ofold f xs s = Inr r" and "x \<in> set xs"
  shows "\<exists>a b. f a x = Inr b"
  using assms by (induction xs arbitrary: s) (auto simp: outcome_simps)

lemma returns_allocatable: "type_size env n t = Inr s \<Longrightarrow> allocatable env t"
proof (induction n arbitrary: t s)
  case (Suc n)
  show ?case
  proof (cases "underlying_type env t")
    case (Struct c i fs)
    have "ofold (layout_step env n) fs 0 = Inr s"
      using Suc.prems Struct by (simp add: type_size_struct del: type_size.simps)
    then have "allocatable env (ftype f)" if "f \<in> set fs" for f
      using ofold_returns_all[OF _ that] Suc.IH by (fastforce simp: layout_step_def outcome_simps)
    then show ?thesis by (rule allocatable.struct_type[OF Struct])
  qed (use Suc in \<open>auto simp: outcome_simps intro: allocatable.intros\<close>)
qed simp

section \<open>Layout of structs\<close>

definition alignments :: "64 word set" where
  "alignments = {0, 1, 2, 4, 8}"

lemma basic_alignment_range: "basic_alignment s = Inr a \<Longrightarrow> a \<in> alignments - {0}"
  by (cases s) (auto simp: alignments_def)

lemma max_alignments: "a \<in> alignments \<Longrightarrow> b \<in> alignments \<Longrightarrow> max a b \<in> alignments"
  by (auto simp: max_def)

lemma ofold_invariant:
  assumes "ofold f xs s = Inr r" and "P s"
    and "\<And>a x b. x \<in> set xs \<Longrightarrow> P a \<Longrightarrow> f a x = Inr b \<Longrightarrow> P b"
  shows "P r"
  using assms
proof (induction xs arbitrary: s)
  case (Cons x xs)
  then obtain b where b: "f s x = Inr b" "ofold f xs b = Inr r" by (auto simp: outcome_simps)
  from Cons.prems(3)[OF _ Cons.prems(2) b(1)] have "P b" by simp
  then show ?case by (rule Cons.IH[OF b(2)]) (use Cons.prems(3) in auto)
qed simp

lemma alignment_range: "alignment env n t = Inr a \<Longrightarrow> a \<in> alignments"
proof (induction n arbitrary: t a)
  case (Suc n)
  show ?case
  proof (cases "underlying_type env t")
    case (Basic s)
    then show ?thesis using Suc.prems basic_alignment_range by simp
  next
    case (Struct c i fs)
    then have "ofold (\<lambda>sz f. obind (alignment env n (ftype f)) (\<lambda>a. Inr (max sz a))) fs 0 = Inr a"
      using Suc.prems by simp
    then show ?thesis
    proof (rule ofold_invariant)
      show "0 \<in> alignments" by (simp add: alignments_def)
    qed (auto simp: outcome_simps intro: max_alignments Suc.IH)
  qed (use Suc in \<open>auto simp: alignments_def\<close>)
qed simp

lemma align_up_unat:
  assumes "a \<in> alignments" "a \<noteq> 0" "unat x + 8 \<le> 2 ^ 64"
  shows "unat (align_up x a) = round_up (unat x) (unat a)"
proof -
  obtain k where k: "a = 2 ^ k" "unat a = 2 ^ k" "(2 :: nat) ^ k \<le> 8"
  proof -
    consider "a = 2 ^ 0" | "a = 2 ^ 1" | "a = 2 ^ 2" | "a = 2 ^ 3"
      using assms(1,2) by (auto simp: alignments_def)
    then show ?thesis
      using that[of 0] that[of 1] that[of 2] that[of 3] by cases simp_all
  qed
  have "align_up x a = of_nat (round_up (unat x) (2 ^ k))"
    using align_up_of_nat[of "unat x" k] k(1) by simp
  moreover have "round_up (unat x) (2 ^ k) < 2 ^ 64"
    using round_up_less[of "2 ^ k" "unat x"] k(3) assms(3) by simp
  ultimately show ?thesis using k(2) by (simp add: unat_of_nat take_bit_nat_eq_self)
qed

lemmas align_up_bounds [layout_simps] =
  round_up_ge round_up_less round_up_dvd

text \<open>
  The bytes a field may take with its padding; a struct whose sum stays below
  \<open>2 ^ 64\<close> is laid out without wrap-around.
\<close>

definition field_bytes :: "tenv \<Rightarrow> nat \<Rightarrow> field \<Rightarrow> nat" where
  "field_bytes env n f = (case type_size env n (ftype f) of Inr s \<Rightarrow> unat s + 8 | Inl e \<Rightarrow> 0)"

definition fields_bytes :: "tenv \<Rightarrow> nat \<Rightarrow> field list \<Rightarrow> nat" where
  "fields_bytes env n fs = sum_list (map (field_bytes env n) fs)"

definition padded :: "tenv \<Rightarrow> nat \<Rightarrow> field \<Rightarrow> bool" where
  "padded env n f \<longleftrightarrow> alignment env n (ftype f) \<noteq> Inr 0"

lemma layout_step_bounds:
  assumes "layout_step env n sz f = Inr e" "padded env n f"
    and "unat sz + field_bytes env n f < 2 ^ 64"
  obtains a s where "alignment env n (ftype f) = Inr a" "type_size env n (ftype f) = Inr s"
    "unat sz \<le> unat (align_up sz a)" "unat a dvd unat (align_up sz a)"
    "unat e = unat (align_up sz a) + unat s" "unat e \<le> unat sz + field_bytes env n f"
proof -
  obtain a s where as: "alignment env n (ftype f) = Inr a" "type_size env n (ftype f) = Inr s"
      "e = align_up sz a + s"
    using assms(1) by (auto simp: layout_step_def outcome_simps)
  then have a: "a \<in> alignments" "a \<noteq> 0"
    using alignment_range assms(2) by (auto simp: padded_def)
  have b: "unat sz + unat s + 8 < 2 ^ 64" "field_bytes env n f = unat s + 8"
    using assms(3) as(2) by (simp_all add: field_bytes_def)
  have u: "unat (align_up sz a) = round_up (unat sz) (unat a)"
    using a b by (intro align_up_unat) simp_all
  have le8: "0 < unat a" "unat a \<le> 8" using a by (auto simp: alignments_def unat_gt_0)
  have lt: "round_up (unat sz) (unat a) < unat sz + 8"
    using round_up_less[OF le8(1), of "unat sz"] le8(2) by simp
  have "unat e = unat (align_up sz a) + unat s"
    unfolding as(3) using lt b(1) u by (subst unat_add_lem [THEN iffD1]) simp_all
  then show ?thesis
    using that[OF as(1,2)] u lt b(2) round_up_ge[OF le8(1), of "unat sz"]
      round_up_dvd[of "unat a" "unat sz"]
    by simp
qed

lemma layout_bounds:
  assumes "ofold (layout_step env n) fs sz = Inr e" "\<forall>f \<in> set fs. padded env n f"
    and "unat sz + fields_bytes env n fs < 2 ^ 64"
  shows "unat sz \<le> unat e \<and> unat e \<le> unat sz + fields_bytes env n fs"
  using assms
proof (induction fs arbitrary: sz)
  case (Cons f fs)
  then obtain b where b: "layout_step env n sz f = Inr b" "ofold (layout_step env n) fs b = Inr e"
    by (auto simp: outcome_simps)
  have "unat sz \<le> unat b" "unat b \<le> unat sz + field_bytes env n f"
    by (rule layout_step_bounds[OF b(1)]; use Cons.prems in \<open>simp add: fields_bytes_def\<close>)+
  moreover from this have "unat b \<le> unat e \<and> unat e \<le> unat b + fields_bytes env n fs"
    using Cons.prems by (intro Cons.IH b(2)) (simp_all add: fields_bytes_def)
  ultimately show ?case by (simp add: fields_bytes_def)
qed (simp add: fields_bytes_def)

text \<open>A field list around the field at one position.\<close>

lemma split_at: "i < length xs \<Longrightarrow> xs = take i xs @ xs ! i # drop (Suc i) xs"
  by (simp add: id_take_nth_drop)

lemma fields_bytes_append [simp]:
  "fields_bytes env n (fs @ gs) = fields_bytes env n fs + fields_bytes env n gs"
  "fields_bytes env n (f # gs) = field_bytes env n f + fields_bytes env n gs"
  by (simp_all add: fields_bytes_def)

text \<open>The start, the end and the alignment of the field at position \<open>i\<close>.\<close>

lemma offset_step:
  assumes "offset env n fs i = Inr oi" "type_size env n (ftype (fs ! i)) = Inr si"
    and "\<forall>f \<in> set fs. padded env n f" "fields_bytes env n fs < 2 ^ 64"
  obtains b e where "i < length fs" "ofold (layout_step env n) (take i fs) 0 = Inr b"
    "layout_step env n b (fs ! i) = Inr e" "unat e = unat oi + unat si"
    "unat e \<le> unat b + field_bytes env n (fs ! i)"
    "unat b \<le> fields_bytes env n (take i fs)" "unat b \<le> unat oi"
    "\<And>a. alignment env n (ftype (fs ! i)) = Inr a \<Longrightarrow> unat a dvd unat oi"
proof -
  obtain b a where i: "i < length fs" and b: "ofold (layout_step env n) (take i fs) 0 = Inr b"
    and a: "alignment env n (ftype (fs ! i)) = Inr a" "oi = align_up b a"
    using assms(1) by (auto simp: offset_def outcome_simps split: if_splits)
  have e: "layout_step env n b (fs ! i) = Inr (oi + si)"
    using a assms(2) by (simp add: layout_step_def)
  have total: "fields_bytes env n fs = fields_bytes env n (take i fs) +
      (field_bytes env n (fs ! i) + fields_bytes env n (drop (Suc i) fs))"
    by (subst split_at[OF i]) simp
  have ub: "unat b \<le> fields_bytes env n (take i fs)"
    using layout_bounds[OF b] assms(3,4) total by (auto dest: in_set_takeD)
  obtain a' s' where "alignment env n (ftype (fs ! i)) = Inr a'" "type_size env n (ftype (fs ! i)) = Inr s'"
    "unat b \<le> unat (align_up b a')" "unat a' dvd unat (align_up b a')"
    "unat (oi + si) = unat (align_up b a') + unat s'" "unat (oi + si) \<le> unat b + field_bytes env n (fs ! i)"
    by (rule layout_step_bounds[OF e]) (use assms(3,4) i ub total in auto)
  then show ?thesis using that[OF i b e _ _ ub] a assms(2) by simp
qed

section \<open>Properties\<close>

text \<open>C31: the size of a type is computed, with enough fuel, exactly for the allocatable types.\<close>

theorem type_size_iff_allocatable:
  "(\<exists>n s. type_size env n t = Inr s) \<longleftrightarrow> allocatable env t"
  using allocatable_returns[of env t] returns_allocatable[of env _ t]
  by (auto simp: returns_def)

theorem type_size_fuel:
  "type_size env n t = Inr s \<Longrightarrow> type_size env m t = Inr s' \<Longrightarrow> s = s'"
  by (metis type_size_mono le_cases sum.inject(2))

lemma fields_disjoint:
  assumes "offset env n fs i = Inr oi" "offset env n fs j = Inr oj" "i < j"
    and "type_size env n (ftype (fs ! i)) = Inr si" "type_size env n (ftype (fs ! j)) = Inr sj"
    and "\<forall>f \<in> set fs. padded env n f" "fields_bytes env n fs < 2 ^ 64"
  shows "unat oi + unat si \<le> unat oj"
proof -
  obtain b e where i: "i < length fs" "ofold (layout_step env n) (take i fs) 0 = Inr b"
    "layout_step env n b (fs ! i) = Inr e" "unat e = unat oi + unat si"
    "unat e \<le> unat b + field_bytes env n (fs ! i)" "unat b \<le> fields_bytes env n (take i fs)"
    by (rule offset_step[OF assms(1,4,6,7)]) blast
  obtain c where j: "j < length fs" "ofold (layout_step env n) (take j fs) 0 = Inr c" "unat c \<le> unat oj"
    by (rule offset_step[OF assms(2,5,6,7)]) blast
  define gs where "gs = drop (Suc i) (take j fs)"
  have tj: "take j fs = take i fs @ fs ! i # gs"
    using split_at[of i "take j fs"] assms(3) j(1) by (simp add: gs_def min_def)
  then have c: "ofold (layout_step env n) gs e = Inr c"
    using j(2) i(2,3) by (simp add: ofold_append)
  have "fields_bytes env n fs = fields_bytes env n (take j fs) + fields_bytes env n (drop j fs)"
    by (metis append_take_drop_id fields_bytes_append(1))
  then have "unat e + fields_bytes env n gs < 2 ^ 64"
    using tj i(5,6) assms(7) by simp
  moreover have "\<forall>f \<in> set gs. padded env n f"
    using assms(6) by (auto simp: gs_def dest: in_set_dropD in_set_takeD)
  ultimately have "unat e \<le> unat c" using layout_bounds[OF c] by blast
  with i(4) j(3) show ?thesis by simp
qed

text \<open>C15: two fields of a struct do not overlap: the earlier ends before the later begins, when
  every field type has a non-zero alignment and the sizes do not wrap around.  A field whose type is a struct without fields
  has alignment zero and overlaps its predecessor, see \<open>empty_struct_field_overlaps\<close>.\<close>

theorem struct_fields_disjoint:
  assumes "offset env n fs i = Inr oi" "offset env n fs j = Inr oj" "i < j"
    and "type_size env n (ftype (fs ! i)) = Inr si" "type_size env n (ftype (fs ! j)) = Inr sj"
    and "\<forall>f \<in> set fs. padded env n f" "fields_bytes env n fs < 2 ^ 64"
  shows "unat oi + unat si \<le> unat oj"
  by (rule fields_disjoint[OF assms])

lemma field_inside:
  assumes "offset env n fs i = Inr oi" "type_size env n (ftype (fs ! i)) = Inr si"
    and "alignment env n (ftype (fs ! i)) = Inr a"
    and "underlying_type env t = Struct c k fs" "type_size env (Suc n) t = Inr s"
    and "\<forall>f \<in> set fs. padded env n f" "fields_bytes env n fs < 2 ^ 64"
  shows "unat a dvd unat oi \<and> unat oi + unat si \<le> unat s"
proof -
  obtain b e where i: "i < length fs" "ofold (layout_step env n) (take i fs) 0 = Inr b"
    "layout_step env n b (fs ! i) = Inr e" "unat e = unat oi + unat si"
    "unat e \<le> unat b + field_bytes env n (fs ! i)" "unat b \<le> fields_bytes env n (take i fs)"
    "unat a dvd unat oi"
    by (rule offset_step[OF assms(1,2,6,7)]) (use assms(3) in blast)
  have fs: "fs = take i fs @ fs ! i # drop (Suc i) fs" by (rule split_at[OF i(1)])
  have "ofold (layout_step env n) fs 0 = Inr s"
    using assms(4,5) by (simp add: type_size_struct del: type_size.simps)
  then have s: "ofold (layout_step env n) (drop (Suc i) fs) e = Inr s"
    by (subst (asm) fs) (simp add: ofold_append i(2,3))
  have "fields_bytes env n fs = fields_bytes env n (take i fs) +
      (field_bytes env n (fs ! i) + fields_bytes env n (drop (Suc i) fs))"
    by (subst fs) simp
  then have "unat e + fields_bytes env n (drop (Suc i) fs) < 2 ^ 64"
    using i(5,6) assms(7) by simp
  then have "unat e \<le> unat s"
    using layout_bounds[OF s] assms(6) by (auto dest: in_set_dropD)
  with i(4,7) show ?thesis by simp
qed

text \<open>C16: every field starts at a multiple of its alignment and ends within the struct, when every field type has a
  non-zero alignment and the sizes do not wrap around.\<close>

theorem struct_field_aligned_inside:
  assumes "offset env n fs i = Inr oi" "type_size env n (ftype (fs ! i)) = Inr si"
    and "alignment env n (ftype (fs ! i)) = Inr a"
    and "underlying_type env t = Struct c k fs" "type_size env (Suc n) t = Inr s"
    and "\<forall>f \<in> set fs. padded env n f" "fields_bytes env n fs < 2 ^ 64"
  shows "unat a dvd unat oi \<and> unat oi + unat si \<le> unat s"
  by (rule field_inside[OF assms])

text \<open>The fields of a struct with a byte, a 64-bit integer and a slice.\<close>

definition sample_fields :: "field list" where
  "sample_fields =
     [Field 0 False ''a'' (Basic Uint8) {}, Field 0 False ''b'' (Basic Int64) {},
      Field 0 False ''c'' (Slice (Basic Int8)) {}]"

lemma sample_fields_layout:
  "offset predeclared 1 sample_fields 1 = Inr 8"
  "offset predeclared 1 sample_fields 2 = Inr 16"
  "\<forall>f \<in> set sample_fields. padded predeclared 1 f"
  "fields_bytes predeclared 1 sample_fields < 2 ^ 64"
  by (simp_all add: sample_fields_def offset_def layout_step_def align_up_def padded_def
      fields_bytes_def field_bytes_def)

theorem struct_fields_disjoint_witness:
  "unat (8 :: 64 word) + unat (8 :: 64 word) \<le> unat (16 :: 64 word)"
  by (rule struct_fields_disjoint[OF sample_fields_layout(1,2) _ _ _ sample_fields_layout(3,4)])
    (simp_all add: sample_fields_def)

theorem struct_field_aligned_inside_witness:
  "unat (8 :: 64 word) dvd unat (8 :: 64 word) \<and> unat (8 :: 64 word) + unat (8 :: 64 word) \<le> unat (40 :: 64 word)"
  by (rule struct_field_aligned_inside[OF sample_fields_layout(1) _ _ _ _ sample_fields_layout(3,4),
        of _ _ "Struct Plain_Struct 1 sample_fields" Plain_Struct 1])
    (simp_all add: sample_fields_def align_up_def)

text \<open>A field whose struct type is empty has alignment zero, align_up with alignment zero is
  zero, and the next field is laid out over the first one.\<close>

theorem empty_struct_field_overlaps:
  "offset predeclared 2
     [Field 0 False ''a'' (Basic Int64) {},
      Field 0 False ''b'' (Struct Plain_Struct 1 []) {},
      Field 0 False ''c'' (Basic Int64) {}] 0 = Inr 0 \<and>
   offset predeclared 2
     [Field 0 False ''a'' (Basic Int64) {},
      Field 0 False ''b'' (Struct Plain_Struct 1 []) {},
      Field 0 False ''c'' (Basic Int64) {}] 2 = Inr 0"
  by (simp add: offset_def layout_step_def align_up_def numeral_2_eq_2)

end
