(* ===== verification/Stack.thy ===== *)
theory Stack
  imports Arch
begin

text \<open>
  The runtime stack (stack.hpp, stack.cpp): a byte array that grows upwards, a top
  and a base pointer.  Pointers are unbounded integers (addresses); a pointer
  stored in the array is its 64-bit little-endian pattern.  A failed assert and an
  access outside the array are errors.  The templates push and pop are load and
  store of the bytes of their argument.
\<close>

section \<open>State and operations\<close>

record stack =
  stack_data :: int
  stack_mem :: "8 word list"
  base_pointer :: int
  stack_top :: int

definition stack_limit :: "stack \<Rightarrow> int" where
  "stack_limit st = stack_data st + int (length (stack_mem st))"

text \<open>The constructor, for an array of \<open>capacity\<close> bytes at address \<open>data\<close>.\<close>

definition make_stack :: "int \<Rightarrow> nat \<Rightarrow> stack" where
  "make_stack data capacity =
     \<lparr>stack_data = data, stack_mem = replicate capacity 0, base_pointer = 0, stack_top = data\<rparr>"

definition aligned_size :: "64 word \<Rightarrow> int" where
  "aligned_size sz = uint (align_up sz stack_alignment)"

definition write_mem :: "stack \<Rightarrow> int \<Rightarrow> 8 word list \<Rightarrow> stack outcome" where
  "write_mem st p bs =
     (if stack_data st \<le> p \<and> p + int (length bs) \<le> stack_limit st
      then Inr (st\<lparr>stack_mem := blit (stack_mem st) (nat (p - stack_data st)) bs\<rparr>)
      else Inl Undefined_behaviour)"

definition read_mem :: "stack \<Rightarrow> int \<Rightarrow> nat \<Rightarrow> 8 word list outcome" where
  "read_mem st p n =
     (if stack_data st \<le> p \<and> p + int n \<le> stack_limit st
      then Inr (stretch (stack_mem st) (nat (p - stack_data st)) n)
      else Inl Undefined_behaviour)"

definition stack_load :: "stack \<Rightarrow> 8 word list \<Rightarrow> stack outcome" where
  "stack_load st bs =
     (let s = aligned_size (of_nat (length bs)) in
      if stack_top st + s \<le> stack_limit st then
        obind (write_mem st (stack_top st) bs) (\<lambda>st'. Inr (st'\<lparr>stack_top := stack_top st + s\<rparr>))
      else Inl Assertion_failed)"

definition stack_store :: "stack \<Rightarrow> nat \<Rightarrow> (8 word list \<times> stack) outcome" where
  "stack_store st sz =
     (let s = aligned_size (of_nat sz) in
      if stack_top st - s \<ge> stack_data st then
        obind (read_mem st (stack_top st - s) sz) (\<lambda>bs. Inr (bs, st\<lparr>stack_top := stack_top st - s\<rparr>))
      else Inl Assertion_failed)"

definition push_pointer :: "stack \<Rightarrow> int \<Rightarrow> stack outcome" where
  "push_pointer st p =
     (let s = aligned_size 8 in
      if stack_top st + s \<le> stack_limit st then
        obind (write_mem st (stack_top st) (le_bytes 8 (word_of_int p)))
          (\<lambda>st'. Inr (st'\<lparr>stack_top := stack_top st + s\<rparr>))
      else Inl Assertion_failed)"

definition pop_pointer :: "stack \<Rightarrow> (int \<times> stack) outcome" where
  "pop_pointer st =
     (let s = aligned_size 8 in
      if stack_top st - s \<ge> stack_data st then
        obind (read_mem st (stack_top st - s) 8)
          (\<lambda>bs. Inr (uint (le_word bs), st\<lparr>stack_top := stack_top st - s\<rparr>))
      else Inl Assertion_failed)"

definition peek_pointer :: "stack \<Rightarrow> int outcome" where
  "peek_pointer st =
     (let s = aligned_size 8 in
      if stack_top st - s \<ge> stack_data st then
        obind (read_mem st (stack_top st - s) 8) (\<lambda>bs. Inr (uint (le_word bs)))
      else Inl Assertion_failed)"

definition push_address :: "stack \<Rightarrow> int \<Rightarrow> stack outcome" where
  "push_address st off = push_pointer st (base_pointer st + off)"

definition get_address :: "stack \<Rightarrow> int \<Rightarrow> int" where
  "get_address st off = base_pointer st + off"

definition read_pointer :: "stack \<Rightarrow> int \<Rightarrow> int outcome" where
  "read_pointer st off =
     (let s = aligned_size 8; source = base_pointer st + off in
      if source \<ge> stack_data st \<and> source + 8 \<le> stack_top st then
        if stack_top st + s \<le> stack_limit st then
          obind (read_mem st source 8) (\<lambda>bs. Inr (uint (le_word bs)))
        else Inl Assertion_failed
      else Inl Assertion_failed)"

definition reserve :: "stack \<Rightarrow> 64 word \<Rightarrow> stack outcome" where
  "reserve st sz =
     (let s = aligned_size sz in
      if stack_top st + s \<le> stack_limit st then
        obind (write_mem st (stack_top st) (replicate (unat sz) 0))
          (\<lambda>st'. Inr (st'\<lparr>stack_top := stack_top st + s\<rparr>))
      else Inl Assertion_failed)"

definition stack_move :: "stack \<Rightarrow> int \<Rightarrow> nat \<Rightarrow> stack outcome" where
  "stack_move st off sz =
     (let s = aligned_size (of_nat sz); p = base_pointer st + off in
      if p \<ge> stack_data st \<and> p + int sz \<le> stack_top st then
        if stack_top st - s \<ge> stack_data st then
          obind (read_mem st (stack_top st - s) sz)
            (\<lambda>bs. write_mem (st\<lparr>stack_top := stack_top st - s\<rparr>) p bs)
        else Inl Assertion_failed
      else Inl Assertion_failed)"

definition stack_clear :: "stack \<Rightarrow> int \<Rightarrow> 64 word \<Rightarrow> stack outcome" where
  "stack_clear st off sz =
     (let s = aligned_size sz; p = base_pointer st + off in
      if p \<ge> stack_data st \<and> p + uint sz \<le> stack_top st then
        write_mem st p (replicate (nat s) 0)
      else Inl Assertion_failed)"

definition popn :: "stack \<Rightarrow> 64 word \<Rightarrow> stack outcome" where
  "popn st sz =
     (let s = aligned_size sz in
      if stack_top st - s \<ge> stack_data st
      then Inr (st\<lparr>stack_top := stack_top st - s\<rparr>)
      else Inl Assertion_failed)"

definition stack_write :: "stack \<Rightarrow> int \<Rightarrow> 8 word list \<Rightarrow> stack outcome" where
  "stack_write st off bs =
     (if base_pointer st + off \<ge> stack_data st then
        if base_pointer st + off + int (length bs) \<le> stack_limit st then
          write_mem st (base_pointer st + off) bs
        else Inl Assertion_failed
      else Inl Assertion_failed)"

definition stack_read :: "stack \<Rightarrow> int \<Rightarrow> nat \<Rightarrow> 8 word list outcome" where
  "stack_read st off sz =
     (if base_pointer st + off \<ge> stack_data st then
        if base_pointer st + off + int sz \<le> stack_limit st then
          read_mem st (base_pointer st + off) sz
        else Inl Assertion_failed
      else Inl Assertion_failed)"

definition stack_setup :: "stack \<Rightarrow> 64 word \<Rightarrow> stack outcome" where
  "stack_setup st sz =
     (let bp = stack_top st in
      obind (push_pointer st (base_pointer st)) (\<lambda>st'. reserve (st'\<lparr>base_pointer := bp\<rparr>) sz))"

definition stack_teardown :: "stack \<Rightarrow> stack outcome" where
  "stack_teardown st =
     obind (pop_pointer (st\<lparr>stack_top := base_pointer st + 8\<rparr>))
       (\<lambda>(p, st'). Inr (st'\<lparr>base_pointer := p\<rparr>))"

text \<open>The setter of the base pointer, with which the two phases of an action switch frames.\<close>

definition set_base_pointer :: "int \<Rightarrow> stack \<Rightarrow> stack" where
  "set_base_pointer p st = st\<lparr>base_pointer := p\<rparr>"

definition stack_empty :: "stack \<Rightarrow> bool" where
  "stack_empty st \<longleftrightarrow> stack_data st = stack_top st"

definition stack_size :: "stack \<Rightarrow> int" where
  "stack_size st = stack_top st - stack_data st"

definition pointer_to_instruction_pointer :: "stack \<Rightarrow> int" where
  "pointer_to_instruction_pointer st = base_pointer st - 8"

section \<open>Invariant\<close>

definition stack_wf :: "stack \<Rightarrow> bool" where
  "stack_wf st \<longleftrightarrow>
     0 < stack_data st \<and> stack_limit st < 2 ^ 63 \<and>
     stack_data st \<le> stack_top st \<and> stack_top st \<le> stack_limit st \<and>
     8 dvd (stack_top st - stack_data st) \<and>
     0 \<le> base_pointer st \<and> base_pointer st \<le> stack_limit st"

text \<open>The bytes below address \<open>p\<close> are the same in both states, and the array is the same array.\<close>

definition same_below :: "int \<Rightarrow> stack \<Rightarrow> stack \<Rightarrow> bool" where
  "same_below p st st' \<longleftrightarrow>
     stack_data st' = stack_data st \<and> length (stack_mem st') = length (stack_mem st) \<and>
     (\<forall>k < length (stack_mem st). stack_data st + int k < p \<longrightarrow> stack_mem st' ! k = stack_mem st ! k)"

lemma same_below_refl [simp]: "same_below p st st"
  by (simp add: same_below_def)

lemma same_below_trans: "same_below p st st' \<Longrightarrow> same_below p st' st'' \<Longrightarrow> same_below p st st''"
  by (simp add: same_below_def)

lemma same_below_mono: "same_below p st st' \<Longrightarrow> q \<le> p \<Longrightarrow> same_below q st st'"
  by (auto simp: same_below_def)

lemma aligned_size_8 [simp]: "aligned_size 8 = 8"
  by (simp add: aligned_size_def align_up_def stack_alignment_def)

lemma aligned_size_bounds:
  assumes "uint n + 8 \<le> 2 ^ 64"
  shows "uint n \<le> aligned_size n" "aligned_size n < uint n + 8"
proof -
  obtain m where m: "unat n = m" "uint n = int m" by (simp add: uint_nat)
  then have "m + 8 \<le> 2 ^ 64" using assms by simp
  then have "unat (align_up n 8) = round_up m 8"
    using align_up_unat[of 8 n] m by (simp add: alignments_def)
  then have e: "aligned_size n = int (round_up m 8)"
    by (simp add: aligned_size_def stack_alignment_def uint_nat)
  show "uint n \<le> aligned_size n" using round_up_ge[of 8 m] by (simp add: e m(2))
  show "aligned_size n < uint n + 8" using round_up_less[of 8 m] by (simp add: e m(2))
qed

lemma aligned_size_nonneg [simp]: "0 \<le> aligned_size n"
  by (simp add: aligned_size_def)

lemma aligned_size_dvd [simp]: "8 dvd aligned_size n"
proof -
  have "align_up n 8 = of_nat (round_up (unat n) 8)"
    using align_up_of_nat[of "unat n" 3] by simp
  then have "aligned_size n = int (round_up (unat n) 8 mod 2 ^ 64)"
    by (simp add: aligned_size_def stack_alignment_def uint_nat unat_of_nat)
  moreover have "8 dvd round_up (unat n) 8 mod 2 ^ 64"
    by (rule dvd_mod) (simp_all add: round_up_dvd)
  ultimately show ?thesis by (metis int_dvd_int_iff of_nat_numeral)
qed

lemma write_mem_simps:
  assumes "write_mem st p bs = Inr st'"
  shows "stack_data st' = stack_data st" "base_pointer st' = base_pointer st"
    "stack_top st' = stack_top st" "length (stack_mem st') = length (stack_mem st)"
    "stack_limit st' = stack_limit st"
    "stack_data st \<le> p" "p + int (length bs) \<le> stack_limit st"
    "stack_mem st' = blit (stack_mem st) (nat (p - stack_data st)) bs"
  using assms
  by (auto simp: write_mem_def stack_limit_def split: if_splits)

lemma write_mem_below: "write_mem st p bs = Inr st' \<Longrightarrow> same_below p st st'"
  by (auto simp: write_mem_def same_below_def stack_limit_def nth_blit split: if_splits)

lemma read_mem_same_below:
  assumes "same_below p st st'" "a + int n \<le> p"
  shows "read_mem st' a n = read_mem st a n"
proof -
  have "stack_data st' = stack_data st" "length (stack_mem st') = length (stack_mem st)"
    using assms(1) by (simp_all add: same_below_def)
  moreover have "stretch (stack_mem st') (nat (a - stack_data st)) n = stretch (stack_mem st) (nat (a - stack_data st)) n"
    if "stack_data st \<le> a" "a + int n \<le> stack_limit st"
    by (rule stretch_cong) (use assms that in \<open>auto simp: same_below_def stack_limit_def\<close>)
  ultimately show ?thesis by (auto simp: read_mem_def stack_limit_def)
qed

lemma read_write_mem:
  "write_mem st p bs = Inr st' \<Longrightarrow> n = length bs \<Longrightarrow> read_mem st' p n = Inr bs"
  by (auto simp: write_mem_def read_mem_def stack_limit_def split: if_splits)

lemma read_mem_top [simp]: "read_mem (st\<lparr>stack_top := t\<rparr>) p n = read_mem st p n"
  by (simp add: read_mem_def stack_limit_def)

lemma read_mem_bp [simp]: "read_mem (st\<lparr>base_pointer := t\<rparr>) p n = read_mem st p n"
  by (simp add: read_mem_def stack_limit_def)

text \<open>
  What every push-like operation does: it writes bytes at the old top, moves the top up by
  a multiple of eight and leaves everything below alone.
\<close>

definition pushes :: "stack \<Rightarrow> stack \<Rightarrow> int \<Rightarrow> 8 word list \<Rightarrow> bool" where
  "pushes st st' s bs \<longleftrightarrow>
     stack_top st' = stack_top st + s \<and> base_pointer st' = base_pointer st \<and>
     same_below (stack_top st) st st' \<and> 0 \<le> s \<and> 8 dvd s \<and> stack_top st' \<le> stack_limit st' \<and>
     read_mem st' (stack_top st) (length bs) = Inr bs"

lemma pushes_intro:
  assumes "write_mem st (stack_top st) bs = Inr st1" "stack_top st + s \<le> stack_limit st"
    "0 \<le> s" "8 dvd s" "st' = st1\<lparr>stack_top := stack_top st + s\<rparr>"
  shows "pushes st st' s bs"
  using write_mem_simps[OF assms(1)] write_mem_below[OF assms(1)] read_write_mem[OF assms(1) refl] assms(2-5)
  by (auto simp: pushes_def same_below_def stack_limit_def)

lemma stack_load_pushes:
  "stack_load st bs = Inr st' \<Longrightarrow> pushes st st' (aligned_size (of_nat (length bs))) bs"
  by (auto simp: stack_load_def Let_def outcome_simps split: if_splits intro: pushes_intro)

lemma push_pointer_pushes:
  "push_pointer st p = Inr st' \<Longrightarrow> pushes st st' 8 (le_bytes 8 (word_of_int p))"
  by (auto simp: push_pointer_def Let_def outcome_simps split: if_splits intro: pushes_intro)

lemma reserve_pushes:
  "reserve st sz = Inr st' \<Longrightarrow> pushes st st' (aligned_size sz) (replicate (unat sz) 0)"
  by (auto simp: reserve_def Let_def outcome_simps split: if_splits intro: pushes_intro)

lemma pushes_wf:
  assumes "stack_wf st" "pushes st st' s bs"
  shows "stack_wf st'"
proof -
  have "stack_top st' - stack_data st' = (stack_top st - stack_data st) + s"
    using assms(2) by (simp add: pushes_def same_below_def)
  moreover have "8 dvd (stack_top st - stack_data st) + s"
    using assms by (simp add: stack_wf_def pushes_def)
  ultimately have "8 dvd (stack_top st' - stack_data st')" by simp
  then show ?thesis using assms
    by (auto simp: stack_wf_def pushes_def same_below_def stack_limit_def)
qed

lemma wf_lower_top:
  assumes "stack_wf st" "0 \<le> s" "8 dvd s" "stack_data st \<le> stack_top st - s"
  shows "stack_wf (st\<lparr>stack_top := stack_top st - s\<rparr>)"
proof -
  have "8 dvd (stack_top st - stack_data st) - s"
  proof (rule dvd_diff)
    show "8 dvd stack_top st - stack_data st" using assms(1) unfolding stack_wf_def by blast
  qed (rule assms(3))
  then have "8 dvd (stack_top st - s - stack_data st)" by (simp add: algebra_simps)
  then show ?thesis using assms by (simp add: stack_wf_def stack_limit_def)
qed

lemma write_mem_wf: "stack_wf st \<Longrightarrow> write_mem st p bs = Inr st' \<Longrightarrow> stack_wf st'"
  using write_mem_simps[of st p bs st'] by (simp add: stack_wf_def)

lemma stack_store_lowers:
  assumes "stack_store st n = Inr (bs, st')"
  shows "st' = st\<lparr>stack_top := stack_top st - aligned_size (of_nat n)\<rparr>"
    "stack_data st \<le> stack_top st - aligned_size (of_nat n)"
    "read_mem st (stack_top st - aligned_size (of_nat n)) n = Inr bs"
  using assms by (auto simp: stack_store_def Let_def outcome_simps split: if_splits)

lemma pop_pointer_lowers:
  assumes "pop_pointer st = Inr (p, st')"
  shows "st' = st\<lparr>stack_top := stack_top st - 8\<rparr>" "stack_data st \<le> stack_top st - 8"
    "0 \<le> p" "p < 2 ^ 64"
  using assms by (auto simp: pop_pointer_def Let_def outcome_simps uint_lt2p[where 'a = 64, simplified]
      split: if_splits)

lemma popn_lowers:
  assumes "popn st n = Inr st'"
  shows "st' = st\<lparr>stack_top := stack_top st - aligned_size n\<rparr>"
    "stack_data st \<le> stack_top st - aligned_size n"
  using assms by (auto simp: popn_def Let_def split: if_splits)

lemma stack_setup_steps:
  assumes "stack_setup st n = Inr st'"
  obtains st1 where "pushes st st1 8 (le_bytes 8 (word_of_int (base_pointer st)))"
    "pushes (st1\<lparr>base_pointer := stack_top st\<rparr>) st' (aligned_size n) (replicate (unat n) 0)"
proof -
  from assms obtain st1 where "push_pointer st (base_pointer st) = Inr st1"
    "reserve (st1\<lparr>base_pointer := stack_top st\<rparr>) n = Inr st'"
    by (auto simp: stack_setup_def Let_def outcome_simps)
  then show ?thesis using that push_pointer_pushes reserve_pushes by blast
qed

lemma wf_set_base_pointer:
  "stack_wf st \<Longrightarrow> 0 \<le> p \<Longrightarrow> p \<le> stack_limit st \<Longrightarrow> stack_wf (st\<lparr>base_pointer := p\<rparr>)"
  by (simp add: stack_wf_def stack_limit_def)

lemma stack_setup_wf:
  assumes "stack_wf st" "stack_setup st n = Inr st'"
  shows "stack_wf st'"
proof -
  from assms(2) obtain st1 where s: "pushes st st1 8 (le_bytes 8 (word_of_int (base_pointer st)))"
    "pushes (st1\<lparr>base_pointer := stack_top st\<rparr>) st' (aligned_size n) (replicate (unat n) 0)"
    by (rule stack_setup_steps)
  have "stack_wf st1" by (rule pushes_wf[OF assms(1) s(1)])
  moreover have "stack_top st \<le> stack_limit st1" "0 \<le> stack_top st"
    using assms(1) s(1) by (auto simp: stack_wf_def pushes_def same_below_def stack_limit_def)
  ultimately show ?thesis using wf_set_base_pointer pushes_wf s(2) by blast
qed

section \<open>Properties\<close>

text \<open>One operation on the stack, as a step of its state; those that only read it are left out.\<close>

inductive stack_step :: "stack \<Rightarrow> stack \<Rightarrow> bool" where
  load: "stack_load st bs = Inr st' \<Longrightarrow> stack_step st st'"
| store: "stack_store st n = Inr (bs, st') \<Longrightarrow> stack_step st st'"
| push: "push_pointer st p = Inr st' \<Longrightarrow> stack_step st st'"
| pop: "pop_pointer st = Inr (p, st') \<Longrightarrow> stack_step st st'"
| push_addr: "push_address st off = Inr st' \<Longrightarrow> stack_step st st'"
| res: "reserve st sz = Inr st' \<Longrightarrow> stack_step st st'"
| drop_n: "popn st sz = Inr st' \<Longrightarrow> stack_step st st'"
| mv: "stack_move st off n = Inr st' \<Longrightarrow> stack_step st st'"
| clr: "stack_clear st off sz = Inr st' \<Longrightarrow> stack_step st st'"
| wr: "stack_write st off bs = Inr st' \<Longrightarrow> stack_step st st'"
| frame: "stack_setup st sz = Inr st' \<Longrightarrow> stack_step st st'"
| unframe: "stack_teardown st = Inr st' \<Longrightarrow> stack_step st st'"
| set_bp: "st' = set_base_pointer p st \<Longrightarrow> stack_step st st'"

lemma stack_teardown_lowers:
  assumes "stack_teardown st = Inr st'"
  shows "\<exists>p. st' = st\<lparr>stack_top := base_pointer st, base_pointer := p\<rparr> \<and>
    stack_data st \<le> base_pointer st"
proof -
  obtain p st1 where p: "pop_pointer (st\<lparr>stack_top := base_pointer st + 8\<rparr>) = Inr (p, st1)"
    "st' = st1\<lparr>base_pointer := p\<rparr>"
    using assms by (auto simp: stack_teardown_def outcome_simps)
  then show ?thesis using pop_pointer_lowers[OF p(1)] by (intro exI[of _ p]) simp
qed

lemma stack_move_wf:
  assumes "stack_wf st" "stack_move st off n = Inr st'"
  shows "stack_wf st'"
proof -
  from assms(2) obtain bs where
    "stack_data st \<le> stack_top st - aligned_size (of_nat n)"
    "write_mem (st\<lparr>stack_top := stack_top st - aligned_size (of_nat n)\<rparr>) (base_pointer st + off) bs = Inr st'"
    by (auto simp: stack_move_def Let_def outcome_simps split: if_splits)
  then show ?thesis
    using write_mem_wf[OF wf_lower_top[OF assms(1) aligned_size_nonneg aligned_size_dvd]] by blast
qed

text \<open>
  The two operations that take a base pointer from elsewhere, given a pointer outside of the array: teardown,
  which loads the one that was saved and makes the old one the top, and the setter.
\<close>

definition base_inside :: "stack \<Rightarrow> bool" where
  "base_inside st \<longleftrightarrow> 0 \<le> base_pointer st \<and> base_pointer st \<le> stack_limit st"

definition misplaced :: "stack \<Rightarrow> stack \<Rightarrow> bool" where
  "misplaced st st' \<longleftrightarrow>
     (stack_teardown st = Inr st' \<and> \<not> (8 dvd (base_pointer st - stack_data st) \<and> base_inside st')) \<or>
     (\<exists>p. st' = set_base_pointer p st \<and> \<not> base_inside st')"

lemma misplaced_not_wf: "misplaced st st' \<Longrightarrow> \<not> stack_wf st'"
proof
  assume m: "misplaced st st'" and wf: "stack_wf st'"
  have b: "base_inside st'" using wf by (simp add: stack_wf_def base_inside_def)
  then have t: "stack_teardown st = Inr st'" "\<not> 8 dvd (base_pointer st - stack_data st)"
    using m by (auto simp: misplaced_def)
  then show False using stack_teardown_lowers[OF t(1)] wf by (auto simp: stack_wf_def)
qed

lemma replaced_base_wf:
  assumes "stack_wf st" "\<not> misplaced st st'" "stack_teardown st = Inr st' \<or> st' = set_base_pointer p st"
  shows "stack_wf st'"
  using assms(3)
proof
  assume t: "stack_teardown st = Inr st'"
  then have "8 dvd (base_pointer st - stack_data st)" "base_inside st'"
    using assms(2) by (auto simp: misplaced_def)
  then show ?thesis
    using stack_teardown_lowers[OF t] assms(1) by (auto simp: stack_wf_def base_inside_def stack_limit_def)
next
  assume s: "st' = set_base_pointer p st"
  then have "base_inside st'" using assms(2) by (auto simp: misplaced_def)
  then show ?thesis
    using assms(1) s by (auto simp: stack_wf_def base_inside_def stack_limit_def set_base_pointer_def)
qed

text \<open>C24: every operation of the stack keeps its invariant, that the top stays inside the array, a multiple of eight
  above its start, and the base pointer between NULL, which it is at first, and the end of the array, with exactly two exceptions: a
  teardown whose frame is not at a multiple of eight or whose saved word is beyond the end of the array,
  and setting the base pointer to something beyond it.\<close>

theorem stack_step_wf:
  assumes "stack_step st st'" "stack_wf st"
  shows "stack_wf st' \<longleftrightarrow> \<not> misplaced st st'"
proof
  show "stack_wf st' \<Longrightarrow> \<not> misplaced st st'" using misplaced_not_wf by blast
  assume ok: "\<not> misplaced st st'"
  show "stack_wf st'"
    using assms
  proof cases
    case store
    then show ?thesis
      using stack_store_lowers wf_lower_top[OF assms(2) aligned_size_nonneg aligned_size_dvd] by metis
  next
    case pop
    then show ?thesis
      using pop_pointer_lowers wf_lower_top[OF assms(2), of 8] by (metis dvd_refl zero_le_numeral)
  next
    case drop_n
    then show ?thesis
      using popn_lowers wf_lower_top[OF assms(2) aligned_size_nonneg aligned_size_dvd] by metis
  next
    case clr
    then show ?thesis using write_mem_wf[OF assms(2)]
      by (auto simp: stack_clear_def Let_def split: if_splits)
  next
    case wr
    then show ?thesis using write_mem_wf[OF assms(2)]
      by (auto simp: stack_write_def split: if_splits)
  next
    case push_addr
    then show ?thesis
      unfolding push_address_def by (rule pushes_wf[OF assms(2) push_pointer_pushes])
  next
    case load
    then show ?thesis by (rule pushes_wf[OF assms(2) stack_load_pushes])
  next
    case push
    then show ?thesis by (rule pushes_wf[OF assms(2) push_pointer_pushes])
  next
    case res
    then show ?thesis by (rule pushes_wf[OF assms(2) reserve_pushes])
  next
    case mv
    then show ?thesis by (rule stack_move_wf[OF assms(2)])
  next
    case frame
    then show ?thesis by (rule stack_setup_wf[OF assms(2)])
  next
    case unframe
    then show ?thesis using replaced_base_wf[OF assms(2) ok] by blast
  next
    case set_bp
    then show ?thesis using replaced_base_wf[OF assms(2) ok] by blast
  qed
qed

theorem stack_step_wf_witness:
  "stack_wf (make_stack 4096 8\<lparr>stack_top := 4104\<rparr>) \<and>
   \<not> stack_wf (set_base_pointer 1 (make_stack 4096 8)\<lparr>base_pointer := 5000\<rparr>)"
proof -
  have wf: "stack_wf (make_stack 4096 8)" by (simp add: make_stack_def stack_wf_def stack_limit_def)
  have r: "stack_step (make_stack 4096 8) (make_stack 4096 8\<lparr>stack_top := 4104\<rparr>)"
    by (rule stack_step.res[of _ 8])
      (simp add: make_stack_def reserve_def write_mem_def stack_limit_def blit_def)
  have b: "stack_step (make_stack 4096 8) (make_stack 4096 8\<lparr>base_pointer := 5000\<rparr>)"
    by (rule stack_step.set_bp) (simp add: set_base_pointer_def)
  have "misplaced (make_stack 4096 8) (make_stack 4096 8\<lparr>base_pointer := 5000\<rparr>)"
    by (auto simp: misplaced_def set_base_pointer_def base_inside_def make_stack_def stack_limit_def)
  moreover have "\<not> misplaced (make_stack 4096 8) (make_stack 4096 8\<lparr>stack_top := 4104\<rparr>)"
    by (auto simp: misplaced_def set_base_pointer_def stack_teardown_def pop_pointer_def make_stack_def
        outcome_simps Let_def)
  ultimately show ?thesis
    using stack_step_wf[OF r wf] stack_step_wf[OF b wf] by (simp add: set_base_pointer_def)
qed

text \<open>C26: what load puts on the stack, store takes off: the same bytes, the old top and base
  pointer, and nothing below the old top changed.\<close>

theorem load_store_roundtrip:
  assumes "stack_load st bs = Inr st'" "stack_data st \<le> stack_top st"
  shows "\<exists>st''. stack_store st' (length bs) = Inr (bs, st'') \<and> stack_top st'' = stack_top st \<and>
    base_pointer st'' = base_pointer st \<and> same_below (stack_top st) st st''"
  using stack_load_pushes[OF assms(1)] assms(2)
  by (auto simp: stack_store_def Let_def pushes_def same_below_def)

theorem load_store_roundtrip_witness:
  "\<exists>st' st''. stack_load (make_stack 4096 8) [1, 2, 3] = Inr st' \<and>
     stack_store st' (length [1, 2, 3 :: 8 word]) = Inr ([1, 2, 3], st'')"
proof -
  obtain st' where "stack_load (make_stack 4096 8) [1, 2, 3] = Inr st'"
    by (simp add: make_stack_def stack_load_def write_mem_def stack_limit_def Let_def
        aligned_size_def stack_alignment_def align_up_def)
  from this load_store_roundtrip[OF this] show ?thesis by (auto simp: make_stack_def)
qed

text \<open>An address pushed is the address popped.\<close>

theorem pointer_roundtrip:
  assumes "push_pointer st p = Inr st'" "stack_data st \<le> stack_top st" "0 \<le> p" "p < 2 ^ 64"
  shows "\<exists>st''. pop_pointer st' = Inr (p, st'') \<and> stack_top st'' = stack_top st \<and>
    base_pointer st'' = base_pointer st \<and> same_below (stack_top st) st st''"
  using push_pointer_pushes[OF assms(1)] assms(2-4)
  by (auto simp: pop_pointer_def Let_def pushes_def same_below_def uint_word_of_int)

theorem pointer_roundtrip_witness:
  "\<exists>st' st''. push_pointer (make_stack 4096 8) 4100 = Inr st' \<and> pop_pointer st' = Inr (4100, st'')"
proof -
  obtain st' where "push_pointer (make_stack 4096 8) 4100 = Inr st'"
    by (simp add: make_stack_def push_pointer_def write_mem_def stack_limit_def Let_def)
  from this pointer_roundtrip[OF this] show ?thesis by (auto simp: make_stack_def)
qed

text \<open>C25: a callee that keeps the bytes of its caller and the saved base pointer, and leaves its
  own base pointer as setup left it, returns with teardown to exactly the caller's
  frame.\<close>

theorem setup_teardown_roundtrip:
  assumes "stack_wf st" "stack_setup st n = Inr st1"
    and "same_below (base_pointer st1 + 8) st1 st2" "base_pointer st2 = base_pointer st1"
  shows "\<exists>st3. stack_teardown st2 = Inr st3 \<and> stack_top st3 = stack_top st \<and>
    base_pointer st3 = base_pointer st \<and> same_below (stack_top st) st st3"
proof -
  from assms(2) obtain s1 where s:
    "pushes st s1 8 (le_bytes 8 (word_of_int (base_pointer st)))"
    "pushes (s1\<lparr>base_pointer := stack_top st\<rparr>) st1 (aligned_size n) (replicate (unat n) 0)"
    by (rule stack_setup_steps)
  have top: "stack_top s1 = stack_top st + 8" "base_pointer st1 = stack_top st"
    using s by (simp_all add: pushes_def)
  have b1: "same_below (stack_top st + 8) s1 st1"
    using s(2) top by (simp add: pushes_def same_below_def)
  have b: "same_below (stack_top st + 8) s1 st2"
    using same_below_trans[OF b1] assms(3) top(2) by simp
  have "read_mem s1 (stack_top st) 8 = Inr (le_bytes 8 (word_of_int (base_pointer st)))"
    using s(1) by (simp add: pushes_def)
  then have r: "read_mem st2 (stack_top st) 8 = Inr (le_bytes 8 (word_of_int (base_pointer st)))"
    using read_mem_same_below[OF b, of "stack_top st" 8] by simp
  have bp: "uint (word_of_int (base_pointer st) :: 64 word) = base_pointer st"
    using assms(1) by (simp add: stack_wf_def uint_word_of_int)
  have st: "same_below (stack_top st) st st2"
    using s(1) same_below_mono[OF b] by (auto simp: pushes_def intro: same_below_trans)
  have "stack_data st2 \<le> stack_top st"
    using st assms(1) by (simp add: same_below_def stack_wf_def)
  then show ?thesis
    using r bp st top(2) assms(4)
    by (simp add: stack_teardown_def pop_pointer_def same_below_def)
qed

theorem setup_teardown_roundtrip_witness:
  "\<exists>st1 st3. stack_setup (make_stack 4096 16) 8 = Inr st1 \<and> stack_teardown st1 = Inr st3 \<and>
     stack_top st3 = 4096 \<and> base_pointer st3 = 0"
proof -
  have wf: "stack_wf (make_stack 4096 16)" by (simp add: make_stack_def stack_wf_def stack_limit_def)
  obtain st1 where "stack_setup (make_stack 4096 16) 8 = Inr st1"
    by (simp add: make_stack_def stack_setup_def push_pointer_def reserve_def write_mem_def
        stack_limit_def Let_def)
  from this setup_teardown_roundtrip[OF wf this same_below_refl refl] show ?thesis
    by (auto simp: make_stack_def)
qed

end
