(* ===== verification/Ast.thy ===== *)
theory Ast
  imports Arch
begin

text \<open>
  The part of the syntax tree (node.hpp) that the passes over function bodies
  look at.  Every expression carries the result of the type checker that the
  passes read: the kind of the expression, its type and its indirection
  mutability.  A list node is a list.  Bind statements, constants and types hold
  nothing those passes use.
\<close>

datatype expression_kind =
    UnknownExpressionKind | ErrorExpressionKind | ValueExpressionKind
  | VariableExpressionKind | TypeExpressionKind | EmptyTypeExpressionKind | VoidExpressionKind

record eval =
  eval_kind :: expression_kind
  eval_type :: ty
  eval_indirection :: mutability

text \<open>
  How a call determines the access of its arguments: a predeclared polymorphic
  function, the parameter list of a callable or of a value of function type, with
  the receiver parameter when a method is invoked.
\<close>

datatype builtin = New | Move | Merge | Len | Append | Copy | Println

datatype call_target =
    Polymorphic builtin
  | Callable parameter_list "parameter option"

datatype expr =
    AddressOf eval expr
  | Conversion eval expr
  | Call eval call_target expr "expr list"
  | IdentifierExpression eval "parameter_kind option"
  | Literal eval
  | UnaryArithmetic eval expr
  | BinaryArithmetic eval expr expr
  | Select eval expr
  | PushPortCall eval "expr list"
  | IndexedPushPortCall eval expr "expr list"
  | TypeExpression eval
  | Dereference eval expr
  | Index eval expr expr
  | IndexSlice eval expr "expr option" "expr option" "expr option"
  | EmptyExpression eval

text \<open>Symbols that get stack offsets; the number is the identity of the object.\<close>

datatype symbol =
    Parameter_Symbol nat parameter_kind ty
  | Constant_Symbol nat
  | Variable_Symbol nat ty
  | Hidden_Symbol nat
  | Other_Symbol nat

datatype stmt =
    EmptyStatement
  | ConstDecl
  | TypeDecl
  | ExpressionStatement expr
  | Var "symbol list" "expr list"
  | Assign expr expr
  | AddAssign expr expr
  | SubtractAssign expr expr
  | IncrementDecrement expr
  | ReturnStatement expr
  | StatementList "stmt list"
  | IfStatement stmt expr stmt stmt
  | While expr stmt
  | Change expr symbol stmt
  | ForIota symbol expr stmt
  | Activate "expr list" stmt
  | BindPushPort
  | BindPushPortParameter
  | BindPullPort

end
