(* ===== verification/Memory.thy ===== *)
theory Memory
  imports Ast
begin

text \<open>
  The assignment of stack offsets to parameters and local variables
  (memory_model.cpp and the allocation passes of semantic.cpp).  Offsets are
  relative to the base pointer of the frame; all fields are 64-bit words (the
  code mixes ptrdiff_t and size_t).  The code stores the offset in the symbol; here the
  stores are a list of pairs, latest first.
\<close>

section \<open>The memory model\<close>

record memory_model =
  arguments_offset :: "64 word"
  locals_offset :: "64 word"
  locals_size_on_stack :: "64 word"
  receiver_offset :: "64 word option"

definition make_memory_model :: memory_model where
  "make_memory_model =
     \<lparr>arguments_offset = - 8, locals_offset = 8, locals_size_on_stack = 0, receiver_offset = None\<rparr>"

definition arguments_empty :: "memory_model \<Rightarrow> bool" where
  "arguments_empty mm \<longleftrightarrow> arguments_offset mm = - 8"

definition arguments_push :: "tenv \<Rightarrow> nat \<Rightarrow> ty \<Rightarrow> memory_model \<Rightarrow> memory_model outcome" where
  "arguments_push env n t mm =
     obind (size_on_stack env n t)
       (\<lambda>s. Inr (mm\<lparr>arguments_offset := arguments_offset mm - s\<rparr>))"

definition locals_empty :: "memory_model \<Rightarrow> bool" where
  "locals_empty mm \<longleftrightarrow> locals_offset mm = 8"

definition locals_push :: "tenv \<Rightarrow> nat \<Rightarrow> ty \<Rightarrow> memory_model \<Rightarrow> memory_model outcome" where
  "locals_push env n t mm =
     obind (size_on_stack env n t)
       (\<lambda>s. Inr (mm\<lparr>locals_offset := locals_offset mm + s,
                     locals_size_on_stack := locals_size_on_stack mm + s\<rparr>))"

definition locals_pop :: "64 word \<Rightarrow> memory_model \<Rightarrow> memory_model" where
  "locals_pop s mm = mm\<lparr>locals_offset := locals_offset mm - align_up s stack_alignment\<rparr>"

definition set_receiver_offset :: "memory_model \<Rightarrow> memory_model" where
  "set_receiver_offset mm = mm\<lparr>receiver_offset := Some (arguments_offset mm)\<rparr>"

section \<open>Allocation of symbols\<close>

type_synonym allocation = "memory_model \<times> (symbol \<times> 64 word) list"

definition set_offset :: "symbol \<Rightarrow> 64 word \<Rightarrow> (symbol \<times> 64 word) list \<Rightarrow> (symbol \<times> 64 word) list" where
  "set_offset s v log = (s, v) # log"

fun allocate_symbol :: "tenv \<Rightarrow> nat \<Rightarrow> symbol \<Rightarrow> allocation \<Rightarrow> allocation outcome" where
  "allocate_symbol env n (Parameter_Symbol i k t) (mm, log) =
     (if k \<in> {Ordinary, Receiver, Return} then
        obind (arguments_push env n t mm) (\<lambda>mm'.
          Inr (if k = Receiver then set_receiver_offset mm' else mm',
               set_offset (Parameter_Symbol i k t) (arguments_offset mm') log))
      else Inr (mm, log))"
| "allocate_symbol env n (Constant_Symbol i) a = Inr a"
| "allocate_symbol env n (Variable_Symbol i t) (mm, log) =
     obind (locals_push env n t mm)
       (\<lambda>mm'. Inr (mm', set_offset (Variable_Symbol i t) (locals_offset mm) log))"
| "allocate_symbol env n (Hidden_Symbol i) a = Inr a"
| "allocate_symbol env n (Other_Symbol i) a = Inl Not_reached"

text \<open>Leaving a scope: the locals pushed since offset \<open>before\<close> are popped, and the assert checks it.\<close>

definition leave_scope :: "64 word \<Rightarrow> 64 word \<Rightarrow> allocation \<Rightarrow> allocation outcome" where
  "leave_scope before after a =
     (let mm' = locals_pop (after - before) (fst a) in
      if locals_offset mm' = before then Inr (mm', snd a) else Inl Assertion_failed)"

text \<open>allocate_statement_stack_variables; the second function is the loop over a statement list.\<close>

fun allocate_statement :: "tenv \<Rightarrow> nat \<Rightarrow> stmt \<Rightarrow> allocation \<Rightarrow> allocation outcome"
and allocate_statements :: "tenv \<Rightarrow> nat \<Rightarrow> stmt list \<Rightarrow> allocation \<Rightarrow> allocation outcome"
where
  "allocate_statement env n ConstDecl a = Inr a"
| "allocate_statement env n EmptyStatement a = Inr a"
| "allocate_statement env n (ForIota s e body) a =
     (let before = locals_offset (fst a) in
      obind (allocate_symbol env n s a) (\<lambda>a1.
      let after = locals_offset (fst a1) in
      obind (allocate_statement env n body a1) (leave_scope before after)))"
| "allocate_statement env n BindPushPort a = Inr a"
| "allocate_statement env n BindPushPortParameter a = Inr a"
| "allocate_statement env n BindPullPort a = Inr a"
| "allocate_statement env n (Assign l r) a = Inr a"
| "allocate_statement env n (Change e s body) a =
     (let before = locals_offset (fst a) in
      obind (allocate_symbol env n s a) (\<lambda>a1.
      let after = locals_offset (fst a1) in
      obind (allocate_statement env n body a1) (leave_scope before after)))"
| "allocate_statement env n (ExpressionStatement e) a = Inr a"
| "allocate_statement env n (IfStatement b e t f) a =
     obind (allocate_statement env n b a) (\<lambda>a1.
     obind (allocate_statement env n t a1) (allocate_statement env n f))"
| "allocate_statement env n (While e body) a = allocate_statement env n body a"
| "allocate_statement env n (AddAssign l r) a = Inr a"
| "allocate_statement env n (SubtractAssign l r) a = Inr a"
| "allocate_statement env n (StatementList ss) a =
     (let before = locals_offset (fst a) in
      obind (allocate_statements env n ss a)
        (\<lambda>a1. leave_scope before (locals_offset (fst a1)) a1))"
| "allocate_statement env n (ReturnStatement e) a = Inr a"
| "allocate_statement env n (IncrementDecrement e) a = Inr a"
| "allocate_statement env n (Activate es body) a = allocate_statement env n body a"
| "allocate_statement env n (Var vs es) a = ofold (\<lambda>a v. allocate_symbol env n v a) vs a"
| "allocate_statement env n TypeDecl a = Inl Not_reached"
| "allocate_statements env n [] a = Inr a"
| "allocate_statements env n (s # ss) a =
     obind (allocate_statement env n s a) (allocate_statements env n ss)"

text \<open>allocate_parameters: from the last parameter to the first.\<close>

definition allocate_parameters :: "tenv \<Rightarrow> nat \<Rightarrow> symbol list \<Rightarrow> allocation \<Rightarrow> allocation outcome" where
  "allocate_parameters env n ps a = ofold (\<lambda>a p. allocate_symbol env n p a) (rev ps) a"

text \<open>
  allocate_stack_variables for one declaration: actions (with the iota parameter when the
  action is an array) and binds allocate the receiver; functions, methods,
  initializers and getters allocate parameters and return parameters; reactions
  allocate parameters and, when an array, the iota parameter.
\<close>

datatype decl =
    Action_Declaration symbol "symbol option" stmt
  | Bind_Declaration symbol stmt
  | Function_Declaration "symbol list" "symbol list" stmt
  | Reaction_Declaration "symbol list" "symbol option" stmt

definition finish_declaration :: "allocation \<Rightarrow> allocation outcome" where
  "finish_declaration a = (if locals_empty (fst a) then Inr a else Inl Assertion_failed)"

definition allocate_option :: "tenv \<Rightarrow> nat \<Rightarrow> symbol option \<Rightarrow> allocation \<Rightarrow> allocation outcome" where
  "allocate_option env n s a = (case s of None \<Rightarrow> Inr a | Some s \<Rightarrow> allocate_symbol env n s a)"

fun allocate_stack_variables :: "tenv \<Rightarrow> nat \<Rightarrow> decl \<Rightarrow> allocation outcome" where
  "allocate_stack_variables env n (Action_Declaration r iota body) =
     obind (allocate_symbol env n r (make_memory_model, [])) (\<lambda>a1.
     obind (allocate_option env n iota a1) (\<lambda>a2.
     obind (allocate_statement env n body a2) finish_declaration))"
| "allocate_stack_variables env n (Bind_Declaration r body) =
     obind (allocate_symbol env n r (make_memory_model, [])) (\<lambda>a1.
     obind (allocate_statement env n body a1) finish_declaration)"
| "allocate_stack_variables env n (Function_Declaration ps rs body) =
     obind (allocate_parameters env n ps (make_memory_model, [])) (\<lambda>a1.
     obind (allocate_parameters env n rs a1) (\<lambda>a2.
     obind (allocate_statement env n body a2) finish_declaration))"
| "allocate_stack_variables env n (Reaction_Declaration ps iota body) =
     obind (allocate_parameters env n ps (make_memory_model, [])) (\<lambda>a1.
     obind (allocate_option env n iota a1) (\<lambda>a2.
     obind (allocate_statement env n body a2) finish_declaration))"

section \<open>Balance\<close>

text \<open>
  What the grammar gives: the bodies of loops, conditionals and changes are blocks, the
  else branch is a block or another conditional, the statement before a condition is
  simple, and a local symbol is a variable.  A statement may also be the declaration of a type, which
  the type checker accepts; the allocation has no case for it.  So \<open>grammatical\<close> is what the
  grammar gives without them (\<open>grammatical_iff\<close> below).
\<close>

fun is_block :: "stmt \<Rightarrow> bool" where
  "is_block (StatementList ss) = True"
| "is_block _ = False"

fun is_if :: "stmt \<Rightarrow> bool" where
  "is_if (IfStatement b e t f) = True"
| "is_if _ = False"

fun is_simple :: "stmt \<Rightarrow> bool" where
  "is_simple EmptyStatement = True"
| "is_simple (ExpressionStatement e) = True"
| "is_simple (IncrementDecrement e) = True"
| "is_simple (Assign l r) = True"
| "is_simple (AddAssign l r) = True"
| "is_simple _ = False"

fun is_variable :: "symbol \<Rightarrow> bool" where
  "is_variable (Variable_Symbol i t) = True"
| "is_variable _ = False"

fun symbol_type :: "symbol \<Rightarrow> ty option" where
  "symbol_type (Variable_Symbol i t) = Some t"
| "symbol_type (Parameter_Symbol i k t) = Some t"
| "symbol_type _ = None"

fun grammatical :: "stmt \<Rightarrow> bool" where
  "grammatical (StatementList ss) = (\<forall>s \<in> set ss. grammatical s)"
| "grammatical (IfStatement b e t f) =
     (is_simple b \<and> is_block t \<and> grammatical t \<and> (is_block f \<or> is_if f) \<and> grammatical f)"
| "grammatical (While e body) = (is_block body \<and> grammatical body)"
| "grammatical (Change e s body) = (is_variable s \<and> is_block body \<and> grammatical body)"
| "grammatical (ForIota s e body) = (is_variable s \<and> is_block body \<and> grammatical body)"
| "grammatical (Activate es body) = (is_block body \<and> grammatical body)"
| "grammatical (Var vs es) = (\<forall>v \<in> set vs. is_variable v)"
| "grammatical TypeDecl = False"
| "grammatical _ = True"

fun written :: "stmt \<Rightarrow> bool" where
  "written (StatementList ss) = (\<forall>s \<in> set ss. written s)"
| "written (IfStatement b e t f) =
     (is_simple b \<and> is_block t \<and> written t \<and> (is_block f \<or> is_if f) \<and> written f)"
| "written (While e body) = (is_block body \<and> written body)"
| "written (Change e s body) = (is_variable s \<and> is_block body \<and> written body)"
| "written (ForIota s e body) = (is_variable s \<and> is_block body \<and> written body)"
| "written (Activate es body) = (is_block body \<and> written body)"
| "written (Var vs es) = (\<forall>v \<in> set vs. is_variable v)"
| "written _ = True"

text \<open>A type declaration occurs in the statement.\<close>

fun declares_type :: "stmt \<Rightarrow> bool" where
  "declares_type (StatementList ss) = (\<exists>s \<in> set ss. declares_type s)"
| "declares_type (IfStatement b e t f) = (declares_type b \<or> declares_type t \<or> declares_type f)"
| "declares_type (While e body) = declares_type body"
| "declares_type (Change e s body) = declares_type body"
| "declares_type (ForIota s e body) = declares_type body"
| "declares_type (Activate es body) = declares_type body"
| "declares_type TypeDecl = True"
| "declares_type _ = False"

lemma simple_declares_nothing: "is_simple b \<Longrightarrow> \<not> declares_type b"
  by (cases b) simp_all

lemma grammatical_iff: "grammatical s \<longleftrightarrow> written s \<and> \<not> declares_type s"
  by (induction s rule: grammatical.induct) (auto simp: simple_declares_nothing)

fun statement_symbols :: "stmt \<Rightarrow> symbol list" where
  "statement_symbols (StatementList ss) = concat (map statement_symbols ss)"
| "statement_symbols (IfStatement b e t f) =
     statement_symbols b @ statement_symbols t @ statement_symbols f"
| "statement_symbols (While e body) = statement_symbols body"
| "statement_symbols (Change e s body) = s # statement_symbols body"
| "statement_symbols (ForIota s e body) = s # statement_symbols body"
| "statement_symbols (Activate es body) = statement_symbols body"
| "statement_symbols (Var vs es) = vs"
| "statement_symbols _ = []"

text \<open>Words that rounding up to the stack alignment leaves alone.\<close>

definition stack_aligned :: "64 word \<Rightarrow> bool" where
  "stack_aligned w \<longleftrightarrow> align_up w stack_alignment = w"

lemma align_up_eight: "align_up (8 * k) 8 = 8 * k"
proof -
  have "8 * k = of_nat (8 * unat k)" by simp
  moreover have "align_up (of_nat (8 * unat k)) (2 ^ 3) = of_nat (round_up (8 * unat k) (2 ^ 3))"
    by (rule align_up_of_nat)
  ultimately show ?thesis by (simp add: round_up_exact)
qed

lemma stack_aligned_iff: "stack_aligned w \<longleftrightarrow> (\<exists>k. w = 8 * k)"
proof
  assume "stack_aligned w"
  then have "w = of_nat (round_up (unat w) 8)"
    using align_up_of_nat[of "unat w" 3] by (simp add: stack_aligned_def stack_alignment_def)
  moreover obtain j where "round_up (unat w) 8 = 8 * j"
    using round_up_dvd[of 8 "unat w"] by (auto simp: dvd_def)
  ultimately have "w = 8 * of_nat j" by simp
  then show "\<exists>k. w = 8 * k" ..
qed (auto simp: stack_aligned_def stack_alignment_def align_up_eight)

lemma stack_aligned_0 [simp]: "stack_aligned 0"
  by (simp add: stack_aligned_def align_up_def)

lemma stack_aligned_add [intro]: "stack_aligned a \<Longrightarrow> stack_aligned b \<Longrightarrow> stack_aligned (a + b)"
  unfolding stack_aligned_iff by (metis distrib_left)

lemma size_on_stack_aligned: "size_on_stack env n t = Inr s \<Longrightarrow> stack_aligned s"
proof -
  assume "size_on_stack env n t = Inr s"
  then obtain z where "s = align_up z 8"
    by (auto simp: size_on_stack_def stack_alignment_def outcome_simps)
  then have "s = of_nat (round_up (unat z) 8)" using align_up_of_nat[of "unat z" 3] by simp
  moreover obtain j where "round_up (unat z) 8 = 8 * j"
    using round_up_dvd[of 8 "unat z"] by (auto simp: dvd_def)
  ultimately show ?thesis by (auto simp: stack_aligned_iff)
qed

text \<open>An allocation that moved the locals by an aligned distance and kept the arguments.\<close>

definition moves :: "allocation \<Rightarrow> 64 word \<Rightarrow> allocation \<Rightarrow> bool" where
  "moves a d a' \<longleftrightarrow> stack_aligned d \<and> locals_offset (fst a') = locals_offset (fst a) + d \<and>
     arguments_offset (fst a') = arguments_offset (fst a) \<and>
     receiver_offset (fst a') = receiver_offset (fst a)"

lemma moves_refl [simp]: "moves a 0 a"
  by (simp add: moves_def)

lemma moves_trans: "moves a d a' \<Longrightarrow> moves a' e a'' \<Longrightarrow> moves a (d + e) a''"
  by (auto simp: moves_def)

lemma leave_scope_moves:
  assumes "moves a d a1" "moves a1 0 a2"
  shows "\<exists>a3. leave_scope (locals_offset (fst a)) (locals_offset (fst a1)) a2 = Inr a3 \<and> moves a 0 a3"
  using assms
  by (simp add: leave_scope_def moves_def locals_pop_def stack_aligned_def Let_def)

text \<open>Every symbol of a list is a variable whose size can be computed.\<close>

definition sized_symbol :: "tenv \<Rightarrow> nat \<Rightarrow> symbol \<Rightarrow> bool" where
  "sized_symbol env n v \<longleftrightarrow> (\<exists>t k. symbol_type v = Some t \<and> size_on_stack env n t = Inr k)"

definition sized :: "tenv \<Rightarrow> nat \<Rightarrow> symbol list \<Rightarrow> bool" where
  "sized env n vs \<longleftrightarrow> (\<forall>v \<in> set vs. sized_symbol env n v)"

lemma sized_simps [simp]:
  "sized env n []" "sized env n (v # vs) \<longleftrightarrow> sized_symbol env n v \<and> sized env n vs"
  "sized env n (vs @ ws) \<longleftrightarrow> sized env n vs \<and> sized env n ws"
  by (auto simp: sized_def)

lemma allocate_variable_moves:
  assumes "is_variable v" "sized_symbol env n v"
  shows "\<exists>a' d. allocate_symbol env n v a = Inr a' \<and> moves a d a'"
proof -
  obtain i t where v: "v = Variable_Symbol i t" using assms(1) by (cases v) simp_all
  then obtain k where k: "size_on_stack env n t = Inr k" using assms(2) by (auto simp: sized_symbol_def)
  obtain mm log where a: "a = (mm, log)" by (cases a)
  show ?thesis
    using k size_on_stack_aligned[OF k] by (auto simp: v a locals_push_def moves_def)
qed

lemma allocate_variables_move:
  "\<forall>v \<in> set vs. is_variable v \<Longrightarrow> sized env n vs \<Longrightarrow>
     \<exists>a' d. ofold (\<lambda>a v. allocate_symbol env n v a) vs a = Inr a' \<and> moves a d a'"
proof (induction vs arbitrary: a)
  case Nil
  show ?case by (simp add: exI[of _ 0])
next
  case (Cons v vs)
  obtain a1 d where a1: "allocate_symbol env n v a = Inr a1" "moves a d a1"
    using allocate_variable_moves[of v env n a] Cons.prems by auto
  obtain a2 e where "ofold (\<lambda>a v. allocate_symbol env n v a) vs a1 = Inr a2" "moves a1 e a2"
    using Cons.IH[of a1] Cons.prems by auto
  then show ?case using a1 moves_trans by fastforce
qed

lemma simple_allocates_nothing: "is_simple b \<Longrightarrow> allocate_statement env n b a = Inr a"
  by (cases b) simp_all

lemma allocate_statement_moves:
  "grammatical s \<Longrightarrow> sized env n (statement_symbols s) \<Longrightarrow>
     \<exists>a' d. allocate_statement env n s a = Inr a' \<and> moves a d a' \<and> (is_block s \<longrightarrow> d = 0)"
  "\<forall>s \<in> set ss. grammatical s \<Longrightarrow> sized env n (concat (map statement_symbols ss)) \<Longrightarrow>
     \<exists>a' d. allocate_statements env n ss a = Inr a' \<and> moves a d a'"
proof (induction env n s a and env n ss a rule: allocate_statement_allocate_statements.induct)
  case (3 env n v e body a)
  obtain a1 d where a1: "allocate_symbol env n v a = Inr a1" "moves a d a1"
    using allocate_variable_moves[of v env n a] 3 by auto
  obtain a2 where a2: "allocate_statement env n body a1 = Inr a2" "moves a1 0 a2"
    using "3.IH"[OF refl a1(1) refl] "3.prems" by auto
  obtain a3 where "leave_scope (locals_offset (fst a)) (locals_offset (fst a1)) a2 = Inr a3" "moves a 0 a3"
    using leave_scope_moves[OF a1(2) a2(2)] by blast
  then show ?case using a1 a2 by (auto simp: Let_def)
next
  case (8 env n e v body a)
  obtain a1 d where a1: "allocate_symbol env n v a = Inr a1" "moves a d a1"
    using allocate_variable_moves[of v env n a] 8 by auto
  obtain a2 where a2: "allocate_statement env n body a1 = Inr a2" "moves a1 0 a2"
    using "8.IH"[OF refl a1(1) refl] "8.prems" by auto
  obtain a3 where "leave_scope (locals_offset (fst a)) (locals_offset (fst a1)) a2 = Inr a3" "moves a 0 a3"
    using leave_scope_moves[OF a1(2) a2(2)] by blast
  then show ?case using a1 a2 by (auto simp: Let_def)
next
  case (10 env n b e t f a)
  have a1: "allocate_statement env n b a = Inr a"
    using "10.prems"(1) by (simp add: simple_allocates_nothing)
  obtain a2 where a2: "allocate_statement env n t a = Inr a2" "moves a 0 a2"
    using "10.IH"(2)[OF a1] "10.prems" by auto
  obtain a3 d where a3: "allocate_statement env n f a2 = Inr a3" "moves a2 d a3"
    using "10.IH"(3)[OF a1 a2(1)] "10.prems" by auto
  then show ?case
    using a1 a2 moves_trans[OF a2(2) a3(2)] by auto
next
  case (14 env n ss a)
  obtain a1 d where a1: "allocate_statements env n ss a = Inr a1" "moves a d a1"
    using "14.IH"[OF refl] "14.prems" by auto
  have "moves a1 0 a1" by simp
  from leave_scope_moves[OF a1(2) this] show ?case using a1(1) by (auto simp: Let_def)
next
  case (18 env n vs es a)
  then show ?case using allocate_variables_move[of vs env n a] by auto
next
  case (21 env n s ss a)
  obtain a1 d where a1: "allocate_statement env n s a = Inr a1" "moves a d a1"
    using "21.IH"(1) "21.prems" by auto
  obtain a2 e where a2: "allocate_statements env n ss a1 = Inr a2" "moves a1 e a2"
    using "21.IH"(2)[OF a1(1)] "21.prems" by auto
  then show ?case using a1 moves_trans[OF a1(2) a2(2)] by auto
next
  case (11 env n e body a)
  then show ?case by auto
next
  case (17 env n es body a)
  then show ?case by auto
qed (simp_all add: exI[of _ 0])

section \<open>Bounds\<close>

text \<open>
  The invariant of the model between statements: the next local offset is within
  the frame, which is the saved base pointer and all locals ever pushed.
\<close>

definition frame_ok :: "memory_model \<Rightarrow> bool" where
  "frame_ok mm \<longleftrightarrow> 8 \<le> unat (locals_offset mm) \<and>
     unat (locals_offset mm) \<le> unat (locals_size_on_stack mm) + 8"

definition symbol_bytes :: "tenv \<Rightarrow> nat \<Rightarrow> symbol \<Rightarrow> nat" where
  "symbol_bytes env n v =
     (case symbol_type v of None \<Rightarrow> 0
      | Some t \<Rightarrow> (case size_on_stack env n t of Inr k \<Rightarrow> unat k | Inl e \<Rightarrow> 0))"

definition symbols_bytes :: "tenv \<Rightarrow> nat \<Rightarrow> symbol list \<Rightarrow> nat" where
  "symbols_bytes env n vs = sum_list (map (symbol_bytes env n) vs)"

lemma symbols_bytes_simps [simp]:
  "symbols_bytes env n [] = 0"
  "symbols_bytes env n (v # vs) = symbol_bytes env n v + symbols_bytes env n vs"
  "symbols_bytes env n (vs @ ws) = symbols_bytes env n vs + symbols_bytes env n ws"
  by (simp_all add: symbols_bytes_def)

text \<open>
  An allocation grew the frame by at most \<open>bytes\<close>; every offset it stored is at or above
  the local offset it started from and its variable ends inside the grown frame.
\<close>

definition inside :: "tenv \<Rightarrow> nat \<Rightarrow> nat \<Rightarrow> nat \<Rightarrow> symbol \<times> 64 word \<Rightarrow> bool" where
  "inside env n low high p \<longleftrightarrow>
     low \<le> unat (snd p) \<and> unat (snd p) + symbol_bytes env n (fst p) \<le> high"

definition grows :: "tenv \<Rightarrow> nat \<Rightarrow> nat \<Rightarrow> allocation \<Rightarrow> allocation \<Rightarrow> bool" where
  "grows env n bytes a a' \<longleftrightarrow>
     unat (locals_size_on_stack (fst a')) = unat (locals_size_on_stack (fst a)) + bytes \<and>
     unat (locals_offset (fst a)) \<le> unat (locals_offset (fst a')) \<and>
     unat (locals_offset (fst a')) \<le> unat (locals_size_on_stack (fst a')) + 8 \<and>
     (\<exists>new. snd a' = new @ snd a \<and>
       (\<forall>p \<in> set new. inside env n (unat (locals_offset (fst a)))
                          (unat (locals_size_on_stack (fst a')) + 8) p))"

lemma inside_mono: "inside env n l h p \<Longrightarrow> l' \<le> l \<Longrightarrow> h \<le> h' \<Longrightarrow> inside env n l' h' p"
  by (simp add: inside_def)

lemma grows_refl: "frame_ok (fst a) \<Longrightarrow> grows env n 0 a a"
  by (simp add: grows_def frame_ok_def)

lemma grows_trans:
  assumes "grows env n b a a1" "grows env n c a1 a2"
  shows "grows env n (b + c) a a2"
proof -
  obtain new1 where n1: "snd a1 = new1 @ snd a"
    "\<forall>p \<in> set new1. inside env n (unat (locals_offset (fst a))) (unat (locals_size_on_stack (fst a1)) + 8) p"
    using assms(1) by (auto simp: grows_def)
  obtain new2 where n2: "snd a2 = new2 @ snd a1"
    "\<forall>p \<in> set new2. inside env n (unat (locals_offset (fst a1))) (unat (locals_size_on_stack (fst a2)) + 8) p"
    using assms(2) by (auto simp: grows_def)
  have le: "unat (locals_offset (fst a)) \<le> unat (locals_offset (fst a1))"
    "unat (locals_size_on_stack (fst a1)) \<le> unat (locals_size_on_stack (fst a2))"
    using assms by (simp_all add: grows_def)
  have "\<forall>p \<in> set (new2 @ new1). inside env n (unat (locals_offset (fst a))) (unat (locals_size_on_stack (fst a2)) + 8) p"
    using n1(2) n2(2) le by (auto intro: inside_mono)
  then show ?thesis using assms n1(1) n2(1) by (auto simp: grows_def)
qed

lemma grows_frame_ok: "grows env n b a a' \<Longrightarrow> frame_ok (fst a) \<Longrightarrow> frame_ok (fst a')"
  by (simp add: grows_def frame_ok_def)

text \<open>The space left before the size of the frame would wrap around.\<close>

definition room :: "nat \<Rightarrow> allocation \<Rightarrow> bool" where
  "room b a \<longleftrightarrow> unat (locals_size_on_stack (fst a)) + b + 8 < 2 ^ 64"

lemma grows_room: "grows env n b a a' \<Longrightarrow> room (b + c) a \<Longrightarrow> room c a'"
  by (simp add: grows_def room_def)

lemma allocate_variable_grows:
  assumes "allocate_symbol env n v a = Inr a'" "is_variable v"
    and "frame_ok (fst a)" "room (symbol_bytes env n v) a"
  shows "grows env n (symbol_bytes env n v) a a'"
proof -
  obtain i t where v: "v = Variable_Symbol i t" using assms(2) by (cases v) simp_all
  obtain mm log where a: "a = (mm, log)" by (cases a)
  obtain k where k: "size_on_stack env n t = Inr k"
    "a' = (mm\<lparr>locals_offset := locals_offset mm + k, locals_size_on_stack := locals_size_on_stack mm + k\<rparr>,
           (v, locals_offset mm) # log)"
    using assms(1) by (auto simp: v a locals_push_def set_offset_def outcome_simps)
  have b: "symbol_bytes env n v = unat k" using k(1) by (simp add: v symbol_bytes_def)
  have "unat (locals_offset mm + k) = unat (locals_offset mm) + unat k"
    "unat (locals_size_on_stack mm + k) = unat (locals_size_on_stack mm) + unat k"
    using assms(3,4) by (subst unat_add_lem [THEN iffD1];
        simp add: a b room_def frame_ok_def)+
  then show ?thesis
    using assms(3) b by (simp add: grows_def a k(2) frame_ok_def inside_def)
qed

lemma allocate_variables_grow:
  assumes "ofold (\<lambda>a v. allocate_symbol env n v a) vs a = Inr a'" "\<forall>v \<in> set vs. is_variable v"
    and "frame_ok (fst a)" "room (symbols_bytes env n vs) a"
  shows "grows env n (symbols_bytes env n vs) a a'"
  using assms
proof (induction vs arbitrary: a)
  case (Cons v vs)
  obtain a1 where a1: "allocate_symbol env n v a = Inr a1"
    "ofold (\<lambda>a v. allocate_symbol env n v a) vs a1 = Inr a'"
    using Cons.prems(1) by (auto simp: outcome_simps)
  have g: "grows env n (symbol_bytes env n v) a a1"
    using Cons.prems a1 by (intro allocate_variable_grows) (auto simp: room_def)
  have "grows env n (symbols_bytes env n vs) a1 a'"
    using Cons.IH[OF a1(2)] Cons.prems grows_frame_ok[OF g] grows_room[OF g] by simp
  from grows_trans[OF g this] show ?case by simp
qed (simp add: grows_refl)

lemma leave_scope_grows:
  assumes "grows env n b a a'" "leave_scope (locals_offset (fst a)) after a' = Inr a''" "frame_ok (fst a)"
  shows "grows env n b a a''"
  using assms by (auto simp: leave_scope_def grows_def locals_pop_def frame_ok_def Let_def split: if_splits)

lemma allocate_statement_grows:
  "allocate_statement env n s a = Inr a' \<Longrightarrow> grammatical s \<Longrightarrow> frame_ok (fst a) \<Longrightarrow>
     room (symbols_bytes env n (statement_symbols s)) a \<Longrightarrow>
     grows env n (symbols_bytes env n (statement_symbols s)) a a'"
  "allocate_statements env n ss a = Inr a' \<Longrightarrow> \<forall>s \<in> set ss. grammatical s \<Longrightarrow> frame_ok (fst a) \<Longrightarrow>
     room (symbols_bytes env n (concat (map statement_symbols ss))) a \<Longrightarrow>
     grows env n (symbols_bytes env n (concat (map statement_symbols ss))) a a'"
proof (induction env n s a and env n ss a arbitrary: a' and a'
    rule: allocate_statement_allocate_statements.induct)
  case (3 env n v e body a)
  then obtain a1 a2 where a1: "allocate_symbol env n v a = Inr a1"
    "allocate_statement env n body a1 = Inr a2"
    "leave_scope (locals_offset (fst a)) (locals_offset (fst a1)) a2 = Inr a'"
    by (auto simp: outcome_simps Let_def)
  have g: "grows env n (symbol_bytes env n v) a a1"
    using "3.prems" a1(1) by (intro allocate_variable_grows) (auto simp: room_def)
  have "grows env n (symbols_bytes env n (statement_symbols body)) a1 a2"
    using "3.IH"[OF refl a1(1) refl a1(2)] "3.prems" grows_frame_ok[OF g] grows_room[OF g] by simp
  from leave_scope_grows[OF grows_trans[OF g this] a1(3)] show ?case using "3.prems" by simp
next
  case (8 env n e v body a)
  then obtain a1 a2 where a1: "allocate_symbol env n v a = Inr a1"
    "allocate_statement env n body a1 = Inr a2"
    "leave_scope (locals_offset (fst a)) (locals_offset (fst a1)) a2 = Inr a'"
    by (auto simp: outcome_simps Let_def)
  have g: "grows env n (symbol_bytes env n v) a a1"
    using "8.prems" a1(1) by (intro allocate_variable_grows) (auto simp: room_def)
  have "grows env n (symbols_bytes env n (statement_symbols body)) a1 a2"
    using "8.IH"[OF refl a1(1) refl a1(2)] "8.prems" grows_frame_ok[OF g] grows_room[OF g] by simp
  from leave_scope_grows[OF grows_trans[OF g this] a1(3)] show ?case using "8.prems" by simp
next
  case (10 env n b e t f a)
  have b: "is_simple b" "statement_symbols b = []"
    using "10.prems"(2) by (cases b; simp)+
  then obtain a2 where a2: "allocate_statement env n t a = Inr a2" "allocate_statement env n f a2 = Inr a'"
    using "10.prems"(1) simple_allocates_nothing[OF b(1)] by (auto simp: outcome_simps)
  note a1 = simple_allocates_nothing[OF b(1), of env n a]
  have g: "grows env n (symbols_bytes env n (statement_symbols t)) a a2"
    using "10.IH"(2)[OF a1 a2(1)] "10.prems" by (simp add: room_def)
  have "grows env n (symbols_bytes env n (statement_symbols f)) a2 a'"
    using "10.IH"(3)[OF a1 a2(1) a2(2)] "10.prems" grows_frame_ok[OF g] grows_room[OF g] b(2) by simp
  from grows_trans[OF g this] show ?case using b(2) by simp
next
  case (14 env n ss a)
  then obtain a1 where a1: "allocate_statements env n ss a = Inr a1"
    "leave_scope (locals_offset (fst a)) (locals_offset (fst a1)) a1 = Inr a'"
    by (auto simp: outcome_simps Let_def)
  have "grows env n (symbols_bytes env n (concat (map statement_symbols ss))) a a1"
    using "14.IH"[OF refl a1(1)] "14.prems" by simp
  from leave_scope_grows[OF this a1(2)] show ?case using "14.prems" by simp
next
  case (18 env n vs es a)
  then show ?case using allocate_variables_grow[of env n vs a a'] by simp
next
  case (21 env n s ss a)
  then obtain a1 where a1: "allocate_statement env n s a = Inr a1" "allocate_statements env n ss a1 = Inr a'"
    by (auto simp: outcome_simps)
  have g: "grows env n (symbols_bytes env n (statement_symbols s)) a a1"
    using "21.IH"(1)[OF a1(1)] "21.prems" by (simp add: room_def)
  have "grows env n (symbols_bytes env n (concat (map statement_symbols ss))) a1 a'"
    using "21.IH"(2)[OF a1] "21.prems" grows_frame_ok[OF g] grows_room[OF g] by simp
  from grows_trans[OF g this] show ?case by simp
qed (simp_all add: grows_refl)

section \<open>Properties\<close>

text \<open>C20: allocating the body of a declaration always succeeds: no assert on the balance of the local
  offset fires, and a block gives back every byte of locals it took.\<close>

theorem allocate_block_balanced:
  assumes "grammatical s" "is_block s" "sized env n (statement_symbols s)"
  shows "\<exists>mm' log'. allocate_statement env n s (mm, log) = Inr (mm', log') \<and>
    locals_offset mm' = locals_offset mm \<and> arguments_offset mm' = arguments_offset mm"
  using allocate_statement_moves(1)[OF assms(1,3), of "(mm, log)"] assms(2)
  by (auto simp: moves_def)

text \<open>C19: every local variable of a body gets an offset at or above the first free local offset and ends
  within the frame that the declaration reserves (the saved base pointer and the total
  size of the locals).\<close>

theorem allocate_statement_inside_frame:
  assumes "allocate_statement env n s (mm, log) = Inr (mm', log')" "grammatical s" "frame_ok mm"
    and "unat (locals_size_on_stack mm) + symbols_bytes env n (statement_symbols s) + 8 < 2 ^ 64"
  shows "\<exists>new. log' = new @ log \<and> (\<forall>(v, o') \<in> set new.
      unat (locals_offset mm) \<le> unat o' \<and>
      unat o' + symbol_bytes env n v \<le> unat (locals_size_on_stack mm') + 8)"
  using allocate_statement_grows(1)[OF assms(1,2)] assms(3,4)
  by (fastforce simp: grows_def room_def inside_def)

text \<open>A body with a loop over a variable and two locals, one of them in an inner block.\<close>

definition sample_body :: stmt where
  "sample_body = StatementList
     [Var [Variable_Symbol 1 named_uint8] [],
      ForIota (Variable_Symbol 2 named_int) (Literal \<lparr>eval_kind = ValueExpressionKind,
          eval_type = named_int, eval_indirection = Mutable\<rparr>)
        (StatementList [Var [Variable_Symbol 3 named_string] []])]"

lemma sample_body_facts:
  "grammatical sample_body" "is_block sample_body"
  "statement_symbols sample_body = [Variable_Symbol 1 named_uint8, Variable_Symbol 2 named_int, Variable_Symbol 3 named_string]"
  "sized predeclared 1 (statement_symbols sample_body)"
  "symbols_bytes predeclared 1 (statement_symbols sample_body) = 32"
  by (simp_all add: sample_body_def sized_symbol_def size_on_stack_def named_defs predeclared_def
      predeclared_list_def align_up_def stack_alignment_def symbol_bytes_def)

theorem allocate_block_balanced_witness:
  "\<exists>mm' log'. allocate_statement predeclared 1 sample_body (make_memory_model, []) = Inr (mm', log') \<and>
    locals_offset mm' = locals_offset make_memory_model \<and>
    arguments_offset mm' = arguments_offset make_memory_model"
  by (rule allocate_block_balanced[OF sample_body_facts(1,2,4)])

lemma sample_body_allocated:
  "\<exists>a'. allocate_statement predeclared 1 sample_body (make_memory_model, []) = Inr a'"
  using allocate_statement_moves(1)[OF sample_body_facts(1,4)] by blast

theorem allocate_statement_inside_frame_witness:
  "\<exists>mm' log' new. allocate_statement predeclared 1 sample_body (make_memory_model, []) = Inr (mm', log') \<and>
     log' = new @ [] \<and> (\<forall>(v, o') \<in> set new. unat (8 :: 64 word) \<le> unat o' \<and>
       unat o' + symbol_bytes predeclared 1 v \<le> unat (locals_size_on_stack mm') + 8)"
proof -
  obtain mm' log' where a: "allocate_statement predeclared 1 sample_body (make_memory_model, []) = Inr (mm', log')"
    using sample_body_allocated by (metis surj_pair)
  show ?thesis
    using a allocate_statement_inside_frame[OF a sample_body_facts(1)] sample_body_facts(5)
    by (auto simp: frame_ok_def make_memory_model_def)
qed

lemma finish_block:
  assumes "locals_offset (fst a) = 8" "grammatical s" "is_block s" "sized env n (statement_symbols s)"
  shows "\<exists>a'. obind (allocate_statement env n s a) finish_declaration = Inr a'"
  using allocate_statement_moves(1)[OF assms(2,4), of a] assms(1,3)
  by (auto simp: moves_def finish_declaration_def locals_empty_def)

section \<open>When the allocation returns\<close>

lemma allocate_variable_sized:
  "allocate_symbol env n v a = Inr a' \<Longrightarrow> is_variable v \<Longrightarrow> sized_symbol env n v"
  by (cases v; cases a) (auto simp: locals_push_def sized_symbol_def outcome_simps)

lemma allocate_variables_sized:
  "ofold (\<lambda>a v. allocate_symbol env n v a) vs a = Inr a' \<Longrightarrow> \<forall>v \<in> set vs. is_variable v \<Longrightarrow> sized env n vs"
  by (induction vs arbitrary: a) (auto simp: outcome_simps dest: allocate_variable_sized)

lemma allocate_statement_needs:
  "allocate_statement env n s a = Inr a' \<Longrightarrow> written s \<Longrightarrow>
     \<not> declares_type s \<and> sized env n (statement_symbols s)"
  "allocate_statements env n ss a = Inr a' \<Longrightarrow> \<forall>s \<in> set ss. written s \<Longrightarrow>
     (\<forall>s \<in> set ss. \<not> declares_type s) \<and> sized env n (concat (map statement_symbols ss))"
proof (induction env n s a and env n ss a arbitrary: a' and a'
    rule: allocate_statement_allocate_statements.induct)
  case (3 env n v e body a)
  obtain a1 a2 where a1: "allocate_symbol env n v a = Inr a1" "allocate_statement env n body a1 = Inr a2"
    using "3.prems"(1) by (auto simp: outcome_simps Let_def)
  then show ?case
    using "3.IH"[OF refl a1(1) refl a1(2)] "3.prems"(2) allocate_variable_sized[OF a1(1)] by simp
next
  case (8 env n e v body a)
  obtain a1 a2 where a1: "allocate_symbol env n v a = Inr a1" "allocate_statement env n body a1 = Inr a2"
    using "8.prems"(1) by (auto simp: outcome_simps Let_def)
  then show ?case
    using "8.IH"[OF refl a1(1) refl a1(2)] "8.prems"(2) allocate_variable_sized[OF a1(1)] by simp
next
  case (10 env n b e t f a)
  have b: "is_simple b" using "10.prems"(2) by simp
  then have "statement_symbols b = []" by (cases b) simp_all
  moreover obtain a2 where a2: "allocate_statement env n t a = Inr a2" "allocate_statement env n f a2 = Inr a'"
    using "10.prems"(1) simple_allocates_nothing[OF b] by (auto simp: outcome_simps)
  ultimately show ?case
    using "10.IH"(2)[OF simple_allocates_nothing[OF b] a2(1)] "10.prems"(2) simple_declares_nothing[OF b]
      "10.IH"(3)[OF simple_allocates_nothing[OF b] a2] by simp
next
  case (14 env n ss a)
  obtain a1 where "allocate_statements env n ss a = Inr a1"
    using "14.prems"(1) by (auto simp: outcome_simps Let_def)
  then show ?case using "14.IH"[OF refl] "14.prems"(2) by simp
next
  case (18 env n vs es a)
  then show ?case using allocate_variables_sized[of env n vs a a'] by simp
next
  case (21 env n s ss a)
  obtain a1 where a1: "allocate_statement env n s a = Inr a1" "allocate_statements env n ss a1 = Inr a'"
    using "21.prems"(1) by (auto simp: outcome_simps)
  then show ?case using "21.IH"(1)[OF a1(1)] "21.IH"(2)[OF a1] "21.prems"(2) by simp
qed simp_all

text \<open>The parameters of the four kinds of declarations, and their bodies.\<close>

fun decl_parameters :: "decl \<Rightarrow> symbol list" where
  "decl_parameters (Action_Declaration r iota body) = r # (case iota of None \<Rightarrow> [] | Some i \<Rightarrow> [i])"
| "decl_parameters (Bind_Declaration r body) = [r]"
| "decl_parameters (Function_Declaration ps rs body) = ps @ rs"
| "decl_parameters (Reaction_Declaration ps iota body) = ps @ (case iota of None \<Rightarrow> [] | Some i \<Rightarrow> [i])"

fun decl_body :: "decl \<Rightarrow> stmt" where
  "decl_body (Action_Declaration r iota body) = body"
| "decl_body (Bind_Declaration r body) = body"
| "decl_body (Function_Declaration ps rs body) = body"
| "decl_body (Reaction_Declaration ps iota body) = body"

text \<open>The kinds a declared parameter has (the other two are those of the copies activate makes).\<close>

fun is_declared_parameter :: "symbol \<Rightarrow> bool" where
  "is_declared_parameter (Parameter_Symbol i k t) = (k \<in> {Ordinary, Receiver, Return})"
| "is_declared_parameter _ = False"

lemma allocate_parameter_iff:
  assumes "is_declared_parameter p"
  shows "(\<exists>a'. allocate_symbol env n p a = Inr a') \<longleftrightarrow> sized_symbol env n p"
    "allocate_symbol env n p a = Inr a' \<Longrightarrow> locals_offset (fst a') = locals_offset (fst a)"
proof -
  obtain i k t where p: "p = Parameter_Symbol i k t" "k \<in> {Ordinary, Receiver, Return}"
    using assms by (cases p) auto
  obtain mm log where a: "a = (mm, log)" by (cases a)
  show "(\<exists>a'. allocate_symbol env n p a = Inr a') \<longleftrightarrow> sized_symbol env n p"
    using p(2) by (auto simp: p(1) a arguments_push_def sized_symbol_def outcome_simps)
  show "allocate_symbol env n p a = Inr a' \<Longrightarrow> locals_offset (fst a') = locals_offset (fst a)"
    using p(2) by (auto simp: p(1) a arguments_push_def outcome_simps set_receiver_offset_def)
qed

lemma allocate_parameter_fold:
  "\<forall>p \<in> set ps. is_declared_parameter p \<Longrightarrow>
     (\<exists>a'. ofold (\<lambda>a p. allocate_symbol env n p a) ps a = Inr a') \<longleftrightarrow> sized env n ps"
  "\<forall>p \<in> set ps. is_declared_parameter p \<Longrightarrow> ofold (\<lambda>a p. allocate_symbol env n p a) ps a = Inr a' \<Longrightarrow>
     locals_offset (fst a') = locals_offset (fst a)"
proof (induction ps arbitrary: a)
  case (Cons p ps)
  {
    case 1
    have "(\<exists>a'. ofold (\<lambda>a p. allocate_symbol env n p a) (p # ps) a = Inr a') \<longleftrightarrow>
        (\<exists>a1. allocate_symbol env n p a = Inr a1 \<and> sized env n ps)"
      using Cons.IH(1) 1 by (fastforce simp: outcome_simps)
    then show ?case using allocate_parameter_iff(1)[of p env n a] 1 by simp
  next
    case 2
    then show ?case
      using Cons.IH(2) allocate_parameter_iff(2)[of p env n a] by (fastforce simp: outcome_simps)
  }
qed simp_all

text \<open>What is allocated before the body: the parameters, in some order.\<close>

fun decl_order :: "decl \<Rightarrow> symbol list" where
  "decl_order (Action_Declaration r iota body) = r # (case iota of None \<Rightarrow> [] | Some i \<Rightarrow> [i])"
| "decl_order (Bind_Declaration r body) = [r]"
| "decl_order (Function_Declaration ps rs body) = rev ps @ rev rs"
| "decl_order (Reaction_Declaration ps iota body) = rev ps @ (case iota of None \<Rightarrow> [] | Some i \<Rightarrow> [i])"

lemma allocate_stack_variables_eq:
  "allocate_stack_variables env n d =
     obind (ofold (\<lambda>a p. allocate_symbol env n p a) (decl_order d) (make_memory_model, []))
       (\<lambda>a. obind (allocate_statement env n (decl_body d) a) finish_declaration)"
  by (cases d) (auto simp: allocate_parameters_def allocate_option_def ofold_append obind_assoc split: option.splits)

lemma decl_order_set: "set (decl_order d) = set (decl_parameters d)"
  by (cases d) (auto split: option.splits)

text \<open>C21: the allocation of the stack variables of an action, a bind, a function (method, initializer,
  getter) or a reaction returns, without hitting an assert or an aborting case, exactly when every
  parameter and every local variable has a size and no type is declared in the body.\<close>

theorem allocation_returns_iff:
  assumes "\<forall>p \<in> set (decl_parameters d). is_declared_parameter p"
    and "written (decl_body d)" "is_block (decl_body d)"
  shows "(\<exists>a. allocate_stack_variables env n d = Inr a) \<longleftrightarrow>
    sized env n (decl_parameters d @ statement_symbols (decl_body d)) \<and> \<not> declares_type (decl_body d)"
proof -
  let ?alloc = "ofold (\<lambda>a p. allocate_symbol env n p a) (decl_order d) (make_memory_model, [])"
  have ps: "\<forall>p \<in> set (decl_order d). is_declared_parameter p" using assms(1) by (simp add: decl_order_set)
  have sz: "sized env n (decl_order d) = sized env n (decl_parameters d)" by (simp add: sized_def decl_order_set)
  show ?thesis
  proof (cases "sized env n (decl_parameters d)")
    case True
    then obtain a where a: "?alloc = Inr a" using allocate_parameter_fold(1)[OF ps] sz by blast
    have off: "locals_offset (fst a) = 8"
      using allocate_parameter_fold(2)[OF ps a] by (simp add: make_memory_model_def)
    have "(\<exists>a'. obind (allocate_statement env n (decl_body d) a) finish_declaration = Inr a') \<longleftrightarrow>
        sized env n (statement_symbols (decl_body d)) \<and> \<not> declares_type (decl_body d)"
      using finish_block[OF off _ assms(3), of env n] allocate_statement_needs(1)[OF _ assms(2), of env n a] assms(2)
      by (auto simp: grammatical_iff outcome_simps)
    then show ?thesis unfolding allocate_stack_variables_eq a using True by simp
  next
    case False
    then have "\<nexists>a. ?alloc = Inr a" using allocate_parameter_fold(1)[OF ps] sz by blast
    then show ?thesis unfolding allocate_stack_variables_eq using False by (auto simp: outcome_simps)
  qed
qed

theorem allocation_returns_iff_witness:
  "(\<exists>a. allocate_stack_variables predeclared 1
     (Function_Declaration [Parameter_Symbol 7 Ordinary named_int] [] sample_body) = Inr a) \<and>
   \<not> (\<exists>a. allocate_stack_variables predeclared 1
     (Reaction_Declaration [Parameter_Symbol 7 Receiver (Pointer named_int)] None
       (StatementList [sample_body, TypeDecl])) = Inr a)"
  using allocation_returns_iff[of "Function_Declaration [Parameter_Symbol 7 Ordinary named_int] [] sample_body" predeclared 1]
    allocation_returns_iff[of "Reaction_Declaration [Parameter_Symbol 7 Receiver (Pointer named_int)] None
      (StatementList [sample_body, TypeDecl])" predeclared 1]
    sample_body_facts(1-4)
  by (simp add: grammatical_iff sized_symbol_def size_on_stack_def named_defs predeclared_def predeclared_list_def)

text \<open>The type checker accepts the declaration of a type in a body; the allocation aborts at it.\<close>

lemma type_declaration_aborts:
  "allocate_stack_variables env n (Bind_Declaration (Constant_Symbol i) (StatementList [TypeDecl])) = Inl Not_reached"
  by (simp add: make_memory_model_def)

end
