(* ===== verification/HeapBlock.thy ===== *)
theory HeapBlock
  imports Prelude
begin

text \<open>
  The blocks of the garbage-collected heap (struct Block of heap.hpp and
  heap.cpp).  A block is a contiguous region of 16-byte slots with four status
  bits per slot, two slots to a byte.  Blocks hang in a binary tree ordered by
  their start; the tree is a datatype, so taking the address of a child link
  becomes returning the new subtree.  Addresses are natural numbers; a new
  region's address, chosen by operator new, is an argument.
\<close>

section \<open>Status bits\<close>

definition SLOT_SIZE :: nat where "SLOT_SIZE = 16"
definition BITS_PER_SLOT :: nat where "BITS_PER_SLOT = 4"

definition OBJECT :: "8 word" where "OBJECT = 1"
definition ALLOCATED :: "8 word" where "ALLOCATED = 2"
definition MARK :: "8 word" where "MARK = 4"
definition SCANNED :: "8 word" where "SCANNED = 8"

lemmas status_defs = OBJECT_def ALLOCATED_def MARK_def SCANNED_def

record block =
  blk_begin :: nat
  blk_end :: nat
  blk_marked :: bool
  blk_bits :: "8 word list"

definition bits_bytes :: "nat \<Rightarrow> nat" where
  "bits_bytes sz = (sz div SLOT_SIZE * BITS_PER_SLOT + BITS_PER_SLOT) div 8"

text \<open>
  Block::make, with the address operator new gave the storage.  The memset that zeroes the storage is in
  \<open>heap_allocate\<close> (HeapAlloc), which has the memory; a block is only its bounds and bits.
\<close>

definition make_block :: "nat \<Rightarrow> nat \<Rightarrow> block" where
  "make_block addr sz =
     (let sz = round_up sz SLOT_SIZE in
      \<lparr>blk_begin = addr, blk_end = addr + sz, blk_marked = False,
       blk_bits = replicate (bits_bytes sz) 0\<rparr>)"

definition slots :: "block \<Rightarrow> nat" where
  "slots b = (blk_end b - blk_begin b) div SLOT_SIZE"

definition slot :: "block \<Rightarrow> nat \<Rightarrow> nat outcome" where
  "slot b address =
     (if blk_begin b \<le> address \<and> address < blk_end b
      then Inr ((address - blk_begin b) div SLOT_SIZE)
      else Inl Assertion_failed)"

text \<open>set_bits, reset_bits, clear_bits and get_bits on the bit array.\<close>

definition nibble_mask :: "nat \<Rightarrow> 8 word \<Rightarrow> 8 word" where
  "nibble_mask s m = (if s mod 2 = 1 then push_bit 4 m else m)"

definition set_bits :: "8 word list \<Rightarrow> nat \<Rightarrow> 8 word \<Rightarrow> 8 word list" where
  "set_bits bits s m = bits[s div 2 := bits ! (s div 2) OR nibble_mask s m]"

definition reset_bits :: "8 word list \<Rightarrow> nat \<Rightarrow> 8 word \<Rightarrow> 8 word list" where
  "reset_bits bits s m = bits[s div 2 := bits ! (s div 2) AND NOT (nibble_mask s m)]"

definition clear_bits :: "8 word list \<Rightarrow> nat \<Rightarrow> 8 word list" where
  "clear_bits bits s = reset_bits bits s 15"

definition get_bits :: "8 word list \<Rightarrow> nat \<Rightarrow> 8 word" where
  "get_bits bits s =
     (if s mod 2 = 1 then drop_bit 4 (bits ! (s div 2)) else bits ! (s div 2)) AND 15"

definition flag :: "8 word list \<Rightarrow> nat \<Rightarrow> 8 word \<Rightarrow> bool" where
  "flag bits s m \<longleftrightarrow> get_bits bits s AND m \<noteq> 0"

lemma length_bits_ops [simp]:
  "length (set_bits bits s m) = length bits" "length (reset_bits bits s m) = length bits"
  "length (clear_bits bits s) = length bits"
  by (simp_all add: set_bits_def reset_bits_def clear_bits_def)

lemma bit_15: "bit (15 :: int) n \<longleftrightarrow> n < 4"
proof -
  have "(15 :: int) = mask 4" by (simp add: mask_eq_exp_minus_1)
  then show ?thesis by (simp only: bit_mask_iff) simp
qed

lemma bit_get_bits:
  "s div 2 < length bits \<Longrightarrow>
     bit (get_bits bits s) n \<longleftrightarrow> n < 4 \<and> bit (bits ! (s div 2)) (n + (if s mod 2 = 1 then 4 else 0))"
  by (auto simp: get_bits_def bit_simps bit_15 ac_simps)

lemma bit_nibble_mask:
  "bit (nibble_mask s m) n \<longleftrightarrow> n < 8 \<and> (if s mod 2 = 1 then 4 \<le> n \<and> bit m (n - 4) else bit m n)"
  by (auto simp: nibble_mask_def bit_simps dest: bit_imp_le_length)

lemma same_byte:
  assumes "s \<noteq> s'" "s div 2 = s' div 2"
  shows "s mod 2 = 1 \<longleftrightarrow> s' mod 2 \<noteq> (1 :: nat)"
  using assms by (metis div_mult_mod_eq mod2_eq_if)

lemma small_mask: "m \<le> 15 \<Longrightarrow> bit (m :: 8 word) n \<Longrightarrow> n < 4"
proof -
  assume m: "m \<le> 15" and b: "bit m n"
  have "unat m \<le> 15" using m by (simp add: word_le_nat_alt)
  then have "unat m < 2 ^ 4" by simp
  then have "unat (take_bit 4 m) = unat m"
    by (simp only: unsigned_take_bit_eq take_bit_nat_eq_self)
  then have "take_bit 4 m = m" by (rule unsigned_word_eqI)
  then show "n < 4" using b by (metis bit_take_bit_iff)
qed

text \<open>The bits of one slot change as the masks say; the other slot in the byte and all others do not.\<close>

lemma get_set_bits:
  assumes "s' div 2 < length bits" "m \<le> 15"
  shows "get_bits (set_bits bits s m) s' = (if s' = s then get_bits bits s OR m else get_bits bits s')"
proof (rule bit_word_eqI)
  fix n
  assume "n < LENGTH(8)"
  show "bit (get_bits (set_bits bits s m) s') n \<longleftrightarrow>
      bit (if s' = s then get_bits bits s OR m else get_bits bits s') n"
  proof (cases "s' div 2 = s div 2")
    case True
    then show ?thesis
      using assms same_byte[of s s'] small_mask[OF assms(2)] \<open>n < LENGTH(8)\<close>
      by (auto simp: bit_get_bits set_bits_def bit_simps bit_nibble_mask)
  next
    case False
    then show ?thesis using assms by (auto simp: bit_get_bits set_bits_def)
  qed
qed

lemma get_reset_bits:
  assumes "s' div 2 < length bits" "m \<le> 15"
  shows "get_bits (reset_bits bits s m) s' =
    (if s' = s then get_bits bits s AND NOT m else get_bits bits s')"
proof (rule bit_word_eqI)
  fix n
  assume "n < LENGTH(8)"
  show "bit (get_bits (reset_bits bits s m) s') n \<longleftrightarrow>
      bit (if s' = s then get_bits bits s AND NOT m else get_bits bits s') n"
  proof (cases "s' div 2 = s div 2")
    case True
    then show ?thesis
      using assms same_byte[of s s'] small_mask[OF assms(2)] \<open>n < LENGTH(8)\<close>
      by (auto simp: bit_get_bits reset_bits_def bit_simps bit_nibble_mask)
  next
    case False
    then show ?thesis using assms by (auto simp: bit_get_bits reset_bits_def)
  qed
qed

lemma get_clear_bits:
  assumes "s' div 2 < length bits"
  shows "get_bits (clear_bits bits s) s' = (if s' = s then 0 else get_bits bits s')"
proof -
  have "get_bits bits s AND NOT 15 = 0" if "s div 2 < length bits"
    by (rule bit_word_eqI) (auto simp: bit_get_bits[OF that] bit_simps bit_15)
  then show ?thesis using assms by (auto simp: clear_bits_def get_reset_bits)
qed

lemma flag_bit:
  "flag bits s OBJECT \<longleftrightarrow> bit (get_bits bits s) 0"
  "flag bits s ALLOCATED \<longleftrightarrow> bit (get_bits bits s) 1"
  "flag bits s MARK \<longleftrightarrow> bit (get_bits bits s) 2"
  "flag bits s SCANNED \<longleftrightarrow> bit (get_bits bits s) 3"
  using and_exp_eq_0_iff_not_bit[of "get_bits bits s" 0] and_exp_eq_0_iff_not_bit[of "get_bits bits s" 1]
    and_exp_eq_0_iff_not_bit[of "get_bits bits s" 2] and_exp_eq_0_iff_not_bit[of "get_bits bits s" 3]
  by (simp_all add: flag_def status_defs)

lemma status_bit [simp]:
  "bit OBJECT n \<longleftrightarrow> n = 0" "bit ALLOCATED n \<longleftrightarrow> n = 1"
  "bit MARK n \<longleftrightarrow> n = 2" "bit SCANNED n \<longleftrightarrow> n = 3"
  using bit_exp_iff[where 'a = "8 word", of 0 n] bit_exp_iff[where 'a = "8 word", of 1 n]
    bit_exp_iff[where 'a = "8 word", of 2 n] bit_exp_iff[where 'a = "8 word", of 3 n]
  by (auto simp: status_defs)

lemma status_le [simp]:
  "OBJECT \<le> 15" "ALLOCATED \<le> 15" "MARK \<le> 15" "SCANNED \<le> 15" "SCANNED OR MARK \<le> 15"
  by (simp_all add: status_defs)

text \<open>How the operations change the four flags of every slot.\<close>

lemma flag_set_bits:
  assumes "s' div 2 < length bits" "m \<le> 15"
  shows "flag (set_bits bits s m) s' OBJECT \<longleftrightarrow> flag bits s' OBJECT \<or> (s' = s \<and> bit m 0)"
    "flag (set_bits bits s m) s' ALLOCATED \<longleftrightarrow> flag bits s' ALLOCATED \<or> (s' = s \<and> bit m 1)"
    "flag (set_bits bits s m) s' MARK \<longleftrightarrow> flag bits s' MARK \<or> (s' = s \<and> bit m 2)"
    "flag (set_bits bits s m) s' SCANNED \<longleftrightarrow> flag bits s' SCANNED \<or> (s' = s \<and> bit m 3)"
  using get_set_bits[OF assms, of s] by (auto simp: flag_bit bit_simps)

lemma flag_clear_bits:
  assumes "s' div 2 < length bits"
  shows "flag (clear_bits bits s) s' k \<longleftrightarrow> s' \<noteq> s \<and> flag bits s' k"
  using get_clear_bits[OF assms, of s] by (auto simp: flag_def)

lemma flag_reset_bits:
  assumes "s' div 2 < length bits" "m \<le> 15"
  shows "flag (reset_bits bits s m) s' OBJECT \<longleftrightarrow> flag bits s' OBJECT \<and> \<not> (s' = s \<and> bit m 0)"
    "flag (reset_bits bits s m) s' ALLOCATED \<longleftrightarrow> flag bits s' ALLOCATED \<and> \<not> (s' = s \<and> bit m 1)"
    "flag (reset_bits bits s m) s' MARK \<longleftrightarrow> flag bits s' MARK \<and> \<not> (s' = s \<and> bit m 2)"
    "flag (reset_bits bits s m) s' SCANNED \<longleftrightarrow> flag bits s' SCANNED \<and> \<not> (s' = s \<and> bit m 3)"
  using get_reset_bits[OF assms, of s] by (auto simp: flag_bit bit_simps)

section \<open>Operations on a block\<close>

definition block_allocate :: "block \<Rightarrow> nat \<Rightarrow> nat \<Rightarrow> block outcome" where
  "block_allocate b address sz =
     (if sz mod SLOT_SIZE = 0 then
        obind (slot b address) (\<lambda>s.
          if s + sz div SLOT_SIZE \<le> 2 * length (blk_bits b) then
            Inr (b\<lparr>blk_bits := foldl (\<lambda>bits k. set_bits bits k ALLOCATED)
                   (set_bits (blk_bits b) s OBJECT) [s..<s + sz div SLOT_SIZE]\<rparr>)
          else Inl Undefined_behaviour)
      else Inl Assertion_failed)"

text \<open>
  The backward and forward loops of Block::mark.  Below slot 0 the unsigned counter wraps
  and the status bits are read out of bounds.
\<close>

fun mark_backward :: "8 word list \<Rightarrow> nat \<Rightarrow> 8 word list outcome" where
  "mark_backward bits 0 = (if flag bits 0 OBJECT then Inr bits else Inl Undefined_behaviour)"
| "mark_backward bits (Suc s) =
     (if flag bits (Suc s) OBJECT then Inr bits else mark_backward (set_bits bits (Suc s) MARK) s)"

fun mark_forward :: "8 word list \<Rightarrow> nat \<Rightarrow> nat \<Rightarrow> 8 word list" where
  "mark_forward bits s 0 = bits"
| "mark_forward bits s (Suc n) =
     (if flag bits s ALLOCATED then mark_forward (set_bits bits s MARK) (Suc s) n else bits)"

text \<open>
  Block::mark.  The work list is a list of block starts; the intrusive link next_ is
  non-null exactly when the block is on the list (the sentinel 1 ends the list).
\<close>

definition block_mark :: "block \<Rightarrow> nat \<Rightarrow> nat list \<Rightarrow> (block \<times> nat list) outcome" where
  "block_mark b address work_list =
     obind (slot b address) (\<lambda>s.
       if flag (blk_bits b) s MARK then Inr (b, work_list)
       else if \<not> flag (blk_bits b) s ALLOCATED then Inr (b, work_list)
       else
         let work_list' = (if blk_begin b \<in> set work_list then work_list else blk_begin b # work_list) in
         obind (mark_backward (blk_bits b) s) (\<lambda>bits.
           Inr (b\<lparr>blk_marked := True, blk_bits := mark_forward bits s (slots b - s)\<rparr>, work_list')))"

definition block_is_object :: "block \<Rightarrow> nat \<Rightarrow> bool outcome" where
  "block_is_object b p = obind (slot b p) (\<lambda>s. Inr (flag (blk_bits b) s OBJECT))"

definition block_is_allocated :: "block \<Rightarrow> nat \<Rightarrow> bool outcome" where
  "block_is_allocated b p = obind (slot b p) (\<lambda>s. Inr (flag (blk_bits b) s ALLOCATED))"

text \<open>A chunk of the free list: its address and size in bytes.\<close>

type_synonym chunk = "nat \<times> nat"

text \<open>The inner loop of Block::sweep: clear the slots from \<open>s\<close> to the next marked one.\<close>

fun clear_run :: "8 word list \<Rightarrow> nat \<Rightarrow> nat \<Rightarrow> 8 word list \<times> nat" where
  "clear_run bits s 0 = (bits, s)"
| "clear_run bits s (Suc n) =
     (if flag bits s MARK then (bits, s) else clear_run (clear_bits bits s) (Suc s) n)"

lemma clear_run_ge: "s \<le> snd (clear_run bits s n)" "snd (clear_run bits s n) \<le> s + n"
  by (induction bits s n rule: clear_run.induct) auto

lemma clear_run_progress:
  "\<not> flag bits s MARK \<Longrightarrow> 0 < n \<Longrightarrow> s < snd (clear_run bits s n)"
  by (cases n) (use clear_run_ge(1)[of "Suc s"] in \<open>auto simp: Suc_le_eq\<close>)

text \<open>The outer loop, from slot \<open>s\<close> to \<open>max_slot\<close>, of a block at \<open>begin\<close>.\<close>

function sweep_slots ::
  "nat \<Rightarrow> nat \<Rightarrow> 8 word list \<Rightarrow> nat \<Rightarrow> chunk list \<Rightarrow> nat \<Rightarrow> 8 word list \<times> chunk list \<times> nat"
where
  "sweep_slots start max_slot bits s head retval =
     (if max_slot \<le> s then (bits, head, retval)
      else if flag bits s MARK then
        sweep_slots start max_slot (reset_bits bits s (SCANNED OR MARK)) (Suc s) head (Suc retval)
      else
        let (bits', s') = clear_run bits s (max_slot - s) in
        sweep_slots start max_slot bits' s'
          ((start + s * SLOT_SIZE, (s' - s) * SLOT_SIZE) # head) retval)"
  by auto
termination
proof (relation "measure (\<lambda>(start, max_slot, bits, s, head, retval). max_slot - s)", goal_cases)
  case (3 start max_slot bits s head retval x bits' s')
  then have "s < s'" using clear_run_progress[of bits s "max_slot - s"] by (metis snd_conv not_le zero_less_diff)
  with 3 show ?case by simp
qed simp_all

declare sweep_slots.simps [simp del]

definition sweep_block :: "block \<Rightarrow> chunk list \<Rightarrow> block \<times> chunk list \<times> nat" where
  "sweep_block b head =
     (let (bits, head', n) = sweep_slots (blk_begin b) (slots b) (blk_bits b) 0 head 0 in
      (b\<lparr>blk_bits := bits, blk_marked := False\<rparr>, head', n))"

section \<open>The tree of blocks\<close>

datatype btree = Leaf | Node btree block btree

fun blocks :: "btree \<Rightarrow> block list" where
  "blocks Leaf = []"
| "blocks (Node l b r) = blocks l @ b # blocks r"

fun tree_insert :: "btree \<Rightarrow> block \<Rightarrow> btree" where
  "tree_insert Leaf b = Node Leaf b Leaf"
| "tree_insert (Node l p r) b =
     (if blk_begin b < blk_begin p then Node (tree_insert l b) p r
      else Node l p (tree_insert r b))"

fun tree_find :: "btree \<Rightarrow> nat \<Rightarrow> block option" where
  "tree_find Leaf a = None"
| "tree_find (Node l b r) a =
     (if blk_begin b \<le> a \<and> a < blk_end b then Some b
      else if a < blk_begin b then tree_find l a
      else tree_find r a)"

text \<open>Writing back the block that covers an address (the code mutates it in place).\<close>

fun tree_update :: "btree \<Rightarrow> nat \<Rightarrow> block \<Rightarrow> btree" where
  "tree_update Leaf a c = Leaf"
| "tree_update (Node l b r) a c =
     (if blk_begin b \<le> a \<and> a < blk_end b then Node l c r
      else if a < blk_begin b then Node (tree_update l a c) b r
      else Node l b (tree_update r a c))"

fun remove_right_most :: "btree \<Rightarrow> (block \<times> btree) outcome" where
  "remove_right_most Leaf = Inl Assertion_failed"
| "remove_right_most (Node l b Leaf) = Inr (b, l)"
| "remove_right_most (Node l b r) =
     obind (remove_right_most r) (\<lambda>(x, r'). Inr (x, Node l b r'))"

text \<open>The node that takes the place of an unmarked block with swept subtrees.\<close>

fun drop_root :: "btree \<Rightarrow> btree \<Rightarrow> btree outcome" where
  "drop_root Leaf Leaf = Inr Leaf"
| "drop_root Leaf r = Inr r"
| "drop_root l Leaf = Inr l"
| "drop_root l r = obind (remove_right_most l) (\<lambda>(x, l'). Inr (Node l' x r))"

fun tree_sweep :: "btree \<Rightarrow> chunk list \<Rightarrow> (nat \<times> btree \<times> chunk list) outcome" where
  "tree_sweep Leaf head = Inr (0, Leaf, head)"
| "tree_sweep (Node l b r) head =
     obind (tree_sweep l head) (\<lambda>(n1, l', head1).
     obind (tree_sweep r head1) (\<lambda>(n2, r', head2).
       if blk_marked b then
         let (b', head3, n3) = sweep_block b head2 in Inr (n1 + n2 + n3, Node l' b' r', head3)
       else obind (drop_root l' r') (\<lambda>t. Inr (n1 + n2, t, head2))))"

fun tree_merge :: "btree \<Rightarrow> btree \<Rightarrow> btree" where
  "tree_merge root Leaf = root"
| "tree_merge root (Node l b r) = tree_insert (tree_merge (tree_merge root l) r) b"

section \<open>What marking does\<close>

text \<open>Two bit arrays that agree on every flag but MARK.\<close>

definition same_but_mark :: "8 word list \<Rightarrow> 8 word list \<Rightarrow> bool" where
  "same_but_mark bits bits' \<longleftrightarrow> length bits' = length bits \<and>
     (\<forall>k < 2 * length bits.
        (flag bits' k OBJECT \<longleftrightarrow> flag bits k OBJECT) \<and>
        (flag bits' k ALLOCATED \<longleftrightarrow> flag bits k ALLOCATED) \<and>
        (flag bits' k SCANNED \<longleftrightarrow> flag bits k SCANNED))"

lemma same_but_mark_refl [simp]: "same_but_mark bits bits"
  by (simp add: same_but_mark_def)

lemma same_but_mark_trans:
  "same_but_mark a b \<Longrightarrow> same_but_mark b c \<Longrightarrow> same_but_mark a c"
  by (simp add: same_but_mark_def)

lemma half_less: "k < 2 * n \<Longrightarrow> k div 2 < (n :: nat)"
  by simp

lemma set_mark_same [simp]: "same_but_mark bits (set_bits bits s MARK)"
  by (simp add: same_but_mark_def flag_set_bits)

lemma mark_backward_effect:
  assumes "s < 2 * length bits" "o' \<le> s" "flag bits o' OBJECT"
    and "\<And>k. o' < k \<Longrightarrow> k \<le> s \<Longrightarrow> \<not> flag bits k OBJECT"
  shows "\<exists>bits'. mark_backward bits s = Inr bits' \<and> same_but_mark bits bits' \<and>
    (\<forall>k < 2 * length bits. flag bits' k MARK \<longleftrightarrow> flag bits k MARK \<or> (o' < k \<and> k \<le> s))"
  using assms
proof (induction bits s rule: mark_backward.induct)
  case (1 bits)
  then show ?case by auto
next
  case (2 bits s)
  show ?case
  proof (cases "flag bits (Suc s) OBJECT")
    case True
    then have "o' = Suc s" using "2.prems"(4)[of "Suc s"] "2.prems"(2) by (cases "o' = Suc s") auto
    then show ?thesis using True by auto
  next
    case False
    let ?b = "set_bits bits (Suc s) MARK"
    have "o' \<le> s" using "2.prems"(2,3) False by (metis le_SucE)
    then obtain bits' where b: "mark_backward ?b s = Inr bits'" "same_but_mark ?b bits'"
      "\<forall>k < 2 * length bits. flag bits' k MARK \<longleftrightarrow> flag ?b k MARK \<or> (o' < k \<and> k \<le> s)"
      using "2.IH"[OF False] "2.prems" by (auto simp: flag_set_bits)
    have "same_but_mark bits bits'"
      by (rule same_but_mark_trans[OF set_mark_same b(2)])
    moreover have "\<forall>k < 2 * length bits. flag bits' k MARK \<longleftrightarrow> flag bits k MARK \<or> (o' < k \<and> k \<le> Suc s)"
      using b(3) \<open>o' \<le> s\<close> by (auto simp: flag_set_bits)
    ultimately show ?thesis using b(1) False by simp
  qed
qed

lemma mark_backward_no_object:
  assumes "s < 2 * length bits" "\<And>k. k \<le> s \<Longrightarrow> \<not> flag bits k OBJECT"
  shows "mark_backward bits s = Inl Undefined_behaviour"
  using assms
proof (induction bits s rule: mark_backward.induct)
  case (2 bits s)
  have "mark_backward (set_bits bits (Suc s) MARK) s = Inl Undefined_behaviour"
    using 2 by (intro "2.IH") (auto simp: flag_set_bits)
  then show ?case using 2 by simp
qed simp

text \<open>The slots from \<open>s\<close> on that are reached without crossing an unallocated one.\<close>

definition in_run :: "8 word list \<Rightarrow> nat \<Rightarrow> nat \<Rightarrow> bool" where
  "in_run bits s k \<longleftrightarrow> s \<le> k \<and> (\<forall>j. s \<le> j \<and> j \<le> k \<longrightarrow> flag bits j ALLOCATED)"

lemma in_run_Suc:
  "in_run bits s k \<longleftrightarrow> flag bits s ALLOCATED \<and> (k = s \<or> in_run bits (Suc s) k)"
proof
  assume "in_run bits s k"
  then show "flag bits s ALLOCATED \<and> (k = s \<or> in_run bits (Suc s) k)"
    by (auto simp: in_run_def)
next
  assume a: "flag bits s ALLOCATED \<and> (k = s \<or> in_run bits (Suc s) k)"
  have "flag bits j ALLOCATED" if "s \<le> j" "j \<le> k" for j
    using a that by (cases "j = s") (auto simp: in_run_def)
  then show "in_run bits s k" using a by (auto simp: in_run_def)
qed

lemma in_run_set_mark:
  "k < 2 * length bits \<Longrightarrow> in_run (set_bits bits s MARK) t k \<longleftrightarrow> in_run bits t k"
  by (auto simp: in_run_def flag_set_bits)

lemma mark_forward_effect:
  assumes "s + n \<le> 2 * length bits"
  shows "same_but_mark bits (mark_forward bits s n) \<and>
    (\<forall>k < 2 * length bits. flag (mark_forward bits s n) k MARK \<longleftrightarrow>
       flag bits k MARK \<or> (k < s + n \<and> in_run bits s k))"
  using assms
proof (induction bits s n rule: mark_forward.induct)
  case (1 bits s)
  then show ?case by (auto simp: in_run_def)
next
  case (2 bits s n)
  let ?b = "set_bits bits s MARK"
  show ?case
  proof (cases "flag bits s ALLOCATED")
    case True
    have IH: "same_but_mark ?b (mark_forward ?b (Suc s) n)"
      "k < 2 * length bits \<Longrightarrow> flag (mark_forward ?b (Suc s) n) k MARK \<longleftrightarrow>
         flag ?b k MARK \<or> (k < Suc s + n \<and> in_run ?b (Suc s) k)" for k
      using "2.IH"[OF True] "2.prems" by simp_all
    have "same_but_mark bits (mark_forward ?b (Suc s) n)"
      by (rule same_but_mark_trans[OF set_mark_same IH(1)])
    moreover have "flag (mark_forward ?b (Suc s) n) k MARK \<longleftrightarrow>
        flag bits k MARK \<or> (k < s + Suc n \<and> in_run bits s k)" if "k < 2 * length bits" for k
      using that IH(2)[OF that] True by (auto simp: flag_set_bits in_run_set_mark in_run_Suc[of bits s])
    ultimately show ?thesis using True by simp
  next
    case False
    then show ?thesis using in_run_Suc[of bits s] by simp
  qed
qed

definition block_wf :: "block \<Rightarrow> bool" where
  "block_wf b \<longleftrightarrow> blk_begin b < blk_end b \<and> blk_end b = blk_begin b + slots b * SLOT_SIZE \<and>
     length (blk_bits b) = (slots b + 1) div 2"

lemma block_wf_bits: "block_wf b \<Longrightarrow> k < slots b \<Longrightarrow> k < 2 * length (blk_bits b)"
  by (simp add: block_wf_def)

lemma make_block_wf:
  assumes "0 < sz"
  shows "block_wf (make_block addr sz)"
proof -
  have z: "sz \<le> round_up sz 16" "16 dvd round_up sz 16"
    by (simp_all add: round_up_ge round_up_dvd)
  then obtain k where k: "round_up sz 16 = 16 * k" by (auto simp: dvd_def)
  then have "0 < k" using z(1) assms by (cases k) simp_all
  then show ?thesis
    using k by (simp add: block_wf_def make_block_def slots_def SLOT_SIZE_def bits_bytes_def
        BITS_PER_SLOT_def Let_def)
qed

lemma slot_bound:
  assumes "block_wf b" "slot b a = Inr s"
  shows "s < slots b" "blk_begin b + s * SLOT_SIZE \<le> a" "a < blk_begin b + (s + 1) * SLOT_SIZE"
proof -
  have "blk_begin b \<le> a" "a < blk_end b" "s = (a - blk_begin b) div 16"
    using assms(2) by (auto simp: slot_def SLOT_SIZE_def split: if_splits)
  moreover have "blk_end b = blk_begin b + slots b * 16"
    using assms(1) by (simp add: block_wf_def SLOT_SIZE_def)
  ultimately show "s < slots b" "blk_begin b + s * SLOT_SIZE \<le> a" "a < blk_begin b + (s + 1) * SLOT_SIZE"
    by (auto simp: SLOT_SIZE_def less_mult_imp_div_less)
qed

section \<open>What sweeping does\<close>

text \<open>The flags of a slot that has been swept, and the slots a chunk of the block at \<open>start\<close> covers.\<close>

definition swept_flags :: "8 word list \<Rightarrow> 8 word list \<Rightarrow> nat \<Rightarrow> bool" where
  "swept_flags bits bits' k \<longleftrightarrow>
     (flag bits' k OBJECT \<longleftrightarrow> flag bits k MARK \<and> flag bits k OBJECT) \<and>
     (flag bits' k ALLOCATED \<longleftrightarrow> flag bits k MARK \<and> flag bits k ALLOCATED) \<and>
     \<not> flag bits' k MARK \<and> \<not> flag bits' k SCANNED"

definition same_flags :: "8 word list \<Rightarrow> 8 word list \<Rightarrow> nat \<Rightarrow> bool" where
  "same_flags bits bits' k \<longleftrightarrow> get_bits bits' k = get_bits bits k"

lemma same_flagsD: "same_flags bits bits' k \<Longrightarrow> flag bits' k m \<longleftrightarrow> flag bits k m"
  by (simp add: same_flags_def flag_def)

definition covers :: "chunk \<Rightarrow> nat \<Rightarrow> bool" where
  "covers c a \<longleftrightarrow> fst c \<le> a \<and> a < fst c + snd c"

lemma covers_slots:
  "covers (start + i * SLOT_SIZE, (j - i) * SLOT_SIZE) (start + k * SLOT_SIZE) \<longleftrightarrow> i \<le> k \<and> k < j"
proof -
  have "covers (start + i * SLOT_SIZE, (j - i) * SLOT_SIZE) (start + k * SLOT_SIZE) \<longleftrightarrow>
      i * 16 \<le> k * 16 \<and> k * 16 < i * 16 + (j - i) * 16"
    by (auto simp: covers_def SLOT_SIZE_def)
  also have "\<dots> \<longleftrightarrow> i \<le> k \<and> k < j" by auto
  finally show ?thesis .
qed

lemma clear_run_effect:
  assumes "s + n \<le> 2 * length bits" "clear_run bits s n = (bits', s')"
  shows "length bits' = length bits" "s \<le> s'" "s' \<le> s + n"
    and "\<And>k. k < 2 * length bits \<Longrightarrow> \<not> (s \<le> k \<and> k < s') \<Longrightarrow> same_flags bits bits' k"
    and "\<And>k. s \<le> k \<Longrightarrow> k < s' \<Longrightarrow> \<not> flag bits k MARK \<and> get_bits bits' k = 0"
    and "s' < s + n \<Longrightarrow> flag bits s' MARK"
proof -
  have "length bits' = length bits \<and> s \<le> s' \<and> s' \<le> s + n \<and>
     (\<forall>k < 2 * length bits. \<not> (s \<le> k \<and> k < s') \<longrightarrow> same_flags bits bits' k) \<and>
     (\<forall>k. s \<le> k \<and> k < s' \<longrightarrow> \<not> flag bits k MARK \<and> get_bits bits' k = 0) \<and>
     (s' < s + n \<longrightarrow> flag bits s' MARK)"
    using assms
  proof (induction bits s n rule: clear_run.induct)
    case (1 bits s)
    then show ?case by (auto simp: same_flags_def)
  next
    case (2 bits s n)
    show ?case
    proof (cases "flag bits s MARK")
      case True
      then show ?thesis using "2.prems" by (auto simp: same_flags_def)
    next
      case False
      let ?b = "clear_bits bits s"
      have r: "clear_run ?b (Suc s) n = (bits', s')" using "2.prems"(2) False by simp
      have IH: "length bits' = length bits" "Suc s \<le> s'" "s' \<le> Suc s + n"
        "\<And>k. k < 2 * length bits \<Longrightarrow> \<not> (Suc s \<le> k \<and> k < s') \<Longrightarrow> same_flags ?b bits' k"
        "\<And>k. Suc s \<le> k \<Longrightarrow> k < s' \<Longrightarrow> \<not> flag ?b k MARK \<and> get_bits bits' k = 0"
        "s' < Suc s + n \<Longrightarrow> flag ?b s' MARK"
        using "2.IH"[OF False _ r] "2.prems"(1) by simp_all
      have g: "get_bits ?b k = (if k = s then 0 else get_bits bits k)" if "k < 2 * length bits" for k
        using get_clear_bits[OF half_less[OF that]] .
      have f: "flag ?b k MARK \<longleftrightarrow> k \<noteq> s \<and> flag bits k MARK" if "k < 2 * length bits" for k
        using flag_clear_bits[OF half_less[OF that]] .
      have a: "same_flags bits bits' k" if "k < 2 * length bits" "\<not> (s \<le> k \<and> k < s')" for k
        using IH(2) IH(4)[OF that(1)] g[OF that(1)] that by (cases "k = s") (auto simp: same_flags_def)
      have b: "\<not> flag bits k MARK \<and> get_bits bits' k = 0" if "s \<le> k" "k < s'" for k
      proof (cases "k = s")
        case True
        then show ?thesis
          using False IH(2) IH(4)[of s] g[of s] "2.prems"(1) by (simp add: same_flags_def)
      next
        case neq: False
        then have "\<not> flag ?b k MARK \<and> get_bits bits' k = 0" using IH(5)[of k] that by simp
        moreover have "k < 2 * length bits" using that IH(3) "2.prems"(1) by simp
        ultimately show ?thesis using f neq by simp
      qed
      have c: "flag bits s' MARK" if "s' < s + Suc n"
        using IH(6) f[of s'] that "2.prems"(1) by simp
      show ?thesis using a b c IH(1-3) by auto
    qed
  qed
  then show "length bits' = length bits" "s \<le> s'" "s' \<le> s + n"
    "\<And>k. k < 2 * length bits \<Longrightarrow> \<not> (s \<le> k \<and> k < s') \<Longrightarrow> same_flags bits bits' k"
    "\<And>k. s \<le> k \<Longrightarrow> k < s' \<Longrightarrow> \<not> flag bits k MARK \<and> get_bits bits' k = 0"
    "s' < s + n \<Longrightarrow> flag bits s' MARK"
    by blast+
qed

text \<open>The number of marked slots in a stretch.\<close>

definition marked_slots :: "8 word list \<Rightarrow> nat \<Rightarrow> nat \<Rightarrow> nat" where
  "marked_slots bits i j = card {k. i \<le> k \<and> k < j \<and> flag bits k MARK}"

lemma marked_slots_empty: "(\<And>k. i \<le> k \<Longrightarrow> k < j \<Longrightarrow> \<not> flag bits k MARK) \<Longrightarrow> marked_slots bits i j = 0"
  by (simp add: marked_slots_def)

lemma marked_slots_split:
  assumes "i \<le> m" "m \<le> j"
  shows "marked_slots bits i j = marked_slots bits i m + marked_slots bits m j"
proof -
  have "{k. i \<le> k \<and> k < j \<and> flag bits k MARK} =
      {k. i \<le> k \<and> k < m \<and> flag bits k MARK} \<union> {k. m \<le> k \<and> k < j \<and> flag bits k MARK}"
    using assms by auto
  then show ?thesis
    unfolding marked_slots_def by (simp add: card_Un_disjoint disjoint_iff)
qed

lemma marked_slots_cong:
  "(\<And>k. i \<le> k \<Longrightarrow> k < j \<Longrightarrow> flag bits k MARK \<longleftrightarrow> flag bits' k MARK) \<Longrightarrow>
     marked_slots bits i j = marked_slots bits' i j"
  unfolding marked_slots_def by (rule arg_cong[of _ _ card]) blast

text \<open>
  A list of chunks of the block at \<open>start\<close>, latest first, that covers exactly the unmarked
  slots from \<open>i\<close> to \<open>j\<close>: every chunk is a non-empty stretch of whole slots, and each
  ends before the one in front of it begins.
\<close>

definition chunk_of :: "nat \<Rightarrow> nat \<Rightarrow> nat \<Rightarrow> chunk \<Rightarrow> bool" where
  "chunk_of start i j c \<longleftrightarrow>
     (\<exists>p q. i \<le> p \<and> p < q \<and> q \<le> j \<and> c = (start + p * SLOT_SIZE, (q - p) * SLOT_SIZE))"

definition free_chunks :: "nat \<Rightarrow> 8 word list \<Rightarrow> nat \<Rightarrow> nat \<Rightarrow> chunk list \<Rightarrow> bool" where
  "free_chunks start bits i j cs \<longleftrightarrow>
     (\<forall>c \<in> set cs. chunk_of start i j c) \<and>
     sorted_wrt (\<lambda>c d. fst d + snd d \<le> fst c) cs \<and>
     (\<forall>k. i \<le> k \<and> k < j \<longrightarrow>
        (\<not> flag bits k MARK \<longleftrightarrow> (\<exists>c \<in> set cs. covers c (start + k * SLOT_SIZE))))"

lemma chunk_of_mono:
  "chunk_of start i j c \<Longrightarrow> i' \<le> i \<Longrightarrow> j \<le> j' \<Longrightarrow> chunk_of start i' j' c"
proof -
  assume a: "chunk_of start i j c" "i' \<le> i" "j \<le> j'"
  then obtain p q where "i \<le> p" "p < q" "q \<le> j" "c = (start + p * SLOT_SIZE, (q - p) * SLOT_SIZE)"
    unfolding chunk_of_def by blast
  then show ?thesis using a(2,3) unfolding chunk_of_def by (intro exI[of _ p] exI[of _ q]) simp
qed

lemma chunk_of_covers: "chunk_of start i j c \<Longrightarrow> covers c (start + k * SLOT_SIZE) \<Longrightarrow> i \<le> k \<and> k < j"
  by (auto simp: chunk_of_def covers_slots)

lemma free_chunks_append:
  assumes "free_chunks start bits i m cs" "free_chunks start bits m j ds" "i \<le> m" "m \<le> j"
  shows "free_chunks start bits i j (ds @ cs)"
proof -
  have of: "\<forall>c \<in> set cs. chunk_of start i m c" "\<forall>c \<in> set ds. chunk_of start m j c"
    using assms by (simp_all add: free_chunks_def)
  have w: "\<forall>c \<in> set (ds @ cs). chunk_of start i j c"
    using of assms(3,4) chunk_of_mono[of start i m _ i j] chunk_of_mono[of start m j _ i j] by auto
  have "fst d + snd d \<le> fst c" if "c \<in> set ds" "d \<in> set cs" for c d
  proof -
    have "chunk_of start i m d" "chunk_of start m j c" using of that by blast+
    then obtain p q p' q' where d: "q \<le> m" "p < q" "d = (start + p * SLOT_SIZE, (q - p) * SLOT_SIZE)"
      and c: "m \<le> p'" "c = (start + p' * SLOT_SIZE, (q' - p') * SLOT_SIZE)"
      unfolding chunk_of_def by blast
    have "p * SLOT_SIZE + (q - p) * SLOT_SIZE = q * SLOT_SIZE"
      using d(2) by (simp flip: add_mult_distrib)
    moreover have "q * SLOT_SIZE \<le> p' * SLOT_SIZE" using d(1) c(1) by (intro mult_le_mono1) simp
    ultimately show ?thesis using c(2) d(3) by simp
  qed
  then have s: "sorted_wrt (\<lambda>c d. fst d + snd d \<le> fst c) (ds @ cs)"
    using assms(1,2) by (simp add: free_chunks_def sorted_wrt_append)
  have "\<not> flag bits k MARK \<longleftrightarrow> (\<exists>c \<in> set (ds @ cs). covers c (start + k * SLOT_SIZE))"
    if "i \<le> k" "k < j" for k
  proof (cases "k < m")
    case True
    have "\<not> covers c (start + k * SLOT_SIZE)" if "c \<in> set ds" for c
      using chunk_of_covers[of start m j c k] of(2) that True by auto
    then show ?thesis using assms(1) that True by (auto simp: free_chunks_def)
  next
    case False
    have "\<not> covers c (start + k * SLOT_SIZE)" if "c \<in> set cs" for c
      using chunk_of_covers[of start i m c k] of(1) that False by auto
    then show ?thesis using assms(2) that False by (auto simp: free_chunks_def)
  qed
  with w s show ?thesis by (simp add: free_chunks_def)
qed

lemma free_chunks_cong:
  assumes "free_chunks start bits i j cs"
    and "\<And>k. i \<le> k \<Longrightarrow> k < j \<Longrightarrow> flag bits' k MARK \<longleftrightarrow> flag bits k MARK"
  shows "free_chunks start bits' i j cs"
  using assms by (simp add: free_chunks_def)

lemma free_chunks_marked: "flag bits s MARK \<Longrightarrow> free_chunks start bits s (Suc s) []"
  by (auto simp: free_chunks_def less_Suc_eq_le)

lemma free_chunks_run:
  assumes "s < s'" "\<And>k. s \<le> k \<Longrightarrow> k < s' \<Longrightarrow> \<not> flag bits k MARK"
  shows "free_chunks start bits s s' [(start + s * SLOT_SIZE, (s' - s) * SLOT_SIZE)]"
proof -
  have "chunk_of start s s' (start + s * SLOT_SIZE, (s' - s) * SLOT_SIZE)"
    unfolding chunk_of_def using assms(1) by blast
  then show ?thesis using assms(2) by (simp add: free_chunks_def covers_slots)
qed

lemma swept_flags_cong:
  "swept_flags bits1 bits' k \<Longrightarrow> get_bits bits1 k = get_bits bits k \<Longrightarrow> swept_flags bits bits' k"
  by (simp add: swept_flags_def flag_def)

lemma sweep_slots_effect:
  assumes "s \<le> m" "m \<le> 2 * length bits" "sweep_slots start m bits s head n = (bits', head', n')"
  shows "length bits' = length bits \<and>
    (\<forall>k < 2 * length bits. \<not> (s \<le> k \<and> k < m) \<longrightarrow> get_bits bits' k = get_bits bits k) \<and>
    (\<forall>k. s \<le> k \<and> k < m \<longrightarrow> swept_flags bits bits' k) \<and>
    n' = n + marked_slots bits s m \<and>
    (\<exists>cs. head' = cs @ head \<and> free_chunks start bits s m cs)"
  using assms
proof (induction start m bits s head n rule: sweep_slots.induct)
  case (1 start m bits s head n)
  consider "m \<le> s" | "s < m" "flag bits s MARK" | "s < m" "\<not> flag bits s MARK" by linarith
  then show ?case
  proof cases
    case 1
    then have "bits' = bits" "head' = head" "n' = n"
      using "1.prems"(3) by (simp_all add: sweep_slots.simps[of start m])
    then show ?thesis using 1 by (auto simp: marked_slots_empty free_chunks_def)
  next
    case 2
    let ?b = "reset_bits bits s (SCANNED OR MARK)"
    have r: "sweep_slots start m ?b (Suc s) head (Suc n) = (bits', head', n')"
      using "1.prems"(3) 2 by (simp add: sweep_slots.simps[of start m bits s])
    have IH: "length bits' = length bits"
      "\<And>k. k < 2 * length bits \<Longrightarrow> \<not> (Suc s \<le> k \<and> k < m) \<Longrightarrow> get_bits bits' k = get_bits ?b k"
      "\<And>k. Suc s \<le> k \<Longrightarrow> k < m \<Longrightarrow> swept_flags ?b bits' k"
      "n' = Suc n + marked_slots ?b (Suc s) m"
      "\<exists>cs. head' = cs @ head \<and> free_chunks start ?b (Suc s) m cs"
      using "1.IH"(1)[OF _ 2(2) _ _ r] 2(1) "1.prems"(2) by simp_all
    have g: "get_bits ?b k = get_bits bits k" if "k < 2 * length bits" "k \<noteq> s" for k
      using get_reset_bits[OF half_less[OF that(1)] status_le(5), of s] that(2) by simp
    have g': "k < m \<Longrightarrow> k \<noteq> s \<Longrightarrow> get_bits ?b k = get_bits bits k" for k
      using g "1.prems"(2) by simp
    have s: "s < 2 * length bits" using 2 "1.prems"(2) by simp
    have sw: "swept_flags bits bits' k" if "s \<le> k" "k < m" for k
    proof (cases "k = s")
      case True
      have "get_bits bits' s = get_bits ?b s" using IH(2)[OF s] by simp
      then have "flag bits' s x \<longleftrightarrow> flag ?b s x" for x by (simp add: flag_def)
      then show ?thesis
        using flag_reset_bits[OF half_less[OF s] status_le(5), of s] 2(2) True
        by (simp add: swept_flags_def bit_simps)
    next
      case False
      then show ?thesis using IH(3)[of k] g'[of k] that swept_flags_cong by simp
    qed
    have m: "marked_slots ?b (Suc s) m = marked_slots bits (Suc s) m"
      by (rule marked_slots_cong) (simp add: flag_def g')
    have "marked_slots bits s (Suc s) = 1"
    proof -
      have "{k. s \<le> k \<and> k < Suc s \<and> flag bits k MARK} = {s}" using 2(2) by auto
      then show ?thesis by (simp add: marked_slots_def)
    qed
    then have n: "n' = n + marked_slots bits s m"
      using IH(4) m marked_slots_split[of s "Suc s" m bits] 2(1) by simp
    have outer: "get_bits bits' k = get_bits bits k" if "k < 2 * length bits" "\<not> (s \<le> k \<and> k < m)" for k
      using IH(2)[OF that(1)] g[OF that(1)] that(2) 2(1) by auto
    obtain cs where cs: "head' = cs @ head" "free_chunks start ?b (Suc s) m cs"
      using IH(5) by blast
    have "free_chunks start bits (Suc s) m cs"
      by (rule free_chunks_cong[OF cs(2)]) (simp add: flag_def g')
    from free_chunks_append[OF free_chunks_marked[OF 2(2)] this]
    have "free_chunks start bits s m cs" using 2(1) by simp
    then show ?thesis using IH(1) outer sw n cs(1) by auto
  next
    case 3
    obtain bits1 s1 where run: "clear_run bits s (m - s) = (bits1, s1)" by fastforce
    have le: "s + (m - s) \<le> 2 * length bits" using 3 "1.prems"(2) by simp
    note ce = clear_run_effect[OF le run]
    have lt: "s < s1" using clear_run_progress[OF 3(2), of "m - s"] 3(1) run by simp
    have sm: "s1 \<le> m" using ce(3) 3(1) by simp
    let ?c = "(start + s * SLOT_SIZE, (s1 - s) * SLOT_SIZE)"
    have r: "sweep_slots start m bits1 s1 (?c # head) n = (bits', head', n')"
      using "1.prems"(3) 3 run by (simp add: sweep_slots.simps[of start m bits s])
    have IH: "length bits' = length bits"
      "\<And>k. k < 2 * length bits \<Longrightarrow> \<not> (s1 \<le> k \<and> k < m) \<Longrightarrow> get_bits bits' k = get_bits bits1 k"
      "\<And>k. s1 \<le> k \<Longrightarrow> k < m \<Longrightarrow> swept_flags bits1 bits' k"
      "n' = n + marked_slots bits1 s1 m"
      "\<exists>cs. head' = cs @ ?c # head \<and> free_chunks start bits1 s1 m cs"
      using "1.IH"(2)[OF _ 3(2) run[symmetric] refl sm _ r] 3(1) ce(1) "1.prems"(2) by simp_all
    have g: "get_bits bits1 k = get_bits bits k" if "k < 2 * length bits" "\<not> (s \<le> k \<and> k < s1)" for k
      using ce(4)[OF that] by (simp add: same_flags_def)
    have g': "s1 \<le> k \<Longrightarrow> k < m \<Longrightarrow> get_bits bits1 k = get_bits bits k" for k
      using g "1.prems"(2) by simp
    have sw: "swept_flags bits bits' k" if "s \<le> k" "k < m" for k
    proof (cases "k < s1")
      case True
      have "get_bits bits' k = 0"
        using IH(2)[of k] ce(5)[of k] that True "1.prems"(2) by simp
      then show ?thesis using ce(5)[of k] that True by (simp add: swept_flags_def flag_def)
    next
      case False
      then show ?thesis using IH(3)[of k] g'[of k] that swept_flags_cong by simp
    qed
    have outer: "get_bits bits' k = get_bits bits k" if "k < 2 * length bits" "\<not> (s \<le> k \<and> k < m)" for k
      using IH(2)[OF that(1)] g[OF that(1)] that(2) lt sm by auto
    have m: "marked_slots bits1 s1 m = marked_slots bits s1 m"
      by (rule marked_slots_cong) (simp add: flag_def g')
    have "marked_slots bits s s1 = 0" by (rule marked_slots_empty) (use ce(5) in blast)
    then have n: "n' = n + marked_slots bits s m"
      using IH(4) m marked_slots_split[of s s1 m bits] lt sm by simp
    obtain cs where cs: "head' = cs @ ?c # head" "free_chunks start bits1 s1 m cs"
      using IH(5) by blast
    have "free_chunks start bits s1 m cs"
      by (rule free_chunks_cong[OF cs(2)]) (simp add: flag_def g')
    moreover have "free_chunks start bits s s1 [?c]"
      by (rule free_chunks_run[OF lt]) (use ce(5) in blast)
    ultimately have "free_chunks start bits s m (cs @ [?c])"
      using free_chunks_append lt sm by simp
    then show ?thesis using IH(1) outer sw n cs(1) by auto
  qed
qed

lemma sweep_block_effect:
  assumes "block_wf b" "sweep_block b head = (b', head', n)"
  shows "blk_begin b' = blk_begin b" "blk_end b' = blk_end b" "\<not> blk_marked b'"
    "length (blk_bits b') = length (blk_bits b)"
    "\<And>k. k < slots b \<Longrightarrow> swept_flags (blk_bits b) (blk_bits b') k"
    "n = marked_slots (blk_bits b) 0 (slots b)"
    "\<exists>cs. head' = cs @ head \<and> free_chunks (blk_begin b) (blk_bits b) 0 (slots b) cs"
proof -
  obtain bits' where r: "sweep_slots (blk_begin b) (slots b) (blk_bits b) 0 head 0 = (bits', head', n)"
    and b': "b' = b\<lparr>blk_bits := bits', blk_marked := False\<rparr>"
    using assms(2) by (auto simp: sweep_block_def split: prod.splits)
  have "slots b \<le> 2 * length (blk_bits b)" using assms(1) by (simp add: block_wf_def)
  note e = sweep_slots_effect[OF le0 this r]
  show "blk_begin b' = blk_begin b" "blk_end b' = blk_end b" "\<not> blk_marked b'"
    "length (blk_bits b') = length (blk_bits b)"
    "\<And>k. k < slots b \<Longrightarrow> swept_flags (blk_bits b) (blk_bits b') k"
    "n = marked_slots (blk_bits b) 0 (slots b)"
    "\<exists>cs. head' = cs @ head \<and> free_chunks (blk_begin b) (blk_bits b) 0 (slots b) cs"
    using e b' by simp_all
qed

section \<open>What allocating does\<close>

lemma set_allocated_range:
  assumes "i \<le> j" "j \<le> 2 * length bits" "k < 2 * length bits"
  shows "length (foldl (\<lambda>bits k. set_bits bits k ALLOCATED) bits [i..<j]) = length bits"
    "flag (foldl (\<lambda>bits k. set_bits bits k ALLOCATED) bits [i..<j]) k ALLOCATED \<longleftrightarrow>
       flag bits k ALLOCATED \<or> (i \<le> k \<and> k < j)"
    "flag (foldl (\<lambda>bits k. set_bits bits k ALLOCATED) bits [i..<j]) k OBJECT \<longleftrightarrow> flag bits k OBJECT"
    "flag (foldl (\<lambda>bits k. set_bits bits k ALLOCATED) bits [i..<j]) k MARK \<longleftrightarrow> flag bits k MARK"
    "flag (foldl (\<lambda>bits k. set_bits bits k ALLOCATED) bits [i..<j]) k SCANNED \<longleftrightarrow> flag bits k SCANNED"
proof -
  have "length (foldl (\<lambda>bits k. set_bits bits k ALLOCATED) bits [i..<j]) = length bits \<and>
    (flag (foldl (\<lambda>bits k. set_bits bits k ALLOCATED) bits [i..<j]) k ALLOCATED \<longleftrightarrow>
       flag bits k ALLOCATED \<or> (i \<le> k \<and> k < j)) \<and>
    (flag (foldl (\<lambda>bits k. set_bits bits k ALLOCATED) bits [i..<j]) k OBJECT \<longleftrightarrow> flag bits k OBJECT) \<and>
    (flag (foldl (\<lambda>bits k. set_bits bits k ALLOCATED) bits [i..<j]) k MARK \<longleftrightarrow> flag bits k MARK) \<and>
    (flag (foldl (\<lambda>bits k. set_bits bits k ALLOCATED) bits [i..<j]) k SCANNED \<longleftrightarrow> flag bits k SCANNED)"
    using assms
  proof (induction j)
    case (Suc j)
    show ?case
    proof (cases "i = Suc j")
      case False
      then have "i \<le> j" using Suc.prems(1) by simp
      with Suc show ?thesis by (auto simp: flag_set_bits)
    qed auto
  qed simp
  then show "length (foldl (\<lambda>bits k. set_bits bits k ALLOCATED) bits [i..<j]) = length bits"
    "flag (foldl (\<lambda>bits k. set_bits bits k ALLOCATED) bits [i..<j]) k ALLOCATED \<longleftrightarrow>
       flag bits k ALLOCATED \<or> (i \<le> k \<and> k < j)"
    "flag (foldl (\<lambda>bits k. set_bits bits k ALLOCATED) bits [i..<j]) k OBJECT \<longleftrightarrow> flag bits k OBJECT"
    "flag (foldl (\<lambda>bits k. set_bits bits k ALLOCATED) bits [i..<j]) k MARK \<longleftrightarrow> flag bits k MARK"
    "flag (foldl (\<lambda>bits k. set_bits bits k ALLOCATED) bits [i..<j]) k SCANNED \<longleftrightarrow> flag bits k SCANNED"
    by blast+
qed

lemma block_allocate_effect:
  assumes "block_wf b" "slot b a = Inr s" "s + n \<le> slots b" "0 < n"
  shows "\<exists>b'. block_allocate b a (n * SLOT_SIZE) = Inr b' \<and> block_wf b' \<and> slots b' = slots b \<and>
    blk_begin b' = blk_begin b \<and> blk_end b' = blk_end b \<and> blk_marked b' = blk_marked b \<and>
    (\<forall>k < slots b.
       (flag (blk_bits b') k ALLOCATED \<longleftrightarrow> flag (blk_bits b) k ALLOCATED \<or> (s \<le> k \<and> k < s + n)) \<and>
       (flag (blk_bits b') k OBJECT \<longleftrightarrow> flag (blk_bits b) k OBJECT \<or> k = s) \<and>
       (flag (blk_bits b') k MARK \<longleftrightarrow> flag (blk_bits b) k MARK) \<and>
       (flag (blk_bits b') k SCANNED \<longleftrightarrow> flag (blk_bits b) k SCANNED))"
proof -
  have len: "s + n \<le> 2 * length (blk_bits b)" "\<And>k. k < slots b \<Longrightarrow> k < 2 * length (blk_bits b)"
    using assms(1,3) by (simp_all add: block_wf_def)
  let ?bits = "foldl (\<lambda>bits k. set_bits bits k ALLOCATED) (set_bits (blk_bits b) s OBJECT) [s..<s + n]"
  let ?b = "b\<lparr>blk_bits := ?bits\<rparr>"
  have "block_allocate b a (n * SLOT_SIZE) = Inr ?b"
    using assms(2) len(1) by (simp add: block_allocate_def SLOT_SIZE_def)
  moreover have l: "length ?bits = length (blk_bits b)"
    using set_allocated_range(1)[of s "s + n" "set_bits (blk_bits b) s OBJECT" s] len(1) assms(4) by simp
  moreover have "slots ?b = slots b" by (simp add: slots_def)
  moreover have "block_wf ?b" using assms(1) l by (simp add: block_wf_def slots_def)
  moreover have "\<forall>k < slots b.
       (flag ?bits k ALLOCATED \<longleftrightarrow> flag (blk_bits b) k ALLOCATED \<or> (s \<le> k \<and> k < s + n)) \<and>
       (flag ?bits k OBJECT \<longleftrightarrow> flag (blk_bits b) k OBJECT \<or> k = s) \<and>
       (flag ?bits k MARK \<longleftrightarrow> flag (blk_bits b) k MARK) \<and>
       (flag ?bits k SCANNED \<longleftrightarrow> flag (blk_bits b) k SCANNED)"
    using set_allocated_range[of s "s + n" "set_bits (blk_bits b) s OBJECT"] len
    by (simp add: flag_set_bits)
  ultimately show ?thesis by (intro exI[of _ ?b]) simp
qed

lemma block_mark_effect:
  assumes "block_wf b" "slot b a = Inr s" "flag (blk_bits b) s ALLOCATED" "\<not> flag (blk_bits b) s MARK"
    and "o' \<le> s" "flag (blk_bits b) o' OBJECT" "\<And>k. o' < k \<Longrightarrow> k \<le> s \<Longrightarrow> \<not> flag (blk_bits b) k OBJECT"
  shows "\<exists>b' wl'. block_mark b a wl = Inr (b', wl') \<and> blk_marked b' \<and> blk_begin b \<in> set wl' \<and>
    set wl \<subseteq> set wl' \<and> blk_begin b' = blk_begin b \<and> blk_end b' = blk_end b \<and>
    same_but_mark (blk_bits b) (blk_bits b') \<and>
    (\<forall>k < slots b. flag (blk_bits b') k MARK \<longleftrightarrow>
       flag (blk_bits b) k MARK \<or> (o' < k \<and> k \<le> s) \<or> in_run (blk_bits b) s k)"
proof -
  have s: "s < slots b" by (rule slot_bound(1)[OF assms(1,2)])
  have len: "k < slots b \<Longrightarrow> k < 2 * length (blk_bits b)" for k
    using block_wf_bits[OF assms(1)] .
  obtain bits1 where b1: "mark_backward (blk_bits b) s = Inr bits1" "same_but_mark (blk_bits b) bits1"
    "\<forall>k < 2 * length (blk_bits b). flag bits1 k MARK \<longleftrightarrow> flag (blk_bits b) k MARK \<or> (o' < k \<and> k \<le> s)"
    using mark_backward_effect[OF len[OF s] assms(5-7)] by blast
  have l1: "length bits1 = length (blk_bits b)" using b1(2) by (simp add: same_but_mark_def)
  have "s + (slots b - s) \<le> 2 * length bits1" using assms(1) s l1 by (simp add: block_wf_def)
  note f = mark_forward_effect[OF this]
  let ?bits = "mark_forward bits1 s (slots b - s)"
  have run: "in_run bits1 s k \<longleftrightarrow> in_run (blk_bits b) s k" if "k < slots b" for k
    using b1(2) len[OF that] by (simp add: in_run_def same_but_mark_def)
  have "same_but_mark (blk_bits b) ?bits"
    using b1(2) f same_but_mark_trans by blast
  moreover have "\<forall>k < slots b. flag ?bits k MARK \<longleftrightarrow>
       flag (blk_bits b) k MARK \<or> (o' < k \<and> k \<le> s) \<or> in_run (blk_bits b) s k"
    using f b1(3) l1 len run s by auto
  ultimately show ?thesis
    using assms(2-4) b1(1) by (auto simp: block_mark_def Let_def)
qed

section \<open>Properties\<close>

text \<open>C29: marking an object through the address of its first slot marks exactly the slots from there up to
  the first unallocated one, puts the block on the work list and changes no other flag.\<close>

theorem block_mark_object_start:
  assumes "block_wf b" "slot b a = Inr s"
    and "flag (blk_bits b) s OBJECT" "flag (blk_bits b) s ALLOCATED" "\<not> flag (blk_bits b) s MARK"
  shows "\<exists>b' wl'. block_mark b a wl = Inr (b', wl') \<and> blk_marked b' \<and> blk_begin b \<in> set wl' \<and>
    same_but_mark (blk_bits b) (blk_bits b') \<and>
    (\<forall>k < slots b. flag (blk_bits b') k MARK \<longleftrightarrow>
       flag (blk_bits b) k MARK \<or> in_run (blk_bits b) s k)"
proof -
  obtain b' wl' where b': "block_mark b a wl = Inr (b', wl')" "blk_marked b'" "blk_begin b \<in> set wl'"
    "same_but_mark (blk_bits b) (blk_bits b')"
    "\<forall>k < slots b. flag (blk_bits b') k MARK \<longleftrightarrow>
       flag (blk_bits b) k MARK \<or> (s < k \<and> k \<le> s) \<or> in_run (blk_bits b) s k"
    using block_mark_effect[OF assms(1,2,4,5) le_refl assms(3), where wl = wl] by auto
  then show ?thesis by (intro exI[of _ b'] exI[of _ wl']) auto
qed

text \<open>C30: an object that is reached only through a pointer into it (past its first slot) loses that first
  slot: marking leaves the slot with the object flag unmarked, and the sweep puts it on
  the free list while the slot pointed to stays allocated; when no other object
  begins before it, marking through the same pointer in the next collection runs off the block.\<close>

theorem interior_pointer_frees_object_start:
  assumes "block_wf b" "slot b a = Inr s" "flag (blk_bits b) s ALLOCATED" "\<not> flag (blk_bits b) s MARK"
    and "o' < s" "flag (blk_bits b) o' OBJECT" "\<not> flag (blk_bits b) o' MARK"
    and "\<forall>k. o' < k \<and> k \<le> s \<longrightarrow> \<not> flag (blk_bits b) k OBJECT"
  shows "\<exists>b' wl' b'' head' n. block_mark b a wl = Inr (b', wl') \<and> sweep_block b' head = (b'', head', n) \<and>
    flag (blk_bits b'') s ALLOCATED \<and> \<not> flag (blk_bits b'') o' ALLOCATED \<and>
    (\<exists>c \<in> set head'. covers c (blk_begin b + o' * SLOT_SIZE)) \<and>
    ((\<forall>k < o'. \<not> flag (blk_bits b) k OBJECT) \<longrightarrow> block_mark b'' a [] = Inl Undefined_behaviour)"
proof -
  obtain b' wl' where b': "block_mark b a wl = Inr (b', wl')"
    "blk_begin b' = blk_begin b" "blk_end b' = blk_end b" "same_but_mark (blk_bits b) (blk_bits b')"
    "\<forall>k < slots b. flag (blk_bits b') k MARK \<longleftrightarrow>
       flag (blk_bits b) k MARK \<or> (o' < k \<and> k \<le> s) \<or> in_run (blk_bits b) s k"
    using block_mark_effect[OF assms(1-4) less_imp_le[OF assms(5)] assms(6), where wl = wl] assms(8) by blast
  have sl: "slots b' = slots b" using b'(2,3) by (simp add: slots_def)
  have len: "length (blk_bits b') = length (blk_bits b)" using b'(4) by (simp add: same_but_mark_def)
  have wf: "block_wf b'" using assms(1) unfolding block_wf_def sl b'(2,3) len .
  obtain b'' head' n where sw: "sweep_block b' head = (b'', head', n)"
    by (metis prod_cases3)
  note e = sweep_block_effect[OF wf sw]
  have s: "s < slots b'" using slot_bound(1)[OF assms(1,2)] sl by simp
  then have o': "o' < slots b'" using assms(5) by simp
  have mo: "\<not> flag (blk_bits b') o' MARK"
    using b'(5) o' sl assms(5,7) by (auto simp: in_run_def)
  have ms: "flag (blk_bits b') s MARK" "flag (blk_bits b') s ALLOCATED"
    using b'(4,5) s sl assms(3,5) block_wf_bits[OF assms(1)] by (auto simp: same_but_mark_def)
  have "flag (blk_bits b'') s ALLOCATED" "\<not> flag (blk_bits b'') o' ALLOCATED"
    using e(5)[OF s] e(5)[OF o'] mo ms by (simp_all add: swept_flags_def)
  moreover have "\<exists>c \<in> set head'. covers c (blk_begin b + o' * SLOT_SIZE)"
    using e(7) mo o' b'(2) by (auto simp: free_chunks_def)
  moreover have "block_mark b'' a [] = Inl Undefined_behaviour" if none: "\<forall>k < o'. \<not> flag (blk_bits b) k OBJECT"
  proof -
    have len: "length (blk_bits b'') = length (blk_bits b)" using e(4) b'(4) by (simp add: same_but_mark_def)
    have "\<not> flag (blk_bits b'') k OBJECT" if k: "k \<le> s" for k
    proof -
      have ks: "k < slots b'" "k < slots b" using k s sl by simp_all
      have o: "flag (blk_bits b'') k OBJECT \<longleftrightarrow> flag (blk_bits b') k MARK \<and> flag (blk_bits b') k OBJECT"
        using e(5)[OF ks(1)] by (simp add: swept_flags_def)
      have "flag (blk_bits b') k OBJECT \<longleftrightarrow> flag (blk_bits b) k OBJECT"
        using b'(4) block_wf_bits[OF assms(1) ks(2)] by (simp add: same_but_mark_def)
      then show ?thesis using o mo none assms(8) k by (metis linorder_neqE_nat)
    qed
    then have "mark_backward (blk_bits b'') s = Inl Undefined_behaviour"
      using mark_backward_no_object block_wf_bits[OF assms(1)] s sl len by simp
    moreover have "\<not> flag (blk_bits b'') s MARK" using e(5)[OF s] by (simp add: swept_flags_def)
    moreover have "slot b'' a = Inr s" using assms(2) unfolding slot_def e(1,2) b'(2,3) .
    ultimately show ?thesis
      using \<open>flag (blk_bits b'') s ALLOCATED\<close> by (simp add: block_mark_def Let_def)
  qed
  ultimately show ?thesis using b'(1) sw by blast
qed

text \<open>A block of two slots at address 4096 with one object over both.\<close>

definition sample_block :: block where
  "sample_block = \<lparr>blk_begin = 4096, blk_end = 4128, blk_marked = False, blk_bits = [0x23]\<rparr>"

lemma sample_block_facts:
  "block_wf sample_block" "slot sample_block 4096 = Inr 0" "slot sample_block 4120 = Inr 1"
  "flag (blk_bits sample_block) 0 OBJECT" "flag (blk_bits sample_block) 0 ALLOCATED"
  "\<not> flag (blk_bits sample_block) 0 MARK" "\<not> flag (blk_bits sample_block) 1 OBJECT"
  "flag (blk_bits sample_block) 1 ALLOCATED" "\<not> flag (blk_bits sample_block) 1 MARK"
  by (simp_all add: sample_block_def block_wf_def slots_def SLOT_SIZE_def slot_def flag_def
      get_bits_def status_defs)

theorem block_mark_object_start_witness:
  "\<exists>b' wl'. block_mark sample_block 4096 [] = Inr (b', wl') \<and> blk_marked b'"
  using block_mark_object_start[OF sample_block_facts(1,2,4,5,6), of "[]"] by blast

theorem interior_pointer_frees_object_start_witness:
  "\<exists>b' wl' b'' head' n. block_mark sample_block 4120 [] = Inr (b', wl') \<and>
     sweep_block b' [] = (b'', head', n) \<and> \<not> flag (blk_bits b'') 0 ALLOCATED"
  using interior_pointer_frees_object_start[OF sample_block_facts(1,3,8,9) zero_less_one
      sample_block_facts(4,6), of "[]" "[]"] sample_block_facts(7)
  by (metis One_nat_def le_antisym Suc_leI)

text \<open>C17: sweeping a block keeps exactly the marked slots allocated and returns their number; the chunks put in front of the
  free list are disjoint stretches of whole slots that cover exactly the unmarked slots.\<close>

theorem sweep_block_correct:
  assumes "block_wf b" "sweep_block b head = (b', head', n)"
  shows "(\<forall>k < slots b. swept_flags (blk_bits b) (blk_bits b') k) \<and>
    n = marked_slots (blk_bits b) 0 (slots b) \<and>
    (\<exists>cs. head' = cs @ head \<and> free_chunks (blk_begin b) (blk_bits b) 0 (slots b) cs)"
  using sweep_block_effect[OF assms] by blast

theorem sweep_block_correct_witness:
  "\<exists>b' head' n. sweep_block sample_block [] = (b', head', n) \<and>
     n = marked_slots (blk_bits sample_block) 0 (slots sample_block)"
proof -
  obtain b' head' n where s: "sweep_block sample_block [] = (b', head', n)" by (metis prod_cases3)
  with sweep_block_correct[OF sample_block_facts(1) s] show ?thesis by blast
qed

end
