(* ===== verification/HeapTree.thy ===== *)
theory HeapTree
  imports HeapBlock "HOL-Library.Multiset"
begin

text \<open>
  What the tree of blocks promises (Block::insert, find, remove_right_most, sweep and
  merge of heap.cpp): the blocks in address order, found by any address inside them.
  The contract the heap relies on is the locale \<open>region_store\<close>; the tree is its provider.
\<close>

section \<open>Well-formed trees\<close>

definition in_block :: "block \<Rightarrow> nat \<Rightarrow> bool" where
  "in_block b a \<longleftrightarrow> blk_begin b \<le> a \<and> a < blk_end b"

definition apart :: "block \<Rightarrow> block \<Rightarrow> bool" where
  "apart b c \<longleftrightarrow> blk_end b \<le> blk_begin c \<or> blk_end c \<le> blk_begin b"

definition tree_wf :: "btree \<Rightarrow> bool" where
  "tree_wf t \<longleftrightarrow> sorted_wrt (\<lambda>b c. blk_end b \<le> blk_begin c) (blocks t) \<and>
     (\<forall>b \<in> set (blocks t). block_wf b)"

lemma tree_wf_Leaf [simp]: "tree_wf Leaf"
  by (simp add: tree_wf_def)

lemma tree_wf_Node:
  "tree_wf (Node l b r) \<longleftrightarrow> tree_wf l \<and> tree_wf r \<and> block_wf b \<and>
     (\<forall>x \<in> set (blocks l). blk_end x \<le> blk_begin b) \<and>
     (\<forall>y \<in> set (blocks r). blk_end b \<le> blk_begin y) \<and>
     (\<forall>x \<in> set (blocks l). \<forall>y \<in> set (blocks r). blk_end x \<le> blk_begin y)"
  by (auto simp: tree_wf_def sorted_wrt_append)

lemma block_wf_less: "block_wf b \<Longrightarrow> blk_begin b < blk_end b"
  unfolding block_wf_def by blast

lemma tree_wf_block: "tree_wf t \<Longrightarrow> b \<in> set (blocks t) \<Longrightarrow> block_wf b"
  by (simp add: tree_wf_def)

section \<open>Finding a block\<close>

lemma tree_find_Some:
  "tree_wf t \<Longrightarrow> tree_find t a = Some b \<longleftrightarrow> b \<in> set (blocks t) \<and> in_block b a"
proof (induction t)
  case (Node l c r)
  have wf: "tree_wf l" "tree_wf r" "\<And>x. x \<in> set (blocks l) \<Longrightarrow> blk_end x \<le> blk_begin c"
    "\<And>y. y \<in> set (blocks r) \<Longrightarrow> blk_end c \<le> blk_begin y" "blk_begin c < blk_end c"
    using Node.prems block_wf_less by (auto simp: tree_wf_Node)
  consider "in_block c a" | "a < blk_begin c" | "blk_end c \<le> a"
    unfolding in_block_def by linarith
  then show ?case
  proof cases
    case 1
    then have "\<not> in_block x a" if "x \<in> set (blocks l) \<union> set (blocks r)" for x
      using that wf(3,4)[of x] by (auto simp: in_block_def)
    with 1 show ?thesis by (auto simp: in_block_def)
  next
    case 2
    then have "\<not> in_block x a" if "x \<in> insert c (set (blocks r))" for x
      using that wf(4)[of x] wf(5) by (auto simp: in_block_def)
    moreover have "tree_find (Node l c r) a = tree_find l a" using 2 by simp
    ultimately show ?thesis using Node.IH(1)[OF wf(1)] by auto
  next
    case 3
    then have "\<not> in_block x a" if "x \<in> insert c (set (blocks l))" for x
      using that wf(3)[of x] wf(5) by (auto simp: in_block_def)
    moreover have "tree_find (Node l c r) a = tree_find r a" using 3 wf(5) by simp
    ultimately show ?thesis using Node.IH(2)[OF wf(2)] by auto
  qed
qed simp

lemma tree_find_None:
  "tree_wf t \<Longrightarrow> tree_find t a = None \<longleftrightarrow> (\<forall>b \<in> set (blocks t). \<not> in_block b a)"
  using tree_find_Some[of t a] by (metis option.exhaust option.distinct(1))

lemma tree_find_begin:
  "tree_wf t \<Longrightarrow> b \<in> set (blocks t) \<Longrightarrow> tree_find t (blk_begin b) = Some b"
  using tree_find_Some[of t "blk_begin b" b] tree_wf_block[of t b] block_wf_less[of b]
  by (simp add: in_block_def)

section \<open>Inserting\<close>

lemma tree_insert_mset [simp]: "mset (blocks (tree_insert t b)) = add_mset b (mset (blocks t))"
  by (induction t) auto

lemma tree_insert_set [simp]: "set (blocks (tree_insert t b)) = insert b (set (blocks t))"
  by (induction t) auto

lemma tree_insert_wf:
  "tree_wf t \<Longrightarrow> block_wf b \<Longrightarrow> (\<And>c. c \<in> set (blocks t) \<Longrightarrow> apart b c) \<Longrightarrow> tree_wf (tree_insert t b)"
proof (induction t)
  case Leaf
  then show ?case by (simp add: tree_wf_def)
next
  case (Node l c r)
  have ap: "apart b c" "blk_begin b < blk_end b" "blk_begin c < blk_end c"
    using Node.prems block_wf_less by (auto simp: tree_wf_Node)
  have wl: "tree_wf (tree_insert l b)" and wr: "tree_wf (tree_insert r b)"
    using Node by (auto simp: tree_wf_Node)
  show ?case
  proof (cases "blk_begin b < blk_begin c")
    case True
    then have "blk_end b \<le> blk_begin c" using ap by (auto simp: apart_def)
    moreover have "blk_end b \<le> blk_begin y" if "y \<in> set (blocks r)" for y
      using calculation Node.prems(1) that ap(3) by (force simp: tree_wf_Node)
    ultimately show ?thesis using True wl Node.prems(1) by (simp add: tree_wf_Node)
  next
    case False
    then have "blk_end c \<le> blk_begin b" using ap by (auto simp: apart_def)
    moreover have "blk_end x \<le> blk_begin b" if "x \<in> set (blocks l)" for x
      using calculation Node.prems(1) that ap(3) by (force simp: tree_wf_Node)
    ultimately show ?thesis using False wr Node.prems(1) by (simp add: tree_wf_Node)
  qed
qed

section \<open>The contract of a store of regions\<close>

locale region_store =
  fixes inv :: "'s \<Rightarrow> bool"
    and contents :: "'s \<Rightarrow> block set"
    and find_region :: "'s \<Rightarrow> nat \<Rightarrow> block option"
    and insert_region :: "'s \<Rightarrow> block \<Rightarrow> 's"
  assumes find_iff: "inv s \<Longrightarrow> find_region s a = Some b \<longleftrightarrow> b \<in> contents s \<and> in_block b a"
    and insert_inv: "inv s \<Longrightarrow> block_wf b \<Longrightarrow> \<forall>c \<in> contents s. apart b c \<Longrightarrow> inv (insert_region s b)"
    and insert_contents: "contents (insert_region s b) = insert b (contents s)"
    and contents_wf: "inv s \<Longrightarrow> b \<in> contents s \<Longrightarrow> block_wf b"
begin

lemma find_inserted:
  assumes "inv s" "block_wf b" "\<forall>c \<in> contents s. apart b c" "in_block b a"
  shows "find_region (insert_region s b) a = Some b"
  using find_iff[OF insert_inv[OF assms(1-3)], of a b] assms(4) by (simp add: insert_contents)

lemma find_other:
  assumes "inv s" "block_wf b" "\<forall>c \<in> contents s. apart b c" "\<not> in_block b a"
  shows "find_region (insert_region s b) a = find_region s a"
proof -
  have "find_region (insert_region s b) a = Some c \<longleftrightarrow> find_region s a = Some c" for c
    using find_iff[OF insert_inv[OF assms(1-3)], of a c] find_iff[OF assms(1), of a c] assms(4)
    by (auto simp: insert_contents)
  then show ?thesis by (metis option.exhaust)
qed

lemma insert_all:
  assumes "inv s" "\<forall>b \<in> set bs. block_wf b" "\<forall>b \<in> set bs. \<forall>c \<in> contents s. apart b c"
    and "sorted_wrt apart bs"
  shows "inv (foldl insert_region s bs) \<and> contents (foldl insert_region s bs) = contents s \<union> set bs"
  using assms
proof (induction bs arbitrary: s)
  case (Cons b bs)
  have "apart b' b" if "b' \<in> set bs" for b'
    using Cons.prems(4) that by (auto simp: apart_def)
  then have "inv (foldl insert_region (insert_region s b) bs) \<and>
      contents (foldl insert_region (insert_region s b) bs) = contents (insert_region s b) \<union> set bs"
    using Cons.prems by (intro Cons.IH insert_inv) (auto simp: insert_contents)
  then show ?case by (auto simp: insert_contents)
qed simp

lemma find_unique:
  assumes "inv s" "b \<in> contents s" "c \<in> contents s" "in_block b a" "in_block c a"
  shows "b = c"
  using find_iff[OF assms(1), of a b] find_iff[OF assms(1), of a c] assms(2-5) by simp

end

interpretation tree_store: region_store tree_wf "\<lambda>t. set (blocks t)" tree_find tree_insert
  by unfold_locales (simp_all add: tree_find_Some tree_insert_wf tree_wf_block)

section \<open>Updating in place\<close>

lemma tree_update_blocks:
  "tree_wf t \<Longrightarrow> tree_find t a = Some b \<Longrightarrow>
     \<exists>xs ys. blocks t = xs @ b # ys \<and> blocks (tree_update t a c) = xs @ c # ys"
proof (induction t)
  case (Node l d r)
  show ?case
  proof (cases "blk_begin d \<le> a \<and> a < blk_end d")
    case True
    then show ?thesis using Node.prems by auto
  next
    case False
    show ?thesis
    proof (cases "a < blk_begin d")
      case True
      have "tree_wf l" "tree_find l a = Some b" using Node.prems False True by (auto simp: tree_wf_Node)
      then obtain xs ys where "blocks l = xs @ b # ys" "blocks (tree_update l a c) = xs @ c # ys"
        using Node.IH(1) by blast
      then show ?thesis using False True by (intro exI[of _ xs] exI[of _ "ys @ d # blocks r"]) simp
    next
      case f: False
      have "tree_wf r" "tree_find r a = Some b" using Node.prems False f by (auto simp: tree_wf_Node)
      then obtain xs ys where "blocks r = xs @ b # ys" "blocks (tree_update r a c) = xs @ c # ys"
        using Node.IH(2) by blast
      then show ?thesis using False f by (intro exI[of _ "blocks l @ d # xs"] exI[of _ ys]) simp
    qed
  qed
qed simp

text \<open>The write goes to the block found, and every other block is found as before.\<close>

lemma tree_update_wf:
  assumes "tree_wf t" "tree_find t a = Some b"
    and "block_wf c" "blk_begin c = blk_begin b" "blk_end c = blk_end b"
  shows "tree_wf (tree_update t a c)"
proof -
  obtain xs ys where "blocks t = xs @ b # ys" "blocks (tree_update t a c) = xs @ c # ys"
    using tree_update_blocks[OF assms(1,2)] by blast
  then show ?thesis using assms by (auto simp: tree_wf_def sorted_wrt_append)
qed

lemma tree_find_update:
  assumes "tree_wf t" "tree_find t a = Some b"
    and "block_wf c" "blk_begin c = blk_begin b" "blk_end c = blk_end b"
  shows "tree_find (tree_update t a c) x = (if in_block b x then Some c else tree_find t x)"
proof -
  obtain xs ys where t: "blocks t = xs @ b # ys" "blocks (tree_update t a c) = xs @ c # ys"
    using tree_update_blocks[OF assms(1,2)] by blast
  note f = tree_find_Some[OF tree_update_wf[OF assms]] and g = tree_find_Some[OF assms(1)]
  have same: "in_block c x \<longleftrightarrow> in_block b x" using assms(4,5) by (simp add: in_block_def)
  show ?thesis
  proof (cases "in_block b x")
    case True
    then show ?thesis using f[of x c] t(2) same by simp
  next
    case False
    then have "tree_find (tree_update t a c) x = Some d \<longleftrightarrow> tree_find t x = Some d" for d
      using f[of x d] g[of x d] t same by auto
    then show ?thesis using False by (metis option.exhaust)
  qed
qed

section \<open>Removing and sweeping\<close>

lemma remove_right_most_blocks:
  "t \<noteq> Leaf \<Longrightarrow> \<exists>x t'. remove_right_most t = Inr (x, t') \<and> blocks t = blocks t' @ [x]"
  by (induction t rule: remove_right_most.induct) (force split: prod.splits)+

lemma drop_root_blocks: "\<exists>t. drop_root l r = Inr t \<and> blocks t = blocks l @ blocks r"
  using remove_right_most_blocks[of l] by (cases "(l, r)" rule: drop_root.cases) auto

lemma sweep_slots_head:
  "sweep_slots start m bits s (h1 @ h2) r =
     (let (bits', h, n) = sweep_slots start m bits s h1 r in (bits', h @ h2, n))"
proof (induction start m bits s h1 r rule: sweep_slots.induct)
  case (1 start m bits s h1 r)
  show ?case
  proof (cases "m \<le> s")
    case True
    then show ?thesis by (simp add: sweep_slots.simps[of start m])
  next
    case False
    show ?thesis
    proof (cases "flag bits s MARK")
      case True
      with False show ?thesis using 1(1) by (simp add: sweep_slots.simps[of start m bits s])
    next
      case n: False
      obtain bits' s' where c: "clear_run bits s (m - s) = (bits', s')" by (metis surj_pair)
      show ?thesis using 1(2)[OF False n c[symmetric] refl] False n c
        by (simp add: sweep_slots.simps[of start m bits s])
    qed
  qed
qed

definition swept :: "block \<Rightarrow> block" where
  "swept b = fst (sweep_block b [])"

definition sweep_chunks :: "block \<Rightarrow> chunk list" where
  "sweep_chunks b = fst (snd (sweep_block b []))"

lemma sweep_block_parts:
  assumes "block_wf b"
  shows "sweep_block b head = (swept b, sweep_chunks b @ head, marked_slots (blk_bits b) 0 (slots b))"
proof -
  obtain b' h n where s: "sweep_block b [] = (b', h, n)" by (metis prod_cases3)
  have "n = marked_slots (blk_bits b) 0 (slots b)" by (rule sweep_block_effect(6)[OF assms s])
  moreover have "sweep_block b head = (b', h @ head, n)"
    using s sweep_slots_head[of "blk_begin b" "slots b" "blk_bits b" 0 "[]" head 0]
    by (auto simp: sweep_block_def Let_def split: prod.splits)
  ultimately show ?thesis using s by (simp add: swept_def sweep_chunks_def)
qed

lemma swept_effect:
  assumes "block_wf b"
  shows "blk_begin (swept b) = blk_begin b" "blk_end (swept b) = blk_end b" "\<not> blk_marked (swept b)"
    "block_wf (swept b)" "slots (swept b) = slots b"
    "\<And>k. k < slots b \<Longrightarrow> swept_flags (blk_bits b) (blk_bits (swept b)) k"
    "free_chunks (blk_begin b) (blk_bits b) 0 (slots b) (sweep_chunks b)"
proof -
  have "sweep_block b [] = (swept b, sweep_chunks b, marked_slots (blk_bits b) 0 (slots b))"
    using sweep_block_parts[OF assms, of "[]"] by simp
  note e = sweep_block_effect[OF assms this]
  show "blk_begin (swept b) = blk_begin b" "blk_end (swept b) = blk_end b" "\<not> blk_marked (swept b)"
    "\<And>k. k < slots b \<Longrightarrow> swept_flags (blk_bits b) (blk_bits (swept b)) k"
    "free_chunks (blk_begin b) (blk_bits b) 0 (slots b) (sweep_chunks b)"
    using e by simp_all
  show sl: "slots (swept b) = slots b" using e(1,2) by (simp add: slots_def)
  show "block_wf (swept b)" using assms unfolding block_wf_def sl e(1,2,4) .
qed

text \<open>The chunks of the whole tree, in the order the recursion leaves them on the free list.\<close>

fun tree_chunks :: "btree \<Rightarrow> chunk list" where
  "tree_chunks Leaf = []"
| "tree_chunks (Node l b r) = (if blk_marked b then sweep_chunks b else []) @ tree_chunks r @ tree_chunks l"

definition total_marked :: "btree \<Rightarrow> nat" where
  "total_marked t = (\<Sum>b \<leftarrow> filter blk_marked (blocks t). marked_slots (blk_bits b) 0 (slots b))"

text \<open>
  Sweeping a tree never fails; it keeps the marked blocks in order, swept, drops the
  others, and counts the marked slots.
\<close>

lemma tree_sweep_effect:
  assumes "tree_wf t"
  shows "\<exists>t'. tree_sweep t head = Inr (total_marked t, t', tree_chunks t @ head) \<and>
    blocks t' = map swept (filter blk_marked (blocks t))"
  using assms
proof (induction t arbitrary: head)
  case (Node l b r)
  have wf: "tree_wf l" "tree_wf r" "block_wf b" using Node.prems by (simp_all add: tree_wf_Node)
  obtain l' where l: "tree_sweep l head = Inr (total_marked l, l', tree_chunks l @ head)"
    "blocks l' = map swept (filter blk_marked (blocks l))" using Node.IH(1)[OF wf(1)] by blast
  obtain r' where r: "tree_sweep r (tree_chunks l @ head) = Inr (total_marked r, r', tree_chunks r @ tree_chunks l @ head)"
    "blocks r' = map swept (filter blk_marked (blocks r))" using Node.IH(2)[OF wf(2)] by blast
  obtain d where d: "drop_root l' r' = Inr d" "blocks d = blocks l' @ blocks r'"
    using drop_root_blocks by blast
  show ?case
    using l r d sweep_block_parts[OF wf(3)] by (auto simp: total_marked_def)
qed (simp add: total_marked_def)

definition chunk_apart :: "chunk \<Rightarrow> chunk \<Rightarrow> bool" where
  "chunk_apart c d \<longleftrightarrow> fst c + snd c \<le> fst d \<or> fst d + snd d \<le> fst c"

lemma chunk_apart_covers: "chunk_apart c d \<Longrightarrow> covers c a \<Longrightarrow> \<not> covers d a"
  by (auto simp: chunk_apart_def covers_def)

lemma chunk_of_inside:
  assumes "block_wf b" "chunk_of (blk_begin b) 0 (slots b) c"
  shows "blk_begin b \<le> fst c" "fst c + snd c \<le> blk_end b" "0 < snd c"
proof -
  obtain i j where c: "i < j" "j \<le> slots b" "c = (blk_begin b + i * SLOT_SIZE, (j - i) * SLOT_SIZE)"
    using assms(2) by (auto simp: chunk_of_def)
  have "i * SLOT_SIZE + (j - i) * SLOT_SIZE = j * SLOT_SIZE"
    using c(1) by (simp flip: add_mult_distrib)
  moreover have "j * SLOT_SIZE \<le> slots b * SLOT_SIZE" using c(2) by simp
  moreover have "blk_end b = blk_begin b + slots b * SLOT_SIZE" using assms(1) unfolding block_wf_def by blast
  ultimately show "blk_begin b \<le> fst c" "fst c + snd c \<le> blk_end b" "0 < snd c"
    using c by (simp_all add: SLOT_SIZE_def)
qed

lemma sweep_chunks_of:
  assumes "block_wf b"
  shows "c \<in> set (sweep_chunks b) \<Longrightarrow> chunk_of (blk_begin b) 0 (slots b) c"
    "sorted_wrt chunk_apart (sweep_chunks b)"
proof -
  have f: "free_chunks (blk_begin b) (blk_bits b) 0 (slots b) (sweep_chunks b)"
    by (rule swept_effect(7)[OF assms])
  then show "c \<in> set (sweep_chunks b) \<Longrightarrow> chunk_of (blk_begin b) 0 (slots b) c"
    by (simp add: free_chunks_def)
  have "sorted_wrt (\<lambda>c d. fst d + snd d \<le> fst c) (sweep_chunks b)"
    using f by (simp add: free_chunks_def)
  then show "sorted_wrt chunk_apart (sweep_chunks b)"
    by (rule sorted_wrt_mono_rel[rotated]) (simp add: chunk_apart_def)
qed

lemma tree_chunks_in:
  assumes "c \<in> set (tree_chunks t)"
  shows "\<exists>b \<in> set (blocks t). blk_marked b \<and> c \<in> set (sweep_chunks b)"
  using assms by (induction t) (auto split: if_splits)

lemma tree_chunks_apart:
  assumes "tree_wf t"
  shows "sorted_wrt chunk_apart (tree_chunks t)"
  using assms
proof (induction t)
  case (Node l b r)
  have wf: "tree_wf l" "tree_wf r" "block_wf b"
    "\<And>x. x \<in> set (blocks l) \<Longrightarrow> blk_end x \<le> blk_begin b"
    "\<And>y. y \<in> set (blocks r) \<Longrightarrow> blk_end b \<le> blk_begin y"
    "\<And>x y. x \<in> set (blocks l) \<Longrightarrow> y \<in> set (blocks r) \<Longrightarrow> blk_end x \<le> blk_begin y"
    using Node.prems by (auto simp: tree_wf_Node)
  have inside: "blk_begin x \<le> fst c \<and> fst c + snd c \<le> blk_end x"
    if "block_wf x" "c \<in> set (sweep_chunks x)" for x c
    using chunk_of_inside[OF that(1) sweep_chunks_of(1)[OF that]] by simp
  have in_l: "\<exists>x \<in> set (blocks l). blk_begin x \<le> fst c \<and> fst c + snd c \<le> blk_end x"
    if "c \<in> set (tree_chunks l)" for c
    using tree_chunks_in[OF that] inside tree_wf_block[OF wf(1)] by blast
  have in_r: "\<exists>x \<in> set (blocks r). blk_begin x \<le> fst c \<and> fst c + snd c \<le> blk_end x"
    if "c \<in> set (tree_chunks r)" for c
    using tree_chunks_in[OF that] inside tree_wf_block[OF wf(2)] by blast
  have "chunk_apart c d" if "c \<in> set (sweep_chunks b)" "d \<in> set (tree_chunks l) \<union> set (tree_chunks r)" for c d
    using that(2) inside[OF wf(3) that(1)] in_l[of d] in_r[of d] wf(4,5)
    by (auto simp: chunk_apart_def) (meson le_trans)+
  moreover have "chunk_apart c d" if "c \<in> set (tree_chunks r)" "d \<in> set (tree_chunks l)" for c d
    using in_r[OF that(1)] in_l[OF that(2)] wf(6) unfolding chunk_apart_def by (meson le_trans)
  ultimately show ?case
    using Node.IH wf(1-3) sweep_chunks_of(2) by (auto simp: sorted_wrt_append)
qed simp

section \<open>Merging two trees\<close>

lemma tree_merge_mset: "mset (blocks (tree_merge t u)) = mset (blocks t) + mset (blocks u)"
  by (induction t u rule: tree_merge.induct) auto

lemma tree_merge_set [simp]: "set (blocks (tree_merge t u)) = set (blocks t) \<union> set (blocks u)"
  by (induction t u rule: tree_merge.induct) auto

lemma tree_store_merge:
  assumes "tree_wf t" "tree_wf u" "\<forall>b \<in> set (blocks t). \<forall>c \<in> set (blocks u). apart b c"
  shows "tree_wf (tree_merge t u) \<and>
    tree_find (tree_merge t u) a = (case tree_find t a of Some b \<Rightarrow> Some b | None \<Rightarrow> tree_find u a)"
proof -
  have wf: "tree_wf (tree_merge t u)"
    using assms
  proof (induction t u rule: tree_merge.induct)
    case (2 t l b r)
    have w: "tree_wf l" "tree_wf r" "block_wf b" using "2.prems"(2) by (simp_all add: tree_wf_Node)
    have lb: "apart b c" if "c \<in> set (blocks l) \<union> set (blocks r)" for c
      using that "2.prems"(2) by (auto simp: tree_wf_Node apart_def)
    have tl: "tree_wf (tree_merge t l)" by (rule "2.IH"(1)) (use "2.prems" w in auto)
    have "tree_wf (tree_merge (tree_merge t l) r)"
      by (rule "2.IH"(2)[OF tl w(2)]) (use "2.prems" in \<open>auto simp: tree_wf_Node apart_def\<close>)
    moreover have "apart b c" if "c \<in> set (blocks t)" for c
      using that "2.prems"(3) by (auto simp: apart_def)
    ultimately show ?case using w(3) lb by (auto intro!: tree_insert_wf)
  qed simp
  have "tree_find (tree_merge t u) a = Some b \<longleftrightarrow>
      tree_find t a = Some b \<or> (tree_find t a = None \<and> tree_find u a = Some b)" for b
    using tree_find_Some[OF wf, of a b] tree_find_Some[OF assms(1), of a b]
      tree_find_Some[OF assms(2), of a b] tree_find_None[OF assms(1), of a] assms(3)
    by (fastforce simp: in_block_def apart_def)
  then show ?thesis using wf by (auto split: option.splits) (metis not_Some_eq)
qed

text \<open>C18: merging the block trees of two heaps over disjoint memory gives a well-formed tree that finds every
  address in the block where one of the two trees found it, and no other.\<close>

theorem tree_merge_finds:
  assumes "tree_wf t" "tree_wf u" "\<forall>b \<in> set (blocks t). \<forall>c \<in> set (blocks u). apart b c"
  shows "tree_wf (tree_merge t u) \<and>
    tree_find (tree_merge t u) a = (case tree_find t a of Some b \<Rightarrow> Some b | None \<Rightarrow> tree_find u a)"
  using assms by (rule tree_store_merge)

theorem tree_merge_finds_witness:
  "tree_find (tree_merge (Node Leaf (make_block 64 16) Leaf) (Node Leaf (make_block 0 32) Leaf)) 17 =
     Some (make_block 0 32)"
proof -
  have m: "blk_begin (make_block 64 16) = 64" "blk_end (make_block 64 16) = 80"
    "blk_begin (make_block 0 32) = 0" "blk_end (make_block 0 32) = 32"
    by (simp_all add: make_block_def SLOT_SIZE_def round_up_def)
  have w: "tree_wf (Node Leaf (make_block 64 16) Leaf)" "tree_wf (Node Leaf (make_block 0 32) Leaf)"
    by (simp_all add: tree_wf_Node make_block_wf)
  show ?thesis
    using tree_merge_finds[OF w, of 17] m by (simp add: apart_def)
qed

end
