(* ===== verification/HeapAlloc.thy ===== *)
theory HeapAlloc
  imports HeapTree
begin

text \<open>
  The heap proper (struct Heap of heap.hpp and heap.cpp): its state, its
  constructors and Heap::allocate.  Memory is a function from addresses to
  bytes.  The free list is a list of chunks, first chunk first; the code threads it through the
  free memory, as a header (struct Chunk: the next pointer, then the size) at the start of every
  chunk, and allocate writes these headers here as it does there.  Sizes are those of size_t: rounding
  up, doubling and the sum of the allocated sizes wrap around.
\<close>

section \<open>State\<close>

record heap_state =
  h_self :: nat
  h_block :: btree
  h_free :: "chunk list"
  h_allocated :: nat
  h_next_block :: nat
  h_next_collection :: nat
  h_begin :: nat
  h_end :: nat
  h_parent :: "nat option"
  h_reachable :: bool

text \<open>A heap with the list of its child heaps (child_ and the next_ links).\<close>

datatype heap = Heap (hs: heap_state) (kids: "heap list")

type_synonym memory = "nat \<Rightarrow> 8 word"

text \<open>Heap::Heap (void*, size_t): a root outside the heap.\<close>

definition make_external_heap :: "nat \<Rightarrow> nat \<Rightarrow> nat \<Rightarrow> heap_state" where
  "make_external_heap self b sz =
     \<lparr>h_self = self, h_block = Leaf, h_free = [], h_allocated = 0, h_next_block = 0,
      h_next_collection = 0, h_begin = b, h_end = b + sz, h_parent = None, h_reachable = False\<rparr>"

section \<open>Memory\<close>

text \<open>A pointer or size in memory: eight bytes, least significant first.\<close>

definition read_pointer_at :: "memory \<Rightarrow> nat \<Rightarrow> nat" where
  "read_pointer_at mem a = unat (le_word (map mem [a..<a + 8]))"

definition put_word :: "memory \<Rightarrow> nat \<Rightarrow> nat \<Rightarrow> memory" where
  "put_word mem a v = (\<lambda>x. if a \<le> x \<and> x < a + 8 then le_bytes 8 (of_nat v) ! (x - a) else mem x)"

definition clear_memory :: "memory \<Rightarrow> nat \<Rightarrow> nat \<Rightarrow> memory" where
  "clear_memory mem p sz = (\<lambda>a. if p \<le> a \<and> a < p + sz then 0 else mem a)"

text \<open>The two assignments to the header of a chunk.\<close>

definition put_chunk :: "chunk \<Rightarrow> nat \<Rightarrow> memory \<Rightarrow> memory" where
  "put_chunk c next mem = put_word (put_word mem (fst c + 8) (snd c)) (fst c) next"

text \<open>The address of the first chunk of a list, or NULL.\<close>

definition head_of :: "chunk list \<Rightarrow> nat" where
  "head_of cs = (case cs of [] \<Rightarrow> 0 | c # _ \<Rightarrow> fst c)"

text \<open>
  An assignment through the pointer to a link with which the search walks the list: after the chunks
  \<open>passed\<close> it points to the next field of the last of them, at first to the head of the list.
\<close>

definition set_link :: "chunk list \<Rightarrow> nat \<Rightarrow> memory \<Rightarrow> memory" where
  "set_link passed p mem = (case passed of [] \<Rightarrow> mem | _ \<Rightarrow> put_word mem (fst (last passed)) p)"

text \<open>A list is the one threaded through the memory.\<close>

fun threaded :: "memory \<Rightarrow> chunk list \<Rightarrow> bool" where
  "threaded mem [] = True"
| "threaded mem (c # cs) =
     (read_pointer_at mem (fst c) = head_of cs \<and> read_pointer_at mem (fst c + 8) = snd c \<and>
      threaded mem cs)"

section \<open>Allocation\<close>

text \<open>
  The search for a chunk: the chunks passed because they are too small, the first one that is large
  enough and the chunks after it.
\<close>

fun take_chunk :: "nat \<Rightarrow> chunk list \<Rightarrow> (chunk list \<times> chunk \<times> chunk list) option" where
  "take_chunk sz [] = None"
| "take_chunk sz (c # cs) =
     (if snd c < sz then map_option (\<lambda>(passed, d, ds). (c # passed, d, ds)) (take_chunk sz cs)
      else Some ([], c, cs))"

text \<open>Split a chunk that was removed and put the rest, if any, in front of the list.\<close>

definition split_chunk :: "chunk \<Rightarrow> nat \<Rightarrow> chunk list \<Rightarrow> memory \<Rightarrow> chunk list \<times> memory" where
  "split_chunk c sz cs mem =
     (if 0 < snd c - sz then
        let d = (fst c + sz, snd c - sz) in (d # cs, put_chunk d (head_of cs) mem)
      else (cs, mem))"

text \<open>
  Remove the chunk \<open>c\<close> from the list \<open>passed @ c # rest\<close> and take its front, which lies in \<open>block\<close>
  (NULL when no block was found): the second half of Heap::allocate.
\<close>

definition claim_chunk ::
  "heap_state \<Rightarrow> memory \<Rightarrow> chunk list \<Rightarrow> chunk \<Rightarrow> chunk list \<Rightarrow> nat \<Rightarrow> block option \<Rightarrow>
     (nat option \<times> heap_state \<times> memory) outcome"
where
  "claim_chunk s mem passed c rest sz block =
     (let mem = set_link passed (head_of rest) mem;
          (cs, mem) = split_chunk c sz (passed @ rest) mem
      in case block of
           None \<Rightarrow> Inl Undefined_behaviour
         | Some b \<Rightarrow> obind (block_allocate b (fst c) sz) (\<lambda>b'.
             Inr (Some (fst c),
                  s\<lparr>h_block := tree_update (h_block s) (fst c) b', h_free := cs,
                    h_allocated := (h_allocated s + sz) mod 2 ^ 64\<rparr>,
                  clear_memory mem (fst c) sz)))"

text \<open>
  Heap::allocate; \<open>addr\<close> is where operator new would put the storage of a new block, which
  Block::make clears and which becomes a chunk at the end of the list.
\<close>

definition heap_allocate ::
  "heap_state \<Rightarrow> memory \<Rightarrow> nat \<Rightarrow> nat \<Rightarrow> (nat option \<times> heap_state \<times> memory) outcome"
where
  "heap_allocate s mem addr sz =
     (if sz = 0 then Inr (None, s, mem)
      else
        let sz = round_up sz SLOT_SIZE mod 2 ^ 64 in
        case take_chunk sz (h_free s) of
          Some (passed, c, rest) \<Rightarrow>
            claim_chunk s mem passed c rest sz (tree_find (h_block s) (fst c))
        | None \<Rightarrow>
            let n = (if h_next_block s < sz then sz else h_next_block s);
                block = make_block addr n;
                mem = clear_memory mem addr (round_up n SLOT_SIZE);
                mem = set_link (h_free s) addr mem;
                mem = put_chunk (addr, n) 0 mem
            in claim_chunk
                 (s\<lparr>h_block := tree_insert (h_block s) block, h_next_block := n * 2 mod 2 ^ 64\<rparr>)
                 mem (h_free s) (addr, n) [] sz (Some block))"

text \<open>Heap::Heap (size_t): the root is allocated in the heap itself.\<close>

definition make_heap :: "nat \<Rightarrow> memory \<Rightarrow> nat \<Rightarrow> nat \<Rightarrow> (heap_state \<times> memory) outcome" where
  "make_heap self mem addr root_size =
     obind (heap_allocate (make_external_heap self 0 0) mem addr root_size) (\<lambda>(p, s, mem').
       let p = (case p of None \<Rightarrow> 0 | Some p \<Rightarrow> p) in
       Inr (s\<lparr>h_begin := p, h_end := p + root_size\<rparr>, mem'))"

text \<open>Heap::contains, is_object and is_allocated.\<close>

definition heap_contains :: "heap_state \<Rightarrow> nat \<Rightarrow> bool" where
  "heap_contains s p \<longleftrightarrow> tree_find (h_block s) p \<noteq> None"

definition heap_is_object :: "heap_state \<Rightarrow> nat \<Rightarrow> bool outcome" where
  "heap_is_object s p =
     (case tree_find (h_block s) p of None \<Rightarrow> Inr False | Some b \<Rightarrow> block_is_object b p)"

definition heap_is_allocated :: "heap_state \<Rightarrow> nat \<Rightarrow> bool outcome" where
  "heap_is_allocated s p =
     (case tree_find (h_block s) p of None \<Rightarrow> Inr False | Some b \<Rightarrow> block_is_allocated b p)"

section \<open>Flags by address\<close>

definition flag_at :: "btree \<Rightarrow> nat \<Rightarrow> 8 word \<Rightarrow> bool" where
  "flag_at t a m =
     (case tree_find t a of None \<Rightarrow> False
      | Some b \<Rightarrow> flag (blk_bits b) ((a - blk_begin b) div SLOT_SIZE) m)"

lemma slot_in_block:
  "tree_find t p = Some b \<Longrightarrow> slot b p = Inr ((p - blk_begin b) div SLOT_SIZE)"
  by (induction t) (auto simp: slot_def split: if_splits)

text \<open>The two queries never fail, and answer by the flags of the slot of the address.\<close>

lemma heap_queries:
  "heap_is_object s p = Inr (flag_at (h_block s) p OBJECT)"
  "heap_is_allocated s p = Inr (flag_at (h_block s) p ALLOCATED)"
  using slot_in_block[of "h_block s" p]
  by (auto simp: heap_is_object_def heap_is_allocated_def flag_at_def block_is_object_def
      block_is_allocated_def split: option.splits)

lemma slot_range:
  assumes "B \<le> (a :: nat)"
  shows "i \<le> (a - B) div SLOT_SIZE \<longleftrightarrow> B + i * SLOT_SIZE \<le> a"
    "(a - B) div SLOT_SIZE < j \<longleftrightarrow> a < B + j * SLOT_SIZE"
proof -
  have s: "0 < SLOT_SIZE" by (simp add: SLOT_SIZE_def)
  show "i \<le> (a - B) div SLOT_SIZE \<longleftrightarrow> B + i * SLOT_SIZE \<le> a"
    using assms s by (auto simp: less_eq_div_iff_mult_less_eq)
  show "(a - B) div SLOT_SIZE < j \<longleftrightarrow> a < B + j * SLOT_SIZE"
    using assms s by (auto simp: div_less_iff_less_mult)
qed

lemma in_block_slot:
  "block_wf b \<Longrightarrow> in_block b a \<Longrightarrow> (a - blk_begin b) div SLOT_SIZE < slots b"
  using slot_range(2)[of "blk_begin b" a "slots b"] by (auto simp: in_block_def block_wf_def)

section \<open>The invariant of the free list\<close>

text \<open>Chunks do not overlap; each is a stretch of unallocated slots of a block of the heap.\<close>

definition chunk_free :: "btree \<Rightarrow> chunk \<Rightarrow> bool" where
  "chunk_free t c \<longleftrightarrow> (\<exists>b \<in> set (blocks t). \<exists>i j. i < j \<and> j \<le> slots b \<and>
     c = (blk_begin b + i * SLOT_SIZE, (j - i) * SLOT_SIZE) \<and>
     (\<forall>k. i \<le> k \<and> k < j \<longrightarrow> \<not> flag (blk_bits b) k ALLOCATED))"

definition free_ok :: "btree \<Rightarrow> chunk list \<Rightarrow> bool" where
  "free_ok t cs \<longleftrightarrow> sorted_wrt chunk_apart cs \<and> (\<forall>c \<in> set cs. chunk_free t c)"

definition heap_ok :: "heap_state \<Rightarrow> bool" where
  "heap_ok s \<longleftrightarrow> tree_wf (h_block s) \<and> free_ok (h_block s) (h_free s) \<and> SLOT_SIZE dvd h_next_block s"

text \<open>
  What a collection starts from: no slot is marked or scanned, and every allocated slot has
  the first slot of an object at or before it.
\<close>

definition block_ready :: "block \<Rightarrow> bool" where
  "block_ready b \<longleftrightarrow> (\<forall>k < slots b. \<not> flag (blk_bits b) k MARK \<and> \<not> flag (blk_bits b) k SCANNED \<and>
     (flag (blk_bits b) k ALLOCATED \<longrightarrow> (\<exists>i \<le> k. flag (blk_bits b) i OBJECT)))"

definition gc_ready :: "btree \<Rightarrow> bool" where
  "gc_ready t \<longleftrightarrow> (\<forall>b \<in> set (blocks t). block_ready b)"

lemma make_external_heap_ok [simp]: "heap_ok (make_external_heap self b sz)"
  by (simp add: heap_ok_def make_external_heap_def free_ok_def)

lemma chunk_apart_sym: "chunk_apart c d \<longleftrightarrow> chunk_apart d c"
  by (auto simp: chunk_apart_def)

lemma take_chunk_Some:
  "take_chunk sz cs = Some (passed, c, rest) \<Longrightarrow> cs = passed @ c # rest \<and> sz \<le> snd c"
proof (induction cs arbitrary: passed)
  case (Cons d ds)
  show ?case
  proof (cases "snd d < sz")
    case True
    then obtain p where p: "take_chunk sz ds = Some (p, c, rest)" "passed = d # p"
      using Cons.prems by (auto split: option.splits)
    then show ?thesis using Cons.IH[OF p(1)] by simp
  next
    case False
    then show ?thesis using Cons.prems by auto
  qed
qed simp

lemma free_ok_move:
  "free_ok t (xs @ c # ys) \<Longrightarrow> free_ok t (c # xs @ ys)"
  by (auto simp: free_ok_def sorted_wrt_append chunk_apart_sym)

lemma take_chunk_free_ok:
  "take_chunk sz cs = Some (passed, c, rest) \<Longrightarrow> free_ok t cs \<Longrightarrow>
     cs = passed @ c # rest \<and> free_ok t (c # passed @ rest) \<and> sz \<le> snd c"
  using take_chunk_Some[of sz cs passed c rest] free_ok_move by blast

lemma chunk_free_insert: "chunk_free t c \<Longrightarrow> chunk_free (tree_insert t b) c"
  by (auto simp: chunk_free_def)

lemma chunk_free_of:
  assumes "tree_wf t" "chunk_free t c"
  shows "\<exists>b \<in> set (blocks t). blk_begin b \<le> fst c \<and> fst c + snd c \<le> blk_end b \<and> 0 < snd c"
proof -
  obtain b i j where b: "b \<in> set (blocks t)" "i < j" "j \<le> slots b"
    "c = (blk_begin b + i * SLOT_SIZE, (j - i) * SLOT_SIZE)"
    using assms(2) by (auto simp: chunk_free_def)
  have "chunk_of (blk_begin b) 0 (slots b) c" using b by (auto simp: chunk_of_def)
  then show ?thesis using chunk_of_inside[OF tree_wf_block[OF assms(1) b(1)]] b(1) by blast
qed

text \<open>A fresh block contributes one chunk that covers all of it.\<close>

lemma make_block_fields [simp]:
  "blk_begin (make_block a n) = a" "blk_end (make_block a n) = a + round_up n SLOT_SIZE"
  "blk_marked (make_block a n) = False"
  by (simp_all add: make_block_def Let_def)

lemma make_block_flags: "k < slots (make_block a n) \<Longrightarrow> \<not> flag (blk_bits (make_block a n)) k m"
proof -
  assume k: "k < slots (make_block a n)"
  then have "0 < n" by (cases n) (simp_all add: slots_def SLOT_SIZE_def)
  then have "k < 2 * length (blk_bits (make_block a n))"
    using block_wf_bits[OF make_block_wf k] by simp
  then have "blk_bits (make_block a n) ! (k div 2) = 0"
    by (simp add: make_block_def Let_def)
  then show ?thesis by (simp add: flag_def get_bits_def)
qed

lemma slots_make_block: "SLOT_SIZE dvd n \<Longrightarrow> slots (make_block a n) = n div SLOT_SIZE"
  by (auto simp: slots_def SLOT_SIZE_def round_up_exact elim!: dvdE)

section \<open>The list in memory\<close>

lemma read_put_word [simp]:
  assumes "v < 2 ^ 64"
  shows "read_pointer_at (put_word mem a v) a = v"
proof -
  have "map (put_word mem a v) [a..<a + 8] = le_bytes 8 (of_nat v)"
    by (rule nth_equalityI) (simp_all add: put_word_def)
  then show ?thesis using assms by (simp add: read_pointer_at_def unat_of_nat)
qed

lemma read_same:
  assumes "\<And>x. a \<le> x \<Longrightarrow> x < a + 8 \<Longrightarrow> mem' x = mem x"
  shows "read_pointer_at mem' a = read_pointer_at mem a"
proof -
  have "map mem' [a..<a + 8] = map mem [a..<a + 8]" using assms by simp
  then show ?thesis unfolding read_pointer_at_def by (rule arg_cong)
qed

lemma put_word_other: "x < a \<or> a + 8 \<le> x \<Longrightarrow> put_word mem a v x = mem x"
  by (auto simp: put_word_def)

lemma put_chunk_other: "x < fst c \<or> fst c + 16 \<le> x \<Longrightarrow> put_chunk c p mem x = mem x"
  by (auto simp: put_chunk_def put_word_def)

lemma read_put_chunk [simp]:
  assumes "p < 2 ^ 64" "snd c < 2 ^ 64"
  shows "read_pointer_at (put_chunk c p mem) (fst c) = p"
    "read_pointer_at (put_chunk c p mem) (fst c + 8) = snd c"
proof -
  show "read_pointer_at (put_chunk c p mem) (fst c) = p" using assms(1) by (simp add: put_chunk_def)
  have "read_pointer_at (put_chunk c p mem) (fst c + 8) =
      read_pointer_at (put_word mem (fst c + 8) (snd c)) (fst c + 8)"
    unfolding put_chunk_def by (rule read_same) (simp add: put_word_other)
  then show "read_pointer_at (put_chunk c p mem) (fst c + 8) = snd c" using assms(2) by simp
qed

text \<open>The header of a chunk lies in the chunk; addresses and sizes fit in a word.\<close>

definition sized_chunk :: "chunk \<Rightarrow> bool" where
  "sized_chunk c \<longleftrightarrow> 16 \<le> snd c \<and> fst c + snd c \<le> 2 ^ 64 \<and> snd c < 2 ^ 64"

lemma set_link_other:
  "\<forall>c \<in> set passed. sized_chunk c \<and> \<not> covers c x \<Longrightarrow> set_link passed p mem x = mem x"
proof (cases passed rule: rev_cases)
  case (snoc cs c)
  assume "\<forall>c \<in> set passed. sized_chunk c \<and> \<not> covers c x"
  then have "sized_chunk c" "\<not> covers c x" using snoc by simp_all
  then show ?thesis using snoc
    by (cases cs) (auto simp: set_link_def put_word_def covers_def sized_chunk_def split: list.splits)
qed (simp add: set_link_def)

lemma threaded_same:
  "(\<And>c x. c \<in> set cs \<Longrightarrow> covers c x \<Longrightarrow> mem' x = mem x) \<Longrightarrow> \<forall>c \<in> set cs. sized_chunk c \<Longrightarrow>
     threaded mem' cs = threaded mem cs"
proof (induction cs)
  case (Cons c cs)
  have c: "sized_chunk c" using Cons.prems(2) by simp
  have "read_pointer_at mem' a = read_pointer_at mem a" if "a = fst c \<or> a = fst c + 8" for a
    by (rule read_same, rule Cons.prems(1)[of c]) (use c that in \<open>auto simp: covers_def sized_chunk_def\<close>)
  moreover have "threaded mem' cs = threaded mem cs" using Cons.prems by (intro Cons.IH) auto
  ultimately show ?case by simp
qed simp

lemma set_link_Cons: "xs \<noteq> [] \<Longrightarrow> set_link (x # xs) p mem = set_link xs p mem"
  by (simp add: set_link_def split: list.splits)

text \<open>Changing the link after the chunks \<open>xs\<close> replaces what follows them in the list.\<close>

lemma threaded_relink:
  assumes "threaded mem (xs @ zs)" "threaded mem ys" "sorted_wrt chunk_apart (xs @ ys)"
    and "\<forall>c \<in> set (xs @ ys). sized_chunk c"
  shows "threaded (set_link xs (head_of ys) mem) (xs @ ys)"
  using assms
proof (induction xs)
  case (Cons x xs)
  have sz: "sized_chunk x" "\<forall>c \<in> set ys. sized_chunk c" "\<forall>c \<in> set xs. sized_chunk c" using Cons.prems(4) by auto
  have ap: "chunk_apart x c" if "c \<in> set xs \<or> c \<in> set ys" for c using Cons.prems(3) that by auto
  show ?case
  proof (cases "xs = []")
    case True
    have l: "set_link [x] (head_of ys) mem = put_word mem (fst x) (head_of ys)" by (simp add: set_link_def)
    have h: "head_of ys < 2 ^ 64"
      using sz(2) by (cases ys) (auto simp: head_of_def sized_chunk_def)
    have "read_pointer_at (put_word mem (fst x) (head_of ys)) (fst x + 8) = read_pointer_at mem (fst x + 8)"
      by (rule read_same) (simp add: put_word_other)
    moreover have "threaded (put_word mem (fst x) (head_of ys)) ys = threaded mem ys"
    proof (rule threaded_same)
      fix c a assume c: "c \<in> set ys" "covers c a"
      then have "\<not> covers x a" using ap[of c] chunk_apart_covers by blast
      then show "put_word mem (fst x) (head_of ys) a = mem a"
        using sz(1) by (auto simp: covers_def sized_chunk_def put_word_def)
    qed (rule sz(2))
    ultimately show ?thesis using True Cons.prems(1,2) h by (simp add: l)
  next
    case False
    have hd: "head_of (xs @ zs) = head_of (xs @ ys)" using False by (cases xs) (simp_all add: head_of_def)
    have IH: "threaded (set_link xs (head_of ys) mem) (xs @ ys)"
      using Cons.prems by (intro Cons.IH) auto
    have "read_pointer_at (set_link xs (head_of ys) mem) a = read_pointer_at mem a"
      if a: "a = fst x \<or> a = fst x + 8" for a
    proof (rule read_same, rule set_link_other, intro ballI conjI)
      fix b c assume b: "a \<le> b" "b < a + 8" and c: "c \<in> set xs"
      show "sized_chunk c" using sz(3) c by blast
      have "covers x b" using a b sz(1) by (auto simp: covers_def sized_chunk_def)
      then show "\<not> covers c b" using ap[of c] c chunk_apart_covers by blast
    qed
    then show ?thesis using Cons.prems(1) hd IH by (simp add: set_link_Cons[OF False])
  qed
qed (simp add: set_link_def)

section \<open>Claiming a chunk\<close>

text \<open>The memory and the free list that claiming a chunk leaves.\<close>

definition claimed :: "chunk list \<Rightarrow> chunk \<Rightarrow> chunk list \<Rightarrow> nat \<Rightarrow> memory \<Rightarrow> memory" where
  "claimed passed c rest sz mem =
     clear_memory (snd (split_chunk c sz (passed @ rest) (set_link passed (head_of rest) mem))) (fst c) sz"

definition remaining :: "chunk list \<Rightarrow> chunk \<Rightarrow> chunk list \<Rightarrow> nat \<Rightarrow> chunk list" where
  "remaining passed c rest sz =
     (if sz < snd c then [(fst c + sz, snd c - sz)] else []) @ passed @ rest"

lemma claim_chunk_eq:
  "claim_chunk s mem passed c rest sz (Some b) =
     obind (block_allocate b (fst c) sz) (\<lambda>b'.
       Inr (Some (fst c),
            s\<lparr>h_block := tree_update (h_block s) (fst c) b', h_free := remaining passed c rest sz,
              h_allocated := (h_allocated s + sz) mod 2 ^ 64\<rparr>,
            claimed passed c rest sz mem))"
  by (simp add: claim_chunk_def Let_def split_chunk_def claimed_def remaining_def)

lemma claimed_zero: "fst c \<le> a \<Longrightarrow> a < fst c + sz \<Longrightarrow> claimed passed c rest sz mem a = 0"
  by (simp add: claimed_def clear_memory_def)

lemma part_sized:
  assumes "sized_chunk c" "16 dvd snd c" "16 dvd sz" "sz < snd c"
  shows "sized_chunk (fst c + sz, snd c - sz)"
proof -
  have "16 dvd snd c - sz" "0 < snd c - sz" using assms by (simp_all add: dvd_diff_nat)
  then have "16 \<le> snd c - sz" by (rule dvd_imp_le)
  moreover have "snd c - sz \<le> snd c" by simp
  ultimately show ?thesis using assms(1,4) unfolding sized_chunk_def by auto
qed

lemma claimed_other:
  assumes "\<forall>d \<in> set (c # passed @ rest). sized_chunk d \<and> \<not> covers d a" "16 dvd snd c" "16 dvd sz" "sz \<le> snd c"
  shows "claimed passed c rest sz mem a = mem a"
proof -
  let ?m = "set_link passed (head_of rest) mem"
  have m: "?m a = mem a" using assms(1) by (intro set_link_other) auto
  have c: "sized_chunk c" "\<not> covers c a" using assms(1) by simp_all
  have "snd (split_chunk c sz (passed @ rest) ?m) a = ?m a"
  proof (cases "sz < snd c")
    case True
    have "sized_chunk (fst c + sz, snd c - sz)" by (rule part_sized[OF c(1) assms(2,3) True])
    then show ?thesis
      using True c(2) put_chunk_other[of a "(fst c + sz, snd c - sz)" "head_of (passed @ rest)" ?m]
      by (auto simp: split_chunk_def Let_def covers_def sized_chunk_def)
  qed (simp add: split_chunk_def)
  then show ?thesis using m c(2) assms(4) by (auto simp: claimed_def clear_memory_def covers_def)
qed

lemma claimed_threaded:
  assumes t: "threaded mem (passed @ c # rest)" "sorted_wrt chunk_apart (c # passed @ rest)"
    "\<forall>d \<in> set (c # passed @ rest). sized_chunk d"
    and sz: "16 dvd snd c" "16 dvd sz" "sz \<le> snd c"
  shows "threaded (claimed passed c rest sz mem) (remaining passed c rest sz)"
proof -
  let ?cs = "passed @ rest" and ?m = "set_link passed (head_of rest) mem"
  let ?d = "(fst c + sz, snd c - sz)"
  have "threaded mem xs \<Longrightarrow> threaded mem (drop k xs)" for k xs
    by (induction xs arbitrary: k) (auto simp: drop_Cons split: nat.splits)
  from this[OF t(1), of "Suc (length passed)"] have r: "threaded mem rest" by simp
  have apart: "\<not> covers c a" if "d \<in> set ?cs" "covers d a" for d a
    using t(2) that chunk_apart_covers[of c d a] by auto
  have sized: "\<forall>d \<in> set ?cs. sized_chunk d" using t(3) by simp
  have m: "threaded ?m ?cs"
    by (rule threaded_relink[OF t(1) r]) (use t(2) sized in auto)
  have out: "claimed passed c rest sz mem a = ?m a" if "\<not> covers c a" for a
  proof (cases "sz < snd c")
    case True
    have "sized_chunk ?d" by (rule part_sized[OF _ sz(1,2) True]) (use t(3) in simp)
    then show ?thesis
      using that True put_chunk_other[of a ?d "head_of ?cs" ?m]
      by (auto simp: claimed_def split_chunk_def Let_def clear_memory_def covers_def sized_chunk_def)
  next
    case False
    then show ?thesis using that sz(3) by (auto simp: claimed_def split_chunk_def clear_memory_def covers_def)
  qed
  have cs: "threaded (claimed passed c rest sz mem) ?cs"
    using threaded_same[of ?cs "claimed passed c rest sz mem" ?m, OF _ sized] out apart m by blast
  show ?thesis
  proof (cases "sz < snd c")
    case True
    have d: "sized_chunk ?d" by (rule part_sized[OF _ sz(1,2) True]) (use t(3) in simp)
    have h: "head_of ?cs < 2 ^ 64"
      using sized by (cases ?cs) (auto simp: head_of_def sized_chunk_def simp del: append_is_Nil_conv)
    have cl: "claimed passed c rest sz mem a = put_chunk ?d (head_of ?cs) ?m a" if "fst c + sz \<le> a" for a
      using that True by (simp add: claimed_def split_chunk_def Let_def clear_memory_def)
    have "read_pointer_at (claimed passed c rest sz mem) a = read_pointer_at (put_chunk ?d (head_of ?cs) ?m) a"
      if "fst c + sz \<le> a" for a
      by (rule read_same) (use that cl in auto)
    then show ?thesis
      using cs d h read_put_chunk[of "head_of ?cs" ?d ?m] True
      by (simp add: remaining_def sized_chunk_def)
  next
    case False
    then show ?thesis using cs by (simp add: remaining_def)
  qed
qed

lemma chunk_free_update:
  assumes wf: "tree_wf t" "tree_find t (blk_begin b + i * SLOT_SIZE) = Some b"
    and b': "blk_begin b' = blk_begin b" "slots b' = slots b"
      "\<forall>k < slots b. flag (blk_bits b') k ALLOCATED \<longleftrightarrow> flag (blk_bits b) k ALLOCATED \<or> (i \<le> k \<and> k < i + n)"
    and d: "chunk_free t d" "chunk_apart (blk_begin b + i * SLOT_SIZE, n * SLOT_SIZE) d"
  shows "chunk_free (tree_update t (blk_begin b + i * SLOT_SIZE) b') d"
proof -
  obtain xs ys where t: "blocks t = xs @ b # ys"
    "blocks (tree_update t (blk_begin b + i * SLOT_SIZE) b') = xs @ b' # ys"
    using tree_update_blocks[OF wf] by blast
  obtain c p q where c: "c \<in> set (blocks t)" "p < q" "q \<le> slots c"
    "d = (blk_begin c + p * SLOT_SIZE, (q - p) * SLOT_SIZE)"
    "\<forall>k. p \<le> k \<and> k < q \<longrightarrow> \<not> flag (blk_bits c) k ALLOCATED"
    using d(1) by (auto simp: chunk_free_def)
  show ?thesis
  proof (cases "c = b")
    case True
    have "\<not> (i \<le> k \<and> k < i + n)" if "p \<le> k" "k < q" for k
    proof
      assume "i \<le> k \<and> k < i + n"
      then have "covers (blk_begin b + i * SLOT_SIZE, n * SLOT_SIZE) (blk_begin b + k * SLOT_SIZE)"
        using covers_slots[of "blk_begin b" i "i + n" k] by simp
      moreover have "covers d (blk_begin b + k * SLOT_SIZE)"
        using covers_slots[of "blk_begin b" p q k] that c(4) True by simp
      ultimately show False using chunk_apart_covers[OF d(2)] by blast
    qed
    then have "\<forall>k. p \<le> k \<and> k < q \<longrightarrow> \<not> flag (blk_bits b') k ALLOCATED"
      using c(3,5) b'(3) True by simp
    then show ?thesis
      unfolding chunk_free_def t(2) using c(2-4) b'(1,2) True by (intro bexI[of _ b']) auto
  next
    case False
    then show ?thesis
      unfolding chunk_free_def t(2) using c t(1) by (intro bexI[of _ c]) auto
  qed
qed

lemma chunk_apart_part:
  "chunk_apart c d \<Longrightarrow> fst c \<le> fst c' \<Longrightarrow> fst c' + snd c' \<le> fst c + snd c \<Longrightarrow> chunk_apart c' d"
  by (auto simp: chunk_apart_def)

text \<open>How the flags of all addresses change when a block's slots \<open>i\<close> to \<open>i + n\<close> become an object.\<close>

lemma flag_at_update:
  assumes "tree_wf t" "tree_find t p = Some b" "block_wf b'" "blk_begin b' = blk_begin b" "blk_end b' = blk_end b"
    and "\<And>k. k < slots b \<Longrightarrow> flag (blk_bits b') k m \<longleftrightarrow> flag (blk_bits b) k m \<or> P k"
  shows "flag_at (tree_update t p b') a m \<longleftrightarrow>
    flag_at t a m \<or> (in_block b a \<and> P ((a - blk_begin b) div SLOT_SIZE))"
proof (cases "in_block b a")
  case True
  have b: "b \<in> set (blocks t)" using tree_find_Some[OF assms(1)] assms(2) by blast
  then have "tree_find t a = Some b" using tree_find_Some[OF assms(1)] True by blast
  moreover have "(a - blk_begin b) div SLOT_SIZE < slots b"
    by (rule in_block_slot[OF tree_wf_block[OF assms(1) b] True])
  ultimately show ?thesis
    using True assms(6) tree_find_update[OF assms(1-5), of a] assms(4) by (simp add: flag_at_def)
next
  case False
  then show ?thesis using tree_find_update[OF assms(1-5), of a] by (simp add: flag_at_def)
qed

text \<open>All blocks lie below the end of the address space.\<close>

definition addressable :: "btree \<Rightarrow> bool" where
  "addressable t \<longleftrightarrow> (\<forall>b \<in> set (blocks t). blk_end b < 2 ^ 64)"

definition in_range :: "nat \<Rightarrow> nat \<Rightarrow> nat \<Rightarrow> bool" where
  "in_range p n a \<longleftrightarrow> p \<le> a \<and> a < p + n"

lemma claim_chunk_effect:
  assumes wf: "tree_wf (h_block s)" "free_ok (h_block s) (c # passed @ rest)"
    and b: "tree_find (h_block s) (fst c) = Some b"
    and n: "sz = n * SLOT_SIZE" "0 < n" "sz \<le> snd c"
  shows "\<exists>s'. claim_chunk s mem passed c rest sz (Some b) =
      Inr (Some (fst c), s', claimed passed c rest sz mem) \<and>
    tree_wf (h_block s') \<and> free_ok (h_block s') (h_free s') \<and>
    h_free s' = remaining passed c rest sz \<and>
    h_next_block s' = h_next_block s \<and> h_allocated s' = (h_allocated s + sz) mod 2 ^ 64 \<and>
    (\<forall>a. tree_find (h_block s') a = None \<longleftrightarrow> tree_find (h_block s) a = None) \<and>
    (addressable (h_block s) \<longrightarrow> addressable (h_block s')) \<and>
    (gc_ready (h_block s) \<longrightarrow> gc_ready (h_block s')) \<and>
    (\<forall>a. in_range (fst c) sz a \<longrightarrow> \<not> flag_at (h_block s) a ALLOCATED) \<and>
    (\<forall>a. flag_at (h_block s') a ALLOCATED \<longleftrightarrow> flag_at (h_block s) a ALLOCATED \<or> in_range (fst c) sz a) \<and>
    (\<forall>a. flag_at (h_block s') a OBJECT \<longleftrightarrow> flag_at (h_block s) a OBJECT \<or> in_range (fst c) SLOT_SIZE a)"
proof -
  let ?t = "h_block s"
  have bt: "b \<in> set (blocks ?t)" "in_block b (fst c)" using tree_find_Some[OF wf(1)] b by auto
  have bwf: "block_wf b" by (rule tree_wf_block[OF wf(1) bt(1)])
  obtain b0 i j where c: "b0 \<in> set (blocks ?t)" "i < j" "j \<le> slots b0"
    "c = (blk_begin b0 + i * SLOT_SIZE, (j - i) * SLOT_SIZE)"
    "\<forall>k. i \<le> k \<and> k < j \<longrightarrow> \<not> flag (blk_bits b0) k ALLOCATED"
    using wf(2) by (auto simp: free_ok_def chunk_free_def)
  have e0: "blk_end b0 = blk_begin b0 + slots b0 * SLOT_SIZE"
    using tree_wf_block[OF wf(1) c(1)] unfolding block_wf_def by blast
  have "i * SLOT_SIZE < slots b0 * SLOT_SIZE" using c(2,3) by (simp add: SLOT_SIZE_def)
  then have "in_block b0 (fst c)" using c(4) e0 by (simp add: in_block_def)
  then have b0: "b0 = b" using tree_store.find_unique[OF wf(1) c(1) bt(1) _ bt(2)] by blast
  have fc: "fst c = blk_begin b + i * SLOT_SIZE" using c(4) b0 by simp
  have "n \<le> j - i" using n(1,3) c(4) by (simp add: SLOT_SIZE_def)
  then have ij: "i + n \<le> j" "i + n \<le> slots b" using c(2,3) b0 by simp_all
  have sl: "slot b (fst c) = Inr i"
    using slot_in_block[OF b] fc by (simp add: SLOT_SIZE_def)
  obtain b' where b': "block_allocate b (fst c) (n * SLOT_SIZE) = Inr b'" "block_wf b'" "slots b' = slots b"
    "blk_begin b' = blk_begin b" "blk_end b' = blk_end b"
    "\<forall>k < slots b. flag (blk_bits b') k ALLOCATED \<longleftrightarrow> flag (blk_bits b) k ALLOCATED \<or> (i \<le> k \<and> k < i + n)"
    "\<forall>k < slots b. flag (blk_bits b') k OBJECT \<longleftrightarrow> flag (blk_bits b) k OBJECT \<or> k = i"
    "\<forall>k < slots b. (flag (blk_bits b') k MARK \<longleftrightarrow> flag (blk_bits b) k MARK) \<and>
       (flag (blk_bits b') k SCANNED \<longleftrightarrow> flag (blk_bits b) k SCANNED)"
    using block_allocate_effect[OF bwf sl ij(2) n(2)] by blast
  let ?t' = "tree_update ?t (fst c) b'"
  let ?cs = "remaining passed c rest sz"
  let ?s = "s\<lparr>h_block := ?t', h_free := ?cs, h_allocated := (h_allocated s + sz) mod 2 ^ 64\<rparr>"
  have wf': "tree_wf ?t'" by (rule tree_update_wf[OF wf(1) b b'(2,4,5)])
  have ck: "claim_chunk s mem passed c rest sz (Some b) = Inr (Some (fst c), ?s, claimed passed c rest sz mem)"
    using b'(1) n(1) by (simp add: claim_chunk_eq)
  have keep: "chunk_free ?t' d" if "d \<in> set (passed @ rest)" for d
    unfolding fc
    by (rule chunk_free_update[OF wf(1) b[unfolded fc] b'(4,3,6)])
      (use wf(2) that chunk_apart_part[of c d "(blk_begin b + i * SLOT_SIZE, n * SLOT_SIZE)"] fc n in
        \<open>auto simp: free_ok_def\<close>)
  obtain xs ys where t': "blocks ?t = xs @ b # ys" "blocks ?t' = xs @ b' # ys"
    using tree_update_blocks[OF wf(1) b] by blast
  have ready: "gc_ready ?t'" if "gc_ready ?t"
  proof -
    have rb: "block_ready b" using that t'(1) by (simp add: gc_ready_def)
    have iO: "flag (blk_bits b') i OBJECT" using b'(7) ij(2) n(2) by simp
    have "\<exists>o' \<le> k. flag (blk_bits b') o' OBJECT" if k: "k < slots b" "flag (blk_bits b') k ALLOCATED" for k
    proof (cases "i \<le> k")
      case False
      then obtain o' where "o' \<le> k" "flag (blk_bits b) o' OBJECT"
        using rb k b'(6) unfolding block_ready_def by auto
      then show ?thesis using b'(7) k(1) by (intro exI[of _ o']) simp
    qed (use iO in blast)
    then have "block_ready b'" using rb b'(3,8) unfolding block_ready_def by simp
    then show ?thesis using that t' by (simp add: gc_ready_def)
  qed
  have rest: "chunk_free ?t' (fst c + sz, snd c - sz)" if "sz < snd c"
  proof -
    have "snd c = (j - i) * SLOT_SIZE" using c(4) by simp
    then have "i + n < j" "snd c - sz = (j - (i + n)) * SLOT_SIZE"
      using that n(1) by (auto simp: SLOT_SIZE_def)
    moreover have "fst c + sz = blk_begin b' + (i + n) * SLOT_SIZE"
      using fc n(1) b'(4) by (simp add: algebra_simps)
    moreover have "\<forall>k. i + n \<le> k \<and> k < j \<longrightarrow> \<not> flag (blk_bits b') k ALLOCATED"
      using b'(6) c(3,5) b0 by auto
    ultimately show ?thesis
      unfolding chunk_free_def t'(2) using c(3) b0 b'(3) by (intro bexI[of _ b']) auto
  qed
  have fok: "free_ok ?t' ?cs"
    using keep rest wf(2) chunk_apart_part[of c _ "(fst c + sz, snd c - sz)"]
    by (auto simp: free_ok_def remaining_def)
  have none: "tree_find ?t' a = None \<longleftrightarrow> tree_find ?t a = None" for a
    using tree_find_update[OF wf(1) b b'(2,4,5), of a] tree_find_Some[OF wf(1)] bt(1)
    by (cases "in_block b a") auto
  have addr: "addressable ?t \<Longrightarrow> addressable ?t'" using t' b'(5) by (simp add: addressable_def)
  have rng: "in_block b a \<and> i \<le> (a - blk_begin b) div SLOT_SIZE \<and> (a - blk_begin b) div SLOT_SIZE < i + m
      \<longleftrightarrow> in_range (fst c) (m * SLOT_SIZE) a" if "i + m \<le> slots b" for a m
  proof -
    have "(i + m) * SLOT_SIZE \<le> slots b * SLOT_SIZE" using that by simp
    moreover have "blk_end b = blk_begin b + slots b * SLOT_SIZE" using bwf unfolding block_wf_def by blast
    ultimately show ?thesis
      using slot_range[of "blk_begin b" a] fc by (auto simp: in_block_def in_range_def add_mult_distrib)
  qed
  have al: "flag_at ?t' a ALLOCATED \<longleftrightarrow> flag_at ?t a ALLOCATED \<or> in_range (fst c) sz a" for a
    using flag_at_update[OF wf(1) b b'(2,4,5), of ALLOCATED "\<lambda>k. i \<le> k \<and> k < i + n" a] b'(6)
      rng[of n a] ij(2) n(1) by simp
  have b7: "flag (blk_bits b') k OBJECT \<longleftrightarrow> flag (blk_bits b) k OBJECT \<or> (i \<le> k \<and> k < i + 1)"
    if "k < slots b" for k
    using b'(7) that by auto
  have ob: "flag_at ?t' a OBJECT \<longleftrightarrow> flag_at ?t a OBJECT \<or> in_range (fst c) SLOT_SIZE a" for a
    using flag_at_update[OF wf(1) b b'(2,4,5), of OBJECT "\<lambda>k. i \<le> k \<and> k < i + 1" a, OF b7]
      rng[of 1 a] ij(2) n(2) by simp
  have fresh: "\<not> flag_at ?t a ALLOCATED" if "in_range (fst c) sz a" for a
  proof -
    have k: "in_block b a" "i \<le> (a - blk_begin b) div SLOT_SIZE" "(a - blk_begin b) div SLOT_SIZE < j"
      using rng[of n a] ij that n(1) by auto
    then have "tree_find ?t a = Some b" using tree_find_Some[OF wf(1)] bt(1) by blast
    then show ?thesis using c(5) b0 k(2,3) by (simp add: flag_at_def)
  qed
  show ?thesis
    by (intro exI[of _ ?s]) (simp add: ck wf' fok al ob fresh ready none addr)
qed

section \<open>Properties\<close>

text \<open>
  The storage operator new would return for a new block: apart from the blocks of the heap, and
  inside the address space.
\<close>

definition new_block_size :: "heap_state \<Rightarrow> nat \<Rightarrow> nat" where
  "new_block_size s sz = max (h_next_block s) (round_up sz SLOT_SIZE)"

definition fresh_storage :: "heap_state \<Rightarrow> nat \<Rightarrow> nat \<Rightarrow> bool" where
  "fresh_storage s addr sz \<longleftrightarrow>
     addr + new_block_size s sz < 2 ^ 64 \<and>
     (\<forall>b \<in> set (blocks (h_block s)). apart (make_block addr (new_block_size s sz)) b)"

text \<open>A free chunk covers only slots that are not allocated, and its header lies in it.\<close>

lemma chunk_free_covers:
  assumes wf: "tree_wf t" and d: "chunk_free t d" "covers d a"
  shows "\<not> flag_at t a ALLOCATED" "tree_find t a \<noteq> None"
proof -
  obtain b i j where b: "b \<in> set (blocks t)" "i < j" "j \<le> slots b"
    "d = (blk_begin b + i * SLOT_SIZE, (j - i) * SLOT_SIZE)"
    "\<forall>k. i \<le> k \<and> k < j \<longrightarrow> \<not> flag (blk_bits b) k ALLOCATED"
    using d(1) by (auto simp: chunk_free_def)
  have e: "blk_end b = blk_begin b + slots b * SLOT_SIZE"
    using tree_wf_block[OF wf b(1)] unfolding block_wf_def by blast
  have j: "j * SLOT_SIZE = i * SLOT_SIZE + (j - i) * SLOT_SIZE" "j * SLOT_SIZE \<le> slots b * SLOT_SIZE"
    using b(2,3) by (simp_all add: add_mult_distrib[symmetric])
  have a: "blk_begin b + i * SLOT_SIZE \<le> a" "a < blk_begin b + j * SLOT_SIZE"
    using d(2) b(4) j(1) by (simp_all add: covers_def)
  then have ib: "in_block b a" unfolding in_block_def e using j(2) by linarith
  then have f: "tree_find t a = Some b" using tree_find_Some[OF wf] b(1) by blast
  then show "tree_find t a \<noteq> None" by simp
  have "i \<le> (a - blk_begin b) div SLOT_SIZE" "(a - blk_begin b) div SLOT_SIZE < j"
    using a slot_range[of "blk_begin b" a] by auto
  then show "\<not> flag_at t a ALLOCATED" using f b(5) by (simp add: flag_at_def)
qed

lemma chunk_free_sized:
  assumes "tree_wf t" "addressable t" "chunk_free t c"
  shows "sized_chunk c" "16 dvd snd c"
proof -
  obtain b where b: "b \<in> set (blocks t)" "fst c + snd c \<le> blk_end b" "0 < snd c"
    using chunk_free_of[OF assms(1,3)] by blast
  show d: "16 dvd snd c" using assms(3) by (auto simp: chunk_free_def SLOT_SIZE_def)
  then have "16 \<le> snd c" using b(3) by (rule dvd_imp_le)
  moreover have "blk_end b < 2 ^ 64" using assms(2) b(1) by (simp add: addressable_def)
  ultimately show "sized_chunk c" using b(2) unfolding sized_chunk_def by linarith
qed

text \<open>What claiming a chunk does to the memory.\<close>

lemma claimed_memory:
  assumes t: "tree_wf t" "addressable t" "free_ok t (c # passed @ rest)"
    and sz: "16 dvd sz" "sz \<le> snd c"
  shows "flag_at t a ALLOCATED \<or> tree_find t a = None \<Longrightarrow> claimed passed c rest sz mem a = mem a"
    "threaded mem (passed @ c # rest) \<Longrightarrow>
       threaded (claimed passed c rest sz mem) (remaining passed c rest sz)"
proof -
  have f: "chunk_free t d" if "d \<in> set (c # passed @ rest)" for d
    using t(3) that unfolding free_ok_def by blast
  have d: "16 dvd snd c" by (rule chunk_free_sized(2)[OF t(1,2) f]) simp
  have s: "\<forall>d \<in> set (c # passed @ rest). sized_chunk d" using chunk_free_sized(1)[OF t(1,2) f] by blast
  show "claimed passed c rest sz mem a = mem a" if "flag_at t a ALLOCATED \<or> tree_find t a = None"
    using claimed_other[of c passed rest a sz mem] s d sz that chunk_free_covers[OF t(1) f] by blast
  show "threaded mem (passed @ c # rest) \<Longrightarrow>
       threaded (claimed passed c rest sz mem) (remaining passed c rest sz)"
    by (rule claimed_threaded[OF _ _ s d sz]) (use t(3) in \<open>simp_all add: free_ok_def\<close>)
qed

text \<open>The memory when a new block has become the last chunk of the list.\<close>

definition with_chunk :: "chunk list \<Rightarrow> chunk \<Rightarrow> memory \<Rightarrow> memory" where
  "with_chunk cs c mem = put_chunk c 0 (set_link cs (fst c) (clear_memory mem (fst c) (snd c)))"

lemma with_chunk_other:
  assumes "\<forall>d \<in> set (c # cs). sized_chunk d \<and> \<not> covers d a"
  shows "with_chunk cs c mem a = mem a"
proof -
  have "set_link cs (fst c) (clear_memory mem (fst c) (snd c)) a = clear_memory mem (fst c) (snd c) a"
    using assms by (intro set_link_other) simp
  then show ?thesis
    using assms put_chunk_other[of a c]
    by (auto simp: with_chunk_def clear_memory_def covers_def sized_chunk_def)
qed

lemma with_chunk_threaded:
  assumes t: "threaded mem cs" "sorted_wrt chunk_apart (cs @ [c])" "\<forall>d \<in> set (cs @ [c]). sized_chunk d"
  shows "threaded (with_chunk cs c mem) (cs @ [c])"
proof -
  let ?m0 = "put_chunk c 0 (clear_memory mem (fst c) (snd c))"
  have c: "sized_chunk c" "snd c < 2 ^ 64" using t(3) by (simp_all add: sized_chunk_def)
  have "threaded ?m0 cs = threaded mem cs"
  proof (rule threaded_same)
    fix d x assume d: "d \<in> set cs" "covers d x"
    then have "chunk_apart d c" using t(2) by (simp add: sorted_wrt_append)
    then have "\<not> covers c x" using d(2) chunk_apart_covers by blast
    then show "?m0 x = mem x"
      using c(1) put_chunk_other[of x c] by (auto simp: clear_memory_def covers_def sized_chunk_def)
  qed (use t(3) in simp)
  then have "threaded ?m0 (cs @ [])" using t(1) by simp
  moreover have "threaded ?m0 [c]" using c(2) by (simp add: head_of_def)
  ultimately have r: "threaded (set_link cs (head_of [c]) ?m0) (cs @ [c])" by (rule threaded_relink[OF _ _ t(2,3)])
  have "set_link cs (fst c) ?m0 = with_chunk cs c mem"
  proof (cases cs rule: rev_cases)
    case (snoc ds d)
    then have "chunk_apart d c" "sized_chunk d" using t(2,3) by (simp_all add: sorted_wrt_append)
    then show ?thesis
      using snoc c(1) by (cases ds)
        (auto simp: set_link_def with_chunk_def put_chunk_def put_word_def fun_eq_iff chunk_apart_def sized_chunk_def
          split: list.splits)
  qed (simp add: set_link_def with_chunk_def)
  then show ?thesis using r by (simp add: head_of_def)
qed

text \<open>The three facts about the store when no chunk is large enough and a block is made.\<close>

lemma new_block_store:
  assumes "heap_ok s" "0 < n" "SLOT_SIZE dvd n" "\<forall>b \<in> set (blocks (h_block s)). apart (make_block addr n) b"
  shows "tree_wf (tree_insert (h_block s) (make_block addr n))"
    "free_ok (tree_insert (h_block s) (make_block addr n)) ((addr, n) # h_free s)"
    "tree_find (tree_insert (h_block s) (make_block addr n)) addr = Some (make_block addr n)"
    "flag_at (tree_insert (h_block s) (make_block addr n)) a m \<longleftrightarrow> flag_at (h_block s) a m"
    "gc_ready (h_block s) \<Longrightarrow> gc_ready (tree_insert (h_block s) (make_block addr n))"
proof -
  let ?b = "make_block addr n" and ?t = "h_block s"
  have wf: "tree_wf ?t" and fo: "free_ok ?t (h_free s)" using assms(1) by (simp_all add: heap_ok_def)
  have bw: "block_wf ?b" by (rule make_block_wf[OF assms(2)])
  have n: "round_up n SLOT_SIZE = n" using assms(3) by (simp add: round_up_exact SLOT_SIZE_def)
  show wf': "tree_wf (tree_insert ?t ?b)" using wf bw assms(4) by (intro tree_insert_wf) auto
  show f: "tree_find (tree_insert ?t ?b) addr = Some ?b"
    by (rule tree_store.find_inserted[OF wf bw assms(4)]) (use assms(2) n in \<open>simp add: in_block_def\<close>)
  have "chunk_free (tree_insert ?t ?b) (addr, n)"
  proof -
    have "0 < n div SLOT_SIZE" using assms(2,3) by (auto simp: SLOT_SIZE_def elim!: dvdE)
    then show ?thesis
      unfolding chunk_free_def using slots_make_block[OF assms(3)] assms(3) make_block_flags
      by (intro bexI[of _ ?b] exI[of _ 0] exI[of _ "n div SLOT_SIZE"]) auto
  qed
  moreover have "chunk_apart (addr, n) d" if "d \<in> set (h_free s)" for d
  proof -
    have "chunk_free ?t d" using fo that by (simp add: free_ok_def)
    then obtain c where c: "c \<in> set (blocks ?t)" "blk_begin c \<le> fst d" "fst d + snd d \<le> blk_end c"
      using chunk_free_of[OF wf] by blast
    then show ?thesis using assms(4) n by (force simp: apart_def chunk_apart_def)
  qed
  ultimately show "free_ok (tree_insert ?t ?b) ((addr, n) # h_free s)"
    using fo by (auto simp: free_ok_def chunk_free_insert)
  show "gc_ready ?t \<Longrightarrow> gc_ready (tree_insert ?t ?b)"
    using make_block_flags[of _ addr n] by (simp add: gc_ready_def block_ready_def)
  show "flag_at (tree_insert ?t ?b) a m \<longleftrightarrow> flag_at ?t a m"
  proof (cases "in_block ?b a")
    case True
    then have "\<not> in_block c a" if "c \<in> set (blocks ?t)" for c
      using that assms(4) by (force simp: apart_def in_block_def)
    then have "tree_find ?t a = None" using tree_find_None[OF wf] by blast
    then show ?thesis
      using make_block_flags[OF in_block_slot[OF bw True]] tree_store.find_inserted[OF wf bw assms(4) True]
      by (simp add: flag_at_def)
  next
    case False
    then show ?thesis using tree_store.find_other[OF wf bw assms(4)] by (simp add: flag_at_def)
  qed
qed

text \<open>The cases of allocate: a chunk of the list, or a new block.\<close>

lemma claim_effect:
  assumes t: "tree_wf (h_block s)" "addressable (h_block s)" "free_ok (h_block s) (c # passed @ rest)"
    and b: "tree_find (h_block s) (fst c) = Some b"
    and sz: "16 dvd sz" "0 < sz" "sz \<le> snd c" and nx: "SLOT_SIZE dvd h_next_block s"
  shows "\<exists>s'. claim_chunk s mem passed c rest sz (Some b) = Inr (Some (fst c), s', claimed passed c rest sz mem) \<and>
    heap_ok s' \<and> h_allocated s' = (h_allocated s + sz) mod 2 ^ 64 \<and>
    (\<forall>a. tree_find (h_block s') a = None \<longleftrightarrow> tree_find (h_block s) a = None) \<and>
    addressable (h_block s') \<and>
    (gc_ready (h_block s) \<longrightarrow> gc_ready (h_block s')) \<and>
    (\<forall>a. in_range (fst c) sz a \<longrightarrow> \<not> flag_at (h_block s) a ALLOCATED) \<and>
    (\<forall>a. flag_at (h_block s') a ALLOCATED \<longleftrightarrow> flag_at (h_block s) a ALLOCATED \<or> in_range (fst c) sz a) \<and>
    (\<forall>a. flag_at (h_block s') a OBJECT \<longleftrightarrow> flag_at (h_block s) a OBJECT \<or> in_range (fst c) SLOT_SIZE a) \<and>
    (\<forall>a. in_range (fst c) sz a \<longrightarrow> claimed passed c rest sz mem a = 0) \<and>
    (\<forall>a. flag_at (h_block s) a ALLOCATED \<or> tree_find (h_block s') a = None \<longrightarrow>
       claimed passed c rest sz mem a = mem a) \<and>
    (threaded mem (passed @ c # rest) \<longrightarrow> threaded (claimed passed c rest sz mem) (h_free s'))"
proof -
  obtain n where n: "sz = n * SLOT_SIZE" "0 < n"
    using sz(1,2) by (auto simp: SLOT_SIZE_def dvd_def mult.commute)
  note m = claimed_memory[OF t sz(1,3), where mem = mem]
  have z: "claimed passed c rest sz mem a = 0" if "in_range (fst c) sz a" for a
    using that claimed_zero[of c a sz] by (simp add: in_range_def)
  show ?thesis
    using claim_chunk_effect[OF t(1,3) b n sz(3), of mem]
    by (elim exE, rule_tac x = s' in exI) (use m z t(2) nx in \<open>simp add: heap_ok_def\<close>)
qed

text \<open>The invariant of the heap when the new block has been inserted.\<close>

lemma new_block_claim:
  fixes mem :: memory
  assumes s: "heap_ok s" "addressable (h_block s)"
    and n: "0 < n" "SLOT_SIZE dvd n" "addr + n < 2 ^ 64"
      "\<forall>b \<in> set (blocks (h_block s)). apart (make_block addr n) b"
  defines "t \<equiv> tree_insert (h_block s) (make_block addr n)" and "mem' \<equiv> with_chunk (h_free s) (addr, n) mem"
  shows "addressable t" "flag_at (h_block s) a ALLOCATED \<or> tree_find t a = None \<Longrightarrow> mem' a = mem a"
    "threaded mem (h_free s) \<Longrightarrow> threaded mem' (h_free s @ [(addr, n)])"
proof -
  note st = new_block_store[OF s(1) n(1,2,4)]
  show ad: "addressable t"
    using s(2) n(2,3) by (auto simp: addressable_def t_def round_up_exact SLOT_SIZE_def)
  have d: "chunk_free t d" if "d \<in> set ((addr, n) # h_free s)" for d
    using st(2) that unfolding free_ok_def t_def by blast
  have sized: "sized_chunk d" if "d \<in> set ((addr, n) # h_free s)" for d
    by (rule chunk_free_sized(1)[OF st(1)[folded t_def] ad d[OF that]])
  show "mem' a = mem a" if "flag_at (h_block s) a ALLOCATED \<or> tree_find t a = None"
    unfolding mem'_def
  proof (rule with_chunk_other, intro ballI conjI)
    fix d assume d': "d \<in> set ((addr, n) # h_free s)"
    show "sized_chunk d" by (rule sized[OF d'])
    show "\<not> covers d a"
      using chunk_free_covers[OF st(1)[folded t_def] d[OF d']] that st(4) unfolding t_def by blast
  qed
  show "threaded mem' (h_free s @ [(addr, n)])" if "threaded mem (h_free s)"
    unfolding mem'_def
    by (rule with_chunk_threaded[OF that])
      (use st(2) sized in \<open>auto simp: free_ok_def sorted_wrt_append chunk_apart_sym\<close>)
qed

lemma allocate_effect:
  assumes "heap_ok s" "addressable (h_block s)" "0 < sz" "round_up sz SLOT_SIZE < 2 ^ 64"
    "fresh_storage s addr sz"
  shows "\<exists>p s' mem'. heap_allocate s mem addr sz = Inr (Some p, s', mem') \<and> heap_ok s' \<and>
    (\<forall>a. in_range p (round_up sz SLOT_SIZE) a \<longrightarrow> \<not> flag_at (h_block s) a ALLOCATED) \<and>
    (\<forall>a. flag_at (h_block s') a ALLOCATED \<longleftrightarrow>
       flag_at (h_block s) a ALLOCATED \<or> in_range p (round_up sz SLOT_SIZE) a) \<and>
    (\<forall>a. flag_at (h_block s') a OBJECT \<longleftrightarrow> flag_at (h_block s) a OBJECT \<or> in_range p SLOT_SIZE a) \<and>
    (\<forall>a. in_range p (round_up sz SLOT_SIZE) a \<longrightarrow> mem' a = 0) \<and>
    (\<forall>a. flag_at (h_block s) a ALLOCATED \<or> tree_find (h_block s') a = None \<longrightarrow> mem' a = mem a) \<and>
    (threaded mem (h_free s) \<longrightarrow> threaded mem' (h_free s')) \<and>
    h_allocated s' = (h_allocated s + round_up sz SLOT_SIZE) mod 2 ^ 64 \<and>
    addressable (h_block s') \<and> (gc_ready (h_block s) \<longrightarrow> gc_ready (h_block s'))"
proof -
  let ?sz = "round_up sz SLOT_SIZE"
  have S: "0 < SLOT_SIZE" by (simp add: SLOT_SIZE_def)
  have sz: "16 dvd ?sz" "0 < ?sz" "?sz mod 2 ^ 64 = ?sz"
    using round_up_dvd[of SLOT_SIZE sz] round_up_ge[OF S, of sz] assms(3,4) by (simp_all add: SLOT_SIZE_def)
  have ok: "tree_wf (h_block s)" "free_ok (h_block s) (h_free s)" "SLOT_SIZE dvd h_next_block s"
    using assms(1) by (simp_all add: heap_ok_def)
  show ?thesis
  proof (cases "take_chunk ?sz (h_free s)")
    case (Some cr)
    obtain passed c rest where c: "take_chunk ?sz (h_free s) = Some (passed, c, rest)"
      using Some by (cases cr) auto
    have fo: "h_free s = passed @ c # rest" "free_ok (h_block s) (c # passed @ rest)" "?sz \<le> snd c"
      using take_chunk_free_ok[OF c ok(2)] by auto
    have "chunk_free (h_block s) c" using fo(2) by (simp add: free_ok_def)
    then obtain b where "b \<in> set (blocks (h_block s))" "blk_begin b \<le> fst c"
      "fst c + snd c \<le> blk_end b" "0 < snd c"
      using chunk_free_of[OF ok(1)] by blast
    then have "b \<in> set (blocks (h_block s))" "in_block b (fst c)" by (simp_all add: in_block_def)
    then have b: "tree_find (h_block s) (fst c) = Some b" using tree_find_Some[OF ok(1)] by blast
    have al: "heap_allocate s mem addr sz = claim_chunk s mem passed c rest ?sz (Some b)"
      using assms(3) c b sz(3) by (simp add: heap_allocate_def Let_def)
    show ?thesis
      unfolding al fo(1)
      using claim_effect[OF ok(1) assms(2) fo(2) b sz(1,2) fo(3) ok(3), of mem] by blast
  next
    case None
    define m where "m = (if h_next_block s < ?sz then ?sz else h_next_block s)"
    define s1 where "s1 = s\<lparr>h_block := tree_insert (h_block s) (make_block addr m), h_next_block := m * 2 mod 2 ^ 64\<rparr>"
    define mem1 where "mem1 = with_chunk (h_free s) (addr, m) mem"
    have m: "0 < m" "SLOT_SIZE dvd m" "?sz \<le> m" "m = new_block_size s sz"
      using ok(3) sz(1,2) S by (auto simp: m_def new_block_size_def SLOT_SIZE_def)
    have ru: "round_up m SLOT_SIZE = m" using m(2) by (simp add: round_up_exact SLOT_SIZE_def)
    have fr: "addr + m < 2 ^ 64" "\<forall>b \<in> set (blocks (h_block s)). apart (make_block addr m) b"
      using assms(5) m(4) by (simp_all add: fresh_storage_def)
    note st = new_block_store[OF assms(1) m(1,2) fr(2)]
    note nb1 = new_block_claim(1)[OF assms(1,2) m(1,2) fr]
    note nb = new_block_claim(2,3)[OF assms(1,2) m(1,2) fr, where mem = mem, folded mem1_def]
    have al: "heap_allocate s mem addr sz =
        claim_chunk s1 mem1 (h_free s) (addr, m) [] ?sz (Some (make_block addr m))"
      using assms(3) None sz(3) ru
      by (simp add: heap_allocate_def Let_def m_def[symmetric] s1_def mem1_def with_chunk_def)
    have s1: "h_block s1 = tree_insert (h_block s) (make_block addr m)"
      "SLOT_SIZE dvd h_next_block s1" "h_allocated s1 = h_allocated s"
      using m(2) by (simp_all add: s1_def SLOT_SIZE_def dvd_mod)
    obtain s' where e: "claim_chunk s1 mem1 (h_free s) (addr, m) [] ?sz (Some (make_block addr m)) =
          Inr (Some addr, s', claimed (h_free s) (addr, m) [] ?sz mem1)"
      "heap_ok s'" "h_allocated s' = (h_allocated s + ?sz) mod 2 ^ 64"
      "\<forall>a. tree_find (h_block s') a = None \<longleftrightarrow> tree_find (h_block s1) a = None"
      "addressable (h_block s')" "gc_ready (h_block s1) \<longrightarrow> gc_ready (h_block s')"
      "\<forall>a. in_range addr ?sz a \<longrightarrow> \<not> flag_at (h_block s) a ALLOCATED"
      "\<forall>a. flag_at (h_block s') a ALLOCATED \<longleftrightarrow> flag_at (h_block s) a ALLOCATED \<or> in_range addr ?sz a"
      "\<forall>a. flag_at (h_block s') a OBJECT \<longleftrightarrow> flag_at (h_block s) a OBJECT \<or> in_range addr SLOT_SIZE a"
      "\<forall>a. in_range addr ?sz a \<longrightarrow> claimed (h_free s) (addr, m) [] ?sz mem1 a = 0"
      "\<forall>a. flag_at (h_block s) a ALLOCATED \<or> tree_find (h_block s') a = None \<longrightarrow>
         claimed (h_free s) (addr, m) [] ?sz mem1 a = mem1 a"
      "threaded mem1 (h_free s @ [(addr, m)]) \<longrightarrow> threaded (claimed (h_free s) (addr, m) [] ?sz mem1) (h_free s')"
      using claim_effect[of s1 "(addr, m)" "h_free s" "[]" "make_block addr m" ?sz mem1,
          unfolded s1(1,3) fst_conv snd_conv append_Nil2,
          OF st(1) nb1 st(2,3) sz(1,2) m(3) s1(2)]
      unfolding st(4) s1(1) by blast
    have gc: "gc_ready (h_block s) \<longrightarrow> gc_ready (h_block s')" using e(6) st(5) s1(1) by simp
    have out: "\<forall>a. flag_at (h_block s) a ALLOCATED \<or> tree_find (h_block s') a = None \<longrightarrow>
        claimed (h_free s) (addr, m) [] ?sz mem1 a = mem a"
      using e(4,11) nb(1) s1(1) by metis
    have th: "threaded mem (h_free s) \<longrightarrow> threaded (claimed (h_free s) (addr, m) [] ?sz mem1) (h_free s')"
      using e(12) nb(2) by blast
    show ?thesis
      unfolding al using e(1,2,3,5,7-10) gc out th by blast
  qed
qed

text \<open>C8: in a heap whose blocks lie in the address space, a request for at least one byte that does not
  wrap around when it is rounded up to whole slots, for which operator new finds storage apart from the
  blocks of the heap should a new block be needed, returns an object in slots that were not allocated
  before.  They are now, and no other slot is; the first of them, and no other slot, gets the object
  flag; their memory is zero; the bytes of every slot that was allocated and all bytes outside of the
  blocks are as before (what is written besides the object are the headers of free chunks and the
  storage of the new block); the free list again holds only unallocated, disjoint chunks, and
  is again the one threaded through the memory.\<close>

theorem allocate_fresh:
  assumes "heap_ok s" "addressable (h_block s)" "0 < sz" "round_up sz SLOT_SIZE < 2 ^ 64"
    "fresh_storage s addr sz"
  shows "\<exists>p s' mem'. heap_allocate s mem addr sz = Inr (Some p, s', mem') \<and> heap_ok s' \<and>
    (\<forall>a. in_range p (round_up sz SLOT_SIZE) a \<longrightarrow> \<not> flag_at (h_block s) a ALLOCATED) \<and>
    (\<forall>a. flag_at (h_block s') a ALLOCATED \<longleftrightarrow>
       flag_at (h_block s) a ALLOCATED \<or> in_range p (round_up sz SLOT_SIZE) a) \<and>
    (\<forall>a. flag_at (h_block s') a OBJECT \<longleftrightarrow> flag_at (h_block s) a OBJECT \<or> in_range p SLOT_SIZE a) \<and>
    (\<forall>a. in_range p (round_up sz SLOT_SIZE) a \<longrightarrow> mem' a = 0) \<and>
    (\<forall>a. flag_at (h_block s) a ALLOCATED \<or> tree_find (h_block s') a = None \<longrightarrow> mem' a = mem a) \<and>
    (threaded mem (h_free s) \<longrightarrow> threaded mem' (h_free s')) \<and>
    h_allocated s' = (h_allocated s + round_up sz SLOT_SIZE) mod 2 ^ 64 \<and>
    addressable (h_block s') \<and> (gc_ready (h_block s) \<longrightarrow> gc_ready (h_block s'))"
  by (rule allocate_effect[OF assms])

text \<open>The second request is served from the rest of the block of the first one.\<close>

theorem allocate_fresh_witness:
  "\<exists>p s' mem'. heap_allocate (make_external_heap 1 0 0) (\<lambda>_. 7) 4096 20 = Inr (Some p, s', mem') \<and>
     flag_at (h_block s') p OBJECT \<and> mem' p = 0 \<and> threaded mem' (h_free s')"
proof -
  have f: "fresh_storage (make_external_heap 1 0 0) 4096 20"
    "addressable (h_block (make_external_heap 1 0 0))" "round_up 20 SLOT_SIZE < 2 ^ 64"
    by (simp_all add: fresh_storage_def make_external_heap_def new_block_size_def round_up_def SLOT_SIZE_def
        addressable_def)
  obtain p s' mem' where "heap_allocate (make_external_heap 1 0 0) (\<lambda>_. 7) 4096 20 = Inr (Some p, s', mem')"
    "\<forall>a. in_range p SLOT_SIZE a \<longrightarrow> flag_at (h_block s') a OBJECT"
    "\<forall>a. in_range p (round_up 20 SLOT_SIZE) a \<longrightarrow> mem' a = 0"
    "threaded (\<lambda>_. 7) (h_free (make_external_heap 1 0 0)) \<longrightarrow> threaded mem' (h_free s')"
    using allocate_fresh[OF make_external_heap_ok f(2) _ f(3,1), of "\<lambda>_. 7"] by auto
  then show ?thesis
    by (force simp: in_range_def SLOT_SIZE_def round_up_def make_external_heap_def)
qed

text \<open>A request close to the end of the address space is rounded up to nothing.\<close>

lemma allocation_wraps: "round_up (2 ^ 64 - 8) SLOT_SIZE mod 2 ^ 64 = 0"
  by (simp add: round_up_def SLOT_SIZE_def)

text \<open>a heap built with its root inside itself is well-formed; its root is allocated and zero.\<close>

theorem make_heap_root:
  assumes "0 < root_size" "addr + round_up root_size SLOT_SIZE < 2 ^ 64"
  shows "\<exists>s mem'. make_heap self mem addr root_size = Inr (s, mem') \<and> heap_ok s \<and>
    h_end s = h_begin s + root_size \<and> heap_is_object s (h_begin s) = Inr True \<and>
    (\<forall>a. h_begin s \<le> a \<and> a < h_end s \<longrightarrow> heap_is_allocated s a = Inr True \<and> mem' a = 0)"
proof -
  have fr: "fresh_storage (make_external_heap self 0 0) addr root_size"
    "addressable (h_block (make_external_heap self 0 0))" "round_up root_size SLOT_SIZE < 2 ^ 64"
    using assms(2) by (simp_all add: fresh_storage_def make_external_heap_def new_block_size_def addressable_def)
  obtain p s mem' where a: "heap_allocate (make_external_heap self 0 0) mem addr root_size = Inr (Some p, s, mem')"
    "heap_ok s" "\<forall>a. in_range p (round_up root_size SLOT_SIZE) a \<longrightarrow> flag_at (h_block s) a ALLOCATED"
    "\<forall>a. in_range p SLOT_SIZE a \<longrightarrow> flag_at (h_block s) a OBJECT"
    "\<forall>a. in_range p (round_up root_size SLOT_SIZE) a \<longrightarrow> mem' a = 0"
    using allocate_effect[OF make_external_heap_ok fr(2) assms(1) fr(3,1), of mem] by blast
  have "root_size \<le> round_up root_size SLOT_SIZE" by (rule round_up_ge) (simp add: SLOT_SIZE_def)
  then have r: "in_range p (round_up root_size SLOT_SIZE) a" if "p \<le> a" "a < p + root_size" for a
    using that by (simp add: in_range_def)
  show ?thesis
    using a(1,2,4) a(3,5) r
    by (simp add: make_heap_def heap_ok_def heap_queries) (simp add: in_range_def SLOT_SIZE_def)
qed

theorem make_heap_root_witness:
  "\<exists>s mem'. make_heap 1 (\<lambda>_. 7) 4096 24 = Inr (s, mem') \<and> heap_is_object s (h_begin s) = Inr True"
  using make_heap_root[of 24 4096 1 "\<lambda>_. 7"] by (auto simp: round_up_def SLOT_SIZE_def)

end
