(* ===== verification/HeapCollect.thy ===== *)
theory HeapCollect
  imports HeapAlloc
begin

text \<open>
  The conservative mark-and-sweep collector (Heap::mark_slot_for_address, scan,
  collect_garbage and Block::scan, scan_worklist of heap.cpp).  The state of a
  marking phase is the block tree, the list of child heaps, whose reachable flags it sets,
  and the work list of block addresses.  Marking reads the memory.  Sweeping is given by what it does to the bits and to the
  free list: the chunk headers it writes into the slots it frees are not written into the memory of the model.
\<close>

section \<open>Marking\<close>

type_synonym gc = "btree \<times> heap list \<times> nat list"

text \<open>The loop over the child heaps: the first one at the address is flagged.\<close>

fun mark_child :: "nat \<Rightarrow> heap list \<Rightarrow> heap list" where
  "mark_child p [] = []"
| "mark_child p (k # ks) =
     (if h_self (hs k) = p then Heap ((hs k)\<lparr>h_reachable := True\<rparr>) (kids k) # ks
      else k # mark_child p ks)"

definition mark_slot_for_address :: "nat \<Rightarrow> gc \<Rightarrow> gc outcome" where
  "mark_slot_for_address p = (\<lambda>(t, ks, wl).
     case tree_find t p of
       Some b \<Rightarrow> obind (block_mark b p wl) (\<lambda>(b', wl'). Inr (tree_update t p b', ks, wl'))
     | None \<Rightarrow> Inr (t, mark_child p ks, wl))"

text \<open>The addresses \<open>b\<close>, \<open>b + 8\<close>, ... below \<open>e\<close> that Heap::scan reads.\<close>

function scan_addresses :: "nat \<Rightarrow> nat \<Rightarrow> nat list" where
  "scan_addresses b e = (if b < e then b # scan_addresses (b + 8) e else [])"
  by auto
termination by (relation "measure (\<lambda>(b, e). e - b)") auto

declare scan_addresses.simps [simp del]

definition heap_scan :: "memory \<Rightarrow> nat \<Rightarrow> nat \<Rightarrow> gc \<Rightarrow> gc outcome" where
  "heap_scan mem b e gc =
     ofold (\<lambda>gc a. mark_slot_for_address (read_pointer_at mem a) gc)
       (scan_addresses (round_up b 8) e) gc"

text \<open>One iteration of Block::scan, for slot \<open>k\<close> of the block that starts at \<open>start\<close>.\<close>

definition scan_slot :: "memory \<Rightarrow> nat \<Rightarrow> gc \<Rightarrow> nat \<Rightarrow> gc outcome" where
  "scan_slot mem start = (\<lambda>(t, ks, wl) k.
     case tree_find t start of
       None \<Rightarrow> Inl Undefined_behaviour
     | Some b \<Rightarrow>
         if flag (blk_bits b) k MARK \<and> \<not> flag (blk_bits b) k SCANNED then
           heap_scan mem (start + k * SLOT_SIZE) (start + (k + 1) * SLOT_SIZE)
             (tree_update t start (b\<lparr>blk_bits := set_bits (blk_bits b) k SCANNED\<rparr>), ks, wl)
         else Inr (t, ks, wl))"

definition block_scan :: "memory \<Rightarrow> nat \<Rightarrow> gc \<Rightarrow> gc outcome" where
  "block_scan mem start = (\<lambda>(t, ks, wl).
     case tree_find t start of
       None \<Rightarrow> Inl Undefined_behaviour
     | Some b \<Rightarrow> ofold (scan_slot mem start) [0..<slots b] (t, ks, wl))"

text \<open>Block::scan_worklist; the first argument bounds the number of iterations.\<close>

fun scan_worklist :: "memory \<Rightarrow> nat \<Rightarrow> gc \<Rightarrow> gc outcome" where
  "scan_worklist mem n (t, ks, []) = Inr (t, ks, [])"
| "scan_worklist mem 0 (t, ks, start # wl) = Inl Out_of_fuel"
| "scan_worklist mem (Suc n) (t, ks, start # wl) =
     obind (block_scan mem start (t, ks, wl)) (scan_worklist mem n)"

text \<open>
  The number of slots not yet marked.  Every block that enters the work list marks a slot that was
  not marked, so one iteration per waiting block and unmarked slot is enough.
\<close>

definition unmarked_slots :: "block \<Rightarrow> nat" where
  "unmarked_slots b = slots b - marked_slots (blk_bits b) 0 (slots b)"

definition work_left :: "gc \<Rightarrow> nat" where
  "work_left = (\<lambda>(t, ks, wl). length wl + (\<Sum>b \<leftarrow> blocks t. unmarked_slots b))"

text \<open>The marking half of Heap::collect_garbage.\<close>

definition mark_phase :: "memory \<Rightarrow> heap_state \<Rightarrow> heap list \<Rightarrow> gc outcome" where
  "mark_phase mem s ks =
     obind (case tree_find (h_block s) (h_begin s) of
              None \<Rightarrow> Inr (h_block s, ks, [])
            | Some b \<Rightarrow> obind (block_mark b (h_begin s) []) (\<lambda>(b', wl).
                Inr (tree_update (h_block s) (h_begin s) b', ks, wl)))
       (\<lambda>gc. obind (heap_scan mem (h_begin s) (h_end s) gc) (\<lambda>gc.
         scan_worklist mem (work_left gc) gc))"

text \<open>The sweeping half.\<close>

definition sweep_phase :: "heap_state \<Rightarrow> btree \<Rightarrow> heap_state outcome" where
  "sweep_phase s t =
     obind (tree_sweep t []) (\<lambda>(n, t', cs).
       Inr (s\<lparr>h_block := t', h_free := cs, h_allocated := n * SLOT_SIZE,
              h_next_collection := n * SLOT_SIZE * 2, h_next_block := n * SLOT_SIZE\<rparr>))"

definition collect_self :: "memory \<Rightarrow> heap_state \<Rightarrow> heap list \<Rightarrow> (heap_state \<times> heap list) outcome" where
  "collect_self mem s ks =
     obind (mark_phase mem s ks) (\<lambda>(t, ks', _).
     obind (sweep_phase s t) (\<lambda>s'. Inr (s', ks')))"

definition due :: "bool \<Rightarrow> heap_state \<Rightarrow> bool" where
  "due force s \<longleftrightarrow> force \<or> h_next_collection s < h_allocated s"

definition unreached :: "heap \<Rightarrow> heap" where
  "unreached h = Heap ((hs h)\<lparr>h_reachable := False\<rparr>) (kids h)"

text \<open>
  Heap::collect_garbage, with its loop over the children.  After a full collection
  the child list has been flagged (the list of flags is the first argument of \<open>collect_reachable\<close>);
  reachable children are collected in turn and unflagged, the others are deleted.
\<close>

fun collect_garbage :: "bool \<Rightarrow> memory \<Rightarrow> heap \<Rightarrow> (bool \<times> heap) outcome"
  and collect_reachable :: "bool list \<Rightarrow> memory \<Rightarrow> heap list \<Rightarrow> heap list outcome"
  and collect_children :: "memory \<Rightarrow> heap list \<Rightarrow> (bool \<times> heap list) outcome"
where
  "collect_garbage force mem (Heap s ks) =
     (if due force s then
        obind (collect_self mem s ks) (\<lambda>(s', ks').
        obind (collect_reachable (map (\<lambda>k. h_reachable (hs k)) ks') mem ks) (\<lambda>ks''.
          Inr (True, Heap s' ks'')))
      else
        obind (collect_children mem ks) (\<lambda>(r, ks'). Inr (r, Heap s ks')))"
| "collect_reachable (True # flags) mem (k # ks) =
     obind (collect_garbage False mem k) (\<lambda>(_, k').
     obind (collect_reachable flags mem ks) (\<lambda>ks'. Inr (unreached k' # ks')))"
| "collect_reachable (False # flags) mem (k # ks) = collect_reachable flags mem ks"
| "collect_reachable _ mem _ = Inr []"
| "collect_children mem [] = Inr (False, [])"
| "collect_children mem (k # ks) =
     obind (collect_garbage False mem k) (\<lambda>(r, k').
     obind (collect_children mem ks) (\<lambda>(rs, ks'). Inr (r \<or> rs, k' # ks')))"

section \<open>Marking one address\<close>

text \<open>Every allocated slot has an object's first slot at or before it.\<close>

definition objects_ok :: "block \<Rightarrow> bool" where
  "objects_ok b \<longleftrightarrow> (\<forall>k < slots b. flag (blk_bits b) k ALLOCATED \<longrightarrow> (\<exists>i \<le> k. flag (blk_bits b) i OBJECT))"

definition run_closed :: "block \<Rightarrow> bool" where
  "run_closed b \<longleftrightarrow> (\<forall>i k. flag (blk_bits b) i MARK \<and> in_run (blk_bits b) i k \<and> k < slots b \<longrightarrow>
     flag (blk_bits b) k MARK)"

text \<open>The part of the invariant that concerns one block.\<close>

definition block_inv :: "block \<Rightarrow> bool" where
  "block_inv b \<longleftrightarrow> block_wf b \<and> objects_ok b \<and> run_closed b \<and>
     (\<forall>k < slots b. flag (blk_bits b) k MARK \<longrightarrow> blk_marked b)"

lemma last_object:
  assumes "\<exists>i \<le> s. P i"
  shows "\<exists>i \<le> s. P i \<and> (\<forall>k. i < k \<and> k \<le> s \<longrightarrow> \<not> P (k :: nat))"
proof -
  obtain i where i: "i \<le> s" "P i" using assms by blast
  let ?m = "Greatest (\<lambda>i. i \<le> s \<and> P i)"
  have m: "?m \<le> s \<and> P ?m" by (rule GreatestI_nat[of _ i s]) (use i in auto)
  moreover have "\<not> P k" if "?m < k" "k \<le> s" for k
    using Greatest_le_nat[of "\<lambda>i. i \<le> s \<and> P i" k s] that by fastforce
  ultimately show ?thesis by blast
qed

lemma in_run_mono: "in_run bits s k \<Longrightarrow> s \<le> i \<Longrightarrow> i \<le> k \<Longrightarrow> in_run bits i k"
  by (auto simp: in_run_def)

lemma in_run_trans: "in_run bits s i \<Longrightarrow> in_run bits i k \<Longrightarrow> in_run bits s k"
  unfolding in_run_def by (metis le_trans nat_le_linear)

lemma in_run_cong:
  "same_but_mark bits bits' \<Longrightarrow> k < 2 * length bits \<Longrightarrow> in_run bits' s k \<longleftrightarrow> in_run bits s k"
  by (auto simp: in_run_def same_but_mark_def)

lemma marked_slots_le: "marked_slots bits 0 n \<le> n"
proof -
  have "card {k. 0 \<le> k \<and> k < n \<and> flag bits k MARK} \<le> card {..<n}" by (rule card_mono) auto
  then show ?thesis by (simp add: marked_slots_def)
qed

lemma unmarked_slots_less:
  assumes "slots b' = slots b"
    and "\<And>k. k < slots b \<Longrightarrow> flag (blk_bits b) k MARK \<Longrightarrow> flag (blk_bits b') k MARK"
  shows "unmarked_slots b' \<le> unmarked_slots b"
    "s < slots b \<Longrightarrow> flag (blk_bits b') s MARK \<Longrightarrow> \<not> flag (blk_bits b) s MARK \<Longrightarrow>
       unmarked_slots b' < unmarked_slots b"
proof -
  let ?M = "\<lambda>b. {k. 0 \<le> k \<and> k < slots b \<and> flag (blk_bits b) k MARK}"
  have fin: "finite (?M b')" by simp
  have sub: "?M b \<subseteq> ?M b'" using assms by auto
  have le: "marked_slots (blk_bits b) 0 (slots b) \<le> marked_slots (blk_bits b') 0 (slots b')"
    unfolding marked_slots_def by (rule card_mono[OF fin sub])
  then show "unmarked_slots b' \<le> unmarked_slots b"
    using assms(1) by (simp add: unmarked_slots_def)
  assume s: "s < slots b" "flag (blk_bits b') s MARK" "\<not> flag (blk_bits b) s MARK"
  have "?M b \<noteq> ?M b'" using s assms(1) by auto
  then have "marked_slots (blk_bits b) 0 (slots b) < marked_slots (blk_bits b') 0 (slots b')"
    unfolding marked_slots_def using psubset_card_mono[OF fin] sub by blast
  then show "unmarked_slots b' < unmarked_slots b"
    using assms(1) marked_slots_le[of "blk_bits b'" "slots b'"] by (simp add: unmarked_slots_def)
qed

text \<open>What marking through an address of the block guarantees, whether or not it marks anything.\<close>

definition marks :: "nat \<Rightarrow> block \<Rightarrow> nat list \<Rightarrow> block \<Rightarrow> nat list \<Rightarrow> bool" where
  "marks s b wl b' wl' \<longleftrightarrow>
     blk_begin b' = blk_begin b \<and> blk_end b' = blk_end b \<and> block_inv b' \<and>
     same_but_mark (blk_bits b) (blk_bits b') \<and>
     (\<forall>k < slots b. flag (blk_bits b) k MARK \<longrightarrow> flag (blk_bits b') k MARK) \<and>
     (\<forall>k < slots b. flag (blk_bits b') k MARK \<and> \<not> flag (blk_bits b) k MARK \<longrightarrow> blk_begin b \<in> set wl') \<and>
     (flag (blk_bits b) s ALLOCATED \<longrightarrow> flag (blk_bits b') s MARK) \<and>
     set wl \<subseteq> set wl' \<and> set wl' \<subseteq> insert (blk_begin b) (set wl) \<and>
     length wl' + unmarked_slots b' \<le> length wl + unmarked_slots b"

lemma block_mark_marks:
  assumes inv: "block_inv b" and s: "slot b a = Inr s"
  shows "\<exists>b' wl'. block_mark b a wl = Inr (b', wl') \<and> marks s b wl b' wl'"
proof -
  have wf: "block_wf b" using inv by (simp add: block_inv_def)
  have sl: "s < slots b" by (rule slot_bound(1)[OF wf s])
  consider "flag (blk_bits b) s MARK \<or> \<not> flag (blk_bits b) s ALLOCATED"
    | "flag (blk_bits b) s ALLOCATED" "\<not> flag (blk_bits b) s MARK" by blast
  then show ?thesis
  proof cases
    case 1
    then show ?thesis using s inv by (auto simp: block_mark_def marks_def)
  next
    case 2
    obtain o' where o': "o' \<le> s" "flag (blk_bits b) o' OBJECT"
      "\<forall>k. o' < k \<and> k \<le> s \<longrightarrow> \<not> flag (blk_bits b) k OBJECT"
      using last_object[of s "\<lambda>i. flag (blk_bits b) i OBJECT"] inv 2(1) sl
      by (auto simp: block_inv_def objects_ok_def)
    obtain b' wl' where m: "block_mark b a wl = Inr (b', wl')" "blk_marked b'" "blk_begin b \<in> set wl'"
      "set wl \<subseteq> set wl'" "blk_begin b' = blk_begin b" "blk_end b' = blk_end b"
      "same_but_mark (blk_bits b) (blk_bits b')"
      "\<forall>k < slots b. flag (blk_bits b') k MARK \<longleftrightarrow>
         flag (blk_bits b) k MARK \<or> (o' < k \<and> k \<le> s) \<or> in_run (blk_bits b) s k"
      using block_mark_effect[OF wf s 2 o'(1,2), where wl = wl] o'(3) by blast
    have sb: "slots b' = slots b" using m(5,6) by (simp add: slots_def)
    have lb: "length (blk_bits b') = length (blk_bits b)" using m(7) by (simp add: same_but_mark_def)
    have wf': "block_wf b'" using wf unfolding block_wf_def sb m(5,6) lb .
    have bound: "k < slots b \<Longrightarrow> k < 2 * length (blk_bits b)" for k by (rule block_wf_bits[OF wf])
    have ss: "in_run (blk_bits b) s s" using 2(1) by (auto simp: in_run_def dest: le_antisym)
    have wl': "wl' = (if blk_begin b \<in> set wl then wl else blk_begin b # wl)"
      using m(1) s 2 by (auto simp: block_mark_def Let_def outcome_simps)
    have less: "unmarked_slots b' < unmarked_slots b"
      by (rule unmarked_slots_less(2)[OF sb _ sl]) (use m(8) sl ss 2(2) in auto)
    have "objects_ok b'"
      using inv sb m(7) bound unfolding block_inv_def objects_ok_def same_but_mark_def
      by (metis le_less_trans)
    moreover have "run_closed b'"
      unfolding run_closed_def
    proof (intro allI impI)
      fix i k assume h: "flag (blk_bits b') i MARK \<and> in_run (blk_bits b') i k \<and> k < slots b'"
      then have ik: "i \<le> k" "k < slots b" "i < slots b" "in_run (blk_bits b) i k"
        using in_run_cong[OF m(7) bound] sb by (auto simp: in_run_def)
      consider "flag (blk_bits b) i MARK" | "o' < i" "i \<le> s" | "in_run (blk_bits b) s i"
        using h m(8) ik(3) by blast
      then show "flag (blk_bits b') k MARK"
      proof cases
        case 1
        then show ?thesis using inv ik m(8) by (auto simp: block_inv_def run_closed_def)
      next
        case 2
        then show ?thesis using m(8) ik in_run_mono[OF ik(4), of s] by (cases "k \<le> s") auto
      next
        case 3
        then show ?thesis using m(8) ik in_run_trans by blast
      qed
    qed
    ultimately have "block_inv b'" using wf' m(2) by (simp add: block_inv_def)
    then show ?thesis
      using m wl' less 2 sl ss by (intro exI[of _ b'] exI[of _ wl'] conjI) (auto simp: marks_def)
  qed
qed

section \<open>The marking invariant\<close>

definition tree_inv :: "btree \<Rightarrow> bool" where
  "tree_inv t \<longleftrightarrow> tree_wf t \<and> (\<forall>b \<in> set (blocks t). block_inv b)"

definition region_at :: "btree \<Rightarrow> nat \<Rightarrow> (nat \<times> nat) option" where
  "region_at t a = map_option (\<lambda>b. (blk_begin b, blk_end b)) (tree_find t a)"

definition unmarked_total :: "btree \<Rightarrow> nat" where
  "unmarked_total t = (\<Sum>b \<leftarrow> blocks t. unmarked_slots b)"

lemma tree_inv_find:
  assumes "tree_inv t" "tree_find t p = Some b"
  shows "b \<in> set (blocks t)" "in_block b p" "block_inv b" "block_wf b" "tree_wf t"
    "region_at t p = Some (blk_begin b, blk_end b)"
  using assms tree_find_Some[of t p b] by (auto simp: tree_inv_def region_at_def block_inv_def)

lemma tree_inv_update:
  assumes inv: "tree_inv t" "tree_find t p = Some b"
    and b': "block_inv b'" "blk_begin b' = blk_begin b" "blk_end b' = blk_end b"
  shows "tree_inv (tree_update t p b')"
    "region_at (tree_update t p b') = region_at t"
    "flag_at (tree_update t p b') a m =
       (if in_block b a then flag (blk_bits b') ((a - blk_begin b) div SLOT_SIZE) m else flag_at t a m)"
    "unmarked_total (tree_update t p b') + unmarked_slots b = unmarked_total t + unmarked_slots b'"
proof -
  note f = tree_inv_find[OF inv]
  have wf': "block_wf b'" using b'(1) by (simp add: block_inv_def)
  note u = tree_find_update[OF f(5) inv(2) wf' b'(2,3)]
  obtain xs ys where t: "blocks t = xs @ b # ys" "blocks (tree_update t p b') = xs @ b' # ys"
    using tree_update_blocks[OF f(5) inv(2)] by blast
  show "tree_inv (tree_update t p b')"
    using tree_update_wf[OF f(5) inv(2) wf' b'(2,3)] inv(1) t b'(1) by (auto simp: tree_inv_def)
  have "tree_find t x = Some b" if "in_block b x" for x
    using tree_find_Some[OF f(5)] f(1) that by blast
  then show "region_at (tree_update t p b') = region_at t"
    using u b'(2,3) by (auto simp: region_at_def fun_eq_iff)
  show "flag_at (tree_update t p b') a m =
       (if in_block b a then flag (blk_bits b') ((a - blk_begin b) div SLOT_SIZE) m else flag_at t a m)"
    using u[of a] b'(2) by (simp add: flag_at_def)
  show "unmarked_total (tree_update t p b') + unmarked_slots b = unmarked_total t + unmarked_slots b'"
    using t by (simp add: unmarked_total_def)
qed

lemma flag_at_find:
  assumes "tree_inv t" "tree_find t p = Some b" "in_block b a"
  shows "flag_at t a m = flag (blk_bits b) ((a - blk_begin b) div SLOT_SIZE) m"
    "region_at t a = Some (blk_begin b, blk_end b)" "(a - blk_begin b) div SLOT_SIZE < slots b"
proof -
  note f = tree_inv_find[OF assms(1,2)]
  have "tree_find t a = Some b" using tree_find_Some[OF f(5)] f(1) assms(3) by blast
  then show "flag_at t a m = flag (blk_bits b) ((a - blk_begin b) div SLOT_SIZE) m"
    "region_at t a = Some (blk_begin b, blk_end b)"
    by (simp_all add: flag_at_def region_at_def)
  show "(a - blk_begin b) div SLOT_SIZE < slots b" by (rule in_block_slot[OF f(4) assms(3)])
qed

definition selves :: "heap list \<Rightarrow> nat list" where
  "selves ks = map (\<lambda>k. h_self (hs k)) ks"

definition flagged :: "heap list \<Rightarrow> nat \<Rightarrow> bool" where
  "flagged ks p \<longleftrightarrow> (\<exists>k \<in> set ks. h_self (hs k) = p \<and> h_reachable (hs k))"

lemma mark_child_effect:
  "selves (mark_child p ks) = selves ks"
  "flagged ks q \<Longrightarrow> flagged (mark_child p ks) q"
  "p \<in> set (selves ks) \<Longrightarrow> flagged (mark_child p ks) p"
  by (induction ks) (auto simp: selves_def flagged_def)

text \<open>What may change during a marking phase.\<close>

definition grow :: "gc \<Rightarrow> gc \<Rightarrow> bool" where
  "grow = (\<lambda>(t, ks, wl) (t', ks', wl').
     region_at t' = region_at t \<and> selves ks' = selves ks \<and>
     (\<forall>a. flag_at t' a OBJECT = flag_at t a OBJECT \<and> flag_at t' a ALLOCATED = flag_at t a ALLOCATED) \<and>
     (\<forall>a. flag_at t a MARK \<longrightarrow> flag_at t' a MARK) \<and>
     (\<forall>p. flagged ks p \<longrightarrow> flagged ks' p))"

lemma grow_refl [simp]: "grow gc gc"
  by (cases gc) (simp add: grow_def)

lemma grow_trans: "grow a b \<Longrightarrow> grow b c \<Longrightarrow> grow a c"
  by (cases a; cases b; cases c) (simp add: grow_def)

text \<open>What marking alone guarantees: SCANNED stays, newly marked blocks are queued.\<close>

definition advance :: "gc \<Rightarrow> gc \<Rightarrow> bool" where
  "advance = (\<lambda>(t, ks, wl) (t', ks', wl').
     grow (t, ks, wl) (t', ks', wl') \<and> tree_inv t' \<and>
     (\<forall>a. flag_at t' a SCANNED = flag_at t a SCANNED) \<and>
     (\<forall>a B e. flag_at t' a MARK \<and> \<not> flag_at t a MARK \<and> region_at t a = Some (B, e) \<longrightarrow> B \<in> set wl') \<and>
     set wl \<subseteq> set wl' \<and> (\<forall>x \<in> set wl'. x \<in> set wl \<or> (\<exists>e. region_at t x = Some (x, e))) \<and>
     length wl' + unmarked_total t' \<le> length wl + unmarked_total t)"

lemma advance_refl: "tree_inv t \<Longrightarrow> advance (t, ks, wl) (t, ks, wl)"
  by (auto simp: advance_def)

lemma advance_grow: "advance a b \<Longrightarrow> grow a b"
  by (cases a; cases b) (simp add: advance_def)

lemma advance_trans:
  assumes "advance a b" "advance b c"
  shows "advance a c"
proof -
  obtain t ks wl where a: "a = (t, ks, wl)" by (cases a)
  obtain t' ks' wl' where b: "b = (t', ks', wl')" by (cases b)
  obtain t'' ks'' wl'' where c: "c = (t'', ks'', wl'')" by (cases c)
  have g: "grow a c" using assms advance_grow grow_trans by blast
  have r: "region_at t' = region_at t" using advance_grow[OF assms(1)] by (simp add: a b grow_def)
  have ab: "\<And>x. flag_at t' x SCANNED = flag_at t x SCANNED"
    "\<And>x B e. flag_at t' x MARK \<Longrightarrow> \<not> flag_at t x MARK \<Longrightarrow> region_at t x = Some (B, e) \<Longrightarrow> B \<in> set wl'"
    "set wl \<subseteq> set wl'" "\<And>x. x \<in> set wl' \<Longrightarrow> x \<in> set wl \<or> (\<exists>e. region_at t x = Some (x, e))"
    "length wl' + unmarked_total t' \<le> length wl + unmarked_total t"
    using assms(1) by (auto simp: a b advance_def)
  have bc: "tree_inv t''" "\<And>x. flag_at t'' x SCANNED = flag_at t' x SCANNED"
    "\<And>x B e. flag_at t'' x MARK \<Longrightarrow> \<not> flag_at t' x MARK \<Longrightarrow> region_at t x = Some (B, e) \<Longrightarrow> B \<in> set wl''"
    "set wl' \<subseteq> set wl''" "\<And>x. x \<in> set wl'' \<Longrightarrow> x \<in> set wl' \<or> (\<exists>e. region_at t x = Some (x, e))"
    "length wl'' + unmarked_total t'' \<le> length wl' + unmarked_total t'"
    using assms(2) r by (auto simp: b c advance_def)
  have "B \<in> set wl''" if "flag_at t'' x MARK" "\<not> flag_at t x MARK" "region_at t x = Some (B, e)" for x B e
    using ab(2)[OF _ that(2,3)] bc(3)[OF that(1) _ that(3)] bc(4) by blast
  moreover have "x \<in> set wl \<or> (\<exists>e. region_at t x = Some (x, e))" if "x \<in> set wl''" for x
    using bc(5)[OF that] ab(4) by blast
  ultimately show ?thesis
    using g ab bc unfolding a c advance_def by auto
qed

text \<open>A pointer has been dealt with: what it points to is marked or flagged.\<close>

definition handled :: "gc \<Rightarrow> nat \<Rightarrow> bool" where
  "handled = (\<lambda>(t, ks, wl) p.
     (flag_at t p ALLOCATED \<longrightarrow> flag_at t p MARK) \<and>
     (region_at t p = None \<and> p \<in> set (selves ks) \<longrightarrow> flagged ks p))"

lemma handled_grow: "handled a p \<Longrightarrow> grow a b \<Longrightarrow> handled b p"
  by (cases a; cases b) (simp add: handled_def grow_def)

lemma mark_slot_advance:
  assumes "tree_inv t"
  shows "\<exists>gc'. mark_slot_for_address p (t, ks, wl) = Inr gc' \<and> advance (t, ks, wl) gc' \<and> handled gc' p"
proof (cases "tree_find t p")
  case None
  then have "\<not> flag_at t p ALLOCATED" by (simp add: flag_at_def)
  then show ?thesis
    using None assms
    by (auto simp: mark_slot_for_address_def advance_def grow_def handled_def mark_child_effect)
next
  case (Some b)
  note f = tree_inv_find[OF assms Some]
  let ?s = "(p - blk_begin b) div SLOT_SIZE"
  obtain b' wl' where m: "block_mark b p wl = Inr (b', wl')" "marks ?s b wl b' wl'"
    using block_mark_marks[OF f(3) slot_in_block[OF Some]] by blast
  have e: "block_inv b'" "blk_begin b' = blk_begin b" "blk_end b' = blk_end b"
    and same: "same_but_mark (blk_bits b) (blk_bits b')"
    and mono: "\<And>k. k < slots b \<Longrightarrow> flag (blk_bits b) k MARK \<Longrightarrow> flag (blk_bits b') k MARK"
    and new: "\<And>k. k < slots b \<Longrightarrow> flag (blk_bits b') k MARK \<Longrightarrow> \<not> flag (blk_bits b) k MARK \<Longrightarrow> blk_begin b \<in> set wl'"
    and hit: "flag (blk_bits b) ?s ALLOCATED \<Longrightarrow> flag (blk_bits b') ?s MARK"
    and wl: "set wl \<subseteq> set wl'" "set wl' \<subseteq> insert (blk_begin b) (set wl)"
      "length wl' + unmarked_slots b' \<le> length wl + unmarked_slots b"
    using m(2) by (auto simp: marks_def)
  let ?t = "tree_update t p b'"
  note u = tree_inv_update[OF assms Some e]
  have in_b: "flag_at t a m = flag (blk_bits b) ((a - blk_begin b) div SLOT_SIZE) m"
    "(a - blk_begin b) div SLOT_SIZE < slots b" "(a - blk_begin b) div SLOT_SIZE < 2 * length (blk_bits b)"
    "region_at t a = Some (blk_begin b, blk_end b)"
    if "in_block b a" for a m
    using flag_at_find[OF assms Some that] block_wf_bits[OF f(4)] by auto
  have g: "grow (t, ks, wl) (?t, ks, wl')"
    using u(2) in_b same mono by (auto simp: grow_def u(3) same_but_mark_def)
  have "region_at t (blk_begin b) = Some (blk_begin b, blk_end b)"
    using in_b(4)[of "blk_begin b"] block_wf_less[OF f(4)] by (simp add: in_block_def)
  moreover have "flag_at ?t a SCANNED = flag_at t a SCANNED" for a
    using in_b same by (auto simp: u(3) same_but_mark_def)
  moreover have "B \<in> set wl'" if "flag_at ?t a MARK" "\<not> flag_at t a MARK" "region_at t a = Some (B, e)" for a B e
    using that in_b(1)[of a MARK] in_b(2,4)[of a] new by (auto simp: u(3) split: if_splits)
  moreover have "length wl' + unmarked_total ?t \<le> length wl + unmarked_total t"
    using wl(3) u(4) by linarith
  ultimately have a: "advance (t, ks, wl) (?t, ks, wl')"
    using g u(1) wl(1,2) by (auto simp: advance_def)
  have "flag_at ?t p MARK" if "flag_at ?t p ALLOCATED"
    using that hit in_b[OF f(2)] f(2) same by (auto simp: u(3) same_but_mark_def)
  then have "handled (?t, ks, wl') p" using f(6) u(2) by (simp add: handled_def)
  then show ?thesis using a m(1) Some by (simp add: mark_slot_for_address_def)
qed

section \<open>Scanning\<close>

lemma set_scan_addresses:
  "8 dvd b \<Longrightarrow> set (scan_addresses b e) = {a. b \<le> a \<and> a < e \<and> 8 dvd a}"
proof (induction b e rule: scan_addresses.induct)
  case (1 b e)
  show ?case
  proof (cases "b < e")
    case True
    have "8 dvd b + 8" using "1.prems" by simp
    then have IH: "set (scan_addresses (b + 8) e) = {a. b + 8 \<le> a \<and> a < e \<and> 8 dvd a}"
      by (rule "1.IH"[OF True])
    have "a = b \<or> b + 8 \<le> a" if le: "b \<le> a" and dv: "8 dvd a" for a
    proof -
      obtain i j where "b = 8 * i" "a = 8 * j" using "1.prems" dv by (auto simp: dvd_def)
      then show ?thesis using le by (cases "i = j") auto
    qed
    then show ?thesis using IH True "1.prems" by (subst scan_addresses.simps) auto
  qed (auto simp: scan_addresses.simps)
qed

lemma scan_addresses_words:
  "set (scan_addresses (round_up b 8) e) = {a. b \<le> a \<and> a < e \<and> 8 dvd a}"
proof -
  have "set (scan_addresses (round_up b 8) e) = {a. round_up b 8 \<le> a \<and> a < e \<and> 8 dvd a}"
    by (rule set_scan_addresses[OF round_up_dvd])
  moreover have "round_up b 8 \<le> a \<longleftrightarrow> b \<le> a" if "8 dvd a" for a
    using round_up_least[OF that, of b] round_up_ge[of 8 b] by auto
  ultimately show ?thesis by auto
qed

lemma ofold_marks:
  assumes "tree_inv (fst gc)"
  shows "\<exists>gc'. ofold (\<lambda>gc a. mark_slot_for_address (f a) gc) as gc = Inr gc' \<and> advance gc gc' \<and>
    (\<forall>a \<in> set as. handled gc' (f a))"
  using assms
proof (induction as arbitrary: gc)
  case Nil
  then show ?case by (cases gc) (simp add: advance_refl)
next
  case (Cons a as)
  obtain t ks wl where gc: "gc = (t, ks, wl)" by (cases gc)
  obtain g1 where g1: "mark_slot_for_address (f a) gc = Inr g1" "advance gc g1" "handled g1 (f a)"
    using mark_slot_advance[of t "f a" ks wl] Cons.prems gc by auto
  then have "tree_inv (fst g1)" using gc by (cases g1) (simp add: advance_def)
  then obtain g2 where g2: "ofold (\<lambda>gc a. mark_slot_for_address (f a) gc) as g1 = Inr g2" "advance g1 g2"
    "\<forall>a \<in> set as. handled g2 (f a)"
    using Cons.IH by blast
  then show ?case
    using g1 advance_trans[OF g1(2) g2(2)] handled_grow[OF g1(3) advance_grow[OF g2(2)]] by auto
qed

lemma heap_scan_advance:
  assumes "tree_inv (fst gc)"
  shows "\<exists>gc'. heap_scan mem b e gc = Inr gc' \<and> advance gc gc' \<and>
    (\<forall>a. b \<le> a \<and> a < e \<and> 8 dvd a \<longrightarrow> handled gc' (read_pointer_at mem a))"
  using ofold_marks[OF assms, of "read_pointer_at mem" "scan_addresses (round_up b 8) e"]
  by (simp add: heap_scan_def scan_addresses_words)

text \<open>
  The marking invariant: a marked slot is scanned, waits in a queued block, or is among
  the slots \<open>P\<close> the current scan has yet to visit; every pointer in a scanned slot is handled.
\<close>

definition gc_inv :: "memory \<Rightarrow> nat set \<Rightarrow> gc \<Rightarrow> bool" where
  "gc_inv mem P = (\<lambda>(t, ks, wl).
     tree_inv t \<and> (\<forall>x \<in> set wl. \<exists>e. region_at t x = Some (x, e)) \<and>
     (\<forall>a B e. flag_at t a MARK \<and> \<not> flag_at t a SCANNED \<and> region_at t a = Some (B, e) \<longrightarrow>
        B \<in> set wl \<or> a \<in> P) \<and>
     (\<forall>a. flag_at t a SCANNED \<and> 8 dvd a \<longrightarrow> handled (t, ks, wl) (read_pointer_at mem a)))"

lemma advance_gc_inv:
  assumes "gc_inv mem P gc" "advance gc gc'"
  shows "gc_inv mem P gc'"
proof -
  obtain t ks wl where a: "gc = (t, ks, wl)" by (cases gc)
  obtain t' ks' wl' where b: "gc' = (t', ks', wl')" by (cases gc')
  have g: "grow gc gc'" by (rule advance_grow[OF assms(2)])
  then have r: "region_at t' = region_at t" by (simp add: a b grow_def)
  have adv: "tree_inv t'" "\<And>x. flag_at t' x SCANNED = flag_at t x SCANNED"
    "\<And>x B e. flag_at t' x MARK \<Longrightarrow> \<not> flag_at t x MARK \<Longrightarrow> region_at t x = Some (B, e) \<Longrightarrow> B \<in> set wl'"
    "set wl \<subseteq> set wl'" "\<And>x. x \<in> set wl' \<Longrightarrow> x \<in> set wl \<or> (\<exists>e. region_at t x = Some (x, e))"
    using assms(2) by (auto simp: a b advance_def)
  have inv: "\<And>x. x \<in> set wl \<Longrightarrow> \<exists>e. region_at t x = Some (x, e)"
    "\<And>a B e. flag_at t a MARK \<Longrightarrow> \<not> flag_at t a SCANNED \<Longrightarrow> region_at t a = Some (B, e) \<Longrightarrow> B \<in> set wl \<or> a \<in> P"
    "\<And>a. flag_at t a SCANNED \<Longrightarrow> 8 dvd a \<Longrightarrow> handled gc (read_pointer_at mem a)"
    using assms(1) by (auto simp: a gc_inv_def)
  have "B \<in> set wl' \<or> x \<in> P"
    if "flag_at t' x MARK" "\<not> flag_at t' x SCANNED" "region_at t x = Some (B, e)" for x B e
    using that adv(2-4) inv(2) by blast
  moreover have "\<exists>e. region_at t x = Some (x, e)" if "x \<in> set wl'" for x
    using adv(5)[OF that] inv(1) by blast
  moreover have "handled gc' (read_pointer_at mem x)" if "flag_at t' x SCANNED" "8 dvd x" for x
    using handled_grow[OF inv(3) g] adv(2) that by simp
  ultimately show ?thesis using adv(1) r by (auto simp: b gc_inv_def)
qed

lemma advance_work: "advance gc gc' \<Longrightarrow> work_left gc' \<le> work_left gc"
  by (cases gc; cases gc') (simp add: advance_def work_left_def unmarked_total_def)

text \<open>The addresses of the slots of a block from slot \<open>k\<close> on.\<close>

definition slots_from :: "block \<Rightarrow> nat \<Rightarrow> nat set" where
  "slots_from b k = {a. in_block b a \<and> k \<le> (a - blk_begin b) div SLOT_SIZE}"

lemma slots_from_Suc: "a \<in> slots_from b k \<Longrightarrow> a \<in> slots_from b (Suc k) \<or>
    (in_block b a \<and> (a - blk_begin b) div SLOT_SIZE = k)"
  by (auto simp: slots_from_def)

text \<open>Setting SCANNED on one slot.\<close>

lemma set_scanned:
  assumes "block_inv b" "k < slots b"
  defines "b' \<equiv> b\<lparr>blk_bits := set_bits (blk_bits b) k SCANNED\<rparr>"
  shows "block_inv b'" "blk_begin b' = blk_begin b" "blk_end b' = blk_end b" "slots b' = slots b"
    "unmarked_slots b' = unmarked_slots b"
    "i < slots b \<Longrightarrow> flag (blk_bits b') i OBJECT = flag (blk_bits b) i OBJECT"
    "i < slots b \<Longrightarrow> flag (blk_bits b') i ALLOCATED = flag (blk_bits b) i ALLOCATED"
    "i < slots b \<Longrightarrow> flag (blk_bits b') i MARK = flag (blk_bits b) i MARK"
    "i < slots b \<Longrightarrow> flag (blk_bits b') i SCANNED \<longleftrightarrow> flag (blk_bits b) i SCANNED \<or> i = k"
proof -
  have wf: "block_wf b" using assms(1) by (simp add: block_inv_def)
  note bound = block_wf_bits[OF wf]
  show be: "blk_begin b' = blk_begin b" "blk_end b' = blk_end b" by (simp_all add: b'_def)
  then show sl: "slots b' = slots b" by (simp add: slots_def)
  have f: "flag (blk_bits b') i OBJECT = flag (blk_bits b) i OBJECT"
    "flag (blk_bits b') i ALLOCATED = flag (blk_bits b) i ALLOCATED"
    "flag (blk_bits b') i MARK = flag (blk_bits b) i MARK"
    "flag (blk_bits b') i SCANNED \<longleftrightarrow> flag (blk_bits b) i SCANNED \<or> i = k" if "i < slots b" for i
    using bound[OF that] by (auto simp: b'_def flag_set_bits)
  then show "i < slots b \<Longrightarrow> flag (blk_bits b') i OBJECT = flag (blk_bits b) i OBJECT"
    "i < slots b \<Longrightarrow> flag (blk_bits b') i ALLOCATED = flag (blk_bits b) i ALLOCATED"
    "i < slots b \<Longrightarrow> flag (blk_bits b') i MARK = flag (blk_bits b) i MARK"
    "i < slots b \<Longrightarrow> flag (blk_bits b') i SCANNED \<longleftrightarrow> flag (blk_bits b) i SCANNED \<or> i = k"
    by auto
  have "marked_slots (blk_bits b') 0 (slots b) = marked_slots (blk_bits b) 0 (slots b)"
    by (rule marked_slots_cong) (simp add: f)
  then show "unmarked_slots b' = unmarked_slots b" by (simp add: unmarked_slots_def sl)
  have len: "length (blk_bits b') = length (blk_bits b)" by (simp add: b'_def)
  have "block_wf b'" using wf unfolding block_wf_def sl be len .
  moreover have "objects_ok b'"
    using assms(1) f sl unfolding block_inv_def objects_ok_def by (metis le_less_trans)
  moreover have "run_closed b'"
    unfolding run_closed_def sl
  proof (intro allI impI)
    fix i j assume h: "flag (blk_bits b') i MARK \<and> in_run (blk_bits b') i j \<and> j < slots b"
    then have "i \<le> j" by (simp add: in_run_def)
    moreover have "in_run (blk_bits b) i j"
      using h f unfolding in_run_def by (metis le_less_trans)
    ultimately show "flag (blk_bits b') j MARK"
      using h f assms(1) unfolding block_inv_def run_closed_def by (metis le_less_trans)
  qed
  moreover have "\<forall>i < slots b. flag (blk_bits b') i MARK \<longrightarrow> blk_marked b'"
    using assms(1) f by (simp add: block_inv_def b'_def)
  ultimately show "block_inv b'" by (simp add: block_inv_def sl)
qed

lemma scan_slot_inv:
  assumes inv: "gc_inv mem (slots_from b k) (t, ks, wl)"
    and b: "tree_find t (blk_begin b0) = Some b0" "blk_begin b = blk_begin b0" "blk_end b = blk_end b0"
    and k: "k < slots b0"
  shows "\<exists>gc'. scan_slot mem (blk_begin b0) (t, ks, wl) k = Inr gc' \<and> grow (t, ks, wl) gc' \<and>
    gc_inv mem (slots_from b (Suc k)) gc' \<and> work_left gc' \<le> work_left (t, ks, wl)"
proof -
  let ?gc = "(t, ks, wl)"
  have i: "tree_inv t" "\<And>x. x \<in> set wl \<Longrightarrow> \<exists>e. region_at t x = Some (x, e)"
    "\<And>a B e. flag_at t a MARK \<Longrightarrow> \<not> flag_at t a SCANNED \<Longrightarrow> region_at t a = Some (B, e) \<Longrightarrow>
       B \<in> set wl \<or> a \<in> slots_from b k"
    "\<And>a. flag_at t a SCANNED \<Longrightarrow> 8 dvd a \<Longrightarrow> handled ?gc (read_pointer_at mem a)"
    using inv by (auto simp: gc_inv_def)
  note f = tree_inv_find[OF i(1) b(1)]
  have ib: "in_block b a = in_block b0 a" for a using b by (simp add: in_block_def)
  have here: "flag_at t a m = flag (blk_bits b0) k m"
    if "in_block b a" "(a - blk_begin b) div SLOT_SIZE = k" for a m
    using flag_at_find(1)[OF i(1) b(1)] that ib b(2) by simp
  show ?thesis
  proof (cases "flag (blk_bits b0) k MARK \<and> \<not> flag (blk_bits b0) k SCANNED")
    case False
    have "B \<in> set wl \<or> a \<in> slots_from b (Suc k)"
      if m: "flag_at t a MARK" "\<not> flag_at t a SCANNED" "region_at t a = Some (B, e)" for a B e
      using i(3)[OF m] slots_from_Suc[of a b k] here[of a] m(1,2) False by blast
    then have "gc_inv mem (slots_from b (Suc k)) ?gc"
      using i(1,2,4) unfolding gc_inv_def prod.case by blast
    moreover have "scan_slot mem (blk_begin b0) ?gc k = Inr ?gc"
      using b(1) by (simp add: scan_slot_def if_not_P[OF False])
    ultimately show ?thesis using grow_refl by blast
  next
    case True
    define b1 where "b1 = b0\<lparr>blk_bits := set_bits (blk_bits b0) k SCANNED\<rparr>"
    note s = set_scanned[OF f(3) k, folded b1_def]
    define t1 where "t1 = tree_update t (blk_begin b0) b1"
    note u = tree_inv_update[OF i(1) b(1) s(1-3), folded t1_def]
    let ?g1 = "(t1, ks, wl)"
    have in_b: "flag_at t a m = flag (blk_bits b0) ((a - blk_begin b0) div SLOT_SIZE) m"
      "(a - blk_begin b0) div SLOT_SIZE < slots b0"
      if "in_block b0 a" for a m
      using flag_at_find[OF i(1) b(1) that] by auto
    have same: "flag_at t1 a OBJECT = flag_at t a OBJECT" "flag_at t1 a ALLOCATED = flag_at t a ALLOCATED"
      "flag_at t1 a MARK = flag_at t a MARK" for a
      using in_b s(6-8) by (auto simp: u(3))
    have sc: "flag_at t1 a SCANNED \<longleftrightarrow>
        flag_at t a SCANNED \<or> (in_block b a \<and> (a - blk_begin b) div SLOT_SIZE = k)" for a
      using in_b(1)[of a SCANNED] in_b(2)[of a] s(9) b(2) by (auto simp: u(3) ib)
    have g1: "grow ?gc ?g1" using same u(2) by (simp add: grow_def)
    obtain g2 where g2: "heap_scan mem (blk_begin b0 + k * SLOT_SIZE) (blk_begin b0 + (k + 1) * SLOT_SIZE) ?g1 = Inr g2"
      "advance ?g1 g2"
      "\<And>a. blk_begin b0 + k * SLOT_SIZE \<le> a \<Longrightarrow> a < blk_begin b0 + (k + 1) * SLOT_SIZE \<Longrightarrow> 8 dvd a \<Longrightarrow>
         handled g2 (read_pointer_at mem a)"
    proof -
      have "tree_inv (fst ?g1)" using u(1) by simp
      then show ?thesis
        using that heap_scan_advance[of ?g1 mem "blk_begin b0 + k * SLOT_SIZE" "blk_begin b0 + (k + 1) * SLOT_SIZE"]
        by blast
    qed
    obtain t2 ks2 wl2 where e2: "g2 = (t2, ks2, wl2)" by (cases g2)
    have gg: "grow ?gc g2" by (rule grow_trans[OF g1 advance_grow[OF g2(2)]])
    have r2: "region_at t2 = region_at t" using gg by (simp add: e2 grow_def)
    have adv: "tree_inv t2" "\<And>x. flag_at t2 x SCANNED = flag_at t1 x SCANNED"
      "\<And>x B e. flag_at t2 x MARK \<Longrightarrow> \<not> flag_at t1 x MARK \<Longrightarrow> region_at t x = Some (B, e) \<Longrightarrow> B \<in> set wl2"
      "set wl \<subseteq> set wl2" "\<And>x. x \<in> set wl2 \<Longrightarrow> x \<in> set wl \<or> (\<exists>e. region_at t x = Some (x, e))"
      using g2(2) unfolding e2 advance_def prod.case u(2) by blast+
    have "\<exists>e. region_at t x = Some (x, e)" if "x \<in> set wl2" for x
      using adv(5)[OF that] i(2) by blast
    moreover have "B \<in> set wl2 \<or> a \<in> slots_from b (Suc k)"
      if m: "flag_at t2 a MARK" "\<not> flag_at t2 a SCANNED" "region_at t a = Some (B, e)" for a B e
    proof (cases "flag_at t a MARK")
      case True
      have ns: "\<not> flag_at t a SCANNED" "\<not> (in_block b a \<and> (a - blk_begin b) div SLOT_SIZE = k)"
        using m(2) adv(2) sc by auto
      then show ?thesis using i(3)[OF True ns(1) m(3)] slots_from_Suc[of a b k] adv(4) by blast
    next
      case False
      then show ?thesis using adv(3)[OF m(1) _ m(3)] same(3) by blast
    qed
    moreover have "handled g2 (read_pointer_at mem a)" if m: "flag_at t2 a SCANNED" "8 dvd a" for a
    proof (cases "flag_at t a SCANNED")
      case True
      then show ?thesis using handled_grow[OF i(4)[OF True m(2)] gg] by blast
    next
      case False
      then have "in_block b0 a" "(a - blk_begin b0) div SLOT_SIZE = k"
        using m(1) adv(2) sc ib b(2) by auto
      then show ?thesis
        using g2(3)[OF _ _ m(2)] slot_range(1)[of "blk_begin b0" a k] slot_range(2)[of "blk_begin b0" a "Suc k"]
        by (simp add: in_block_def)
    qed
    ultimately have "gc_inv mem (slots_from b (Suc k)) g2"
      using adv(1) r2 unfolding e2 gc_inv_def prod.case by simp
    moreover have "work_left g2 \<le> work_left ?g1" by (rule advance_work[OF g2(2)])
    moreover have "work_left ?g1 = work_left ?gc"
      using u(4) s(5) by (simp add: work_left_def unmarked_total_def)
    moreover have "scan_slot mem (blk_begin b0) ?gc k = Inr g2"
      using True b(1) g2(1) by (simp add: scan_slot_def b1_def t1_def)
    ultimately show ?thesis using gg by auto
  qed
qed

lemma scan_slots_inv:
  assumes "gc_inv mem (slots_from b j) gc" "region_at (fst gc) (blk_begin b) = Some (blk_begin b, blk_end b)"
    and "j \<le> n" "n \<le> slots b"
  shows "\<exists>gc'. ofold (scan_slot mem (blk_begin b)) [j..<n] gc = Inr gc' \<and> grow gc gc' \<and>
    gc_inv mem (slots_from b n) gc' \<and> work_left gc' \<le> work_left gc"
  using assms
proof (induction "n - j" arbitrary: j gc)
  case 0
  then have "[j..<n] = []" "j = n" by simp_all
  then show ?case using 0 grow_refl by simp
next
  case (Suc d)
  obtain t ks wl where gc: "gc = (t, ks, wl)" by (cases gc)
  obtain b0 where b0: "tree_find t (blk_begin b) = Some b0" "blk_begin b0 = blk_begin b" "blk_end b0 = blk_end b"
    using Suc.prems(2) gc by (auto simp: region_at_def)
  have k: "j < slots b0" using Suc b0(2,3) by (simp add: slots_def)
  obtain g1 where g1: "scan_slot mem (blk_begin b) gc j = Inr g1" "grow gc g1"
    "gc_inv mem (slots_from b (Suc j)) g1" "work_left g1 \<le> work_left gc"
    using scan_slot_inv[of mem b j t ks wl b0, OF Suc.prems(1)[unfolded gc] _ _ _ k]
    unfolding gc b0(2,3) using b0(1) by blast
  have "region_at (fst g1) (blk_begin b) = Some (blk_begin b, blk_end b)"
    using g1(2) Suc.prems(2) gc by (cases g1) (simp add: grow_def)
  moreover have d: "d = n - Suc j" "j < n" using Suc.hyps(2) by simp_all
  ultimately obtain g2 where g2: "ofold (scan_slot mem (blk_begin b)) [Suc j..<n] g1 = Inr g2" "grow g1 g2"
    "gc_inv mem (slots_from b n) g2" "work_left g2 \<le> work_left g1"
    using Suc.hyps(1)[of "Suc j" g1, OF d(1) g1(3) _ Suc_leI[OF d(2)] Suc.prems(4)] by blast
  have "[j..<n] = j # [Suc j..<n]" using Suc.hyps(2) by (simp add: upt_conv_Cons)
  then have "ofold (scan_slot mem (blk_begin b)) [j..<n] gc = Inr g2" using g1(1) g2(1) by simp
  then show ?case using g2(3) grow_trans[OF g1(2) g2(2)] le_trans[OF g2(4) g1(4)] by blast
qed

lemma slots_from_end: "block_wf b \<Longrightarrow> slots_from b (slots b) = {}"
  using in_block_slot[of b] by (fastforce simp: slots_from_def)

lemma block_scan_inv:
  assumes "gc_inv mem {} (t, ks, start # wl)"
  shows "\<exists>gc'. block_scan mem start (t, ks, wl) = Inr gc' \<and> grow (t, ks, start # wl) gc' \<and>
    gc_inv mem {} gc' \<and> work_left gc' < work_left (t, ks, start # wl)"
proof -
  have i: "tree_inv t" "\<exists>e. region_at t start = Some (start, e)"
    "\<And>x. x \<in> set wl \<Longrightarrow> \<exists>e. region_at t x = Some (x, e)"
    "\<And>a B e. flag_at t a MARK \<Longrightarrow> \<not> flag_at t a SCANNED \<Longrightarrow> region_at t a = Some (B, e) \<Longrightarrow>
       B \<in> set (start # wl)"
    "\<And>a. flag_at t a SCANNED \<Longrightarrow> 8 dvd a \<Longrightarrow> handled (t, ks, start # wl) (read_pointer_at mem a)"
    using assms by (auto simp: gc_inv_def)
  obtain b where b: "tree_find t start = Some b" "blk_begin b = start" "region_at t start = Some (blk_begin b, blk_end b)"
    using i(2) by (auto simp: region_at_def)
  note f = tree_inv_find[OF i(1) b(1)]
  have "a \<in> slots_from b 0" if r: "region_at t a = Some (start, e)" for a e
  proof -
    obtain c where c: "tree_find t a = Some c" "blk_begin c = start"
      using r by (auto simp: region_at_def)
    note fc = tree_inv_find[OF i(1) c(1)]
    have "in_block c start" using block_wf_less[OF fc(4)] c(2) by (simp add: in_block_def)
    then have "c = b" using tree_find_Some[OF f(5), of start c] fc(1) b(1) by simp
    then show ?thesis using fc(2) by (simp add: slots_from_def)
  qed
  then have "B \<in> set wl \<or> a \<in> slots_from b 0"
    if "flag_at t a MARK" "\<not> flag_at t a SCANNED" "region_at t a = Some (B, e)" for a B e
    using i(4)[OF that] that(3) by auto
  moreover have "handled (t, ks, wl) (read_pointer_at mem a)" if "flag_at t a SCANNED" "8 dvd a" for a
    using i(5)[OF that] by (simp add: handled_def)
  ultimately have "gc_inv mem (slots_from b 0) (t, ks, wl)"
    using i(1,3) unfolding gc_inv_def prod.case by blast
  then obtain gc' where g: "ofold (scan_slot mem start) [0..<slots b] (t, ks, wl) = Inr gc'"
    "grow (t, ks, wl) gc'" "gc_inv mem (slots_from b (slots b)) gc'" "work_left gc' \<le> work_left (t, ks, wl)"
    using scan_slots_inv[of mem b 0 "(t, ks, wl)" "slots b"] b by (metis fst_conv le0 le_refl)
  have "grow (t, ks, start # wl) gc'" using g(2) by (cases gc') (simp add: grow_def)
  moreover have "work_left gc' < work_left (t, ks, start # wl)" using g(4) by (simp add: work_left_def)
  ultimately show ?thesis
    using b(1) g(1,3) slots_from_end[OF f(4)] by (simp add: block_scan_def)
qed

text \<open>The work list is emptied within as many iterations as \<open>work_left\<close> says.\<close>

lemma scan_worklist_inv:
  assumes "gc_inv mem {} gc" "work_left gc \<le> n"
  shows "\<exists>t' ks'. scan_worklist mem n gc = Inr (t', ks', []) \<and> grow gc (t', ks', []) \<and>
    gc_inv mem {} (t', ks', [])"
  using assms
proof (induction mem n gc rule: scan_worklist.induct)
  case (1 mem n t ks)
  then show ?case by auto
next
  case (2 mem t ks start wl)
  then show ?case by (simp add: work_left_def)
next
  case (3 mem n t ks start wl)
  obtain g where g: "block_scan mem start (t, ks, wl) = Inr g" "grow (t, ks, start # wl) g"
    "gc_inv mem {} g" "work_left g < work_left (t, ks, start # wl)"
    using block_scan_inv[OF "3.prems"(1)] by blast
  then obtain t' ks' where r: "scan_worklist mem n g = Inr (t', ks', [])" "grow g (t', ks', [])"
    "gc_inv mem {} (t', ks', [])"
    using "3.IH"[OF g(1,3)] "3.prems"(2) by auto
  then show ?case using g(1) grow_trans[OF g(2) r(2)] by auto
qed

section \<open>Reachability\<close>

text \<open>
  What the collector regards as reachable: the root object, everything a word of the root or of a
  slot that is itself reachable points to, and the slots that follow without a gap.
\<close>

definition same_slot :: "btree \<Rightarrow> nat \<Rightarrow> nat \<Rightarrow> bool" where
  "same_slot t x a \<longleftrightarrow> region_at t a = region_at t x \<and>
     (case region_at t x of None \<Rightarrow> False | Some (B, e) \<Rightarrow> (a - B) div SLOT_SIZE = (x - B) div SLOT_SIZE)"

inductive reach :: "memory \<Rightarrow> heap_state \<Rightarrow> nat \<Rightarrow> bool" for mem s where
  root: "flag_at (h_block s) (h_begin s) ALLOCATED \<Longrightarrow> reach mem s (h_begin s)"
| root_word: "h_begin s \<le> a \<Longrightarrow> a < h_end s \<Longrightarrow> 8 dvd a \<Longrightarrow>
    flag_at (h_block s) (read_pointer_at mem a) ALLOCATED \<Longrightarrow> reach mem s (read_pointer_at mem a)"
| slot: "reach mem s x \<Longrightarrow> same_slot (h_block s) x a \<Longrightarrow> reach mem s a"
| word: "reach mem s a \<Longrightarrow> 8 dvd a \<Longrightarrow> flag_at (h_block s) (read_pointer_at mem a) ALLOCATED \<Longrightarrow>
    reach mem s (read_pointer_at mem a)"
| run: "reach mem s x \<Longrightarrow> x \<le> y \<Longrightarrow> region_at (h_block s) y = region_at (h_block s) x \<Longrightarrow>
    (\<And>a. x \<le> a \<Longrightarrow> a \<le> y \<Longrightarrow> flag_at (h_block s) a ALLOCATED) \<Longrightarrow> reach mem s y"

text \<open>A child heap is reachable when a word of the root or of a reachable slot holds its address.\<close>

definition child_reached :: "memory \<Rightarrow> heap_state \<Rightarrow> nat \<Rightarrow> bool" where
  "child_reached mem s p \<longleftrightarrow> region_at (h_block s) p = None \<and>
     (\<exists>a. 8 dvd a \<and> read_pointer_at mem a = p \<and>
        ((h_begin s \<le> a \<and> a < h_end s) \<or> reach mem s a))"

section \<open>The marking phase\<close>

lemma ready_inv:
  assumes "tree_wf t" "gc_ready t"
  shows "tree_inv t" "\<not> flag_at t a MARK" "\<not> flag_at t a SCANNED"
proof -
  have b: "block_wf b" "block_ready b" if "b \<in> set (blocks t)" for b
    using assms that by (simp_all add: gc_ready_def tree_wf_def)
  have "block_inv b" if "b \<in> set (blocks t)" for b
    using b[OF that] unfolding block_inv_def block_ready_def objects_ok_def run_closed_def in_run_def
    by (metis le_less_trans)
  then show i: "tree_inv t" using assms(1) by (simp add: tree_inv_def)
  have "\<not> flag_at t a MARK \<and> \<not> flag_at t a SCANNED"
  proof (cases "tree_find t a")
    case (Some c)
    note f = tree_inv_find[OF i Some]
    show ?thesis
      using b(2)[OF f(1)] in_block_slot[OF f(4,2)] Some by (simp add: flag_at_def block_ready_def)
  qed (simp add: flag_at_def)
  then show "\<not> flag_at t a MARK" "\<not> flag_at t a SCANNED" by blast+
qed

lemma mark_phase_inv:
  assumes "heap_ok s" "gc_ready (h_block s)"
  shows "\<exists>t ks'. mark_phase mem s ks = Inr (t, ks', []) \<and> grow (h_block s, ks, []) (t, ks', []) \<and>
    gc_inv mem {} (t, ks', []) \<and> (flag_at t (h_begin s) ALLOCATED \<longrightarrow> flag_at t (h_begin s) MARK) \<and>
    (\<forall>a. h_begin s \<le> a \<and> a < h_end s \<and> 8 dvd a \<longrightarrow> handled (t, ks', []) (read_pointer_at mem a))"
proof -
  let ?t = "h_block s"
  let ?g0 = "(?t, ks, [] :: nat list)"
  have wf: "tree_wf ?t" using assms(1) by (simp add: heap_ok_def)
  note r = ready_inv[OF wf assms(2)]
  have i0: "gc_inv mem {} ?g0" using r by (simp add: gc_inv_def)
  obtain g1 where g1: "(case tree_find ?t (h_begin s) of
              None \<Rightarrow> Inr (?t, ks, [])
            | Some b \<Rightarrow> obind (block_mark b (h_begin s) []) (\<lambda>(b', wl).
                Inr (tree_update ?t (h_begin s) b', ks, wl))) = Inr g1"
    "advance ?g0 g1" "flag_at (fst g1) (h_begin s) ALLOCATED \<longrightarrow> flag_at (fst g1) (h_begin s) MARK"
  proof (cases "tree_find ?t (h_begin s)")
    case None
    show ?thesis
      by (rule that[of ?g0]) (use None advance_refl[OF r(1)] in \<open>simp_all add: flag_at_def\<close>)
  next
    case (Some b)
    obtain g where g: "mark_slot_for_address (h_begin s) ?g0 = Inr g" "advance ?g0 g" "handled g (h_begin s)"
      using mark_slot_advance[OF r(1)] by blast
    show ?thesis
      by (rule that[of g]) (use g Some in \<open>simp_all add: mark_slot_for_address_def handled_def split: prod.splits\<close>)
  qed
  have i1: "gc_inv mem {} g1" by (rule advance_gc_inv[OF i0 g1(2)])
  then have "tree_inv (fst g1)" by (cases g1) (simp add: gc_inv_def)
  then obtain g2 where g2: "heap_scan mem (h_begin s) (h_end s) g1 = Inr g2" "advance g1 g2"
    "\<forall>a. h_begin s \<le> a \<and> a < h_end s \<and> 8 dvd a \<longrightarrow> handled g2 (read_pointer_at mem a)"
    using heap_scan_advance by blast
  have i2: "gc_inv mem {} g2" by (rule advance_gc_inv[OF i1 g2(2)])
  obtain t ks' where g3: "scan_worklist mem (work_left g2) g2 = Inr (t, ks', [])" "grow g2 (t, ks', [])"
    "gc_inv mem {} (t, ks', [])"
    using scan_worklist_inv[OF i2 order_refl] by blast
  have g13: "grow g1 (t, ks', [])" by (rule grow_trans[OF advance_grow[OF g2(2)] g3(2)])
  have "mark_phase mem s ks = Inr (t, ks', [])" using g1(1) g2(1) g3(1) by (simp add: mark_phase_def)
  moreover have "grow ?g0 (t, ks', [])" by (rule grow_trans[OF advance_grow[OF g1(2)] g13])
  moreover have "flag_at t (h_begin s) ALLOCATED \<longrightarrow> flag_at t (h_begin s) MARK"
    using g1(3) g13 by (cases g1) (simp add: grow_def)
  ultimately show ?thesis using g3(3) handled_grow[OF _ g3(2)] g2(3) by blast
qed

lemma same_slot_flag:
  assumes "tree_inv t" "same_slot t x a"
  shows "flag_at t a m = flag_at t x m"
proof -
  obtain B e where r: "region_at t x = Some (B, e)" "region_at t a = Some (B, e)"
    "(a - B) div SLOT_SIZE = (x - B) div SLOT_SIZE"
    using assms(2) by (auto simp: same_slot_def split: option.splits)
  obtain c where c: "tree_find t x = Some c" "blk_begin c = B" "blk_end c = e"
    using r(1) by (auto simp: region_at_def)
  obtain d where d: "tree_find t a = Some d" "blk_begin d = B" "blk_end d = e"
    using r(2) by (auto simp: region_at_def)
  have "in_block c a" using tree_inv_find(2)[OF assms(1) d(1)] c d by (simp add: in_block_def)
  then show ?thesis
    using flag_at_find(1)[OF assms(1) c(1)] tree_inv_find(2)[OF assms(1) c(1)] r(3) c(2) by simp
qed

text \<open>When marking has ended, everything reachable is marked.\<close>

lemma reach_marked:
  assumes "heap_ok s" "gc_ready (h_block s)" "mark_phase mem s ks = Inr (t, ks', [])"
  shows "reach mem s a \<Longrightarrow> flag_at t a MARK"
proof -
  have m: "grow (h_block s, ks, []) (t, ks', [])" "gc_inv mem {} (t, ks', [])"
    "flag_at t (h_begin s) ALLOCATED \<Longrightarrow> flag_at t (h_begin s) MARK"
    "\<And>a. h_begin s \<le> a \<Longrightarrow> a < h_end s \<Longrightarrow> 8 dvd a \<Longrightarrow> handled (t, ks', []) (read_pointer_at mem a)"
    using mark_phase_inv[OF assms(1,2), of mem ks] assms(3) by auto
  have al: "flag_at t x ALLOCATED = flag_at (h_block s) x ALLOCATED" for x
    using m(1) by (simp add: grow_def)
  have rg: "region_at t = region_at (h_block s)" using m(1) by (simp add: grow_def)
  have inv: "tree_inv t" using m(2) by (simp add: gc_inv_def)
  have black: "handled (t, ks', []) (read_pointer_at mem x)" if "flag_at t x MARK" "8 dvd x" for x
  proof -
    have "region_at t x \<noteq> None" using that(1) by (auto simp: flag_at_def region_at_def split: option.splits)
    then have "flag_at t x SCANNED" using m(2) that(1) by (auto simp: gc_inv_def)
    then show ?thesis using m(2) that(2) by (simp add: gc_inv_def)
  qed
  show "reach mem s a \<Longrightarrow> flag_at t a MARK"
  proof (induction rule: reach.induct)
    case root
    then show ?case using m(3) al by simp
  next
    case (root_word a)
    then show ?case using m(4)[of a] al by (simp add: handled_def)
  next
    case (slot x a)
    have "same_slot t x a" using slot(2) rg by (simp add: same_slot_def)
    then show ?case using same_slot_flag[OF inv] slot.IH by simp
  next
    case (word a)
    then show ?case using black[of a] al by (simp add: handled_def)
  next
    case (run x y)
    obtain b where b: "tree_find t x = Some b" using run.IH by (auto simp: flag_at_def split: option.splits)
    note f = tree_inv_find[OF inv b]
    obtain c where c: "tree_find t y = Some c" "blk_begin c = blk_begin b" "blk_end c = blk_end b"
    proof -
      have "region_at t y = Some (blk_begin b, blk_end b)" using run(3) rg f(6) by simp
      then show ?thesis using that by (auto simp: region_at_def)
    qed
    have iny: "in_block b y" using tree_inv_find(2)[OF inv c(1)] c by (simp add: in_block_def)
    let ?i = "(x - blk_begin b) div SLOT_SIZE" and ?k = "(y - blk_begin b) div SLOT_SIZE"
    have ky: "?k < slots b" by (rule in_block_slot[OF f(4) iny])
    have mk: "flag (blk_bits b) ?i MARK" using run.IH b by (simp add: flag_at_def)
    have "flag (blk_bits b) j ALLOCATED" if j: "?i \<le> j" "j \<le> ?k" for j
    proof -
      define a where "a = (if j = ?i then x else blk_begin b + j * SLOT_SIZE)"
      have xb: "blk_begin b \<le> x" "blk_begin b \<le> y" using f(2) iny by (simp_all add: in_block_def)
      have a1: "x \<le> a" using j(1) slot_range(2)[OF xb(1), of j] by (auto simp: a_def)
      have a2: "a \<le> y" using run(2) j(2) slot_range(1)[OF xb(2), of j] by (auto simp: a_def)
      have ina: "in_block b a" using a1 a2 f(2) iny by (auto simp: in_block_def)
      have "(a - blk_begin b) div SLOT_SIZE = j" by (simp add: a_def SLOT_SIZE_def)
      then show ?thesis
        using run(4)[OF a1 a2] al flag_at_find(1)[OF inv b ina, of ALLOCATED] by simp
    qed
    moreover have "?i \<le> ?k" using run(2) by (intro div_le_mono) simp
    ultimately have "in_run (blk_bits b) ?i ?k" by (simp add: in_run_def)
    then have "flag (blk_bits b) ?k MARK"
      using f(3) mk ky by (auto simp: block_inv_def run_closed_def)
    then show ?case using flag_at_find(1)[OF inv b iny] by simp
  qed
qed

end
