(* ===== verification/HeapLife.thy ===== *)
theory HeapLife
  imports HeapCollect
begin

text \<open>
  The life of a heap: what a whole collection keeps and frees (Heap::collect_garbage), and
  how heaps become children, leave their parent and are merged (Heap::insert_child,
  remove_from_parent, is_child and merge of heap.cpp).
\<close>

section \<open>The sweeping phase\<close>

lemma sorted_wrt_map_filter:
  "sorted_wrt R xs \<Longrightarrow> (\<And>x y. R x y \<Longrightarrow> R (f x) (f y)) \<Longrightarrow> sorted_wrt R (map f (filter P xs))"
  by (induction xs) auto

lemma sweep_flags:
  assumes inv: "tree_inv t" and t': "blocks t' = map swept (filter blk_marked (blocks t))"
  shows "tree_wf t'"
    "flag_at t' a ALLOCATED \<longleftrightarrow> flag_at t a MARK \<and> flag_at t a ALLOCATED"
    "flag_at t' a OBJECT \<longleftrightarrow> flag_at t a MARK \<and> flag_at t a OBJECT"
    "\<not> flag_at t' a MARK" "\<not> flag_at t' a SCANNED"
proof -
  have wf: "tree_wf t" using inv by (simp add: tree_inv_def)
  note tb = tree_wf_block[OF wf]
  have "sorted_wrt (\<lambda>b c. blk_end b \<le> blk_begin c) (map swept (filter blk_marked (blocks t)))"
  proof -
    have "sorted_wrt (\<lambda>b c. block_wf b \<and> block_wf c \<and> blk_end b \<le> blk_begin c) (blocks t)"
      by (rule sorted_wrt_mono_rel[of _ "\<lambda>b c. blk_end b \<le> blk_begin c"]) (use wf tb in \<open>auto simp: tree_wf_def\<close>)
    then have "sorted_wrt (\<lambda>b c. block_wf b \<and> block_wf c \<and> blk_end b \<le> blk_begin c)
        (map swept (filter blk_marked (blocks t)))"
      by (rule sorted_wrt_map_filter) (simp add: swept_effect)
    then show ?thesis by (rule sorted_wrt_mono_rel[rotated]) blast
  qed
  moreover have "block_wf (swept b)" if "b \<in> set (blocks t)" for b
    by (rule swept_effect(4)[OF tb[OF that]])
  ultimately show wf': "tree_wf t'" by (auto simp: tree_wf_def t')
  have "(flag_at t' a ALLOCATED \<longleftrightarrow> flag_at t a MARK \<and> flag_at t a ALLOCATED) \<and>
    (flag_at t' a OBJECT \<longleftrightarrow> flag_at t a MARK \<and> flag_at t a OBJECT) \<and>
    \<not> flag_at t' a MARK \<and> \<not> flag_at t' a SCANNED"
  proof (cases "tree_find t' a")
    case None
    have "\<not> flag_at t a MARK"
    proof
      assume m: "flag_at t a MARK"
      then obtain b where b: "tree_find t a = Some b" by (auto simp: flag_at_def split: option.splits)
      note f = tree_inv_find[OF inv b]
      have "blk_marked b"
        using m b f(3) in_block_slot[OF f(4,2)] by (simp add: flag_at_def block_inv_def)
      then have "swept b \<in> set (blocks t')" using f(1) t' by simp
      moreover have "in_block (swept b) a" using f(2) swept_effect(1,2)[OF f(4)] by (simp add: in_block_def)
      ultimately show False using None tree_find_None[OF wf'] by blast
    qed
    then show ?thesis using None by (simp add: flag_at_def)
  next
    case (Some c)
    then have "c \<in> set (blocks t')" "in_block c a" using tree_find_Some[OF wf'] by auto
    then obtain b where b: "b \<in> set (blocks t)" "c = swept b" using t' by auto
    note e = swept_effect[OF tb[OF b(1)]]
    have ib: "in_block b a" using \<open>in_block c a\<close> b(2) e(1,2) by (simp add: in_block_def)
    then have fb: "tree_find t a = Some b" using tree_find_Some[OF wf] b(1) by blast
    show ?thesis
      using e(6)[OF in_block_slot[OF tb[OF b(1)] ib]] fb Some b(2) e(1)
      by (simp add: flag_at_def swept_flags_def)
  qed
  then show "flag_at t' a ALLOCATED \<longleftrightarrow> flag_at t a MARK \<and> flag_at t a ALLOCATED"
    "flag_at t' a OBJECT \<longleftrightarrow> flag_at t a MARK \<and> flag_at t a OBJECT"
    "\<not> flag_at t' a MARK" "\<not> flag_at t' a SCANNED" by blast+
qed

lemma sweep_free_ok:
  assumes inv: "tree_inv t" and t': "blocks t' = map swept (filter blk_marked (blocks t))"
  shows "free_ok t' (tree_chunks t)"
proof -
  have wf: "tree_wf t" using inv by (simp add: tree_inv_def)
  have "chunk_free t' c" if c: "c \<in> set (tree_chunks t)" for c
  proof -
    obtain b where b: "b \<in> set (blocks t)" "blk_marked b" "c \<in> set (sweep_chunks b)"
      using tree_chunks_in[OF c] by blast
    have bw: "block_wf b" by (rule tree_wf_block[OF wf b(1)])
    note e = swept_effect[OF bw]
    obtain p q where pq: "p < q" "q \<le> slots b" "c = (blk_begin b + p * SLOT_SIZE, (q - p) * SLOT_SIZE)"
      using sweep_chunks_of(1)[OF bw b(3)] by (auto simp: chunk_of_def)
    have "\<not> flag (blk_bits (swept b)) k ALLOCATED" if k: "p \<le> k" "k < q" for k
    proof -
      have "covers c (blk_begin b + k * SLOT_SIZE)" using covers_slots k pq(3) by simp
      then have "\<not> flag (blk_bits b) k MARK" using e(7) b(3) k pq(2) by (auto simp: free_chunks_def)
      then show ?thesis using e(6)[of k] k pq(2) by (simp add: swept_flags_def)
    qed
    then show ?thesis
      unfolding chunk_free_def t' using b pq e(1,5)
      by (intro bexI[of _ "swept b"] exI[of _ p] exI[of _ q]) auto
  qed
  then show ?thesis using tree_chunks_apart[OF wf] by (simp add: free_ok_def)
qed

section \<open>One heap\<close>

definition ready :: "heap_state \<Rightarrow> bool" where
  "ready s \<longleftrightarrow> heap_ok s \<and> gc_ready (h_block s)"

lemma collect_self_effect:
  assumes "ready s"
  shows "\<exists>s' ks'. collect_self mem s ks = Inr (s', ks') \<and> heap_ok s' \<and> selves ks' = selves ks \<and>
    (\<forall>a. flag_at (h_block s') a ALLOCATED \<longrightarrow> flag_at (h_block s) a ALLOCATED) \<and>
    (\<forall>a. flag_at (h_block s') a OBJECT \<longrightarrow> flag_at (h_block s) a OBJECT) \<and>
    (\<forall>a. reach mem s a \<longrightarrow>
       flag_at (h_block s') a ALLOCATED = flag_at (h_block s) a ALLOCATED \<and>
       flag_at (h_block s') a OBJECT = flag_at (h_block s) a OBJECT) \<and>
    (\<forall>p \<in> set (selves ks). child_reached mem s p \<longrightarrow> flagged ks' p)"
proof -
  have r: "heap_ok s" "gc_ready (h_block s)" using assms by (simp_all add: ready_def)
  obtain t ks' where m: "mark_phase mem s ks = Inr (t, ks', [])" "grow (h_block s, ks, []) (t, ks', [])"
    "gc_inv mem {} (t, ks', [])"
    "\<forall>a. h_begin s \<le> a \<and> a < h_end s \<and> 8 dvd a \<longrightarrow> handled (t, ks', []) (read_pointer_at mem a)"
    using mark_phase_inv[OF r, of mem ks] by blast
  have inv: "tree_inv t" using m(3) by (simp add: gc_inv_def)
  obtain t' where t': "tree_sweep t [] = Inr (total_marked t, t', tree_chunks t)"
    "blocks t' = map swept (filter blk_marked (blocks t))"
    using tree_sweep_effect[of t "[]"] inv by (auto simp: tree_inv_def)
  note f = sweep_flags[OF inv t'(2)]
  let ?n = "total_marked t"
  let ?s = "s\<lparr>h_block := t', h_free := tree_chunks t, h_allocated := ?n * SLOT_SIZE,
              h_next_collection := ?n * SLOT_SIZE * 2, h_next_block := ?n * SLOT_SIZE\<rparr>"
  have c: "collect_self mem s ks = Inr (?s, ks')"
    using m(1) t'(1) by (simp add: collect_self_def sweep_phase_def)
  have ok: "heap_ok ?s" using f(1) sweep_free_ok[OF inv t'(2)] by (simp add: heap_ok_def)
  have same: "flag_at t a ALLOCATED = flag_at (h_block s) a ALLOCATED"
    "flag_at t a OBJECT = flag_at (h_block s) a OBJECT" for a
    using m(2) by (simp_all add: grow_def)
  have marked: "reach mem s a \<Longrightarrow> flag_at t a MARK" for a by (rule reach_marked[OF r m(1)])
  have "flagged ks' p" if p: "p \<in> set (selves ks)" "child_reached mem s p" for p
  proof -
    obtain a where a: "region_at (h_block s) p = None" "8 dvd a" "read_pointer_at mem a = p"
      "(h_begin s \<le> a \<and> a < h_end s) \<or> reach mem s a"
      using p(2) by (auto simp: child_reached_def)
    have "handled (t, ks', []) p"
    proof (cases "reach mem s a")
      case True
      then have "flag_at t a MARK" by (rule marked)
      moreover have "region_at t a \<noteq> None"
        using calculation by (auto simp: flag_at_def region_at_def split: option.splits)
      ultimately have "flag_at t a SCANNED" using m(3) by (auto simp: gc_inv_def)
      then show ?thesis using m(3) a(2,3) by (auto simp: gc_inv_def)
    next
      case False
      then show ?thesis using m(4) a by auto
    qed
    then show ?thesis using p(1) a(1) m(2) by (simp add: handled_def grow_def)
  qed
  moreover have "selves ks' = selves ks" using m(2) by (simp add: grow_def)
  ultimately show ?thesis
    using c ok f same marked by (intro exI[of _ ?s] exI[of _ ks']) simp
qed

text \<open>C6: a full collection returns, keeps the flags of every slot that is reachable from the root
  (conservatively, through any word that looks like a pointer), frees nothing else than what was
  allocated, flags every child heap whose address is reachable, and leaves a sound free list.\<close>

theorem collect_keeps_reachable:
  assumes "ready s"
  shows "\<exists>s' ks'. collect_self mem s ks = Inr (s', ks') \<and> heap_ok s' \<and>
    (\<forall>a. flag_at (h_block s') a ALLOCATED \<longrightarrow> flag_at (h_block s) a ALLOCATED) \<and>
    (\<forall>a. reach mem s a \<longrightarrow>
       flag_at (h_block s') a ALLOCATED = flag_at (h_block s) a ALLOCATED \<and>
       flag_at (h_block s') a OBJECT = flag_at (h_block s) a OBJECT) \<and>
    (\<forall>p \<in> set (selves ks). child_reached mem s p \<longrightarrow> flagged ks' p)"
  using collect_self_effect[OF assms, of mem ks] by blast

text \<open>A heap with an internal root of one slot, as its constructor makes it.\<close>

definition sample_heap :: heap_state where
  "sample_heap = fst (case make_heap 64 (\<lambda>_. 0) 4096 16 of Inr r \<Rightarrow> r)"

lemma sample_heap_ready:
  "ready sample_heap" "flag_at (h_block sample_heap) (h_begin sample_heap) ALLOCATED"
proof -
  have fr: "fresh_storage (make_external_heap 64 0 0) 4096 16"
    "addressable (h_block (make_external_heap 64 0 0))" "round_up 16 SLOT_SIZE < 2 ^ 64"
    by (simp_all add: fresh_storage_def make_external_heap_def new_block_size_def round_up_def SLOT_SIZE_def
        addressable_def)
  have g0: "gc_ready (h_block (make_external_heap 64 0 0))"
    by (simp add: gc_ready_def make_external_heap_def)
  obtain p s mem' where a: "heap_allocate (make_external_heap 64 0 0) (\<lambda>_. 0) 4096 16 = Inr (Some p, s, mem')"
    "heap_ok s" "\<forall>a. in_range p (round_up 16 SLOT_SIZE) a \<longrightarrow> flag_at (h_block s) a ALLOCATED" "gc_ready (h_block s)"
    using allocate_effect[OF make_external_heap_ok fr(2) _ fr(3,1), of "\<lambda>_. 0"] g0 by auto
  have s: "sample_heap = s\<lparr>h_begin := p, h_end := p + 16\<rparr>"
    using a(1) by (simp add: sample_heap_def make_heap_def Let_def)
  have "in_range p (round_up 16 SLOT_SIZE) p" by (simp add: in_range_def SLOT_SIZE_def round_up_def)
  then show "ready sample_heap" "flag_at (h_block sample_heap) (h_begin sample_heap) ALLOCATED"
    unfolding s using a by (simp_all add: ready_def heap_ok_def)
qed

theorem collect_keeps_reachable_witness:
  "\<exists>s' ks'. collect_self (\<lambda>_. 0) sample_heap [] = Inr (s', ks') \<and>
     flag_at (h_block s') (h_begin sample_heap) ALLOCATED"
proof -
  have "reach (\<lambda>_. 0) sample_heap (h_begin sample_heap)"
    by (rule reach.root) (rule sample_heap_ready(2))
  then show ?thesis
    using collect_keeps_reachable[OF sample_heap_ready(1), of "\<lambda>_. 0" "[]"] sample_heap_ready(2) by blast
qed

section \<open>A tree of heaps\<close>

fun all_heaps :: "(heap_state \<Rightarrow> bool) \<Rightarrow> heap \<Rightarrow> bool" where
  "all_heaps P (Heap s ks) \<longleftrightarrow> P s \<and> (\<forall>k \<in> set ks. all_heaps P k)"

lemma all_heaps_unreached [simp]:
  "(\<And>s b. P (s\<lparr>h_reachable := b\<rparr>) = P s) \<Longrightarrow> all_heaps P (unreached h) = all_heaps P h"
  by (cases h) (simp add: unreached_def)

lemma heap_ok_reachable [simp]: "heap_ok (s\<lparr>h_reachable := b\<rparr>) = heap_ok s"
  by (simp add: heap_ok_def)

lemma ready_ok: "ready s \<Longrightarrow> heap_ok s" by (simp add: ready_def)

lemma collect_all:
  "all_heaps ready h \<Longrightarrow> \<exists>r h'. collect_garbage force mem h = Inr (r, h') \<and> all_heaps heap_ok h' \<and>
     h_self (hs h') = h_self (hs h)"
  "\<forall>k \<in> set ks. all_heaps ready k \<Longrightarrow> \<exists>ks'. collect_reachable flags mem ks = Inr ks' \<and>
     (\<forall>k \<in> set ks'. all_heaps heap_ok k) \<and>
     (\<forall>i < length ks. i < length flags \<and> flags ! i \<longrightarrow> h_self (hs (ks ! i)) \<in> set (selves ks'))"
  "\<forall>k \<in> set ks. all_heaps ready k \<Longrightarrow> \<exists>r ks'. collect_children mem ks = Inr (r, ks') \<and>
     (\<forall>k \<in> set ks'. all_heaps heap_ok k)"
proof (induction force mem h and flags mem ks and mem ks
    rule: collect_garbage_collect_reachable_collect_children.induct)
  case (1 force mem s ks)
  show ?case
  proof (cases "due force s")
    case True
    obtain s' ks' where c: "collect_self mem s ks = Inr (s', ks')" "heap_ok s'"
      using collect_self_effect[of s mem ks] "1.prems" by auto
    have self: "h_self s' = h_self s"
      using c(1) by (auto simp: collect_self_def sweep_phase_def outcome_simps split: prod.splits)
    obtain ks'' where "collect_reachable (map (\<lambda>k. h_reachable (hs k)) ks') mem ks = Inr ks''"
      "\<forall>k \<in> set ks''. all_heaps heap_ok k"
      using "1.IH"(1)[OF True c(1)] "1.prems" by auto
    then have "collect_garbage force mem (Heap s ks) = Inr (True, Heap s' ks'')"
      "all_heaps heap_ok (Heap s' ks'')"
      using True c by simp_all
    then show ?thesis using self by fastforce
  next
    case False
    then obtain r ks' where "collect_children mem ks = Inr (r, ks')" "\<forall>k \<in> set ks'. all_heaps heap_ok k"
      using "1.IH"(2)[OF False] "1.prems" by auto
    then show ?thesis using False "1.prems" ready_ok by simp
  qed
next
  case (2 flags mem k ks)
  obtain r k' where k: "collect_garbage False mem k = Inr (r, k')" "all_heaps heap_ok k'"
    "h_self (hs k') = h_self (hs k)"
    using "2.IH"(1) "2.prems" by auto
  obtain ks' where ks: "collect_reachable flags mem ks = Inr ks'" "\<forall>k \<in> set ks'. all_heaps heap_ok k"
    "\<forall>i < length ks. i < length flags \<and> flags ! i \<longrightarrow> h_self (hs (ks ! i)) \<in> set (selves ks')"
    using "2.IH"(2)[OF k(1) refl] "2.prems" by auto
  have "h_self (hs ((k # ks) ! i)) \<in> set (selves (unreached k' # ks'))"
    if "i < length (k # ks)" "i < length (True # flags)" "(True # flags) ! i" for i
    using that ks(3) k(3) by (cases i) (auto simp: selves_def unreached_def)
  then show ?case using k(1,2) ks(1,2) by simp
next
  case (3 flags mem k ks)
  obtain ks' where ks: "collect_reachable flags mem ks = Inr ks'" "\<forall>k \<in> set ks'. all_heaps heap_ok k"
    "\<forall>i < length ks. i < length flags \<and> flags ! i \<longrightarrow> h_self (hs (ks ! i)) \<in> set (selves ks')"
    using "3.IH" "3.prems" by auto
  have "h_self (hs ((k # ks) ! i)) \<in> set (selves ks')"
    if "i < length (k # ks)" "i < length (False # flags)" "(False # flags) ! i" for i
    using that ks(3) by (cases i) auto
  then show ?case using ks(1,2) by simp
next
  case (6 mem k ks)
  obtain r k' where k: "collect_garbage False mem k = Inr (r, k')" "all_heaps heap_ok k'"
    using "6.IH"(1) "6.prems" by auto
  moreover obtain rs ks' where "collect_children mem ks = Inr (rs, ks')" "\<forall>k \<in> set ks'. all_heaps heap_ok k"
    using "6.IH"(2)[OF k(1) refl] "6.prems" by auto
  ultimately show ?case by auto
qed auto

text \<open>C7: collecting a whole tree of heaps returns, leaves every remaining heap well-formed, and a forced collection keeps
  every child heap whose address is reachable from the root.\<close>

theorem collect_garbage_keeps_children:
  assumes "all_heaps ready (Heap s ks)" "distinct (selves ks)"
  shows "\<exists>r s' ks'. collect_garbage True mem (Heap s ks) = Inr (r, Heap s' ks') \<and>
    all_heaps heap_ok (Heap s' ks') \<and>
    (\<forall>p \<in> set (selves ks). child_reached mem s p \<longrightarrow> p \<in> set (selves ks'))"
proof -
  obtain s' ks1 where c: "collect_self mem s ks = Inr (s', ks1)" "heap_ok s'" "selves ks1 = selves ks"
    "\<forall>p \<in> set (selves ks). child_reached mem s p \<longrightarrow> flagged ks1 p"
    using collect_self_effect[of s mem ks] assms(1) by auto
  obtain ks' where k: "collect_reachable (map (\<lambda>k. h_reachable (hs k)) ks1) mem ks = Inr ks'"
    "\<forall>k \<in> set ks'. all_heaps heap_ok k"
    "\<forall>i < length ks. i < length ks1 \<and> h_reachable (hs (ks1 ! i)) \<longrightarrow> h_self (hs (ks ! i)) \<in> set (selves ks')"
    using collect_all(2)[of ks "map (\<lambda>k. h_reachable (hs k)) ks1" mem] assms(1) by auto
  have len: "length ks1 = length ks" using arg_cong[OF c(3), of length] by (simp add: selves_def)
  have "p \<in> set (selves ks')" if p: "p \<in> set (selves ks)" "child_reached mem s p" for p
  proof -
    obtain i where i: "i < length ks1" "h_self (hs (ks1 ! i)) = p" "h_reachable (hs (ks1 ! i))"
    proof -
      have "flagged ks1 p" using c(4) p by blast
      then obtain k where "k \<in> set ks1" "h_self (hs k) = p" "h_reachable (hs k)"
        by (auto simp: flagged_def)
      then show ?thesis using that by (metis in_set_conv_nth)
    qed
    have "h_self (hs (ks ! i)) = p"
      using arg_cong[OF c(3), of "\<lambda>xs. xs ! i"] i(1,2) len by (simp add: selves_def)
    then show ?thesis using k(3) i len by auto
  qed
  then show ?thesis using c(1,2) k(1,2) by (auto simp: due_def)
qed

theorem collect_garbage_keeps_children_witness:
  "\<exists>r s' ks'. collect_garbage True (\<lambda>_. 0) (Heap sample_heap []) = Inr (r, Heap s' ks')"
  using collect_garbage_keeps_children[of sample_heap "[]" "\<lambda>_. 0"] sample_heap_ready(1)
  by (auto simp: selves_def)

section \<open>Children and merging\<close>

text \<open>Heap::insert_child.\<close>

definition insert_child :: "heap \<Rightarrow> heap \<Rightarrow> heap" where
  "insert_child h child =
     Heap ((hs h)\<lparr>h_next_collection := 0\<rparr>)
       (Heap ((hs child)\<lparr>h_parent := Some (h_self (hs h))\<rparr>) (kids child) # kids h)"

text \<open>
  Heap::remove_from_parent of the child at address \<open>self\<close>: the child, forgetting its
  parent, and the parent without it.  When the child is not on the list the loop
  runs off its end.
\<close>

fun unlink :: "nat \<Rightarrow> heap list \<Rightarrow> (heap \<times> heap list) outcome" where
  "unlink self [] = Inl Undefined_behaviour"
| "unlink self (k # ks) =
     (if h_self (hs k) = self then Inr (k, ks)
      else obind (unlink self ks) (\<lambda>(c, ks'). Inr (c, k # ks')))"

definition remove_from_parent :: "nat \<Rightarrow> heap \<Rightarrow> (heap \<times> heap) outcome" where
  "remove_from_parent self parent =
     obind (unlink self (kids parent)) (\<lambda>(c, ks).
       Inr (Heap ((hs c)\<lparr>h_parent := None\<rparr>) (kids c),
            Heap ((hs parent)\<lparr>h_next_collection := 0\<rparr>) ks))"

definition is_child :: "heap \<Rightarrow> nat \<Rightarrow> bool" where
  "is_child h self \<longleftrightarrow> (\<exists>k \<in> set (kids h). h_self (hs k) = self)"

text \<open>Heap::merge.\<close>

definition merge_heaps :: "heap \<Rightarrow> heap \<Rightarrow> heap" where
  "merge_heaps h x =
     Heap ((hs h)\<lparr>h_block := tree_merge (h_block (hs h)) (h_block (hs x)),
                 h_free := h_free (hs h) @ h_free (hs x),
                 h_allocated := h_allocated (hs h) + h_allocated (hs x)\<rparr>)
       (kids h @ kids x)"

text \<open>The loop that looks for the child stops at the first heap at its address.\<close>

lemma unlink_child:
  assumes "distinct (selves ks)" "k \<in> set ks"
  shows "unlink (h_self (hs k)) ks = Inr (k, filter (\<lambda>j. h_self (hs j) \<noteq> h_self (hs k)) ks)"
  using assms
proof (induction ks)
  case (Cons j ks)
  show ?case
  proof (cases "h_self (hs j) = h_self (hs k)")
    case True
    have "h_self (hs i) \<noteq> h_self (hs k)" if "i \<in> set ks" for i
      using Cons.prems(1) True imageI[OF that, of "\<lambda>k. h_self (hs k)"] by (auto simp: selves_def)
    then show ?thesis using Cons.prems(2) True by (auto simp: filter_id_conv)
  next
    case False
    then show ?thesis using Cons by (auto simp: selves_def)
  qed
qed simp

lemma unlink_no_child: "p \<notin> set (selves ks) \<Longrightarrow> unlink p ks = Inl Undefined_behaviour"
  by (induction ks) (auto simp: selves_def)

text \<open>C28: removing a child, wherever it is on the list of its parent, gives back the child with no parent
  and leaves the other children in their order and the parent due for collection as soon as it has
  allocated anything, whatever its limit was; removing what is not on the list runs off its end; and
  removing a child that was just inserted gives back the child and the children as they were.\<close>

theorem insert_remove_roundtrip:
  assumes "distinct (selves (kids h))"
  shows "(\<forall>k \<in> set (kids h). \<exists>h'. remove_from_parent (h_self (hs k)) h =
        Inr (Heap ((hs k)\<lparr>h_parent := None\<rparr>) (kids k), h') \<and>
        kids h' = filter (\<lambda>j. h_self (hs j) \<noteq> h_self (hs k)) (kids h) \<and>
        \<not> is_child h' (h_self (hs k)) \<and>
        hs h' = (hs h)\<lparr>h_next_collection := 0\<rparr> \<and> due False (hs h') = (0 < h_allocated (hs h))) \<and>
    (\<forall>p. \<not> is_child h p \<longrightarrow> remove_from_parent p h = Inl Undefined_behaviour) \<and>
    is_child (insert_child h c) (h_self (hs c)) \<and>
    due False (hs (insert_child h c)) = (0 < h_allocated (hs h)) \<and>
    remove_from_parent (h_self (hs c)) (insert_child h c) =
      Inr (Heap ((hs c)\<lparr>h_parent := None\<rparr>) (kids c), Heap ((hs h)\<lparr>h_next_collection := 0\<rparr>) (kids h))"
proof (intro conjI ballI allI impI)
  fix k assume k: "k \<in> set (kids h)"
  show "\<exists>h'. remove_from_parent (h_self (hs k)) h = Inr (Heap ((hs k)\<lparr>h_parent := None\<rparr>) (kids k), h') \<and>
        kids h' = filter (\<lambda>j. h_self (hs j) \<noteq> h_self (hs k)) (kids h) \<and>
        \<not> is_child h' (h_self (hs k)) \<and>
        hs h' = (hs h)\<lparr>h_next_collection := 0\<rparr> \<and> due False (hs h') = (0 < h_allocated (hs h))"
    using unlink_child[OF assms k] by (simp add: remove_from_parent_def is_child_def due_def)
next
  fix p assume "\<not> is_child h p"
  then have "p \<notin> set (selves (kids h))" by (auto simp: is_child_def selves_def)
  then show "remove_from_parent p h = Inl Undefined_behaviour"
    using unlink_no_child by (simp add: remove_from_parent_def)
qed (simp_all add: insert_child_def remove_from_parent_def is_child_def due_def)

text \<open>The second of two children is removed.\<close>

theorem insert_remove_roundtrip_witness:
  "\<exists>h'. remove_from_parent 32 (Heap sample_heap [Heap (make_external_heap 16 0 0) [], Heap (make_external_heap 32 0 0) []]) =
      Inr (Heap (make_external_heap 32 0 0) [], h') \<and> is_child h' 16"
proof -
  let ?h = "Heap sample_heap [Heap (make_external_heap 16 0 0) [], Heap (make_external_heap 32 0 0) []]"
  have d: "distinct (selves (kids ?h))" by (simp add: selves_def make_external_heap_def)
  have "\<exists>h'. remove_from_parent (h_self (hs (Heap (make_external_heap 32 0 0) []))) ?h =
        Inr (Heap ((make_external_heap 32 0 0)\<lparr>h_parent := None\<rparr>) [], h') \<and>
        kids h' = filter (\<lambda>j. h_self (hs j) \<noteq> h_self (make_external_heap 32 0 0)) (kids ?h)"
    using insert_remove_roundtrip[OF d] by force
  then show ?thesis by (auto simp: make_external_heap_def is_child_def)
qed

text \<open>C27: merging two well-formed heaps over disjoint memory gives a well-formed heap in which every
  address has the flags it had, and whose allocated size and children are those of both.\<close>

theorem merge_heaps_correct:
  assumes "heap_ok (hs h)" "heap_ok (hs x)"
    and "\<forall>b \<in> set (blocks (h_block (hs h))). \<forall>c \<in> set (blocks (h_block (hs x))). apart b c"
  shows "heap_ok (hs (merge_heaps h x)) \<and>
    (flag_at (h_block (hs (merge_heaps h x))) a m \<longleftrightarrow>
       flag_at (h_block (hs h)) a m \<or> flag_at (h_block (hs x)) a m) \<and>
    h_allocated (hs (merge_heaps h x)) = h_allocated (hs h) + h_allocated (hs x) \<and>
    (is_child (merge_heaps h x) p \<longleftrightarrow> is_child h p \<or> is_child x p)"
proof -
  let ?t = "h_block (hs h)" and ?u = "h_block (hs x)"
  have wf: "tree_wf ?t" "tree_wf ?u" and fo: "free_ok ?t (h_free (hs h))" "free_ok ?u (h_free (hs x))"
    using assms(1,2) by (simp_all add: heap_ok_def)
  have wm: "tree_wf (tree_merge ?t ?u)"
    and fm: "tree_find (tree_merge ?t ?u) a = (case tree_find ?t a of Some b \<Rightarrow> Some b | None \<Rightarrow> tree_find ?u a)" for a
    using tree_store_merge[OF wf assms(3)] by auto
  have cf: "chunk_free (tree_merge ?t ?u) c" if "chunk_free ?t c \<or> chunk_free ?u c" for c
    using that by (auto simp: chunk_free_def)
  have "chunk_apart c d" if c: "c \<in> set (h_free (hs h))" and d: "d \<in> set (h_free (hs x))" for c d
  proof -
    have "chunk_free ?t c" "chunk_free ?u d" using c d fo by (auto simp: free_ok_def)
    then obtain b b' where "b \<in> set (blocks ?t)" "blk_begin b \<le> fst c" "fst c + snd c \<le> blk_end b"
      "b' \<in> set (blocks ?u)" "blk_begin b' \<le> fst d" "fst d + snd d \<le> blk_end b'"
      using chunk_free_of[OF wf(1)] chunk_free_of[OF wf(2)] by meson
    moreover from this have "apart b b'" using assms(3) by blast
    ultimately show ?thesis by (auto simp: apart_def chunk_apart_def)
  qed
  then have "free_ok (tree_merge ?t ?u) (h_free (hs h) @ h_free (hs x))"
    using fo cf by (auto simp: free_ok_def sorted_wrt_append)
  moreover have "tree_find ?u a = None" if "tree_find ?t a = Some b" for b
    using that assms(3) tree_find_Some[OF wf(1), of a b] tree_find_None[OF wf(2), of a]
    by (force simp: in_block_def apart_def)
  then have "flag_at (tree_merge ?t ?u) a m \<longleftrightarrow> flag_at ?t a m \<or> flag_at ?u a m"
    by (auto simp: flag_at_def fm split: option.splits)
  ultimately show ?thesis
    using wm assms(1) by (auto simp: merge_heaps_def heap_ok_def is_child_def)
qed

theorem merge_heaps_correct_witness:
  "heap_ok (hs (merge_heaps (Heap sample_heap []) (Heap (make_external_heap 32 0 0) [])))"
proof -
  have e: "\<forall>b \<in> set (blocks (h_block sample_heap)).
      \<forall>c \<in> set (blocks (h_block (make_external_heap 32 0 0))). apart b c"
    by (simp add: make_external_heap_def)
  show ?thesis
    using merge_heaps_correct[of "Heap sample_heap []" "Heap (make_external_heap 32 0 0) []"]
      sample_heap_ready(1) e by (simp add: ready_def)
qed

text \<open>
  The children of the heap that is merged away join the list of the other heap, but their
  parent link still points to the deleted heap.
\<close>

lemma merged_child_keeps_parent:
  assumes "k \<in> set (kids x)" "h_parent (hs k) = Some (h_self (hs x))" "h_self (hs x) \<noteq> h_self (hs h)"
  shows "k \<in> set (kids (merge_heaps h x)) \<and> h_parent (hs k) \<noteq> Some (h_self (hs (merge_heaps h x)))"
  using assms by (simp add: merge_heaps_def)

end
