(* ===== verification/Instances.thy ===== *)
theory Instances
  imports Prelude
begin

text \<open>
  Sets of component instances with the access needed to each (struct InstanceSet of
  composition.cpp).  The code's std::map is a list sorted by the address of the
  instance; the contract the analyses rely on is the locale \<open>access_map\<close>.
\<close>

section \<open>Operations\<close>

type_synonym instance_set = "(nat \<times> receiver_access) list"

text \<open>InstanceSet::insert: an existing entry takes the larger access.\<close>

fun iset_insert :: "nat \<times> receiver_access \<Rightarrow> instance_set \<Rightarrow> instance_set" where
  "iset_insert (i, a) [] = [(i, a)]"
| "iset_insert (i, a) ((j, b) # s) =
     (if i < j then (i, a) # (j, b) # s
      else if i = j then (j, max b a) # s
      else (j, b) # iset_insert (i, a) s)"

text \<open>InstanceSet::is_compatible: both maps are walked in step.\<close>

fun is_compatible :: "instance_set \<Rightarrow> instance_set \<Rightarrow> bool" where
  "is_compatible ((i, a) # s) ((j, b) # t) =
     (if (i, a) = (j, b) \<and> a = AccessWrite then False
      else if i < j then is_compatible s ((j, b) # t)
      else if j < i then is_compatible ((i, a) # s) t
      else is_compatible s t)"
| "is_compatible _ _ = True"

definition add_union :: "instance_set \<Rightarrow> instance_set \<Rightarrow> instance_set" where
  "add_union s other = foldl (\<lambda>s v. iset_insert v s) s other"

section \<open>Meaning\<close>

text \<open>The access a set records for an instance; none when it has no entry.\<close>

definition access_of :: "instance_set \<Rightarrow> nat \<Rightarrow> receiver_access" where
  "access_of s i = (case map_of s i of None \<Rightarrow> AccessNone | Some a \<Rightarrow> a)"

definition iset_wf :: "instance_set \<Rightarrow> bool" where
  "iset_wf s \<longleftrightarrow> sorted_wrt (<) (map fst s)"

lemma access_of_Nil [simp]: "access_of [] i = AccessNone"
  by (simp add: access_of_def)

lemma access_le_none [simp]: "a \<le> AccessNone \<longleftrightarrow> a = AccessNone"
  by (cases a) (simp_all add: less_eq_receiver_access_def)

lemma access_of_Cons: "access_of ((j, b) # s) i = (if i = j then b else access_of s i)"
  by (simp add: access_of_def)

lemma access_of_absent: "i \<notin> fst ` set s \<Longrightarrow> access_of s i = AccessNone"
  by (induction s) (auto simp: access_of_Cons)

lemma iset_wf_Nil [simp]: "iset_wf []"
  by (simp add: iset_wf_def)

lemma iset_wf_Cons: "iset_wf ((j, b) # s) \<longleftrightarrow> iset_wf s \<and> (\<forall>k \<in> fst ` set s. j < k)"
  by (auto simp: iset_wf_def)

lemma iset_wf_head: "iset_wf ((j, b) # s) \<Longrightarrow> k \<le> j \<Longrightarrow> access_of s k = AccessNone"
  by (rule access_of_absent) (auto simp: iset_wf_Cons)

lemma keys_insert [simp]: "fst ` set (iset_insert (i, a) s) = insert i (fst ` set s)"
  by (induction "(i, a)" s rule: iset_insert.induct) auto

lemma insert_wf: "iset_wf s \<Longrightarrow> iset_wf (iset_insert v s)"
proof (induction v s rule: iset_insert.induct)
  case (2 i a j b s)
  then show ?case by (auto simp: iset_wf_Cons)
qed (simp add: iset_wf_def)

lemma access_insert:
  "iset_wf s \<Longrightarrow> access_of (iset_insert (i, a) s) k = (if k = i then max (access_of s i) a else access_of s k)"
proof (induction "(i, a)" s rule: iset_insert.induct)
  case (2 j b s)
  then show ?case using iset_wf_head[of j b s i] by (auto simp: access_of_Cons iset_wf_Cons)
qed (simp add: access_of_Cons)

text \<open>Two sets are compatible exactly when no instance is written according to both.\<close>

lemma compatible_iff:
  "iset_wf s \<Longrightarrow> iset_wf t \<Longrightarrow>
     is_compatible s t \<longleftrightarrow> (\<forall>i. \<not> (access_of s i = AccessWrite \<and> access_of t i = AccessWrite))"
proof (induction s t rule: is_compatible.induct)
  case (1 i a s j b t)
  have s: "iset_wf s" "\<And>k. k \<le> i \<Longrightarrow> access_of s k = AccessNone"
    and t: "iset_wf t" "\<And>k. k \<le> j \<Longrightarrow> access_of t k = AccessNone"
    using "1.prems" iset_wf_head by (auto simp: iset_wf_Cons)
  consider "(i, a) = (j, b)" "a = AccessWrite" | "i < j" | "j < i" | "i = j" "a \<noteq> b \<or> a \<noteq> AccessWrite"
    by fastforce
  then show ?case
  proof cases
    case 1
    then show ?thesis by (auto simp: access_of_Cons)
  next
    case 2
    then have "is_compatible ((i, a) # s) ((j, b) # t) = is_compatible s ((j, b) # t)" by simp
    moreover have "access_of ((i, a) # s) k = AccessWrite \<and> access_of ((j, b) # t) k = AccessWrite \<longleftrightarrow>
        access_of s k = AccessWrite \<and> access_of ((j, b) # t) k = AccessWrite" for k
      using 2 s(2)[of i] t(2)[of i] by (cases "k = i") (simp_all add: access_of_Cons)
    ultimately show ?thesis using "1.IH"(1) "1.prems"(2) 2 s(1) by simp
  next
    case 3
    then have "is_compatible ((i, a) # s) ((j, b) # t) = is_compatible ((i, a) # s) t" by simp
    moreover have "access_of ((i, a) # s) k = AccessWrite \<and> access_of ((j, b) # t) k = AccessWrite \<longleftrightarrow>
        access_of ((i, a) # s) k = AccessWrite \<and> access_of t k = AccessWrite" for k
      using 3 s(2)[of j] t(2)[of j] by (cases "k = j") (simp_all add: access_of_Cons)
    ultimately show ?thesis using "1.IH"(2) "1.prems"(1) 3 t(1) by simp
  next
    case 4
    then have "is_compatible ((i, a) # s) ((j, b) # t) = is_compatible s t" by auto
    moreover have "access_of ((i, a) # s) k = AccessWrite \<and> access_of ((j, b) # t) k = AccessWrite \<longleftrightarrow>
        access_of s k = AccessWrite \<and> access_of t k = AccessWrite" for k
      using 4 s(2)[of i] t(2)[of j] by (cases "k = i") (auto simp: access_of_Cons)
    ultimately show ?thesis using "1.IH"(3) 4 s(1) t(1) by auto
  qed
qed simp_all

lemma union_wf: "iset_wf s \<Longrightarrow> iset_wf (add_union s t)"
  unfolding add_union_def by (induction t arbitrary: s) (auto intro: insert_wf)

lemma access_union:
  "iset_wf s \<Longrightarrow> iset_wf t \<Longrightarrow> access_of (add_union s t) i = max (access_of s i) (access_of t i)"
proof -
  have "iset_wf s \<Longrightarrow> sorted_wrt (<) (map fst t) \<Longrightarrow>
      access_of (foldl (\<lambda>s v. iset_insert v s) s t) i = max (access_of s i) (access_of t i)"
  proof (induction t arbitrary: s)
    case (Cons v t)
    obtain j b where v: "v = (j, b)" by (cases v)
    have "access_of t j = AccessNone" by (rule access_of_absent) (use Cons.prems(2) v in auto)
    then show ?case
      using Cons insert_wf[of s v] by (auto simp: v access_insert access_of_Cons max.assoc)
  qed simp
  then show "iset_wf s \<Longrightarrow> iset_wf t \<Longrightarrow> ?thesis" by (simp add: add_union_def iset_wf_def)
qed

section \<open>The contract\<close>

text \<open>
  What the analyses of a composition need from a set of instances: entries
  only grow, union is the pointwise maximum, and compatibility excludes a write on both sides.
\<close>

locale access_map =
  fixes inv :: "'s \<Rightarrow> bool" and empty :: 's and acc :: "'s \<Rightarrow> nat \<Rightarrow> receiver_access"
    and ins :: "nat \<times> receiver_access \<Rightarrow> 's \<Rightarrow> 's" and union :: "'s \<Rightarrow> 's \<Rightarrow> 's"
    and compatible :: "'s \<Rightarrow> 's \<Rightarrow> bool"
  assumes empty_inv: "inv empty" and acc_empty: "acc empty i = AccessNone"
    and ins_inv: "inv s \<Longrightarrow> inv (ins v s)"
    and acc_ins: "inv s \<Longrightarrow> acc (ins (j, a) s) i = (if i = j then max (acc s j) a else acc s i)"
    and union_inv: "inv s \<Longrightarrow> inv t \<Longrightarrow> inv (union s t)"
    and acc_union: "inv s \<Longrightarrow> inv t \<Longrightarrow> acc (union s t) i = max (acc s i) (acc t i)"
    and compatible_iff: "inv s \<Longrightarrow> inv t \<Longrightarrow>
      compatible s t \<longleftrightarrow> (\<forall>i. \<not> (acc s i = AccessWrite \<and> acc t i = AccessWrite))"
begin

lemma max_write: "max a b = AccessWrite \<longleftrightarrow> a = AccessWrite \<or> b = AccessWrite"
  by (cases a; cases b) (simp_all add: max_def less_eq_receiver_access_def)

text \<open>A union clashes with a set exactly when one of its parts does.\<close>

lemma union_clash:
  "inv s \<Longrightarrow> inv t \<Longrightarrow> inv u \<Longrightarrow> compatible (union s t) u \<longleftrightarrow> compatible s u \<and> compatible t u"
  by (auto simp: compatible_iff union_inv acc_union max_write)

lemma ins_all_acc:
  "inv s \<Longrightarrow> inv (foldl (\<lambda>s v. ins v s) s vs) \<and>
     (a \<le> acc (foldl (\<lambda>s v. ins v s) s vs) i \<longleftrightarrow> a \<le> acc s i \<or> (\<exists>b. (i, b) \<in> set vs \<and> a \<le> b))"
proof (induction vs arbitrary: s)
  case (Cons v vs)
  then show ?case by (cases v) (auto simp: ins_inv acc_ins le_max_iff_disj)
qed simp

end

interpretation isets: access_map iset_wf "[]" access_of iset_insert add_union is_compatible
  by unfold_locales (simp_all add: insert_wf access_insert union_wf access_union compatible_iff)

end
