(* ===== verification/Graph.thy ===== *)
theory Graph
  imports Instances
begin

text \<open>
  The graph of a composition and its analysis (composition.cpp): actions, reactions,
  getters, activations, push ports and pull ports are nodes; the structural checks,
  Tarjan's depth-first search for cycles, and the instance set of every node, which the code
  computes once and keeps.  A node is its index in the list of nodes; an error call that
  prints a diagnostic and ends the program is \<open>Rejected\<close> with the number of the diagnostic.
\<close>

section \<open>Nodes\<close>

datatype node =
    Action_Node nat receiver_access receiver_access "nat list"
  | Reaction_Node nat receiver_access "nat list"
  | Getter_Node nat receiver_access "nat list"
  | Activation_Node nat receiver_access "nat list"
  | PushPort_Node "nat list"
  | PullPort_Node "nat list"

type_synonym graph = "node list"

text \<open>outgoing_count and outgoing_node.\<close>

fun outgoing :: "node \<Rightarrow> nat list" where
  "outgoing (Action_Node i p a ns) = ns"
| "outgoing (Reaction_Node i a ns) = ns"
| "outgoing (Getter_Node i a ns) = ns"
| "outgoing (Activation_Node i a ns) = ns"
| "outgoing (PushPort_Node ns) = ns"
| "outgoing (PullPort_Node ns) = ns"

text \<open>The entries a node adds itself, in the order of the code.\<close>

fun own_accesses :: "node \<Rightarrow> (nat \<times> receiver_access) list" where
  "own_accesses (Action_Node i p a ns) = [(i, p), (i, a)]"
| "own_accesses (Reaction_Node i a ns) = [(i, a)]"
| "own_accesses (Getter_Node i a ns) = [(i, a)]"
| "own_accesses (Activation_Node i a ns) = [(i, a)]"
| "own_accesses (PushPort_Node ns) = []"
| "own_accesses (PullPort_Node ns) = []"

text \<open>The diagnostic of the nodes that require their successors to be compatible.\<close>

fun conflict_code :: "node \<Rightarrow> nat option" where
  "conflict_code (Activation_Node i a ns) = Some 137"
| "conflict_code (PushPort_Node ns) = Some 138"
| "conflict_code (PullPort_Node ns) = Some 120"
| "conflict_code _ = None"

section \<open>Cycles\<close>

datatype mark = Unmarked | Temporary | Marked

type_synonym marks = "nat \<Rightarrow> mark"

fun tarjan :: "graph \<Rightarrow> nat \<Rightarrow> marks \<Rightarrow> nat \<Rightarrow> marks outcome" where
  "tarjan g 0 st n = Inl Out_of_fuel"
| "tarjan g (Suc f) st n =
     (case st n of
        Unmarked \<Rightarrow>
          if n < length g then
            obind (ofold (tarjan g f) (outgoing (g ! n)) (st(n := Temporary)))
              (\<lambda>st'. Inr (st'(n := Marked)))
          else Inl Undefined_behaviour
      | Temporary \<Rightarrow> Inl (Rejected 72)
      | Marked \<Rightarrow> Inr st)"

text \<open>
  Composer::check_structure: the number of push ports each reaction is bound to, the number of
  getters each pull port has, then the search from every action.
\<close>

definition check_reactions :: "nat list \<Rightarrow> unit outcome" where
  "check_reactions push_counts = ofold (\<lambda>_ c. if 1 < c then Inl (Rejected 71) else Inr ()) push_counts ()"

definition check_pull_ports :: "nat list \<Rightarrow> unit outcome" where
  "check_pull_ports getter_counts =
     ofold (\<lambda>_ c. if c = 0 then Inl (Rejected 118)
                   else if 1 < c then Inl (Rejected 119) else Inr ()) getter_counts ()"

definition check_structure :: "graph \<Rightarrow> nat \<Rightarrow> nat list \<Rightarrow> nat list \<Rightarrow> nat list \<Rightarrow> marks outcome" where
  "check_structure g f push_counts getter_counts actions =
     obind (check_reactions push_counts) (\<lambda>_.
     obind (check_pull_ports getter_counts) (\<lambda>_.
       ofold (tarjan g f) actions (\<lambda>_. Unmarked)))"

section \<open>Instance sets\<close>

type_synonym memo = "nat \<Rightarrow> instance_set option"

text \<open>One successor: unite its set, after the compatibility check where the node has one.\<close>

definition unite :: "nat option \<Rightarrow> instance_set \<Rightarrow> instance_set \<Rightarrow> instance_set outcome" where
  "unite code s t =
     (case code of
        Some c \<Rightarrow> if is_compatible s t then Inr (add_union s t) else Inl (Rejected c)
      | None \<Rightarrow> Inr (add_union s t))"

fun instance_set :: "graph \<Rightarrow> nat \<Rightarrow> memo \<Rightarrow> nat \<Rightarrow> (instance_set \<times> memo) outcome" where
  "instance_set g 0 memo n = Inl Out_of_fuel"
| "instance_set g (Suc f) memo n =
     (case memo n of
        Some s \<Rightarrow> Inr (s, memo)
      | None \<Rightarrow>
          if n < length g then
            obind (ofold (\<lambda>(acc, memo) m.
                obind (instance_set g f memo m) (\<lambda>(s, memo').
                obind (unite (conflict_code (g ! n)) acc s) (\<lambda>acc'. Inr (acc', memo'))))
              (outgoing (g ! n)) ([], memo))
            (\<lambda>(acc, memo').
               let s = foldl (\<lambda>s v. iset_insert v s) acc (own_accesses (g ! n)) in
               Inr (s, memo'(n \<mapsto> s)))
          else Inl Undefined_behaviour)"

definition compute_instance_sets :: "graph \<Rightarrow> nat \<Rightarrow> nat list \<Rightarrow> memo outcome" where
  "compute_instance_sets g f actions =
     ofold (\<lambda>memo a. obind (instance_set g f memo a) (\<lambda>(s, memo'). Inr memo')) actions (\<lambda>_. None)"

definition analyze :: "graph \<Rightarrow> nat \<Rightarrow> nat list \<Rightarrow> nat list \<Rightarrow> nat list \<Rightarrow> memo outcome" where
  "analyze g f push_counts getter_counts actions =
     obind (check_structure g f push_counts getter_counts actions) (\<lambda>_.
       compute_instance_sets g f actions)"

section \<open>Paths\<close>

definition edge :: "graph \<Rightarrow> nat \<Rightarrow> nat \<Rightarrow> bool" where
  "edge g n m \<longleftrightarrow> n < length g \<and> m \<in> set (outgoing (g ! n))"

definition graph_wf :: "graph \<Rightarrow> bool" where
  "graph_wf g \<longleftrightarrow> (\<forall>n < length g. \<forall>m \<in> set (outgoing (g ! n)). m < length g)"

abbreviation path :: "graph \<Rightarrow> nat \<Rightarrow> nat \<Rightarrow> bool" where
  "path g \<equiv> (edge g)\<^sup>*\<^sup>*"

abbreviation path1 :: "graph \<Rightarrow> nat \<Rightarrow> nat \<Rightarrow> bool" where
  "path1 g \<equiv> (edge g)\<^sup>+\<^sup>+"

lemma path_bound: "path g n m \<Longrightarrow> graph_wf g \<Longrightarrow> n < length g \<Longrightarrow> m < length g"
  by (induction rule: rtranclp_induct) (auto simp: graph_wf_def edge_def)

section \<open>The search decides acyclicity\<close>

text \<open>Marked nodes have only marked successors, and none of them lies on a cycle.\<close>

definition marks_ok :: "graph \<Rightarrow> marks \<Rightarrow> bool" where
  "marks_ok g st \<longleftrightarrow>
     (\<forall>n m. st n = Marked \<and> edge g n m \<longrightarrow> st m = Marked) \<and>
     (\<forall>n. st n = Marked \<longrightarrow> \<not> path1 g n n)"

lemma marked_path: "path g n m \<Longrightarrow> marks_ok g st \<Longrightarrow> st n = Marked \<Longrightarrow> st m = Marked"
  by (induction rule: rtranclp_induct) (auto simp: marks_ok_def)

text \<open>What a call leaves: nothing loses its mark, and the temporary nodes are the same.\<close>

definition extends :: "marks \<Rightarrow> marks \<Rightarrow> bool" where
  "extends st st' \<longleftrightarrow>
     (\<forall>n. st n = Marked \<longrightarrow> st' n = Marked) \<and> (\<forall>n. st' n = Temporary \<longleftrightarrow> st n = Temporary)"

lemma extends_trans: "extends a b \<Longrightarrow> extends b c \<Longrightarrow> extends a c"
  by (simp add: extends_def)

lemma extends_refl [simp]: "extends a a"
  by (simp add: extends_def)

definition unmarked :: "graph \<Rightarrow> marks \<Rightarrow> nat set" where
  "unmarked g st = {n. n < length g \<and> st n = Unmarked}"

lemma finite_unmarked [simp]: "finite (unmarked g st)"
  by (simp add: unmarked_def)

lemma extends_unmarked: "extends st st' \<Longrightarrow> unmarked g st' \<subseteq> unmarked g st"
proof
  fix n
  assume e: "extends st st'" and n: "n \<in> unmarked g st'"
  have "st n = Unmarked"
    using e n by (cases "st n") (auto simp: extends_def unmarked_def dest: spec[of _ n])
  then show "n \<in> unmarked g st" using n by (simp add: unmarked_def)
qed

text \<open>
  The outcome of a call at \<open>n\<close> when every temporary node has a path to \<open>n\<close>: all nodes visited are
  sound, or a cycle through a node reachable from \<open>n\<close> is reported.
\<close>

definition good :: "graph \<Rightarrow> marks \<Rightarrow> nat list \<Rightarrow> marks outcome \<Rightarrow> bool" where
  "good g st ns r \<longleftrightarrow>
     (\<exists>st'. r = Inr st' \<and> marks_ok g st' \<and> extends st st' \<and> (\<forall>n \<in> set ns. st' n = Marked)) \<or>
     (r = Inl (Rejected 72) \<and> (\<exists>n \<in> set ns. \<exists>m. path g n m \<and> path1 g m m))"

lemma goodE:
  assumes "good g st ns r"
  obtains st' where "r = Inr st'" "marks_ok g st'" "extends st st'" "\<forall>n \<in> set ns. st' n = Marked"
    | "r = Inl (Rejected 72)" "\<exists>n \<in> set ns. \<exists>m. path g n m \<and> path1 g m m"
  using assms unfolding good_def by blast

lemma good_Inr: "marks_ok g st' \<Longrightarrow> extends st st' \<Longrightarrow> \<forall>n \<in> set ns. st' n = Marked \<Longrightarrow> good g st ns (Inr st')"
  by (simp add: good_def)

lemma good_Inl: "n \<in> set ns \<Longrightarrow> path g n m \<Longrightarrow> path1 g m m \<Longrightarrow> good g st ns (Inl (Rejected 72))"
  unfolding good_def by blast

lemma good_fold:
  assumes "\<And>st n. n \<in> set ns \<Longrightarrow> marks_ok g st \<Longrightarrow> unmarked g st \<subseteq> U \<Longrightarrow> {t. st t = Temporary} \<subseteq> T \<Longrightarrow>
      good g st [n] (f st n)"
    and "marks_ok g st" "unmarked g st \<subseteq> U" "{t. st t = Temporary} \<subseteq> T"
  shows "good g st ns (ofold f ns st)"
  using assms
proof (induction ns arbitrary: st)
  case Nil
  then show ?case by (simp add: good_def)
next
  case (Cons n ns)
  have "good g st [n] (f st n)"
    by (rule Cons.prems(1)[OF _ Cons.prems(2-4)]) simp
  then show ?case
  proof (cases rule: goodE)
    case (1 st1)
    have t1: "{t. st1 t = Temporary} = {t. st t = Temporary}" using 1(3) by (simp add: extends_def)
    have "good g st1 ns (ofold f ns st1)"
    proof (rule Cons.IH)
      fix st' n' assume a: "n' \<in> set ns" "marks_ok g st'" "unmarked g st' \<subseteq> U" "{t. st' t = Temporary} \<subseteq> T"
      show "good g st' [n'] (f st' n')" by (rule Cons.prems(1)[OF _ a(2-4)]) (simp add: a(1))
    next
      show "unmarked g st1 \<subseteq> U" using extends_unmarked[OF 1(3)] Cons.prems(3) by (rule subset_trans)
      show "{t. st1 t = Temporary} \<subseteq> T" using t1 Cons.prems(4) by simp
    qed (rule 1(2))
    then show ?thesis
    proof (cases rule: goodE)
      case st2: (1 st2)
      have "st2 n = Marked" using st2(3) 1(4) by (simp add: extends_def)
      then have "good g st (n # ns) (Inr st2)"
        using st2(2,4) extends_trans[OF 1(3) st2(3)] by (intro good_Inr) simp_all
      then show ?thesis using 1(1) st2(1) by simp
    next
      case 2
      then show ?thesis using 1(1) good_Inl[of _ "n # ns"] by (metis list.set_intros(2) obind_simps(2) ofold.simps(2))
    qed
  next
    case 2
    then obtain m where "path g n m" "path1 g m m" by auto
    then show ?thesis using 2(1) good_Inl[of n "n # ns"] by simp
  qed
qed

lemma tarjan_good:
  assumes "graph_wf g"
  shows "n < length g \<Longrightarrow> marks_ok g st \<Longrightarrow> card (unmarked g st) < f \<Longrightarrow> (\<forall>t. st t = Temporary \<longrightarrow> path1 g t n) \<Longrightarrow>
    good g st [n] (tarjan g f st n)"
proof (induction f arbitrary: st n)
  case (Suc f)
  show ?case
  proof (cases "st n")
    case Marked
    then show ?thesis using Suc.prems(2) by (simp add: good_def)
  next
    case Temporary
    then show ?thesis using Suc.prems(4) by (auto simp: good_def)
  next
    case Unmarked
    let ?st = "st(n := Temporary)"
    have un: "unmarked g ?st = unmarked g st - {n}" "n \<in> unmarked g st"
      using Unmarked Suc.prems(1) by (auto simp: unmarked_def)
    then have "0 < card (unmarked g st)" by (auto simp: card_gt_0_iff)
    then have card: "card (unmarked g ?st) < f" using Suc.prems(3) un by simp
    have ok: "marks_ok g ?st"
      using Suc.prems(2) Unmarked unfolding marks_ok_def by (metis fun_upd_apply mark.distinct)
    have fold: "good g ?st (outgoing (g ! n)) (ofold (tarjan g f) (outgoing (g ! n)) ?st)"
    proof (rule good_fold[where U = "unmarked g ?st" and T = "{t. t = n \<or> path1 g t n}"])
      fix st' m
      assume m: "m \<in> set (outgoing (g ! n))" and st': "marks_ok g st'" "unmarked g st' \<subseteq> unmarked g ?st"
        "{t. st' t = Temporary} \<subseteq> {t. t = n \<or> path1 g t n}"
      have e: "edge g n m" using m Suc.prems(1) by (simp add: edge_def)
      show "good g st' [m] (tarjan g f st' m)"
      proof (rule Suc.IH)
        show "m < length g" using assms Suc.prems(1) m by (simp add: graph_wf_def)
        show "card (unmarked g st') < f" using card_mono[OF finite_unmarked st'(2)] card by simp
        show "\<forall>t. st' t = Temporary \<longrightarrow> path1 g t m" using st'(3) e by (auto intro: tranclp.trancl_into_trancl)
      qed (rule st'(1))
    qed (use ok Suc.prems(4) in auto)
    show ?thesis
    proof (cases "ofold (tarjan g f) (outgoing (g ! n)) ?st")
      case (Inl e)
      obtain m k where "m \<in> set (outgoing (g ! n))" "path g m k" "path1 g k k" and e: "e = Rejected 72"
        using fold Inl by (auto simp: good_def)
      then have "path g n k" using Suc.prems(1) by (meson edge_def converse_rtranclp_into_rtranclp)
      then show ?thesis using Inl e Unmarked Suc.prems(1) \<open>path1 g k k\<close> by (auto simp: good_def)
    next
      case (Inr st2)
      then have s2: "marks_ok g st2" "extends ?st st2" "\<forall>m \<in> set (outgoing (g ! n)). st2 m = Marked"
        using fold by (auto simp: good_def)
      have temp: "st2 n = Temporary" using s2(2) by (simp add: extends_def)
      have nc: "\<not> path1 g n n"
      proof
        assume "path1 g n n"
        then obtain m where "edge g n m" "path g m n" by (meson tranclpD)
        then have "st2 n = Marked" using marked_path[OF _ s2(1)] s2(3) by (auto simp: edge_def)
        then show False using temp by simp
      qed
      have "marks_ok g (st2(n := Marked))"
        using s2(1,3) nc unfolding marks_ok_def edge_def by auto
      moreover have "extends st (st2(n := Marked))"
        using s2(2) Unmarked unfolding extends_def by auto
      ultimately show ?thesis using Inr Unmarked Suc.prems(1) by (simp add: good_def)
    qed
  qed
qed simp

lemma card_unmarked: "card (unmarked g st) \<le> length g"
proof -
  have "card (unmarked g st) \<le> card {..<length g}" by (rule card_mono) (auto simp: unmarked_def)
  then show ?thesis by simp
qed

definition cyclic_from :: "graph \<Rightarrow> nat \<Rightarrow> bool" where
  "cyclic_from g n \<longleftrightarrow> (\<exists>m. path g n m \<and> path1 g m m)"

lemma marks_cyclic: "marks_ok g st \<Longrightarrow> st n = Marked \<Longrightarrow> \<not> cyclic_from g n"
  using marked_path[of g n _ st] by (auto simp: cyclic_from_def marks_ok_def)

lemma search_good:
  assumes "graph_wf g" "\<forall>a \<in> set actions. a < length g" "length g < f"
  shows "good g (\<lambda>_. Unmarked) actions (ofold (tarjan g f) actions (\<lambda>_. Unmarked))"
proof (rule good_fold[where U = UNIV and T = "{}"])
  fix st n
  assume a: "n \<in> set actions" "marks_ok g st" "{t. st t = Temporary} \<subseteq> {}"
  show "good g st [n] (tarjan g f st n)"
    by (rule tarjan_good[OF assms(1) _ a(2)])
      (use a assms(2,3) card_unmarked[of g st] in auto)
qed (simp_all add: marks_ok_def)

lemma search_iff:
  assumes "graph_wf g" "\<forall>a \<in> set actions. a < length g" "length g < f"
  shows "(\<forall>a \<in> set actions. \<not> cyclic_from g a) \<longleftrightarrow> (\<exists>st. ofold (tarjan g f) actions (\<lambda>_. Unmarked) = Inr st)"
    "(\<exists>a \<in> set actions. cyclic_from g a) \<longleftrightarrow> ofold (tarjan g f) actions (\<lambda>_. Unmarked) = Inl (Rejected 72)"
  using search_good[OF assms]
  by (cases rule: goodE; use marks_cyclic in \<open>force simp: cyclic_from_def\<close>)+

lemma check_reactions_iff:
  "check_reactions cs = (if \<forall>c \<in> set cs. c \<le> 1 then Inr () else Inl (Rejected 71))"
  unfolding check_reactions_def by (induction cs) auto

text \<open>The first pull port that is not bound exactly once decides.\<close>

lemma check_pull_ports_find:
  "check_pull_ports cs =
     (case find (\<lambda>c. c \<noteq> 1) cs of
        Some c \<Rightarrow> Inl (Rejected (if c = 0 then 118 else 119))
      | None \<Rightarrow> Inr ())"
  unfolding check_pull_ports_def by (induction cs) auto

text \<open>
  The defect a composition is rejected for: a reaction bound more than once, then the first pull port
  without a getter or with several, then a cycle that an action leads to.
\<close>

definition structure_defect :: "graph \<Rightarrow> nat list \<Rightarrow> nat list \<Rightarrow> nat list \<Rightarrow> nat option" where
  "structure_defect g push_counts getter_counts actions =
     (if \<exists>c \<in> set push_counts. 1 < c then Some 71
      else case find (\<lambda>c. c \<noteq> 1) getter_counts of
        Some c \<Rightarrow> Some (if c = 0 then 118 else 119)
      | None \<Rightarrow> if \<exists>a \<in> set actions. cyclic_from g a then Some 72 else None)"

lemma check_structure_cases:
  assumes "graph_wf g" "\<forall>a \<in> set actions. a < length g" "length g < f"
  shows "case structure_defect g pushes getters actions of
      Some e \<Rightarrow> check_structure g f pushes getters actions = Inl (Rejected e)
    | None \<Rightarrow> \<exists>st. check_structure g f pushes getters actions = Inr st"
proof (cases "\<forall>c \<in> set pushes. c \<le> 1")
  case True
  then have d: "\<not> (\<exists>c \<in> set pushes. 1 < c)" by auto
  have r: "check_structure g f pushes getters actions =
      obind (check_pull_ports getters) (\<lambda>_. ofold (tarjan g f) actions (\<lambda>_. Unmarked))"
    using True by (simp add: check_structure_def check_reactions_iff)
  show ?thesis
    unfolding r structure_defect_def if_not_P[OF d] check_pull_ports_find
    using search_iff[OF assms] by (auto split: option.splits)
next
  case False
  then have d: "\<exists>c \<in> set pushes. 1 < c" by (meson linorder_not_le)
  have "check_structure g f pushes getters actions = Inl (Rejected 71)"
    using False by (auto simp: check_structure_def check_reactions_iff)
  moreover have "structure_defect g pushes getters actions = Some 71"
    unfolding structure_defect_def using d by (rule if_P)
  ultimately show ?thesis by simp
qed

lemma no_structure_defect:
  "structure_defect g pushes getters actions = None \<longleftrightarrow>
     (\<forall>c \<in> set pushes. c \<le> 1) \<and> (\<forall>c \<in> set getters. c = 1) \<and> (\<forall>a \<in> set actions. \<not> cyclic_from g a)"
proof -
  have "find (\<lambda>c. c \<noteq> 1) getters = None \<longleftrightarrow> (\<forall>c \<in> set getters. c = 1)" by (auto simp: find_None_iff)
  then show ?thesis
    unfolding structure_defect_def by (force simp: linorder_not_less[symmetric] split: option.splits)
qed

lemma check_structure_accepts:
  assumes "graph_wf g" "\<forall>a \<in> set actions. a < length g" "length g < f"
  shows "(\<exists>st. check_structure g f pushes getters actions = Inr st) \<longleftrightarrow>
      (\<forall>c \<in> set pushes. c \<le> 1) \<and> (\<forall>c \<in> set getters. c = 1) \<and> (\<forall>a \<in> set actions. \<not> cyclic_from g a)"
  using check_structure_cases[OF assms, of pushes getters]
  unfolding no_structure_defect[symmetric] by (auto split: option.splits)

text \<open>C32: the structural check of a composition always ends: with the diagnostic of the first defect, which is
  E71 when some reaction is bound more than once; else, at the first pull port that is not bound
  exactly once, E118 when it has no getter and E119 when it has several; else E72 when
  a cycle can be reached from an action; and with acceptance when there is no defect, that is when
  every reaction is bound at most once, every pull port once, and no cycle can be reached.\<close>

theorem check_structure_decides:
  assumes "graph_wf g" "\<forall>a \<in> set actions. a < length g" "length g < f"
  shows "(case structure_defect g pushes getters actions of
       Some e \<Rightarrow> check_structure g f pushes getters actions = Inl (Rejected e)
     | None \<Rightarrow> \<exists>st. check_structure g f pushes getters actions = Inr st) \<and>
    (structure_defect g pushes getters actions = None \<longleftrightarrow>
      (\<forall>c \<in> set pushes. c \<le> 1) \<and> (\<forall>c \<in> set getters. c = 1) \<and> (\<forall>a \<in> set actions. \<not> cyclic_from g a))"
  using check_structure_cases[OF assms] no_structure_defect by blast

text \<open>A getter that calls itself, and a composition without cycles.\<close>

definition loop_graph :: graph where
  "loop_graph = [Getter_Node 0 AccessRead [0]]"

definition sample_graph :: graph where
  "sample_graph = [Action_Node 0 AccessRead AccessRead [1], Activation_Node 0 AccessWrite [2],
     PushPort_Node [3], Reaction_Node 1 AccessRead []]"

theorem check_structure_decides_witness:
  "(\<exists>st. check_structure sample_graph 5 [1] [] [0] = Inr st) \<and>
   check_structure sample_graph 5 [1] [1, 3, 0] [0] = Inl (Rejected 119)"
proof -
  have e: "edge sample_graph n m \<longleftrightarrow> n < 3 \<and> m = Suc n" for n m
    by (auto simp: edge_def sample_graph_def less_Suc_eq numeral_3_eq_3)
  have "path1 sample_graph n m \<Longrightarrow> n < m" for n m
    by (induction rule: tranclp_induct) (simp_all add: e)
  then have "\<not> cyclic_from sample_graph 0" by (auto simp: cyclic_from_def)
  moreover have "graph_wf sample_graph" by (simp add: graph_wf_def sample_graph_def less_Suc_eq numeral_eq_Suc)
  ultimately show ?thesis
    using check_structure_decides[of sample_graph "[0]" 5 "[1]" "[]"]
      check_structure_decides[of sample_graph "[0]" 5 "[1]" "[1, 3, 0]"]
    by (simp add: sample_graph_def structure_defect_def)
qed

section \<open>What the instance sets mean\<close>

text \<open>Some node that can be reached from \<open>n\<close> asks for at least access \<open>a\<close> to instance \<open>i\<close>.\<close>

definition needs :: "graph \<Rightarrow> nat \<Rightarrow> nat \<Rightarrow> receiver_access \<Rightarrow> bool" where
  "needs g n i a \<longleftrightarrow> a = AccessNone \<or>
     (\<exists>m b. path g n m \<and> m < length g \<and> (i, b) \<in> set (own_accesses (g ! m)) \<and> a \<le> b)"

text \<open>Two nodes both lead to a write of the same instance.\<close>

definition clash :: "graph \<Rightarrow> nat \<Rightarrow> nat \<Rightarrow> bool" where
  "clash g m k \<longleftrightarrow> (\<exists>i. needs g m i AccessWrite \<and> needs g k i AccessWrite)"

text \<open>A node that checks its successors has no two that clash; a composition is deterministic
  from \<open>n\<close> when this holds of every node it reaches.\<close>

definition node_ok :: "graph \<Rightarrow> nat \<Rightarrow> bool" where
  "node_ok g n \<longleftrightarrow> conflict_code (g ! n) = None \<or> sorted_wrt (\<lambda>m k. \<not> clash g m k) (outgoing (g ! n))"

definition deterministic :: "graph \<Rightarrow> nat \<Rightarrow> bool" where
  "deterministic g n \<longleftrightarrow> (\<forall>m. path g n m \<longrightarrow> node_ok g m)"

definition describes :: "graph \<Rightarrow> nat \<Rightarrow> instance_set \<Rightarrow> bool" where
  "describes g n s \<longleftrightarrow> iset_wf s \<and> (\<forall>i a. a \<le> access_of s i \<longleftrightarrow> needs g n i a)"

lemma needs_step:
  assumes "n < length g" "graph_wf g"
  shows "needs g n i a \<longleftrightarrow> a = AccessNone \<or> (\<exists>b. (i, b) \<in> set (own_accesses (g ! n)) \<and> a \<le> b) \<or>
    (\<exists>m \<in> set (outgoing (g ! n)). needs g m i a)"
proof -
  have p: "path g n m \<longleftrightarrow> m = n \<or> (\<exists>k \<in> set (outgoing (g ! n)). path g k m)" for m
    using assms(1) by (metis converse_rtranclpE converse_rtranclp_into_rtranclp edge_def rtranclp.rtrancl_refl)
  show ?thesis
    unfolding needs_def p using assms(1) by blast
qed

lemma deterministic_step:
  assumes "n < length g"
  shows "deterministic g n \<longleftrightarrow> node_ok g n \<and> (\<forall>m \<in> set (outgoing (g ! n)). deterministic g m)"
proof -
  have p: "path g n m \<longleftrightarrow> m = n \<or> (\<exists>k \<in> set (outgoing (g ! n)). path g k m)" for m
    using assms(1) by (metis converse_rtranclpE converse_rtranclp_into_rtranclp edge_def rtranclp.rtrancl_refl)
  show ?thesis unfolding deterministic_def p by blast
qed

lemma describes_write: "describes g n s \<Longrightarrow> access_of s i = AccessWrite \<longleftrightarrow> needs g n i AccessWrite"
  unfolding describes_def by (metis access_write_greatest antisym order_refl)

lemma compatible_describes:
  "describes g m s \<Longrightarrow> describes g k t \<Longrightarrow> is_compatible s t \<longleftrightarrow> \<not> clash g m k"
  using isets.compatible_iff[of s t] describes_write[of g m s] describes_write[of g k t]
  by (auto simp: describes_def clash_def)

section \<open>The memoised computation is correct\<close>

definition memo_ok :: "graph \<Rightarrow> memo \<Rightarrow> bool" where
  "memo_ok g memo \<longleftrightarrow> (\<forall>m s. memo m = Some s \<longrightarrow> describes g m s \<and> deterministic g m)"

definition conflict :: "'a outcome \<Rightarrow> bool" where
  "conflict r \<longleftrightarrow> (\<exists>c \<in> {120, 137, 138}. r = Inl (Rejected c))"

definition result_ok :: "graph \<Rightarrow> nat \<Rightarrow> (instance_set \<times> memo) outcome \<Rightarrow> bool" where
  "result_ok g n r \<longleftrightarrow>
     (if deterministic g n then \<exists>s memo'. r = Inr (s, memo') \<and> describes g n s \<and> memo_ok g memo'
      else conflict r)"

text \<open>An accumulated set and the successors it stands for.\<close>

definition gathers :: "graph \<Rightarrow> nat list \<Rightarrow> instance_set \<Rightarrow> bool" where
  "gathers g ks s \<longleftrightarrow> iset_wf s \<and>
     (\<forall>i a. a \<le> access_of s i \<longleftrightarrow> a = AccessNone \<or> (\<exists>k \<in> set ks. needs g k i a))"

lemma gathers_union:
  assumes "gathers g ks s" "describes g m t"
  shows "gathers g (ks @ [m]) (add_union s t)"
    "is_compatible s t \<longleftrightarrow> (\<forall>k \<in> set ks. \<not> clash g k m)"
proof -
  have wf: "iset_wf s" "iset_wf t" using assms by (simp_all add: gathers_def describes_def)
  show "gathers g (ks @ [m]) (add_union s t)"
    using assms isets.union_inv[OF wf] isets.acc_union[OF wf]
    by (auto simp: gathers_def describes_def le_max_iff_disj needs_def)
  have "access_of s i = AccessWrite \<longleftrightarrow> (\<exists>k \<in> set ks. needs g k i AccessWrite)" for i
    using assms(1) unfolding gathers_def
    by (metis access_write_greatest antisym order_refl receiver_access.distinct(3))
  then show "is_compatible s t \<longleftrightarrow> (\<forall>k \<in> set ks. \<not> clash g k m)"
    using isets.compatible_iff[OF wf] describes_write[OF assms(2)] by (auto simp: clash_def)
qed

definition gather_step ::
  "nat option \<Rightarrow> (memo \<Rightarrow> nat \<Rightarrow> (instance_set \<times> memo) outcome) \<Rightarrow> instance_set \<times> memo \<Rightarrow> nat \<Rightarrow>
     (instance_set \<times> memo) outcome"
where
  "gather_step code F = (\<lambda>(acc, memo) m.
     obind (F memo m) (\<lambda>(s, memo'). obind (unite code acc s) (\<lambda>acc'. Inr (acc', memo'))))"

definition gather_ok :: "graph \<Rightarrow> nat option \<Rightarrow> nat list \<Rightarrow> nat list \<Rightarrow> bool" where
  "gather_ok g code ks ms \<longleftrightarrow> (\<forall>m \<in> set ms. deterministic g m) \<and>
     (code = None \<or> (\<forall>k \<in> set ks. \<forall>m \<in> set ms. \<not> clash g k m) \<and> sorted_wrt (\<lambda>m k. \<not> clash g m k) ms)"

lemma gather_ok_Cons:
  "gather_ok g code ks (m # ms) \<longleftrightarrow>
     deterministic g m \<and> (code = None \<or> (\<forall>k \<in> set ks. \<not> clash g k m)) \<and> gather_ok g code (ks @ [m]) ms"
  by (auto simp: gather_ok_def)

definition gather_result :: "graph \<Rightarrow> nat option \<Rightarrow> nat list \<Rightarrow> nat list \<Rightarrow> (instance_set \<times> memo) outcome \<Rightarrow> bool" where
  "gather_result g code ks ms r \<longleftrightarrow>
     (if gather_ok g code ks ms then \<exists>acc memo. r = Inr (acc, memo) \<and> gathers g (ks @ ms) acc \<and> memo_ok g memo
      else conflict r)"

lemma gather_fold:
  assumes "\<And>m memo. m \<in> set ms \<Longrightarrow> memo_ok g memo \<Longrightarrow> result_ok g m (F memo m)"
    and "memo_ok g memo" "gathers g ks acc" "code \<in> {None, Some 120, Some 137, Some 138}"
  shows "gather_result g code ks ms (ofold (gather_step code F) ms (acc, memo))"
  using assms(1-3)
proof (induction ms arbitrary: acc memo ks)
  case Nil
  then show ?case by (simp add: gather_result_def gather_ok_def)
next
  case (Cons m ms)
  have r: "result_ok g m (F memo m)" by (rule Cons.prems(1)[OF _ Cons.prems(2)]) simp
  show ?case
  proof (cases "deterministic g m")
    case False
    then have "conflict (F memo m)" using r by (simp add: result_ok_def)
    then have "conflict (ofold (gather_step code F) (m # ms) (acc, memo))"
      by (auto simp: conflict_def gather_step_def)
    then show ?thesis using False by (simp only: gather_result_def gather_ok_Cons) simp
  next
    case True
    then obtain s memo' where s: "F memo m = Inr (s, memo')" "describes g m s" "memo_ok g memo'"
      using r by (auto simp: result_ok_def)
    note u = gathers_union[OF Cons.prems(3) s(2)]
    show ?thesis
    proof (cases "code \<noteq> None \<and> \<not> is_compatible acc s")
      case bad: True
      then have "conflict (ofold (gather_step code F) (m # ms) (acc, memo))"
        using s(1) assms(4) by (auto simp: conflict_def gather_step_def unite_def)
      moreover have "\<not> gather_ok g code ks (m # ms)" using bad u(2) by (simp add: gather_ok_Cons)
      ultimately show ?thesis by (simp only: gather_result_def if_False)
    next
      case good: False
      then have step: "ofold (gather_step code F) (m # ms) (acc, memo) =
          ofold (gather_step code F) ms (add_union acc s, memo')"
        using s(1) by (auto simp: gather_step_def unite_def split: option.splits)
      have "gather_result g code (ks @ [m]) ms (ofold (gather_step code F) ms (add_union acc s, memo'))"
      proof (rule Cons.IH)
        fix m' memo1 assume "m' \<in> set ms" "memo_ok g memo1"
        then show "result_ok g m' (F memo1 m')" by (intro Cons.prems(1)) simp_all
      qed (fact s(3) u(1))+
      moreover have "gather_ok g code ks (m # ms) = gather_ok g code (ks @ [m]) ms"
        using good u(2) True by (auto simp: gather_ok_Cons)
      ultimately show ?thesis unfolding step gather_result_def by (simp split: if_splits)
    qed
  qed
qed

text \<open>The nodes that can be reached get fewer along every edge of an acyclic part.\<close>

definition reached :: "graph \<Rightarrow> nat \<Rightarrow> nat set" where
  "reached g n = {m. path g n m}"

lemma reached_bound:
  assumes "graph_wf g" "n < length g"
  shows "finite (reached g n)" "card (reached g n) \<le> length g"
proof -
  have s: "reached g n \<subseteq> {..<length g}" using path_bound[OF _ assms] by (auto simp: reached_def)
  then show "finite (reached g n)" by (rule finite_subset) simp
  show "card (reached g n) \<le> length g" using card_mono[OF _ s] by simp
qed

lemma reached_decreases:
  assumes "graph_wf g" "n < length g" "\<not> cyclic_from g n" "m \<in> set (outgoing (g ! n))"
  shows "card (reached g m) < card (reached g n)" "\<not> cyclic_from g m" "m < length g"
proof -
  have e: "edge g n m" using assms(2,4) by (simp add: edge_def)
  then have sub: "reached g m \<subseteq> reached g n"
    by (auto simp: reached_def intro: converse_rtranclp_into_rtranclp)
  have "\<not> path g m n"
  proof
    assume "path g m n"
    then have "path1 g n n" using e by (meson rtranclp_into_tranclp2)
    then show False using assms(3) by (auto simp: cyclic_from_def)
  qed
  then have "n \<in> reached g n" "n \<notin> reached g m" by (simp_all add: reached_def)
  then have "reached g m \<subset> reached g n" using sub by blast
  then show "card (reached g m) < card (reached g n)"
    by (rule psubset_card_mono[OF reached_bound(1)[OF assms(1,2)]])
  show "\<not> cyclic_from g m"
    using assms(3) e unfolding cyclic_from_def by (meson converse_rtranclp_into_rtranclp)
  show "m < length g" using assms(1,2,4) by (simp add: graph_wf_def)
qed

lemma conflict_code_cases: "conflict_code nd \<in> {None, Some 120, Some 137, Some 138}"
  by (cases nd) auto

lemma instance_set_ok:
  assumes "graph_wf g"
  shows "n < length g \<Longrightarrow> \<not> cyclic_from g n \<Longrightarrow> card (reached g n) \<le> f \<Longrightarrow> memo_ok g memo \<Longrightarrow>
    result_ok g n (instance_set g f memo n)"
proof (induction f arbitrary: memo n)
  case 0
  have "n \<in> reached g n" by (simp add: reached_def)
  then show ?case using 0 reached_bound(1)[OF assms] by (auto simp: card_eq_0_iff)
next
  case (Suc f)
  show ?case
  proof (cases "memo n")
    case (Some s)
    then show ?thesis using Suc.prems(4) by (auto simp: memo_ok_def result_ok_def)
  next
    case None
    let ?nd = "g ! n"
    let ?fold = "ofold (gather_step (conflict_code ?nd) (instance_set g f)) (outgoing ?nd) ([], memo)"
    have eq: "instance_set g (Suc f) memo n = obind ?fold (\<lambda>(acc, memo').
        let s = foldl (\<lambda>s v. iset_insert v s) acc (own_accesses ?nd) in Inr (s, memo'(n \<mapsto> s)))"
      using None Suc.prems(1) by (simp add: gather_step_def)
    have ih: "result_ok g m (instance_set g f memo' m)"
      if m: "m \<in> set (outgoing ?nd)" "memo_ok g memo'" for m memo'
      using Suc.IH[OF reached_decreases(3,2)[OF assms Suc.prems(1,2) m(1)] _ m(2)]
        reached_decreases(1)[OF assms Suc.prems(1,2) m(1)] Suc.prems(3) by linarith
    have e: "gathers g [] []" by (simp add: gathers_def)
    have fold: "gather_result g (conflict_code ?nd) [] (outgoing ?nd) ?fold"
      by (rule gather_fold[OF _ Suc.prems(4) e conflict_code_cases]) (rule ih)
    have det: "deterministic g n \<longleftrightarrow> gather_ok g (conflict_code ?nd) [] (outgoing ?nd)"
      using deterministic_step[OF Suc.prems(1)] by (auto simp: node_ok_def gather_ok_def)
    show ?thesis
    proof (cases "deterministic g n")
      case True
      then obtain acc memo' where r: "?fold = Inr (acc, memo')" "gathers g (outgoing ?nd) acc" "memo_ok g memo'"
        using fold det by (auto simp: gather_result_def)
      let ?s = "foldl (\<lambda>s v. iset_insert v s) acc (own_accesses ?nd)"
      have "describes g n ?s"
        using isets.ins_all_acc[of acc] r(2) needs_step[OF Suc.prems(1) assms]
        by (auto simp: describes_def gathers_def)
      then show ?thesis
        using True r(1,3) eq by (auto simp: result_ok_def memo_ok_def Let_def)
    next
      case False
      then have "conflict ?fold" using fold det by (simp add: gather_result_def)
      then show ?thesis using False eq by (auto simp: result_ok_def conflict_def)
    qed
  qed
qed

lemma compute_ok:
  assumes "graph_wf g" "\<forall>a \<in> set as. a < length g \<and> \<not> cyclic_from g a" "length g \<le> f" "memo_ok g memo"
  shows "if \<forall>a \<in> set as. deterministic g a then
      \<exists>memo'. ofold (\<lambda>memo a. obind (instance_set g f memo a) (\<lambda>(s, memo'). Inr memo')) as memo = Inr memo' \<and>
        memo_ok g memo'
    else conflict (ofold (\<lambda>memo a. obind (instance_set g f memo a) (\<lambda>(s, memo'). Inr memo')) as memo)"
  using assms(2,4)
proof (induction as arbitrary: memo)
  case (Cons a as)
  have "card (reached g a) \<le> f" using reached_bound(2)[OF assms(1), of a] Cons.prems(1) assms(3) by simp
  then have r: "result_ok g a (instance_set g f memo a)"
    using instance_set_ok[OF assms(1), of a f memo] Cons.prems by simp
  show ?case
  proof (cases "deterministic g a")
    case True
    then obtain s memo' where "instance_set g f memo a = Inr (s, memo')" "memo_ok g memo'"
      using r by (auto simp: result_ok_def)
    then show ?thesis using Cons.IH[of memo'] Cons.prems(1) True by simp
  next
    case False
    then have "conflict (instance_set g f memo a)" using r by (simp add: result_ok_def)
    then show ?thesis using False by (auto simp: conflict_def)
  qed
qed simp

text \<open>C33: once the structure has been accepted, the set of every node is computed without running
  out of fuel: it records for every instance the largest access any reachable node needs, or a
  diagnostic E120, E137 or E138 is given because two successors of an activation or a port both
  lead to a write of one instance.\<close>

theorem instance_set_correct:
  assumes "graph_wf g" "n < length g" "\<not> cyclic_from g n" "length g \<le> f"
  shows "(deterministic g n \<longrightarrow> (\<exists>s memo. instance_set g f (\<lambda>_. None) n = Inr (s, memo) \<and>
      (\<forall>i a. a \<le> access_of s i \<longleftrightarrow> needs g n i a))) \<and>
    (\<not> deterministic g n \<longrightarrow> (\<exists>c \<in> {120, 137, 138}. instance_set g f (\<lambda>_. None) n = Inl (Rejected c)))"
proof -
  have "result_ok g n (instance_set g f (\<lambda>_. None) n)"
    by (rule instance_set_ok[OF assms(1-3)])
      (use reached_bound(2)[OF assms(1,2)] assms(4) in \<open>simp_all add: memo_ok_def\<close>)
  then show ?thesis by (auto simp: result_ok_def describes_def conflict_def split: if_splits)
qed

text \<open>The analysis accepts a composition exactly when its structure is sound and, from every action, no
  activation, push port or pull port has two successors that may write the same instance.\<close>

theorem analyze_accepts_iff:
  assumes "graph_wf g" "\<forall>a \<in> set actions. a < length g" "length g < f"
  shows "(\<exists>memo. analyze g f pushes getters actions = Inr memo) \<longleftrightarrow>
    (\<forall>c \<in> set pushes. c \<le> 1) \<and> (\<forall>c \<in> set getters. c = 1) \<and>
    (\<forall>a \<in> set actions. \<not> cyclic_from g a \<and> deterministic g a)"
proof (cases "\<exists>st. check_structure g f pushes getters actions = Inr st")
  case True
  then obtain st where st: "check_structure g f pushes getters actions = Inr st" by blast
  have ok: "(\<forall>c \<in> set pushes. c \<le> 1) \<and> (\<forall>c \<in> set getters. c = 1) \<and> (\<forall>a \<in> set actions. \<not> cyclic_from g a)"
    using check_structure_accepts[OF assms] True by blast
  have "(\<exists>memo. compute_instance_sets g f actions = Inr memo) \<longleftrightarrow> (\<forall>a \<in> set actions. deterministic g a)"
    using compute_ok[OF assms(1), of actions f "\<lambda>_. None"] assms(2,3) ok
    by (auto simp: compute_instance_sets_def memo_ok_def conflict_def split: if_splits)
  then show ?thesis using st ok by (auto simp: analyze_def)
next
  case False
  then have "\<not> ((\<forall>c \<in> set pushes. c \<le> 1) \<and> (\<forall>c \<in> set getters. c = 1) \<and> (\<forall>a \<in> set actions. \<not> cyclic_from g a))"
    using check_structure_accepts[OF assms] by blast
  moreover have "\<nexists>memo. analyze g f pushes getters actions = Inr memo"
    using False by (auto simp: analyze_def outcome_simps)
  ultimately show ?thesis by blast
qed

lemma sample_graph_facts:
  "graph_wf sample_graph" "\<not> cyclic_from sample_graph 0" "deterministic sample_graph 0"
proof -
  have e: "edge sample_graph n m \<longleftrightarrow> n < 3 \<and> m = Suc n" for n m
    by (auto simp: edge_def sample_graph_def less_Suc_eq numeral_3_eq_3)
  have "path1 sample_graph n m \<Longrightarrow> n < m" for n m
    by (induction rule: tranclp_induct) (simp_all add: e)
  then show "\<not> cyclic_from sample_graph 0" by (auto simp: cyclic_from_def)
  show wf: "graph_wf sample_graph" by (simp add: graph_wf_def sample_graph_def less_Suc_eq numeral_eq_Suc)
  have "node_ok sample_graph m" if "m < 4" for m
    using that by (auto simp: node_ok_def sample_graph_def less_Suc_eq numeral_eq_Suc)
  moreover have "length sample_graph = 4" by (simp add: sample_graph_def)
  ultimately show "deterministic sample_graph 0"
    using path_bound[OF _ wf, of 0] by (simp add: deterministic_def)
qed

theorem instance_set_correct_witness:
  "\<exists>s memo. instance_set sample_graph 4 (\<lambda>_. None) 0 = Inr (s, memo) \<and> AccessWrite \<le> access_of s 0"
proof -
  have "path sample_graph 0 1"
    by (rule r_into_rtranclp) (simp add: edge_def sample_graph_def)
  then have "needs sample_graph 0 0 AccessWrite"
    unfolding needs_def by (intro disjI2 exI[of _ 1] exI[of _ AccessWrite]) (simp add: sample_graph_def)
  then show ?thesis
    using instance_set_correct[OF sample_graph_facts(1) _ sample_graph_facts(2), of 4] sample_graph_facts(3)
    by (auto simp: sample_graph_def)
qed

theorem analyze_accepts_iff_witness: "\<exists>memo. analyze sample_graph 5 [1] [] [0] = Inr memo"
  using analyze_accepts_iff[OF sample_graph_facts(1), of "[0]" 5 "[1]" "[]"] sample_graph_facts(2,3)
  by (simp add: sample_graph_def)

text \<open>
  The order of the phases matters: elaborate asks for the sets of precondition nodes before
  analyze looks for cycles.  On a getter that calls itself the computation has no end.
\<close>

lemma recursive_getter_diverges: "instance_set loop_graph f (\<lambda>_. None) 0 = Inl Out_of_fuel"
  by (induction f) (simp_all add: loop_graph_def)

end
