(* ===== verification/Compose.thy ===== *)
theory Compose
  imports Arch Graph
begin

text \<open>
  Where the parts of a composition come from (composition.cpp, runtime.cpp): component
  instances and ports are enumerated by walking the types of the top-level instances, and
  actions, reactions and getters by walking the types of the instances.  Addresses are
  offsets in one imaginary layout of all top-level instances.
\<close>

section \<open>Instances and ports\<close>

text \<open>An instance, a push port or a pull port with its address, in the order of creation; a parent is
  given by the address of its instance.\<close>

datatype placed =
    Placed_Instance (place: "64 word") (parent: "64 word option") ty "nat option" bool string
  | Placed_PushPort (place: "64 word") (parent: "64 word option") "field option" string
  | Placed_PullPort (place: "64 word") (parent: "64 word option") "field option" string

fun nat_string :: "nat \<Rightarrow> string" where
  "nat_string n = (if n < 10 then [char_of (48 + n)] else nat_string (n div 10) @ [char_of (48 + n mod 10)])"

declare nat_string.simps [simp del]

text \<open>
  Composer::instantiate_contained_instances.  The first number bounds the nesting of types, the second is
  the fuel for sizes and offsets.  The arguments node (NULL below the top) and operation
  are one flag.
\<close>

fun instantiate ::
  "tenv \<Rightarrow> nat \<Rightarrow> nat \<Rightarrow> ty \<Rightarrow> 64 word option \<Rightarrow> nat option \<Rightarrow> 64 word \<Rightarrow> bool \<Rightarrow> string \<Rightarrow>
     ty option \<Rightarrow> field option \<Rightarrow> placed list outcome"
where
  "instantiate env 0 n t par init address is_top name named fld = Inl Out_of_fuel"
| "instantiate env (Suc f) n t par init address is_top name named fld =
     (case t of
        NamedType m \<Rightarrow>
          instantiate env f n (underlying_type env t) par init address is_top name (Some t) None
      | Struct Component i fs \<Rightarrow>
          (case named of
             None \<Rightarrow> Inl Assertion_failed
           | Some nt \<Rightarrow>
               obind (ofold (\<lambda>ps k.
                   obind (offset env n fs k) (\<lambda>off.
                   obind (instantiate env f n (ftype (fs ! k)) (Some address) None (address + off) False
                            (name @ ''.'' @ fname (fs ! k)) None (Some (fs ! k))) (\<lambda>qs.
                   Inr (ps @ qs)))) [0..<length fs] [])
                 (\<lambda>ps. Inr (Placed_Instance address par nt init is_top name # ps)))
      | Array b d \<Rightarrow>
          if 0 \<le> d then
            ofold (\<lambda>ps k.
                obind (unit_size env n b) (\<lambda>u.
                obind (instantiate env f n b par None (address + of_nat k * u) False
                         (name @ ''['' @ nat_string k @ '']'') None fld) (\<lambda>qs.
                Inr (ps @ qs)))) [0..<nat d] []
          else Inl Out_of_fuel
      | FunctionBase PushPort i ps rs \<Rightarrow> Inr [Placed_PushPort address par fld name]
      | FunctionBase PullPort i ps rs \<Rightarrow> Inr [Placed_PullPort address par fld name]
      | _ \<Rightarrow> Inr [])"

text \<open>The maps of the composer, filled in the order of creation (a later entry replaces an earlier one).\<close>

record composer =
  instances :: "(64 word \<times> placed) list"
  push_ports :: "(64 word \<times> placed) list"
  pull_ports :: "(64 word \<times> placed) list"

fun map_put :: "'a :: linorder \<Rightarrow> 'b \<Rightarrow> ('a \<times> 'b) list \<Rightarrow> ('a \<times> 'b) list" where
  "map_put k v [] = [(k, v)]"
| "map_put k v ((k', v') # m) =
     (if k < k' then (k, v) # (k', v') # m
      else if k = k' then (k, v) # m
      else (k', v') # map_put k v m)"

text \<open>add_instance, add_push_port and add_pull_port.\<close>

fun add_placed :: "composer \<Rightarrow> placed \<Rightarrow> composer" where
  "add_placed c (Placed_Instance a p t i is_top name) =
     c\<lparr>instances := map_put a (Placed_Instance a p t i is_top name) (instances c)\<rparr>"
| "add_placed c (Placed_PushPort a p f name) =
     c\<lparr>push_ports := map_put a (Placed_PushPort a p f name) (push_ports c)\<rparr>"
| "add_placed c (Placed_PullPort a p f name) =
     c\<lparr>pull_ports := map_put a (Placed_PullPort a p f name) (pull_ports c)\<rparr>"

text \<open>Composer::enumerate_instances over the top-level instances: type, initializer and name.\<close>

definition enumerate_instances ::
  "tenv \<Rightarrow> nat \<Rightarrow> nat \<Rightarrow> (ty \<times> nat option \<times> string) list \<Rightarrow> composer outcome"
where
  "enumerate_instances env f n decls =
     obind (ofold (\<lambda>(c, address) (t, init, name).
         obind (instantiate env f n t None init address True name None None) (\<lambda>ps.
         obind (type_size env n t) (\<lambda>s. Inr (foldl add_placed c ps, address + s))))
       decls (\<lparr>instances = [], push_ports = [], pull_ports = []\<rparr>, 0))
     (\<lambda>(c, _). Inr c)"

text \<open>Instance::offset, in the address space of the composition.\<close>

definition instance_offset :: "placed \<Rightarrow> 64 word" where
  "instance_offset p = (case parent p of None \<Rightarrow> 0 | Some a \<Rightarrow> place p - a)"

section \<open>Actions, reactions and getters\<close>

text \<open>
  The loops of enumerate_actions and enumerate_reactions over the declarations of the type of
  an instance: one entry per index of an array declaration (dimension not -1).
\<close>

definition indices :: "int \<Rightarrow> nat list outcome" where
  "indices dimension =
     (if dimension = -1 then Inr [0]
      else if 0 \<le> dimension then Inr [0..<nat dimension] else Inl Out_of_fuel)"

definition enumerate_members :: "('i \<times> (nat \<times> int) list) list \<Rightarrow> ('i \<times> nat \<times> nat) list outcome" where
  "enumerate_members insts =
     ofold (\<lambda>out (i, decls).
       ofold (\<lambda>out (d, dimension). obind (indices dimension) (\<lambda>ks. Inr (out @ map (\<lambda>k. (i, d, k)) ks)))
         decls out) insts []"

section \<open>Layout\<close>

text \<open>
  A type whose components have the run-time header as their first field and whose
  parts are laid out without wrap-around or zero alignment.
\<close>

fun neat :: "tenv \<Rightarrow> nat \<Rightarrow> nat \<Rightarrow> ty \<Rightarrow> bool" where
  "neat env 0 n t \<longleftrightarrow> True"
| "neat env (Suc f) n t \<longleftrightarrow>
     (case t of
        NamedType m \<Rightarrow> neat env f n (underlying_type env t)
      | Struct Component i fs \<Rightarrow>
          fs \<noteq> [] \<and> (\<exists>b. ftype (hd fs) = Pointer b) \<and> fields_bytes env n fs < 2 ^ 64 \<and>
          (\<forall>x \<in> set fs. padded env n x \<and> neat env f n (ftype x))
      | Array b d \<Rightarrow>
          neat env f n b \<and> alignment env n b \<noteq> Inr 0 \<and>
          (\<forall>u s. type_size env n b = Inr s \<longrightarrow> unit_size env n b = Inr u \<longrightarrow>
             unat s + 8 < 2 ^ 64 \<and> unat u * nat d < 2 ^ 64)
      | _ \<Rightarrow> True)"

text \<open>What a part takes for itself: an instance its run-time header, a port its record in the instance.\<close>

fun extent :: "placed \<Rightarrow> nat" where
  "extent (Placed_Instance a p t i is_top name) = 8"
| "extent (Placed_PushPort a p f name) = 8"
| "extent (Placed_PullPort a p f name) = 16"

definition precedes :: "placed \<Rightarrow> placed \<Rightarrow> bool" where
  "precedes p q \<longleftrightarrow> unat (place p) + extent p \<le> unat (place q)"

definition inside :: "64 word \<Rightarrow> 64 word \<Rightarrow> placed \<Rightarrow> bool" where
  "inside address s p \<longleftrightarrow> unat address \<le> unat (place p) \<and> unat (place p) + extent p \<le> unat address + unat s"

text \<open>Lists of placed parts one after the other, all in one range.\<close>

definition spread :: "64 word \<Rightarrow> 64 word \<Rightarrow> placed list \<Rightarrow> bool" where
  "spread address s ps \<longleftrightarrow> sorted_wrt precedes ps \<and> (\<forall>p \<in> set ps. inside address s p)"

lemma extent_pos: "8 \<le> extent p"
  by (cases p) simp_all

lemma precedes_place: "precedes p q \<Longrightarrow> unat (place p) < unat (place q)"
  using extent_pos[of p] by (simp add: precedes_def)

lemma sorted_distinct: "sorted_wrt precedes ps \<Longrightarrow> distinct (map place ps)"
  by (induction ps) (fastforce dest: precedes_place)+

lemma ofold_snoc: "ofold f (xs @ [x]) s = obind (ofold f xs s) (\<lambda>a. f a x)"
  by (induction xs arbitrary: s) (auto simp: obind_def split: sum.splits)

text \<open>
  Collecting lists over consecutive indices: when the part for index \<open>k\<close> lies in a range that
  starts after all earlier ranges, the whole is in order.
\<close>

lemma collect_spread:
  assumes "ofold (\<lambda>ps k. obind (F k) (\<lambda>qs. Inr (ps @ qs))) [0..<n] [] = Inr ps"
    and "\<And>k qs. k < n \<Longrightarrow> F k = Inr qs \<Longrightarrow>
      sorted_wrt precedes qs \<and> (\<forall>p \<in> set qs. lo k \<le> unat (place p) \<and> unat (place p) + extent p \<le> hi k)"
    and "\<And>j k. j < k \<Longrightarrow> k < n \<Longrightarrow> hi j \<le> lo k"
  shows "sorted_wrt precedes ps \<and> (\<forall>p \<in> set ps. \<exists>k < n. lo k \<le> unat (place p) \<and> unat (place p) + extent p \<le> hi k)"
  using assms
proof (induction n arbitrary: ps)
  case (Suc n)
  obtain qs rs where q: "ofold (\<lambda>ps k. obind (F k) (\<lambda>qs. Inr (ps @ qs))) [0..<n] [] = Inr qs" "F n = Inr rs"
    "ps = qs @ rs"
    using Suc.prems(1) by (auto simp: ofold_snoc outcome_simps)
  have IH: "sorted_wrt precedes qs \<and> (\<forall>p \<in> set qs. \<exists>k < n. lo k \<le> unat (place p) \<and> unat (place p) + extent p \<le> hi k)"
    by (rule Suc.IH[OF q(1)]; rule Suc.prems(2,3); simp)
  have r: "sorted_wrt precedes rs \<and> (\<forall>p \<in> set rs. lo n \<le> unat (place p) \<and> unat (place p) + extent p \<le> hi n)"
    using Suc.prems(2)[OF _ q(2)] by simp
  have "precedes p p'" if p: "p \<in> set qs" and p': "p' \<in> set rs" for p p'
  proof -
    obtain k where "k < n" "unat (place p) + extent p \<le> hi k" using IH p by blast
    moreover have "hi k \<le> lo n" using Suc.prems(3)[of k n] calculation(1) by simp
    moreover have "lo n \<le> unat (place p')" using r p' by blast
    ultimately show ?thesis unfolding precedes_def by linarith
  qed
  then have "sorted_wrt precedes ps" using IH r q(3) by (simp add: sorted_wrt_append)
  moreover have "\<exists>k < Suc n. lo k \<le> unat (place p) \<and> unat (place p) + extent p \<le> hi k" if "p \<in> set ps" for p
  proof (cases "p \<in> set qs")
    case True
    then show ?thesis using IH by (meson less_Suc_eq)
  next
    case False
    then show ?thesis using r q(3) that by auto
  qed
  ultimately show ?case by blast
qed simp

lemma ofold_each:
  "ofold f xs s = Inr r \<Longrightarrow> x \<in> set xs \<Longrightarrow> \<exists>a b. f a x = Inr b"
  by (induction xs arbitrary: s) (auto simp: outcome_simps)

lemma unat_add_small: "unat (a :: 64 word) + unat b < 2 ^ 64 \<Longrightarrow> unat (a + b) = unat a + unat b"
  by (subst unat_add_lem[THEN iffD1]) simp_all

text \<open>The parts of a struct, around the address of its instance.\<close>

lemma struct_spread:
  assumes "ofold (\<lambda>ps k.
      obind (offset env n fs k) (\<lambda>off. obind (G k off) (\<lambda>qs. Inr (ps @ qs)))) [0..<length fs] [] = Inr ps"
    and size: "type_size env (Suc n) (Struct c i fs) = Inr s" and wrap: "unat address + unat s < 2 ^ 64"
    and neat: "fs \<noteq> []" "ftype (hd fs) = Pointer b" "fields_bytes env n fs < 2 ^ 64" "\<forall>x \<in> set fs. padded env n x"
    and hdr: "\<And>off qs. G 0 off = Inr qs \<Longrightarrow> qs = []"
    and G: "\<And>k off sk qs. k < length fs \<Longrightarrow> G k off = Inr qs \<Longrightarrow> type_size env n (ftype (fs ! k)) = Inr sk \<Longrightarrow>
      unat (address + off) + unat sk < 2 ^ 64 \<Longrightarrow> spread (address + off) sk qs"
  shows "sorted_wrt precedes ps \<and>
    (\<forall>p \<in> set ps. unat address + 8 \<le> unat (place p) \<and> unat (place p) + extent p \<le> unat address + unat s)"
proof -
  define off where "off k = (case offset env n fs k of Inr w \<Rightarrow> w | Inl _ \<Rightarrow> 0)" for k
  define sz where "sz k = (case type_size env n (ftype (fs ! k)) of Inr w \<Rightarrow> w | Inl _ \<Rightarrow> 0)" for k
  define lo where "lo k = unat address + unat (off k)" for k
  define hi where "hi k = (if k = 0 then lo 0 else lo k + unat (sz k))" for k
  have layout: "ofold (layout_step env n) fs 0 = Inr s"
    using size by (subst (asm) type_size_struct[of env _ c i fs]) simp_all
  have sz: "type_size env n (ftype (fs ! k)) = Inr (sz k)" "\<exists>a. alignment env n (ftype (fs ! k)) = Inr a"
    if "k < length fs" for k
    using ofold_each[OF layout, of "fs ! k"] that by (auto simp: layout_step_def outcome_simps sz_def)
  have off: "offset env n fs k = Inr (off k)" if k: "k < length fs" for k
  proof -
    have "ofold (layout_step env n) (take k fs @ drop k fs) 0 = Inr s" using layout by simp
    then obtain e where "ofold (layout_step env n) (take k fs) 0 = Inr e"
      unfolding ofold_append by (auto simp: outcome_simps)
    then show ?thesis using k sz(2)[OF k] by (auto simp: offset_def off_def)
  qed
  have inside: "unat (off k) + unat (sz k) \<le> unat s" if k: "k < length fs" for k
  proof -
    obtain a where "alignment env n (ftype (fs ! k)) = Inr a" using sz(2)[OF k] by blast
    then show ?thesis
      using field_inside[OF off[OF k] sz(1)[OF k] _ _ size neat(4,3)] by simp
  qed
  have apart: "unat (off j) + unat (sz j) \<le> unat (off k)" if "j < k" "k < length fs" for j k
    using fields_disjoint[OF off off that(1) sz(1) sz(1) neat(4,3)] that by simp
  have n0: "0 < length fs" using neat(1) by simp
  have sz0: "sz 0 = 8"
  proof -
    have h: "ftype (fs ! 0) = Pointer b" using neat(1,2) by (simp add: hd_conv_nth)
    show ?thesis using sz(1)[OF n0] unfolding h by (cases n) simp_all
  qed
  have add: "unat (address + off k) = lo k" if k: "k < length fs" for k
    using inside[OF k] wrap unfolding lo_def by (intro unat_add_small) simp
  let ?F = "\<lambda>k. obind (offset env n fs k) (G k)"
  have fold: "ofold (\<lambda>ps k. obind (?F k) (\<lambda>qs. Inr (ps @ qs))) [0..<length fs] [] = Inr ps"
    using assms(1) by (simp add: obind_assoc)
  have F: "sorted_wrt precedes qs \<and> (\<forall>p \<in> set qs. lo k \<le> unat (place p) \<and> unat (place p) + extent p \<le> hi k)"
    if k: "k < length fs" and q: "?F k = Inr qs" for k qs
  proof (cases "k = 0")
    case True
    then have "qs = []" using q hdr off[OF n0] by simp
    then show ?thesis by simp
  next
    case False
    have "unat (address + off k) + unat (sz k) < 2 ^ 64" using add[OF k] inside[OF k] wrap by (simp add: lo_def)
    then have "spread (address + off k) (sz k) qs" using G[OF k _ sz(1)[OF k]] q off[OF k] by simp
    then show ?thesis using False add[OF k] by (simp add: spread_def inside_def hi_def)
  qed
  have R: "sorted_wrt precedes ps \<and> (\<forall>p \<in> set ps. \<exists>k < length fs. lo k \<le> unat (place p) \<and> unat (place p) + extent p \<le> hi k)"
  proof (rule collect_spread[OF fold F])
    fix j k assume "j < k" "k < length fs"
    then show "hi j \<le> lo k" using apart[of j k] by (auto simp: hi_def lo_def)
  qed
  have "unat address + 8 \<le> unat (place p) \<and> unat (place p) + extent p \<le> unat address + unat s" if p: "p \<in> set ps" for p
  proof -
    obtain k where k: "k < length fs" "lo k \<le> unat (place p)" "unat (place p) + extent p \<le> hi k" using R p by blast
    then have "0 < k" using extent_pos[of p] by (cases k) (simp_all add: hi_def)
    then have "8 \<le> unat (off k)" using apart[of 0 k] k(1) sz0 by simp
    moreover have "unat address + unat (off k) \<le> unat (place p)" using k(2) by (simp only: lo_def)
    moreover have "unat (place p) + extent p \<le> unat address + unat (off k) + unat (sz k)"
      using k(3) \<open>0 < k\<close> by (simp add: lo_def hi_def)
    ultimately show ?thesis using inside[OF k(1)] by linarith
  qed
  then show ?thesis using R by blast
qed

text \<open>The elements of an array.\<close>

lemma array_spread:
  assumes "ofold (\<lambda>ps k. obind (unit_size env n b) (\<lambda>u. obind (G k u) (\<lambda>qs. Inr (ps @ qs)))) [0..<nat d] [] = Inr ps"
    and size: "type_size env (Suc n) (Array b d) = Inr s" and wrap: "unat address + unat s < 2 ^ 64"
    and d: "0 \<le> d" and al: "alignment env n b \<noteq> Inr 0"
    and small: "\<And>u s. type_size env n b = Inr s \<Longrightarrow> unit_size env n b = Inr u \<Longrightarrow>
      unat s + 8 < 2 ^ 64 \<and> unat u * nat d < 2 ^ 64"
    and G: "\<And>k u sb qs. G k u = Inr qs \<Longrightarrow> type_size env n b = Inr sb \<Longrightarrow>
      unat (address + of_nat k * u) + unat sb < 2 ^ 64 \<Longrightarrow> spread (address + of_nat k * u) sb qs"
  shows "spread address s ps"
proof -
  obtain sb a where sb: "type_size env n b = Inr sb" "alignment env n b = Inr a" "s = align_up sb a * word_of_int d"
    using size by (auto simp: outcome_simps)
  define u where "u = align_up sb a"
  have us: "unit_size env n b = Inr u" using sb by (simp add: unit_size_def u_def)
  have sm: "unat sb + 8 < 2 ^ 64" "unat u * nat d < 2 ^ 64" using small[OF sb(1) us] by simp_all
  have a: "a \<in> alignments" "a \<noteq> 0" using alignment_range[OF sb(2)] al sb(2) by auto
  have "unat u = round_up (unat sb) (unat a)" unfolding u_def by (rule align_up_unat) (use a sm in simp_all)
  moreover have "0 < unat a" using a(2) by (simp add: unat_gt_0)
  ultimately have ub: "unat sb \<le> unat u" using round_up_ge by simp
  have unat_mult: "unat (of_nat k * u) = k * unat u" if "k \<le> nat d" for k
  proof -
    have "k * unat u \<le> unat u * nat d" using mult_le_mono1[OF that, of "unat u"] by (simp only: mult.commute)
    then have "k * unat u < 2 ^ 64" using sm(2) by (rule le_less_trans)
    then have "unat (of_nat (k * unat u) :: 64 word) = k * unat u" by (simp only: unat_of_nat) simp
    then show ?thesis by simp
  qed
  have "(word_of_int d :: 64 word) = of_nat (nat d)" using d by simp
  then have su: "unat s = nat d * unat u" using unat_mult[of "nat d"] sb(3) by (simp add: u_def mult.commute)
  define lo where "lo k = unat address + k * unat u" for k
  have le: "k * unat u + unat u \<le> unat s" if "k < nat d" for k
    using mult_le_mono1[of "Suc k" "nat d" "unat u"] that su by simp
  have add: "unat (address + of_nat k * u) = lo k" if k: "k < nat d" for k
    using le[OF k] wrap unat_mult[of k] k unfolding lo_def by (subst unat_add_small) simp_all
  have fold: "ofold (\<lambda>ps k. obind (G k u) (\<lambda>qs. Inr (ps @ qs))) [0..<nat d] [] = Inr ps"
    using assms(1) us by simp
  have F: "sorted_wrt precedes qs \<and> (\<forall>p \<in> set qs. lo k \<le> unat (place p) \<and> unat (place p) + extent p \<le> lo k + unat sb)"
    if k: "k < nat d" and q: "G k u = Inr qs" for k qs
  proof -
    have "unat (address + of_nat k * u) + unat sb < 2 ^ 64"
      using add[OF k] le[OF k] wrap ub by (simp add: lo_def)
    then show ?thesis using G[OF q sb(1)] add[OF k] by (simp add: spread_def inside_def)
  qed
  have R: "sorted_wrt precedes ps \<and>
    (\<forall>p \<in> set ps. \<exists>k < nat d. lo k \<le> unat (place p) \<and> unat (place p) + extent p \<le> lo k + unat sb)"
  proof (rule collect_spread[OF fold F])
    fix j k :: nat assume "j < k" "k < nat d"
    then have "j * unat u + unat u \<le> k * unat u" using mult_le_mono1[of "Suc j" k "unat u"] by simp
    then show "lo j + unat sb \<le> lo k" using ub by (simp add: lo_def)
  qed
  have "inside address s p" if p: "p \<in> set ps" for p
  proof -
    obtain k where "k < nat d" "lo k \<le> unat (place p)" "unat (place p) + extent p \<le> lo k + unat sb" using R p by blast
    then show ?thesis using le[of k] ub by (simp add: inside_def lo_def)
  qed
  then show ?thesis using R by (simp add: spread_def)
qed

lemma type_size_named:
  "wf_tenv env \<Longrightarrow> type_size env (Suc n) (underlying_type env t) = type_size env (Suc n) t"
  using underlying_unnamed[OF underlying_not_named[of env t]] by simp

lemma instantiate_spread:
  assumes wf: "wf_tenv env"
  shows "neat env f n t \<Longrightarrow> instantiate env f n t par init address is_top name named fld = Inr ps \<Longrightarrow>
    type_size env (Suc n) t = Inr s \<Longrightarrow> unat address + unat s < 2 ^ 64 \<Longrightarrow> spread address s ps"
proof (induction f arbitrary: t par init address is_top name named fld ps s)
  case (Suc f)
  show ?case
  proof (cases t)
    case (NamedType m)
    have "instantiate env f n (underlying_type env t) par init address is_top name (Some t) None = Inr ps"
      "neat env f n (underlying_type env t)"
      using Suc.prems(1,2) NamedType by simp_all
    then show ?thesis
      using Suc.IH[of "underlying_type env t"] Suc.prems(3,4) type_size_named[OF wf, of n t] by metis
  next
    case (Struct c i fs)
    show ?thesis
    proof (cases c)
      case Component
      obtain nt where nt: "named = Some nt" using Suc.prems(2) Struct Component by (cases named) auto
      define G where "G k off = instantiate env f n (ftype (fs ! k)) (Some address) None (address + off) False
                            (name @ ''.'' @ fname (fs ! k)) None (Some (fs ! k))" for k off
      obtain qs where q: "ofold (\<lambda>ps k. obind (offset env n fs k) (\<lambda>off.
          obind (G k off) (\<lambda>qs. Inr (ps @ qs)))) [0..<length fs] [] = Inr qs"
        "ps = Placed_Instance address par nt init is_top name # qs"
        using Suc.prems(2) Struct Component nt by (auto simp: outcome_simps G_def)
      obtain b where n: "fs \<noteq> []" "ftype (hd fs) = Pointer b" "fields_bytes env n fs < 2 ^ 64"
        "\<forall>x \<in> set fs. padded env n x" "\<forall>x \<in> set fs. neat env f n (ftype x)"
        using Suc.prems(1) Struct Component by auto
      have hdr: "qs = []" if "G 0 off = Inr qs" for off qs
        using that n(1,2) by (cases f) (auto simp: G_def hd_conv_nth)
      have G: "spread (address + off) sk qs"
        if "k < length fs" "G k off = Inr qs" "type_size env n (ftype (fs ! k)) = Inr sk"
          "unat (address + off) + unat sk < 2 ^ 64" for k off sk qs
        using that n(5) type_size_mono_Suc[OF that(3)] by (intro Suc.IH[OF _ that(2)[unfolded G_def]]) auto
      have "sorted_wrt precedes qs \<and>
        (\<forall>p \<in> set qs. unat address + 8 \<le> unat (place p) \<and> unat (place p) + extent p \<le> unat address + unat s)"
        by (rule struct_spread[OF q(1) Suc.prems(3)[unfolded Struct] Suc.prems(4) n(1-4)]) (use hdr G in blast)+
      moreover have "8 \<le> unat s"
      proof -
        have "fields_bytes env n (fs) < 2 ^ 64" by (rule n(3))
        have h: "ftype (fs ! 0) = Pointer b" "0 < length fs" using n(1,2) by (simp_all add: hd_conv_nth)
        have "\<exists>m. n = Suc m"
        proof (cases n)
          case 0
          then have "padded env 0 (hd fs)" using n(1,4) by simp
          moreover have "layout_step env 0 0 (hd fs) = Inl Out_of_fuel" by (simp add: layout_step_def)
          ultimately show ?thesis
            using Suc.prems(3) 0 n(1) unfolding Struct by (subst (asm) type_size_struct[of env _ c i fs]) (cases fs; auto)+
        qed simp
        then obtain m where m: "n = Suc m" by blast
        have "offset env n fs 0 = Inr (align_up 0 8)" using h m by (simp add: offset_def)
        then show ?thesis
          using field_inside[OF _ _ _ _ Suc.prems(3) n(4,3), of 0 "align_up 0 8" 8 8 c i] h m Struct by simp
      qed
      ultimately show ?thesis unfolding spread_def inside_def q(2) by (auto simp: precedes_def)
    qed (use Suc.prems(2) Struct in \<open>simp add: spread_def\<close>)
  next
    case (Array b d)
    have d: "0 \<le> d" using Suc.prems(2) Array by (simp split: if_splits)
    define G where "G k u = instantiate env f n b par None (address + of_nat k * u) False
                         (name @ ''['' @ nat_string k @ '']'') None fld" for k u
    have q: "ofold (\<lambda>ps k. obind (unit_size env n b) (\<lambda>u. obind (G k u) (\<lambda>qs. Inr (ps @ qs)))) [0..<nat d] [] = Inr ps"
      using Suc.prems(2) Array d by (simp add: G_def)
    have nb: "neat env f n b" "alignment env n b \<noteq> Inr 0"
      "\<And>u s. type_size env n b = Inr s \<Longrightarrow> unit_size env n b = Inr u \<Longrightarrow> unat s + 8 < 2 ^ 64 \<and> unat u * nat d < 2 ^ 64"
      using Suc.prems(1) Array by auto
    show ?thesis
    proof (rule array_spread[OF q Suc.prems(3)[unfolded Array] Suc.prems(4) d nb(2,3)])
      fix k u sb qs
      assume "G k u = Inr qs" "type_size env n b = Inr sb" "unat (address + of_nat k * u) + unat sb < 2 ^ 64"
      then show "spread (address + of_nat k * u) sb qs"
        using type_size_mono_Suc by (intro Suc.IH[OF nb(1), of _ _ _ _ _ _ _ qs]) (auto simp: G_def)
    qed
  next
    case (FunctionBase c i as rs)
    then show ?thesis
      using Suc.prems(2,3) by (cases c) (auto simp: spread_def inside_def)
  qed (use Suc.prems(2) in \<open>simp_all add: spread_def\<close>)
qed simp

section \<open>Nothing is overwritten\<close>

text \<open>All the parts of the top-level instances from an address on, in the order of creation.\<close>

fun created :: "tenv \<Rightarrow> nat \<Rightarrow> nat \<Rightarrow> 64 word \<Rightarrow> (ty \<times> nat option \<times> string) list \<Rightarrow> placed list outcome" where
  "created env f n address [] = Inr []"
| "created env f n address ((t, init, name) # decls) =
     obind (instantiate env f n t None init address True name None None) (\<lambda>ps.
     obind (type_size env n t) (\<lambda>s.
     obind (created env f n (address + s) decls) (\<lambda>qs. Inr (ps @ qs))))"

lemma enumerate_created:
  "enumerate_instances env f n decls =
     obind (created env f n 0 decls)
       (\<lambda>ps. Inr (foldl add_placed \<lparr>instances = [], push_ports = [], pull_ports = []\<rparr> ps))"
proof -
  have "obind (ofold (\<lambda>(c, address) (t, init, name).
         obind (instantiate env f n t None init address True name None None) (\<lambda>ps.
         obind (type_size env n t) (\<lambda>s. Inr (foldl add_placed c ps, address + s)))) decls (c, address))
       (\<lambda>(c, _). Inr c) = obind (created env f n address decls) (\<lambda>ps. Inr (foldl add_placed c ps))" for c address
  proof (induction decls arbitrary: c address)
    case (Cons d decls)
    obtain t init name where d: "d = (t, init, name)" by (cases d)
    show ?case
    proof (cases "instantiate env f n t None init address True name None None")
      case (Inr qs)
      then show ?thesis
        using Cons.IH by (cases "type_size env n t") (simp_all add: d obind_assoc)
    qed (simp add: d)
  qed simp
  then show ?thesis by (simp add: enumerate_instances_def)
qed

text \<open>The top-level instances lie one after the other below \<open>2 ^ 64\<close>.\<close>

fun fits :: "tenv \<Rightarrow> nat \<Rightarrow> nat \<Rightarrow> nat \<Rightarrow> (ty \<times> nat option \<times> string) list \<Rightarrow> bool" where
  "fits env f n used [] \<longleftrightarrow> True"
| "fits env f n used ((t, init, name) # decls) \<longleftrightarrow>
     neat env f n t \<and>
     (case type_size env n t of
        Inl e \<Rightarrow> True
      | Inr s \<Rightarrow> used + unat s < 2 ^ 64 \<and> fits env f n (used + unat s) decls)"

lemma created_spread:
  assumes "wf_tenv env"
  shows "created env f n address decls = Inr ps \<Longrightarrow> fits env f n (unat address) decls \<Longrightarrow>
    sorted_wrt precedes ps \<and> (\<forall>p \<in> set ps. unat address \<le> unat (place p))"
proof (induction decls arbitrary: address ps)
  case (Cons d decls)
  obtain t init name where d: "d = (t, init, name)" by (cases d)
  obtain qs s rs where c: "instantiate env f n t None init address True name None None = Inr qs"
    "type_size env n t = Inr s" "created env f n (address + s) decls = Inr rs" "ps = qs @ rs"
    using Cons.prems(1) by (auto simp: d outcome_simps)
  have f: "neat env f n t" "unat address + unat s < 2 ^ 64" "fits env f n (unat address + unat s) decls"
    using Cons.prems(2) c(2) by (simp_all add: d)
  have a: "unat (address + s) = unat address + unat s" by (rule unat_add_small[OF f(2)])
  have q: "spread address s qs"
    by (rule instantiate_spread[OF assms f(1) c(1) type_size_mono_Suc[OF c(2)] f(2)])
  have r: "sorted_wrt precedes rs \<and> (\<forall>p \<in> set rs. unat (address + s) \<le> unat (place p))"
    by (rule Cons.IH[OF c(3)]) (use a f(3) in simp)
  have "precedes p p'" if "p \<in> set qs" "p' \<in> set rs" for p p'
    using q r a that by (fastforce simp: spread_def inside_def precedes_def)
  then have "sorted_wrt precedes ps" using q r c(4) by (simp add: spread_def sorted_wrt_append)
  moreover have "\<forall>p \<in> set ps. unat address \<le> unat (place p)"
    using q r a c(4) by (fastforce simp: spread_def inside_def)
  ultimately show ?case by blast
qed simp

definition holds :: "composer \<Rightarrow> placed \<Rightarrow> bool" where
  "holds c p \<longleftrightarrow> map_of (instances c) (place p) = Some p \<or> map_of (push_ports c) (place p) = Some p \<or>
     map_of (pull_ports c) (place p) = Some p"

lemma map_of_put: "map_of (map_put k v m) = (map_of m)(k \<mapsto> v)"
  by (induction k v m rule: map_put.induct) auto

lemma holds_add: "holds (add_placed c p) p" "place q \<noteq> place p \<Longrightarrow> holds (add_placed c p) q = holds c q"
  by (cases p; simp add: holds_def map_of_put)+

lemma holds_fold:
  "distinct (map place ps) \<Longrightarrow> p \<in> set ps \<Longrightarrow> holds (foldl add_placed c ps) p"
proof (induction ps rule: rev_induct)
  case (snoc q ps)
  show ?case
  proof (cases "p = q")
    case True
    then show ?thesis by (simp add: holds_add(1))
  next
    case False
    then have "p \<in> set ps" using snoc.prems(2) by simp
    moreover have "place p \<noteq> place q"
    proof
      assume "place p = place q"
      then have "place q \<in> place ` set ps" using calculation by (metis imageI)
      then show False using snoc.prems(1) by simp
    qed
    ultimately show ?thesis using snoc by (simp add: holds_add(2))
  qed
qed simp

text \<open>C34: In the composition of components whose first field is the run-time header, whose fields have types of non-zero alignment
  and whose sizes do not wrap around (\<open>fits\<close>), the instances and ports are created one after the other and do not overlap, so that none
  replaces another in the maps of the composer.  Without the condition on alignments two parts can share an address, as in
  \<open>empty_struct_field_overlaps\<close> of Arch.\<close>

theorem enumerate_keeps_all:
  assumes "wf_tenv env" "created env f n 0 decls = Inr ps" "fits env f n 0 decls"
  shows "sorted_wrt precedes ps \<and> distinct (map place ps) \<and>
    (\<exists>c. enumerate_instances env f n decls = Inr c \<and> (\<forall>p \<in> set ps. holds c p))"
proof -
  have s: "sorted_wrt precedes ps" using created_spread[OF assms(1,2)] assms(3) by simp
  show ?thesis using assms(2) s sorted_distinct[OF s] holds_fold[OF sorted_distinct[OF s]] by (simp add: enumerate_created)
qed

text \<open>A component with a push port, instantiated twice.\<close>

definition sample_parts :: "field list" where
  "sample_parts =
     [Field 0 True ''0runtime'' (Pointer (Basic Int32)) {},
      Field 0 False ''p'' (FunctionBase PushPort 2 (Parameter_List [] False) (Parameter_List [] False)) {}]"

definition sample_env :: tenv where
  "sample_env = (\<lambda>_. Struct Component 1 sample_parts)"

lemma word_sized:
  "type_size env (Suc n) (Pointer b) = Inr 8" "alignment env (Suc n) (Pointer b) = Inr 8"
  "type_size env (Suc n) (FunctionBase PushPort i as rs) = Inr 8"
  "alignment env (Suc n) (FunctionBase PushPort i as rs) = Inr 8"
  by simp_all

lemma sample_parts_layout:
  "offset sample_env (Suc n) sample_parts 0 = Inr 0" "offset sample_env (Suc n) sample_parts 1 = Inr 8"
  "type_size sample_env (Suc (Suc n)) (NamedType 0) = Inr 16"
  "\<forall>f \<in> set sample_parts. padded sample_env (Suc n) f" "fields_bytes sample_env (Suc n) sample_parts < 2 ^ 64"
proof -
  have step: "layout_step sample_env (Suc n) z (sample_parts ! k) = Inr (align_up z 8 + 8)" if "k < 2" for k z
    using that by (auto simp: layout_step_def sample_parts_def less_Suc_eq numeral_2_eq_2 word_sized
        simp del: type_size.simps alignment.simps)
  have p: "sample_parts = [sample_parts ! 0, sample_parts ! 1]" by (simp add: sample_parts_def)
  have al: "alignment sample_env (Suc n) (ftype (sample_parts ! 0)) = Inr 8"
    "alignment sample_env (Suc n) (ftype (sample_parts ! 1)) = Inr 8"
    by (simp_all add: sample_parts_def word_sized del: alignment.simps)
  have len: "length sample_parts = 2" by (simp add: sample_parts_def)
  have t1: "take 1 sample_parts = [sample_parts ! 0]" by (simp add: sample_parts_def)
  show "offset sample_env (Suc n) sample_parts 0 = Inr 0"
    by (simp add: offset_def len al align_up_def del: alignment.simps)
  show "offset sample_env (Suc n) sample_parts 1 = Inr 8"
    by (simp add: offset_def len al t1 step align_up_def del: alignment.simps One_nat_def)
  have "type_size sample_env (Suc (Suc n)) (NamedType 0) = ofold (layout_step sample_env (Suc n)) sample_parts 0"
    by (rule type_size_struct) (simp add: sample_env_def)
  also have "\<dots> = Inr 16" by (subst p) (simp add: step align_up_def)
  finally show "type_size sample_env (Suc (Suc n)) (NamedType 0) = Inr 16" .
  show "\<forall>f \<in> set sample_parts. padded sample_env (Suc n) f"
    by (simp add: sample_parts_def padded_def word_sized del: alignment.simps)
  show "fields_bytes sample_env (Suc n) sample_parts < 2 ^ 64"
    by (simp add: sample_parts_def fields_bytes_def field_bytes_def word_sized del: type_size.simps)
qed

lemma instantiate_cases:
  "instantiate env (Suc f) n (NamedType m) par init address is_top name named fld =
     instantiate env f n (env m) par init address is_top name (Some (NamedType m)) None"
  "instantiate env (Suc f) n (Pointer b) par init address is_top name named fld = Inr []"
  "instantiate env (Suc f) n (FunctionBase PushPort i as rs) par init address is_top name named fld =
     Inr [Placed_PushPort address par fld name]"
  by simp_all

lemma sample_instantiate:
  "\<exists>ps. instantiate sample_env 3 (Suc (Suc 0)) (NamedType 0) None None a True nm None None = Inr ps \<and> length ps = 2"
proof -
  have e: "sample_env 0 = Struct Component 1 sample_parts" by (simp add: sample_env_def)
  have l: "[0..<length sample_parts] = [0, 1]" by (simp add: sample_parts_def upt_rec)
  have f: "ftype (sample_parts ! 0) = Pointer (Basic Int32)"
    "ftype (sample_parts ! 1) = FunctionBase PushPort 2 (Parameter_List [] False) (Parameter_List [] False)"
    by (simp_all add: sample_parts_def)
  have "instantiate sample_env (Suc (Suc g)) (Suc (Suc 0)) (Struct Component 1 sample_parts) None None a True nm (Some t) None =
      Inr [Placed_Instance a None t None True nm,
           Placed_PushPort (a + 8) (Some a) (Some (sample_parts ! 1)) (nm @ ''.'' @ fname (sample_parts ! 1))]" for t g
    by (subst instantiate.simps(2))
      (simp only: ty.case struct_class.case option.case l ofold.simps sample_parts_layout f obind_simps
        instantiate_cases append_Nil append_Cons)
  then have "instantiate sample_env (Suc (Suc (Suc 0))) (Suc (Suc 0)) (NamedType 0) None None a True nm None None =
      Inr [Placed_Instance a None (NamedType 0) None True nm,
           Placed_PushPort (a + 8) (Some a) (Some (sample_parts ! 1)) (nm @ ''.'' @ fname (sample_parts ! 1))]"
    by (simp only: instantiate_cases e)
  then show ?thesis by (simp add: numeral_3_eq_3)
qed

theorem enumerate_keeps_all_witness:
  "\<exists>ps c. created sample_env 3 (Suc (Suc 0)) 0 [(NamedType 0, None, ''a''), (NamedType 0, None, ''b'')] = Inr ps \<and>
     length ps = 4 \<and>
     enumerate_instances sample_env 3 (Suc (Suc 0)) [(NamedType 0, None, ''a''), (NamedType 0, None, ''b'')] = Inr c \<and>
     (\<forall>p \<in> set ps. holds c p)"
proof -
  have wf: "wf_tenv sample_env"
    by (simp add: wf_tenv_def sample_env_def is_unnamed_def kind_order_eval)
  obtain ps where p: "instantiate sample_env 3 (Suc (Suc 0)) (NamedType 0) None None 0 True ''a'' None None = Inr ps" "length ps = 2"
    using sample_instantiate by blast
  obtain qs where q: "instantiate sample_env 3 (Suc (Suc 0)) (NamedType 0) None None 16 True ''b'' None None = Inr qs" "length qs = 2"
    using sample_instantiate by blast
  have c: "created sample_env 3 (Suc (Suc 0)) 0 [(NamedType 0, None, ''a''), (NamedType 0, None, ''b'')] = Inr (ps @ qs)"
    using p(1) q(1) by (simp add: sample_parts_layout(3) del: instantiate.simps type_size.simps)
  have "neat sample_env 3 (Suc (Suc 0)) (NamedType 0)"
  proof -
    have n: "neat sample_env f n (ftype x)" if "x \<in> set sample_parts" for x f n
      using that by (cases f) (auto simp: sample_parts_def)
    have "sample_parts \<noteq> []" "ftype (hd sample_parts) = Pointer (Basic Int32)" by (simp_all add: sample_parts_def)
    then have "neat sample_env (Suc f) (Suc (Suc 0)) (Struct Component 1 sample_parts)" for f
      using sample_parts_layout(4,5) n by (subst neat.simps(2)) simp
    then have "neat sample_env (Suc (Suc (Suc 0))) (Suc (Suc 0)) (NamedType 0)"
      by (subst neat.simps(2)) (simp add: sample_env_def del: neat.simps)
    then show ?thesis by (simp add: numeral_3_eq_3)
  qed
  then have f: "fits sample_env 3 (Suc (Suc 0)) 0 [(NamedType 0, None, ''a''), (NamedType 0, None, ''b'')]"
    by (simp add: sample_parts_layout(3) del: neat.simps type_size.simps)
  show ?thesis using c p(2) q(2) enumerate_keeps_all[OF wf c f] by auto
qed

end
