(* ===== verification/Chains.thy ===== *)
theory Chains
  imports Prelude
begin

text \<open>
  The intrusive lists of tasks of the partitioned scheduler (partitioned_scheduler.hpp): a task has one
  field next, a list is a head pointer and a pointer to the cell that ends it, which is the head itself when
  the list is empty.  A task is a number; the lists are the queues of the instance locks and the ready
  and idle lists of the executors.  The contract of such lists is the locale \<open>task_lists\<close>.
\<close>

section \<open>Operations\<close>

text \<open>
  The queue of the lock of an instance, the ready and the idle list of an executor, and the list
  that process_list (its variables h and t) holds on the thread of an executor.
\<close>

datatype place = Lock_Queue nat | Ready_List nat | Idle_List nat | Granted_List nat

text \<open>The cell a tail pointer points to.\<close>

datatype cell = Head_Cell | Next_Cell nat

record chain =
  head :: "nat option"
  tail :: cell

text \<open>The fields next and read_lock of the tasks, count_ of the instance locks and all lists.\<close>

record pool =
  next_task :: "nat \<Rightarrow> nat option"
  read_flag :: "nat \<Rightarrow> bool"
  counts :: "nat \<Rightarrow> int"
  chains :: "place \<Rightarrow> chain"

definition empty_chain :: chain where
  "empty_chain = \<lparr>head = None, tail = Head_Cell\<rparr>"

text \<open>The assignment \<open>*tail_ = task; tail_ = &task->next\<close>.\<close>

definition link_task :: "place \<Rightarrow> nat \<Rightarrow> pool \<Rightarrow> pool" where
  "link_task p t s =
     (let c = chains s p in
      case tail c of
        Head_Cell \<Rightarrow> s\<lparr>chains := (chains s)(p := \<lparr>head = Some t, tail = Next_Cell t\<rparr>)\<rparr>
      | Next_Cell u \<Rightarrow>
          s\<lparr>next_task := (next_task s)(u := Some t), chains := (chains s)(p := c\<lparr>tail := Next_Cell t\<rparr>)\<rparr>)"

text \<open>With the assertion of to_idle_list, to_ready_list, read_lock and write_lock.\<close>

definition append_task :: "place \<Rightarrow> nat \<Rightarrow> pool \<Rightarrow> pool outcome" where
  "append_task p t s = (if next_task s t = None then Inr (link_task p t s) else Inl Assertion_failed)"

text \<open>
  Taking the first task (get_ready_task_and_message, run_i): the head moves on, an
  empty list gets its tail back, and the task leaves with next cleared.
\<close>

definition take_task :: "place \<Rightarrow> pool \<Rightarrow> nat option \<times> pool" where
  "take_task p s =
     (let c = chains s p in
      case head c of
        None \<Rightarrow> (None, s)
      | Some t \<Rightarrow>
          let h = next_task s t in
          (Some t, s\<lparr>next_task := (next_task s)(t := None),
                     chains := (chains s)(p := (if h = None then empty_chain else c\<lparr>head := h\<rparr>))\<rparr>))"

section \<open>The list a chain stands for\<close>

fun path :: "(nat \<Rightarrow> nat option) \<Rightarrow> nat option \<Rightarrow> nat list \<Rightarrow> bool" where
  "path nx p [] \<longleftrightarrow> p = None"
| "path nx p (x # xs) \<longleftrightarrow> p = Some x \<and> path nx (nx x) xs"

definition stands_for :: "(nat \<Rightarrow> nat option) \<Rightarrow> chain \<Rightarrow> nat list \<Rightarrow> bool" where
  "stands_for nx c xs \<longleftrightarrow>
     path nx (head c) xs \<and> tail c = (if xs = [] then Head_Cell else Next_Cell (last xs))"

text \<open>Every task is on at most one list, and a task on none has no successor.\<close>

definition apart :: "('p \<Rightarrow> nat list) \<Rightarrow> bool" where
  "apart q \<longleftrightarrow> (\<forall>p. distinct (q p)) \<and> (\<forall>p r. p \<noteq> r \<longrightarrow> set (q p) \<inter> set (q r) = {})"

definition on_lists :: "('p \<Rightarrow> nat list) \<Rightarrow> nat \<Rightarrow> bool" where
  "on_lists q t \<longleftrightarrow> (\<exists>p. t \<in> set (q p))"

definition represents :: "pool \<Rightarrow> (place \<Rightarrow> nat list) \<Rightarrow> bool" where
  "represents s q \<longleftrightarrow>
     apart q \<and> (\<forall>p. stands_for (next_task s) (chains s p) (q p)) \<and>
     (\<forall>t. \<not> on_lists q t \<longrightarrow> next_task s t = None)"

lemma path_upd [simp]: "u \<notin> set xs \<Longrightarrow> path (nx(u := v)) p xs = path nx p xs"
  by (induction xs arbitrary: p) auto

lemma path_append: "path nx p (xs @ [x]) \<Longrightarrow> nx x = None"
  by (induction xs arbitrary: p) auto

lemma path_last: "path nx p xs \<Longrightarrow> xs \<noteq> [] \<Longrightarrow> nx (last xs) = None"
  by (cases xs rule: rev_cases) (auto dest: path_append)

lemma path_snoc:
  "path nx p xs \<Longrightarrow> distinct xs \<Longrightarrow> t \<notin> set xs \<Longrightarrow> nx t = None \<Longrightarrow> xs \<noteq> [] \<Longrightarrow>
     path (nx(last xs := Some t)) p (xs @ [t])"
  by (induction xs arbitrary: p) auto

lemma path_unique: "path nx p xs \<Longrightarrow> path nx p ys \<Longrightarrow> xs = ys"
proof (induction xs arbitrary: p ys)
  case Nil
  then show ?case by (cases ys) auto
next
  case (Cons x xs)
  then show ?case by (cases ys) auto
qed

lemma stands_for_upd: "u \<notin> set xs \<Longrightarrow> stands_for (nx(u := v)) c xs = stands_for nx c xs"
  by (simp add: stands_for_def)

lemma apart_add: "apart q \<Longrightarrow> \<not> on_lists q t \<Longrightarrow> apart (q(p := q p @ [t]))"
  by (auto simp: apart_def on_lists_def)

lemma apart_tl:
  assumes "apart q" and q: "q p = t # ts"
  shows "apart (q(p := ts))" and "\<not> on_lists (q(p := ts)) t"
proof -
  have d: "distinct (q r)" and dis: "r \<noteq> r' \<Longrightarrow> set (q r) \<inter> set (q r') = {}" for r r'
    using assms(1) unfolding apart_def by blast+
  have sub: "set ((q(p := ts)) r) \<subseteq> set (q r)" for r using q by auto
  show "apart (q(p := ts))"
    unfolding apart_def
  proof (intro conjI allI impI)
    show "distinct ((q(p := ts)) r)" for r using d[of r] d[of p] q by simp
    show "set ((q(p := ts)) r) \<inter> set ((q(p := ts)) r') = {}" if "r \<noteq> r'" for r r'
      using sub[of r] sub[of r'] dis[OF that] by blast
  qed
  show "\<not> on_lists (q(p := ts)) t"
    unfolding on_lists_def
  proof
    assume "\<exists>r. t \<in> set ((q(p := ts)) r)"
    then obtain r where r: "t \<in> set ((q(p := ts)) r)" by blast
    show False
    proof (cases "r = p")
      case True
      then show False using r d[of p] q by simp
    next
      case False
      then show False using r dis[OF False] q by auto
    qed
  qed
qed

lemma apart_other: "apart q \<Longrightarrow> t \<in> set (q p) \<Longrightarrow> r \<noteq> p \<Longrightarrow> t \<notin> set (q r)"
  by (auto simp: apart_def)

section \<open>The operations on lists\<close>

lemma represents_append:
  assumes rep: "represents s q" and t: "\<not> on_lists q t"
  shows "\<exists>s'. append_task p t s = Inr s' \<and> represents s' (q(p := q p @ [t]))"
proof -
  have ap: "apart q" and st: "stands_for (next_task s) (chains s r) (q r)" and nt: "next_task s t = None" for r
    using rep t by (simp_all add: represents_def)
  have out: "t \<notin> set (q r)" for r using t by (auto simp: on_lists_def)
  let ?s = "link_task p t s"
  let ?q = "q(p := q p @ [t])"
  have "represents ?s ?q"
  proof (cases "q p = []")
    case True
    then have s: "?s = s\<lparr>chains := (chains s)(p := \<lparr>head = Some t, tail = Next_Cell t\<rparr>)\<rparr>"
      using st[of p] by (simp add: link_task_def stands_for_def Let_def)
    have "stands_for (next_task ?s) (chains ?s r) (?q r)" for r
      using st[of r] True nt by (cases "q r") (auto simp: s stands_for_def)
    moreover have "next_task ?s u = None" if "\<not> on_lists ?q u" for u
      using that rep by (fastforce simp: s represents_def on_lists_def split: if_splits)
    ultimately show ?thesis using apart_add[OF ap t] by (simp add: represents_def)
  next
    case False
    let ?u = "last (q p)"
    have s: "?s = s\<lparr>next_task := (next_task s)(?u := Some t),
        chains := (chains s)(p := (chains s p)\<lparr>tail := Next_Cell t\<rparr>)\<rparr>"
      using st[of p] False by (simp add: link_task_def stands_for_def Let_def)
    have u: "?u \<in> set (q p)" using False by simp
    have "stands_for (next_task ?s) (chains ?s r) (?q r)" for r
    proof (cases "r = p")
      case True
      have "distinct (q p)" using ap by (simp add: apart_def)
      then show ?thesis using st[of p] True path_snoc[of "next_task s" "head (chains s p)" "q p" t] out[of p] nt False by (simp add: s stands_for_def)
    next
      case r: False
      then show ?thesis using st[of r] apart_other[OF ap u r] by (simp add: s stands_for_upd)
    qed
    moreover have "next_task ?s v = None" if "\<not> on_lists ?q v" for v
    proof -
      have "\<not> on_lists q v" using that by (fastforce simp: on_lists_def split: if_splits)
      moreover from this have "v \<noteq> ?u" using u by (auto simp: on_lists_def)
      ultimately show ?thesis using rep by (simp add: s represents_def)
    qed
    ultimately show ?thesis using apart_add[OF ap t] by (simp add: represents_def)
  qed
  then show ?thesis using nt by (simp add: append_task_def)
qed

lemma represents_take:
  assumes rep: "represents s q"
  shows "take_task p s = (None, s) \<and> q p = [] \<or>
    (\<exists>t ts s'. take_task p s = (Some t, s') \<and> q p = t # ts \<and> represents s' (q(p := ts)))"
proof (cases "q p")
  case Nil
  then show ?thesis using rep by (auto simp: represents_def stands_for_def take_task_def dest: spec[of _ p])
next
  case (Cons t ts)
  have ap: "apart q" and st: "stands_for (next_task s) (chains s r) (q r)" for r
    using rep by (simp_all add: represents_def)
  note tl = apart_tl[OF ap Cons]
  have h: "head (chains s p) = Some t" "path (next_task s) (next_task s t) ts"
    "tail (chains s p) = Next_Cell (last (t # ts))"
    using st[of p] Cons by (auto simp: stands_for_def)
  have none: "next_task s t = None \<longleftrightarrow> ts = []" using h(2) by (cases ts) auto
  let ?s = "snd (take_task p s)"
  have s: "take_task p s = (Some t, ?s)" "next_task ?s = (next_task s)(t := None)"
    "chains ?s = (chains s)(p := (if ts = [] then empty_chain else (chains s p)\<lparr>head := next_task s t\<rparr>))"
    using h(1) none by (simp_all add: take_task_def Let_def)
  have out: "t \<notin> set ((q(p := ts)) r)" for r using tl(2) unfolding on_lists_def by blast
  have "stands_for (next_task ?s) (chains ?s r) ((q(p := ts)) r)" for r
  proof (cases "r = p")
    case True
    then show ?thesis using h(2,3) out[of p] by (simp add: s(2,3) stands_for_def empty_chain_def)
  next
    case False
    then show ?thesis using st[of r] out[of r] by (simp add: s(2,3) stands_for_upd)
  qed
  moreover have "next_task ?s u = None" if "\<not> on_lists (q(p := ts)) u" for u
  proof (cases "u = t")
    case False
    then have "\<not> on_lists q u" using that Cons unfolding on_lists_def by (metis fun_upd_apply set_ConsD)
    then show ?thesis using rep False by (simp add: s(2) represents_def)
  qed (simp add: s(2))
  ultimately have "represents ?s (q(p := ts))" using tl(1) by (simp add: represents_def)
  then show ?thesis using s(1) Cons by blast
qed

text \<open>The statements \<open>head_ = *t; *t = NULL\<close>, where \<open>t\<close> points to the field next of a task: the front
  of the list leaves it.\<close>

definition cut_front :: "place \<Rightarrow> place \<Rightarrow> nat \<Rightarrow> pool \<Rightarrow> pool" where
  "cut_front p r x s =
     (let c = chains s p; h = next_task s x in
      s\<lparr>next_task := (next_task s)(x := None),
        chains := (chains s)(r := \<lparr>head = head c, tail = Next_Cell x\<rparr>,
                             p := (if h = None then empty_chain else c\<lparr>head := h\<rparr>))\<rparr>)"

lemma path_cut:
  "path nx p (xs @ x # ys) \<Longrightarrow> distinct (xs @ x # ys) \<Longrightarrow>
     path (nx(x := None)) p (xs @ [x]) \<and> path (nx(x := None)) (nx x) ys"
  by (induction xs arbitrary: p) auto

lemma represents_cut:
  assumes rep: "represents s q" and q: "q p = xs @ x # ys" "q r = []" "r \<noteq> p"
  shows "represents (cut_front p r x s) (q(p := ys, r := xs @ [x]))"
proof -
  let ?s = "cut_front p r x s"
  let ?q = "q(p := ys, r := xs @ [x])"
  have ap: "apart q" and st: "stands_for (next_task s) (chains s o') (q o')" for o'
    using rep by (simp_all add: represents_def)
  have d: "distinct (xs @ x # ys)" and dis: "a \<noteq> b \<Longrightarrow> set (q a) \<inter> set (q b) = {}" "distinct (q a)" for a b
    using ap q(1) unfolding apart_def by (metis, blast+)
  have sp: "path (next_task s) (head (chains s p)) (xs @ x # ys)" "tail (chains s p) = Next_Cell (last (x # ys))"
    using st[of p] q(1) by (simp_all add: stands_for_def)
  note cut = path_cut[OF sp(1) d]
  have none: "next_task s x = None \<longleftrightarrow> ys = []" using cut by (cases ys) auto
  have s: "next_task ?s = (next_task s)(x := None)"
    "chains ?s = (chains s)(r := \<lparr>head = head (chains s p), tail = Next_Cell x\<rparr>,
       p := (if ys = [] then empty_chain else (chains s p)\<lparr>head := next_task s x\<rparr>))"
    using none by (simp_all add: cut_front_def Let_def)
  have stf: "stands_for (next_task ?s) (chains ?s o') (?q o')" for o'
  proof -
    consider "o' = p" | "o' = r" | "o' \<noteq> p" "o' \<noteq> r" by blast
    then show ?thesis
    proof cases
      case 1
      then show ?thesis using cut sp(2) q(3) by (auto simp: s stands_for_def empty_chain_def)
    next
      case 2
      then show ?thesis using cut q(3) by (simp add: s stands_for_def)
    next
      case 3
      have "x \<notin> set (q o')" using dis(1)[OF 3(1)] q(1) by auto
      then show ?thesis using st[of o'] 3 by (simp add: s stands_for_upd)
    qed
  qed
  have sub: "o' \<noteq> p \<Longrightarrow> o' \<noteq> r \<Longrightarrow> ?q o' = q o'" for o' by simp
  have "apart ?q"
    unfolding apart_def
  proof (intro conjI allI impI)
    show "distinct (?q o')" for o' using dis(2)[of o'] d by auto
    fix a b :: place assume ab: "a \<noteq> b"
    have other: "set (?q c) \<inter> set (q p) = {}" if "c \<noteq> p" "c \<noteq> r" for c using dis(1)[OF that(1)] that by simp
    have parts: "set (?q p) \<subseteq> set (q p)" "set (?q r) \<subseteq> set (q p)" "set (?q p) \<inter> set (?q r) = {}"
      using q d by auto
    show "set (?q a) \<inter> set (?q b) = {}"
    proof (cases "a \<in> {p, r}")
      case True
      then show ?thesis using parts other[of b] ab by (cases "b \<in> {p, r}") blast+
    next
      case False
      then have "a \<noteq> p" "a \<noteq> r" by auto
      then show ?thesis using parts other[of a] dis(1)[OF ab] sub[of a] sub[of b]
        by (cases "b \<in> {p, r}") (blast, auto)
    qed
  qed
  moreover have "next_task ?s v = None" if v: "\<not> on_lists ?q v" for v
  proof (cases "v = x")
    case False
    have "v \<notin> set (q o')" for o'
    proof -
      have "v \<notin> set (?q a)" for a using v unfolding on_lists_def by blast
      from this[of p] this[of r] this[of o'] show ?thesis using q by (cases "o' = p"; cases "o' = r") auto
    qed
    then show ?thesis using rep False by (simp add: s represents_def on_lists_def)
  qed (simp add: s)
  ultimately show ?thesis using stf by (simp add: represents_def)
qed

section \<open>The contract\<close>

text \<open>
  Lists that share the cells of their members: a task that is on no list can be appended to
  any of them, and the first task of a list can be taken off, with nothing else changed.
\<close>

locale task_lists =
  fixes rep :: "'s \<Rightarrow> ('p \<Rightarrow> nat list) \<Rightarrow> bool"
    and append :: "'p \<Rightarrow> nat \<Rightarrow> 's \<Rightarrow> 's outcome"
    and take_first :: "'p \<Rightarrow> 's \<Rightarrow> nat option \<times> 's"
  assumes rep_apart: "rep s q \<Longrightarrow> apart q"
    and rep_append: "rep s q \<Longrightarrow> \<not> on_lists q t \<Longrightarrow> \<exists>s'. append p t s = Inr s' \<and> rep s' (q(p := q p @ [t]))"
    and rep_take: "rep s q \<Longrightarrow>
      take_first p s = (None, s) \<and> q p = [] \<or>
      (\<exists>t ts s'. take_first p s = (Some t, s') \<and> q p = t # ts \<and> rep s' (q(p := ts)))"
begin

lemma take_Cons:
  "rep s q \<Longrightarrow> q p = t # ts \<Longrightarrow> \<exists>s'. take_first p s = (Some t, s') \<and> rep s' (q(p := ts))"
  using rep_take[of s q p] by auto

text \<open>Moving the first task of one list to the end of a list.\<close>

lemma take_append:
  assumes rep: "rep s q" and q: "q p = t # ts"
  obtains s1 s2 where "take_first p s = (Some t, s1)" "append r t s1 = Inr s2"
    "rep s2 (q(p := ts, r := (q(p := ts)) r @ [t]))"
proof -
  obtain s1 where s1: "take_first p s = (Some t, s1)" "rep s1 (q(p := ts))" using take_Cons[OF rep q] by blast
  have "\<not> on_lists (q(p := ts)) t" by (rule apart_tl(2)[OF rep_apart[OF rep] q])
  then obtain s2 where "append r t s1 = Inr s2" "rep s2 ((q(p := ts))(r := (q(p := ts)) r @ [t]))"
    using rep_append[OF s1(2)] by blast
  then show ?thesis using that s1(1) by blast
qed

text \<open>First in, first out: what is appended to an empty list is what is taken off next.\<close>

lemma append_take:
  assumes rep: "rep s q" and t: "\<not> on_lists q t" and p: "q p = []"
  shows "\<exists>s1 s2. append p t s = Inr s1 \<and> take_first p s1 = (Some t, s2) \<and> rep s2 q"
proof -
  obtain s1 where s1: "append p t s = Inr s1" "rep s1 (q(p := [t]))" using rep_append[OF rep t, of p] p by auto
  obtain s2 where "take_first p s1 = (Some t, s2)" "rep s2 ((q(p := [t]))(p := []))"
    using take_Cons[OF s1(2), of p t "[]"] by auto
  moreover have "(q(p := [t]))(p := []) = q" using p by auto
  ultimately show ?thesis using s1(1) by auto
qed

end

interpretation pool: task_lists represents append_task take_task
  by unfold_locales (simp add: represents_def, rule represents_append, assumption+, rule represents_take, assumption)

end
