(* ===== verification/Locks.thy ===== *)
theory Locks
  imports Chains
begin

text \<open>
  The read-write locks of component instances (class info_t of partitioned_scheduler.hpp), which
  never block a thread: a task that cannot have a lock is queued, and whoever unlocks hands the
  lock to the first writer or to all readers at the front of the queue.  Each operation runs
  under the spin lock \<open>lock_\<close> and is one step here.  The locks refine queues of (task, reader) pairs with a
  count; their contract is the locale \<open>handoff_lock\<close>.
\<close>

section \<open>The code\<close>

definition set_count :: "nat \<Rightarrow> int \<Rightarrow> pool \<Rightarrow> pool" where
  "set_count i n s = s\<lparr>counts := (counts s)(i := n)\<rparr>"

definition set_flag :: "nat \<Rightarrow> bool \<Rightarrow> pool \<Rightarrow> pool" where
  "set_flag t b s = s\<lparr>read_flag := (read_flag s)(t := b)\<rparr>"

text \<open>read_lock and write_lock answer whether the task has been queued.\<close>

definition read_lock :: "nat \<Rightarrow> nat \<Rightarrow> pool \<Rightarrow> (bool \<times> pool) outcome" where
  "read_lock i t s =
     (if next_task s t \<noteq> None then Inl Assertion_failed
      else if counts s i = 0 then Inr (False, set_count i (counts s i + 1) s)
      else if 0 < counts s i \<and> head (chains s (Lock_Queue i)) = None then
        Inr (False, set_count i (counts s i + 1) s)
      else Inr (True, link_task (Lock_Queue i) t (set_flag t True s)))"

definition write_lock :: "nat \<Rightarrow> nat \<Rightarrow> pool \<Rightarrow> (bool \<times> pool) outcome" where
  "write_lock i t s =
     (if next_task s t \<noteq> None then Inl Assertion_failed
      else if counts s i = 0 then Inr (False, set_count i (counts s i - 1) s)
      else Inr (True, link_task (Lock_Queue i) t (set_flag t False s)))"

text \<open>
  The loop of process_list over the readers at the front: the last of them and their
  number.
\<close>

fun reader_run :: "nat \<Rightarrow> pool \<Rightarrow> cell \<Rightarrow> nat \<Rightarrow> int \<Rightarrow> (nat \<times> int) outcome" where
  "reader_run 0 s c x n = Inl Out_of_fuel"
| "reader_run (Suc f) s c x n =
     (if Next_Cell x = c then Inr (x, n)
      else case next_task s x of
        None \<Rightarrow> Inl Undefined_behaviour
      | Some y \<Rightarrow> if read_flag s y then reader_run f s c y (n + 1) else Inr (x, n))"

text \<open>process_list up to the release of the spin lock, on the thread of executor \<open>e\<close>.\<close>

definition process_list :: "nat \<Rightarrow> nat \<Rightarrow> nat \<Rightarrow> pool \<Rightarrow> pool outcome" where
  "process_list f e i s =
     (case head (chains s (Lock_Queue i)) of
        None \<Rightarrow> Inr s
      | Some h \<Rightarrow>
          if counts s i = 0 then
            if read_flag s h then
              obind (reader_run f s (tail (chains s (Lock_Queue i))) h 1) (\<lambda>(x, n).
                Inr (set_count i n (cut_front (Lock_Queue i) (Granted_List e) x s)))
            else Inr (set_count i (- 1) (cut_front (Lock_Queue i) (Granted_List e) h s))
          else Inr s)"

definition read_unlock :: "nat \<Rightarrow> nat \<Rightarrow> nat \<Rightarrow> pool \<Rightarrow> pool outcome" where
  "read_unlock f e i s =
     (if 0 < counts s i then process_list f e i (set_count i (counts s i - 1) s)
      else Inl Assertion_failed)"

definition write_unlock :: "nat \<Rightarrow> nat \<Rightarrow> nat \<Rightarrow> pool \<Rightarrow> pool outcome" where
  "write_unlock f e i s =
     (if counts s i = - 1 then process_list f e i (set_count i (counts s i + 1) s)
      else Inl Assertion_failed)"

text \<open>One iteration of the loop that signals the tasks: false when there was none.\<close>

definition signal :: "(nat \<Rightarrow> nat) \<Rightarrow> nat \<Rightarrow> pool \<Rightarrow> (bool \<times> pool) outcome" where
  "signal executor e s =
     (case take_task (Granted_List e) s of
        (None, s') \<Rightarrow> Inr (False, s')
      | (Some t, s') \<Rightarrow> obind (append_task (Ready_List (executor t)) t s') (\<lambda>s''. Inr (True, s'')))"

section \<open>A lock as a count and a queue\<close>

record lock =
  lock_count :: int
  waiting :: "(nat \<times> bool) list"

definition acquire :: "bool \<Rightarrow> nat \<Rightarrow> lock \<Rightarrow> bool \<times> lock" where
  "acquire reader t l =
     (if lock_count l = 0 \<or> reader \<and> 0 < lock_count l \<and> waiting l = [] then
        (False, l\<lparr>lock_count := lock_count l + (if reader then 1 else - 1)\<rparr>)
      else (True, l\<lparr>waiting := waiting l @ [(t, reader)]\<rparr>))"

definition grant :: "lock \<Rightarrow> nat list \<times> lock" where
  "grant l =
     (if lock_count l = 0 then
        (case waiting l of
           [] \<Rightarrow> ([], l)
         | (t, reader) # ws \<Rightarrow>
             if reader then
               (t # map fst (takeWhile snd ws),
                \<lparr>lock_count = 1 + int (length (takeWhile snd ws)), waiting = dropWhile snd ws\<rparr>)
             else ([t], \<lparr>lock_count = - 1, waiting = ws\<rparr>))
      else ([], l))"

definition release :: "bool \<Rightarrow> lock \<Rightarrow> nat list \<times> lock" where
  "release reader l = grant (l\<lparr>lock_count := lock_count l + (if reader then - 1 else 1)\<rparr>)"

definition view :: "pool \<Rightarrow> (place \<Rightarrow> nat list) \<Rightarrow> nat \<Rightarrow> lock" where
  "view s q i = \<lparr>lock_count = counts s i, waiting = map (\<lambda>t. (t, read_flag s t)) (q (Lock_Queue i))\<rparr>"

text \<open>Counts and flags are not seen by the lists.\<close>

lemma pool_fields [simp]:
  "next_task (set_count i n s) = next_task s" "chains (set_count i n s) = chains s"
  "read_flag (set_count i n s) = read_flag s" "counts (set_count i n s) = (counts s)(i := n)"
  "next_task (set_flag t b s) = next_task s" "chains (set_flag t b s) = chains s"
  "read_flag (set_flag t b s) = (read_flag s)(t := b)" "counts (set_flag t b s) = counts s"
  "read_flag (link_task p t s) = read_flag s" "counts (link_task p t s) = counts s"
  "read_flag (cut_front p r x s) = read_flag s" "counts (cut_front p r x s) = counts s"
  by (simp_all add: set_count_def set_flag_def link_task_def cut_front_def Let_def split: cell.splits)

lemma represents_set [simp]:
  "represents (set_count i n s) q \<longleftrightarrow> represents s q"
  "represents (set_flag t b s) q \<longleftrightarrow> represents s q"
  by (simp_all add: represents_def)

lemma represents_head: "represents s q \<Longrightarrow> head (chains s p) = None \<longleftrightarrow> q p = []"
proof -
  assume "represents s q"
  then have "path (next_task s) (head (chains s p)) (q p)" by (simp add: represents_def stands_for_def)
  then show ?thesis by (cases "q p") auto
qed

lemma represents_link:
  "represents s q \<Longrightarrow> \<not> on_lists q t \<Longrightarrow> represents (link_task p t s) (q(p := q p @ [t]))"
  using represents_append[of s q t p] by (auto simp: append_task_def split: if_splits)

lemma view_enqueue:
  assumes rep: "represents s q" and t: "\<not> on_lists q t"
  shows "view (link_task (Lock_Queue i) t (set_flag t b s)) (q(Lock_Queue i := q (Lock_Queue i) @ [t])) =
    (view s q)(i := (view s q i)\<lparr>waiting := waiting (view s q i) @ [(t, b)]\<rparr>)"
  using t by (auto simp: view_def fun_eq_iff on_lists_def)

lemma view_count: "view (set_count i n s) q = (view s q)(i := (view s q i)\<lparr>lock_count := n\<rparr>)"
  by (auto simp: view_def fun_eq_iff)

text \<open>Locking.\<close>

definition locks :: "bool \<Rightarrow> nat \<Rightarrow> nat \<Rightarrow> pool \<Rightarrow> (bool \<times> pool) outcome" where
  "locks reader = (if reader then read_lock else write_lock)"

lemma lock_refines:
  assumes rep: "represents s q" and t: "\<not> on_lists q t" and l: "acquire reader t (view s q i) = (b, l)"
  shows "\<exists>s'. locks reader i t s = Inr (b, s') \<and>
    represents s' (if b then q(Lock_Queue i := q (Lock_Queue i) @ [t]) else q) \<and>
    view s' (if b then q(Lock_Queue i := q (Lock_Queue i) @ [t]) else q) = (view s q)(i := l)"
proof -
  let ?q = "q(Lock_Queue i := q (Lock_Queue i) @ [t])"
  have nx: "next_task s t = None" using rep t by (simp add: represents_def)
  note link = represents_link[of "set_flag t reader s" q t "Lock_Queue i"]
  show ?thesis
  proof (cases "counts s i = 0 \<or> reader \<and> 0 < counts s i \<and> q (Lock_Queue i) = []")
    case True
    let ?s = "set_count i (counts s i + (if reader then 1 else - 1)) s"
    have "b = False" "l = (view s q i)\<lparr>lock_count := counts s i + (if reader then 1 else - 1)\<rparr>"
      using l True by (auto simp: acquire_def view_def)
    moreover have "locks reader i t s = Inr (False, ?s)"
      using True nx represents_head[OF rep, of "Lock_Queue i"] by (auto simp: locks_def read_lock_def write_lock_def)
    ultimately show ?thesis using rep by (simp add: view_count)
  next
    case False
    have "b = True" "l = (view s q i)\<lparr>waiting := waiting (view s q i) @ [(t, reader)]\<rparr>"
      using l False by (auto simp: acquire_def view_def split: if_splits)
    moreover have "locks reader i t s = Inr (True, link_task (Lock_Queue i) t (set_flag t reader s))"
      using False nx represents_head[OF rep, of "Lock_Queue i"] by (auto simp: locks_def read_lock_def write_lock_def)
    ultimately show ?thesis using rep t link view_enqueue[OF rep t] by simp
  qed
qed

text \<open>Unlocking.\<close>

lemma reader_run_front:
  "path (next_task s) p (x # ys) \<Longrightarrow> distinct (x # ys) \<Longrightarrow> length ys < f \<Longrightarrow>
   reader_run f s (Next_Cell (last (x # ys))) x n =
     Inr (last (x # takeWhile (read_flag s) ys), n + int (length (takeWhile (read_flag s) ys)))"
proof (induction ys arbitrary: x p f n)
  case Nil
  then show ?case by (cases f) auto
next
  case (Cons y ys)
  obtain f' where f: "f = Suc f'" "length ys < f'" using Cons.prems(3) by (cases f) auto
  have "x \<noteq> last (y # ys)" using Cons.prems(2) by (metis distinct.simps(2) last_in_set list.distinct(1))
  moreover have "next_task s x = Some y" "path (next_task s) (Some y) (y # ys)" using Cons.prems(1) by auto
  ultimately show ?case using Cons.IH[of "Some y" y f' "n + 1"] Cons.prems(2) f by simp
qed

lemma view_cut:
  "view (set_count i n (cut_front (Lock_Queue i) (Granted_List e) x s))
      (q(Lock_Queue i := ys, Granted_List e := gs)) =
    (view s q)(i := \<lparr>lock_count = n, waiting = map (\<lambda>t. (t, read_flag s t)) ys\<rparr>)"
  by (auto simp: view_def fun_eq_iff)

lemma map_flags: "map fst (takeWhile snd (map (\<lambda>t. (t, f t)) ts)) = takeWhile f ts"
  "length (takeWhile snd (map (\<lambda>t. (t, f t)) ts)) = length (takeWhile f ts)"
  "dropWhile snd (map (\<lambda>t. (t, f t)) ts) = map (\<lambda>t. (t, f t)) (dropWhile f ts)"
  by (induction ts) auto

lemma process_list_refines:
  assumes rep: "represents s q" and e: "q (Granted_List e) = []" and f: "length (q (Lock_Queue i)) \<le> f"
    and g: "grant (view s q i) = (gs, l)"
  shows "\<exists>s' ts. q (Lock_Queue i) = gs @ ts \<and> process_list f e i s = Inr s' \<and>
    represents s' (q(Lock_Queue i := ts, Granted_List e := gs)) \<and>
    view s' (q(Lock_Queue i := ts, Granted_List e := gs)) = (view s q)(i := l)"
proof -
  have st: "path (next_task s) (head (chains s (Lock_Queue i))) (q (Lock_Queue i))"
    "q (Lock_Queue i) \<noteq> [] \<Longrightarrow> tail (chains s (Lock_Queue i)) = Next_Cell (last (q (Lock_Queue i)))"
    "distinct (q (Lock_Queue i))"
    using rep by (auto simp: represents_def stands_for_def apart_def)
  show ?thesis
  proof (cases "counts s i = 0 \<and> q (Lock_Queue i) \<noteq> []")
    case False
    then have "gs = []" "l = view s q i" "process_list f e i s = Inr s"
      using g st(1) by (auto simp: grant_def view_def process_list_def split: option.splits list.splits)
    moreover have "q(Lock_Queue i := q (Lock_Queue i), Granted_List e := []) = q" using e by auto
    ultimately show ?thesis using rep by simp
  next
    case True
    then obtain t ts where ts: "q (Lock_Queue i) = t # ts" by (cases "q (Lock_Queue i)") auto
    have hd: "head (chains s (Lock_Queue i)) = Some t" using st(1) ts by simp
    show ?thesis
    proof (cases "read_flag s t")
      case reader: True
      let ?g = "takeWhile (read_flag s) ts" and ?r = "dropWhile (read_flag s) ts"
      define x where "x = last (t # ?g)"
      have l: "gs = t # ?g" "l = \<lparr>lock_count = 1 + int (length ?g), waiting = map (\<lambda>t. (t, read_flag s t)) ?r\<rparr>"
        using g True reader ts by (simp_all add: grant_def view_def map_flags)
      have gs: "butlast gs @ [x] = gs" unfolding l(1) x_def by (rule append_butlast_last_id) simp
      have split: "q (Lock_Queue i) = gs @ ?r" using ts l(1) by simp
      then have split': "q (Lock_Queue i) = butlast gs @ x # ?r" using gs by (metis append.assoc append_Cons append_Nil)
      have run: "reader_run f s (tail (chains s (Lock_Queue i))) t 1 = Inr (x, 1 + int (length ?g))"
        unfolding x_def using reader_run_front[of s _ t ts f 1] st ts f by simp
      let ?s = "cut_front (Lock_Queue i) (Granted_List e) x s"
      have "represents ?s (q(Lock_Queue i := ?r, Granted_List e := butlast gs @ [x]))"
        by (rule represents_cut[OF rep split' e]) simp
      then have cut: "represents ?s (q(Lock_Queue i := ?r, Granted_List e := gs))" by (simp only: gs)
      have "process_list f e i s = Inr (set_count i (1 + int (length ?g)) ?s)"
        using True reader hd run by (simp add: process_list_def)
      then show ?thesis using split cut unfolding l(2)
        by (intro exI[of _ "set_count i (1 + int (length ?g)) ?s"] exI[of _ ?r]) (simp only: view_cut represents_set simp_thms)
    next
      case writer: False
      have cut: "represents (cut_front (Lock_Queue i) (Granted_List e) t s) (q(Lock_Queue i := ts, Granted_List e := [] @ [t]))"
        by (rule represents_cut[OF rep]) (use ts e in simp_all)
      have "gs = [t]" "l = \<lparr>lock_count = - 1, waiting = map (\<lambda>t. (t, read_flag s t)) ts\<rparr>"
        using g True writer ts by (simp_all add: grant_def view_def)
      then show ?thesis
        using cut True writer hd ts by (intro exI[of _ "set_count i (- 1) (cut_front (Lock_Queue i) (Granted_List e) t s)"] exI[of _ ts])
          (simp add: process_list_def view_cut)
    qed
  qed
qed

definition unlocks :: "bool \<Rightarrow> nat \<Rightarrow> nat \<Rightarrow> nat \<Rightarrow> pool \<Rightarrow> pool outcome" where
  "unlocks reader = (if reader then read_unlock else write_unlock)"

lemma unlock_refines:
  assumes rep: "represents s q" and e: "q (Granted_List e) = []" and f: "length (q (Lock_Queue i)) \<le> f"
    and held: "if reader then 0 < counts s i else counts s i = - 1"
    and g: "release reader (view s q i) = (gs, l)"
  shows "\<exists>s' ts. q (Lock_Queue i) = gs @ ts \<and> unlocks reader f e i s = Inr s' \<and>
    represents s' (q(Lock_Queue i := ts, Granted_List e := gs)) \<and>
    view s' (q(Lock_Queue i := ts, Granted_List e := gs)) = (view s q)(i := l)"
proof -
  let ?n = "counts s i + (if reader then - 1 else 1)"
  let ?s = "set_count i ?n s"
  have v: "view ?s q i = (view s q i)\<lparr>lock_count := ?n\<rparr>" by (simp add: view_count)
  have g': "grant (view ?s q i) = (gs, l)" using g by (simp add: release_def v view_def)
  have u: "unlocks reader f e i s = process_list f e i ?s"
    using held by (simp add: unlocks_def read_unlock_def write_unlock_def)
  have "represents ?s q" using rep by simp
  from process_list_refines[OF this e f g'] show ?thesis unfolding u by (simp add: view_count)
qed

section \<open>The contract of a lock\<close>

text \<open>Tasks with the mode in which they hold the lock: readers, or one writer.\<close>

definition lock_inv :: "lock \<Rightarrow> (nat \<times> bool) set \<Rightarrow> bool" where
  "lock_inv l H \<longleftrightarrow>
     finite H \<and> inj_on fst H \<and> distinct (map fst (waiting l)) \<and> fst ` H \<inter> fst ` set (waiting l) = {} \<and>
     (waiting l \<noteq> [] \<longrightarrow> H \<noteq> {}) \<and>
     ((\<exists>t. H = {(t, False)}) \<and> lock_count l = - 1 \<or> (\<forall>h \<in> H. snd h) \<and> lock_count l = int (card H))"

definition free_lock :: lock where
  "free_lock = \<lparr>lock_count = 0, waiting = []\<rparr>"

lemma lock_inv_free: "lock_inv free_lock {}"
  by (simp add: lock_inv_def free_lock_def)

lemma lock_inv_count_zero: "lock_inv l H \<Longrightarrow> lock_count l = 0 \<Longrightarrow> H = {} \<and> waiting l = []"
  by (auto simp: lock_inv_def)

lemma acquire_inv:
  assumes inv: "lock_inv l H" and t: "t \<notin> fst ` H" "t \<notin> fst ` set (waiting l)" and a: "acquire r t l = (b, l')"
  shows "if b then lock_inv l' H \<and> waiting l' = waiting l @ [(t, r)]
    else lock_inv l' (insert (t, r) H) \<and> waiting l' = waiting l"
proof (cases "lock_count l = 0 \<or> r \<and> 0 < lock_count l \<and> waiting l = []")
  case True
  then have w: "waiting l = []" using lock_inv_count_zero[OF inv] by auto
  have l': "b = False" "l' = l\<lparr>lock_count := lock_count l + (if r then 1 else - 1)\<rparr>" using a True by (auto simp: acquire_def)
  have new: "(t, r) \<notin> H" using t(1) by force
  show ?thesis
  proof (cases r)
    case True
    have "(\<forall>h \<in> H. snd h) \<and> lock_count l = int (card H)"
      using inv \<open>lock_count l = 0 \<or> _\<close> unfolding lock_inv_def by auto
    then show ?thesis using inv t new True w l' by (simp add: lock_inv_def)
  next
    case False
    then have "H = {}" "lock_count l = 0" using lock_inv_count_zero[OF inv] \<open>lock_count l = 0 \<or> _\<close> by auto
    then show ?thesis using False w l' by (simp add: lock_inv_def)
  qed
next
  case False
  then have l': "b = True" "l' = l\<lparr>waiting := waiting l @ [(t, r)]\<rparr>" using a by (auto simp: acquire_def split: if_splits)
  have "H \<noteq> {}"
  proof
    assume "H = {}"
    then show False using inv False by (auto simp: lock_inv_def)
  qed
  then show ?thesis using inv t l' by (auto simp: lock_inv_def)
qed

lemma take_drop_readers:
  "distinct (map fst ws) \<Longrightarrow> inj_on fst (set (takeWhile snd ws)) \<and>
     fst ` set (takeWhile snd ws) \<inter> fst ` set (dropWhile snd ws) = {} \<and>
     distinct (map fst (dropWhile snd ws)) \<and> card (set (takeWhile snd ws)) = length (takeWhile snd ws)"
proof -
  assume d: "distinct (map fst ws)"
  have ws: "map fst (takeWhile snd ws) @ map fst (dropWhile snd ws) = map fst ws"
    by (metis map_append takeWhile_dropWhile_id)
  have "distinct (map fst (takeWhile snd ws) @ map fst (dropWhile snd ws))" unfolding ws by (rule d)
  then show ?thesis by (auto simp: distinct_map distinct_card)
qed

lemma grant_inv:
  assumes g: "grant l = (gs, l')" and c: "0 \<le> lock_count l" "lock_count l = int (card H)"
    and inv: "finite H" "inj_on fst H" "distinct (map fst (waiting l))" "fst ` H \<inter> fst ` set (waiting l) = {}"
      "\<forall>h \<in> H. snd h"
  shows "\<exists>ws. waiting l = ws @ waiting l' \<and> gs = map fst ws \<and> lock_inv l' (H \<union> set ws)"
proof (cases "lock_count l = 0 \<and> waiting l \<noteq> []")
  case False
  then have r: "gs = []" "l' = l" using g by (auto simp: grant_def split: if_splits list.splits)
  have "waiting l \<noteq> [] \<Longrightarrow> H \<noteq> {}" using False c by auto
  then have "lock_inv l H" using inv c by (simp add: lock_inv_def)
  then show ?thesis using r by simp
next
  case True
  then have H: "H = {}" using c inv(1) by simp
  obtain t r ws where w: "waiting l = (t, r) # ws" using True by (cases "waiting l") auto
  show ?thesis
  proof (cases r)
    case reader: True
    let ?g = "takeWhile snd (waiting l)"
    have l': "gs = map fst ?g" "l' = \<lparr>lock_count = int (length ?g), waiting = dropWhile snd (waiting l)\<rparr>"
      using g True w reader by (simp_all add: grant_def)
    have "?g \<noteq> []" "\<forall>x \<in> set ?g. snd x" using w reader by (auto dest: set_takeWhileD)
    then have "lock_inv l' (set ?g)"
      using take_drop_readers[OF inv(3)] l'(2) unfolding lock_inv_def by simp
    then show ?thesis using H l' by (intro exI[of _ ?g]) simp
  next
    case False
    then have l': "gs = [t]" "l' = \<lparr>lock_count = - 1, waiting = ws\<rparr>" using g True w by (simp_all add: grant_def)
    have "lock_inv l' {(t, False)}" using inv(3) w l'(2) by (auto simp: lock_inv_def)
    then show ?thesis using H l' w False by (intro exI[of _ "[(t, r)]"]) simp
  qed
qed

lemma release_inv:
  assumes inv: "lock_inv l H" and t: "(t, r) \<in> H" and rel: "release r l = (gs, l')"
  shows "\<exists>ws. waiting l = ws @ waiting l' \<and> gs = map fst ws \<and> lock_inv l' (H - {(t, r)} \<union> set ws)"
proof -
  let ?l = "l\<lparr>lock_count := lock_count l + (if r then - 1 else 1)\<rparr>"
  have "lock_count ?l = int (card (H - {(t, r)})) \<and> (\<forall>h \<in> H - {(t, r)}. snd h)"
  proof (cases r)
    case True
    then have "lock_count l = int (card H)" "\<forall>h \<in> H. snd h" using inv t by (auto simp: lock_inv_def)
    moreover have "0 < card H" using inv t by (auto simp: lock_inv_def card_gt_0_iff)
    ultimately show ?thesis using True t inv by (simp add: lock_inv_def of_nat_diff)
  next
    case False
    then have "H = {(t, False)}" "lock_count l = - 1" using inv t by (auto simp: lock_inv_def)
    then show ?thesis using False by simp
  qed
  then have "\<exists>ws. waiting ?l = ws @ waiting l' \<and> gs = map fst ws \<and> lock_inv l' ((H - {(t, r)}) \<union> set ws)"
    using inv rel by (intro grant_inv) (auto simp: release_def lock_inv_def inj_on_diff)
  then show ?thesis by simp
qed

text \<open>
  What the tasks rely on: a lock is had at once or after waiting, a writer is alone,
  the queue is served in order, and somebody holds a lock that is waited for.
\<close>

locale handoff_lock =
  fixes inv :: "'l \<Rightarrow> (nat \<times> bool) set \<Rightarrow> bool" and queue :: "'l \<Rightarrow> (nat \<times> bool) list" and free :: 'l
    and acq :: "bool \<Rightarrow> nat \<Rightarrow> 'l \<Rightarrow> bool \<times> 'l" and rel :: "bool \<Rightarrow> 'l \<Rightarrow> nat list \<times> 'l"
  assumes free_inv: "inv free {}" and free_queue: "queue free = []"
    and acq_inv: "inv l H \<Longrightarrow> t \<notin> fst ` H \<Longrightarrow> t \<notin> fst ` set (queue l) \<Longrightarrow> acq r t l = (b, l') \<Longrightarrow>
      if b then inv l' H \<and> queue l' = queue l @ [(t, r)] else inv l' (insert (t, r) H) \<and> queue l' = queue l"
    and rel_inv: "inv l H \<Longrightarrow> (t, r) \<in> H \<Longrightarrow> rel r l = (gs, l') \<Longrightarrow>
      \<exists>ws. queue l = ws @ queue l' \<and> gs = map fst ws \<and> inv l' (H - {(t, r)} \<union> set ws)"
    and alone: "inv l H \<Longrightarrow> (t, False) \<in> H \<Longrightarrow> H = {(t, False)}"
    and held: "inv l H \<Longrightarrow> queue l \<noteq> [] \<Longrightarrow> H \<noteq> {}"
begin

text \<open>Two holders are compatible.\<close>

lemma holders_compatible: "inv l H \<Longrightarrow> (t, r) \<in> H \<Longrightarrow> (u, r') \<in> H \<Longrightarrow> t \<noteq> u \<Longrightarrow> r \<and> r'"
  using alone[of l H t] alone[of l H u] by (cases r; cases r') auto

text \<open>Releasing a free or unwaited lock wakes nobody; the last holder of a lock with a queue wakes its first task.\<close>

lemma last_release_wakes:
  assumes "inv l {(t, r)}" "queue l = (u, w) # ws" "rel r l = (gs, l')"
  shows "\<exists>us. gs = u # us"
proof -
  obtain vs where v: "queue l = vs @ queue l'" "gs = map fst vs" "inv l' (set vs)"
    using rel_inv[OF assms(1) _ assms(3)] by auto
  have "vs \<noteq> []"
  proof
    assume "vs = []"
    then have "queue l' = (u, w) # ws" "inv l' {}" using v(1,3) assms(2) by simp_all
    then show False using held[of l' "{}"] by simp
  qed
  then show ?thesis using v(1,2) assms(2) by (cases vs) auto
qed

end

interpretation rw: handoff_lock lock_inv waiting free_lock acquire release
proof unfold_locales
  show "lock_inv free_lock {}" by (rule lock_inv_free)
  show "waiting free_lock = []" by (simp add: free_lock_def)
  show "t \<notin> fst ` H \<Longrightarrow> t \<notin> fst ` set (waiting l) \<Longrightarrow> acquire r t l = (b, l') \<Longrightarrow>
      if b then lock_inv l' H \<and> waiting l' = waiting l @ [(t, r)]
      else lock_inv l' (insert (t, r) H) \<and> waiting l' = waiting l" if "lock_inv l H" for l H t r b l'
    using acquire_inv[OF that] by blast
  show "\<exists>ws. waiting l = ws @ waiting l' \<and> gs = map fst ws \<and> lock_inv l' (H - {(t, r)} \<union> set ws)"
    if "lock_inv l H" "(t, r) \<in> H" "release r l = (gs, l')" for l H t r gs l' by (rule release_inv[OF that])
  show "lock_inv l H \<Longrightarrow> (t, False) \<in> H \<Longrightarrow> H = {(t, False)}" for l H t by (auto simp: lock_inv_def)
  show "lock_inv l H \<Longrightarrow> waiting l \<noteq> [] \<Longrightarrow> H \<noteq> {}" for l H by (simp add: lock_inv_def)
qed

end
