(* ===== verification/Tasks.thy ===== *)
theory Tasks
  imports Locks Instances
begin

text \<open>
  The tasks of the partitioned scheduler and the threads that run them (class task_t and executor_t,
  partitioned_scheduler.hpp and .cpp).  A task takes the locks of its instance set in
  order, executes, gives the locks back in the same order and goes to the idle list of its executor.
  One turn of an executor is one critical section, so any interleaving of the
  threads is a sequence of turns.
\<close>

section \<open>State\<close>

text \<open>Where a task is in \<open>task_t::resume\<close>; the number is \<open>pos_\<close> as an index of the instance set.\<close>

datatype phase = Idle | Acquiring nat | Queued nat | Executing | Releasing nat

datatype execution_kind = Hit | Skip

datatype execution_result = None_Result | Skip_Result | Hit_Result | First_Skip | First_Hit

text \<open>What does not change while the scheduler runs: the tasks, their executors and instance sets.\<close>

record tasks =
  task_count :: nat
  executor :: "nat \<Rightarrow> nat"
  needed :: "nat \<Rightarrow> instance_set"

record sys =
  pool :: pool
  phase :: "nat \<Rightarrow> phase"
  current :: "nat \<Rightarrow> nat option"
  last_kind :: "nat \<Rightarrow> execution_kind"
  task_generation :: "nat \<Rightarrow> nat"

section \<open>Turns\<close>

text \<open>The end of \<open>task_t::resume\<close>: the bookkeeping of hits and skips of one generation.\<close>

definition execution_step ::
  "nat \<Rightarrow> bool \<Rightarrow> nat \<Rightarrow> execution_kind \<Rightarrow> nat \<times> execution_kind \<times> execution_result"
where
  "execution_step generation hit task_gen previous =
     (let last = (if generation \<noteq> task_gen then Hit else previous) in
      (generation,
       (if hit then Hit else Skip),
       (case last of
          Hit \<Rightarrow> if hit then Hit_Result else First_Skip
        | Skip \<Rightarrow> if hit then First_Hit else Skip_Result)))"

text \<open>
  What a turn may choose: the list an idle executor takes its next task from, and, when a task
  executes, whether it was enabled and the generation of the executor.
\<close>

datatype choice = From_Ready | From_Idle | Outcome bool nat

definition is_reader :: "receiver_access \<Rightarrow> bool" where
  "is_reader a \<longleftrightarrow> a \<noteq> AccessWrite"

definition begin_task :: "nat \<Rightarrow> choice \<Rightarrow> sys \<Rightarrow> sys outcome" where
  "begin_task e ch s =
     (case ch of
        From_Ready \<Rightarrow>
          (case take_task (Ready_List e) (pool s) of
             (None, _) \<Rightarrow> Inr s
           | (Some t, p) \<Rightarrow>
               (case phase s t of
                  Queued k \<Rightarrow>
                    Inr (s\<lparr>pool := p, current := (current s)(e := Some t), phase := (phase s)(t := Acquiring k)\<rparr>)
                | _ \<Rightarrow> Inl Not_reached))
      | From_Idle \<Rightarrow>
          (case take_task (Idle_List e) (pool s) of
             (None, _) \<Rightarrow> Inr s
           | (Some t, p) \<Rightarrow>
               Inr (s\<lparr>pool := p, current := (current s)(e := Some t), phase := (phase s)(t := Acquiring 0)\<rparr>))
      | Outcome hit g \<Rightarrow> Inr s)"

definition acquire_next :: "tasks \<Rightarrow> nat \<Rightarrow> nat \<Rightarrow> nat \<Rightarrow> sys \<Rightarrow> sys outcome" where
  "acquire_next m e t k s =
     (if k < length (needed m t) then
        (case needed m t ! k of (i, a) \<Rightarrow>
           obind (locks (is_reader a) i t (pool s)) (\<lambda>(queued, p).
             Inr (if queued then
                    s\<lparr>pool := p, phase := (phase s)(t := Queued (Suc k)), current := (current s)(e := None)\<rparr>
                  else s\<lparr>pool := p, phase := (phase s)(t := Acquiring (Suc k))\<rparr>)))
      else Inr (s\<lparr>phase := (phase s)(t := Executing)\<rparr>))"

definition execute_task :: "nat \<Rightarrow> choice \<Rightarrow> sys \<Rightarrow> sys outcome" where
  "execute_task t ch s =
     (case ch of
        Outcome hit g \<Rightarrow>
          (case execution_step g hit (task_generation s t) (last_kind s t) of (g', l', _) \<Rightarrow>
             Inr (s\<lparr>phase := (phase s)(t := Releasing 0), task_generation := (task_generation s)(t := g'),
                    last_kind := (last_kind s)(t := l')\<rparr>))
      | _ \<Rightarrow> Inr s)"

definition release_next :: "tasks \<Rightarrow> nat \<Rightarrow> nat \<Rightarrow> nat \<Rightarrow> sys \<Rightarrow> sys outcome" where
  "release_next m e t k s =
     obind (signal (executor m) e (pool s)) (\<lambda>(signalled, p).
       if signalled then Inr (s\<lparr>pool := p\<rparr>)
       else if k < length (needed m t) then
         (case needed m t ! k of (i, a) \<Rightarrow>
            obind (unlocks (is_reader a) (task_count m) e i (pool s)) (\<lambda>p.
              Inr (s\<lparr>pool := p, phase := (phase s)(t := Releasing (Suc k))\<rparr>)))
       else
         obind (append_task (Idle_List (executor m t)) t (pool s)) (\<lambda>p.
           Inr (s\<lparr>pool := p, phase := (phase s)(t := Idle), current := (current s)(e := None)\<rparr>)))"

definition turn :: "tasks \<Rightarrow> nat \<Rightarrow> choice \<Rightarrow> sys \<Rightarrow> sys outcome" where
  "turn m e ch s =
     (case current s e of
        None \<Rightarrow> begin_task e ch s
      | Some t \<Rightarrow>
          (case phase s t of
             Acquiring k \<Rightarrow> acquire_next m e t k s
           | Executing \<Rightarrow> execute_task t ch s
           | Releasing k \<Rightarrow> release_next m e t k s
           | _ \<Rightarrow> Inl Not_reached))"

text \<open>initialize_task for every task, in order: all tasks idle, all locks free.\<close>

definition initial_pool :: pool where
  "initial_pool = \<lparr>next_task = (\<lambda>_. None), read_flag = (\<lambda>_. False), counts = (\<lambda>_. 0), chains = (\<lambda>_. empty_chain)\<rparr>"

definition initial :: "tasks \<Rightarrow> sys outcome" where
  "initial m =
     obind (ofold (\<lambda>p t. append_task (Idle_List (executor m t)) t p) [0..<task_count m] initial_pool) (\<lambda>p.
       Inr \<lparr>pool = p, phase = (\<lambda>_. Idle), current = (\<lambda>_. None), last_kind = (\<lambda>_. Hit), task_generation = (\<lambda>_. 0)\<rparr>)"

inductive reachable :: "tasks \<Rightarrow> sys \<Rightarrow> bool" for m where
  start: "initial m = Inr s \<Longrightarrow> reachable m s"
| turn: "reachable m s \<Longrightarrow> turn m e ch s = Inr s' \<Longrightarrow> reachable m s'"

section \<open>Who holds what\<close>

definition in_queue :: "(place \<Rightarrow> nat list) \<Rightarrow> nat \<Rightarrow> bool" where
  "in_queue q t \<longleftrightarrow> (\<exists>i. t \<in> set (q (Lock_Queue i)))"

text \<open>The indices of the entries of its set that a task has locked.\<close>

definition locked :: "tasks \<Rightarrow> (nat \<Rightarrow> phase) \<Rightarrow> (place \<Rightarrow> nat list) \<Rightarrow> nat \<Rightarrow> nat set" where
  "locked m ph q t =
     (case ph t of
        Idle \<Rightarrow> {}
      | Acquiring k \<Rightarrow> {..<k}
      | Queued k \<Rightarrow> if in_queue q t then {..<k - 1} else {..<k}
      | Executing \<Rightarrow> {..<length (needed m t)}
      | Releasing k \<Rightarrow> {k..<length (needed m t)})"

definition holders :: "tasks \<Rightarrow> (nat \<Rightarrow> nat set) \<Rightarrow> nat \<Rightarrow> (nat \<times> bool) set" where
  "holders m K i =
     {(t, r). t < task_count m \<and>
        (\<exists>j \<in> K t. j < length (needed m t) \<and> fst (needed m t ! j) = i \<and> r = is_reader (snd (needed m t ! j)))}"

definition active :: "phase \<Rightarrow> bool" where
  "active p \<longleftrightarrow> (case p of Acquiring k \<Rightarrow> True | Executing \<Rightarrow> True | Releasing k \<Rightarrow> True | _ \<Rightarrow> False)"

definition tasks_wf :: "tasks \<Rightarrow> bool" where
  "tasks_wf m \<longleftrightarrow> (\<forall>t < task_count m. iset_wf (needed m t))"

text \<open>
  The invariant, on the phases, the running tasks, the lists and the locks: every task is where its
  phase says, and the holders of every lock are the tasks that have got past it.
\<close>

definition position_ok :: "tasks \<Rightarrow> nat \<Rightarrow> phase \<Rightarrow> bool" where
  "position_ok m t p \<longleftrightarrow>
     (case p of
        Acquiring k \<Rightarrow> k \<le> length (needed m t)
      | Queued k \<Rightarrow> 0 < k \<and> k \<le> length (needed m t)
      | Releasing k \<Rightarrow> k \<le> length (needed m t)
      | _ \<Rightarrow> True)"

definition places_ok ::
  "tasks \<Rightarrow> (nat \<Rightarrow> phase) \<Rightarrow> (nat \<Rightarrow> nat option) \<Rightarrow> (place \<Rightarrow> nat list) \<Rightarrow> bool"
where
  "places_ok m ph cur q \<longleftrightarrow>
     (\<forall>t. on_lists q t \<longrightarrow> t < task_count m) \<and>
     (\<forall>e t. t \<in> set (q (Idle_List e)) \<longleftrightarrow> t < task_count m \<and> executor m t = e \<and> ph t = Idle) \<and>
     (\<forall>e t. cur e = Some t \<longleftrightarrow> t < task_count m \<and> executor m t = e \<and> active (ph t)) \<and>
     (\<forall>t < task_count m. (\<exists>k. ph t = Queued k) \<longleftrightarrow>
        (\<exists>e. t \<in> set (q (Ready_List e))) \<or> (\<exists>e. t \<in> set (q (Granted_List e))) \<or> in_queue q t) \<and>
     (\<forall>e t. t \<in> set (q (Ready_List e)) \<longrightarrow> executor m t = e) \<and>
     (\<forall>e. q (Granted_List e) \<noteq> [] \<longrightarrow> (\<exists>t k. cur e = Some t \<and> ph t = Releasing k))"

definition queues_ok :: "tasks \<Rightarrow> (nat \<Rightarrow> phase) \<Rightarrow> (place \<Rightarrow> nat list) \<Rightarrow> (nat \<Rightarrow> lock) \<Rightarrow> bool" where
  "queues_ok m ph q L \<longleftrightarrow>
     (\<forall>i. map fst (waiting (L i)) = q (Lock_Queue i)) \<and>
     (\<forall>i t r. (t, r) \<in> set (waiting (L i)) \<longrightarrow>
        (\<exists>k. ph t = Queued (Suc k) \<and> k < length (needed m t) \<and> fst (needed m t ! k) = i \<and>
             r = is_reader (snd (needed m t ! k))))"

definition sound ::
  "tasks \<Rightarrow> (nat \<Rightarrow> phase) \<Rightarrow> (nat \<Rightarrow> nat option) \<Rightarrow> (place \<Rightarrow> nat list) \<Rightarrow> (nat \<Rightarrow> lock) \<Rightarrow> bool"
where
  "sound m ph cur q L \<longleftrightarrow>
     apart q \<and> (\<forall>t < task_count m. position_ok m t (ph t)) \<and> places_ok m ph cur q \<and> queues_ok m ph q L \<and>
     (\<forall>i. lock_inv (L i) (holders m (locked m ph q) i))"

section \<open>Turns keep the invariant\<close>

lemma soundD:
  assumes "sound m ph cur q L"
  shows "apart q" "t < task_count m \<Longrightarrow> position_ok m t (ph t)" "on_lists q t \<Longrightarrow> t < task_count m"
    "t \<in> set (q (Idle_List e)) \<longleftrightarrow> t < task_count m \<and> executor m t = e \<and> ph t = Idle"
    "cur e = Some t \<longleftrightarrow> t < task_count m \<and> executor m t = e \<and> active (ph t)"
    "t < task_count m \<Longrightarrow> (\<exists>k. ph t = Queued k) \<longleftrightarrow>
       (\<exists>e. t \<in> set (q (Ready_List e))) \<or> (\<exists>e. t \<in> set (q (Granted_List e))) \<or> in_queue q t"
    "t \<in> set (q (Ready_List e)) \<Longrightarrow> executor m t = e"
    "q (Granted_List e) \<noteq> [] \<Longrightarrow> \<exists>t k. cur e = Some t \<and> ph t = Releasing k"
    "map fst (waiting (L i)) = q (Lock_Queue i)"
    "(t, r) \<in> set (waiting (L i)) \<Longrightarrow>
      \<exists>k. ph t = Queued (Suc k) \<and> k < length (needed m t) \<and> fst (needed m t ! k) = i \<and>
        r = is_reader (snd (needed m t ! k))"
    "lock_inv (L i) (holders m (locked m ph q) i)"
  using assms unfolding sound_def places_ok_def queues_ok_def by blast+

lemma on_list: "t \<in> set (q p) \<Longrightarrow> on_lists q t"
  unfolding on_lists_def by blast

lemma one_place: "apart q \<Longrightarrow> t \<in> set (q p) \<Longrightarrow> t \<in> set (q r) \<Longrightarrow> p = r"
  using apart_other[of q t p r] by blast

text \<open>A task that runs is on no list.\<close>

lemma active_off:
  assumes s: "sound m ph cur q L" and a: "active (ph t)"
  shows "\<not> on_lists q t"
proof
  assume on: "on_lists q t"
  then obtain p where p: "t \<in> set (q p)" by (auto simp: on_lists_def)
  note t = soundD(3)[OF s on]
  have "\<not> (\<exists>k. ph t = Queued k)" "ph t \<noteq> Idle" using a by (auto simp: active_def)
  then show False using soundD(4)[OF s, of t] soundD(6)[OF s t] p by (cases p) (auto simp: in_queue_def)
qed

lemma apart_move: "apart q \<Longrightarrow> q p = t # ts \<Longrightarrow> apart (q(p := ts, r := (q(p := ts)) r @ [t]))"
  by (intro apart_add apart_tl)

text \<open>One task changes its phase; the lock queues of the others stay as they are.\<close>

lemma locked_upd:
  assumes "\<And>u. u \<noteq> t \<Longrightarrow> in_queue q' u = in_queue q u"
  shows "locked m (ph(t := p)) q' = (locked m ph q)(t := locked m (\<lambda>_. p) q' t)"
proof (rule ext)
  show "locked m (ph(t := p)) q' u = ((locked m ph q)(t := locked m (\<lambda>_. p) q' t)) u" for u
    using assms[of u] by (cases "u = t"; cases "ph u") (simp_all add: locked_def)
qed

lemma locked_same:
  assumes "\<And>u. u \<noteq> t \<Longrightarrow> in_queue q' u = in_queue q u"
    and "locked m (\<lambda>_. p) q' t = locked m ph q t"
  shows "locked m (ph(t := p)) q' = locked m ph q"
  using assms by (simp add: locked_upd[of t q' q] fun_upd_idem)

lemma places_move:
  assumes ok: "places_ok m ph cur q" and t: "t < task_count m"
    and others: "\<And>u r. u \<noteq> t \<Longrightarrow> u \<in> set (q' r) \<longleftrightarrow> u \<in> set (q r)"
    and idle: "\<And>e. t \<in> set (q' (Idle_List e)) \<longleftrightarrow> executor m t = e \<and> p = Idle"
    and queued: "(\<exists>k. p = Queued k) \<longleftrightarrow>
      (\<exists>e. t \<in> set (q' (Ready_List e))) \<or> (\<exists>e. t \<in> set (q' (Granted_List e))) \<or> in_queue q' t"
    and ready: "\<And>e. t \<in> set (q' (Ready_List e)) \<Longrightarrow> executor m t = e"
    and cur: "\<And>e u. cur' e = Some u \<longleftrightarrow> (if u = t then executor m t = e \<and> active p else cur e = Some u)"
    and granted: "\<And>e. q' (Granted_List e) \<noteq> [] \<Longrightarrow>
      (\<exists>u k. u \<noteq> t \<and> cur e = Some u \<and> ph u = Releasing k) \<or> executor m t = e \<and> (\<exists>k. p = Releasing k)"
  shows "places_ok m (ph(t := p)) cur' q'"
  unfolding places_ok_def
proof (intro conjI allI impI)
  note ok' = ok[unfolded places_ok_def]
  show "u < task_count m" if on: "on_lists q' u" for u
    using on t others[of u] ok' unfolding on_lists_def by (cases "u = t") auto
  show "u \<in> set (q' (Idle_List e)) \<longleftrightarrow> u < task_count m \<and> executor m u = e \<and> (ph(t := p)) u = Idle" for e u
    using ok' t others[of u] idle[of e] by (cases "u = t") auto
  show "cur' e = Some u \<longleftrightarrow> u < task_count m \<and> executor m u = e \<and> active ((ph(t := p)) u)" for e u
    using ok' t cur[of e u] by (cases "u = t") auto
  show "(\<exists>k. (ph(t := p)) u = Queued k) \<longleftrightarrow>
      (\<exists>e. u \<in> set (q' (Ready_List e))) \<or> (\<exists>e. u \<in> set (q' (Granted_List e))) \<or> in_queue q' u"
    if u: "u < task_count m" for u
  proof (cases "u = t")
    case False
    then have "in_queue q' u = in_queue q u" using others by (simp add: in_queue_def)
    then show ?thesis using ok' u others[OF False] False by simp
  qed (use queued in simp)
  show "executor m u = e" if "u \<in> set (q' (Ready_List e))" for e u
    using that ready others[of u] ok' by (cases "u = t") auto
  show "\<exists>u k. cur' e = Some u \<and> (ph(t := p)) u = Releasing k" if "q' (Granted_List e) \<noteq> []" for e
    using granted[OF that]
  proof
    assume "\<exists>u k. u \<noteq> t \<and> cur e = Some u \<and> ph u = Releasing k"
    then obtain u k where "u \<noteq> t" "cur e = Some u" "ph u = Releasing k" by blast
    then show ?thesis using cur[of e u] by auto
  next
    assume "executor m t = e \<and> (\<exists>k. p = Releasing k)"
    then show ?thesis using cur[of e t] by (auto simp: active_def)
  qed
qed

text \<open>The case of a task that runs afterwards.\<close>

lemma places_run:
  assumes ok: "places_ok m ph cur q" and t: "t < task_count m" and off: "\<not> on_lists q' t" and p: "active p"
    and others: "\<And>u r. u \<noteq> t \<Longrightarrow> u \<in> set (q' r) \<longleftrightarrow> u \<in> set (q r)"
    and cur: "\<And>e u. cur' e = Some u \<longleftrightarrow> (if u = t then executor m t = e else cur e = Some u)"
    and granted: "\<And>e. q' (Granted_List e) \<noteq> [] \<Longrightarrow>
      (\<exists>u k. u \<noteq> t \<and> cur e = Some u \<and> ph u = Releasing k) \<or> executor m t = e \<and> (\<exists>k. p = Releasing k)"
  shows "places_ok m (ph(t := p)) cur' q'"
proof (rule places_move[OF ok t])
  have none: "t \<notin> set (q' r)" for r using off by (auto simp: on_lists_def)
  show "t \<in> set (q' (Idle_List e)) \<longleftrightarrow> executor m t = e \<and> p = Idle" for e using none p by (auto simp: active_def)
  show "(\<exists>k. p = Queued k) \<longleftrightarrow>
      (\<exists>e. t \<in> set (q' (Ready_List e))) \<or> (\<exists>e. t \<in> set (q' (Granted_List e))) \<or> in_queue q' t"
    using none p by (auto simp: active_def in_queue_def)
  show "t \<in> set (q' (Ready_List e)) \<Longrightarrow> executor m t = e" for e using none by simp
  show "cur' e = Some u \<longleftrightarrow> (if u = t then executor m t = e \<and> active p else cur e = Some u)" for e u
    using cur p by simp
qed (erule others granted)+

lemma sound_begin_idle:
  assumes s: "sound m ph cur q L" and c: "cur e = None" and q: "q (Idle_List e) = t # ts"
  shows "sound m (ph(t := Acquiring 0)) (cur(e := Some t)) (q(Idle_List e := ts)) L"
proof -
  let ?ph = "ph(t := Acquiring 0)" and ?q = "q(Idle_List e := ts)"
  have t: "t < task_count m" "executor m t = e" "ph t = Idle" using soundD(4)[OF s, of t e] q by auto
  note off = apart_tl[OF soundD(1)[OF s] q]
  have lk: "locked m ?ph ?q = locked m ph q"
    by (rule locked_same) (use t(3) in \<open>simp_all add: in_queue_def locked_def\<close>)
  have "places_ok m ?ph (cur(e := Some t)) ?q"
  proof (rule places_run[OF _ t(1) off(2)])
    show "places_ok m ph cur q" using s by (simp add: sound_def)
    show "u \<in> set (?q r) \<longleftrightarrow> u \<in> set (q r)" if "u \<noteq> t" for u r using that q by simp
    show "(cur(e := Some t)) d = Some u \<longleftrightarrow>
        (if u = t then executor m t = d else cur d = Some u)" for d u
      using soundD(5)[OF s, of d t] c t by (auto simp: active_def)
    show "(\<exists>u j. u \<noteq> t \<and> cur d = Some u \<and> ph u = Releasing j) \<or> executor m t = d \<and> (\<exists>j. Acquiring 0 = Releasing j)"
      if "?q (Granted_List d) \<noteq> []" for d
      using soundD(8)[OF s, of d] that t(3) by auto
  qed (simp add: active_def)
  moreover have "queues_ok m ?ph ?q L"
    unfolding queues_ok_def using soundD(9,10)[OF s] t(3) by fastforce
  ultimately show ?thesis
    using soundD(2,11)[OF s] off(1) unfolding sound_def lk by (auto simp: position_ok_def)
qed

lemma sound_begin_ready:
  assumes s: "sound m ph cur q L" and c: "cur e = None" and q: "q (Ready_List e) = t # ts" and p: "ph t = Queued k"
  shows "sound m (ph(t := Acquiring k)) (cur(e := Some t)) (q(Ready_List e := ts)) L"
proof -
  let ?ph = "ph(t := Acquiring k)" and ?q = "q(Ready_List e := ts)"
  have t: "t < task_count m" using soundD(3)[OF s on_list[of t q "Ready_List e"]] q by simp
  have ex: "executor m t = e" using soundD(7)[OF s, of t e] q by simp
  note off = apart_tl[OF soundD(1)[OF s] q]
  have none: "t \<notin> set (?q r)" for r using off(2) unfolding on_lists_def by blast
  have "t \<notin> set (q (Lock_Queue i))" for i using none[of "Lock_Queue i"] by simp
  then have nq: "\<not> in_queue q t" by (simp add: in_queue_def)
  have lk: "locked m ?ph ?q = locked m ph q"
    by (rule locked_same) (use p nq in \<open>simp_all add: in_queue_def locked_def\<close>)
  have "places_ok m ?ph (cur(e := Some t)) ?q"
  proof (rule places_run[OF _ t off(2)])
    show "places_ok m ph cur q" using s by (simp add: sound_def)
    show "u \<in> set (?q r) \<longleftrightarrow> u \<in> set (q r)" if "u \<noteq> t" for u r using that q by simp
    show "(cur(e := Some t)) d = Some u \<longleftrightarrow>
        (if u = t then executor m t = d else cur d = Some u)" for d u
      using soundD(5)[OF s, of d t] c t p ex by (auto simp: active_def)
    show "(\<exists>u j. u \<noteq> t \<and> cur d = Some u \<and> ph u = Releasing j) \<or> executor m t = d \<and> (\<exists>j. Acquiring k = Releasing j)"
      if "?q (Granted_List d) \<noteq> []" for d
      using soundD(8)[OF s, of d] that p by auto
  qed (simp add: active_def)
  moreover have "queues_ok m ?ph ?q L"
    unfolding queues_ok_def
  proof (intro conjI allI impI)
    show "map fst (waiting (L i)) = ?q (Lock_Queue i)" for i using soundD(9)[OF s] by simp
    fix i u r assume w: "(u, r) \<in> set (waiting (L i))"
    then have "u \<in> set (q (Lock_Queue i))" using soundD(9)[OF s, of i] by (metis fst_conv image_eqI set_map)
    then have "u \<noteq> t" using nq by (auto simp: in_queue_def)
    then show "\<exists>j. ?ph u = Queued (Suc j) \<and> j < length (needed m u) \<and> fst (needed m u ! j) = i \<and>
        r = is_reader (snd (needed m u ! j))"
      using soundD(10)[OF s w] by simp
  qed
  moreover have "position_ok m t (Queued k)" using soundD(2)[OF s t] p by simp
  ultimately show ?thesis
    using soundD(2,11)[OF s] off(1) unfolding sound_def lk by (auto simp: position_ok_def)
qed

text \<open>A running task goes on: nothing moves, and only the lock it is at changes.\<close>

lemma sound_run:
  assumes s: "sound m ph cur q L" and a: "active (ph t)" "active p" and t: "t < task_count m"
    and p: "position_ok m t p" "\<And>k. ph t = Releasing k \<Longrightarrow> \<exists>k. p = Releasing k"
    and L: "\<And>i. waiting (L' i) = waiting (L i)"
    and inv: "\<And>i. lock_inv (L' i) (holders m ((locked m ph q)(t := locked m (\<lambda>_. p) q t)) i)"
  shows "sound m (ph(t := p)) cur q L'"
proof -
  note off = active_off[OF s a(1)]
  have "places_ok m (ph(t := p)) cur q"
  proof (rule places_run[OF _ t off a(2)])
    show "places_ok m ph cur q" using s by (simp add: sound_def)
    show "cur d = Some u \<longleftrightarrow> (if u = t then executor m t = d else cur d = Some u)" for d u
      using soundD(5)[OF s, of d t] a t by auto
    show "(\<exists>u k. u \<noteq> t \<and> cur d = Some u \<and> ph u = Releasing k) \<or> executor m t = d \<and> (\<exists>k. p = Releasing k)"
      if g: "q (Granted_List d) \<noteq> []" for d
    proof -
      obtain u k where u: "cur d = Some u" "ph u = Releasing k" using soundD(8)[OF s g] by blast
      show ?thesis
      proof (cases "u = t")
        case True
        then show ?thesis using u p(2) soundD(5)[OF s, of d t] by auto
      qed (use u in blast)
    qed
  qed simp
  moreover have "queues_ok m (ph(t := p)) q L'"
    unfolding queues_ok_def L
  proof (intro conjI allI impI)
    show "map fst (waiting (L i)) = q (Lock_Queue i)" for i by (rule soundD(9)[OF s])
    fix i u r assume w: "(u, r) \<in> set (waiting (L i))"
    then have "u \<in> set (q (Lock_Queue i))" using soundD(9)[OF s, of i] by (metis fst_conv image_eqI set_map)
    then have "u \<noteq> t" using off by (auto simp: on_lists_def)
    then show "\<exists>j. (ph(t := p)) u = Queued (Suc j) \<and> j < length (needed m u) \<and> fst (needed m u ! j) = i \<and>
        r = is_reader (snd (needed m u ! j))"
      using soundD(10)[OF s w] by simp
  qed
  ultimately show ?thesis
    using soundD(1,2)[OF s] p(1) inv unfolding sound_def by (simp add: locked_upd)
qed

lemma key_unique:
  assumes "tasks_wf m" "t < task_count m" "j < length (needed m t)" "k < length (needed m t)"
    "fst (needed m t ! j) = fst (needed m t ! k)"
  shows "j = k"
proof -
  have "sorted_wrt (<) (map fst (needed m t))" using assms(1,2) by (simp add: tasks_wf_def iset_wf_def)
  then have "distinct (map fst (needed m t))" by (simp add: strict_sorted_iff)
  then show ?thesis using assms(3-5) by (simp add: distinct_conv_nth) (metis)
qed

text \<open>Membership, with the entries of the set of one task.\<close>

definition has_entry :: "tasks \<Rightarrow> nat set \<Rightarrow> nat \<Rightarrow> nat \<Rightarrow> bool \<Rightarrow> bool" where
  "has_entry m J t i r \<longleftrightarrow>
     (\<exists>j \<in> J. j < length (needed m t) \<and> fst (needed m t ! j) = i \<and> r = is_reader (snd (needed m t ! j)))"

lemma in_holders: "(t, r) \<in> holders m K i \<longleftrightarrow> t < task_count m \<and> has_entry m (K t) t i r"
  by (simp add: holders_def has_entry_def)

lemma has_entry_insert:
  "k < length (needed m t) \<Longrightarrow> needed m t ! k = (i, a) \<Longrightarrow>
     has_entry m (insert k J) t j r \<longleftrightarrow> has_entry m J t j r \<or> j = i \<and> r = is_reader a"
  unfolding has_entry_def by auto

lemma holders_insert:
  assumes t: "t < task_count m" and k: "k < length (needed m t)" "needed m t ! k = (i, a)"
  shows "holders m (K(t := insert k (K t))) j =
    (if j = i then insert (t, is_reader a) (holders m K j) else holders m K j)"
proof (rule set_eqI)
  fix h :: "nat \<times> bool"
  obtain u r where h: "h = (u, r)" by (cases h)
  show "h \<in> holders m (K(t := insert k (K t))) j \<longleftrightarrow>
      h \<in> (if j = i then insert (t, is_reader a) (holders m K j) else holders m K j)"
    unfolding h using t has_entry_insert[OF k] by (cases "u = t") (auto simp: in_holders)
qed

lemma has_entry_remove:
  assumes "tasks_wf m" "t < task_count m" and k: "k < length (needed m t)" "needed m t ! k = (i, a)" "k \<in> J"
  shows "has_entry m (J - {k}) t j r \<longleftrightarrow> has_entry m J t j r \<and> j \<noteq> i"
proof -
  have u: "l = k" if "l < length (needed m t)" "fst (needed m t ! l) = i" for l
    using key_unique[OF assms(1,2) that(1) k(1)] that(2) k(2) by simp
  show ?thesis
  proof
    assume "has_entry m (J - {k}) t j r"
    then show "has_entry m J t j r \<and> j \<noteq> i" using u unfolding has_entry_def by blast
  next
    assume "has_entry m J t j r \<and> j \<noteq> i"
    then show "has_entry m (J - {k}) t j r" using k(2) unfolding has_entry_def by force
  qed
qed

lemma has_entry_unique:
  assumes "tasks_wf m" "t < task_count m" and k: "k < length (needed m t)" "needed m t ! k = (i, a)"
    and h: "has_entry m J t i r"
  shows "r = is_reader a" "k \<in> J"
proof -
  obtain j where j: "j \<in> J" "j < length (needed m t)" "fst (needed m t ! j) = i" "r = is_reader (snd (needed m t ! j))"
    using h by (auto simp: has_entry_def)
  have "j = k" using key_unique[OF assms(1,2) j(2) k(1)] j(3) k(2) by simp
  then show "r = is_reader a" "k \<in> J" using j k(2) by simp_all
qed

lemma holders_remove:
  assumes wf: "tasks_wf m" and t: "t < task_count m"
    and k: "k < length (needed m t)" "needed m t ! k = (i, a)" "k \<in> K t"
  shows "holders m (K(t := K t - {k})) j = (if j = i then holders m K j - {(t, is_reader a)} else holders m K j)"
proof (rule set_eqI)
  fix h :: "nat \<times> bool"
  obtain u r where h: "h = (u, r)" by (cases h)
  show "h \<in> holders m (K(t := K t - {k})) j \<longleftrightarrow>
      h \<in> (if j = i then holders m K j - {(t, is_reader a)} else holders m K j)"
    unfolding h using t has_entry_remove[OF wf t k] has_entry_unique(1)[OF wf t k(1,2)]
    by (cases "u = t") (auto simp: in_holders)
qed

lemma holders_absent:
  assumes wf: "tasks_wf m" and t: "t < task_count m" and k: "k < length (needed m t)" "needed m t ! k = (i, a)" "k \<notin> K t"
  shows "t \<notin> fst ` holders m K i"
proof
  assume "t \<in> fst ` holders m K i"
  then obtain r where "has_entry m (K t) t i r" by (auto simp: in_holders)
  then show False using has_entry_unique(2)[OF wf t k(1,2)] k(3) by blast
qed

lemma sound_acquired:
  assumes wf: "tasks_wf m" and s: "sound m ph cur q L" and c: "cur e = Some t" and p: "ph t = Acquiring k"
    and k: "k < length (needed m t)" "needed m t ! k = (i, a)"
    and l: "acquire (is_reader a) t (L i) = (False, l)"
  shows "sound m (ph(t := Acquiring (Suc k))) cur q (L(i := l))"
proof -
  have act: "active (ph t)" using p by (simp add: active_def)
  have t: "t < task_count m" using soundD(5)[OF s, of e t] c by simp
  have K: "locked m ph q t = {..<k}" using p by (simp add: locked_def)
  have h: "t \<notin> fst ` holders m (locked m ph q) i" by (rule holders_absent[OF wf t k]) (simp add: K)
  have "t \<notin> set (q (Lock_Queue i))" using active_off[OF s act] by (auto simp: on_lists_def)
  then have w: "t \<notin> fst ` set (waiting (L i))" using soundD(9)[OF s, of i] by (metis set_map)
  have new: "lock_inv l (insert (t, is_reader a) (holders m (locked m ph q) i))" "waiting l = waiting (L i)"
    using rw.acq_inv[OF soundD(11)[OF s] h w l] by simp_all
  have upd: "locked m (\<lambda>_. Acquiring (Suc k)) q t = insert k (locked m ph q t)"
    by (simp add: K) (simp add: locked_def lessThan_Suc)
  show ?thesis
  proof (rule sound_run[OF s act _ t])
    show "waiting ((L(i := l)) j) = waiting (L j)" for j using new(2) by simp
    show "lock_inv ((L(i := l)) j) (holders m ((locked m ph q)(t := locked m (\<lambda>_. Acquiring (Suc k)) q t)) j)" for j
      using new(1) soundD(11)[OF s, of j] unfolding upd by (simp add: holders_insert[OF t k])
  qed (use k p in \<open>simp_all add: active_def position_ok_def\<close>)
qed

lemma sound_executing:
  assumes s: "sound m ph cur q L" and c: "cur e = Some t" and p: "ph t = Acquiring (length (needed m t))"
  shows "sound m (ph(t := Executing)) cur q L"
proof (rule sound_run[OF s])
  show "t < task_count m" using soundD(5)[OF s, of e t] c by simp
  have "(locked m ph q)(t := locked m (\<lambda>_. Executing) q t) = locked m ph q"
    using p by (simp add: locked_def fun_upd_idem)
  then show "lock_inv (L i) (holders m ((locked m ph q)(t := locked m (\<lambda>_. Executing) q t)) i)" for i
    using soundD(11)[OF s] by simp
qed (use p in \<open>simp_all add: active_def position_ok_def\<close>)

lemma sound_executed:
  assumes s: "sound m ph cur q L" and c: "cur e = Some t" and p: "ph t = Executing"
  shows "sound m (ph(t := Releasing 0)) cur q L"
proof (rule sound_run[OF s])
  show "t < task_count m" using soundD(5)[OF s, of e t] c by simp
  have "(locked m ph q)(t := locked m (\<lambda>_. Releasing 0) q t) = locked m ph q"
    using p by (simp add: locked_def fun_upd_idem atLeast0LessThan)
  then show "lock_inv (L i) (holders m ((locked m ph q)(t := locked m (\<lambda>_. Releasing 0) q t)) i)" for i
    using soundD(11)[OF s] by simp
qed (use p in \<open>simp_all add: active_def position_ok_def\<close>)

lemma waiting_queue: "sound m ph cur q L \<Longrightarrow> (u, r) \<in> set (waiting (L i)) \<Longrightarrow> u \<in> set (q (Lock_Queue i))"
  by (frule soundD(9)[of m ph cur q L i]) (metis fst_conv image_eqI set_map)

text \<open>A running task that stops: it is queued for a lock, or back on the idle list.\<close>

lemma sound_enqueued:
  assumes wf: "tasks_wf m" and s: "sound m ph cur q L" and c: "cur e = Some t" and p: "ph t = Acquiring k"
    and k: "k < length (needed m t)" "needed m t ! k = (i, a)"
    and l: "acquire (is_reader a) t (L i) = (True, l)"
  shows "sound m (ph(t := Queued (Suc k))) (cur(e := None)) (q(Lock_Queue i := q (Lock_Queue i) @ [t])) (L(i := l))"
proof -
  let ?q = "q(Lock_Queue i := q (Lock_Queue i) @ [t])" and ?ph = "ph(t := Queued (Suc k))"
  have act: "active (ph t)" using p by (simp add: active_def)
  have t: "t < task_count m" "executor m t = e" using soundD(5)[OF s, of e t] c by simp_all
  note off = active_off[OF s act]
  have none: "t \<notin> set (q r)" for r using off by (auto simp: on_lists_def)
  have K: "locked m ph q t = {..<k}" using p by (simp add: locked_def)
  have h: "t \<notin> fst ` holders m (locked m ph q) i" by (rule holders_absent[OF wf t(1) k]) (simp add: K)
  have w: "t \<notin> fst ` set (waiting (L i))" using soundD(9)[OF s, of i] none by (metis set_map)
  have new: "lock_inv l (holders m (locked m ph q) i)" "waiting l = waiting (L i) @ [(t, is_reader a)]"
    using rw.acq_inv[OF soundD(11)[OF s] h w l] by simp_all
  have iq: "in_queue ?q u = in_queue q u" if "u \<noteq> t" for u using that by (auto simp: in_queue_def)
  have iqt: "in_queue ?q t" unfolding in_queue_def by (rule exI[of _ i]) simp
  have lk: "locked m ?ph ?q = locked m ph q"
    by (rule locked_same[OF iq], assumption, simp only: K) (use iqt in \<open>simp add: locked_def\<close>)
  have "places_ok m ?ph (cur(e := None)) ?q"
  proof (rule places_move[OF _ t(1)])
    show "places_ok m ph cur q" using s by (simp add: sound_def)
    show "(\<exists>j. Queued (Suc k) = Queued j) \<longleftrightarrow>
        (\<exists>e. t \<in> set (?q (Ready_List e))) \<or> (\<exists>e. t \<in> set (?q (Granted_List e))) \<or> in_queue ?q t" using iqt by simp
    show "(cur(e := None)) d = Some u \<longleftrightarrow>
        (if u = t then executor m t = d \<and> active (Queued (Suc k)) else cur d = Some u)" for d u
      using soundD(5)[OF s, of d t] c act t by (auto simp: active_def)
    show "(\<exists>u j. u \<noteq> t \<and> cur d = Some u \<and> ph u = Releasing j) \<or>
        executor m t = d \<and> (\<exists>j. Queued (Suc k) = Releasing j)" if "?q (Granted_List d) \<noteq> []" for d
      using soundD(8)[OF s, of d] that p by auto
  qed (use none in simp_all)
  moreover have "queues_ok m ?ph ?q (L(i := l))"
    unfolding queues_ok_def
  proof (intro conjI allI impI)
    show "map fst (waiting ((L(i := l)) j)) = ?q (Lock_Queue j)" for j
      using soundD(9)[OF s, of j] soundD(9)[OF s, of i] new(2) by simp
    fix j u r assume u: "(u, r) \<in> set (waiting ((L(i := l)) j))"
    show "\<exists>n. ?ph u = Queued (Suc n) \<and> n < length (needed m u) \<and> fst (needed m u ! n) = j \<and>
        r = is_reader (snd (needed m u ! n))"
    proof (cases "u = t")
      case True
      then have "j = i" "r = is_reader a"
        using u waiting_queue[OF s, of t r j] none w new(2) by (auto split: if_splits simp: image_iff)
      then show ?thesis using True k by simp
    next
      case False
      then have "(u, r) \<in> set (waiting (L j))" using u new(2) by (auto split: if_splits)
      then show ?thesis using soundD(10)[OF s] False by simp
    qed
  qed
  moreover have "apart ?q" by (rule apart_add[OF soundD(1)[OF s] off])
  moreover have "lock_inv ((L(i := l)) j) (holders m (locked m ph q) j)" for j
    using new(1) soundD(11)[OF s] by simp
  ultimately show ?thesis
    using soundD(2)[OF s] k(1) unfolding sound_def lk by (auto simp: position_ok_def)
qed

lemma sound_done:
  assumes s: "sound m ph cur q L" and c: "cur e = Some t" and p: "ph t = Releasing (length (needed m t))"
    and g: "q (Granted_List e) = []"
  shows "sound m (ph(t := Idle)) (cur(e := None)) (q(Idle_List e := q (Idle_List e) @ [t])) L"
proof -
  let ?q = "q(Idle_List e := q (Idle_List e) @ [t])" and ?ph = "ph(t := Idle)"
  have act: "active (ph t)" using p by (simp add: active_def)
  have t: "t < task_count m" "executor m t = e" using soundD(5)[OF s, of e t] c by simp_all
  note off = active_off[OF s act]
  have none: "t \<notin> set (q r)" for r using off by (auto simp: on_lists_def)
  have lk: "locked m ?ph ?q = locked m ph q"
    by (rule locked_same) (use p in \<open>simp_all add: in_queue_def locked_def\<close>)
  have "places_ok m ?ph (cur(e := None)) ?q"
  proof (rule places_move[OF _ t(1)])
    show "places_ok m ph cur q" using s by (simp add: sound_def)
    show "(\<exists>j. Idle = Queued j) \<longleftrightarrow>
        (\<exists>e. t \<in> set (?q (Ready_List e))) \<or> (\<exists>e. t \<in> set (?q (Granted_List e))) \<or> in_queue ?q t"
      using none by (simp add: in_queue_def)
    show "(cur(e := None)) d = Some u \<longleftrightarrow> (if u = t then executor m t = d \<and> active Idle else cur d = Some u)" for d u
      using soundD(5)[OF s, of d t] c act t by (auto simp: active_def)
    show "(\<exists>u j. u \<noteq> t \<and> cur d = Some u \<and> ph u = Releasing j) \<or> executor m t = d \<and> (\<exists>j. Idle = Releasing j)"
      if d: "?q (Granted_List d) \<noteq> []" for d
    proof -
      obtain u j where u: "cur d = Some u" "ph u = Releasing j" using soundD(8)[OF s, of d] d by auto
      have "d \<noteq> e" using d g by auto
      then have "u \<noteq> t" using soundD(5)[OF s, of d u] u(1) t(2) by auto
      then show ?thesis using u by blast
    qed
  qed (use none t in \<open>auto split: if_splits\<close>)
  moreover have "queues_ok m ?ph ?q L"
    unfolding queues_ok_def
  proof (intro conjI allI impI)
    show "map fst (waiting (L j)) = ?q (Lock_Queue j)" for j using soundD(9)[OF s, of j] by simp
    fix j u r assume u: "(u, r) \<in> set (waiting (L j))"
    then have "u \<noteq> t" using waiting_queue[OF s u] none by auto
    then show "\<exists>n. ?ph u = Queued (Suc n) \<and> n < length (needed m u) \<and> fst (needed m u ! n) = j \<and>
        r = is_reader (snd (needed m u ! n))" using soundD(10)[OF s u] by simp
  qed
  moreover have "apart ?q" by (rule apart_add[OF soundD(1)[OF s] off])
  ultimately show ?thesis
    using soundD(2,11)[OF s] unfolding sound_def lk by (auto simp: position_ok_def)
qed

text \<open>Handing a lock on: the tasks at the front of its queue have it, and are about to be signalled.\<close>

lemma sound_released:
  assumes wf: "tasks_wf m" and s: "sound m ph cur q L" and c: "cur e = Some t" and p: "ph t = Releasing k"
    and k: "k < length (needed m t)" "needed m t ! k = (i, a)"
    and g: "q (Granted_List e) = []" and ap: "apart (q(Lock_Queue i := ts, Granted_List e := gs))"
    and l: "release (is_reader a) (L i) = (gs, l)" and ts: "q (Lock_Queue i) = gs @ ts"
  shows "sound m (ph(t := Releasing (Suc k))) cur (q(Lock_Queue i := ts, Granted_List e := gs)) (L(i := l))"
proof -
  let ?q = "q(Lock_Queue i := ts, Granted_List e := gs)" and ?ph = "ph(t := Releasing (Suc k))"
  let ?K = "locked m ph q" and ?K' = "locked m ?ph ?q"
  have act: "active (ph t)" using p by (simp add: active_def)
  have t: "t < task_count m" "executor m t = e" using soundD(5)[OF s, of e t] c by simp_all
  note off = active_off[OF s act]
  have none: "t \<notin> set (q r)" for r using off by (auto simp: on_lists_def)
  have Kt: "?K t = {k..<length (needed m t)}" using p by (simp add: locked_def)
  have "(t, is_reader a) \<in> holders m ?K i"
    using t k by (auto simp: in_holders has_entry_def Kt intro!: bexI[of _ k])
  then obtain ws where ws: "waiting (L i) = ws @ waiting l" "gs = map fst ws"
    "lock_inv l (holders m ?K i - {(t, is_reader a)} \<union> set ws)"
    using rw.rel_inv[OF soundD(11)[OF s] _ l] by blast
  have gsq: "u \<in> set (q (Lock_Queue i))" if "u \<in> set gs" for u using that ts by simp
  have gst: "t \<notin> set gs" using none gsq by blast
  have iq: "in_queue ?q u \<longleftrightarrow> in_queue q u \<and> u \<notin> set gs" for u
  proof (cases "u \<in> set gs")
    case True
    have "distinct (gs @ ts)" using soundD(1)[OF s] ts by (metis apart_def)
    then have "u \<notin> set ts" using True by auto
    moreover have "u \<notin> set (q (Lock_Queue j))" if "j \<noteq> i" for j
      using one_place[OF soundD(1)[OF s] gsq[OF True], of "Lock_Queue j"] that by auto
    ultimately show ?thesis using True by (auto simp: in_queue_def)
  next
    case False
    then have "u \<in> set (?q (Lock_Queue j)) \<longleftrightarrow> u \<in> set (q (Lock_Queue j))" for j using ts by simp
    then show ?thesis using False by (simp only: in_queue_def simp_thms)
  qed
  have mode: "\<exists>n. ph u = Queued (Suc n) \<and> n < length (needed m u) \<and> fst (needed m u ! n) = i \<and>
      r = is_reader (snd (needed m u ! n))" if "(u, r) \<in> set ws" for u r
    using soundD(10)[OF s, of u r i] that ws(1) by simp
  have K: "?K' u = (if u = t then ?K t - {k} else ?K u)" if u: "u \<notin> set gs" for u
  proof (cases "u = t")
    case True
    then show ?thesis using k(1) unfolding Kt by (auto simp: locked_def)
  next
    case False
    then show ?thesis using u iq[of u] by (cases "ph u") (simp_all add: locked_def)
  qed
  have H: "(u, r) \<in> holders m ?K' j \<longleftrightarrow>
      (u, r) \<in> (if j = i then holders m ?K i - {(t, is_reader a)} \<union> set ws else holders m ?K j)" for u r j
  proof (cases "u \<in> set gs")
    case True
    then obtain r0 where r0: "(u, r0) \<in> set ws" using ws(2) by auto
    obtain n where n: "ph u = Queued (Suc n)" "n < length (needed m u)" "fst (needed m u ! n) = i"
      "r0 = is_reader (snd (needed m u ! n))" using mode[OF r0] by blast
    have "in_queue q u" using gsq[OF True] by (auto simp: in_queue_def)
    then have KK: "?K u = {..<n}" "?K' u = insert n (?K u)" using n(1) gst True iq[of u] by (auto simp: locked_def)
    obtain b where b: "needed m u ! n = (i, b)" using n(3) by (metis prod.collapse)
    have un: "u < task_count m" "u \<noteq> t" using soundD(3)[OF s on_list[of u q, OF gsq[OF True]]] gst True by auto
    have "(u, r) \<in> set ws \<longleftrightarrow> r = r0" using mode[of u r] r0 n(1,4) by auto
    then show ?thesis using un n(4) b by (auto simp: in_holders KK(2) has_entry_insert[OF n(2) b])
  next
    case False
    then have w: "(u, r) \<notin> set ws" using ws(2) by (metis fst_conv image_eqI set_map)
    show ?thesis
    proof (cases "u = t")
      case True
      have kK: "k \<in> ?K t" using k(1) Kt by simp
      show ?thesis
        using True w K[OF False] t(1) has_entry_remove[OF wf t(1) k kK] has_entry_unique(1)[OF wf t(1) k]
        by (auto simp: in_holders)
    next
      case ut: False
      then show ?thesis using K[OF False] w by (simp add: in_holders)
    qed
  qed
  have inv: "lock_inv ((L(i := l)) j) (holders m ?K' j)" for j
  proof -
    have "holders m ?K' j = (if j = i then holders m ?K i - {(t, is_reader a)} \<union> set ws else holders m ?K j)"
      using H[of _ _ j] by (intro set_eqI) (metis prod.collapse)
    then show ?thesis using ws(3) soundD(11)[OF s, of j] by simp
  qed
  have "places_ok m ?ph cur ?q"
    unfolding places_ok_def
  proof (intro conjI allI impI)
    show "u < task_count m" if on: "on_lists ?q u" for u
    proof -
      obtain r where r: "u \<in> set (?q r)" using on unfolding on_lists_def by blast
      consider "r = Lock_Queue i" | "r = Granted_List e" | "r \<noteq> Lock_Queue i" "r \<noteq> Granted_List e" by blast
      then have "u \<in> set (q (Lock_Queue i)) \<or> u \<in> set (q r)" using r ts by cases auto
      then have "on_lists q u" by (auto simp: on_lists_def)
      then show ?thesis by (rule soundD(3)[OF s])
    qed
    show "u \<in> set (?q (Idle_List d)) \<longleftrightarrow> u < task_count m \<and> executor m u = d \<and> ?ph u = Idle" for d u
      using soundD(4)[OF s, of u d] p by auto
    show "cur d = Some u \<longleftrightarrow> u < task_count m \<and> executor m u = d \<and> active (?ph u)" for d u
      using soundD(5)[OF s, of d u] act by (auto simp: active_def)
    show "(\<exists>j. ?ph u = Queued j) \<longleftrightarrow>
        (\<exists>d. u \<in> set (?q (Ready_List d))) \<or> (\<exists>d. u \<in> set (?q (Granted_List d))) \<or> in_queue ?q u"
      if u: "u < task_count m" for u
    proof (cases "u \<in> set gs")
      case True
      then have "in_queue q u" using gsq by (auto simp: in_queue_def)
      then have "\<exists>j. ph u = Queued j" using soundD(6)[OF s u] by blast
      moreover have "u \<in> set (?q (Granted_List e))" "u \<noteq> t" using True gst by auto
      ultimately show ?thesis by (metis fun_upd_apply)
    next
      case False
      have "(\<exists>d. u \<in> set (?q (Granted_List d))) \<longleftrightarrow> (\<exists>d. u \<in> set (q (Granted_List d)))"
        using False g by (auto split: if_splits) (metis empty_iff list.set(1))
      then show ?thesis using soundD(6)[OF s u] p iq[of u] False by (cases "u = t") auto
    qed
    show "executor m u = d" if "u \<in> set (?q (Ready_List d))" for d u using soundD(7)[OF s, of u d] that by simp
    show "\<exists>u j. cur d = Some u \<and> ?ph u = Releasing j" if "?q (Granted_List d) \<noteq> []" for d
    proof (cases "d = e")
      case False
      then obtain u j where "cur d = Some u" "ph u = Releasing j" using soundD(8)[OF s, of d] \<open>?q (Granted_List d) \<noteq> []\<close> by auto
      then show ?thesis by (cases "u = t") auto
    qed (use c in simp)
  qed
  moreover have "queues_ok m ?ph ?q (L(i := l))"
    unfolding queues_ok_def
  proof (intro conjI allI impI)
    have "map fst (waiting l) = ts" using soundD(9)[OF s, of i] ws(1,2) ts by simp
    then show "map fst (waiting ((L(i := l)) j)) = ?q (Lock_Queue j)" for j using soundD(9)[OF s, of j] by simp
    fix j u r assume "(u, r) \<in> set (waiting ((L(i := l)) j))"
    then have u: "(u, r) \<in> set (waiting (L j))" using ws(1) by (auto split: if_splits)
    then have "u \<noteq> t" using waiting_queue[OF s u] none by auto
    then show "\<exists>n. ?ph u = Queued (Suc n) \<and> n < length (needed m u) \<and> fst (needed m u ! n) = j \<and>
        r = is_reader (snd (needed m u ! n))" using soundD(10)[OF s u] by simp
  qed
  ultimately show ?thesis using soundD(2)[OF s] k(1) ap inv unfolding sound_def by (auto simp: position_ok_def)
qed

lemma sound_signalled:
  assumes s: "sound m ph cur q L" and g: "q (Granted_List e) = u # us"
  shows "sound m ph cur (q(Granted_List e := us, Ready_List (executor m u) := q (Ready_List (executor m u)) @ [u])) L"
proof -
  let ?q = "q(Granted_List e := us, Ready_List (executor m u) := q (Ready_List (executor m u)) @ [u])"
  have on: "u \<in> set (q (Granted_List e))" using g by simp
  have u: "u < task_count m" using soundD(3)[OF s on_list[of u q, OF on]] .
  have elsewhere: "u \<notin> set (q r)" if "r \<noteq> Granted_List e" for r
    using one_place[OF soundD(1)[OF s] on, of r] that by auto
  obtain k where k: "ph u = Queued k" using soundD(6)[OF s u] on by blast
  have us: "u \<notin> set us" using soundD(1)[OF s] g by (metis apart_def distinct.simps(2))
  have lk: "locked m ph ?q = locked m ph q"
  proof -
    have "locked m (ph(u := ph u)) ?q = locked m ph q"
      by (rule locked_same) (use k elsewhere in \<open>simp_all add: in_queue_def locked_def\<close>)
    then show ?thesis by simp
  qed
  have "places_ok m (ph(u := ph u)) cur ?q"
  proof (rule places_move[OF _ u])
    show "places_ok m ph cur q" using s by (simp add: sound_def)
    show "v \<in> set (?q r) \<longleftrightarrow> v \<in> set (q r)" if "v \<noteq> u" for v r using that g by auto
    show "(\<exists>j. ph u = Queued j) \<longleftrightarrow>
        (\<exists>d. u \<in> set (?q (Ready_List d))) \<or> (\<exists>d. u \<in> set (?q (Granted_List d))) \<or> in_queue ?q u"
    proof -
      have "u \<in> set (?q (Ready_List (executor m u)))" by simp
      then show ?thesis using k by blast
    qed
    show "cur d = Some v \<longleftrightarrow> (if v = u then executor m u = d \<and> active (ph u) else cur d = Some v)" for d v
      using soundD(5)[OF s, of d u] u by auto
    show "(\<exists>v j. v \<noteq> u \<and> cur d = Some v \<and> ph v = Releasing j) \<or> executor m u = d \<and> (\<exists>j. ph u = Releasing j)"
      if "?q (Granted_List d) \<noteq> []" for d
    proof -
      have "q (Granted_List d) \<noteq> []" using that g by (auto split: if_splits)
      then show ?thesis using soundD(8)[OF s, of d] k by fastforce
    qed
  qed (use elsewhere k us in \<open>auto split: if_splits\<close>)
  then have "places_ok m ph cur ?q" by simp
  moreover have "queues_ok m ph ?q L"
    unfolding queues_ok_def using soundD(9,10)[OF s] by simp
  moreover have "apart ?q" using apart_move[OF soundD(1)[OF s] g, of "Ready_List (executor m u)"] by simp
  ultimately show ?thesis using soundD(2,11)[OF s] unfolding sound_def lk by blast
qed

section \<open>Every turn of a reachable state returns\<close>

definition good :: "tasks \<Rightarrow> sys \<Rightarrow> bool" where
  "good m s \<longleftrightarrow> (\<exists>q. represents (pool s) q \<and> sound m (phase s) (current s) q (view (pool s) q))"

lemma queue_short:
  assumes "sound m ph cur q L"
  shows "length (q p) \<le> task_count m"
proof -
  have "distinct (q p)" using soundD(1)[OF assms] by (simp add: apart_def)
  moreover have "set (q p) \<subseteq> {..<task_count m}"
    using soundD(3)[OF assms on_list] by auto
  ultimately show ?thesis using card_mono[of "{..<task_count m}" "set (q p)"] by (simp add: distinct_card)
qed

lemma begin_good:
  assumes rep: "represents (pool s) q" and s: "sound m (phase s) (current s) q (view (pool s) q)"
    and c: "current s e = None"
  shows "\<exists>s'. begin_task e ch s = Inr s' \<and> good m s'"
proof (cases ch)
  case From_Ready
  show ?thesis
  proof (cases "q (Ready_List e)")
    case Nil
    then have "take_task (Ready_List e) (pool s) = (None, pool s)"
      using pool.rep_take[OF rep, of "Ready_List e"] by auto
    then show ?thesis using From_Ready rep s by (auto simp: begin_task_def good_def)
  next
    case (Cons t ts)
    obtain p where p: "take_task (Ready_List e) (pool s) = (Some t, p)" "represents p (q(Ready_List e := ts))"
      using pool.take_Cons[OF rep Cons] by blast
    have t: "t \<in> set (q (Ready_List e))" using Cons by simp
    obtain k where k: "phase s t = Queued k"
      using soundD(6)[OF s soundD(3)[OF s on_list[of t q, OF t]]] t by blast
    have "view p (q(Ready_List e := ts)) = view (pool s) q"
      using p(1) by (auto simp: take_task_def view_def fun_eq_iff Let_def split: option.splits)
    then show ?thesis
      using From_Ready p k sound_begin_ready[OF s c Cons k] by (auto simp: begin_task_def good_def)
  qed
next
  case From_Idle
  show ?thesis
  proof (cases "q (Idle_List e)")
    case Nil
    then have "take_task (Idle_List e) (pool s) = (None, pool s)"
      using pool.rep_take[OF rep, of "Idle_List e"] by auto
    then show ?thesis using From_Idle rep s by (auto simp: begin_task_def good_def)
  next
    case (Cons t ts)
    obtain p where p: "take_task (Idle_List e) (pool s) = (Some t, p)" "represents p (q(Idle_List e := ts))"
      using pool.take_Cons[OF rep Cons] by blast
    have "view p (q(Idle_List e := ts)) = view (pool s) q"
      using p(1) by (auto simp: take_task_def view_def fun_eq_iff Let_def split: option.splits)
    then show ?thesis
      using From_Idle p sound_begin_idle[OF s c Cons] by (auto simp: begin_task_def good_def)
  qed
next
  case (Outcome hit g)
  then show ?thesis using rep s by (auto simp: begin_task_def good_def)
qed

lemma acquire_good:
  assumes wf: "tasks_wf m" and rep: "represents (pool s) q"
    and s: "sound m (phase s) (current s) q (view (pool s) q)"
    and c: "current s e = Some t" and p: "phase s t = Acquiring k"
  shows "\<exists>s'. acquire_next m e t k s = Inr s' \<and> good m s'"
proof (cases "k < length (needed m t)")
  case True
  obtain i a where n: "needed m t ! k = (i, a)" by fastforce
  have "active (phase s t)" using p by (simp add: active_def)
  note off = active_off[OF s this]
  obtain b l where l: "acquire (is_reader a) t (view (pool s) q i) = (b, l)" by fastforce
  let ?q = "if b then q(Lock_Queue i := q (Lock_Queue i) @ [t]) else q"
  obtain p' where p': "locks (is_reader a) i t (pool s) = Inr (b, p')" "represents p' ?q"
    "view p' ?q = (view (pool s) q)(i := l)"
    using lock_refines[OF rep off l] by blast
  show ?thesis
  proof (cases b)
    case True
    then have "sound m ((phase s)(t := Queued (Suc k))) ((current s)(e := None)) ?q (view p' ?q)"
      unfolding p'(3) using sound_enqueued[OF wf s c p \<open>k < _\<close> n] l by simp
    then show ?thesis using True p' \<open>k < _\<close> n by (auto simp: acquire_next_def good_def)
  next
    case False
    then have "sound m ((phase s)(t := Acquiring (Suc k))) (current s) ?q (view p' ?q)"
      unfolding p'(3) using sound_acquired[OF wf s c p \<open>k < _\<close> n] l by simp
    then show ?thesis using False p' \<open>k < _\<close> n by (auto simp: acquire_next_def good_def)
  qed
next
  case False
  have "t < task_count m" using soundD(5)[OF s, of e t] c by simp
  then have "k = length (needed m t)" using False soundD(2)[OF s, of t] p by (simp add: position_ok_def)
  then have "sound m ((phase s)(t := Executing)) (current s) q (view (pool s) q)" using sound_executing[OF s c] p by simp
  then show ?thesis using False rep by (auto simp: acquire_next_def good_def)
qed

lemma view_other:
  assumes "counts p = counts p'" "read_flag p = read_flag p'" "\<And>i. q (Lock_Queue i) = q' (Lock_Queue i)"
  shows "view p q = view p' q'"
  using assms by (simp add: view_def fun_eq_iff)

lemma pool_ops_view:
  "take_task r p = (x, p') \<Longrightarrow> counts p' = counts p \<and> read_flag p' = read_flag p"
  "append_task r t p = Inr p' \<Longrightarrow> counts p' = counts p \<and> read_flag p' = read_flag p"
  by (auto simp: take_task_def append_task_def link_task_def Let_def split: option.splits cell.splits if_splits)

text \<open>The loop that signals: a task that was granted a lock moves to its ready list.\<close>

lemma signal_sound:
  assumes rep: "represents (pool s) q" and s: "sound m (phase s) (current s) q (view (pool s) q)"
  shows "q (Granted_List e) = [] \<and> signal (executor m) e (pool s) = Inr (False, pool s) \<or>
    (\<exists>u us p. q (Granted_List e) = u # us \<and> signal (executor m) e (pool s) = Inr (True, p) \<and>
       represents p (q(Granted_List e := us, Ready_List (executor m u) := q (Ready_List (executor m u)) @ [u])) \<and>
       view p (q(Granted_List e := us, Ready_List (executor m u) := q (Ready_List (executor m u)) @ [u])) =
         view (pool s) q)"
proof (cases "q (Granted_List e)")
  case Nil
  then have "take_task (Granted_List e) (pool s) = (None, pool s)"
    using pool.rep_take[OF rep, of "Granted_List e"] by auto
  then show ?thesis using Nil by (simp add: signal_def)
next
  case (Cons u us)
  let ?r = "Ready_List (executor m u)"
  let ?q = "q(Granted_List e := us, ?r := q ?r @ [u])"
  obtain p1 p2 where p: "take_task (Granted_List e) (pool s) = (Some u, p1)" "append_task ?r u p1 = Inr p2"
    "represents p2 ?q"
    using pool.take_append[OF rep Cons, of ?r] by auto
  have "view p2 ?q = view (pool s) q"
    by (rule view_other) (use pool_ops_view(1)[OF p(1)] pool_ops_view(2)[OF p(2)] in simp_all)
  then show ?thesis using p Cons by (auto simp: signal_def)
qed

lemma release_good:
  assumes wf: "tasks_wf m" and rep: "represents (pool s) q"
    and s: "sound m (phase s) (current s) q (view (pool s) q)"
    and c: "current s e = Some t" and p: "phase s t = Releasing k"
  shows "\<exists>s'. release_next m e t k s = Inr s' \<and> good m s'"
  using signal_sound[OF rep s, of e]
proof
  assume "\<exists>u us p. q (Granted_List e) = u # us \<and> signal (executor m) e (pool s) = Inr (True, p) \<and>
       represents p (q(Granted_List e := us, Ready_List (executor m u) := q (Ready_List (executor m u)) @ [u])) \<and>
       view p (q(Granted_List e := us, Ready_List (executor m u) := q (Ready_List (executor m u)) @ [u])) =
         view (pool s) q"
  then obtain u us p' where u: "q (Granted_List e) = u # us" "signal (executor m) e (pool s) = Inr (True, p')"
    "represents p' (q(Granted_List e := us, Ready_List (executor m u) := q (Ready_List (executor m u)) @ [u]))"
    "view p' (q(Granted_List e := us, Ready_List (executor m u) := q (Ready_List (executor m u)) @ [u])) =
       view (pool s) q" by blast
  have "good m (s\<lparr>pool := p'\<rparr>)"
    unfolding good_def using u(3) sound_signalled[OF s u(1)] u(4)
    by (intro exI[of _ "q(Granted_List e := us, Ready_List (executor m u) := q (Ready_List (executor m u)) @ [u])"]) simp
  then show ?thesis using u(2) by (simp add: release_next_def)
next
  assume g: "q (Granted_List e) = [] \<and> signal (executor m) e (pool s) = Inr (False, pool s)"
  have t: "t < task_count m" "executor m t = e" using soundD(5)[OF s, of e t] c by simp_all
  have act: "active (phase s t)" using p by (simp add: active_def)
  show ?thesis
  proof (cases "k < length (needed m t)")
    case True
    obtain i a where n: "needed m t ! k = (i, a)" by fastforce
    have "(t, is_reader a) \<in> holders m (locked m (phase s) q) i"
      using t True n p by (auto simp: in_holders has_entry_def locked_def intro!: bexI[of _ k])
    then have held: "if is_reader a then 0 < counts (pool s) i else counts (pool s) i = - 1"
      using soundD(11)[OF s, of i] by (cases "is_reader a") (auto simp: lock_inv_def view_def card_gt_0_iff)
    obtain gs l where l: "release (is_reader a) (view (pool s) q i) = (gs, l)" by fastforce
    obtain p' ts where p': "q (Lock_Queue i) = gs @ ts"
      "unlocks (is_reader a) (task_count m) e i (pool s) = Inr p'"
      "represents p' (q(Lock_Queue i := ts, Granted_List e := gs))"
      "view p' (q(Lock_Queue i := ts, Granted_List e := gs)) = (view (pool s) q)(i := l)"
      using unlock_refines[OF rep _ queue_short[OF s] held l] g by blast
    have "apart (q(Lock_Queue i := ts, Granted_List e := gs))" by (rule pool.rep_apart[OF p'(3)])
    from sound_released[OF wf s c p True n _ this l p'(1)] g
    have "good m (s\<lparr>pool := p', phase := (phase s)(t := Releasing (Suc k))\<rparr>)"
      unfolding good_def using p'(3,4) by (intro exI[of _ "q(Lock_Queue i := ts, Granted_List e := gs)"]) simp
    then show ?thesis using g True n p'(2) by (simp add: release_next_def)
  next
    case False
    then have k: "k = length (needed m t)" using soundD(2)[OF s t(1)] p by (simp add: position_ok_def)
    have "\<not> on_lists q t" by (rule active_off[OF s act])
    then obtain p' where p': "append_task (Idle_List e) t (pool s) = Inr p'"
      "represents p' (q(Idle_List e := q (Idle_List e) @ [t]))"
      using pool.rep_append[OF rep] by blast
    have "view p' (q(Idle_List e := q (Idle_List e) @ [t])) = view (pool s) q"
      by (rule view_other) (use pool_ops_view(2)[OF p'(1)] in simp_all)
    then have "good m (s\<lparr>pool := p', phase := (phase s)(t := Idle), current := (current s)(e := None)\<rparr>)"
      unfolding good_def using p'(2) sound_done[OF s c] p k g
      by (intro exI[of _ "q(Idle_List e := q (Idle_List e) @ [t])"]) simp
    then show ?thesis using g False p'(1) t(2) by (simp add: release_next_def)
  qed
qed

lemma turn_good:
  assumes wf: "tasks_wf m" and g: "good m s"
  shows "\<exists>s'. turn m e ch s = Inr s' \<and> good m s'"
proof -
  obtain q where rep: "represents (pool s) q" and s: "sound m (phase s) (current s) q (view (pool s) q)"
    using g by (auto simp: good_def)
  show ?thesis
  proof (cases "current s e")
    case None
    then show ?thesis using begin_good[OF rep s] by (simp add: turn_def)
  next
    case (Some t)
    have t: "t < task_count m" "active (phase s t)" using soundD(5)[OF s, of e t] Some by simp_all
    show ?thesis
    proof (cases "phase s t")
      case (Acquiring k)
      then show ?thesis using acquire_good[OF wf rep s Some] Some by (simp add: turn_def)
    next
      case Executing
      show ?thesis
      proof (cases ch)
        case (Outcome hit gen)
        have "good m (s\<lparr>phase := (phase s)(t := Releasing 0), task_generation := x, last_kind := y\<rparr>)" for x y
          using rep sound_executed[OF s Some Executing] by (auto simp: good_def)
        then show ?thesis using Some Executing Outcome by (simp add: turn_def execute_task_def split: prod.split)
      qed (use g Some Executing in \<open>simp_all add: turn_def execute_task_def\<close>)
    next
      case (Releasing k)
      then show ?thesis using release_good[OF wf rep s Some] Some by (simp add: turn_def)
    qed (use t in \<open>simp_all add: active_def\<close>)
  qed
qed

definition idle_lists :: "tasks \<Rightarrow> nat \<Rightarrow> place \<Rightarrow> nat list" where
  "idle_lists m n p = (case p of Idle_List e \<Rightarrow> filter (\<lambda>t. executor m t = e) [0..<n] | _ \<Rightarrow> [])"

lemma on_idle_lists: "on_lists (idle_lists m n) t \<longleftrightarrow> t < n"
proof
  assume "t < n"
  then have "t \<in> set (idle_lists m n (Idle_List (executor m t)))" by (simp add: idle_lists_def)
  then show "on_lists (idle_lists m n) t" by (rule on_list)
qed (auto simp: on_lists_def idle_lists_def split: place.splits)

lemma initial_lists:
  "\<exists>p. ofold (\<lambda>p t. append_task (Idle_List (executor m t)) t p) [0..<n] initial_pool = Inr p \<and>
     represents p (idle_lists m n) \<and> counts p = (\<lambda>_. 0)"
proof (induction n)
  case 0
  have "represents initial_pool (idle_lists m 0)"
    by (auto simp: represents_def apart_def stands_for_def initial_pool_def empty_chain_def idle_lists_def split: place.split)
  then show ?case by (simp add: initial_pool_def)
next
  case (Suc n)
  then obtain p where p: "ofold (\<lambda>p t. append_task (Idle_List (executor m t)) t p) [0..<n] initial_pool = Inr p"
    "represents p (idle_lists m n)" "counts p = (\<lambda>_. 0)" by blast
  have "\<not> on_lists (idle_lists m n) n" by (simp add: on_idle_lists)
  then obtain p' where p': "append_task (Idle_List (executor m n)) n p = Inr p'"
    "represents p' ((idle_lists m n)(Idle_List (executor m n) := idle_lists m n (Idle_List (executor m n)) @ [n]))"
    using pool.rep_append[OF p(2)] by blast
  have "(idle_lists m n)(Idle_List (executor m n) := idle_lists m n (Idle_List (executor m n)) @ [n]) =
      idle_lists m (Suc n)"
    by (auto simp: fun_eq_iff idle_lists_def split: place.split)
  then show ?case using p p' pool_ops_view(2)[OF p'(1)] by (simp add: ofold_append)
qed

lemma initial_good: "\<exists>s. initial m = Inr s \<and> good m s"
proof -
  let ?n = "task_count m"
  obtain p where p: "ofold (\<lambda>p t. append_task (Idle_List (executor m t)) t p) [0..<?n] initial_pool = Inr p"
    "represents p (idle_lists m ?n)" "counts p = (\<lambda>_. 0)"
    using initial_lists by blast
  have iq: "\<not> in_queue (idle_lists m ?n) t" for t by (simp add: in_queue_def idle_lists_def)
  have v: "view p (idle_lists m ?n) = (\<lambda>_. free_lock)"
    using p(3) by (auto simp: view_def idle_lists_def free_lock_def fun_eq_iff)
  have "sound m (\<lambda>_. Idle) (\<lambda>_. None) (idle_lists m ?n) (\<lambda>_. free_lock)"
    unfolding sound_def
  proof (intro conjI allI impI)
    show "apart (idle_lists m ?n)" by (rule pool.rep_apart[OF p(2)])
    show "places_ok m (\<lambda>_. Idle) (\<lambda>_. None) (idle_lists m ?n)"
      using iq by (auto simp: places_ok_def on_idle_lists active_def) (auto simp: idle_lists_def)
    show "queues_ok m (\<lambda>_. Idle) (idle_lists m ?n) (\<lambda>_. free_lock)"
      by (simp add: queues_ok_def free_lock_def idle_lists_def)
    have "holders m (locked m (\<lambda>_. Idle) (idle_lists m ?n)) i = {}" for i by (simp add: holders_def locked_def)
    then show "lock_inv free_lock (holders m (locked m (\<lambda>_. Idle) (idle_lists m ?n)) i)" for i
      by (simp add: lock_inv_free)
  qed (simp add: position_ok_def)
  then show ?thesis using p(1,2) v by (auto simp: initial_def good_def)
qed

lemma reachable_good: "reachable m s \<Longrightarrow> tasks_wf m \<Longrightarrow> good m s"
proof (induction rule: reachable.induct)
  case (start s)
  then show ?case using initial_good[of m] by auto
next
  case (turn s e ch s')
  then show ?case using turn_good[of m s e ch] by auto
qed

section \<open>Progress\<close>

text \<open>A turn that does not start an idle task.\<close>

definition quiet :: "tasks \<Rightarrow> sys \<Rightarrow> sys \<Rightarrow> bool" where
  "quiet m s s' \<longleftrightarrow> (\<exists>e ch. ch \<noteq> From_Idle \<and> turn m e ch s = Inr s')"

text \<open>The turns a task still needs, apart from those that signal others.\<close>

definition turns_left :: "tasks \<Rightarrow> nat \<Rightarrow> phase \<Rightarrow> nat" where
  "turns_left m t p =
     (let n = length (needed m t) in
      case p of
        Idle \<Rightarrow> 0
      | Acquiring k \<Rightarrow> 2 * (n - k) + n + 3
      | Queued k \<Rightarrow> 2 * (n - k) + n + 4
      | Executing \<Rightarrow> n + 2
      | Releasing k \<Rightarrow> n - k + 1)"

definition work :: "tasks \<Rightarrow> (nat \<Rightarrow> phase) \<Rightarrow> nat" where
  "work m ph = (\<Sum>t < task_count m. turns_left m t (ph t))"

lemma work_upd:
  "t < task_count m \<Longrightarrow> turns_left m t p < turns_left m t (ph t) \<Longrightarrow> work m (ph(t := p)) < work m ph"
  unfolding work_def by (rule sum_strict_mono_ex1) auto

text \<open>An executor signals everyone it has to, without changing phases.\<close>

lemma flush:
  assumes "represents (pool s) q" "sound m (phase s) (current s) q (view (pool s) q)"
    "current s e = Some t" "phase s t = Releasing k"
  shows "\<exists>s' q'. (quiet m)\<^sup>*\<^sup>* s s' \<and> phase s' = phase s \<and> current s' = current s \<and>
    represents (pool s') q' \<and> sound m (phase s') (current s') q' (view (pool s') q') \<and> q' (Granted_List e) = []"
  using assms
proof (induction "q (Granted_List e)" arbitrary: s q)
  case Nil
  then show ?case by (intro exI[of _ s] exI[of _ q]) simp
next
  case (Cons u us)
  let ?q = "q(Granted_List e := us, Ready_List (executor m u) := q (Ready_List (executor m u)) @ [u])"
  obtain p where p: "signal (executor m) e (pool s) = Inr (True, p)" "represents p ?q" "view p ?q = view (pool s) q"
    using signal_sound[OF Cons.prems(1,2), of e] Cons.hyps(2)[symmetric] by auto
  let ?s = "s\<lparr>pool := p\<rparr>"
  have "turn m e From_Ready s = Inr ?s" using Cons.prems(3,4) p(1) by (simp add: turn_def release_next_def)
  then have q: "quiet m s ?s" unfolding quiet_def by blast
  have "sound m (phase ?s) (current ?s) ?q (view (pool ?s) ?q)"
    using sound_signalled[OF Cons.prems(2) Cons.hyps(2)[symmetric]] p(3) by simp
  then obtain s' q' where s': "(quiet m)\<^sup>*\<^sup>* ?s s'" "phase s' = phase ?s" "current s' = current ?s"
    "represents (pool s') q'" "sound m (phase s') (current s') q' (view (pool s') q')" "q' (Granted_List e) = []"
    using Cons.hyps(1)[of ?q ?s] p(2) Cons.prems(3,4) by auto
  have "(quiet m)\<^sup>*\<^sup>* s s'" using q s'(1) by (rule converse_rtranclp_into_rtranclp)
  then show ?case using s'(2-6) by (intro exI[of _ s'] exI[of _ q']) simp
qed

lemma run_progress:
  assumes wf: "tasks_wf m" and g: "good m s" and c: "current s e = Some t"
  shows "\<exists>s'. (quiet m)\<^sup>*\<^sup>* s s' \<and> good m s' \<and> work m (phase s') < work m (phase s)"
proof -
  obtain q where rep: "represents (pool s) q" and s: "sound m (phase s) (current s) q (view (pool s) q)"
    using g by (auto simp: good_def)
  have t: "t < task_count m" "active (phase s t)" using soundD(5)[OF s, of e t] c by simp_all
  have pos: "position_ok m t (phase s t)" by (rule soundD(2)[OF s t(1)])
  have one: "(quiet m)\<^sup>*\<^sup>* s s'" if "turn m e ch s = Inr s'" "ch \<noteq> From_Idle" for s s' ch
    using that unfolding quiet_def by blast
  show ?thesis
  proof (cases "phase s t")
    case (Acquiring k)
    obtain s' where s': "turn m e From_Ready s = Inr s'" "good m s'" using turn_good[OF wf g] by blast
    have "acquire_next m e t k s = Inr s'" using s'(1) c Acquiring by (simp add: turn_def)
    then have "\<exists>p. phase s' = (phase s)(t := p) \<and> turns_left m t p < turns_left m t (phase s t)"
      using Acquiring pos
      by (auto simp: acquire_next_def outcome_simps turns_left_def Let_def position_ok_def split: if_splits prod.splits)
    then show ?thesis using one[OF s'(1)] s'(2) work_upd[OF t(1)] by auto
  next
    case Executing
    obtain s' where s': "turn m e (Outcome True 0) s = Inr s'" "good m s'" using turn_good[OF wf g] by blast
    then have "phase s' = (phase s)(t := Releasing 0)"
      using c Executing by (auto simp: turn_def execute_task_def split: prod.splits)
    then show ?thesis using one[OF s'(1)] s'(2) work_upd[OF t(1), of "Releasing 0" "phase s"] Executing
      by (auto simp: turns_left_def)
  next
    case (Releasing k)
    obtain s1 q1 where s1: "(quiet m)\<^sup>*\<^sup>* s s1" "phase s1 = phase s" "current s1 = current s"
      "represents (pool s1) q1" "sound m (phase s1) (current s1) q1 (view (pool s1) q1)" "q1 (Granted_List e) = []"
      using flush[OF rep s c Releasing] by blast
    have g1: "good m s1" using s1(4,5) by (auto simp: good_def)
    have sig: "signal (executor m) e (pool s1) = Inr (False, pool s1)"
      using signal_sound[OF s1(4,5), of e] s1(6) by auto
    obtain s' where s': "turn m e From_Ready s1 = Inr s'" "good m s'" using turn_good[OF wf g1] by blast
    have "release_next m e t k s1 = Inr s'" using s'(1) c Releasing s1(2,3) by (simp add: turn_def)
    then have "\<exists>p. phase s' = (phase s1)(t := p) \<and> turns_left m t p < turns_left m t (phase s t)"
      using Releasing sig
      by (auto simp: release_next_def outcome_simps turns_left_def split: if_splits prod.splits)
    then show ?thesis using rtranclp_trans[OF s1(1) one[OF s'(1)]] s'(2) work_upd[OF t(1), of _ "phase s"] s1(2) by auto
  qed (use t in \<open>simp_all add: active_def\<close>)
qed

text \<open>
  If every task that is not idle waits in the queue of a lock, there is none: the holders of the last lock
  with a queue would wait for a later one.
\<close>

lemma no_deadlock:
  assumes wf: "tasks_wf m" and s: "sound m ph cur q L"
    and w: "\<And>t. t < task_count m \<Longrightarrow> ph t \<noteq> Idle \<Longrightarrow> in_queue q t"
  shows "\<forall>t < task_count m. ph t = Idle"
proof (rule ccontr)
  assume "\<not> (\<forall>t < task_count m. ph t = Idle)"
  then obtain t where t: "t < task_count m" "ph t \<noteq> Idle" by blast
  let ?I = "{i. q (Lock_Queue i) \<noteq> []}"
  have at: "\<exists>k. ph u = Queued (Suc k) \<and> k < length (needed m u) \<and> fst (needed m u ! k) = i"
    if "u \<in> set (q (Lock_Queue i))" for u i
  proof -
    have "u \<in> fst ` set (waiting (L i))" using that soundD(9)[OF s, of i] by (metis set_map)
    then show ?thesis using soundD(10)[OF s, of u _ i] by fastforce
  qed
  have "?I \<subseteq> (\<Union>u \<in> {..<task_count m}. fst ` set (needed m u))"
  proof
    fix i assume "i \<in> ?I"
    then obtain u where u: "u \<in> set (q (Lock_Queue i))" by (cases "q (Lock_Queue i)") auto
    have "u < task_count m" using soundD(3)[OF s on_list[of u q, OF u]] .
    moreover have "i \<in> fst ` set (needed m u)" using at[OF u] by (metis image_eqI nth_mem)
    ultimately show "i \<in> (\<Union>u \<in> {..<task_count m}. fst ` set (needed m u))" by blast
  qed
  then have fin: "finite ?I" by (rule finite_subset) simp
  obtain j where "t \<in> set (q (Lock_Queue j))" using w[OF t] by (auto simp: in_queue_def)
  then have "j \<in> ?I" by auto
  define i where "i = Max ?I"
  have i: "i \<in> ?I" "\<And>j. j \<in> ?I \<Longrightarrow> j \<le> i"
    unfolding i_def using Max_in[OF fin] Max_ge[OF fin] \<open>j \<in> ?I\<close> by blast+
  have "waiting (L i) \<noteq> []" using i(1) soundD(9)[OF s, of i] by auto
  then obtain u r where "(u, r) \<in> holders m (locked m ph q) i"
    using rw.held[OF soundD(11)[OF s]] by fastforce
  then have u: "u < task_count m" "has_entry m (locked m ph q u) u i r" by (simp_all add: in_holders)
  then have "ph u \<noteq> Idle" by (auto simp: has_entry_def locked_def)
  then have "in_queue q u" using w u(1) by blast
  then obtain j where j: "u \<in> set (q (Lock_Queue j))" by (auto simp: in_queue_def)
  obtain k where k: "ph u = Queued (Suc k)" "k < length (needed m u)" "fst (needed m u ! k) = j"
    using at[OF j] by blast
  obtain l where l: "l < k" "fst (needed m u ! l) = i"
    using u(2) k(1) \<open>in_queue q u\<close> by (auto simp: has_entry_def locked_def)
  have "sorted_wrt (<) (map fst (needed m u))" using wf u(1) by (simp add: tasks_wf_def iset_wf_def)
  then have "i < j" using sorted_wrt_nth_less[of "(<)" "map fst (needed m u)" l k] l k(2,3) by simp
  moreover have "j \<in> ?I" using j by auto
  ultimately show False using i(2) by fastforce
qed

lemma progress:
  assumes wf: "tasks_wf m" and g: "good m s" and t: "t < task_count m" "phase s t \<noteq> Idle"
  shows "\<exists>s'. (quiet m)\<^sup>*\<^sup>* s s' \<and> good m s' \<and> work m (phase s') < work m (phase s)"
proof (cases "\<exists>e u. current s e = Some u")
  case True
  then show ?thesis using run_progress[OF wf g] by blast
next
  case False
  obtain q where rep: "represents (pool s) q" and s: "sound m (phase s) (current s) q (view (pool s) q)"
    using g by (auto simp: good_def)
  have idle: "\<not> active (phase s u)" if "u < task_count m" for u using soundD(5)[OF s, of "executor m u" u] that False by auto
  have granted: "q (Granted_List e) = []" for e using soundD(8)[OF s, of e] False by blast
  have "\<exists>e. q (Ready_List e) \<noteq> []"
  proof (rule ccontr)
    assume none: "\<not> (\<exists>e. q (Ready_List e) \<noteq> [])"
    have "in_queue q u" if u: "u < task_count m" "phase s u \<noteq> Idle" for u
    proof -
      have "\<exists>k. phase s u = Queued k" using idle[OF u(1)] u(2) by (cases "phase s u") (simp_all add: active_def)
      then show ?thesis using soundD(6)[OF s u(1)] granted none by simp
    qed
    then show False using no_deadlock[OF wf s] t by blast
  qed
  then obtain e u us where e: "q (Ready_List e) = u # us" by (meson neq_Nil_conv)
  have u: "u \<in> set (q (Ready_List e))" using e by simp
  have ut: "u < task_count m" using soundD(3)[OF s on_list[of u q, OF u]] .
  obtain k where k: "phase s u = Queued k" using soundD(6)[OF s ut] u by blast
  obtain s' where s': "turn m e From_Ready s = Inr s'" "good m s'" using turn_good[OF wf g] by blast
  obtain p where "take_task (Ready_List e) (pool s) = (Some u, p)" using pool.take_Cons[OF rep e] by blast
  moreover have "current s e = None" using False by (cases "current s e") auto
  ultimately have "phase s' = (phase s)(u := Acquiring k)" using s'(1) k by (auto simp: turn_def begin_task_def)
  then have "work m (phase s') < work m (phase s)" using work_upd[OF ut, of "Acquiring k" "phase s"] k by (simp add: turns_left_def Let_def)
  moreover have "quiet m s s'" using s'(1) unfolding quiet_def by blast
  ultimately show ?thesis using s'(2) by blast
qed

lemma drains:
  assumes wf: "tasks_wf m"
  shows "good m s \<Longrightarrow> \<exists>s'. (quiet m)\<^sup>*\<^sup>* s s' \<and> (\<forall>t < task_count m. phase s' t = Idle)"
proof (induction "work m (phase s)" arbitrary: s rule: less_induct)
  case less
  show ?case
  proof (cases "\<forall>t < task_count m. phase s t = Idle")
    case False
    then obtain s1 where "(quiet m)\<^sup>*\<^sup>* s s1" "good m s1" "work m (phase s1) < work m (phase s)"
      using progress[OF wf less.prems] by blast
    then show ?thesis using less.hyps[of s1] by (meson rtranclp_trans)
  qed blast
qed

section \<open>The guarantees of the scheduler\<close>

text \<open>C37: No turn of any executor, in any state the threads can reach by any interleaving, fails an
  assertion of the intrusive lists or the locks, follows a null pointer or finds a task in the wrong place.\<close>

theorem turns_never_abort:
  assumes "tasks_wf m" "reachable m s"
  shows "returns (turn m e ch s)"
  using turn_good[OF assms(1) reachable_good[OF assms(2,1)], of e ch] by auto

text \<open>C35: Two tasks that execute at the same time never touch an instance that one of them writes.\<close>

theorem executing_exclusive:
  assumes "tasks_wf m" "reachable m s" "t < task_count m" "u < task_count m" "t \<noteq> u"
    and "phase s t = Executing" "phase s u = Executing" and i: "(i, AccessWrite) \<in> set (needed m t)"
  shows "i \<notin> fst ` set (needed m u)"
proof
  assume "i \<in> fst ` set (needed m u)"
  then obtain b where b: "(i, b) \<in> set (needed m u)" by force
  obtain q where s: "sound m (phase s) (current s) q (view (pool s) q)"
    using reachable_good[OF assms(2,1)] by (auto simp: good_def)
  have has: "has_entry m (locked m (phase s) q v) v i (is_reader a)"
    if "phase s v = Executing" "(i, a) \<in> set (needed m v)" for v a
    using that unfolding has_entry_def locked_def by (force simp: in_set_conv_nth)
  let ?H = "holders m (locked m (phase s) q) i"
  have "(t, False) \<in> ?H" "(u, is_reader b) \<in> ?H"
    using assms(3,4) has[OF assms(6) i] has[OF assms(7) b] by (simp_all add: in_holders is_reader_def)
  then show False using rw.holders_compatible[OF soundD(11)[OF s]] assms(5) by blast
qed

text \<open>C36: The scheduler cannot deadlock: from every reachable state there are turns that start no idle task
  and after which every task is idle again.\<close>

theorem tasks_drain:
  assumes "tasks_wf m" "reachable m s"
  shows "\<exists>s'. (quiet m)\<^sup>*\<^sup>* s s' \<and> (\<forall>t < task_count m. phase s' t = Idle)"
  by (rule drains[OF assms(1) reachable_good[OF assms(2,1)]])

text \<open>C38: In every reachable state every task is in exactly one place: on the idle list of its executor,
  running there, or queued on one list.\<close>

theorem tasks_not_lost:
  assumes "tasks_wf m" "reachable m s"
  shows "\<exists>q. represents (pool s) q \<and> (\<forall>t < task_count m.
    (phase s t = Idle \<longleftrightarrow> t \<in> set (q (Idle_List (executor m t)))) \<and>
    (active (phase s t) \<longleftrightarrow> current s (executor m t) = Some t) \<and>
    ((\<exists>k. phase s t = Queued k) \<longleftrightarrow>
       t \<in> set (q (Ready_List (executor m t))) \<or> (\<exists>e. t \<in> set (q (Granted_List e))) \<or> in_queue q t))"
proof -
  obtain q where q: "represents (pool s) q" and s: "sound m (phase s) (current s) q (view (pool s) q)"
    using reachable_good[OF assms(2,1)] by (auto simp: good_def)
  have "(\<exists>e. t \<in> set (q (Ready_List e))) \<longleftrightarrow> t \<in> set (q (Ready_List (executor m t)))" for t
    using soundD(7)[OF s, of t] by blast
  then show ?thesis using q soundD(4,5,6)[OF s] by (intro exI[of _ q]) simp
qed

text \<open>Two tasks of two executors that share one instance, read by both, and a third that writes it.\<close>

definition sample_tasks :: tasks where
  "sample_tasks =
     \<lparr>task_count = 3, executor = (\<lambda>t. t mod 2),
      needed = (\<lambda>t. if t = 2 then [(0, AccessWrite)] else [(0, AccessRead), (Suc t, AccessWrite)])\<rparr>"

definition run :: "tasks \<Rightarrow> (nat \<times> choice) list \<Rightarrow> sys outcome" where
  "run m ts = obind (initial m) (ofold (\<lambda>s (e, ch). turn m e ch s) ts)"

lemma run_reachable: "run m ts = Inr s \<Longrightarrow> reachable m s"
proof (induction ts arbitrary: s rule: rev_induct)
  case Nil
  then show ?case by (auto simp: run_def outcome_simps intro: reachable.start)
next
  case (snoc x ts)
  obtain e ch where x: "x = (e, ch)" by (cases x)
  obtain s1 where "run m ts = Inr s1" "turn m e ch s1 = Inr s"
    using snoc.prems by (auto simp: run_def ofold_append outcome_simps x)
  then show ?case using snoc.IH by (auto intro: reachable.turn)
qed

definition both_execute :: "(nat \<times> choice) list" where
  "both_execute =
     [(0, From_Idle), (0, From_Ready), (0, From_Ready), (0, From_Ready),
      (1, From_Idle), (1, From_Ready), (1, From_Ready), (1, From_Ready)]"

lemma sample_tasks_wf: "tasks_wf sample_tasks"
  by (simp add: tasks_wf_def sample_tasks_def iset_wf_def)

lemma both_execute_runs:
  "\<exists>s. run sample_tasks both_execute = Inr s \<and> phase s 0 = Executing \<and> phase s 1 = Executing"
proof -
  have "(case run sample_tasks both_execute of Inl _ \<Rightarrow> False
    | Inr s \<Rightarrow> phase s 0 = Executing \<and> phase s 1 = Executing)" by code_simp
  then show ?thesis by (simp split: sum.splits)
qed

theorem turns_never_abort_witness:
  "\<exists>s. run sample_tasks both_execute = Inr s \<and> returns (turn sample_tasks 0 (Outcome True 0) s)"
  using both_execute_runs turns_never_abort[OF sample_tasks_wf run_reachable] by blast

theorem executing_exclusive_witness:
  "\<exists>s. run sample_tasks both_execute = Inr s \<and> phase s 0 = Executing \<and> phase s 1 = Executing \<and>
     (1::nat) \<notin> fst ` set (needed sample_tasks 1)"
proof -
  obtain s where s: "run sample_tasks both_execute = Inr s" "phase s 0 = Executing" "phase s 1 = Executing"
    using both_execute_runs by blast
  have "(1::nat) \<notin> fst ` set (needed sample_tasks 1)"
    by (rule executing_exclusive[OF sample_tasks_wf run_reachable[OF s(1)] _ _ _ s(2,3)])
      (simp_all add: sample_tasks_def)
  then show ?thesis using s by blast
qed

theorem tasks_drain_witness:
  "\<exists>s s'. run sample_tasks both_execute = Inr s \<and> phase s 0 = Executing \<and>
     (quiet sample_tasks)\<^sup>*\<^sup>* s s' \<and> (\<forall>t < task_count sample_tasks. phase s' t = Idle)"
  using both_execute_runs tasks_drain[OF sample_tasks_wf run_reachable] by blast

theorem tasks_not_lost_witness:
  "\<exists>s q. run sample_tasks both_execute = Inr s \<and> represents (pool s) q \<and> 2 \<in> set (q (Idle_List 0))"
proof -
  obtain s where s: "run sample_tasks both_execute = Inr s" "phase s 2 = Idle"
  proof -
    have "(case run sample_tasks both_execute of Inl _ \<Rightarrow> False | Inr s \<Rightarrow> phase s 2 = Idle)" by code_simp
    then show ?thesis using that by (simp split: sum.splits)
  qed
  have n: "2 < task_count sample_tasks" "executor sample_tasks 2 = 0" by (simp_all add: sample_tasks_def)
  show ?thesis using tasks_not_lost[OF sample_tasks_wf run_reachable[OF s(1)]] s n by metis
qed

end
