(* ===== verification/Schedule.thy ===== *)
theory Schedule
  imports Chains
begin

text \<open>
  The schedule of the instance scheduler (instance_scheduler.hpp and .cpp): an intrusive list of instances in
  which the field next is null for an instance that is not scheduled and the address 1 for the
  last one, and the threads that take instances from it until none is left and no thread can
  push another.  Every section under \<open>list_mutex_\<close> is one step of a thread.
\<close>

section \<open>The list\<close>

datatype link = Null | End | To nat

record schedule =
  next_info :: "nat \<Rightarrow> link"
  first :: link
  last_cell :: cell
  pending :: nat

text \<open>The assignment through the tail pointer.\<close>

definition write_tail :: "nat \<Rightarrow> schedule \<Rightarrow> schedule" where
  "write_tail i s =
     (case last_cell s of
        Head_Cell \<Rightarrow> s\<lparr>first := To i\<rparr>
      | Next_Cell j \<Rightarrow> s\<lparr>next_info := (next_info s)(j := To i)\<rparr>)"

definition push_info :: "nat \<Rightarrow> schedule \<Rightarrow> schedule" where
  "push_info i s =
     (if next_info s i = Null then
        let s' = write_tail i s in s'\<lparr>last_cell := Next_Cell i, next_info := (next_info s')(i := End)\<rparr>
      else s)"

text \<open>Taking the first instance in \<open>run_i\<close>, which counts as pending from then on.\<close>

definition pop_info :: "schedule \<Rightarrow> nat option \<times> schedule" where
  "pop_info s =
     (case first s of
        To i \<Rightarrow>
          let n = next_info s i;
              s' = (if n = End then s\<lparr>first := Null, last_cell := Head_Cell\<rparr> else s\<lparr>first := n\<rparr>)
          in (Some i, s'\<lparr>next_info := (next_info s')(i := Null)\<rparr>)
      | _ \<Rightarrow> (None, s))"

text \<open>The walk of dump_schedule, from a given record.\<close>

fun walk :: "(nat \<Rightarrow> link) \<Rightarrow> link \<Rightarrow> nat list \<Rightarrow> bool" where
  "walk nx p [] \<longleftrightarrow> p = End"
| "walk nx p (i # is) \<longleftrightarrow> p = To i \<and> walk nx (nx i) is"

definition scheduled :: "schedule \<Rightarrow> nat list \<Rightarrow> bool" where
  "scheduled s is \<longleftrightarrow>
     distinct is \<and> (if is = [] then first s = Null \<and> last_cell s = Head_Cell
                    else walk (next_info s) (first s) is \<and> last_cell s = Next_Cell (last is)) \<and>
     (\<forall>i. next_info s i = Null \<longleftrightarrow> i \<notin> set is)"

lemma walk_upd [simp]: "i \<notin> set is \<Longrightarrow> walk (nx(i := v)) p is = walk nx p is"
  by (induction "is" arbitrary: p) auto

lemma walk_snoc:
  "walk nx p is \<Longrightarrow> is \<noteq> [] \<Longrightarrow> distinct is \<Longrightarrow> i \<notin> set is \<Longrightarrow>
     walk (nx(last is := To i, i := End)) p (is @ [i])"
proof (induction "is" arbitrary: p)
  case (Cons j js)
  show ?case
  proof (cases "js = []")
    case True
    then show ?thesis using Cons.prems by simp
  next
    case False
    let ?nx = "nx(last js := To i, i := End)"
    have "walk ?nx (nx j) (js @ [i])"
      by (rule Cons.IH) (use Cons.prems False in auto)
    moreover have "j \<noteq> last js" using Cons.prems(3) False last_in_set by fastforce
    moreover have "j \<noteq> i" using Cons.prems(4) by auto
    ultimately have "walk ?nx (?nx j) (js @ [i])" by simp
    moreover have "p = To j" "last (j # js) = last js" using Cons.prems(1) False by simp_all
    ultimately show ?thesis by (simp only: append_Cons walk.simps simp_thms)
  qed
qed simp

lemma push_scheduled:
  assumes s: "scheduled s is"
  shows "scheduled (push_info i s) (if i \<in> set is then is else is @ [i])"
proof (cases "i \<in> set is")
  case True
  then show ?thesis using s by (simp add: push_info_def scheduled_def)
next
  case False
  show ?thesis
  proof (cases "is = []")
    case True
    then show ?thesis using s False by (simp add: push_info_def write_tail_def scheduled_def Let_def)
  next
    case ne: False
    have l: "last_cell s = Next_Cell (last is)" and w: "walk (next_info s) (first s) is" and d: "distinct is"
      and nx: "next_info s j = Null \<longleftrightarrow> j \<notin> set is" for j
      using s ne by (simp_all add: scheduled_def)
    have "push_info i s = s\<lparr>last_cell := Next_Cell i, next_info := (next_info s)(last is := To i, i := End)\<rparr>"
      using l nx False by (simp add: push_info_def write_tail_def Let_def)
    moreover have "last is \<in> set is" using ne by simp
    ultimately show ?thesis using walk_snoc[OF w ne d False] nx d False ne by (auto simp: scheduled_def)
  qed
qed

lemma pop_scheduled:
  assumes s: "scheduled s is"
  shows "is = [] \<and> pop_info s = (None, s) \<or>
    (\<exists>i js s'. is = i # js \<and> pop_info s = (Some i, s') \<and> scheduled s' js \<and> pending s' = pending s)"
proof (cases "is")
  case Nil
  then show ?thesis using s by (simp add: scheduled_def pop_info_def)
next
  case (Cons i js)
  have d: "distinct (i # js)" and w: "first s = To i" "walk (next_info s) (next_info s i) js"
    and l: "last_cell s = Next_Cell (last (i # js))" and nx: "\<And>j. next_info s j = Null \<longleftrightarrow> j \<notin> set (i # js)"
    using s Cons by (simp_all add: scheduled_def)
  have e: "next_info s i = End \<longleftrightarrow> js = []" using w(2) by (cases js) auto
  show ?thesis
  proof (cases "js = []")
    case True
    then show ?thesis using Cons w(1) e nx by (simp add: pop_info_def scheduled_def)
  next
    case False
    then show ?thesis using Cons w e nx d l by (auto simp: pop_info_def scheduled_def)
  qed
qed

text \<open>
  The same contract as the lists of tasks: one list, appended to with push.
\<close>

definition one_list :: "schedule \<Rightarrow> (unit \<Rightarrow> nat list) \<Rightarrow> bool" where
  "one_list s q \<longleftrightarrow> scheduled s (q ())"

interpretation schedule: task_lists one_list "\<lambda>_ i s. Inr (push_info i s)" "\<lambda>_. pop_info"
proof unfold_locales
  show "one_list s q \<Longrightarrow> apart q" for s q by (auto simp: one_list_def apart_def scheduled_def)
  show "\<exists>s'. Inr (push_info t s) = Inr s' \<and> one_list s' (q(p := q p @ [t]))"
    if "one_list s q" "\<not> on_lists q t" for s q t p
    using push_scheduled[of s "q ()" t] that by (auto simp: one_list_def on_lists_def)
  show "pop_info s = (None, s) \<and> q p = [] \<or>
      (\<exists>t ts s'. pop_info s = (Some t, s') \<and> q p = t # ts \<and> one_list s' (q(p := ts)))"
    if "one_list s q" for s q p
    using pop_scheduled[of s "q ()"] that by (auto simp: one_list_def)
qed

section \<open>The threads\<close>

datatype thread = Looking | Working nat | Exited

record scheduler =
  schedule :: schedule
  threads :: "nat \<Rightarrow> thread"

text \<open>
  The steps of \<open>run_i\<close>: taking an instance, exiting when there is none and nobody works, waiting
  otherwise; while it works a thread pushes instances (\<open>instance_executor_t::push\<close>), then it is done with its instance.
\<close>

inductive step :: "nat \<Rightarrow> scheduler \<Rightarrow> scheduler \<Rightarrow> bool" for n where
  take: "h < n \<Longrightarrow> threads s h = Looking \<Longrightarrow> pop_info (schedule s) = (Some i, c) \<Longrightarrow>
    step n s (s\<lparr>schedule := c\<lparr>pending := pending c + 1\<rparr>, threads := (threads s)(h := Working i)\<rparr>)"
| exit: "h < n \<Longrightarrow> threads s h = Looking \<Longrightarrow> first (schedule s) = Null \<Longrightarrow> pending (schedule s) = 0 \<Longrightarrow>
    step n s (s\<lparr>threads := (threads s)(h := Exited)\<rparr>)"
| push: "h < n \<Longrightarrow> threads s h = Working i \<Longrightarrow> step n s (s\<lparr>schedule := push_info j (schedule s)\<rparr>)"
| finish: "h < n \<Longrightarrow> threads s h = Working i \<Longrightarrow>
    step n s (s\<lparr>schedule := (schedule s)\<lparr>pending := pending (schedule s) - 1\<rparr>, threads := (threads s)(h := Looking)\<rparr>)"

text \<open>Composer order: \<open>init\<close> pushes every instance, then the threads start.\<close>

definition empty_schedule :: schedule where
  "empty_schedule = \<lparr>next_info = (\<lambda>_. Null), first = Null, last_cell = Head_Cell, pending = 0\<rparr>"

definition init_scheduler :: "nat list \<Rightarrow> scheduler" where
  "init_scheduler instances =
     \<lparr>schedule = foldl (\<lambda>s i. push_info i s) empty_schedule instances, threads = (\<lambda>_. Looking)\<rparr>"

section \<open>Invariant\<close>

definition workers :: "nat \<Rightarrow> (nat \<Rightarrow> thread) \<Rightarrow> nat set" where
  "workers n th = {h. h < n \<and> (\<exists>i. th h = Working i)}"

definition scheduler_ok :: "nat \<Rightarrow> scheduler \<Rightarrow> bool" where
  "scheduler_ok n s \<longleftrightarrow>
     (\<exists>is. scheduled (schedule s) is \<and> (\<forall>h < n. threads s h = Exited \<longrightarrow> is = [] \<and> workers n (threads s) = {})) \<and>
     pending (schedule s) = card (workers n (threads s))"

lemma finite_workers [simp]: "finite (workers n th)"
  by (simp add: workers_def)

lemma workers_take: "h < n \<Longrightarrow> workers n (th(h := Working i)) = insert h (workers n th)"
  by (auto simp: workers_def)

lemma workers_other: "th h \<noteq> Working i \<Longrightarrow> \<forall>i. th h \<noteq> Working i \<Longrightarrow> v \<in> {Looking, Exited} \<Longrightarrow>
    workers n (th(h := v)) = workers n th"
  by (auto simp: workers_def)

lemma workers_leave: "v \<in> {Looking, Exited} \<Longrightarrow> workers n (th(h := v)) = workers n th - {h}"
  by (auto simp: workers_def)

lemma pushes_pending: "pending (push_info i s) = pending s"
  by (auto simp: push_info_def write_tail_def Let_def split: cell.split)

lemma scheduled_pending: "scheduled (s\<lparr>pending := k\<rparr>) is \<longleftrightarrow> scheduled s is"
  by (simp add: scheduled_def)

lemma step_ok: "step n s s' \<Longrightarrow> scheduler_ok n s \<Longrightarrow> scheduler_ok n s'"
proof (induction rule: step.induct)
  case (take h s i c)
  obtain "is" where l: "scheduled (schedule s) is" and ex: "\<forall>h < n. threads s h = Exited \<longrightarrow> is = []"
    and p: "pending (schedule s) = card (workers n (threads s))"
    using take.prems by (auto simp: scheduler_ok_def)
  obtain js where js: "is = i # js" "scheduled c js" "pending c = pending (schedule s)"
    using pop_scheduled[OF l] take.hyps(3) by auto
  have "h \<notin> workers n (threads s)" using take.hyps(2) by (simp add: workers_def)
  then have "pending c + 1 = card (workers n ((threads s)(h := Working i)))"
    using js(3) p take.hyps(1) by (simp add: workers_take)
  moreover have "\<not> (\<exists>k < n. threads s k = Exited)" using ex js(1) by auto
  ultimately show ?case using js(2) by (auto simp: scheduler_ok_def scheduled_pending)
next
  case (exit h s)
  obtain "is" where l: "scheduled (schedule s) is" and p: "pending (schedule s) = card (workers n (threads s))"
    using exit.prems by (auto simp: scheduler_ok_def)
  have "is = []" using l exit.hyps(3) by (cases "is") (auto simp: scheduled_def)
  moreover have "workers n (threads s) = {}" using p exit.hyps(4) by simp
  ultimately show ?case using l p by (auto simp: scheduler_ok_def workers_leave)
next
  case (push h s i j)
  obtain "is" where l: "scheduled (schedule s) is" and ex: "\<forall>h < n. threads s h = Exited \<longrightarrow> workers n (threads s) = {}"
    and p: "pending (schedule s) = card (workers n (threads s))"
    using push.prems by (auto simp: scheduler_ok_def)
  have "h \<in> workers n (threads s)" using push.hyps by (simp add: workers_def)
  then have "\<not> (\<exists>k < n. threads s k = Exited)" using ex by blast
  then show ?case using push_scheduled[OF l, of j] p by (auto simp: scheduler_ok_def pushes_pending)
next
  case (finish h s i)
  have h: "h \<in> workers n (threads s)" using finish.hyps by (simp add: workers_def)
  then show ?case using finish.prems by (auto simp: scheduler_ok_def scheduled_pending workers_leave)
qed

lemma init_ok: "scheduler_ok n (init_scheduler is)"
proof -
  have "\<exists>js. scheduled (foldl (\<lambda>s i. push_info i s) s is) js \<and> pending (foldl (\<lambda>s i. push_info i s) s is) = pending s"
    if "scheduled s js" for s js
    using that
  proof (induction "is" arbitrary: s js)
    case (Cons i "is")
    then show ?case using push_scheduled[of s js i] pushes_pending[of i s] by (metis foldl_Cons)
  qed auto
  moreover have "scheduled empty_schedule []" by (simp add: scheduled_def empty_schedule_def)
  ultimately have "\<exists>js. scheduled (foldl (\<lambda>s i. push_info i s) empty_schedule is) js \<and>
      pending (foldl (\<lambda>s i. push_info i s) empty_schedule is) = 0"
    by (metis empty_schedule_def schedule.select_convs(4))
  then show ?thesis by (auto simp: scheduler_ok_def init_scheduler_def workers_def)
qed

lemma steps_ok: "(step n)\<^sup>*\<^sup>* s s' \<Longrightarrow> scheduler_ok n s \<Longrightarrow> scheduler_ok n s'"
  by (induction rule: rtranclp_induct) (auto intro: step_ok)

text \<open>C39: A thread that has exited means that there is nothing left to do: the schedule is empty, no thread works
  on an instance, and it stays so, so no scheduled instance is ever abandoned.\<close>

theorem exit_means_quiescent:
  assumes "(step n)\<^sup>*\<^sup>* (init_scheduler is) s" "h < n" "threads s h = Exited" "(step n)\<^sup>*\<^sup>* s s'"
  shows "scheduled (schedule s') [] \<and> workers n (threads s') = {} \<and> threads s' h = Exited"
proof -
  have "threads s' h = Exited"
    using assms(4,3) by (induction rule: rtranclp_induct) (auto elim!: step.cases)
  moreover have "scheduler_ok n s'" by (rule steps_ok[OF assms(4) steps_ok[OF assms(1) init_ok]])
  ultimately show ?thesis using assms(2) by (auto simp: scheduler_ok_def)
qed

text \<open>One thread that executes the only instance, which schedules itself again while it is executed.\<close>

lemma one_instance:
  "\<exists>s. (step 1)\<^sup>*\<^sup>* (init_scheduler [7]) s \<and> threads s 0 = Exited"
proof -
  define nx where "nx = (next_info empty_schedule)(7 := End)"
  define sch where "sch l t k = \<lparr>schedule = \<lparr>next_info = (if l then nx else next_info empty_schedule),
    first = (if l then To 7 else Null), last_cell = (if l then Next_Cell 7 else Head_Cell), pending = k\<rparr>,
    threads = (\<lambda>_. Looking)(0 := t)\<rparr>" for l t and k :: nat
  note defs = sch_def nx_def empty_schedule_def push_info_def pop_info_def write_tail_def
  have start: "init_scheduler [7] = sch True Looking 0" by (simp add: defs init_scheduler_def Let_def fun_eq_iff)
  have take: "step 1 (sch True Looking 0) (sch False (Working 7) 1)"
    using step.take[of 0 1 "sch True Looking 0" 7 "schedule (sch False Looking 0)"] by (simp add: defs fun_eq_iff)
  have push: "step 1 (sch False (Working 7) 1) (sch True (Working 7) 1)"
    using step.push[of 0 1 "sch False (Working 7) 1" 7 7] by (simp add: defs Let_def)
  have finish: "step 1 (sch True (Working 7) 1) (sch True Looking 0)"
    "step 1 (sch False (Working 7) 1) (sch False Looking 0)"
    using step.finish[of 0 1 "sch True (Working 7) 1" 7] step.finish[of 0 1 "sch False (Working 7) 1" 7]
    by (simp_all add: defs)
  have exit: "step 1 (sch False Looking 0) (sch False Exited 0)"
    using step.exit[of 0 1 "sch False Looking 0"] by (simp add: defs)
  have "(step 1)\<^sup>*\<^sup>* (sch True Looking 0) (sch False Exited 0)"
    using take push finish take exit by (meson converse_rtranclp_into_rtranclp rtranclp.rtrancl_refl)
  then show ?thesis unfolding start by (intro exI[of _ "sch False Exited 0"]) (simp add: sch_def)
qed

theorem exit_means_quiescent_witness:
  "\<exists>s. (step 1)\<^sup>*\<^sup>* (init_scheduler [7]) s \<and> threads s 0 = Exited \<and> scheduled (schedule s) []"
proof -
  obtain s where s: "(step 1)\<^sup>*\<^sup>* (init_scheduler [7]) s" "threads s 0 = Exited" using one_instance by blast
  have "scheduled (schedule s) [] \<and> workers 1 (threads s) = {} \<and> threads s 0 = Exited"
    by (rule exit_means_quiescent[OF s(1) _ s(2)]) simp_all
  then show ?thesis using s by blast
qed

end
