(* ===== verification/Access.thy ===== *)
theory Access
  imports Ast
begin

text \<open>
  The receiver access of getters, actions and reactions (compute_receiver_access.cpp and the overrides in
  semantic.cpp): a bottom-up pass over the syntax tree that finds out whether a body reads or
  writes the component it belongs to.  The result decides how the schedulers lock it.
\<close>

section \<open>Types that contain pointers\<close>

text \<open>Type::contains_pointer and its overrides; the fuel bounds the nesting of types.\<close>

fun contains_pointer :: "tenv \<Rightarrow> nat \<Rightarrow> ty \<Rightarrow> bool outcome" where
  "contains_pointer env 0 t = Inl Out_of_fuel"
| "contains_pointer env (Suc n) t =
     (case underlying_type env t of
        Basic s \<Rightarrow> Inr (s = String \<or> s = FileDescriptor)
      | Struct c i fs \<Rightarrow>
          ofold (\<lambda>found f. if found then Inr True else contains_pointer env n (ftype f)) fs False
      | Array b d \<Rightarrow> contains_pointer env n b
      | Heap b \<Rightarrow> contains_pointer env n b
      | Pointer b \<Rightarrow> Inr True
      | Slice b \<Rightarrow> Inr True
      | _ \<Rightarrow> Inr False)"

text \<open>The test made of an expression and of a parameter: a mutable pointer to the state may escape.\<close>

definition leaks :: "tenv \<Rightarrow> nat \<Rightarrow> bool \<Rightarrow> ty \<Rightarrow> mutability \<Rightarrow> bool outcome" where
  "leaks env n state t indirection =
     (if state then obind (contains_pointer env n t) (\<lambda>p. Inr (p \<and> indirection = Mutable)) else Inr False)"

section \<open>Expressions\<close>

text \<open>receiver_state and receiver_access of an expression.\<close>

type_synonym result = "bool \<times> receiver_access"

definition list_access :: "result list \<Rightarrow> receiver_access" where
  "list_access rs = foldl (\<lambda>a r. max a (snd r)) AccessNone rs"

text \<open>compute_receiver_access_arguments; \<open>at\<close> beyond the parameters throws, which ends the program.\<close>

fun arguments_access ::
  "tenv \<Rightarrow> nat \<Rightarrow> result list \<Rightarrow> parameter list \<Rightarrow> receiver_access \<times> bool \<Rightarrow> (receiver_access \<times> bool) outcome"
where
  "arguments_access env n [] ps acc = Inr acc"
| "arguments_access env n (r # rs) [] acc = Inl Assertion_failed"
| "arguments_access env n ((state, access) # rs) (p # ps) (a, flag) =
     obind (leaks env n state (ptype p) (pindirection p)) (\<lambda>l.
       arguments_access env n rs ps (if l then (max (max a access) AccessWrite, True) else (max a access, flag)))"

text \<open>The overrides of the predeclared polymorphic functions.\<close>

fun builtin_access :: "builtin \<Rightarrow> result list \<Rightarrow> (receiver_access \<times> bool) outcome" where
  "builtin_access New rs = Inr (AccessNone, False)"
| "builtin_access Move rs = Inr (list_access rs, False)"
| "builtin_access Merge rs = Inr (list_access rs, False)"
| "builtin_access Copy rs = Inr (list_access rs, False)"
| "builtin_access Println rs = Inr (list_access rs, False)"
| "builtin_access Len rs = Inl Unimplemented"
| "builtin_access Append rs = Inl Unimplemented"

definition target_access :: "tenv \<Rightarrow> nat \<Rightarrow> call_target \<Rightarrow> result list \<Rightarrow> (receiver_access \<times> bool) outcome" where
  "target_access env n target rs =
     (case target of
        Polymorphic b \<Rightarrow> builtin_access b rs
      | Callable ps _ \<Rightarrow> arguments_access env n rs (parameters ps) (AccessNone, False))"

text \<open>The rest of the visit of a call: its receiver and what it returns.\<close>

definition call_access :: "tenv \<Rightarrow> nat \<Rightarrow> eval \<Rightarrow> call_target \<Rightarrow> result \<Rightarrow> result list \<Rightarrow> result outcome" where
  "call_access env n ev target f rs =
     obind (target_access env n target rs) (\<lambda>(access, flag).
     obind (case target of
              Callable _ (Some p) \<Rightarrow> leaks env n (fst f) (ptype p) (pindirection p)
            | _ \<Rightarrow> Inr False) (\<lambda>escapes.
     obind (if eval_kind ev \<noteq> VoidExpressionKind then contains_pointer env n (eval_type ev) else Inr False) (\<lambda>p.
       Inr (p \<and> eval_indirection ev = Mutable \<and> flag,
            if escapes then AccessWrite else max access (snd f)))))"

fun eval_of :: "expr \<Rightarrow> eval" where
  "eval_of (AddressOf ev e) = ev"
| "eval_of (Conversion ev e) = ev"
| "eval_of (Call ev target f args) = ev"
| "eval_of (IdentifierExpression ev k) = ev"
| "eval_of (Literal ev) = ev"
| "eval_of (UnaryArithmetic ev e) = ev"
| "eval_of (BinaryArithmetic ev l r) = ev"
| "eval_of (Select ev e) = ev"
| "eval_of (PushPortCall ev args) = ev"
| "eval_of (IndexedPushPortCall ev i args) = ev"
| "eval_of (TypeExpression ev) = ev"
| "eval_of (Dereference ev e) = ev"
| "eval_of (Index ev b i) = ev"
| "eval_of (IndexSlice ev b l h m) = ev"
| "eval_of (EmptyExpression ev) = ev"

definition is_receiver :: "parameter_kind option \<Rightarrow> bool" where
  "is_receiver k \<longleftrightarrow> k = Some Receiver \<or> k = Some Receiver_Duplicate"

fun expr_access :: "tenv \<Rightarrow> nat \<Rightarrow> expr \<Rightarrow> result outcome"
  and exprs_access :: "tenv \<Rightarrow> nat \<Rightarrow> expr list \<Rightarrow> result list outcome"
  and bound_access :: "tenv \<Rightarrow> nat \<Rightarrow> expr option \<Rightarrow> receiver_access \<Rightarrow> receiver_access outcome"
where
  "expr_access env n (AddressOf ev e) = expr_access env n e"
| "expr_access env n (Conversion ev e) = expr_access env n e"
| "expr_access env n (Call ev target f args) =
     (if eval_kind (eval_of f) = UnknownExpressionKind then Inl Assertion_failed
      else if eval_kind (eval_of f) = TypeExpressionKind then
        obind (exprs_access env n args) (\<lambda>rs. case rs of [] \<Rightarrow> Inl Assertion_failed | r # _ \<Rightarrow> Inr r)
      else
        obind (expr_access env n f) (\<lambda>rf.
        obind (exprs_access env n args) (\<lambda>rs. call_access env n ev target rf rs)))"
| "expr_access env n (IdentifierExpression ev k) =
     Inr (if is_receiver k then (True, AccessRead) else (False, AccessNone))"
| "expr_access env n (Literal ev) = Inr (False, AccessNone)"
| "expr_access env n (UnaryArithmetic ev e) = obind (expr_access env n e) (\<lambda>(s, a). Inr (False, a))"
| "expr_access env n (BinaryArithmetic ev l r) =
     obind (expr_access env n l) (\<lambda>(s, a). obind (expr_access env n r) (\<lambda>(s', b). Inr (False, max a b)))"
| "expr_access env n (Select ev e) = expr_access env n e"
| "expr_access env n (PushPortCall ev args) =
     obind (exprs_access env n args) (\<lambda>rs. Inr (False, list_access rs))"
| "expr_access env n (IndexedPushPortCall ev i args) =
     obind (expr_access env n i) (\<lambda>_.
     obind (exprs_access env n args) (\<lambda>rs. Inr (False, list_access rs)))"
| "expr_access env n (TypeExpression ev) = Inr (False, AccessNone)"
| "expr_access env n (Dereference ev e) = expr_access env n e"
| "expr_access env n (Index ev b i) =
     obind (expr_access env n b) (\<lambda>(s, a). obind (expr_access env n i) (\<lambda>(s', b). Inr (s, max a b)))"
| "expr_access env n (IndexSlice ev b l h m) =
     obind (expr_access env n b) (\<lambda>(s, a).
     obind (bound_access env n l a) (\<lambda>a.
     obind (bound_access env n h a) (\<lambda>a.
     obind (bound_access env n m a) (\<lambda>a. Inr (s, a)))))"
| "expr_access env n (EmptyExpression ev) = Inl Not_reached"
| "exprs_access env n [] = Inr []"
| "exprs_access env n (e # es) =
     obind (expr_access env n e) (\<lambda>r. obind (exprs_access env n es) (\<lambda>rs. Inr (r # rs)))"
| "bound_access env n None a = Inr a"
| "bound_access env n (Some e) a = obind (expr_access env n e) (\<lambda>(s, b). Inr (max a b))"

section \<open>Statements\<close>

text \<open>
  The access of a statement and the mutable_phase_access of the activations in it, in the order of
  the visit.  The condition of a loop or an if is visited, but its access is not used.
\<close>

fun stmt_access :: "tenv \<Rightarrow> nat \<Rightarrow> stmt \<Rightarrow> (receiver_access \<times> receiver_access list) outcome"
  and stmts_access :: "tenv \<Rightarrow> nat \<Rightarrow> stmt list \<Rightarrow> (receiver_access \<times> receiver_access list) outcome"
where
  "stmt_access env n EmptyStatement = Inr (AccessNone, [])"
| "stmt_access env n ConstDecl = Inr (AccessNone, [])"
| "stmt_access env n TypeDecl = Inr (AccessNone, [])"
| "stmt_access env n (ExpressionStatement e) = obind (expr_access env n e) (\<lambda>(s, a). Inr (a, []))"
| "stmt_access env n (Var vs es) = obind (exprs_access env n es) (\<lambda>rs. Inr (list_access rs, []))"
| "stmt_access env n (Assign l r) =
     obind (expr_access env n l) (\<lambda>(ls, la).
     obind (expr_access env n r) (\<lambda>(rs, ra).
       if ls then Inr (AccessWrite, [])
       else obind (leaks env n rs (eval_type (eval_of r)) (eval_indirection (eval_of r))) (\<lambda>escapes.
         Inr (if escapes then AccessWrite else max la ra, []))))"
| "stmt_access env n (AddAssign l r) =
     obind (expr_access env n l) (\<lambda>(ls, la).
     obind (expr_access env n r) (\<lambda>(rs, ra). Inr (if ls then AccessWrite else max la ra, [])))"
| "stmt_access env n (SubtractAssign l r) = Inl Not_reached"
| "stmt_access env n (IncrementDecrement e) =
     obind (expr_access env n e) (\<lambda>(s, a). Inr (if s then AccessWrite else a, []))"
| "stmt_access env n (ReturnStatement e) = obind (expr_access env n e) (\<lambda>(s, a). Inr (a, []))"
| "stmt_access env n (StatementList ss) = stmts_access env n ss"
| "stmt_access env n (IfStatement before c t f) =
     obind (stmt_access env n before) (\<lambda>(a0, k0).
     obind (expr_access env n c) (\<lambda>_.
     obind (stmt_access env n t) (\<lambda>(a1, k1).
     obind (stmt_access env n f) (\<lambda>(a2, k2). Inr (max (max a0 a1) a2, k0 @ k1 @ k2)))))"
| "stmt_access env n (While c b) =
     obind (expr_access env n c) (\<lambda>_. stmt_access env n b)"
| "stmt_access env n (Change e v b) =
     obind (expr_access env n e) (\<lambda>(s, a).
     obind (stmt_access env n b) (\<lambda>(b, k). Inr (max a b, k)))"
| "stmt_access env n (ForIota v e b) = Inl Not_reached"
| "stmt_access env n (Activate es b) =
     obind (exprs_access env n es) (\<lambda>rs.
     obind (stmt_access env n b) (\<lambda>(a, k). Inr (list_access rs, k @ [a])))"
| "stmt_access env n BindPushPort = Inl Not_reached"
| "stmt_access env n BindPushPortParameter = Inl Not_reached"
| "stmt_access env n BindPullPort = Inl Not_reached"
| "stmts_access env n [] = Inr (AccessNone, [])"
| "stmts_access env n (s # ss) =
     obind (stmt_access env n s) (\<lambda>(a, k).
     obind (stmts_access env n ss) (\<lambda>(b, l). Inr (max a b, k @ l)))"

section \<open>Declarations\<close>

text \<open>The accesses stored for a getter or reaction, and for an action with its precondition.\<close>

definition body_access :: "tenv \<Rightarrow> nat \<Rightarrow> stmt \<Rightarrow> (receiver_access \<times> receiver_access list) outcome" where
  "body_access env n b = stmt_access env n b"

definition action_access ::
  "tenv \<Rightarrow> nat \<Rightarrow> expr \<Rightarrow> stmt \<Rightarrow> (receiver_access \<times> receiver_access \<times> receiver_access list) outcome"
where
  "action_access env n precondition body =
     obind (expr_access env n precondition) (\<lambda>(s, a).
     obind (stmt_access env n body) (\<lambda>(b, k). Inr (a, b, k)))"

section \<open>What an access is\<close>

text \<open>
  The uses of the receiver in a body, read off its syntax and not off the results of the pass.  A use
  is a read, where the receiver is named, or a write: an assignment to a place that belongs to the receiver, or
  a mutable pointer into it that is handed to someone else.  It has a position: the pass ignores
  three of them, the condition of a loop or an if, the index of an indexed port call and the
  arguments of new.
\<close>

datatype position = Counted | In_Condition | In_Port_Index | In_New

type_synonym use = "position \<times> receiver_access"

definition mutable_pointer :: "tenv \<Rightarrow> nat \<Rightarrow> ty \<Rightarrow> mutability \<Rightarrow> bool" where
  "mutable_pointer env n t m \<longleftrightarrow> m = Mutable \<and> contains_pointer env n t = Inr True"

text \<open>
  The value or place belongs to the receiver: the receiver itself, what its pointers lead to, its
  fields, elements, slices and addresses, a conversion of these, and the mutable pointer that a function returns to
  which such a pointer was handed.
\<close>

fun rooted :: "tenv \<Rightarrow> nat \<Rightarrow> expr \<Rightarrow> bool"
  and hands_over :: "tenv \<Rightarrow> nat \<Rightarrow> expr list \<Rightarrow> parameter list \<Rightarrow> bool"
where
  "rooted env n (IdentifierExpression ev k) = is_receiver k"
| "rooted env n (AddressOf ev e) = rooted env n e"
| "rooted env n (Conversion ev e) = rooted env n e"
| "rooted env n (Select ev e) = rooted env n e"
| "rooted env n (Dereference ev e) = rooted env n e"
| "rooted env n (Index ev b i) = rooted env n b"
| "rooted env n (IndexSlice ev b l h m) = rooted env n b"
| "rooted env n (Call ev target f args) =
     (if eval_kind (eval_of f) = TypeExpressionKind then (case args of [] \<Rightarrow> False | e # _ \<Rightarrow> rooted env n e)
      else eval_kind ev \<noteq> VoidExpressionKind \<and> mutable_pointer env n (eval_type ev) (eval_indirection ev) \<and>
        (case target of Callable ps _ \<Rightarrow> hands_over env n args (parameters ps) | Polymorphic b \<Rightarrow> False))"
| "rooted env n _ = False"
| "hands_over env n (e # es) (p # ps) \<longleftrightarrow>
     rooted env n e \<and> mutable_pointer env n (ptype p) (pindirection p) \<or> hands_over env n es ps"
| "hands_over env n _ _ = False"

definition write_if :: "bool \<Rightarrow> use list" where
  "write_if b = (if b then [(Counted, AccessWrite)] else [])"

definition moved_to :: "position \<Rightarrow> use list \<Rightarrow> use list" where
  "moved_to p us = map (\<lambda>(q, a). (p, a)) us"

fun expr_uses :: "tenv \<Rightarrow> nat \<Rightarrow> expr \<Rightarrow> use list"
  and exprs_uses :: "tenv \<Rightarrow> nat \<Rightarrow> expr list \<Rightarrow> use list"
  and option_uses :: "tenv \<Rightarrow> nat \<Rightarrow> expr option \<Rightarrow> use list"
where
  "expr_uses env n (AddressOf ev e) = expr_uses env n e"
| "expr_uses env n (Conversion ev e) = expr_uses env n e"
| "expr_uses env n (Call ev target f args) =
     (if eval_kind (eval_of f) = TypeExpressionKind then (case args of [] \<Rightarrow> [] | e # _ \<Rightarrow> expr_uses env n e)
      else expr_uses env n f @
        (case target of
           Polymorphic b \<Rightarrow> (if b = New then moved_to In_New (exprs_uses env n args) else exprs_uses env n args)
         | Callable ps receiver \<Rightarrow>
             exprs_uses env n args @ write_if (hands_over env n args (parameters ps)) @
             (case receiver of None \<Rightarrow> []
              | Some p \<Rightarrow> write_if (rooted env n f \<and> mutable_pointer env n (ptype p) (pindirection p)))))"
| "expr_uses env n (IdentifierExpression ev k) = (if is_receiver k then [(Counted, AccessRead)] else [])"
| "expr_uses env n (Literal ev) = []"
| "expr_uses env n (UnaryArithmetic ev e) = expr_uses env n e"
| "expr_uses env n (BinaryArithmetic ev l r) = expr_uses env n l @ expr_uses env n r"
| "expr_uses env n (Select ev e) = expr_uses env n e"
| "expr_uses env n (PushPortCall ev args) = exprs_uses env n args"
| "expr_uses env n (IndexedPushPortCall ev i args) =
     moved_to In_Port_Index (expr_uses env n i) @ exprs_uses env n args"
| "expr_uses env n (TypeExpression ev) = []"
| "expr_uses env n (Dereference ev e) = expr_uses env n e"
| "expr_uses env n (Index ev b i) = expr_uses env n b @ expr_uses env n i"
| "expr_uses env n (IndexSlice ev b l h m) =
     expr_uses env n b @ option_uses env n l @ option_uses env n h @ option_uses env n m"
| "expr_uses env n (EmptyExpression ev) = []"
| "exprs_uses env n [] = []"
| "exprs_uses env n (e # es) = expr_uses env n e @ exprs_uses env n es"
| "option_uses env n None = []"
| "option_uses env n (Some e) = expr_uses env n e"

text \<open>The uses of a statement; the body of an activation is a phase of its own.\<close>

fun stmt_uses :: "tenv \<Rightarrow> nat \<Rightarrow> stmt \<Rightarrow> use list" and stmts_uses :: "tenv \<Rightarrow> nat \<Rightarrow> stmt list \<Rightarrow> use list" where
  "stmt_uses env n (ExpressionStatement e) = expr_uses env n e"
| "stmt_uses env n (Var vs es) = exprs_uses env n es"
| "stmt_uses env n (Assign l r) =
     expr_uses env n l @ expr_uses env n r @ write_if (rooted env n l) @
     write_if (rooted env n r \<and> mutable_pointer env n (eval_type (eval_of r)) (eval_indirection (eval_of r)))"
| "stmt_uses env n (AddAssign l r) = expr_uses env n l @ expr_uses env n r @ write_if (rooted env n l)"
| "stmt_uses env n (SubtractAssign l r) = expr_uses env n l @ expr_uses env n r @ write_if (rooted env n l)"
| "stmt_uses env n (IncrementDecrement e) = expr_uses env n e @ write_if (rooted env n e)"
| "stmt_uses env n (ReturnStatement e) = expr_uses env n e"
| "stmt_uses env n (StatementList ss) = stmts_uses env n ss"
| "stmt_uses env n (IfStatement before c t f) =
     stmt_uses env n before @ moved_to In_Condition (expr_uses env n c) @ stmt_uses env n t @ stmt_uses env n f"
| "stmt_uses env n (While c b) = moved_to In_Condition (expr_uses env n c) @ stmt_uses env n b"
| "stmt_uses env n (Change e v b) = expr_uses env n e @ stmt_uses env n b"
| "stmt_uses env n (ForIota v e b) = expr_uses env n e @ stmt_uses env n b"
| "stmt_uses env n (Activate es b) = exprs_uses env n es"
| "stmt_uses env n _ = []"
| "stmts_uses env n [] = []"
| "stmts_uses env n (s # ss) = stmt_uses env n s @ stmts_uses env n ss"

text \<open>The bodies of the activations, in the order of the visit.\<close>

fun activations :: "stmt \<Rightarrow> stmt list" and activations_list :: "stmt list \<Rightarrow> stmt list" where
  "activations (StatementList ss) = activations_list ss"
| "activations (IfStatement before c t f) = activations before @ activations t @ activations f"
| "activations (While c b) = activations b"
| "activations (Change e v b) = activations b"
| "activations (Activate es b) = activations b @ [b]"
| "activations _ = []"
| "activations_list [] = []"
| "activations_list (s # ss) = activations s @ activations_list ss"

text \<open>The strongest of the uses that count.\<close>

definition strongest :: "use list \<Rightarrow> receiver_access" where
  "strongest us = foldr (\<lambda>(p, a) m. if p = Counted then max a m else m) us AccessNone"

lemma strongest_simps [simp]:
  "strongest [] = AccessNone"
  "strongest ((p, a) # us) = (if p = Counted then max a (strongest us) else strongest us)"
  by (simp_all add: strongest_def)

lemma max_none_left [simp]: "max AccessNone a = a" "max a AccessNone = a"
  by (cases a; simp add: max_def less_eq_receiver_access_def)+

lemma write_max [simp]: "max AccessWrite a = AccessWrite" "max a AccessWrite = AccessWrite"
  by (cases a; simp add: max_def less_eq_receiver_access_def)+

lemma strongest_append [simp]: "strongest (us @ vs) = max (strongest us) (strongest vs)"
  by (induction us) (auto simp: max.assoc)

lemma strongest_moved [simp]: "p \<noteq> Counted \<Longrightarrow> strongest (moved_to p us) = AccessNone"
  by (induction us) (auto simp: moved_to_def)

lemma strongest_write_if [simp]: "strongest (write_if b) = (if b then AccessWrite else AccessNone)"
  by (simp add: write_if_def)

lemma max_write_iff [simp]: "max a b = AccessWrite \<longleftrightarrow> a = AccessWrite \<or> b = AccessWrite"
  by (cases a; cases b) (simp_all add: max_def less_eq_receiver_access_def)

lemma max_none [simp]: "max a b = AccessNone \<longleftrightarrow> a = AccessNone \<and> b = AccessNone"
  by (cases a; cases b) (simp_all add: max_def less_eq_receiver_access_def)

lemma strongest_write: "strongest us = AccessWrite \<longleftrightarrow> (Counted, AccessWrite) \<in> set us"
  by (induction us) (auto split: if_splits)

lemma strongest_none: "strongest us = AccessNone \<longleftrightarrow> (\<forall>a. (Counted, a) \<in> set us \<longrightarrow> a = AccessNone)"
  by (induction us) (auto split: if_splits)

section \<open>What the pass finds\<close>

lemma list_access_from: "foldl (\<lambda>a r. max a (snd r)) a rs = max a (list_access rs)"
proof -
  have "foldl (\<lambda>a r. max a (snd r)) (max b c) rs = max b (foldl (\<lambda>a r. max a (snd r)) c rs)" for b c
    by (induction rs arbitrary: b c) (simp_all add: max.assoc)
  from this[of a AccessNone] show ?thesis by (simp add: list_access_def)
qed

lemma list_access_simps [simp]: "list_access [] = AccessNone" "list_access (r # rs) = max (snd r) (list_access rs)"
  using list_access_from[of "snd r" rs] by (simp_all add: list_access_def)

lemma leaks_iff: "leaks env n s t m = Inr l \<Longrightarrow> l \<longleftrightarrow> s \<and> mutable_pointer env n t m"
  by (auto simp: leaks_def mutable_pointer_def outcome_simps split: if_splits)

text \<open>A result is the right one for an expression.\<close>

definition result_ok :: "tenv \<Rightarrow> nat \<Rightarrow> expr \<Rightarrow> result \<Rightarrow> bool" where
  "result_ok env n e r \<longleftrightarrow> r = (rooted env n e, strongest (expr_uses env n e))"

lemma results_access:
  "list_all2 (result_ok env n) es rs \<Longrightarrow> list_access rs = strongest (exprs_uses env n es)"
  by (induction rule: list_all2_induct) (auto simp: result_ok_def)

lemma arguments_access_uses:
  "arguments_access env n rs ps (a, fl) = Inr (b, fl') \<Longrightarrow> list_all2 (result_ok env n) es rs \<Longrightarrow>
     b = max a (max (strongest (exprs_uses env n es)) (if hands_over env n es ps then AccessWrite else AccessNone)) \<and>
     fl' = (fl \<or> hands_over env n es ps)"
proof (induction env n rs ps "(a, fl)" arbitrary: a fl es rule: arguments_access.induct)
  case (1 env n ps a fl)
  then show ?case by simp
next
  case (2 env n r rs a fl)
  then show ?case by simp
next
  case (3 env n state access rs p ps a fl)
  obtain e es' where e: "es = e # es'" "result_ok env n e (state, access)" "list_all2 (result_ok env n) es' rs"
    using "3.prems"(2) by (cases es) auto
  obtain l where l: "leaks env n state (ptype p) (pindirection p) = Inr l"
    "arguments_access env n rs ps (if l then (max (max a access) AccessWrite, True) else (max a access, fl)) = Inr (b, fl')"
    using "3.prems"(1) by (auto simp: outcome_simps)
  obtain a2 fl2 where q: "(if l then (max (max a access) AccessWrite, True) else (max a access, fl)) = (a2, fl2)"
    by (cases l) auto
  note IH = "3.hyps"[OF l(1) q l(2)[unfolded q] e(3)]
  have "l \<longleftrightarrow> rooted env n e \<and> mutable_pointer env n (ptype p) (pindirection p)"
    using leaks_iff[OF l(1)] e(2) by (simp add: result_ok_def)
  then show ?case using IH q e(1,2) by (cases l) (auto simp: result_ok_def max.assoc)
qed

lemma builtin_access_uses:
  "builtin_access b rs = Inr (a, fl) \<Longrightarrow> list_all2 (result_ok env n) es rs \<Longrightarrow>
     a = strongest (if b = New then moved_to In_New (exprs_uses env n es) else exprs_uses env n es) \<and> \<not> fl"
  by (cases b) (auto simp: results_access)

lemma call_access_uses:
  assumes c: "call_access env n ev target rf rs = Inr r"
    and f: "result_ok env n f rf" "list_all2 (result_ok env n) args rs"
    and k: "eval_kind (eval_of f) \<noteq> TypeExpressionKind"
  shows "result_ok env n (Call ev target f args) r"
proof -
  obtain b fl x p where t: "target_access env n target rs = Inr (b, fl)"
    and x: "(case target of Callable _ (Some p) \<Rightarrow> leaks env n (fst rf) (ptype p) (pindirection p) | _ \<Rightarrow> Inr False) = Inr x"
    and p: "(if eval_kind ev \<noteq> VoidExpressionKind then contains_pointer env n (eval_type ev) else Inr False) = Inr p"
    and r: "r = (p \<and> eval_indirection ev = Mutable \<and> fl, if x then AccessWrite else max b (snd rf))"
    using c by (auto simp: call_access_def outcome_simps)
  have mp: "p \<and> eval_indirection ev = Mutable \<longleftrightarrow>
      eval_kind ev \<noteq> VoidExpressionKind \<and> mutable_pointer env n (eval_type ev) (eval_indirection ev)"
    using p by (auto simp: mutable_pointer_def split: if_splits)
  show ?thesis
  proof (cases target)
    case (Polymorphic q)
    have "b = strongest (if q = New then moved_to In_New (exprs_uses env n args) else exprs_uses env n args)" "\<not> fl"
      using builtin_access_uses[OF _ f(2)] t Polymorphic by (auto simp: target_access_def)
    then show ?thesis using x k r f(1) Polymorphic by (auto simp: result_ok_def max.commute)
  next
    case (Callable ps rcv)
    have b: "b = max (strongest (exprs_uses env n args))
        (if hands_over env n args (parameters ps) then AccessWrite else AccessNone)"
      "fl = hands_over env n args (parameters ps)"
      using arguments_access_uses[of env n rs "parameters ps" AccessNone False b fl, OF _ f(2)] t Callable
      by (simp_all add: target_access_def)
    have x': "x \<longleftrightarrow> (\<exists>q. rcv = Some q \<and> rooted env n f \<and> mutable_pointer env n (ptype q) (pindirection q))"
      using x leaks_iff f(1) Callable by (auto simp: result_ok_def split: option.splits)
    show ?thesis
      using x' b k r f(1) mp Callable
      by (cases rcv) (auto simp: result_ok_def max.commute max.left_commute max.assoc)
  qed
qed

lemma access_uses:
  "expr_access env n e = Inr r \<Longrightarrow> result_ok env n e r"
  "exprs_access env n es = Inr rs \<Longrightarrow> list_all2 (result_ok env n) es rs"
  "bound_access env n oe a = Inr b \<Longrightarrow> b = max a (strongest (option_uses env n oe))"
proof (induction env n e and env n es and env n oe a arbitrary: r and rs and b
    rule: expr_access_exprs_access_bound_access.induct)
  case (3 env n ev target f args)
  have k: "eval_kind (eval_of f) \<noteq> UnknownExpressionKind" using "3.prems" by auto
  show ?case
  proof (cases "eval_kind (eval_of f) = TypeExpressionKind")
    case True
    obtain rs where rs: "exprs_access env n args = Inr rs"
      and hd: "(case rs of [] \<Rightarrow> Inl Assertion_failed | r # _ \<Rightarrow> Inr r) = Inr r"
      using "3.prems" True by (auto simp: outcome_simps)
    have "list_all2 (result_ok env n) args rs" by (rule "3.IH"(1)[OF k True rs])
    then show ?thesis using True hd by (cases args; cases rs) (auto simp: result_ok_def)
  next
    case False
    obtain rf rs where rf: "expr_access env n f = Inr rf" and rs: "exprs_access env n args = Inr rs"
      and c: "call_access env n ev target rf rs = Inr r"
      using "3.prems" k False by (auto simp: outcome_simps)
    show ?thesis
      by (rule call_access_uses[OF c "3.IH"(2)[OF k False rf] "3.IH"(3)[OF k False rf rs] False])
  qed
next
  case (9 env n ev args)
  then show ?case using results_access by (fastforce simp: outcome_simps result_ok_def)
next
  case (10 env n ev i args)
  then show ?case using results_access by (fastforce simp: outcome_simps result_ok_def)
next
  case (14 env n ev b l h m)
  obtain s a0 a1 a2 a3 where b: "expr_access env n b = Inr (s, a0)" "bound_access env n l a0 = Inr a1"
    "bound_access env n h a1 = Inr a2" "bound_access env n m a2 = Inr a3" "r = (s, a3)"
    using "14.prems" by (auto simp: outcome_simps)
  show ?case
    using "14.IH"(1)[OF b(1)] "14.IH"(2)[OF b(1) refl b(2)] "14.IH"(3)[OF b(1) refl b(2,3)]
      "14.IH"(4)[OF b(1) refl b(2-4)] b(5)
    by (simp add: result_ok_def max.assoc)
qed (auto simp: outcome_simps result_ok_def max.assoc)

lemma list_uses: "exprs_access env n es = Inr rs \<Longrightarrow> list_access rs = strongest (exprs_uses env n es)"
  by (rule results_access[OF access_uses(2)])

definition access_ok :: "tenv \<Rightarrow> nat \<Rightarrow> stmt \<Rightarrow> receiver_access \<Rightarrow> bool" where
  "access_ok env n s a \<longleftrightarrow> a = strongest (stmt_uses env n s)"

lemma expr_use: "expr_access env n e = Inr (s, a) \<Longrightarrow> s = rooted env n e \<and> a = strongest (expr_uses env n e)"
  using access_uses(1)[of env n e "(s, a)"] by (simp add: result_ok_def)

lemma statement_access:
  "stmt_access env n s = Inr (a, k) \<Longrightarrow>
     access_ok env n s a \<and> list_all2 (access_ok env n) (activations s) k"
  "stmts_access env n ss = Inr (a, k) \<Longrightarrow>
     access_ok env n (StatementList ss) a \<and> list_all2 (access_ok env n) (activations_list ss) k"
proof (induction env n s and env n ss arbitrary: a k and a k rule: stmt_access_stmts_access.induct)
  case (6 env n l r)
  obtain ls la rs ra where l: "expr_access env n l = Inr (ls, la)" and r: "expr_access env n r = Inr (rs, ra)"
    using "6.prems" by (auto simp: outcome_simps)
  show ?case
  proof (cases ls)
    case True
    then show ?thesis using "6.prems" l r expr_use[OF l] by (simp add: access_ok_def)
  next
    case False
    obtain e where e: "leaks env n rs (eval_type (eval_of r)) (eval_indirection (eval_of r)) = Inr e"
      and a: "a = (if e then AccessWrite else max la ra)" "k = []"
      using "6.prems" l r False by (auto simp: outcome_simps)
    show ?thesis using False a leaks_iff[OF e] expr_use[OF l] expr_use[OF r] by (auto simp: access_ok_def)
  qed
next
  case (4 env n e)
  then obtain st where "expr_access env n e = Inr (st, a)" "k = []" by (auto simp: outcome_simps)
  then show ?case using expr_use by (simp add: access_ok_def)
next
  case (5 env n vs es)
  then obtain rs where "exprs_access env n es = Inr rs" "a = list_access rs" "k = []" by (auto simp: outcome_simps)
  then show ?case using list_uses by (simp add: access_ok_def)
next
  case (7 env n l r)
  obtain ls la rs ra where l: "expr_access env n l = Inr (ls, la)" and r: "expr_access env n r = Inr (rs, ra)"
    and a: "a = (if ls then AccessWrite else max la ra)" "k = []"
    using "7.prems" by (auto simp: outcome_simps)
  show ?case using a expr_use[OF l] expr_use[OF r] by (auto simp: access_ok_def)
next
  case (9 env n e)
  then obtain st b where e: "expr_access env n e = Inr (st, b)" and a: "a = (if st then AccessWrite else b)" "k = []"
    by (auto simp: outcome_simps)
  then show ?case using expr_use[OF e] by (auto simp: access_ok_def)
next
  case (10 env n e)
  then obtain st where "expr_access env n e = Inr (st, a)" "k = []" by (auto simp: outcome_simps)
  then show ?case using expr_use by (simp add: access_ok_def)
next
  case (12 env n before c t f)
  obtain a0 k0 rc a1 k1 a2 k2 where s: "stmt_access env n before = Inr (a0, k0)" and c: "expr_access env n c = Inr rc"
    and t: "stmt_access env n t = Inr (a1, k1)" and f: "stmt_access env n f = Inr (a2, k2)"
    and a: "a = max (max a0 a1) a2" "k = k0 @ k1 @ k2"
    using "12.prems" by (auto simp: outcome_simps)
  note IH = "12.IH"(1)[OF s] "12.IH"(2)[OF s refl c t] "12.IH"(3)[OF s refl c t refl f]
  have "list_all2 (access_ok env n) (activations (IfStatement before c t f)) k"
    unfolding a(2) activations.simps using IH by (intro list_all2_appendI) auto
  moreover have "access_ok env n (IfStatement before c t f) a"
    using conjunct1[OF IH(1)] conjunct1[OF IH(2)] conjunct1[OF IH(3)] a(1) by (auto simp: access_ok_def max.assoc)
  ultimately show ?case by blast
next
  case (13 env n c b)
  then show ?case by (auto simp: outcome_simps access_ok_def)
next
  case (14 env n e v b)
  obtain st a0 b0 where e: "expr_access env n e = Inr (st, a0)" and b: "stmt_access env n b = Inr (b0, k)"
    and a: "a = max a0 b0" using "14.prems" by (auto simp: outcome_simps)
  show ?case using "14.IH"[OF e refl b] expr_use[OF e] a by (auto simp: access_ok_def)
next
  case (16 env n es b)
  obtain rs b0 l where e: "exprs_access env n es = Inr rs" and b: "stmt_access env n b = Inr (b0, l)"
    and a: "a = list_access rs" "k = l @ [b0]" using "16.prems" by (auto simp: outcome_simps)
  note IH = "16.IH"[OF e b]
  have "list_all2 (access_ok env n) (activations b @ [b]) (l @ [b0])"
    using IH by (intro list_all2_appendI) auto
  moreover have "access_ok env n (Activate es b) a" using list_uses[OF e] a(1) by (simp add: access_ok_def)
  ultimately show ?case using a(2) by simp
next
  case (21 env n s ss)
  obtain a0 k0 a1 k1 where s: "stmt_access env n s = Inr (a0, k0)" and ss: "stmts_access env n ss = Inr (a1, k1)"
    and a: "a = max a0 a1" "k = k0 @ k1" using "21.prems" by (auto simp: outcome_simps)
  note IH = "21.IH"(1)[OF s] "21.IH"(2)[OF s refl ss]
  have "list_all2 (access_ok env n) (activations s @ activations_list ss) (k0 @ k1)"
    using IH by (intro list_all2_appendI) auto
  moreover have "access_ok env n (StatementList (s # ss)) a"
    using conjunct1[OF IH(1)] conjunct1[OF IH(2)] a(1) by (auto simp: access_ok_def)
  ultimately show ?case using a(2) by simp
qed (simp_all add: access_ok_def)

text \<open>Expressions and statements the pass can visit: no len or append, no loop over an index range, no subtraction
  in place, no bindings.\<close>

fun supported :: "expr \<Rightarrow> bool" and supported_all :: "expr list \<Rightarrow> bool" and supported_option :: "expr option \<Rightarrow> bool" where
  "supported (AddressOf ev e) = supported e"
| "supported (Conversion ev e) = supported e"
| "supported (Call ev target f args) \<longleftrightarrow>
     supported_all args \<and>
     (eval_kind (eval_of f) = TypeExpressionKind \<or>
      supported f \<and> target \<noteq> Polymorphic Len \<and> target \<noteq> Polymorphic Append)"
| "supported (UnaryArithmetic ev e) = supported e"
| "supported (BinaryArithmetic ev l r) \<longleftrightarrow> supported l \<and> supported r"
| "supported (Select ev e) = supported e"
| "supported (PushPortCall ev args) = supported_all args"
| "supported (IndexedPushPortCall ev i args) \<longleftrightarrow> supported i \<and> supported_all args"
| "supported (Dereference ev e) = supported e"
| "supported (Index ev b i) \<longleftrightarrow> supported b \<and> supported i"
| "supported (IndexSlice ev b l h m) \<longleftrightarrow>
     supported b \<and> supported_option l \<and> supported_option h \<and> supported_option m"
| "supported (EmptyExpression ev) = False"
| "supported _ = True"
| "supported_all [] = True"
| "supported_all (e # es) \<longleftrightarrow> supported e \<and> supported_all es"
| "supported_option None = True"
| "supported_option (Some e) = supported e"

fun stmt_supported :: "stmt \<Rightarrow> bool" and stmts_supported :: "stmt list \<Rightarrow> bool" where
  "stmt_supported (ExpressionStatement e) = supported e"
| "stmt_supported (Var vs es) = supported_all es"
| "stmt_supported (Assign l r) \<longleftrightarrow> supported l \<and> supported r"
| "stmt_supported (AddAssign l r) \<longleftrightarrow> supported l \<and> supported r"
| "stmt_supported (SubtractAssign l r) = False"
| "stmt_supported (IncrementDecrement e) = supported e"
| "stmt_supported (ReturnStatement e) = supported e"
| "stmt_supported (StatementList ss) = stmts_supported ss"
| "stmt_supported (IfStatement before c t f) \<longleftrightarrow>
     stmt_supported before \<and> supported c \<and> stmt_supported t \<and> stmt_supported f"
| "stmt_supported (While c b) \<longleftrightarrow> supported c \<and> stmt_supported b"
| "stmt_supported (Change e v b) \<longleftrightarrow> supported e \<and> stmt_supported b"
| "stmt_supported (ForIota v e b) = False"
| "stmt_supported (Activate es b) \<longleftrightarrow> supported_all es \<and> stmt_supported b"
| "stmt_supported BindPushPort = False"
| "stmt_supported BindPushPortParameter = False"
| "stmt_supported BindPullPort = False"
| "stmt_supported _ = True"
| "stmts_supported [] = True"
| "stmts_supported (s # ss) \<longleftrightarrow> stmt_supported s \<and> stmts_supported ss"

lemma call_supported: "call_access env n ev target rf rs = Inr r \<Longrightarrow>
    target \<noteq> Polymorphic Len \<and> target \<noteq> Polymorphic Append"
  by (auto simp: call_access_def target_access_def outcome_simps)

lemma access_supported:
  "expr_access env n e = Inr r \<Longrightarrow> supported e"
  "exprs_access env n es = Inr rs \<Longrightarrow> supported_all es"
  "bound_access env n oe a = Inr b \<Longrightarrow> supported_option oe"
proof (induction env n e and env n es and env n oe a arbitrary: r and rs and b
    rule: expr_access_exprs_access_bound_access.induct)
  case (3 env n ev target f args)
  have k: "eval_kind (eval_of f) \<noteq> UnknownExpressionKind" using "3.prems" by auto
  show ?case
  proof (cases "eval_kind (eval_of f) = TypeExpressionKind")
    case True
    then show ?thesis using "3.prems" "3.IH"(1)[OF k True] by (auto simp: outcome_simps)
  next
    case False
    obtain rf rs where rf: "expr_access env n f = Inr rf" and rs: "exprs_access env n args = Inr rs"
      and c: "call_access env n ev target rf rs = Inr r"
      using "3.prems" k False by (auto simp: outcome_simps)
    show ?thesis using "3.IH"(2)[OF k False rf] "3.IH"(3)[OF k False rf rs] call_supported[OF c] by simp
  qed
qed (auto simp: outcome_simps)

lemma statement_supported:
  "stmt_access env n s = Inr r \<Longrightarrow> stmt_supported s"
  "stmts_access env n ss = Inr r \<Longrightarrow> stmts_supported ss"
proof (induction env n s and env n ss arbitrary: r and r rule: stmt_access_stmts_access.induct)
  case (6 env n l r)
  then show ?case using access_supported(1) by (fastforce simp: outcome_simps)
qed (fastforce simp: outcome_simps dest: access_supported)+

text \<open>
  The access is the right one for a list of uses: write exactly when one that counts is a write, none exactly when
  none counts.
\<close>

definition access_for :: "use list \<Rightarrow> receiver_access \<Rightarrow> bool" where
  "access_for us a \<longleftrightarrow> (a = AccessWrite \<longleftrightarrow> (Counted, AccessWrite) \<in> set us) \<and>
     (a = AccessNone \<longleftrightarrow> Counted \<notin> fst ` set us)"

definition no_empty :: "use list \<Rightarrow> bool" where
  "no_empty us \<longleftrightarrow> (\<forall>u \<in> set us. snd u \<noteq> AccessNone)"

lemma no_empty_simps [simp]:
  "no_empty []" "no_empty ((p, a) # us) \<longleftrightarrow> a \<noteq> AccessNone \<and> no_empty us"
  "no_empty (us @ vs) \<longleftrightarrow> no_empty us \<and> no_empty vs" "no_empty (moved_to p us) \<longleftrightarrow> no_empty us"
  "no_empty (write_if c)"
  by (auto simp: no_empty_def moved_to_def write_if_def)

lemma uses_are_accesses:
  "no_empty (expr_uses env n e)" "no_empty (exprs_uses env n es)" "no_empty (option_uses env n oe)"
  by (induction env n e and env n es and env n oe rule: expr_uses_exprs_uses_option_uses.induct)
    (auto split: list.splits call_target.splits option.splits)

lemma stmt_uses_are_accesses: "no_empty (stmt_uses env n s)" "no_empty (stmts_uses env n ss)"
  by (induction env n s and env n ss rule: stmt_uses_stmts_uses.induct) (simp_all add: uses_are_accesses)

lemma strongest_access_for: "access_for (stmt_uses env n s) (strongest (stmt_uses env n s))"
  using stmt_uses_are_accesses(1)[of env n s]
  by (force simp: access_for_def no_empty_def strongest_write strongest_none)


text \<open>A body that calls len or append, loops over an index range or subtracts in place is never analysed: the
  compiler aborts instead of reporting an error.\<close>

theorem unsupported_body_aborts:
  assumes "\<not> stmt_supported b"
  shows "\<not> returns (body_access env n b)"
  using statement_supported(1)[of env n b] assms by (auto simp: returns_def body_access_def)

text \<open>What the condition of a loop reads is lost: a loop is given the access of its body, even when its condition
  reads the receiver.\<close>

theorem condition_access_is_lost:
  assumes "body_access env n (While c b) = Inr (a, k)"
  shows "body_access env n b = Inr (a, k) \<and>
    (\<forall>x \<in> snd ` set (expr_uses env n c). (In_Condition, x) \<in> set (stmt_uses env n (While c b)))"
proof -
  obtain r where "expr_access env n c = Inr r" "stmt_access env n b = Inr (a, k)"
    using assms by (auto simp: body_access_def outcome_simps)
  then show ?thesis by (force simp: body_access_def moved_to_def)
qed

section \<open>Samples\<close>

definition sample_eval :: eval where
  "sample_eval = \<lparr>eval_kind = VariableExpressionKind, eval_type = Basic Bool, eval_indirection = Immutable\<rparr>"

text \<open>A part of the receiver, as in \<open>this->flag\<close>.\<close>

definition receiver_part :: expr where
  "receiver_part = Select sample_eval (Dereference sample_eval (IdentifierExpression sample_eval (Some Receiver)))"

text \<open>A body that reads the receiver and activates a phase that writes it.\<close>

definition sample_body :: stmt where
  "sample_body = StatementList
     [Var [] [receiver_part],
      Activate [] (StatementList [Assign receiver_part (Literal sample_eval)])]"


text \<open>The three positions that do not count: the receiver is used, and no access is recorded.\<close>

lemma positions_not_counted:
  "body_access (\<lambda>_. Basic Bool) 1 (While receiver_part EmptyStatement) = Inr (AccessNone, [])"
  "body_access (\<lambda>_. Basic Bool) 1
     (ExpressionStatement (IndexedPushPortCall sample_eval receiver_part [])) = Inr (AccessNone, [])"
  "body_access (\<lambda>_. Basic Bool) 1
     (Var [] [Call sample_eval (Polymorphic New) (Literal sample_eval) [receiver_part]]) = Inr (AccessNone, [])"
  by code_simp+

text \<open>
  A variable initialized with a mutable pointer into the receiver: unlike in an assignment, the pointer that escapes
  does not make the access a write, and a write through the variable is none of the receiver's.
\<close>

definition receiver_pointer :: expr where
  "receiver_pointer = AddressOf \<lparr>eval_kind = ValueExpressionKind, eval_type = Pointer (Basic Bool),
     eval_indirection = Mutable\<rparr> receiver_part"

lemma initializer_escapes:
  "body_access (\<lambda>_. Basic Bool) 1 (StatementList
     [Var [Variable_Symbol 0 (Pointer (Basic Bool))] [receiver_pointer],
      Assign (Dereference sample_eval (IdentifierExpression sample_eval None)) (Literal sample_eval)]) =
   Inr (AccessRead, [])"
  "body_access (\<lambda>_. Basic Bool) 1 (StatementList
     [Assign (IdentifierExpression sample_eval None) receiver_pointer,
      Assign (Dereference sample_eval (IdentifierExpression sample_eval None)) (Literal sample_eval)]) =
   Inr (AccessWrite, [])"
  by code_simp+

theorem unsupported_body_aborts_witness:
  "\<not> returns (body_access (\<lambda>_. Basic Bool) 1
     (ExpressionStatement (Call sample_eval (Polymorphic Len) (Literal sample_eval) [receiver_part])))"
  by (rule unsupported_body_aborts) (simp add: sample_eval_def)

theorem condition_access_is_lost_witness:
  "body_access (\<lambda>_. Basic Bool) 1 (While receiver_part EmptyStatement) = Inr (AccessNone, []) \<and>
   (In_Condition, AccessRead) \<in> set (stmt_uses (\<lambda>_. Basic Bool) 1 (While receiver_part EmptyStatement))"
proof -
  have w: "body_access (\<lambda>_. Basic Bool) 1 (While receiver_part EmptyStatement) = Inr (AccessNone, [])" by code_simp
  have "expr_uses (\<lambda>_. Basic Bool) 1 receiver_part = [(Counted, AccessRead)]" by code_simp
  then show ?thesis using condition_access_is_lost[OF w] w by simp
qed

end
