(* ===== verification/Scalar.thy ===== *)
theory Scalar
  imports Types "HOL-Library.Signed_Division"
begin

text \<open>
  The scalar values of the run-time system: the C++ types behind the integer and boolean kinds, their
  bytes in memory, the conversions between them and the function objects of semantic.hpp
  (Multiplier, Adder, ...) with the C++ rules: operands narrower than int are promoted to int,
  unsigned arithmetic wraps, and an overflow of signed arithmetic, a division by zero and a shift by
  the width or more are undefined behaviour.
\<close>

section \<open>Integer and boolean types\<close>

text \<open>An integer type is given by its bytes and its signedness.\<close>

datatype scalar = Int_Scalar nat bool | Bool_Scalar

fun scalar_of :: "singleton \<Rightarrow> scalar option" where
  "scalar_of Bool = Some Bool_Scalar"
| "scalar_of Uint8 = Some (Int_Scalar 1 False)"
| "scalar_of Uint16 = Some (Int_Scalar 2 False)"
| "scalar_of Uint32 = Some (Int_Scalar 4 False)"
| "scalar_of Uint64 = Some (Int_Scalar 8 False)"
| "scalar_of Int8 = Some (Int_Scalar 1 True)"
| "scalar_of Int16 = Some (Int_Scalar 2 True)"
| "scalar_of Int32 = Some (Int_Scalar 4 True)"
| "scalar_of Int64 = Some (Int_Scalar 8 True)"
| "scalar_of Uint = Some (Int_Scalar 8 False)"
| "scalar_of Intt = Some (Int_Scalar 8 True)"
| "scalar_of Uintptr = Some (Int_Scalar 8 False)"
| "scalar_of _ = None"

fun scalar_size :: "scalar \<Rightarrow> nat" where
  "scalar_size (Int_Scalar n s) = n"
| "scalar_size Bool_Scalar = 1"

text \<open>Conversion of a mathematical integer to a type.\<close>

fun wrap :: "scalar \<Rightarrow> int \<Rightarrow> int" where
  "wrap (Int_Scalar n s) i = (if s then signed_take_bit (8 * n - 1) i else take_bit (8 * n) i)"
| "wrap Bool_Scalar i = of_bool (i \<noteq> 0)"

fun promote :: "scalar \<Rightarrow> scalar" where
  "promote (Int_Scalar n s) = (if n < 4 then Int_Scalar 4 True else Int_Scalar n s)"
| "promote Bool_Scalar = Int_Scalar 4 True"

fun is_signed :: "scalar \<Rightarrow> bool" where
  "is_signed (Int_Scalar n s) = s"
| "is_signed Bool_Scalar = False"

text \<open>The bytes of a value, and the value of some bytes.\<close>

definition scalar_bytes :: "scalar \<Rightarrow> int \<Rightarrow> 8 word list" where
  "scalar_bytes t i = le_bytes (scalar_size t) (word_of_int i)"

definition scalar_value :: "scalar \<Rightarrow> 8 word list \<Rightarrow> int" where
  "scalar_value t bs = wrap t (uint (le_word bs))"

definition scalar_ok :: "scalar \<Rightarrow> bool" where
  "scalar_ok t \<longleftrightarrow> 0 < scalar_size t \<and> scalar_size t \<le> 8"

lemma scalar_of_ok: "scalar_of k = Some t \<Longrightarrow> scalar_ok t"
  by (elim scalar_of.elims) (auto simp: scalar_ok_def)

lemma length_scalar_bytes [simp]: "length (scalar_bytes t i) = scalar_size t"
  by (simp add: scalar_bytes_def)

lemma signed_of_unsigned: "0 < n \<Longrightarrow> signed_take_bit (8 * n - 1) (take_bit (8 * n) i) = signed_take_bit (8 * n - 1) (i :: int)"
proof -
  assume "0 < n"
  then have "\<not> 8 * n \<le> 8 * n - 1" by linarith
  then show ?thesis by (simp add: signed_take_bit_take_bit)
qed

lemma scalar_roundtrip:
  assumes "scalar_ok t" "wrap t i = i"
  shows "scalar_value t (scalar_bytes t i) = i"
proof (cases t)
  case (Int_Scalar n s)
  have n: "0 < n" "8 * n \<le> 64" using assms(1) by (simp_all add: scalar_ok_def Int_Scalar)
  have u: "uint (le_word (le_bytes n (word_of_int i))) = take_bit (8 * n) i"
    using n(2) by (simp add: le_word_bytes unsigned_take_bit_eq unsigned_of_int take_bit_take_bit min_def)
  show ?thesis
    using assms(2) n(1) u signed_of_unsigned[of n i]
    by (cases s) (simp_all add: Int_Scalar scalar_value_def scalar_bytes_def)
next
  case Bool_Scalar
  have "i = of_bool (i \<noteq> 0)" using assms(2) by (simp add: Bool_Scalar)
  then have "i = 0 \<or> i = 1" by (cases "i = 0") simp_all
  then show ?thesis
    by (auto simp: Bool_Scalar scalar_value_def scalar_bytes_def le_word_bytes numeral_eq_Suc)
qed

lemma wrap_idem: "wrap t (wrap t i) = wrap t i"
  by (cases t) auto

section \<open>Function objects\<close>

datatype fobject =
    Multiplier | Divider | Modulizer | BitAnder | BitAndNotter | Adder | Subtracter | BitOrer | BitXorer
  | Equalizer | NotEqualizer | LessThaner | LessEqualizer | MoreThaner | MoreEqualizer

fun is_comparison :: "fobject \<Rightarrow> bool" where
  "is_comparison Equalizer = True"
| "is_comparison NotEqualizer = True"
| "is_comparison LessThaner = True"
| "is_comparison LessEqualizer = True"
| "is_comparison MoreThaner = True"
| "is_comparison MoreEqualizer = True"
| "is_comparison _ = False"

text \<open>The mathematical result; a comparison gives 0 or 1.\<close>

fun fobject_value :: "fobject \<Rightarrow> int \<Rightarrow> int \<Rightarrow> int outcome" where
  "fobject_value Multiplier x y = Inr (x * y)"
| "fobject_value Divider x y = (if y = 0 then Inl Undefined_behaviour else Inr (x sdiv y))"
| "fobject_value Modulizer x y = (if y = 0 then Inl Undefined_behaviour else Inr (x smod y))"
| "fobject_value BitAnder x y = Inr (x AND y)"
| "fobject_value BitAndNotter x y = Inr (x AND NOT y)"
| "fobject_value Adder x y = Inr (x + y)"
| "fobject_value Subtracter x y = Inr (x - y)"
| "fobject_value BitOrer x y = Inr (x OR y)"
| "fobject_value BitXorer x y = Inr (x XOR y)"
| "fobject_value Equalizer x y = Inr (of_bool (x = y))"
| "fobject_value NotEqualizer x y = Inr (of_bool (x \<noteq> y))"
| "fobject_value LessThaner x y = Inr (of_bool (x < y))"
| "fobject_value LessEqualizer x y = Inr (of_bool (x \<le> y))"
| "fobject_value MoreThaner x y = Inr (of_bool (x > y))"
| "fobject_value MoreEqualizer x y = Inr (of_bool (x \<ge> y))"

text \<open>A result in the promoted type, where signed overflow is an error, brought to type \<open>t\<close>.\<close>

definition in_promoted :: "scalar \<Rightarrow> int \<Rightarrow> int outcome" where
  "in_promoted t r =
     (if is_signed (promote t) \<and> wrap (promote t) r \<noteq> r then Inl Undefined_behaviour else Inr (wrap t r))"

definition apply_fobject :: "scalar \<Rightarrow> fobject \<Rightarrow> int \<Rightarrow> int \<Rightarrow> int outcome" where
  "apply_fobject t f x y =
     obind (fobject_value f x y) (\<lambda>r. if is_comparison f then Inr r else in_promoted t r)"

text \<open>LeftShifter and RightShifter; the right operand is an unsigned long.\<close>

definition apply_shift :: "scalar \<Rightarrow> bool \<Rightarrow> int \<Rightarrow> int \<Rightarrow> int outcome" where
  "apply_shift t left x y =
     (if int (8 * scalar_size (promote t)) \<le> y then Inl Undefined_behaviour
      else Inr (wrap t (if left then push_bit (nat y) x else drop_bit (nat y) x)))"

text \<open>The type of the result of a function object.\<close>

definition result_scalar :: "scalar \<Rightarrow> fobject \<Rightarrow> scalar" where
  "result_scalar t f = (if is_comparison f then Bool_Scalar else t)"

lemma apply_fobject_wrapped:
  "apply_fobject t f x y = Inr r \<Longrightarrow> wrap (result_scalar t f) r = r"
  by (cases f) (auto simp: apply_fobject_def in_promoted_def result_scalar_def wrap_idem outcome_simps split: if_splits)

lemma apply_shift_wrapped: "apply_shift t l x y = Inr r \<Longrightarrow> wrap t r = r"
  by (auto simp: apply_shift_def wrap_idem split: if_splits)

text \<open>Unsigned arithmetic of 32 bits or more is arithmetic modulo two to the width.\<close>

lemma unsigned_fobject:
  "4 \<le> n \<Longrightarrow> \<not> is_comparison f \<Longrightarrow> apply_fobject (Int_Scalar n False) f x y =
     map_sum id (take_bit (8 * n)) (fobject_value f x y)"
  by (cases "fobject_value f x y") (simp_all add: apply_fobject_def in_promoted_def)

text \<open>Signed arithmetic that stays in range is exact.\<close>

lemma signed_fobject_exact:
  assumes "fobject_value f x y = Inr r" "wrap (Int_Scalar n True) r = r" "4 \<le> n" "\<not> is_comparison f"
  shows "apply_fobject (Int_Scalar n True) f x y = Inr r"
  using assms by (simp add: apply_fobject_def in_promoted_def)

end
