(* ===== verification/Machine.thy ===== *)
theory Machine
  imports Stack Scalar HeapAlloc
begin

text \<open>
  The state an executor works on (ExecutorBase of executor_base.hpp): its stack, the memory outside the
  stack, the base pointer of the last frame of the mutable phase, the current component and its heap.
  Addresses are integers.  The field \<open>live_frames\<close> is not in the code: it lists the base pointers of the frames on
  the stack, so that a store through a pointer, or through an offset from the base pointer, that hits
  the two control words of a frame (the instruction pointer below the base pointer and the saved base
  pointer at it) is the undefined behaviour it is in C++, where it writes outside of every
  object of the program.  \<open>history\<close> is not in the code either: it records what the executor did in order.
\<close>

section \<open>State\<close>

datatype event =
    Printed ty "8 word list"
  | Scheduled int
  | Activated int int
  | Deferred int int

record machine =
  the_stack :: stack
  the_memory :: memory
  live_frames :: "int list"
  phase_pointer :: int
  current_info :: int
  info_heap :: "int \<Rightarrow> heap_state"
  allocations :: nat
  history :: "event list"

abbreviation tos :: "machine \<Rightarrow> int" where
  "tos m \<equiv> stack_top (the_stack m)"

abbreviation bp :: "machine \<Rightarrow> int" where
  "bp m \<equiv> base_pointer (the_stack m)"

section \<open>Stack and memory\<close>

definition on_stack :: "(stack \<Rightarrow> stack outcome) \<Rightarrow> machine \<Rightarrow> machine outcome" where
  "on_stack f m = obind (f (the_stack m)) (\<lambda>st. Inr (m\<lparr>the_stack := st\<rparr>))"

definition taking :: "(stack \<Rightarrow> ('a \<times> stack) outcome) \<Rightarrow> machine \<Rightarrow> ('a \<times> machine) outcome" where
  "taking f m = obind (f (the_stack m)) (\<lambda>(x, st). Inr (x, m\<lparr>the_stack := st\<rparr>))"

text \<open>The templates push and pop of stack.hpp for a value of a given number of bytes.\<close>

definition push_value :: "8 word list \<Rightarrow> machine \<Rightarrow> machine outcome" where
  "push_value bs = on_stack (\<lambda>st. stack_load st bs)"

definition pop_value :: "nat \<Rightarrow> machine \<Rightarrow> (8 word list \<times> machine) outcome" where
  "pop_value n = taking (\<lambda>st. stack_store st n)"

definition push_ptr :: "int \<Rightarrow> machine \<Rightarrow> machine outcome" where
  "push_ptr p = on_stack (\<lambda>st. push_pointer st p)"

definition pop_ptr :: "machine \<Rightarrow> (int \<times> machine) outcome" where
  "pop_ptr = taking pop_pointer"

definition push_scalar :: "scalar \<Rightarrow> int \<Rightarrow> machine \<Rightarrow> machine outcome" where
  "push_scalar t i = push_value (scalar_bytes t i)"

definition pop_scalar :: "scalar \<Rightarrow> machine \<Rightarrow> (int \<times> machine) outcome" where
  "pop_scalar t m = obind (pop_value (scalar_size t) m) (\<lambda>(bs, m'). Inr (scalar_value t bs, m'))"

text \<open>The control words of a frame, and the stores that would hit those of a live frame.\<close>

definition control_words :: "machine \<Rightarrow> int \<Rightarrow> 8 word list outcome" where
  "control_words m f = read_mem (the_stack m) (f - 8) 16"

definition hits_control :: "machine \<Rightarrow> int \<Rightarrow> nat \<Rightarrow> bool" where
  "hits_control m p n \<longleftrightarrow> list_ex (\<lambda>f. p < f + 8 \<and> f - 8 < p + int n) (live_frames m)"

definition inside_stack :: "machine \<Rightarrow> int \<Rightarrow> nat \<Rightarrow> bool" where
  "inside_stack m p n \<longleftrightarrow> stack_data (the_stack m) \<le> p \<and> p + int n \<le> stack_limit (the_stack m)"

definition outside_stack :: "machine \<Rightarrow> int \<Rightarrow> nat \<Rightarrow> bool" where
  "outside_stack m p n \<longleftrightarrow> 0 < p \<and> (p + int n \<le> stack_data (the_stack m) \<or> stack_limit (the_stack m) \<le> p)"

text \<open>memcpy to and from an address: null pointers and ranges across the end of the stack are errors.\<close>

definition store_at :: "int \<Rightarrow> 8 word list \<Rightarrow> machine \<Rightarrow> machine outcome" where
  "store_at p bs m =
     (if bs = [] then Inr m
      else if hits_control m p (length bs) then Inl Undefined_behaviour
      else if inside_stack m p (length bs) then on_stack (\<lambda>st. write_mem st p bs) m
      else if outside_stack m p (length bs) then
        Inr (m\<lparr>the_memory := (\<lambda>a. if p \<le> int a \<and> int a < p + int (length bs) then bs ! nat (int a - p)
                                else the_memory m a)\<rparr>)
      else Inl Undefined_behaviour)"

definition load_from :: "int \<Rightarrow> nat \<Rightarrow> machine \<Rightarrow> 8 word list outcome" where
  "load_from p n m =
     (if n = 0 then Inr []
      else if inside_stack m p n then read_mem (the_stack m) p n
      else if outside_stack m p n then Inr (map (the_memory m) [nat p ..< nat p + n])
      else Inl Undefined_behaviour)"

definition load_pointer :: "int \<Rightarrow> machine \<Rightarrow> int outcome" where
  "load_pointer p m = obind (load_from p 8 m) (\<lambda>bs. Inr (uint (le_word bs)))"

text \<open>Stores at an offset from the base pointer: Stack::move and Stack::clear.\<close>

definition move_value :: "int \<Rightarrow> nat \<Rightarrow> machine \<Rightarrow> machine outcome" where
  "move_value off n m =
     (if hits_control m (bp m + off) n then Inl Undefined_behaviour
      else on_stack (\<lambda>st. stack_move st off n) m)"

definition clear_value :: "int \<Rightarrow> 64 word \<Rightarrow> machine \<Rightarrow> machine outcome" where
  "clear_value off sz m =
     (if hits_control m (bp m + off) (nat (aligned_size sz)) then Inl Undefined_behaviour
      else on_stack (\<lambda>st. stack_clear st off sz) m)"

section \<open>Frames\<close>

definition enter_frame :: "64 word \<Rightarrow> machine \<Rightarrow> machine outcome" where
  "enter_frame sz m =
     obind (on_stack (\<lambda>st. stack_setup st sz) m) (\<lambda>m'. Inr (m'\<lparr>live_frames := tos m # live_frames m'\<rparr>))"

definition leave_frame :: "machine \<Rightarrow> machine outcome" where
  "leave_frame m =
     obind (on_stack stack_teardown m)
       (\<lambda>m'. Inr (m'\<lparr>live_frames := filter (\<lambda>f. f + 8 \<le> bp m) (live_frames m')\<rparr>))"

text \<open>The saved base pointer and the instruction pointer of a frame.\<close>

definition saved_pointer :: "machine \<Rightarrow> int \<Rightarrow> int outcome" where
  "saved_pointer m f = obind (read_mem (the_stack m) f 8) (\<lambda>bs. Inr (uint (le_word bs)))"

definition instruction_pointer :: "machine \<Rightarrow> int \<Rightarrow> int outcome" where
  "instruction_pointer m f = obind (read_mem (the_stack m) (f - 8) 8) (\<lambda>bs. Inr (uint (le_word bs)))"

definition write_control :: "int \<Rightarrow> int \<Rightarrow> machine \<Rightarrow> machine outcome" where
  "write_control p x = on_stack (\<lambda>st. write_mem st p (le_bytes 8 (word_of_int x)))"

section \<open>Slices and strings\<close>

record slice =
  slice_ptr :: int
  slice_length :: int
  slice_capacity :: int

definition slice_of :: "8 word list \<Rightarrow> slice" where
  "slice_of bs =
     \<lparr>slice_ptr = uint (le_word (take 8 bs)), slice_length = uint (le_word (take 8 (drop 8 bs))),
      slice_capacity = uint (le_word (take 8 (drop 16 bs)))\<rparr>"

definition slice_bytes :: "slice \<Rightarrow> 8 word list" where
  "slice_bytes s =
     le_bytes 8 (word_of_int (slice_ptr s)) @ le_bytes 8 (word_of_int (slice_length s)) @
     le_bytes 8 (word_of_int (slice_capacity s))"

definition string_of :: "8 word list \<Rightarrow> int \<times> int" where
  "string_of bs = (uint (le_word (take 8 bs)), uint (le_word (take 8 (drop 8 bs))))"

definition string_bytes :: "int \<Rightarrow> int \<Rightarrow> 8 word list" where
  "string_bytes p n = le_bytes 8 (word_of_int p) @ le_bytes 8 (word_of_int n)"

lemma length_slice_bytes [simp]: "length (slice_bytes s) = 24"
  by (simp add: slice_bytes_def)

lemma length_string_bytes [simp]: "length (string_bytes p n) = 16"
  by (simp add: string_bytes_def)

definition word_sized :: "int \<Rightarrow> bool" where
  "word_sized i \<longleftrightarrow> 0 \<le> i \<and> i < 2 ^ 64"

lemma slice_roundtrip:
  "word_sized (slice_ptr s) \<Longrightarrow> word_sized (slice_length s) \<Longrightarrow> word_sized (slice_capacity s) \<Longrightarrow>
     slice_of (slice_bytes s) = s"
  by (simp add: slice_of_def slice_bytes_def word_sized_def uint_word_of_int)

text \<open>Heap::allocate on the heap of the current component, which a call outside of any component does not have; a request for
  nothing returns NULL.\<close>

definition allocate :: "(nat \<Rightarrow> nat) \<Rightarrow> nat \<Rightarrow> machine \<Rightarrow> (int \<times> machine) outcome" where
  "allocate storage sz m =
     (if current_info m = 0 then Inl Undefined_behaviour
      else
        obind (heap_allocate (info_heap m (current_info m)) (the_memory m) (storage (allocations m)) sz)
          (\<lambda>(p, h, mem). Inr (case p of None \<Rightarrow> 0 | Some q \<Rightarrow> int q,
             m\<lparr>the_memory := mem, info_heap := (info_heap m)(current_info m := h), allocations := allocations m + 1\<rparr>)))"

section \<open>What the operations preserve\<close>

text \<open>
  The stack is well-formed and every live frame lies below \<open>b\<close>; what a computation leaves alone; and a
  computation from \<open>m0\<close> that has pushed \<open>k\<close> bytes above \<open>b\<close> so far.
\<close>

definition settled :: "int \<Rightarrow> machine \<Rightarrow> bool" where
  "settled b m \<longleftrightarrow> stack_wf (the_stack m) \<and> stack_data (the_stack m) \<le> b \<and> b \<le> tos m \<and>
     (\<forall>f \<in> set (live_frames m). stack_data (the_stack m) + 8 \<le> f \<and> f + 8 \<le> b \<and>
        8 dvd (f - stack_data (the_stack m))) \<and>
     sorted_wrt (\<lambda>f g. g + 16 \<le> f) (live_frames m)"

fun is_phase :: "event \<Rightarrow> bool" where
  "is_phase (Activated f b) = True"
| "is_phase (Deferred f b) = True"
| "is_phase _ = False"

definition phases :: "machine \<Rightarrow> event list" where
  "phases m = filter is_phase (history m)"

definition keeps :: "machine \<Rightarrow> machine \<Rightarrow> bool" where
  "keeps m m' \<longleftrightarrow> bp m' = bp m \<and> stack_data (the_stack m') = stack_data (the_stack m) \<and>
     length (stack_mem (the_stack m')) = length (stack_mem (the_stack m)) \<and>
     live_frames m' = live_frames m \<and> phase_pointer m' = phase_pointer m \<and> phases m' = phases m \<and>
     (\<forall>f \<in> set (live_frames m). control_words m' f = control_words m f)"

definition grown :: "int \<Rightarrow> int \<Rightarrow> machine \<Rightarrow> machine \<Rightarrow> bool" where
  "grown b k m0 m \<longleftrightarrow> settled b m \<and> keeps m0 m \<and> tos m = b + k \<and> 0 \<le> k"

lemma keeps_refl [simp]: "keeps m m"
  by (simp add: keeps_def)

lemma keeps_trans: "keeps m m' \<Longrightarrow> keeps m' m'' \<Longrightarrow> keeps m m''"
  by (simp add: keeps_def)

lemma settled_self: "settled b m \<Longrightarrow> settled (tos m) m"
  by (auto simp: settled_def)

lemma grown_start: "settled (tos m) m \<Longrightarrow> grown (tos m) 0 m m"
  by (simp add: grown_def)

lemma grown_ready: "grown b k m0 m \<Longrightarrow> settled (tos m) m"
  unfolding grown_def by (metis settled_self)

lemma grown_trans:
  assumes "grown b k m0 m" "grown (tos m) n m m'"
  shows "grown b (k + n) m0 m'"
proof -
  have "live_frames m' = live_frames m" using assms(2) by (simp add: grown_def keeps_def)
  moreover have "stack_data (the_stack m') = stack_data (the_stack m)" using assms(2) by (simp add: grown_def keeps_def)
  ultimately have "settled b m'" using assms by (auto simp: grown_def settled_def)
  then show ?thesis using assms keeps_trans[of m0 m m'] by (simp add: grown_def)
qed

text \<open>A step that changes the stack only above \<open>b\<close> and outside the control words.\<close>

lemma grown_step:
  assumes g: "grown b k m0 m" and wf: "stack_wf st"
    and same: "base_pointer st = bp m" "stack_data st = stack_data (the_stack m)"
      "length (stack_mem st) = length (stack_mem (the_stack m))"
    and words: "\<And>f. f \<in> set (live_frames m) \<Longrightarrow> read_mem st (f - 8) 16 = read_mem (the_stack m) (f - 8) 16"
    and top: "stack_top st = b + k'" "0 \<le> k'"
  shows "grown b k' m0 (m\<lparr>the_stack := st\<rparr>)"
proof -
  have "keeps m (m\<lparr>the_stack := st\<rparr>)"
    using same words by (simp add: keeps_def phases_def control_words_def)
  then have "keeps m0 (m\<lparr>the_stack := st\<rparr>)" using g keeps_trans by (auto simp: grown_def)
  then show ?thesis using g wf same top by (simp add: grown_def settled_def)
qed

lemma grown_pushes:
  assumes g: "grown b k m0 m" and p: "pushes (the_stack m) st s bs"
  shows "grown b (k + s) m0 (m\<lparr>the_stack := st\<rparr>)"
proof (rule grown_step[OF g])
  have m: "stack_wf (the_stack m)" "\<And>f. f \<in> set (live_frames m) \<Longrightarrow> f + 8 \<le> tos m" "tos m = b + k" "0 \<le> k"
    using g by (auto simp: grown_def settled_def)
  show "stack_wf st" by (rule pushes_wf[OF m(1) p])
  have s: "same_below (tos m) (the_stack m) st" using p by (simp add: pushes_def)
  show "read_mem st (f - 8) 16 = read_mem (the_stack m) (f - 8) 16" if "f \<in> set (live_frames m)" for f
    by (rule read_mem_same_below[OF s]) (use m(2)[OF that] in simp)
  show "base_pointer st = bp m" "stack_data st = stack_data (the_stack m)"
    "length (stack_mem st) = length (stack_mem (the_stack m))" "stack_top st = b + (k + s)" "0 \<le> k + s"
    using p m(3,4) by (auto simp: pushes_def same_below_def)
qed

lemma grown_lower:
  assumes g: "grown b k m0 m" and s: "0 \<le> s" "8 dvd s" "s \<le> k"
  shows "grown b (k - s) m0 (m\<lparr>the_stack := (the_stack m)\<lparr>stack_top := tos m - s\<rparr>\<rparr>)"
proof (rule grown_step[OF g])
  have m: "stack_wf (the_stack m)" "tos m = b + k" "stack_data (the_stack m) \<le> b"
    using g by (auto simp: grown_def settled_def)
  show "stack_wf ((the_stack m)\<lparr>stack_top := tos m - s\<rparr>)"
    by (rule wf_lower_top[OF m(1) s(1,2)]) (use m s in simp)
qed (use g s in \<open>simp_all add: grown_def\<close>)

lemma grown_write:
  assumes g: "grown b k m0 m" and w: "write_mem (the_stack m) p bs = Inr st" and h: "\<not> hits_control m p (length bs)"
  shows "grown b k m0 (m\<lparr>the_stack := st\<rparr>)"
proof (rule grown_step[OF g])
  note ws = write_mem_simps[OF w]
  show "stack_wf st" using g write_mem_wf[OF _ w] by (simp add: grown_def settled_def)
  show "read_mem st (f - 8) 16 = read_mem (the_stack m) (f - 8) 16" if f: "f \<in> set (live_frames m)" for f
  proof -
    let ?d = "stack_data (the_stack m)"
    have out: "f + 8 \<le> p \<or> p + int (length bs) \<le> f - 8"
      using h f by (auto simp: hits_control_def list_ex_iff)
    have "stretch (stack_mem st) (nat (f - 8 - ?d)) 16 = stretch (stack_mem (the_stack m)) (nat (f - 8 - ?d)) 16"
      if "?d \<le> f - 8" "f - 8 + 16 \<le> stack_limit (the_stack m)"
      unfolding ws(8)
      by (rule stretch_blit_other) (use ws(6,7) that out in \<open>auto simp: stack_limit_def\<close>)
    then show ?thesis using ws(1,5) by (auto simp: read_mem_def)
  qed
qed (use g write_mem_simps[OF w] in \<open>simp_all add: grown_def\<close>)

text \<open>The steps of the machine.\<close>

lemma push_value_grown:
  "grown b k m0 m \<Longrightarrow> push_value bs m = Inr m' \<Longrightarrow> grown b (k + aligned_size (of_nat (length bs))) m0 m'"
  by (auto simp: push_value_def on_stack_def outcome_simps dest!: stack_load_pushes intro: grown_pushes)

lemma push_ptr_grown: "grown b k m0 m \<Longrightarrow> push_ptr p m = Inr m' \<Longrightarrow> grown b (k + 8) m0 m'"
  by (auto simp: push_ptr_def on_stack_def outcome_simps dest!: push_pointer_pushes intro: grown_pushes)

lemma reserve_grown:
  "grown b k m0 m \<Longrightarrow> on_stack (\<lambda>st. reserve st sz) m = Inr m' \<Longrightarrow> grown b (k + aligned_size sz) m0 m'"
  by (auto simp: on_stack_def outcome_simps dest!: reserve_pushes intro: grown_pushes)

lemma pop_value_grown:
  "grown b k m0 m \<Longrightarrow> pop_value n m = Inr (bs, m') \<Longrightarrow> aligned_size (of_nat n) \<le> k \<Longrightarrow>
     grown b (k - aligned_size (of_nat n)) m0 m'"
  by (auto simp: pop_value_def taking_def outcome_simps dest!: stack_store_lowers(1) intro!: grown_lower)

lemma pop_ptr_grown:
  "grown b k m0 m \<Longrightarrow> pop_ptr m = Inr (p, m') \<Longrightarrow> 8 \<le> k \<Longrightarrow> grown b (k - 8) m0 m'"
  by (auto simp: pop_ptr_def taking_def outcome_simps dest!: pop_pointer_lowers(1) intro!: grown_lower)

lemma popn_grown:
  "grown b k m0 m \<Longrightarrow> on_stack (\<lambda>st. popn st sz) m = Inr m' \<Longrightarrow> aligned_size sz \<le> k \<Longrightarrow>
     grown b (k - aligned_size sz) m0 m'"
  by (auto simp: on_stack_def outcome_simps dest!: popn_lowers(1) intro!: grown_lower)


text \<open>Fields that the discipline of the stack does not look at.\<close>

lemma grown_other [simp]:
  "grown b k m0 (m\<lparr>the_memory := x\<rparr>) = grown b k m0 m"
  "grown b k m0 (m\<lparr>current_info := i\<rparr>) = grown b k m0 m"
  "grown b k m0 (m\<lparr>info_heap := h\<rparr>) = grown b k m0 m"
  "grown b k m0 (m\<lparr>allocations := n\<rparr>) = grown b k m0 m"
  by (simp_all add: grown_def settled_def keeps_def phases_def control_words_def)

lemma store_at_grown: "grown b k m0 m \<Longrightarrow> store_at p bs m = Inr m' \<Longrightarrow> grown b k m0 m'"
proof -
  assume g: "grown b k m0 m" and s: "store_at p bs m = Inr m'"
  show ?thesis
    using s g grown_write[OF g]
    by (auto simp: store_at_def on_stack_def outcome_simps split: if_splits)
qed

lemma move_value_grown:
  assumes g: "grown b k m0 m" and mv: "move_value off n m = Inr m'" and k: "aligned_size (of_nat n) \<le> k"
  shows "grown b (k - aligned_size (of_nat n)) m0 m'"
proof -
  let ?s = "aligned_size (of_nat n)"
  obtain bs st where st: "\<not> hits_control m (bp m + off) n"
    "read_mem (the_stack m) (tos m - ?s) n = Inr bs"
    "write_mem ((the_stack m)\<lparr>stack_top := tos m - ?s\<rparr>) (bp m + off) bs = Inr st" "m' = m\<lparr>the_stack := st\<rparr>"
    using mv by (auto simp: move_value_def on_stack_def stack_move_def Let_def outcome_simps split: if_splits)
  have len: "length bs = n" using st(2) by (auto simp: read_mem_def stack_limit_def split: if_splits)
  have "grown b (k - ?s) m0 (m\<lparr>the_stack := (the_stack m)\<lparr>stack_top := tos m - ?s\<rparr>\<rparr>)"
    by (rule grown_lower[OF g _ _ k]) simp_all
  from grown_write[OF this, of "bp m + off" bs st] show ?thesis
    using st len by (simp add: hits_control_def)
qed

lemma clear_value_grown: "grown b k m0 m \<Longrightarrow> clear_value off sz m = Inr m' \<Longrightarrow> grown b k m0 m'"
  using grown_write[of b k m0 m "bp m + off" "replicate (nat (aligned_size sz)) 0"]
  by (auto simp: clear_value_def on_stack_def stack_clear_def Let_def outcome_simps split: if_splits)

lemma grown_event: "\<not> is_phase e \<Longrightarrow> grown b k m0 m \<Longrightarrow> grown b k m0 (m\<lparr>history := history m @ [e]\<rparr>)"
  by (auto simp: grown_def settled_def keeps_def phases_def control_words_def)

lemma allocate_grown: "grown b k m0 m \<Longrightarrow> allocate storage sz m = Inr (p, m') \<Longrightarrow> grown b k m0 m'"
  by (auto simp: allocate_def outcome_simps split: if_splits)

lemma push_scalar_grown:
  "grown b k m0 m \<Longrightarrow> push_scalar t i m = Inr m' \<Longrightarrow> grown b (k + aligned_size (of_nat (scalar_size t))) m0 m'"
  unfolding push_scalar_def by (drule (1) push_value_grown) simp

lemma pop_scalar_grown:
  "grown b k m0 m \<Longrightarrow> pop_scalar t m = Inr (i, m') \<Longrightarrow> aligned_size (of_nat (scalar_size t)) \<le> k \<Longrightarrow>
     grown b (k - aligned_size (of_nat (scalar_size t))) m0 m'"
  by (auto simp: pop_scalar_def outcome_simps dest: pop_value_grown)

lemma aligned_size_small: "0 < n \<Longrightarrow> n \<le> 8 \<Longrightarrow> aligned_size (of_nat n) = 8"
proof -
  assume n: "0 < n" "n \<le> 8"
  then have "uint (of_nat n :: 64 word) = int n" by (simp add: unsigned_of_nat take_bit_nat_eq_self)
  then have "int n \<le> aligned_size (of_nat n)" "aligned_size (of_nat n) < int n + 8"
    using n aligned_size_bounds[of "of_nat n"] by simp_all
  moreover obtain q where "aligned_size (of_nat n) = 8 * q" using aligned_size_dvd[of "of_nat n"] by (auto simp: dvd_def)
  ultimately show ?thesis using n by presburger
qed

lemma scalar_slot [simp]: "scalar_ok t \<Longrightarrow> aligned_size (of_nat (scalar_size t)) = 8"
  by (rule aligned_size_small) (simp_all add: scalar_ok_def)

section \<open>A frame and its return\<close>

text \<open>Entering a frame: the caller's base pointer is saved in it and everything below stays.\<close>

lemma enter_frame_effect:
  assumes g: "settled (tos m) m" and e: "enter_frame sz m = Inr m'" and d: "stack_data (the_stack m) + 8 \<le> tos m"
    and w: "\<forall>f \<in> set (live_frames m). f + 16 \<le> tos m"
  shows "settled (tos m') m'" "bp m' = tos m" "live_frames m' = tos m # live_frames m" "tos m + 8 \<le> tos m'"
    "saved_pointer m' (tos m) = Inr (bp m)" "same_below (tos m) (the_stack m) (the_stack m')"
    "m' = m\<lparr>the_stack := the_stack m', live_frames := tos m # live_frames m\<rparr>"
proof -
  obtain st where st: "stack_setup (the_stack m) sz = Inr st"
    "m' = m\<lparr>the_stack := st, live_frames := tos m # live_frames m\<rparr>"
    using e by (auto simp: enter_frame_def on_stack_def outcome_simps)
  obtain s1 where s1: "pushes (the_stack m) s1 8 (le_bytes 8 (word_of_int (bp m)))"
    "pushes (s1\<lparr>base_pointer := tos m\<rparr>) st (aligned_size sz) (replicate (unat sz) 0)"
    using stack_setup_steps[OF st(1)] by blast
  have wf: "stack_wf (the_stack m)" using g by (simp add: settled_def)
  have t: "tos m + 8 \<le> stack_top st" "base_pointer st = tos m" "stack_top s1 = tos m + 8"
    using s1 by (simp_all add: pushes_def)
  have b1: "same_below (tos m + 8) s1 st" using s1 by (simp add: pushes_def same_below_def)
  have b: "same_below (tos m) (the_stack m) st"
    using s1(1) same_below_mono[OF b1, of "tos m"] same_below_trans by (auto simp: pushes_def)
  have "read_mem s1 (tos m) 8 = Inr (le_bytes 8 (word_of_int (bp m)))" using s1(1) by (simp add: pushes_def)
  then have r: "read_mem st (tos m) 8 = Inr (le_bytes 8 (word_of_int (bp m)))"
    using read_mem_same_below[OF b1, of "tos m" 8] by simp
  have u: "uint (word_of_int (bp m) :: 64 word) = bp m" using wf by (simp add: stack_wf_def uint_word_of_int)
  show "settled (tos m') m'"
    using g d w t stack_setup_wf[OF wf st(1)] b by (auto simp: st(2) settled_def same_below_def stack_wf_def)
  show "bp m' = tos m" "tos m + 8 \<le> tos m'" using t by (simp_all add: st(2))
  show "saved_pointer m' (tos m) = Inr (bp m)" by (simp add: saved_pointer_def st(2) r u)
  show "same_below (tos m) (the_stack m) (the_stack m')" using b by (simp add: st(2))
qed (use e in \<open>auto simp: enter_frame_def on_stack_def outcome_simps\<close>)


lemma read_mem_sub:
  assumes "read_mem st p n = Inr bs" "i + k \<le> n"
  shows "read_mem st (p + int i) k = Inr (stretch bs i k)"
proof -
  let ?x = "nat (p - stack_data st)"
  have r: "stack_data st \<le> p" "p + int n \<le> stack_limit st" "bs = stretch (stack_mem st) ?x n"
    using assms(1) by (auto simp: read_mem_def split: if_splits)
  have "nat (p + int i - stack_data st) = ?x + i" using r(1) by simp
  moreover have "stretch bs i k = stretch (stack_mem st) (?x + i) k"
    unfolding r(3) stretch_def using assms(2) by (simp add: drop_take min_def add.commute[of ?x])
  ultimately show ?thesis using r(1,2) assms(2) by (simp add: read_mem_def)
qed

lemma live_words:
  assumes "settled b m" "f \<in> set (live_frames m)"
  obtains bs where "control_words m f = Inr bs" "length bs = 16"
    "saved_pointer m f = Inr (uint (le_word (drop 8 bs)))" "instruction_pointer m f = Inr (uint (le_word (take 8 bs)))"
proof -
  have "stack_data (the_stack m) \<le> f - 8" "f - 8 + int 16 \<le> stack_limit (the_stack m)"
    using assms by (auto simp: settled_def stack_wf_def)
  then obtain bs where bs: "read_mem (the_stack m) (f - 8) 16 = Inr bs" "length bs = 16"
    by (simp add: read_mem_def stack_limit_def)
  have "read_mem (the_stack m) f 8 = Inr (drop 8 bs)"
    using read_mem_sub[OF bs(1), of 8 8] bs(2) by (simp add: stretch_def)
  moreover have "read_mem (the_stack m) (f - 8) 8 = Inr (take 8 bs)"
    using read_mem_sub[OF bs(1), of 0 8] by (simp add: stretch_def)
  ultimately show ?thesis
    using that[OF _ bs(2)] bs(1) unfolding control_words_def saved_pointer_def instruction_pointer_def by simp
qed

lemma same_words:
  assumes "settled b m" "settled b' m'" "f \<in> set (live_frames m)" "f \<in> set (live_frames m')"
    and "control_words m' f = control_words m f"
  shows "saved_pointer m' f = saved_pointer m f" "instruction_pointer m' f = instruction_pointer m f"
proof -
  obtain bs where b: "control_words m f = Inr bs" "saved_pointer m f = Inr (uint (le_word (drop 8 bs)))"
    "instruction_pointer m f = Inr (uint (le_word (take 8 bs)))" using live_words[OF assms(1,3)] by blast
  obtain cs where c: "control_words m' f = Inr cs" "saved_pointer m' f = Inr (uint (le_word (drop 8 cs)))"
    "instruction_pointer m' f = Inr (uint (le_word (take 8 cs)))" using live_words[OF assms(2,4)] by blast
  have "cs = bs" using b(1) c(1) assms(5) by simp
  then show "saved_pointer m' f = saved_pointer m f" "instruction_pointer m' f = instruction_pointer m f"
    using b c by simp_all
qed

lemma leave_frame_effect:
  assumes "settled b m" "stack_data (the_stack m) \<le> bp m" "saved_pointer m (bp m) = Inr q" "leave_frame m = Inr m'"
  shows "m' = m\<lparr>the_stack := (the_stack m)\<lparr>stack_top := bp m, base_pointer := q\<rparr>,
                live_frames := filter (\<lambda>f. f + 8 \<le> bp m) (live_frames m)\<rparr>"
  using assms(2-4)
  by (auto simp: leave_frame_def on_stack_def stack_teardown_def pop_pointer_def Let_def saved_pointer_def
      outcome_simps split: if_splits)

text \<open>Above eight pushed bytes there is room for the control words of a frame.\<close>

lemma frame_room:
  assumes "grown b k m0 m" "8 \<le> k"
  shows "stack_data (the_stack m) + 8 \<le> tos m" "\<forall>f \<in> set (live_frames m). f + 16 \<le> tos m"
  using assms by (auto simp: grown_def settled_def)

text \<open>A call whose body keeps the discipline gives back the stack it was entered with.\<close>

lemma frame_call:
  assumes g: "grown b k m0 m" and k: "8 \<le> k" and e: "enter_frame sz m = Inr m1"
    and body: "grown (tos m1) 0 m1 m2" and l: "leave_frame m2 = Inr m3"
  shows "grown b k m0 m3"
proof -
  have t: "tos m = b + k" "stack_data (the_stack m) \<le> b" using g by (simp_all add: grown_def settled_def)
  note ef = enter_frame_effect[OF grown_ready[OF g] e frame_room[OF g k]]
  have k2: "keeps m1 m2" "settled (tos m1) m2" using body by (simp_all add: grown_def)
  have live: "live_frames m2 = tos m # live_frames m" "bp m2 = tos m"
    using k2(1) ef(2,3) by (simp_all add: keeps_def)
  have data: "stack_data (the_stack m2) = stack_data (the_stack m)"
    "length (stack_mem (the_stack m2)) = length (stack_mem (the_stack m))"
    using k2(1) ef(6) by (simp_all add: keeps_def same_below_def)
  have "control_words m2 (tos m) = control_words m1 (tos m)" using k2(1) ef(3) by (simp add: keeps_def)
  then have "saved_pointer m2 (tos m) = saved_pointer m1 (tos m)"
    by (intro same_words[OF ef(1) k2(2)]) (simp_all add: ef(3) live)
  then have sv: "saved_pointer m2 (bp m2) = Inr (bp m)" using ef(5) live by simp
  have "m3 = m2\<lparr>the_stack := (the_stack m2)\<lparr>stack_top := tos m, base_pointer := bp m\<rparr>,
                live_frames := filter (\<lambda>f. f + 8 \<le> tos m) (live_frames m2)\<rparr>"
    using leave_frame_effect[OF k2(2) _ sv l] live data t k by simp
  moreover have "filter (\<lambda>f. f + 8 \<le> tos m) (live_frames m2) = live_frames m"
    using grown_ready[OF g] by (simp add: live filter_id_conv settled_def)
  ultimately have m3: "m3 = m2\<lparr>the_stack := (the_stack m2)\<lparr>stack_top := tos m, base_pointer := bp m\<rparr>,
                live_frames := live_frames m\<rparr>" by simp
  have words: "control_words m3 f = control_words m f" if f: "f \<in> set (live_frames m)" for f
  proof -
    have "control_words m2 f = control_words m1 f" using k2(1) f ef(3) by (simp add: keeps_def)
    moreover have "f + 8 \<le> tos m" using grown_ready[OF g] f by (simp add: settled_def)
    then have "control_words m1 f = control_words m f"
      unfolding control_words_def by (intro read_mem_same_below[OF ef(6)]) simp
    ultimately show ?thesis by (simp add: m3 control_words_def)
  qed
  have wf: "stack_wf (the_stack m)" using g by (simp add: grown_def settled_def)
  have "phases m3 = phases m" "phase_pointer m3 = phase_pointer m"
    using k2(1) by (simp_all add: m3 keeps_def phases_def) (subst ef(7), simp)+
  then have "keeps m m3" using words data by (simp add: keeps_def m3)
  then have "keeps m0 m3" using g keeps_trans by (auto simp: grown_def)
  moreover have "stack_wf (the_stack m3)"
    using wf data by (simp add: m3 stack_wf_def stack_limit_def)
  ultimately show ?thesis using g data by (auto simp: grown_def settled_def m3)
qed

end
