(* ===== verification/Operation.thy ===== *)
theory Operation
  imports Machine
begin

text \<open>
  The operations compiled from function bodies and their execution (operation.hpp, operation.cpp): a
  constructor per operation class, with its template argument where it has one, and a definition per execute
  method, written over the execution \<open>run\<close> of the operations it holds.  Errors reported with
  error_at_line end the program: they are Rejected with their number.  The operations on heap links
  (new, move, merge and change of heap types) are not modelled.
\<close>

section \<open>Operations\<close>

datatype control = Control_Return | Control_Continue

text \<open>The template argument of an arithmetic operation: an integer type or a floating or complex one.\<close>

datatype number = Scalar scalar | Floating singleton

datatype operation =
    Load operation ty
  | IndexArray operation operation ty
  | IndexSlice operation operation ty
  | SliceArray operation "operation option" "operation option" "operation option" ty
  | SliceSlice operation "operation option" "operation option" "operation option" ty
  | ConvertToInt scalar operation
  | ConvertToUint scalar operation
  | Literal "8 word list"
  | LogicOr operation operation
  | LogicAnd operation operation
  | ListOperation "operation list"
  | FunctionCall int operation
  | MethodCall int operation operation
  | DynamicPullPortCall ty operation operation
  | Instance int
  | SetRestoreCurrentInstance operation int
  | Clear int "64 word"
  | Assign operation operation "64 word"
  | AddAssign number operation operation
  | Reference int
  | Select operation int
  | Return_Operation operation int "64 word"
  | If_Operation operation operation operation
  | While operation operation
  | ForIota int int operation
  | Unary_Not operation
  | Binary number fobject operation operation
  | Shift scalar bool operation operation
  | Increment number operation
  | Decrement number operation
  | Activate operation int
  | PushPortCall "64 word" int int operation
  | IndexedPushPortCall "64 word" int int operation operation ty
  | Push operation
  | Noop
  | Conversion number number operation
  | ConvertStringToSliceOfBytes operation
  | ConvertSliceOfBytesToString operation
  | Popn operation "64 word"
  | PrintlnOp "ty list" "operation list"
  | NewOp ty
  | LenOp operation
  | AppendOp ty operation
  | CopyOp ty operation

text \<open>A callable with a body (decl::Function and decl::MethodBase); decl::Reaction is marked.\<close>

record callable =
  c_parameters :: parameter_list
  c_return :: parameter_list
  c_locals :: "64 word"
  c_dimension :: int
  c_body :: operation
  c_reaction :: bool

text \<open>
  The program: its types, the callables and deferred bodies by address, the addresses operator new
  would give, and the arithmetic of the floating and complex types, which is not modelled.
\<close>

record program =
  p_types :: tenv
  p_nesting :: nat
  callable_at :: "int \<Rightarrow> callable option"
  code_at :: "int \<Rightarrow> operation option"
  p_storage :: "nat \<Rightarrow> nat"
  float_apply :: "singleton \<Rightarrow> fobject \<Rightarrow> 8 word list \<Rightarrow> 8 word list \<Rightarrow> 8 word list"
  float_one :: "singleton \<Rightarrow> 8 word list"
  float_convert :: "number \<Rightarrow> number \<Rightarrow> 8 word list \<Rightarrow> 8 word list"

definition size_of :: "program \<Rightarrow> ty \<Rightarrow> 64 word outcome" where
  "size_of P t = type_size (p_types P) (p_nesting P) t"

definition unit_of :: "program \<Rightarrow> ty \<Rightarrow> 64 word outcome" where
  "unit_of P t = unit_size (p_types P) (p_nesting P) t"

definition list_size :: "program \<Rightarrow> parameter_list \<Rightarrow> 64 word outcome" where
  "list_size P ps = list_size_on_stack (p_types P) (p_nesting P) ps"

type_synonym run = "operation \<Rightarrow> machine \<Rightarrow> (control \<times> machine) outcome"

definition continue :: "machine \<Rightarrow> (control \<times> machine) outcome" where
  "continue m = Inr (Control_Continue, m)"

text \<open>An operand: its control is ignored, as in the code.\<close>

definition operand :: "run \<Rightarrow> operation \<Rightarrow> machine \<Rightarrow> machine outcome" where
  "operand run c m = obind (run c m) (\<lambda>(_, m'). Inr m')"

abbreviation "Long \<equiv> Int_Scalar 8 True"
abbreviation "Unsigned_Long \<equiv> Int_Scalar 8 False"

section \<open>Values and addresses\<close>

definition execute_load :: "program \<Rightarrow> run \<Rightarrow> operation \<Rightarrow> ty \<Rightarrow> machine \<Rightarrow> (control \<times> machine) outcome" where
  "execute_load P run c t m =
     obind (operand run c m) (\<lambda>m. obind (pop_ptr m) (\<lambda>(p, m).
     obind (size_of P t) (\<lambda>sz. obind (load_from p (unat sz) m) (\<lambda>bs. obind (push_value bs m) continue))))"

definition execute_reference :: "int \<Rightarrow> machine \<Rightarrow> (control \<times> machine) outcome" where
  "execute_reference off m = obind (push_ptr (bp m + off) m) continue"

definition execute_select :: "run \<Rightarrow> operation \<Rightarrow> int \<Rightarrow> machine \<Rightarrow> (control \<times> machine) outcome" where
  "execute_select run b off m =
     obind (operand run b m) (\<lambda>m. obind (pop_ptr m) (\<lambda>(p, m). obind (push_ptr (p + off) m) continue))"

text \<open>The address of element \<open>i\<close> of an array or slice with elements of type \<open>t\<close>.\<close>

definition push_element :: "program \<Rightarrow> ty \<Rightarrow> int \<Rightarrow> int \<Rightarrow> machine \<Rightarrow> (control \<times> machine) outcome" where
  "push_element P t p i m =
     obind (unit_of P t) (\<lambda>u. obind (push_ptr (p + uint (word_of_int i * u)) m) continue)"

definition execute_index_array ::
  "program \<Rightarrow> run \<Rightarrow> operation \<Rightarrow> operation \<Rightarrow> ty \<Rightarrow> machine \<Rightarrow> (control \<times> machine) outcome"
where
  "execute_index_array P run b ix t m =
     obind (operand run b m) (\<lambda>m. obind (pop_ptr m) (\<lambda>(p, m).
     obind (operand run ix m) (\<lambda>m. obind (pop_scalar Long m) (\<lambda>(i, m).
       case t of
         Array e d \<Rightarrow> if i < 0 \<or> d \<le> i then Inl (Rejected 148) else push_element P e p i m
       | _ \<Rightarrow> Inl Not_reached))))"

definition execute_index_slice ::
  "program \<Rightarrow> run \<Rightarrow> operation \<Rightarrow> operation \<Rightarrow> ty \<Rightarrow> machine \<Rightarrow> (control \<times> machine) outcome"
where
  "execute_index_slice P run b ix t m =
     obind (operand run b m) (\<lambda>m. obind (pop_value 24 m) (\<lambda>(bs, m).
     obind (operand run ix m) (\<lambda>m. obind (pop_scalar Long m) (\<lambda>(i, m).
       case t of
         Slice e \<Rightarrow> if i < 0 \<or> slice_length (slice_of bs) \<le> i then Inl (Rejected 35)
                    else push_element P e (slice_ptr (slice_of bs)) i m
       | _ \<Rightarrow> Inl Not_reached))))"

text \<open>A bound of a slice expression, or its otherwise.\<close>

definition bound :: "run \<Rightarrow> operation option \<Rightarrow> int \<Rightarrow> machine \<Rightarrow> (int \<times> machine) outcome" where
  "bound run c otherwise m =
     (case c of None \<Rightarrow> Inr (otherwise, m) | Some c \<Rightarrow> obind (operand run c m) (pop_scalar Long))"

definition bounds ::
  "run \<Rightarrow> operation option \<Rightarrow> operation option \<Rightarrow> operation option \<Rightarrow> int \<Rightarrow> int \<Rightarrow> machine \<Rightarrow>
     ((int \<times> int \<times> int) \<times> machine) outcome"
where
  "bounds run lo hi mx len cap m =
     obind (bound run lo 0 m) (\<lambda>(l, m). obind (bound run hi len m) (\<lambda>(h, m).
     obind (bound run mx cap m) (\<lambda>(x, m). Inr ((l, h, x), m))))"

text \<open>The slice from \<open>l\<close> to \<open>h\<close> with capacity up to \<open>x\<close> of what starts at \<open>p\<close>, elements of \<open>u\<close> bytes.\<close>

definition make_slice :: "int \<Rightarrow> 64 word \<Rightarrow> int \<Rightarrow> int \<Rightarrow> int \<Rightarrow> slice" where
  "make_slice p u l h x =
     \<lparr>slice_ptr = (if h - l \<noteq> 0 then p + uint (word_of_int l * u) else 0),
      slice_length = h - l, slice_capacity = x - l\<rparr>"

definition in_order :: "int \<Rightarrow> int \<Rightarrow> int \<Rightarrow> int \<Rightarrow> bool" where
  "in_order l h x limit \<longleftrightarrow> 0 \<le> l \<and> l \<le> h \<and> h \<le> x \<and> x \<le> limit"

definition execute_slice_array ::
  "program \<Rightarrow> run \<Rightarrow> operation \<Rightarrow> operation option \<Rightarrow> operation option \<Rightarrow> operation option \<Rightarrow> ty \<Rightarrow> machine \<Rightarrow>
     (control \<times> machine) outcome"
where
  "execute_slice_array P run b lo hi mx t m =
     (case t of
        Array e d \<Rightarrow>
          obind (operand run b m) (\<lambda>m. obind (pop_ptr m) (\<lambda>(p, m).
          obind (bounds run lo hi mx d d m) (\<lambda>((l, h, x), m).
            if in_order l h x d then
              obind (unit_of P e) (\<lambda>u. obind (push_value (slice_bytes (make_slice p u l h x)) m) continue)
            else Inl (Rejected 223))))
      | _ \<Rightarrow> Inl Not_reached)"

definition execute_slice_slice ::
  "program \<Rightarrow> run \<Rightarrow> operation \<Rightarrow> operation option \<Rightarrow> operation option \<Rightarrow> operation option \<Rightarrow> ty \<Rightarrow> machine \<Rightarrow>
     (control \<times> machine) outcome"
where
  "execute_slice_slice P run b lo hi mx t m =
     (case t of
        Slice e \<Rightarrow>
          obind (operand run b m) (\<lambda>m. obind (pop_value 24 m) (\<lambda>(bs, m).
            let s = slice_of bs; cap = wrap Long (slice_capacity s) in
            obind (bounds run lo hi mx (wrap Long (slice_length s)) cap m) (\<lambda>((l, h, x), m).
              if in_order l h x cap then
                obind (unit_of P e) (\<lambda>u. obind (push_value (slice_bytes (make_slice (slice_ptr s) u l h x)) m) continue)
              else Inl (Rejected 22))))
      | _ \<Rightarrow> Inl Not_reached)"

section \<open>Arithmetic\<close>

fun number_size :: "number \<Rightarrow> nat" where
  "number_size (Scalar t) = scalar_size t"
| "number_size (Floating k) = (case basic_size k of Inr n \<Rightarrow> unat n | Inl _ \<Rightarrow> 0)"

text \<open>A value brought to the size of its type.\<close>

definition fit :: "nat \<Rightarrow> 8 word list \<Rightarrow> 8 word list" where
  "fit n bs = take n (bs @ replicate n 0)"

lemma length_fit [simp]: "length (fit n bs) = n"
  by (simp add: fit_def)

fun number_apply :: "program \<Rightarrow> number \<Rightarrow> fobject \<Rightarrow> 8 word list \<Rightarrow> 8 word list \<Rightarrow> 8 word list outcome" where
  "number_apply P (Scalar t) f xs ys =
     obind (apply_fobject t f (scalar_value t xs) (scalar_value t ys))
       (\<lambda>r. Inr (scalar_bytes (result_scalar t f) r))"
| "number_apply P (Floating k) f xs ys =
     Inr (fit (if is_comparison f then 1 else number_size (Floating k)) (float_apply P k f xs ys))"

fun number_one :: "program \<Rightarrow> number \<Rightarrow> 8 word list" where
  "number_one P (Scalar t) = scalar_bytes t 1"
| "number_one P (Floating k) = fit (number_size (Floating k)) (float_one P k)"

definition execute_binary ::
  "program \<Rightarrow> run \<Rightarrow> number \<Rightarrow> fobject \<Rightarrow> operation \<Rightarrow> operation \<Rightarrow> machine \<Rightarrow> (control \<times> machine) outcome"
where
  "execute_binary P run t f l r m =
     obind (operand run l m) (\<lambda>m. obind (pop_value (number_size t) m) (\<lambda>(xs, m).
     obind (operand run r m) (\<lambda>m. obind (pop_value (number_size t) m) (\<lambda>(ys, m).
     obind (number_apply P t f xs ys) (\<lambda>bs. obind (push_value bs m) continue)))))"

definition execute_shift ::
  "run \<Rightarrow> scalar \<Rightarrow> bool \<Rightarrow> operation \<Rightarrow> operation \<Rightarrow> machine \<Rightarrow> (control \<times> machine) outcome"
where
  "execute_shift run t left l r m =
     obind (operand run l m) (\<lambda>m. obind (pop_scalar t m) (\<lambda>(x, m).
     obind (operand run r m) (\<lambda>m. obind (pop_scalar Unsigned_Long m) (\<lambda>(y, m).
     obind (apply_shift t left x y) (\<lambda>z. obind (push_scalar t z m) continue)))))"

definition execute_not :: "run \<Rightarrow> operation \<Rightarrow> machine \<Rightarrow> (control \<times> machine) outcome" where
  "execute_not run c m =
     obind (operand run c m) (\<lambda>m. obind (pop_scalar Bool_Scalar m) (\<lambda>(x, m).
     obind (push_scalar Bool_Scalar (of_bool (x = 0)) m) continue))"

text \<open>LogicOr (\<open>stop\<close> true) and LogicAnd (\<open>stop\<close> false): the right operand only when the left does not decide.\<close>

definition execute_logic :: "run \<Rightarrow> bool \<Rightarrow> operation \<Rightarrow> operation \<Rightarrow> machine \<Rightarrow> (control \<times> machine) outcome" where
  "execute_logic run stop l r m =
     obind (operand run l m) (\<lambda>m. obind (pop_scalar Bool_Scalar m) (\<lambda>(b, m).
       if (b \<noteq> 0) = stop then obind (push_scalar Bool_Scalar b m) continue
       else obind (operand run r m) continue))"

definition convert_number :: "program \<Rightarrow> number \<Rightarrow> number \<Rightarrow> 8 word list \<Rightarrow> 8 word list" where
  "convert_number P t u bs =
     (case (t, u) of
        (Scalar a, Scalar b) \<Rightarrow> scalar_bytes b (wrap b (scalar_value a bs))
      | _ \<Rightarrow> fit (number_size u) (float_convert P t u bs))"

definition execute_conversion ::
  "program \<Rightarrow> run \<Rightarrow> number \<Rightarrow> number \<Rightarrow> operation \<Rightarrow> machine \<Rightarrow> (control \<times> machine) outcome"
where
  "execute_conversion P run t u c m =
     obind (operand run c m) (\<lambda>m. obind (pop_value (number_size t) m) (\<lambda>(bs, m).
     obind (push_value (convert_number P t u bs) m) continue))"

text \<open>Read, combine and write back: AddAssign, Increment and Decrement after their operands.\<close>

definition update_number ::
  "program \<Rightarrow> number \<Rightarrow> fobject \<Rightarrow> int \<Rightarrow> 8 word list \<Rightarrow> machine \<Rightarrow> (control \<times> machine) outcome"
where
  "update_number P t f p ys m =
     obind (load_from p (number_size t) m) (\<lambda>xs. obind (number_apply P t f xs ys) (\<lambda>bs.
     obind (store_at p bs m) continue))"

definition execute_add_assign ::
  "program \<Rightarrow> run \<Rightarrow> number \<Rightarrow> operation \<Rightarrow> operation \<Rightarrow> machine \<Rightarrow> (control \<times> machine) outcome"
where
  "execute_add_assign P run t l r m =
     obind (operand run l m) (\<lambda>m. obind (pop_ptr m) (\<lambda>(p, m).
     obind (operand run r m) (\<lambda>m. obind (pop_value (number_size t) m) (\<lambda>(ys, m).
     update_number P t Adder p ys m))))"

definition execute_increment ::
  "program \<Rightarrow> run \<Rightarrow> number \<Rightarrow> fobject \<Rightarrow> operation \<Rightarrow> machine \<Rightarrow> (control \<times> machine) outcome"
where
  "execute_increment P run t f c m =
     obind (operand run c m) (\<lambda>m. obind (pop_ptr m) (\<lambda>(p, m). update_number P t f p (number_one P t) m))"

section \<open>Statements\<close>

definition execute_assign ::
  "run \<Rightarrow> operation \<Rightarrow> operation \<Rightarrow> 64 word \<Rightarrow> machine \<Rightarrow> (control \<times> machine) outcome"
where
  "execute_assign run l r sz m =
     obind (operand run l m) (\<lambda>m. obind (pop_ptr m) (\<lambda>(p, m).
     obind (operand run r m) (\<lambda>m. obind (pop_value (unat sz) m) (\<lambda>(bs, m).
     obind (store_at p bs m) continue))))"

definition execute_return :: "run \<Rightarrow> operation \<Rightarrow> int \<Rightarrow> 64 word \<Rightarrow> machine \<Rightarrow> (control \<times> machine) outcome" where
  "execute_return run c off sz m =
     obind (operand run c m) (\<lambda>m. obind (move_value off (unat sz) m) (\<lambda>m. Inr (Control_Return, m)))"

text \<open>A list stops at the first operation that returns.\<close>

fun execute_list :: "run \<Rightarrow> operation list \<Rightarrow> machine \<Rightarrow> (control \<times> machine) outcome" where
  "execute_list run [] m = continue m"
| "execute_list run (c # cs) m =
     obind (run c m) (\<lambda>(r, m). if r = Control_Return then Inr (r, m) else execute_list run cs m)"

definition execute_if ::
  "run \<Rightarrow> operation \<Rightarrow> operation \<Rightarrow> operation \<Rightarrow> machine \<Rightarrow> (control \<times> machine) outcome"
where
  "execute_if run c t f m =
     obind (operand run c m) (\<lambda>m. obind (pop_scalar Bool_Scalar m) (\<lambda>(b, m).
       if b \<noteq> 0 then run t m else run f m))"

text \<open>One turn of the loop of a while; \<open>run\<close> executes the rest of the loop.\<close>

definition execute_while :: "run \<Rightarrow> operation \<Rightarrow> operation \<Rightarrow> machine \<Rightarrow> (control \<times> machine) outcome" where
  "execute_while run c b m =
     obind (operand run c m) (\<lambda>m. obind (pop_scalar Bool_Scalar m) (\<lambda>(x, m).
       if x \<noteq> 0 then
         obind (run b m) (\<lambda>(r, m). if r = Control_Return then Inr (r, m) else run (While c b) m)
       else continue m))"

text \<open>
  The loop of ForIota with \<open>n\<close> turns to go.  It counts until it meets the limit, so with
  a negative limit it does not end.
\<close>

fun iota_loop :: "run \<Rightarrow> int \<Rightarrow> operation \<Rightarrow> nat \<Rightarrow> int \<Rightarrow> machine \<Rightarrow> (control \<times> machine) outcome" where
  "iota_loop run off b 0 i m = continue m"
| "iota_loop run off b (Suc n) i m =
     obind (store_at (bp m + off) (scalar_bytes Long i) m) (\<lambda>m.
     obind (run b m) (\<lambda>(r, m). if r = Control_Return then Inr (r, m) else iota_loop run off b n (i + 1) m))"

definition execute_for_iota :: "run \<Rightarrow> int \<Rightarrow> int \<Rightarrow> operation \<Rightarrow> machine \<Rightarrow> (control \<times> machine) outcome" where
  "execute_for_iota run off limit b m =
     (if limit < 0 then Inl Out_of_fuel else iota_loop run off b (nat limit) 0 m)"

definition execute_popn :: "run \<Rightarrow> operation \<Rightarrow> 64 word \<Rightarrow> machine \<Rightarrow> (control \<times> machine) outcome" where
  "execute_popn run c sz m =
     obind (run c m) (\<lambda>(r, m). obind (on_stack (\<lambda>st. popn st sz) m) (\<lambda>m. Inr (r, m)))"

definition record_event :: "event \<Rightarrow> machine \<Rightarrow> machine" where
  "record_event e m = m\<lparr>history := history m @ [e]\<rparr>"

text \<open>ExecutorBase::push: the scheduler is told about the current component.\<close>

definition execute_push :: "run \<Rightarrow> operation \<Rightarrow> machine \<Rightarrow> (control \<times> machine) outcome" where
  "execute_push run b m = obind (run b m) (\<lambda>(r, m). Inr (r, record_event (Scheduled (current_info m)) m))"

definition execute_set_restore :: "run \<Rightarrow> operation \<Rightarrow> int \<Rightarrow> machine \<Rightarrow> (control \<times> machine) outcome" where
  "execute_set_restore run c off m =
     obind (read_pointer (the_stack m) off) (\<lambda>component. obind (load_pointer component m) (\<lambda>info.
     obind (run c (m\<lparr>current_info := info\<rparr>)) (\<lambda>(r, m'). Inr (r, m'\<lparr>current_info := current_info m\<rparr>))))"

text \<open>Println: the arguments in turn, each popped with the bytes of its type, which must be printable.\<close>

definition printable :: "program \<Rightarrow> ty \<Rightarrow> bool" where
  "printable P t =
     (case underlying_type (p_types P) t of
        Basic s \<Rightarrow> scalar_of s \<noteq> None \<or> s = Float32 \<or> s = Float64 \<or> s = String
      | Pointer b \<Rightarrow> True
      | _ \<Rightarrow> False)"

fun print_list :: "program \<Rightarrow> run \<Rightarrow> ty list \<Rightarrow> operation list \<Rightarrow> machine \<Rightarrow> (control \<times> machine) outcome" where
  "print_list P run (t # ts) (c # cs) m =
     obind (operand run c m) (\<lambda>m.
       if printable P t then
         obind (size_of P t) (\<lambda>sz. obind (pop_value (unat sz) m) (\<lambda>(bs, m).
         print_list P run ts cs (record_event (Printed t bs) m)))
       else Inl Not_reached)"
| "print_list P run ts [] m = continue m"
| "print_list P run [] (c # cs) m = Inl Undefined_behaviour"

section \<open>Allocation\<close>

definition execute_new :: "program \<Rightarrow> ty \<Rightarrow> machine \<Rightarrow> (control \<times> machine) outcome" where
  "execute_new P t m =
     obind (size_of P t) (\<lambda>sz. obind (allocate (p_storage P) (unat sz) m) (\<lambda>(p, m). obind (push_ptr p m) continue))"

text \<open>A copy of \<open>n\<close> bytes at \<open>p\<close> in new storage.\<close>

definition duplicate :: "program \<Rightarrow> int \<Rightarrow> nat \<Rightarrow> machine \<Rightarrow> (int \<times> machine) outcome" where
  "duplicate P p n m =
     obind (allocate (p_storage P) n m) (\<lambda>(q, m). obind (load_from p n m) (\<lambda>bs.
     obind (store_at q bs m) (\<lambda>m. Inr (q, m))))"

definition execute_string_to_slice :: "program \<Rightarrow> run \<Rightarrow> operation \<Rightarrow> machine \<Rightarrow> (control \<times> machine) outcome" where
  "execute_string_to_slice P run c m =
     obind (operand run c m) (\<lambda>m. obind (pop_value 16 m) (\<lambda>(bs, m).
     case string_of bs of (p, n) \<Rightarrow> obind (duplicate P p (nat n) m) (\<lambda>(q, m).
       obind (push_value (slice_bytes \<lparr>slice_ptr = q, slice_length = n, slice_capacity = n\<rparr>) m) continue)))"

definition execute_slice_to_string :: "program \<Rightarrow> run \<Rightarrow> operation \<Rightarrow> machine \<Rightarrow> (control \<times> machine) outcome" where
  "execute_slice_to_string P run c m =
     obind (operand run c m) (\<lambda>m. obind (pop_value 24 m) (\<lambda>(bs, m).
     obind (duplicate P (slice_ptr (slice_of bs)) (nat (slice_length (slice_of bs))) m) (\<lambda>(q, m).
       obind (push_value (string_bytes q (slice_length (slice_of bs))) m) continue)))"

definition execute_len :: "run \<Rightarrow> operation \<Rightarrow> machine \<Rightarrow> (control \<times> machine) outcome" where
  "execute_len run c m =
     obind (operand run c m) (\<lambda>m. obind (pop_value 24 m) (\<lambda>(bs, m).
     obind (push_scalar Long (wrap Long (slice_length (slice_of bs))) m) continue))"

text \<open>Append of an element of \<open>u\<close> bytes; the element is one byte, the only type make_append accepts.\<close>

definition append_element :: "program \<Rightarrow> 64 word \<Rightarrow> slice \<Rightarrow> 8 word list \<Rightarrow> machine \<Rightarrow> (slice \<times> machine) outcome" where
  "append_element P u s x m =
     (let n = word_of_int (slice_length s) + 1 :: 64 word in
      obind (if uint n > slice_capacity s then
               obind (allocate (p_storage P) (unat (2 * n * u)) m) (\<lambda>(q, m).
               obind (load_from (slice_ptr s) (unat (word_of_int (slice_length s) * u)) m) (\<lambda>bs.
               obind (store_at q bs m) (\<lambda>m.
                 Inr (s\<lparr>slice_ptr := q, slice_capacity := uint (2 * n)\<rparr>, m))))
             else Inr (s, m))
        (\<lambda>(s, m). obind (store_at (slice_ptr s + uint (word_of_int (slice_length s) * u)) (take (unat u) x) m)
          (\<lambda>m. Inr (s\<lparr>slice_length := uint n\<rparr>, m))))"

definition execute_append :: "program \<Rightarrow> run \<Rightarrow> ty \<Rightarrow> operation \<Rightarrow> machine \<Rightarrow> (control \<times> machine) outcome" where
  "execute_append P run t c m =
     obind (operand run c m) (\<lambda>m. obind (pop_value 1 m) (\<lambda>(x, m). obind (pop_value 24 m) (\<lambda>(bs, m).
       case t of
         Slice e \<Rightarrow>
           obind (unit_of P e) (\<lambda>u. obind (append_element P u (slice_of bs) x m) (\<lambda>(s, m).
           obind (push_value (slice_bytes s) m) continue))
       | _ \<Rightarrow> Inl Not_reached)))"

definition execute_copy :: "program \<Rightarrow> run \<Rightarrow> ty \<Rightarrow> operation \<Rightarrow> machine \<Rightarrow> (control \<times> machine) outcome" where
  "execute_copy P run t c m =
     obind (operand run c m) (\<lambda>m.
       case underlying_type (p_types P) t of
         Slice e \<Rightarrow>
           obind (pop_value 24 m) (\<lambda>(bs, m). obind (unit_of P e) (\<lambda>u.
             let n = slice_length (slice_of bs) in
             obind (duplicate P (slice_ptr (slice_of bs)) (unat (u * word_of_int n)) m) (\<lambda>(q, m).
             obind (push_value (slice_bytes \<lparr>slice_ptr = q, slice_length = n, slice_capacity = n\<rparr>) m) continue)))
       | Basic String \<Rightarrow>
           obind (pop_value 16 m) (\<lambda>(bs, m). case string_of bs of (p, n) \<Rightarrow>
             obind (duplicate P p (nat n) m) (\<lambda>(q, m).
             obind (push_value (string_bytes q n) m) continue))
       | _ \<Rightarrow> Inl Not_reached)"

section \<open>Calls\<close>

text \<open>
  The frame of a call, after its return slot and arguments: a fake instruction pointer, the frame, the
  body, and everything off the stack again but the return slot.
\<close>

definition call_frame :: "program \<Rightarrow> run \<Rightarrow> callable \<Rightarrow> machine \<Rightarrow> (control \<times> machine) outcome" where
  "call_frame P run c m =
     obind (push_ptr 0 m) (\<lambda>m. obind (enter_frame (c_locals c) m) (\<lambda>m. obind (operand run (c_body c) m) (\<lambda>m.
     obind (leave_frame m) (\<lambda>m. obind (pop_ptr m) (\<lambda>(_, m). obind (list_size P (c_parameters c)) (\<lambda>n.
     obind (on_stack (\<lambda>st. popn st n) m) continue))))))"

definition with_return :: "program \<Rightarrow> callable \<Rightarrow> machine \<Rightarrow> machine outcome" where
  "with_return P c m = obind (list_size P (c_return c)) (\<lambda>n. on_stack (\<lambda>st. reserve st n) m)"

definition the_callable :: "program \<Rightarrow> int \<Rightarrow> callable outcome" where
  "the_callable P a = (case callable_at P a of Some c \<Rightarrow> Inr c | None \<Rightarrow> Inl Undefined_behaviour)"

definition execute_function_call :: "program \<Rightarrow> run \<Rightarrow> int \<Rightarrow> operation \<Rightarrow> machine \<Rightarrow> (control \<times> machine) outcome" where
  "execute_function_call P run a args m =
     obind (the_callable P a) (\<lambda>c. obind (with_return P c m) (\<lambda>m.
     obind (operand run args m) (call_frame P run c)))"

definition execute_method_call ::
  "program \<Rightarrow> run \<Rightarrow> int \<Rightarrow> operation \<Rightarrow> operation \<Rightarrow> machine \<Rightarrow> (control \<times> machine) outcome"
where
  "execute_method_call P run a recv args m =
     obind (the_callable P a) (\<lambda>c. obind (with_return P c m) (\<lambda>m.
     obind (operand run recv m) (\<lambda>m. obind (operand run args m) (call_frame P run c))))"

text \<open>A pull port holds the component and the getter it is bound to.\<close>

definition execute_pull_port_call ::
  "program \<Rightarrow> run \<Rightarrow> operation \<Rightarrow> operation \<Rightarrow> machine \<Rightarrow> (control \<times> machine) outcome"
where
  "execute_pull_port_call P run port args m =
     obind (operand run port m) (\<lambda>m. obind (pop_value 16 m) (\<lambda>(bs, m).
     case string_of bs of (component, getter) \<Rightarrow>
     obind (the_callable P getter) (\<lambda>c. obind (with_return P c m) (\<lambda>m.
     obind (push_ptr component m) (\<lambda>m. obind (operand run args m) (call_frame P run c))))))"

section \<open>Activations\<close>

text \<open>
  Activate: the frame is put in front of the frames of the mutable phase, its instruction pointer
  becomes the body to run then, and the ports are called.
\<close>

definition execute_activate :: "run \<Rightarrow> operation \<Rightarrow> int \<Rightarrow> machine \<Rightarrow> (control \<times> machine) outcome" where
  "execute_activate run ports body m =
     obind (write_control (bp m) (phase_pointer m) m) (\<lambda>m.
     obind (write_control (pointer_to_instruction_pointer (the_stack m)) body (m\<lparr>phase_pointer := bp m\<rparr>)) (\<lambda>m.
     obind (operand run ports (record_event (Activated (bp m) body) m)) (\<lambda>m. Inr (Control_Return, m))))"

text \<open>
  The frame of one reaction: the parameter of the port record, when the reaction has a dimension, the
  component, a copy of the arguments and a fake instruction pointer; the frame hangs off the last frame
  of the mutable phase and stays on the stack, the base pointer is the caller's again afterwards.
\<close>

definition reaction_arguments :: "int \<Rightarrow> callable \<Rightarrow> int \<Rightarrow> nat \<Rightarrow> machine \<Rightarrow> machine outcome" where
  "reaction_arguments port c args n m =
     obind (if c_dimension c \<noteq> - 1 then obind (load_from (port + 16) 8 m) (\<lambda>bs. push_value bs m) else Inr m) (\<lambda>m.
     obind (load_pointer port m) (\<lambda>component. obind (push_ptr component m) (\<lambda>m.
     obind (load_from args n m) (\<lambda>bs. obind (push_value bs m) (push_ptr 0)))))"

definition with_base :: "int \<Rightarrow> machine \<Rightarrow> machine" where
  "with_base p m = m\<lparr>the_stack := (the_stack m)\<lparr>base_pointer := p\<rparr>\<rparr>"

definition reaction_frame :: "run \<Rightarrow> callable \<Rightarrow> machine \<Rightarrow> machine outcome" where
  "reaction_frame run c m =
     obind (enter_frame (c_locals c) (with_base (phase_pointer m) m)) (\<lambda>m'.
     obind (operand run (c_body c) m') (\<lambda>m''. Inr (with_base (bp m) m'')))"

text \<open>
  The reactions bound to a push port: the record of the port holds the component, the reaction, the
  parameter and the next record.
\<close>

fun call_reactions :: "program \<Rightarrow> run \<Rightarrow> nat \<Rightarrow> int \<Rightarrow> int \<Rightarrow> nat \<Rightarrow> machine \<Rightarrow> machine outcome" where
  "call_reactions P run fuel port args n m =
     (if port = 0 then Inr m
      else case fuel of
        0 \<Rightarrow> Inl Out_of_fuel
      | Suc fuel \<Rightarrow>
          obind (load_pointer (port + 8) m) (\<lambda>reaction. obind (the_callable P reaction) (\<lambda>c.
          obind (reaction_arguments port c args n m) (\<lambda>m. obind (reaction_frame run c m) (\<lambda>m.
          obind (load_pointer (port + 24) m) (\<lambda>rest. call_reactions P run fuel rest args n m))))))"

declare call_reactions.simps [simp del]

definition push_port_call ::
  "program \<Rightarrow> run \<Rightarrow> nat \<Rightarrow> operation \<Rightarrow> 64 word \<Rightarrow> int \<Rightarrow> int \<Rightarrow> machine \<Rightarrow> (control \<times> machine) outcome"
where
  "push_port_call P run fuel args n recv off m =
     obind (operand run args m) (\<lambda>m'. obind (read_pointer (the_stack m') recv) (\<lambda>component.
     obind (load_pointer (component + off) m') (\<lambda>port.
     obind (call_reactions P run fuel port (tos m) (unat n) m') continue)))"

definition execute_indexed_push_port_call ::
  "program \<Rightarrow> run \<Rightarrow> nat \<Rightarrow> 64 word \<Rightarrow> int \<Rightarrow> int \<Rightarrow> operation \<Rightarrow> operation \<Rightarrow> ty \<Rightarrow> machine \<Rightarrow>
     (control \<times> machine) outcome"
where
  "execute_indexed_push_port_call P run fuel n recv off ix args t m =
     obind (operand run ix m) (\<lambda>m. obind (pop_scalar Long m) (\<lambda>(i, m).
       case t of
         Array e d \<Rightarrow> obind (unit_of P e) (\<lambda>u.
           push_port_call P run fuel args n recv (off + sint (word_of_int i * u)) m)
       | _ \<Rightarrow> Inl Not_reached))"

section \<open>The interpreter\<close>

text \<open>One operation, over the execution of its parts; \<open>fuel\<close> bounds the reactions of a port.\<close>

fun execute_step :: "program \<Rightarrow> run \<Rightarrow> nat \<Rightarrow> operation \<Rightarrow> machine \<Rightarrow> (control \<times> machine) outcome" where
  "execute_step P run fuel (Load c t) m = execute_load P run c t m"
| "execute_step P run fuel (IndexArray b i t) m = execute_index_array P run b i t m"
| "execute_step P run fuel (IndexSlice b i t) m = execute_index_slice P run b i t m"
| "execute_step P run fuel (SliceArray b l h x t) m = execute_slice_array P run b l h x t m"
| "execute_step P run fuel (SliceSlice b l h x t) m = execute_slice_slice P run b l h x t m"
| "execute_step P run fuel (ConvertToInt t c) m = execute_conversion P run (Scalar t) (Scalar Long) c m"
| "execute_step P run fuel (ConvertToUint t c) m = execute_conversion P run (Scalar t) (Scalar Unsigned_Long) c m"
| "execute_step P run fuel (Literal bs) m = obind (push_value bs m) continue"
| "execute_step P run fuel (LogicOr l r) m = execute_logic run True l r m"
| "execute_step P run fuel (LogicAnd l r) m = execute_logic run False l r m"
| "execute_step P run fuel (ListOperation cs) m = execute_list run cs m"
| "execute_step P run fuel (FunctionCall a args) m = execute_function_call P run a args m"
| "execute_step P run fuel (MethodCall a recv args) m = execute_method_call P run a recv args m"
| "execute_step P run fuel (DynamicPullPortCall t f args) m = execute_pull_port_call P run f args m"
| "execute_step P run fuel (Instance a) m = obind (push_ptr a m) continue"
| "execute_step P run fuel (SetRestoreCurrentInstance c off) m = execute_set_restore run c off m"
| "execute_step P run fuel (Clear off sz) m = obind (clear_value off sz m) continue"
| "execute_step P run fuel (Assign l r sz) m = execute_assign run l r sz m"
| "execute_step P run fuel (AddAssign t l r) m = execute_add_assign P run t l r m"
| "execute_step P run fuel (Reference off) m = execute_reference off m"
| "execute_step P run fuel (Select b off) m = execute_select run b off m"
| "execute_step P run fuel (Return_Operation c off sz) m = execute_return run c off sz m"
| "execute_step P run fuel (If_Operation c t f) m = execute_if run c t f m"
| "execute_step P run fuel (While c b) m = execute_while run c b m"
| "execute_step P run fuel (ForIota off limit b) m = execute_for_iota run off limit b m"
| "execute_step P run fuel (Unary_Not c) m = execute_not run c m"
| "execute_step P run fuel (Binary t f l r) m = execute_binary P run t f l r m"
| "execute_step P run fuel (Shift t left l r) m = execute_shift run t left l r m"
| "execute_step P run fuel (Increment t c) m = execute_increment P run t Adder c m"
| "execute_step P run fuel (Decrement t c) m = execute_increment P run t Subtracter c m"
| "execute_step P run fuel (Activate ports body) m = execute_activate run ports body m"
| "execute_step P run fuel (PushPortCall n recv off args) m = push_port_call P run fuel args n recv off m"
| "execute_step P run fuel (IndexedPushPortCall n recv off i args t) m =
     execute_indexed_push_port_call P run fuel n recv off i args t m"
| "execute_step P run fuel (Push b) m = execute_push run b m"
| "execute_step P run fuel Noop m = continue m"
| "execute_step P run fuel (Conversion t u c) m = execute_conversion P run t u c m"
| "execute_step P run fuel (ConvertStringToSliceOfBytes c) m = execute_string_to_slice P run c m"
| "execute_step P run fuel (ConvertSliceOfBytesToString c) m = execute_slice_to_string P run c m"
| "execute_step P run fuel (Popn c sz) m = execute_popn run c sz m"
| "execute_step P run fuel (PrintlnOp ts cs) m = print_list P run ts cs m"
| "execute_step P run fuel (NewOp t) m = execute_new P t m"
| "execute_step P run fuel (LenOp c) m = execute_len run c m"
| "execute_step P run fuel (AppendOp t c) m = execute_append P run t c m"
| "execute_step P run fuel (CopyOp t c) m = execute_copy P run t c m"

text \<open>Operation::execute; the fuel bounds the nesting of executions and the turns of a loop.\<close>

primrec execute :: "program \<Rightarrow> nat \<Rightarrow> run" where
  "execute P 0 = (\<lambda>c m. Inl Out_of_fuel)"
| "execute P (Suc f) = execute_step P (execute P f) f"

end
