(* ===== verification/Discipline.thy ===== *)
theory Discipline
  imports Operation
begin

text \<open>
  The discipline of the run-time stack.  An operation compiled from an expression pushes a number of bytes that is known
  when it is compiled, and an operation compiled from a statement leaves the top of the stack where it was.
  Both are judged from the shape of the operation, and the interpreter is shown to keep to the judgement:
  base pointer, frames and control words are as before, whatever the operation computes and wherever it
  stores.  Pull port calls, whose callee is known only when they run, are outside the judgement.
\<close>

section \<open>The judgement\<close>

definition slot_bytes :: "nat \<Rightarrow> int" where
  "slot_bytes n = aligned_size (of_nat n)"

definition sized :: "64 word outcome \<Rightarrow> int option" where
  "sized r = (case r of Inr s \<Rightarrow> Some (aligned_size s) | Inl _ \<Rightarrow> None)"

fun number_ok :: "number \<Rightarrow> bool" where
  "number_ok (Scalar t) = scalar_ok t"
| "number_ok (Floating k) = True"

definition result_size :: "number \<Rightarrow> fobject \<Rightarrow> nat" where
  "result_size t f = (if is_comparison f then 1 else number_size t)"

text \<open>The bytes an expression pushes, argument lists included.\<close>

fun esize :: "program \<Rightarrow> operation \<Rightarrow> int option" and esizes :: "program \<Rightarrow> operation list \<Rightarrow> int option" where
  "esize P (Load c t) = (if esize P c = Some 8 then sized (size_of P t) else None)"
| "esize P (IndexArray b i t) = (if esize P b = Some 8 \<and> esize P i = Some 8 then Some 8 else None)"
| "esize P (IndexSlice b i t) = (if esize P b = Some 24 \<and> esize P i = Some 8 then Some 8 else None)"
| "esize P (SliceArray b l h x t) =
     (if esize P b = Some 8 \<and> pred_option (\<lambda>c. esize P c = Some 8) l \<and> pred_option (\<lambda>c. esize P c = Some 8) h \<and>
         pred_option (\<lambda>c. esize P c = Some 8) x
      then Some 24 else None)"
| "esize P (SliceSlice b l h x t) =
     (if esize P b = Some 24 \<and> pred_option (\<lambda>c. esize P c = Some 8) l \<and> pred_option (\<lambda>c. esize P c = Some 8) h \<and>
         pred_option (\<lambda>c. esize P c = Some 8) x
      then Some 24 else None)"
| "esize P (ConvertToInt t c) = (if scalar_ok t \<and> esize P c = Some 8 then Some 8 else None)"
| "esize P (ConvertToUint t c) = (if scalar_ok t \<and> esize P c = Some 8 then Some 8 else None)"
| "esize P (Literal bs) = Some (slot_bytes (length bs))"
| "esize P (LogicOr l r) = (if esize P l = Some 8 \<and> esize P r = Some 8 then Some 8 else None)"
| "esize P (LogicAnd l r) = (if esize P l = Some 8 \<and> esize P r = Some 8 then Some 8 else None)"
| "esize P (ListOperation cs) = esizes P cs"
| "esize P (FunctionCall a args) =
     (case callable_at P a of
        None \<Rightarrow> None
      | Some c \<Rightarrow> if \<not> c_reaction c \<and> esize P args \<noteq> None \<and> esize P args = sized (list_size P (c_parameters c))
                  then sized (list_size P (c_return c)) else None)"
| "esize P (MethodCall a recv args) =
     (case (callable_at P a, esize P recv, esize P args) of
        (Some c, Some i, Some j) \<Rightarrow>
          if \<not> c_reaction c \<and> sized (list_size P (c_parameters c)) = Some (i + j)
          then sized (list_size P (c_return c)) else None
      | _ \<Rightarrow> None)"
| "esize P (Instance a) = Some 8"
| "esize P (SetRestoreCurrentInstance c off) = esize P c"
| "esize P (Reference off) = Some 8"
| "esize P (Select b off) = (if esize P b = Some 8 then Some 8 else None)"
| "esize P (Unary_Not c) = (if esize P c = Some 8 then Some 8 else None)"
| "esize P (Binary t f l r) =
     (if number_ok t \<and> esize P l = Some (slot_bytes (number_size t)) \<and> esize P r = Some (slot_bytes (number_size t))
      then Some (slot_bytes (result_size t f)) else None)"
| "esize P (Shift t left l r) = (if scalar_ok t \<and> esize P l = Some 8 \<and> esize P r = Some 8 then Some 8 else None)"
| "esize P (Conversion t u c) =
     (if esize P c = Some (slot_bytes (number_size t)) then Some (slot_bytes (number_size u)) else None)"
| "esize P (ConvertStringToSliceOfBytes c) = (if esize P c = Some 16 then Some 24 else None)"
| "esize P (ConvertSliceOfBytesToString c) = (if esize P c = Some 24 then Some 16 else None)"
| "esize P (NewOp t) = Some 8"
| "esize P (LenOp c) = (if esize P c = Some 24 then Some 8 else None)"
| "esize P (AppendOp t c) = (if esize P c = Some 32 then Some 24 else None)"
| "esize P (CopyOp t c) =
     (case underlying_type (p_types P) t of
        Slice e \<Rightarrow> if esize P c = Some 24 then Some 24 else None
      | Basic String \<Rightarrow> if esize P c = Some 16 then Some 16 else None
      | _ \<Rightarrow> None)"
| "esize P _ = None"
| "esizes P [] = Some 0"
| "esizes P (c # cs) = (case (esize P c, esizes P cs) of (Some i, Some j) \<Rightarrow> Some (i + j) | _ \<Rightarrow> None)"

text \<open>The statements of functions, methods, getters and deferred bodies: no activation.\<close>

fun stmt_ok :: "program \<Rightarrow> operation \<Rightarrow> bool" where
  "stmt_ok P (ListOperation cs) \<longleftrightarrow> list_all (stmt_ok P) cs"
| "stmt_ok P (SetRestoreCurrentInstance c off) \<longleftrightarrow> stmt_ok P c"
| "stmt_ok P (Clear off sz) \<longleftrightarrow> True"
| "stmt_ok P (Assign l r sz) \<longleftrightarrow> esize P l = Some 8 \<and> esize P r = Some (aligned_size sz)"
| "stmt_ok P (AddAssign t l r) \<longleftrightarrow> esize P l = Some 8 \<and> esize P r = Some (slot_bytes (number_size t))"
| "stmt_ok P (Return_Operation c off sz) \<longleftrightarrow> esize P c = Some (aligned_size sz)"
| "stmt_ok P (If_Operation c t f) \<longleftrightarrow> esize P c = Some 8 \<and> stmt_ok P t \<and> stmt_ok P f"
| "stmt_ok P (While c b) \<longleftrightarrow> esize P c = Some 8 \<and> stmt_ok P b"
| "stmt_ok P (ForIota off limit b) \<longleftrightarrow> stmt_ok P b"
| "stmt_ok P (Increment t c) \<longleftrightarrow> esize P c = Some 8"
| "stmt_ok P (Decrement t c) \<longleftrightarrow> esize P c = Some 8"
| "stmt_ok P (Push b) \<longleftrightarrow> stmt_ok P b"
| "stmt_ok P Noop \<longleftrightarrow> True"
| "stmt_ok P (Popn c sz) \<longleftrightarrow> esize P c = Some (aligned_size sz)"
| "stmt_ok P (PrintlnOp ts cs) \<longleftrightarrow>
     list_all2 (\<lambda>t c. esize P c \<noteq> None \<and> esize P c = sized (size_of P t)) ts cs"
| "stmt_ok P (FunctionCall a args) \<longleftrightarrow> esize P (FunctionCall a args) = Some 0"
| "stmt_ok P (MethodCall a recv args) \<longleftrightarrow> esize P (MethodCall a recv args) = Some 0"
| "stmt_ok P _ \<longleftrightarrow> False"

text \<open>Every callable that is called directly has a body of such statements.\<close>

definition callees_ok :: "program \<Rightarrow> bool" where
  "callees_ok P \<longleftrightarrow> (\<forall>a c. callable_at P a = Some c \<longrightarrow> \<not> c_reaction c \<longrightarrow> stmt_ok P (c_body c))"

section \<open>Executions that keep to it\<close>

definition disciplined :: "program \<Rightarrow> run \<Rightarrow> bool" where
  "disciplined P run \<longleftrightarrow>
     (\<forall>c n m r m'. esize P c = Some n \<longrightarrow> settled (tos m) m \<longrightarrow> run c m = Inr (r, m') \<longrightarrow>
        r = Control_Continue \<and> grown (tos m) n m m') \<and>
     (\<forall>c m r m'. stmt_ok P c \<longrightarrow> settled (tos m) m \<longrightarrow> run c m = Inr (r, m') \<longrightarrow> grown (tos m) 0 m m')"

lemma operand_grown:
  assumes "disciplined P run" "esize P c = Some n" "grown b k m0 m" "operand run c m = Inr m'"
  shows "grown b (k + n) m0 m'"
proof -
  obtain r where "run c m = Inr (r, m')" using assms(4) by (auto simp: operand_def outcome_simps)
  then have "grown (tos m) n m m'" using assms(1,2) grown_ready[OF assms(3)] by (auto simp: disciplined_def)
  then show ?thesis by (rule grown_trans[OF assms(3)])
qed

lemma run_expr:
  assumes "disciplined P run" "esize P c = Some n" "grown b k m0 m" "run c m = Inr (r, m')"
  shows "r = Control_Continue" "grown b (k + n) m0 m'"
  using assms(1,2,4) grown_ready[OF assms(3)] grown_trans[OF assms(3)] by (auto simp: disciplined_def)

lemma run_stmt:
  assumes "disciplined P run" "stmt_ok P c" "grown b k m0 m" "run c m = Inr (r, m')"
  shows "grown b k m0 m'"
proof -
  have "grown (tos m) 0 m m'" using assms(1,2,4) grown_ready[OF assms(3)] by (auto simp: disciplined_def)
  then show ?thesis using grown_trans[OF assms(3)] by fastforce
qed

lemma length_load_from: "load_from p n m = Inr bs \<Longrightarrow> length bs = n"
  by (auto simp: load_from_def read_mem_def stack_limit_def split: if_splits)

lemma sized_Some: "sized r = Some n \<longleftrightarrow> (\<exists>s. r = Inr s \<and> n = aligned_size s)"
  by (auto simp: sized_def split: sum.splits)

lemma slot_nonneg [simp]: "0 \<le> slot_bytes n"
  by (simp add: slot_bytes_def)

lemma slots [simp]: "slot_bytes 16 = 16" "slot_bytes 24 = 24" "slot_bytes (Suc 0) = 8" "slot_bytes 8 = 8"
  by (simp_all add: slot_bytes_def aligned_size_def align_up_def stack_alignment_def)

lemma slot_scalar [simp]: "scalar_ok t \<Longrightarrow> slot_bytes (scalar_size t) = 8"
  by (simp add: slot_bytes_def)

lemma aligned_slot [simp]: "aligned_size (of_nat n) = slot_bytes n"
  by (simp add: slot_bytes_def)


lemma scalars_ok [simp]: "scalar_ok Bool_Scalar" "scalar_ok (Int_Scalar 8 b)" "scalar_ok t \<Longrightarrow> scalar_ok (result_scalar t f)"
  by (simp_all add: scalar_ok_def result_scalar_def)

text \<open>The steps again, with the sizes in slots.\<close>

lemma push_value_slot: "grown b k m0 m \<Longrightarrow> push_value bs m = Inr m' \<Longrightarrow> grown b (k + slot_bytes (length bs)) m0 m'"
  by (drule (1) push_value_grown) simp

lemma pop_value_slot:
  "grown b k m0 m \<Longrightarrow> pop_value n m = Inr (bs, m') \<Longrightarrow> slot_bytes n \<le> k \<Longrightarrow> grown b (k - slot_bytes n) m0 m'"
  by (drule (1) pop_value_grown) simp_all

lemma push_scalar_slot: "scalar_ok t \<Longrightarrow> grown b k m0 m \<Longrightarrow> push_scalar t i m = Inr m' \<Longrightarrow> grown b (k + 8) m0 m'"
  by (drule (1) push_scalar_grown) simp

lemma pop_scalar_slot:
  "scalar_ok t \<Longrightarrow> grown b k m0 m \<Longrightarrow> pop_scalar t m = Inr (i, m') \<Longrightarrow> 8 \<le> k \<Longrightarrow> grown b (k - 8) m0 m'"
  by (drule (1) pop_scalar_grown) simp_all

text \<open>An operand followed by the pop of its value.\<close>

lemma operand_pop:
  assumes "disciplined P run" "esize P c = Some (slot_bytes n)" "grown b k m0 m" "operand run c m = Inr m1"
    "pop_value n m1 = Inr (bs, m')"
  shows "grown b k m0 m'"
  using pop_value_slot[OF operand_grown[OF assms(1-4)] assms(5)] assms(3) by (simp add: grown_def)

lemma operand_pop_ptr:
  assumes "disciplined P run" "esize P c = Some 8" "grown b k m0 m" "operand run c m = Inr m1" "pop_ptr m1 = Inr (p, m')"
  shows "grown b k m0 m'"
  using pop_ptr_grown[OF operand_grown[OF assms(1-4)] assms(5)] assms(3) by (simp add: grown_def)

lemma operand_pop_scalar:
  assumes "disciplined P run" "esize P c = Some 8" "grown b k m0 m" "operand run c m = Inr m1"
    "pop_scalar t m1 = Inr (i, m')" "scalar_ok t"
  shows "grown b k m0 m'"
  using pop_scalar_slot[OF assms(6) operand_grown[OF assms(1-4)] assms(5)] assms(3) by (simp add: grown_def)

section \<open>Expressions\<close>

text \<open>A result that continues with \<open>n\<close> more bytes.\<close>

definition yields :: "int \<Rightarrow> machine \<Rightarrow> control \<times> machine \<Rightarrow> bool" where
  "yields n m r \<longleftrightarrow> fst r = Control_Continue \<and> grown (tos m) n m (snd r)"

lemma load_yields:
  assumes D: "disciplined P run" and g: "settled (tos m) m" and e: "esize P c = Some 8" "size_of P t = Inr s"
    and x: "execute_load P run c t m = Inr r"
  shows "yields (aligned_size s) m r"
proof -
  obtain m1 p m2 bs m3 where s: "operand run c m = Inr m1" "pop_ptr m1 = Inr (p, m2)"
    "load_from p (unat s) m2 = Inr bs" "push_value bs m2 = Inr m3" "r = (Control_Continue, m3)"
    using x e by (auto simp: execute_load_def continue_def outcome_simps)
  note g2 = operand_pop_ptr[OF D e(1) grown_start[OF g] s(1,2)]
  have "slot_bytes (length bs) = aligned_size s" using length_load_from[OF s(3)] by (simp add: slot_bytes_def)
  then show ?thesis using push_value_slot[OF g2 s(4)] s(5) by (simp add: yields_def)
qed

lemma select_yields:
  assumes D: "disciplined P run" and g: "settled (tos m) m" and e: "esize P b = Some 8"
    and x: "execute_select run b off m = Inr r"
  shows "yields 8 m r"
proof -
  obtain m1 p m2 m3 where s: "operand run b m = Inr m1" "pop_ptr m1 = Inr (p, m2)"
    "push_ptr (p + off) m2 = Inr m3" "r = (Control_Continue, m3)"
    using x by (auto simp: execute_select_def continue_def outcome_simps)
  show ?thesis
    using push_ptr_grown[OF operand_pop_ptr[OF D e grown_start[OF g] s(1,2)] s(3)] s(4) by (simp add: yields_def)
qed

lemma push_element_yields:
  "grown (tos m) 0 m m1 \<Longrightarrow> push_element P t p i m1 = Inr r \<Longrightarrow> yields 8 m r"
  using push_ptr_grown[of "tos m" 0 m m1]
  by (auto simp: push_element_def continue_def yields_def outcome_simps)

lemma index_array_yields:
  assumes D: "disciplined P run" and g: "settled (tos m) m" and e: "esize P b = Some 8" "esize P i = Some 8"
    and x: "execute_index_array P run b i t m = Inr r"
  shows "yields 8 m r"
proof -
  obtain m1 p m2 m3 j m4 el where s: "operand run b m = Inr m1" "pop_ptr m1 = Inr (p, m2)"
    "operand run i m2 = Inr m3" "pop_scalar Long m3 = Inr (j, m4)" "push_element P el p j m4 = Inr r"
    using x by (cases t) (auto simp: execute_index_array_def outcome_simps split: if_splits)
  note g2 = operand_pop_ptr[OF D e(1) grown_start[OF g] s(1,2)]
  show ?thesis
    by (rule push_element_yields[OF operand_pop_scalar[OF D e(2) g2 s(3,4)] s(5)]) simp
qed

lemma index_slice_yields:
  assumes D: "disciplined P run" and g: "settled (tos m) m" and e: "esize P b = Some 24" "esize P i = Some 8"
    and x: "execute_index_slice P run b i t m = Inr r"
  shows "yields 8 m r"
proof -
  obtain m1 bs m2 m3 j m4 el p where s: "operand run b m = Inr m1" "pop_value 24 m1 = Inr (bs, m2)"
    "operand run i m2 = Inr m3" "pop_scalar Long m3 = Inr (j, m4)" "push_element P el p j m4 = Inr r"
    using x by (cases t) (auto simp: execute_index_slice_def outcome_simps split: if_splits)
  have g2: "grown (tos m) 0 m m2" by (rule operand_pop[OF D _ grown_start[OF g] s(1,2)]) (simp add: e)
  show ?thesis
    by (rule push_element_yields[OF operand_pop_scalar[OF D e(2) g2 s(3,4)] s(5)]) simp
qed

abbreviation bound_ok :: "program \<Rightarrow> operation option \<Rightarrow> bool" where
  "bound_ok P c \<equiv> pred_option (\<lambda>c. esize P c = Some 8) c"

lemma bound_grown:
  assumes D: "disciplined P run" and g: "grown b k m0 m" and e: "bound_ok P c" and x: "bound run c d m = Inr (i, m')"
  shows "grown b k m0 m'"
  using x g e operand_pop_scalar[OF D _ g]
  by (cases c) (fastforce simp: bound_def outcome_simps)+

lemma bounds_grown:
  assumes D: "disciplined P run" and g: "grown b k m0 m" and e: "bound_ok P l" "bound_ok P h" "bound_ok P u"
    and x: "bounds run l h u len cap m = Inr (v, m')"
  shows "grown b k m0 m'"
proof -
  obtain i m1 j m2 o' where s: "bound run l 0 m = Inr (i, m1)" "bound run h len m1 = Inr (j, m2)"
    "bound run u cap m2 = Inr (o', m')"
    using x by (auto simp: bounds_def outcome_simps)
  show ?thesis by (rule bound_grown[OF D bound_grown[OF D bound_grown[OF D g e(1) s(1)] e(2) s(2)] e(3) s(3)])
qed


lemma push_slice_yields:
  "grown (tos m) 0 m m1 \<Longrightarrow> push_value (slice_bytes s) m1 = Inr m2 \<Longrightarrow> yields 24 m (Control_Continue, m2)"
  using push_value_slot[of "tos m" 0 m m1 "slice_bytes s" m2] by (simp add: yields_def)

lemma slice_array_yields:
  assumes D: "disciplined P run" and g: "settled (tos m) m"
    and e: "esize P b = Some 8" "bound_ok P lo" "bound_ok P hi" "bound_ok P mx"
    and x: "execute_slice_array P run b lo hi mx t m = Inr r"
  shows "yields 24 m r"
proof -
  obtain m1 p m2 d l h u m3 s m4 where s: "operand run b m = Inr m1" "pop_ptr m1 = Inr (p, m2)"
    "bounds run lo hi mx d d m2 = Inr ((l, h, u), m3)" "push_value (slice_bytes s) m3 = Inr m4" "r = (Control_Continue, m4)"
    using x by (cases t) (auto simp: execute_slice_array_def continue_def outcome_simps split: if_splits)
  note g2 = operand_pop_ptr[OF D e(1) grown_start[OF g] s(1,2)]
  show ?thesis unfolding s(5) by (rule push_slice_yields[OF bounds_grown[OF D g2 e(2-4) s(3)] s(4)])
qed

lemma slice_slice_yields:
  assumes D: "disciplined P run" and g: "settled (tos m) m"
    and e: "esize P b = Some 24" "bound_ok P lo" "bound_ok P hi" "bound_ok P mx"
    and x: "execute_slice_slice P run b lo hi mx t m = Inr r"
  shows "yields 24 m r"
proof -
  obtain m1 bs m2 d c l h u m3 s m4 where s: "operand run b m = Inr m1" "pop_value 24 m1 = Inr (bs, m2)"
    "bounds run lo hi mx d c m2 = Inr ((l, h, u), m3)" "push_value (slice_bytes s) m3 = Inr m4" "r = (Control_Continue, m4)"
    using x by (cases t) (auto simp: execute_slice_slice_def continue_def outcome_simps Let_def split: if_splits)
  have g2: "grown (tos m) 0 m m2" by (rule operand_pop[OF D _ grown_start[OF g] s(1,2)]) (simp add: e)
  show ?thesis unfolding s(5) by (rule push_slice_yields[OF bounds_grown[OF D g2 e(2-4) s(3)] s(4)])
qed

lemma number_apply_length:
  "number_ok t \<Longrightarrow> number_apply P t f xs ys = Inr bs \<Longrightarrow> length bs = result_size t f"
  by (cases t) (auto simp: result_size_def result_scalar_def outcome_simps split: if_splits)

lemma binary_yields:
  assumes D: "disciplined P run" and g: "settled (tos m) m"
    and e: "esize P l = Some (slot_bytes (number_size t))" "esize P c = Some (slot_bytes (number_size t))" "number_ok t"
    and x: "execute_binary P run t f l c m = Inr r"
  shows "yields (slot_bytes (result_size t f)) m r"
proof -
  obtain m1 xs m2 m3 ys m4 bs m5 where s: "operand run l m = Inr m1" "pop_value (number_size t) m1 = Inr (xs, m2)"
    "operand run c m2 = Inr m3" "pop_value (number_size t) m3 = Inr (ys, m4)"
    "number_apply P t f xs ys = Inr bs" "push_value bs m4 = Inr m5" "r = (Control_Continue, m5)"
    using x by (auto simp: execute_binary_def continue_def outcome_simps)
  note g4 = operand_pop[OF D e(2) operand_pop[OF D e(1) grown_start[OF g] s(1,2)] s(3,4)]
  show ?thesis
    using push_value_slot[OF g4 s(6)] number_apply_length[OF e(3) s(5)] s(7) by (simp add: yields_def)
qed

lemma push_scalar_yields:
  "scalar_ok t \<Longrightarrow> grown (tos m) 0 m m1 \<Longrightarrow> push_scalar t i m1 = Inr m2 \<Longrightarrow> yields 8 m (Control_Continue, m2)"
  using push_scalar_slot[of t "tos m" 0 m m1 i m2] by (simp add: yields_def)

lemma shift_yields:
  assumes D: "disciplined P run" and g: "settled (tos m) m"
    and e: "esize P l = Some 8" "esize P c = Some 8" "scalar_ok t"
    and x: "execute_shift run t left l c m = Inr r"
  shows "yields 8 m r"
proof -
  obtain m1 a m2 m3 b m4 z m5 where s: "operand run l m = Inr m1" "pop_scalar t m1 = Inr (a, m2)"
    "operand run c m2 = Inr m3" "pop_scalar Unsigned_Long m3 = Inr (b, m4)"
    "push_scalar t z m4 = Inr m5" "r = (Control_Continue, m5)"
    using x by (auto simp: execute_shift_def continue_def outcome_simps)
  note g2 = operand_pop_scalar[OF D e(1) grown_start[OF g] s(1,2) e(3)]
  note g4 = operand_pop_scalar[OF D e(2) g2 s(3,4) scalars_ok(2)]
  show ?thesis unfolding s(6) by (rule push_scalar_yields[OF e(3) g4 s(5)])
qed

lemma not_yields:
  assumes D: "disciplined P run" and g: "settled (tos m) m" and e: "esize P c = Some 8"
    and x: "execute_not run c m = Inr r"
  shows "yields 8 m r"
proof -
  obtain m1 a m2 m3 z where s: "operand run c m = Inr m1" "pop_scalar Bool_Scalar m1 = Inr (a, m2)"
    "push_scalar Bool_Scalar z m2 = Inr m3" "r = (Control_Continue, m3)"
    using x by (auto simp: execute_not_def continue_def outcome_simps)
  show ?thesis unfolding s(4)
    by (rule push_scalar_yields[OF scalars_ok(1) operand_pop_scalar[OF D e grown_start[OF g] s(1,2) scalars_ok(1)] s(3)])
qed

lemma operand_yields:
  assumes D: "disciplined P run" and e: "esize P c = Some n" and g: "grown (tos m) 0 m m1"
    and x: "operand run c m1 = Inr m2"
  shows "yields n m (Control_Continue, m2)"
  using operand_grown[OF D e g x] by (simp add: yields_def)

lemma logic_yields:
  assumes D: "disciplined P run" and g: "settled (tos m) m" and e: "esize P l = Some 8" "esize P c = Some 8"
    and x: "execute_logic run stop l c m = Inr r"
  shows "yields 8 m r"
proof -
  obtain m1 b m2 m3 where s: "operand run l m = Inr m1" "pop_scalar Bool_Scalar m1 = Inr (b, m2)"
    "push_scalar Bool_Scalar b m2 = Inr m3 \<or> operand run c m2 = Inr m3" "r = (Control_Continue, m3)"
    using x by (auto simp: execute_logic_def continue_def outcome_simps split: if_splits)
  note g2 = operand_pop_scalar[OF D e(1) grown_start[OF g] s(1,2) scalars_ok(1)]
  show ?thesis unfolding s(4)
    using s(3) push_scalar_yields[OF scalars_ok(1) g2] operand_yields[OF D e(2) g2] by blast
qed

lemma length_convert_number [simp]: "length (convert_number P t u bs) = number_size u"
  by (auto simp: convert_number_def split: number.splits)

lemma conversion_yields:
  assumes D: "disciplined P run" and g: "settled (tos m) m" and e: "esize P c = Some (slot_bytes (number_size t))"
    and x: "execute_conversion P run t u c m = Inr r"
  shows "yields (slot_bytes (number_size u)) m r"
proof -
  obtain m1 bs m2 m3 where s: "operand run c m = Inr m1" "pop_value (number_size t) m1 = Inr (bs, m2)"
    "push_value (convert_number P t u bs) m2 = Inr m3" "r = (Control_Continue, m3)"
    using x by (auto simp: execute_conversion_def continue_def outcome_simps)
  show ?thesis
    using push_value_slot[OF operand_pop[OF D e grown_start[OF g] s(1,2)] s(3)] s(4) by (simp add: yields_def)
qed

text \<open>Operations that allocate.\<close>

lemma duplicate_grown: "grown b k m0 m \<Longrightarrow> duplicate P p n m = Inr (q, m') \<Longrightarrow> grown b k m0 m'"
  by (auto simp: duplicate_def outcome_simps intro: store_at_grown allocate_grown)

lemma new_yields:
  assumes g: "settled (tos m) m" and x: "execute_new P t m = Inr r"
  shows "yields 8 m r"
proof -
  obtain sz p m1 m2 where s: "allocate (p_storage P) sz m = Inr (p, m1)" "push_ptr p m1 = Inr m2" "r = (Control_Continue, m2)"
    using x by (auto simp: execute_new_def continue_def outcome_simps)
  show ?thesis using push_ptr_grown[OF allocate_grown[OF grown_start[OF g] s(1)] s(2)] s(3) by (simp add: yields_def)
qed

lemma push_string_yields:
  "grown (tos m) 0 m m1 \<Longrightarrow> push_value (string_bytes p n) m1 = Inr m2 \<Longrightarrow> yields 16 m (Control_Continue, m2)"
  using push_value_slot[of "tos m" 0 m m1 "string_bytes p n" m2] by (simp add: yields_def)

lemma string_to_slice_yields:
  assumes D: "disciplined P run" and g: "settled (tos m) m" and e: "esize P c = Some 16"
    and x: "execute_string_to_slice P run c m = Inr r"
  shows "yields 24 m r"
proof -
  obtain m1 bs m2 p n q m3 s m4 where s: "operand run c m = Inr m1" "pop_value 16 m1 = Inr (bs, m2)"
    "duplicate P p n m2 = Inr (q, m3)" "push_value (slice_bytes s) m3 = Inr m4" "r = (Control_Continue, m4)"
    using x by (auto simp: execute_string_to_slice_def string_of_def continue_def outcome_simps)
  have g2: "grown (tos m) 0 m m2" by (rule operand_pop[OF D _ grown_start[OF g] s(1,2)]) (simp add: e)
  show ?thesis unfolding s(5) by (rule push_slice_yields[OF duplicate_grown[OF g2 s(3)] s(4)])
qed

lemma slice_to_string_yields:
  assumes D: "disciplined P run" and g: "settled (tos m) m" and e: "esize P c = Some 24"
    and x: "execute_slice_to_string P run c m = Inr r"
  shows "yields 16 m r"
proof -
  obtain m1 bs m2 p n q m3 l m4 where s: "operand run c m = Inr m1" "pop_value 24 m1 = Inr (bs, m2)"
    "duplicate P p n m2 = Inr (q, m3)" "push_value (string_bytes q l) m3 = Inr m4" "r = (Control_Continue, m4)"
    using x by (auto simp: execute_slice_to_string_def continue_def outcome_simps)
  have g2: "grown (tos m) 0 m m2" by (rule operand_pop[OF D _ grown_start[OF g] s(1,2)]) (simp add: e)
  show ?thesis unfolding s(5) by (rule push_string_yields[OF duplicate_grown[OF g2 s(3)] s(4)])
qed

lemma len_yields:
  assumes D: "disciplined P run" and g: "settled (tos m) m" and e: "esize P c = Some 24"
    and x: "execute_len run c m = Inr r"
  shows "yields 8 m r"
proof -
  obtain m1 bs m2 i m3 where s: "operand run c m = Inr m1" "pop_value 24 m1 = Inr (bs, m2)"
    "push_scalar Long i m2 = Inr m3" "r = (Control_Continue, m3)"
    using x by (auto simp: execute_len_def continue_def outcome_simps)
  have g2: "grown (tos m) 0 m m2" by (rule operand_pop[OF D _ grown_start[OF g] s(1,2)]) (simp add: e)
  show ?thesis unfolding s(4) by (rule push_scalar_yields[OF scalars_ok(2) g2 s(3)])
qed

lemma append_element_grown:
  assumes g: "grown b k m0 m" and x: "append_element P u s y m = Inr (s', m')"
  shows "grown b k m0 m'"
proof -
  have store: "grown b k m0 m3" if "store_at p bs m2 = Inr m3" "grown b k m0 m2" for p bs m2 m3
    using that store_at_grown by blast
  show ?thesis
    using x g by (auto simp: append_element_def Let_def outcome_simps split: if_splits intro: store dest: allocate_grown)
qed

lemma append_yields:
  assumes D: "disciplined P run" and g: "settled (tos m) m" and e: "esize P c = Some 32"
    and x: "execute_append P run t c m = Inr r"
  shows "yields 24 m r"
proof -
  obtain m1 y m2 bs m3 u s m4 m5 where s: "operand run c m = Inr m1" "pop_value 1 m1 = Inr (y, m2)"
    "pop_value 24 m2 = Inr (bs, m3)" "append_element P u (slice_of bs) y m3 = Inr (s, m4)"
    "push_value (slice_bytes s) m4 = Inr m5" "r = (Control_Continue, m5)"
    using x by (cases t) (auto simp: execute_append_def continue_def outcome_simps)
  have "grown (tos m) 24 m m2" using pop_value_slot[OF operand_grown[OF D e grown_start[OF g] s(1)] s(2)] by simp
  then have "grown (tos m) 0 m m3" using pop_value_slot[OF _ s(3)] by fastforce
  from push_slice_yields[OF append_element_grown[OF this s(4)] s(5)] show ?thesis by (simp add: s(6))
qed

lemma copy_yields:
  assumes D: "disciplined P run" and g: "settled (tos m) m" and e: "esize P (CopyOp t c) = Some n"
    and x: "execute_copy P run t c m = Inr r"
  shows "yields n m r"
proof -
  obtain m1 where o1: "operand run c m = Inr m1" using x by (auto simp: execute_copy_def outcome_simps)
  consider e' where "underlying_type (p_types P) t = Slice e'" | "underlying_type (p_types P) t = Basic String"
    using e by (cases "underlying_type (p_types P) t") (auto split: singleton.splits)
  then show ?thesis
  proof cases
    case 1
    obtain bs m2 p k q m3 s m4 where s: "pop_value 24 m1 = Inr (bs, m2)" "duplicate P p k m2 = Inr (q, m3)"
      "push_value (slice_bytes s) m3 = Inr m4" "r = (Control_Continue, m4)"
      using x o1 1 by (auto simp: execute_copy_def continue_def outcome_simps Let_def)
    have "esize P c = Some (slot_bytes 24)" "n = 24" using e 1 by (auto split: if_splits)
    then show ?thesis
      using push_slice_yields[OF duplicate_grown[OF operand_pop[OF D _ grown_start[OF g] o1 s(1)] s(2)] s(3)] s(4) by simp
  next
    case 2
    obtain bs m2 p k q m3 l m4 where s: "pop_value 16 m1 = Inr (bs, m2)" "duplicate P p k m2 = Inr (q, m3)"
      "push_value (string_bytes q l) m3 = Inr m4" "r = (Control_Continue, m4)"
      using x o1 2 by (auto simp: execute_copy_def string_of_def continue_def outcome_simps Let_def)
    have "esize P c = Some (slot_bytes 16)" "n = 16" using e 2 by (auto split: if_splits)
    then show ?thesis
      using push_string_yields[OF duplicate_grown[OF operand_pop[OF D _ grown_start[OF g] o1 s(1)] s(2)] s(3)] s(4) by simp
  qed
qed


section \<open>Calls and lists\<close>

lemma call_frame_yields:
  assumes D: "disciplined P run" and g: "grown b (k + aligned_size n) m0 m" and k: "0 \<le> k"
    and c: "stmt_ok P (c_body c)" "list_size P (c_parameters c) = Inr n" and x: "call_frame P run c m = Inr (r, m')"
  shows "r = Control_Continue" "grown b k m0 m'"
proof -
  obtain m1 m2 rr m3 m4 p m5 where s: "push_ptr 0 m = Inr m1" "enter_frame (c_locals c) m1 = Inr m2"
    "run (c_body c) m2 = Inr (rr, m3)" "leave_frame m3 = Inr m4" "pop_ptr m4 = Inr (p, m5)"
    "on_stack (\<lambda>st. popn st n) m5 = Inr m'" "r = Control_Continue"
    using x c(2) by (auto simp: call_frame_def operand_def continue_def outcome_simps)
  note g1 = push_ptr_grown[OF g s(1)]
  have k1: "8 \<le> k + aligned_size n + 8" using k by simp
  have "settled (tos m2) m2" by (rule enter_frame_effect(1)[OF grown_ready[OF g1] s(2) frame_room[OF g1 k1]])
  then have "grown (tos m2) 0 m2 m3" using run_stmt[OF D c(1) grown_start s(3)] by blast
  note g4 = frame_call[OF g1 k1 s(2) this s(4)]
  have g5: "grown b (k + aligned_size n) m0 m5" using pop_ptr_grown[OF g4 s(5)] k by simp
  show "grown b k m0 m'" using popn_grown[OF g5 s(6)] k by simp
  show "r = Control_Continue" by (rule s(7))
qed

lemma function_call_yields:
  assumes D: "disciplined P run" and P: "callees_ok P" and g: "settled (tos m) m"
    and e: "esize P (FunctionCall a args) = Some n" and x: "execute_function_call P run a args m = Inr r"
  shows "yields n m r"
proof -
  obtain c where c: "callable_at P a = Some c" "\<not> c_reaction c" using e by (auto split: option.splits if_splits)
  obtain k q where k: "list_size P (c_parameters c) = Inr k" "esize P args = Some (aligned_size k)"
    "list_size P (c_return c) = Inr q" "n = aligned_size q"
    using e c by (auto simp: sized_def split: if_splits sum.splits)
  obtain m1 m2 where s: "on_stack (\<lambda>st. reserve st q) m = Inr m1" "operand run args m1 = Inr m2"
    "call_frame P run c m2 = Inr r"
    using x c k by (auto simp: execute_function_call_def the_callable_def with_return_def outcome_simps)
  note g1 = reserve_grown[OF grown_start[OF g] s(1)]
  have b: "stmt_ok P (c_body c)" using P c by (simp add: callees_ok_def)
  show ?thesis
    using call_frame_yields[OF D operand_grown[OF D k(2) g1 s(2)] _ b k(1)] s(3) k(4)
    by (cases r) (auto simp: yields_def)
qed

lemma method_call_yields:
  assumes D: "disciplined P run" and P: "callees_ok P" and g: "settled (tos m) m"
    and e: "esize P (MethodCall a recv args) = Some n" and x: "execute_method_call P run a recv args m = Inr r"
  shows "yields n m r"
proof -
  obtain c where c: "callable_at P a = Some c" "\<not> c_reaction c" using e by (auto split: option.splits if_splits)
  obtain k i j q where k: "list_size P (c_parameters c) = Inr k" "esize P recv = Some i" "esize P args = Some j"
    "aligned_size k = i + j" "list_size P (c_return c) = Inr q" "n = aligned_size q"
    using e c by (auto simp: sized_Some split: if_splits option.splits)
  obtain m1 m2 m3 where s: "on_stack (\<lambda>st. reserve st q) m = Inr m1" "operand run recv m1 = Inr m2"
    "operand run args m2 = Inr m3" "call_frame P run c m3 = Inr r"
    using x c k by (auto simp: execute_method_call_def the_callable_def with_return_def outcome_simps)
  note g1 = reserve_grown[OF grown_start[OF g] s(1)]
  have b: "stmt_ok P (c_body c)" using P c by (simp add: callees_ok_def)
  have "grown (tos m) (0 + aligned_size q + aligned_size k) m m3"
    using operand_grown[OF D k(3) operand_grown[OF D k(2) g1 s(2)] s(3)] by (simp add: k(4) add.assoc)
  from call_frame_yields[OF D this _ b k(1)] show ?thesis
    using s(4) k(6) by (cases r) (auto simp: yields_def)
qed

lemma list_yields:
  assumes D: "disciplined P run"
  shows "esizes P cs = Some n \<Longrightarrow> grown b k m0 m \<Longrightarrow> execute_list run cs m = Inr (r, m') \<Longrightarrow>
    r = Control_Continue \<and> grown b (k + n) m0 m'"
proof (induction cs arbitrary: n k m)
  case Nil
  then show ?case by (simp add: continue_def)
next
  case (Cons c cs)
  obtain i j where ij: "esize P c = Some i" "esizes P cs = Some j" "n = i + j"
    using Cons.prems(1) by (auto split: option.splits)
  obtain q m1 where m1: "run c m = Inr (q, m1)"
    "if q = Control_Return then Inr (q, m1) = Inr (r, m') else execute_list run cs m1 = Inr (r, m')"
    using Cons.prems(3) by (auto simp: outcome_simps split: if_splits)
  note c = run_expr[OF D ij(1) Cons.prems(2) m1(1)]
  then show ?case using Cons.IH[OF ij(2) c(2)] m1(2) ij(3) by (simp add: add.assoc)
qed

lemma set_restore_steps:
  assumes "execute_set_restore run c off m = Inr (r, m')"
  obtains i m1 where "run c (m\<lparr>current_info := i\<rparr>) = Inr (r, m1)" "m' = m1\<lparr>current_info := current_info m\<rparr>"
  using assms by (auto simp: execute_set_restore_def outcome_simps)

lemma settled_info [simp]: "settled b (m\<lparr>current_info := i\<rparr>) = settled b m"
  by (simp add: settled_def)

lemma grown_info_start [simp]: "grown b k (m\<lparr>current_info := i\<rparr>) m' = grown b k m m'"
  by (simp add: grown_def keeps_def phases_def control_words_def)

lemma set_restore_yields:
  assumes D: "disciplined P run" and g: "settled (tos m) m" and e: "esize P c = Some n"
    and x: "execute_set_restore run c off m = Inr r"
  shows "yields n m r"
proof -
  obtain q m' where r: "r = (q, m')" by (cases r)
  obtain i m1 where s: "run c (m\<lparr>current_info := i\<rparr>) = Inr (q, m1)" "m' = m1\<lparr>current_info := current_info m\<rparr>"
    by (rule set_restore_steps[OF x[unfolded r]])
  have "settled (tos (m\<lparr>current_info := i\<rparr>)) (m\<lparr>current_info := i\<rparr>)" using g by simp
  from run_expr[OF D e grown_start[OF this] s(1)] show ?thesis by (simp add: yields_def r s(2))
qed

text \<open>Every expression yields the bytes it is judged to.\<close>

lemma expr_step:
  assumes D: "disciplined P run" and P: "callees_ok P" and g: "settled (tos m) m"
    and e: "esize P c = Some n" and x: "execute_step P run f c m = Inr r"
  shows "yields n m r"
proof (cases c)
  case (Load c1 t)
  obtain s where s: "esize P c1 = Some 8" "size_of P t = Inr s" "n = aligned_size s"
    using e Load by (auto simp: sized_Some split: if_splits)
  show ?thesis using load_yields[OF D g s(1,2)] x by (simp add: Load s(3))
next
  case (IndexArray b i t)
  then show ?thesis using index_array_yields[OF D g] e x by (auto split: if_splits)
next
  case (IndexSlice b i t)
  then show ?thesis using index_slice_yields[OF D g] e x by (auto split: if_splits)
next
  case (SliceArray b l h u t)
  then show ?thesis using slice_array_yields[OF D g] e x by (auto split: if_splits)
next
  case (SliceSlice b l h u t)
  then show ?thesis using slice_slice_yields[OF D g] e x by (auto split: if_splits)
next
  case (ConvertToInt t c)
  then show ?thesis using conversion_yields[OF D g, of c "Scalar t" "Scalar Long" r] e x by (auto split: if_splits)
next
  case (ConvertToUint t c)
  then show ?thesis using conversion_yields[OF D g, of c "Scalar t" "Scalar Unsigned_Long" r] e x by (auto split: if_splits)
next
  case (Literal bs)
  then show ?thesis using push_value_slot[OF grown_start[OF g], of bs] e x
    by (auto simp: yields_def continue_def outcome_simps)
next
  case (LogicOr l r')
  then show ?thesis using logic_yields[OF D g] e x by (auto split: if_splits)
next
  case (LogicAnd l r')
  then show ?thesis using logic_yields[OF D g] e x by (auto split: if_splits)
next
  case (ListOperation cs)
  then show ?thesis using list_yields[OF D, of cs n "tos m" 0 m m "fst r" "snd r"] grown_start[OF g] e x
    by (auto simp: yields_def)
next
  case (FunctionCall a args)
  then show ?thesis using function_call_yields[OF D P g] e x by simp
next
  case (MethodCall a recv args)
  then show ?thesis using method_call_yields[OF D P g] e x by simp
next
  case (Instance a)
  then show ?thesis using push_ptr_grown[OF grown_start[OF g], of a] e x
    by (auto simp: yields_def continue_def outcome_simps)
next
  case (SetRestoreCurrentInstance c off)
  then show ?thesis using set_restore_yields[OF D g] e x by simp
next
  case (Reference off)
  then show ?thesis using push_ptr_grown[OF grown_start[OF g], of "bp m + off"] e x
    by (auto simp: yields_def execute_reference_def continue_def outcome_simps)
next
  case (Select b off)
  then show ?thesis using select_yields[OF D g] e x by (auto split: if_splits)
next
  case (Unary_Not c)
  then show ?thesis using not_yields[OF D g] e x by (auto split: if_splits)
next
  case (Binary t f' l r')
  have s: "esize P l = Some (slot_bytes (number_size t))" "esize P r' = Some (slot_bytes (number_size t))"
    "number_ok t" "n = slot_bytes (result_size t f')"
    using e Binary by (simp_all split: if_splits)
  show ?thesis using binary_yields[OF D g s(1-3)] x by (simp add: Binary s(4))
next
  case (Shift t left l r')
  then show ?thesis using shift_yields[OF D g] e x by (auto split: if_splits)
next
  case (Conversion t u c1)
  have s: "esize P c1 = Some (slot_bytes (number_size t))" "n = slot_bytes (number_size u)"
    using e Conversion by (simp_all split: if_splits)
  show ?thesis using conversion_yields[OF D g s(1)] x by (simp add: Conversion s(2))
next
  case (ConvertStringToSliceOfBytes c)
  then show ?thesis using string_to_slice_yields[OF D g] e x by (auto split: if_splits)
next
  case (ConvertSliceOfBytesToString c)
  then show ?thesis using slice_to_string_yields[OF D g] e x by (auto split: if_splits)
next
  case (NewOp t)
  then show ?thesis using new_yields[OF g] e x by simp
next
  case (LenOp c)
  then show ?thesis using len_yields[OF D g] e x by (auto split: if_splits)
next
  case (AppendOp t c)
  then show ?thesis using append_yields[OF D g] e x by (auto split: if_splits)
next
  case (CopyOp t c)
  then show ?thesis using copy_yields[OF D g] e x by simp
qed (use e in simp_all)


section \<open>Statements\<close>

text \<open>A result that leaves the top of the stack where it was.\<close>

definition balanced :: "machine \<Rightarrow> control \<times> machine \<Rightarrow> bool" where
  "balanced m r \<longleftrightarrow> grown (tos m) 0 m (snd r)"

lemma assign_balanced:
  assumes D: "disciplined P run" and g: "settled (tos m) m"
    and e: "esize P l = Some 8" "esize P c = Some (aligned_size sz)" and x: "execute_assign run l c sz m = Inr r"
  shows "balanced m r"
proof -
  obtain m1 p m2 m3 bs m4 m5 where s: "operand run l m = Inr m1" "pop_ptr m1 = Inr (p, m2)" "operand run c m2 = Inr m3"
    "pop_value (unat sz) m3 = Inr (bs, m4)" "store_at p bs m4 = Inr m5" "r = (Control_Continue, m5)"
    using x by (auto simp: execute_assign_def continue_def outcome_simps)
  have e2: "esize P c = Some (slot_bytes (unat sz))" using e(2) by (simp add: slot_bytes_def)
  note g2 = operand_pop_ptr[OF D e(1) grown_start[OF g] s(1,2)]
  show ?thesis using store_at_grown[OF operand_pop[OF D e2 g2 s(3,4)] s(5)] s(6) by (simp add: balanced_def)
qed

lemma update_number_grown: "grown b k m0 m \<Longrightarrow> update_number P t f p ys m = Inr (r, m') \<Longrightarrow> grown b k m0 m'"
  by (auto simp: update_number_def continue_def outcome_simps intro: store_at_grown)

lemma add_assign_balanced:
  assumes D: "disciplined P run" and g: "settled (tos m) m"
    and e: "esize P l = Some 8" "esize P c = Some (slot_bytes (number_size t))"
    and x: "execute_add_assign P run t l c m = Inr r"
  shows "balanced m r"
proof -
  obtain m1 p m2 m3 ys m4 where s: "operand run l m = Inr m1" "pop_ptr m1 = Inr (p, m2)" "operand run c m2 = Inr m3"
    "pop_value (number_size t) m3 = Inr (ys, m4)" "update_number P t Adder p ys m4 = Inr r"
    using x by (auto simp: execute_add_assign_def outcome_simps)
  note g4 = operand_pop[OF D e(2) operand_pop_ptr[OF D e(1) grown_start[OF g] s(1,2)] s(3,4)]
  show ?thesis using update_number_grown[OF g4] s(5) by (cases r) (auto simp: balanced_def)
qed

lemma increment_balanced:
  assumes D: "disciplined P run" and g: "settled (tos m) m" and e: "esize P c = Some 8"
    and x: "execute_increment P run t f c m = Inr r"
  shows "balanced m r"
proof -
  obtain m1 p m2 where s: "operand run c m = Inr m1" "pop_ptr m1 = Inr (p, m2)"
    "update_number P t f p (number_one P t) m2 = Inr r"
    using x by (auto simp: execute_increment_def outcome_simps)
  show ?thesis
    using update_number_grown[OF operand_pop_ptr[OF D e grown_start[OF g] s(1,2)]] s(3)
    by (cases r) (auto simp: balanced_def)
qed

lemma return_balanced:
  assumes D: "disciplined P run" and g: "settled (tos m) m" and e: "esize P c = Some (aligned_size sz)"
    and x: "execute_return run c off sz m = Inr r"
  shows "balanced m r"
proof -
  obtain m1 m2 where s: "operand run c m = Inr m1" "move_value off (unat sz) m1 = Inr m2" "r = (Control_Return, m2)"
    using x by (auto simp: execute_return_def outcome_simps)
  show ?thesis
    using move_value_grown[OF operand_grown[OF D e grown_start[OF g] s(1)] s(2)] s(3)
    by (simp add: balanced_def slot_bytes_def)
qed

lemma condition_grown:
  assumes D: "disciplined P run" and e: "esize P c = Some 8" and g: "grown b k m0 m"
    and s: "operand run c m = Inr m1" "pop_scalar Bool_Scalar m1 = Inr (i, m2)"
  shows "grown b k m0 m2"
  by (rule operand_pop_scalar[OF D e g s scalars_ok(1)])

lemma if_balanced:
  assumes D: "disciplined P run" and g: "settled (tos m) m" and e: "esize P c = Some 8" "stmt_ok P t" "stmt_ok P f"
    and x: "execute_if run c t f m = Inr r"
  shows "balanced m r"
proof -
  obtain m1 i m2 where s: "operand run c m = Inr m1" "pop_scalar Bool_Scalar m1 = Inr (i, m2)"
    "run t m2 = Inr r \<or> run f m2 = Inr r"
    using x by (auto simp: execute_if_def outcome_simps split: if_splits)
  note g2 = condition_grown[OF D e(1) grown_start[OF g] s(1,2)]
  show ?thesis
    using s(3) run_stmt[OF D e(2) g2] run_stmt[OF D e(3) g2] by (cases r) (auto simp: balanced_def)
qed

lemma while_balanced:
  assumes D: "disciplined P run" and g: "settled (tos m) m" and e: "esize P c = Some 8" "stmt_ok P b"
    and x: "execute_while run c b m = Inr r"
  shows "balanced m r"
proof -
  obtain m1 i m2 where s: "operand run c m = Inr m1" "pop_scalar Bool_Scalar m1 = Inr (i, m2)"
    "r = (Control_Continue, m2) \<or> (\<exists>q m3. run b m2 = Inr (q, m3) \<and> (r = (q, m3) \<or> run (While c b) m3 = Inr r))"
    using x by (auto simp: execute_while_def continue_def outcome_simps split: if_splits)
  note g2 = condition_grown[OF D e(1) grown_start[OF g] s(1,2)]
  have W: "stmt_ok P (While c b)" using e by simp
  show ?thesis
    using s(3) g2 run_stmt[OF D e(2) g2] run_stmt[OF D W] by (cases r) (fastforce simp: balanced_def)
qed

lemma iota_grown:
  assumes D: "disciplined P run" and e: "stmt_ok P b"
  shows "grown c k m0 m \<Longrightarrow> iota_loop run off b n i m = Inr (r, m') \<Longrightarrow> grown c k m0 m'"
proof (induction n arbitrary: i m)
  case 0
  then show ?case by (simp add: continue_def)
next
  case (Suc n)
  obtain m1 q m2 where s: "store_at (bp m + off) (scalar_bytes Long i) m = Inr m1" "run b m1 = Inr (q, m2)"
    "(q, m2) = (r, m') \<or> iota_loop run off b n (i + 1) m2 = Inr (r, m')"
    using Suc.prems(2) by (auto simp: outcome_simps split: if_splits)
  note g2 = run_stmt[OF D e store_at_grown[OF Suc.prems(1) s(1)] s(2)]
  then show ?case using s(3) Suc.IH by blast
qed

lemma list_grown:
  assumes D: "disciplined P run"
  shows "list_all (stmt_ok P) cs \<Longrightarrow> grown b k m0 m \<Longrightarrow> execute_list run cs m = Inr (r, m') \<Longrightarrow> grown b k m0 m'"
proof (induction cs arbitrary: m)
  case Nil
  then show ?case by (simp add: continue_def)
next
  case (Cons c cs)
  obtain q m1 where s: "run c m = Inr (q, m1)" "(q, m1) = (r, m') \<or> execute_list run cs m1 = Inr (r, m')"
    using Cons.prems(3) by (auto simp: outcome_simps split: if_splits)
  have "grown b k m0 m1" using run_stmt[OF D _ Cons.prems(2) s(1)] Cons.prems(1) by simp
  then show ?case using s(2) Cons.IH Cons.prems(1) by auto
qed

lemma record_grown: "\<not> is_phase e \<Longrightarrow> grown b k m0 m \<Longrightarrow> grown b k m0 (record_event e m)"
  by (simp add: record_event_def grown_event)

lemma print_grown:
  assumes D: "disciplined P run"
  shows "list_all2 (\<lambda>t c. esize P c \<noteq> None \<and> esize P c = sized (size_of P t)) ts cs \<Longrightarrow> grown b k m0 m \<Longrightarrow>
    print_list P run ts cs m = Inr (r, m') \<Longrightarrow> grown b k m0 m'"
proof (induction arbitrary: m rule: list_all2_induct)
  case Nil
  then show ?case by (simp add: continue_def)
next
  case (Cons t ts c cs)
  obtain s where e: "esize P c = Some (aligned_size s)" "size_of P t = Inr s"
    using Cons.hyps by (auto simp: sized_def split: sum.splits)
  obtain m1 bs m2 where s: "operand run c m = Inr m1" "pop_value (unat s) m1 = Inr (bs, m2)"
    "print_list P run ts cs (record_event (Printed t bs) m2) = Inr (r, m')"
    using Cons.prems(2) e(2) by (auto simp: outcome_simps split: if_splits)
  have "esize P c = Some (slot_bytes (unat s))" using e(1) by (simp add: slot_bytes_def)
  from operand_pop[OF D this Cons.prems(1) s(1,2)] show ?case
    using Cons.IH[OF record_grown s(3)] by simp
qed

lemma popn_balanced:
  assumes D: "disciplined P run" and g: "settled (tos m) m" and e: "esize P c = Some (aligned_size sz)"
    and x: "execute_popn run c sz m = Inr r"
  shows "balanced m r"
proof -
  obtain q m1 m2 where s: "run c m = Inr (q, m1)" "on_stack (\<lambda>st. popn st sz) m1 = Inr m2" "r = (q, m2)"
    using x by (auto simp: execute_popn_def outcome_simps)
  have "grown (tos m) (aligned_size sz) m m1" using run_expr(2)[OF D e grown_start[OF g] s(1)] by simp
  from popn_grown[OF this s(2)] show ?thesis by (simp add: balanced_def s(3))
qed

lemma push_balanced:
  assumes D: "disciplined P run" and g: "settled (tos m) m" and e: "stmt_ok P b" and x: "execute_push run b m = Inr r"
  shows "balanced m r"
  using x run_stmt[OF D e grown_start[OF g]]
  by (auto simp: execute_push_def balanced_def outcome_simps intro!: record_grown)

lemma set_restore_balanced:
  assumes D: "disciplined P run" and g: "settled (tos m) m" and e: "stmt_ok P c" and x: "execute_set_restore run c off m = Inr r"
  shows "balanced m r"
proof -
  obtain q m' where r: "r = (q, m')" by (cases r)
  obtain i m1 where s: "run c (m\<lparr>current_info := i\<rparr>) = Inr (q, m1)" "m' = m1\<lparr>current_info := current_info m\<rparr>"
    by (rule set_restore_steps[OF x[unfolded r]])
  have "settled (tos (m\<lparr>current_info := i\<rparr>)) (m\<lparr>current_info := i\<rparr>)" using g by simp
  from run_stmt[OF D e grown_start[OF this] s(1)] show ?thesis by (simp add: balanced_def r s(2))
qed

lemma yields_balanced: "yields 0 m r \<Longrightarrow> balanced m r"
  by (simp add: yields_def balanced_def)

text \<open>Every statement leaves the stack balanced.\<close>

lemma stmt_step:
  assumes D: "disciplined P run" and P: "callees_ok P" and g: "settled (tos m) m"
    and e: "stmt_ok P w" and x: "execute_step P run f w m = Inr r"
  shows "balanced m r"
proof (cases w)
  case (ListOperation cs)
  then show ?thesis using list_grown[OF D _ grown_start[OF g], of cs "fst r" "snd r"] e x by (simp add: balanced_def)
next
  case (SetRestoreCurrentInstance c off)
  then show ?thesis using set_restore_balanced[OF D g] e x by simp
next
  case (Clear off sz)
  then show ?thesis using clear_value_grown[OF grown_start[OF g], of off sz] x
    by (auto simp: balanced_def continue_def outcome_simps)
next
  case (Assign l c1 sz)
  have s: "esize P l = Some 8" "esize P c1 = Some (aligned_size sz)" using e Assign by simp_all
  show ?thesis using assign_balanced[OF D g s] x by (simp add: Assign)
next
  case (AddAssign t l c)
  then show ?thesis using add_assign_balanced[OF D g, of l c t r] e x by simp
next
  case (Return_Operation c off sz)
  then show ?thesis using return_balanced[OF D g] e x by simp
next
  case (If_Operation c t f)
  then show ?thesis using if_balanced[OF D g, of c t f r] e x by simp
next
  case (While c b)
  then show ?thesis using while_balanced[OF D g, of c b r] e x by simp
next
  case (ForIota off limit b)
  then show ?thesis using iota_grown[OF D _ grown_start[OF g], of b off "nat limit" 0 "fst r" "snd r"] e x
    by (simp add: balanced_def execute_for_iota_def split: if_splits)
next
  case (Increment t c)
  then show ?thesis using increment_balanced[OF D g] e x by simp
next
  case (Decrement t c)
  then show ?thesis using increment_balanced[OF D g] e x by simp
next
  case (Push b)
  then show ?thesis using push_balanced[OF D g] e x by simp
next
  case Noop
  then show ?thesis using grown_start[OF g] x by (auto simp: balanced_def continue_def)
next
  case (Popn c sz)
  then show ?thesis using popn_balanced[OF D g] e x by simp
next
  case (PrintlnOp ts cs)
  then show ?thesis using print_grown[OF D _ grown_start[OF g], of ts cs "fst r" "snd r"] e x
    by (simp add: balanced_def)
next
  case (FunctionCall a args)
  then have "esize P w = Some 0" using e by simp
  from yields_balanced[OF expr_step[OF D P g this x]] show ?thesis .
next
  case (MethodCall a recv args)
  then have "esize P w = Some 0" using e by simp
  from yields_balanced[OF expr_step[OF D P g this x]] show ?thesis .
qed (use e in simp_all)

lemma execute_disciplined:
  assumes P: "callees_ok P"
  shows "disciplined P (execute P f)"
proof (induction f)
  case (Suc f)
  have "r = Control_Continue \<and> grown (tos m) n m m'"
    if "esize P c = Some n" "settled (tos m) m" "execute P (Suc f) c m = Inr (r, m')" for c n m r m'
    using expr_step[OF Suc.IH P that(2,1), of f "(r, m')"] that(3) by (simp add: yields_def)
  moreover have "grown (tos m) 0 m m'"
    if "stmt_ok P c" "settled (tos m) m" "execute P (Suc f) c m = Inr (r, m')" for c m r m'
    using stmt_step[OF Suc.IH P that(2,1), of f "(r, m')"] that(3) by (simp add: balanced_def)
  ultimately show ?case unfolding disciplined_def by blast
qed (simp add: disciplined_def)

text \<open>
  A statement that is just a variable or a parameter: the code generator pops the bytes of its type, but
  the operation has pushed its address, so the top of the stack moves unless the size is that of a pointer.
\<close>

lemma variable_statement_moves_top:
  assumes "settled (tos m) m" "execute P (Suc (Suc f)) (Popn (Reference off) sz) m = Inr (r, m')"
  shows "tos m' = tos m + 8 - aligned_size sz"
  using assms(2)
  by (auto simp: execute_popn_def execute_reference_def continue_def push_ptr_def on_stack_def outcome_simps
      dest!: push_pointer_pushes popn_lowers(1)) (simp add: pushes_def)

section \<open>The top of the stack after an execution\<close>

text \<open>C14: For a program whose callables have judged bodies, an operation judged to be an expression of n bytes
  continues and leaves exactly n bytes more on the stack, an operation judged to be a statement leaves the top of the
  stack where it was, and either leaves the stack well-formed, its frames, its base pointer and the
  control words of all frames as they were.\<close>

theorem execution_keeps_stack:
  assumes "callees_ok P" "settled (tos m) m" "execute P f c m = Inr (r, m')"
  shows "(\<forall>n. esize P c = Some n \<longrightarrow> r = Control_Continue \<and> tos m' = tos m + n) \<and>
     (stmt_ok P c \<longrightarrow> tos m' = tos m) \<and>
     (esize P c \<noteq> None \<or> stmt_ok P c \<longrightarrow>
        stack_wf (the_stack m') \<and> bp m' = bp m \<and> live_frames m' = live_frames m \<and>
        (\<forall>f \<in> set (live_frames m). control_words m' f = control_words m f))"
proof -
  note D = execute_disciplined[OF assms(1), of f]
  have e: "r = Control_Continue \<and> grown (tos m) n m m'" if "esize P c = Some n" for n
    using D that assms(2,3) by (simp add: disciplined_def)
  have s: "grown (tos m) 0 m m'" if "stmt_ok P c"
    using D that assms(2,3) by (simp add: disciplined_def)
  show ?thesis using e s by (auto simp: grown_def settled_def keeps_def)
qed

text \<open>A function that squares its argument, called with -9 on an empty stack.\<close>

definition int_parameter :: "parameter_kind \<Rightarrow> parameter_list" where
  "int_parameter k = Parameter_List [Parameter ''n'' (Basic Intt) Immutable Immutable k] False"

definition square :: callable where
  "square = \<lparr>c_parameters = int_parameter Ordinary, c_return = int_parameter Return, c_locals = 0, c_dimension = - 1,
     c_body = Return_Operation (Binary (Scalar Long) Multiplier (Load (Reference (- 16)) (Basic Intt))
                (Load (Reference (- 16)) (Basic Intt))) (- 24) 8, c_reaction = False\<rparr>"

definition calling :: "callable \<Rightarrow> program" where
  "calling f = \<lparr>p_types = NamedType, p_nesting = 3, callable_at = [1000 \<mapsto> f], code_at = Map.empty, p_storage = id,
     float_apply = (\<lambda>k f xs ys. []), float_one = (\<lambda>k. []), float_convert = (\<lambda>t u bs. [])\<rparr>"

definition fresh_machine :: machine where
  "fresh_machine = \<lparr>the_stack = make_stack 4096 64, the_memory = (\<lambda>a. 0), live_frames = [], phase_pointer = 0,
     current_info = 0, info_heap = (\<lambda>i. \<lparr>h_self = 0, h_block = Leaf, h_free = [], h_allocated = 0,
       h_next_block = 0, h_next_collection = 0, h_begin = 0, h_end = 0, h_parent = None, h_reachable = False\<rparr>),
     allocations = 0, history = []\<rparr>"

definition squared :: operation where
  "squared = FunctionCall 1000 (Literal (scalar_bytes Long (- 9)))"

lemma squared_result:
  "map_sum id (\<lambda>(r, m). (r, load_from 4096 8 m)) (execute (calling square) 5 squared fresh_machine) =
     Inr (Control_Continue, Inr (scalar_bytes Long 81))"
  by code_simp

lemma calling_ok: "stmt_ok (calling f) (c_body f) \<Longrightarrow> callees_ok (calling f)"
  by (simp add: callees_ok_def calling_def)

lemma fresh_settled: "settled (tos fresh_machine) fresh_machine"
  by (simp add: settled_def fresh_machine_def make_stack_def stack_wf_def stack_limit_def)

theorem execution_keeps_stack_witness:
  "\<exists>m'. execute (calling square) 5 squared fresh_machine = Inr (Control_Continue, m') \<and> tos m' = tos fresh_machine + 8 \<and>
     load_from 4096 8 m' = Inr (scalar_bytes Long 81)"
proof -
  obtain m' where m: "execute (calling square) 5 squared fresh_machine = Inr (Control_Continue, m')"
    "load_from 4096 8 m' = Inr (scalar_bytes Long 81)"
    using squared_result by (cases "execute (calling square) 5 squared fresh_machine") auto
  have c: "callees_ok (calling square)" by (rule calling_ok) code_simp
  have n: "esize (calling square) squared = Some 8" by code_simp
  show ?thesis using execution_keeps_stack[OF c fresh_settled m(1)] n m by blast
qed

end
