(* ===== verification/Phases.thy ===== *)
theory Phases
  imports Discipline
begin

text \<open>
  The execution of an action in two phases (runtime.cpp).  In the first phase the body of the action and
  of the reactions it reaches through its ports run; every activation leaves its frame on the stack, linked to the last one
  by the saved base pointer, with the body of its second phase in place of the instruction pointer.  In the second phase the
  linked frames are unwound from the last to the first and their bodies run.
\<close>

section \<open>Actions\<close>

record action =
  a_dimension :: int
  a_locals :: "64 word"
  a_precondition :: operation
  a_body :: operation

text \<open>The arguments of an action, and their removal: iota, the component and a fake instruction pointer.\<close>

definition begin_action :: "action \<Rightarrow> int \<Rightarrow> int \<Rightarrow> machine \<Rightarrow> machine outcome" where
  "begin_action a component iota m =
     obind (if a_dimension a \<noteq> - 1 then push_scalar Unsigned_Long (wrap Unsigned_Long iota) m else Inr m) (\<lambda>m.
     obind (push_ptr component m) (push_ptr 0))"

definition end_action :: "action \<Rightarrow> machine \<Rightarrow> machine outcome" where
  "end_action a m =
     obind (pop_ptr m) (\<lambda>(_, m). obind (pop_ptr m) (\<lambda>(_, m).
     if a_dimension a \<noteq> - 1 then obind (pop_scalar Unsigned_Long m) (\<lambda>(_, m). Inr m) else Inr m))"

definition enabled :: "program \<Rightarrow> nat \<Rightarrow> action \<Rightarrow> int \<Rightarrow> int \<Rightarrow> machine \<Rightarrow> (bool \<times> machine) outcome" where
  "enabled P f a component iota m =
     (if \<not> stack_empty (the_stack m) then Inl Assertion_failed
      else
        obind (begin_action a component iota m) (\<lambda>m. obind (enter_frame 0 m) (\<lambda>m.
        obind (operand (execute P f) (a_precondition a) m) (\<lambda>m. obind (pop_scalar Bool_Scalar m) (\<lambda>(b, m).
        obind (leave_frame m) (\<lambda>m. obind (end_action a m) (\<lambda>m.
          if stack_empty (the_stack m) then Inr (b \<noteq> 0, m) else Inl Assertion_failed)))))))"

text \<open>The second phase: the body of the current frame, the removal of the frame, and on to the frame it is linked to.\<close>

definition code_of :: "program \<Rightarrow> int \<Rightarrow> operation outcome" where
  "code_of P a = (case code_at P a of Some c \<Rightarrow> Inr c | None \<Rightarrow> Inl Undefined_behaviour)"

primrec deferred :: "program \<Rightarrow> run \<Rightarrow> nat \<Rightarrow> machine \<Rightarrow> machine outcome" where
  "deferred P run 0 m = (if bp m = 0 then Inr m else Inl Out_of_fuel)"
| "deferred P run (Suc n) m =
     (if bp m = 0 then Inr m
      else
        obind (instruction_pointer m (bp m)) (\<lambda>b. obind (code_of P b) (\<lambda>c.
        obind (operand run c (record_event (Deferred (bp m) b) m)) (\<lambda>m.
        obind (leave_frame m) (deferred P run n)))))"

text \<open>The static function execute: every frame of the second phase is on the stack, so their number bounds the loop.\<close>

definition run_action :: "program \<Rightarrow> run \<Rightarrow> action \<Rightarrow> machine \<Rightarrow> machine outcome" where
  "run_action P run a m =
     obind (enter_frame (a_locals a) (m\<lparr>phase_pointer := 0\<rparr>)) (\<lambda>m. obind (operand run (a_body a) m) (\<lambda>m.
       if phase_pointer m = 0 then leave_frame m
       else deferred P run (length (live_frames m)) (with_base (phase_pointer m) m)))"

definition perform_action :: "program \<Rightarrow> nat \<Rightarrow> action \<Rightarrow> int \<Rightarrow> int \<Rightarrow> machine \<Rightarrow> machine outcome" where
  "perform_action P f a component iota m =
     obind (begin_action a component iota m) (\<lambda>m. obind (run_action P (execute P f) a m) (end_action a))"

definition execute_no_check :: "program \<Rightarrow> nat \<Rightarrow> action \<Rightarrow> int \<Rightarrow> int \<Rightarrow> machine \<Rightarrow> machine outcome" where
  "execute_no_check P f a component iota m =
     (if \<not> stack_empty (the_stack m) then Inl Assertion_failed
      else
        obind (perform_action P f a component iota m) (\<lambda>m.
          if stack_empty (the_stack m) then Inr m else Inl Assertion_failed))"

section \<open>The bodies of the first phase\<close>

text \<open>
  The calls of an activation leave their arguments and the frames of the reactions on the stack; the bodies of actions and
  reactions are statements and activations, of which none is an operand.
\<close>

fun ports_ok :: "program \<Rightarrow> operation \<Rightarrow> bool" where
  "ports_ok P (ListOperation cs) \<longleftrightarrow> list_all (ports_ok P) cs"
| "ports_ok P (PushPortCall n recv off args) \<longleftrightarrow> esize P args \<noteq> None"
| "ports_ok P (IndexedPushPortCall n recv off i args t) \<longleftrightarrow> esize P i = Some 8 \<and> esize P args \<noteq> None"
| "ports_ok P _ \<longleftrightarrow> False"

fun active_ok :: "program \<Rightarrow> operation \<Rightarrow> bool" where
  "active_ok P (ListOperation cs) \<longleftrightarrow> list_all (active_ok P) cs"
| "active_ok P (SetRestoreCurrentInstance c off) \<longleftrightarrow> active_ok P c"
| "active_ok P (If_Operation c t f) \<longleftrightarrow> esize P c = Some 8 \<and> active_ok P t \<and> active_ok P f"
| "active_ok P (While c b) \<longleftrightarrow> esize P c = Some 8 \<and> active_ok P b"
| "active_ok P (ForIota off limit b) \<longleftrightarrow> active_ok P b"
| "active_ok P (Push b) \<longleftrightarrow> active_ok P b"
| "active_ok P (Activate ports body) \<longleftrightarrow> ports_ok P ports \<and> word_sized body"
| "active_ok P c \<longleftrightarrow> stmt_ok P c"

definition program_ok :: "program \<Rightarrow> bool" where
  "program_ok P \<longleftrightarrow> callees_ok P \<and> (\<forall>a c. callable_at P a = Some c \<longrightarrow> active_ok P (c_body c)) \<and>
     (\<forall>a c. code_at P a = Some c \<longrightarrow> stmt_ok P c)"

section \<open>Linked frames\<close>

text \<open>
  The frames of the second phase with their bodies, from the last to the first, after which \<open>q\<close> comes; and a computation
  that adds such frames, or changes the control words of the frames in \<open>K\<close>.
\<close>

fun first_frame :: "(int \<times> int) list \<Rightarrow> int \<Rightarrow> int" where
  "first_frame [] q = q"
| "first_frame ((f, b) # xs) q = f"

fun linked :: "machine \<Rightarrow> (int \<times> int) list \<Rightarrow> int \<Rightarrow> bool" where
  "linked m [] q \<longleftrightarrow> True"
| "linked m ((f, b) # xs) q \<longleftrightarrow>
     f \<in> set (live_frames m) \<and> instruction_pointer m f = Inr b \<and> saved_pointer m f = Inr (first_frame xs q) \<and>
     (\<forall>(g, c) \<in> set xs. g < f) \<and> linked m xs q"

definition activations :: "(int \<times> int) list \<Rightarrow> event list" where
  "activations xs = rev (map (\<lambda>(f, b). Activated f b) xs)"

definition spread :: "int set \<Rightarrow> machine \<Rightarrow> machine \<Rightarrow> (int \<times> int) list \<Rightarrow> bool" where
  "spread K m m' xs \<longleftrightarrow>
     settled (tos m') m' \<and> tos m \<le> tos m' \<and> stack_data (the_stack m') = stack_data (the_stack m) \<and>
     length (stack_mem (the_stack m')) = length (stack_mem (the_stack m)) \<and>
     (\<exists>new. live_frames m' = new @ live_frames m \<and> (\<forall>f \<in> set new. tos m \<le> f)) \<and>
     (\<forall>f \<in> set (live_frames m) - K. control_words m' f = control_words m f) \<and>
     linked m' xs (phase_pointer m) \<and> phase_pointer m' = first_frame xs (phase_pointer m) \<and>
     (\<forall>(f, b) \<in> set xs. f \<in> K \<or> tos m \<le> f) \<and> phases m' = phases m @ activations xs"

lemma activations_simps [simp]:
  "activations [] = []" "activations (ys @ xs) = activations xs @ activations ys"
  by (simp_all add: activations_def)

lemma first_frame_append [simp]: "first_frame (ys @ xs) q = first_frame ys (first_frame xs q)"
  by (cases ys) auto

lemma linked_live: "linked m xs q \<Longrightarrow> (f, b) \<in> set xs \<Longrightarrow> f \<in> set (live_frames m)"
  by (induction xs) auto

lemma linked_append:
  "linked m ys (first_frame xs q) \<Longrightarrow> linked m xs q \<Longrightarrow> (\<forall>(f, b) \<in> set ys. \<forall>(g, c) \<in> set xs. g < f) \<Longrightarrow> linked m (ys @ xs) q"
  by (induction ys) auto

lemma linked_same:
  assumes "settled b m" "settled b' m'"
  shows "linked m xs q \<Longrightarrow> \<forall>(f, c) \<in> set xs. f \<in> set (live_frames m') \<and> control_words m' f = control_words m f \<Longrightarrow>
     linked m' xs q"
proof (induction xs)
  case (Cons x xs)
  obtain f c where x: "x = (f, c)" by (cases x)
  have f: "f \<in> set (live_frames m)" "f \<in> set (live_frames m')" "control_words m' f = control_words m f"
    using Cons.prems x by auto
  then show ?case using Cons x same_words[OF assms f] by auto
qed simp

lemma grown_spread:
  assumes "settled (tos m) m" "grown (tos m) k m m'"
  shows "spread {} m m' []"
  using assms settled_self[of "tos m" m'] by (auto simp: spread_def grown_def keeps_def)

lemma spread_trans:
  assumes a: "spread K m m1 xs" and b: "spread K' m1 m2 ys" and K: "K' = {} \<or> xs = []"
  shows "spread (K \<union> K') m m2 (ys @ xs)"
proof -
  obtain new where n1: "live_frames m1 = new @ live_frames m" "\<forall>f \<in> set new. tos m \<le> f" using a by (auto simp: spread_def)
  obtain new' where n2: "live_frames m2 = new' @ live_frames m1" "\<forall>f \<in> set new'. tos m1 \<le> f" using b by (auto simp: spread_def)
  have t: "tos m \<le> tos m1" "settled (tos m1) m1" "settled (tos m2) m2" using a b by (auto simp: spread_def)
  have x: "linked m1 xs (phase_pointer m)" using a by (simp add: spread_def)
  have xl: "(f, c) \<in> set xs \<Longrightarrow> f \<in> set (live_frames m1) \<and> f + 8 \<le> tos m1" for f c
    using linked_live[OF x] t(2) by (auto simp: settled_def)
  have "(f, c) \<in> set xs \<Longrightarrow> f \<in> set (live_frames m2) \<and> control_words m2 f = control_words m1 f" for f c
    using b K xl[of f c] n2 by (auto simp: spread_def)
  then have "linked m2 xs (phase_pointer m)" by (intro linked_same[OF t(2,3) x]) auto
  moreover have "linked m2 ys (first_frame xs (phase_pointer m))" using a b by (simp add: spread_def)
  moreover have yl: "(f, c) \<in> set ys \<Longrightarrow> f \<in> K' \<or> tos m1 \<le> f" for f c using b by (fastforce simp: spread_def)
  ultimately have "linked m2 (ys @ xs) (phase_pointer m)" using xl K by (intro linked_append) fastforce+
  moreover have "live_frames m2 = (new' @ new) @ live_frames m" "\<forall>f \<in> set (new' @ new). tos m \<le> f"
    using n1 n2 t(1) by fastforce+
  moreover have "\<forall>f \<in> set (live_frames m) - (K \<union> K'). control_words m2 f = control_words m f"
    using a b n1(1) by (auto simp: spread_def)
  moreover have "\<forall>(f, c) \<in> set (ys @ xs). f \<in> K \<union> K' \<or> tos m \<le> f"
    using a yl t(1) by (fastforce simp: spread_def)
  ultimately show ?thesis using a b t(1) by (auto simp: spread_def)
qed

lemma spread_weaken:
  assumes s: "settled (tos m) m" and a: "spread K m m' xs" and K: "\<forall>f \<in> K. tos m \<le> f"
  shows "spread {} m m' xs"
proof -
  have "f \<notin> K" if "f \<in> set (live_frames m)" for f using s that K by (fastforce simp: settled_def)
  then show ?thesis using a K unfolding spread_def by auto
qed

section \<open>The first phase\<close>

text \<open>A machine in a frame, with the pointer to the last frame of the second phase inside the stack.\<close>

definition ready :: "machine \<Rightarrow> bool" where
  "ready m \<longleftrightarrow> settled (tos m) m \<and> bp m \<in> set (live_frames m) \<and>
     0 \<le> phase_pointer m \<and> phase_pointer m \<le> stack_limit (the_stack m)"

lemma spread_ready:
  assumes r: "ready m" and s: "spread K m m' xs" "bp m' = bp m"
  shows "ready m'"
proof -
  have l: "stack_limit (the_stack m') = stack_limit (the_stack m)" using s(1) by (simp add: spread_def stack_limit_def)
  have w: "settled (tos m') m'" using s(1) by (simp add: spread_def)
  have "0 \<le> first_frame xs (phase_pointer m) \<and> first_frame xs (phase_pointer m) \<le> stack_limit (the_stack m')"
  proof (cases xs)
    case Nil
    then show ?thesis using r l by (simp add: ready_def)
  next
    case (Cons x ys)
    obtain f b where x: "x = (f, b)" by (cases x)
    have "f \<in> set (live_frames m')" using s(1) by (simp add: spread_def Cons x)
    then show ?thesis using w by (auto simp: Cons x settled_def stack_wf_def)
  qed
  moreover have "bp m' \<in> set (live_frames m')" using r s by (auto simp: spread_def ready_def)
  ultimately show ?thesis using s(1) w by (simp add: ready_def spread_def)
qed

lemma read_write_other:
  assumes w: "write_mem st p bs = Inr st'" and d: "q + int n \<le> p \<or> p + int (length bs) \<le> q"
  shows "read_mem st' q n = read_mem st q n"
proof -
  note ws = write_mem_simps[OF w]
  have "stretch (stack_mem st') (nat (q - stack_data st)) n = stretch (stack_mem st) (nat (q - stack_data st)) n"
    if "stack_data st \<le> q" "q + int n \<le> stack_limit st"
    unfolding ws(8) by (rule stretch_blit_other) (use ws(6,7) that d in \<open>auto simp: stack_limit_def\<close>)
  then show ?thesis using ws(1,5) by (auto simp: read_mem_def)
qed

text \<open>The control words of different frames do not overlap.\<close>

lemma live_gap:
  assumes "settled b m" "f \<in> set (live_frames m)" "g \<in> set (live_frames m)" "f \<noteq> g"
  shows "f + 16 \<le> g \<or> g + 16 \<le> f"
proof -
  obtain i j where ij: "i < length (live_frames m)" "f = live_frames m ! i" "j < length (live_frames m)" "g = live_frames m ! j"
    using assms(2,3) by (auto simp: in_set_conv_nth)
  have "sorted_wrt (\<lambda>f g. g + 16 \<le> f) (live_frames m)" using assms(1) by (simp add: settled_def)
  then show ?thesis using ij assms(4) by (metis linorder_neqE_nat sorted_wrt_iff_nth_less)
qed

text \<open>Writing one of the two control words of a live frame.\<close>

lemma write_control_effect:
  assumes s: "settled (tos m) m" and F: "F \<in> set (live_frames m)" and p: "p = F \<or> p = F - 8"
    and w: "write_control p x m = Inr m'"
  shows "settled (tos m') m'" "\<forall>f \<in> set (live_frames m) - {F}. control_words m' f = control_words m f"
    "m' = m\<lparr>the_stack := the_stack m'\<rparr>" "bp m' = bp m" "tos m' = tos m"
    "stack_data (the_stack m') = stack_data (the_stack m)"
    "length (stack_mem (the_stack m')) = length (stack_mem (the_stack m))"
    "read_mem (the_stack m') p 8 = Inr (le_bytes 8 (word_of_int x))"
    "\<And>q. q + 8 \<le> p \<or> p + 8 \<le> q \<Longrightarrow> read_mem (the_stack m') q 8 = read_mem (the_stack m) q 8"
proof -
  obtain st where st: "write_mem (the_stack m) p (le_bytes 8 (word_of_int x)) = Inr st" "m' = m\<lparr>the_stack := st\<rparr>"
    using w by (auto simp: write_control_def on_stack_def outcome_simps)
  note ws = write_mem_simps[OF st(1)]
  show "settled (tos m') m'" using s ws write_mem_wf[OF _ st(1)] by (simp add: settled_def st(2))
  show "m' = m\<lparr>the_stack := the_stack m'\<rparr>" "bp m' = bp m" "tos m' = tos m"
    "stack_data (the_stack m') = stack_data (the_stack m)"
    "length (stack_mem (the_stack m')) = length (stack_mem (the_stack m))" using ws by (simp_all add: st(2))
  show "read_mem (the_stack m') p 8 = Inr (le_bytes 8 (word_of_int x))"
    using read_write_mem[OF st(1)] by (simp add: st(2))
  show "read_mem (the_stack m') q 8 = read_mem (the_stack m) q 8" if "q + 8 \<le> p \<or> p + 8 \<le> q" for q
    using read_write_other[OF st(1), of q 8] that by (simp add: st(2))
  show "\<forall>f \<in> set (live_frames m) - {F}. control_words m' f = control_words m f"
  proof
    fix f assume f: "f \<in> set (live_frames m) - {F}"
    have "f + 16 \<le> F \<or> F + 16 \<le> f" by (rule live_gap[OF s _ F]) (use f in auto)
    then show "control_words m' f = control_words m f"
      using read_write_other[OF st(1), of "f - 8" 16] p by (auto simp: control_words_def st(2))
  qed
qed

lemma uint_word_sized: "word_sized x \<Longrightarrow> uint (word_of_int x :: 64 word) = x"
  by (simp add: word_sized_def uint_word_of_int)

text \<open>What an operation of the first phase does: it keeps the discipline of a statement, or it activates its frame.\<close>

definition acts :: "machine \<Rightarrow> control \<Rightarrow> machine \<Rightarrow> bool" where
  "acts m r m' \<longleftrightarrow> grown (tos m) 0 m m' \<or>
     (r = Control_Return \<and> bp m' = bp m \<and> (\<exists>ys b. spread {bp m} m m' (ys @ [(bp m, b)])))"

definition spreads :: "machine \<Rightarrow> machine \<Rightarrow> bool" where
  "spreads m m' \<longleftrightarrow> bp m' = bp m \<and> (\<exists>xs. spread {} m m' xs)"

lemma activate_acts:
  assumes m: "ready m" and b: "word_sized body"
    and ports: "\<And>m1 r m2. ready m1 \<Longrightarrow> run ports m1 = Inr (r, m2) \<Longrightarrow> spreads m1 m2"
    and x: "execute_activate run ports body m = Inr (r, m')"
  shows "acts m r m'"
proof -
  let ?F = "bp m"
  obtain m1 m2 q where s: "write_control ?F (phase_pointer m) m = Inr m1"
    "write_control (pointer_to_instruction_pointer (the_stack m1)) body (m1\<lparr>phase_pointer := bp m1\<rparr>) = Inr m2"
    "run ports (record_event (Activated (bp m2) body) m2) = Inr (q, m')" "r = Control_Return"
    using x by (auto simp: execute_activate_def operand_def outcome_simps)
  have F: "settled (tos m) m" "?F \<in> set (live_frames m)" using m by (simp_all add: ready_def)
  note w1 = write_control_effect[OF F disjI1[OF refl] s(1)]
  have live1: "live_frames m1 = live_frames m" by (subst w1(3)) simp
  have F1: "settled (tos (m1\<lparr>phase_pointer := bp m1\<rparr>)) (m1\<lparr>phase_pointer := bp m1\<rparr>)"
    "?F \<in> set (live_frames (m1\<lparr>phase_pointer := bp m1\<rparr>))"
    using w1(1) F(2) live1 by (simp_all add: settled_def)
  have p: "pointer_to_instruction_pointer (the_stack m1) = ?F - 8"
    using w1(4) by (simp add: pointer_to_instruction_pointer_def)
  note w2 = write_control_effect[OF F1 disjI2[OF refl] s(2)[unfolded p]]
  let ?m2 = "record_event (Activated (bp m2) body) m2"
  have bp2: "bp m2 = ?F" using w1(4) w2(4) by simp
  have h1: "history m1 = history m" by (subst w1(3)) simp
  have m2: "live_frames m2 = live_frames m" by (subst w2(3)) (simp add: live1)
  have m2': "phase_pointer m2 = ?F" "history m2 = history m" by (subst w2(3), simp add: h1 w1(4))+
  have "phase_pointer m < 2 ^ 64" using m by (auto simp: ready_def settled_def stack_wf_def)
  then have "word_sized (phase_pointer m)" using m by (simp add: ready_def word_sized_def)
  then have "saved_pointer m2 ?F = Inr (phase_pointer m)"
    using w1(8) w2(9)[of ?F] by (simp add: saved_pointer_def uint_word_sized)
  moreover have "instruction_pointer m2 ?F = Inr body"
    using w2(8) b by (simp add: instruction_pointer_def uint_word_sized)
  ultimately have "spread {?F} m ?m2 [(?F, body)]"
    using w2 w1 live1 m2 m2' F bp2
    by (auto simp: spread_def record_event_def settled_def phases_def control_words_def saved_pointer_def
        instruction_pointer_def activations_def)
  moreover have bp3: "bp ?m2 = bp m" using bp2 by (simp add: record_event_def)
  ultimately have sp: "spread {?F} m ?m2 [(?F, body)]" "ready ?m2" using spread_ready[OF m] by blast+
  obtain xs where "spread {} ?m2 m' xs" "bp m' = bp ?m2" using ports[OF sp(2) s(3)] by (auto simp: spreads_def)
  then show ?thesis using spread_trans[OF sp(1), of "{}" m' xs] bp3 s(4) by (auto simp: acts_def)
qed

text \<open>Statements and expressions on the way.\<close>

lemma grown_spreads: "ready m \<Longrightarrow> grown (tos m) k m m' \<Longrightarrow> spreads m m'"
  using grown_spread[of m k m'] by (auto simp: ready_def spreads_def grown_def keeps_def)

lemma grown_ready_frame: "ready m \<Longrightarrow> grown (tos m) k m m' \<Longrightarrow> ready m'"
  using grown_spreads[of m k m'] spread_ready by (auto simp: spreads_def)

lemma spreads_trans: "spreads m m1 \<Longrightarrow> spreads m1 m2 \<Longrightarrow> spreads m m2"
  using spread_trans[of "{}" m m1 _ "{}" m2] by (fastforce simp: spreads_def)

lemma spreads_ready: "ready m \<Longrightarrow> spreads m m' \<Longrightarrow> ready m'"
  using spread_ready by (auto simp: spreads_def)

lemma spreads_refl: "ready m \<Longrightarrow> spreads m m"
  using grown_spreads[OF _ grown_start] by (simp add: ready_def)

lemma grown_acts:
  assumes m: "ready m" and g: "grown (tos m) 0 m m1" and a: "acts m1 r m'"
  shows "acts m r m'"
proof -
  have t: "tos m1 = tos m" "bp m1 = bp m" using g by (simp_all add: grown_def keeps_def)
  have "grown (tos m) 0 m m'" if "grown (tos m1) 0 m1 m'" using grown_trans[OF g that] by simp
  moreover have "spread {bp m} m m' xs" if "spread {bp m1} m1 m' xs" for xs
    using spread_trans[OF grown_spread[OF _ g] that] m t by (simp add: ready_def)
  ultimately show ?thesis using a t unfolding acts_def by auto
qed

lemma acts_grown: "grown (tos m) 0 m m' \<Longrightarrow> acts m r m'"
  by (simp add: acts_def)

lemma acts_continue: "acts m r m' \<Longrightarrow> r \<noteq> Control_Return \<Longrightarrow> grown (tos m) 0 m m'"
  by (simp add: acts_def)

section \<open>Reactions\<close>

lemma with_base_simps [simp]:
  "tos (with_base p m) = tos m" "bp (with_base p m) = p" "live_frames (with_base p m) = live_frames m"
  "stack_data (the_stack (with_base p m)) = stack_data (the_stack m)"
  "stack_mem (the_stack (with_base p m)) = stack_mem (the_stack m)"
  "phase_pointer (with_base p m) = phase_pointer m" "phases (with_base p m) = phases m"
  "control_words (with_base p m) f = control_words m f" "saved_pointer (with_base p m) f = saved_pointer m f"
  "instruction_pointer (with_base p m) f = instruction_pointer m f"
  by (simp_all add: with_base_def phases_def control_words_def saved_pointer_def instruction_pointer_def read_mem_def
      stack_limit_def)

lemma settled_with_base:
  "settled b m \<Longrightarrow> 0 \<le> p \<Longrightarrow> p \<le> stack_limit (the_stack m) \<Longrightarrow> settled b (with_base p m)"
  by (simp add: settled_def stack_wf_def stack_limit_def with_base_def)

lemma linked_with_base [simp]: "linked (with_base p m) xs q = linked m xs q"
  by (induction xs) auto

lemma spread_with_base:
  "spread K m m' xs \<Longrightarrow> 0 \<le> p \<Longrightarrow> p \<le> stack_limit (the_stack m') \<Longrightarrow> spread K m (with_base p m') xs"
  by (simp add: spread_def settled_with_base)

lemma spread_from_base [simp]: "spread K (with_base p m) m' xs = spread K m m' xs"
  by (simp add: spread_def)

lemma enter_frame_spread:
  assumes g: "settled (tos m) m" and e: "enter_frame sz m = Inr m'" and d: "stack_data (the_stack m) + 8 \<le> tos m"
    and w: "\<forall>f \<in> set (live_frames m). f + 16 \<le> tos m" and p: "0 \<le> phase_pointer m" "phase_pointer m \<le> stack_limit (the_stack m)"
  shows "spread {} m m' []" "ready m'" "bp m' = tos m"
proof -
  note ef = enter_frame_effect[OF g e d w]
  have same: "phase_pointer m' = phase_pointer m" "history m' = history m" by (subst ef(7), simp)+
  have "control_words m' f = control_words m f" if "f \<in> set (live_frames m)" for f
    unfolding control_words_def
    by (rule read_mem_same_below[OF ef(6)]) (use g that in \<open>auto simp: settled_def\<close>)
  then show "spread {} m m' []"
    using ef(1,3,4,6) same by (auto simp: spread_def same_below_def phases_def)
  show "ready m'" using ef(1-3,6) same p by (simp add: ready_def same_below_def stack_limit_def)
  show "bp m' = tos m" by (rule ef(2))
qed

lemma reaction_arguments_grown:
  assumes m: "settled (tos m) m" and x: "reaction_arguments port c args n m = Inr m'"
  shows "\<exists>k \<ge> 8. grown (tos m) k m m'"
proof -
  obtain m1 p m2 bs m3 where s:
    "(if c_dimension c \<noteq> - 1 then obind (load_from (port + 16) 8 m) (\<lambda>bs. push_value bs m) else Inr m) = Inr m1"
    "push_ptr p m1 = Inr m2" "push_value bs m2 = Inr m3" "push_ptr 0 m3 = Inr m'"
    using x by (auto simp: reaction_arguments_def outcome_simps split del: if_split)
  have s1: "m1 = m \<or> (\<exists>ys. push_value ys m = Inr m1)" using s(1) by (auto simp: outcome_simps split: if_splits)
  obtain k where k: "0 \<le> k" "grown (tos m) k m m1"
  proof (cases "m1 = m")
    case True
    then show ?thesis using that[of 0] grown_start[OF m] by simp
  next
    case False
    then obtain ys where "push_value ys m = Inr m1" using s1 by blast
    from push_value_slot[OF grown_start[OF m] this] show ?thesis by (rule that[rotated]) simp
  qed
  have "grown (tos m) (k + 8 + slot_bytes (length bs) + 8) m m'"
    by (rule push_ptr_grown[OF push_value_slot[OF push_ptr_grown[OF k(2) s(2)] s(3)] s(4)])
  then show ?thesis using k(1) slot_nonneg[of "length bs"] by (smt (verit))
qed

lemma reaction_frame_spreads:
  assumes m: "ready m" and d: "stack_data (the_stack m) + 8 \<le> tos m" "\<forall>f \<in> set (live_frames m). f + 16 \<le> tos m"
    and body: "\<And>m1 r m2. ready m1 \<Longrightarrow> run (c_body c) m1 = Inr (r, m2) \<Longrightarrow> acts m1 r m2"
    and x: "reaction_frame run c m = Inr m'"
  shows "spreads m m'"
proof -
  obtain m1 r m2 where s: "enter_frame (c_locals c) (with_base (phase_pointer m) m) = Inr m1"
    "run (c_body c) m1 = Inr (r, m2)" "m' = with_base (bp m) m2"
    using x by (auto simp: reaction_frame_def operand_def outcome_simps)
  have b: "settled (tos m) m" "0 \<le> phase_pointer m" "phase_pointer m \<le> stack_limit (the_stack m)"
    using m by (simp_all add: ready_def)
  have wb: "settled (tos (with_base (phase_pointer m) m)) (with_base (phase_pointer m) m)"
    using settled_with_base[OF b] by simp
  have lim: "stack_limit (the_stack (with_base (phase_pointer m) m)) = stack_limit (the_stack m)"
    by (simp add: stack_limit_def)
  have e: "spread {} m m1 []" "ready m1" "bp m1 = tos m"
    using enter_frame_spread[OF wb s(1)] d b lim by simp_all
  note a = body[OF e(2) s(2)]
  have "\<exists>xs. spread {} m m2 xs"
  proof (cases "grown (tos m1) 0 m1 m2")
    case True
    then show ?thesis using spread_trans[OF e(1) grown_spread] e(2) by (auto simp: ready_def)
  next
    case False
    then obtain xs where "spread {bp m1} m1 m2 xs" using a by (auto simp: acts_def)
    then have "spread {bp m1} m m2 xs" using spread_trans[OF e(1), of "{bp m1}" m2 xs] by simp
    then show ?thesis using spread_weaken[OF b(1)] e(3) by fastforce
  qed
  then obtain xs where xs: "spread {} m m2 xs" by blast
  then have "stack_limit (the_stack m2) = stack_limit (the_stack m)" by (simp add: spread_def stack_limit_def)
  then show ?thesis using spread_with_base[OF xs, of "bp m"] m s(3) by (auto simp: spreads_def ready_def settled_def stack_wf_def)
qed

lemma call_reactions_spreads:
  assumes body: "\<And>a c m1 r m2. callable_at P a = Some c \<Longrightarrow> ready m1 \<Longrightarrow> run (c_body c) m1 = Inr (r, m2) \<Longrightarrow> acts m1 r m2"
  shows "ready m \<Longrightarrow> call_reactions P run fuel port args n m = Inr m' \<Longrightarrow> spreads m m'"
proof (induction fuel arbitrary: port m)
  case 0
  then show ?case using spreads_refl by (simp add: call_reactions.simps split: if_splits)
next
  case (Suc fuel)
  show ?case
  proof (cases "port = 0")
    case True
    then show ?thesis using Suc.prems spreads_refl by (simp add: call_reactions.simps)
  next
    case False
    obtain a c m1 m2 rest where s: "callable_at P a = Some c" "reaction_arguments port c args n m = Inr m1"
      "reaction_frame run c m1 = Inr m2" "call_reactions P run fuel rest args n m2 = Inr m'"
      using Suc.prems(2) False
      by (auto simp: call_reactions.simps[of P run "Suc fuel"] the_callable_def outcome_simps split: option.splits)
    obtain k where k: "8 \<le> k" "grown (tos m) k m m1"
      using reaction_arguments_grown[OF _ s(2)] Suc.prems(1) by (auto simp: ready_def)
    have r1: "ready m1" by (rule grown_ready_frame[OF Suc.prems(1) k(2)])
    have f: "spreads m1 m2"
      by (rule reaction_frame_spreads[OF r1 frame_room[OF k(2,1)] body[OF s(1)] s(3)])
    show ?thesis
      using spreads_trans[OF grown_spreads[OF Suc.prems(1) k(2)] spreads_trans[OF f Suc.IH[OF spreads_ready[OF r1 f] s(4)]]] .
  qed
qed

section \<open>The interpreter in the first phase\<close>

definition acting :: "program \<Rightarrow> run \<Rightarrow> bool" where
  "acting P run \<longleftrightarrow> disciplined P run \<and>
     (\<forall>c m r m'. active_ok P c \<longrightarrow> ready m \<longrightarrow> run c m = Inr (r, m') \<longrightarrow> acts m r m') \<and>
     (\<forall>c m r m'. ports_ok P c \<longrightarrow> ready m \<longrightarrow> run c m = Inr (r, m') \<longrightarrow> spreads m m')"

lemma actingD:
  assumes "acting P run"
  shows "disciplined P run"
    "active_ok P c \<Longrightarrow> ready m \<Longrightarrow> run c m = Inr (r, m') \<Longrightarrow> acts m r m'"
    "ports_ok P c \<Longrightarrow> ready m \<Longrightarrow> run c m = Inr (r, m') \<Longrightarrow> spreads m m'"
  using assms by (auto simp: acting_def)

lemma stmt_active: "stmt_ok P c \<Longrightarrow> active_ok P c"
proof (induction c)
  case (ListOperation cs)
  then show ?case by (auto simp: list_all_iff)
qed simp_all

lemma linked_other [simp]:
  "linked (record_event e m) xs q = linked m xs q" "linked (m\<lparr>current_info := i\<rparr>) xs q = linked m xs q"
  by (induction xs) (auto simp: record_event_def saved_pointer_def instruction_pointer_def)

lemma record_event_simps [simp]:
  "the_stack (record_event e m) = the_stack m" "live_frames (record_event e m) = live_frames m"
  "phase_pointer (record_event e m) = phase_pointer m" "settled b (record_event e m) = settled b m"
  "control_words (record_event e m) f = control_words m f"
  "phases (record_event e m) = phases m @ (if is_phase e then [e] else [])"
  by (simp_all add: record_event_def settled_def control_words_def phases_def)

lemma spread_event: "\<not> is_phase e \<Longrightarrow> spread K m m' xs \<Longrightarrow> spread K m (record_event e m') xs"
  by (simp add: spread_def)

lemma spread_info [simp]:
  "spread K (m\<lparr>current_info := i\<rparr>) m' xs = spread K m m' xs"
  "spread K m (m'\<lparr>current_info := i\<rparr>) xs = spread K m m' xs"
  unfolding spread_def by (simp_all add: control_words_def phases_def)

lemma ready_info [simp]: "ready (m\<lparr>current_info := i\<rparr>) = ready m"
  by (simp add: ready_def)

lemma acts_event: "\<not> is_phase e \<Longrightarrow> acts m r m' \<Longrightarrow> acts m r (record_event e m')"
  unfolding acts_def by (auto intro: record_grown spread_event)

lemma acts_info [simp]:
  "acts (m\<lparr>current_info := i\<rparr>) r m' = acts m r m'" "acts m r (m'\<lparr>current_info := i\<rparr>) = acts m r m'"
  unfolding acts_def by simp_all

text \<open>Sequences: what returns has activated or was a statement, what continues was a statement.\<close>

lemma list_acts:
  assumes A: "acting P run"
  shows "list_all (active_ok P) cs \<Longrightarrow> ready m \<Longrightarrow> execute_list run cs m = Inr (r, m') \<Longrightarrow> acts m r m'"
proof (induction cs arbitrary: m)
  case Nil
  then show ?case by (auto simp: continue_def ready_def intro: acts_grown grown_start)
next
  case (Cons c cs)
  obtain q m1 where s: "run c m = Inr (q, m1)"
    "if q = Control_Return then (q, m1) = (r, m') else execute_list run cs m1 = Inr (r, m')"
    using Cons.prems(3) by (auto simp: outcome_simps split: if_splits)
  have a: "acts m q m1" using actingD(2)[OF A _ Cons.prems(2) s(1)] Cons.prems(1) by simp
  show ?case
  proof (cases "q = Control_Return")
    case False
    then have g: "grown (tos m) 0 m m1" by (rule acts_continue[OF a])
    show ?thesis
      using grown_acts[OF Cons.prems(2) g Cons.IH[OF _ grown_ready_frame[OF Cons.prems(2) g]]] s(2) False Cons.prems(1)
      by simp
  qed (use a s(2) in simp)
qed

lemma if_acts:
  assumes A: "acting P run" and m: "ready m" and e: "esize P c = Some 8" "active_ok P t" "active_ok P f"
    and x: "execute_if run c t f m = Inr (r, m')"
  shows "acts m r m'"
proof -
  obtain m1 i m2 where s: "operand run c m = Inr m1" "pop_scalar Bool_Scalar m1 = Inr (i, m2)"
    "run t m2 = Inr (r, m') \<or> run f m2 = Inr (r, m')"
    using x by (auto simp: execute_if_def outcome_simps split: if_splits)
  have g: "grown (tos m) 0 m m2"
    using condition_grown[OF actingD(1)[OF A] e(1) grown_start s(1,2)] m by (simp add: ready_def)
  note r2 = grown_ready_frame[OF m g]
  show ?thesis
    using grown_acts[OF m g] actingD(2)[OF A e(2) r2] actingD(2)[OF A e(3) r2] s(3) by blast
qed

lemma while_acts:
  assumes A: "acting P run" and m: "ready m" and e: "esize P c = Some 8" "active_ok P b"
    and x: "execute_while run c b m = Inr (r, m')"
  shows "acts m r m'"
proof -
  obtain m1 i m2 where s: "operand run c m = Inr m1" "pop_scalar Bool_Scalar m1 = Inr (i, m2)"
    "(r, m') = (Control_Continue, m2) \<or> (\<exists>q m3. run b m2 = Inr (q, m3) \<and>
       (if q = Control_Return then (r, m') = (q, m3) else run (While c b) m3 = Inr (r, m')))"
    using x by (auto simp: execute_while_def continue_def outcome_simps split: if_splits)
  have g: "grown (tos m) 0 m m2"
    using condition_grown[OF actingD(1)[OF A] e(1) grown_start s(1,2)] m by (simp add: ready_def)
  note r2 = grown_ready_frame[OF m g]
  have W: "active_ok P (While c b)" using e by simp
  from s(3) show ?thesis
  proof
    assume "\<exists>q m3. run b m2 = Inr (q, m3) \<and>
       (if q = Control_Return then (r, m') = (q, m3) else run (While c b) m3 = Inr (r, m'))"
    then obtain q m3 where t: "run b m2 = Inr (q, m3)"
      "if q = Control_Return then (r, m') = (q, m3) else run (While c b) m3 = Inr (r, m')" by blast
    have a: "acts m2 q m3" by (rule actingD(2)[OF A e(2) r2 t(1)])
    show ?thesis
    proof (cases "q = Control_Return")
      case True
      then show ?thesis using grown_acts[OF m g a] t(2) by simp
    next
      case False
      then have g3: "grown (tos m2) 0 m2 m3" by (rule acts_continue[OF a])
      have "acts m2 r m'"
        using grown_acts[OF r2 g3 actingD(2)[OF A W grown_ready_frame[OF r2 g3]]] t(2) False by simp
      then show ?thesis by (rule grown_acts[OF m g])
    qed
  qed (use g in \<open>auto intro: acts_grown\<close>)
qed

lemma iota_acts:
  assumes A: "acting P run" and e: "active_ok P b"
  shows "ready m \<Longrightarrow> iota_loop run off b n i m = Inr (r, m') \<Longrightarrow> acts m r m'"
proof (induction n arbitrary: i m)
  case 0
  then show ?case by (auto simp: continue_def ready_def intro: acts_grown grown_start)
next
  case (Suc n)
  obtain m1 q m2 where s: "store_at (bp m + off) (scalar_bytes Long i) m = Inr m1" "run b m1 = Inr (q, m2)"
    "if q = Control_Return then (q, m2) = (r, m') else iota_loop run off b n (i + 1) m2 = Inr (r, m')"
    using Suc.prems(2) by (auto simp: outcome_simps split: if_splits)
  have g: "grown (tos m) 0 m m1"
    using store_at_grown[OF grown_start s(1)] Suc.prems(1) by (simp add: ready_def)
  note r1 = grown_ready_frame[OF Suc.prems(1) g]
  have a: "acts m1 q m2" by (rule actingD(2)[OF A e r1 s(2)])
  have "acts m1 r m'"
  proof (cases "q = Control_Return")
    case False
    then have g2: "grown (tos m1) 0 m1 m2" by (rule acts_continue[OF a])
    then show ?thesis using grown_acts[OF r1 g2 Suc.IH[OF grown_ready_frame[OF r1 g2]]] s(3) False by simp
  qed (use a s(3) in simp)
  then show ?case by (rule grown_acts[OF Suc.prems(1) g])
qed

lemma push_acts:
  assumes A: "acting P run" and m: "ready m" and e: "active_ok P b" and x: "execute_push run b m = Inr (r, m')"
  shows "acts m r m'"
  using x actingD(2)[OF A e m] by (auto simp: execute_push_def outcome_simps intro!: acts_event)

lemma set_restore_acts:
  assumes A: "acting P run" and m: "ready m" and e: "active_ok P c" and x: "execute_set_restore run c off m = Inr (r, m')"
  shows "acts m r m'"
proof -
  obtain i m1 where s: "run c (m\<lparr>current_info := i\<rparr>) = Inr (r, m1)" "m' = m1\<lparr>current_info := current_info m\<rparr>"
    by (rule set_restore_steps[OF x])
  show ?thesis using actingD(2)[OF A e _ s(1)] m by (simp add: s(2))
qed

lemma port_call_spreads:
  assumes A: "acting P run" and P: "program_ok P" and m: "ready m" and e: "esize P args \<noteq> None"
    and x: "push_port_call P run fuel args n recv off m = Inr (r, m')"
  shows "spreads m m'"
proof -
  obtain k where k: "esize P args = Some k" using e by blast
  obtain m1 port where s: "operand run args m = Inr m1" "call_reactions P run fuel port (tos m) (unat n) m1 = Inr m'"
    using x by (auto simp: push_port_call_def continue_def outcome_simps)
  have "grown (tos m) k m m1"
    using operand_grown[OF actingD(1)[OF A] k grown_start s(1)] m by (simp add: ready_def)
  then have g: "spreads m m1" by (rule grown_spreads[OF m])
  have b: "acts m2 q m3" if "callable_at P a = Some c" "ready m2" "run (c_body c) m2 = Inr (q, m3)" for a c m2 q m3
    using actingD(2)[OF A _ that(2,3)] P that(1) by (auto simp: program_ok_def)
  show ?thesis by (rule spreads_trans[OF g call_reactions_spreads[OF b spreads_ready[OF m g] s(2)]])
qed

lemma indexed_port_call_spreads:
  assumes A: "acting P run" and P: "program_ok P" and m: "ready m" and e: "esize P i = Some 8" "esize P args \<noteq> None"
    and x: "execute_indexed_push_port_call P run fuel n recv off i args t m = Inr (r, m')"
  shows "spreads m m'"
proof -
  obtain m1 j m2 off' where s: "operand run i m = Inr m1" "pop_scalar Long m1 = Inr (j, m2)"
    "push_port_call P run fuel args n recv off' m2 = Inr (r, m')"
    using x by (cases t) (auto simp: execute_indexed_push_port_call_def outcome_simps)
  have "grown (tos m) 0 m m2"
    using operand_pop_scalar[OF actingD(1)[OF A] e(1) grown_start s(1,2)] m by (simp add: ready_def)
  then have g: "spreads m m2" by (rule grown_spreads[OF m])
  show ?thesis by (rule spreads_trans[OF g port_call_spreads[OF A P spreads_ready[OF m g] e(2) s(3)]])
qed

lemma list_spreads:
  assumes A: "acting P run"
  shows "list_all (ports_ok P) cs \<Longrightarrow> ready m \<Longrightarrow> execute_list run cs m = Inr (r, m') \<Longrightarrow> spreads m m'"
proof (induction cs arbitrary: m)
  case Nil
  then show ?case using spreads_refl by (simp add: continue_def)
next
  case (Cons c cs)
  obtain q m1 where s: "run c m = Inr (q, m1)" "(q, m1) = (r, m') \<or> execute_list run cs m1 = Inr (r, m')"
    using Cons.prems(3) by (auto simp: outcome_simps split: if_splits)
  have g: "spreads m m1" using actingD(3)[OF A _ Cons.prems(2) s(1)] Cons.prems(1) by simp
  show ?case using s(2) g spreads_trans[OF g Cons.IH[OF _ spreads_ready[OF Cons.prems(2) g]]] Cons.prems(1) by auto
qed

lemma active_step:
  assumes A: "acting P run" and P: "program_ok P" and m: "ready m"
    and e: "active_ok P w" and x: "execute_step P run f w m = Inr (r, m')"
  shows "acts m r m'"
proof -
  have stmt: "acts m r m'" if "stmt_ok P w"
    using stmt_step[OF actingD(1)[OF A] _ _ that x] P m by (simp add: program_ok_def ready_def balanced_def acts_grown)
  show ?thesis
  proof (cases w)
    case (ListOperation cs)
    then show ?thesis using list_acts[OF A _ m, of cs r m'] e x by simp
  next
    case (SetRestoreCurrentInstance c off)
    then show ?thesis using set_restore_acts[OF A m, of c off r m'] e x by simp
  next
    case (If_Operation c t f)
    then show ?thesis using if_acts[OF A m, of c t f r m'] e x by simp
  next
    case (While c b)
    then show ?thesis using while_acts[OF A m, of c b r m'] e x by simp
  next
    case (ForIota off limit b)
    then show ?thesis using iota_acts[OF A _ m, of b off "nat limit" 0 r m'] e x
      by (simp add: execute_for_iota_def split: if_splits)
  next
    case (Push b)
    then show ?thesis using push_acts[OF A m, of b r m'] e x by simp
  next
    case (Activate ports body)
    then have p: "word_sized body" "ports_ok P ports" "execute_activate run ports body m = Inr (r, m')" using e x by simp_all
    show ?thesis by (rule activate_acts[OF m p(1) actingD(3)[OF A p(2)] p(3)])
  qed (use stmt e in simp_all)
qed

lemma ports_step:
  assumes A: "acting P run" and P: "program_ok P" and m: "ready m"
    and e: "ports_ok P w" and x: "execute_step P run f w m = Inr (r, m')"
  shows "spreads m m'"
proof (cases w)
  case (ListOperation cs)
  then show ?thesis using list_spreads[OF A _ m, of cs r m'] e x by simp
next
  case (PushPortCall n recv off args)
  then show ?thesis using port_call_spreads[OF A P m] e x by simp
next
  case (IndexedPushPortCall n recv off i args t)
  then show ?thesis using indexed_port_call_spreads[OF A P m, of i args f n recv off t r m'] e x by simp
qed (use e in simp_all)

lemma execute_acting:
  assumes P: "program_ok P"
  shows "acting P (execute P f)"
proof (induction f)
  case 0
  show ?case using execute_disciplined[of P 0] P by (simp add: acting_def program_ok_def)
next
  case (Suc f)
  have D: "disciplined P (execute P (Suc f))" using execute_disciplined[of P "Suc f"] P by (simp add: program_ok_def)
  show ?case unfolding acting_def
    using D active_step[OF Suc.IH P] ports_step[OF Suc.IH P] by auto
qed

section \<open>The second phase\<close>

text \<open>The unwinding of the frames as a recursion over the list of activations.\<close>

fun unwind :: "program \<Rightarrow> run \<Rightarrow> (int \<times> int) list \<Rightarrow> machine \<Rightarrow> machine outcome" where
  "unwind P run [] m = Inr m"
| "unwind P run ((f, b) # xs) m =
     obind (code_of P b) (\<lambda>c. obind (operand run c (record_event (Deferred f b) m)) (\<lambda>m.
     obind (leave_frame m) (unwind P run xs)))"

definition unwinding :: "machine \<Rightarrow> (int \<times> int) list \<Rightarrow> bool" where
  "unwinding m xs \<longleftrightarrow> settled (tos m) m \<and> linked m xs 0 \<and> bp m = first_frame xs 0"

lemma unwinding_step:
  assumes D: "disciplined P run" and u: "unwinding m ((f, b) # xs)" and c: "stmt_ok P c"
    and r: "run c (record_event (Deferred f b) m) = Inr (q, m1)" and l: "leave_frame m1 = Inr m2"
  shows "unwinding m2 xs" "tos m2 = f" "phases m2 = phases m @ [Deferred f b]"
    "stack_data (the_stack m2) = stack_data (the_stack m)"
    "live_frames m2 = filter (\<lambda>h. h + 8 \<le> f) (live_frames m)" "\<forall>(g, c) \<in> set xs. g < f"
proof -
  let ?m = "record_event (Deferred f b) m"
  have s: "settled (tos m) m" "f \<in> set (live_frames m)" "saved_pointer m f = Inr (first_frame xs 0)"
    "linked m xs 0" "bp m = f" "\<And>g c. (g, c) \<in> set xs \<Longrightarrow> g < f"
    using u by (auto simp: unwinding_def)
  have g: "grown (tos m) 0 ?m m1" using run_stmt[OF D c grown_start r] s(1) by simp
  have k: "settled (tos m1) m1" "live_frames m1 = live_frames m" "bp m1 = f" "phases m1 = phases m @ [Deferred f b]"
    "stack_data (the_stack m1) = stack_data (the_stack m)" "tos m1 = tos m"
    "\<And>h. h \<in> set (live_frames m) \<Longrightarrow> control_words m1 h = control_words m h"
    using g grown_ready[OF g] s(5) by (simp_all add: grown_def keeps_def)
  have lf: "stack_data (the_stack m) + 8 \<le> f" "f + 8 \<le> tos m" "8 dvd (f - stack_data (the_stack m))"
    using s(1,2) by (auto simp: settled_def)
  have "saved_pointer m1 f = saved_pointer m f" by (rule same_words[OF s(1) k(1) s(2)]) (simp_all add: k s(2))
  then have sv: "saved_pointer m1 (bp m1) = Inr (first_frame xs 0)" by (simp add: s(3) k(3))
  have m2: "m2 = m1\<lparr>the_stack := (the_stack m1)\<lparr>stack_top := f, base_pointer := first_frame xs 0\<rparr>,
      live_frames := filter (\<lambda>h. h + 8 \<le> f) (live_frames m)\<rparr>"
    using leave_frame_effect[OF k(1) _ sv l] lf by (simp add: k)
  have first: "first_frame xs 0 = 0 \<or> first_frame xs 0 \<in> set (live_frames m)"
    using s(4) by (cases xs) auto
  then have base: "0 \<le> first_frame xs 0" "first_frame xs 0 \<le> stack_limit (the_stack m1)"
    using k(1,2) by (auto simp: settled_def stack_wf_def stack_limit_def)
  have wf2: "stack_wf (the_stack m2)"
    using k(1) base lf by (auto simp: m2 settled_def stack_wf_def stack_limit_def k(5,6))
  have st2: "settled (tos m2) m2"
    using wf2 k(1) lf by (auto simp: settled_def m2 k(2,5) sorted_wrt_filter)
  have "linked m1 xs 0" by (rule linked_same[OF s(1) k(1) s(4)]) (use linked_live[OF s(4)] k in auto)
  moreover have "g \<in> set (live_frames m2) \<and> control_words m2 g = control_words m1 g" if "(g, e) \<in> set xs" for g e
    using live_gap[OF s(1) s(2) linked_live[OF s(4) that]] s(6)[OF that] linked_live[OF s(4) that]
    by (auto simp: m2 control_words_def)
  ultimately have "linked m2 xs 0" by (intro linked_same[OF k(1) st2]) auto
  then show "unwinding m2 xs" using st2 by (simp add: unwinding_def m2)
  show "tos m2 = f" "phases m2 = phases m @ [Deferred f b]" "stack_data (the_stack m2) = stack_data (the_stack m)"
    using k(4,5) by (simp_all add: m2 phases_def)
  show "live_frames m2 = filter (\<lambda>h. h + 8 \<le> f) (live_frames m)" "\<forall>(g, c) \<in> set xs. g < f"
    using s(6) by (auto simp: m2)
qed

lemma unwinding_nonzero: "unwinding m ((f, b) # xs) \<Longrightarrow> bp m \<noteq> 0 \<and> bp m = f"
  by (auto simp: unwinding_def settled_def stack_wf_def)

lemma program_code: "program_ok P \<Longrightarrow> code_of P b = Inr c \<Longrightarrow> stmt_ok P c"
  by (auto simp: program_ok_def code_of_def split: option.splits)

text \<open>The loop over the frames in memory is the recursion over the activations, and enough fuel is their number.\<close>

lemma deferred_unwind:
  assumes P: "program_ok P" and D: "disciplined P run"
  shows "unwinding m xs \<Longrightarrow> length xs \<le> n \<Longrightarrow> deferred P run n m = unwind P run xs m"
proof (induction xs arbitrary: n m)
  case Nil
  then show ?case by (cases n) (simp_all add: unwinding_def)
next
  case (Cons x xs)
  obtain f b where x: "x = (f, b)" by (cases x)
  obtain n' where n: "n = Suc n'" using Cons.prems(2) by (cases n) auto
  have u: "unwinding m ((f, b) # xs)" using Cons.prems(1) by (simp add: x)
  have ip: "instruction_pointer m f = Inr b" using u by (simp add: unwinding_def)
  have step: "obind (operand run c (record_event (Deferred f b) m)) (\<lambda>m. obind (leave_frame m) (deferred P run n')) =
      obind (operand run c (record_event (Deferred f b) m)) (\<lambda>m. obind (leave_frame m) (unwind P run xs))"
    if c: "code_of P b = Inr c" for c
  proof (cases "run c (record_event (Deferred f b) m)")
    case (Inr v)
    obtain q m1 where v: "v = (q, m1)" by (cases v)
    show ?thesis
    proof (cases "leave_frame m1")
      case (Inr m2)
      have "deferred P run n' m2 = unwind P run xs m2"
        using Cons.IH[OF unwinding_step(1)[OF D u program_code[OF P c] _ Inr]] Cons.prems(2)
          \<open>run c (record_event (Deferred f b) m) = Inr v\<close> by (simp add: v n)
      then show ?thesis using Inr \<open>run c (record_event (Deferred f b) m) = Inr v\<close> by (simp add: operand_def v)
    qed (use Inr v in \<open>simp add: operand_def\<close>)
  qed (simp add: operand_def)
  show ?case
    using unwinding_nonzero[OF u] ip step by (cases "code_of P b") (simp_all add: n x)
qed

definition deferrals :: "(int \<times> int) list \<Rightarrow> event list" where
  "deferrals xs = map (\<lambda>(f, b). Deferred f b) xs"

lemma unwind_effect:
  assumes P: "program_ok P" and D: "disciplined P run"
  shows "unwinding m xs \<Longrightarrow> unwind P run xs m = Inr m' \<Longrightarrow>
    settled (tos m') m' \<and> bp m' = 0 \<and> phases m' = phases m @ deferrals xs \<and>
    stack_data (the_stack m') = stack_data (the_stack m) \<and>
    (xs \<noteq> [] \<longrightarrow> tos m' = fst (last xs) \<and> live_frames m' = filter (\<lambda>h. h + 8 \<le> fst (last xs)) (live_frames m))"
proof (induction xs arbitrary: m)
  case Nil
  then show ?case by (simp add: unwinding_def deferrals_def)
next
  case (Cons x xs)
  obtain f b where x: "x = (f, b)" by (cases x)
  have u: "unwinding m ((f, b) # xs)" using Cons.prems(1) by (simp add: x)
  obtain c q m1 m2 where s: "code_of P b = Inr c" "run c (record_event (Deferred f b) m) = Inr (q, m1)"
    "leave_frame m1 = Inr m2" "unwind P run xs m2 = Inr m'"
    using Cons.prems(2) by (auto simp: x operand_def outcome_simps)
  note st = unwinding_step[OF D u program_code[OF P s(1)] s(2,3)]
  have one: "tos m' = f \<and> live_frames m' = filter (\<lambda>h. h + 8 \<le> f) (live_frames m)" if "xs = []"
    using s(4) st(2,5) that by simp
  have more: "filter (\<lambda>h. h + 8 \<le> fst (last xs)) (live_frames m2) = filter (\<lambda>h. h + 8 \<le> fst (last xs)) (live_frames m)"
    if "xs \<noteq> []"
  proof -
    have "fst (last xs) < f" using st(6) last_in_set[OF that] by (cases "last xs") auto
    then show ?thesis unfolding st(5) filter_filter by (intro filter_cong) auto
  qed
  show ?case using Cons.IH[OF st(1) s(4)] st(3,4) one more by (cases "xs = []") (auto simp: x deferrals_def)
qed

lemma linked_distinct: "linked m xs q \<Longrightarrow> distinct (map fst xs)"
  by (induction xs) auto

lemma linked_length:
  assumes "linked m xs q"
  shows "length xs \<le> length (live_frames m)"
proof -
  have d: "distinct (map fst xs)" by (rule linked_distinct[OF assms])
  have "set (map fst xs) \<subseteq> set (live_frames m)" using linked_live[OF assms] by auto
  then have "card (set (map fst xs)) \<le> card (set (live_frames m))" by (rule card_mono[OF finite_set])
  then show ?thesis using d card_length[of "live_frames m"] by (simp only: distinct_card length_map)
qed

section \<open>Actions in two phases\<close>

definition arguments_bytes :: "action \<Rightarrow> int" where
  "arguments_bytes a = (if a_dimension a \<noteq> - 1 then 24 else 16)"

lemma begin_action_grown:
  assumes m: "settled (tos m) m" and x: "begin_action a component iota m = Inr m'"
  shows "grown (tos m) (arguments_bytes a) m m'"
proof -
  obtain m1 m2 where s:
    "(if a_dimension a \<noteq> - 1 then push_scalar Unsigned_Long (wrap Unsigned_Long iota) m else Inr m) = Inr m1"
    "push_ptr component m1 = Inr m2" "push_ptr 0 m2 = Inr m'"
    using x by (auto simp: begin_action_def outcome_simps split del: if_split)
  have "grown (tos m) (arguments_bytes a - 16) m m1"
    using s(1) push_scalar_slot[OF scalars_ok(2) grown_start[OF m]] grown_start[OF m]
    by (auto simp: arguments_bytes_def split: if_splits)
  from push_ptr_grown[OF push_ptr_grown[OF this s(2)] s(3)] show ?thesis by simp
qed

lemma end_action_effect:
  assumes x: "end_action a m = Inr m'"
  shows "m' = m\<lparr>the_stack := (the_stack m)\<lparr>stack_top := tos m - arguments_bytes a\<rparr>\<rparr>"
proof -
  have pop: "m2 = m1\<lparr>the_stack := (the_stack m1)\<lparr>stack_top := tos m1 - 8\<rparr>\<rparr>" if "pop_ptr m1 = Inr (p, m2)" for p m1 m2
    using that by (auto simp: pop_ptr_def taking_def outcome_simps dest: pop_pointer_lowers(1))
  have pops: "m2 = m1\<lparr>the_stack := (the_stack m1)\<lparr>stack_top := tos m1 - 8\<rparr>\<rparr>"
    if "pop_scalar Unsigned_Long m1 = Inr (p, m2)" for p m1 m2
    using that by (auto simp: pop_scalar_def pop_value_def taking_def outcome_simps dest: stack_store_lowers(1))
  obtain p m1 q m2 where s: "pop_ptr m = Inr (p, m1)" "pop_ptr m1 = Inr (q, m2)"
    "(if a_dimension a \<noteq> - 1 then obind (pop_scalar Unsigned_Long m2) (\<lambda>(_, m). Inr m) else Inr m2) = Inr m'"
    using x by (auto simp: end_action_def outcome_simps split del: if_split)
  show ?thesis using s(3) pop[OF s(1)] pop[OF s(2)]
    by (auto simp: arguments_bytes_def outcome_simps split: if_splits dest: pops)
qed

lemma grown_phase_pointer: "grown b k m0 m \<Longrightarrow> grown b k (m0\<lparr>phase_pointer := q\<rparr>) (m\<lparr>phase_pointer := q\<rparr>)"
  unfolding grown_def keeps_def settled_def phases_def control_words_def by auto

lemma run_action_effect:
  assumes P: "program_ok P" and A: "acting P run" and a: "active_ok P (a_body a)"
    and g: "grown b k m0 m" and k: "8 \<le> k" and z: "bp m = 0" and x: "run_action P run a m = Inr m'"
  shows "\<exists>xs. distinct (map fst xs) \<and> phases m' = phases m @ activations xs @ deferrals xs \<and>
    settled (tos m') m' \<and> bp m' = 0 \<and> tos m' = tos m \<and> stack_data (the_stack m') = stack_data (the_stack m) \<and>
    live_frames m' = live_frames m"
proof -
  let ?m = "m\<lparr>phase_pointer := 0\<rparr>"
  have g0: "grown b k (m0\<lparr>phase_pointer := 0\<rparr>) ?m" by (rule grown_phase_pointer[OF g])
  obtain m1 r m2 where s: "enter_frame (a_locals a) ?m = Inr m1" "run (a_body a) m1 = Inr (r, m2)"
    "(if phase_pointer m2 = 0 then leave_frame m2
      else deferred P run (length (live_frames m2)) (with_base (phase_pointer m2) m2)) = Inr m'"
    using x by (auto simp: run_action_def operand_def outcome_simps)
  have lim: "0 \<le> stack_limit (the_stack ?m)" using g by (simp add: grown_def settled_def stack_wf_def)
  have e: "spread {} ?m m1 []" "ready m1" using enter_frame_spread[OF grown_ready[OF g0] s(1) frame_room[OF g0 k]] lim by simp_all
  have p1: "phase_pointer m1 = 0" "phases m1 = phases m" "stack_data (the_stack m1) = stack_data (the_stack m)"
    using e(1) by (simp_all add: spread_def phases_def)
  have F: "bp m1 = tos m" using enter_frame_spread(3)[OF grown_ready[OF g0] s(1) frame_room[OF g0 k]] lim by simp
  have act: "acts m1 r m2" by (rule actingD(2)[OF A a e(2) s(2)])
  have m0: "bp m0 = 0" "phases m0 = phases m" "stack_data (the_stack m0) = stack_data (the_stack m)" "tos m = b + k"
    "live_frames m0 = live_frames m"
    using g z by (simp_all add: grown_def keeps_def)
  show ?thesis
  proof (cases "grown (tos m1) 0 m1 m2")
    case True
    then have "phase_pointer m2 = 0" using p1 by (simp add: grown_def keeps_def)
    then have "leave_frame m2 = Inr m'" using s(3) by simp
    from frame_call[OF g0 k s(1) True this] have fc: "grown b k (m0\<lparr>phase_pointer := 0\<rparr>) m'" .
    then have "bp m' = 0" "phases m' = phases m" "tos m' = tos m" "stack_data (the_stack m') = stack_data (the_stack m)"
      "live_frames m' = live_frames m"
      using m0 by (simp_all add: grown_def keeps_def phases_def)
    moreover have "phases m = phases m @ activations [] @ deferrals []" "distinct (map fst ([] :: (int \<times> int) list))"
      by (simp_all add: deferrals_def)
    ultimately show ?thesis using grown_ready[OF fc] by metis
  next
    case False
    then obtain ys c where sp: "spread {bp m1} m1 m2 (ys @ [(bp m1, c)])" "bp m2 = bp m1" using act by (auto simp: acts_def)
    let ?xs = "ys @ [(bp m1, c)]" and ?m3 = "with_base (phase_pointer m2) m2"
    have l: "linked m2 ?xs 0" "phase_pointer m2 = first_frame ?xs 0" "phases m2 = phases m @ activations ?xs"
      "stack_data (the_stack m2) = stack_data (the_stack m)"
      using sp(1) p1 by (simp_all add: spread_def)
    have "ready m2" by (rule spread_ready[OF e(2) sp])
    then have u: "unwinding ?m3 ?xs" using settled_with_base l by (simp add: ready_def unwinding_def)
    obtain f d zs where xs: "?xs = (f, d) # zs" by (cases ?xs) auto
    have "phase_pointer m2 \<noteq> 0" using unwinding_nonzero[of ?m3 f d zs] u l(2) by (simp add: xs)
    then have "deferred P run (length (live_frames m2)) ?m3 = Inr m'" using s(3) by simp
    then have "unwind P run ?xs ?m3 = Inr m'"
      using deferred_unwind[OF P actingD(1)[OF A] u] linked_length[OF l(1)] by simp
    then have "settled (tos m') m' \<and> bp m' = 0 \<and> phases m' = phases ?m3 @ deferrals ?xs \<and>
        stack_data (the_stack m') = stack_data (the_stack ?m3) \<and>
        (?xs \<noteq> [] \<longrightarrow> tos m' = fst (last ?xs) \<and> live_frames m' = filter (\<lambda>h. h + 8 \<le> fst (last ?xs)) (live_frames ?m3))"
      by (rule unwind_effect[OF P actingD(1)[OF A] u])
    then have ue: "settled (tos m') m'" "bp m' = 0" "phases m' = phases m @ activations ?xs @ deferrals ?xs"
      "stack_data (the_stack m') = stack_data (the_stack m)" "tos m' = tos m"
      "live_frames m' = filter (\<lambda>h. h + 8 \<le> tos m) (live_frames m2)" using l F by auto
    obtain new where new: "live_frames m2 = new @ live_frames m1" "\<forall>h \<in> set new. tos m1 \<le> h"
      using sp(1) by (auto simp: spread_def)
    have "tos m + 8 \<le> tos m1" "live_frames m1 = tos m # live_frames m"
      using enter_frame_effect(3,4)[OF grown_ready[OF g0] s(1) frame_room[OF g0 k]] by simp_all
    moreover have "\<forall>h \<in> set (live_frames m). h + 8 \<le> tos m" using grown_ready[OF g] by (simp add: settled_def)
    ultimately have "live_frames m' = live_frames m" using new by (auto simp: ue(6) filter_empty_conv filter_id_conv)
    then show ?thesis using linked_distinct[OF l(1)] ue by blast
  qed
qed

lemma action_in_two_phases:
  assumes P: "program_ok P" and a: "active_ok P (a_body a)"
    and m: "settled (tos m) m" "stack_empty (the_stack m)" "bp m = 0"
    and x: "perform_action P f a component iota m = Inr m'"
  shows "execute_no_check P f a component iota m = Inr m' \<and> settled (tos m') m' \<and>
    stack_empty (the_stack m') \<and> bp m' = 0 \<and>
    (\<exists>xs. distinct (map fst xs) \<and> phases m' = phases m @ activations xs @ deferrals xs)"
proof -
  obtain m1 m2 where s: "begin_action a component iota m = Inr m1" "run_action P (execute P f) a m1 = Inr m2"
    "end_action a m2 = Inr m'"
    using x by (auto simp: perform_action_def outcome_simps)
  have g: "grown (tos m) (arguments_bytes a) m m1" by (rule begin_action_grown[OF m(1) s(1)])
  have b: "8 \<le> arguments_bytes a" "8 dvd arguments_bytes a" by (simp_all add: arguments_bytes_def)
  have m1: "bp m1 = 0" "tos m1 = tos m + arguments_bytes a" "phases m1 = phases m"
    "stack_data (the_stack m1) = stack_data (the_stack m)"
    using g m(3) by (simp_all add: grown_def keeps_def)
  obtain xs where xs: "distinct (map fst xs)" "phases m2 = phases m1 @ activations xs @ deferrals xs"
    "settled (tos m2) m2" "bp m2 = 0" "tos m2 = tos m1" "stack_data (the_stack m2) = stack_data (the_stack m1)"
    "live_frames m2 = live_frames m1"
    using run_action_effect[OF P execute_acting[OF P] a g b(1) m1(1) s(2)] by blast
  note e = end_action_effect[OF s(3)]
  have t: "tos m' = tos m" "stack_data (the_stack m') = tos m" using m(2) m1 xs by (simp_all add: e stack_empty_def)
  then have emp: "stack_empty (the_stack m')" by (simp add: stack_empty_def)
  have l: "live_frames m' = live_frames m" using g xs(7) by (simp add: e grown_def keeps_def)
  have "stack_wf (the_stack m')"
    using wf_lower_top[of "the_stack m2" "arguments_bytes a"] xs m1 b m(1) by (simp add: e settled_def)
  then have st: "settled (tos m') m'" using m(1) t m(2) by (simp add: settled_def l stack_empty_def)
  have "phases m' = phases m @ activations xs @ deferrals xs" "bp m' = 0" using xs m1 by (simp_all add: e phases_def)
  then show ?thesis using m(2) x emp st xs(1) by (auto simp: execute_no_check_def)
qed


section \<open>An example, and preconditions\<close>

text \<open>
  A component at address 16 with a push port at 24 and a counter at 32; the record of the port at 64 names the component and
  the reaction at 96; the action and the reaction both activate an increment of the counter.
\<close>

definition bump :: operation where
  "bump = Increment (Scalar Long) (Select (Load (Reference (- 16)) (Pointer (Basic Intt))) 16)"

definition on_ping :: callable where
  "on_ping = \<lparr>c_parameters = Parameter_List [] False, c_return = Parameter_List [] False, c_locals = 0, c_dimension = - 1,
     c_body = Activate (ListOperation []) 5002, c_reaction = True\<rparr>"

definition ping :: action where
  "ping = \<lparr>a_dimension = - 1, a_locals = 0, a_precondition = Literal [1],
     a_body = Activate (ListOperation [PushPortCall 0 (- 16) 8 (ListOperation [])]) 5001\<rparr>"

definition pinging :: program where
  "pinging = (calling on_ping)\<lparr>callable_at := [96 \<mapsto> on_ping], code_at := [5001 \<mapsto> bump, 5002 \<mapsto> bump]\<rparr>"

definition ping_machine :: machine where
  "ping_machine = fresh_machine\<lparr>the_memory := (\<lambda>a. if a = 24 then 64 else if a = 64 then 16 else if a = 72 then 96 else 0)\<rparr>"

lemma ping_result:
  "map_sum id (\<lambda>m. (history m, load_from 32 1 m)) (perform_action pinging 7 ping 16 0 ping_machine) =
     Inr ([Activated 4112 5001, Activated 4136 5002, Deferred 4136 5002, Deferred 4112 5001], Inr [2])"
  by code_simp


lemma pinging_ok: "program_ok pinging"
proof -
  have s: "stmt_ok pinging bump" "active_ok pinging (c_body on_ping)" "c_reaction on_ping" by code_simp+
  have "callable_at pinging = [96 \<mapsto> on_ping]" "code_at pinging = [5001 \<mapsto> bump, 5002 \<mapsto> bump]"
    by (simp_all add: pinging_def)
  then show ?thesis using s by (auto simp: program_ok_def callees_ok_def split: if_splits)
qed


text \<open>The evaluation of a precondition leaves the stack empty and activates nothing.\<close>

lemma enabled_keeps_stack:
  assumes P: "callees_ok P" and e: "esize P (a_precondition a) = Some 8"
    and m: "settled (tos m) m" "stack_empty (the_stack m)"
    and x: "enabled P f a component iota m = Inr (b, m')"
  shows "settled (tos m') m' \<and> stack_empty (the_stack m') \<and> bp m' = bp m \<and> phases m' = phases m"
proof -
  obtain m1 m2 m3 i m4 m5 where s: "begin_action a component iota m = Inr m1" "enter_frame 0 m1 = Inr m2"
    "operand (execute P f) (a_precondition a) m2 = Inr m3" "pop_scalar Bool_Scalar m3 = Inr (i, m4)"
    "leave_frame m4 = Inr m5" "end_action a m5 = Inr m'" "stack_empty (the_stack m')"
    using x by (auto simp: enabled_def outcome_simps split: if_splits)
  have g: "grown (tos m) (arguments_bytes a) m m1" by (rule begin_action_grown[OF m(1) s(1)])
  have k: "8 \<le> arguments_bytes a" "8 dvd arguments_bytes a" by (simp_all add: arguments_bytes_def)
  note ef = enter_frame_effect[OF grown_ready[OF g] s(2) frame_room[OF g k(1)]]
  have body: "grown (tos m2) 0 m2 m4"
    by (rule operand_pop_scalar[OF execute_disciplined[OF P] e grown_start[OF ef(1)] s(3,4) scalars_ok(1)])
  have g5: "grown (tos m) (arguments_bytes a) m m5" by (rule frame_call[OF g k(1) s(2) body s(5)])
  note en = end_action_effect[OF s(6)]
  have "grown (tos m) 0 m m'" using grown_lower[OF g5 _ k(2)] k(1) by (simp add: en)
  then show ?thesis using s(7) grown_ready by (auto simp: grown_def keeps_def)
qed

end
