(* ===== verification/Constant.thy ===== *)
theory Constant
  imports Identity Discipline
begin

text \<open>
  The values of constants and their folding by the type checker (value.hpp, value.cpp and the value computations of
  semantic.cpp).  A value is a union: its bytes are read and written through the member that the type selects.  The
  conversions between numeric members go through a double; an integer in a double is exact up to
  53 bits and rounded to the nearest even beyond.  What is computed with fractional numbers is left to parameters.
\<close>

section \<open>Values\<close>

record constant_value =
  v_present :: bool
  v_bytes :: "8 word list"

definition no_value :: constant_value where
  "no_value = \<lparr>v_present = False, v_bytes = replicate 24 0\<rparr>"

definition member_bytes :: "nat \<Rightarrow> constant_value \<Rightarrow> 8 word list" where
  "member_bytes n v = take n (v_bytes v)"

definition put_member :: "8 word list \<Rightarrow> constant_value \<Rightarrow> constant_value" where
  "put_member bs v = \<lparr>v_present = True, v_bytes = bs @ drop (length bs) (v_bytes v)\<rparr>"

text \<open>The integer and boolean members, those of the untyped constants included.\<close>

fun member_scalar :: "singleton \<Rightarrow> scalar option" where
  "member_scalar UntypedBoolean = Some Bool_Scalar"
| "member_scalar UntypedRune = Some (Int_Scalar 4 True)"
| "member_scalar UntypedInteger = Some (Int_Scalar 8 True)"
| "member_scalar k = scalar_of k"

text \<open>The bytes of a member.\<close>

fun member_size :: "singleton \<Rightarrow> nat" where
  "member_size UntypedFloat = 8"
| "member_size UntypedComplex = 16"
| "member_size UntypedString = 16"
| "member_size k =
     (case member_scalar k of Some t \<Rightarrow> scalar_size t
      | None \<Rightarrow> (case basic_size k of Inr n \<Rightarrow> unat n | Inl _ \<Rightarrow> 0))"

definition get_scalar :: "scalar \<Rightarrow> constant_value \<Rightarrow> int" where
  "get_scalar t v = scalar_value t (member_bytes (scalar_size t) v)"

definition put_scalar :: "scalar \<Rightarrow> int \<Rightarrow> constant_value \<Rightarrow> constant_value" where
  "put_scalar t i = put_member (scalar_bytes t i)"

text \<open>
  What folding takes from elsewhere: the arithmetic of fractional numbers (as the run-time system), the bytes of string
  literals, and the conversions of fractional numbers.
\<close>

record folding =
  f_program :: program
  f_text :: memory
  f_negate :: "singleton \<Rightarrow> 8 word list \<Rightarrow> 8 word list"
  f_widen :: "singleton \<Rightarrow> 8 word list \<Rightarrow> 8 word list"
  f_narrow :: "singleton \<Rightarrow> 8 word list \<Rightarrow> 8 word list outcome"
  f_of_integer :: "singleton \<Rightarrow> int \<Rightarrow> 8 word list"
  f_fits :: "singleton \<Rightarrow> singleton \<Rightarrow> 8 word list \<Rightarrow> bool"

section \<open>Folding of binary operators\<close>

definition fractional :: "singleton \<Rightarrow> bool" where
  "fractional k \<longleftrightarrow> k \<in> {UntypedFloat, UntypedComplex, Float32, Float64, Complex64, Complex128}"

fun is_ordering :: "fobject \<Rightarrow> bool" where
  "is_ordering LessThaner = True"
| "is_ordering LessEqualizer = True"
| "is_ordering MoreThaner = True"
| "is_ordering MoreEqualizer = True"
| "is_ordering _ = False"

fun is_bitwise :: "fobject \<Rightarrow> bool" where
  "is_bitwise Modulizer = True"
| "is_bitwise BitAnder = True"
| "is_bitwise BitAndNotter = True"
| "is_bitwise BitOrer = True"
| "is_bitwise BitXorer = True"
| "is_bitwise _ = False"

text \<open>The kinds the switch of an operator has a case for.\<close>

definition foldable :: "fobject \<Rightarrow> singleton \<Rightarrow> bool" where
  "foldable f k \<longleftrightarrow>
     (if is_ordering f then
        (case member_scalar k of Some t \<Rightarrow> t \<noteq> Bool_Scalar
         | None \<Rightarrow> k \<in> {UntypedFloat, Float32, Float64, UntypedString, String})
      else if is_comparison f then member_scalar k \<noteq> None \<or> fractional k \<or> k \<in> {UntypedNil, UntypedString, String}
      else if is_bitwise f then (case member_scalar k of Some t \<Rightarrow> t \<noteq> Bool_Scalar | None \<Rightarrow> False)
      else (case member_scalar k of Some t \<Rightarrow> t \<noteq> Bool_Scalar | None \<Rightarrow> fractional k))"

text \<open>String::operator== and String::operator<; the rest comes from rel_ops.\<close>

definition text_of :: "memory \<Rightarrow> 8 word list \<Rightarrow> nat list" where
  "text_of mem bs = (case string_of bs of (p, n) \<Rightarrow> map (\<lambda>a. unat (mem a)) [nat p ..< nat p + nat n])"

fun text_less :: "nat list \<Rightarrow> nat list \<Rightarrow> bool" where
  "text_less [] ys \<longleftrightarrow> ys \<noteq> []"
| "text_less (x # xs) [] \<longleftrightarrow> False"
| "text_less (x # xs) (y # ys) \<longleftrightarrow> x < y \<or> (x = y \<and> text_less xs ys)"

fun text_compare :: "fobject \<Rightarrow> nat list \<Rightarrow> nat list \<Rightarrow> bool" where
  "text_compare Equalizer x y \<longleftrightarrow> x = y"
| "text_compare NotEqualizer x y \<longleftrightarrow> x \<noteq> y"
| "text_compare LessThaner x y \<longleftrightarrow> text_less x y"
| "text_compare LessEqualizer x y \<longleftrightarrow> \<not> text_less y x"
| "text_compare MoreThaner x y \<longleftrightarrow> text_less y x"
| "text_compare MoreEqualizer x y \<longleftrightarrow> \<not> text_less x y"
| "text_compare _ x y \<longleftrightarrow> False"

text \<open>The bytes of the result member: untyped_boolean_value for the comparisons, the member of the operands otherwise.\<close>

definition fold_members :: "folding \<Rightarrow> fobject \<Rightarrow> singleton \<Rightarrow> 8 word list \<Rightarrow> 8 word list \<Rightarrow> 8 word list outcome" where
  "fold_members F f k xs ys =
     (case member_scalar k of
        Some t \<Rightarrow> number_apply (f_program F) (Scalar t) f xs ys
      | None \<Rightarrow>
          if fractional k then
            Inr (fit (if is_comparison f then 1 else member_size k) (float_apply (f_program F) k f xs ys))
          else if k = UntypedNil then Inr (scalar_bytes Bool_Scalar (of_bool (f = Equalizer)))
          else Inr (scalar_bytes Bool_Scalar (of_bool (text_compare f (text_of (f_text F) xs) (text_of (f_text F) ys)))))"

text \<open>equal, not_equal, less_than, ..., bit_or of value.cpp; \<open>out\<close> is the value that is written.\<close>

definition fold_binary ::
  "folding \<Rightarrow> tenv \<Rightarrow> fobject \<Rightarrow> ty \<Rightarrow> constant_value \<Rightarrow> constant_value \<Rightarrow> constant_value \<Rightarrow> constant_value outcome"
where
  "fold_binary F env f t out l r =
     (if \<not> v_present l \<or> \<not> v_present r then Inl Assertion_failed
      else case underlying_type env t of
        Basic k \<Rightarrow>
          if foldable f k then
            obind (fold_members F f k (member_bytes (member_size k) l) (member_bytes (member_size k) r))
              (\<lambda>bs. Inr (put_member bs out))
          else Inl Not_reached
      | Pointer b \<Rightarrow>
          if f = Equalizer \<or> f = NotEqualizer then
            obind (number_apply (f_program F) (Scalar Unsigned_Long) f (member_bytes 8 l) (member_bytes 8 r))
              (\<lambda>bs. Inr (put_member bs out))
          else Inl Not_reached
      | _ \<Rightarrow> Inl Not_reached)"

definition value_equal :: "folding \<Rightarrow> tenv \<Rightarrow> ty \<Rightarrow> constant_value \<Rightarrow> constant_value \<Rightarrow> constant_value \<Rightarrow> constant_value outcome" where
  "value_equal F env = fold_binary F env Equalizer"

definition value_not_equal :: "folding \<Rightarrow> tenv \<Rightarrow> ty \<Rightarrow> constant_value \<Rightarrow> constant_value \<Rightarrow> constant_value \<Rightarrow> constant_value outcome" where
  "value_not_equal F env = fold_binary F env NotEqualizer"

definition value_less_than :: "folding \<Rightarrow> tenv \<Rightarrow> ty \<Rightarrow> constant_value \<Rightarrow> constant_value \<Rightarrow> constant_value \<Rightarrow> constant_value outcome" where
  "value_less_than F env = fold_binary F env LessThaner"

definition value_less_equal :: "folding \<Rightarrow> tenv \<Rightarrow> ty \<Rightarrow> constant_value \<Rightarrow> constant_value \<Rightarrow> constant_value \<Rightarrow> constant_value outcome" where
  "value_less_equal F env = fold_binary F env LessEqualizer"

definition value_more_than :: "folding \<Rightarrow> tenv \<Rightarrow> ty \<Rightarrow> constant_value \<Rightarrow> constant_value \<Rightarrow> constant_value \<Rightarrow> constant_value outcome" where
  "value_more_than F env = fold_binary F env MoreThaner"

definition value_more_equal :: "folding \<Rightarrow> tenv \<Rightarrow> ty \<Rightarrow> constant_value \<Rightarrow> constant_value \<Rightarrow> constant_value \<Rightarrow> constant_value outcome" where
  "value_more_equal F env = fold_binary F env MoreEqualizer"

definition value_multiply :: "folding \<Rightarrow> tenv \<Rightarrow> ty \<Rightarrow> constant_value \<Rightarrow> constant_value \<Rightarrow> constant_value \<Rightarrow> constant_value outcome" where
  "value_multiply F env = fold_binary F env Multiplier"

definition value_divide :: "folding \<Rightarrow> tenv \<Rightarrow> ty \<Rightarrow> constant_value \<Rightarrow> constant_value \<Rightarrow> constant_value \<Rightarrow> constant_value outcome" where
  "value_divide F env = fold_binary F env Divider"

definition value_modulus :: "folding \<Rightarrow> tenv \<Rightarrow> ty \<Rightarrow> constant_value \<Rightarrow> constant_value \<Rightarrow> constant_value \<Rightarrow> constant_value outcome" where
  "value_modulus F env = fold_binary F env Modulizer"

definition value_add :: "folding \<Rightarrow> tenv \<Rightarrow> ty \<Rightarrow> constant_value \<Rightarrow> constant_value \<Rightarrow> constant_value \<Rightarrow> constant_value outcome" where
  "value_add F env = fold_binary F env Adder"

definition value_subtract :: "folding \<Rightarrow> tenv \<Rightarrow> ty \<Rightarrow> constant_value \<Rightarrow> constant_value \<Rightarrow> constant_value \<Rightarrow> constant_value outcome" where
  "value_subtract F env = fold_binary F env Subtracter"

definition value_bit_and :: "folding \<Rightarrow> tenv \<Rightarrow> ty \<Rightarrow> constant_value \<Rightarrow> constant_value \<Rightarrow> constant_value \<Rightarrow> constant_value outcome" where
  "value_bit_and F env = fold_binary F env BitAnder"

definition value_bit_and_not :: "folding \<Rightarrow> tenv \<Rightarrow> ty \<Rightarrow> constant_value \<Rightarrow> constant_value \<Rightarrow> constant_value \<Rightarrow> constant_value outcome" where
  "value_bit_and_not F env = fold_binary F env BitAndNotter"

definition value_bit_xor :: "folding \<Rightarrow> tenv \<Rightarrow> ty \<Rightarrow> constant_value \<Rightarrow> constant_value \<Rightarrow> constant_value \<Rightarrow> constant_value outcome" where
  "value_bit_xor F env = fold_binary F env BitXorer"

definition value_bit_or :: "folding \<Rightarrow> tenv \<Rightarrow> ty \<Rightarrow> constant_value \<Rightarrow> constant_value \<Rightarrow> constant_value \<Rightarrow> constant_value outcome" where
  "value_bit_or F env = fold_binary F env BitOrer"

text \<open>The shifts, by the unsigned long of the right operand.\<close>

definition fold_shift ::
  "tenv \<Rightarrow> bool \<Rightarrow> ty \<Rightarrow> constant_value \<Rightarrow> constant_value \<Rightarrow> constant_value \<Rightarrow> constant_value outcome"
where
  "fold_shift env left t out l r =
     (case underlying_type env t of
        Basic k \<Rightarrow>
          (case member_scalar k of
             Some (Int_Scalar n s) \<Rightarrow>
               obind (apply_shift (Int_Scalar n s) left (get_scalar (Int_Scalar n s) l) (get_scalar Unsigned_Long r))
                 (\<lambda>z. Inr (put_scalar (Int_Scalar n s) z out))
           | _ \<Rightarrow> Inl Not_reached)
      | _ \<Rightarrow> Inl Not_reached)"

section \<open>Folding of unary operators\<close>

text \<open>The member negation and complement use: for uint64 it is the member of uint32.\<close>

fun unary_member :: "singleton \<Rightarrow> scalar option" where
  "unary_member Uint64 = Some (Int_Scalar 4 False)"
| "unary_member k = member_scalar k"

definition fold_negate :: "folding \<Rightarrow> tenv \<Rightarrow> ty \<Rightarrow> constant_value \<Rightarrow> constant_value \<Rightarrow> constant_value outcome" where
  "fold_negate F env t out v =
     (case underlying_type env t of
        Basic k \<Rightarrow>
          (case unary_member k of
             Some (Int_Scalar n s) \<Rightarrow>
               obind (in_promoted (Int_Scalar n s) (- get_scalar (Int_Scalar n s) v))
                 (\<lambda>i. Inr (put_scalar (Int_Scalar n s) i out))
           | Some Bool_Scalar \<Rightarrow> Inl Not_reached
           | None \<Rightarrow>
               if fractional k then
                 Inr (put_member (fit (member_size k) (f_negate F k (member_bytes (member_size k) v))) out)
               else Inl Not_reached)
      | _ \<Rightarrow> Inl Not_reached)"

definition fold_complement :: "tenv \<Rightarrow> ty \<Rightarrow> constant_value \<Rightarrow> constant_value \<Rightarrow> constant_value outcome" where
  "fold_complement env t out v =
     (case underlying_type env t of
        Basic k \<Rightarrow>
          (case unary_member k of
             Some (Int_Scalar n s) \<Rightarrow>
               Inr (put_scalar (Int_Scalar n s) (wrap (Int_Scalar n s) (NOT (get_scalar (Int_Scalar n s) v))) out)
           | _ \<Rightarrow> Inl Not_reached)
      | _ \<Rightarrow> Inl Not_reached)"

definition fold_not :: "tenv \<Rightarrow> ty \<Rightarrow> constant_value \<Rightarrow> constant_value \<Rightarrow> constant_value outcome" where
  "fold_not env t out v =
     (case underlying_type env t of
        Basic k \<Rightarrow>
          if member_scalar k = Some Bool_Scalar then
            Inr (put_scalar Bool_Scalar (of_bool (get_scalar Bool_Scalar v = 0)) out)
          else Inl Not_reached
      | _ \<Rightarrow> Inl Not_reached)"

text \<open>LogicOrComputer (\<open>stop\<close> true) and LogicAndComputer: the left operand may decide alone.\<close>

definition fold_logic :: "bool \<Rightarrow> constant_value \<Rightarrow> constant_value \<Rightarrow> constant_value \<Rightarrow> constant_value" where
  "fold_logic stop out l r =
     (if v_present l then
        if (get_scalar Bool_Scalar l \<noteq> 0) = stop then put_scalar Bool_Scalar (of_bool stop) out
        else if v_present r then put_scalar Bool_Scalar (get_scalar Bool_Scalar r) out else out
      else out)"

section \<open>Conversion\<close>

text \<open>An integer rounded to \<open>p\<close> significant bits, to the nearest and from the middle to the even one.\<close>

fun bit_length :: "nat \<Rightarrow> nat" where
  "bit_length n = (if n = 0 then 0 else Suc (bit_length (n div 2)))"

declare bit_length.simps [simp del]

definition round_nat :: "nat \<Rightarrow> nat \<Rightarrow> nat" where
  "round_nat p n =
     (let e = bit_length n - p; q = n div 2 ^ e; r = n mod 2 ^ e in
      (if 2 ^ e < 2 * r \<or> (2 * r = 2 ^ e \<and> odd q) then q + 1 else q) * 2 ^ e)"

definition round_to :: "nat \<Rightarrow> int \<Rightarrow> int" where
  "round_to p i = (if i < 0 then - int (round_nat p (nat (- i))) else int (round_nat p (nat i)))"

text \<open>An UntypedComplex: a double that holds an integer, or the bytes of two doubles.\<close>

datatype wide = Integral int | Wide "8 word list"

definition widen_member :: "folding \<Rightarrow> singleton \<Rightarrow> constant_value \<Rightarrow> wide option" where
  "widen_member F k v =
     (case member_scalar k of
        Some Bool_Scalar \<Rightarrow> None
      | Some t \<Rightarrow> Some (Integral (round_to 53 (get_scalar t v)))
      | None \<Rightarrow>
          if fractional k \<and> k \<noteq> UntypedComplex then Some (Wide (f_widen F k (member_bytes (member_size k) v))) else None)"

text \<open>convert_numeric: a double outside of the range of an integer member is undefined behaviour.\<close>

definition convert_numeric :: "folding \<Rightarrow> wide \<Rightarrow> ty \<Rightarrow> constant_value \<Rightarrow> constant_value outcome" where
  "convert_numeric F x t v =
     (case t of
        Basic k \<Rightarrow>
          (case (member_scalar k, x) of
             (Some Bool_Scalar, _) \<Rightarrow> Inr v
           | (Some s, Integral i) \<Rightarrow>
               if k = UntypedRune then Inl Not_reached
               else if wrap s i = i then Inr (put_scalar s i v) else Inl Undefined_behaviour
           | (Some s, Wide w) \<Rightarrow>
               if k = UntypedRune then Inl Not_reached
               else obind (f_narrow F k w) (\<lambda>bs. Inr (put_member (fit (scalar_size s) bs) v))
           | (None, _) \<Rightarrow>
               if k = UntypedComplex then Inl Not_reached
               else if fractional k then
                 (case x of
                    Integral i \<Rightarrow> Inr (put_member (fit (member_size k) (f_of_integer F k i)) v)
                  | Wide w \<Rightarrow> obind (f_narrow F k w) (\<lambda>bs. Inr (put_member (fit (member_size k) bs) v)))
               else Inr v)
      | _ \<Rightarrow> Inr v)"

definition convert_value :: "folding \<Rightarrow> tenv \<Rightarrow> ty \<Rightarrow> ty \<Rightarrow> constant_value \<Rightarrow> constant_value outcome" where
  "convert_value F env from to v =
     (if \<not> v_present v then Inl Assertion_failed
      else case underlying_type env from of
        Basic UntypedBoolean \<Rightarrow>
          Inr (if underlying_type env to = Basic Bool then put_scalar Bool_Scalar (get_scalar Bool_Scalar v) v else v)
      | Basic UntypedString \<Rightarrow> Inr v
      | Basic UntypedNil \<Rightarrow>
          Inr (case underlying_type env to of
                 Pointer b \<Rightarrow> put_member (replicate 8 0) v
               | Slice b \<Rightarrow> put_member (replicate 24 0) v
               | _ \<Rightarrow> v)
      | Basic k \<Rightarrow>
          (case widen_member F k v of
             Some x \<Rightarrow> convert_numeric F x (underlying_type env to) v
           | None \<Rightarrow> Inl Not_reached)
      | _ \<Rightarrow> Inl Not_reached)"

text \<open>to_and_back of an integer member and of a fractional one: whether the conversion there and back gives the same.\<close>

definition integer_to_and_back :: "scalar \<Rightarrow> int \<Rightarrow> singleton \<Rightarrow> bool outcome" where
  "integer_to_and_back t i k =
     (case scalar_of k of
        Some Bool_Scalar \<Rightarrow> Inr False
      | Some s \<Rightarrow> Inr (wrap t (wrap s i) = i)
      | None \<Rightarrow>
          if fractional k then
            (let j = (if k = Float32 then round_to 24 i else if k = Complex64 then round_to 24 (round_to 53 i)
                      else round_to 53 i) in
             if wrap t j = j then Inr (j = i) else Inl Undefined_behaviour)
          else Inr False)"

definition representable :: "folding \<Rightarrow> tenv \<Rightarrow> ty \<Rightarrow> ty \<Rightarrow> constant_value \<Rightarrow> bool outcome" where
  "representable F env from to v =
     (if \<not> v_present v \<or> \<not> is_untyped from \<or> is_untyped to then Inl Assertion_failed
      else case (from, underlying_type env to) of
        (Basic UntypedNil, t) \<Rightarrow> Inr (case t of Pointer b \<Rightarrow> True | Slice b \<Rightarrow> True | _ \<Rightarrow> False)
      | (Basic UntypedBoolean, t) \<Rightarrow> Inr (t = Basic Bool)
      | (Basic UntypedString, t) \<Rightarrow> Inr (t = Basic String)
      | (Basic UntypedRune, Basic k) \<Rightarrow> integer_to_and_back (Int_Scalar 4 True) (get_scalar (Int_Scalar 4 True) v) k
      | (Basic UntypedInteger, Basic k) \<Rightarrow> integer_to_and_back Long (get_scalar Long v) k
      | (Basic j, Basic k) \<Rightarrow>
          Inr ((scalar_of k \<noteq> None \<and> k \<noteq> Bool \<or> fractional k) \<and> f_fits F j k (member_bytes (member_size j) v))
      | _ \<Rightarrow> Inr False)"

text \<open>Value::to_int of a typed integer.\<close>

definition value_to_int :: "tenv \<Rightarrow> ty \<Rightarrow> constant_value \<Rightarrow> int outcome" where
  "value_to_int env t v =
     (case underlying_type env t of
        Basic k \<Rightarrow>
          (case scalar_of k of
             Some (Int_Scalar n s) \<Rightarrow> Inr (wrap Long (get_scalar (Int_Scalar n s) v))
           | _ \<Rightarrow> Inl Assertion_failed)
      | _ \<Rightarrow> Inl Assertion_failed)"

section \<open>Literals\<close>

text \<open>make_literal: the operation that pushes a constant.\<close>

definition literal_size :: "tenv \<Rightarrow> ty \<Rightarrow> nat option" where
  "literal_size env t =
     (case underlying_type env t of
        Basic k \<Rightarrow>
          if scalar_of k \<noteq> None \<and> k \<noteq> Uintptr \<or> k \<in> {Float64, String} then Some (member_size k) else None
      | Pointer b \<Rightarrow> Some 8
      | Slice b \<Rightarrow> Some 24
      | _ \<Rightarrow> None)"

definition make_literal :: "tenv \<Rightarrow> ty \<Rightarrow> constant_value \<Rightarrow> operation outcome" where
  "make_literal env t v =
     (if \<not> v_present v then Inl Assertion_failed
      else case literal_size env t of Some n \<Rightarrow> Inr (Literal (member_bytes n v)) | None \<Rightarrow> Inl Not_reached)"

section \<open>Folding and execution\<close>

text \<open>The template argument make_binary_arithmetic selects for a type.\<close>

definition binary_number :: "tenv \<Rightarrow> ty \<Rightarrow> number option" where
  "binary_number env t =
     (case underlying_type env t of
        Basic k \<Rightarrow>
          (case scalar_of k of
             Some s \<Rightarrow> Some (Scalar s)
           | None \<Rightarrow> if k \<in> {Float32, Float64, Complex64, Complex128} then Some (Floating k) else None)
      | Pointer b \<Rightarrow> Some (Scalar Long)
      | _ \<Rightarrow> None)"

definition value_ok :: "constant_value \<Rightarrow> bool" where
  "value_ok v \<longleftrightarrow> v_present v \<and> length (v_bytes v) = 24"

lemma length_member: "value_ok v \<Longrightarrow> n \<le> 24 \<Longrightarrow> length (member_bytes n v) = n"
  by (simp add: value_ok_def member_bytes_def)

lemma member_put [simp]: "n = length bs \<Longrightarrow> member_bytes n (put_member bs v) = bs"
  by (simp add: member_bytes_def put_member_def)

lemma member_size_le: "member_size k \<le> 16"
  by (cases k) simp_all

text \<open>A value pushed where there is room, and popped again.\<close>

lemma push_pop:
  assumes wf: "stack_wf (the_stack m)" and len: "length bs \<le> 24"
    and room: "tos m + slot_bytes (length bs) \<le> stack_limit (the_stack m)"
  obtains st where "push_value bs m = Inr (m\<lparr>the_stack := st\<rparr>)" "pushes (the_stack m) st (slot_bytes (length bs)) bs"
    "\<And>n. n = length bs \<Longrightarrow>
       pop_value n (m\<lparr>the_stack := st\<rparr>) = Inr (bs, m\<lparr>the_stack := st\<lparr>stack_top := tos m\<rparr>\<rparr>)"
proof -
  have fits: "int (length bs) \<le> slot_bytes (length bs)"
    using aligned_size_bounds(1)[of "of_nat (length bs)"] len
    by (simp add: unsigned_of_nat take_bit_nat_eq_self)
  have data: "stack_data (the_stack m) \<le> tos m" using wf by (simp add: stack_wf_def)
  obtain st0 where "write_mem (the_stack m) (tos m) bs = Inr st0"
    using data room fits by (simp add: write_mem_def)
  then obtain st where st: "stack_load (the_stack m) bs = Inr st"
    using room by (simp add: stack_load_def Let_def)
  have p: "pushes (the_stack m) st (slot_bytes (length bs)) bs"
    using stack_load_pushes[OF st] by simp
  show ?thesis
  proof (rule that[OF _ p])
    show "push_value bs m = Inr (m\<lparr>the_stack := st\<rparr>)" using st by (simp add: push_value_def on_stack_def)
    show "pop_value n (m\<lparr>the_stack := st\<rparr>) = Inr (bs, m\<lparr>the_stack := st\<lparr>stack_top := tos m\<rparr>\<rparr>)" if "n = length bs" for n
      using p data that by (simp add: pop_value_def taking_def stack_store_def pushes_def same_below_def)
  qed
qed

text \<open>
  The machine after a constant has been pushed: its bytes are on the stack, everything below is as before.
\<close>

definition pushed :: "8 word list \<Rightarrow> machine \<Rightarrow> machine \<Rightarrow> bool" where
  "pushed bs m m' \<longleftrightarrow> (\<exists>st. m' = m\<lparr>the_stack := st\<rparr> \<and> pushes (the_stack m) st (slot_bytes (length bs)) bs)"

lemma run_literal:
  assumes "stack_wf (the_stack m)" "length bs \<le> 24" "tos m + slot_bytes (length bs) \<le> stack_limit (the_stack m)"
  obtains m' where "execute P (Suc f) (Literal bs) m = Inr (Control_Continue, m')" "pushed bs m m'"
proof -
  obtain st where "push_value bs m = Inr (m\<lparr>the_stack := st\<rparr>)" "pushes (the_stack m) st (slot_bytes (length bs)) bs"
    using push_pop[OF assms] by blast
  then show ?thesis using that by (auto simp: continue_def pushed_def)
qed

text \<open>A binary operation on two literals computes the function object on their bytes.\<close>

lemma run_binary_literals:
  assumes wf: "stack_wf (the_stack m)" and len: "length xs = number_size t" "length ys = number_size t"
    "number_size t \<le> 24" "result_size t g \<le> 24" "number_ok t"
    and room: "tos m + slot_bytes (number_size t) \<le> stack_limit (the_stack m)"
      "tos m + slot_bytes (result_size t g) \<le> stack_limit (the_stack m)"
  shows "case number_apply P t g xs ys of
      Inl e \<Rightarrow> execute P (Suc (Suc f)) (Binary t g (Literal xs) (Literal ys)) m = Inl e
    | Inr bs \<Rightarrow> \<exists>m'. execute P (Suc (Suc f)) (Binary t g (Literal xs) (Literal ys)) m = Inr (Control_Continue, m') \<and>
        pushed bs m m'"
proof -
  obtain st1 where s1: "push_value xs m = Inr (m\<lparr>the_stack := st1\<rparr>)"
    "pushes (the_stack m) st1 (slot_bytes (length xs)) xs"
    "\<And>n. n = length xs \<Longrightarrow> pop_value n (m\<lparr>the_stack := st1\<rparr>) = Inr (xs, m\<lparr>the_stack := st1\<lparr>stack_top := tos m\<rparr>\<rparr>)"
    using push_pop[OF wf, of xs] len room by metis
  let ?m1 = "m\<lparr>the_stack := st1\<lparr>stack_top := tos m\<rparr>\<rparr>"
  have below: "same_below (tos m) (the_stack m) st1" using s1(2) by (simp add: pushes_def)
  have wf1: "stack_wf (the_stack ?m1)"
    using wf_lower_top[OF pushes_wf[OF wf s1(2)], of "slot_bytes (length xs)"] s1(2) wf
    by (simp add: pushes_def same_below_def stack_wf_def)
  have lim: "stack_limit (the_stack ?m1) = stack_limit (the_stack m)"
    using below by (simp add: same_below_def stack_limit_def)
  obtain st2 where s2: "push_value ys ?m1 = Inr (?m1\<lparr>the_stack := st2\<rparr>)"
    "pushes (the_stack ?m1) st2 (slot_bytes (length ys)) ys"
    "\<And>n. n = length ys \<Longrightarrow> pop_value n (?m1\<lparr>the_stack := st2\<rparr>) = Inr (ys, ?m1\<lparr>the_stack := st2\<lparr>stack_top := tos ?m1\<rparr>\<rparr>)"
    by (rule push_pop[OF wf1, of ys]) (use len room lim in auto)
  let ?m2 = "m\<lparr>the_stack := st2\<lparr>stack_top := tos m\<rparr>\<rparr>"
  have below2: "same_below (tos m) (the_stack m) st2"
    using below s2(2) by (simp add: pushes_def same_below_def)
  have wf2: "stack_wf (the_stack ?m2)"
    using wf_lower_top[OF pushes_wf[OF wf1 s2(2)], of "slot_bytes (length ys)"] s2(2) wf below2
    by (simp add: pushes_def same_below_def stack_wf_def)
  have lim2: "stack_limit (the_stack ?m2) = stack_limit (the_stack m)"
    using below2 by (simp add: same_below_def stack_limit_def)
  have run: "execute P (Suc (Suc f)) (Binary t g (Literal xs) (Literal ys)) m =
      obind (number_apply P t g xs ys) (\<lambda>bs. obind (push_value bs ?m2) continue)"
    using s1(1,3) s2(1,3) len by (simp add: execute_binary_def operand_def continue_def)
  show ?thesis
  proof (cases "number_apply P t g xs ys")
    case (Inr bs)
    have l: "length bs = result_size t g" by (rule number_apply_length[OF len(5) Inr])
    obtain st3 where s3: "push_value bs ?m2 = Inr (?m2\<lparr>the_stack := st3\<rparr>)"
      "pushes (the_stack ?m2) st3 (slot_bytes (length bs)) bs"
      by (rule push_pop[OF wf2, of bs]) (use len room lim2 l in auto)
    have "pushes (the_stack m) st3 (slot_bytes (length bs)) bs"
      using s3(2) below2 s1(2) s2(2) by (simp add: pushes_def same_below_def)
    then show ?thesis using run Inr s3(1) by (auto simp: continue_def pushed_def)
  qed (use run in simp)
qed

definition foldable_type :: "tenv \<Rightarrow> fobject \<Rightarrow> ty \<Rightarrow> bool" where
  "foldable_type env g t \<longleftrightarrow>
     (case underlying_type env t of
        Basic k \<Rightarrow> foldable g k
      | Pointer b \<Rightarrow> g = Equalizer \<or> g = NotEqualizer
      | _ \<Rightarrow> False)"

lemma member_scalar_typed: "scalar_of k = Some s \<Longrightarrow> member_scalar k = Some s"
  by (cases k) simp_all

lemma pointer_equality:
  "(scalar_value Long xs = scalar_value Long ys) = (scalar_value Unsigned_Long xs = scalar_value Unsigned_Long ys)"
  by (simp add: scalar_value_def signed_take_bit_eq_iff_take_bit_eq)

lemma number_apply_pointer:
  "g = Equalizer \<or> g = NotEqualizer \<Longrightarrow>
     number_apply P (Scalar Unsigned_Long) g xs ys = number_apply P (Scalar Long) g xs ys"
  using pointer_equality[of xs ys]
  by (auto simp: apply_fobject_def result_scalar_def)

text \<open>What fold_binary computes for a type that has a literal is what the template of that type computes.\<close>

lemma fold_binary_number:
  assumes n: "binary_number env t = Some n" and z: "literal_size env t = Some z" and g: "foldable_type env g t"
    and v: "v_present l" "v_present r"
  shows "number_ok n" "z = number_size n" "number_size n \<le> 8"
    "fold_binary F env g t out l r =
       obind (number_apply (f_program F) n g (member_bytes z l) (member_bytes z r)) (\<lambda>bs. Inr (put_member bs out))"
proof -
  consider k where "underlying_type env t = Basic k" | b where "underlying_type env t = Pointer b"
    using n by (cases "underlying_type env t") (simp_all add: binary_number_def)
  then have "number_ok n \<and> z = number_size n \<and> number_size n \<le> 8 \<and> fold_binary F env g t out l r =
       obind (number_apply (f_program F) n g (member_bytes z l) (member_bytes z r)) (\<lambda>bs. Inr (put_member bs out))"
  proof cases
    case 1
    show ?thesis
    proof (cases "scalar_of k")
      case None
      then have "k = Float32 \<or> k = Float64" "n = Floating k" "z = member_size k"
        using n z 1 by (auto simp: binary_number_def literal_size_def split: if_splits)
      then show ?thesis using g v 1 by (auto simp: foldable_type_def fold_binary_def fold_members_def fractional_def)
    next
      case (Some s)
      then have "n = Scalar s" "z = member_size k" "member_scalar k = Some s" "scalar_ok s" "member_size k = scalar_size s"
        using n z 1 member_scalar_typed[OF Some] scalar_of_ok[OF Some]
        by (auto simp: binary_number_def literal_size_def split: if_splits) (cases k; simp)
      then show ?thesis using g v 1 by (simp add: foldable_type_def fold_binary_def fold_members_def scalar_ok_def)
    qed
  next
    case 2
    then have "n = Scalar Long" "z = 8" "g = Equalizer \<or> g = NotEqualizer"
      using n z g by (simp_all add: binary_number_def literal_size_def foldable_type_def)
    then show ?thesis using v 2 number_apply_pointer by (auto simp: fold_binary_def)
  qed
  then show "number_ok n" "z = number_size n" "number_size n \<le> 8"
    "fold_binary F env g t out l r =
       obind (number_apply (f_program F) n g (member_bytes z l) (member_bytes z r)) (\<lambda>bs. Inr (put_member bs out))"
    by simp_all
qed

text \<open>Folding with the function object of an operator and executing the operation of the type of the operands on their
  literals agree: an error of the folding (an overflow, a division by zero) is the error of the execution, and a folded value has the bytes that the
  execution leaves on the stack, with everything below as it was.\<close>

lemma literals_fold:
  assumes n: "binary_number env t = Some n" and g: "foldable_type env g t"
    and v: "value_ok l" "value_ok r" "make_literal env t l = Inr cl" "make_literal env t r = Inr cr"
    and m: "stack_wf (the_stack m)" "tos m + 8 \<le> stack_limit (the_stack m)"
  shows "case fold_binary F env g t out l r of
      Inl e \<Rightarrow> execute (f_program F) (Suc (Suc f)) (Binary n g cl cr) m = Inl e
    | Inr x \<Rightarrow> \<exists>m'. execute (f_program F) (Suc (Suc f)) (Binary n g cl cr) m = Inr (Control_Continue, m') \<and>
        pushed (member_bytes (result_size n g) x) m m'"
proof -
  obtain z where z: "literal_size env t = Some z" "cl = Literal (member_bytes z l)" "cr = Literal (member_bytes z r)"
    using v by (auto simp: make_literal_def split: if_splits option.splits)
  have p: "v_present l" "v_present r" using v by (simp_all add: value_ok_def)
  note fb = fold_binary_number[OF n z(1) g p]
  have n8: "number_size n \<le> 8" "number_ok n" "z = number_size n" using fb(1-3) by simp_all
  have r8: "result_size n g \<le> 8" using n8(1) by (simp add: result_size_def)
  have slot: "slot_bytes k \<le> 8" if "k \<le> 8" for k
    using aligned_size_small[of k] that by (cases "k = 0") (simp_all add: slot_bytes_def aligned_size_def align_up_def stack_alignment_def del: aligned_slot)
  have "case number_apply (f_program F) n g (member_bytes z l) (member_bytes z r) of
      Inl e \<Rightarrow> execute (f_program F) (Suc (Suc f)) (Binary n g cl cr) m = Inl e
    | Inr bs \<Rightarrow> \<exists>m'. execute (f_program F) (Suc (Suc f)) (Binary n g cl cr) m = Inr (Control_Continue, m') \<and> pushed bs m m'"
    unfolding z(2,3)
    by (rule run_binary_literals[OF m(1)])
      (use length_member[OF v(1)] length_member[OF v(2)] n8 r8 m(2) slot[OF n8(1)] slot[OF r8] in auto)
  then show ?thesis
    using number_apply_length[OF n8(2), of "f_program F" g]
    by (cases "number_apply (f_program F) n g (member_bytes z l) (member_bytes z r)") (simp_all add: fb(4))
qed

text \<open>A folder, and int8 constants.\<close>

definition no_names :: tenv where
  "no_names = (\<lambda>n. Basic Intt)"

definition int8 :: "int \<Rightarrow> constant_value" where
  "int8 i = put_scalar (Int_Scalar 1 True) i no_value"

definition folder :: folding where
  "folder = \<lparr>f_program = calling square, f_text = (\<lambda>a. 0), f_negate = (\<lambda>k bs. bs), f_widen = (\<lambda>k bs. bs),
     f_narrow = (\<lambda>k bs. Inr bs), f_of_integer = (\<lambda>k i. scalar_bytes Long i), f_fits = (\<lambda>j k bs. True)\<rparr>"

section \<open>Conversion of integer constants\<close>

lemma bit_length_bound: "n < 2 ^ p \<Longrightarrow> bit_length n \<le> p"
proof (induction n arbitrary: p rule: bit_length.induct)
  case (1 n)
  show ?case
  proof (cases "n = 0")
    case True
    then show ?thesis by (simp add: bit_length.simps)
  next
    case False
    then obtain q where q: "p = Suc q" using 1(2) by (cases p) auto
    then have "n div 2 < 2 ^ q" using 1(2) by auto
    then show ?thesis using 1(1)[OF False] q False by (subst bit_length.simps) simp
  qed
qed

lemma round_nat_exact: "n < 2 ^ p \<Longrightarrow> round_nat p n = n"
  using bit_length_bound[of n p] by (simp add: round_nat_def Let_def)

lemma round_to_exact: "\<bar>i\<bar> < 2 ^ p \<Longrightarrow> round_to p i = i"
proof -
  assume i: "\<bar>i\<bar> < 2 ^ p"
  have "int (nat \<bar>i\<bar>) < int (2 ^ p)" using i by simp
  then have "nat \<bar>i\<bar> < 2 ^ p" by (simp only: of_nat_less_iff)
  then show ?thesis by (auto simp: round_to_def round_nat_exact abs_if split: if_splits)
qed


lemma get_put_scalar: "scalar_ok t \<Longrightarrow> wrap t i = i \<Longrightarrow> get_scalar t (put_scalar t i v) = i"
  by (simp add: get_scalar_def put_scalar_def scalar_roundtrip)

lemma length_put: "length bs \<le> 24 \<Longrightarrow> value_ok v \<Longrightarrow> value_ok (put_member bs v)"
  by (simp add: value_ok_def put_member_def)

text \<open>The integer types that a signed 64-bit integer passes through unchanged exactly when it is in their range.\<close>

lemma there_and_back:
  assumes t: "scalar_of k = Some (Int_Scalar n s)" and i: "wrap Long (wrap (Int_Scalar n s) i) = i"
    and u: "s \<or> n < 8 \<or> 0 \<le> i" and b: "\<bar>i\<bar> < 2 ^ 53"
  shows "wrap (Int_Scalar n s) i = i"
proof -
  have n: "n \<in> {1, 2, 4, 8}" using t by (elim scalar_of.elims) auto
  show ?thesis
  proof (cases s)
    case True
    then show ?thesis using i n by auto
  next
    case False
    show ?thesis
    proof (cases "n = 8")
      case True
      then have "0 \<le> i" "i < 2 ^ 64" using u False b by auto
      then show ?thesis using False True by (simp add: take_bit_int_eq_self)
    next
      case small: False
      let ?w = "take_bit (8 * n) i"
      have "8 * n \<le> 32" using n small by auto
      then have "(2 :: int) ^ (8 * n) \<le> 2 ^ 32" by (rule power_increasing) simp
      then have "?w < 2 ^ 63" by (rule order_less_le_trans[OF take_bit_int_less_exp order_trans]) simp
      moreover have "- (2 ^ 63) \<le> ?w" by (rule order_trans[OF _ take_bit_nonnegative]) simp
      ultimately have "signed_take_bit 63 ?w = ?w" by (simp add: signed_take_bit_int_eq_self)
      then show ?thesis using i False by simp
    qed
  qed
qed

text \<open>C13: An untyped integer constant of less than 53 bits that is representable in an integer type (for the 64-bit unsigned types, which
  accept negative constants by wrapping them there and back, one that is not negative) is converted to that type unchanged.\<close>

theorem conversion_is_exact:
  assumes v: "value_ok v" "get_scalar Long v = i" "\<bar>i\<bar> < 2 ^ 53"
    and k: "underlying_type env to = Basic k" "scalar_of k = Some (Int_Scalar n s)"
    and r: "representable F env (Basic UntypedInteger) to v = Inr True"
    and u: "s \<or> n < 8 \<or> 0 \<le> i"
  shows "\<exists>v'. convert_value F env (Basic UntypedInteger) to v = Inr v' \<and> value_ok v' \<and> get_scalar (Int_Scalar n s) v' = i"
proof -
  have "wrap Long (wrap (Int_Scalar n s) i) = i"
    using r k v(2) by (simp add: representable_def integer_to_and_back_def split: if_splits)
  then have w: "wrap (Int_Scalar n s) i = i" by (rule there_and_back[OF k(2) _ u v(3)])
  have m: "member_scalar k = Some (Int_Scalar n s)" "k \<noteq> UntypedRune" using member_scalar_typed[OF k(2)] k(2) by auto
  have ok: "scalar_ok (Int_Scalar n s)" by (rule scalar_of_ok[OF k(2)])
  have "convert_value F env (Basic UntypedInteger) to v = Inr (put_scalar (Int_Scalar n s) i v)"
    using v k m w by (simp add: convert_value_def convert_numeric_def widen_member_def value_ok_def round_to_exact)
  moreover have "value_ok (put_scalar (Int_Scalar n s) i v)"
    unfolding put_scalar_def by (rule length_put[OF _ v(1)]) (use ok in \<open>simp add: scalar_ok_def\<close>)
  ultimately show ?thesis using get_put_scalar[OF ok w] by blast
qed

text \<open>Beyond 53 bits the conversion rounds: 2^53 + 1 is representable as int64 and becomes 2^53.\<close>

lemma conversion_rounds:
  "representable folder no_names (Basic UntypedInteger) (Basic Int64) (put_scalar Long 9007199254740993 no_value) = Inr True"
  "convert_value folder no_names (Basic UntypedInteger) (Basic Int64) (put_scalar Long 9007199254740993 v) =
     Inr (put_scalar Long 9007199254740992 (put_scalar Long 9007199254740993 v))"
proof -
  have g: "get_scalar Long (put_scalar Long 9007199254740993 v) = 9007199254740993" for v
    by (rule get_put_scalar) (simp_all add: scalar_ok_def)
  have r: "round_to 53 9007199254740993 = 9007199254740992"
    by (simp add: round_to_def round_nat_def bit_length.simps)
  show "representable folder no_names (Basic UntypedInteger) (Basic Int64) (put_scalar Long 9007199254740993 no_value) = Inr True"
    by code_simp
  show "convert_value folder no_names (Basic UntypedInteger) (Basic Int64) (put_scalar Long 9007199254740993 v) =
     Inr (put_scalar Long 9007199254740992 (put_scalar Long 9007199254740993 v))"
    using g r by (simp add: convert_value_def convert_numeric_def widen_member_def put_scalar_def put_member_def)
qed

lemma negative_is_representable_unsigned:
  "representable folder no_names (Basic UntypedInteger) (Basic Uint64) (put_scalar Long (- 1) no_value) = Inr True \<and>
   convert_value folder no_names (Basic UntypedInteger) (Basic Uint64) (put_scalar Long (- 1) no_value) = Inl Undefined_behaviour"
  by code_simp

theorem conversion_is_exact_witness:
  "\<exists>v'. convert_value folder no_names (Basic UntypedInteger) (Basic Int16) (put_scalar Long (- 300) no_value) = Inr v' \<and>
     get_scalar (Int_Scalar 2 True) v' = - 300"
proof -
  have r: "value_ok (put_scalar Long (- 300) no_value)" "get_scalar Long (put_scalar Long (- 300) no_value) = - 300"
    "representable folder no_names (Basic UntypedInteger) (Basic Int16) (put_scalar Long (- 300) no_value) = Inr True"
    by code_simp+
  show ?thesis using conversion_is_exact[OF r(1,2) _ _ _ r(3), of Int16 2 True] by auto
qed

text \<open>The complement of a uint64 constant is taken in its low 32 bits only.\<close>

lemma complement_of_uint64:
  "map_sum id (get_scalar Unsigned_Long) (fold_complement no_names (Basic Uint64) no_value (put_scalar Unsigned_Long 0 no_value)) =
     Inr 4294967295"
  by code_simp

end
