(* ===== verification/Scope.thy ===== *)
theory Scope
  imports Constant Access
begin

text \<open>
  Symbols and scopes (symbol.cpp, scope.cpp, parameter_list.cpp).  A chain of scopes is a list, the innermost first; a scope keeps
  its symbols in the order they were entered.  A parameter and a variable carry the number of the object they stand
  for: a duplicate has the number, and so the stack offset, of its original.  Activations and change
  statements open a scope and enter duplicates and hidden symbols into it.
\<close>

section \<open>Symbols\<close>

datatype entry =
    Parameter_Entry nat parameter
  | Variable_Entry nat string ty mutability mutability
  | Constant_Entry string ty constant_value
  | Function_Entry string int ty
  | Type_Entry string ty
  | Polymorphic_Entry string builtin
  | Hidden_Entry string
  | Instance_Entry string

fun entry_name :: "entry \<Rightarrow> string" where
  "entry_name (Parameter_Entry i p) = pname p"
| "entry_name (Variable_Entry i n t im dm) = n"
| "entry_name (Constant_Entry n t v) = n"
| "entry_name (Function_Entry n a t) = n"
| "entry_name (Type_Entry n t) = n"
| "entry_name (Polymorphic_Entry n f) = n"
| "entry_name (Hidden_Entry n) = n"
| "entry_name (Instance_Entry n) = n"

text \<open>Parameter::Parameter and Variable::Variable: a string cannot be written through.\<close>

definition fix_string :: "tenv \<Rightarrow> ty \<Rightarrow> mutability \<Rightarrow> mutability" where
  "fix_string env t dm = (if is_typed_string env t then max dm Immutable else dm)"

definition make_parameter :: "tenv \<Rightarrow> string \<Rightarrow> ty \<Rightarrow> mutability \<Rightarrow> mutability \<Rightarrow> parameter_kind \<Rightarrow> parameter" where
  "make_parameter env n t im dm k = Parameter n t im (fix_string env t dm) k"

definition make_variable :: "tenv \<Rightarrow> nat \<Rightarrow> string \<Rightarrow> ty \<Rightarrow> mutability \<Rightarrow> mutability \<Rightarrow> entry" where
  "make_variable env i n t im dm = Variable_Entry i n t im (fix_string env t dm)"

text \<open>Parameter::duplicate aborts on a return parameter; Variable::duplicate.\<close>

fun duplicate_parameter :: "mutability \<Rightarrow> parameter \<Rightarrow> parameter outcome" where
  "duplicate_parameter dm (Parameter n t im m k) =
     (case k of
        Receiver \<Rightarrow> Inr (Parameter n t im dm Receiver_Duplicate)
      | Receiver_Duplicate \<Rightarrow> Inr (Parameter n t im dm Receiver_Duplicate)
      | Ordinary \<Rightarrow> Inr (Parameter n t im dm Ordinary_Duplicate)
      | Ordinary_Duplicate \<Rightarrow> Inr (Parameter n t im dm Ordinary_Duplicate)
      | Return \<Rightarrow> Inl Not_reached)"

definition duplicate_variable :: "tenv \<Rightarrow> nat \<Rightarrow> string \<Rightarrow> ty \<Rightarrow> entry" where
  "duplicate_variable env i n t = make_variable env i n t Foreign Foreign"

definition is_foreign_safe :: "tenv \<Rightarrow> nat \<Rightarrow> parameter \<Rightarrow> bool outcome" where
  "is_foreign_safe env n p =
     obind (contains_pointer env n (ptype p)) (\<lambda>b. Inr (\<not> (b \<and> pindirection p \<noteq> Foreign)))"

section \<open>Scopes\<close>

record scope =
  s_symbols :: "entry list"
  s_returns :: "(nat \<times> parameter) list option"

type_synonym scopes = "scope list"

definition open_scope :: "scopes \<Rightarrow> scopes" where
  "open_scope ss = \<lparr>s_symbols = [], s_returns = None\<rparr> # ss"

definition parameter_entries :: "(nat \<times> parameter) list \<Rightarrow> entry list" where
  "parameter_entries ps = map (\<lambda>(i, p). Parameter_Entry i p) ps"

text \<open>Scope::open for the parameters of a callable, after the iota symbol of a reaction with a dimension.\<close>

definition open_callable ::
  "entry option \<Rightarrow> (nat \<times> parameter) list \<Rightarrow> (nat \<times> parameter) list \<Rightarrow> scopes \<Rightarrow> scopes"
where
  "open_callable iota ps rs ss =
     \<lparr>s_symbols = (case iota of None \<Rightarrow> [] | Some e \<Rightarrow> [e]) @ parameter_entries ps @ parameter_entries rs,
      s_returns = Some rs\<rparr> # ss"

definition close_scope :: "scopes \<Rightarrow> scopes" where
  "close_scope ss = tl ss"

fun enter_symbol :: "entry \<Rightarrow> scopes \<Rightarrow> scopes" where
  "enter_symbol e (s # ss) = s\<lparr>s_symbols := s_symbols s @ [e]\<rparr> # ss"
| "enter_symbol e [] = []"

definition find_entry :: "string \<Rightarrow> entry list \<Rightarrow> entry option" where
  "find_entry n es = find (\<lambda>e. n = entry_name e) es"

fun find_local_symbol :: "scopes \<Rightarrow> string \<Rightarrow> entry option" where
  "find_local_symbol (s # ss) n = find_entry n (s_symbols s)"
| "find_local_symbol [] n = None"

fun find_global_symbol :: "scopes \<Rightarrow> string \<Rightarrow> entry option" where
  "find_global_symbol (s # ss) n =
     (case find_entry n (s_symbols s) of Some e \<Rightarrow> Some e | None \<Rightarrow> find_global_symbol ss n)"
| "find_global_symbol [] n = None"

fun return_parameter_list :: "scopes \<Rightarrow> (nat \<times> parameter) list option" where
  "return_parameter_list (s # ss) =
     (case s_returns s of Some rs \<Rightarrow> Some rs | None \<Rightarrow> return_parameter_list ss)"
| "return_parameter_list [] = None"

text \<open>ParameterList::find.\<close>

definition find_parameter :: "string \<Rightarrow> parameter list \<Rightarrow> parameter option" where
  "find_parameter n ps = find (\<lambda>p. pname p = n) ps"

section \<open>Activation and change\<close>

fun is_hidden :: "entry option \<Rightarrow> bool" where
  "is_hidden (Some (Hidden_Entry n)) = True"
| "is_hidden _ = False"

text \<open>What activate enters for a symbol of an outer scope that is not hidden already.\<close>

fun activated :: "tenv \<Rightarrow> nat \<Rightarrow> entry \<Rightarrow> entry option outcome" where
  "activated env n (Parameter_Entry i p) =
     (if pkind p = Receiver then
        obind (duplicate_parameter Mutable p) (\<lambda>q. Inr (Some (Parameter_Entry i q)))
      else obind (contains_pointer env n (ptype p)) (\<lambda>b.
        if b then
          obind (is_foreign_safe env n p) (\<lambda>safe.
            if safe then Inr (Some (Hidden_Entry (pname p))) else Inl Assertion_failed)
        else Inr None))"
| "activated env n (Variable_Entry i x t im dm) =
     obind (contains_pointer env n t) (\<lambda>b.
       Inr (if b \<and> dm = Foreign then Some (Hidden_Entry x) else None))"
| "activated env n e = Inr None"

text \<open>What change enters: duplicates that are pointers to foreign data.\<close>

fun changed :: "tenv \<Rightarrow> nat \<Rightarrow> entry \<Rightarrow> entry option outcome" where
  "changed env n (Parameter_Entry i p) =
     obind (contains_pointer env n (ptype p)) (\<lambda>b.
       if b then obind (duplicate_parameter Foreign p) (\<lambda>q. Inr (Some (Parameter_Entry i q))) else Inr None)"
| "changed env n (Variable_Entry i x t im dm) =
     obind (contains_pointer env n t) (\<lambda>b. Inr (if b then Some (duplicate_variable env i x t) else None))"
| "changed env n e = Inr None"

text \<open>The loop of both over the symbols of the outer scopes, from the inside out; hidden symbols stay hidden.\<close>

definition replace_symbol :: "(entry \<Rightarrow> entry option outcome) \<Rightarrow> scopes \<Rightarrow> entry \<Rightarrow> scopes outcome" where
  "replace_symbol f ss e =
     (if is_hidden (find_global_symbol ss (entry_name e)) then Inr ss
      else obind (f e) (\<lambda>r. Inr (case r of Some e' \<Rightarrow> enter_symbol e' ss | None \<Rightarrow> ss)))"

definition replace_symbols :: "(entry \<Rightarrow> entry option outcome) \<Rightarrow> scopes \<Rightarrow> scopes outcome" where
  "replace_symbols f ss = ofold (replace_symbol f) (concat (map s_symbols (tl ss))) ss"

definition activate :: "tenv \<Rightarrow> nat \<Rightarrow> scopes \<Rightarrow> scopes outcome" where
  "activate env n = replace_symbols (activated env n)"

definition change :: "tenv \<Rightarrow> nat \<Rightarrow> scopes \<Rightarrow> scopes outcome" where
  "change env n = replace_symbols (changed env n)"


section \<open>What the names stand for afterwards\<close>

text \<open>
  A replacement of symbols that establishes a property of what a name can stand for: what it enters
  has the property, what it leaves alone has it already, and hidden symbols have it.
\<close>

lemma find_entry_append: "find_entry n (xs @ ys) = (case find_entry n xs of Some e \<Rightarrow> Some e | None \<Rightarrow> find_entry n ys)"
  by (induction xs) (auto simp: find_entry_def)

lemma find_entry_Some: "find_entry n xs = Some e \<Longrightarrow> e \<in> set xs \<and> entry_name e = n"
  by (induction xs) (auto simp: find_entry_def split: if_splits)

lemma find_global_Some: "find_global_symbol ss n = Some e \<Longrightarrow> e \<in> set (concat (map s_symbols ss)) \<and> entry_name e = n"
  by (induction ss) (auto split: option.splits dest: find_entry_Some)

lemma find_entry_cons: "find_entry n (e # xs) = (if n = entry_name e then Some e else find_entry n xs)"
  by (simp add: find_entry_def)

lemma find_entry_Nil [simp]: "find_entry n [] = None"
  by (simp add: find_entry_def)

lemma find_entry_snoc: "find_entry n (xs @ [e]) = (case find_entry n xs of Some d \<Rightarrow> Some d | None \<Rightarrow> if n = entry_name e then Some e else None)"
  by (induction xs) (simp_all add: find_entry_cons)

locale replacement =
  fixes f :: "entry \<Rightarrow> entry option outcome" and good :: "entry \<Rightarrow> bool"
  assumes same_name: "f e = Inr (Some e') \<Longrightarrow> entry_name e' = entry_name e"
    and entered: "f e = Inr (Some e') \<Longrightarrow> good e'"
    and kept: "f e = Inr None \<Longrightarrow> good e"
    and hidden: "good (Hidden_Entry n)"
begin

text \<open>The names met so far that are found in the new scope, are hidden further out, or stand for something good.\<close>

definition replaced :: "scopes \<Rightarrow> entry list \<Rightarrow> entry \<Rightarrow> bool" where
  "replaced outer own e \<longleftrightarrow>
     find_entry (entry_name e) own \<noteq> None \<or> is_hidden (find_global_symbol outer (entry_name e)) \<or> good e"

lemma step:
  assumes "replace_symbol f (own # outer) e = Inr ss" "\<forall>e \<in> set (s_symbols own). good e"
  obtains own' where "ss = own' # outer" "\<forall>e \<in> set (s_symbols own'). good e" "replaced outer (s_symbols own') e"
    "\<And>d. replaced outer (s_symbols own) d \<Longrightarrow> replaced outer (s_symbols own') d"
proof (cases "is_hidden (find_global_symbol (own # outer) (entry_name e))")
  case True
  then have "replaced outer (s_symbols own) e" by (auto simp: replaced_def split: option.splits)
  then show ?thesis using that[of own] True assms by (simp add: replace_symbol_def)
next
  case False
  then obtain r where r: "f e = Inr r" "ss = (case r of Some e' \<Rightarrow> enter_symbol e' (own # outer) | None \<Rightarrow> own # outer)"
    using assms(1) by (auto simp: replace_symbol_def outcome_simps)
  show ?thesis
  proof (cases r)
    case None
    then show ?thesis using that[of own] r assms(2) kept[of e] by (simp add: replaced_def)
  next
    case (Some e')
    then have "entry_name e' = entry_name e" "good e'" using r(1) same_name entered by simp_all
    let ?own' = "own\<lparr>s_symbols := s_symbols own @ [e']\<rparr>"
    show ?thesis
    proof (rule that)
      show "ss = ?own' # outer" "\<forall>e \<in> set (s_symbols ?own'). good e"
        using r(2) Some assms(2) \<open>good e'\<close> by auto
      show "replaced outer (s_symbols ?own') e"
        using \<open>entry_name e' = entry_name e\<close> by (simp add: replaced_def find_entry_snoc split: option.splits)
      show "replaced outer (s_symbols ?own') d" if "replaced outer (s_symbols own) d" for d
        using that by (auto simp: replaced_def find_entry_snoc)
    qed
  qed
qed

lemma loop:
  assumes "ofold (replace_symbol f) es (own # outer) = Inr ss" "\<forall>e \<in> set (s_symbols own). good e"
  shows "\<exists>own'. ss = own' # outer \<and> (\<forall>e \<in> set (s_symbols own'). good e) \<and>
    (\<forall>d. d \<in> set es \<or> replaced outer (s_symbols own) d \<longrightarrow> replaced outer (s_symbols own') d)"
  using assms
proof (induction es arbitrary: own)
  case Nil
  then show ?case by (intro exI[of _ own]) simp
next
  case (Cons e es)
  then obtain ss' where s: "replace_symbol f (own # outer) e = Inr ss'" "ofold (replace_symbol f) es ss' = Inr ss"
    by (auto simp: outcome_simps)
  obtain own' where own': "ss' = own' # outer" "\<forall>e \<in> set (s_symbols own'). good e" "replaced outer (s_symbols own') e"
    "\<And>d. replaced outer (s_symbols own) d \<Longrightarrow> replaced outer (s_symbols own') d"
    using step[OF s(1) Cons.prems(2)] by metis
  obtain own'' where "ss = own'' # outer" "\<forall>e \<in> set (s_symbols own''). good e"
    "\<forall>d. d \<in> set es \<or> replaced outer (s_symbols own') d \<longrightarrow> replaced outer (s_symbols own'') d"
    using Cons.IH[OF s(2)[unfolded own'(1)] own'(2)] by blast
  then show ?case using own'(3,4) by (intro exI[of _ own'']) auto
qed

lemma replaced_good:
  assumes "replace_symbols f (open_scope outer) = Inr ss" "find_global_symbol ss n = Some e"
  shows "good e"
proof -
  obtain own' where own': "ss = own' # outer" "\<forall>e \<in> set (s_symbols own'). good e"
    "\<forall>d \<in> set (concat (map s_symbols outer)). replaced outer (s_symbols own') d"
    using loop[OF assms(1)[unfolded replace_symbols_def open_scope_def]] by auto
  show ?thesis
  proof (cases "find_entry n (s_symbols own')")
    case (Some d)
    then show ?thesis using find_entry_Some[OF Some] own'(2) assms(2) own'(1) by auto
  next
    case None
    then have g: "find_global_symbol outer n = Some e" using assms(2) own'(1) by simp
    then have "replaced outer (s_symbols own') e" "entry_name e = n"
      using find_global_Some[OF g] own'(3) by blast+
    then show ?thesis using None g hidden by (cases e) (auto simp: replaced_def)
  qed
qed

definition become :: "entry \<Rightarrow> entry option" where
  "become e = (case f e of Inr (Some e') \<Rightarrow> Some e' | _ \<Rightarrow> None)"

definition found :: "entry option \<Rightarrow> entry option \<Rightarrow> entry option" where
  "found x otherwise = (case x of None \<Rightarrow> otherwise | Some e \<Rightarrow> (case become e of Some e' \<Rightarrow> Some e' | None \<Rightarrow> otherwise))"

text \<open>With distinct names in the outer scopes, a name stands for the replacement of what it stood for.\<close>

lemma loop_distinct:
  assumes "ofold (replace_symbol f) es (own # outer) = Inr ss" "distinct (map entry_name es)"
    "\<And>e. e \<in> set es \<Longrightarrow> find_entry (entry_name e) (s_symbols own) = None \<and> find_global_symbol outer (entry_name e) = Some e"
    "\<And>m. f (Hidden_Entry m) = Inr None"
  shows "\<exists>own'. ss = own' # outer \<and> (\<forall>m. find_entry m (s_symbols own') =
    found (find_entry m es) (find_entry m (s_symbols own)))"
  using assms(1-3)
proof (induction es arbitrary: own)
  case Nil
  then show ?case by (auto simp: found_def)
next
  case (Cons e es)
  obtain ss' where s: "replace_symbol f (own # outer) e = Inr ss'" "ofold (replace_symbol f) es ss' = Inr ss"
    using Cons.prems(1) by (auto simp: outcome_simps)
  obtain r own' where r: "f e = Inr r" "ss' = own' # outer"
    "s_symbols own' = s_symbols own @ (case r of Some e' \<Rightarrow> [e'] | None \<Rightarrow> [])"
  proof (cases "is_hidden (Some e)")
    case True
    then have "f e = Inr None" using assms(4) by (cases e) auto
    then show ?thesis using that[of None own] s(1) Cons.prems(3)[of e] True by (simp add: replace_symbol_def)
  next
    case False
    then obtain r where "f e = Inr r" "ss' = (case r of Some e' \<Rightarrow> enter_symbol e' (own # outer) | None \<Rightarrow> own # outer)"
      using s(1) Cons.prems(3)[of e] by (auto simp: replace_symbol_def outcome_simps)
    then show ?thesis
      using that[of r "case r of Some e' \<Rightarrow> own\<lparr>s_symbols := s_symbols own @ [e']\<rparr> | None \<Rightarrow> own"]
      by (cases r) auto
  qed
  have name: "entry_name e' = entry_name e" if "r = Some e'" for e' using r(1) that same_name by simp
  have other: "find_entry m (s_symbols own') = find_entry m (s_symbols own)" if "m \<noteq> entry_name e" for m
    using r(3) name that by (cases r) (auto simp: find_entry_snoc split: option.splits)
  have "find_entry (entry_name d) (s_symbols own') = None \<and> find_global_symbol outer (entry_name d) = Some d" if d: "d \<in> set es" for d
  proof -
    have "entry_name d \<in> entry_name ` set es" using d by simp
    then have "entry_name d \<noteq> entry_name e" using Cons.prems(2) by auto
    then show ?thesis using other Cons.prems(3)[of d] d by simp
  qed
  then obtain own'' where own'': "ss = own'' # outer"
    "\<And>m. find_entry m (s_symbols own'') = found (find_entry m es) (find_entry m (s_symbols own'))"
    using Cons.IH[OF s(2)[unfolded r(2)]] Cons.prems(2) by auto
  have e: "find_entry (entry_name e) es = None"
  proof (rule ccontr)
    assume "find_entry (entry_name e) es \<noteq> None"
    then obtain d where "d \<in> set es" "entry_name d = entry_name e" using find_entry_Some by blast
    then have "entry_name e \<in> entry_name ` set es" by (metis imageI)
    then show False using Cons.prems(2) by simp
  qed
  have "find_entry m (s_symbols own'') =
    found (find_entry m (e # es)) (find_entry m (s_symbols own))" for m
  proof (cases "m = entry_name e")
    case True
    then show ?thesis
      using own''(2)[of m] e r Cons.prems(3)[of e] name
      by (cases r) (auto simp: found_def become_def find_entry_cons find_entry_snoc)
  next
    case False
    then show ?thesis using own''(2)[of m] other by (simp add: find_entry_cons)
  qed
  then show ?case using own''(1) by blast
qed

lemma find_in_distinct:
  "distinct (map entry_name es) \<Longrightarrow> e \<in> set es \<Longrightarrow> find_entry (entry_name e) es = Some e"
  by (induction es) (auto simp: find_entry_cons image_iff)

lemma find_global_concat: "find_global_symbol ss n = find_entry n (concat (map s_symbols ss))"
  by (induction ss) (auto simp: find_entry_append split: option.splits)

lemma replaced_exactly:
  assumes run: "replace_symbols f (open_scope outer) = Inr ss"
    and distinct: "distinct (map entry_name (concat (map s_symbols outer)))" and h: "\<And>m. f (Hidden_Entry m) = Inr None"
  shows "find_global_symbol ss n =
    found (find_global_symbol outer n) (find_global_symbol outer n)"
proof -
  have "\<exists>own'. ss = own' # outer \<and> (\<forall>m. find_entry m (s_symbols own') =
    found (find_entry m (concat (map s_symbols outer))) None)"
    using loop_distinct[OF run[unfolded replace_symbols_def open_scope_def] _ _ h] find_in_distinct[OF distinct] distinct
    by (simp add: find_global_concat)
  then show ?thesis by (auto simp: find_global_concat find_entry_append found_def split: option.splits)
qed

end


text \<open>What a name may stand for in the mutable phase, and in the body of a change statement.\<close>

fun activation_safe :: "tenv \<Rightarrow> nat \<Rightarrow> entry \<Rightarrow> bool" where
  "activation_safe env n (Parameter_Entry i p) \<longleftrightarrow>
     contains_pointer env n (ptype p) = Inr False \<or> pkind p = Receiver_Duplicate \<and> pindirection p = Mutable"
| "activation_safe env n (Variable_Entry i x t im dm) \<longleftrightarrow> contains_pointer env n t = Inr False \<or> dm \<noteq> Foreign"
| "activation_safe env n e \<longleftrightarrow> True"

fun change_safe :: "tenv \<Rightarrow> nat \<Rightarrow> entry \<Rightarrow> bool" where
  "change_safe env n (Parameter_Entry i p) \<longleftrightarrow> contains_pointer env n (ptype p) = Inr False \<or> pindirection p = Foreign"
| "change_safe env n (Variable_Entry i x t im dm) \<longleftrightarrow> contains_pointer env n t = Inr False \<or> dm = Foreign"
| "change_safe env n e \<longleftrightarrow> True"

lemma duplicate_parameter_result:
  "duplicate_parameter dm p = Inr q \<Longrightarrow> pname q = pname p \<and> ptype q = ptype p \<and> pindirection q = dm \<and>
     (pkind p = Receiver \<longrightarrow> pkind q = Receiver_Duplicate)"
  by (cases p) (auto split: parameter_kind.splits)

lemma duplicate_variable_entry: "duplicate_variable env i x t = Variable_Entry i x t Foreign Foreign"
  by (simp add: duplicate_variable_def make_variable_def fix_string_def max_def less_eq_mutability_def)

lemma activated_cases:
  "activated env n e = Inr (Some e') \<Longrightarrow> entry_name e' = entry_name e \<and> activation_safe env n e'"
  "activated env n e = Inr None \<Longrightarrow> activation_safe env n e"
  by (cases e; auto simp: outcome_simps split: if_splits dest: duplicate_parameter_result)+

lemma changed_cases:
  "changed env n e = Inr (Some e') \<Longrightarrow> entry_name e' = entry_name e \<and> change_safe env n e'"
  "changed env n e = Inr None \<Longrightarrow> change_safe env n e"
  by (cases e; auto simp: outcome_simps duplicate_variable_entry split: if_splits dest: duplicate_parameter_result)+

interpretation act: replacement "activated env n" "activation_safe env n" for env n
  by unfold_locales (auto dest: activated_cases)

interpretation chg: replacement "changed env n" "change_safe env n" for env n
  by unfold_locales (auto dest: changed_cases)

text \<open>C11: In the scope that activate fills, no name stands for a pointer of the immutable phase that must not be used: a name that stands for
  a parameter stands for a value without pointers or for the receiver, now with mutable indirection, and a name that
  stands for a variable stands for a value without pointers or one that is not foreign.\<close>

theorem activation_hides_foreign:
  assumes "activate env n (open_scope outer) = Inr ss" "find_global_symbol ss name = Some e"
  shows "activation_safe env n e"
  by (rule act.replaced_good[OF assms(1)[unfolded activate_def] assms(2)])

text \<open>The same for change: every pointer is a pointer to foreign data.\<close>

theorem change_makes_foreign:
  assumes "change env n (open_scope outer) = Inr ss" "find_global_symbol ss name = Some e"
  shows "change_safe env n e"
  by (rule chg.replaced_good[OF assms(1)[unfolded change_def] assms(2)])

text \<open>An action with the receiver \<open>this\<close>, a parameter that is a pointer and a foreign pointer variable.\<close>

definition counter_env :: tenv where
  "counter_env = (\<lambda>n. if n = 30 then Struct Component 1 [Field 0 False ''x'' (Basic Intt) {}] else Basic Intt)"

definition action_scopes :: scopes where
  "action_scopes =
     [\<lparr>s_symbols = [Variable_Entry 3 ''q'' (Pointer (Basic Intt)) Mutable Foreign, Variable_Entry 4 ''i'' (Basic Intt) Mutable Mutable],
       s_returns = None\<rparr>,
      \<lparr>s_symbols = [Parameter_Entry 1 (Parameter ''this'' (Pointer (NamedType 30)) Immutable Immutable Receiver),
                    Parameter_Entry 2 (Parameter ''p'' (Pointer (Basic Intt)) Immutable Foreign Ordinary)],
       s_returns = Some []\<rparr>]"

definition activated_scopes :: scopes where
  "activated_scopes =
     \<lparr>s_symbols = [Hidden_Entry ''q'', Parameter_Entry 1 (Parameter ''this'' (Pointer (NamedType 30)) Immutable Mutable Receiver_Duplicate),
                   Hidden_Entry ''p''], s_returns = None\<rparr> # action_scopes"

theorem activation_hides_foreign_witness:
  "activate counter_env 5 (open_scope action_scopes) = Inr activated_scopes \<and>
   find_global_symbol activated_scopes ''this'' =
     Some (Parameter_Entry 1 (Parameter ''this'' (Pointer (NamedType 30)) Immutable Mutable Receiver_Duplicate)) \<and>
   activation_safe counter_env 5 (Parameter_Entry 1 (Parameter ''this'' (Pointer (NamedType 30)) Immutable Mutable Receiver_Duplicate))"
proof -
  have a: "activate counter_env 5 (open_scope action_scopes) = Inr activated_scopes" by code_simp
  have f: "find_global_symbol activated_scopes ''this'' =
     Some (Parameter_Entry 1 (Parameter ''this'' (Pointer (NamedType 30)) Immutable Mutable Receiver_Duplicate))" by code_simp
  show ?thesis using a f activation_hides_foreign[OF a f] by blast
qed

text \<open>
  The symbols are entered whether or not they are shadowed: an inner variable with the name of the receiver is
  replaced by the receiver, and a return parameter that is a pointer aborts a change statement.
\<close>

lemma receiver_captures_variable:
  "map_sum id (\<lambda>ss. find_global_symbol ss ''this'')
     (activate counter_env 5 (open_scope (\<lparr>s_symbols = [Variable_Entry 9 ''this'' (Basic Intt) Mutable Mutable], s_returns = None\<rparr> #
        action_scopes))) =
   Inr (Some (Parameter_Entry 1 (Parameter ''this'' (Pointer (NamedType 30)) Immutable Mutable Receiver_Duplicate)))"
  by code_simp

lemma change_aborts_on_returned_pointer:
  "change counter_env 5 (open_scope [\<lparr>s_symbols = [Parameter_Entry 1 (Parameter ''r'' (Pointer (Basic Intt)) Mutable Mutable Return)],
     s_returns = None\<rparr>]) = Inl Not_reached"
  by code_simp

end
