(* ===== verification/Check.thy ===== *)
theory Check
  imports Scope
begin

text \<open>
  Type checking of bodies (check_types.cpp, the check methods of semantic.cpp, expression_value.cpp, callable.cpp).  The checker goes from the
  syntax the parser builds to the syntax with the results it writes into the nodes: the evaluation of every expression
  and the symbol, field or callable an identifier or a selection stands for.  Types are given as process_type
  leaves them.  An error that ends the compiler is Rejected with its number; one that the error reporter counts leaves a
  node of the kind ErrorExpressionKind.  A type that is NULL is None, and asking it anything is undefined.
\<close>

section \<open>Syntax\<close>

datatype unary_operator = Posate_Operator | Negate_Operator | Complement_Operator | Not_Operator

text \<open>The binary operators: those computed by a function object, the shifts (left or right), or (True) and and (False).\<close>

datatype binary_operator = Computed fobject | Shifted bool | Logic bool

datatype pexp =
    P_Literal ty constant_value
  | P_Identifier string
  | P_Type ty
  | P_Address_Of pexp
  | P_Dereference pexp
  | P_Select pexp string
  | P_Index pexp pexp
  | P_Index_Slice pexp "pexp option" "pexp option" "pexp option"
  | P_Call pexp "pexp list"
  | P_Unary unary_operator pexp
  | P_Binary binary_operator pexp pexp
  | P_Push_Port_Call string "pexp list"
  | P_Indexed_Push_Port_Call string pexp "pexp list"

text \<open>ExpressionValue.\<close>

record ev =
  e_kind :: expression_kind
  e_type :: "ty option"
  e_value :: constant_value
  e_intrinsic :: mutability
  e_indirection :: mutability

text \<open>A callable of a named type: its address and its type.\<close>

type_synonym callable_entry = "int \<times> ty"

datatype texp =
    T_Error
  | T_Literal ev
  | T_Identifier ev entry
  | T_Type ev
  | T_Address_Of ev texp
  | T_Dereference ev texp
  | T_Field ev texp "field list" nat
  | T_Method ev texp callable_entry
  | T_Index ev texp texp ty
  | T_Index_Slice ev texp "texp option" "texp option" "texp option" ty
  | T_Conversion ev texp
  | T_Builtin ev builtin "texp list"
  | T_Call ev texp "texp list"
  | T_Unary ev unary_operator texp
  | T_Binary ev binary_operator texp texp
  | T_Push_Port_Call ev "field list" nat parameter_list "texp list"
  | T_Indexed_Push_Port_Call ev "field list" nat parameter_list ty texp "texp list"

definition blank :: ev where
  "blank = \<lparr>e_kind = UnknownExpressionKind, e_type = None, e_value = no_value, e_intrinsic = Mutable, e_indirection = Mutable\<rparr>"

definition error_ev :: ev where
  "error_ev = blank\<lparr>e_kind := ErrorExpressionKind\<rparr>"

definition value_ev :: "ty \<Rightarrow> mutability \<Rightarrow> ev" where
  "value_ev t dm = \<lparr>e_kind = ValueExpressionKind, e_type = Some t, e_value = no_value, e_intrinsic = Immutable, e_indirection = dm\<rparr>"

definition variable_ev :: "ty \<Rightarrow> mutability \<Rightarrow> mutability \<Rightarrow> ev" where
  "variable_ev t im dm =
     \<lparr>e_kind = VariableExpressionKind, e_type = Some t, e_value = no_value, e_intrinsic = im, e_indirection = dm\<rparr>"

definition void_ev :: ev where
  "void_ev = blank\<lparr>e_kind := VoidExpressionKind\<rparr>"

fun ev_of :: "texp \<Rightarrow> ev" where
  "ev_of T_Error = error_ev"
| "ev_of (T_Literal v) = v"
| "ev_of (T_Identifier v s) = v"
| "ev_of (T_Type v) = v"
| "ev_of (T_Address_Of v e) = v"
| "ev_of (T_Dereference v e) = v"
| "ev_of (T_Field v e fs k) = v"
| "ev_of (T_Method v e c) = v"
| "ev_of (T_Index v b i t) = v"
| "ev_of (T_Index_Slice v b l h m t) = v"
| "ev_of (T_Conversion v e) = v"
| "ev_of (T_Builtin v f es) = v"
| "ev_of (T_Call v f es) = v"
| "ev_of (T_Unary v f e) = v"
| "ev_of (T_Binary v f l r) = v"
| "ev_of (T_Push_Port_Call v fs k ps es) = v"
| "ev_of (T_Indexed_Push_Port_Call v fs k ps t i es) = v"

fun set_ev :: "ev \<Rightarrow> texp \<Rightarrow> texp" where
  "set_ev v T_Error = T_Error"
| "set_ev v (T_Literal _) = T_Literal v"
| "set_ev v (T_Identifier _ s) = T_Identifier v s"
| "set_ev v (T_Type _) = T_Type v"
| "set_ev v (T_Address_Of _ e) = T_Address_Of v e"
| "set_ev v (T_Dereference _ e) = T_Dereference v e"
| "set_ev v (T_Field _ e fs k) = T_Field v e fs k"
| "set_ev v (T_Method _ e c) = T_Method v e c"
| "set_ev v (T_Index _ b i t) = T_Index v b i t"
| "set_ev v (T_Index_Slice _ b l h m t) = T_Index_Slice v b l h m t"
| "set_ev v (T_Conversion _ e) = T_Conversion v e"
| "set_ev v (T_Builtin _ f es) = T_Builtin v f es"
| "set_ev v (T_Call _ f es) = T_Call v f es"
| "set_ev v (T_Unary _ f e) = T_Unary v f e"
| "set_ev v (T_Binary _ f l r) = T_Binary v f l r"
| "set_ev v (T_Push_Port_Call _ fs k ps es) = T_Push_Port_Call v fs k ps es"
| "set_ev v (T_Indexed_Push_Port_Call _ fs k ps t i es) = T_Indexed_Push_Port_Call v fs k ps t i es"

section \<open>Evaluations\<close>

definition the_type :: "ev \<Rightarrow> ty outcome" where
  "the_type v = (case e_type v of Some t \<Rightarrow> Inr t | None \<Rightarrow> Inl Undefined_behaviour)"

definition is_value_or_variable :: "ev \<Rightarrow> bool" where
  "is_value_or_variable v \<longleftrightarrow> e_kind v = ValueExpressionKind \<or> e_kind v = VariableExpressionKind"

definition require_value_or_variable :: "ev \<Rightarrow> unit outcome" where
  "require_value_or_variable v =
     (if e_kind v = UnknownExpressionKind then Inl Assertion_failed
      else if is_value_or_variable v then Inr () else Inl (Rejected 78))"

definition require_value_or_variable_or_void :: "ev \<Rightarrow> unit outcome" where
  "require_value_or_variable_or_void v =
     (if e_kind v = UnknownExpressionKind then Inl Assertion_failed
      else if is_value_or_variable v \<or> e_kind v = VoidExpressionKind then Inr () else Inl (Rejected 78))"

definition require_variable :: "ev \<Rightarrow> unit outcome" where
  "require_variable v =
     (if e_kind v = UnknownExpressionKind then Inl Assertion_failed
      else if e_kind v = VariableExpressionKind then Inr () else Inl (Rejected 2))"

text \<open>What the checker of a body has from its surroundings.\<close>

datatype call_context = Other | In_Action | In_Reaction | In_Initializer | In_Getter

record named_info =
  n_methods :: "(string \<times> callable_entry) list"
  n_initializers :: "(string \<times> callable_entry) list"
  n_getters :: "(string \<times> callable_entry) list"
  n_reactions :: "(string \<times> callable_entry) list"

record checker =
  k_env :: tenv
  k_nesting :: nat
  k_named :: "nat \<Rightarrow> named_info"
  k_folding :: folding
  k_receiver :: "(nat \<times> parameter) option"
  k_context :: call_context
  k_mutable_phase :: bool
  k_indeterminate :: mutability

definition fix_string_indirection :: "tenv \<Rightarrow> ev \<Rightarrow> ev outcome" where
  "fix_string_indirection env v =
     (if e_kind v = ErrorExpressionKind then Inr v
      else obind (the_type v) (\<lambda>t.
        Inr (if underlying_kind env t = String_Kind then v\<lparr>e_indirection := max (e_indirection v) Immutable\<rparr> else v)))"

text \<open>ExpressionValue::convert.\<close>

definition convert_ev :: "checker \<Rightarrow> ty \<Rightarrow> ev \<Rightarrow> ev outcome" where
  "convert_ev K t v =
     (if e_type v = Some t then Inr v
      else obind (if v_present (e_value v) then obind (the_type v) (\<lambda>from. convert_value (k_folding K) (k_env K) from t (e_value v))
                  else Inr (e_value v))
        (\<lambda>x. Inr (v\<lparr>e_type := Some t, e_value := x\<rparr>)))"

definition convert_exp :: "checker \<Rightarrow> ty \<Rightarrow> texp \<Rightarrow> texp outcome" where
  "convert_exp K t e = obind (convert_ev K t (ev_of e)) (\<lambda>v. Inr (set_ev v e))"

text \<open>are_assignable of type.cpp.\<close>

definition are_assignable :: "checker \<Rightarrow> ty \<Rightarrow> constant_value \<Rightarrow> ty \<Rightarrow> bool outcome" where
  "are_assignable K from x to =
     (if is_untyped to then Inr False
      else obind (are_identical from to) (\<lambda>same. if same then Inr True
      else obind (are_identical (underlying_type (k_env K) from) (underlying_type (k_env K) to)) (\<lambda>alike.
        if alike \<and> (\<not> is_named from \<or> \<not> is_named to) then Inr True
        else if kind_of from = Untyped_Nil_Kind \<and>
          underlying_kind (k_env K) to \<in> {Pointer_Kind, Function_Kind, Slice_Kind, Map_Kind, Interface_Kind} then Inr True
        else if is_untyped from then representable (k_folding K) (k_env K) from to x
        else Inr False)))"

section \<open>Operators\<close>

definition check_unary :: "checker \<Rightarrow> unary_operator \<Rightarrow> ev \<Rightarrow> ev outcome" where
  "check_unary K f v =
     (if e_kind v = UnknownExpressionKind then Inl Assertion_failed
      else if \<not> is_value_or_variable v then Inr error_ev
      else obind (the_type v) (\<lambda>t.
        let ok = (case f of
            Not_Operator \<Rightarrow> is_any_boolean (k_env K) t
          | Complement_Operator \<Rightarrow> is_integral (k_env K) t
          | _ \<Rightarrow> is_numeric (k_env K) t);
          fold = (case f of
            Not_Operator \<Rightarrow> fold_not (k_env K) t no_value (e_value v)
          | Complement_Operator \<Rightarrow> fold_complement (k_env K) t no_value (e_value v)
          | Negate_Operator \<Rightarrow> fold_negate (k_folding K) (k_env K) t no_value (e_value v)
          | Posate_Operator \<Rightarrow> Inr (e_value v)) in
        if \<not> ok then Inr error_ev
        else obind (if v_present (e_value v) then fold else Inr no_value)
          (\<lambda>x. Inr ((value_ev t Immutable)\<lparr>e_value := x\<rparr>))))"

text \<open>The template arguments of BinaryArithmetic: the input type, the output type and the computation.\<close>

definition input_pick :: "tenv \<Rightarrow> binary_operator \<Rightarrow> ty \<Rightarrow> ty \<Rightarrow> ty option" where
  "input_pick env f x y =
     (case f of
        Computed g \<Rightarrow>
          if is_ordering g then Orderable_pick env x y
          else if is_comparison g then Comparable_pick env x y
          else if is_bitwise g then Integral_pick env x y
          else Arithmetic_pick env x y
      | Shifted left \<Rightarrow> None
      | Logic stop \<Rightarrow> Logical_pick env x y)"

definition output_pick :: "binary_operator \<Rightarrow> ty \<Rightarrow> ev \<Rightarrow> ev \<Rightarrow> ty" where
  "output_pick f t l r =
     (if (case f of Computed g \<Rightarrow> is_comparison g | _ \<Rightarrow> True) then
        Basic (if v_present (e_value l) \<and> v_present (e_value r) then UntypedBoolean else Bool)
      else t)"

definition compute :: "checker \<Rightarrow> binary_operator \<Rightarrow> ty \<Rightarrow> ev \<Rightarrow> ev \<Rightarrow> constant_value outcome" where
  "compute K f t l r =
     (case f of
        Computed g \<Rightarrow>
          if v_present (e_value l) \<and> v_present (e_value r)
          then fold_binary (k_folding K) (k_env K) g t no_value (e_value l) (e_value r) else Inr no_value
      | Shifted left \<Rightarrow> Inr no_value
      | Logic stop \<Rightarrow> Inr (fold_logic stop no_value (e_value l) (e_value r)))"

text \<open>The result of an operator and its operands as they are converted.\<close>

type_synonym operands = "ev \<times> ev \<times> ev"

definition apply_binary :: "checker \<Rightarrow> binary_operator \<Rightarrow> ty \<Rightarrow> ev \<Rightarrow> ev \<Rightarrow> operands outcome" where
  "apply_binary K f t l r =
     obind (compute K f t l r) (\<lambda>x. Inr ((value_ev (output_pick f t l r) Immutable)\<lparr>e_value := x\<rparr>, l, r))"

definition check_arithmetic :: "checker \<Rightarrow> binary_operator \<Rightarrow> ev \<Rightarrow> ev \<Rightarrow> operands outcome" where
  "check_arithmetic K f l r =
     obind (the_type l) (\<lambda>s. obind (the_type r) (\<lambda>t.
       if is_untyped s \<and> is_untyped t then
         (case input_pick (k_env K) f s t of
            None \<Rightarrow> Inr (error_ev, l, r)
          | Some u \<Rightarrow> obind (convert_ev K u l) (\<lambda>l. obind (convert_ev K u r) (apply_binary K f u l)))
       else
         obind (are_assignable K s (e_value l) t) (\<lambda>a.
         obind (if a then Inr True else are_assignable K t (e_value r) s) (\<lambda>b.
           if \<not> b then Inr (error_ev, l, r)
           else let u = choose_type s t in
             obind (convert_ev K u l) (\<lambda>l. obind (convert_ev K u r) (\<lambda>r.
               if input_pick (k_env K) f u u = None then Inr (error_ev, l, r) else apply_binary K f u l r))))))"

definition check_shift :: "checker \<Rightarrow> bool \<Rightarrow> ev \<Rightarrow> ev \<Rightarrow> operands outcome" where
  "check_shift K left l r =
     obind (the_type l) (\<lambda>s. obind (the_type r) (\<lambda>t.
       if \<not> (is_typed_unsigned_integer (k_env K) t \<or> is_untyped_numeric (k_env K) t) then Inr (error_ev, l, r)
       else
         obind (if v_present (e_value r) then
                  obind (representable (k_folding K) (k_env K) t (Basic Uint) (e_value r)) (\<lambda>ok.
                    if ok then
                      obind (convert_value (k_folding K) (k_env K) t (Basic Uint) (e_value r))
                        (\<lambda>x. Inr (Some (r\<lparr>e_value := x, e_type := Some (Basic Uint)\<rparr>)))
                    else Inr None)
                else Inr (Some r)) (\<lambda>r'.
           case r' of
             None \<Rightarrow> Inr (error_ev, l, r)
           | Some r' \<Rightarrow>
               if \<not> is_integral (k_env K) s then Inr (error_ev, l, r')
               else
                 obind (if v_present (e_value l) \<and> v_present (e_value r')
                        then fold_shift (k_env K) left s no_value (e_value l) (e_value r') else Inr no_value)
                   (\<lambda>x. Inr ((value_ev s Immutable)\<lparr>e_value := x\<rparr>, l, r')))))"

definition check_binary :: "checker \<Rightarrow> binary_operator \<Rightarrow> ev \<Rightarrow> ev \<Rightarrow> operands outcome" where
  "check_binary K f l r =
     (if e_kind l = UnknownExpressionKind then Inl Assertion_failed
      else if \<not> is_value_or_variable l then Inr (error_ev, l, r)
      else if e_kind r = UnknownExpressionKind then Inl Assertion_failed
      else if \<not> is_value_or_variable r then Inr (error_ev, l, r)
      else (case f of Shifted left \<Rightarrow> check_shift K left l r | _ \<Rightarrow> check_arithmetic K f l r))"

section \<open>Predeclared functions\<close>

text \<open>The result and the arguments, which println converts.\<close>

fun omap :: "('a \<Rightarrow> 'b outcome) \<Rightarrow> 'a list \<Rightarrow> 'b list outcome" where
  "omap f [] = Inr []"
| "omap f (x # xs) = obind (f x) (\<lambda>y. obind (omap f xs) (\<lambda>ys. Inr (y # ys)))"

definition slice_base :: "tenv \<Rightarrow> ty \<Rightarrow> ty option" where
  "slice_base env t = to_slice (underlying_type env t)"

definition valued :: "ev \<Rightarrow> ev outcome \<Rightarrow> ev outcome" where
  "valued a next =
     (if e_kind a = UnknownExpressionKind then Inl Assertion_failed
      else if is_value_or_variable a then next else Inr error_ev)"

text \<open>New::check leaves the kind TypeExpressionKind behind when its argument is not a type.\<close>

definition check_new :: "ev \<Rightarrow> ev outcome" where
  "check_new a =
     (if e_kind a = UnknownExpressionKind then Inl Assertion_failed
      else if e_kind a \<noteq> TypeExpressionKind then Inr (blank\<lparr>e_kind := TypeExpressionKind\<rparr>)
      else obind (the_type a) (\<lambda>t. Inr (value_ev (get_pointer t) Mutable)))"

definition check_move :: "ev \<Rightarrow> ev outcome" where
  "check_move a =
     obind (the_type a) (\<lambda>t. case move t of None \<Rightarrow> Inr error_ev | Some u \<Rightarrow> valued a (Inr (value_ev u Mutable)))"

definition check_merge :: "ev \<Rightarrow> ev outcome" where
  "check_merge a =
     obind (the_type a) (\<lambda>t. case merge_change t of None \<Rightarrow> Inr error_ev | Some u \<Rightarrow> valued a (Inr (value_ev u Mutable)))"

definition check_len :: "checker \<Rightarrow> ev \<Rightarrow> ev outcome" where
  "check_len K a =
     valued a (obind (the_type a) (\<lambda>t.
       Inr (if underlying_kind (k_env K) t = Slice_Kind then value_ev named_int Immutable else error_ev)))"

definition check_copy :: "checker \<Rightarrow> ev \<Rightarrow> ev outcome" where
  "check_copy K a =
     valued a (obind (the_type a) (\<lambda>t.
       case slice_base (k_env K) t of
         Some b \<Rightarrow> obind (contains_pointer (k_env K) (k_nesting K) b)
           (\<lambda>p. Inr (if p then error_ev else value_ev t Mutable))
       | None \<Rightarrow> Inr (if underlying_kind (k_env K) t = String_Kind then value_ev t Mutable else error_ev)))"

definition check_append :: "checker \<Rightarrow> ev \<Rightarrow> ev \<Rightarrow> ev outcome" where
  "check_append K s x =
     (if e_kind s = UnknownExpressionKind then Inl Assertion_failed
      else if \<not> is_value_or_variable s then Inr error_ev
      else if e_kind x = UnknownExpressionKind then Inl Assertion_failed
      else if \<not> is_value_or_variable x then Inr error_ev
      else obind (the_type s) (\<lambda>t.
        case slice_base (k_env K) t of
          None \<Rightarrow> Inr error_ev
        | Some b \<Rightarrow> obind (the_type x) (\<lambda>u. obind (are_identical b u) (\<lambda>same.
            Inr (if same then value_ev (Slice b) Mutable else error_ev)))))"

definition check_println :: "checker \<Rightarrow> ev list \<Rightarrow> (ev \<times> ev list) outcome" where
  "check_println K es =
     obind (omap (\<lambda>v. obind (the_type v) (\<lambda>t. convert_ev K (default_type t) v)) es) (\<lambda>es'. Inr (void_ev, es'))"

definition with_one :: "(ev \<Rightarrow> ev outcome) \<Rightarrow> ev list \<Rightarrow> (ev \<times> ev list) outcome" where
  "with_one f es = (case es of [a] \<Rightarrow> obind (f a) (\<lambda>r. Inr (r, es)) | _ \<Rightarrow> Inr (error_ev, es))"

definition check_builtin :: "checker \<Rightarrow> builtin \<Rightarrow> ev list \<Rightarrow> (ev \<times> ev list) outcome" where
  "check_builtin K f es =
     (case f of
        New \<Rightarrow> with_one check_new es
      | Move \<Rightarrow> with_one check_move es
      | Merge \<Rightarrow> with_one check_merge es
      | Len \<Rightarrow> with_one (check_len K) es
      | Append \<Rightarrow> (case es of [s, x] \<Rightarrow> obind (check_append K s x) (\<lambda>r. Inr (r, es)) | _ \<Rightarrow> Inr (error_ev, es))
      | Copy \<Rightarrow> with_one (check_copy K) es
      | Println \<Rightarrow> check_println K es)"

section \<open>Selection and indexing\<close>

text \<open>Type::find_field: the fields of the struct it looks in and the position of the field.\<close>

fun field_position :: "field list \<Rightarrow> string \<Rightarrow> nat option" where
  "field_position [] name = None"
| "field_position (f # fs) name = (if name = fname f then Some 0 else map_option Suc (field_position fs name))"

fun locate_field :: "tenv \<Rightarrow> nat \<Rightarrow> ty \<Rightarrow> string \<Rightarrow> (field list \<times> nat) option outcome" where
  "locate_field env 0 t name = Inl Out_of_fuel"
| "locate_field env (Suc n) t name =
     (case underlying_type env t of
        Struct c i fs \<Rightarrow> Inr (map_option (Pair fs) (field_position fs name))
      | Pointer b \<Rightarrow> locate_field env n b name
      | _ \<Rightarrow> Inr None)"

text \<open>NamedType::find_callable and Pointer::find_callable.\<close>

fun find_callable :: "(nat \<Rightarrow> named_info) \<Rightarrow> ty \<Rightarrow> string \<Rightarrow> callable_entry option" where
  "find_callable named (NamedType i) name =
     map_of (n_methods (named i) @ n_initializers (named i) @ n_getters (named i) @ n_reactions (named i)) name"
| "find_callable named (Pointer b) name = find_callable named b name"
| "find_callable named _ name = None"

text \<open>The evaluation of a part of what another expression evaluates to.\<close>

definition part_ev :: "checker \<Rightarrow> ty \<Rightarrow> expression_kind \<Rightarrow> mutability \<Rightarrow> mutability \<Rightarrow> ev outcome" where
  "part_ev K t k im dm =
     fix_string_indirection (k_env K) \<lparr>e_kind = k, e_type = Some t, e_value = no_value, e_intrinsic = im, e_indirection = dm\<rparr>"

definition check_dereference :: "checker \<Rightarrow> texp \<Rightarrow> texp outcome" where
  "check_dereference K e =
     obind (the_type (ev_of e)) (\<lambda>t. case to_pointer (underlying_type (k_env K) t) of
         None \<Rightarrow> Inl (Rejected 21)
       | Some b \<Rightarrow>
           obind (require_value_or_variable (ev_of e)) (\<lambda>_.
           obind (part_ev K b VariableExpressionKind (e_indirection (ev_of e)) (e_indirection (ev_of e)))
             (\<lambda>v. Inr (T_Dereference v e))))"

definition check_address_of :: "checker \<Rightarrow> texp \<Rightarrow> texp outcome" where
  "check_address_of K e =
     obind (require_variable (ev_of e)) (\<lambda>_. obind (the_type (ev_of e)) (\<lambda>t.
     obind (part_ev K (get_pointer t) ValueExpressionKind (e_intrinsic (ev_of e))
       (max (e_intrinsic (ev_of e)) (e_indirection (ev_of e)))) (\<lambda>v. Inr (T_Address_Of v e))))"

text \<open>Selecting through a pointer always gives a variable.\<close>

definition selected_ev :: "checker \<Rightarrow> ty \<Rightarrow> ev \<Rightarrow> ty \<Rightarrow> ev outcome" where
  "selected_ev K base v t =
     (if to_pointer (underlying_type (k_env K) base) \<noteq> None
      then part_ev K t VariableExpressionKind (e_indirection v) (e_indirection v)
      else part_ev K t (e_kind v) (e_intrinsic v) (e_indirection v))"

definition check_select :: "checker \<Rightarrow> texp \<Rightarrow> string \<Rightarrow> texp outcome" where
  "check_select K e name =
     obind (require_value_or_variable (ev_of e)) (\<lambda>_. obind (the_type (ev_of e)) (\<lambda>t.
     obind (locate_field (k_env K) (k_nesting K) t name) (\<lambda>r. case r of
         Some (fs, k) \<Rightarrow> obind (selected_ev K t (ev_of e) (ftype (fs ! k))) (\<lambda>v. Inr (T_Field v e fs k))
       | None \<Rightarrow>
           (case find_callable (k_named K) t name of
              Some c \<Rightarrow> obind (selected_ev K t (ev_of e) (snd c)) (\<lambda>v. Inr (T_Method v e c))
            | None \<Rightarrow> Inl (Rejected 154)))))"

text \<open>An untyped index becomes an int; \<open>dim\<close> is the dimension of an array.\<close>

definition beyond :: "int option \<Rightarrow> bool \<Rightarrow> int \<Rightarrow> bool" where
  "beyond dim allow_equal i \<longleftrightarrow> (case dim of None \<Rightarrow> False | Some d \<Rightarrow> if allow_equal then d < i else d \<le> i)"

definition check_array_index :: "checker \<Rightarrow> int option \<Rightarrow> bool \<Rightarrow> texp \<Rightarrow> texp outcome" where
  "check_array_index K dim allow_equal e =
     (let v = ev_of e in
      obind (the_type v) (\<lambda>t.
      obind (if is_untyped_numeric (k_env K) t then
               obind (representable (k_folding K) (k_env K) t (Basic Intt) (e_value v)) (\<lambda>ok.
                 if \<not> ok then Inl (Rejected 20)
                 else obind (convert_value (k_folding K) (k_env K) t (Basic Intt) (e_value v)) (\<lambda>x.
                   let i = get_scalar Long x in
                   if i < 0 then Inl (Rejected 162)
                   else if beyond dim allow_equal i then Inl (Rejected 163)
                   else Inr (v\<lparr>e_value := x, e_type := Some (Basic Intt)\<rparr>)))
             else if is_typed_integer (k_env K) t then
               (if v_present (e_value v) then
                  obind (value_to_int (k_env K) t (e_value v)) (\<lambda>i.
                    if i < 0 then Inl (Rejected 164)
                    else if beyond dim False i then Inl (Rejected 165)
                    else Inr v)
                else Inr v)
             else Inl (Rejected 203)) (\<lambda>v.
      obind (require_value_or_variable v) (\<lambda>_. Inr (set_ev v e)))))"

definition check_slice_index :: "checker \<Rightarrow> texp \<Rightarrow> texp outcome" where
  "check_slice_index K e =
     (let v = ev_of e in
      obind (the_type v) (\<lambda>t.
        if is_untyped_numeric (k_env K) t then
          obind (representable (k_folding K) (k_env K) t (Basic Intt) (e_value v)) (\<lambda>ok.
            if \<not> ok then Inl (Rejected 204)
            else obind (convert_value (k_folding K) (k_env K) t (Basic Intt) (e_value v)) (\<lambda>x.
              if get_scalar Long x < 0 then Inl (Rejected 166)
              else Inr (set_ev (v\<lparr>e_value := x, e_type := Some (Basic Intt)\<rparr>) e)))
        else if is_typed_integer (k_env K) t then
          (if v_present (e_value v) then
             obind (value_to_int (k_env K) t (e_value v)) (\<lambda>i. if i < 0 then Inl (Rejected 167) else Inr e)
           else Inr e)
        else Inl (Rejected 205)))"

definition check_index :: "checker \<Rightarrow> texp \<Rightarrow> texp \<Rightarrow> texp outcome" where
  "check_index K b i =
     obind (the_type (ev_of b)) (\<lambda>t. case underlying_type (k_env K) t of
         Array e d \<Rightarrow>
           obind (check_array_index K (Some d) False i) (\<lambda>i.
           obind (require_value_or_variable (ev_of b)) (\<lambda>_.
           obind (part_ev K e (e_kind (ev_of b)) (e_intrinsic (ev_of b)) (e_indirection (ev_of b)))
             (\<lambda>v. Inr (T_Index v b i (Array e d)))))
       | Slice e \<Rightarrow>
           obind (check_slice_index K i) (\<lambda>i.
           obind (require_value_or_variable (ev_of b)) (\<lambda>_.
           obind (require_value_or_variable (ev_of i)) (\<lambda>_.
           obind (part_ev K e VariableExpressionKind (e_intrinsic (ev_of b)) (e_indirection (ev_of b)))
             (\<lambda>v. Inr (T_Index v b i (Slice e))))))
       | _ \<Rightarrow> Inl (Rejected 168))"

text \<open>The bounds of a slice expression, each absent or checked, and in order when two of them are constants.\<close>

fun ooption :: "('a \<Rightarrow> 'b outcome) \<Rightarrow> 'a option \<Rightarrow> 'b option outcome" where
  "ooption f None = Inr None"
| "ooption f (Some x) = obind (f x) (\<lambda>y. Inr (Some y))"

definition constant_bound :: "texp option \<Rightarrow> bool" where
  "constant_bound x \<longleftrightarrow> (case x of None \<Rightarrow> False | Some e \<Rightarrow> v_present (e_value (ev_of e)))"

definition bound_value :: "checker \<Rightarrow> texp option \<Rightarrow> int outcome" where
  "bound_value K x =
     (case x of None \<Rightarrow> Inl Undefined_behaviour
      | Some e \<Rightarrow> obind (the_type (ev_of e)) (\<lambda>t. value_to_int (k_env K) t (e_value (ev_of e))))"

definition ordered_bounds :: "checker \<Rightarrow> nat \<Rightarrow> texp option \<Rightarrow> texp option \<Rightarrow> unit outcome" where
  "ordered_bounds K err x y =
     (if constant_bound x \<and> constant_bound y then
        obind (bound_value K x) (\<lambda>i. obind (bound_value K y) (\<lambda>j. if i \<le> j then Inr () else Inl (Rejected err)))
      else Inr ())"

definition check_index_slice ::
  "checker \<Rightarrow> texp \<Rightarrow> texp option \<Rightarrow> texp option \<Rightarrow> texp option \<Rightarrow> texp outcome"
where
  "check_index_slice K b lo hi mx =
     obind (the_type (ev_of b)) (\<lambda>t.
       let u = underlying_type (k_env K) t in
       if kind_of u = Untyped_String_Kind then Inl Unimplemented
       else if pointer_to_array (k_env K) t \<noteq> None then Inl Unimplemented
       else obind (case u of
           Array e d \<Rightarrow> Inr (Some d, Slice e)
         | Slice e \<Rightarrow> Inr (None, Slice e)
         | _ \<Rightarrow> Inl (Rejected 225)) (\<lambda>(dim, s).
       obind (ooption (check_array_index K dim True) lo) (\<lambda>lo.
       obind (ooption (check_array_index K dim True) hi) (\<lambda>hi.
       obind (ooption (check_array_index K dim True) mx) (\<lambda>mx.
       obind (part_ev K s ValueExpressionKind Immutable (e_indirection (ev_of b))) (\<lambda>v.
       obind (ordered_bounds K 224 lo hi) (\<lambda>_. obind (ordered_bounds K 6 lo mx) (\<lambda>_.
       obind (ordered_bounds K 7 hi mx) (\<lambda>_. Inr (T_Index_Slice v b lo hi mx u))))))))))"

section \<open>Conversions and calls\<close>

text \<open>The tests of a conversion of a constant and of any other expression; the result says whether the mutability is reset.\<close>

definition check_constant_conversion :: "checker \<Rightarrow> texp \<Rightarrow> ty \<Rightarrow> (texp \<times> bool) outcome" where
  "check_constant_conversion K e to =
     (let env = k_env K; x = e_value (ev_of e) in
      obind (the_type (ev_of e)) (\<lambda>from. obind (representable (k_folding K) env from to x) (\<lambda>fits.
        if fits then Inl Unimplemented
        else if is_typed_float env from \<and> is_typed_float env to then Inl Unimplemented
        else if is_typed_integer env from \<and> is_any_string env to then Inl Unimplemented
        else if is_any_string env from \<and> is_slice_of_bytes env to then
          (if is_untyped from then
             obind (convert_value (k_folding K) env from (default_type from) x) (\<lambda>y.
               Inr (set_ev ((ev_of e)\<lparr>e_value := y, e_type := Some (default_type from)\<rparr>) e, True))
           else Inr (e, True))
        else Inl (Rejected 156))))"

definition convertible :: "checker \<Rightarrow> ty \<Rightarrow> constant_value \<Rightarrow> ty \<Rightarrow> bool option outcome" where
  "convertible K from x to =
     (let env = k_env K in
      obind (are_assignable K from x to) (\<lambda>a. if a then Inr (Some False)
      else obind (are_identical (underlying_type env from) (underlying_type env to)) (\<lambda>b. if b then Inr (Some False)
      else obind (if to_pointer from \<noteq> None \<and> to_pointer to \<noteq> None then are_identical from to else Inr False) (\<lambda>c.
        if c then Inr (Some False)
        else if (is_typed_integer env from \<or> is_typed_float env from) \<and> (is_typed_integer env to \<or> is_typed_float env to)
          then Inr (Some False)
        else if is_typed_complex env from \<and> is_typed_complex env to then Inr (Some False)
        else if (is_typed_integer env from \<or> is_slice_of_bytes env from \<or> is_slice_of_runes env from) \<and> is_typed_string env to
          then Inr (Some True)
        else if is_typed_string env from \<and> (is_slice_of_bytes env to \<or> is_slice_of_runes env to) then Inr (Some True)
        else Inr None))))"

definition convert_operand :: "checker \<Rightarrow> texp \<Rightarrow> ty \<Rightarrow> (texp \<times> bool) outcome" where
  "convert_operand K e to =
     (if v_present (e_value (ev_of e)) then check_constant_conversion K e to
      else obind (the_type (ev_of e)) (\<lambda>from. obind (convertible K from (e_value (ev_of e)) to) (\<lambda>r.
        case r of None \<Rightarrow> Inl (Rejected 122) | Some reset \<Rightarrow> Inr (e, reset))))"

definition check_conversion :: "checker \<Rightarrow> ev \<Rightarrow> texp \<Rightarrow> texp outcome" where
  "check_conversion K tv e =
     (if e_kind tv = UnknownExpressionKind then Inl Assertion_failed
      else if e_kind tv \<noteq> TypeExpressionKind then Inr (T_Type (blank\<lparr>e_kind := TypeExpressionKind\<rparr>))
      else
        obind (require_value_or_variable (ev_of e)) (\<lambda>_. obind (the_type tv) (\<lambda>to.
        obind (convert_operand K e to) (\<lambda>(e, reset).
        obind (part_ev K to ValueExpressionKind Immutable (if reset then Mutable else e_indirection (ev_of e)))
          (\<lambda>v. Inr (T_Conversion v e))))))"

text \<open>check_types_arguments, require_value_or_variable_list and check_mutability_arguments.\<close>

fun assign_arguments :: "checker \<Rightarrow> texp list \<Rightarrow> parameter list \<Rightarrow> texp list outcome" where
  "assign_arguments K (e # es) (p # ps) =
     obind (the_type (ev_of e)) (\<lambda>t. obind (are_assignable K t (e_value (ev_of e)) (ptype p)) (\<lambda>a.
       if \<not> a then Inl (Rejected 151)
       else obind (convert_exp K (ptype p) e) (\<lambda>e. obind (assign_arguments K es ps) (\<lambda>es. Inr (e # es)))))"
| "assign_arguments K es ps = Inr []"

definition check_types_arguments :: "checker \<Rightarrow> texp list \<Rightarrow> parameter_list \<Rightarrow> texp list outcome" where
  "check_types_arguments K es ps =
     (if length es \<noteq> length (parameters ps) then Inl (Rejected 150) else assign_arguments K es (parameters ps))"

fun require_list :: "texp list \<Rightarrow> unit outcome" where
  "require_list [] = Inr ()"
| "require_list (e # es) = obind (require_value_or_variable (ev_of e)) (\<lambda>_. require_list es)"

fun check_mutability_arguments :: "checker \<Rightarrow> texp list \<Rightarrow> parameter list \<Rightarrow> unit outcome" where
  "check_mutability_arguments K (e # es) (p # ps) =
     obind (the_type (ev_of e)) (\<lambda>t. obind (contains_pointer (k_env K) (k_nesting K) t) (\<lambda>b.
       if b \<and> pindirection p < e_indirection (ev_of e) then Inl (Rejected 85) else check_mutability_arguments K es ps))"
| "check_mutability_arguments K es ps = Inr ()"

definition check_arguments :: "checker \<Rightarrow> ev option \<Rightarrow> texp list \<Rightarrow> parameter_list \<Rightarrow> texp list outcome" where
  "check_arguments K callee es ps =
     obind (check_types_arguments K es ps) (\<lambda>es.
     obind (case callee of None \<Rightarrow> Inr () | Some v \<Rightarrow> require_value_or_variable v) (\<lambda>_.
     obind (require_list es) (\<lambda>_. obind (check_mutability_arguments K es (parameters ps)) (\<lambda>_. Inr es))))"

text \<open>Who may call what, with the parameter lists of the call.\<close>

definition call_signature :: "checker \<Rightarrow> ty \<Rightarrow> (parameter_list \<times> parameter_list) outcome" where
  "call_signature K t =
     (case t of
        FunctionBase Function i ps rs \<Rightarrow> Inr (ps, rs)
      | FunctionBase PushPort i ps rs \<Rightarrow> Inl (Rejected 202)
      | FunctionBase PullPort i ps rs \<Rightarrow>
          if k_context K \<notin> {In_Getter, In_Action, In_Reaction} then Inl (Rejected 201)
          else if k_mutable_phase K then Inl (Rejected 198)
          else Inr (ps, rs)
      | MethodBase Method i n r ps rs \<Rightarrow> Inr (ps, rs)
      | MethodBase Initializer i n r ps rs \<Rightarrow> if k_context K \<noteq> In_Initializer then Inl (Rejected 197) else Inr (ps, rs)
      | MethodBase Getter i n r ps rs \<Rightarrow>
          if k_context K \<notin> {In_Getter, In_Action, In_Reaction, In_Initializer} then Inl (Rejected 196)
          else if k_mutable_phase K then Inl (Rejected 34)
          else Inr (ps, rs)
      | MethodBase Reaction i n r ps rs \<Rightarrow> Inl Unimplemented
      | _ \<Rightarrow> Inl Not_reached)"

fun callable_of :: "texp \<Rightarrow> int option" where
  "callable_of (T_Identifier v (Function_Entry n a t)) = Some a"
| "callable_of (T_Method v e c) = Some (fst c)"
| "callable_of _ = None"

definition call_ev :: "checker \<Rightarrow> parameter_list \<Rightarrow> ev outcome" where
  "call_ev K rs =
     (case parameters rs of
        [] \<Rightarrow> Inr void_ev
      | [p] \<Rightarrow> part_ev K (ptype p) ValueExpressionKind Immutable (pindirection p)
      | _ \<Rightarrow> Inl Unimplemented)"

definition set_evs :: "ev list \<Rightarrow> texp list \<Rightarrow> texp list" where
  "set_evs vs es = map2 set_ev vs es"

text \<open>The visit of a call, its parts visited: a conversion, a predeclared function, or a callable or function value.\<close>

definition call_builtin :: "checker \<Rightarrow> builtin \<Rightarrow> texp list \<Rightarrow> texp outcome" where
  "call_builtin K b es =
     obind (check_builtin K b (map ev_of es)) (\<lambda>(r, vs).
       Inr (if e_kind r = ErrorExpressionKind then T_Error
            else if e_kind r = TypeExpressionKind then T_Type r
            else T_Builtin r b (set_evs vs es)))"

definition call_function :: "checker \<Rightarrow> texp \<Rightarrow> texp list \<Rightarrow> texp outcome" where
  "call_function K f es =
     obind (the_type (ev_of f)) (\<lambda>t. obind (call_signature K t) (\<lambda>(ps, rs).
     obind (if callable_of f \<noteq> None
            then obind (require_value_or_variable (ev_of f)) (\<lambda>_. check_arguments K None es ps)
            else check_arguments K (Some (ev_of f)) es ps) (\<lambda>es.
     obind (call_ev K rs) (\<lambda>v. Inr (T_Call v f es)))))"

fun polymorphic_of :: "texp \<Rightarrow> builtin option" where
  "polymorphic_of (T_Identifier v (Polymorphic_Entry n b)) = Some b"
| "polymorphic_of _ = None"

definition check_call :: "checker \<Rightarrow> texp \<Rightarrow> texp list \<Rightarrow> texp outcome" where
  "check_call K f es =
     (if e_kind (ev_of f) = UnknownExpressionKind then Inl Assertion_failed
      else if e_kind (ev_of f) = TypeExpressionKind then
        (case es of [e] \<Rightarrow> check_conversion K (ev_of f) e | _ \<Rightarrow> Inl (Rejected 8))
      else (case polymorphic_of f of Some b \<Rightarrow> call_builtin K b es | None \<Rightarrow> call_function K f es))"

text \<open>Push ports are looked up in the receiver.\<close>

definition receiver_field :: "checker \<Rightarrow> nat \<Rightarrow> string \<Rightarrow> (field list \<times> nat) outcome" where
  "receiver_field K err name =
     (case k_receiver K of
        None \<Rightarrow> Inl Undefined_behaviour
      | Some (i, p) \<Rightarrow>
          obind (locate_field (k_env K) (k_nesting K) (ptype p) name) (\<lambda>r. case r of None \<Rightarrow> Inl (Rejected err) | Some x \<Rightarrow> Inr x))"

definition port_ev :: ev where
  "port_ev = void_ev\<lparr>e_intrinsic := Immutable, e_indirection := Immutable\<rparr>"

definition push_port :: "nat \<Rightarrow> ty \<Rightarrow> parameter_list outcome" where
  "push_port err t = (case t of FunctionBase PushPort i ps rs \<Rightarrow> Inr ps | _ \<Rightarrow> Inl (Rejected err))"

text \<open>The arguments of a port call: their mutability is not checked, the parameters of ports are foreign safe.\<close>

definition check_port_arguments :: "checker \<Rightarrow> texp list \<Rightarrow> parameter_list \<Rightarrow> texp list outcome" where
  "check_port_arguments K es ps =
     obind (check_types_arguments K es ps) (\<lambda>es. obind (require_list es) (\<lambda>_. Inr es))"

section \<open>Expressions\<close>

definition check_identifier :: "checker \<Rightarrow> scopes \<Rightarrow> string \<Rightarrow> texp outcome" where
  "check_identifier K ss name =
     (case find_global_symbol ss name of
        None \<Rightarrow> Inr T_Error
      | Some s \<Rightarrow>
          obind (case s of
              Polymorphic_Entry n f \<Rightarrow> Inr (value_ev (Basic PolymorphicFunction) Immutable)
            | Function_Entry n a t \<Rightarrow> Inr (value_ev t Immutable)
            | Parameter_Entry i p \<Rightarrow> Inr (variable_ev (ptype p) (pintrinsic p) (pindirection p))
            | Type_Entry n t \<Rightarrow> Inr (blank\<lparr>e_kind := TypeExpressionKind, e_type := Some t\<rparr>)
            | Constant_Entry n t x \<Rightarrow>
                if v_present x then Inr ((value_ev t Mutable)\<lparr>e_value := x\<rparr>) else Inl Assertion_failed
            | Variable_Entry i n t im dm \<Rightarrow> Inr (variable_ev t im dm)
            | Hidden_Entry n \<Rightarrow> Inr error_ev
            | Instance_Entry n \<Rightarrow> Inl Not_reached) (\<lambda>v.
          if e_kind v = ErrorExpressionKind then Inr T_Error
          else obind (fix_string_indirection (k_env K) v) (\<lambda>v. Inr (T_Identifier v s))))"

fun check_expr :: "checker \<Rightarrow> scopes \<Rightarrow> pexp \<Rightarrow> texp outcome"
  and check_exprs :: "checker \<Rightarrow> scopes \<Rightarrow> pexp list \<Rightarrow> texp list outcome"
  and check_opt :: "checker \<Rightarrow> scopes \<Rightarrow> pexp option \<Rightarrow> texp option outcome"
where
  "check_expr K ss (P_Literal t x) =
     (if v_present x then Inr (T_Literal ((value_ev t Immutable)\<lparr>e_value := x\<rparr>)) else Inl Assertion_failed)"
| "check_expr K ss (P_Identifier name) = check_identifier K ss name"
| "check_expr K ss (P_Type t) = Inr (T_Type (blank\<lparr>e_kind := TypeExpressionKind, e_type := Some t\<rparr>))"
| "check_expr K ss (P_Address_Of e) = obind (check_expr K ss e) (check_address_of K)"
| "check_expr K ss (P_Dereference e) = obind (check_expr K ss e) (check_dereference K)"
| "check_expr K ss (P_Select e name) = obind (check_expr K ss e) (\<lambda>e. check_select K e name)"
| "check_expr K ss (P_Index b i) = obind (check_expr K ss b) (\<lambda>b. obind (check_expr K ss i) (check_index K b))"
| "check_expr K ss (P_Index_Slice b lo hi mx) =
     obind (check_expr K ss b) (\<lambda>b. obind (require_value_or_variable (ev_of b)) (\<lambda>_.
     obind (check_opt K ss lo) (\<lambda>lo. obind (check_opt K ss hi) (\<lambda>hi. obind (check_opt K ss mx) (\<lambda>mx.
       check_index_slice K b lo hi mx)))))"
| "check_expr K ss (P_Call f es) =
     obind (check_expr K ss f) (\<lambda>f. obind (check_exprs K ss es) (check_call K f))"
| "check_expr K ss (P_Unary f e) =
     obind (check_expr K ss e) (\<lambda>e.
       if e_kind (ev_of e) = ErrorExpressionKind then Inr T_Error
       else obind (check_unary K f (ev_of e)) (\<lambda>v.
         Inr (if e_kind v = ErrorExpressionKind then T_Error else T_Unary v f e)))"
| "check_expr K ss (P_Binary f l r) =
     obind (check_expr K ss l) (\<lambda>l. obind (check_expr K ss r) (\<lambda>r.
       if e_kind (ev_of l) = ErrorExpressionKind \<or> e_kind (ev_of r) = ErrorExpressionKind then Inr T_Error
       else obind (check_binary K f (ev_of l) (ev_of r)) (\<lambda>(v, lv, rv).
         Inr (if e_kind v = ErrorExpressionKind then T_Error else T_Binary v f (set_ev lv l) (set_ev rv r)))))"
| "check_expr K ss (P_Push_Port_Call name es) =
     obind (receiver_field K 194 name) (\<lambda>(fs, k). obind (push_port 195 (ftype (fs ! k))) (\<lambda>ps.
     obind (check_exprs K ss es) (\<lambda>es. obind (check_port_arguments K es ps) (\<lambda>es.
       Inr (T_Push_Port_Call port_ev fs k ps es)))))"
| "check_expr K ss (P_Indexed_Push_Port_Call name i es) =
     obind (receiver_field K 74 name) (\<lambda>(fs, k).
     case ftype (fs ! k) of
       Array b d \<Rightarrow>
         obind (push_port 17 b) (\<lambda>ps.
         obind (check_expr K ss i) (\<lambda>i. obind (check_array_index K (Some d) False i) (\<lambda>i.
         obind (check_exprs K ss es) (\<lambda>es. obind (check_port_arguments K es ps) (\<lambda>es.
           Inr (T_Indexed_Push_Port_Call port_ev fs k ps (Array b d) i es))))))
     | _ \<Rightarrow> Inl (Rejected 16))"
| "check_exprs K ss [] = Inr []"
| "check_exprs K ss (e # es) = obind (check_expr K ss e) (\<lambda>e. obind (check_exprs K ss es) (\<lambda>es. Inr (e # es)))"
| "check_opt K ss None = Inr None"
| "check_opt K ss (Some e) = obind (check_expr K ss e) (\<lambda>e. Inr (Some e))"

section \<open>Statements\<close>

datatype pstmt =
    P_Empty
  | P_Expression pexp
  | P_Var "string list" mutability mutability "ty option" "pexp list"
  | P_Assign pexp pexp
  | P_Add_Assign pexp pexp
  | P_Step bool pexp
  | P_Return pexp
  | P_List "pstmt list"
  | P_If pstmt pexp pstmt pstmt
  | P_While pexp pstmt
  | P_For string pexp pstmt
  | P_Change pexp string pstmt
  | P_Activate "pexp list" pstmt

text \<open>The variables a statement declares are given by their number and type.\<close>

datatype tstmt =
    S_Empty
  | S_Expression texp
  | S_Var "(nat \<times> ty) list" "texp list"
  | S_Assign texp texp
  | S_Add_Assign texp texp
  | S_Step bool texp
  | S_Return nat ty texp
  | S_List "tstmt list"
  | S_If tstmt texp tstmt tstmt
  | S_While texp tstmt
  | S_For nat int tstmt
  | S_Change nat ty texp tstmt
  | S_Activate bool "texp list" tstmt

text \<open>The chain of scopes and the number of the next variable.\<close>

type_synonym cstate = "scopes \<times> nat"

definition check_condition :: "checker \<Rightarrow> texp \<Rightarrow> texp outcome" where
  "check_condition K e =
     obind (the_type (ev_of e)) (\<lambda>t.
       if \<not> is_any_boolean (k_env K) t then Inl (Rejected 155)
       else obind (convert_exp K (default_type t) e) (\<lambda>e.
         obind (require_value_or_variable (ev_of e)) (\<lambda>_. Inr e)))"

text \<open>A pointer must not be assigned where it could be used for more than it allows.\<close>

definition keeps_mutability :: "checker \<Rightarrow> nat \<Rightarrow> mutability \<Rightarrow> ev \<Rightarrow> unit outcome" where
  "keeps_mutability K err dm v =
     obind (the_type v) (\<lambda>t. obind (contains_pointer (k_env K) (k_nesting K) t) (\<lambda>b.
       if b \<and> dm < e_indirection v then Inl (Rejected err) else Inr ()))"

definition check_assign :: "checker \<Rightarrow> texp \<Rightarrow> texp \<Rightarrow> tstmt outcome" where
  "check_assign K l r =
     obind (the_type (ev_of l)) (\<lambda>to. obind (the_type (ev_of r)) (\<lambda>from.
     obind (are_assignable K from (e_value (ev_of r)) to) (\<lambda>a.
       if \<not> a then Inl (Rejected 199)
       else obind (convert_exp K to r) (\<lambda>r.
         obind (require_variable (ev_of l)) (\<lambda>_. obind (require_value_or_variable (ev_of r)) (\<lambda>_.
           if e_intrinsic (ev_of l) \<noteq> Mutable then Inl (Rejected 86)
           else obind (keeps_mutability K 161 (e_indirection (ev_of l)) (ev_of r)) (\<lambda>_. Inr (S_Assign l r))))))))"

definition check_add_assign :: "checker \<Rightarrow> texp \<Rightarrow> texp \<Rightarrow> tstmt outcome" where
  "check_add_assign K l r =
     obind (the_type (ev_of l)) (\<lambda>to. obind (the_type (ev_of r)) (\<lambda>from.
       if \<not> is_arithmetic (k_env K) to then Inl (Rejected 200)
       else obind (are_assignable K from (e_value (ev_of r)) to) (\<lambda>a.
         if \<not> a then Inl (Rejected 76)
         else obind (convert_exp K to r) (\<lambda>r.
           obind (require_variable (ev_of l)) (\<lambda>_. obind (require_value_or_variable (ev_of r)) (\<lambda>_.
             if e_intrinsic (ev_of l) \<noteq> Mutable then Inl (Rejected 15) else Inr (S_Add_Assign l r)))))))"

definition check_step :: "checker \<Rightarrow> bool \<Rightarrow> texp \<Rightarrow> tstmt outcome" where
  "check_step K up e =
     obind (the_type (ev_of e)) (\<lambda>t.
       if \<not> is_arithmetic (k_env K) t then Inl (Rejected 77)
       else obind (require_variable (ev_of e)) (\<lambda>_.
         if e_intrinsic (ev_of e) \<noteq> Mutable then Inl (Rejected 177) else Inr (S_Step up e)))"

definition check_return :: "checker \<Rightarrow> scopes \<Rightarrow> texp \<Rightarrow> tstmt outcome" where
  "check_return K ss e =
     (case return_parameter_list ss of
        Some [(i, p)] \<Rightarrow>
          obind (the_type (ev_of e)) (\<lambda>t. obind (are_assignable K t (e_value (ev_of e)) (ptype p)) (\<lambda>a.
            if \<not> a then Inl (Rejected 160)
            else obind (convert_exp K (ptype p) e) (\<lambda>e. obind (require_value_or_variable (ev_of e)) (\<lambda>_.
              obind (keeps_mutability K 149 (pindirection p) (ev_of e)) (\<lambda>_. Inr (S_Return i (ptype p) e))))))
      | _ \<Rightarrow> Inl Unimplemented)"

text \<open>
  Variable declarations.  With initializers the intrinsic mutability of a variable is not the one of the declaration but
  that of the evaluation of the node, which nothing sets: it is indeterminate.
\<close>

fun enter_variables :: "checker \<Rightarrow> string list \<Rightarrow> mutability \<Rightarrow> mutability \<Rightarrow> ty \<Rightarrow> cstate \<Rightarrow> (nat \<times> ty) list \<times> cstate" where
  "enter_variables K [] im dm t s = ([], s)"
| "enter_variables K (x # xs) im dm t (ss, i) =
     (let (vs, s) = enter_variables K xs im dm t (enter_symbol (make_variable (k_env K) i x t im dm) ss, Suc i)
      in ((i, t) # vs, s))"

text \<open>The initializer of one variable, of the type of the declaration or of its own.\<close>

definition check_initializer :: "checker \<Rightarrow> ty option \<Rightarrow> texp \<Rightarrow> (ty \<times> texp) outcome" where
  "check_initializer K spec e =
     obind (the_type (ev_of e)) (\<lambda>t. case spec of
         Some to \<Rightarrow>
           obind (are_assignable K t (e_value (ev_of e)) to) (\<lambda>a.
             if \<not> a then Inl (Rejected 62)
             else obind (convert_exp K to e) (\<lambda>e. obind (require_value_or_variable (ev_of e)) (\<lambda>_. Inr (to, e))))
       | None \<Rightarrow>
           obind (if is_untyped t then
                    obind (convert_value (k_folding K) (k_env K) t (default_type t) (e_value (ev_of e))) (\<lambda>x.
                      Inr (default_type t, set_ev ((ev_of e)\<lparr>e_value := x, e_type := Some (default_type t)\<rparr>) e))
                  else Inr (t, e)) (\<lambda>(t, e).
           obind (require_value_or_variable (ev_of e)) (\<lambda>_. Inr (t, e))))"

fun initialize_variables ::
  "checker \<Rightarrow> string list \<Rightarrow> mutability \<Rightarrow> ty option \<Rightarrow> pexp list \<Rightarrow> cstate \<Rightarrow> ((nat \<times> ty) list \<times> texp list \<times> cstate) outcome"
where
  "initialize_variables K (x # xs) dm spec (e # es) (ss, i) =
     obind (check_expr K ss e) (\<lambda>e. obind (check_initializer K spec e) (\<lambda>(t, e).
     obind (initialize_variables K xs dm spec es
       (enter_symbol (make_variable (k_env K) i x t (k_indeterminate K) dm) ss, Suc i)) (\<lambda>(vs, es, s).
       Inr ((i, t) # vs, e # es, s))))"
| "initialize_variables K xs dm spec es s = Inr ([], [], s)"

fun keep_mutabilities :: "checker \<Rightarrow> (nat \<times> ty) list \<Rightarrow> mutability \<Rightarrow> texp list \<Rightarrow> unit outcome" where
  "keep_mutabilities K ((i, t) # vs) dm (e # es) =
     obind (keeps_mutability K 92 (fix_string (k_env K) t dm) (ev_of e)) (\<lambda>_. keep_mutabilities K vs dm es)"
| "keep_mutabilities K vs dm es = Inr ()"

definition check_var ::
  "checker \<Rightarrow> string list \<Rightarrow> mutability \<Rightarrow> mutability \<Rightarrow> ty option \<Rightarrow> pexp list \<Rightarrow> cstate \<Rightarrow> (tstmt \<times> cstate) outcome"
where
  "check_var K xs im dm spec es s =
     (if es \<noteq> [] \<and> length xs \<noteq> length es then Inl (Rejected 184)
      else if es = [] then
        (case spec of
           None \<Rightarrow> Inl (Rejected 183)
         | Some t \<Rightarrow> (case enter_variables K xs im dm t s of (vs, s) \<Rightarrow> Inr (S_Var vs [], s)))
      else
        obind (initialize_variables K xs dm spec es s) (\<lambda>(vs, es, s).
        obind (keep_mutabilities K vs dm es) (\<lambda>_. Inr (S_Var vs es, s))))"

text \<open>process_array_dimension; an error leaves the limit - 1.  The limit is checked by a visitor of its own.\<close>

definition process_array_dimension :: "checker \<Rightarrow> scopes \<Rightarrow> pexp \<Rightarrow> int outcome" where
  "process_array_dimension K ss e =
     (let K' = K\<lparr>k_receiver := None, k_context := Other, k_mutable_phase := False\<rparr> in
      obind (check_expr K' ss e) (\<lambda>e.
        if \<not> v_present (e_value (ev_of e)) then Inr (- 1)
        else obind (the_type (ev_of e)) (\<lambda>t.
          obind (representable (k_folding K) (k_env K) t named_int (e_value (ev_of e))) (\<lambda>ok.
            if \<not> ok then Inr (- 1)
            else obind (convert_value (k_folding K) (k_env K) t named_int (e_value (ev_of e))) (\<lambda>x.
              Inr (if get_scalar Long x < 0 then - 1 else get_scalar Long x))))))"

definition closing :: "('a \<times> cstate) outcome \<Rightarrow> ('a \<times> cstate) outcome" where
  "closing r = obind r (\<lambda>(x, ss, i). Inr (x, close_scope ss, i))"

definition check_activation :: "checker \<Rightarrow> unit outcome" where
  "check_activation K =
     (if k_context K \<notin> {In_Action, In_Reaction} then Inl (Rejected 53)
      else if k_mutable_phase K then Inl (Rejected 54) else Inr ())"

fun check_stmt :: "checker \<Rightarrow> pstmt \<Rightarrow> cstate \<Rightarrow> (tstmt \<times> cstate) outcome"
  and check_stmts :: "checker \<Rightarrow> pstmt list \<Rightarrow> cstate \<Rightarrow> (tstmt list \<times> cstate) outcome"
where
  "check_stmt K P_Empty s = Inr (S_Empty, s)"
| "check_stmt K (P_Expression e) (ss, i) =
     obind (check_expr K ss e) (\<lambda>e. obind (require_value_or_variable_or_void (ev_of e)) (\<lambda>_. Inr (S_Expression e, ss, i)))"
| "check_stmt K (P_Var xs im dm spec es) s = check_var K xs im dm spec es s"
| "check_stmt K (P_Assign l r) (ss, i) =
     obind (check_expr K ss l) (\<lambda>l. obind (check_expr K ss r) (\<lambda>r. obind (check_assign K l r) (\<lambda>t. Inr (t, ss, i))))"
| "check_stmt K (P_Add_Assign l r) (ss, i) =
     obind (check_expr K ss l) (\<lambda>l. obind (check_expr K ss r) (\<lambda>r. obind (check_add_assign K l r) (\<lambda>t. Inr (t, ss, i))))"
| "check_stmt K (P_Step up e) (ss, i) =
     obind (check_expr K ss e) (\<lambda>e. obind (check_step K up e) (\<lambda>t. Inr (t, ss, i)))"
| "check_stmt K (P_Return e) (ss, i) =
     obind (check_expr K ss e) (\<lambda>e. obind (check_return K ss e) (\<lambda>t. Inr (t, ss, i)))"
| "check_stmt K (P_List cs) (ss, i) =
     closing (obind (check_stmts K cs (open_scope ss, i)) (\<lambda>(cs, s). Inr (S_List cs, s)))"
| "check_stmt K (P_If before c t f) (ss, i) =
     closing (obind (check_stmt K before (open_scope ss, i)) (\<lambda>(before, ss, i). obind (check_expr K ss c) (\<lambda>c.
       obind (check_stmt K t (ss, i)) (\<lambda>(t, s). obind (check_stmt K f s) (\<lambda>(f, s).
       obind (check_condition K c) (\<lambda>c. Inr (S_If before c t f, s)))))))"
| "check_stmt K (P_While c b) (ss, i) =
     closing (obind (check_expr K (open_scope ss) c) (\<lambda>c. obind (check_stmt K b (open_scope ss, i)) (\<lambda>(b, s).
       obind (check_condition K c) (\<lambda>c. Inr (S_While c b, s)))))"
| "check_stmt K (P_For x limit b) (ss, i) =
     obind (process_array_dimension K ss limit) (\<lambda>n.
     closing (obind (check_stmt K b
       (enter_symbol (make_variable (k_env K) i x (Basic Intt) Immutable Immutable) (open_scope ss), Suc i)) (\<lambda>(b, s).
       Inr (S_For i n b, s))))"
| "check_stmt K (P_Change e x b) (ss, i) =
     obind (check_expr K ss e) (\<lambda>e. obind (the_type (ev_of e)) (\<lambda>t.
     case merge_change t of
       None \<Rightarrow> Inl (Rejected 96)
     | Some root \<Rightarrow>
         obind (require_value_or_variable (ev_of e)) (\<lambda>_.
         obind (change (k_env K) (k_nesting K) (open_scope ss)) (\<lambda>ss'.
         closing (obind (check_stmt K b
           (enter_symbol (Variable_Entry i x root Immutable (e_indirection (ev_of e))) ss', Suc i)) (\<lambda>(b, s).
           Inr (S_Change i root e b, s)))))))"
| "check_stmt K (P_Activate es b) (ss, i) =
     obind (check_activation K) (\<lambda>_. obind (check_exprs K ss es) (\<lambda>es.
     obind (activate (k_env K) (k_nesting K) (open_scope ss)) (\<lambda>ss'.
     closing (obind (check_stmt (K\<lparr>k_mutable_phase := True\<rparr>) b (ss', i)) (\<lambda>(b, s).
       Inr (S_Activate (k_context K = In_Action) es b, s))))))"
| "check_stmts K [] s = Inr ([], s)"
| "check_stmts K (c # cs) s =
     obind (check_stmt K c s) (\<lambda>(c, s). obind (check_stmts K cs s) (\<lambda>(cs, s). Inr (c # cs, s)))"

end
