(* ===== verification/Generate.thy ===== *)
theory Generate
  imports Check
begin

text \<open>
  Code generation (generate_code.cpp, the make functions of operation.hpp and operation.cpp and the generate_code methods of semantic.cpp):
  from the checked syntax to operations.  What the generator reads of its
  surroundings is a record: the stack offsets the allocation gave to parameters and variables, the address the body of
  an activation is kept at, and the access an activation has to the state of its component.  The operations on heap links
  and the nodes on which the checker has reported an error are Outside_model.
\<close>

section \<open>The choice of an operation by the kind of a type\<close>

text \<open>MakeConvertToInt, MakeConvertToUint, make_binary_integral and make_shift.\<close>

definition integral_number :: "tenv \<Rightarrow> ty \<Rightarrow> scalar outcome" where
  "integral_number env t =
     (case underlying_type env t of
        Basic k \<Rightarrow> (case scalar_of k of Some s \<Rightarrow> if k = Bool then Inl Not_reached else Inr s | None \<Rightarrow> Inl Not_reached)
      | _ \<Rightarrow> Inl Not_reached)"

text \<open>make_add_assign, make_increment and make_decrement.\<close>

definition arithmetic_number :: "tenv \<Rightarrow> ty \<Rightarrow> number outcome" where
  "arithmetic_number env t =
     (case underlying_type env t of
        Basic k \<Rightarrow>
          (case scalar_of k of
             Some s \<Rightarrow> if k = Bool then Inl Not_reached else Inr (Scalar s)
           | None \<Rightarrow> if k \<in> {Float32, Float64, Complex64, Complex128} then Inr (Floating k) else Inl Not_reached)
      | _ \<Rightarrow> Inl Not_reached)"

text \<open>make_conversion1, and the switch of make_conversion.\<close>

definition conversion_number :: "tenv \<Rightarrow> ty \<Rightarrow> number outcome" where
  "conversion_number env t =
     (case underlying_type env t of
        Basic k \<Rightarrow>
          (case scalar_of k of
             Some s \<Rightarrow> if k \<in> {Bool, Uintptr} then Inl Not_reached else Inr (Scalar s)
           | None \<Rightarrow> if k \<in> {Float32, Float64} then Inr (Floating k) else Inl Not_reached)
      | _ \<Rightarrow> Inl Not_reached)"

definition make_convert_to_int :: "tenv \<Rightarrow> ty \<Rightarrow> operation \<Rightarrow> operation outcome" where
  "make_convert_to_int env t c = obind (integral_number env t) (\<lambda>s. Inr (ConvertToInt s c))"

definition make_convert_to_uint :: "tenv \<Rightarrow> ty \<Rightarrow> operation \<Rightarrow> operation outcome" where
  "make_convert_to_uint env t c = obind (integral_number env t) (\<lambda>s. Inr (ConvertToUint s c))"

definition make_binary_arithmetic :: "tenv \<Rightarrow> fobject \<Rightarrow> ty \<Rightarrow> operation \<Rightarrow> operation \<Rightarrow> operation outcome" where
  "make_binary_arithmetic env f t l r =
     (case binary_number env t of Some n \<Rightarrow> Inr (Binary n f l r) | None \<Rightarrow> Inl Not_reached)"

definition make_binary_integral :: "tenv \<Rightarrow> fobject \<Rightarrow> ty \<Rightarrow> operation \<Rightarrow> operation \<Rightarrow> operation outcome" where
  "make_binary_integral env f t l r = obind (integral_number env t) (\<lambda>s. Inr (Binary (Scalar s) f l r))"

definition make_shift :: "tenv \<Rightarrow> bool \<Rightarrow> ty \<Rightarrow> operation \<Rightarrow> operation \<Rightarrow> operation outcome" where
  "make_shift env left t l r = obind (integral_number env t) (\<lambda>s. Inr (Shift s left l r))"

definition make_add_assign :: "tenv \<Rightarrow> ty \<Rightarrow> operation \<Rightarrow> operation \<Rightarrow> operation outcome" where
  "make_add_assign env t l r = obind (arithmetic_number env t) (\<lambda>n. Inr (operation.AddAssign n l r))"

definition make_increment :: "tenv \<Rightarrow> ty \<Rightarrow> operation \<Rightarrow> operation outcome" where
  "make_increment env t c = obind (arithmetic_number env t) (\<lambda>n. Inr (Increment n c))"

definition make_decrement :: "tenv \<Rightarrow> ty \<Rightarrow> operation \<Rightarrow> operation outcome" where
  "make_decrement env t c = obind (arithmetic_number env t) (\<lambda>n. Inr (Decrement n c))"

definition make_append :: "tenv \<Rightarrow> ty \<Rightarrow> operation \<Rightarrow> operation outcome" where
  "make_append env b c = (if underlying_kind env b = Uint8_Kind then Inr (AppendOp (Slice b) c) else Inl Not_reached)"

text \<open>make_unary, whose only use is the negation of a boolean.\<close>

definition make_unary :: "tenv \<Rightarrow> ty \<Rightarrow> operation \<Rightarrow> operation outcome" where
  "make_unary env t c = (if underlying_kind env t = Bool_Kind then Inr (Unary_Not c) else Inl Not_reached)"

text \<open>make_conversion, in the order of its tests.\<close>

definition make_conversion :: "tenv \<Rightarrow> operation \<Rightarrow> ty \<Rightarrow> ty \<Rightarrow> operation outcome" where
  "make_conversion env c from to =
     obind (are_identical (underlying_type env from) (underlying_type env to)) (\<lambda>same.
       if same then Inr c
       else obind (case (to_pointer from, to_pointer to) of
           (Some x, Some y) \<Rightarrow> are_identical x y | _ \<Rightarrow> Inr False) (\<lambda>pointers.
         if pointers then Inl Unimplemented
         else if (is_typed_integer env from \<or> is_typed_float env from) \<and> (is_typed_integer env to \<or> is_typed_float env to) then
           obind (conversion_number env from) (\<lambda>a. obind (conversion_number env to) (\<lambda>b. Inr (operation.Conversion a b c)))
         else if is_typed_complex env from \<and> is_typed_complex env to then Inl Unimplemented
         else if is_typed_integer env from \<and> is_typed_string env to then Inl Unimplemented
         else if is_slice_of_bytes env from \<and> is_typed_string env to then Inr (ConvertSliceOfBytesToString c)
         else if is_slice_of_runes env from \<and> is_typed_string env to then Inl Unimplemented
         else if is_typed_string env from \<and> is_slice_of_bytes env to then Inr (ConvertStringToSliceOfBytes c)
         else Inl Unimplemented))"

section \<open>Operators and predeclared functions\<close>

text \<open>What the generator knows beside the tree.\<close>

record generator =
  g_types :: tenv
  g_nesting :: nat
  g_offset :: "nat \<Rightarrow> int"
  g_receiver :: int
  g_current :: int
  g_code :: "operation \<Rightarrow> int"
  g_access :: "tstmt \<Rightarrow> receiver_access"

text \<open>
  The operations of the binary operators: a comparison is over the type of its left operand, the others over their
  result; an addition is made for integers only, and so are the bitwise operators and the remainder.
\<close>

definition generate_binary ::
  "tenv \<Rightarrow> binary_operator \<Rightarrow> ty \<Rightarrow> ty \<Rightarrow> ty \<Rightarrow> operation \<Rightarrow> operation \<Rightarrow> operation outcome"
where
  "generate_binary env f result left right l r =
     (case f of
        Computed g \<Rightarrow>
          if is_comparison g then make_binary_arithmetic env g left l r
          else if g = Adder \<or> is_bitwise g then make_binary_integral env g result l r
          else make_binary_arithmetic env g result l r
      | Shifted up \<Rightarrow> obind (make_convert_to_uint env right r) (make_shift env up result l)
      | Logic stop \<Rightarrow> Inr (if stop then LogicOr l r else LogicAnd l r))"

text \<open>Of the unary operators only the negation of a boolean has code.\<close>

definition generate_unary :: "tenv \<Rightarrow> unary_operator \<Rightarrow> ty \<Rightarrow> operation \<Rightarrow> operation outcome" where
  "generate_unary env f result c =
     (case f of Not_Operator \<Rightarrow> make_unary env result (ListOperation [c]) | _ \<Rightarrow> Inl Unimplemented)"

definition generate_builtin :: "tenv \<Rightarrow> builtin \<Rightarrow> ty list \<Rightarrow> operation list \<Rightarrow> operation outcome" where
  "generate_builtin env f ts cs =
     (case (f, ts) of
        (New, t # _) \<Rightarrow> Inr (NewOp t)
      | (Move, _) \<Rightarrow> Inl Outside_model
      | (Merge, _) \<Rightarrow> Inl Outside_model
      | (Len, _) \<Rightarrow> Inr (LenOp (ListOperation cs))
      | (Append, t # _) \<Rightarrow>
          (case to_slice (underlying_type env t) of
             Some b \<Rightarrow> make_append env b (ListOperation cs) | None \<Rightarrow> Inl Undefined_behaviour)
      | (Copy, t # _) \<Rightarrow> Inr (CopyOp t (ListOperation cs))
      | (Println, _) \<Rightarrow> Inr (PrintlnOp ts cs)
      | _ \<Rightarrow> Inl Undefined_behaviour)"

section \<open>Expressions\<close>

text \<open>The static function load: a variable is its address until it is loaded.\<close>

definition load :: "ev \<Rightarrow> operation \<Rightarrow> operation outcome" where
  "load v c =
     (if e_kind v = UnknownExpressionKind then Inl Assertion_failed
      else if e_kind v = VariableExpressionKind then obind (the_type v) (\<lambda>t. Inr (Load c t))
      else Inr c)"

definition variable_operation :: "ev \<Rightarrow> operation outcome \<Rightarrow> operation outcome" where
  "variable_operation v next =
     (if e_kind v = UnknownExpressionKind then Inl Assertion_failed
      else if e_kind v = VariableExpressionKind then next
      else Inl Unimplemented)"

definition is_pointer :: "tenv \<Rightarrow> ty \<Rightarrow> bool" where
  "is_pointer env t \<longleftrightarrow> to_pointer (underlying_type env t) \<noteq> None"

text \<open>The operation of the receiver of a method call, from that of the base and the type of the receiver parameter.\<close>

definition receiver_operation :: "tenv \<Rightarrow> ev \<Rightarrow> ty \<Rightarrow> operation \<Rightarrow> operation outcome" where
  "receiver_operation env v r c =
     obind (the_type v) (\<lambda>t.
       if is_pointer env t then
         (if is_pointer env r then
            (if e_kind v = UnknownExpressionKind then Inl Assertion_failed
             else if e_kind v = VariableExpressionKind then Inr (Load c t) else Inr c)
          else variable_operation v (Inr (Load (Load c t) r)))
       else
         (if is_pointer env r then variable_operation v (Inr c)
          else variable_operation v (Inr (Load c t))))"

text \<open>The address of a field; the type of the base may be a pointer to the struct.\<close>

definition field_operation :: "generator \<Rightarrow> ev \<Rightarrow> field list \<Rightarrow> nat \<Rightarrow> operation \<Rightarrow> operation outcome" where
  "field_operation G v fs k c =
     obind (the_type v) (\<lambda>t.
       variable_operation v
         (obind (offset (g_types G) (g_nesting G) fs k) (\<lambda>off.
            Inr (operation.Select (if is_pointer (g_types G) t then Load c t else c) (sint off)))))"

definition index_operation :: "generator \<Rightarrow> ev \<Rightarrow> operation \<Rightarrow> operation outcome" where
  "index_operation G v c =
     obind (load v c) (\<lambda>c. obind (the_type v) (\<lambda>t. make_convert_to_int (g_types G) t c))"

definition generate_index :: "generator \<Rightarrow> ev \<Rightarrow> ty \<Rightarrow> operation \<Rightarrow> operation \<Rightarrow> operation outcome" where
  "generate_index G v t b i =
     (case t of
        Array e d \<Rightarrow> variable_operation v (Inr (IndexArray b i t))
      | Slice e \<Rightarrow> variable_operation v (Inr (operation.IndexSlice (Load b t) i t))
      | _ \<Rightarrow> Inl Not_reached)"

definition generate_slice ::
  "ev \<Rightarrow> ty \<Rightarrow> operation \<Rightarrow> operation option \<Rightarrow> operation option \<Rightarrow> operation option \<Rightarrow> operation outcome"
where
  "generate_slice v t b lo hi mx =
     (case t of
        Array e d \<Rightarrow> variable_operation v (Inr (SliceArray b lo hi mx t))
      | Slice e \<Rightarrow> obind (load v b) (\<lambda>b. Inr (SliceSlice b lo hi mx t))
      | _ \<Rightarrow> Inl Not_reached)"

definition generate_identifier :: "generator \<Rightarrow> ev \<Rightarrow> entry \<Rightarrow> operation outcome" where
  "generate_identifier G v s =
     (if v_present (e_value v) then obind (the_type v) (\<lambda>t. make_literal (g_types G) t (e_value v))
      else case s of
        Parameter_Entry i p \<Rightarrow> Inr (Reference (g_offset G i))
      | Variable_Entry i n t im dm \<Rightarrow> Inr (Reference (g_offset G i))
      | Type_Entry n t \<Rightarrow> Inr Noop
      | _ \<Rightarrow> Inl Not_reached)"

text \<open>A type in the place of an expression has no operation, and an argument without one is left out of the list.\<close>

fun without_operation :: "texp \<Rightarrow> bool" where
  "without_operation (T_Type v) = (e_type v \<noteq> None)"
| "without_operation _ = False"

text \<open>The visit of a call, its arguments generated and its callee as \<open>callee\<close> gives it.\<close>

definition generate_callable :: "ty \<Rightarrow> int \<Rightarrow> (ty \<Rightarrow> operation outcome) \<Rightarrow> operation list \<Rightarrow> operation outcome" where
  "generate_callable t a receiver cs =
     (case t of
        FunctionBase Function i ps rs \<Rightarrow> Inr (FunctionCall a (ListOperation cs))
      | MethodBase c i n r ps rs \<Rightarrow>
          obind (receiver (ptype r)) (\<lambda>recv. Inr (MethodCall a recv (ListOperation cs)))
      | _ \<Rightarrow> Inl Not_reached)"

definition generate_value_call :: "ev \<Rightarrow> operation outcome \<Rightarrow> operation list \<Rightarrow> operation outcome" where
  "generate_value_call v callee cs =
     obind (the_type v) (\<lambda>t. case t of
         FunctionBase PullPort i ps rs \<Rightarrow>
           obind callee (\<lambda>c. obind (load v c) (\<lambda>c. Inr (DynamicPullPortCall t c (ListOperation cs))))
       | MethodBase Method i n r ps rs \<Rightarrow> Inl Unimplemented
       | _ \<Rightarrow> Inl Not_reached)"

definition address_literal :: "int \<Rightarrow> operation" where
  "address_literal a = operation.Literal (le_bytes 8 (word_of_int a))"

fun generate :: "generator \<Rightarrow> texp \<Rightarrow> operation outcome"
  and generate_list :: "generator \<Rightarrow> texp list \<Rightarrow> operation list outcome"
  and generate_option :: "generator \<Rightarrow> texp option \<Rightarrow> operation option outcome"
where
  "generate G T_Error = Inl Outside_model"
| "generate G (T_Literal v) = obind (the_type v) (\<lambda>t. make_literal (g_types G) t (e_value v))"
| "generate G (T_Identifier v s) = generate_identifier G v s"
| "generate G (T_Type v) = (if e_type v = None then Inl Outside_model else Inl Undefined_behaviour)"
| "generate G (T_Address_Of v e) = generate G e"
| "generate G (T_Dereference v e) = obind (generate G e) (load (ev_of e))"
| "generate G (T_Field v e fs k) = obind (generate G e) (field_operation G (ev_of e) fs k)"
| "generate G (T_Method v e c) = obind (generate G e) (\<lambda>_. Inr (address_literal (fst c)))"
| "generate G (T_Index v b i t) =
     obind (generate G b) (\<lambda>b'. obind (generate G i) (\<lambda>i'. obind (index_operation G (ev_of i) i')
       (generate_index G (ev_of b) t b')))"
| "generate G (T_Index_Slice v b lo hi mx t) =
     obind (generate G b) (\<lambda>b'. obind (generate_option G lo) (\<lambda>lo'. obind (generate_option G hi) (\<lambda>hi'.
     obind (generate_option G mx) (generate_slice (ev_of b) t b' lo' hi'))))"
| "generate G (T_Conversion v e) =
     obind (generate G e) (\<lambda>c. obind (load (ev_of e) c) (\<lambda>c.
     obind (the_type (ev_of e)) (\<lambda>from. obind (the_type v) (make_conversion (g_types G) c from))))"
| "generate G (T_Builtin v f es) =
     obind (generate_list G es) (\<lambda>cs. obind (omap (\<lambda>e. the_type (ev_of e)) es) (\<lambda>ts.
       generate_builtin (g_types G) f ts cs))"
| "generate G (T_Call v f es) =
     obind (generate_list G es) (\<lambda>cs.
       case f of
         T_Identifier w (Function_Entry n a _) \<Rightarrow>
           obind (the_type w) (\<lambda>t. generate_callable t a (\<lambda>r. Inl Undefined_behaviour) cs)
       | T_Method w e (a, _) \<Rightarrow>
           obind (the_type w) (\<lambda>t. generate_callable t a
             (\<lambda>r. obind (generate G e) (receiver_operation (g_types G) (ev_of e) r)) cs)
       | _ \<Rightarrow> generate_value_call (ev_of f) (generate G f) cs)"
| "generate G (T_Unary v f e) =
     (if v_present (e_value v) then obind (the_type v) (\<lambda>t. make_literal (g_types G) t (e_value v))
      else
        obind (generate G e) (\<lambda>c. obind (load (ev_of e) c) (\<lambda>c. obind (the_type v) (\<lambda>t.
          generate_unary (g_types G) f t c))))"
| "generate G (T_Binary v f l r) =
     (if v_present (e_value v) then obind (the_type v) (\<lambda>t. make_literal (g_types G) t (e_value v))
      else
        obind (generate G l) (\<lambda>l'. obind (generate G r) (\<lambda>r'.
        obind (load (ev_of l) l') (\<lambda>l'. obind (load (ev_of r) r') (\<lambda>r'.
        obind (the_type v) (\<lambda>t. obind (the_type (ev_of l)) (\<lambda>s. obind (the_type (ev_of r)) (\<lambda>u.
          generate_binary (g_types G) f t s u l' r'))))))))"
| "generate G (T_Push_Port_Call v fs k ps es) =
     obind (generate_list G es) (\<lambda>cs.
     obind (list_size_on_stack (g_types G) (g_nesting G) ps) (\<lambda>n.
     obind (offset (g_types G) (g_nesting G) fs k) (\<lambda>off.
       Inr (operation.PushPortCall n (g_receiver G) (sint off) (ListOperation cs)))))"
| "generate G (T_Indexed_Push_Port_Call v fs k ps t i es) =
     obind (generate G i) (\<lambda>i'. obind (load (ev_of i) i') (\<lambda>i'.
     obind (generate_list G es) (\<lambda>cs.
     obind (list_size_on_stack (g_types G) (g_nesting G) ps) (\<lambda>n.
     obind (offset (g_types G) (g_nesting G) fs k) (\<lambda>off.
       Inr (operation.IndexedPushPortCall n (g_receiver G) (sint off) i' (ListOperation cs) t))))))"
| "generate_list G [] = Inr []"
| "generate_list G (e # es) =
     (if without_operation e then generate_list G es
      else obind (generate G e) (\<lambda>c. obind (load (ev_of e) c) (\<lambda>c. obind (generate_list G es) (\<lambda>cs. Inr (c # cs)))))"
| "generate_option G None = Inr None"
| "generate_option G (Some e) = obind (generate G e) (\<lambda>c. obind (index_operation G (ev_of e) c) (\<lambda>c. Inr (Some c)))"

section \<open>Statements\<close>

definition clear_variable :: "generator \<Rightarrow> nat \<times> ty \<Rightarrow> operation outcome" where
  "clear_variable G = (\<lambda>(i, t). obind (type_size (g_types G) (g_nesting G) t) (\<lambda>sz. Inr (Clear (g_offset G i) sz)))"

definition make_assign :: "generator \<Rightarrow> operation \<Rightarrow> operation \<Rightarrow> ty \<Rightarrow> operation outcome" where
  "make_assign G l r t = obind (type_size (g_types G) (g_nesting G) t) (\<lambda>sz. Inr (operation.Assign l r sz))"

fun initialize :: "generator \<Rightarrow> (nat \<times> ty) list \<Rightarrow> operation list \<Rightarrow> operation list outcome" where
  "initialize G ((i, t) # vs) (c # cs) =
     obind (make_assign G (Reference (g_offset G i)) c t) (\<lambda>c. obind (initialize G vs cs) (\<lambda>cs. Inr (c # cs)))"
| "initialize G _ _ = Inr []"

text \<open>An expression as a statement: what it leaves on the stack is popped.\<close>

definition discard :: "generator \<Rightarrow> ev \<Rightarrow> operation \<Rightarrow> operation outcome" where
  "discard G v c =
     (if e_kind v = VoidExpressionKind then Inr c
      else obind (the_type v) (\<lambda>t. obind (type_size (g_types G) (g_nesting G) t) (\<lambda>sz.
        Inr (if sz \<noteq> 0 then Popn c sz else c))))"

text \<open>The body of an activation: the component is scheduled again when the body may change its state, or when an action calls ports.\<close>

definition deferred_body :: "generator \<Rightarrow> bool \<Rightarrow> texp list \<Rightarrow> tstmt \<Rightarrow> operation \<Rightarrow> operation" where
  "deferred_body G in_action es b c =
     SetRestoreCurrentInstance
       (if g_access G b = AccessWrite \<or> in_action \<and> es \<noteq> [] then Push c else c) (g_current G)"

text \<open>A condition that is a constant chooses its branch; the statement before the condition is visited and its operation dropped.\<close>

definition choose_branch :: "ev \<Rightarrow> operation \<Rightarrow> operation \<Rightarrow> operation \<Rightarrow> operation outcome" where
  "choose_branch v c t f =
     (if v_present (e_value v) then Inr (if get_scalar Bool_Scalar (e_value v) \<noteq> 0 then t else f)
      else obind (load v c) (\<lambda>c. Inr (If_Operation c t f)))"

fun generate_stmt :: "generator \<Rightarrow> tstmt \<Rightarrow> operation outcome"
  and generate_stmts :: "generator \<Rightarrow> tstmt list \<Rightarrow> operation list outcome"
where
  "generate_stmt G S_Empty = Inr Noop"
| "generate_stmt G (S_Expression e) = obind (generate G e) (discard G (ev_of e))"
| "generate_stmt G (S_Var vs es) =
     obind (if es = [] then omap (clear_variable G) vs else obind (generate_list G es) (initialize G vs))
       (\<lambda>cs. Inr (ListOperation cs))"
| "generate_stmt G (S_Assign l r) =
     obind (generate G l) (\<lambda>l'. obind (generate G r) (\<lambda>r'. obind (load (ev_of r) r') (\<lambda>r'.
     obind (the_type (ev_of l)) (make_assign G l' r'))))"
| "generate_stmt G (S_Add_Assign l r) =
     obind (generate G l) (\<lambda>l'. obind (generate G r) (\<lambda>r'. obind (load (ev_of r) r') (\<lambda>r'.
     obind (the_type (ev_of l)) (\<lambda>t. make_add_assign (g_types G) t l' r'))))"
| "generate_stmt G (S_Step up e) =
     obind (generate G e) (\<lambda>c. obind (the_type (ev_of e)) (\<lambda>t.
       if up then make_increment (g_types G) t c else make_decrement (g_types G) t c))"
| "generate_stmt G (S_Return i t e) =
     obind (generate G e) (\<lambda>c. obind (load (ev_of e) c) (\<lambda>c.
     obind (type_size (g_types G) (g_nesting G) t) (\<lambda>sz. Inr (Return_Operation c (g_offset G i) sz))))"
| "generate_stmt G (S_List cs) = obind (generate_stmts G cs) (\<lambda>cs. Inr (ListOperation cs))"
| "generate_stmt G (S_If before c t f) =
     obind (generate_stmt G before) (\<lambda>_. obind (generate G c) (\<lambda>c'.
     obind (generate_stmt G t) (\<lambda>t'. obind (generate_stmt G f) (choose_branch (ev_of c) c' t'))))"
| "generate_stmt G (S_While c b) =
     obind (generate G c) (\<lambda>c'. obind (generate_stmt G b) (\<lambda>b'. obind (load (ev_of c) c') (\<lambda>c'.
       Inr (operation.While c' b'))))"
| "generate_stmt G (S_For i limit b) =
     obind (generate_stmt G b) (\<lambda>b'. Inr (operation.ForIota (g_offset G i) limit b'))"
| "generate_stmt G (S_Change i t e b) = Inl Outside_model"
| "generate_stmt G (S_Activate in_action es b) =
     obind (generate_list G es) (\<lambda>cs. obind (generate_stmt G b) (\<lambda>b'.
       Inr (operation.Activate (ListOperation cs) (g_code G (deferred_body G in_action es b b')))))"
| "generate_stmts G [] = Inr []"
| "generate_stmts G (c # cs) =
     obind (generate_stmt G c) (\<lambda>c. obind (generate_stmts G cs) (\<lambda>cs. Inr (c # cs)))"

section \<open>Declarations\<close>

text \<open>Functions and methods run their body as it is; initializers, getters and reactions on behalf of their component.\<close>

definition generate_function :: "generator \<Rightarrow> tstmt \<Rightarrow> operation outcome" where
  "generate_function G b = generate_stmt G b"

definition generate_component_code :: "generator \<Rightarrow> tstmt \<Rightarrow> operation outcome" where
  "generate_component_code G b =
     obind (generate_stmt G b) (\<lambda>c. Inr (SetRestoreCurrentInstance c (g_current G)))"

definition generate_action :: "generator \<Rightarrow> texp \<Rightarrow> tstmt \<Rightarrow> (operation \<times> operation) outcome" where
  "generate_action G e b =
     obind (generate G e) (\<lambda>p. obind (load (ev_of e) p) (\<lambda>p. obind (generate_component_code G b) (\<lambda>c.
       Inr (SetRestoreCurrentInstance p (g_current G), c))))"

text \<open>An instance is made by calling its initializer.\<close>

definition generate_instance :: "generator \<Rightarrow> int \<Rightarrow> int \<Rightarrow> texp list \<Rightarrow> operation outcome" where
  "generate_instance G initializer component es =
     obind (generate_list G es) (\<lambda>cs. Inr (MethodCall initializer (Instance component) (ListOperation cs)))"

end
