(* ===== verification/Folding.thy ===== *)
theory Folding
  imports Generate
begin

text \<open>
  Constant folding against code generation: what the type checker computes for an operator on constants
  (value.cpp) is what the operation the generator would have made for it (semantic.cpp,
  operation.hpp) leaves on the stack when it runs on the literals of the operands.
\<close>

section \<open>Running on literals\<close>

text \<open>A machine whose stack may differ from that of \<open>m\<close> only above the top.\<close>

definition scratched :: "machine \<Rightarrow> machine \<Rightarrow> bool" where
  "scratched m m' \<longleftrightarrow> (\<exists>st. m' = m\<lparr>the_stack := st\<rparr> \<and> same_below (tos m) (the_stack m) st \<and>
     stack_top st = tos m \<and> base_pointer st = base_pointer (the_stack m) \<and> stack_wf st)"

lemma scratched_refl: "stack_wf (the_stack m) \<Longrightarrow> scratched m m"
  by (auto simp: scratched_def same_below_def intro: exI[of _ "the_stack m"])

lemma slot_small: "k \<le> 8 \<Longrightarrow> slot_bytes k \<le> 8"
  using aligned_size_small[of k]
  by (cases "k = 0")
    (simp_all add: slot_bytes_def aligned_size_def align_up_def stack_alignment_def del: aligned_slot)

lemma literal_operand:
  assumes s: "scratched m m1" and len: "length bs \<le> 8" and room: "tos m + 8 \<le> stack_limit (the_stack m)"
  obtains ma mb where "operand (execute P (Suc f)) (operation.Literal bs) m1 = Inr ma"
    "\<And>n. n = length bs \<Longrightarrow> pop_value n ma = Inr (bs, mb)" "scratched m mb"
proof -
  obtain st where st: "m1 = m\<lparr>the_stack := st\<rparr>" "same_below (tos m) (the_stack m) st" "stack_top st = tos m"
    "base_pointer st = base_pointer (the_stack m)" "stack_wf st"
    using s by (auto simp: scratched_def)
  have lim: "stack_limit (the_stack m1) = stack_limit (the_stack m)"
    using st(1,2) by (simp add: same_below_def stack_limit_def)
  obtain st2 where p: "push_value bs m1 = Inr (m1\<lparr>the_stack := st2\<rparr>)"
    "pushes (the_stack m1) st2 (slot_bytes (length bs)) bs"
    "\<And>n. n = length bs \<Longrightarrow> pop_value n (m1\<lparr>the_stack := st2\<rparr>) = Inr (bs, m1\<lparr>the_stack := st2\<lparr>stack_top := tos m1\<rparr>\<rparr>)"
    by (rule push_pop[of m1 bs]) (use st(1,3,5) len room lim slot_small[OF len] in auto)
  have wf: "stack_wf (st2\<lparr>stack_top := tos m\<rparr>)"
    using wf_lower_top[OF pushes_wf[OF st(5)], of st2 "slot_bytes (length bs)" bs "slot_bytes (length bs)"] p(2) st(1,3,5)
    by (simp add: pushes_def same_below_def stack_wf_def)
  have "scratched m (m1\<lparr>the_stack := st2\<lparr>stack_top := tos m1\<rparr>\<rparr>)"
    unfolding scratched_def
    by (rule exI[of _ "st2\<lparr>stack_top := tos m\<rparr>"])
      (use st p(2) wf in \<open>simp add: pushes_def same_below_def\<close>)
  moreover have "operand (execute P (Suc f)) (operation.Literal bs) m1 = Inr (m1\<lparr>the_stack := st2\<rparr>)"
    using p(1) by (simp add: operand_def continue_def)
  ultimately show ?thesis using that p(3) by blast
qed

lemma push_scratched:
  assumes s: "scratched m m1" and len: "length bs \<le> 8" and room: "tos m + 8 \<le> stack_limit (the_stack m)"
  obtains m2 where "push_value bs m1 = Inr m2" "pushed bs m m2"
proof -
  obtain st where st: "m1 = m\<lparr>the_stack := st\<rparr>" "same_below (tos m) (the_stack m) st" "stack_top st = tos m"
    "base_pointer st = base_pointer (the_stack m)" "stack_wf st"
    using s by (auto simp: scratched_def)
  have lim: "stack_limit (the_stack m1) = stack_limit (the_stack m)"
    using st(1,2) by (simp add: same_below_def stack_limit_def)
  obtain st2 where p: "push_value bs m1 = Inr (m1\<lparr>the_stack := st2\<rparr>)"
    "pushes (the_stack m1) st2 (slot_bytes (length bs)) bs"
    by (rule push_pop[of m1 bs]) (use st(1,3,5) len room lim slot_small[OF len] in auto)
  have "pushes (the_stack m) st2 (slot_bytes (length bs)) bs"
    using st p(2) by (simp add: pushes_def same_below_def)
  then show ?thesis using that[OF p(1)] st(1) by (auto simp: pushed_def)
qed

lemma literal_runs:
  assumes "scratched m m1" "length bs \<le> 8" "tos m + 8 \<le> stack_limit (the_stack m)"
  obtains m2 where "execute P (Suc f) (operation.Literal bs) m1 = Inr (Control_Continue, m2)" "pushed bs m m2"
proof -
  obtain m2 where "push_value bs m1 = Inr m2" "pushed bs m m2" by (rule push_scratched[OF assms])
  then show ?thesis using that by (simp add: continue_def)
qed

section \<open>Shifts and logical operators\<close>

lemma run_shift_literals:
  assumes wf: "stack_wf (the_stack m)" and t: "scalar_ok t"
    and len: "length xs = scalar_size t" "length ys = 8"
    and room: "tos m + 8 \<le> stack_limit (the_stack m)"
  shows "case apply_shift t left (scalar_value t xs) (scalar_value Unsigned_Long ys) of
      Inl e \<Rightarrow> execute P (Suc (Suc (Suc f))) (Shift t left (operation.Literal xs) (ConvertToUint Unsigned_Long (operation.Literal ys))) m = Inl e
    | Inr z \<Rightarrow> \<exists>m'. execute P (Suc (Suc (Suc f))) (Shift t left (operation.Literal xs) (ConvertToUint Unsigned_Long (operation.Literal ys))) m =
        Inr (Control_Continue, m') \<and> pushed (scalar_bytes t z) m m'"
proof -
  have t8: "scalar_size t \<le> 8" using t by (simp add: scalar_ok_def)
  obtain m1 m2 where l: "operand (execute P (Suc (Suc f))) (operation.Literal xs) m = Inr m1"
    "\<And>n. n = length xs \<Longrightarrow> pop_value n m1 = Inr (xs, m2)" "scratched m m2"
    by (rule literal_operand[OF scratched_refl[OF wf], where bs = xs and P = P and f = "Suc f"]) (use len t8 room in auto)
  obtain m3 m4 where r: "operand (execute P (Suc f)) (operation.Literal ys) m2 = Inr m3"
    "\<And>n. n = length ys \<Longrightarrow> pop_value n m3 = Inr (ys, m4)" "scratched m m4"
    by (rule literal_operand[OF l(3), where bs = ys and P = P and f = f]) (use len room in auto)
  let ?zs = "scalar_bytes Unsigned_Long (wrap Unsigned_Long (scalar_value Unsigned_Long ys))"
  have v: "scalar_value Unsigned_Long ?zs = scalar_value Unsigned_Long ys"
    by (subst scalar_roundtrip) (simp_all add: scalar_ok_def scalar_value_def)
  have "execute P (Suc (Suc f)) (ConvertToUint Unsigned_Long (operation.Literal ys)) m2 = obind (push_value ?zs m4) continue"
    using r(1,2) len(2) by (simp add: execute_conversion_def convert_number_def)
  moreover obtain m5 m6 where q: "operand (execute P (Suc f)) (operation.Literal ?zs) m4 = Inr m5"
    "\<And>n. n = length ?zs \<Longrightarrow> pop_value n m5 = Inr (?zs, m6)" "scratched m m6"
    by (rule literal_operand[OF r(3), where bs = ?zs and P = P and f = f]) (use room in auto)
  ultimately have c: "operand (execute P (Suc (Suc f))) (ConvertToUint Unsigned_Long (operation.Literal ys)) m2 = Inr m5"
    by (simp add: operand_def)
  have run: "execute P (Suc (Suc (Suc f))) (Shift t left (operation.Literal xs) (ConvertToUint Unsigned_Long (operation.Literal ys))) m =
      obind (apply_shift t left (scalar_value t xs) (scalar_value Unsigned_Long ys)) (\<lambda>z. obind (push_scalar t z m6) continue)"
    using l(1,2) c q(2) len(1) v
    by (simp add: execute_shift_def pop_scalar_def del: execute.simps) (simp add: execute_shift_def pop_scalar_def)
  show ?thesis
  proof (cases "apply_shift t left (scalar_value t xs) (scalar_value Unsigned_Long ys)")
    case (Inr z)
    obtain m7 where "push_value (scalar_bytes t z) m6 = Inr m7" "pushed (scalar_bytes t z) m m7"
      by (rule push_scratched[OF q(3), of "scalar_bytes t z"]) (use t8 room in auto)
    then show ?thesis using run Inr by (simp add: push_scalar_def continue_def)
  qed (use run in simp)
qed

text \<open>Booleans are kept as the byte 0 or 1.\<close>

definition boolean :: "8 word list \<Rightarrow> bool" where
  "boolean bs \<longleftrightarrow> bs = [0] \<or> bs = [1]"

lemma boolean_bytes: "boolean bs \<Longrightarrow> scalar_bytes Bool_Scalar (scalar_value Bool_Scalar bs) = bs"
  by (auto simp: boolean_def scalar_bytes_def scalar_value_def)

lemma run_logic_literals:
  assumes wf: "stack_wf (the_stack m)" and b: "boolean xs" "boolean ys"
    and room: "tos m + 8 \<le> stack_limit (the_stack m)"
  shows "\<exists>m'. execute P (Suc (Suc f))
      (if stop then LogicOr (operation.Literal xs) (operation.Literal ys)
       else LogicAnd (operation.Literal xs) (operation.Literal ys)) m = Inr (Control_Continue, m') \<and>
    pushed (if (scalar_value Bool_Scalar xs \<noteq> 0) = stop then xs else ys) m m'"
proof -
  have len: "length xs = 1" "length ys = 1" using b by (auto simp: boolean_def)
  obtain m1 m2 where l: "operand (execute P (Suc f)) (operation.Literal xs) m = Inr m1"
    "\<And>n. n = length xs \<Longrightarrow> pop_value n m1 = Inr (xs, m2)" "scratched m m2"
    by (rule literal_operand[OF scratched_refl[OF wf], where bs = xs and P = P and f = f]) (use len room in auto)
  obtain m3 where x: "push_value xs m2 = Inr m3" "pushed xs m m3"
    by (rule push_scratched[OF l(3), of xs]) (use len room in auto)
  obtain m4 where y: "push_value ys m2 = Inr m4" "pushed ys m m4"
    by (rule push_scratched[OF l(3), of ys]) (use len room in auto)
  have run: "execute_logic (execute P (Suc f)) stop (operation.Literal xs) (operation.Literal ys) m =
      Inr (Control_Continue, if (scalar_value Bool_Scalar xs \<noteq> 0) = stop then m3 else m4)"
    using l(1,2) x(1) y(1) len boolean_bytes[OF b(1)]
    by (simp add: execute_logic_def pop_scalar_def push_scalar_def operand_def continue_def)
  have "execute P (Suc (Suc f))
      (if stop then LogicOr (operation.Literal xs) (operation.Literal ys)
       else LogicAnd (operation.Literal xs) (operation.Literal ys)) m =
      execute_logic (execute P (Suc f)) stop (operation.Literal xs) (operation.Literal ys) m"
    by simp
  then show ?thesis using run x(2) y(2) by (cases "(scalar_value Bool_Scalar xs \<noteq> 0) = stop") simp_all
qed

section \<open>What the checker accepts and folds\<close>

text \<open>
  The types of the operands and of the result of an operator the checker has accepted on typed
  constants: the operands of a shift are an integer and a uint, those of the others have one type,
  which the operator is defined for; a comparison is a boolean, as is a logical operator.
\<close>

definition typed_operator :: "tenv \<Rightarrow> binary_operator \<Rightarrow> ty \<Rightarrow> ty \<Rightarrow> ty \<Rightarrow> bool" where
  "typed_operator env f result left right \<longleftrightarrow>
     (case f of
        Shifted up \<Rightarrow> result = left \<and> right = Basic Uint \<and> is_integral env left
      | Computed g \<Rightarrow> right = left \<and> result = (if is_comparison g then Basic Bool else left) \<and>
          input_pick env f left right \<noteq> None
      | Logic stop \<Rightarrow> right = left \<and> result = Basic Bool \<and> input_pick env f left right \<noteq> None)"

text \<open>The value the checker computes (compute, and check_shift for the shifts).\<close>

definition folded ::
  "folding \<Rightarrow> tenv \<Rightarrow> binary_operator \<Rightarrow> ty \<Rightarrow> constant_value \<Rightarrow> constant_value \<Rightarrow> constant_value outcome"
where
  "folded F env f t l r =
     (case f of
        Computed g \<Rightarrow> fold_binary F env g t no_value l r
      | Shifted up \<Rightarrow> fold_shift env up t no_value l r
      | Logic stop \<Rightarrow> Inr (fold_logic stop no_value l r))"

lemma typed_foldable:
  assumes "input_pick env (Computed g) t t \<noteq> None" "binary_number env t = Some n"
  shows "foldable_type env g t"
proof -
  consider k where "underlying_type env t = Basic k" | b where "underlying_type env t = Pointer b"
    using assms(2) by (cases "underlying_type env t") (simp_all add: binary_number_def)
  then show ?thesis
  proof cases
    case 1
    then show ?thesis
      using assms by (cases k; cases g)
        (simp_all add: input_pick_def pick_defs underlying_kind_def foldable_type_def foldable_def fractional_def
          binary_number_def split: if_splits)
  next
    case 2
    then show ?thesis
      using assms by (cases g)
        (simp_all add: input_pick_def pick_defs underlying_kind_def foldable_type_def split: if_splits)
  qed
qed

text \<open>The integer types the generator has an operation for.\<close>

lemma integral_number_binary:
  "integral_number env t = Inr s \<Longrightarrow> binary_number env t = Some (Scalar s)"
  by (auto simp: integral_number_def binary_number_def split: ty.splits option.splits if_splits)

section \<open>Folding is execution\<close>

text \<open>
  Execution from \<open>m\<close> of the operation and of the literal of the folded value leave the same bytes.
\<close>

definition same_result :: "program \<Rightarrow> nat \<Rightarrow> operation \<Rightarrow> operation \<Rightarrow> machine \<Rightarrow> bool" where
  "same_result P f c c' m \<longleftrightarrow> (\<exists>bs m1 m2. execute P f c m = Inr (Control_Continue, m1) \<and> pushed bs m m1 \<and>
     execute P f c' m = Inr (Control_Continue, m2) \<and> pushed bs m m2)"

lemma same_resultI:
  assumes "execute P (Suc f) c m = Inr (Control_Continue, m1)" "pushed bs m m1" "stack_wf (the_stack m)" "length bs \<le> 8"
    and "tos m + 8 \<le> stack_limit (the_stack m)"
  shows "same_result P (Suc f) c (operation.Literal bs) m"
proof -
  obtain m2 where "execute P (Suc f) (operation.Literal bs) m = Inr (Control_Continue, m2)" "pushed bs m m2"
    by (rule literal_runs[OF scratched_refl[OF assms(3)] assms(4,5), of P f])
  then show ?thesis using assms(1,2) unfolding same_result_def by blast
qed

text \<open>The operands: the literals exist, and a boolean is 0 or 1 where its truth is asked for.\<close>

definition operands_ok :: "binary_operator \<Rightarrow> constant_value \<Rightarrow> constant_value \<Rightarrow> bool" where
  "operands_ok f l r \<longleftrightarrow> value_ok l \<and> value_ok r \<and>
     (case f of Logic stop \<Rightarrow> boolean (member_bytes 1 l) \<and> boolean (member_bytes 1 r) | _ \<Rightarrow> True)"

lemma put_member_present [simp]: "v_present (put_member bs v)" "v_present (put_scalar t i v)"
  by (simp_all add: put_member_def put_scalar_def)

lemma literal_of_put:
  assumes "literal_size env t = Some (length bs)"
  shows "make_literal env t (put_member bs v) = Inr (operation.Literal bs)"
  using assms by (simp add: make_literal_def)

lemma computed_folding:
  assumes ty: "typed_operator env (Computed g) t s u" and ok: "value_ok l" "value_ok r"
    and lit: "make_literal env s l = Inr cl" "make_literal env u r = Inr cr"
    and gen: "generate_binary env (Computed g) t s u cl cr = Inr c"
    and m: "stack_wf (the_stack m)" "tos m + 8 \<le> stack_limit (the_stack m)"
  shows "case fold_binary F env g s no_value l r of
      Inl e \<Rightarrow> execute (f_program F) (Suc (Suc f)) c m = Inl e
    | Inr x \<Rightarrow> \<exists>c'. make_literal env t x = Inr c' \<and> same_result (f_program F) (Suc (Suc f)) c c' m"
proof -
  have us: "u = s" and t: "t = (if is_comparison g then Basic Bool else s)"
    and pick: "input_pick env (Computed g) s s \<noteq> None"
    using ty by (auto simp: typed_operator_def)
  obtain n where n: "binary_number env s = Some n" "c = Binary n g cl cr"
    using gen t integral_number_binary
    by (fastforce simp: generate_binary_def make_binary_arithmetic_def make_binary_integral_def outcome_simps
        split: if_splits option.splits)
  obtain z where z: "literal_size env s = Some z" using lit(1) by (auto simp: make_literal_def split: if_splits option.splits)
  have g: "foldable_type env g s" by (rule typed_foldable[OF pick n(1)])
  have p: "v_present l" "v_present r" using ok by (simp_all add: value_ok_def)
  note fb = fold_binary_number[OF n(1) z g p]
  note run = literals_fold[OF n(1) g ok lit(1) lit(2)[unfolded us] m, where F = F and out = no_value and f = f, folded n(2)]
  show ?thesis
  proof (cases "fold_binary F env g s no_value l r")
    case (Inl e)
    then show ?thesis using run by simp
  next
    case (Inr x)
    obtain bs where bs: "number_apply (f_program F) n g (member_bytes z l) (member_bytes z r) = Inr bs"
      "x = put_member bs no_value"
      using Inr fb(4) by (auto simp: outcome_simps)
    have len: "length bs = result_size n g" by (rule number_apply_length[OF fb(1) bs(1)])
    have sz: "literal_size env t = Some (length bs)"
      using z fb(2) t len by (simp add: result_size_def literal_size_def)
    obtain m' where r: "execute (f_program F) (Suc (Suc f)) c m = Inr (Control_Continue, m')"
      "pushed (member_bytes (result_size n g) x) m m'"
      using run Inr by auto
    have "member_bytes (result_size n g) x = bs" using bs(2) len by simp
    then have "same_result (f_program F) (Suc (Suc f)) c (operation.Literal bs) m"
      using same_resultI[OF r(1) _ m(1) _ m(2), of bs] r(2) len fb(3) by (simp add: result_size_def)
    then show ?thesis using Inr literal_of_put[OF sz] bs(2) by simp
  qed
qed

lemma shift_folding:
  assumes ty: "typed_operator env (Shifted up) t s u" and ok: "value_ok l" "value_ok r"
    and lit: "make_literal env s l = Inr cl" "make_literal env u r = Inr cr"
    and gen: "generate_binary env (Shifted up) t s u cl cr = Inr c"
    and m: "stack_wf (the_stack m)" "tos m + 8 \<le> stack_limit (the_stack m)"
  shows "case fold_shift env up s no_value l r of
      Inl e \<Rightarrow> execute P (Suc (Suc (Suc f))) c m = Inl e
    | Inr x \<Rightarrow> \<exists>c'. make_literal env t x = Inr c' \<and> same_result P (Suc (Suc (Suc f))) c c' m"
proof -
  have us: "u = Basic Uint" "t = s" using ty by (simp_all add: typed_operator_def)
  obtain j where j: "integral_number env s = Inr j" "c = Shift j up cl (ConvertToUint Unsigned_Long cr)"
    using gen us
    by (auto simp: generate_binary_def make_shift_def make_convert_to_uint_def integral_number_def outcome_simps)
  obtain k where k: "underlying_type env s = Basic k" "scalar_of k = Some j" "k \<noteq> Bool"
    using j(1) by (auto simp: integral_number_def split: ty.splits option.splits if_splits)
  obtain n sg where n: "j = Int_Scalar n sg" using k(2,3) by (cases k) auto
  have jk: "member_scalar k = Some j" by (rule member_scalar_typed[OF k(2)])
  have jz: "member_size k = scalar_size j" using k(2) by (cases k) auto
  have jok: "scalar_ok j" by (rule scalar_of_ok[OF k(2)])
  have z: "literal_size env s = Some (scalar_size j)" "cl = operation.Literal (member_bytes (scalar_size j) l)"
    using lit(1) k(1,2) jz j(1) by (auto simp: make_literal_def literal_size_def split: if_splits)
  have zr: "cr = operation.Literal (member_bytes 8 r)"
    using lit(2) us by (auto simp: make_literal_def literal_size_def split: if_splits)
  let ?a = "apply_shift j up (get_scalar j l) (get_scalar Unsigned_Long r)"
  have fold: "fold_shift env up s no_value l r = obind ?a (\<lambda>z. Inr (put_scalar j z no_value))"
    using k(1) jk n by (simp add: fold_shift_def)
  have sj: "scalar_size j \<le> 8" using jok by (simp add: scalar_ok_def)
  have run: "case ?a of
      Inl e \<Rightarrow> execute P (Suc (Suc (Suc f))) c m = Inl e
    | Inr z \<Rightarrow> \<exists>m'. execute P (Suc (Suc (Suc f))) c m = Inr (Control_Continue, m') \<and> pushed (scalar_bytes j z) m m'"
    unfolding j(2) z(2) zr get_scalar_def using run_shift_literals[OF m(1) jok _ _ m(2), where xs = "member_bytes (scalar_size j) l"
        and ys = "member_bytes 8 r" and left = up and P = P and f = f] ok sj by (simp add: length_member)
  show ?thesis
  proof (cases ?a)
    case (Inl e)
    then show ?thesis using run fold by simp
  next
    case (Inr y)
    then obtain m' where r: "execute P (Suc (Suc (Suc f))) c m = Inr (Control_Continue, m')" "pushed (scalar_bytes j y) m m'"
      using run by auto
    have "same_result P (Suc (Suc (Suc f))) c (operation.Literal (scalar_bytes j y)) m"
      by (rule same_resultI[OF r m(1) _ m(2)]) (use sj in simp)
    moreover have "make_literal env t (put_scalar j y no_value) = Inr (operation.Literal (scalar_bytes j y))"
      unfolding put_scalar_def us(2) by (rule literal_of_put) (use z(1) in simp)
    ultimately show ?thesis using fold Inr by simp
  qed
qed

lemma logic_folding:
  assumes ty: "typed_operator env (Logic stop) t s u" and ok: "operands_ok (Logic stop) l r"
    and lit: "make_literal env s l = Inr cl" "make_literal env u r = Inr cr"
    and gen: "generate_binary env (Logic stop) t s u cl cr = Inr c"
    and m: "stack_wf (the_stack m)" "tos m + 8 \<le> stack_limit (the_stack m)"
  shows "\<exists>c'. make_literal env t (fold_logic stop no_value l r) = Inr c' \<and> same_result P (Suc (Suc f)) c c' m"
proof -
  have us: "u = s" "t = Basic Bool" and pick: "Logical_pick env s s \<noteq> None"
    using ty by (auto simp: typed_operator_def input_pick_def)
  let ?xs = "member_bytes 1 l" and ?ys = "member_bytes 1 r"
  have b: "boolean ?xs" "boolean ?ys" and p: "v_present l" "v_present r"
    using ok by (simp_all add: operands_ok_def value_ok_def)
  obtain z where z: "literal_size env s = Some z"
    using lit(1) by (auto simp: make_literal_def split: if_splits option.splits)
  obtain k where k: "underlying_type env s = Basic k" "k = Bool"
  proof -
    have "underlying_kind env s = Bool_Kind \<or> underlying_kind env s = Untyped_Boolean_Kind"
      using pick by (auto simp: Logical_pick_def split: if_splits)
    then obtain k where k: "underlying_type env s = Basic k" "k = Bool \<or> k = UntypedBoolean"
      using z by (cases "underlying_type env s")
        (auto simp: underlying_kind_def literal_size_def elim!: singleton_kind.elims)
    then show ?thesis using z that by (auto simp: literal_size_def)
  qed
  have cl: "cl = operation.Literal ?xs" "cr = operation.Literal ?ys"
    using lit us(1) k p by (auto simp: make_literal_def literal_size_def split: if_splits)
  let ?bs = "if (scalar_value Bool_Scalar ?xs \<noteq> 0) = stop then ?xs else ?ys"
  have fold: "fold_logic stop no_value l r = put_member ?bs no_value"
    using p boolean_bytes[OF b(1)] boolean_bytes[OF b(2)] b(1)
    by (auto simp: fold_logic_def put_scalar_def get_scalar_def boolean_def scalar_bytes_def scalar_value_def)
  have c: "c = (if stop then LogicOr (operation.Literal ?xs) (operation.Literal ?ys)
      else LogicAnd (operation.Literal ?xs) (operation.Literal ?ys))"
    using gen cl by (auto simp: generate_binary_def)
  obtain m' where r: "execute P (Suc (Suc f)) c m = Inr (Control_Continue, m')" "pushed ?bs m m'"
    using run_logic_literals[OF m(1) b m(2), of P f stop] unfolding c by blast
  have len: "length ?bs = 1" using b by (auto simp: boolean_def)
  have "same_result P (Suc (Suc f)) c (operation.Literal ?bs) m"
    by (rule same_resultI[OF r m(1) _ m(2)]) (use len in simp)
  moreover have "make_literal env t (fold_logic stop no_value l r) = Inr (operation.Literal ?bs)"
    unfolding fold us(2) by (rule literal_of_put) (use len in \<open>simp add: literal_size_def\<close>)
  ultimately show ?thesis by blast
qed

text \<open>C12: Folding a binary operator on two constants and executing the operation the generator makes for it from
  their literals agree, for every operator (the arithmetic, bitwise and comparison operators, the shifts, the
  logical ones) and every type that the checker accepts and the generator has an operation for: when the folding is an
  error (an overflow, a division by zero, a shift by the width or more), it is the error of the
  execution; otherwise the execution leaves the same bytes as that of the literal the generator makes for the folded
  constant.\<close>

theorem folding_is_execution:
  assumes "typed_operator env f result left right" "operands_ok f l r"
    and "make_literal env left l = Inr cl" "make_literal env right r = Inr cr"
    and "generate_binary env f result left right cl cr = Inr c"
    and "stack_wf (the_stack m)" "tos m + 8 \<le> stack_limit (the_stack m)"
  shows "case folded F env f left l r of
      Inl e \<Rightarrow> execute (f_program F) (Suc (Suc (Suc fuel))) c m = Inl e
    | Inr x \<Rightarrow> \<exists>c'. make_literal env result x = Inr c' \<and> same_result (f_program F) (Suc (Suc (Suc fuel))) c c' m"
proof (cases f)
  case (Computed g)
  then show ?thesis
    using computed_folding[of env g result left right l r cl cr c m F "Suc fuel"] assms
    by (simp add: folded_def operands_ok_def)
next
  case (Shifted up)
  then show ?thesis
    using shift_folding[of env up result left right l r cl cr c m "f_program F" fuel] assms
    by (simp add: folded_def operands_ok_def)
next
  case (Logic stop)
  then show ?thesis
    using logic_folding[of env stop result left right l r cl cr c m "f_program F" "Suc fuel"] assms
    by (simp add: folded_def)
qed

text \<open>
  100 + 27 in int8, a quotient by zero, 3 shifted by two and true and false, folded and
  executed.
\<close>

definition truth :: "bool \<Rightarrow> constant_value" where
  "truth b = put_scalar Bool_Scalar (of_bool b) no_value"

definition shift_count :: "int \<Rightarrow> constant_value" where
  "shift_count i = put_scalar Unsigned_Long i no_value"

lemma fresh_room: "stack_wf (the_stack fresh_machine)" "tos fresh_machine + 8 \<le> stack_limit (the_stack fresh_machine)"
  using fresh_settled by (auto simp: settled_def fresh_machine_def make_stack_def stack_limit_def)

theorem folding_is_execution_witness:
  "same_result (f_program folder) 3 (Binary (Scalar (Int_Scalar 1 True)) Adder (operation.Literal [100]) (operation.Literal [27]))
     (operation.Literal [127]) fresh_machine \<and>
   execute (f_program folder) 3 (Binary (Scalar (Int_Scalar 1 True)) Divider (operation.Literal [100]) (operation.Literal [0]))
     fresh_machine = Inl Undefined_behaviour \<and>
   same_result (f_program folder) 3 (Shift (Int_Scalar 1 True) True (operation.Literal [3])
     (ConvertToUint Unsigned_Long (operation.Literal [2, 0, 0, 0, 0, 0, 0, 0]))) (operation.Literal [12]) fresh_machine \<and>
   same_result (f_program folder) 3 (LogicAnd (operation.Literal [1]) (operation.Literal [0])) (operation.Literal [0]) fresh_machine"
proof -
  have add: "typed_operator no_names (Computed Adder) (Basic Int8) (Basic Int8) (Basic Int8)"
    "operands_ok (Computed Adder) (int8 100) (int8 27)"
    "make_literal no_names (Basic Int8) (int8 100) = Inr (operation.Literal [100])"
    "make_literal no_names (Basic Int8) (int8 27) = Inr (operation.Literal [27])"
    "generate_binary no_names (Computed Adder) (Basic Int8) (Basic Int8) (Basic Int8) (operation.Literal [100]) (operation.Literal [27]) =
       Inr (Binary (Scalar (Int_Scalar 1 True)) Adder (operation.Literal [100]) (operation.Literal [27]))" by code_simp+
  have fadd: "map_sum id (make_literal no_names (Basic Int8)) (folded folder no_names (Computed Adder) (Basic Int8) (int8 100) (int8 27)) =
      Inr (Inr (operation.Literal [127]))" by code_simp
  have div: "typed_operator no_names (Computed Divider) (Basic Int8) (Basic Int8) (Basic Int8)"
    "operands_ok (Computed Divider) (int8 100) (int8 0)"
    "make_literal no_names (Basic Int8) (int8 0) = Inr (operation.Literal [0])"
    "generate_binary no_names (Computed Divider) (Basic Int8) (Basic Int8) (Basic Int8) (operation.Literal [100]) (operation.Literal [0]) =
       Inr (Binary (Scalar (Int_Scalar 1 True)) Divider (operation.Literal [100]) (operation.Literal [0]))"
    "folded folder no_names (Computed Divider) (Basic Int8) (int8 100) (int8 0) = Inl Undefined_behaviour" by code_simp+
  have shift: "typed_operator no_names (Shifted True) (Basic Int8) (Basic Int8) (Basic Uint)"
    "operands_ok (Shifted True) (int8 3) (shift_count 2)"
    "make_literal no_names (Basic Int8) (int8 3) = Inr (operation.Literal [3])"
    "make_literal no_names (Basic Uint) (shift_count 2) = Inr (operation.Literal [2, 0, 0, 0, 0, 0, 0, 0])"
    "generate_binary no_names (Shifted True) (Basic Int8) (Basic Int8) (Basic Uint) (operation.Literal [3])
       (operation.Literal [2, 0, 0, 0, 0, 0, 0, 0]) = Inr (Shift (Int_Scalar 1 True) True (operation.Literal [3])
     (ConvertToUint Unsigned_Long (operation.Literal [2, 0, 0, 0, 0, 0, 0, 0])))" by code_simp+
  have fshift: "map_sum id (make_literal no_names (Basic Int8)) (folded folder no_names (Shifted True) (Basic Int8) (int8 3) (shift_count 2)) =
      Inr (Inr (operation.Literal [12]))" by code_simp
  have logic: "typed_operator no_names (Logic False) (Basic Bool) (Basic Bool) (Basic Bool)"
    "operands_ok (Logic False) (truth True) (truth False)"
    "make_literal no_names (Basic Bool) (truth True) = Inr (operation.Literal [1])"
    "make_literal no_names (Basic Bool) (truth False) = Inr (operation.Literal [0])"
    "generate_binary no_names (Logic False) (Basic Bool) (Basic Bool) (Basic Bool) (operation.Literal [1]) (operation.Literal [0]) =
       Inr (LogicAnd (operation.Literal [1]) (operation.Literal [0]))" by code_simp+
  have flogic: "map_sum id (make_literal no_names (Basic Bool)) (folded folder no_names (Logic False) (Basic Bool) (truth True) (truth False)) =
      Inr (Inr (operation.Literal [0]))" by code_simp
  show ?thesis
    using folding_is_execution[OF add fresh_room, where F = folder and fuel = 0] fadd
      folding_is_execution[OF div(1,2) add(3) div(3,4) fresh_room, where F = folder and fuel = 0] div(5)
      folding_is_execution[OF shift fresh_room, where F = folder and fuel = 0] fshift
      folding_is_execution[OF logic fresh_room, where F = folder and fuel = 0] flogic
    by (auto simp: numeral_3_eq_3 split: sum.splits)
qed

text \<open>
  Of the unary operators the generator has only the negation of a boolean, which it runs through a list
  of one operation; there the two agree as well.
\<close>

lemma unary_folding_is_execution:
  assumes t: "underlying_type env t = Basic Bool" and ok: "value_ok v"
    and lit: "make_literal env t v = Inr cv" and gen: "generate_unary env Not_Operator t cv = Inr c"
    and m: "stack_wf (the_stack m)" "tos m + 8 \<le> stack_limit (the_stack m)"
  shows "\<exists>x c'. fold_not env t no_value v = Inr x \<and> make_literal env t x = Inr c' \<and>
    same_result P (Suc (Suc (Suc f))) c c' m"
proof -
  let ?xs = "member_bytes 1 v" and ?bs = "scalar_bytes Bool_Scalar (of_bool (get_scalar Bool_Scalar v = 0))"
  have cv: "cv = operation.Literal ?xs" using lit t by (auto simp: make_literal_def literal_size_def split: if_splits)
  have c: "c = Unary_Not (ListOperation [operation.Literal ?xs])"
    using gen t cv by (simp add: generate_unary_def make_unary_def underlying_kind_def)
  have len: "length ?xs = 1" using ok by (simp add: length_member)
  obtain m1 m2 where l: "operand (execute P (Suc f)) (operation.Literal ?xs) m = Inr m1"
    "\<And>n. n = length ?xs \<Longrightarrow> pop_value n m1 = Inr (?xs, m2)" "scratched m m2"
    by (rule literal_operand[OF scratched_refl[OF m(1)], where bs = ?xs and P = P and f = f]) (use len m(2) in auto)
  have list: "operand (execute P (Suc (Suc f))) (ListOperation [operation.Literal ?xs]) m = Inr m1"
    using l(1) by (cases "push_value ?xs m") (simp_all add: operand_def continue_def)
  obtain m3 where x: "push_value ?bs m2 = Inr m3" "pushed ?bs m m3"
    by (rule push_scratched[OF l(3), of ?bs]) (use m(2) in auto)
  have r: "execute P (Suc (Suc (Suc f))) c m = Inr (Control_Continue, m3)"
    using list l(2) x(1) len by (simp add: c execute_not_def pop_scalar_def push_scalar_def continue_def get_scalar_def del: execute.simps)
      (simp add: execute_not_def pop_scalar_def push_scalar_def continue_def get_scalar_def)
  have "same_result P (Suc (Suc (Suc f))) c (operation.Literal ?bs) m"
    by (rule same_resultI[OF r x(2) m(1) _ m(2)]) simp
  moreover have "make_literal env t (put_member ?bs no_value) = Inr (operation.Literal ?bs)"
    by (rule literal_of_put) (use t in \<open>simp add: literal_size_def\<close>)
  moreover have "fold_not env t no_value v = Inr (put_member ?bs no_value)"
    using t by (simp add: fold_not_def put_scalar_def)
  ultimately show ?thesis by blast
qed

end
