(* ===== verification/Wellscoped.thy ===== *)
theory Wellscoped
  imports Check
begin

text \<open>
  The symbols that a checked body mentions.  They are what the names stand for in the scopes the body is checked in, so
  what activate does to the scopes decides what the mutable phase can refer to.
\<close>

section \<open>The symbols of a checked expression\<close>

fun used :: "texp \<Rightarrow> entry list" where
  "used (T_Identifier v s) = [s]"
| "used (T_Address_Of v e) = used e"
| "used (T_Dereference v e) = used e"
| "used (T_Field v e fs k) = used e"
| "used (T_Method v e c) = used e"
| "used (T_Index v b i t) = used b @ used i"
| "used (T_Index_Slice v b l h m t) =
     used b @ (case l of None \<Rightarrow> [] | Some e \<Rightarrow> used e) @ (case h of None \<Rightarrow> [] | Some e \<Rightarrow> used e) @
     (case m of None \<Rightarrow> [] | Some e \<Rightarrow> used e)"
| "used (T_Conversion v e) = used e"
| "used (T_Builtin v f es) = concat (map used es)"
| "used (T_Call v f es) = used f @ concat (map used es)"
| "used (T_Unary v f e) = used e"
| "used (T_Binary v f l r) = used l @ used r"
| "used (T_Push_Port_Call v fs k ps es) = concat (map used es)"
| "used (T_Indexed_Push_Port_Call v fs k ps t i es) = used i @ concat (map used es)"
| "used _ = []"

definition used_list :: "texp list \<Rightarrow> entry list" where
  "used_list es = concat (map used es)"

definition used_opt :: "texp option \<Rightarrow> entry list" where
  "used_opt x = (case x of None \<Rightarrow> [] | Some e \<Rightarrow> used e)"

lemma used_set_ev [simp]: "used (set_ev v e) = used e"
  by (cases e) simp_all

lemma used_list_simps [simp]: "used_list [] = []" "used_list (e # es) = used e @ used_list es"
  "used_opt None = []" "used_opt (Some e) = used e"
  by (simp_all add: used_list_def used_opt_def)

lemma used_folds [simp]: "concat (map used es) = used_list es" "(case x of None \<Rightarrow> [] | Some e \<Rightarrow> used e) = used_opt x"
  by (simp_all add: used_list_def used_opt_def)

lemma used_convert: "convert_exp K t e = Inr e' \<Longrightarrow> used e' = used e"
  by (auto simp: convert_exp_def outcome_simps)

text \<open>The visits add nothing to what their parts mention.\<close>

named_theorems uses \<open>what the checks of an expression mention\<close>

lemma used_address_of [uses]: "check_address_of K e = Inr e' \<Longrightarrow> used e' = used e"
  by (auto simp: check_address_of_def outcome_simps)

lemma used_dereference [uses]: "check_dereference K e = Inr e' \<Longrightarrow> used e' = used e"
  by (auto simp: check_dereference_def outcome_simps split: option.splits)

lemma used_select [uses]: "check_select K e name = Inr e' \<Longrightarrow> used e' = used e"
  by (auto simp: check_select_def outcome_simps split: option.splits prod.splits)

lemma used_array_index [uses]: "check_array_index K d b e = Inr e' \<Longrightarrow> used e' = used e"
  by (auto simp: check_array_index_def Let_def outcome_simps)

lemma used_slice_index [uses]: "check_slice_index K e = Inr e' \<Longrightarrow> used e' = used e"
  by (auto simp: check_slice_index_def Let_def outcome_simps split: if_splits)

lemma used_index [uses]: "check_index K b i = Inr e' \<Longrightarrow> set (used e') = set (used b) \<union> set (used i)"
proof -
  assume "check_index K b i = Inr e'"
  then obtain t where "check_index K b i = Inr e'" "the_type (ev_of b) = Inr t" by (auto simp: check_index_def outcome_simps)
  then show ?thesis
    by (cases "underlying_type (k_env K) t")
      (auto simp: check_index_def outcome_simps dest: used_array_index used_slice_index)
qed

lemma used_bound [uses]: "ooption (check_array_index K d b) x = Inr y \<Longrightarrow> used_opt y = used_opt x"
  by (cases x) (auto simp: outcome_simps dest: used_array_index)

lemma used_index_slice [uses]:
  assumes "check_index_slice K b l h m = Inr e'"
  shows "set (used e') = set (used b) \<union> set (used_opt l) \<union> set (used_opt h) \<union> set (used_opt m)"
proof -
  obtain d l' h' m' v u where "e' = T_Index_Slice v b l' h' m' u"
    "ooption (check_array_index K d True) l = Inr l'" "ooption (check_array_index K d True) h = Inr h'"
    "ooption (check_array_index K d True) m = Inr m'"
    using assms by (auto simp: check_index_slice_def Let_def outcome_simps split: if_splits)
  then show ?thesis using used_bound by fastforce
qed

lemma used_constant_conversion: "check_constant_conversion K e to = Inr (e', b) \<Longrightarrow> used e' = used e"
  unfolding check_constant_conversion_def Let_def by (auto simp: outcome_simps split: if_splits)

lemma used_convert_operand: "convert_operand K e to = Inr (e', b) \<Longrightarrow> used e' = used e"
  unfolding convert_operand_def
  by (auto simp: outcome_simps split: if_splits option.splits dest: used_constant_conversion)

lemma used_conversion [uses]: "check_conversion K v e = Inr e' \<Longrightarrow> set (used e') \<subseteq> set (used e)"
  unfolding check_conversion_def
  by (auto simp: outcome_simps split: if_splits dest: used_convert_operand)

lemma used_assign_arguments: "assign_arguments K es ps = Inr es' \<Longrightarrow> set (used_list es') \<subseteq> set (used_list es)"
proof (induction K es ps arbitrary: es' rule: assign_arguments.induct)
  case (1 K e es p ps)
  then show ?case by (fastforce simp: outcome_simps dest: used_convert split: if_splits)
qed auto

lemma used_types_arguments: "check_types_arguments K es ps = Inr es' \<Longrightarrow> set (used_list es') \<subseteq> set (used_list es)"
  using used_assign_arguments by (auto simp: check_types_arguments_def split: if_splits)

lemma used_arguments [uses]: "check_arguments K v es ps = Inr es' \<Longrightarrow> set (used_list es') \<subseteq> set (used_list es)"
  using used_types_arguments by (fastforce simp: check_arguments_def outcome_simps)

lemma used_port_arguments [uses]: "check_port_arguments K es ps = Inr es' \<Longrightarrow> set (used_list es') \<subseteq> set (used_list es)"
  using used_types_arguments by (fastforce simp: check_port_arguments_def outcome_simps)

lemma used_set_evs: "set (used_list (set_evs vs es)) \<subseteq> set (used_list es)"
proof (induction es arbitrary: vs)
  case (Cons e es)
  then show ?case by (cases vs) (auto simp: set_evs_def)
qed (simp add: set_evs_def)

lemma used_call [uses]:
  assumes "check_call K f es = Inr e'"
  shows "set (used e') \<subseteq> set (used f) \<union> set (used_list es)"
proof -
  consider e where "es = [e]" "check_conversion K (ev_of f) e = Inr e'"
    | b where "call_builtin K b es = Inr e'" | "call_function K f es = Inr e'"
    using assms by (auto simp: check_call_def split: if_splits list.splits option.splits)
  then show ?thesis
  proof cases
    case 1
    then show ?thesis using used_conversion by fastforce
  next
    case 2
    then show ?thesis using used_set_evs by (fastforce simp: call_builtin_def outcome_simps split: if_splits)
  next
    case 3
    then show ?thesis
      using used_arguments by (fastforce simp: call_function_def outcome_simps split: if_splits prod.splits)
  qed
qed

section \<open>Expressions mention what the scopes hold\<close>

definition visible :: "scopes \<Rightarrow> entry set" where
  "visible ss = {e. \<exists>n. find_global_symbol ss n = Some e}"

lemma used_identifier: "check_identifier K ss n = Inr e' \<Longrightarrow> set (used e') \<subseteq> visible ss"
  by (auto simp: check_identifier_def visible_def outcome_simps split: option.splits if_splits)

lemma used_visible:
  "check_expr K ss e = Inr e' \<Longrightarrow> set (used e') \<subseteq> visible ss"
  "check_exprs K ss es = Inr es' \<Longrightarrow> set (used_list es') \<subseteq> visible ss"
  "check_opt K ss x = Inr x' \<Longrightarrow> set (used_opt x') \<subseteq> visible ss"
proof (induction K ss e and K ss es and K ss x arbitrary: e' and es' and x' rule: check_expr_check_exprs_check_opt.induct)
  case (2 K ss name)
  then show ?case by (simp add: used_identifier)
next
  case (4 K ss e)
  then show ?case by (fastforce simp: outcome_simps dest: used_address_of)
next
  case (5 K ss e)
  then show ?case by (fastforce simp: outcome_simps dest: used_dereference)
next
  case (6 K ss e name)
  then show ?case by (fastforce simp: outcome_simps dest: used_select)
next
  case (7 K ss b i)
  then show ?case by (fastforce simp: outcome_simps dest: used_index)
next
  case (8 K ss b lo hi mx)
  obtain b' l h m where p: "check_expr K ss b = Inr b'" "check_opt K ss lo = Inr l" "check_opt K ss hi = Inr h"
    "check_opt K ss mx = Inr m" "check_index_slice K b' l h m = Inr e'" "require_value_or_variable (ev_of b') = Inr ()"
    using 8(5) by (auto simp: outcome_simps)
  show ?case
    using used_index_slice[OF p(5)] 8(1)[OF p(1)] 8(2)[OF p(1,6,2)] 8(3)[OF p(1,6,2,3)] 8(4)[OF p(1,6,2,3,4)] by auto
next
  case (9 K ss f es)
  then show ?case by (fastforce simp: outcome_simps dest: used_call)
next
  case (10 K ss f e)
  then show ?case by (fastforce simp: outcome_simps split: if_splits)
next
  case (11 K ss f l r)
  then show ?case by (fastforce simp: outcome_simps split: if_splits prod.splits)
next
  case (12 K ss name es)
  obtain fs k ps es1 es2 where p: "receiver_field K 194 name = Inr (fs, k)" "push_port 195 (ftype (fs ! k)) = Inr ps"
    "check_exprs K ss es = Inr es1" "check_port_arguments K es1 ps = Inr es2" "e' = T_Push_Port_Call port_ev fs k ps es2"
    using 12(2) by (auto simp: outcome_simps)
  show ?case using 12(1)[OF p(1) refl p(2,3)] used_port_arguments[OF p(4)] p(5) by auto
next
  case (13 K ss name i es)
  obtain fs k where f: "receiver_field K 74 name = Inr (fs, k)" using 13(3) by (auto simp: outcome_simps)
  then obtain b d where t: "ftype (fs ! k) = Array b d" using 13(3) by (cases "ftype (fs ! k)") simp_all
  obtain ps i1 i2 es1 es2 where p: "push_port 17 b = Inr ps" "check_expr K ss i = Inr i1"
    "check_array_index K (Some d) False i1 = Inr i2"
    "check_exprs K ss es = Inr es1" "check_port_arguments K es1 ps = Inr es2"
    "e' = T_Indexed_Push_Port_Call port_ev fs k ps (Array b d) i2 es2"
    using 13(3) f t by (auto simp: outcome_simps)
  show ?case
    using 13(1)[OF f refl t p(1,2)] 13(2)[OF f refl t p(1,2,3,4)] used_port_arguments[OF p(5)] used_array_index[OF p(3)] p(6)
    by auto
qed (fastforce simp: outcome_simps split: if_splits)+

section \<open>Statements leave the scopes balanced\<close>

fun number :: "entry \<Rightarrow> nat option" where
  "number (Parameter_Entry i p) = Some i"
| "number (Variable_Entry i n t im dm) = Some i"
| "number _ = None"

text \<open>Only the innermost scope has grown, by variables with numbers from \<open>i\<close> to \<open>j\<close>.\<close>

definition fresh_between :: "nat \<Rightarrow> nat \<Rightarrow> entry \<Rightarrow> bool" where
  "fresh_between i j e \<longleftrightarrow> (\<exists>k. number e = Some k \<and> i \<le> k \<and> k < j)"

definition continues :: "cstate \<Rightarrow> cstate \<Rightarrow> bool" where
  "continues s s' \<longleftrightarrow> (case (s, s') of ((ss, i), (ss', j)) \<Rightarrow>
     i \<le> j \<and> (\<exists>s rest es. ss = s # rest \<and> ss' = s\<lparr>s_symbols := s_symbols s @ es\<rparr> # rest \<and> list_all (fresh_between i j) es))"

lemma continues_refl: "fst s \<noteq> [] \<Longrightarrow> continues s s"
  by (cases s; cases "fst s") (auto simp: continues_def intro!: exI[of _ "[]"])

lemma fresh_mono: "fresh_between i j e \<Longrightarrow> i' \<le> i \<Longrightarrow> j \<le> j' \<Longrightarrow> fresh_between i' j' e"
  by (auto simp: fresh_between_def)

lemma continues_trans: "continues s t \<Longrightarrow> continues t u \<Longrightarrow> continues s u"
  by (cases s; cases t; cases u)
    (fastforce simp: continues_def list_all_iff intro: fresh_mono)

lemma continues_enter: "ss \<noteq> [] \<Longrightarrow> number e = Some i \<Longrightarrow> continues (ss, i) (enter_symbol e ss, Suc i)"
  by (cases ss) (auto simp: continues_def fresh_between_def intro!: exI[of _ "[e]"])

lemma continues_variable: "ss \<noteq> [] \<Longrightarrow> continues (ss, i) (enter_symbol (make_variable env i x t im dm) ss, Suc i)"
  by (rule continues_enter) (simp_all add: make_variable_def)

lemma continues_close: "continues (s # ss, i) (ss', j) \<Longrightarrow> ss \<noteq> [] \<Longrightarrow> continues (ss, i) (close_scope ss', j)"
  by (cases ss) (auto simp: continues_def close_scope_def intro!: exI[of _ "[]"])

lemma continues_nonempty: "continues (ss, i) (ss', j) \<Longrightarrow> ss' \<noteq> []"
  by (auto simp: continues_def)

lemma enter_nonempty [simp]: "ss \<noteq> [] \<Longrightarrow> enter_symbol e ss \<noteq> []"
  by (cases ss) simp_all

lemma continues_variables: "enter_variables K xs im dm t s = (vs, s') \<Longrightarrow> fst s \<noteq> [] \<Longrightarrow> continues s s'"
proof (induction K xs im dm t s arbitrary: vs s' rule: enter_variables.induct)
  case (1 K im dm t s)
  then show ?case by (auto simp: continues_refl)
next
  case (2 K x xs im dm t ss i)
  let ?s = "(enter_symbol (make_variable (k_env K) i x t im dm) ss, Suc i)"
  obtain vs1 where "enter_variables K xs im dm t ?s = (vs1, s')" using 2(2) by (auto split: prod.splits)
  then have "continues ?s s'" using 2(1) 2(3) by simp
  then show ?case using continues_trans[OF continues_variable] 2(3) by simp
qed

lemma continues_initialized: "initialize_variables K xs dm spec es s = Inr (vs, es', s') \<Longrightarrow> fst s \<noteq> [] \<Longrightarrow> continues s s'"
proof (induction K xs dm spec es s arbitrary: vs es' s' rule: initialize_variables.induct)
  case (1 K x xs dm spec e es ss i)
  obtain e1 t e2 vs1 es1 where p: "check_expr K ss e = Inr e1" "check_initializer K spec e1 = Inr (t, e2)"
    "initialize_variables K xs dm spec es (enter_symbol (make_variable (k_env K) i x t (k_indeterminate K) dm) ss, Suc i) =
       Inr (vs1, es1, s')"
    using 1(2) by (auto simp: outcome_simps)
  have "continues (enter_symbol (make_variable (k_env K) i x t (k_indeterminate K) dm) ss, Suc i) s'"
    using 1(1)[OF p(1,2) refl p(3)] 1(3) by simp
  then show ?case using continues_trans[OF continues_variable] 1(3) by simp
qed (auto simp: continues_refl)

lemma continues_var: "check_var K xs im dm spec es s = Inr (t, s') \<Longrightarrow> fst s \<noteq> [] \<Longrightarrow> continues s s'"
  by (auto simp: check_var_def outcome_simps split: if_splits option.splits prod.splits
      dest: continues_variables continues_initialized)

lemma closing_Inr: "closing r = Inr (x, ss, i) \<longleftrightarrow> (\<exists>ss'. r = Inr (x, ss', i) \<and> ss = close_scope ss')"
  by (auto simp: closing_def outcome_simps)

lemma open_scope_Cons: "open_scope ss = \<lparr>s_symbols = [], s_returns = None\<rparr> # ss"
  by (simp add: open_scope_def)

lemma replace_symbols_tail:
  assumes "replace_symbols f (open_scope ss) = Inr ss'"
  obtains own where "ss' = own # ss"
proof -
  have "\<exists>own. ss' = own # ss"
    by (rule ofold_invariant[OF assms[unfolded replace_symbols_def]])
      (auto simp: open_scope_Cons replace_symbol_def outcome_simps split: if_splits option.splits)
  then show ?thesis using that by blast
qed

lemma check_stmt_continues:
  "check_stmt K c s = Inr (r, s') \<Longrightarrow> fst s \<noteq> [] \<Longrightarrow> continues s s'"
  "check_stmts K cs s = Inr (ts, s') \<Longrightarrow> fst s \<noteq> [] \<Longrightarrow> continues s s'"
proof (induction K c s and K cs s arbitrary: r s' and ts s' rule: check_stmt_check_stmts.induct)
  case (1 K s)
  then show ?case by (auto simp: continues_refl)
next
  case (3 K xs im dm spec es s)
  then show ?case by (simp add: continues_var)
next
  case (8 K cs ss i)
  obtain ts ss1 j where p: "check_stmts K cs (open_scope ss, i) = Inr (ts, ss1, j)" "s' = (close_scope ss1, j)"
    using 8(2) by (auto simp: closing_def outcome_simps)
  then show ?case using 8(1)[OF p(1)] 8(3) by (simp add: open_scope_Cons continues_close)
next
  case (9 K before c t f ss i)
  obtain b ss1 i1 c1 t1 s1 f1 ss2 i2 where p: "check_stmt K before (open_scope ss, i) = Inr (b, ss1, i1)"
    "check_expr K ss1 c = Inr c1" "check_stmt K t (ss1, i1) = Inr (t1, s1)" "check_stmt K f s1 = Inr (f1, ss2, i2)"
    "s' = (close_scope ss2, i2)"
    using 9(4) by (auto simp: closing_def outcome_simps)
  have "continues (open_scope ss, i) (ss1, i1)" using 9(1)[OF p(1)] by (simp add: open_scope_Cons)
  moreover have "continues (ss1, i1) s1"
    using 9(2)[OF p(1) refl refl p(2,3)] continues_nonempty[OF calculation] by simp
  moreover have "continues s1 (ss2, i2)"
    using 9(3)[OF p(1) refl refl p(2,3) refl p(4)] calculation(2) continues_nonempty by (cases s1) auto
  ultimately have "continues (open_scope ss, i) (ss2, i2)" using continues_trans by blast
  then show ?case using p(5) 9(5) by (simp add: open_scope_Cons continues_close)
next
  case (10 K c b ss i)
  obtain c1 b1 ss1 i1 where p: "check_expr K (open_scope ss) c = Inr c1" "check_stmt K b (open_scope ss, i) = Inr (b1, ss1, i1)"
    "s' = (close_scope ss1, i1)"
    using 10(2) by (auto simp: closing_def outcome_simps)
  then show ?case using 10(1)[OF p(1,2)] 10(3) by (simp add: open_scope_Cons continues_close)
next
  case (11 K x limit b ss i)
  let ?ss = "enter_symbol (make_variable (k_env K) i x (Basic Intt) Immutable Immutable) (open_scope ss)"
  obtain n b1 ss1 i1 where p: "process_array_dimension K ss limit = Inr n"
    "check_stmt K b (?ss, Suc i) = Inr (b1, ss1, i1)" "s' = (close_scope ss1, i1)"
    using 11(2) by (auto simp: closing_def outcome_simps)
  have "continues (open_scope ss, i) (?ss, Suc i)" by (rule continues_variable) (simp add: open_scope_Cons)
  moreover have "continues (?ss, Suc i) (ss1, i1)" using 11(1)[OF p(1,2)] by (simp add: open_scope_Cons)
  ultimately show ?case using p(3) 11(3) continues_trans by (fastforce simp: open_scope_Cons intro!: continues_close)
next
  case (12 K e x b ss i)
  obtain e1 t1 root where q: "check_expr K ss e = Inr e1" "the_type (ev_of e1) = Inr t1" "merge_change t1 = Some root"
    using 12(2) by (auto simp: outcome_simps split: option.splits)
  obtain ss0 b1 ss1 i1 where p: "require_value_or_variable (ev_of e1) = Inr ()"
    "change (k_env K) (k_nesting K) (open_scope ss) = Inr ss0"
    "check_stmt K b (enter_symbol (Variable_Entry i x root Immutable (e_indirection (ev_of e1))) ss0, Suc i) = Inr (b1, ss1, i1)"
    "s' = (close_scope ss1, i1)"
    using 12(2) q by (auto simp: closing_def outcome_simps)
  obtain own where own: "ss0 = own # ss" using replace_symbols_tail[OF p(2)[unfolded change_def]] by blast
  have "continues (ss0, i) (enter_symbol (Variable_Entry i x root Immutable (e_indirection (ev_of e1))) ss0, Suc i)"
    by (rule continues_enter) (simp_all add: own)
  moreover have "continues (enter_symbol (Variable_Entry i x root Immutable (e_indirection (ev_of e1))) ss0, Suc i) (ss1, i1)"
    using 12(1)[OF q p(1) p(2,3)] own by simp
  ultimately show ?case using p(4) 12(3) own continues_trans by (fastforce intro!: continues_close)
next
  case (13 K es b ss i)
  obtain es1 ss0 b1 ss1 i1 where p: "check_activation K = Inr ()" "check_exprs K ss es = Inr es1"
    "activate (k_env K) (k_nesting K) (open_scope ss) = Inr ss0"
    "check_stmt (K\<lparr>k_mutable_phase := True\<rparr>) b (ss0, i) = Inr (b1, ss1, i1)" "s' = (close_scope ss1, i1)"
    using 13(2) by (auto simp: closing_def outcome_simps)
  obtain own where own: "ss0 = own # ss" using replace_symbols_tail[OF p(3)[unfolded activate_def]] by blast
  show ?case using 13(1)[OF p(1,2,3,4)] own p(5) 13(3) by (simp add: continues_close)
next
  case (14 K s)
  then show ?case by (auto simp: continues_refl)
next
  case (15 K c cs s)
  obtain c1 s1 cs1 where p: "check_stmt K c s = Inr (c1, s1)" "check_stmts K cs s1 = Inr (cs1, s')"
    using 15(3) by (auto simp: outcome_simps)
  have "continues s s1" by (rule 15(1)[OF p(1) 15(4)])
  moreover have "continues s1 s'" using 15(2)[OF p(1) refl p(2)] calculation continues_nonempty by (cases s; cases s1) auto
  ultimately show ?case by (rule continues_trans)
qed (auto simp: outcome_simps continues_refl)

section \<open>The mutable phase\<close>

fun used_stmt :: "tstmt \<Rightarrow> entry list" where
  "used_stmt S_Empty = []"
| "used_stmt (S_Expression e) = used e"
| "used_stmt (S_Var vs es) = used_list es"
| "used_stmt (S_Assign l r) = used l @ used r"
| "used_stmt (S_Add_Assign l r) = used l @ used r"
| "used_stmt (S_Step up e) = used e"
| "used_stmt (S_Return i t e) = used e"
| "used_stmt (S_List cs) = concat (map used_stmt cs)"
| "used_stmt (S_If b c t f) = used_stmt b @ used c @ used_stmt t @ used_stmt f"
| "used_stmt (S_While c b) = used c @ used_stmt b"
| "used_stmt (S_For i n b) = used_stmt b"
| "used_stmt (S_Change i t e b) = used e @ used_stmt b"
| "used_stmt (S_Activate a es b) = used_list es @ used_stmt b"

fun changes :: "pstmt \<Rightarrow> bool" where
  "changes (P_Change e x b) \<longleftrightarrow> True"
| "changes (P_List cs) \<longleftrightarrow> list_ex changes cs"
| "changes (P_If b c t f) \<longleftrightarrow> changes b \<or> changes t \<or> changes f"
| "changes (P_While c b) \<longleftrightarrow> changes b"
| "changes (P_For x n b) \<longleftrightarrow> changes b"
| "changes (P_Activate es b) \<longleftrightarrow> changes b"
| "changes _ \<longleftrightarrow> False"

definition later :: "nat \<Rightarrow> entry \<Rightarrow> bool" where
  "later i e \<longleftrightarrow> (\<exists>k. number e = Some k \<and> i \<le> k)"

text \<open>What can be seen after a statement could be seen before it or has been declared since.\<close>

lemma visible_continues:
  assumes "continues (ss, i) (ss', j)" "e \<in> visible ss'"
  shows "e \<in> visible ss \<or> later i e"
proof -
  obtain s rest es n where s: "ss = s # rest" "ss' = s\<lparr>s_symbols := s_symbols s @ es\<rparr> # rest"
    "list_all (fresh_between i j) es" "find_global_symbol ss' n = Some e"
    using assms by (auto simp: continues_def visible_def)
  show ?thesis
  proof (cases "e \<in> set es")
    case True
    then show ?thesis using s(3) by (auto simp: list_all_iff fresh_between_def later_def)
  next
    case False
    then have "find_global_symbol ss n = Some e"
      using s(1,2,4) find_entry_Some by (fastforce simp: find_entry_append split: option.splits)
    then show ?thesis by (auto simp: visible_def)
  qed
qed

lemma later_mono: "later j e \<Longrightarrow> i \<le> j \<Longrightarrow> later i e"
  by (auto simp: later_def)

lemma visible_open [simp]: "visible (open_scope ss) = visible ss"
  by (simp add: visible_def open_scope_def)

definition allowed :: "cstate \<Rightarrow> entry set" where
  "allowed s = {e. e \<in> visible (fst s) \<or> later (snd s) e}"

lemma allowed_continues: "continues s s' \<Longrightarrow> allowed s' \<subseteq> allowed s"
  using visible_continues later_mono
  by (cases s; cases s') (fastforce simp: allowed_def continues_def)

lemma allowed_visible: "visible ss \<subseteq> allowed (ss, i)"
  by (auto simp: allowed_def)

lemma allowed_open [simp]: "allowed (open_scope ss, i) = allowed (ss, i)"
  by (simp add: allowed_def)

lemma used_initialized:
  "initialize_variables K xs dm spec es s = Inr (vs, es', s') \<Longrightarrow> fst s \<noteq> [] \<Longrightarrow> set (used_list es') \<subseteq> allowed s"
proof (induction K xs dm spec es s arbitrary: vs es' s' rule: initialize_variables.induct)
  case (1 K x xs dm spec e es ss i)
  define next_state where "next_state t = (enter_symbol (make_variable (k_env K) i x t (k_indeterminate K) dm) ss, Suc i)" for t
  obtain e1 t e2 vs1 es1 where p: "check_expr K ss e = Inr e1" "check_initializer K spec e1 = Inr (t, e2)"
    "initialize_variables K xs dm spec es (next_state t) = Inr (vs1, es1, s')" "es' = e2 # es1"
    using 1(2) by (auto simp: outcome_simps next_state_def)
  have "used e2 = used e1"
    using p(2) by (auto simp: check_initializer_def outcome_simps split: option.splits if_splits dest: used_convert)
  then have "set (used e2) \<subseteq> allowed (ss, i)" using used_visible(1)[OF p(1)] allowed_visible[of ss i] by auto
  moreover have "set (used_list es1) \<subseteq> allowed (next_state t)"
    using 1(1)[OF p(1,2) refl p(3)[unfolded next_state_def]] 1(3) by (simp add: next_state_def)
  moreover have "continues (ss, i) (next_state t)" using continues_variable 1(3) by (simp add: next_state_def)
  ultimately have "set (used e2) \<union> set (used_list es1) \<subseteq> allowed (ss, i)" using allowed_continues by blast
  then show ?case using p(4) by simp
qed auto

lemma used_condition: "check_condition K e = Inr e' \<Longrightarrow> used e' = used e"
  by (auto simp: check_condition_def outcome_simps split: if_splits dest: used_convert)

lemma used_simple:
  "check_assign K l r = Inr t \<Longrightarrow> used_stmt t = used l @ used r"
  "check_add_assign K l r = Inr t \<Longrightarrow> used_stmt t = used l @ used r"
  "check_step K up e = Inr t \<Longrightarrow> used_stmt t = used e"
  "check_return K ss e = Inr t \<Longrightarrow> used_stmt t = used e"
  by (auto simp: check_assign_def check_add_assign_def check_step_def check_return_def outcome_simps
      split: if_splits option.splits list.splits prod.splits dest: used_convert)

lemma used_allowed:
  "check_stmt K c s = Inr (r, s') \<Longrightarrow> fst s \<noteq> [] \<Longrightarrow> k_mutable_phase K \<Longrightarrow> \<not> changes c \<Longrightarrow> set (used_stmt r) \<subseteq> allowed s"
  "check_stmts K cs s = Inr (ts, s') \<Longrightarrow> fst s \<noteq> [] \<Longrightarrow> k_mutable_phase K \<Longrightarrow> \<not> list_ex changes cs \<Longrightarrow>
     set (concat (map used_stmt ts)) \<subseteq> allowed s"
proof (induction K c s and K cs s arbitrary: r s' and ts s' rule: check_stmt_check_stmts.induct)
  case (2 K e ss i)
  then show ?case using used_visible(1) allowed_visible by (fastforce simp: outcome_simps)
next
  case (3 K xs im dm spec es s)
  then show ?case
    by (auto simp: check_var_def outcome_simps split: if_splits option.splits prod.splits dest!: used_initialized)
next
  case (4 K l r ss i)
  then show ?case using used_visible(1) allowed_visible by (fastforce simp: outcome_simps used_simple)
next
  case (5 K l r ss i)
  then show ?case using used_visible(1) allowed_visible by (fastforce simp: outcome_simps used_simple)
next
  case (6 K up e ss i)
  then show ?case using used_visible(1) allowed_visible by (fastforce simp: outcome_simps used_simple)
next
  case (7 K e ss i)
  then show ?case using used_visible(1) allowed_visible by (fastforce simp: outcome_simps used_simple)
next
  case (8 K cs ss i)
  obtain ts ss1 j where p: "check_stmts K cs (open_scope ss, i) = Inr (ts, ss1, j)" "r = S_List ts"
    using 8(2) by (auto simp: closing_def outcome_simps)
  then show ?case using 8(1)[OF p(1)] 8(4,5) by (simp add: open_scope_Cons[symmetric]) (simp add: open_scope_def)
next
  case (9 K before c tb fb ss i)
  obtain b ss1 i1 c1 c2 t1 s1 f1 s2 where p: "check_stmt K before (open_scope ss, i) = Inr (b, ss1, i1)"
    "check_expr K ss1 c = Inr c1" "check_stmt K tb (ss1, i1) = Inr (t1, s1)" "check_stmt K fb s1 = Inr (f1, s2)"
    "check_condition K c1 = Inr c2" "r = S_If b c2 t1 f1"
    using 9(4) by (auto simp: closing_def outcome_simps)
  have e1: "continues (open_scope ss, i) (ss1, i1)" using check_stmt_continues(1)[OF p(1)] by (simp add: open_scope_Cons)
  then have e2: "continues (ss1, i1) s1" using check_stmt_continues(1)[OF p(3)] continues_nonempty by auto
  then have n: "fst s1 \<noteq> []" "ss1 \<noteq> []" using continues_nonempty e1 by (cases s1; auto)+
  have "set (used_stmt b) \<subseteq> allowed (ss, i)" using 9(1)[OF p(1)] 9(6,7) by (simp add: open_scope_Cons[symmetric]) (simp add: open_scope_def)
  moreover have "set (used_stmt t1) \<subseteq> allowed (ss1, i1)" using 9(2)[OF p(1) refl refl p(2,3)] n 9(6,7) by simp
  moreover have "set (used_stmt f1) \<subseteq> allowed s1" using 9(3)[OF p(1) refl refl p(2,3) refl p(4)] n 9(6,7) by simp
  moreover have "set (used c2) \<subseteq> allowed (ss1, i1)"
    using used_visible(1)[OF p(2)] used_condition[OF p(5)] allowed_visible by auto
  moreover have "allowed s1 \<subseteq> allowed (ss1, i1)" "allowed (ss1, i1) \<subseteq> allowed (ss, i)"
    using allowed_continues[OF e2] allowed_continues[OF e1] by simp_all
  ultimately show ?case using p(6) by auto
next
  case (10 K c b ss i)
  obtain c1 c2 b1 s1 where p: "check_expr K (open_scope ss) c = Inr c1" "check_stmt K b (open_scope ss, i) = Inr (b1, s1)"
    "check_condition K c1 = Inr c2" "r = S_While c2 b1"
    using 10(2) by (auto simp: closing_def outcome_simps)
  have "set (used_stmt b1) \<subseteq> allowed (ss, i)" using 10(1)[OF p(1,2)] 10(4,5) by (simp add: open_scope_Cons[symmetric]) (simp add: open_scope_def)
  moreover have "set (used c2) \<subseteq> allowed (ss, i)"
    using used_visible(1)[OF p(1)] used_condition[OF p(3)] allowed_visible[of ss i] by auto
  ultimately show ?case using p(4) by auto
next
  case (11 K x limit b ss i)
  let ?ss = "enter_symbol (make_variable (k_env K) i x (Basic Intt) Immutable Immutable) (open_scope ss)"
  obtain n b1 s1 where p: "process_array_dimension K ss limit = Inr n"
    "check_stmt K b (?ss, Suc i) = Inr (b1, s1)" "r = S_For i n b1"
    using 11(2) by (auto simp: closing_def outcome_simps)
  have "continues (open_scope ss, i) (?ss, Suc i)" by (rule continues_variable) (simp add: open_scope_Cons)
  then have "allowed (?ss, Suc i) \<subseteq> allowed (ss, i)" using allowed_continues by fastforce
  moreover have "set (used_stmt b1) \<subseteq> allowed (?ss, Suc i)" using 11(1)[OF p(1,2)] 11(4,5) by (simp add: open_scope_Cons)
  ultimately show ?case using p(3) by auto
next
  case (13 K es b ss i)
  then show ?case by (auto simp: check_activation_def outcome_simps split: if_splits)
next
  case (15 K c cs s)
  obtain c1 s1 cs1 where p: "check_stmt K c s = Inr (c1, s1)" "check_stmts K cs s1 = Inr (cs1, s')" "ts = c1 # cs1"
    using 15(3) by (auto simp: outcome_simps)
  have e: "continues s s1" by (rule check_stmt_continues(1)[OF p(1) 15(4)])
  then have n: "fst s1 \<noteq> []" using continues_nonempty by (cases s; cases s1) auto
  have "set (used_stmt c1) \<subseteq> allowed s" using 15(1)[OF p(1)] 15(4-6) by simp
  moreover have "set (concat (map used_stmt cs1)) \<subseteq> allowed s1" using 15(2)[OF p(1) refl p(2) n] 15(5,6) by simp
  ultimately show ?case using p(3) allowed_continues[OF e] by auto
qed (auto simp: outcome_simps)

text \<open>C10: The body of an activation without change statements mentions only what may be used in the mutable phase: whatever symbol occurs
  in it was declared inside it, stands for a value without pointers or a variable that does not point to foreign data, or
  is the receiver with mutable indirection.  With a change statement this fails, see \<open>change_resurrects_hidden_pointer\<close>.\<close>

theorem mutable_phase_is_safe:
  assumes c: "check_stmt K (P_Activate es b) (ss, i) = Inr (S_Activate a ts b', s')" and b: "\<not> changes b"
    and e: "e \<in> set (used_stmt b')"
  shows "later i e \<or> activation_safe (k_env K) (k_nesting K) e"
proof -
  obtain ss0 s1 where p: "activate (k_env K) (k_nesting K) (open_scope ss) = Inr ss0"
    "check_stmt (K\<lparr>k_mutable_phase := True\<rparr>) b (ss0, i) = Inr (b', s1)"
    using c by (auto simp: closing_def outcome_simps)
  have "ss0 \<noteq> []" using replace_symbols_tail[OF p(1)[unfolded activate_def]] by blast
  then have "e \<in> visible ss0 \<or> later i e" using used_allowed(1)[OF p(2)] b e by (auto simp: allowed_def)
  then show ?thesis using act.replaced_good[OF p(1)[unfolded activate_def]] by (auto simp: visible_def)
qed

text \<open>An action whose mutable phase increments a field of the receiver.\<close>

definition action_checker :: checker where
  "action_checker = \<lparr>k_env = counter_env, k_nesting = 5, k_named = (\<lambda>n. \<lparr>n_methods = [], n_initializers = [], n_getters = [], n_reactions = []\<rparr>),
     k_folding = folder, k_receiver = Some (1, Parameter ''this'' (Pointer (NamedType 30)) Immutable Immutable Receiver),
     k_context = In_Action, k_mutable_phase = False, k_indeterminate = Mutable\<rparr>"

definition increment_x :: pstmt where
  "increment_x = P_List [P_Step True (P_Select (P_Identifier ''this'') ''x'')]"

definition this_entry :: entry where
  "this_entry = Parameter_Entry 1 (Parameter ''this'' (Pointer (NamedType 30)) Immutable Mutable Receiver_Duplicate)"

definition incremented_x :: tstmt where
  "incremented_x = S_List [S_Step True (T_Field (variable_ev (Basic Intt) Mutable Mutable)
     (T_Identifier (variable_ev (Pointer (NamedType 30)) Immutable Mutable) this_entry) [Field 0 False ''x'' (Basic Intt) {}] 0)]"

theorem mutable_phase_is_safe_witness:
  "check_stmt action_checker (P_Activate [] increment_x) (action_scopes, 5) = Inr (S_Activate True [] incremented_x, action_scopes, 5) \<and>
   this_entry \<in> set (used_stmt incremented_x) \<and> (later 5 this_entry \<or> activation_safe counter_env 5 this_entry)"
proof -
  have c: "check_stmt action_checker (P_Activate [] increment_x) (action_scopes, 5) = Inr (S_Activate True [] incremented_x, action_scopes, 5)"
    by code_simp
  have e: "this_entry \<in> set (used_stmt incremented_x)" "\<not> changes increment_x"
    by (simp_all add: incremented_x_def increment_x_def)
  show ?thesis using c e mutable_phase_is_safe[OF c e(2,1)] by (simp add: action_checker_def)
qed

text \<open>
  A change statement inside the mutable phase brings a hidden pointer back when a variable of the body shadows its name: the symbol is entered
  because the name is no longer hidden.
\<close>

definition resurrecting :: pstmt where
  "resurrecting = P_List [P_Var [''q''] Mutable Mutable (Some (Basic Intt)) [],
     P_Change (P_Identifier ''h'') ''r'' (P_List [P_Expression (P_Dereference (P_Identifier ''q''))])]"

lemma change_resurrects_hidden_pointer:
  "map_sum id (\<lambda>(t, s). map number (used_stmt t))
     (check_stmt action_checker (P_Activate [] resurrecting)
       (open_scope (\<lparr>s_symbols = [Variable_Entry 4 ''h'' (Pointer (ty.Heap (Basic Intt))) Mutable Mutable], s_returns = None\<rparr> # action_scopes), 5)) =
   Inr [Some 4, Some 3]"
  by code_simp

end
