(* ===== verification/Typed.thy ===== *)
theory Typed
  imports Generate
begin

text \<open>
  What the checker establishes of a checked expression: a typing judgement on the checked syntax, which says how the
  evaluation of a node fits those of its parts.  Types are compared up to identity of what is underneath, because a
  conversion to an assignable type only overwrites the type in the node; a node of an untyped type that is no
  constant may be given any type, and is kept apart by what the code generator demands.
\<close>

section \<open>Types that are alike\<close>

definition alike :: "tenv \<Rightarrow> ty \<Rightarrow> ty \<Rightarrow> bool" where
  "alike env t u \<longleftrightarrow> canonical (underlying_type env t) = canonical (underlying_type env u)"

text \<open>An environment with the predeclared names the judgement refers to.\<close>

definition predeclares :: "tenv \<Rightarrow> bool" where
  "predeclares env \<longleftrightarrow> wf_tenv env \<and> env 0 = Basic Bool \<and> env 1 = Basic Uint8 \<and> env 13 = Basic Uint8 \<and> env 16 = Basic Intt"

lemma alike_refl [simp]: "alike env t t"
  by (simp add: alike_def)

lemma alike_sym: "alike env t u \<Longrightarrow> alike env u t"
  by (simp add: alike_def)

lemma alike_trans [trans]: "alike env s t \<Longrightarrow> alike env t u \<Longrightarrow> alike env s u"
  by (simp add: alike_def)

lemma alike_canonical: "predeclares env \<Longrightarrow> canonical t = canonical u \<Longrightarrow> alike env t u"
proof -
  assume p: "predeclares env" and c: "canonical t = canonical u"
  show ?thesis
  proof (cases "t = u \<or> \<not> (is_named t \<or> is_named u)")
    case True
    then show ?thesis using c by (auto simp: alike_def)
  next
    case False
    then have "byte_pair t u" using canonical_named[of t u] c by blast
    then show ?thesis using p by (auto simp: byte_pair_def named_defs alike_def predeclares_def)
  qed
qed

lemma alike_kind: "alike env t u \<Longrightarrow> underlying_kind env t = underlying_kind env u"
  by (metis alike_def kind_canonical underlying_kind_def)

lemma kind_pointer: "is_pointer env t \<longleftrightarrow> underlying_kind env t = Pointer_Kind"
  by (cases "underlying_type env t") (simp_all add: is_pointer_def underlying_kind_def)

lemma alike_pointer: "alike env t u \<Longrightarrow> is_pointer env t \<longleftrightarrow> is_pointer env u"
  by (simp add: kind_pointer alike_kind)

definition untyped_singletons :: "singleton set" where
  "untyped_singletons = {UntypedNil, UntypedBoolean, UntypedRune, UntypedInteger, UntypedFloat, UntypedComplex, UntypedString}"

lemma untyped_iff: "is_untyped t \<longleftrightarrow> t \<in> Basic ` untyped_singletons"
proof
  assume "is_untyped t"
  then have "kind_of t \<in> singleton_kind ` untyped_singletons"
    by (cases "kind_of t") (simp_all add: is_untyped_def untyped_singletons_def kind_order_eval)
  then show "t \<in> Basic ` untyped_singletons" by (auto simp: kind_of_eq)
qed (auto simp: untyped_singletons_def is_untyped_def kind_order_eval)

lemma untyped_Basic: "is_untyped t \<Longrightarrow> \<exists>k. t = Basic k"
  by (auto simp: untyped_iff)

lemma untyped_not_named: "is_untyped t \<Longrightarrow> \<not> is_named t"
  by (auto simp: untyped_iff)

lemma untyped_underlying_iff: "predeclares env \<Longrightarrow> is_untyped (underlying_type env t) \<longleftrightarrow> is_untyped t"
  by (cases t) (auto simp: predeclares_def wf_tenv_def unnamed_iff dest: untyped_not_named)

lemma alike_untyped:
  assumes "predeclares env" "alike env t u"
  shows "is_untyped t \<longleftrightarrow> is_untyped u"
  using alike_kind[OF assms(2)] untyped_underlying_iff[OF assms(1)]
  by (metis is_untyped_def underlying_kind_def)

lemma untyped_kinds:
  assumes "is_untyped t"
  shows "underlying_kind env t = kind_of t" "kind_of t \<in> singleton_kind ` untyped_singletons"
  using assms by (auto simp: untyped_iff underlying_kind_def)

lemma untyped_not:
  assumes "is_untyped t"
  shows "\<not> is_pointer env t" "underlying_kind env t \<noteq> Slice_Kind" "underlying_kind env t \<noteq> Bool_Kind"
    "underlying_kind env t \<noteq> String_Kind"
  using untyped_kinds(1)[OF assms, of env] untyped_kinds(2)[OF assms] by (auto simp: kind_pointer untyped_singletons_def)

lemma untyped_before_typed:
  assumes "is_untyped t" "\<not> is_untyped u"
  shows "kind_of t < kind_of u"
proof -
  have "Untyped_Nil_Kind \<le> kind_of u" by (cases "kind_of u") (simp_all add: kind_order_eval)
  then show ?thesis using assms by (auto simp: is_untyped_def intro: order.strict_trans1)
qed

lemma default_type_cases: "default_type t = t \<or> is_untyped t"
  by (cases t rule: default_type.cases) (auto simp: untyped_iff untyped_singletons_def split: singleton.splits)

section \<open>The judgement\<close>

definition has_type :: "ev \<Rightarrow> (ty \<Rightarrow> bool) \<Rightarrow> bool" where
  "has_type v p \<longleftrightarrow> (case e_type v of None \<Rightarrow> False | Some t \<Rightarrow> p t)"

lemma has_type_iff: "has_type v p \<longleftrightarrow> (\<exists>t. e_type v = Some t \<and> p t)"
  by (simp add: has_type_def split: option.splits)

definition operand_ev :: "ev \<Rightarrow> bool" where
  "operand_ev v \<longleftrightarrow> is_value_or_variable v \<and> e_type v \<noteq> None"

abbreviation known :: "ev \<Rightarrow> bool" where
  "known v \<equiv> v_present (e_value v)"

text \<open>A result of the type of a part, unless that part is untyped.\<close>

definition follows :: "tenv \<Rightarrow> ty \<Rightarrow> ty \<Rightarrow> bool" where
  "follows env t u \<longleftrightarrow> alike env t u \<or> is_untyped u"

fun signature :: "ty \<Rightarrow> (parameter_list \<times> parameter_list) option" where
  "signature (FunctionBase c i ps rs) = Some (ps, rs)"
| "signature (MethodBase c i n r ps rs) = Some (ps, rs)"
| "signature _ = None"

definition index_ev :: "tenv \<Rightarrow> ev \<Rightarrow> bool" where
  "index_ev env v \<longleftrightarrow> is_value_or_variable v \<and> has_type v (is_typed_integer env)"

definition identifier_ok :: "ev \<Rightarrow> entry \<Rightarrow> bool" where
  "identifier_ok v s \<longleftrightarrow>
     (case s of
        Parameter_Entry i p \<Rightarrow> e_kind v = VariableExpressionKind \<and> \<not> known v
      | Variable_Entry i n t im dm \<Rightarrow> e_kind v = VariableExpressionKind \<and> \<not> known v
      | Type_Entry n t \<Rightarrow> e_kind v = TypeExpressionKind \<and> \<not> known v
      | _ \<Rightarrow> e_kind v = ValueExpressionKind)"

definition indexed_ok :: "tenv \<Rightarrow> ev \<Rightarrow> ev \<Rightarrow> ty \<Rightarrow> bool" where
  "indexed_ok env v b t \<longleftrightarrow>
     is_value_or_variable v \<and> \<not> known v \<and> is_value_or_variable b \<and> has_type b (\<lambda>u. underlying_type env u = t) \<and>
     (case t of
        Array e d \<Rightarrow> e_kind v = ValueExpressionKind \<longrightarrow> e_kind b = ValueExpressionKind
      | Slice e \<Rightarrow> e_kind v = VariableExpressionKind
      | _ \<Rightarrow> False)"

definition sliced_ok :: "tenv \<Rightarrow> ev \<Rightarrow> ev \<Rightarrow> ty \<Rightarrow> bool" where
  "sliced_ok env v b t \<longleftrightarrow>
     e_kind v = ValueExpressionKind \<and> \<not> known v \<and> has_type v (\<lambda>u. underlying_kind env u = Slice_Kind) \<and>
     is_value_or_variable b \<and> has_type b (\<lambda>u. underlying_type env u = t)"

definition builtin_ok :: "tenv \<Rightarrow> ev \<Rightarrow> builtin \<Rightarrow> ev list \<Rightarrow> bool" where
  "builtin_ok env v f vs \<longleftrightarrow> \<not> known v \<and>
     (case f of
        New \<Rightarrow> e_kind v = ValueExpressionKind \<and> has_type v (is_pointer env)
      | Len \<Rightarrow> e_kind v = ValueExpressionKind \<and> has_type v (\<lambda>t. alike env t named_int) \<and>
          (case vs of [a] \<Rightarrow> is_value_or_variable a \<and> has_type a (\<lambda>t. underlying_kind env t = Slice_Kind) | _ \<Rightarrow> False)
      | Append \<Rightarrow> e_kind v = ValueExpressionKind \<and> has_type v (\<lambda>t. underlying_kind env t = Slice_Kind) \<and>
          (case vs of
             [s, x] \<Rightarrow> is_value_or_variable s \<and> is_value_or_variable x \<and>
               has_type s (\<lambda>t. case to_slice (underlying_type env t) of
                 None \<Rightarrow> False | Some b \<Rightarrow> has_type x (\<lambda>u. canonical b = canonical u))
           | _ \<Rightarrow> False)
      | Copy \<Rightarrow> e_kind v = ValueExpressionKind \<and>
          (case vs of
             [a] \<Rightarrow> is_value_or_variable a \<and>
               has_type a (\<lambda>u. underlying_kind env u \<in> {Slice_Kind, String_Kind} \<and> has_type v (\<lambda>t. alike env t u))
           | _ \<Rightarrow> False)
      | Println \<Rightarrow> e_kind v = VoidExpressionKind
      | _ \<Rightarrow> e_kind v = ValueExpressionKind)"

definition arguments_ok :: "ev list \<Rightarrow> parameter list \<Rightarrow> bool" where
  "arguments_ok vs ps \<longleftrightarrow> list_all2 (\<lambda>v p. is_value_or_variable v \<and> e_type v = Some (ptype p)) vs ps"

definition call_ok :: "tenv \<Rightarrow> ev \<Rightarrow> ev \<Rightarrow> ev list \<Rightarrow> bool" where
  "call_ok env v f vs \<longleftrightarrow> \<not> known v \<and>
     has_type f (\<lambda>t. case signature t of
         None \<Rightarrow> False
       | Some (ps, rs) \<Rightarrow> arguments_ok vs (parameters ps) \<and>
           (case parameters rs of
              [] \<Rightarrow> e_kind v = VoidExpressionKind
            | [p] \<Rightarrow> e_kind v = ValueExpressionKind \<and> has_type v (\<lambda>t. follows env t (ptype p))
            | _ \<Rightarrow> False))"

definition unary_ok :: "tenv \<Rightarrow> ev \<Rightarrow> ev \<Rightarrow> bool" where
  "unary_ok env v e \<longleftrightarrow> e_kind v = ValueExpressionKind \<and> is_value_or_variable e \<and>
     has_type e (\<lambda>u. known v \<or> has_type v (\<lambda>t. follows env t u))"

definition binary_ok :: "tenv \<Rightarrow> ev \<Rightarrow> binary_operator \<Rightarrow> ev \<Rightarrow> ev \<Rightarrow> bool" where
  "binary_ok env v f l r \<longleftrightarrow>
     e_kind v = ValueExpressionKind \<and> is_value_or_variable l \<and> is_value_or_variable r \<and>
     has_type l (\<lambda>s. has_type r (\<lambda>u. known v \<or>
       (case f of
          Computed g \<Rightarrow> s = u \<and>
            (if is_comparison g then has_type v (\<lambda>t. underlying_kind env t = Bool_Kind)
             else has_type v (\<lambda>t. follows env t s))
        | Shifted up \<Rightarrow> has_type v (\<lambda>t. follows env t s)
        | Logic stop \<Rightarrow> s = u \<and> has_type v (\<lambda>t. underlying_kind env t = Bool_Kind) \<and>
            underlying_kind env s \<in> {Bool_Kind, Untyped_Boolean_Kind})))"

fun wt :: "tenv \<Rightarrow> texp \<Rightarrow> bool" where
  "wt env T_Error \<longleftrightarrow> True"
| "wt env (T_Literal v) \<longleftrightarrow> e_kind v = ValueExpressionKind \<and> known v"
| "wt env (T_Identifier v s) \<longleftrightarrow> identifier_ok v s"
| "wt env (T_Type v) \<longleftrightarrow> e_kind v = TypeExpressionKind"
| "wt env (T_Address_Of v e) \<longleftrightarrow>
     wt env e \<and> e_kind (ev_of e) = VariableExpressionKind \<and> e_kind v = ValueExpressionKind \<and> \<not> known v \<and>
     has_type v (is_pointer env)"
| "wt env (T_Dereference v e) \<longleftrightarrow>
     wt env e \<and> is_value_or_variable (ev_of e) \<and> has_type (ev_of e) (is_pointer env) \<and>
     e_kind v = VariableExpressionKind \<and> \<not> known v"
| "wt env (T_Field v e fs k) \<longleftrightarrow>
     wt env e \<and> is_value_or_variable (ev_of e) \<and> is_value_or_variable v \<and> \<not> known v \<and>
     (e_kind v = ValueExpressionKind \<longrightarrow> e_kind (ev_of e) = ValueExpressionKind)"
| "wt env (T_Method v e c) \<longleftrightarrow>
     wt env e \<and> is_value_or_variable (ev_of e) \<and> is_value_or_variable v \<and> \<not> known v \<and>
     has_type v (\<lambda>t. follows env t (snd c))"
| "wt env (T_Index v b i t) \<longleftrightarrow>
     wt env b \<and> wt env i \<and> index_ev env (ev_of i) \<and> indexed_ok env v (ev_of b) t"
| "wt env (T_Index_Slice v b lo hi mx t) \<longleftrightarrow>
     wt env b \<and> pred_option (\<lambda>e. wt env e \<and> index_ev env (ev_of e)) lo \<and>
     pred_option (\<lambda>e. wt env e \<and> index_ev env (ev_of e)) hi \<and>
     pred_option (\<lambda>e. wt env e \<and> index_ev env (ev_of e)) mx \<and> sliced_ok env v (ev_of b) t"
| "wt env (T_Conversion v e) \<longleftrightarrow>
     wt env e \<and> operand_ev (ev_of e) \<and> e_kind v = ValueExpressionKind \<and> \<not> known v"
| "wt env (T_Builtin v f es) \<longleftrightarrow> list_all (wt env) es \<and> builtin_ok env v f (map ev_of es)"
| "wt env (T_Call v f es) \<longleftrightarrow> wt env f \<and> list_all (wt env) es \<and> call_ok env v (ev_of f) (map ev_of es)"
| "wt env (T_Unary v f e) \<longleftrightarrow> wt env e \<and> unary_ok env v (ev_of e)"
| "wt env (T_Binary v f l r) \<longleftrightarrow> wt env l \<and> wt env r \<and> binary_ok env v f (ev_of l) (ev_of r)"
| "wt env (T_Push_Port_Call v fs k ps es) \<longleftrightarrow>
     list_all (wt env) es \<and> e_kind v = VoidExpressionKind \<and> arguments_ok (map ev_of es) (parameters ps)"
| "wt env (T_Indexed_Push_Port_Call v fs k ps t i es) \<longleftrightarrow>
     list_all (wt env) es \<and> e_kind v = VoidExpressionKind \<and> arguments_ok (map ev_of es) (parameters ps) \<and>
     wt env i \<and> index_ev env (ev_of i)"

lemmas judgement_defs =
  has_type_iff operand_ev_def index_ev_def identifier_ok_def indexed_ok_def sliced_ok_def builtin_ok_def call_ok_def
  unary_ok_def binary_ok_def is_value_or_variable_def

section \<open>Conversions overwrite the type\<close>

definition retyped :: "ev \<Rightarrow> ty \<Rightarrow> ev \<Rightarrow> bool" where
  "retyped v t v' \<longleftrightarrow>
     e_kind v' = e_kind v \<and> e_type v' = Some t \<and> (known v' \<longleftrightarrow> known v)"

lemma follows_trans:
  assumes "predeclares env" "follows env t u" "follows env t' t"
  shows "follows env t' u"
  using assms alike_untyped[of env t u] by (auto simp: follows_def alike_def)

lemma follows_kind: "follows env t u \<Longrightarrow> \<not> is_untyped u \<Longrightarrow> underlying_kind env t = underlying_kind env u"
  by (simp add: follows_def alike_kind)

lemma ev_of_set_ev: "e \<noteq> T_Error \<Longrightarrow> ev_of (set_ev v e) = v"
  by (cases e) simp_all

text \<open>A node whose new type follows the old one keeps its place in the judgement.\<close>

definition retypes :: "tenv \<Rightarrow> ev \<Rightarrow> ev \<Rightarrow> bool" where
  "retypes env v v' \<longleftrightarrow> (\<exists>t t'. e_type v = Some t \<and> follows env t' t \<and> retyped v t' v')"

named_theorems retyping \<open>conditions of the judgement that a conversion keeps\<close>

lemma retypes_kind [retyping]:
  assumes "retypes env v v'"
  shows "e_kind v' = e_kind v" "known v' = known v" "is_value_or_variable v' = is_value_or_variable v"
    "indexed_ok env v' b t = indexed_ok env v b t" "identifier_ok v' s = identifier_ok v s"
proof -
  show k: "e_kind v' = e_kind v" "known v' = known v" using assms by (auto simp: retypes_def retyped_def)
  show "is_value_or_variable v' = is_value_or_variable v" "indexed_ok env v' b t = indexed_ok env v b t"
    "identifier_ok v' s = identifier_ok v s"
    by (simp_all only: k is_value_or_variable_def indexed_ok_def identifier_ok_def)
qed

lemma retypes_follows:
  assumes "predeclares env" "retypes env v v'" "has_type v (\<lambda>t. follows env t u)"
  shows "has_type v' (\<lambda>t. follows env t u)"
  using assms follows_trans by (auto simp: retypes_def retyped_def has_type_iff)

lemma retypes_alike:
  assumes "predeclares env" "retypes env v v'" "has_type v (\<lambda>t. alike env t u)" "\<not> is_untyped u"
  shows "has_type v' (\<lambda>t. alike env t u)"
proof -
  have "has_type v (\<lambda>t. follows env t u)" using assms(3) by (auto simp: has_type_iff follows_def)
  from retypes_follows[OF assms(1,2) this] show ?thesis using assms(4) by (auto simp: has_type_iff follows_def)
qed

lemma retypes_underlying:
  assumes "predeclares env" "retypes env v v'" "has_type v (\<lambda>t. underlying_kind env t = k)"
    "k \<notin> singleton_kind ` untyped_singletons"
  shows "has_type v' (\<lambda>t. underlying_kind env t = k)"
proof -
  obtain t t' where r: "e_type v = Some t" "follows env t' t" "e_type v' = Some t'" "underlying_kind env t = k"
    using assms(2,3) by (auto simp: retypes_def retyped_def has_type_iff)
  then have "\<not> is_untyped t" using assms(4) untyped_kinds(1)[of t env] untyped_kinds(2)[of t] by auto
  then show ?thesis using r follows_kind by (auto simp: has_type_iff)
qed

lemma plain_kinds:
  "Pointer_Kind \<notin> singleton_kind ` untyped_singletons" "Slice_Kind \<notin> singleton_kind ` untyped_singletons"
  "Bool_Kind \<notin> singleton_kind ` untyped_singletons" "String_Kind \<notin> singleton_kind ` untyped_singletons"
  by (auto simp: untyped_singletons_def)

lemma retypes_pointer:
  assumes "predeclares env" "retypes env v v'" "has_type v (is_pointer env)"
  shows "has_type v' (is_pointer env)"
  using retypes_underlying[OF assms(1,2) _ plain_kinds(1)] assms(3) by (simp add: kind_pointer [abs_def])

lemma typed_named_int: "\<not> is_untyped named_int"
  by (auto simp: untyped_iff named_int_def)

lemma retypes_builtin [retyping]:
  assumes p: "predeclares env" and r: "retypes env v v'" and b: "builtin_ok env v f vs"
  shows "builtin_ok env v' f vs"
proof -
  note k = retypes_kind[OF r]
  show ?thesis
  proof (cases f)
    case Copy
    have "has_type a (\<lambda>u. underlying_kind env u \<in> {Slice_Kind, String_Kind} \<and> has_type v' (\<lambda>t. alike env t u))"
      if h: "has_type a (\<lambda>u. underlying_kind env u \<in> {Slice_Kind, String_Kind} \<and> has_type v (\<lambda>t. alike env t u))" for a
    proof -
      obtain u where u: "e_type a = Some u" "underlying_kind env u \<in> {Slice_Kind, String_Kind}" "has_type v (\<lambda>t. alike env t u)"
        using h unfolding has_type_iff [of a] by blast
      then have "\<not> is_untyped u" using untyped_not(2,4)[of u env] by blast
      then show ?thesis using u retypes_alike[OF p r u(3)] unfolding has_type_iff [of a] by blast
    qed
    then show ?thesis using b Copy k by (auto simp: builtin_ok_def split: list.splits)
  qed (use b k retypes_pointer[OF p r] retypes_underlying[OF p r _ plain_kinds(2)] retypes_alike[OF p r _ typed_named_int] in
      \<open>auto simp: builtin_ok_def split: list.splits\<close>)
qed

lemma retypes_sliced [retyping]:
  assumes p: "predeclares env" and r: "retypes env v v'" and b: "sliced_ok env v b t"
  shows "sliced_ok env v' b t"
  using b retypes_kind[OF r] retypes_underlying[OF p r _ plain_kinds(2)] by (auto simp: sliced_ok_def)

lemma retypes_call [retyping]:
  assumes p: "predeclares env" and r: "retypes env v v'" and b: "call_ok env v f vs"
  shows "call_ok env v' f vs"
  using b retypes_kind[OF r] retypes_follows[OF p r]
  by (fastforce simp: call_ok_def has_type_def split: option.splits list.splits)

lemma retypes_unary [retyping]:
  assumes p: "predeclares env" and r: "retypes env v v'" and b: "unary_ok env v e"
  shows "unary_ok env v' e"
  using b retypes_kind[OF r] retypes_follows[OF p r]
  by (auto simp: unary_ok_def has_type_def [of e] split: option.splits)

lemma retypes_binary [retyping]:
  assumes p: "predeclares env" and r: "retypes env v v'" and b: "binary_ok env v f x y"
  shows "binary_ok env v' f x y"
  using b retypes_kind[OF r] retypes_follows[OF p r] retypes_underlying[OF p r _ plain_kinds(3)]
  by (auto simp: binary_ok_def has_type_def [of x] has_type_def [of y] split: option.splits binary_operator.splits)

lemma retypes_wt:
  assumes p: "predeclares env" and w: "wt env e" and r: "retypes env (ev_of e) v"
  shows "wt env (set_ev v e)"
  using w r retypes_kind[OF r] retypes_pointer[OF p r] retypes_follows[OF p r]
    retypes_builtin[OF p r] retypes_sliced[OF p r] retypes_call[OF p r] retypes_unary[OF p r] retypes_binary[OF p r]
  by (cases e) simp_all

end
