(* ===== verification/Soundness.thy ===== *)
theory Soundness
  imports Typed
begin

text \<open>
  The checker establishes the judgement: the tree of every expression it accepts is well typed.
\<close>

section \<open>Conversions\<close>

lemma put_known [simp]: "v_present (put_scalar t i x)" "v_present (put_member bs x)"
  by (simp_all add: put_scalar_def put_member_def)

lemma convert_numeric_known: "convert_numeric F w t x = Inr y \<Longrightarrow> v_present x \<Longrightarrow> v_present y"
  unfolding convert_numeric_def
  by (auto simp: outcome_simps split: if_splits ty.splits option.splits scalar.splits wide.splits)

lemma convert_value_known:
  assumes "convert_value F env from to x = Inr y"
  shows "v_present y = v_present x"
proof -
  have x: "v_present x" using assms by (auto simp: convert_value_def split: if_splits)
  obtain k where "underlying_type env from = Basic k"
    using assms x by (cases "underlying_type env from") (auto simp: convert_value_def)
  then have "v_present y"
    using assms x convert_numeric_known
    by (cases k) (auto simp: convert_value_def split: option.splits ty.splits if_splits)
  then show ?thesis using x by simp
qed

lemma convert_ev_retyped:
  assumes "convert_ev K t v = Inr v'" "e_type v \<noteq> None"
  shows "retyped v t v'"
  using assms convert_value_known
  by (auto simp: convert_ev_def retyped_def outcome_simps the_type_def split: if_splits option.splits)

lemma the_type_iff: "the_type v = Inr t \<longleftrightarrow> e_type v = Some t"
  by (simp add: the_type_def split: option.splits)

lemma assignable_follows:
  assumes p: "predeclares (k_env K)" and a: "are_assignable K from x to = Inr True"
  shows "follows (k_env K) to from"
proof -
  consider "are_identical from to = Inr True"
    | "are_identical (underlying_type (k_env K) from) (underlying_type (k_env K) to) = Inr True"
    | "kind_of from = Untyped_Nil_Kind" | "is_untyped from"
    using a by (auto simp: are_assignable_def outcome_simps split: if_splits)
  then show ?thesis
  proof cases
    case 1
    then show ?thesis using alike_canonical[OF p] by (simp add: are_identical_canonical_aux(1) follows_def alike_sym)
  next
    case 2
    then show ?thesis by (simp add: are_identical_canonical_aux(1) follows_def alike_def)
  next
    case 3
    then have "from = Basic UntypedNil" using kind_of_eq(1)[of "from" UntypedNil] by simp
    then show ?thesis by (auto simp: follows_def untyped_iff untyped_singletons_def)
  qed (simp add: follows_def)
qed

lemma default_follows: "follows env (default_type t) t"
  using default_type_cases[of t] by (auto simp: follows_def)

text \<open>A conversion of an expression keeps it well typed and gives it the type.\<close>

definition turned :: "tenv \<Rightarrow> ty \<Rightarrow> texp \<Rightarrow> texp \<Rightarrow> bool" where
  "turned env t e e' \<longleftrightarrow> wt env e' \<and> retyped (ev_of e) t (ev_of e')"

lemma convert_exp_turned:
  assumes p: "predeclares (k_env K)" and w: "wt (k_env K) e" and t: "e_type (ev_of e) = Some from"
    and f: "follows (k_env K) to from" and c: "convert_exp K to e = Inr e'"
  shows "turned (k_env K) to e e'"
proof -
  obtain v where v: "convert_ev K to (ev_of e) = Inr v" "e' = set_ev v e" using c by (auto simp: convert_exp_def outcome_simps)
  have r: "retyped (ev_of e) to v" using convert_ev_retyped[OF v(1)] t by simp
  then have "retypes (k_env K) (ev_of e) v" using t f by (auto simp: retypes_def)
  moreover have "e \<noteq> T_Error" using t by (auto simp: error_ev_def blank_def)
  ultimately show ?thesis using retypes_wt[OF p w] r v(2) by (simp add: turned_def ev_of_set_ev)
qed

lemma set_ev_turned:
  assumes p: "predeclares env" and w: "wt env e" and t: "e_type (ev_of e) = Some from"
    and f: "follows env to from" and r: "retyped (ev_of e) to v"
  shows "turned env to e (set_ev v e)"
proof -
  have "retypes env (ev_of e) v" using t f r by (auto simp: retypes_def)
  moreover have "e \<noteq> T_Error" using t by (auto simp: error_ev_def blank_def)
  ultimately show ?thesis using retypes_wt[OF p w] r by (simp add: turned_def ev_of_set_ev)
qed

section \<open>The checks of the operators\<close>

text \<open>Evaluations the checks build.\<close>

lemma built_ev [simp]:
  "e_kind (value_ev t m) = ValueExpressionKind" "e_type (value_ev t m) = Some t" "\<not> known (value_ev t m)"
  "e_kind void_ev = VoidExpressionKind" "\<not> known void_ev" "e_kind error_ev = ErrorExpressionKind"
  "e_kind port_ev = VoidExpressionKind" "\<not> v_present no_value"
  by (simp_all add: value_ev_def void_ev_def error_ev_def blank_def no_value_def port_ev_def)

lemma part_ev_built:
  assumes "part_ev K t k im dm = Inr v"
  shows "e_kind v = k \<and> e_type v = Some t \<and> \<not> known v"
  using assms by (auto simp: part_ev_def fix_string_indirection_def outcome_simps no_value_def split: if_splits)

lemma required:
  "require_value_or_variable v = Inr u \<Longrightarrow> is_value_or_variable v"
  "require_variable v = Inr u \<Longrightarrow> e_kind v = VariableExpressionKind"
  by (auto simp: require_value_or_variable_def require_variable_def split: if_splits)

lemma check_unary_ok:
  assumes "check_unary K f v = Inr r" "e_kind r \<noteq> ErrorExpressionKind"
  shows "unary_ok (k_env K) r v"
  using assms
  by (auto simp: check_unary_def unary_ok_def has_type_iff the_type_iff follows_def outcome_simps Let_def split: if_splits)

lemma fold_known: "fold_binary F env f t v x y = Inr z \<Longrightarrow> v_present z"
  by (auto simp: fold_binary_def outcome_simps split: if_splits ty.splits)

lemma apply_binary_ok:
  assumes a: "apply_binary K f u l r = Inr (v, l', r')" and o: "is_value_or_variable l" "is_value_or_variable r"
    and t: "e_type l = Some u" "e_type r = Some u" and s: "\<not> (\<exists>up. f = Shifted up)"
    and b: "\<And>stop. f = Logic stop \<Longrightarrow> underlying_kind (k_env K) u \<in> {Bool_Kind, Untyped_Boolean_Kind}"
  shows "binary_ok (k_env K) v f l' r' \<and> l' = l \<and> r' = r"
proof -
  obtain x where x: "compute K f u l r = Inr x" "v = (value_ev (output_pick f u l r) Immutable)\<lparr>e_value := x\<rparr>" "l' = l" "r' = r"
    using a by (auto simp: apply_binary_def outcome_simps)
  have out: "output_pick f u l r = (if (case f of Computed g \<Rightarrow> is_comparison g | _ \<Rightarrow> True) then Basic Bool else u)"
    if "\<not> known v"
    using that x(1,2) fold_known s
    by (auto simp: output_pick_def compute_def fold_logic_def split: binary_operator.splits if_splits)
  show ?thesis
  proof (cases "v_present x")
    case True
    then show ?thesis using x(2-) o t by (simp add: binary_ok_def has_type_iff)
  next
    case False
    have k: "underlying_kind (k_env K) (Basic Bool) = Bool_Kind" by simp
    show ?thesis
      using x(2-) o t s b out False
      by (cases f) (auto simp: binary_ok_def has_type_iff follows_def simp del: underlying_kind_Basic simp: k)
  qed
qed

text \<open>An operand as it is or with its type overwritten.\<close>

definition kept :: "tenv \<Rightarrow> ev \<Rightarrow> ev \<Rightarrow> bool" where
  "kept env v v' \<longleftrightarrow> v' = v \<or> retypes env v v'"

lemma kept_refl [simp]: "kept env v v"
  by (simp add: kept_def)

lemma kept_operand: "kept env v v' \<Longrightarrow> is_value_or_variable v' = is_value_or_variable v"
  using retypes_kind by (auto simp: kept_def)

lemma kept_wt:
  assumes "predeclares env" "wt env e" "kept env (ev_of e) v" "e \<noteq> T_Error"
  shows "wt env (set_ev v e)" "ev_of (set_ev v e) = v"
proof -
  have "set_ev (ev_of e) e = e" by (cases e) simp_all
  then show "wt env (set_ev v e)" using assms retypes_wt by (auto simp: kept_def)
  show "ev_of (set_ev v e) = v" using assms(4) by (rule ev_of_set_ev)
qed

lemma convert_kept:
  assumes "convert_ev K u v = Inr v'" "e_type v = Some t" "follows (k_env K) u t"
  shows "kept (k_env K) v v'" "e_type v' = Some u"
proof -
  have "retyped v u v'" using convert_ev_retyped[OF assms(1)] assms(2) by simp
  then show "kept (k_env K) v v'" "e_type v' = Some u"
    using assms(2,3) by (auto simp: kept_def retypes_def retyped_def)
qed

lemma follows_choose:
  assumes p: "predeclares env" and n: "\<not> (is_untyped s \<and> is_untyped t)" and f: "follows env t s \<or> follows env s t"
  shows "follows env (choose_type s t) s" "follows env (choose_type s t) t"
proof -
  have "alike env s t \<or> is_untyped s \<or> is_untyped t" using f by (auto simp: follows_def alike_def)
  then show "follows env (choose_type s t) s" "follows env (choose_type s t) t"
    using n untyped_before_typed[of s t] untyped_before_typed[of t s]
    by (auto simp: follows_def choose_type_def alike_def split: if_splits)
qed

lemma input_pick_logic: "input_pick env (Logic stop) u w \<noteq> None \<Longrightarrow> underlying_kind env u \<in> {Bool_Kind, Untyped_Boolean_Kind}"
  by (auto simp: input_pick_def Logical_pick_def split: if_splits)

lemma Logical_pick_kind:
  "Logical_pick env s t = Some u \<Longrightarrow> underlying_kind env u \<in> {Bool_Kind, Untyped_Boolean_Kind}"
  by (auto simp: Logical_pick_def choose_type_def split: if_splits)

lemma check_arithmetic_ok:
  assumes p: "predeclares (k_env K)" and c: "check_arithmetic K f l r = Inr (v, l', r')"
    and e: "e_kind v \<noteq> ErrorExpressionKind" and o: "is_value_or_variable l" "is_value_or_variable r"
    and s: "\<not> (\<exists>up. f = Shifted up)"
  shows "binary_ok (k_env K) v f l' r' \<and> kept (k_env K) l l' \<and> kept (k_env K) r r'"
proof -
  obtain tl tr where t: "e_type l = Some tl" "e_type r = Some tr"
    using c by (auto simp: check_arithmetic_def the_type_iff outcome_simps)
  have "\<exists>u l1 r1. convert_ev K u l = Inr l1 \<and> convert_ev K u r = Inr r1 \<and> apply_binary K f u l1 r1 = Inr (v, l', r') \<and>
      follows (k_env K) u tl \<and> follows (k_env K) u tr \<and>
      (\<forall>stop. f = Logic stop \<longrightarrow> underlying_kind (k_env K) u \<in> {Bool_Kind, Untyped_Boolean_Kind})"
  proof (cases "is_untyped tl \<and> is_untyped tr")
    case True
    then obtain u l1 r1 where "input_pick (k_env K) f tl tr = Some u" "convert_ev K u l = Inr l1" "convert_ev K u r = Inr r1"
      "apply_binary K f u l1 r1 = Inr (v, l', r')"
      using c t e by (auto simp: check_arithmetic_def the_type_def outcome_simps split: option.splits)
    note x = this
    have "\<forall>stop. f = Logic stop \<longrightarrow> underlying_kind (k_env K) u \<in> {Bool_Kind, Untyped_Boolean_Kind}"
      using x(1) Logical_pick_kind[of "k_env K" tl tr u] by (simp add: input_pick_def split: binary_operator.splits)
    then show ?thesis
      using x(2-4) True by (intro exI[of _ u] exI[of _ l1] exI[of _ r1]) (simp add: follows_def)
  next
    case False
    define u where "u = choose_type tl tr"
    obtain a b where a: "are_assignable K tl (e_value l) tr = Inr a"
      "(if a then Inr True else are_assignable K tr (e_value r) tl) = Inr b"
      "(if \<not> b then Inr (error_ev, l, r)
        else obind (convert_ev K u l) (\<lambda>l. obind (convert_ev K u r) (\<lambda>r.
          if input_pick (k_env K) f u u = None then Inr (error_ev, l, r) else apply_binary K f u l r))) = Inr (v, l', r')"
      using c t False unfolding check_arithmetic_def Let_def u_def by (auto simp: the_type_def outcome_simps)
    have b: b using a(3) e by (auto split: if_splits)
    obtain l1 r1 where c1: "convert_ev K u l = Inr l1" "convert_ev K u r = Inr r1" "input_pick (k_env K) f u u \<noteq> None"
      "apply_binary K f u l1 r1 = Inr (v, l', r')"
      using a(3) b e by (auto simp: outcome_simps split: if_splits)
    have "follows (k_env K) tr tl \<or> follows (k_env K) tl tr"
      using a(1,2) b assignable_follows[OF p] by (auto split: if_splits)
    then have "follows (k_env K) u tl" "follows (k_env K) u tr" using follows_choose[OF p False] by (auto simp: u_def)
    moreover have "\<forall>stop. f = Logic stop \<longrightarrow> underlying_kind (k_env K) u \<in> {Bool_Kind, Untyped_Boolean_Kind}"
      using c1(3) input_pick_logic[of "k_env K" _ u u] by auto
    ultimately show ?thesis using c1(1,2,4) by blast
  qed
  then obtain u l1 r1 where u: "convert_ev K u l = Inr l1" "convert_ev K u r = Inr r1" "apply_binary K f u l1 r1 = Inr (v, l', r')"
    "follows (k_env K) u tl" "follows (k_env K) u tr"
    "\<And>stop. f = Logic stop \<Longrightarrow> underlying_kind (k_env K) u \<in> {Bool_Kind, Untyped_Boolean_Kind}"
    by blast
  note k = convert_kept[OF u(1) t(1) u(4)] convert_kept[OF u(2) t(2) u(5)]
  show ?thesis
    using apply_binary_ok[OF u(3) _ _ k(2,4) s u(6)] k(1,3) o kept_operand by auto
qed

lemma representable_untyped: "representable F env from to x = Inr b \<Longrightarrow> is_untyped from"
  by (auto simp: representable_def split: if_splits)

lemma check_shift_ok:
  assumes c: "check_shift K up l r = Inr (v, l', r')"
    and e: "e_kind v \<noteq> ErrorExpressionKind" and o: "is_value_or_variable l" "is_value_or_variable r"
  shows "binary_ok (k_env K) v (Shifted up) l' r' \<and> kept (k_env K) l l' \<and> kept (k_env K) r r'"
proof -
  obtain s t where t: "e_type l = Some s" "e_type r = Some t"
    using c by (auto simp: check_shift_def the_type_iff outcome_simps)
  have "obind (if known r then
        obind (representable (k_folding K) (k_env K) t (Basic Uint) (e_value r)) (\<lambda>ok.
          if ok then
            obind (convert_value (k_folding K) (k_env K) t (Basic Uint) (e_value r))
              (\<lambda>x. Inr (Some (r\<lparr>e_value := x, e_type := Some (Basic Uint)\<rparr>)))
          else Inr None)
      else Inr (Some r)) (\<lambda>q. case q of
        None \<Rightarrow> Inr (error_ev, l, r)
      | Some r' \<Rightarrow>
          if \<not> is_integral (k_env K) s then Inr (error_ev, l, r')
          else
            obind (if known l \<and> known r'
                   then fold_shift (k_env K) up s no_value (e_value l) (e_value r') else Inr no_value)
              (\<lambda>x. Inr ((value_ev s Immutable)\<lparr>e_value := x\<rparr>, l, r'))) = Inr (v, l', r')"
    using c e t by (auto simp: check_shift_def the_type_def split: if_splits)
  then obtain q where q: "(if known r then
        obind (representable (k_folding K) (k_env K) t (Basic Uint) (e_value r)) (\<lambda>ok.
          if ok then
            obind (convert_value (k_folding K) (k_env K) t (Basic Uint) (e_value r))
              (\<lambda>x. Inr (Some (r\<lparr>e_value := x, e_type := Some (Basic Uint)\<rparr>)))
          else Inr None)
      else Inr (Some r)) = Inr q"
    "(case q of
        None \<Rightarrow> Inr (error_ev, l, r)
      | Some r' \<Rightarrow>
          if \<not> is_integral (k_env K) s then Inr (error_ev, l, r')
          else
            obind (if known l \<and> known r'
                   then fold_shift (k_env K) up s no_value (e_value l) (e_value r') else Inr no_value)
              (\<lambda>x. Inr ((value_ev s Immutable)\<lparr>e_value := x\<rparr>, l, r'))) = Inr (v, l', r')"
    unfolding obind_eq_Inr by blast
  obtain x where x: "q = Some r'" "l' = l" "v = (value_ev s Immutable)\<lparr>e_value := x\<rparr>"
    using q(2) e by (auto simp: outcome_simps split: option.splits if_splits)
  have "kept (k_env K) r r' \<and> e_type r' \<noteq> None"
  proof (cases "known r")
    case True
    then obtain y where "is_untyped t" "convert_value (k_folding K) (k_env K) t (Basic Uint) (e_value r) = Inr y"
      "r' = r\<lparr>e_value := y, e_type := Some (Basic Uint)\<rparr>"
      using q(1) x(1) by (auto simp: outcome_simps dest: representable_untyped split: if_splits)
    then show ?thesis using t True convert_value_known by (auto simp: kept_def retypes_def retyped_def follows_def)
  next
    case False
    then show ?thesis using q(1) x(1) t by auto
  qed
  then show ?thesis using o t x kept_operand by (auto simp: binary_ok_def has_type_iff follows_def)
qed

lemma check_binary_ok:
  assumes p: "predeclares (k_env K)" and c: "check_binary K f l r = Inr (v, l', r')" and e: "e_kind v \<noteq> ErrorExpressionKind"
  shows "binary_ok (k_env K) v f l' r' \<and> kept (k_env K) l l' \<and> kept (k_env K) r r'"
proof -
  have o: "is_value_or_variable l" "is_value_or_variable r"
    using c e by (auto simp: check_binary_def split: if_splits)
  then show ?thesis
    using c e check_arithmetic_ok[OF p _ e o] check_shift_ok[OF _ e o]
    by (cases f) (auto simp: check_binary_def split: if_splits)
qed

section \<open>The checks of the other expressions\<close>

named_theorems typings \<open>the checks of an expression build well-typed nodes\<close>

lemma dereference_wt [typings]:
  "check_dereference K e = Inr e' \<Longrightarrow> wt (k_env K) e \<Longrightarrow> wt (k_env K) e'"
  by (auto simp: check_dereference_def outcome_simps the_type_iff has_type_iff is_pointer_def
      dest!: part_ev_built required split: option.splits)

lemma address_of_wt [typings]:
  "check_address_of K e = Inr e' \<Longrightarrow> wt (k_env K) e \<Longrightarrow> wt (k_env K) e'"
  by (auto simp: check_address_of_def outcome_simps the_type_iff has_type_iff is_pointer_def get_pointer_def
      dest!: part_ev_built required)

lemma selected_built:
  assumes "selected_ev K b v t = Inr w" "is_value_or_variable v"
  shows "is_value_or_variable w \<and> e_type w = Some t \<and> \<not> known w \<and> (e_kind w = ValueExpressionKind \<longrightarrow> e_kind v = ValueExpressionKind)"
  using assms by (auto simp: selected_ev_def is_value_or_variable_def dest!: part_ev_built split: if_splits)

lemma select_wt [typings]:
  assumes c: "check_select K e name = Inr e'" and w: "wt (k_env K) e"
  shows "wt (k_env K) e'"
proof -
  obtain t r where o: "is_value_or_variable (ev_of e)"
    and r: "(case r of
         Some (fs, k) \<Rightarrow> obind (selected_ev K t (ev_of e) (ftype (fs ! k))) (\<lambda>v. Inr (T_Field v e fs k))
       | None \<Rightarrow>
           (case find_callable (k_named K) t name of
              Some c \<Rightarrow> obind (selected_ev K t (ev_of e) (snd c)) (\<lambda>v. Inr (T_Method v e c))
            | None \<Rightarrow> Inl (Rejected 154))) = Inr e'"
    using c unfolding check_select_def obind_eq_Inr by (blast dest: required)
  show ?thesis
  proof (cases r)
    case None
    then obtain c v where "selected_ev K t (ev_of e) (snd c) = Inr v" "e' = T_Method v e c"
      using r by (auto simp: obind_eq_Inr split: option.splits)
    then show ?thesis using w o selected_built[OF _ o] by (auto simp: has_type_iff follows_def)
  next
    case (Some x)
    then obtain fs k v where "selected_ev K t (ev_of e) (ftype (fs ! k)) = Inr v" "e' = T_Field v e fs k"
      using r by (cases x) (auto simp: obind_eq_Inr)
    then show ?thesis using w o selected_built[OF _ o] by auto
  qed
qed

text \<open>An index keeps its place or becomes an int.\<close>

lemma typed_integer_Intt [simp]: "is_typed_integer env (Basic Intt)"
  by (simp add: is_typed_integer_def)

lemma to_int_wt:
  assumes p: "predeclares env" and w: "wt env e" and t: "e_type (ev_of e) = Some t"
    and r: "representable F env t (Basic Intt) (e_value (ev_of e)) = Inr True"
    and x: "convert_value F env t (Basic Intt) (e_value (ev_of e)) = Inr x"
    and v: "v = (ev_of e)\<lparr>e_value := x, e_type := Some (Basic Intt)\<rparr>"
  shows "wt env (set_ev v e) \<and> ev_of (set_ev v e) = v \<and> has_type v (is_typed_integer env)"
proof -
  have "retyped (ev_of e) (Basic Intt) v" using convert_value_known[OF x] v by (simp add: retyped_def)
  from set_ev_turned[OF p w t _ this] representable_untyped[OF r]
  have "wt env (set_ev v e)" by (simp add: follows_def turned_def)
  moreover have "e \<noteq> T_Error" using t by (auto simp: error_ev_def blank_def)
  ultimately show ?thesis using v by (simp add: ev_of_set_ev has_type_iff)
qed

lemma set_ev_of [simp]: "set_ev (ev_of e) e = e"
  by (cases e) simp_all

lemma array_index_wt:
  assumes p: "predeclares (k_env K)" and c: "check_array_index K d b e = Inr e'" and w: "wt (k_env K) e"
  shows "wt (k_env K) e' \<and> index_ev (k_env K) (ev_of e')"
proof -
  obtain t v where t: "e_type (ev_of e) = Some t" and q: "is_value_or_variable v" "e' = set_ev v e"
    and v: "(if is_untyped_numeric (k_env K) t then
               obind (representable (k_folding K) (k_env K) t (Basic Intt) (e_value (ev_of e))) (\<lambda>ok.
                 if \<not> ok then Inl (Rejected 20)
                 else obind (convert_value (k_folding K) (k_env K) t (Basic Intt) (e_value (ev_of e))) (\<lambda>x.
                   let i = get_scalar Long x in
                   if i < 0 then Inl (Rejected 162)
                   else if beyond d b i then Inl (Rejected 163)
                   else Inr ((ev_of e)\<lparr>e_value := x, e_type := Some (Basic Intt)\<rparr>)))
             else if is_typed_integer (k_env K) t then
               (if known (ev_of e) then
                  obind (value_to_int (k_env K) t (e_value (ev_of e))) (\<lambda>i.
                    if i < 0 then Inl (Rejected 164)
                    else if beyond d False i then Inl (Rejected 165)
                    else Inr (ev_of e))
                else Inr (ev_of e))
             else Inl (Rejected 203)) = Inr v"
    using c unfolding check_array_index_def Let_def obind_eq_Inr the_type_iff by (blast dest: required)
  show ?thesis
  proof (cases "is_untyped_numeric (k_env K) t")
    case True
    then obtain x where x: "representable (k_folding K) (k_env K) t (Basic Intt) (e_value (ev_of e)) = Inr True"
      "convert_value (k_folding K) (k_env K) t (Basic Intt) (e_value (ev_of e)) = Inr x"
      "v = (ev_of e)\<lparr>e_value := x, e_type := Some (Basic Intt)\<rparr>"
      using v by (auto simp: obind_eq_Inr Let_def split: if_splits)
    show ?thesis using to_int_wt[OF p w t x] q by (simp add: index_ev_def)
  next
    case False
    then have "v = ev_of e" "is_typed_integer (k_env K) t" using v by (auto simp: obind_eq_Inr split: if_splits)
    then show ?thesis using q w t by (simp add: index_ev_def has_type_iff)
  qed
qed

lemma slice_index_wt:
  assumes p: "predeclares (k_env K)" and c: "check_slice_index K e = Inr e'" and w: "wt (k_env K) e"
  shows "wt (k_env K) e' \<and> has_type (ev_of e') (is_typed_integer (k_env K))"
proof -
  obtain t where t: "e_type (ev_of e) = Some t"
    using c by (auto simp: check_slice_index_def Let_def obind_eq_Inr the_type_iff)
  show ?thesis
  proof (cases "is_untyped_numeric (k_env K) t")
    case True
    then obtain x v where x: "representable (k_folding K) (k_env K) t (Basic Intt) (e_value (ev_of e)) = Inr True"
      "convert_value (k_folding K) (k_env K) t (Basic Intt) (e_value (ev_of e)) = Inr x"
      "v = (ev_of e)\<lparr>e_value := x, e_type := Some (Basic Intt)\<rparr>" "e' = set_ev v e"
      using c t by (auto simp: check_slice_index_def Let_def obind_eq_Inr the_type_iff split: if_splits)
    show ?thesis using to_int_wt[OF p w t x(1-3)] x(4) by simp
  next
    case False
    then have "e' = e" "is_typed_integer (k_env K) t"
      using c t by (auto simp: check_slice_index_def Let_def obind_eq_Inr the_type_iff split: if_splits)
    then show ?thesis using w t by (simp add: has_type_iff)
  qed
qed

lemma index_wt [typings]:
  assumes p: "predeclares (k_env K)" and c: "check_index K b i = Inr e'" and w: "wt (k_env K) b" "wt (k_env K) i"
  shows "wt (k_env K) e'"
proof -
  obtain t where t: "e_type (ev_of b) = Some t" using c by (auto simp: check_index_def obind_eq_Inr the_type_iff)
  consider e d where "underlying_type (k_env K) t = Array e d" | e where "underlying_type (k_env K) t = Slice e"
    using c t by (cases "underlying_type (k_env K) t") (auto simp: check_index_def obind_eq_Inr the_type_iff)
  then show ?thesis
  proof cases
    case 1
    then obtain i' v where x: "check_array_index K (Some d) False i = Inr i'" "is_value_or_variable (ev_of b)"
      "part_ev K e (e_kind (ev_of b)) (e_intrinsic (ev_of b)) (e_indirection (ev_of b)) = Inr v"
      "e' = T_Index v b i' (Array e d)"
      using c t by (auto simp: check_index_def obind_eq_Inr the_type_iff dest: required)
    show ?thesis
      using array_index_wt[OF p x(1) w(2)] part_ev_built[OF x(3)] x(2,4) w t 1
      by (simp add: indexed_ok_def has_type_iff is_value_or_variable_def)
  next
    case 2
    then obtain i' v where x: "check_slice_index K i = Inr i'" "is_value_or_variable (ev_of b)" "is_value_or_variable (ev_of i')"
      "part_ev K e VariableExpressionKind (e_intrinsic (ev_of b)) (e_indirection (ev_of b)) = Inr v"
      "e' = T_Index v b i' (Slice e)"
      using c t by (auto simp: check_index_def obind_eq_Inr the_type_iff dest: required)
    show ?thesis
      using slice_index_wt[OF p x(1) w(2)] part_ev_built[OF x(4)] x(2,3,5) w t 2
      by (simp add: indexed_ok_def index_ev_def has_type_iff is_value_or_variable_def)
  qed
qed

abbreviation bound_wt :: "tenv \<Rightarrow> texp option \<Rightarrow> bool" where
  "bound_wt env \<equiv> pred_option (\<lambda>e. wt env e \<and> index_ev env (ev_of e))"

lemma bound_is_wt:
  assumes "predeclares (k_env K)" "ooption (check_array_index K d b) x = Inr y" "pred_option (wt (k_env K)) x"
  shows "bound_wt (k_env K) y"
  using assms array_index_wt by (cases x) (auto simp: obind_eq_Inr)

lemma index_slice_wt [typings]:
  assumes p: "predeclares (k_env K)" and c: "check_index_slice K b lo hi mx = Inr e'" and o: "is_value_or_variable (ev_of b)"
    and w: "wt (k_env K) b" "pred_option (wt (k_env K)) lo" "pred_option (wt (k_env K)) hi" "pred_option (wt (k_env K)) mx"
  shows "wt (k_env K) e'"
proof -
  obtain t d s lo' hi' mx' v where x: "e_type (ev_of b) = Some t"
    "(case underlying_type (k_env K) t of
           Array e d \<Rightarrow> Inr (Some d, Slice e)
         | Slice e \<Rightarrow> Inr (None, Slice e)
         | _ \<Rightarrow> Inl (Rejected 225)) = Inr (d, s)"
    "ooption (check_array_index K d True) lo = Inr lo'" "ooption (check_array_index K d True) hi = Inr hi'"
    "ooption (check_array_index K d True) mx = Inr mx'" "part_ev K s ValueExpressionKind Immutable (e_indirection (ev_of b)) = Inr v"
    "e' = T_Index_Slice v b lo' hi' mx' (underlying_type (k_env K) t)"
    using c by (auto simp: check_index_slice_def Let_def obind_eq_Inr the_type_iff split: if_splits)
  have "\<exists>e. s = Slice e" using x(2) by (cases "underlying_type (k_env K) t") (auto dest: sym)
  then have "underlying_kind (k_env K) s = Slice_Kind" by (auto simp: underlying_kind_def)
  then show ?thesis
    using part_ev_built[OF x(6)] bound_is_wt[OF p x(3) w(2)] bound_is_wt[OF p x(4) w(3)] bound_is_wt[OF p x(5) w(4)] x(1,7) w(1) o
    by (simp add: sliced_ok_def has_type_iff)
qed

section \<open>Conversions, predeclared functions and calls\<close>

lemma convert_operand_wt:
  assumes p: "predeclares (k_env K)" and c: "convert_operand K e to = Inr (e', b)" and w: "wt (k_env K) e"
    and o: "is_value_or_variable (ev_of e)"
  shows "wt (k_env K) e' \<and> operand_ev (ev_of e')"
proof -
  obtain t where t: "e_type (ev_of e) = Some t"
    using c by (auto simp: convert_operand_def check_constant_conversion_def Let_def obind_eq_Inr the_type_iff split: if_splits)
  have "e' = e \<or> (\<exists>x v. convert_value (k_folding K) (k_env K) t (default_type t) (e_value (ev_of e)) = Inr x \<and>
      v = (ev_of e)\<lparr>e_value := x, e_type := Some (default_type t)\<rparr> \<and> e' = set_ev v e)"
  proof (cases "known (ev_of e)")
    case True
    then show ?thesis
      using c t by (auto simp: convert_operand_def check_constant_conversion_def Let_def obind_eq_Inr the_type_iff split: if_splits)
  next
    case False
    then show ?thesis using c t by (auto simp: convert_operand_def obind_eq_Inr the_type_iff split: option.splits)
  qed
  then show ?thesis
  proof
    assume "\<exists>x v. convert_value (k_folding K) (k_env K) t (default_type t) (e_value (ev_of e)) = Inr x \<and>
      v = (ev_of e)\<lparr>e_value := x, e_type := Some (default_type t)\<rparr> \<and> e' = set_ev v e"
    then obtain x v where x: "convert_value (k_folding K) (k_env K) t (default_type t) (e_value (ev_of e)) = Inr x"
      "v = (ev_of e)\<lparr>e_value := x, e_type := Some (default_type t)\<rparr>" "e' = set_ev v e" by blast
    have "retyped (ev_of e) (default_type t) v" using convert_value_known[OF x(1)] x(2) by (simp add: retyped_def)
    from set_ev_turned[OF p w t default_follows this] show ?thesis
      using o x(3) by (auto simp: turned_def retyped_def operand_ev_def is_value_or_variable_def)
  qed (use w o t in \<open>simp add: operand_ev_def\<close>)
qed

lemma conversion_wt [typings]:
  assumes p: "predeclares (k_env K)" and c: "check_conversion K tv e = Inr e'" and w: "wt (k_env K) e"
  shows "wt (k_env K) e'"
proof (cases "e_kind tv = TypeExpressionKind")
  case False
  then show ?thesis using c by (auto simp: check_conversion_def split: if_splits)
next
  case True
  then obtain to e1 b v where x: "is_value_or_variable (ev_of e)" "convert_operand K e to = Inr (e1, b)"
    "part_ev K to ValueExpressionKind Immutable (if b then Mutable else e_indirection (ev_of e1)) = Inr v"
    "e' = T_Conversion v e1"
    using c by (auto simp: check_conversion_def obind_eq_Inr dest: required split: if_splits)
  then show ?thesis using convert_operand_wt[OF p x(2) w x(1)] part_ev_built[OF x(3)] by simp
qed

text \<open>Arguments converted to the types of the parameters.\<close>

lemma assign_arguments_wt:
  assumes p: "predeclares (k_env K)"
  shows "assign_arguments K es ps = Inr es' \<Longrightarrow> list_all (wt (k_env K)) es \<Longrightarrow> length es = length ps \<Longrightarrow>
    list_all (wt (k_env K)) es' \<and> list_all2 (\<lambda>e p. e_type (ev_of e) = Some (ptype p)) es' ps"
  using p
proof (induction K es ps arbitrary: es' rule: assign_arguments.induct)
  case (1 K e es q ps)
  obtain t e1 es1 where x: "e_type (ev_of e) = Some t" "are_assignable K t (e_value (ev_of e)) (ptype q) = Inr True"
    "convert_exp K (ptype q) e = Inr e1" "assign_arguments K es ps = Inr es1" "es' = e1 # es1"
    using 1(2) by (auto simp: obind_eq_Inr the_type_iff split: if_splits)
  have "turned (k_env K) (ptype q) e e1"
    by (rule convert_exp_turned[OF 1(5) _ x(1) assignable_follows[OF 1(5) x(2)] x(3)]) (use 1(3) in simp)
  moreover have "list_all (wt (k_env K)) es1 \<and> list_all2 (\<lambda>e p. e_type (ev_of e) = Some (ptype p)) es1 ps"
    by (rule 1(1)[OF x(1)[folded the_type_iff] x(2) _ x(3,4)]) (use 1(3-5) in auto)
  ultimately show ?case using x(5) by (simp add: turned_def retyped_def)
qed auto

lemma require_list_all: "require_list es = Inr u \<Longrightarrow> list_all (\<lambda>e. is_value_or_variable (ev_of e)) es"
  by (induction es) (auto simp: obind_eq_Inr dest: required)

lemma types_arguments_wt:
  assumes p: "predeclares (k_env K)" and c: "check_types_arguments K es ps = Inr es'" and w: "list_all (wt (k_env K)) es"
    and r: "require_list es' = Inr u"
  shows "list_all (wt (k_env K)) es' \<and> arguments_ok (map ev_of es') (parameters ps)"
proof -
  have "list_all (wt (k_env K)) es' \<and> list_all2 (\<lambda>e p. e_type (ev_of e) = Some (ptype p)) es' (parameters ps)"
    using c w assign_arguments_wt[OF p] by (auto simp: check_types_arguments_def split: if_splits)
  then show ?thesis
    using require_list_all[OF r] by (auto simp: arguments_ok_def list_all2_conv_all_nth list_all_length)
qed

lemma arguments_wt:
  assumes p: "predeclares (k_env K)" and c: "check_arguments K v es ps = Inr es'" and w: "list_all (wt (k_env K)) es"
  shows "list_all (wt (k_env K)) es' \<and> arguments_ok (map ev_of es') (parameters ps)"
  using c types_arguments_wt[OF p _ w] by (auto simp: check_arguments_def obind_eq_Inr)

lemma port_arguments_wt [typings]:
  assumes p: "predeclares (k_env K)" and c: "check_port_arguments K es ps = Inr es'" and w: "list_all (wt (k_env K)) es"
  shows "list_all (wt (k_env K)) es' \<and> arguments_ok (map ev_of es') (parameters ps)"
  using c types_arguments_wt[OF p _ w] by (auto simp: check_port_arguments_def obind_eq_Inr)

lemma call_signature_type: "call_signature K t = Inr (ps, rs) \<Longrightarrow> signature t = Some (ps, rs)"
  by (auto simp: call_signature_def split: ty.splits function_class.splits method_class.splits if_splits)

lemma call_function_wt:
  assumes p: "predeclares (k_env K)" and c: "call_function K f es = Inr e'"
    and w: "wt (k_env K) f" "list_all (wt (k_env K)) es"
  shows "wt (k_env K) e'"
proof -
  obtain t ps rs es1 v where x: "e_type (ev_of f) = Some t" "call_signature K t = Inr (ps, rs)"
    "(if callable_of f \<noteq> None
            then obind (require_value_or_variable (ev_of f)) (\<lambda>_. check_arguments K None es ps)
            else check_arguments K (Some (ev_of f)) es ps) = Inr es1" "call_ev K rs = Inr v" "e' = T_Call v f es1"
    using c by (auto simp: call_function_def obind_eq_Inr the_type_iff)
  have a: "list_all (wt (k_env K)) es1 \<and> arguments_ok (map ev_of es1) (parameters ps)"
    using x(3) arguments_wt[OF p _ w(2)] by (auto simp: obind_eq_Inr split: if_splits)
  have "\<not> known v \<and> (case parameters rs of
              [] \<Rightarrow> e_kind v = VoidExpressionKind
            | [p] \<Rightarrow> e_kind v = ValueExpressionKind \<and> has_type v (\<lambda>t. follows (k_env K) t (ptype p))
            | _ \<Rightarrow> False)"
    using x(4) by (auto simp: call_ev_def has_type_iff follows_def dest!: part_ev_built split: list.splits)
  then show ?thesis using a x(1,5) w(1) call_signature_type[OF x(2)] by (simp add: call_ok_def has_type_iff)
qed

text \<open>The predeclared functions; only println converts its arguments.\<close>

definition builtin_built :: "tenv \<Rightarrow> ev \<Rightarrow> builtin \<Rightarrow> ev list \<Rightarrow> bool" where
  "builtin_built env r f vs \<longleftrightarrow>
     e_kind r = ErrorExpressionKind \<or> e_kind r = TypeExpressionKind \<or> builtin_ok env r f vs"

lemma valued_ok: "valued a m = Inr r \<Longrightarrow> e_kind r \<noteq> ErrorExpressionKind \<Longrightarrow> is_value_or_variable a \<and> m = Inr r"
  by (auto simp: valued_def split: if_splits)

lemma check_new_ok: "check_new a = Inr r \<Longrightarrow> builtin_built env r New vs"
  by (auto simp: check_new_def builtin_built_def builtin_ok_def obind_eq_Inr get_pointer_def is_pointer_def has_type_iff
      split: if_splits)

lemma check_move_ok: "check_move a = Inr r \<Longrightarrow> builtin_built env r Move vs"
  by (auto simp: check_move_def builtin_built_def builtin_ok_def obind_eq_Inr dest!: valued_ok split: option.splits)

lemma check_merge_ok: "check_merge a = Inr r \<Longrightarrow> builtin_built env r Merge vs"
  by (auto simp: check_merge_def builtin_built_def builtin_ok_def obind_eq_Inr dest!: valued_ok split: option.splits)

lemma check_len_ok: "check_len K a = Inr r \<Longrightarrow> builtin_built (k_env K) r Len [a]"
  by (auto simp: check_len_def builtin_built_def builtin_ok_def obind_eq_Inr the_type_iff has_type_iff
      dest!: valued_ok split: if_splits)

lemma check_copy_ok: "check_copy K a = Inr r \<Longrightarrow> builtin_built (k_env K) r Copy [a]"
proof (cases "e_kind r = ErrorExpressionKind")
  case False
  assume c: "check_copy K a = Inr r"
  from valued_ok[OF c[unfolded check_copy_def] False] obtain t where t: "is_value_or_variable a" "e_type a = Some t"
    "(case slice_base (k_env K) t of
         Some b \<Rightarrow> obind (contains_pointer (k_env K) (k_nesting K) b)
           (\<lambda>p. Inr (if p then error_ev else value_ev t Mutable))
       | None \<Rightarrow> Inr (if underlying_kind (k_env K) t = String_Kind then value_ev t Mutable else error_ev)) = Inr r"
    by (auto simp: obind_eq_Inr the_type_iff)
  have "r = value_ev t Mutable \<and> underlying_kind (k_env K) t \<in> {Slice_Kind, String_Kind}"
    using t(3) False
    by (cases "underlying_type (k_env K) t")
      (auto simp: slice_base_def obind_eq_Inr underlying_kind_def split: if_splits)
  then show ?thesis using t by (auto simp: builtin_built_def builtin_ok_def has_type_iff)
qed (simp add: builtin_built_def)

lemma check_append_ok: "check_append K s x = Inr r \<Longrightarrow> builtin_built (k_env K) r Append [s, x]"
proof (cases "e_kind r = ErrorExpressionKind")
  case False
  assume "check_append K s x = Inr r"
  with False obtain t b u where "is_value_or_variable s" "is_value_or_variable x" "e_type s = Some t"
    "slice_base (k_env K) t = Some b" "e_type x = Some u" "are_identical b u = Inr True" "r = value_ev (Slice b) Mutable"
    by (auto simp: check_append_def obind_eq_Inr the_type_iff split: if_splits option.splits)
  then show ?thesis
    by (simp add: builtin_built_def builtin_ok_def has_type_iff slice_base_def are_identical_canonical_aux(1) underlying_kind_def)
qed (simp add: builtin_built_def)

lemma with_one_ok:
  assumes "with_one f vs = Inr (r, vs')" "\<And>a. f a = Inr r \<Longrightarrow> builtin_built env r g [a]"
  shows "builtin_built env r g vs' \<and> vs' = vs"
  using assms by (auto simp: with_one_def builtin_built_def obind_eq_Inr split: list.splits)

lemma println_kept:
  "omap (\<lambda>v. obind (the_type v) (\<lambda>t. convert_ev K (default_type t) v)) vs = Inr vs' \<Longrightarrow> list_all2 (kept (k_env K)) vs vs'"
proof (induction vs arbitrary: vs')
  case (Cons v vs)
  then obtain t w ws where x: "e_type v = Some t" "convert_ev K (default_type t) v = Inr w" "vs' = w # ws"
    "omap (\<lambda>v. obind (the_type v) (\<lambda>t. convert_ev K (default_type t) v)) vs = Inr ws"
    by (auto simp: obind_eq_Inr the_type_iff)
  show ?case using convert_kept(1)[OF x(2,1) default_follows] Cons.IH[OF x(4)] x(3) by simp
qed simp

lemma check_builtin_ok:
  assumes "check_builtin K f vs = Inr (r, vs')"
  shows "builtin_built (k_env K) r f vs' \<and> list_all2 (kept (k_env K)) vs vs'"
proof -
  have refl: "list_all2 (kept (k_env K)) vs vs" by (simp add: list_all2_refl)
  show ?thesis
  proof (cases f)
    case Println
    then show ?thesis
      using assms println_kept by (auto simp: check_builtin_def check_println_def obind_eq_Inr builtin_built_def builtin_ok_def)
  next
    case Append
    then show ?thesis
      using assms refl check_append_ok
      by (auto simp: check_builtin_def obind_eq_Inr builtin_built_def split: list.splits)
  next
    case New
    then have "with_one check_new vs = Inr (r, vs')" using assms by (simp add: check_builtin_def)
    moreover have "builtin_built (k_env K) r New [a]" if "check_new a = Inr r" for a using that by (rule check_new_ok)
    ultimately show ?thesis using with_one_ok[of _ vs r vs' "k_env K" New] refl New by blast
  next
    case Move
    then have "with_one check_move vs = Inr (r, vs')" using assms by (simp add: check_builtin_def)
    moreover have "builtin_built (k_env K) r Move [a]" if "check_move a = Inr r" for a using that by (rule check_move_ok)
    ultimately show ?thesis using with_one_ok[of _ vs r vs' "k_env K" Move] refl Move by blast
  next
    case Merge
    then have "with_one check_merge vs = Inr (r, vs')" using assms by (simp add: check_builtin_def)
    moreover have "builtin_built (k_env K) r Merge [a]" if "check_merge a = Inr r" for a using that by (rule check_merge_ok)
    ultimately show ?thesis using with_one_ok[of _ vs r vs' "k_env K" Merge] refl Merge by blast
  next
    case Len
    then have "with_one (check_len K) vs = Inr (r, vs')" using assms by (simp add: check_builtin_def)
    moreover have "builtin_built (k_env K) r Len [a]" if "check_len K a = Inr r" for a using that by (rule check_len_ok)
    ultimately show ?thesis using with_one_ok[of _ vs r vs' "k_env K" Len] refl Len by blast
  next
    case Copy
    then have "with_one (check_copy K) vs = Inr (r, vs')" using assms by (simp add: check_builtin_def)
    moreover have "builtin_built (k_env K) r Copy [a]" if "check_copy K a = Inr r" for a using that by (rule check_copy_ok)
    ultimately show ?thesis using with_one_ok[of _ vs r vs' "k_env K" Copy] refl Copy by blast
  qed
qed

lemma set_evs_wt:
  assumes p: "predeclares env"
  shows "list_all2 (kept env) (map ev_of es) vs \<Longrightarrow> list_all (wt env) es \<Longrightarrow>
    list_all (wt env) (set_evs vs es) \<and> map ev_of (set_evs vs es) = vs"
proof (induction es arbitrary: vs)
  case (Cons e es)
  then obtain v ws where v: "vs = v # ws" "kept env (ev_of e) v" "list_all2 (kept env) (map ev_of es) ws"
    by (auto simp: list_all2_Cons1)
  have "wt env (set_ev v e) \<and> ev_of (set_ev v e) = v"
  proof (cases "e = T_Error")
    case True
    then show ?thesis using v(2) by (auto simp: kept_def retypes_def error_ev_def blank_def)
  next
    case False
    then show ?thesis using kept_wt[OF p _ v(2)] Cons.prems(2) by simp
  qed
  then show ?case using Cons v by (simp add: set_evs_def)
qed (simp add: set_evs_def)

lemma call_builtin_wt:
  assumes p: "predeclares (k_env K)" and c: "call_builtin K b es = Inr e'" and w: "list_all (wt (k_env K)) es"
  shows "wt (k_env K) e'"
proof -
  obtain r vs where x: "check_builtin K b (map ev_of es) = Inr (r, vs)"
    "e' = (if e_kind r = ErrorExpressionKind then T_Error
            else if e_kind r = TypeExpressionKind then T_Type r
            else T_Builtin r b (set_evs vs es))"
    using c by (auto simp: call_builtin_def obind_eq_Inr)
  have k: "builtin_built (k_env K) r b vs" "list_all2 (kept (k_env K)) (map ev_of es) vs"
    using check_builtin_ok[OF x(1)] by simp_all
  show ?thesis using set_evs_wt[OF p k(2) w] k(1) unfolding x(2) by (auto simp: builtin_built_def)
qed

lemma call_wt [typings]:
  assumes p: "predeclares (k_env K)" and c: "check_call K f es = Inr e'" and w: "wt (k_env K) f" "list_all (wt (k_env K)) es"
  shows "wt (k_env K) e'"
proof -
  consider e where "es = [e]" "check_conversion K (ev_of f) e = Inr e'"
    | b where "call_builtin K b es = Inr e'" | "call_function K f es = Inr e'"
    using c by (auto simp: check_call_def split: if_splits list.splits option.splits)
  then show ?thesis
    using conversion_wt[OF p] call_builtin_wt[OF p _ w(2)] call_function_wt[OF p _ w] w(2) by cases auto
qed

lemma identifier_wt [typings]:
  assumes "check_identifier K ss name = Inr e'"
  shows "wt (k_env K) e'"
proof (cases "find_global_symbol ss name")
  case None
  then show ?thesis using assms by (simp add: check_identifier_def)
next
  case (Some s)
  have fix_string: "fix_string_indirection env v = Inr w \<Longrightarrow> e_kind w = e_kind v \<and> e_value w = e_value v" for env v w
    by (auto simp: fix_string_indirection_def obind_eq_Inr split: if_splits)
  show ?thesis
    using assms Some
    by (cases s) (auto simp: check_identifier_def obind_eq_Inr identifier_ok_def variable_ev_def blank_def
        value_ev_def no_value_def dest!: fix_string split: if_splits)
qed

section \<open>Expressions\<close>

lemma check_expr_wt:
  "check_expr K ss e = Inr e' \<Longrightarrow> predeclares (k_env K) \<Longrightarrow> wt (k_env K) e'"
  "check_exprs K ss es = Inr es' \<Longrightarrow> predeclares (k_env K) \<Longrightarrow> list_all (wt (k_env K)) es'"
  "check_opt K ss x = Inr x' \<Longrightarrow> predeclares (k_env K) \<Longrightarrow> pred_option (wt (k_env K)) x'"
proof (induction K ss e and K ss es and K ss x arbitrary: e' and es' and x' rule: check_expr_check_exprs_check_opt.induct)
  case (1 K ss t x)
  then show ?case by (auto split: if_splits)
next
  case (2 K ss name)
  then show ?case using identifier_wt by simp
next
  case (3 K ss t)
  then show ?case by auto
next
  case (4 K ss e)
  then show ?case using address_of_wt by (auto simp: obind_eq_Inr)
next
  case (5 K ss e)
  then show ?case using dereference_wt by (auto simp: obind_eq_Inr)
next
  case (6 K ss e name)
  then show ?case using select_wt by (auto simp: obind_eq_Inr)
next
  case (7 K ss b i)
  then obtain b' i' where x: "check_expr K ss b = Inr b'" "check_expr K ss i = Inr i'" "check_index K b' i' = Inr e'"
    by (auto simp: obind_eq_Inr)
  show ?case by (rule index_wt[OF 7(4) x(3) 7(1)[OF x(1) 7(4)] 7(2)[OF x(1,2) 7(4)]])
next
  case (8 K ss b lo hi mx)
  then obtain b' lo' hi' mx' u where x: "check_expr K ss b = Inr b'" "require_value_or_variable (ev_of b') = Inr u"
    "check_opt K ss lo = Inr lo'" "check_opt K ss hi = Inr hi'" "check_opt K ss mx = Inr mx'"
    "check_index_slice K b' lo' hi' mx' = Inr e'"
    by (auto simp: obind_eq_Inr)
  show ?case
    by (rule index_slice_wt[OF 8(6) x(6) required(1)[OF x(2)] 8(1)[OF x(1) 8(6)] 8(2)[OF x(1-3) 8(6)]
          8(3)[OF x(1-4) 8(6)] 8(4)[OF x(1-5) 8(6)]])
next
  case (9 K ss f es)
  then obtain f' es1 where x: "check_expr K ss f = Inr f'" "check_exprs K ss es = Inr es1" "check_call K f' es1 = Inr e'"
    by (auto simp: obind_eq_Inr)
  show ?case by (rule call_wt[OF 9(4) x(3) 9(1)[OF x(1) 9(4)] 9(2)[OF x(1,2) 9(4)]])
next
  case (10 K ss f e)
  obtain e1 where x: "check_expr K ss e = Inr e1" using 10(2) by (auto simp: obind_eq_Inr)
  have w: "wt (k_env K) e1" by (rule 10(1)[OF x 10(3)])
  show ?case
  proof (cases "e' = T_Error")
    case False
    then obtain v where "check_unary K f (ev_of e1) = Inr v" "e_kind v \<noteq> ErrorExpressionKind" "e' = T_Unary v f e1"
      using 10(2) x by (auto simp: obind_eq_Inr split: if_splits)
    then show ?thesis using w check_unary_ok by simp
  qed simp
next
  case (11 K ss f l r)
  obtain l1 r1 where x: "check_expr K ss l = Inr l1" "check_expr K ss r = Inr r1" using 11(3) by (auto simp: obind_eq_Inr)
  have w: "wt (k_env K) l1" "wt (k_env K) r1" by (rule 11(1)[OF x(1) 11(4)], rule 11(2)[OF x 11(4)])
  show ?case
  proof (cases "e' = T_Error")
    case False
    then obtain v lv rv where b: "check_binary K f (ev_of l1) (ev_of r1) = Inr (v, lv, rv)" "e_kind v \<noteq> ErrorExpressionKind"
      "e' = T_Binary v f (set_ev lv l1) (set_ev rv r1)" "e_kind (ev_of l1) \<noteq> ErrorExpressionKind"
      "e_kind (ev_of r1) \<noteq> ErrorExpressionKind"
      using 11(3) x by (auto simp: obind_eq_Inr split: if_splits)
    have n: "l1 \<noteq> T_Error" "r1 \<noteq> T_Error" using b(4,5) by auto
    note k = check_binary_ok[OF 11(4) b(1,2)]
    show ?thesis
      using kept_wt[OF 11(4) w(1) _ n(1)] kept_wt[OF 11(4) w(2) _ n(2)] k b(3) by simp
  qed simp
next
  case (12 K ss name es)
  then obtain fs k ps es1 es2 where x: "receiver_field K 194 name = Inr (fs, k)" "push_port 195 (ftype (fs ! k)) = Inr ps"
    "check_exprs K ss es = Inr es1" "check_port_arguments K es1 ps = Inr es2" "e' = T_Push_Port_Call port_ev fs k ps es2"
    by (auto simp: obind_eq_Inr)
  have "list_all (wt (k_env K)) es1" by (rule 12(1)[OF x(1) _ x(2,3) 12(3)]) simp
  from port_arguments_wt[OF 12(3) x(4) this] show ?case using x(5) by simp
next
  case (13 K ss name i es)
  obtain fs k where f: "receiver_field K 74 name = Inr (fs, k)" using 13(3) by (auto simp: obind_eq_Inr)
  obtain b d where t: "ftype (fs ! k) = Array b d" using 13(3) f by (cases "ftype (fs ! k)") simp_all
  obtain ps i1 i2 es1 es2 where "push_port 17 b = Inr ps" "check_expr K ss i = Inr i1" "check_array_index K (Some d) False i1 = Inr i2"
    "check_exprs K ss es = Inr es1" "check_port_arguments K es1 ps = Inr es2"
    "e' = T_Indexed_Push_Port_Call port_ev fs k ps (Array b d) i2 es2"
    using 13(3) f t by (auto simp: obind_eq_Inr)
  note x = f t this
  have "list_all (wt (k_env K)) es1" by (rule 13(2)[OF x(1) _ x(2-6) 13(4)]) simp
  moreover have "wt (k_env K) i1" by (rule 13(1)[OF x(1) _ x(2-4) 13(4)]) simp
  ultimately show ?case using x(8) port_arguments_wt[OF 13(4) x(7)] array_index_wt[OF 13(4) x(5)] by simp
qed (auto simp: obind_eq_Inr)

section \<open>Statements\<close>

text \<open>Statements without activations.\<close>

fun inactive :: "tstmt \<Rightarrow> bool" where
  "inactive (S_List cs) \<longleftrightarrow> list_all inactive cs"
| "inactive (S_If before c t f) \<longleftrightarrow> inactive before \<and> inactive t \<and> inactive f"
| "inactive (S_While c b) \<longleftrightarrow> inactive b"
| "inactive (S_For i n b) \<longleftrightarrow> inactive b"
| "inactive (S_Change i t e b) \<longleftrightarrow> inactive b"
| "inactive (S_Activate a es b) \<longleftrightarrow> False"
| "inactive _ \<longleftrightarrow> True"

definition condition_ok :: "tenv \<Rightarrow> texp \<Rightarrow> bool" where
  "condition_ok env c \<longleftrightarrow>
     wt env c \<and> is_value_or_variable (ev_of c) \<and> has_type (ev_of c) (\<lambda>t. underlying_kind env t = Bool_Kind)"

text \<open>A variable and an operand of its type.\<close>

definition matching :: "tenv \<Rightarrow> ty \<Rightarrow> texp \<Rightarrow> bool" where
  "matching env t e \<longleftrightarrow> wt env e \<and> is_value_or_variable (ev_of e) \<and> e_type (ev_of e) = Some t"

fun wt_stmt :: "tenv \<Rightarrow> tstmt \<Rightarrow> bool" where
  "wt_stmt env S_Empty \<longleftrightarrow> True"
| "wt_stmt env (S_Expression e) \<longleftrightarrow>
     wt env e \<and> (is_value_or_variable (ev_of e) \<or> e_kind (ev_of e) = VoidExpressionKind)"
| "wt_stmt env (S_Var vs es) \<longleftrightarrow> es = [] \<or> list_all2 (\<lambda>v e. matching env (snd v) e) vs es"
| "wt_stmt env (S_Assign l r) \<longleftrightarrow>
     wt env l \<and> e_kind (ev_of l) = VariableExpressionKind \<and> has_type (ev_of l) (\<lambda>t. matching env t r)"
| "wt_stmt env (S_Add_Assign l r) \<longleftrightarrow>
     wt env l \<and> e_kind (ev_of l) = VariableExpressionKind \<and> has_type (ev_of l) (\<lambda>t. matching env t r)"
| "wt_stmt env (S_Step up e) \<longleftrightarrow> wt env e \<and> e_kind (ev_of e) = VariableExpressionKind"
| "wt_stmt env (S_Return i t e) \<longleftrightarrow> matching env t e"
| "wt_stmt env (S_List cs) \<longleftrightarrow> list_all (wt_stmt env) cs"
| "wt_stmt env (S_If before c t f) \<longleftrightarrow>
     wt_stmt env before \<and> condition_ok env c \<and> wt_stmt env t \<and> wt_stmt env f"
| "wt_stmt env (S_While c b) \<longleftrightarrow> condition_ok env c \<and> wt_stmt env b"
| "wt_stmt env (S_For i n b) \<longleftrightarrow> wt_stmt env b"
| "wt_stmt env (S_Change i t e b) \<longleftrightarrow> wt env e \<and> wt_stmt env b"
| "wt_stmt env (S_Activate a es b) \<longleftrightarrow> list_all (wt env) es \<and> wt_stmt env b \<and> inactive b"

lemma converted_matching:
  assumes "predeclares (k_env K)" "wt (k_env K) e" "e_type (ev_of e) = Some t"
    "are_assignable K t (e_value (ev_of e)) to = Inr True" "convert_exp K to e = Inr e'" "is_value_or_variable (ev_of e')"
  shows "matching (k_env K) to e'"
  using convert_exp_turned[OF assms(1-3) assignable_follows[OF assms(1,4)] assms(5)] assms(6)
  by (simp add: matching_def turned_def retyped_def)

lemma condition_wt:
  assumes p: "predeclares (k_env K)" and c: "check_condition K e = Inr e'" and w: "wt (k_env K) e"
  shows "condition_ok (k_env K) e'"
proof -
  obtain t where x: "e_type (ev_of e) = Some t" "is_any_boolean (k_env K) t" "convert_exp K (default_type t) e = Inr e'"
    "is_value_or_variable (ev_of e')"
    using c by (auto simp: check_condition_def obind_eq_Inr the_type_iff dest: required split: if_splits)
  have "turned (k_env K) (default_type t) e e'" by (rule convert_exp_turned[OF p w x(1) default_follows x(3)])
  moreover have "underlying_kind (k_env K) (default_type t) = Bool_Kind"
  proof (cases "underlying_kind (k_env K) t = Untyped_Boolean_Kind")
    case True
    then have "t = Basic UntypedBoolean"
      using untyped_underlying[of "k_env K" t UntypedBoolean] p by (simp add: predeclares_def kind_order_eval)
    then show ?thesis using p by (simp add: predeclares_def named_bool_def underlying_kind_def)
  next
    case False
    then have k: "underlying_kind (k_env K) t = Bool_Kind" using x(2) by (auto simp: is_any_boolean_def underlying_kind_def)
    then show ?thesis using default_type_cases[of t] untyped_not(3)[of t "k_env K"] by auto
  qed
  ultimately show ?thesis using x(4) by (simp add: condition_ok_def turned_def retyped_def has_type_iff)
qed

lemma assign_wt:
  assumes p: "predeclares (k_env K)" and c: "check_assign K l r = Inr t" and w: "wt (k_env K) l" "wt (k_env K) r"
  shows "wt_stmt (k_env K) t"
proof -
  obtain to s r' u where x: "e_type (ev_of l) = Some to" "e_type (ev_of r) = Some s"
    "are_assignable K s (e_value (ev_of r)) to = Inr True" "convert_exp K to r = Inr r'" "e_kind (ev_of l) = VariableExpressionKind"
    "require_value_or_variable (ev_of r') = Inr u" "t = S_Assign l r'"
    using c by (auto simp: check_assign_def obind_eq_Inr the_type_iff dest: required(2) split: if_splits)
  show ?thesis using converted_matching[OF p w(2) x(2-4) required(1)[OF x(6)]] x(1,5,7) w(1) by (simp add: has_type_iff)
qed

lemma add_assign_wt:
  assumes p: "predeclares (k_env K)" and c: "check_add_assign K l r = Inr t" and w: "wt (k_env K) l" "wt (k_env K) r"
  shows "wt_stmt (k_env K) t"
proof -
  obtain to s r' u where x: "e_type (ev_of l) = Some to" "e_type (ev_of r) = Some s"
    "are_assignable K s (e_value (ev_of r)) to = Inr True" "convert_exp K to r = Inr r'" "e_kind (ev_of l) = VariableExpressionKind"
    "require_value_or_variable (ev_of r') = Inr u" "t = S_Add_Assign l r'"
    using c by (auto simp: check_add_assign_def obind_eq_Inr the_type_iff dest: required(2) split: if_splits)
  show ?thesis using converted_matching[OF p w(2) x(2-4) required(1)[OF x(6)]] x(1,5,7) w(1) by (simp add: has_type_iff)
qed

lemma step_wt:
  "check_step K up e = Inr t \<Longrightarrow> wt (k_env K) e \<Longrightarrow> wt_stmt (k_env K) t"
  by (auto simp: check_step_def obind_eq_Inr dest: required(2) split: if_splits)

lemma return_wt:
  assumes p: "predeclares (k_env K)" and c: "check_return K ss e = Inr t" and w: "wt (k_env K) e"
  shows "wt_stmt (k_env K) t"
proof -
  obtain i q where r: "return_parameter_list ss = Some [(i, q)]"
    using c by (auto simp: check_return_def split: option.splits list.splits)
  obtain s e' u where x: "e_type (ev_of e) = Some s" "are_assignable K s (e_value (ev_of e)) (ptype q) = Inr True"
    "convert_exp K (ptype q) e = Inr e'" "require_value_or_variable (ev_of e') = Inr u" "t = S_Return i (ptype q) e'"
    using c r by (auto simp: check_return_def obind_eq_Inr the_type_iff split: if_splits)
  show ?thesis using converted_matching[OF p w x(1-3) required(1)[OF x(4)]] x(5) by simp
qed

lemma initializer_wt:
  assumes p: "predeclares (k_env K)" and c: "check_initializer K spec e = Inr (t, e')" and w: "wt (k_env K) e"
  shows "matching (k_env K) t e'"
proof -
  obtain s where s: "e_type (ev_of e) = Some s" using c by (auto simp: check_initializer_def obind_eq_Inr the_type_iff)
  show ?thesis
  proof (cases spec)
    case (Some to)
    have "obind (are_assignable K s (e_value (ev_of e)) to) (\<lambda>a.
        if \<not> a then Inl (Rejected 62)
        else obind (convert_exp K to e) (\<lambda>e. obind (require_value_or_variable (ev_of e)) (\<lambda>_. Inr (to, e)))) = Inr (t, e')"
      using c s Some by (simp add: check_initializer_def the_type_def)
    then have x: "are_assignable K s (e_value (ev_of e)) to = Inr True" "convert_exp K to e = Inr e'"
      "\<exists>u. require_value_or_variable (ev_of e') = Inr u" "t = to"
      unfolding obind_eq_Inr by (auto simp only: obind_eq_Inr sum.inject simp_thms prod.inject sum.distinct split: if_splits)
    show ?thesis using converted_matching[OF p w s x(1,2)] required(1) x(3,4) by blast
  next
    case None
    show ?thesis
    proof (cases "is_untyped s")
      case True
      then obtain x u v where x: "convert_value (k_folding K) (k_env K) s (default_type s) (e_value (ev_of e)) = Inr x"
        "v = (ev_of e)\<lparr>e_value := x, e_type := Some (default_type s)\<rparr>" "e' = set_ev v e" "t = default_type s"
        "require_value_or_variable (ev_of e') = Inr u"
        using c s None by (auto simp: check_initializer_def obind_eq_Inr the_type_iff)
      have "retyped (ev_of e) (default_type s) v" using convert_value_known[OF x(1)] x(2) by (simp add: retyped_def)
      from set_ev_turned[OF p w s default_follows this] show ?thesis
        using x(3,4) required(1)[OF x(5)] by (simp add: matching_def turned_def retyped_def)
    next
      case False
      then show ?thesis
        using c s None w by (auto simp: check_initializer_def obind_eq_Inr the_type_iff matching_def dest: required)
    qed
  qed
qed

lemma initialize_variables_wt:
  assumes "predeclares (k_env K)"
  shows "initialize_variables K xs dm spec es s = Inr (vs, es', s') \<Longrightarrow> length xs = length es \<Longrightarrow>
    list_all2 (\<lambda>v e. matching (k_env K) (snd v) e) vs es'"
  using assms
proof (induction K xs dm spec es s arbitrary: vs es' s' rule: initialize_variables.induct)
  case (1 K x xs dm spec e es ss i)
  obtain e1 t e2 vs1 es1 s1 where x: "check_expr K ss e = Inr e1" "check_initializer K spec e1 = Inr (t, e2)"
    "initialize_variables K xs dm spec es
       (enter_symbol (make_variable (k_env K) i x t (k_indeterminate K) dm) ss, Suc i) = Inr (vs1, es1, s1)"
    "vs = (i, t) # vs1" "es' = e2 # es1"
    using 1(2) by (auto simp: obind_eq_Inr)
  have "list_all2 (\<lambda>v e. matching (k_env K) (snd v) e) vs1 es1"
    by (rule 1(1)[OF x(1,2) refl x(3)]) (use 1(3,4) in simp_all)
  then show ?case using initializer_wt[OF 1(4) x(2) check_expr_wt(1)[OF x(1) 1(4)]] x(4,5) by simp
qed auto

lemma var_wt:
  assumes p: "predeclares (k_env K)" and c: "check_var K xs im dm spec es s = Inr (t, s')"
  shows "wt_stmt (k_env K) t \<and> inactive t"
proof (cases "es = []")
  case True
  then show ?thesis using c by (auto simp: check_var_def split: option.splits prod.splits if_splits)
next
  case False
  then obtain vs es' s1 where "initialize_variables K xs dm spec es s = Inr (vs, es', s1)" "t = S_Var vs es'" "length xs = length es"
    using c by (auto simp: check_var_def obind_eq_Inr split: if_splits)
  then show ?thesis using initialize_variables_wt[OF p] by auto
qed

text \<open>Activations are accepted only in the first phase of actions and reactions.\<close>

definition may_activate :: "checker \<Rightarrow> bool" where
  "may_activate K \<longleftrightarrow> k_context K \<in> {In_Action, In_Reaction} \<and> \<not> k_mutable_phase K"

lemma closing_body: "closing r = Inr (x, s) \<Longrightarrow> \<exists>s'. r = Inr (x, s')"
  by (auto simp: closing_def obind_eq_Inr)

lemma check_stmt_wt:
  "check_stmt K p s = Inr (t, s') \<Longrightarrow> predeclares (k_env K) \<Longrightarrow>
     wt_stmt (k_env K) t \<and> (\<not> may_activate K \<longrightarrow> inactive t)"
  "check_stmts K ps s = Inr (ts, s') \<Longrightarrow> predeclares (k_env K) \<Longrightarrow>
     list_all (wt_stmt (k_env K)) ts \<and> (\<not> may_activate K \<longrightarrow> list_all inactive ts)"
proof (induction K p s and K ps s arbitrary: t s' and ts s' rule: check_stmt_check_stmts.induct)
  case (2 K e ss i)
  then obtain e1 u where x: "check_expr K ss e = Inr e1" "require_value_or_variable_or_void (ev_of e1) = Inr u" "t = S_Expression e1"
    by (auto simp: obind_eq_Inr)
  then show ?case
    using check_expr_wt(1)[OF x(1) 2(2)]
    by (auto simp: require_value_or_variable_or_void_def split: if_splits)
next
  case (3 K xs im dm spec es s)
  then show ?case using var_wt by simp
next
  case (4 K l r ss i)
  then obtain l1 r1 where x: "check_expr K ss l = Inr l1" "check_expr K ss r = Inr r1" "check_assign K l1 r1 = Inr t"
    by (auto simp: obind_eq_Inr)
  moreover have "inactive t" using x(3) by (auto simp: check_assign_def obind_eq_Inr split: if_splits)
  ultimately show ?case using assign_wt[OF 4(2) x(3)] check_expr_wt(1)[OF _ 4(2)] by blast
next
  case (5 K l r ss i)
  then obtain l1 r1 where x: "check_expr K ss l = Inr l1" "check_expr K ss r = Inr r1" "check_add_assign K l1 r1 = Inr t"
    by (auto simp: obind_eq_Inr)
  moreover have "inactive t" using x(3) by (auto simp: check_add_assign_def obind_eq_Inr split: if_splits)
  ultimately show ?case using add_assign_wt[OF 5(2) x(3)] check_expr_wt(1)[OF _ 5(2)] by blast
next
  case (6 K up e ss i)
  then obtain e1 where x: "check_expr K ss e = Inr e1" "check_step K up e1 = Inr t" by (auto simp: obind_eq_Inr)
  moreover have "inactive t" using x(2) by (auto simp: check_step_def obind_eq_Inr split: if_splits)
  ultimately show ?case using step_wt[OF x(2)] check_expr_wt(1)[OF _ 6(2)] by blast
next
  case (7 K e ss i)
  then obtain e1 where x: "check_expr K ss e = Inr e1" "check_return K ss e1 = Inr t" by (auto simp: obind_eq_Inr)
  moreover have "inactive t"
    using x(2) by (auto simp: check_return_def obind_eq_Inr split: if_splits option.splits list.splits)
  ultimately show ?case using return_wt[OF 7(2) x(2)] check_expr_wt(1)[OF _ 7(2)] by blast
next
  case (8 K cs ss i)
  then obtain ts s1 where x: "check_stmts K cs (open_scope ss, i) = Inr (ts, s1)" "t = S_List ts"
    by (auto simp: obind_eq_Inr dest!: closing_body)
  show ?case using 8(1)[OF x(1) 8(3)] x(2) by simp
next
  case (9 K before c tb fb ss i)
  then obtain b1 ss1 i1 c1 t1 s2 f1 s3 c2 where x: "check_stmt K before (open_scope ss, i) = Inr (b1, ss1, i1)"
    "check_expr K ss1 c = Inr c1" "check_stmt K tb (ss1, i1) = Inr (t1, s2)" "check_stmt K fb s2 = Inr (f1, s3)"
    "check_condition K c1 = Inr c2" "t = S_If b1 c2 t1 f1"
    by (auto simp: obind_eq_Inr dest!: closing_body)
  show ?case
    using 9(1)[OF x(1) 9(5)] 9(2)[OF x(1) refl refl x(2,3) 9(5)] 9(3)[OF x(1) refl refl x(2,3) refl x(4) 9(5)]
      condition_wt[OF 9(5) x(5) check_expr_wt(1)[OF x(2) 9(5)]] x(6) by simp
next
  case (10 K c b ss i)
  then obtain c1 b1 s1 c2 where x: "check_expr K (open_scope ss) c = Inr c1" "check_stmt K b (open_scope ss, i) = Inr (b1, s1)"
    "check_condition K c1 = Inr c2" "t = S_While c2 b1"
    by (auto simp: obind_eq_Inr dest!: closing_body)
  show ?case
    using 10(1)[OF x(1,2) 10(3)] condition_wt[OF 10(3) x(3) check_expr_wt(1)[OF x(1) 10(3)]] x(4) by simp
next
  case (11 K y limit b ss i)
  then obtain n b1 s1 where x: "process_array_dimension K ss limit = Inr n" "t = S_For i n b1"
    "check_stmt K b (enter_symbol (make_variable (k_env K) i y (Basic Intt) Immutable Immutable) (open_scope ss), Suc i) = Inr (b1, s1)"
    by (auto simp: obind_eq_Inr dest!: closing_body)
  show ?case using 11(1)[OF x(1,3) 11(3)] x(2) by simp
next
  case (12 K e y b ss i)
  then obtain e1 u where e: "check_expr K ss e = Inr e1" "e_type (ev_of e1) = Some u"
    by (auto simp: obind_eq_Inr the_type_iff)
  obtain root where r: "merge_change u = Some root"
    using 12(2) e by (cases "merge_change u") (auto simp: obind_eq_Inr the_type_iff)
  then obtain v ss1 b1 s1 where x: "require_value_or_variable (ev_of e1) = Inr v"
    "change (k_env K) (k_nesting K) (open_scope ss) = Inr ss1"
    "check_stmt K b (enter_symbol (Variable_Entry i y root Immutable (e_indirection (ev_of e1))) ss1, Suc i) = Inr (b1, s1)"
    "t = S_Change i root e1 b1"
    using 12(2) e by (auto simp: obind_eq_Inr the_type_iff dest!: closing_body)
  show ?case
    using 12(1)[OF e(1) e(2)[folded the_type_iff] r x(1-3) 12(3)] check_expr_wt(1)[OF e(1) 12(3)] x(4) by simp
next
  case (13 K es b ss i)
  then obtain u es1 ss1 b1 s1 where x: "check_activation K = Inr u" "check_exprs K ss es = Inr es1"
    "activate (k_env K) (k_nesting K) (open_scope ss) = Inr ss1"
    "check_stmt (K\<lparr>k_mutable_phase := True\<rparr>) b (ss1, i) = Inr (b1, s1)" "t = S_Activate (k_context K = In_Action) es1 b1"
    by (auto simp: obind_eq_Inr dest!: closing_body)
  have "may_activate K" using x(1) by (auto simp: check_activation_def may_activate_def split: if_splits)
  moreover have "wt_stmt (k_env K) b1 \<and> inactive b1"
    using 13(1)[OF x(1-4)] 13(3) by (simp add: may_activate_def)
  ultimately show ?case using check_expr_wt(2)[OF x(2) 13(3)] x(5) by simp
next
  case (15 K c cs s)
  then obtain c1 s1 cs1 where x: "check_stmt K c s = Inr (c1, s1)" "check_stmts K cs s1 = Inr (cs1, s')" "ts = c1 # cs1"
    by (auto simp: obind_eq_Inr)
  show ?case using 15(1)[OF x(1) 15(4)] 15(2)[OF x(1) refl x(2) 15(4)] x(3) by simp
qed auto

end
