(* ===== verification/Compile.thy ===== *)
theory Compile
  imports Soundness Phases
begin

text \<open>
  The code generated for well-typed trees keeps to the discipline of the run-time stack: an expression pushes the bytes of
  its type, or its address when it is a variable, and a statement leaves the top of the stack where it was.  With
  the soundness of the checker and the execution of disciplined code this gives what a
  checked program can rely on when it runs.
\<close>

section \<open>Sizes of types that are alike\<close>

lemma canonical_fields: "map canonical_field fs = map canonical_field gs \<Longrightarrow> list_all2 (\<lambda>f g. canonical (ftype f) = canonical (ftype g)) fs gs"
proof (induction fs arbitrary: gs)
  case (Cons f fs)
  then obtain g gs' where "gs = g # gs'" "canonical_field f = canonical_field g" "map canonical_field fs = map canonical_field gs'"
    by (cases gs) auto
  then show ?case using Cons.IH[of gs'] by (cases f; cases g) (auto split: if_splits)
qed simp

lemma ofold_pairs: "list_all2 R xs ys \<Longrightarrow> (\<And>a x y. R x y \<Longrightarrow> f a x = g a y) \<Longrightarrow> ofold f xs a = ofold g ys a"
proof (induction xs ys arbitrary: a rule: list_all2_induct)
  case (Cons x xs y ys)
  then show ?case by (auto intro!: obind_cong)
qed simp

lemma same_canonical:
  assumes "canonical t = canonical u"
  shows "t = Basic k \<Longrightarrow> u = Basic k"
    "t = Struct c i fs \<Longrightarrow> \<exists>j gs. u = Struct c j gs \<and> map canonical_field fs = map canonical_field gs"
    "t = Array b d \<Longrightarrow> \<exists>b'. u = Array b' d \<and> canonical b = canonical b'"
    "t = FunctionBase f i ps rs \<Longrightarrow> \<exists>j qs ss. u = FunctionBase f j qs ss"
proof -
  have k: "kind_of u = kind_of t" using assms by (metis kind_canonical)
  show "t = Basic k \<Longrightarrow> u = Basic k" using k by (simp add: kind_of_eq)
  show "t = Struct c i fs \<Longrightarrow> \<exists>j gs. u = Struct c j gs \<and> map canonical_field fs = map canonical_field gs"
    using k assms by (auto simp: kind_of_eq)
  show "t = Array b d \<Longrightarrow> \<exists>b'. u = Array b' d \<and> canonical b = canonical b'"
    using k assms by (auto simp: kind_of_eq)
  show "t = FunctionBase f i ps rs \<Longrightarrow> \<exists>j qs ss. u = FunctionBase f j qs ss"
    using k by (auto simp: kind_of_eq)
qed

lemma canonical_sizes:
  assumes p: "predeclares env"
  shows "canonical t = canonical u \<Longrightarrow> alignment env n t = alignment env n u \<and> type_size env n t = type_size env n u"
proof (induction n arbitrary: t u)
  case (Suc n)
  let ?t = "underlying_type env t" and ?u = "underlying_type env u"
  have c: "canonical ?t = canonical ?u" using alike_canonical[OF p Suc.prems] by (simp add: alike_def)
  have k: "kind_of ?u = kind_of ?t" using c by (metis kind_canonical)
  have n: "\<not> is_named ?t" using p underlying_not_named by (auto simp: predeclares_def)
  show ?case
  proof (cases ?t)
    case (Basic s)
    then show ?thesis using same_canonical(1)[OF c Basic] by simp
  next
    case (Struct k i fs)
    then obtain j gs where u: "?u = Struct k j gs" "map canonical_field fs = map canonical_field gs"
      using same_canonical(2)[OF c Struct] by blast
    note l = canonical_fields[OF u(2)]
    have e: "alignment env n (ftype f) = alignment env n (ftype g)" "layout_step env n a f = layout_step env n a g"
      if "canonical (ftype f) = canonical (ftype g)" for f g a
      using Suc.IH[OF that] by (simp_all add: layout_step_def)
    have "ofold (\<lambda>sz f. obind (alignment env n (ftype f)) (\<lambda>a. Inr (max sz a))) fs 0 =
        ofold (\<lambda>sz f. obind (alignment env n (ftype f)) (\<lambda>a. Inr (max sz a))) gs 0"
      by (rule ofold_pairs[OF l], drule e(1), simp)
    moreover have "ofold (layout_step env n) fs 0 = ofold (layout_step env n) gs 0"
      by (rule ofold_pairs[OF l]) (erule e(2))
    ultimately show ?thesis
      by (simp add: Struct u(1) layout_step_def [abs_def])
  next
    case (Array b d)
    then obtain b' where "?u = Array b' d" "canonical b = canonical b'" using same_canonical(3)[OF c Array] by blast
    then show ?thesis using Suc.IH[of b b'] Array by simp
  next
    case (FunctionBase f i ps rs)
    then obtain j qs ss where "?u = FunctionBase f j qs ss" using same_canonical(4)[OF c FunctionBase] by blast
    then show ?thesis using FunctionBase by simp
  qed (use k n in \<open>auto simp: kind_of_eq\<close>)
qed simp

lemma alike_size:
  assumes p: "predeclares env" and a: "alike env t u"
  shows "type_size env n t = type_size env n u"
proof -
  let ?t = "underlying_type env t" and ?u = "underlying_type env u"
  have same: "underlying_type env ?t = ?t" "underlying_type env ?u = ?u"
    using p underlying_not_named by (simp_all add: predeclares_def)
  have "type_size env n t = type_size env n ?t" "type_size env n u = type_size env n ?u"
    by (cases n; simp add: same)+
  then show ?thesis using canonical_sizes[OF p, of ?t ?u n] a by (simp add: alike_def)
qed

text \<open>The sizes of the types the make functions have a case for.\<close>

lemma scalar_basic_size: "scalar_of k = Some s \<Longrightarrow> basic_size k = Inr (of_nat (scalar_size s))"
  by (elim scalar_of.elims) auto

lemma size_underlying:
  assumes "size_of P t = Inr z"
  shows "underlying_type (p_types P) t = Basic k \<Longrightarrow> basic_size k = Inr z"
    "is_pointer (p_types P) t \<Longrightarrow> z = 8" "underlying_kind (p_types P) t = Slice_Kind \<Longrightarrow> z = 24"
    "underlying_kind (p_types P) t = String_Kind \<Longrightarrow> z = 16" "underlying_kind (p_types P) t = Bool_Kind \<Longrightarrow> z = 1"
  using assms kind_of_eq(1)[of "underlying_type (p_types P) t" String] kind_of_eq(1)[of "underlying_type (p_types P) t" Bool]
  by (cases "p_nesting P"; auto simp: size_of_def is_pointer_def underlying_kind_def kind_of_eq split: ty.splits)+

section \<open>Operations that fit an evaluation\<close>

definition operand_fits :: "program \<Rightarrow> ev \<Rightarrow> operation \<Rightarrow> bool" where
  "operand_fits P v c \<longleftrightarrow> (\<forall>t z. e_type v = Some t \<longrightarrow> size_of P t = Inr z \<longrightarrow> esize P c = Some (aligned_size z))"

definition fits :: "program \<Rightarrow> ev \<Rightarrow> operation \<Rightarrow> bool" where
  "fits P v c \<longleftrightarrow>
     (e_kind v = VariableExpressionKind \<longrightarrow> esize P c = Some 8) \<and>
     (e_kind v = ValueExpressionKind \<longrightarrow> operand_fits P v c) \<and>
     (e_kind v = VoidExpressionKind \<longrightarrow> stmt_ok P c)"

text \<open>The generator and the program agree on the types; code addresses fit a word.\<close>

definition links :: "generator \<Rightarrow> program \<Rightarrow> bool" where
  "links G P \<longleftrightarrow> p_types P = g_types G \<and> p_nesting P = g_nesting G \<and> 0 < p_nesting P \<and> predeclares (p_types P) \<and>
     (\<forall>c. word_sized (g_code G c))"

lemma load_fits:
  assumes "fits P v c" "is_value_or_variable v" "load v c = Inr c'"
  shows "operand_fits P v c'"
  using assms
  by (auto simp: fits_def load_def operand_fits_def is_value_or_variable_def obind_eq_Inr the_type_iff sized_Some split: if_splits)

lemma basic_slot:
  assumes "0 < p_nesting P" "underlying_type (p_types P) t = Basic k"
  shows "size_of P t = basic_size k"
  using assms by (cases "p_nesting P") (simp_all add: size_of_def)

lemma float_size: "k \<in> {Float32, Float64, Complex64, Complex128} \<Longrightarrow> basic_size k = Inr (of_nat (number_size (Floating k)))"
  by auto

lemma integral_size:
  assumes "0 < p_nesting P" "integral_number (p_types P) t = Inr s"
  shows "size_of P t = Inr (of_nat (scalar_size s)) \<and> scalar_ok s"
proof -
  obtain k where "underlying_type (p_types P) t = Basic k" "scalar_of k = Some s"
    using assms(2) by (auto simp: integral_number_def split: ty.splits option.splits if_splits)
  then show ?thesis using basic_slot[OF assms(1)] scalar_basic_size scalar_of_ok by simp
qed

lemma arithmetic_size:
  assumes "0 < p_nesting P" "arithmetic_number (p_types P) t = Inr n"
  shows "size_of P t = Inr (of_nat (number_size n)) \<and> number_ok n"
proof -
  obtain k where k: "underlying_type (p_types P) t = Basic k"
    using assms(2) by (auto simp: arithmetic_number_def split: ty.splits)
  then consider s where "scalar_of k = Some s" "n = Scalar s" | "n = Floating k" "k \<in> {Float32, Float64, Complex64, Complex128}"
    using assms(2) by (auto simp: arithmetic_number_def split: option.splits if_splits)
  then show ?thesis using basic_slot[OF assms(1) k] scalar_basic_size scalar_of_ok float_size by cases auto
qed

lemma conversion_size:
  assumes "0 < p_nesting P" "conversion_number (p_types P) t = Inr n"
  shows "size_of P t = Inr (of_nat (number_size n)) \<and> number_ok n"
proof -
  obtain k where k: "underlying_type (p_types P) t = Basic k"
    using assms(2) by (auto simp: conversion_number_def split: ty.splits)
  then consider s where "scalar_of k = Some s" "n = Scalar s" | "n = Floating k" "k \<in> {Float32, Float64, Complex64, Complex128}"
    using assms(2) by (auto simp: conversion_number_def split: option.splits if_splits)
  then show ?thesis using basic_slot[OF assms(1) k] scalar_basic_size scalar_of_ok float_size by cases auto
qed

lemma binary_size:
  assumes "0 < p_nesting P" "binary_number (p_types P) t = Some n"
  shows "size_of P t = Inr (of_nat (number_size n)) \<and> number_ok n"
proof -
  consider k s where "underlying_type (p_types P) t = Basic k" "scalar_of k = Some s" "n = Scalar s"
    | k where "underlying_type (p_types P) t = Basic k" "n = Floating k" "k \<in> {Float32, Float64, Complex64, Complex128}"
    | b where "underlying_type (p_types P) t = Pointer b" "n = Scalar Long"
    using assms(2) by (auto simp: binary_number_def split: ty.splits option.splits if_splits)
  then show ?thesis
  proof cases
    case 3
    then show ?thesis using assms(1) by (cases "p_nesting P") (simp_all add: size_of_def)
  qed (use basic_slot[OF assms(1)] scalar_basic_size scalar_of_ok float_size in auto)
qed

text \<open>An operand whose size is that of a number.\<close>

lemma operand_number:
  assumes "operand_fits P v c" "e_type v = Some t" "size_of P t = Inr (of_nat n)"
  shows "esize P c = Some (slot_bytes n)"
  using assms by (simp add: operand_fits_def)

lemma member_scalar_size: "scalar_of k = Some s \<Longrightarrow> member_size k = scalar_size s"
  by (elim scalar_of.elims) auto

lemma literal_fits:
  assumes n: "0 < p_nesting P" and l: "make_literal (p_types P) t x = Inr c" "value_ok x" and z: "size_of P t = Inr z"
  shows "esize P c = Some (aligned_size z)"
proof -
  obtain n where n: "literal_size (p_types P) t = Some n" "c = operation.Literal (member_bytes n x)"
    using l(1) by (auto simp: make_literal_def split: if_splits option.splits)
  have "z = of_nat n \<and> n \<le> 24"
  proof (cases "underlying_type (p_types P) t")
    case (Basic k)
    then have k: "n = member_size k" "scalar_of k \<noteq> None \<or> k \<in> {Float64, String}"
      using n(1) by (auto simp: literal_size_def split: if_splits)
    moreover have "basic_size k = Inr z" using size_underlying(1)[OF z Basic] .
    ultimately show ?thesis using scalar_basic_size member_scalar_size member_size_le[of k] by fastforce
  qed (use n(1) size_underlying(2,3)[OF z] in \<open>auto simp: literal_size_def is_pointer_def underlying_kind_def\<close>)
  then show ?thesis using n(2) length_member[OF l(2)] by simp
qed

section \<open>What the generator demands\<close>

text \<open>The bytes of parameters on the stack, when they have sizes and fit the address space.\<close>

fun total_size :: "program \<Rightarrow> parameter list \<Rightarrow> int option" where
  "total_size P [] = Some 0"
| "total_size P (p # ps) =
     (case (sized (size_of P (ptype p)), total_size P ps) of (Some i, Some j) \<Rightarrow> Some (i + j) | _ \<Rightarrow> None)"

definition frame_sized :: "program \<Rightarrow> parameter_list \<Rightarrow> bool" where
  "frame_sized P ps \<longleftrightarrow> (case total_size P (parameters ps) of Some n \<Rightarrow> n < 2 ^ 64 | None \<Rightarrow> False)"

text \<open>The callable at an address is the one its type describes.\<close>

definition callable_linked :: "program \<Rightarrow> int \<Rightarrow> parameter list \<Rightarrow> parameter_list \<Rightarrow> bool" where
  "callable_linked P a ps rs \<longleftrightarrow>
     (case callable_at P a of
        None \<Rightarrow> False
      | Some c \<Rightarrow> \<not> c_reaction c \<and> parameters (c_parameters c) = ps \<and> parameters (c_return c) = parameters rs \<and>
          frame_sized P (c_parameters c) \<and> frame_sized P rs)"

definition function_linked :: "program \<Rightarrow> int \<Rightarrow> ty \<Rightarrow> bool" where
  "function_linked P a t \<longleftrightarrow>
     (case t of FunctionBase Function i ps rs \<Rightarrow> callable_linked P a (parameters ps) rs | _ \<Rightarrow> False)"

text \<open>A method is called on what its receiver is declared for.\<close>

definition method_linked :: "program \<Rightarrow> int \<Rightarrow> ty \<Rightarrow> ty \<Rightarrow> bool" where
  "method_linked P a base t \<longleftrightarrow>
     (case t of
        MethodBase c i n r ps rs \<Rightarrow>
          callable_linked P a (r # parameters ps) rs \<and>
          (is_pointer (p_types P) base \<or> is_pointer (p_types P) (ptype r) \<or> alike (p_types P) (ptype r) base)
      | _ \<Rightarrow> False)"

definition method_type :: "ty \<Rightarrow> bool" where
  "method_type t \<longleftrightarrow> (case t of MethodBase c i n r ps rs \<Rightarrow> True | _ \<Rightarrow> False)"

definition constant_ok :: "ev \<Rightarrow> bool" where
  "constant_ok v \<longleftrightarrow> known v \<longrightarrow> value_ok (e_value v)"

text \<open>
  The trees the discipline covers, which are fewer than the checker accepts: the operators work on typed operands unless they are folded
  (the generator aborts on the others), println prints values of types that have a size (it pops the size of a type name that it has
  not pushed, see \<open>println_of_type_pops\<close> in Declarations), and calls go to callables of the program whose signature is that of
  their type.  Pull port calls are left out: the getter they execute is read from memory when they run, and nothing the checker
  sees bounds what it does to the stack.  Push ports are called in activations only, by \<open>regular_port\<close>.
\<close>

fun regular :: "program \<Rightarrow> texp \<Rightarrow> bool" where
  "regular P (T_Literal v) \<longleftrightarrow> constant_ok v"
| "regular P (T_Identifier v s) \<longleftrightarrow> constant_ok v"
| "regular P (T_Address_Of v e) \<longleftrightarrow> regular P e"
| "regular P (T_Dereference v e) \<longleftrightarrow> regular P e"
| "regular P (T_Field v e fs k) \<longleftrightarrow> regular P e"
| "regular P (T_Method v e c) \<longleftrightarrow> regular P e \<and> method_type (snd c)"
| "regular P (T_Index v b i t) \<longleftrightarrow> regular P b \<and> regular P i"
| "regular P (T_Index_Slice v b lo hi mx t) \<longleftrightarrow>
     regular P b \<and> pred_option (regular P) lo \<and> pred_option (regular P) hi \<and> pred_option (regular P) mx"
| "regular P (T_Conversion v e) \<longleftrightarrow> regular P e"
| "regular P (T_Builtin v f es) \<longleftrightarrow>
     list_all (regular P) es \<and>
     (f = Println \<longrightarrow> list_all (\<lambda>e. is_value_or_variable (ev_of e) \<and> has_type (ev_of e) (\<lambda>t. sized (size_of P t) \<noteq> None)) es)"
| "regular P (T_Call v f es) \<longleftrightarrow>
     list_all (regular P) es \<and>
     (case f of
        T_Identifier w (Function_Entry n a _) \<Rightarrow> has_type w (function_linked P a)
      | T_Method w e (a, _) \<Rightarrow> regular P e \<and> has_type (ev_of e) (\<lambda>base. has_type w (method_linked P a base))
      | _ \<Rightarrow> False)"
| "regular P (T_Unary v f e) \<longleftrightarrow> constant_ok v \<and> regular P e \<and> (known v \<or> has_type (ev_of e) (\<lambda>t. \<not> is_untyped t))"
| "regular P (T_Binary v f l r) \<longleftrightarrow>
     constant_ok v \<and> regular P l \<and> regular P r \<and> (known v \<or> has_type (ev_of l) (\<lambda>t. \<not> is_untyped t))"
| "regular P (T_Push_Port_Call v fs k ps es) \<longleftrightarrow> False"
| "regular P (T_Indexed_Push_Port_Call v fs k ps t i es) \<longleftrightarrow> False"
| "regular P _ \<longleftrightarrow> True"

text \<open>The calls of an activation.\<close>

fun regular_port :: "program \<Rightarrow> texp \<Rightarrow> bool" where
  "regular_port P (T_Push_Port_Call v fs k ps es) \<longleftrightarrow> list_all (regular P) es \<and> frame_sized P ps"
| "regular_port P (T_Indexed_Push_Port_Call v fs k ps t i es) \<longleftrightarrow>
     list_all (regular P) es \<and> frame_sized P ps \<and> regular P i"
| "regular_port P _ \<longleftrightarrow> False"

text \<open>
  An expression that stands as a statement is a call, or a value of some bytes: for a variable the checker accepts one whose address
  stays on the stack, see \<open>variable_statement_moves_top\<close>.
\<close>

fun regular_stmt :: "program \<Rightarrow> tstmt \<Rightarrow> bool" where
  "regular_stmt P (S_Expression e) \<longleftrightarrow>
     regular P e \<and> e_kind (ev_of e) \<noteq> VariableExpressionKind \<and>
     (e_kind (ev_of e) = ValueExpressionKind \<longrightarrow> has_type (ev_of e) (\<lambda>t. size_of P t \<noteq> Inr 0))"
| "regular_stmt P (S_Var vs es) \<longleftrightarrow> list_all (regular P) es"
| "regular_stmt P (S_Assign l r) \<longleftrightarrow> regular P l \<and> regular P r"
| "regular_stmt P (S_Add_Assign l r) \<longleftrightarrow> regular P l \<and> regular P r"
| "regular_stmt P (S_Step up e) \<longleftrightarrow> regular P e"
| "regular_stmt P (S_Return i t e) \<longleftrightarrow> regular P e"
| "regular_stmt P (S_List cs) \<longleftrightarrow> list_all (regular_stmt P) cs"
| "regular_stmt P (S_If before c t f) \<longleftrightarrow> regular P c \<and> regular_stmt P t \<and> regular_stmt P f"
| "regular_stmt P (S_While c b) \<longleftrightarrow> regular P c \<and> regular_stmt P b"
| "regular_stmt P (S_For i n b) \<longleftrightarrow> regular_stmt P b"
| "regular_stmt P (S_Activate a es b) \<longleftrightarrow> list_all (regular_port P) es \<and> regular_stmt P b"
| "regular_stmt P _ \<longleftrightarrow> True"

section \<open>Lists of arguments\<close>

lemma sized_aligned: "sized r = Some i \<Longrightarrow> 0 \<le> i \<and> 8 dvd i"
  by (auto simp: sized_Some)

lemma total_size_nonneg: "total_size P ps = Some n \<Longrightarrow> 0 \<le> n \<and> 8 dvd n"
  by (induction ps arbitrary: n) (auto split: option.splits dest!: sized_aligned)

lemma aligned_exact: "8 dvd uint w \<Longrightarrow> aligned_size w = uint w"
proof -
  assume "8 dvd uint w"
  then have "8 dvd unat w" by (metis int_dvd_int_iff of_nat_numeral uint_nat)
  then have "align_up w 8 = w"
    using align_up_of_nat[of "unat w" 3] round_up_exact[of 8 "unat w"] by simp
  then show ?thesis by (simp add: aligned_size_def stack_alignment_def)
qed

lemma total_fold:
  assumes "total_size P qs = Some n" "uint a + n < 2 ^ 64"
  shows "\<exists>w. ofold (\<lambda>sz p. obind (size_on_stack (p_types P) (p_nesting P) (ptype p)) (\<lambda>s. Inr (sz + s))) qs a = Inr w \<and>
    uint w = uint a + n"
  using assms
proof (induction qs arbitrary: a n)
  case (Cons q qs)
  obtain z j where z: "size_of P (ptype q) = Inr z" "total_size P qs = Some j" "n = aligned_size z + j"
    using Cons.prems(1) by (auto simp: sized_Some split: option.splits)
  have j: "0 \<le> j" using total_size_nonneg[OF z(2)] by simp
  let ?a = "a + align_up z stack_alignment"
  have u: "uint ?a = uint a + aligned_size z"
    using Cons.prems(2) z(3) j by (simp add: aligned_size_def uint_add_lem [THEN iffD1])
  have "uint ?a + j < 2 ^ 64" using Cons.prems(2) z(3) u by simp
  from Cons.IH[OF z(2) this] u z(3) show ?case
    using z(1) by (auto simp: size_on_stack_def size_of_def)
qed simp

lemma frame_size:
  assumes "frame_sized P ps"
  shows "\<exists>n. total_size P (parameters ps) = Some n \<and> sized (list_size P ps) = Some n"
proof -
  obtain n where n: "total_size P (parameters ps) = Some n" "n < 2 ^ 64"
    using assms by (auto simp: frame_sized_def split: option.splits)
  have "uint (0 :: 64 word) + n < 2 ^ 64" using n(2) by simp
  from total_fold[OF n(1) this] obtain w where w: "list_size P ps = Inr w" "uint w = n"
    by (auto simp: list_size_def list_size_on_stack_def)
  then show ?thesis
    using aligned_exact[of w] total_size_nonneg[OF n(1)] n(1) by (simp add: sized_Some)
qed

lemma arguments_size:
  assumes "arguments_ok vs ps" "list_all2 (operand_fits P) vs cs" "total_size P ps = Some n"
  shows "esizes P cs = Some n"
  using assms
proof (induction ps arbitrary: vs cs n)
  case (Cons p ps)
  obtain v ws where v: "vs = v # ws" "e_type v = Some (ptype p)" "arguments_ok ws ps"
    using Cons.prems(1) by (auto simp: arguments_ok_def list_all2_Cons2)
  obtain c ds where c: "cs = c # ds" "operand_fits P v c" "list_all2 (operand_fits P) ws ds"
    using Cons.prems(2) v(1) by (auto simp: list_all2_Cons1)
  obtain z j where z: "size_of P (ptype p) = Inr z" "total_size P ps = Some j" "n = aligned_size z + j"
    using Cons.prems(3) by (auto simp: sized_Some split: option.splits)
  show ?case using Cons.IH[OF v(3) c(3) z(2)] c v(2) z by (simp add: operand_fits_def)
qed (auto simp: arguments_ok_def)

section \<open>Expressions\<close>

lemma variable_operationD: "variable_operation v m = Inr c \<Longrightarrow> e_kind v = VariableExpressionKind \<and> m = Inr c"
  by (auto simp: variable_operation_def split: if_splits)

lemma fitsI:
  "e_kind v = VariableExpressionKind \<Longrightarrow> esize P c = Some 8 \<Longrightarrow> fits P v c"
  "e_kind v = ValueExpressionKind \<Longrightarrow> operand_fits P v c \<Longrightarrow> fits P v c"
  "e_kind v = VoidExpressionKind \<Longrightarrow> stmt_ok P c \<Longrightarrow> fits P v c"
  by (simp_all add: fits_def)

text \<open>A result of eight bytes of a pointer type or the like.\<close>

lemma operand_fitsI:
  assumes "has_type v p" "\<And>t z. e_type v = Some t \<Longrightarrow> p t \<Longrightarrow> size_of P t = Inr z \<Longrightarrow> esize P c = Some (aligned_size z)"
  shows "operand_fits P v c"
  using assms by (auto simp: operand_fits_def has_type_iff)

lemma pointer_fits: "has_type v (is_pointer (p_types P)) \<Longrightarrow> esize P c = Some 8 \<Longrightarrow> operand_fits P v c"
  by (erule operand_fitsI) (drule (1) size_underlying(2), simp)

lemma identifier_fits:
  assumes l: "links G P" and g: "generate_identifier G v s = Inr c" and w: "identifier_ok v s" and k: "constant_ok v"
  shows "fits P v c"
proof (cases "known v")
  case True
  then have "e_kind v = ValueExpressionKind" using w by (auto simp: identifier_ok_def split: entry.splits)
  moreover have "operand_fits P v c"
    using True g k l literal_fits
    by (auto simp: generate_identifier_def obind_eq_Inr the_type_iff operand_fits_def constant_ok_def links_def)
  ultimately show ?thesis by (rule fitsI(2))
next
  case False
  then show ?thesis using g w by (auto simp: generate_identifier_def identifier_ok_def fits_def split: entry.splits)
qed

lemma pointer_size: "0 < p_nesting P \<Longrightarrow> is_pointer (p_types P) t \<Longrightarrow> size_of P t = Inr 8"
  by (cases "p_nesting P"; cases "underlying_type (p_types P) t") (auto simp: size_of_def is_pointer_def)

lemma field_fits:
  assumes l: "links G P" and g: "field_operation G b fs k c = Inr d" and w: "e_kind v = VariableExpressionKind"
    and c: "esize P c = Some 8"
  shows "fits P v d"
proof -
  obtain t and z :: int where t: "e_type b = Some t" "d = operation.Select (if is_pointer (g_types G) t then Load c t else c) z"
    using g by (auto simp: field_operation_def obind_eq_Inr the_type_iff dest!: variable_operationD)
  have "esize P (if is_pointer (g_types G) t then Load c t else c) = Some 8"
    using c l pointer_size[of P t] by (auto simp: links_def sized_def)
  then show ?thesis using t w by (intro fitsI(1)) simp_all
qed

lemma aligned_sizes [simp]: "aligned_size 1 = 8" "aligned_size 8 = 8" "aligned_size 16 = 16" "aligned_size 24 = 24"
  by (simp_all add: aligned_size_def align_up_def stack_alignment_def)

lemma to_slice_iff: "to_slice t = Some b \<longleftrightarrow> t = Slice b"
  by (cases t) auto

text \<open>Sizes by the type underneath.\<close>

lemma size_by_type:
  assumes "0 < p_nesting P"
  shows "underlying_type (p_types P) t = Slice b \<Longrightarrow> size_of P t = Inr 24"
    "underlying_type (p_types P) t = MethodBase c i n r ps rs \<Longrightarrow> size_of P t = Inl Not_reached"
  using assms by (cases "p_nesting P"; simp add: size_of_def)+

lemma kind_size:
  assumes "0 < p_nesting P"
  shows "underlying_kind (p_types P) t = Slice_Kind \<Longrightarrow> size_of P t = Inr 24"
    "underlying_kind (p_types P) t = singleton_kind k \<Longrightarrow> size_of P t = basic_size k"
  using size_by_type[OF assms] basic_slot[OF assms] by (auto simp: underlying_kind_def kind_of_eq)

lemmas bool_size = kind_size(2)[where k = Bool, simplified]
lemmas byte_size = kind_size(2)[where k = Uint8, simplified]
lemmas string_size = kind_size(2)[where k = String, simplified]

lemma linksD:
  assumes "links G P"
  shows "g_types G = p_types P" "g_nesting G = p_nesting P" "0 < p_nesting P" "predeclares (p_types P)"
    "word_sized (g_code G c)"
  using assms unfolding links_def by auto

lemma index_fits:
  assumes l: "links G P" and g: "index_operation G v c = Inr d" and w: "index_ev (p_types P) v" and c: "fits P v c"
  shows "esize P d = Some 8"
proof -
  obtain c' t s where s: "load v c = Inr c'" "e_type v = Some t" "integral_number (p_types P) t = Inr s" "d = ConvertToInt s c'"
    using g linksD(1)[OF l] by (auto simp: index_operation_def make_convert_to_int_def obind_eq_Inr the_type_iff)
  note z = integral_size[OF linksD(3)[OF l] s(3)]
  have "operand_fits P v c'" using load_fits[OF c _ s(1)] w by (simp add: index_ev_def)
  from operand_number[OF this s(2)] z show ?thesis using s(4) by simp
qed

lemma method_fits:
  assumes l: "links G P" and w: "is_value_or_variable v" "has_type v (\<lambda>t. follows (p_types P) t u)" and u: "method_type u"
  shows "fits P v (address_literal a)"
proof -
  have e: "esize P (address_literal a) = Some 8" by (simp add: address_literal_def)
  obtain t where t: "e_type v = Some t" "follows (p_types P) t u" using w(2) by (auto simp: has_type_iff)
  obtain c i n r ps rs where m: "u = MethodBase c i n r ps rs" using u by (auto simp: method_type_def split: ty.splits)
  have "underlying_kind (p_types P) t = method_kind c"
    using t(2) follows_kind[of "p_types P" t u] m by (auto simp: untyped_iff underlying_kind_def)
  then have "size_of P t = Inl Not_reached"
    using size_by_type(2)[OF linksD(3)[OF l]] by (auto simp: underlying_kind_def kind_of_eq)
  then show ?thesis using e w(1) t(1) by (auto simp: fits_def operand_fits_def is_value_or_variable_def)
qed

text \<open>Conversions.\<close>

lemma conversion_fits:
  assumes n: "0 < p_nesting P" "predeclares (p_types P)" and m: "make_conversion (p_types P) c from to = Inr d"
    and v: "e_type w = Some from" "operand_fits P w c" and z: "size_of P to = Inr z"
  shows "esize P d = Some (aligned_size z)"
proof -
  let ?env = "p_types P"
  obtain same where same: "are_identical (underlying_type ?env from) (underlying_type ?env to) = Inr same"
    using m by (auto simp: make_conversion_def obind_eq_Inr)
  show ?thesis
  proof (cases same)
    case True
    then have "alike ?env from to" using same by (simp add: alike_def are_identical_canonical_aux(1))
    then have "size_of P from = Inr z" using alike_size[OF n(2)] z by (simp add: size_of_def)
    moreover have "d = c" using m same True by (simp add: make_conversion_def)
    ultimately show ?thesis using v by (simp add: operand_fits_def)
  next
    case False
    obtain pt where pt: "(case (to_pointer from, to_pointer to) of (Some x, Some y) \<Rightarrow> are_identical x y | _ \<Rightarrow> Inr False) = Inr pt"
      using m same False unfolding make_conversion_def by (auto simp: obind_eq_Inr)
    consider (number) a b where "conversion_number ?env from = Inr a" "conversion_number ?env to = Inr b" "d = operation.Conversion a b c"
      | (string) "is_slice_of_bytes ?env from" "is_typed_string ?env to" "d = ConvertSliceOfBytesToString c"
      | (bytes) "is_typed_string ?env from" "is_slice_of_bytes ?env to" "d = ConvertStringToSliceOfBytes c"
      using m same False unfolding make_conversion_def pt by (auto simp: obind_eq_Inr split: if_splits)
    then show ?thesis
    proof cases
      case number
      then show ?thesis
        using conversion_size[OF n(1) number(1)] conversion_size[OF n(1) number(2)] operand_number[OF v(2,1)] z by simp
    next
      case string
      then have "underlying_kind ?env from = Slice_Kind" "underlying_kind ?env to = String_Kind"
        by (auto simp: is_slice_of_bytes_def is_typed_string_def underlying_kind_def to_slice_iff split: option.splits)
      then show ?thesis using string(3) v z kind_size(1)[OF n(1)] string_size[OF n(1)] by (auto simp: operand_fits_def)
    next
      case bytes
      then have "underlying_kind ?env to = Slice_Kind" "underlying_kind ?env from = String_Kind"
        by (auto simp: is_slice_of_bytes_def is_typed_string_def underlying_kind_def to_slice_iff split: option.splits)
      then show ?thesis using bytes(3) v z kind_size(1)[OF n(1)] string_size[OF n(1)] by (auto simp: operand_fits_def)
    qed
  qed
qed

lemma load_pointer:
  assumes l: "links G P" and v: "is_value_or_variable v" "has_type v (is_pointer (p_types P))"
    and c: "fits P v c" "load v c = Inr d"
  shows "esize P d = Some 8"
  using load_fits[OF c(1) v(1) c(2)] pointer_size[OF linksD(3)[OF l]] v(2) by (auto simp: operand_fits_def has_type_iff)

lemma load_slice:
  assumes l: "links G P" and v: "is_value_or_variable v" "has_type v (\<lambda>u. underlying_type (p_types P) u = Slice e)"
    and c: "fits P v c" "load v c = Inr d"
  shows "esize P d = Some 24"
  using load_fits[OF c(1) v(1) c(2)] size_by_type(1)[OF linksD(3)[OF l]] v(2) by (auto simp: operand_fits_def has_type_iff)

lemma index_result_fits:
  assumes l: "links G P" and g: "generate_index G b t b' i' = Inr d" and w: "indexed_ok (p_types P) v b t"
    and c: "fits P b b'" "esize P i' = Some 8"
  shows "fits P v d"
proof (cases t)
  case (Array e n)
  then have s: "e_kind b = VariableExpressionKind" "d = IndexArray b' i' t"
    using g by (auto simp: generate_index_def dest!: variable_operationD)
  then show ?thesis using w c Array by (auto simp: indexed_ok_def fits_def is_value_or_variable_def)
next
  case (Slice e)
  have s: "e_kind b = VariableExpressionKind" "d = operation.IndexSlice (Load b' t) i' t"
    using g Slice by (auto simp: generate_index_def dest!: variable_operationD)
  have "size_of P t = Inr 24"
    using size_by_type(1)[OF linksD(3)[OF l], of t e] Slice by simp
  then show ?thesis using s w c Slice by (auto simp: indexed_ok_def fits_def sized_def)
qed (use g in \<open>auto simp: generate_index_def\<close>)

lemma slice_result_fits:
  assumes l: "links G P" and g: "generate_slice b t b' lo hi mx = Inr d" and w: "sliced_ok (p_types P) v b t"
    and c: "fits P b b'" "bound_ok P lo" "bound_ok P hi" "bound_ok P mx"
  shows "fits P v d"
proof -
  have "esize P d = Some 24"
  proof (cases t)
    case (Array e n)
    then have s: "e_kind b = VariableExpressionKind" "d = SliceArray b' lo hi mx t"
      using g by (auto simp: generate_slice_def dest!: variable_operationD)
    then show ?thesis using c by (simp add: fits_def)
  next
    case (Slice e)
    then obtain b2 where s: "load b b' = Inr b2" "d = SliceSlice b2 lo hi mx t"
      using g by (auto simp: generate_slice_def obind_eq_Inr)
    have "esize P b2 = Some 24" using load_slice[OF l _ _ c(1) s(1), of e] w Slice by (simp add: sliced_ok_def)
    then show ?thesis using s(2) c by simp
  qed (use g in \<open>auto simp: generate_slice_def\<close>)
  then show ?thesis
    using w kind_size(1)[OF linksD(3)[OF l]] by (auto simp: sliced_ok_def fits_def operand_fits_def has_type_iff)
qed

text \<open>Operators on typed operands.\<close>

lemma size_follows:
  assumes "predeclares (p_types P)" "follows (p_types P) t u" "\<not> is_untyped u"
  shows "size_of P t = size_of P u"
  using assms alike_size by (auto simp: follows_def size_of_def)

lemma unary_fits:
  assumes n: "0 < p_nesting P" "predeclares (p_types P)" and g: "generate_unary (p_types P) f t c = Inr d"
    and w: "unary_ok (p_types P) v e" "\<not> known v" "has_type e (\<lambda>t. \<not> is_untyped t)" "e_type v = Some t"
    and c: "operand_fits P e c"
  shows "fits P v d"
proof -
  have d: "d = Unary_Not (ListOperation [c])" "underlying_kind (p_types P) t = Bool_Kind"
    using g by (auto simp: generate_unary_def make_unary_def split: unary_operator.splits if_splits)
  obtain u where u: "e_type e = Some u" "\<not> is_untyped u" "follows (p_types P) t u"
    using w by (auto simp: unary_ok_def has_type_iff)
  have z: "size_of P t = Inr 1" using bool_size[OF n(1) d(2)] .
  then have "esize P c = Some 8" using c u size_follows[OF n(2) u(3,2)] by (simp add: operand_fits_def)
  then show ?thesis using d(1) z w by (simp add: unary_ok_def fits_def operand_fits_def)
qed

lemma logic_typed:
  assumes "predeclares env" "\<not> is_untyped t" "underlying_kind env t \<in> {Bool_Kind, Untyped_Boolean_Kind}"
  shows "underlying_kind env t = Bool_Kind"
proof (rule ccontr)
  assume "underlying_kind env t \<noteq> Bool_Kind"
  then have "is_untyped (underlying_type env t)"
    using assms(3) by (auto simp: underlying_kind_def is_untyped_def kind_order_eval)
  then show False using untyped_underlying_iff[OF assms(1)] assms(2) by blast
qed

lemma numbers_fit:
  assumes z: "size_of P s = Inr (of_nat (number_size n)) \<and> number_ok n"
    and l: "operand_fits P v cl" "e_type v = Some s" and r: "operand_fits P w cr" "e_type w = Some s"
  shows "esize P (Binary n g cl cr) = Some (slot_bytes (result_size n g))"
  using z operand_number[OF l] operand_number[OF r] by simp

lemma binary_fits:
  assumes n: "0 < p_nesting P" "predeclares (p_types P)" and g: "generate_binary (p_types P) f t s u cl cr = Inr d"
    and w: "binary_ok (p_types P) v f l r" "\<not> known v" "\<not> is_untyped s"
    and t: "e_type v = Some t" "e_type l = Some s" "e_type r = Some u"
    and c: "operand_fits P l cl" "operand_fits P r cr"
  shows "fits P v d"
proof -
  let ?env = "p_types P"
  have k: "e_kind v = ValueExpressionKind" using w(1) by (simp add: binary_ok_def)
  have "operand_fits P v d"
  proof (cases f)
    case (Computed h)
    have su: "u = s" and o: "if is_comparison h then underlying_kind ?env t = Bool_Kind else follows ?env t s"
      using w t Computed by (auto simp: binary_ok_def has_type_iff split: if_splits)
    note r = c(2) t(3) [unfolded su]
    show ?thesis
    proof (cases "is_comparison h")
      case True
      then obtain m where m: "binary_number ?env s = Some m" "d = Binary m h cl cr"
        using g Computed by (auto simp: generate_binary_def make_binary_arithmetic_def split: option.splits)
      have "size_of P t = Inr 1" using o True bool_size[OF n(1)] by simp
      then show ?thesis
        using numbers_fit[OF binary_size[OF n(1) m(1)] c(1) t(2) r] m(2) t(1) True by (simp add: operand_fits_def result_size_def)
    next
      case False
      then have z: "size_of P t = size_of P s" using size_follows[OF n(2) _ w(3)] o by simp
      consider m where "binary_number ?env t = Some m" "d = Binary m h cl cr"
        | i where "integral_number ?env t = Inr i" "d = Binary (Scalar i) h cl cr"
        using g Computed False
        by (auto simp: generate_binary_def make_binary_arithmetic_def make_binary_integral_def obind_eq_Inr
            split: option.splits if_splits)
      then have "\<exists>m. (size_of P t = Inr (of_nat (number_size m)) \<and> number_ok m) \<and> d = Binary m h cl cr"
      proof cases
        case 1
        then show ?thesis using binary_size[OF n(1)] by blast
      next
        case 2
        then show ?thesis using integral_size[OF n(1)] by (intro exI[of _ "Scalar i"]) simp
      qed
      then obtain m where m: "size_of P t = Inr (of_nat (number_size m)) \<and> number_ok m" "d = Binary m h cl cr" by blast
      show ?thesis
        using numbers_fit[OF _ c(1) t(2) r, of m h] m z t(1) False by (simp add: operand_fits_def result_size_def)
    qed
  next
    case (Shifted up)
    obtain i j where m: "integral_number ?env u = Inr i" "integral_number ?env t = Inr j" "d = Shift j up cl (ConvertToUint i cr)"
      using g Shifted by (auto simp: generate_binary_def make_convert_to_uint_def make_shift_def obind_eq_Inr)
    have z: "size_of P t = size_of P s"
      using size_follows[OF n(2) _ w(3)] w t Shifted by (auto simp: binary_ok_def has_type_iff)
    have "size_of P s = Inr (of_nat (scalar_size j))" "scalar_ok j" using integral_size[OF n(1) m(2)] z by simp_all
    then have "esize P cl = Some 8" "size_of P t = Inr (of_nat (scalar_size j))"
      using operand_number[OF c(1) t(2)] z by simp_all
    moreover have "esize P cr = Some 8" using integral_size[OF n(1) m(1)] operand_number[OF c(2) t(3)] by simp
    ultimately show ?thesis
      using integral_size[OF n(1) m(1)] integral_size[OF n(1) m(2)] m(3) t(1) by (simp add: operand_fits_def)
  next
    case (Logic stop)
    have h: "u = s" "underlying_kind ?env t = Bool_Kind" "underlying_kind ?env s = Bool_Kind"
      using w t Logic logic_typed[OF n(2) w(3)] by (auto simp: binary_ok_def has_type_iff)
    have "d = (if stop then LogicOr cl cr else LogicAnd cl cr)" using g Logic by (simp add: generate_binary_def)
    then show ?thesis using c t h bool_size[OF n(1)] by (simp add: operand_fits_def)
  qed
  then show ?thesis using k by (rule fitsI(2)[rotated])
qed

text \<open>Predeclared functions.\<close>

lemma builtin_fits:
  assumes n: "0 < p_nesting P" "predeclares (p_types P)" and g: "generate_builtin (p_types P) f ts cs = Inr d"
    and w: "builtin_ok (p_types P) v f vs" and ts: "map e_type vs = map Some ts"
    and c: "f \<in> {Len, Append, Copy} \<Longrightarrow> list_all2 (operand_fits P) vs cs"
    and p: "f = Println \<Longrightarrow> list_all2 (\<lambda>t c. esize P c \<noteq> None \<and> esize P c = sized (size_of P t)) ts cs"
  shows "fits P v d"
proof -
  let ?env = "p_types P"
  show ?thesis
  proof (cases f)
    case New
    then have "esize P d = Some 8" using g by (auto simp: generate_builtin_def split: list.splits)
    then show ?thesis
      using pointer_fits[of v P d] w New by (auto simp: builtin_ok_def fits_def)
  next
    case Len
    then obtain a t where a: "vs = [a]" "e_type a = Some t" "underlying_kind ?env t = Slice_Kind"
      using w by (auto simp: builtin_ok_def has_type_iff split: list.splits)
    then obtain x where x: "cs = [x]" "operand_fits P a x" using c Len by (auto simp: list_all2_Cons1)
    have "esize P x = Some 24" using x a kind_size(1)[OF n(1)] by (simp add: operand_fits_def)
    then have "esize P d = Some 8" using g Len x by (auto simp: generate_builtin_def)
    moreover obtain u where u: "e_type v = Some u" "alike ?env u named_int" using w Len by (auto simp: builtin_ok_def has_type_iff)
    have "size_of P u = Inr 8"
    proof -
      have "underlying_type ?env named_int = Basic Intt" using n(2) by (simp add: predeclares_def named_int_def)
      then have "size_of P named_int = Inr 8" using basic_slot[OF n(1)] by simp
      then show ?thesis using alike_size[OF n(2) u(2)] by (simp add: size_of_def)
    qed
    ultimately show ?thesis using w Len u by (auto simp: builtin_ok_def fits_def operand_fits_def)
  next
    case Append
    then obtain a b where a: "vs = [a, b]" using w by (auto simp: builtin_ok_def split: list.splits)
    obtain t e u where t: "e_type a = Some t" "underlying_type ?env t = Slice e" "e_type b = Some u" "canonical e = canonical u"
      using w Append a by (auto simp: builtin_ok_def has_type_iff to_slice_iff split: option.splits)
    obtain x y where x: "cs = [x, y]" "operand_fits P a x" "operand_fits P b y" using c Append a by (auto simp: list_all2_Cons1)
    obtain us where us: "ts = t # us" using ts a t by (cases ts) auto
    then have d: "underlying_kind ?env e = Uint8_Kind" "d = AppendOp (Slice e) (ListOperation cs)"
      using g Append t by (auto simp: generate_builtin_def make_append_def split: if_splits)
    have "underlying_kind ?env u = Uint8_Kind" using d(1) alike_kind[OF alike_canonical[OF n(2) t(4)]] by simp
    then have "esize P y = Some 8" using byte_size[OF n(1)] x(3) t(3) by (simp add: operand_fits_def)
    moreover have "esize P x = Some 24" using size_by_type(1)[OF n(1) t(2)] x(2) t(1) by (simp add: operand_fits_def)
    ultimately have "esize P d = Some 24" using d x by simp
    then show ?thesis
      using w Append kind_size(1)[OF n(1)] by (auto simp: builtin_ok_def fits_def operand_fits_def has_type_iff)
  next
    case Copy
    then obtain a where a0: "vs = [a]"
      "has_type a (\<lambda>u. underlying_kind ?env u \<in> {Slice_Kind, String_Kind} \<and> has_type v (\<lambda>t. alike ?env t u))"
      using w by (auto simp: builtin_ok_def split: list.splits)
    then obtain u where a: "vs = [a]" "e_type a = Some u" "underlying_kind ?env u \<in> {Slice_Kind, String_Kind}"
      "has_type v (\<lambda>t. alike ?env t u)"
      unfolding has_type_iff [of a] by blast
    obtain x where x: "cs = [x]" "operand_fits P a x" using c Copy a by (auto simp: list_all2_Cons1)
    obtain t where t: "e_type v = Some t" "alike ?env t u" using a(4) by (auto simp: has_type_iff)
    have z: "size_of P t = size_of P u" using alike_size[OF n(2) t(2)] by (simp add: size_of_def)
    have "d = CopyOp u (ListOperation cs)" using g Copy ts a by (cases ts) (auto simp: generate_builtin_def)
    moreover have "esize P x = Some 24 \<and> underlying_type ?env u = Slice b \<or> esize P x = Some 16 \<and> underlying_type ?env u = Basic String"
      if "underlying_type ?env u \<in> {Slice b, Basic String}" for b
      using that x(2) a(2) size_by_type(1)[OF n(1)] basic_slot[OF n(1)] by (auto simp: operand_fits_def)
    moreover have "\<exists>b. underlying_type ?env u \<in> {Slice b, Basic String}"
      using a(3) kind_of_eq(1)[of _ String] by (auto simp: underlying_kind_def kind_of_eq)
    ultimately have "operand_fits P v d"
      using x(1) t(1) z size_by_type(1)[OF n(1)] basic_slot[OF n(1)] by (auto simp: operand_fits_def)
    then show ?thesis using w Copy by (simp add: builtin_ok_def fits_def)
  next
    case Println
    then have "d = PrintlnOp ts cs" using g by (simp add: generate_builtin_def)
    then show ?thesis using p Println w by (simp add: builtin_ok_def fits_def)
  qed (use g in \<open>auto simp: generate_builtin_def\<close>)
qed

text \<open>Calls.\<close>

lemma untyped_size: "0 < p_nesting P \<Longrightarrow> predeclares (p_types P) \<Longrightarrow> is_untyped t \<Longrightarrow> sized (size_of P t) = None"
  by (cases "p_nesting P") (auto simp: untyped_iff untyped_singletons_def size_of_def sized_def)

lemma result_fits:
  assumes n: "0 < p_nesting P" "predeclares (p_types P)" and f: "frame_sized P rs" and d: "esize P d = sized (list_size P rs)"
    and r: "case parameters rs of [] \<Rightarrow> e_kind v = VoidExpressionKind
      | [p] \<Rightarrow> e_kind v = ValueExpressionKind \<and> has_type v (\<lambda>t. follows (p_types P) t (ptype p)) | _ \<Rightarrow> False"
    and s: "esize P d = Some 0 \<Longrightarrow> stmt_ok P d"
  shows "fits P v d"
proof -
  obtain k where k: "total_size P (parameters rs) = Some k" "sized (list_size P rs) = Some k" using frame_size[OF f] by blast
  consider "parameters rs = []" "e_kind v = VoidExpressionKind"
    | p where "parameters rs = [p]" "e_kind v = ValueExpressionKind" "has_type v (\<lambda>t. follows (p_types P) t (ptype p))"
    using r by (auto split: list.splits)
  then show ?thesis
  proof cases
    case 1
    then show ?thesis using k d s by (auto simp: fits_def)
  next
    case 2
    then obtain t where t: "e_type v = Some t" "follows (p_types P) t (ptype p)" by (auto simp: has_type_iff)
    have z: "sized (size_of P (ptype p)) = Some k" using k(1) 2(1) by (auto split: option.splits)
    then have "size_of P t = size_of P (ptype p)"
      using size_follows[OF n(2) t(2)] untyped_size[OF n, of "ptype p"] by auto
    then show ?thesis using z 2(2) k(2) d t(1) by (auto simp: fits_def operand_fits_def sized_Some)
  qed
qed

lemma list_size_parameters: "parameters xs = parameters ys \<Longrightarrow> list_size P xs = list_size P ys"
  by (simp add: list_size_def list_size_on_stack_def)

lemma linked_callable:
  assumes "callable_linked P a qs rs"
  obtains c n where "callable_at P a = Some c" "\<not> c_reaction c" "total_size P qs = Some n"
    "sized (list_size P (c_parameters c)) = Some n" "list_size P (c_return c) = list_size P rs" "frame_sized P rs"
proof -
  obtain c where c: "callable_at P a = Some c" "\<not> c_reaction c" "parameters (c_parameters c) = qs"
    "parameters (c_return c) = parameters rs" "frame_sized P (c_parameters c)" "frame_sized P rs"
    using assms by (auto simp: callable_linked_def split: option.splits)
  show thesis using frame_size[OF c(5)] c list_size_parameters[OF c(4)] by (auto intro!: that)
qed

lemma receiver_size:
  assumes l: "links G P" and g: "receiver_operation (p_types P) v r c = Inr d" and c: "fits P v c" "is_value_or_variable v"
    and t: "e_type v = Some t" "is_pointer (p_types P) t \<or> is_pointer (p_types P) r \<or> alike (p_types P) r t"
  shows "esize P d = sized (size_of P r)"
proof -
  note p = pointer_size[OF linksD(3)[OF l]]
  have a: "size_of P r = size_of P t" if "alike (p_types P) r t"
    using alike_size[OF linksD(4)[OF l] that] by (simp add: size_of_def)
  show ?thesis
    using g c t p a
    by (auto simp: receiver_operation_def obind_eq_Inr the_type_iff fits_def operand_fits_def is_value_or_variable_def sized_def
        split: if_splits dest!: variable_operationD)
qed

lemma function_call_fits:
  assumes n: "0 < p_nesting P" "predeclares (p_types P)" and t: "e_type w = Some t" "function_linked P a t"
    and g: "generate_callable t a recv cs = Inr d" and o: "call_ok (p_types P) v w vs" and c: "list_all2 (operand_fits P) vs cs"
  shows "fits P v d"
proof -
  obtain i ps rs where f: "t = FunctionBase Function i ps rs" "callable_linked P a (parameters ps) rs"
    using t(2) by (auto simp: function_linked_def split: ty.splits function_class.splits)
  obtain b k where b: "callable_at P a = Some b" "\<not> c_reaction b" "total_size P (parameters ps) = Some k"
    "sized (list_size P (c_parameters b)) = Some k" "list_size P (c_return b) = list_size P rs" "frame_sized P rs"
    using linked_callable[OF f(2)] by blast
  have o2: "arguments_ok vs (parameters ps)" using o t(1) f(1) by (auto simp: call_ok_def has_type_iff)
  have d: "d = FunctionCall a (ListOperation cs)" using g f(1) by (simp add: generate_callable_def)
  have e: "esize P d = sized (list_size P rs)" using arguments_size[OF o2 c b(3)] d b by simp
  show ?thesis
    by (rule result_fits[OF n b(6) e]) (use o t(1) f(1) d in \<open>auto simp: call_ok_def has_type_iff\<close>)
qed

lemma method_call_fits:
  assumes l: "links G P" and t: "e_type w = Some t" "e_type x = Some base" "method_linked P a base t"
    and g: "generate_callable t a (\<lambda>r. obind m (receiver_operation (p_types P) x r)) cs = Inr d"
    and o: "call_ok (p_types P) v w vs" and c: "list_all2 (operand_fits P) vs cs"
    and x: "\<And>c. m = Inr c \<Longrightarrow> fits P x c" "is_value_or_variable x"
  shows "fits P v d"
proof -
  obtain k i n r ps rs where f: "t = MethodBase k i n r ps rs" "callable_linked P a (r # parameters ps) rs"
    "is_pointer (p_types P) base \<or> is_pointer (p_types P) (ptype r) \<or> alike (p_types P) (ptype r) base"
    using t(3) by (auto simp: method_linked_def split: ty.splits)
  obtain b z where b: "callable_at P a = Some b" "\<not> c_reaction b" "total_size P (r # parameters ps) = Some z"
    "sized (list_size P (c_parameters b)) = Some z" "list_size P (c_return b) = list_size P rs" "frame_sized P rs"
    using linked_callable[OF f(2)] by blast
  obtain i j where ij: "sized (size_of P (ptype r)) = Some i" "total_size P (parameters ps) = Some j" "z = i + j"
    using b(3) by (auto split: option.splits)
  have o2: "arguments_ok vs (parameters ps)" using o t(1) f(1) by (auto simp: call_ok_def has_type_iff)
  obtain c1 recv where d: "m = Inr c1" "receiver_operation (p_types P) x (ptype r) c1 = Inr recv"
    "d = MethodCall a recv (ListOperation cs)"
    using g f(1) by (auto simp: generate_callable_def obind_eq_Inr)
  have "esize P recv = Some i" using receiver_size[OF l d(2) x(1)[OF d(1)] x(2) t(2) f(3)] ij(1) by simp
  then have e: "esize P d = sized (list_size P rs)" using arguments_size[OF o2 c ij(2)] d(3) b ij(3) by simp
  show ?thesis
    by (rule result_fits[OF linksD(3,4)[OF l] b(6) e]) (use o t(1) f(1) d(3) in \<open>auto simp: call_ok_def has_type_iff\<close>)
qed

section \<open>The code of an expression\<close>

lemma omap_types: "omap (\<lambda>e. the_type (ev_of e)) es = Inr ts \<Longrightarrow> map (\<lambda>e. e_type (ev_of e)) es = map Some ts"
  by (induction es arbitrary: ts) (auto simp: obind_eq_Inr the_type_iff)

lemma arguments_values: "arguments_ok (map ev_of es) ps \<Longrightarrow> list_all (\<lambda>e. is_value_or_variable (ev_of e)) es"
  by (auto simp: arguments_ok_def list_all2_conv_all_nth list_all_length)

lemma builtin_values:
  "builtin_ok env v f (map ev_of es) \<Longrightarrow> f \<in> {Len, Append, Copy} \<Longrightarrow> list_all (\<lambda>e. is_value_or_variable (ev_of e)) es"
  by (auto simp: builtin_ok_def split: list.splits)

lemma printed:
  assumes "list_all2 (operand_fits P) (map ev_of es) cs" "map (\<lambda>e. e_type (ev_of e)) es = map Some ts"
    "list_all (\<lambda>e. has_type (ev_of e) (\<lambda>t. sized (size_of P t) \<noteq> None)) es"
  shows "list_all2 (\<lambda>t c. esize P c \<noteq> None \<and> esize P c = sized (size_of P t)) ts cs"
  using assms
proof (induction es arbitrary: cs ts)
  case (Cons e es)
  obtain c ds where c: "cs = c # ds" "operand_fits P (ev_of e) c" "list_all2 (operand_fits P) (map ev_of es) ds"
    using Cons.prems(1) by (auto simp: list_all2_Cons1)
  obtain t us where t: "ts = t # us" "e_type (ev_of e) = Some t" "map (\<lambda>e. e_type (ev_of e)) es = map Some us"
    using Cons.prems(2) by (cases ts) auto
  obtain z where z: "size_of P t = Inr z" using Cons.prems(3) t(2) by (auto simp: has_type_iff sized_def split: sum.splits)
  show ?case using Cons.IH[OF c(3) t(3)] Cons.prems(3) c t z by (simp add: operand_fits_def sized_def)
qed simp

lemma known_fits:
  assumes l: "links G P" and g: "obind (the_type v) (\<lambda>t. make_literal (g_types G) t (e_value v)) = Inr c"
    and v: "known v" "constant_ok v" "e_kind v = ValueExpressionKind"
  shows "fits P v c"
proof -
  obtain t where t: "e_type v = Some t" "make_literal (p_types P) t (e_value v) = Inr c"
    using g linksD(1)[OF l] by (auto simp: obind_eq_Inr the_type_iff)
  have "operand_fits P v c"
    using literal_fits[OF linksD(3)[OF l] t(2)] v(1,2) t(1) by (auto simp: operand_fits_def constant_ok_def)
  then show ?thesis using v(3) by (intro fitsI(2))
qed

lemma call_values: "call_ok env v w (map ev_of es) \<Longrightarrow> list_all (\<lambda>e. is_value_or_variable (ev_of e)) es"
  by (auto simp: call_ok_def has_type_iff split: option.splits dest: arguments_values)

lemma generate_fits:
  "generate G e = Inr c \<Longrightarrow> links G P \<Longrightarrow> wt (p_types P) e \<Longrightarrow> regular P e \<Longrightarrow> fits P (ev_of e) c"
  "generate_list G es = Inr cs \<Longrightarrow> links G P \<Longrightarrow> list_all (wt (p_types P)) es \<Longrightarrow> list_all (regular P) es \<Longrightarrow>
     list_all (\<lambda>e. is_value_or_variable (ev_of e)) es \<Longrightarrow> list_all2 (operand_fits P) (map ev_of es) cs"
  "generate_option G eo = Inr co \<Longrightarrow> links G P \<Longrightarrow>
     pred_option (\<lambda>e. wt (p_types P) e \<and> index_ev (p_types P) (ev_of e)) eo \<Longrightarrow> pred_option (regular P) eo \<Longrightarrow> bound_ok P co"
proof (induction G e and G es and G eo arbitrary: c and cs and co rule: generate_generate_list_generate_option.induct)
  case (2 G v)
  then show ?case using known_fits[OF 2(2)] by simp
next
  case (3 G v s)
  then show ?case using identifier_fits[OF 3(2), of v s] by simp
next
  case (5 G v e)
  then have "esize P c = Some 8" by (simp add: fits_def)
  then show ?case using 5(4) pointer_fits[of v P c] by (simp add: fits_def)
next
  case (6 G v e)
  obtain d where d: "generate G e = Inr d" "load (ev_of e) d = Inr c" using 6(2) by (auto simp: obind_eq_Inr)
  have "fits P (ev_of e) d" using 6(1)[OF d(1) 6(3)] 6(4,5) by simp
  then show ?case using load_pointer[OF 6(3) _ _ _ d(2)] 6(4) by (simp add: fits_def)
next
  case (7 G v e fs k)
  obtain d where d: "generate G e = Inr d" "field_operation G (ev_of e) fs k d = Inr c" using 7(2) by (auto simp: obind_eq_Inr)
  have e: "e_kind (ev_of e) = VariableExpressionKind"
    using d(2) by (auto simp: field_operation_def obind_eq_Inr dest!: variable_operationD)
  then have "esize P d = Some 8" using 7(1)[OF d(1) 7(3)] 7(4,5) by (simp add: fits_def)
  then show ?case using field_fits[OF 7(3) d(2)] 7(4) e by (auto simp: is_value_or_variable_def)
next
  case (8 G v e c')
  then show ?case using method_fits[OF 8(3)] by (auto simp: obind_eq_Inr)
next
  case (9 G v b i t)
  obtain x y z where d: "generate G b = Inr x" "generate G i = Inr y" "index_operation G (ev_of i) y = Inr z"
    "generate_index G (ev_of b) t x z = Inr c"
    using 9(3) by (auto simp: obind_eq_Inr)
  have "fits P (ev_of b) x" using 9(1)[OF d(1) 9(4)] 9(5,6) by simp
  moreover have "esize P z = Some 8" using index_fits[OF 9(4) d(3)] 9(2)[OF d(1,2) 9(4)] 9(5,6) by simp
  ultimately show ?case using index_result_fits[OF 9(4) d(4)] 9(5) by simp
next
  case (10 G v b lo hi mx t)
  obtain x l h m where d: "generate G b = Inr x" "generate_option G lo = Inr l" "generate_option G hi = Inr h"
    "generate_option G mx = Inr m" "generate_slice (ev_of b) t x l h m = Inr c"
    using 10(5) by (auto simp: obind_eq_Inr)
  have "fits P (ev_of b) x" using 10(1)[OF d(1) 10(6)] 10(7,8) by simp
  moreover have "bound_ok P l" using 10(2)[OF d(1,2) 10(6)] 10(7,8) by simp
  moreover have "bound_ok P h" using 10(3)[OF d(1-3) 10(6)] 10(7,8) by simp
  moreover have "bound_ok P m" using 10(4)[OF d(1-4) 10(6)] 10(7,8) by simp
  ultimately show ?case using slice_result_fits[OF 10(6) d(5)] 10(7) by simp
next
  case (11 G v e)
  obtain x y t u where d: "generate G e = Inr x" "load (ev_of e) x = Inr y" "e_type (ev_of e) = Some t"
    "e_type v = Some u" "make_conversion (p_types P) y t u = Inr c"
    using 11(2) linksD(1)[OF 11(3)] by (auto simp: obind_eq_Inr the_type_iff)
  have o: "operand_fits P (ev_of e) y"
    using load_fits[OF 11(1)[OF d(1) 11(3)] _ d(2)] 11(4,5) by (simp add: operand_ev_def)
  have "operand_fits P v c"
    using conversion_fits[OF linksD(3,4)[OF 11(3)] d(5,3) o] d(4) by (simp add: operand_fits_def)
  then show ?case using 11(4) by (simp add: fits_def)
next
  case (12 G v f es)
  obtain ds ts where d: "generate_list G es = Inr ds" "omap (\<lambda>e. the_type (ev_of e)) es = Inr ts"
    "generate_builtin (p_types P) f ts ds = Inr c"
    using 12(2) linksD(1)[OF 12(3)] by (auto simp: obind_eq_Inr)
  note w = 12(4) [simplified] and r = 12(5) [simplified]
  have ds: "list_all2 (operand_fits P) (map ev_of es) ds" if "list_all (\<lambda>e. is_value_or_variable (ev_of e)) es"
    using 12(1)[OF d(1) 12(3) _ _ that] w r by simp
  have "fits P v c"
  proof (rule builtin_fits[OF linksD(3,4)[OF 12(3)] d(3)])
    show "builtin_ok (p_types P) v f (map ev_of es)" using w by simp
    show "map e_type (map ev_of es) = map Some ts" using omap_types[OF d(2)] by (simp add: comp_def)
    show "list_all2 (operand_fits P) (map ev_of es) ds" if "f \<in> {Len, Append, Copy}"
      using ds builtin_values[OF _ that] w by blast
    show "list_all2 (\<lambda>t c. esize P c \<noteq> None \<and> esize P c = sized (size_of P t)) ts ds" if "f = Println"
      using printed[OF ds omap_types[OF d(2)]] r that by (simp add: list_all_iff)
  qed
  then show ?case by simp
next
  case (13 G v f es)
  note p = "13.prems"
  obtain ds where d: "generate_list G es = Inr ds" using p(1) by (cases "generate_list G es") simp_all
  have ds: "list_all2 (operand_fits P) (map ev_of es) ds"
    using "13.IH"(1)[OF d p(2)] p(3,4) call_values[of "p_types P" v "ev_of f" es] by simp
  show ?case
  proof (cases f)
    case (T_Identifier w s)
    then obtain n a b where s: "s = Function_Entry n a b" "has_type w (function_linked P a)"
      using p(4) by (auto split: entry.splits)
    obtain t where t: "e_type w = Some t" "function_linked P a t" using s(2) by (auto simp: has_type_iff)
    show ?thesis
      using function_call_fits[OF linksD(3,4)[OF p(2)] t _ _ ds] p(1,3) d t(1) T_Identifier s(1) by (auto simp: the_type_iff obind_eq_Inr)
  next
    case (T_Method w e k)
    obtain a b where k: "k = (a, b)" by (cases k)
    obtain base t where t: "e_type w = Some t" "e_type (ev_of e) = Some base" "method_linked P a base t"
      using p(4) T_Method k by (auto simp: has_type_iff)
    have q: "the_type w = Inr t" using t(1) by (simp add: the_type_iff)
    have e: "fits P (ev_of e) x" if "generate G e = Inr x" for x
      using "13.IH"(2-) that d p(2-4) T_Method k q by simp
    show ?thesis
      using method_call_fits[OF p(2) t _ _ ds e] p(1,3) d t(1) T_Method k linksD(1)[OF p(2)]
      by (auto simp: the_type_iff obind_eq_Inr)
  qed (use p(4) in simp_all)
next
  case (14 G v f e)
  show ?case
  proof (cases "known v")
    case True
    then show ?thesis using known_fits[OF 14(3), of v c] 14(2,4,5) by (simp add: unary_ok_def)
  next
    case False
    then obtain x y t where d: "generate G e = Inr x" "load (ev_of e) x = Inr y" "e_type v = Some t"
      "generate_unary (p_types P) f t y = Inr c"
      using 14(2) linksD(1)[OF 14(3)] by (auto simp: obind_eq_Inr the_type_iff)
    have o: "operand_fits P (ev_of e) y"
      using load_fits[OF 14(1)[OF False d(1) 14(3)] _ d(2)] 14(4,5) by (simp add: unary_ok_def)
    show ?thesis using unary_fits[OF linksD(3,4)[OF 14(3)] d(4) _ False _ d(3) o] 14(4,5) False by simp
  qed
next
  case (15 G v f l r)
  show ?case
  proof (cases "known v")
    case True
    then show ?thesis using known_fits[OF 15(4), of v c] 15(3,5,6) by (simp add: binary_ok_def)
  next
    case False
    then obtain x y x' y' t s u where d: "generate G l = Inr x" "generate G r = Inr y" "load (ev_of l) x = Inr x'"
      "load (ev_of r) y = Inr y'" "e_type v = Some t" "e_type (ev_of l) = Some s" "e_type (ev_of r) = Some u"
      "generate_binary (p_types P) f t s u x' y' = Inr c"
      using 15(3) linksD(1)[OF 15(4)] by (auto simp: obind_eq_Inr the_type_iff)
    note w = 15(5) [simplified] and g = 15(6) [simplified]
    have o: "operand_fits P (ev_of l) x'"
      using load_fits[OF 15(1)[OF False d(1) 15(4)] _ d(3)] w g by (simp add: binary_ok_def)
    have o2: "operand_fits P (ev_of r) y'"
      using load_fits[OF 15(2)[OF False d(1,2) 15(4)] _ d(4)] w g by (simp add: binary_ok_def)
    have "\<not> is_untyped s" using g False d(6) by (simp add: has_type_iff)
    then show ?thesis using binary_fits[OF linksD(3,4)[OF 15(4)] d(8) _ False _ d(5-7) o o2] w by simp
  qed
next
  case (19 G e es)
  note p = "19.prems"
  have n: "\<not> without_operation e" using p(3,5) by (cases e) (auto simp: is_value_or_variable_def)
  obtain x y ys where d: "generate G e = Inr x" "load (ev_of e) x = Inr y" "generate_list G es = Inr ys" "cs = y # ys"
    using p(1) n by (auto simp: obind_eq_Inr)
  have "operand_fits P (ev_of e) y" using load_fits[OF "19.IH"(2)[OF n d(1) p(2)] _ d(2)] p(3-5) by simp
  moreover have "list_all2 (operand_fits P) (map ev_of es) ys" using "19.IH"(3)[OF n d(1-3) p(2)] p(3-5) by simp
  ultimately show ?case using d(4) by simp
next
  case (21 G e)
  then show ?case using index_fits[OF 21(3)] by (auto simp: obind_eq_Inr)
qed (simp_all split: if_splits)

section \<open>The code of a statement\<close>

lemma typed_integer_operand:
  assumes n: "0 < p_nesting P" and v: "has_type v (is_typed_integer (p_types P))" and c: "operand_fits P v c"
  shows "esize P c = Some 8"
proof -
  obtain t where t: "e_type v = Some t" "is_typed_integer (p_types P) t" using v by (auto simp: has_type_iff)
  then have "kind_of (underlying_type (p_types P) t) \<in>
      singleton_kind ` {Uint8, Uint16, Uint32, Uint64, Int8, Int16, Int32, Int64, Uint, Intt, Uintptr}"
    by (simp add: is_typed_integer_def)
  then obtain k where k: "underlying_type (p_types P) t = Basic k"
    "k \<in> {Uint8, Uint16, Uint32, Uint64, Int8, Int16, Int32, Int64, Uint, Intt, Uintptr}"
    unfolding image_iff kind_of_eq(1) by blast
  then obtain i where "scalar_of k = Some i" by auto
  then show ?thesis
    using operand_number[OF c t(1)] basic_slot[OF n k(1)] scalar_basic_size scalar_of_ok by simp
qed

lemma bool_operand:
  assumes n: "0 < p_nesting P" and v: "has_type v (\<lambda>t. underlying_kind (p_types P) t = Bool_Kind)" and c: "operand_fits P v c"
  shows "esize P c = Some 8"
  using v c bool_size[OF n] by (auto simp: has_type_iff operand_fits_def)

text \<open>An operand of the type \<open>t\<close> on the stack.\<close>

lemma matching_size:
  assumes l: "links G P" and g: "generate G e = Inr c" "load (ev_of e) c = Inr d" and w: "matching (p_types P) t e" "regular P e"
    and z: "type_size (g_types G) (g_nesting G) t = Inr z"
  shows "esize P d = Some (aligned_size z)"
  using load_fits[OF generate_fits(1)[OF g(1) l _ w(2)] _ g(2)] w(1) z linksD[OF l]
  by (simp add: matching_def operand_fits_def size_of_def)

lemma variable_size:
  "links G P \<Longrightarrow> generate G e = Inr c \<Longrightarrow> wt (p_types P) e \<Longrightarrow> regular P e \<Longrightarrow> e_kind (ev_of e) = VariableExpressionKind \<Longrightarrow>
     esize P c = Some 8"
  using generate_fits(1)[of G e c P] by (simp add: fits_def)

lemma condition_size:
  assumes l: "links G P" and g: "generate G e = Inr c" "load (ev_of e) c = Inr d" and w: "condition_ok (p_types P) e" "regular P e"
  shows "esize P d = Some 8"
  using bool_operand[OF linksD(3)[OF l] _ load_fits[OF generate_fits(1)[OF g(1) l _ w(2)] _ g(2)]] w(1)
  by (simp add: condition_ok_def)

lemma port_call_ok:
  assumes l: "links G P" and g: "generate G e = Inr c" and w: "wt (p_types P) e" "regular_port P e"
  shows "ports_ok P c \<and> load (ev_of e) c = Inr c \<and> \<not> without_operation e"
proof (cases e)
  case (T_Push_Port_Call v fs k ps es)
  obtain cs n off where d: "generate_list G es = Inr cs" "c = operation.PushPortCall n (g_receiver G) off (ListOperation cs)"
    using g T_Push_Port_Call by (auto simp: obind_eq_Inr)
  obtain z where z: "total_size P (parameters ps) = Some z" using frame_size w(2) T_Push_Port_Call by auto
  have "list_all2 (operand_fits P) (map ev_of es) cs"
    using generate_fits(2)[OF d(1) l] w arguments_values T_Push_Port_Call by auto
  then have "esizes P cs = Some z" using arguments_size[OF _ _ z, of "map ev_of es" cs] w(1) T_Push_Port_Call by simp
  then show ?thesis using d(2) w(1) T_Push_Port_Call by (simp add: load_def)
next
  case (T_Indexed_Push_Port_Call v fs k ps t i es)
  obtain cs n off x y where d: "generate G i = Inr x" "load (ev_of i) x = Inr y" "generate_list G es = Inr cs"
    "c = operation.IndexedPushPortCall n (g_receiver G) off y (ListOperation cs) t"
    using g T_Indexed_Push_Port_Call by (auto simp: obind_eq_Inr)
  obtain z where z: "total_size P (parameters ps) = Some z" using frame_size w(2) T_Indexed_Push_Port_Call by auto
  have "list_all2 (operand_fits P) (map ev_of es) cs"
    using generate_fits(2)[OF d(3) l] w arguments_values T_Indexed_Push_Port_Call by auto
  then have a: "esizes P cs = Some z" using arguments_size[OF _ _ z, of "map ev_of es" cs] w(1) T_Indexed_Push_Port_Call by simp
  have "operand_fits P (ev_of i) y"
    using load_fits[OF generate_fits(1)[OF d(1) l] _ d(2)] w T_Indexed_Push_Port_Call by (simp add: index_ev_def)
  then have "esize P y = Some 8"
    using typed_integer_operand[OF linksD(3)[OF l], of "ev_of i" y] w(1) T_Indexed_Push_Port_Call by (simp add: index_ev_def)
  then show ?thesis using a d(4) w(1) T_Indexed_Push_Port_Call by (simp add: load_def)
qed (use w(2) in auto)

lemma port_calls_ok:
  "links G P \<Longrightarrow> generate_list G es = Inr cs \<Longrightarrow> list_all (wt (p_types P)) es \<Longrightarrow> list_all (regular_port P) es \<Longrightarrow>
     list_all (ports_ok P) cs"
proof (induction es arbitrary: cs)
  case (Cons e es)
  have n: "\<not> without_operation e" using Cons.prems(4) by (cases e) auto
  then obtain x y ys where d: "generate G e = Inr x" "load (ev_of e) x = Inr y" "generate_list G es = Inr ys" "cs = y # ys"
    using Cons.prems(2) by (auto simp: obind_eq_Inr)
  have "ports_ok P x \<and> y = x" using port_call_ok[OF Cons.prems(1) d(1)] Cons.prems(3,4) d(2) by auto
  then show ?case using Cons.IH[OF Cons.prems(1) d(3)] Cons.prems(3,4) d(4) by simp
qed simp

lemma initialize_ok:
  assumes l: "links G P"
  shows "initialize G vs cs = Inr ds \<Longrightarrow> list_all2 (\<lambda>v e. matching (p_types P) (snd v) e) vs es \<Longrightarrow>
     list_all2 (operand_fits P) (map ev_of es) cs \<Longrightarrow> list_all (stmt_ok P) ds"
proof (induction vs arbitrary: es cs ds)
  case (Cons v vs)
  obtain e fs where e: "es = e # fs" "matching (p_types P) (snd v) e" "list_all2 (\<lambda>v e. matching (p_types P) (snd v) e) vs fs"
    using Cons.prems(2) by (auto simp: list_all2_Cons1)
  obtain x xs where x: "cs = x # xs" "operand_fits P (ev_of e) x" "list_all2 (operand_fits P) (map ev_of fs) xs"
    using Cons.prems(3) e(1) by (auto simp: list_all2_Cons1)
  obtain y ys where y: "ds = y # ys" "make_assign G (Reference (g_offset G (fst v))) x (snd v) = Inr y"
    "initialize G vs xs = Inr ys"
    using Cons.prems(1) x(1) by (cases v) (auto simp: obind_eq_Inr)
  obtain z where z: "size_of P (snd v) = Inr z" "y = operation.Assign (Reference (g_offset G (fst v))) x z"
    using y(2) linksD[OF l] by (auto simp: make_assign_def obind_eq_Inr size_of_def)
  have "esize P x = Some (aligned_size z)" using x(2) e(2) z(1) by (simp add: operand_fits_def matching_def)
  then show ?case using Cons.IH[OF y(3) e(3) x(3)] y(1) z(2) by simp
qed simp

lemma cleared_ok: "omap (clear_variable G) vs = Inr cs \<Longrightarrow> list_all (stmt_ok P) cs"
  by (induction vs arbitrary: cs) (auto simp: clear_variable_def obind_eq_Inr)

lemma matching_values:
  "list_all2 (\<lambda>v e. matching env (snd v) e) vs es \<Longrightarrow>
     list_all (wt env) es \<and> list_all (\<lambda>e. is_value_or_variable (ev_of e)) es"
  by (induction rule: list_all2_induct) (auto simp: matching_def)

lemma generate_stmt_ok:
  "generate_stmt G t = Inr c \<Longrightarrow> links G P \<Longrightarrow> wt_stmt (p_types P) t \<Longrightarrow> regular_stmt P t \<Longrightarrow>
     active_ok P c \<and> (inactive t \<longrightarrow> stmt_ok P c)"
  "generate_stmts G ts = Inr cs \<Longrightarrow> links G P \<Longrightarrow> list_all (wt_stmt (p_types P)) ts \<Longrightarrow> list_all (regular_stmt P) ts \<Longrightarrow>
     list_all (active_ok P) cs \<and> (list_all inactive ts \<longrightarrow> list_all (stmt_ok P) cs)"
proof (induction G t and G ts arbitrary: c and cs rule: generate_stmt_generate_stmts.induct)
  case (2 G e)
  obtain x where x: "generate G e = Inr x" "discard G (ev_of e) x = Inr c" using 2(1) by (auto simp: obind_eq_Inr)
  have f: "fits P (ev_of e) x" using generate_fits(1)[OF x(1) 2(2)] 2(3,4) by simp
  have "stmt_ok P c"
  proof (cases "e_kind (ev_of e) = VoidExpressionKind")
    case True
    then show ?thesis using x(2) f by (simp add: discard_def fits_def)
  next
    case False
    then have k: "e_kind (ev_of e) = ValueExpressionKind" using 2(3,4) by (auto simp: is_value_or_variable_def)
    then obtain u z where u: "e_type (ev_of e) = Some u" "size_of P u = Inr z" "c = (if z \<noteq> 0 then Popn x z else x)"
      using x(2) linksD[OF 2(2)] by (auto simp: discard_def obind_eq_Inr the_type_iff size_of_def)
    moreover have "z \<noteq> 0" using u(1,2) k 2(4) by (auto simp: has_type_iff)
    ultimately show ?thesis using f k by (simp add: fits_def operand_fits_def)
  qed
  then show ?case using stmt_active by blast
next
  case (3 G vs es)
  have "\<exists>cs. list_all (stmt_ok P) cs \<and> c = ListOperation cs"
  proof (cases "es = []")
    case True
    then show ?thesis using 3(1) cleared_ok by (auto simp: obind_eq_Inr)
  next
    case False
    then obtain xs ys where x: "generate_list G es = Inr xs" "initialize G vs xs = Inr ys" "c = ListOperation ys"
      using 3(1) by (auto simp: obind_eq_Inr)
    have m: "list_all2 (\<lambda>v e. matching (p_types P) (snd v) e) vs es" using 3(3) False by simp
    show ?thesis
      using initialize_ok[OF 3(2) x(2) m generate_fits(2)[OF x(1) 3(2)]] matching_values[OF m] 3(4) x(3) by simp
  qed
  then obtain ds where "stmt_ok P (ListOperation ds)" "c = ListOperation ds" by auto
  then show ?case using stmt_active[of P "ListOperation ds"] by simp
next
  case (4 G l r)
  obtain x y z t s where x: "generate G l = Inr x" "generate G r = Inr y" "load (ev_of r) y = Inr z" "e_type (ev_of l) = Some t"
    "type_size (g_types G) (g_nesting G) t = Inr s" "c = operation.Assign x z s"
    using 4(1) by (auto simp: obind_eq_Inr the_type_iff make_assign_def)
  have m: "matching (p_types P) t r" using 4(3) x(4) by (simp add: has_type_iff)
  have "esize P x = Some 8" using variable_size[OF 4(2) x(1)] 4(3,4) by simp
  moreover have "esize P z = Some (aligned_size s)" using matching_size[OF 4(2) x(2,3) m _ x(5)] 4(4) by simp
  ultimately show ?case using x(6) by simp
next
  case (5 G l r)
  obtain x y z t n where x: "generate G l = Inr x" "generate G r = Inr y" "load (ev_of r) y = Inr z" "e_type (ev_of l) = Some t"
    "arithmetic_number (p_types P) t = Inr n" "c = operation.AddAssign n x z"
    using 5(1) linksD(1)[OF 5(2)] by (auto simp: obind_eq_Inr the_type_iff make_add_assign_def)
  have m: "matching (p_types P) t r" using 5(3) x(4) by (simp add: has_type_iff)
  have n: "type_size (g_types G) (g_nesting G) t = Inr (of_nat (number_size n))"
    using arithmetic_size[OF linksD(3)[OF 5(2)] x(5)] linksD[OF 5(2)] by (simp add: size_of_def)
  have "esize P x = Some 8" using variable_size[OF 5(2) x(1)] 5(3,4) by simp
  moreover have "esize P z = Some (slot_bytes (number_size n))" using matching_size[OF 5(2) x(2,3) m _ n] 5(4) by simp
  ultimately show ?case using x(6) by simp
next
  case (6 G up e)
  obtain x t where x: "generate G e = Inr x" "(if up then make_increment (g_types G) t x else make_decrement (g_types G) t x) = Inr c"
    using 6(1) by (auto simp: obind_eq_Inr)
  then have "esize P x = Some 8" using variable_size[OF 6(2) x(1)] 6(3,4) by simp
  then show ?case using x(2) by (auto simp: make_increment_def make_decrement_def obind_eq_Inr split: if_splits)
next
  case (7 G i t e)
  obtain x y s where x: "generate G e = Inr x" "load (ev_of e) x = Inr y" "type_size (g_types G) (g_nesting G) t = Inr s"
    "c = Return_Operation y (g_offset G i) s"
    using 7(1) by (auto simp: obind_eq_Inr)
  then show ?case using matching_size[OF 7(2) x(1,2) _ _ x(3)] 7(3,4) by simp
next
  case (8 G cs')
  then show ?case by (auto simp: obind_eq_Inr)
next
  case (9 G before e t f)
  note p = "9.prems"
  obtain w x y z where x: "generate_stmt G before = Inr w" "generate G e = Inr x" "generate_stmt G t = Inr y"
    "generate_stmt G f = Inr z" "choose_branch (ev_of e) x y z = Inr c"
    using p(1) by (auto simp: obind_eq_Inr)
  have t: "active_ok P y \<and> (inactive t \<longrightarrow> stmt_ok P y)" using "9.IH"(2)[OF x(1,2,3) p(2)] p(3,4) by simp
  have f: "active_ok P z \<and> (inactive f \<longrightarrow> stmt_ok P z)" using "9.IH"(3)[OF x(1-4) p(2)] p(3,4) by simp
  show ?case
  proof (cases "known (ev_of e)")
    case True
    then show ?thesis using x(5) t f by (auto simp: choose_branch_def split: if_splits)
  next
    case False
    then obtain x' where x': "load (ev_of e) x = Inr x'" "c = If_Operation x' y z"
      using x(5) by (auto simp: choose_branch_def obind_eq_Inr)
    have "esize P x' = Some 8" using condition_size[OF p(2) x(2) x'(1)] p(3,4) by simp
    then show ?thesis using x'(2) t f by simp
  qed
next
  case (10 G e b)
  note p = "10.prems"
  obtain x y x' where x: "generate G e = Inr x" "generate_stmt G b = Inr y" "load (ev_of e) x = Inr x'" "c = operation.While x' y"
    using p(1) by (auto simp: obind_eq_Inr)
  have "esize P x' = Some 8" using condition_size[OF p(2) x(1,3)] p(3,4) by simp
  moreover have "active_ok P y \<and> (inactive b \<longrightarrow> stmt_ok P y)" using "10.IH"[OF x(1,2) p(2)] p(3,4) by simp
  ultimately show ?case using x(4) by simp
next
  case (11 G i limit b)
  then show ?case by (auto simp: obind_eq_Inr)
next
  case (13 G a es b)
  obtain xs y where x: "generate_list G es = Inr xs" "generate_stmt G b = Inr y"
    "c = operation.Activate (ListOperation xs) (g_code G (deferred_body G a es b y))"
    using "13.prems"(1) by (auto simp: obind_eq_Inr)
  show ?case
    using port_calls_ok[OF "13.prems"(2) x(1)] "13.prems"(3,4) x(3) linksD(5)[OF "13.prems"(2)] by simp
next
  case (15 G s ss)
  note p = "15.prems"
  obtain x xs where x: "generate_stmt G s = Inr x" "generate_stmts G ss = Inr xs" "cs = x # xs"
    using p(1) by (auto simp: obind_eq_Inr)
  show ?case using "15.IH"(1)[OF x(1) p(2)] "15.IH"(2)[OF x(1,2) p(2)] p(3,4) x(3) by simp
qed simp_all

end
