(* ===== verification/Declarations.thy ===== *)
theory Declarations
  imports Compile
begin

text \<open>
  From declarations to a program: the check of the bodies of functions, methods, initializers, getters, reactions and
  actions and of instances (the declaration visits of check_types.cpp), followed by the code generator.  A program whose
  callables and deferred bodies come from checked declarations meets the judgement the interpreter relies on, so its
  actions run in two phases.
\<close>

section \<open>Checking declarations\<close>

datatype member_kind = Function_Member | Method_Member | Initializer_Member | Getter_Member | Reaction_Member

text \<open>
  A declaration with a body: the parameters, with the receiver among them, and the return parameters, numbered; the receiver
  parameter and the iota symbol where the callable has them.
\<close>

record member =
  d_kind :: member_kind
  d_receiver :: "(nat \<times> parameter) option"
  d_iota :: "entry option"
  d_parameters :: "(nat \<times> parameter) list"
  d_returns :: "(nat \<times> parameter) list"
  d_body :: pstmt

fun member_context :: "member_kind \<Rightarrow> call_context" where
  "member_context Initializer_Member = In_Initializer"
| "member_context Getter_Member = In_Getter"
| "member_context Reaction_Member = In_Reaction"
| "member_context _ = Other"

text \<open>The visitor of a body: that of the file for a function, and one with the receiver for the others.\<close>

definition body_checker :: "checker \<Rightarrow> (nat \<times> parameter) option \<Rightarrow> call_context \<Rightarrow> checker" where
  "body_checker K receiver ctx = K\<lparr>k_receiver := receiver, k_context := ctx, k_mutable_phase := False\<rparr>"

definition check_member :: "checker \<Rightarrow> scopes \<Rightarrow> nat \<Rightarrow> member \<Rightarrow> (tstmt \<times> cstate) outcome" where
  "check_member K ss i d =
     closing (check_stmt
       (body_checker K (if d_kind d = Function_Member then None else d_receiver d) (member_context (d_kind d))) (d_body d)
       (open_callable (if d_kind d = Reaction_Member then d_iota d else None) (d_parameters d) (d_returns d) ss, i))"

record action_member =
  ad_iota :: "entry option"
  ad_receiver :: "nat \<times> parameter"
  ad_precondition :: pexp
  ad_body :: pstmt

datatype precondition_kind = Dynamic | Static_True | Static_False

definition action_scope :: "action_member \<Rightarrow> scopes \<Rightarrow> scopes" where
  "action_scope d ss =
     enter_symbol (case ad_receiver d of (i, p) \<Rightarrow> Parameter_Entry i p)
       (case ad_iota d of None \<Rightarrow> open_scope ss | Some e \<Rightarrow> enter_symbol e (open_scope ss))"

definition precondition_kind_of :: "ev \<Rightarrow> precondition_kind" where
  "precondition_kind_of v =
     (if v_present (e_value v) then if get_scalar Bool_Scalar (e_value v) \<noteq> 0 then Static_True else Static_False
      else Dynamic)"

definition check_action ::
  "checker \<Rightarrow> scopes \<Rightarrow> nat \<Rightarrow> action_member \<Rightarrow> ((texp \<times> precondition_kind \<times> tstmt) \<times> cstate) outcome"
where
  "check_action K ss i d =
     (let K' = body_checker K (Some (ad_receiver d)) In_Action; ss' = action_scope d ss in
      closing (obind (check_expr K' ss' (ad_precondition d)) (\<lambda>p. obind (check_condition K' p) (\<lambda>p.
        obind (check_stmt K' (ad_body d) (ss', i)) (\<lambda>(t, s). Inr ((p, precondition_kind_of (ev_of p), t), s))))))"

text \<open>The arguments of an instance are checked against the parameters of its initializer.\<close>

definition check_instance :: "checker \<Rightarrow> scopes \<Rightarrow> pexp list \<Rightarrow> parameter_list \<Rightarrow> texp list outcome" where
  "check_instance K ss es ps = obind (check_exprs K ss es) (\<lambda>es. check_arguments K None es ps)"

section \<open>Compiling declarations\<close>

definition generate_member :: "generator \<Rightarrow> member_kind \<Rightarrow> tstmt \<Rightarrow> operation outcome" where
  "generate_member G k t =
     (if k \<in> {Function_Member, Method_Member} then generate_function G t else generate_component_code G t)"

definition compile_member :: "checker \<Rightarrow> generator \<Rightarrow> scopes \<Rightarrow> nat \<Rightarrow> member \<Rightarrow> (tstmt \<times> operation) outcome" where
  "compile_member K G ss i d =
     obind (check_member K ss i d) (\<lambda>(t, s). obind (generate_member G (d_kind d) t) (\<lambda>c. Inr (t, c)))"

definition compile_action ::
  "checker \<Rightarrow> generator \<Rightarrow> scopes \<Rightarrow> nat \<Rightarrow> action_member \<Rightarrow>
     (texp \<times> tstmt \<times> precondition_kind \<times> operation \<times> operation) outcome"
where
  "compile_action K G ss i d =
     obind (check_action K ss i d) (\<lambda>((p, k, t), s). obind (generate_action G p t) (\<lambda>(c, b). Inr (p, t, k, c, b)))"

definition compile_instance ::
  "checker \<Rightarrow> generator \<Rightarrow> scopes \<Rightarrow> int \<Rightarrow> int \<Rightarrow> parameter_list \<Rightarrow> pexp list \<Rightarrow> (texp list \<times> operation) outcome"
where
  "compile_instance K G ss initializer component ps es =
     obind (check_instance K ss es ps) (\<lambda>es. obind (generate_instance G initializer component es) (\<lambda>c. Inr (es, c)))"

text \<open>The code of the bodies of the activations of a statement.\<close>

fun activation_codes :: "generator \<Rightarrow> tstmt \<Rightarrow> operation outcome list" where
  "activation_codes G (S_List cs) = concat (map (activation_codes G) cs)"
| "activation_codes G (S_If before c t f) = activation_codes G t @ activation_codes G f"
| "activation_codes G (S_While c b) = activation_codes G b"
| "activation_codes G (S_For i n b) = activation_codes G b"
| "activation_codes G (S_Activate a es b) = [obind (generate_stmt G b) (\<lambda>c. Inr (deferred_body G a es b c))]"
| "activation_codes G _ = []"

section \<open>The code of checked declarations\<close>

lemma body_checker_simps [simp]:
  "k_env (body_checker K r ctx) = k_env K" "may_activate (body_checker K r ctx) = (ctx \<in> {In_Action, In_Reaction})"
  by (simp_all add: body_checker_def may_activate_def)

lemma member_context_active: "member_context k \<in> {In_Action, In_Reaction} \<longleftrightarrow> k = Reaction_Member"
  by (cases k) simp_all

lemma component_code_ok: "generate_component_code G t = Inr c \<Longrightarrow> \<exists>b. generate_stmt G t = Inr b \<and> c = SetRestoreCurrentInstance b (g_current G)"
  by (auto simp: generate_component_code_def obind_eq_Inr)

lemma check_memberD:
  assumes "check_member K ss i d = Inr (t, s)" "predeclares (k_env K)"
  shows "wt_stmt (k_env K) t \<and> (d_kind d \<noteq> Reaction_Member \<longrightarrow> inactive t)"
proof -
  obtain K' s0 s1 where "check_stmt K' (d_body d) s0 = Inr (t, s1)" "k_env K' = k_env K"
    "may_activate K' \<longleftrightarrow> d_kind d = Reaction_Member"
    using closing_body[OF assms(1) [unfolded check_member_def]] member_context_active by fastforce
  then show ?thesis using check_stmt_wt(1) assms(2) by metis
qed

lemma compile_memberD:
  assumes "compile_member K G ss i d = Inr (t, c)" "k_env K = p_types P" "links G P" "regular_stmt P t"
  shows "active_ok P c \<and> (d_kind d \<noteq> Reaction_Member \<longrightarrow> stmt_ok P c)"
proof -
  obtain s where s: "check_member K ss i d = Inr (t, s)" "generate_member G (d_kind d) t = Inr c"
    using assms(1) by (auto simp: compile_member_def obind_eq_Inr)
  have w: "wt_stmt (p_types P) t" "d_kind d \<noteq> Reaction_Member \<Longrightarrow> inactive t"
    using check_memberD[OF s(1)] linksD(4)[OF assms(3)] assms(2) by simp_all
  obtain b where b: "generate_stmt G t = Inr b" "c = b \<or> c = SetRestoreCurrentInstance b (g_current G)"
    using s(2) component_code_ok by (auto simp: generate_member_def generate_function_def split: if_splits)
  show ?thesis using generate_stmt_ok(1)[OF b(1) assms(3) w(1) assms(4)] b(2) w(2) by auto
qed

lemma check_actionD:
  assumes "check_action K ss i d = Inr ((p, k, t), s)" "predeclares (k_env K)"
  shows "condition_ok (k_env K) p" "wt_stmt (k_env K) t"
proof -
  obtain K' ss' e s1 where x: "check_expr K' ss' (ad_precondition d) = Inr e" "check_condition K' e = Inr p"
    "check_stmt K' (ad_body d) (ss', i) = Inr (t, s1)" "k_env K' = k_env K"
    using closing_body[OF assms(1) [unfolded check_action_def Let_def]] by (fastforce simp: obind_eq_Inr)
  have p: "predeclares (k_env K')" using x(4) assms(2) by simp
  show "condition_ok (k_env K) p" using condition_wt[OF p x(2)] check_expr_wt(1)[OF x(1) p] x(4) by simp
  show "wt_stmt (k_env K) t" using check_stmt_wt(1)[OF x(3) p] x(4) by simp
qed

lemma compile_actionD:
  assumes "compile_action K G ss i d = Inr (p, t, k, c, b)" "k_env K = p_types P" "links G P" "regular P p" "regular_stmt P t"
  shows "esize P c = Some 8" "active_ok P b"
proof -
  obtain s where s: "check_action K ss i d = Inr ((p, k, t), s)" "generate_action G p t = Inr (c, b)"
    using assms(1) by (auto simp: compile_action_def obind_eq_Inr)
  note w = check_actionD[OF s(1)] linksD(4)[OF assms(3)]
  obtain x y z where x: "generate G p = Inr x" "load (ev_of p) x = Inr y" "c = SetRestoreCurrentInstance y (g_current G)"
    "generate_stmt G t = Inr z" "b = SetRestoreCurrentInstance z (g_current G)"
    using s(2) component_code_ok by (fastforce simp: generate_action_def obind_eq_Inr)
  show "esize P c = Some 8" using condition_size[OF assms(3) x(1,2) _ assms(4)] w assms(2) x(3) by simp
  show "active_ok P b" using generate_stmt_ok(1)[OF x(4) assms(3) _ assms(5)] w assms(2) x(5) by simp
qed

lemma activation_codes_ok:
  "Inr c \<in> set (activation_codes G t) \<Longrightarrow> links G P \<Longrightarrow> wt_stmt (p_types P) t \<Longrightarrow> regular_stmt P t \<Longrightarrow> stmt_ok P c"
proof (induction G t rule: activation_codes.induct)
  case (1 G cs)
  then show ?case by (auto simp: list_all_iff)
next
  case (5 G a es b)
  obtain x where x: "generate_stmt G b = Inr x" "c = deferred_body G a es b x"
    using 5(1) by (cases "generate_stmt G b") auto
  have "stmt_ok P x" using generate_stmt_ok(1)[OF x(1) 5(2)] 5(3,4) by simp
  then show ?case using x(2) by (simp add: deferred_body_def)
qed auto

section \<open>What checked programs can rely on\<close>

text \<open>
  A program built by the compiler: what its callables execute comes from checked declarations, the reactions from reactions,
  and its deferred bodies from the activations of checked reactions and actions, in trees the generator has code for.
\<close>

definition member_code :: "checker \<Rightarrow> program \<Rightarrow> callable \<Rightarrow> bool" where
  "member_code K P b \<longleftrightarrow>
     (\<exists>G ss i d t. compile_member K G ss i d = Inr (t, c_body b) \<and> links G P \<and> regular_stmt P t \<and>
        (d_kind d = Reaction_Member \<longleftrightarrow> c_reaction b))"

definition activation_code :: "checker \<Rightarrow> program \<Rightarrow> operation \<Rightarrow> bool" where
  "activation_code K P c \<longleftrightarrow>
     (\<exists>G t. Inr c \<in> set (activation_codes G t) \<and> links G P \<and> regular_stmt P t \<and>
        ((\<exists>ss i d s. check_member K ss i d = Inr (t, s)) \<or> (\<exists>ss i d p k s. check_action K ss i d = Inr ((p, k, t), s))))"

definition built_program :: "checker \<Rightarrow> program \<Rightarrow> bool" where
  "built_program K P \<longleftrightarrow>
     k_env K = p_types P \<and> predeclares (p_types P) \<and>
     (\<forall>a b. callable_at P a = Some b \<longrightarrow> member_code K P b) \<and> (\<forall>a c. code_at P a = Some c \<longrightarrow> activation_code K P c)"

lemma built_program_ok:
  assumes "built_program K P"
  shows "program_ok P"
proof -
  have e: "k_env K = p_types P" "predeclares (k_env K)" using assms by (simp_all add: built_program_def)
  have m: "active_ok P (c_body b) \<and> (\<not> c_reaction b \<longrightarrow> stmt_ok P (c_body b))" if "callable_at P a = Some b" for a b
  proof -
    have "member_code K P b" using assms that by (simp add: built_program_def)
    then show ?thesis unfolding member_code_def using compile_memberD[OF _ e(1)] by blast
  qed
  have c: "stmt_ok P c" if "code_at P a = Some c" for a c
  proof -
    have "activation_code K P c" using assms that by (simp add: built_program_def)
    then obtain G t where t: "Inr c \<in> set (activation_codes G t)" "links G P" "regular_stmt P t" "wt_stmt (p_types P) t"
      unfolding activation_code_def using check_memberD[OF _ e(2)] check_actionD(2)[OF _ e(2)] e(1) by metis
    then show ?thesis using activation_codes_ok by blast
  qed
  show ?thesis using m c by (auto simp: program_ok_def callees_ok_def)
qed

text \<open>C3: The operation generated for a checked expression leaves on the stack the address of a variable, the bytes of the
  type of a value, and nothing for a call without result; the frames below are as before.  The expression, and every body of the
  program, is \<open>regular\<close>: it makes no pull port call, println prints no type name (it would pop what it has not pushed,
  \<open>println_of_type_pops\<close>), operators on untyped operands are folded, calls go to callables of the program with the signature of their
  type, and in bodies an expression statement is a call or a value of some bytes.\<close>

theorem checked_expression_pushes_its_type:
  assumes P: "built_program K P" and e: "check_expr K ss e = Inr x" and g: "generate G x = Inr c"
    and l: "links G P" and r: "regular P x"
    and m: "settled (tos m) m" and x: "execute P f c m = Inr (r', m')"
  shows "(e_kind (ev_of x) = VariableExpressionKind \<longrightarrow> tos m' = tos m + 8) \<and>
    (e_kind (ev_of x) = ValueExpressionKind \<longrightarrow>
       (\<forall>t z. e_type (ev_of x) = Some t \<longrightarrow> type_size (p_types P) (p_nesting P) t = Inr z \<longrightarrow>
          tos m' = tos m + aligned_size z \<and> stack_wf (the_stack m') \<and> bp m' = bp m \<and>
          (\<forall>h \<in> set (live_frames m). control_words m' h = control_words m h))) \<and>
    (e_kind (ev_of x) = VoidExpressionKind \<longrightarrow> tos m' = tos m)"
proof -
  have ok: "callees_ok P" using built_program_ok[OF P] by (simp add: program_ok_def)
  note D = execute_disciplined[OF ok, of f]
  have "wt (p_types P) x" using check_expr_wt(1)[OF e] P by (simp add: built_program_def)
  then have F: "fits P (ev_of x) c" using generate_fits(1)[OF g l _ r] by simp
  have G: "grown (tos m) n m m'" if "esize P c = Some n" for n using D that m x by (simp add: disciplined_def)
  have S: "grown (tos m) 0 m m'" if "stmt_ok P c" using D that m x by (simp add: disciplined_def)
  show ?thesis
    using F G S unfolding fits_def operand_fits_def size_of_def
    by (auto simp: grown_def settled_def keeps_def)
qed

text \<open>C2: The body of a checked function, method, initializer or getter leaves the stack as it found it, whatever it
  computes and wherever it returns, when it and the other bodies of the program are \<open>regular\<close>: no pull port call, no println of a
  type name, no operator on untyped operands that is not folded, calls only of callables of the program with the signature
  of their type, and no expression statement that is a variable or a value without bytes.  The checker accepts the other bodies too, and some
  do move the top (\<open>println_of_type_pops\<close>, \<open>variable_statement_moves_top\<close>).\<close>

theorem checked_body_keeps_stack:
  assumes P: "built_program K P" and c: "compile_member K G ss i d = Inr (t, c)" "d_kind d \<noteq> Reaction_Member"
    and l: "links G P" and r: "regular_stmt P t"
    and m: "settled (tos m) m" and x: "execute P f c m = Inr (r', m')"
  shows "tos m' = tos m \<and> stack_wf (the_stack m') \<and> bp m' = bp m \<and> live_frames m' = live_frames m \<and> phases m' = phases m \<and>
    (\<forall>h \<in> set (live_frames m). control_words m' h = control_words m h)"
proof -
  have ok: "callees_ok P" "k_env K = p_types P" using built_program_ok[OF P] P by (simp_all add: program_ok_def built_program_def)
  have "stmt_ok P c" using compile_memberD[OF c(1) ok(2) l r] c(2) by simp
  then have "grown (tos m) 0 m m'" using execute_disciplined[OF ok(1), of f] m x by (simp add: disciplined_def)
  then show ?thesis by (auto simp: grown_def settled_def keeps_def)
qed

text \<open>C1: A checked action of a program built by the compiler runs in two phases: the bodies activated in its
  first phase, by itself and by the reactions it triggers, are executed afterwards, each once and in reverse order, and the
  stack is empty again; evaluating its precondition activates nothing and leaves the stack empty.  The precondition and body of the
  action and every body of the program are \<open>regular\<close>: they make no pull port call, println prints no type name, operators on
  untyped operands are folded, calls go to callables of the program with the signature of their type, and an expression
  statement is a call or a value of some bytes.  This leaves out bodies that the checker accepts: pull port calls, whose getter is
  known at run time only, and those of \<open>println_of_type_pops\<close> and \<open>variable_statement_moves_top\<close>, which move the stack.\<close>

theorem checked_action_runs_in_two_phases:
  assumes P: "built_program K P" and c: "compile_action K G ss i d = Inr (p, t, k, a_precondition a, a_body a)"
    and l: "links G P" and r: "regular P p" "regular_stmt P t"
    and m: "settled (tos m) m" "stack_empty (the_stack m)" "bp m = 0"
  shows "(\<forall>b m'. enabled P f a component iota m = Inr (b, m') \<longrightarrow>
      stack_empty (the_stack m') \<and> bp m' = 0 \<and> phases m' = phases m) \<and>
    (\<forall>m'. perform_action P f a component iota m = Inr m' \<longrightarrow>
      execute_no_check P f a component iota m = Inr m' \<and> stack_empty (the_stack m') \<and> bp m' = 0 \<and>
      (\<exists>xs. distinct (map fst xs) \<and> phases m' = phases m @ activations xs @ deferrals xs))"
proof -
  have ok: "program_ok P" "callees_ok P" "k_env K = p_types P"
    using built_program_ok[OF P] P by (simp_all add: program_ok_def built_program_def)
  note a = compile_actionD[OF c ok(3) l r]
  show ?thesis
    using enabled_keeps_stack[OF ok(2) a(1) m(1,2)] action_in_two_phases[OF ok(1) a(2) m] m(3) by metis
qed

section \<open>An example\<close>

text \<open>
  A component with a push port and a counter, after the pointer the runtime keeps: its action calls the port and steps the
  counter in its mutable phase while the counter is below 5, and its reaction steps it as well.  The code is that of Phases, with the changes
  to the schedule.
\<close>

definition tally_fields :: "field list" where
  "tally_fields = [Field 0 True ''0runtime'' (Pointer (Basic Int32)) {},
     Field 0 False ''ping'' (FunctionBase PushPort 7 (Parameter_List [] False) (Parameter_List [] False)) {},
     Field 0 False ''x'' (Basic Intt) {}]"

definition tally_env :: tenv where
  "tally_env n = (if n = 30 then Struct Component 1 tally_fields else predeclared n)"

definition tally_receiver :: "nat \<times> parameter" where
  "tally_receiver = (1, Parameter ''this'' (Pointer (NamedType 30)) Immutable Immutable Receiver)"

definition tally_checker :: checker where
  "tally_checker = \<lparr>k_env = tally_env, k_nesting = 5, k_named = (\<lambda>n. \<lparr>n_methods = [], n_initializers = [], n_getters = [], n_reactions = []\<rparr>),
     k_folding = folder, k_receiver = None, k_context = Other, k_mutable_phase = False, k_indeterminate = Mutable\<rparr>"

text \<open>Bodies kept at \<open>a\<close>.\<close>

definition tally_generator :: "int \<Rightarrow> generator" where
  "tally_generator a = \<lparr>g_types = tally_env, g_nesting = 5, g_offset = (\<lambda>i. - 16), g_receiver = - 16, g_current = - 16, g_code = (\<lambda>c. a),
     g_access = (\<lambda>b. AccessWrite)\<rparr>"

definition step_x :: pstmt where
  "step_x = P_List [P_Step True (P_Select (P_Identifier ''this'') ''x'')]"

definition tally_reaction :: member where
  "tally_reaction = \<lparr>d_kind = Reaction_Member, d_receiver = Some tally_receiver, d_iota = None, d_parameters = [tally_receiver],
     d_returns = [], d_body = P_List [P_Activate [] step_x]\<rparr>"

definition tally_action :: action_member where
  "tally_action = \<lparr>ad_iota = None, ad_receiver = tally_receiver,
     ad_precondition = P_Binary (Computed LessThaner) (P_Select (P_Identifier ''this'') ''x'') (P_Literal (Basic UntypedInteger) (put_scalar Long 5 no_value)),
     ad_body = P_List [P_Activate [P_Push_Port_Call ''ping'' []] step_x]\<rparr>"



definition reaction_code :: operation where
  "reaction_code = SetRestoreCurrentInstance (ListOperation [operation.Activate (ListOperation []) 5002]) (- 16)"

definition field_x :: operation where
  "field_x = operation.Select (Load (Reference (- 16)) (Pointer (NamedType 30))) 16"

definition step_code :: operation where
  "step_code = SetRestoreCurrentInstance (Push (ListOperation [Increment (Scalar Long) field_x])) (- 16)"

definition tick :: action where
  "tick = \<lparr>a_dimension = - 1, a_locals = 0,
     a_precondition = SetRestoreCurrentInstance
       (Binary (Scalar Long) LessThaner (Load field_x (Basic Intt)) (operation.Literal (scalar_bytes Long 5))) (- 16),
     a_body = SetRestoreCurrentInstance
       (ListOperation [operation.Activate (ListOperation [operation.PushPortCall 0 (- 16) 8 (ListOperation [])]) 5001]) (- 16)\<rparr>"

definition tally :: program where
  "tally = \<lparr>p_types = tally_env, p_nesting = 5, callable_at = [96 \<mapsto> on_ping\<lparr>c_body := reaction_code\<rparr>],
     code_at = [5001 \<mapsto> step_code, 5002 \<mapsto> step_code], p_storage = id,
     float_apply = (\<lambda>k f xs ys. []), float_one = (\<lambda>k. []), float_convert = (\<lambda>t u bs. [])\<rparr>"

lemma tally_reaction_compiles:
  "case compile_member tally_checker (tally_generator 5002) [] 5 tally_reaction of Inl e \<Rightarrow> False
   | Inr (t, c) \<Rightarrow> c = reaction_code \<and> regular_stmt tally t \<and> activation_codes (tally_generator 5002) t = [Inr step_code]"
  by code_simp

lemma tally_action_compiles:
  "case compile_action tally_checker (tally_generator 5001) [] 5 tally_action of Inl e \<Rightarrow> False
   | Inr (p, t, k, c, b) \<Rightarrow> k = Dynamic \<and> c = a_precondition tick \<and> b = a_body tick \<and> regular tally p \<and> regular_stmt tally t \<and>
       activation_codes (tally_generator 5001) t = [Inr step_code]"
  by code_simp

lemma tick_result:
  "map_sum id (\<lambda>m. (history m, load_from 32 1 m)) (perform_action tally 12 tick 16 0 ping_machine) =
     Inr ([Activated 4112 5001, Activated 4136 5002, Deferred 4136 5002, Scheduled 0, Deferred 4112 5001, Scheduled 0], Inr [2])"
  by code_simp

lemma ping_settled: "settled (tos ping_machine) ping_machine" "stack_empty (the_stack ping_machine)" "bp ping_machine = 0"
  using fresh_settled by (simp_all add: ping_machine_def settled_def) (simp_all add: fresh_machine_def make_stack_def stack_empty_def)


text \<open>Expressions and a function over a variable kept at address 32.\<close>

definition cell_generator :: generator where
  "cell_generator = (tally_generator 5001)\<lparr>g_offset := (\<lambda>i. 32)\<rparr>"

definition cell_scopes :: scopes where
  "cell_scopes = enter_symbol (Variable_Entry 2 ''i'' (Basic Intt) Mutable Mutable) (open_scope [])"

definition int_literal :: "int \<Rightarrow> pexp" where
  "int_literal i = P_Literal (Basic UntypedInteger) (put_scalar Long i no_value)"

definition less_two :: pexp where
  "less_two = P_Binary (Computed Subtracter) (P_Identifier ''i'') (int_literal 2)"

definition count_up :: member where
  "count_up = \<lparr>d_kind = Function_Member, d_receiver = None, d_iota = None, d_parameters = [], d_returns = [],
     d_body = P_List [P_Var [''i''] Mutable Mutable (Some (Basic Intt)) [int_literal 7],
       P_While (P_Binary (Computed LessThaner) (P_Identifier ''i'') (int_literal 9)) (P_List [P_Step True (P_Identifier ''i'')])]\<rparr>"

lemma less_two_result:
  "case check_expr tally_checker cell_scopes less_two of Inl e \<Rightarrow> False
   | Inr x \<Rightarrow> regular tally x \<and> e_kind (ev_of x) = ValueExpressionKind \<and> e_type (ev_of x) = Some (Basic Intt) \<and>
       (case generate cell_generator x of Inl e \<Rightarrow> False
        | Inr c \<Rightarrow> map_sum id (\<lambda>(r, m). (r, load_from 4096 8 m)) (execute tally 5 c fresh_machine) =
            Inr (Control_Continue, Inr (scalar_bytes Long (- 2))))"
  by code_simp

lemma count_up_result:
  "case compile_member tally_checker cell_generator [] 2 count_up of Inl e \<Rightarrow> False
   | Inr (t, c) \<Rightarrow> regular_stmt tally t \<and>
       map_sum id (\<lambda>(r, m). load_from 32 8 m) (execute tally 9 c fresh_machine) = Inr (Inr (scalar_bytes Long 9))"
  by code_simp

lemma tally_links:
  "word_sized a \<Longrightarrow> links (tally_generator a) tally" "links cell_generator tally"
proof -
  have "is_unnamed (Struct Component 1 tally_fields)" by (simp add: is_unnamed_def kind_order_eval)
  then have "wf_tenv tally_env" using wf_predeclared by (simp add: wf_tenv_def tally_env_def)
  then have p: "predeclares tally_env"
    by (simp add: predeclares_def tally_env_def predeclared_def predeclared_list_def)
  show "word_sized a \<Longrightarrow> links (tally_generator a) tally" "links cell_generator tally"
    using p by (simp_all add: links_def cell_generator_def tally_generator_def tally_def word_sized_def)
qed

lemma tally_built: "built_program tally_checker tally"
proof -
  obtain t where r: "compile_member tally_checker (tally_generator 5002) [] 5 tally_reaction = Inr (t, reaction_code)"
    "regular_stmt tally t" "activation_codes (tally_generator 5002) t = [Inr step_code]"
    using tally_reaction_compiles by (auto split: sum.splits prod.splits)
  obtain p u k c b where a: "compile_action tally_checker (tally_generator 5001) [] 5 tally_action = Inr (p, u, k, c, b)"
    "regular_stmt tally u" "activation_codes (tally_generator 5001) u = [Inr step_code]"
    using tally_action_compiles by (auto split: sum.splits prod.splits)
  have l: "links (tally_generator 5001) tally" "links (tally_generator 5002) tally"
    by (rule tally_links(1), simp add: word_sized_def)+
  have "member_code tally_checker tally (on_ping\<lparr>c_body := reaction_code\<rparr>)"
    unfolding member_code_def using r l(2)
    by (intro exI[of _ "tally_generator 5002"] exI[of _ "[]"] exI[of _ 5] exI[of _ tally_reaction] exI[of _ t])
      (simp add: on_ping_def tally_reaction_def)
  moreover have "activation_code tally_checker tally step_code"
  proof -
    have "\<exists>s. check_member tally_checker [] 5 tally_reaction = Inr (t, s)"
      using r(1) by (auto simp: compile_member_def obind_eq_Inr)
    then have "\<exists>ss i d s. check_member tally_checker ss i d = Inr (t, s)" by blast
    then show ?thesis unfolding activation_code_def
      using r(2,3) l(2) by (intro exI[of _ "tally_generator 5002"] exI[of _ t] conjI disjI1) simp_all
  qed
  moreover have "k_env tally_checker = p_types tally" by (simp add: tally_checker_def tally_def)
  moreover have "callable_at tally = [96 \<mapsto> on_ping\<lparr>c_body := reaction_code\<rparr>]" "code_at tally = [5001 \<mapsto> step_code, 5002 \<mapsto> step_code]"
    by (simp_all add: tally_def)
  ultimately show ?thesis using linksD(4)[OF l(1)] by (auto simp: built_program_def split: if_splits)
qed

theorem checked_expression_pushes_its_type_witness:
  "\<exists>x c m'. check_expr tally_checker cell_scopes less_two = Inr x \<and> generate cell_generator x = Inr c \<and>
     execute tally 5 c fresh_machine = Inr (Control_Continue, m') \<and> tos m' = tos fresh_machine + 8 \<and>
     load_from 4096 8 m' = Inr (scalar_bytes Long (- 2))"
proof -
  obtain x where x: "check_expr tally_checker cell_scopes less_two = Inr x" "regular tally x"
    "e_kind (ev_of x) = ValueExpressionKind" "e_type (ev_of x) = Some (Basic Intt)"
    "case generate cell_generator x of Inl e \<Rightarrow> False
     | Inr c \<Rightarrow> map_sum id (\<lambda>(r, m). (r, load_from 4096 8 m)) (execute tally 5 c fresh_machine) =
         Inr (Control_Continue, Inr (scalar_bytes Long (- 2)))"
    using less_two_result by (auto split: sum.splits)
  obtain c where c: "generate cell_generator x = Inr c"
    "map_sum id (\<lambda>(r, m). (r, load_from 4096 8 m)) (execute tally 5 c fresh_machine) =
       Inr (Control_Continue, Inr (scalar_bytes Long (- 2)))"
    using x(5) by (cases "generate cell_generator x") auto
  obtain m' where m: "execute tally 5 c fresh_machine = Inr (Control_Continue, m')" "load_from 4096 8 m' = Inr (scalar_bytes Long (- 2))"
    using c(2) by (cases "execute tally 5 c fresh_machine") auto
  have z: "type_size (p_types tally) (p_nesting tally) (Basic Intt) = Inr 8" by (simp add: tally_def eval_nat_numeral)
  have "tos m' = tos fresh_machine + aligned_size 8"
    using checked_expression_pushes_its_type[OF tally_built x(1) c(1) tally_links(2) x(2) fresh_settled m(1)] x(3,4) z by blast
  then show ?thesis using x(1) c(1) m by auto
qed

theorem checked_body_keeps_stack_witness:
  "\<exists>t c r m'. compile_member tally_checker cell_generator [] 2 count_up = Inr (t, c) \<and>
     execute tally 9 c fresh_machine = Inr (r, m') \<and> tos m' = tos fresh_machine \<and> load_from 32 8 m' = Inr (scalar_bytes Long 9)"
proof -
  obtain t c where c: "compile_member tally_checker cell_generator [] 2 count_up = Inr (t, c)" "regular_stmt tally t"
    "map_sum id (\<lambda>(r, m). load_from 32 8 m) (execute tally 9 c fresh_machine) = Inr (Inr (scalar_bytes Long 9))"
    using count_up_result by (auto split: sum.splits prod.splits)
  obtain r m' where m: "execute tally 9 c fresh_machine = Inr (r, m')" "load_from 32 8 m' = Inr (scalar_bytes Long 9)"
    using c(3) by (cases "execute tally 9 c fresh_machine") auto
  have "d_kind count_up \<noteq> Reaction_Member" by (simp add: count_up_def)
  then have "tos m' = tos fresh_machine"
    using checked_body_keeps_stack[OF tally_built c(1) _ tally_links(2) c(2) fresh_settled m(1)] by blast
  then show ?thesis using c(1) m by blast
qed

theorem checked_action_runs_in_two_phases_witness:
  "\<exists>p t m'. compile_action tally_checker (tally_generator 5001) [] 5 tally_action =
       Inr (p, t, Dynamic, a_precondition tick, a_body tick) \<and>
     execute_no_check tally 12 tick 16 0 ping_machine = Inr m' \<and> stack_empty (the_stack m') \<and>
     history m' = [Activated 4112 5001, Activated 4136 5002, Deferred 4136 5002, Scheduled 0, Deferred 4112 5001, Scheduled 0] \<and>
     load_from 32 1 m' = Inr [2]"
proof -
  obtain p t where c: "compile_action tally_checker (tally_generator 5001) [] 5 tally_action =
      Inr (p, t, Dynamic, a_precondition tick, a_body tick)" "regular tally p" "regular_stmt tally t"
    using tally_action_compiles by (auto split: sum.splits prod.splits)
  obtain m' where m: "perform_action tally 12 tick 16 0 ping_machine = Inr m'"
    "history m' = [Activated 4112 5001, Activated 4136 5002, Deferred 4136 5002, Scheduled 0, Deferred 4112 5001, Scheduled 0]"
    "load_from 32 1 m' = Inr [2]"
    using tick_result by (cases "perform_action tally 12 tick 16 0 ping_machine") auto
  have l: "links (tally_generator 5001) tally" by (rule tally_links(1)) (simp add: word_sized_def)
  show ?thesis
    using checked_action_runs_in_two_phases[OF tally_built c(1) l c(2,3) ping_settled, of 12 16 0] c(1) m by blast
qed

section \<open>Programs the checker accepts and the generator does not\<close>

text \<open>
  The name of a type is accepted as an argument of println; its operation does nothing, and the bytes popped for
  it are those of whatever is on the stack.
\<close>

definition printing_scopes :: scopes where
  "printing_scopes = enter_symbol (Polymorphic_Entry ''println'' Println) (enter_symbol (Type_Entry ''int'' (Basic Intt)) (open_scope []))"

lemma println_of_type_pops:
  "case check_stmt tally_checker (P_Expression (P_Call (P_Identifier ''println'') [P_Identifier ''int''])) (printing_scopes, 2) of
     Inl e \<Rightarrow> False
   | Inr (t, s) \<Rightarrow>
       (case generate_stmt cell_generator t of Inl e \<Rightarrow> False
        | Inr c \<Rightarrow> map_sum id (\<lambda>(r, m). tos m) (obind (push_ptr 7 fresh_machine) (execute tally 5 c)) = Inr (tos fresh_machine))"
  by code_simp

text \<open>A comparison of strings and an addition of floats have no operation.\<close>

lemma operators_without_code:
  "list_all (\<lambda>(t, f). case check_expr tally_checker (enter_symbol (Variable_Entry 2 ''x'' t Mutable Mutable) (open_scope []))
       (P_Binary (Computed f) (P_Identifier ''x'') (P_Identifier ''x'')) of
       Inl e \<Rightarrow> False | Inr x \<Rightarrow> generate cell_generator x = Inl Not_reached)
     [(Basic String, Equalizer), (Basic Float64, Adder)]"
  by code_simp

end
