(* ===== verification/Elaborate.thy ===== *)
theory Elaborate
  imports Declarations Compose
begin

text \<open>
  The elaboration of a composition (the elaborate functions of composition.cpp): the bodies of getters, actions and reactions are
  visited once for every instance they belong to, and every activation, port call and getter call becomes an edge of the
  graph; the bodies of binders are executed and connect ports to reactions and getters.  Indices and receivers are
  computed by executing the code generated for them on a stack that holds the address of the instance but
  none of the values the body would have computed.
\<close>

section \<open>The static executor\<close>

text \<open>
  struct Executor: a new executor with a stack of 1024 bytes and no current component; the rest of the
  memory is that of the compiler.  Its push is not implemented.
\<close>

definition static_executor :: "machine \<Rightarrow> machine" where
  "static_executor m =
     m\<lparr>the_stack := make_stack (stack_data (the_stack m)) 1024, live_frames := [], phase_pointer := 0, current_info := 0,
       allocations := 0, history := []\<rparr>"

primrec execute_static :: "program \<Rightarrow> nat \<Rightarrow> run" where
  "execute_static P 0 = (\<lambda>c m. Inl Out_of_fuel)"
| "execute_static P (Suc f) = (\<lambda>c m. case c of
       Push b \<Rightarrow> obind (execute_static P f b m) (\<lambda>_. Inl Unimplemented)
     | _ \<Rightarrow> execute_step P (execute_static P f) f c m)"

section \<open>Nodes and their owners\<close>

text \<open>
  What the visitor works for: an action, in its precondition or its body, a reaction or a getter, of the instance at
  \<open>o_address\<close>.
\<close>

datatype role = Action_Role bool | Reaction_Role | Getter_Role

record owner =
  o_role :: role
  o_node :: nat
  o_address :: "64 word"
  o_dimension :: int
  o_iota :: int
  o_arguments :: parameter_list
  o_locals :: "64 word"
  o_generator :: generator

text \<open>The maps from addresses to instances, ports and getters; a node is its number in the graph.\<close>

record sites =
  instance_at :: "64 word \<Rightarrow> bool"
  push_port_at :: "64 word \<Rightarrow> nat option"
  pull_port_at :: "64 word \<Rightarrow> nat option"
  getter_at :: "64 word \<Rightarrow> int \<Rightarrow> nat option"

text \<open>The visitor: the graph built so far, its executor, the current activation and the nodes the precondition calls.\<close>

record elaborating =
  x_graph :: graph
  x_machine :: machine
  x_activation :: "nat option"
  x_precondition :: "nat list"

text \<open>The constructors: iota, the receiver, room for the arguments, a fake instruction pointer, which getters lack, and the locals.\<close>

definition owner_iota :: "owner \<Rightarrow> machine \<Rightarrow> machine outcome" where
  "owner_iota ow m =
     (if o_role ow \<noteq> Getter_Role \<and> o_dimension ow \<noteq> - 1 then push_scalar Long (o_iota ow) m else Inr m)"

definition owner_arguments :: "program \<Rightarrow> owner \<Rightarrow> machine \<Rightarrow> machine outcome" where
  "owner_arguments P ow m =
     (case o_role ow of
        Action_Role pre \<Rightarrow> Inr m
      | _ \<Rightarrow> obind (list_size P (o_arguments ow)) (\<lambda>n. on_stack (\<lambda>st. reserve st (n - 8)) m))"

definition owner_frame :: "program \<Rightarrow> owner \<Rightarrow> machine \<Rightarrow> machine outcome" where
  "owner_frame P ow m =
     obind (owner_iota ow m) (\<lambda>m. obind (push_ptr (uint (o_address ow)) m) (\<lambda>m. obind (owner_arguments P ow m) (\<lambda>m.
     obind (if o_role ow = Getter_Role then Inr m else push_ptr 0 m) (enter_frame (o_locals ow)))))"

fun add_outgoing :: "nat \<Rightarrow> node \<Rightarrow> node" where
  "add_outgoing m (Action_Node i p a ns) = Action_Node i p a (ns @ [m])"
| "add_outgoing m (Reaction_Node i a ns) = Reaction_Node i a (ns @ [m])"
| "add_outgoing m (Getter_Node i a ns) = Getter_Node i a (ns @ [m])"
| "add_outgoing m (Activation_Node i a ns) = Activation_Node i a (ns @ [m])"
| "add_outgoing m (PushPort_Node ns) = PushPort_Node (ns @ [m])"
| "add_outgoing m (PullPort_Node ns) = PullPort_Node (ns @ [m])"

definition add_edge :: "nat \<Rightarrow> nat \<Rightarrow> graph \<Rightarrow> graph" where
  "add_edge n m g = g[n := add_outgoing m (g ! n)]"

text \<open>addCall, and the search for a node whose result an assert demands.\<close>

definition add_call :: "owner \<Rightarrow> nat \<Rightarrow> elaborating \<Rightarrow> elaborating" where
  "add_call ow n s =
     (let s' = s\<lparr>x_graph := add_edge (o_node ow) n (x_graph s)\<rparr> in
      if o_role ow = Action_Role True then s'\<lparr>x_precondition := x_precondition s @ [n]\<rparr> else s')"

definition found_node :: "nat option \<Rightarrow> nat outcome" where
  "found_node n = (case n of None \<Rightarrow> Inl Assertion_failed | Some n \<Rightarrow> Inr n)"

section \<open>Values computed by the executor\<close>

text \<open>The code of an expression is executed and its pointer or, when \<open>loads\<close>, what the pointer points to is left on the stack.\<close>

definition static_execute :: "program \<Rightarrow> run \<Rightarrow> generator \<Rightarrow> bool \<Rightarrow> texp \<Rightarrow> machine \<Rightarrow> machine outcome" where
  "static_execute P run G loads e m =
     obind (generate G e) (\<lambda>c. obind (operand run c m) (\<lambda>m.
     if loads then
       obind (pop_ptr m) (\<lambda>(p, m). obind (the_type (ev_of e)) (\<lambda>t. obind (size_of P t) (\<lambda>sz.
       obind (load_from p (unat sz) m) (\<lambda>bs. push_value bs m))))
     else Inr m))"

definition static_index :: "program \<Rightarrow> run \<Rightarrow> generator \<Rightarrow> texp \<Rightarrow> machine \<Rightarrow> (int \<times> machine) outcome" where
  "static_index P run G e m =
     (if e_kind (ev_of e) = UnknownExpressionKind then Inl Assertion_failed
      else obind (static_execute P run G (e_kind (ev_of e) = VariableExpressionKind) e m) (pop_scalar Long))"

text \<open>The instance a getter is called on.\<close>

definition static_instance :: "program \<Rightarrow> run \<Rightarrow> generator \<Rightarrow> texp \<Rightarrow> machine \<Rightarrow> (64 word \<times> machine) outcome" where
  "static_instance P run G e m =
     (if e_kind (ev_of e) = UnknownExpressionKind then Inl Assertion_failed
      else obind (the_type (ev_of e)) (\<lambda>t.
        obind (static_execute P run G (e_kind (ev_of e) = VariableExpressionKind \<and> is_pointer (g_types G) t) e m) (\<lambda>m.
        obind (pop_ptr m) (\<lambda>(p, m). Inr (word_of_int p, m)))))"

section \<open>The visitor\<close>

definition visit_getter :: "program \<Rightarrow> run \<Rightarrow> sites \<Rightarrow> owner \<Rightarrow> texp \<Rightarrow> int \<Rightarrow> elaborating \<Rightarrow> elaborating outcome" where
  "visit_getter P run S ow e a s =
     obind (static_instance P run (o_generator ow) e (x_machine s)) (\<lambda>(i, m).
       if \<not> instance_at S i then Inl Assertion_failed
       else obind (found_node (getter_at S i a)) (\<lambda>n. Inr (add_call ow n (s\<lparr>x_machine := m\<rparr>))))"

text \<open>get_instance knows the instances of actions and reactions only.\<close>

definition visit_pull_port :: "sites \<Rightarrow> owner \<Rightarrow> field list \<Rightarrow> nat \<Rightarrow> elaborating \<Rightarrow> elaborating outcome" where
  "visit_pull_port S ow fs k s =
     (if o_role ow = Getter_Role then Inl Not_reached
      else obind (offset (g_types (o_generator ow)) (g_nesting (o_generator ow)) fs k) (\<lambda>off.
        obind (found_node (pull_port_at S (o_address ow + off))) (\<lambda>n. Inr (add_call ow n s))))"

definition visit_call :: "program \<Rightarrow> run \<Rightarrow> sites \<Rightarrow> owner \<Rightarrow> texp \<Rightarrow> elaborating \<Rightarrow> elaborating outcome" where
  "visit_call P run S ow f s =
     (if e_kind (ev_of f) = UnknownExpressionKind then Inl Assertion_failed
      else obind (the_type (ev_of f)) (\<lambda>t. case t of
          MethodBase Getter i n r ps rs \<Rightarrow>
            (case f of T_Method w e c \<Rightarrow> visit_getter P run S ow e (fst c) s | _ \<Rightarrow> Inl Undefined_behaviour)
        | FunctionBase PullPort i ps rs \<Rightarrow>
            (case f of T_Field w e fs k \<Rightarrow> visit_pull_port S ow fs k s | _ \<Rightarrow> Inl Undefined_behaviour)
        | _ \<Rightarrow> Inr s))"

text \<open>The edge of a push port call starts at the current activation; \<open>shift\<close> is the offset of the element of an array of ports.\<close>

definition visit_push_port :: "sites \<Rightarrow> owner \<Rightarrow> field list \<Rightarrow> nat \<Rightarrow> 64 word \<Rightarrow> elaborating \<Rightarrow> elaborating outcome" where
  "visit_push_port S ow fs k shift s =
     (case x_activation s of
        None \<Rightarrow> Inl Undefined_behaviour
      | Some n \<Rightarrow>
          obind (offset (g_types (o_generator ow)) (g_nesting (o_generator ow)) fs k) (\<lambda>off.
          obind (found_node (push_port_at S (o_address ow + off + shift))) (\<lambda>p.
            Inr (s\<lparr>x_graph := add_edge n p (x_graph s)\<rparr>))))"

definition visit_port_index :: "program \<Rightarrow> run \<Rightarrow> owner \<Rightarrow> ty \<Rightarrow> texp \<Rightarrow> elaborating \<Rightarrow> (64 word \<times> elaborating) outcome" where
  "visit_port_index P run ow t i s =
     obind (static_index P run (o_generator ow) i (x_machine s)) (\<lambda>(idx, m). case t of
         Array b d \<Rightarrow>
           if idx < 0 then Inl (Rejected 100)
           else if d \<le> idx then Inl (Rejected 75)
           else obind (unit_size (g_types (o_generator ow)) (g_nesting (o_generator ow)) b) (\<lambda>u.
             Inr (word_of_int idx * u, s\<lparr>x_machine := m\<rparr>))
       | _ \<Rightarrow> Inl Undefined_behaviour)"

fun visit_expr :: "program \<Rightarrow> run \<Rightarrow> sites \<Rightarrow> owner \<Rightarrow> texp \<Rightarrow> elaborating \<Rightarrow> elaborating outcome"
  and visit_exprs :: "program \<Rightarrow> run \<Rightarrow> sites \<Rightarrow> owner \<Rightarrow> texp list \<Rightarrow> elaborating \<Rightarrow> elaborating outcome"
where
  "visit_expr P run S ow T_Error s = Inl Outside_model"
| "visit_expr P run S ow (T_Literal v) s = Inr s"
| "visit_expr P run S ow (T_Identifier v x) s = Inr s"
| "visit_expr P run S ow (T_Type v) s = Inr s"
| "visit_expr P run S ow (T_Address_Of v e) s = visit_expr P run S ow e s"
| "visit_expr P run S ow (T_Dereference v e) s = visit_expr P run S ow e s"
| "visit_expr P run S ow (T_Field v e fs k) s = visit_expr P run S ow e s"
| "visit_expr P run S ow (T_Method v e c) s = visit_expr P run S ow e s"
| "visit_expr P run S ow (T_Index v b i t) s = obind (visit_expr P run S ow b s) (visit_expr P run S ow i)"
| "visit_expr P run S ow (T_Index_Slice v b lo hi mx t) s = Inl Not_reached"
| "visit_expr P run S ow (T_Conversion v e) s = visit_expr P run S ow e s"
| "visit_expr P run S ow (T_Builtin v f es) s = visit_exprs P run S ow es s"
| "visit_expr P run S ow (T_Call v f es) s =
     obind (visit_call P run S ow f s) (\<lambda>s. obind (visit_expr P run S ow f s) (visit_exprs P run S ow es))"
| "visit_expr P run S ow (T_Unary v f e) s = visit_expr P run S ow e s"
| "visit_expr P run S ow (T_Binary v f l r) s = obind (visit_expr P run S ow l s) (visit_expr P run S ow r)"
| "visit_expr P run S ow (T_Push_Port_Call v fs k ps es) s =
     obind (visit_push_port S ow fs k 0 s) (visit_exprs P run S ow es)"
| "visit_expr P run S ow (T_Indexed_Push_Port_Call v fs k ps t i es) s =
     obind (visit_port_index P run ow t i s) (\<lambda>(shift, s).
     obind (visit_push_port S ow fs k shift s) (visit_exprs P run S ow es))"
| "visit_exprs P run S ow [] s = Inr s"
| "visit_exprs P run S ow (e # es) s = obind (visit_expr P run S ow e s) (visit_exprs P run S ow es)"

text \<open>
  Activate makes a node for the activation and visits its port calls, and not its body.  Loops, \<open>+=\<close>, \<open>++\<close> and \<open>--\<close> have no
  visit of their own: the default one aborts.
\<close>

definition visit_activate :: "owner \<Rightarrow> tstmt \<Rightarrow> elaborating \<Rightarrow> elaborating outcome" where
  "visit_activate ow b s =
     (if o_role ow = Getter_Role then Inl Not_reached
      else let n = length (x_graph s) in
        Inr (s\<lparr>x_graph := add_edge (o_node ow) n (x_graph s @ [Activation_Node (unat (o_address ow)) (g_access (o_generator ow) b) []]),
               x_activation := Some n\<rparr>))"

fun visit_stmt :: "program \<Rightarrow> run \<Rightarrow> sites \<Rightarrow> owner \<Rightarrow> tstmt \<Rightarrow> elaborating \<Rightarrow> elaborating outcome"
  and visit_stmts :: "program \<Rightarrow> run \<Rightarrow> sites \<Rightarrow> owner \<Rightarrow> tstmt list \<Rightarrow> elaborating \<Rightarrow> elaborating outcome"
where
  "visit_stmt P run S ow S_Empty s = Inr s"
| "visit_stmt P run S ow (S_Expression e) s = visit_expr P run S ow e s"
| "visit_stmt P run S ow (S_Var vs es) s = visit_exprs P run S ow es s"
| "visit_stmt P run S ow (S_Assign l r) s = obind (visit_expr P run S ow l s) (visit_expr P run S ow r)"
| "visit_stmt P run S ow (S_Add_Assign l r) s = Inl Not_reached"
| "visit_stmt P run S ow (S_Step up e) s = Inl Not_reached"
| "visit_stmt P run S ow (S_Return i t e) s = visit_expr P run S ow e s"
| "visit_stmt P run S ow (S_List cs) s = visit_stmts P run S ow cs s"
| "visit_stmt P run S ow (S_If before c t f) s =
     obind (visit_stmt P run S ow before s) (\<lambda>s. obind (visit_expr P run S ow c s) (\<lambda>s.
     obind (visit_stmt P run S ow t s) (visit_stmt P run S ow f)))"
| "visit_stmt P run S ow (S_While c b) s = Inl Not_reached"
| "visit_stmt P run S ow (S_For i n b) s = Inl Not_reached"
| "visit_stmt P run S ow (S_Change i t e b) s = obind (visit_expr P run S ow e s) (visit_stmt P run S ow b)"
| "visit_stmt P run S ow (S_Activate a es b) s = obind (visit_activate ow b s) (visit_exprs P run S ow es)"
| "visit_stmts P run S ow [] s = Inr s"
| "visit_stmts P run S ow (c # cs) s = obind (visit_stmt P run S ow c s) (visit_stmts P run S ow cs)"

section \<open>Declarations and their instances\<close>

text \<open>What the elaboration reads of a getter, an action or a reaction, and of a binder; and of the declarations of a component type.\<close>

record code_decl =
  cd_callable :: int
  cd_dimension :: int
  cd_precondition_access :: receiver_access
  cd_access :: receiver_access
  cd_arguments :: parameter_list
  cd_locals :: "64 word"
  cd_generator :: generator
  cd_precondition :: texp
  cd_body :: tstmt

datatype bstmt =
    B_Push texp texp
  | B_Push_Parameter texp texp texp
  | B_Pull texp texp
  | B_List "bstmt list"
  | B_If bstmt texp bstmt bstmt
  | B_For nat int bstmt
  | B_Other tstmt

record bind_decl =
  bd_locals :: "64 word"
  bd_generator :: generator
  bd_body :: bstmt

record component_code =
  ct_getters :: "code_decl list"
  ct_actions :: "code_decl list"
  ct_reactions :: "code_decl list"
  ct_binds :: "bind_decl list"

text \<open>
  The composer after the enumeration of instances and ports: the maps of Compose, the declarations of the types, and
  the program, fuel and surrounding memory of the static executors.
\<close>

record elaborator =
  el_program :: program
  el_fuel :: nat
  el_machine :: machine
  el_code :: "ty \<Rightarrow> component_code"
  el_composer :: composer

text \<open>
  The maps of getters and reactions have a pointer in their key, so their order is that of addresses; here it is that of
  insertion, which only decides how the nodes are numbered.  \<open>co_bound\<close> holds the push_ports of the reactions.
\<close>

record composition =
  co_graph :: graph
  co_getters :: "((64 word \<times> int) \<times> nat \<times> code_decl) list"
  co_actions :: "(64 word \<times> code_decl \<times> nat \<times> nat \<times> nat list) list"
  co_reactions :: "((64 word \<times> int \<times> int) \<times> nat \<times> code_decl) list"
  co_bound :: "(nat \<times> nat) list"

definition instance_codes :: "elaborator \<Rightarrow> (64 word \<times> component_code) list" where
  "instance_codes E =
     map (\<lambda>(a, p). (a, case p of Placed_Instance _ _ t _ _ _ \<Rightarrow> el_code E t | _ \<Rightarrow> el_code E (Basic UntypedNil)))
       (instances (el_composer E))"

text \<open>The ports are the first nodes, push ports before pull ports.\<close>

definition port_graph :: "elaborator \<Rightarrow> graph" where
  "port_graph E =
     map (\<lambda>_. PushPort_Node []) (push_ports (el_composer E)) @ map (\<lambda>_. PullPort_Node []) (pull_ports (el_composer E))"

definition numbered :: "nat \<Rightarrow> ('a \<times> 'b) list \<Rightarrow> 'a \<Rightarrow> nat option" where
  "numbered n m = map_of (zip (map fst m) [n..<n + length m])"

definition the_sites :: "elaborator \<Rightarrow> composition \<Rightarrow> sites" where
  "the_sites E c =
     \<lparr>instance_at = (\<lambda>a. map_of (instances (el_composer E)) a \<noteq> None),
      push_port_at = numbered 0 (push_ports (el_composer E)),
      pull_port_at = numbered (length (push_ports (el_composer E))) (pull_ports (el_composer E)),
      getter_at = (\<lambda>a g. map_option fst (map_of (co_getters c) (a, g)))\<rparr>"

definition el_run :: "elaborator \<Rightarrow> run" where
  "el_run E = execute_static (el_program E) (el_fuel E)"

definition owner_of :: "role \<Rightarrow> nat \<Rightarrow> 64 word \<Rightarrow> int \<Rightarrow> code_decl \<Rightarrow> owner" where
  "owner_of r n a iota d =
     \<lparr>o_role = r, o_node = n, o_address = a, o_dimension = cd_dimension d, o_iota = iota, o_arguments = cd_arguments d,
      o_locals = cd_locals d, o_generator = cd_generator d\<rparr>"

text \<open>One visitor: its constructor and the visit of a tree.\<close>

definition elaborate_tree ::
  "elaborator \<Rightarrow> owner \<Rightarrow> (elaborating \<Rightarrow> elaborating outcome) \<Rightarrow> graph \<Rightarrow> (graph \<times> nat list) outcome"
where
  "elaborate_tree E ow visit g =
     obind (owner_frame (el_program E) ow (static_executor (el_machine E))) (\<lambda>m.
     obind (visit \<lparr>x_graph = g, x_machine = m, x_activation = None, x_precondition = []\<rparr>) (\<lambda>s.
       Inr (x_graph s, x_precondition s)))"

section \<open>Getters, actions and reactions\<close>

definition insert_new :: "'a \<Rightarrow> 'b \<Rightarrow> ('a \<times> 'b) list \<Rightarrow> ('a \<times> 'b) list" where
  "insert_new k v m = (if map_of m k = None then m @ [(k, v)] else m)"

definition enumerate_getter :: "64 word \<Rightarrow> composition \<Rightarrow> code_decl \<Rightarrow> composition" where
  "enumerate_getter a c d =
     c\<lparr>co_graph := co_graph c @ [Getter_Node (unat a) (cd_access d) []],
       co_getters := insert_new (a, cd_callable d) (length (co_graph c), d) (co_getters c)\<rparr>"

definition enumerate_getters :: "elaborator \<Rightarrow> composition \<Rightarrow> composition" where
  "enumerate_getters E c =
     foldl (\<lambda>c (a, code). foldl (enumerate_getter a) c (ct_getters code)) c (instance_codes E)"

definition elaborate_getter ::
  "elaborator \<Rightarrow> composition \<Rightarrow> (64 word \<times> int) \<times> nat \<times> code_decl \<Rightarrow> composition outcome"
where
  "elaborate_getter E = (\<lambda>c ((a, g), n, d).
     obind (elaborate_tree E (owner_of Getter_Role n a 0 d)
       (visit_stmt (el_program E) (el_run E) (the_sites E c) (owner_of Getter_Role n a 0 d) (cd_body d)) (co_graph c))
       (\<lambda>(g, _). Inr (c\<lparr>co_graph := g\<rparr>)))"

definition elaborate_getters :: "elaborator \<Rightarrow> composition \<Rightarrow> composition outcome" where
  "elaborate_getters E c = ofold (elaborate_getter E) (co_getters c) c"

definition enumerate_action :: "64 word \<Rightarrow> composition \<Rightarrow> code_decl \<Rightarrow> composition outcome" where
  "enumerate_action a c d =
     obind (indices (cd_dimension d)) (\<lambda>ks. Inr (foldl (\<lambda>c k.
       c\<lparr>co_graph := co_graph c @ [Action_Node (unat a) (cd_precondition_access d) (cd_access d) []],
         co_actions := co_actions c @ [(a, d, k, length (co_graph c), [])]\<rparr>) c ks))"

definition enumerate_actions :: "elaborator \<Rightarrow> composition \<Rightarrow> composition outcome" where
  "enumerate_actions E c =
     ofold (\<lambda>c (a, code). ofold (enumerate_action a) (ct_actions code) c) (instance_codes E) c"

text \<open>The precondition first, then the body; the nodes the precondition calls are kept for the scheduling of dependent instances.\<close>

definition elaborate_action ::
  "elaborator \<Rightarrow> composition \<Rightarrow> 64 word \<times> code_decl \<times> nat \<times> nat \<times> nat list \<Rightarrow> composition outcome"
where
  "elaborate_action E = (\<lambda>c (a, d, k, n, pre).
     let visitor = (\<lambda>b. owner_of (Action_Role b) n a (int k) d) in
     obind (elaborate_tree E (visitor True)
       (visit_expr (el_program E) (el_run E) (the_sites E c) (visitor True) (cd_precondition d)) (co_graph c)) (\<lambda>(g, ns).
     obind (elaborate_tree E (visitor False)
       (visit_stmt (el_program E) (el_run E) (the_sites E c) (visitor False) (cd_body d)) g) (\<lambda>(g, _).
       Inr (c\<lparr>co_graph := g, co_actions := co_actions c @ [(a, d, k, n, pre @ ns)]\<rparr>))))"

definition elaborate_actions :: "elaborator \<Rightarrow> composition \<Rightarrow> composition outcome" where
  "elaborate_actions E c = ofold (elaborate_action E) (co_actions c) (c\<lparr>co_actions := []\<rparr>)"

definition enumerate_reaction :: "64 word \<Rightarrow> composition \<Rightarrow> code_decl \<Rightarrow> composition outcome" where
  "enumerate_reaction a c d =
     obind (indices (cd_dimension d)) (\<lambda>ks. Inr (foldl (\<lambda>c k.
       c\<lparr>co_graph := co_graph c @ [Reaction_Node (unat a) (cd_access d) []],
         co_reactions := insert_new (a, cd_callable d, int k) (length (co_graph c), d) (co_reactions c)\<rparr>) c ks))"

definition enumerate_reactions :: "elaborator \<Rightarrow> composition \<Rightarrow> composition outcome" where
  "enumerate_reactions E c =
     ofold (\<lambda>c (a, code). ofold (enumerate_reaction a) (ct_reactions code) c) (instance_codes E) c"

definition elaborate_reaction ::
  "elaborator \<Rightarrow> composition \<Rightarrow> (64 word \<times> int \<times> int) \<times> nat \<times> code_decl \<Rightarrow> composition outcome"
where
  "elaborate_reaction E = (\<lambda>c ((a, r, k), n, d).
     obind (elaborate_tree E (owner_of Reaction_Role n a k d)
       (visit_stmt (el_program E) (el_run E) (the_sites E c) (owner_of Reaction_Role n a k d) (cd_body d)) (co_graph c))
       (\<lambda>(g, _). Inr (c\<lparr>co_graph := g\<rparr>)))"

definition elaborate_reactions :: "elaborator \<Rightarrow> composition \<Rightarrow> composition outcome" where
  "elaborate_reactions E c = ofold (elaborate_reaction E) (co_reactions c) c"

section \<open>Binders\<close>

record binding =
  b_graph :: graph
  b_machine :: machine
  b_bound :: "(nat \<times> nat) list"

definition bind_frame :: "bind_decl \<Rightarrow> 64 word \<Rightarrow> machine \<Rightarrow> machine outcome" where
  "bind_frame d a m =
     obind (push_ptr (uint a) m) (\<lambda>m. obind (push_ptr 0 m) (enter_frame (bd_locals d)))"

text \<open>The base of a selection and the callable it selects.\<close>

fun selection :: "texp \<Rightarrow> (texp \<times> int option) outcome" where
  "selection (T_Method v e c) = Inr (e, Some (fst c))"
| "selection (T_Field v e fs k) = Inr (e, None)"
| "selection _ = Inl Undefined_behaviour"

definition static_port :: "program \<Rightarrow> run \<Rightarrow> generator \<Rightarrow> texp \<Rightarrow> machine \<Rightarrow> (64 word \<times> machine) outcome" where
  "static_port P run G e m =
     obind (static_execute P run G False e m) (\<lambda>m. obind (pop_ptr m) (\<lambda>(p, m). Inr (word_of_int p, m)))"

text \<open>The component of a reaction: a base of pointer type is loaded whatever its kind.\<close>

definition reaction_component :: "program \<Rightarrow> run \<Rightarrow> generator \<Rightarrow> texp \<Rightarrow> machine \<Rightarrow> (64 word \<times> machine) outcome" where
  "reaction_component P run G e m =
     obind (the_type (ev_of e)) (\<lambda>t. obind (static_execute P run G (is_pointer (g_types G) t) e m) (\<lambda>m.
     obind (pop_ptr m) (\<lambda>(p, m). Inr (word_of_int p, m))))"

text \<open>The component of a getter: the code generator has wrapped the base in a load when it is a variable of pointer type.\<close>

definition getter_component :: "program \<Rightarrow> run \<Rightarrow> generator \<Rightarrow> texp \<Rightarrow> machine \<Rightarrow> (64 word \<times> machine) outcome" where
  "getter_component P run G e m =
     obind (the_type (ev_of e)) (\<lambda>t.
     obind (static_execute P run G (e_kind (ev_of e) = VariableExpressionKind \<and> to_pointer t \<noteq> None) e m) (\<lambda>m.
     obind (pop_ptr m) (\<lambda>(p, m). Inr (word_of_int p, m))))"

definition callable_key :: "int option \<Rightarrow> int" where
  "callable_key a = (case a of None \<Rightarrow> 0 | Some a \<Rightarrow> a)"

text \<open>The function bind of the visitor: the port gets an edge to the reaction, and the reaction remembers the port.\<close>

definition bind_reaction ::
  "elaborator \<Rightarrow> composition \<Rightarrow> generator \<Rightarrow> texp \<Rightarrow> texp \<Rightarrow> int \<Rightarrow> binding \<Rightarrow> binding outcome"
where
  "bind_reaction E c G l r k s =
     obind (static_port (el_program E) (el_run E) G l (b_machine s)) (\<lambda>(port, m).
     obind (selection r) (\<lambda>(e, a).
     obind (reaction_component (el_program E) (el_run E) G e m) (\<lambda>(i, m).
     obind (found_node (push_port_at (the_sites E c) port)) (\<lambda>p.
       if \<not> instance_at (the_sites E c) i then Inl Assertion_failed
       else obind (found_node (map_option fst (map_of (co_reactions c) (i, callable_key a, k)))) (\<lambda>n.
         Inr \<lparr>b_graph = add_edge p n (b_graph s), b_machine = m, b_bound = b_bound s @ [(n, p)]\<rparr>)))))"

definition bind_getter :: "elaborator \<Rightarrow> composition \<Rightarrow> generator \<Rightarrow> texp \<Rightarrow> texp \<Rightarrow> binding \<Rightarrow> binding outcome" where
  "bind_getter E c G l r s =
     obind (static_port (el_program E) (el_run E) G l (b_machine s)) (\<lambda>(port, m).
     obind (selection r) (\<lambda>(e, a).
     obind (getter_component (el_program E) (el_run E) G e m) (\<lambda>(i, m).
     obind (found_node (pull_port_at (the_sites E c) port)) (\<lambda>p.
       if \<not> instance_at (the_sites E c) i then Inl Assertion_failed
       else obind (found_node (getter_at (the_sites E c) i (callable_key a))) (\<lambda>n.
         Inr (s\<lparr>b_graph := add_edge p n (b_graph s), b_machine := m\<rparr>))))))"

text \<open>The statements of a binder are executed; the statement before the condition of an if is not.\<close>

definition bind_condition :: "elaborator \<Rightarrow> generator \<Rightarrow> texp \<Rightarrow> binding \<Rightarrow> (bool \<times> binding) outcome" where
  "bind_condition E G e s =
     obind (static_execute (el_program E) (el_run E) G False e (b_machine s)) (\<lambda>m.
       if e_kind (ev_of e) = UnknownExpressionKind then Inl Assertion_failed
       else if e_kind (ev_of e) = VariableExpressionKind then Inl Unimplemented
       else obind (pop_scalar Bool_Scalar m) (\<lambda>(b, m). Inr (b \<noteq> 0, s\<lparr>b_machine := m\<rparr>)))"

definition set_iota :: "generator \<Rightarrow> nat \<Rightarrow> nat \<Rightarrow> binding \<Rightarrow> binding outcome" where
  "set_iota G i k s =
     obind (store_at (bp (b_machine s) + g_offset G i) (scalar_bytes Long (int k)) (b_machine s))
       (\<lambda>m. Inr (s\<lparr>b_machine := m\<rparr>))"

fun visit_bind :: "elaborator \<Rightarrow> composition \<Rightarrow> generator \<Rightarrow> bstmt \<Rightarrow> binding \<Rightarrow> binding outcome" where
  "visit_bind E c G (B_Push l r) s = bind_reaction E c G l r 0 s"
| "visit_bind E c G (B_Push_Parameter l r e) s =
     obind (static_index (el_program E) (el_run E) G e (b_machine s)) (\<lambda>(k, m).
       bind_reaction E c G l r k (s\<lparr>b_machine := m\<rparr>))"
| "visit_bind E c G (B_Pull l r) s = bind_getter E c G l r s"
| "visit_bind E c G (B_List bs) s = ofold (\<lambda>s b. visit_bind E c G b s) bs s"
| "visit_bind E c G (B_If before e t f) s =
     obind (bind_condition E G e s) (\<lambda>(b, s). if b then visit_bind E c G t s else visit_bind E c G f s)"
| "visit_bind E c G (B_For i n b) s =
     (if 0 \<le> n then ofold (\<lambda>s k. obind (set_iota G i k s) (visit_bind E c G b)) [0..<nat n] s else Inl Out_of_fuel)"
| "visit_bind E c G (B_Other b) s = Inl Not_reached"

definition elaborate_binder :: "elaborator \<Rightarrow> 64 word \<Rightarrow> composition \<Rightarrow> bind_decl \<Rightarrow> composition outcome" where
  "elaborate_binder E a c d =
     obind (bind_frame d a (static_executor (el_machine E))) (\<lambda>m.
     obind (visit_bind E c (bd_generator d) (bd_body d) \<lparr>b_graph = co_graph c, b_machine = m, b_bound = co_bound c\<rparr>)
       (\<lambda>s. Inr (c\<lparr>co_graph := b_graph s, co_bound := b_bound s\<rparr>)))"

definition elaborate_bindings :: "elaborator \<Rightarrow> composition \<Rightarrow> composition outcome" where
  "elaborate_bindings E c =
     ofold (\<lambda>c (a, code). ofold (elaborate_binder E a) (ct_binds code) c) (instance_codes E) c"

section \<open>The whole elaboration\<close>

text \<open>
  compute_dependent_instances: an instance is linked to those whose state the preconditions of its actions depend on.  The
  instance sets are computed here, before the search for cycles.
\<close>

definition dependent_instances :: "graph \<Rightarrow> nat \<Rightarrow> (64 word \<times> code_decl \<times> nat \<times> nat \<times> nat list) list \<Rightarrow> (nat \<times> nat) list outcome" where
  "dependent_instances g f actions =
     obind (ofold (\<lambda>(links, memo) (a, d, k, n, pre). ofold (\<lambda>(links, memo) m.
         obind (instance_set g f memo m) (\<lambda>(s, memo). Inr (links @ map (\<lambda>(i, _). (i, unat a)) s, memo)))
       pre (links, memo)) actions ([], \<lambda>_. None)) (\<lambda>(links, memo). Inr links)"

definition elaborate :: "elaborator \<Rightarrow> (composition \<times> (nat \<times> nat) list) outcome" where
  "elaborate E =
     obind (elaborate_getters E (enumerate_getters E
       \<lparr>co_graph = port_graph E, co_getters = [], co_actions = [], co_reactions = [], co_bound = []\<rparr>)) (\<lambda>c.
     obind (enumerate_actions E c) (\<lambda>c. obind (elaborate_actions E c) (\<lambda>c.
     obind (enumerate_reactions E c) (\<lambda>c. obind (elaborate_reactions E c) (\<lambda>c.
     obind (elaborate_bindings E c) (\<lambda>c.
     obind (dependent_instances (co_graph c) (Suc (length (co_graph c))) (co_actions c)) (\<lambda>links. Inr (c, links))))))))"

text \<open>What Composer::analyze finds in the composer.\<close>

definition reaction_counts :: "composition \<Rightarrow> nat list" where
  "reaction_counts c = map (\<lambda>(_, n, _). length (filter (\<lambda>(r, p). r = n) (co_bound c))) (co_reactions c)"

definition pull_port_nodes :: "elaborator \<Rightarrow> nat list" where
  "pull_port_nodes E =
     [length (push_ports (el_composer E))..<length (push_ports (el_composer E)) + length (pull_ports (el_composer E))]"

definition getter_counts :: "elaborator \<Rightarrow> composition \<Rightarrow> nat list" where
  "getter_counts E c = map (\<lambda>n. length (outgoing (co_graph c ! n))) (pull_port_nodes E)"

definition action_nodes :: "composition \<Rightarrow> nat list" where
  "action_nodes c = map (\<lambda>(_, _, _, n, _). n) (co_actions c)"

definition analyze_composition :: "elaborator \<Rightarrow> composition \<Rightarrow> memo outcome" where
  "analyze_composition E c =
     analyze (co_graph c) (Suc (length (co_graph c))) (reaction_counts c) (getter_counts E c) (action_nodes c)"

end
