(* ===== verification/Edges.thy ===== *)
theory Edges
  imports Elaborate
begin

text \<open>
  What the elaboration of a composition gives (composition.cpp): the graph only grows, its tables name nodes of the right kind,
  and every activation, port call and getter call in a body that is visited is an edge.  With the analysis of
  Graph this decides when a composition is accepted.
\<close>

section \<open>The graph only grows\<close>

definition larger :: "node \<Rightarrow> node \<Rightarrow> bool" where
  "larger x y \<longleftrightarrow> own_accesses y = own_accesses x \<and> conflict_code y = conflict_code x \<and> (\<exists>ms. outgoing y = outgoing x @ ms)"

definition enlarges :: "graph \<Rightarrow> graph \<Rightarrow> bool" where
  "enlarges g g' \<longleftrightarrow> length g \<le> length g' \<and> (\<forall>n < length g. larger (g ! n) (g' ! n))"

lemma larger_refl [simp]: "larger x x"
  by (simp add: larger_def)

lemma larger_trans: "larger x y \<Longrightarrow> larger y z \<Longrightarrow> larger x z"
  by (auto simp: larger_def)

lemma outgoing_add [simp]: "outgoing (add_outgoing m x) = outgoing x @ [m]"
  by (cases x) simp_all

lemma larger_add [simp]: "larger x (add_outgoing m x)"
  by (cases x) (simp_all add: larger_def)

lemma enlarges_refl [simp]: "enlarges g g"
  by (simp add: enlarges_def)

lemma enlarges_trans: "enlarges g h \<Longrightarrow> enlarges h k \<Longrightarrow> enlarges g k"
  by (auto simp: enlarges_def intro: larger_trans)

lemma enlarges_append [simp]: "enlarges g (g @ h)"
  by (auto simp: enlarges_def nth_append)

lemma length_add_edge [simp]: "length (add_edge n m g) = length g"
  by (simp add: add_edge_def)

lemma add_edge_nth: "i < length g \<Longrightarrow> add_edge n m g ! i = (if i = n then add_outgoing m (g ! i) else g ! i)"
  by (simp add: add_edge_def nth_list_update)

lemma enlarges_add_edge [simp]: "enlarges g (add_edge n m g)"
  by (auto simp: enlarges_def add_edge_nth)

lemma enlarges_edge: "enlarges g g' \<Longrightarrow> edge g n m \<Longrightarrow> edge g' n m"
  by (fastforce simp: enlarges_def edge_def larger_def)

lemma edge_add: "edge (add_edge n m g) i j \<longleftrightarrow> edge g i j \<or> i = n \<and> j = m \<and> n < length g"
  by (auto simp: edge_def add_edge_nth split: if_splits)

lemma graph_wf_edge: "graph_wf g \<longleftrightarrow> (\<forall>n m. edge g n m \<longrightarrow> m < length g)"
  by (auto simp: graph_wf_def edge_def)

lemma graph_wf_add_edge: "graph_wf g \<Longrightarrow> m < length g \<Longrightarrow> graph_wf (add_edge n m g)"
  by (auto simp: graph_wf_edge edge_add)

lemma graph_wf_append: "graph_wf g \<Longrightarrow> outgoing x = [] \<Longrightarrow> graph_wf (g @ [x])"
  by (auto simp: graph_wf_def nth_append less_Suc_eq)

text \<open>The sites name nodes of the graph.\<close>

definition sites_ok :: "nat \<Rightarrow> sites \<Rightarrow> bool" where
  "sites_ok n S \<longleftrightarrow>
     (\<forall>a i. push_port_at S a = Some i \<longrightarrow> i < n) \<and> (\<forall>a i. pull_port_at S a = Some i \<longrightarrow> i < n) \<and>
     (\<forall>a g i. getter_at S a g = Some i \<longrightarrow> i < n)"

definition visiting :: "sites \<Rightarrow> owner \<Rightarrow> elaborating \<Rightarrow> bool" where
  "visiting S ow s \<longleftrightarrow> graph_wf (x_graph s) \<and> sites_ok (length (x_graph s)) S \<and> o_node ow < length (x_graph s) \<and>
     (\<forall>n. x_activation s = Some n \<longrightarrow> n < length (x_graph s)) \<and> (\<forall>n \<in> set (x_precondition s). n < length (x_graph s))"

definition visits :: "sites \<Rightarrow> owner \<Rightarrow> elaborating \<Rightarrow> elaborating outcome \<Rightarrow> bool" where
  "visits S ow s r \<longleftrightarrow> (\<forall>s'. r = Inr s' \<longrightarrow> visiting S ow s' \<and> enlarges (x_graph s) (x_graph s'))"

lemma visits_Inr: "visiting S ow s \<Longrightarrow> visits S ow s (Inr s)"
  by (simp add: visits_def)

lemma visits_Inl [simp]: "visits S ow s (Inl e)"
  by (simp add: visits_def)

lemma visits_obind:
  assumes "visits S ow s r" "\<And>s'. r = Inr s' \<Longrightarrow> visiting S ow s' \<Longrightarrow> visits S ow s' (f s')"
  shows "visits S ow s (obind r f)"
  using assms by (cases r) (auto simp: visits_def intro: enlarges_trans)

lemma found_node_Inr [simp]: "found_node x = Inr n \<longleftrightarrow> x = Some n"
  by (simp add: found_node_def split: option.splits)

lemma visiting_machine [simp]: "visiting S ow (s\<lparr>x_machine := m\<rparr>) = visiting S ow s"
  by (simp add: visiting_def)

lemma visits_machine: "visits S ow (s\<lparr>x_machine := m\<rparr>) r \<Longrightarrow> visits S ow s r"
  by (simp add: visits_def)

lemma visits_add_call:
  assumes "visiting S ow s" "n < length (x_graph s)"
  shows "visits S ow s (Inr (add_call ow n s))"
  using assms by (auto simp: visits_def add_call_def visiting_def Let_def graph_wf_add_edge)

lemma visits_getter:
  assumes "visiting S ow s" shows "visits S ow s (visit_getter P run S ow e a s)"
proof -
  have "visits S ow s (Inr (add_call ow n (s\<lparr>x_machine := m\<rparr>)))" if "getter_at S i a = Some n" for i n m
    by (rule visits_machine[OF visits_add_call]) (use assms that in \<open>auto simp: visiting_def sites_ok_def\<close>)
  then show ?thesis
    unfolding visit_getter_def visits_def by (auto simp: obind_eq_Inr split: if_splits)
qed

lemma visits_pull_port:
  assumes "visiting S ow s" shows "visits S ow s (visit_pull_port S ow fs k s)"
proof -
  have "visits S ow s (Inr (add_call ow n s))" if "pull_port_at S a = Some n" for a n
    by (rule visits_add_call) (use assms that in \<open>auto simp: visiting_def sites_ok_def\<close>)
  then show ?thesis
    unfolding visit_pull_port_def visits_def by (auto simp: obind_eq_Inr split: if_splits)
qed

lemma visit_call_cases:
  assumes "visit_call P run S ow f s = Inr s'"
  obtains "s' = s"
    | w e c i n r ps rs where "f = T_Method w e c" "e_type w = Some (MethodBase Getter i n r ps rs)"
        "visit_getter P run S ow e (fst c) s = Inr s'"
    | w e fs k where "f = T_Field w e fs k" "visit_pull_port S ow fs k s = Inr s'"
proof -
  obtain t where t: "e_type (ev_of f) = Some t" and v: "(case t of
          MethodBase Getter i n r ps rs \<Rightarrow>
            (case f of T_Method w e c \<Rightarrow> visit_getter P run S ow e (fst c) s | _ \<Rightarrow> Inl Undefined_behaviour)
        | FunctionBase PullPort i ps rs \<Rightarrow>
            (case f of T_Field w e fs k \<Rightarrow> visit_pull_port S ow fs k s | _ \<Rightarrow> Inl Undefined_behaviour)
        | _ \<Rightarrow> Inr s) = Inr s'"
    using assms by (auto simp: visit_call_def obind_eq_Inr the_type_iff split: if_splits)
  show ?thesis
  proof (cases t)
    case (FunctionBase c i ps rs)
    show ?thesis using v FunctionBase that by (cases c; cases f) simp_all
  next
    case (MethodBase c i n r ps rs)
    show ?thesis using v t MethodBase that by (cases c; cases f) simp_all
  qed (use v that in simp_all)
qed

lemma visits_call:
  assumes "visiting S ow s" shows "visits S ow s (visit_call P run S ow f s)"
  unfolding visits_def
  using visits_getter[OF assms, unfolded visits_def] visits_pull_port[OF assms, unfolded visits_def] assms
  by (auto elim!: visit_call_cases)

lemma visits_push_port:
  assumes "visiting S ow s" shows "visits S ow s (visit_push_port S ow fs k sh s)"
proof -
  have "visits S ow s (Inr (s\<lparr>x_graph := add_edge n p (x_graph s)\<rparr>))"
    if "push_port_at S a = Some p" for a n p
    using assms that by (auto simp: visits_def visiting_def sites_ok_def graph_wf_add_edge)
  then show ?thesis
    unfolding visit_push_port_def visits_def by (auto simp: obind_eq_Inr split: option.splits)
qed

lemma port_index_machine: "visit_port_index P run ow t i s = Inr (sh, s') \<Longrightarrow> \<exists>m. s' = s\<lparr>x_machine := m\<rparr>"
  by (cases t) (auto simp: visit_port_index_def obind_eq_Inr split: if_splits)

lemma visits_expr:
  "visiting S ow s \<Longrightarrow> visits S ow s (visit_expr P run S ow e s)"
  "visiting S ow s \<Longrightarrow> visits S ow s (visit_exprs P run S ow es s)"
proof (induction P run S ow e s and P run S ow es s rule: visit_expr_visit_exprs.induct)
  case (17 P run S ow v fs k ps t i es s)
  show ?case unfolding visit_expr.simps
  proof (cases "visit_port_index P run ow t i s")
    case (Inr x)
    obtain sh s1 where x: "x = (sh, s1)" by fastforce
    obtain m where m: "s1 = s\<lparr>x_machine := m\<rparr>" using port_index_machine Inr x by blast
    have "visiting S ow s1" using "17.prems" m by simp
    then have "visits S ow s1 (obind (visit_push_port S ow fs k sh s1) (visit_exprs P run S ow es))"
      by (intro visits_obind visits_push_port) (use "17.IH" Inr x in auto)
    then show "visits S ow s (obind (visit_port_index P run ow t i s) (\<lambda>(shift, s).
        obind (visit_push_port S ow fs k shift s) (visit_exprs P run S ow es)))"
      using Inr x m by (auto intro: visits_machine)
  qed simp
qed (auto intro!: visits_obind visits_call visits_push_port simp: visits_Inr)

lemma visits_activate:
  assumes "visiting S ow s" shows "visits S ow s (visit_activate ow b s)"
proof -
  let ?x = "Activation_Node (unat (o_address ow)) (g_access (o_generator ow) b) []"
  have "graph_wf (add_edge (o_node ow) (length (x_graph s)) (x_graph s @ [?x]))"
    by (rule graph_wf_add_edge) (use assms in \<open>simp_all add: visiting_def graph_wf_append\<close>)
  then have "visiting S ow (s\<lparr>x_graph := add_edge (o_node ow) (length (x_graph s)) (x_graph s @ [?x]),
      x_activation := Some (length (x_graph s))\<rparr>)"
    using assms by (auto simp: visiting_def sites_ok_def less_Suc_eq)
  moreover have "enlarges (x_graph s) (add_edge (o_node ow) (length (x_graph s)) (x_graph s @ [?x]))"
    by (rule enlarges_trans[OF enlarges_append enlarges_add_edge])
  ultimately show ?thesis by (simp add: visits_def visit_activate_def Let_def)
qed

lemma visits_stmt:
  "visiting S ow s \<Longrightarrow> visits S ow s (visit_stmt P run S ow t s)"
  "visiting S ow s \<Longrightarrow> visits S ow s (visit_stmts P run S ow ts s)"
  by (induction P run S ow t s and P run S ow ts s rule: visit_stmt_visit_stmts.induct)
    (auto intro!: visits_obind visits_expr visits_activate simp: visits_Inr)

section \<open>Every call becomes an edge\<close>

text \<open>
  The callees of the calls in an expression, in a statement outside of the bodies of its activations, and its activations.  Calls in
  the index of an indexed port call are not among them: the visitor executes the index but does not visit it, see
  \<open>index_calls_not_recorded\<close>.
\<close>

fun callees :: "texp \<Rightarrow> texp list" where
  "callees (T_Address_Of v e) = callees e"
| "callees (T_Dereference v e) = callees e"
| "callees (T_Field v e fs k) = callees e"
| "callees (T_Method v e c) = callees e"
| "callees (T_Index v b i t) = callees b @ callees i"
| "callees (T_Conversion v e) = callees e"
| "callees (T_Builtin v f es) = concat (map callees es)"
| "callees (T_Call v f es) = f # callees f @ concat (map callees es)"
| "callees (T_Unary v f e) = callees e"
| "callees (T_Binary v f l r) = callees l @ callees r"
| "callees (T_Push_Port_Call v fs k ps es) = concat (map callees es)"
| "callees (T_Indexed_Push_Port_Call v fs k ps t i es) = concat (map callees es)"
| "callees _ = []"

fun immediate_callees :: "tstmt \<Rightarrow> texp list" where
  "immediate_callees (S_Expression e) = callees e"
| "immediate_callees (S_Var vs es) = concat (map callees es)"
| "immediate_callees (S_Assign l r) = callees l @ callees r"
| "immediate_callees (S_Return i t e) = callees e"
| "immediate_callees (S_List cs) = concat (map immediate_callees cs)"
| "immediate_callees (S_If before c t f) =
     immediate_callees before @ callees c @ immediate_callees t @ immediate_callees f"
| "immediate_callees (S_Change i t e b) = callees e @ immediate_callees b"
| "immediate_callees (S_Activate a es b) = concat (map callees es)"
| "immediate_callees _ = []"

fun activations_in :: "tstmt \<Rightarrow> (tstmt \<times> texp list) list" where
  "activations_in (S_List cs) = concat (map activations_in cs)"
| "activations_in (S_If before c t f) = activations_in before @ activations_in t @ activations_in f"
| "activations_in (S_Change i t e b) = activations_in b"
| "activations_in (S_Activate a es b) = [(b, es)]"
| "activations_in _ = []"

text \<open>
  What is computed while a tree is visited: the receivers of its getter calls and the indices of its port calls, in the order of
  the visit.  Each is executed on the machine that the ones before it have left.
\<close>

datatype computation = Getter_Receiver texp | Port_Index texp

fun receiver_of :: "texp \<Rightarrow> computation list" where
  "receiver_of (T_Method w e c) =
     (case e_type w of Some (MethodBase Getter i n r ps rs) \<Rightarrow> [Getter_Receiver e] | _ \<Rightarrow> [])"
| "receiver_of _ = []"

fun computations :: "texp \<Rightarrow> computation list" where
  "computations (T_Address_Of v e) = computations e"
| "computations (T_Dereference v e) = computations e"
| "computations (T_Field v e fs k) = computations e"
| "computations (T_Method v e c) = computations e"
| "computations (T_Index v b i t) = computations b @ computations i"
| "computations (T_Conversion v e) = computations e"
| "computations (T_Builtin v f es) = concat (map computations es)"
| "computations (T_Call v f es) = receiver_of f @ computations f @ concat (map computations es)"
| "computations (T_Unary v f e) = computations e"
| "computations (T_Binary v f l r) = computations l @ computations r"
| "computations (T_Push_Port_Call v fs k ps es) = concat (map computations es)"
| "computations (T_Indexed_Push_Port_Call v fs k ps t i es) = Port_Index i # concat (map computations es)"
| "computations _ = []"

fun stmt_computations :: "tstmt \<Rightarrow> computation list" where
  "stmt_computations (S_Expression e) = computations e"
| "stmt_computations (S_Var vs es) = concat (map computations es)"
| "stmt_computations (S_Assign l r) = computations l @ computations r"
| "stmt_computations (S_Return i t e) = computations e"
| "stmt_computations (S_List cs) = concat (map stmt_computations cs)"
| "stmt_computations (S_If before c t f) =
     stmt_computations before @ computations c @ stmt_computations t @ stmt_computations f"
| "stmt_computations (S_Change i t e b) = computations e @ stmt_computations b"
| "stmt_computations (S_Activate a es b) = concat (map computations es)"
| "stmt_computations _ = []"

fun compute :: "program \<Rightarrow> run \<Rightarrow> generator \<Rightarrow> computation \<Rightarrow> machine \<Rightarrow> (int \<times> machine) outcome" where
  "compute P run G (Getter_Receiver e) m = obind (static_instance P run G e m) (\<lambda>(i, m). Inr (uint i, m))"
| "compute P run G (Port_Index e) m = static_index P run G e m"

definition compute_all :: "program \<Rightarrow> run \<Rightarrow> generator \<Rightarrow> computation list \<Rightarrow> machine \<Rightarrow> machine outcome" where
  "compute_all P run G = ofold (\<lambda>m x. obind (compute P run G x m) (\<lambda>(v, m). Inr m))"

text \<open>An occurrence of \<open>x\<close> among the computations \<open>cs\<close>, which start on \<open>m\<close>, gives \<open>v\<close>.\<close>

definition computed :: "program \<Rightarrow> run \<Rightarrow> generator \<Rightarrow> computation list \<Rightarrow> machine \<Rightarrow> computation \<Rightarrow> int \<Rightarrow> bool" where
  "computed P run G cs m x v \<longleftrightarrow> (\<exists>before after m' m''. cs = before @ x # after \<and>
     compute_all P run G before m = Inr m' \<and> compute P run G x m' = Inr (v, m''))"

text \<open>
  The edge that stands for a call of a pull port or getter, and for a call of a push port by activation \<open>n\<close>, when
  \<open>V x v\<close> says that the computation \<open>x\<close> gives \<open>v\<close>.
\<close>

definition field_address :: "owner \<Rightarrow> field list \<Rightarrow> nat \<Rightarrow> 64 word outcome" where
  "field_address ow fs k =
     obind (offset (g_types (o_generator ow)) (g_nesting (o_generator ow)) fs k) (\<lambda>off. Inr (o_address ow + off))"

fun call_edge :: "(computation \<Rightarrow> int \<Rightarrow> bool) \<Rightarrow> sites \<Rightarrow> owner \<Rightarrow> graph \<Rightarrow> texp \<Rightarrow> bool" where
  "call_edge V S ow g (T_Field w e fs k) \<longleftrightarrow>
     ((\<exists>i ps rs. e_type w = Some (FunctionBase PullPort i ps rs)) \<longrightarrow>
      (\<exists>a n. field_address ow fs k = Inr a \<and> pull_port_at S a = Some n \<and> edge g (o_node ow) n))"
| "call_edge V S ow g (T_Method w e c) \<longleftrightarrow>
     ((\<exists>i n r ps rs. e_type w = Some (MethodBase Getter i n r ps rs)) \<longrightarrow>
      (\<exists>i n. V (Getter_Receiver e) (uint i) \<and> instance_at S i \<and> getter_at S i (fst c) = Some n \<and> edge g (o_node ow) n))"
| "call_edge V S ow g f \<longleftrightarrow> True"

fun port_edge :: "(computation \<Rightarrow> int \<Rightarrow> bool) \<Rightarrow> sites \<Rightarrow> owner \<Rightarrow> graph \<Rightarrow> nat \<Rightarrow> texp \<Rightarrow> bool" where
  "port_edge V S ow g n (T_Push_Port_Call v fs k ps es) \<longleftrightarrow>
     (\<exists>a p. field_address ow fs k = Inr a \<and> push_port_at S a = Some p \<and> edge g n p)"
| "port_edge V S ow g n (T_Indexed_Push_Port_Call v fs k ps t i es) \<longleftrightarrow>
     (\<exists>b d idx u a p. t = Array b d \<and> V (Port_Index i) idx \<and> 0 \<le> idx \<and> idx < d \<and>
        unit_size (g_types (o_generator ow)) (g_nesting (o_generator ow)) b = Inr u \<and>
        field_address ow fs k = Inr a \<and> push_port_at S (a + word_of_int idx * u) = Some p \<and> edge g n p)"
| "port_edge V S ow g n e \<longleftrightarrow> True"

definition activation_edge ::
  "(computation \<Rightarrow> int \<Rightarrow> bool) \<Rightarrow> sites \<Rightarrow> owner \<Rightarrow> graph \<Rightarrow> tstmt \<times> texp list \<Rightarrow> bool"
where
  "activation_edge V S ow g = (\<lambda>(b, es). \<exists>n. edge g (o_node ow) n \<and> n < length g \<and> conflict_code (g ! n) = Some 137 \<and>
     own_accesses (g ! n) = [(unat (o_address ow), g_access (o_generator ow) b)] \<and> (\<forall>e \<in> set es. port_edge V S ow g n e))"

definition records :: "(computation \<Rightarrow> int \<Rightarrow> bool) \<Rightarrow> sites \<Rightarrow> owner \<Rightarrow> tstmt \<Rightarrow> graph \<Rightarrow> bool" where
  "records V S ow t g \<longleftrightarrow> (\<forall>f \<in> set (immediate_callees t). call_edge V S ow g f) \<and>
     (\<forall>x \<in> set (activations_in t). activation_edge V S ow g x)"

text \<open>\<open>within V cs m\<close>: all that the computations \<open>cs\<close> give from \<open>m\<close> on is in \<open>V\<close>.\<close>

definition within ::
  "(computation \<Rightarrow> int \<Rightarrow> bool) \<Rightarrow> program \<Rightarrow> run \<Rightarrow> generator \<Rightarrow> computation list \<Rightarrow> machine \<Rightarrow> bool"
where
  "within V P run G cs m \<longleftrightarrow> (\<forall>x v. computed P run G cs m x v \<longrightarrow> V x v)"

lemma compute_all_simps [simp]:
  "compute_all P run G [] m = Inr m"
  "compute_all P run G (x # cs) m = obind (compute P run G x m) (\<lambda>(v, m). compute_all P run G cs m)"
  by (cases "compute P run G x m"; simp add: compute_all_def split: prod.splits)+

lemma compute_all_append: "compute_all P run G (cs @ ds) m = obind (compute_all P run G cs m) (compute_all P run G ds)"
  by (simp add: compute_all_def ofold_append)

lemma within_front: "within V P run G (cs @ ds) m \<Longrightarrow> within V P run G cs m"
  unfolding within_def computed_def by fastforce

lemma within_back:
  assumes "within V P run G (cs @ ds) m" "compute_all P run G cs m = Inr m'"
  shows "within V P run G ds m'"
  unfolding within_def computed_def
proof (intro allI impI, elim exE conjE)
  fix x v before after n n'
  assume d: "ds = before @ x # after" "compute_all P run G before m' = Inr n" "compute P run G x n = Inr (v, n')"
  have "cs @ ds = (cs @ before) @ x # after" using d(1) by simp
  moreover have "compute_all P run G (cs @ before) m = Inr n" using assms(2) d(2) by (simp add: compute_all_append)
  ultimately have "computed P run G (cs @ ds) m x v" unfolding computed_def using d(3) by blast
  then show "V x v" using assms(1) unfolding within_def by blast
qed

lemma within_head: "within V P run G (x # cs) m \<Longrightarrow> compute P run G x m = Inr (v, m') \<Longrightarrow> V x v"
  unfolding within_def computed_def by (metis append_Nil compute_all_simps(1))

lemma within_tail: "within V P run G (x # cs) m \<Longrightarrow> compute P run G x m = Inr (v, m') \<Longrightarrow> within V P run G cs m'"
  using within_back[of V P run G "[x]" cs m m'] by simp

lemma call_edge_mono: "call_edge V S ow g f \<Longrightarrow> enlarges g g' \<Longrightarrow> call_edge V S ow g' f"
  by (cases f) (auto intro: enlarges_edge)

lemma port_edge_mono: "port_edge V S ow g n e \<Longrightarrow> enlarges g g' \<Longrightarrow> port_edge V S ow g' n e"
  by (cases e) (fastforce intro: enlarges_edge)+

lemma activation_edge_mono:
  assumes "activation_edge V S ow g x" "enlarges g g'"
  shows "activation_edge V S ow g' x"
proof -
  have "n < length g' \<and> conflict_code (g' ! n) = conflict_code (g ! n) \<and> own_accesses (g' ! n) = own_accesses (g ! n)"
    if "n < length g" for n
    using assms(2) that by (auto simp: enlarges_def larger_def)
  then show ?thesis
    using assms port_edge_mono[OF _ assms(2)] enlarges_edge[OF assms(2)]
    unfolding activation_edge_def by (fastforce split: prod.splits)
qed

lemma records_mono: "records V S ow t g \<Longrightarrow> enlarges g g' \<Longrightarrow> records V S ow t g'"
  using call_edge_mono activation_edge_mono by (fastforce simp: records_def)

lemma visits_D: "visits S ow s r \<Longrightarrow> r = Inr s' \<Longrightarrow> visiting S ow s' \<and> enlarges (x_graph s) (x_graph s')"
  by (simp add: visits_def)

lemma edge_added: "n < length g \<Longrightarrow> edge (add_edge n m g) n m"
  by (simp add: edge_add)

lemma add_call_edge: "visiting S ow s \<Longrightarrow> edge (x_graph (add_call ow n s)) (o_node ow) n"
  by (simp add: add_call_def Let_def edge_added visiting_def)

lemma visit_pull_port_edge:
  assumes "visit_pull_port S ow fs k s = Inr s'" "visiting S ow s"
  shows "\<exists>a n. field_address ow fs k = Inr a \<and> pull_port_at S a = Some n \<and> edge (x_graph s') (o_node ow) n"
  using assms add_call_edge[OF assms(2)] by (auto simp: visit_pull_port_def field_address_def obind_eq_Inr split: if_splits)

lemma visit_getter_computes:
  assumes "visit_getter P run S ow e a s = Inr s'"
  obtains i n where "compute P run (o_generator ow) (Getter_Receiver e) (x_machine s) = Inr (uint i, x_machine s')"
    "instance_at S i" "getter_at S i a = Some n" "s' = add_call ow n (s\<lparr>x_machine := x_machine s'\<rparr>)"
proof -
  obtain i m n where r: "static_instance P run (o_generator ow) e (x_machine s) = Inr (i, m)" "instance_at S i"
    "getter_at S i a = Some n" "s' = add_call ow n (s\<lparr>x_machine := m\<rparr>)"
    using assms by (auto simp: visit_getter_def obind_eq_Inr split: if_splits)
  moreover have "x_machine s' = m" using r(4) by (simp add: add_call_def Let_def)
  ultimately show ?thesis using that[of i n] by simp
qed

lemma add_call_machine [simp]: "x_machine (add_call ow n s) = x_machine s"
  by (simp add: add_call_def Let_def)

lemma receiver_of_cases:
  obtains w e c i n r ps rs where "f = T_Method w e c" "e_type w = Some (MethodBase Getter i n r ps rs)" "receiver_of f = [Getter_Receiver e]"
  | "receiver_of f = []" "\<And>w e c i n r ps rs. f = T_Method w e c \<Longrightarrow> e_type w \<noteq> Some (MethodBase Getter i n r ps rs)"
proof (cases f)
  case (T_Method w e c)
  show ?thesis
  proof (cases "\<exists>i n r ps rs. e_type w = Some (MethodBase Getter i n r ps rs)")
    case True
    then show ?thesis using that(1) T_Method by fastforce
  next
    case False
    then have "receiver_of f = []" using T_Method by (auto split: option.splits ty.splits method_class.splits)
    then show ?thesis using that(2) False T_Method by blast
  qed
qed (use that in auto)

text \<open>A call is visited: the receiver of a getter call is computed, and nothing else.\<close>

lemma visit_call_machine:
  assumes v: "visit_call P run S ow f s = Inr s'"
  shows "compute_all P run (o_generator ow) (receiver_of f) (x_machine s) = Inr (x_machine s')"
proof (cases f rule: receiver_of_cases)
  case (1 w e c i n r ps rs)
  have "visit_getter P run S ow e (fst c) s = Inr s'"
    using v 1 by (simp add: visit_call_def the_type_def split: if_splits)
  then show ?thesis using 1 by (auto elim!: visit_getter_computes simp del: compute.simps)
next
  case 2
  have "x_machine s' = x_machine s" using v
    by (cases rule: visit_call_cases)
      (use 2(2) in \<open>auto simp: visit_pull_port_def obind_eq_Inr split: if_splits\<close>)
  then show ?thesis using 2(1) by simp
qed

lemma visit_call_edge:
  assumes v: "visit_call P run S ow f s = Inr s'" "visiting S ow s"
    and V: "within V P run (o_generator ow) (receiver_of f) (x_machine s)"
  shows "call_edge V S ow (x_graph s') f"
proof (cases f rule: receiver_of_cases)
  case (1 w e c i n r ps rs)
  have "visit_getter P run S ow e (fst c) s = Inr s'"
    using v(1) 1 by (simp add: visit_call_def the_type_def split: if_splits)
  then obtain k m where k: "compute P run (o_generator ow) (Getter_Receiver e) (x_machine s) = Inr (uint k, x_machine s')"
    "instance_at S k" "getter_at S k (fst c) = Some m" "s' = add_call ow m (s\<lparr>x_machine := x_machine s'\<rparr>)"
    by (rule visit_getter_computes)
  have "V (Getter_Receiver e) (uint k)" using within_head[OF _ k(1)] V 1(3) by simp
  moreover have "edge (x_graph s') (o_node ow) m"
    using add_call_edge[of S ow "s\<lparr>x_machine := x_machine s'\<rparr>" m] v(2) k(4) by simp
  ultimately show ?thesis using 1 k(2,3) by auto
next
  case 2
  show ?thesis
  proof (cases f)
    case (T_Field w e fs k)
    have "visit_pull_port S ow fs k s = Inr s'" if "e_type w = Some (FunctionBase PullPort i ps rs)" for i ps rs
      using v(1) T_Field that by (simp add: visit_call_def the_type_def split: if_splits)
    then show ?thesis using T_Field visit_pull_port_edge[OF _ v(2)] by auto
  qed (use 2(2) in auto)
qed

lemma push_port_machine: "visit_push_port S ow fs k sh s = Inr s' \<Longrightarrow> x_machine s' = x_machine s"
  by (auto simp: visit_push_port_def obind_eq_Inr split: option.splits)

lemma port_index_computes:
  assumes "visit_port_index P run ow t i s = Inr (sh, s')"
  shows "\<exists>b d idx u. t = Array b d \<and> compute P run (o_generator ow) (Port_Index i) (x_machine s) = Inr (idx, x_machine s') \<and>
    0 \<le> idx \<and> idx < d \<and> unit_size (g_types (o_generator ow)) (g_nesting (o_generator ow)) b = Inr u \<and> sh = word_of_int idx * u"
proof (cases t)
  case (Array b d)
  then obtain idx m u where "static_index P run (o_generator ow) i (x_machine s) = Inr (idx, m)" "\<not> idx < 0" "\<not> d \<le> idx"
    "unit_size (g_types (o_generator ow)) (g_nesting (o_generator ow)) b = Inr u" "sh = word_of_int idx * u" "s' = s\<lparr>x_machine := m\<rparr>"
    using assms by (auto simp: visit_port_index_def obind_eq_Inr split: if_splits)
  then show ?thesis using Array by (intro exI[of _ b] exI[of _ d] exI[of _ idx] exI[of _ u]) simp
qed (use assms in \<open>auto simp: visit_port_index_def obind_eq_Inr\<close>)

text \<open>The visit of a tree executes its computations in order.\<close>

lemma expr_machine:
  "visit_expr P run S ow e s = Inr s' \<Longrightarrow>
     compute_all P run (o_generator ow) (computations e) (x_machine s) = Inr (x_machine s')"
  "visit_exprs P run S ow es s = Inr s' \<Longrightarrow>
     compute_all P run (o_generator ow) (concat (map computations es)) (x_machine s) = Inr (x_machine s')"
proof (induction P run S ow e s and P run S ow es s arbitrary: s' and s' rule: visit_expr_visit_exprs.induct)
  case (9 P run S ow v b i t s)
  obtain s1 where s: "visit_expr P run S ow b s = Inr s1" "visit_expr P run S ow i s1 = Inr s'"
    using "9.prems" by (auto simp: obind_eq_Inr)
  show ?case using "9.IH"(1)[OF s(1)] "9.IH"(2)[OF s] by (simp add: compute_all_append)
next
  case (13 P run S ow v g es s)
  obtain s1 s2 where s: "visit_call P run S ow g s = Inr s1" "visit_expr P run S ow g s1 = Inr s2"
    "visit_exprs P run S ow es s2 = Inr s'"
    using "13.prems" by (auto simp: obind_eq_Inr)
  show ?case using visit_call_machine[OF s(1)] "13.IH"(1)[OF s(1,2)] "13.IH"(2)[OF s] by (simp add: compute_all_append)
next
  case (15 P run S ow v g l r s)
  obtain s1 where s: "visit_expr P run S ow l s = Inr s1" "visit_expr P run S ow r s1 = Inr s'"
    using "15.prems" by (auto simp: obind_eq_Inr)
  show ?case using "15.IH"(1)[OF s(1)] "15.IH"(2)[OF s] by (simp add: compute_all_append)
next
  case (16 P run S ow v fs k ps es s)
  obtain s1 where s: "visit_push_port S ow fs k 0 s = Inr s1" "visit_exprs P run S ow es s1 = Inr s'"
    using "16.prems" by (auto simp: obind_eq_Inr)
  show ?case using push_port_machine[OF s(1)] "16.IH"[OF s] by simp
next
  case (17 P run S ow v fs k ps t i es s)
  obtain sh s1 s2 where s: "visit_port_index P run ow t i s = Inr (sh, s1)" "visit_push_port S ow fs k sh s1 = Inr s2"
    "visit_exprs P run S ow es s2 = Inr s'"
    using "17.prems"(1) by (auto simp: obind_eq_Inr)
  obtain idx where "compute P run (o_generator ow) (Port_Index i) (x_machine s) = Inr (idx, x_machine s1)"
    using port_index_computes[OF s(1)] by blast
  then show ?case using "17.IH"[OF s(1) refl s(2,3)] push_port_machine[OF s(2)] by (simp del: compute.simps)
next
  case (19 P run S ow e es s)
  obtain s1 where s: "visit_expr P run S ow e s = Inr s1" "visit_exprs P run S ow es s1 = Inr s'"
    using "19.prems" by (auto simp: obind_eq_Inr)
  show ?case using "19.IH"(1)[OF s(1)] "19.IH"(2)[OF s] by (simp add: compute_all_append)
qed simp_all

lemma expr_callees:
  "visit_expr P run S ow e s = Inr s' \<Longrightarrow> visiting S ow s \<Longrightarrow>
     within V P run (o_generator ow) (computations e) (x_machine s) \<Longrightarrow> f \<in> set (callees e) \<Longrightarrow> call_edge V S ow (x_graph s') f"
  "visit_exprs P run S ow es s = Inr s' \<Longrightarrow> visiting S ow s \<Longrightarrow>
     within V P run (o_generator ow) (concat (map computations es)) (x_machine s) \<Longrightarrow> f \<in> set (concat (map callees es)) \<Longrightarrow>
     call_edge V S ow (x_graph s') f"
proof (induction P run S ow e s and P run S ow es s arbitrary: s' and s' rule: visit_expr_visit_exprs.induct)
  case (9 P run S ow v b i t s)
  obtain s1 where s1: "visit_expr P run S ow b s = Inr s1" "visit_expr P run S ow i s1 = Inr s'"
    using "9.prems"(1) by (auto simp: obind_eq_Inr)
  have v: "visiting S ow s1" by (rule visits_D[OF visits_expr(1) s1(1), THEN conjunct1]) (rule "9.prems")
  have e: "enlarges (x_graph s1) (x_graph s')" by (rule visits_D[OF visits_expr(1) s1(2), THEN conjunct2]) (rule v)
  note w = "9.prems"(3)[unfolded computations.simps]
  show ?case
    using "9.IH"(1)[OF s1(1) "9.prems"(2) within_front[OF w]] "9.IH"(2)[OF s1(1,2) v within_back[OF w expr_machine(1)[OF s1(1)]]]
      call_edge_mono[OF _ e] "9.prems"(4) by auto
next
  case (13 P run S ow v g es s)
  obtain s1 s2 where s: "visit_call P run S ow g s = Inr s1" "visit_expr P run S ow g s1 = Inr s2"
    "visit_exprs P run S ow es s2 = Inr s'"
    using "13.prems"(1) by (auto simp: obind_eq_Inr)
  have v1: "visiting S ow s1" by (rule visits_D[OF visits_call s(1), THEN conjunct1]) (rule "13.prems")
  have v2: "visiting S ow s2" "enlarges (x_graph s1) (x_graph s2)"
    using visits_D[OF visits_expr(1) s(2)] v1 by auto
  have e: "enlarges (x_graph s2) (x_graph s')" using visits_D[OF visits_expr(2) s(3)] v2 by auto
  note w = "13.prems"(3)[unfolded computations.simps]
  note w1 = within_back[OF w visit_call_machine[OF s(1)]]
  note w2 = within_back[OF w1 expr_machine(1)[OF s(2)]]
  show ?case
    using visit_call_edge[OF s(1) "13.prems"(2) within_front[OF w]] "13.IH"(1)[OF s(1,2) v1 within_front[OF w1]]
      "13.IH"(2)[OF s(1-3) v2(1) w2] call_edge_mono[OF _ e] call_edge_mono[OF _ enlarges_trans[OF v2(2) e]] "13.prems"(4) by auto
next
  case (15 P run S ow v g l r s)
  obtain s1 where s1: "visit_expr P run S ow l s = Inr s1" "visit_expr P run S ow r s1 = Inr s'"
    using "15.prems"(1) by (auto simp: obind_eq_Inr)
  have v: "visiting S ow s1" by (rule visits_D[OF visits_expr(1) s1(1), THEN conjunct1]) (rule "15.prems")
  have e: "enlarges (x_graph s1) (x_graph s')" by (rule visits_D[OF visits_expr(1) s1(2), THEN conjunct2]) (rule v)
  note w = "15.prems"(3)[unfolded computations.simps]
  show ?case
    using "15.IH"(1)[OF s1(1) "15.prems"(2) within_front[OF w]] "15.IH"(2)[OF s1(1,2) v within_back[OF w expr_machine(1)[OF s1(1)]]]
      call_edge_mono[OF _ e] "15.prems"(4) by auto
next
  case (16 P run S ow v fs k ps es s)
  obtain s1 where s1: "visit_push_port S ow fs k 0 s = Inr s1" "visit_exprs P run S ow es s1 = Inr s'"
    using "16.prems"(1) by (auto simp: obind_eq_Inr)
  have v: "visiting S ow s1" by (rule visits_D[OF visits_push_port s1(1), THEN conjunct1]) (rule "16.prems")
  show ?case using "16.IH"[OF s1 v] "16.prems"(3,4) push_port_machine[OF s1(1)] by simp
next
  case (17 P run S ow v fs k ps t i es s)
  obtain sh s1 s2 where s: "visit_port_index P run ow t i s = Inr (sh, s1)" "visit_push_port S ow fs k sh s1 = Inr s2"
    "visit_exprs P run S ow es s2 = Inr s'"
    using "17.prems"(1) by (auto simp: obind_eq_Inr)
  have v1: "visiting S ow s1" using port_index_machine[OF s(1)] "17.prems"(2) by auto
  have v: "visiting S ow s2" by (rule visits_D[OF visits_push_port s(2), THEN conjunct1]) (rule v1)
  obtain idx where x: "compute P run (o_generator ow) (Port_Index i) (x_machine s) = Inr (idx, x_machine s1)"
    using port_index_computes[OF s(1)] by blast
  have "within V P run (o_generator ow) (concat (map computations es)) (x_machine s2)"
    using within_tail[OF "17.prems"(3)[unfolded computations.simps] x] push_port_machine[OF s(2)] by simp
  then show ?case using "17.IH"[OF s(1) refl s(2,3) v] "17.prems"(4) by simp
next
  case (19 P run S ow e es s)
  obtain s1 where s1: "visit_expr P run S ow e s = Inr s1" "visit_exprs P run S ow es s1 = Inr s'"
    using "19.prems"(1) by (auto simp: obind_eq_Inr)
  have v: "visiting S ow s1" by (rule visits_D[OF visits_expr(1) s1(1), THEN conjunct1]) (rule "19.prems")
  have e: "enlarges (x_graph s1) (x_graph s')" by (rule visits_D[OF visits_expr(2) s1(2), THEN conjunct2]) (rule v)
  have w: "within V P run (o_generator ow) (computations e @ concat (map computations es)) (x_machine s)"
    using "19.prems"(3) by simp
  show ?case
    using "19.IH"(1)[OF s1(1) "19.prems"(2) within_front[OF w]] "19.IH"(2)[OF s1(1,2) v within_back[OF w expr_machine(1)[OF s1(1)]]]
      call_edge_mono[OF _ e] "19.prems"(4) by auto
qed auto

lemma call_keeps_activation: "visit_call P run S ow f s = Inr s' \<Longrightarrow> x_activation s' = x_activation s"
  by (auto elim!: visit_call_cases simp: visit_getter_def visit_pull_port_def add_call_def obind_eq_Inr Let_def split: if_splits)

lemma push_port_keeps_activation: "visit_push_port S ow fs k sh s = Inr s' \<Longrightarrow> x_activation s' = x_activation s"
  by (auto simp: visit_push_port_def obind_eq_Inr split: option.splits)

lemma index_keeps_activation: "visit_port_index P run ow t i s = Inr (sh, s') \<Longrightarrow> x_activation s' = x_activation s"
  by (auto dest!: port_index_machine)

lemma expr_keeps_activation:
  "visit_expr P run S ow e s = Inr s' \<Longrightarrow> x_activation s' = x_activation s"
  "visit_exprs P run S ow es s = Inr s' \<Longrightarrow> x_activation s' = x_activation s"
proof (induction P run S ow e s and P run S ow es s arbitrary: s' and s' rule: visit_expr_visit_exprs.induct)
  case (9 P run S ow v b i t s)
  obtain s1 where s: "visit_expr P run S ow b s = Inr s1" "visit_expr P run S ow i s1 = Inr s'"
    using "9.prems" by (auto simp: obind_eq_Inr)
  show ?case using "9.IH"(1)[OF s(1)] "9.IH"(2)[OF s] by simp
next
  case (13 P run S ow v g es s)
  obtain s1 s2 where s: "visit_call P run S ow g s = Inr s1" "visit_expr P run S ow g s1 = Inr s2"
    "visit_exprs P run S ow es s2 = Inr s'"
    using "13.prems" by (auto simp: obind_eq_Inr)
  show ?case using call_keeps_activation[OF s(1)] "13.IH"(1)[OF s(1,2)] "13.IH"(2)[OF s] by simp
next
  case (15 P run S ow v g l r s)
  obtain s1 where s: "visit_expr P run S ow l s = Inr s1" "visit_expr P run S ow r s1 = Inr s'"
    using "15.prems" by (auto simp: obind_eq_Inr)
  show ?case using "15.IH"(1)[OF s(1)] "15.IH"(2)[OF s] by simp
next
  case (16 P run S ow v fs k ps es s)
  obtain s1 where s: "visit_push_port S ow fs k 0 s = Inr s1" "visit_exprs P run S ow es s1 = Inr s'"
    using "16.prems" by (auto simp: obind_eq_Inr)
  show ?case using push_port_keeps_activation[OF s(1)] "16.IH"[OF s] by simp
next
  case (17 P run S ow v fs k ps t i es s)
  obtain sh s1 s2 where s: "visit_port_index P run ow t i s = Inr (sh, s1)" "visit_push_port S ow fs k sh s1 = Inr s2"
    "visit_exprs P run S ow es s2 = Inr s'"
    using "17.prems"(1) by (auto simp: obind_eq_Inr)
  show ?case
    using "17.IH"[OF s(1) refl s(2,3)] index_keeps_activation[OF s(1)] push_port_keeps_activation[OF s(2)] by simp
next
  case (19 P run S ow e es s)
  obtain s1 where s: "visit_expr P run S ow e s = Inr s1" "visit_exprs P run S ow es s1 = Inr s'"
    using "19.prems" by (auto simp: obind_eq_Inr)
  show ?case using "19.IH"(1)[OF s(1)] "19.IH"(2)[OF s] by simp
qed simp_all

lemma push_port_edge:
  assumes "visit_push_port S ow fs k sh s = Inr s'" "x_activation s = Some n" "visiting S ow s"
  shows "\<exists>a p. field_address ow fs k = Inr a \<and> push_port_at S (a + sh) = Some p \<and> edge (x_graph s') n p"
  using assms edge_added[of n "x_graph s"] by (auto simp: visit_push_port_def field_address_def visiting_def obind_eq_Inr)

lemma expr_port_edge:
  assumes "visit_expr P run S ow e s = Inr s'" "x_activation s = Some n" "visiting S ow s"
    and V: "within V P run (o_generator ow) (computations e) (x_machine s)"
  shows "port_edge V S ow (x_graph s') n e"
proof (cases e)
  case (T_Push_Port_Call v fs k ps es)
  then obtain s1 where s1: "visit_push_port S ow fs k 0 s = Inr s1" "visit_exprs P run S ow es s1 = Inr s'"
    using assms(1) by (auto simp: obind_eq_Inr)
  have "visiting S ow s1" by (rule visits_D[OF visits_push_port s1(1), THEN conjunct1]) (rule assms)
  then have "enlarges (x_graph s1) (x_graph s')" using visits_D[OF visits_expr(2) s1(2)] by blast
  then show ?thesis using push_port_edge[OF s1(1) assms(2,3)] T_Push_Port_Call enlarges_edge by fastforce
next
  case (T_Indexed_Push_Port_Call v fs k ps t i es)
  then obtain sh s1 s2 where s: "visit_port_index P run ow t i s = Inr (sh, s1)"
    "visit_push_port S ow fs k sh s1 = Inr s2" "visit_exprs P run S ow es s2 = Inr s'"
    using assms(1) by (auto simp: obind_eq_Inr)
  have v1: "visiting S ow s1" using port_index_machine[OF s(1)] assms(3) by auto
  have v2: "visiting S ow s2" by (rule visits_D[OF visits_push_port s(2), THEN conjunct1]) (rule v1)
  have g: "enlarges (x_graph s2) (x_graph s')" using visits_D[OF visits_expr(2) s(3)] v2 by blast
  have "x_activation s1 = Some n" using index_keeps_activation[OF s(1)] assms(2) by simp
  then obtain a p where p: "field_address ow fs k = Inr a" "push_port_at S (a + sh) = Some p" "edge (x_graph s') n p"
    using push_port_edge[OF s(2) _ v1] enlarges_edge[OF g] by blast
  obtain b d idx u where x: "t = Array b d" "compute P run (o_generator ow) (Port_Index i) (x_machine s) = Inr (idx, x_machine s1)"
    "0 \<le> idx" "idx < d" "unit_size (g_types (o_generator ow)) (g_nesting (o_generator ow)) b = Inr u" "sh = word_of_int idx * u"
    using port_index_computes[OF s(1)] by blast
  have "V (Port_Index i) idx" using within_head[OF _ x(2)] V T_Indexed_Push_Port_Call by simp
  then show ?thesis using T_Indexed_Push_Port_Call p x by auto
qed simp_all

lemma exprs_port_edge:
  "visit_exprs P run S ow es s = Inr s' \<Longrightarrow> x_activation s = Some n \<Longrightarrow> visiting S ow s \<Longrightarrow>
     within V P run (o_generator ow) (concat (map computations es)) (x_machine s) \<Longrightarrow> e \<in> set es \<Longrightarrow>
     port_edge V S ow (x_graph s') n e"
proof (induction es arbitrary: s)
  case (Cons d es)
  obtain s1 where s1: "visit_expr P run S ow d s = Inr s1" "visit_exprs P run S ow es s1 = Inr s'"
    using Cons.prems(1) by (auto simp: obind_eq_Inr)
  have v: "visiting S ow s1" by (rule visits_D[OF visits_expr(1) s1(1), THEN conjunct1]) (rule Cons.prems)
  have g: "enlarges (x_graph s1) (x_graph s')" using visits_D[OF visits_expr(2) s1(2) ] v by blast
  have w: "within V P run (o_generator ow) (computations d @ concat (map computations es)) (x_machine s)"
    using Cons.prems(4) by simp
  show ?case
    using Cons.IH[OF s1(2) _ v within_back[OF w expr_machine(1)[OF s1(1)]]] expr_keeps_activation(1)[OF s1(1)]
      port_edge_mono[OF expr_port_edge[OF s1(1) Cons.prems(2,3) within_front[OF w]] g] Cons.prems(2,5) by auto
qed simp

lemma activate_machine: "visit_activate ow b s = Inr s' \<Longrightarrow> x_machine s' = x_machine s"
  by (auto simp: visit_activate_def Let_def split: if_splits)

lemma visit_activate_records:
  assumes a: "visit_activate ow b s = Inr s1" and e: "visit_exprs P run S ow es s1 = Inr s'" and v: "visiting S ow s"
    and V: "within V P run (o_generator ow) (concat (map computations es)) (x_machine s)"
  shows "records V S ow (S_Activate x es b) (x_graph s')"
proof -
  let ?n = "length (x_graph s)" and ?x = "Activation_Node (unat (o_address ow)) (g_access (o_generator ow) b) []"
  have s1: "x_graph s1 = add_edge (o_node ow) ?n (x_graph s @ [?x])" "x_activation s1 = Some ?n"
    using a by (auto simp: visit_activate_def Let_def split: if_splits)
  have v1: "visiting S ow s1" using visits_D[OF visits_activate a] v by blast
  have g: "enlarges (x_graph s1) (x_graph s')" using visits_D[OF visits_expr(2) e] v1 by blast
  have l: "?n < length (x_graph s1)" using s1(1) by simp
  have o: "o_node ow < ?n" using v by (simp add: visiting_def)
  then have "x_graph s1 ! ?n = ?x" using s1(1) by (simp add: add_edge_nth)
  then have "conflict_code (x_graph s' ! ?n) = Some 137 \<and>
      own_accesses (x_graph s' ! ?n) = [(unat (o_address ow), g_access (o_generator ow) b)]"
    using g l by (auto simp: enlarges_def larger_def)
  moreover have "edge (x_graph s') (o_node ow) ?n" using enlarges_edge[OF g] o s1(1) by (simp add: edge_add)
  moreover have "?n < length (x_graph s')" using g l by (simp add: enlarges_def)
  moreover have w: "within V P run (o_generator ow) (concat (map computations es)) (x_machine s1)"
    using V activate_machine[OF a] by simp
  moreover have "port_edge V S ow (x_graph s') ?n d" if "d \<in> set es" for d by (rule exprs_port_edge[OF e s1(2) v1 w that])
  ultimately show ?thesis
    using expr_callees(2)[OF e v1 w] unfolding records_def activation_edge_def by fastforce
qed

lemma records_parts:
  "records V S ow (S_List ts) g \<longleftrightarrow> (\<forall>t \<in> set ts. records V S ow t g)"
  "records V S ow (S_If before c t f) g \<longleftrightarrow>
     records V S ow before g \<and> (\<forall>f \<in> set (callees c). call_edge V S ow g f) \<and> records V S ow t g \<and> records V S ow f g"
  "records V S ow (S_Change i u e b) g \<longleftrightarrow> (\<forall>f \<in> set (callees e). call_edge V S ow g f) \<and> records V S ow b g"
  "records V S ow (S_Assign l r) g \<longleftrightarrow> (\<forall>f \<in> set (callees l) \<union> set (callees r). call_edge V S ow g f)"
  "records V S ow (S_Expression e) g \<longleftrightarrow> (\<forall>f \<in> set (callees e). call_edge V S ow g f)"
  "records V S ow (S_Return i u e) g \<longleftrightarrow> (\<forall>f \<in> set (callees e). call_edge V S ow g f)"
  "records V S ow (S_Var vs es) g \<longleftrightarrow> (\<forall>f \<in> set (concat (map callees es)). call_edge V S ow g f)"
  "records V S ow S_Empty g"
  by (auto simp: records_def)

lemma stmt_machine:
  "visit_stmt P run S ow t s = Inr s' \<Longrightarrow>
     compute_all P run (o_generator ow) (stmt_computations t) (x_machine s) = Inr (x_machine s')"
  "visit_stmts P run S ow ts s = Inr s' \<Longrightarrow>
     compute_all P run (o_generator ow) (concat (map stmt_computations ts)) (x_machine s) = Inr (x_machine s')"
proof (induction P run S ow t s and P run S ow ts s arbitrary: s' and s' rule: visit_stmt_visit_stmts.induct)
  case (4 P run S ow l r s)
  then show ?case by (auto simp: obind_eq_Inr compute_all_append dest!: expr_machine(1))
next
  case (9 P run S ow before c t f s)
  obtain s1 s2 s3 where s: "visit_stmt P run S ow before s = Inr s1" "visit_expr P run S ow c s1 = Inr s2"
    "visit_stmt P run S ow t s2 = Inr s3" "visit_stmt P run S ow f s3 = Inr s'"
    using "9.prems"(1) by (auto simp: obind_eq_Inr)
  show ?case using "9.IH"(1)[OF s(1)] expr_machine(1)[OF s(2)] "9.IH"(2)[OF s(1-3)] "9.IH"(3)[OF s]
    by (simp add: compute_all_append)
next
  case (12 P run S ow i t e b s)
  obtain s1 where s1: "visit_expr P run S ow e s = Inr s1" "visit_stmt P run S ow b s1 = Inr s'"
    using "12.prems"(1) by (auto simp: obind_eq_Inr)
  show ?case using expr_machine(1)[OF s1(1)] "12.IH"[OF s1] by (simp add: compute_all_append)
next
  case (13 P run S ow x es b s)
  obtain s1 where s1: "visit_activate ow b s = Inr s1" "visit_exprs P run S ow es s1 = Inr s'"
    using "13.prems"(1) by (auto simp: obind_eq_Inr)
  then show ?case using expr_machine(2)[OF s1(2)] activate_machine[OF s1(1)] by simp
next
  case (15 P run S ow t ts s)
  obtain s1 where s1: "visit_stmt P run S ow t s = Inr s1" "visit_stmts P run S ow ts s1 = Inr s'"
    using "15.prems"(1) by (auto simp: obind_eq_Inr)
  show ?case using "15.IH"(1)[OF s1(1)] "15.IH"(2)[OF s1] by (simp add: compute_all_append)
qed (auto dest: expr_machine)

lemma stmt_records:
  "visit_stmt P run S ow t s = Inr s' \<Longrightarrow> visiting S ow s \<Longrightarrow>
     within V P run (o_generator ow) (stmt_computations t) (x_machine s) \<Longrightarrow> records V S ow t (x_graph s')"
  "visit_stmts P run S ow ts s = Inr s' \<Longrightarrow> visiting S ow s \<Longrightarrow>
     within V P run (o_generator ow) (concat (map stmt_computations ts)) (x_machine s) \<Longrightarrow> \<forall>t \<in> set ts. records V S ow t (x_graph s')"
proof (induction P run S ow t s and P run S ow ts s arbitrary: s' and s' rule: visit_stmt_visit_stmts.induct)
  case (4 P run S ow l r s)
  obtain s1 where s1: "visit_expr P run S ow l s = Inr s1" "visit_expr P run S ow r s1 = Inr s'"
    using "4.prems"(1) by (auto simp: obind_eq_Inr)
  have v: "visiting S ow s1" by (rule visits_D[OF visits_expr(1) s1(1), THEN conjunct1]) (rule "4.prems")
  have e: "enlarges (x_graph s1) (x_graph s')" using visits_D[OF visits_expr(1) s1(2)] v by blast
  note w = "4.prems"(3)[unfolded stmt_computations.simps]
  show ?case
    using expr_callees(1)[OF s1(1) "4.prems"(2) within_front[OF w]]
      expr_callees(1)[OF s1(2) v within_back[OF w expr_machine(1)[OF s1(1)]]] call_edge_mono[OF _ e]
    by (auto simp: records_parts)
next
  case (9 P run S ow before c t f s)
  obtain s1 s2 s3 where s: "visit_stmt P run S ow before s = Inr s1" "visit_expr P run S ow c s1 = Inr s2"
    "visit_stmt P run S ow t s2 = Inr s3" "visit_stmt P run S ow f s3 = Inr s'"
    using "9.prems"(1) by (auto simp: obind_eq_Inr)
  have v1: "visiting S ow s1" using visits_D[OF visits_stmt(1) s(1)] "9.prems"(2) by blast
  have v2: "visiting S ow s2" "enlarges (x_graph s1) (x_graph s2)" using visits_D[OF visits_expr(1) s(2)] v1 by auto
  have v3: "visiting S ow s3" "enlarges (x_graph s2) (x_graph s3)" using visits_D[OF visits_stmt(1) s(3)] v2 by auto
  have e: "enlarges (x_graph s3) (x_graph s')" using visits_D[OF visits_stmt(1) s(4)] v3 by auto
  note e2 = enlarges_trans[OF v3(2) e]
  note e1 = enlarges_trans[OF v2(2) e2]
  note w = "9.prems"(3)[unfolded stmt_computations.simps]
  note w1 = within_back[OF w stmt_machine(1)[OF s(1)]]
  note w2 = within_back[OF w1 expr_machine(1)[OF s(2)]]
  note w3 = within_back[OF w2 stmt_machine(1)[OF s(3)]]
  show ?case
    using records_mono[OF "9.IH"(1)[OF s(1) "9.prems"(2) within_front[OF w]] e1]
      expr_callees(1)[OF s(2) v1 within_front[OF w1]] call_edge_mono[OF _ e2]
      records_mono[OF "9.IH"(2)[OF s(1-3) v2(1) within_front[OF w2]] e] "9.IH"(3)[OF s v3(1) w3]
    by (auto simp: records_parts)
next
  case (12 P run S ow i t e b s)
  obtain s1 where s1: "visit_expr P run S ow e s = Inr s1" "visit_stmt P run S ow b s1 = Inr s'"
    using "12.prems"(1) by (auto simp: obind_eq_Inr)
  have v: "visiting S ow s1" by (rule visits_D[OF visits_expr(1) s1(1), THEN conjunct1]) (rule "12.prems")
  have e: "enlarges (x_graph s1) (x_graph s')" using visits_D[OF visits_stmt(1) s1(2)] v by blast
  note w = "12.prems"(3)[unfolded stmt_computations.simps]
  show ?case
    using expr_callees(1)[OF s1(1) "12.prems"(2) within_front[OF w]] call_edge_mono[OF _ e]
      "12.IH"[OF s1 v within_back[OF w expr_machine(1)[OF s1(1)]]] by (auto simp: records_parts)
next
  case (13 P run S ow x es b s)
  obtain s1 where "visit_activate ow b s = Inr s1" "visit_exprs P run S ow es s1 = Inr s'"
    using "13.prems"(1) by (auto simp: obind_eq_Inr)
  then show ?case using visit_activate_records "13.prems"(2,3) by simp
next
  case (15 P run S ow t ts s)
  obtain s1 where s1: "visit_stmt P run S ow t s = Inr s1" "visit_stmts P run S ow ts s1 = Inr s'"
    using "15.prems"(1) by (auto simp: obind_eq_Inr)
  have v: "visiting S ow s1" using visits_D[OF visits_stmt(1) s1(1)] "15.prems"(2) by blast
  have e: "enlarges (x_graph s1) (x_graph s')" using visits_D[OF visits_stmt(2) s1(2)] v by blast
  have w: "within V P run (o_generator ow) (stmt_computations t @ concat (map stmt_computations ts)) (x_machine s)"
    using "15.prems"(3) by simp
  show ?case
    using records_mono[OF "15.IH"(1)[OF s1(1) "15.prems"(2) within_front[OF w]] e]
      "15.IH"(2)[OF s1 v within_back[OF w stmt_machine(1)[OF s1(1)]]] by simp
next
  case (3 P run S ow vs es s)
  then show ?case using expr_callees(2)[of P run S ow es s s'] by (simp add: records_parts)
next
  case (8 P run S ow cs s)
  then show ?case by (simp add: records_parts)
qed (auto simp: records_parts dest: expr_callees)

text \<open>The index of a port call is executed and not visited: the call adds one edge, to the port, and none for the calls in its index.\<close>

lemma index_calls_not_recorded:
  assumes "visit_expr P run S ow (T_Indexed_Push_Port_Call v fs k ps t i []) s = Inr s'" and "x_activation s = Some n"
  shows "\<exists>p a. push_port_at S a = Some p \<and> x_graph s' = add_edge n p (x_graph s)"
proof -
  obtain sh s1 where s: "visit_port_index P run ow t i s = Inr (sh, s1)" "visit_push_port S ow fs k sh s1 = Inr s'"
    using assms(1) by (auto simp: obind_eq_Inr)
  have "x_graph s1 = x_graph s" "x_activation s1 = Some n"
    using port_index_machine[OF s(1)] assms(2) by auto
  then show ?thesis using s(2) by (fastforce simp: visit_push_port_def obind_eq_Inr)
qed

section \<open>The composition\<close>

text \<open>What one turn of a loop establishes and the others keep.\<close>

lemma ofold_establishes:
  assumes "ofold f xs s = Inr r" "I s" "x \<in> set xs"
    and keep: "\<And>x a b. x \<in> set xs \<Longrightarrow> I a \<Longrightarrow> f a x = Inr b \<Longrightarrow> I b"
    and make: "\<And>a b. I a \<Longrightarrow> f a x = Inr b \<Longrightarrow> Q b"
    and stable: "\<And>y a b. y \<in> set xs \<Longrightarrow> I a \<Longrightarrow> Q a \<Longrightarrow> f a y = Inr b \<Longrightarrow> Q b"
  shows "Q r"
  using assms(1-3) keep stable
proof (induction xs arbitrary: s)
  case (Cons y ys)
  obtain b where b: "f s y = Inr b" "ofold f ys b = Inr r" using Cons.prems(1) by (auto simp: obind_eq_Inr)
  have "I b" by (rule Cons.prems(4)[OF _ Cons.prems(2) b(1)]) simp
  show ?case
  proof (cases "x = y")
    case True
    have "I b \<and> Q b" using make[OF Cons.prems(2)] b(1) True \<open>I b\<close> by simp
    moreover have "I b' \<and> Q b'" if "z \<in> set ys" "I a' \<and> Q a'" "f a' z = Inr b'" for z a' b'
      using Cons.prems(4)[of z a' b'] Cons.prems(5)[of z a' b'] that by simp
    ultimately show ?thesis using ofold_invariant[OF b(2), of "\<lambda>c. I c \<and> Q c"] by blast
  next
    case False
    then have x: "x \<in> set ys" using Cons.prems(3) by simp
    have k: "I b'" if "z \<in> set ys" "I a'" "f a' z = Inr b'" for z a' b'
      using Cons.prems(4)[of z a' b'] that by simp
    have q: "Q b'" if "z \<in> set ys" "I a'" "Q a'" "f a' z = Inr b'" for z a' b'
      using Cons.prems(5)[of z a' b'] that by simp
    show ?thesis by (rule Cons.IH[OF b(2) \<open>I b\<close> x k q])
  qed
qed simp

definition node_for :: "graph \<Rightarrow> nat \<Rightarrow> (nat \<times> receiver_access) list \<Rightarrow> bool" where
  "node_for g n as \<longleftrightarrow> n < length g \<and> own_accesses (g ! n) = as"

lemma node_for_mono: "node_for g n as \<Longrightarrow> enlarges g g' \<Longrightarrow> node_for g' n as"
  by (fastforce simp: node_for_def enlarges_def larger_def)

text \<open>The tables name nodes of the right kind.\<close>

definition composing :: "elaborator \<Rightarrow> composition \<Rightarrow> bool" where
  "composing E c \<longleftrightarrow> graph_wf (co_graph c) \<and> enlarges (port_graph E) (co_graph c) \<and>
     (\<forall>((a, q), n, d) \<in> set (co_getters c). node_for (co_graph c) n [(unat a, cd_access d)]) \<and>
     (\<forall>(a, d, k, n, pre) \<in> set (co_actions c).
        node_for (co_graph c) n [(unat a, cd_precondition_access d), (unat a, cd_access d)] \<and>
        (\<forall>m \<in> set pre. m < length (co_graph c))) \<and>
     (\<forall>((a, r, k), n, d) \<in> set (co_reactions c). node_for (co_graph c) n [(unat a, cd_access d)])"

lemma composing_graph:
  assumes "composing E c" "graph_wf g" "enlarges (co_graph c) g"
  shows "composing E (c\<lparr>co_graph := g\<rparr>)"
proof -
  have "m < length (co_graph c) \<Longrightarrow> m < length g" for m using assms(3) by (simp add: enlarges_def)
  then show ?thesis
    using assms node_for_mono[OF _ assms(3)] enlarges_trans[OF _ assms(3)] unfolding composing_def
    by (fastforce split: prod.splits)
qed

lemma numbered_bound: "numbered n m a = Some i \<Longrightarrow> n \<le> i \<and> i < n + length m"
  unfolding numbered_def by (drule map_of_SomeD) (auto dest: set_zip_rightD)

lemma composing_sites: "composing E c \<Longrightarrow> sites_ok (length (co_graph c)) (the_sites E c)"
  unfolding composing_def sites_ok_def the_sites_def
  by (fastforce dest: numbered_bound map_of_SomeD simp: enlarges_def port_graph_def node_for_def split: prod.splits)

text \<open>What the computations \<open>cs\<close> of a tree visited for \<open>ow\<close> give: the executor starts with the frame of the owner.\<close>

definition computed_for :: "elaborator \<Rightarrow> owner \<Rightarrow> computation list \<Rightarrow> computation \<Rightarrow> int \<Rightarrow> bool" where
  "computed_for E ow cs x v \<longleftrightarrow> (\<exists>m. owner_frame (el_program E) ow (static_executor (el_machine E)) = Inr m \<and>
     computed (el_program E) (el_run E) (o_generator ow) cs m x v)"

definition body_recorded :: "elaborator \<Rightarrow> sites \<Rightarrow> owner \<Rightarrow> tstmt \<Rightarrow> graph \<Rightarrow> bool" where
  "body_recorded E S ow t g \<longleftrightarrow> records (computed_for E ow (stmt_computations t)) S ow t g"

lemma within_computed_for:
  "owner_frame (el_program E) ow (static_executor (el_machine E)) = Inr m \<Longrightarrow>
     within (computed_for E ow cs) (el_program E) (el_run E) (o_generator ow) cs m"
  by (auto simp: within_def computed_for_def)

lemma body_recorded_mono: "body_recorded E S ow t g \<Longrightarrow> enlarges g g' \<Longrightarrow> body_recorded E S ow t g'"
  unfolding body_recorded_def by (rule records_mono)

lemma tree_ok:
  assumes t: "elaborate_tree E ow visit g = Inr (g', ns)"
    and v: "\<And>s. visiting S ow s \<Longrightarrow> visits S ow s (visit s)"
    and g: "graph_wf g" "sites_ok (length g) S" "o_node ow < length g"
  shows "graph_wf g' \<and> enlarges g g' \<and> (\<forall>n \<in> set ns. n < length g')"
    and "\<exists>s s'. visiting S ow s \<and> owner_frame (el_program E) ow (static_executor (el_machine E)) = Inr (x_machine s) \<and>
      x_graph s = g \<and> visit s = Inr s' \<and> x_graph s' = g'"
proof -
  obtain m s' where m: "visit \<lparr>x_graph = g, x_machine = m, x_activation = None, x_precondition = []\<rparr> = Inr s'"
    "g' = x_graph s'" "ns = x_precondition s'" "owner_frame (el_program E) ow (static_executor (el_machine E)) = Inr m"
    using t by (auto simp: elaborate_tree_def obind_eq_Inr)
  let ?s = "\<lparr>x_graph = g, x_machine = m, x_activation = None, x_precondition = []\<rparr>"
  have s: "visiting S ow ?s" using g by (simp add: visiting_def)
  have "visiting S ow s' \<and> enlarges g g'" using visits_D[OF v[OF s] m(1)] m(2) by simp
  then show "graph_wf g' \<and> enlarges g g' \<and> (\<forall>n \<in> set ns. n < length g')" using m by (simp add: visiting_def)
  show "\<exists>s s'. visiting S ow s \<and> owner_frame (el_program E) ow (static_executor (el_machine E)) = Inr (x_machine s) \<and>
      x_graph s = g \<and> visit s = Inr s' \<and> x_graph s' = g'"
    using s m by (intro exI[of _ ?s] exI[of _ s']) simp
qed

lemma body_ok:
  assumes t: "elaborate_tree E ow (visit_stmt (el_program E) (el_run E) S ow b) g = Inr (g', ns)"
    and g: "graph_wf g" "sites_ok (length g) S" "o_node ow < length g"
  shows "graph_wf g' \<and> enlarges g g'" "body_recorded E S ow b g'"
proof -
  have v: "\<And>s. visiting S ow s \<Longrightarrow> visits S ow s (visit_stmt (el_program E) (el_run E) S ow b s)" by (rule visits_stmt(1))
  show "graph_wf g' \<and> enlarges g g'" using tree_ok(1)[OF t v g] by blast
  obtain s s' where "visiting S ow s" "owner_frame (el_program E) ow (static_executor (el_machine E)) = Inr (x_machine s)"
    "visit_stmt (el_program E) (el_run E) S ow b s = Inr s'" "x_graph s' = g'"
    using tree_ok(2)[OF t v g] by blast
  then show "body_recorded E S ow b g'" using stmt_records(1) within_computed_for unfolding body_recorded_def by blast
qed

lemma composing_append: "composing E c \<Longrightarrow> outgoing x = [] \<Longrightarrow> composing E (c\<lparr>co_graph := co_graph c @ [x]\<rparr>)"
  by (rule composing_graph) (auto intro: graph_wf_append simp: composing_def)

lemma set_insert_new: "set (insert_new k v m) \<subseteq> insert (k, v) (set m)"
  by (auto simp: insert_new_def)

text \<open>An enumeration adds nodes without successors.\<close>

definition adds :: "elaborator \<Rightarrow> composition \<Rightarrow> composition \<Rightarrow> bool" where
  "adds E c c' \<longleftrightarrow> composing E c' \<and> enlarges (co_graph c) (co_graph c')"

lemma adds_refl: "composing E c \<Longrightarrow> adds E c c"
  by (simp add: adds_def)

lemma adds_trans: "adds E b c \<Longrightarrow> adds E c d \<Longrightarrow> adds E b d"
  by (auto simp: adds_def intro: enlarges_trans)

lemma node_for_last: "own_accesses x = as \<Longrightarrow> node_for (g @ [x]) (length g) as"
  by (simp add: node_for_def)

lemma enumerate_getter_ok:
  assumes "composing E c"
  shows "adds E c (enumerate_getter a c d) \<and> co_actions (enumerate_getter a c d) = co_actions c \<and>
    co_reactions (enumerate_getter a c d) = co_reactions c"
proof -
  let ?g = "co_graph c @ [Getter_Node (unat a) (cd_access d) []]"
  have "composing E (c\<lparr>co_graph := ?g\<rparr>)" by (rule composing_append[OF assms]) simp
  moreover have "node_for ?g (length (co_graph c)) [(unat a, cd_access d)]" by (rule node_for_last) simp
  ultimately have "composing E (enumerate_getter a c d)"
    using set_insert_new[of "(a, cd_callable d)" "(length (co_graph c), d)" "co_getters c"]
    by (fastforce simp: composing_def enumerate_getter_def)
  then show ?thesis by (simp add: adds_def enumerate_getter_def)
qed

lemma foldl_keeps: "I s \<Longrightarrow> (\<And>x a. x \<in> set xs \<Longrightarrow> I a \<Longrightarrow> I (f a x)) \<Longrightarrow> I (foldl f s xs)"
  by (induction xs arbitrary: s) auto

lemma enumerate_getters_ok:
  assumes "composing E c"
  shows "composing E (enumerate_getters E c) \<and> co_actions (enumerate_getters E c) = co_actions c \<and>
    co_reactions (enumerate_getters E c) = co_reactions c"
proof -
  let ?I = "\<lambda>b. composing E b \<and> co_actions b = co_actions c \<and> co_reactions b = co_reactions c"
  have step: "?I (enumerate_getter a b d)" if "?I b" for a b d
    using enumerate_getter_ok[of E b a d] that by (simp add: adds_def)
  have inner: "?I (foldl (enumerate_getter a) b ds)" if "?I b" for a b ds
    by (rule foldl_keeps[of ?I]) (use that step in auto)
  show ?thesis
    unfolding enumerate_getters_def
    by (rule foldl_keeps[of ?I]) (use assms inner in \<open>auto split: prod.splits\<close>)
qed

lemma the_sites_getters: "co_getters c' = co_getters c \<Longrightarrow> the_sites E c' = the_sites E c"
  by (simp add: the_sites_def)

lemma owner_simps [simp]:
  "o_node (owner_of r n a k d) = n" "o_role (owner_of r n a k d) = r" "o_address (owner_of r n a k d) = a"
  "o_generator (owner_of r n a k d) = cd_generator d"
  by (simp_all add: owner_of_def)

text \<open>The bodies of all getters or reactions: the composition changes by its graph, and every body is recorded.\<close>

definition elaborate_body ::
  "elaborator \<Rightarrow> ('x \<Rightarrow> owner) \<Rightarrow> ('x \<Rightarrow> tstmt) \<Rightarrow> composition \<Rightarrow> 'x \<Rightarrow> composition outcome"
where
  "elaborate_body E ow body = (\<lambda>c x.
     obind (elaborate_tree E (ow x) (visit_stmt (el_program E) (el_run E) (the_sites E c) (ow x) (body x)) (co_graph c))
       (\<lambda>(g, _). Inr (c\<lparr>co_graph := g\<rparr>)))"

lemma body_step:
  assumes a: "adds E c b" "co_getters b = co_getters c" and n: "o_node (ow x) < length (co_graph c)"
    and t: "elaborate_body E ow body b x = Inr b'"
  shows "\<exists>g. b' = b\<lparr>co_graph := g\<rparr>" "adds E b b'" "adds E c b'" "body_recorded E (the_sites E c) (ow x) (body x) (co_graph b')"
proof -
  have S: "the_sites E b = the_sites E c" by (rule the_sites_getters) (rule a(2))
  have b: "composing E b" and l: "o_node (ow x) < length (co_graph b)"
    using a n by (auto simp: adds_def enlarges_def)
  obtain g ns where t: "elaborate_tree E (ow x) (visit_stmt (el_program E) (el_run E) (the_sites E b) (ow x) (body x)) (co_graph b)
      = Inr (g, ns)" "b' = b\<lparr>co_graph := g\<rparr>"
    using t by (auto simp: elaborate_body_def obind_eq_Inr)
  have g: "graph_wf (co_graph b)" using b by (simp add: composing_def)
  note ok = body_ok[OF t(1) g composing_sites[OF b] l]
  show "\<exists>g. b' = b\<lparr>co_graph := g\<rparr>" using t(2) by blast
  show "adds E b b'" using ok(1) composing_graph[OF b] t(2) by (simp add: adds_def)
  then show "adds E c b'" by (rule adds_trans[OF a(1)])
  show "body_recorded E (the_sites E c) (ow x) (body x) (co_graph b')" using ok(2) t(2) S by simp
qed

lemma bodies_ok:
  assumes e: "ofold (elaborate_body E ow body) xs c = Inr c'" and c: "composing E c"
    and n: "\<forall>x \<in> set xs. o_node (ow x) < length (co_graph c)"
  shows "\<exists>g. c' = c\<lparr>co_graph := g\<rparr>" "adds E c c'" "\<forall>x \<in> set xs. body_recorded E (the_sites E c) (ow x) (body x) (co_graph c')"
proof -
  let ?I = "\<lambda>b. (\<exists>g. b = c\<lparr>co_graph := g\<rparr>) \<and> adds E c b"
  have I: "?I c" using adds_refl[OF c] by (auto intro: exI[of _ "co_graph c"])
  have step: "?I b' \<and> adds E b b' \<and> body_recorded E (the_sites E c) (ow x) (body x) (co_graph b')"
    if "x \<in> set xs" "?I b" "elaborate_body E ow body b x = Inr b'" for x b b'
  proof -
    have g: "co_getters b = co_getters c" using that(2) by auto
    note s = body_step[OF conjunct2[OF that(2)] g n[rule_format, OF that(1)] that(3)]
    have "\<exists>g. b' = c\<lparr>co_graph := g\<rparr>" using s(1) that(2) by auto
    then show ?thesis using s(2-) by blast
  qed
  have "?I c'" using ofold_invariant[OF e, of ?I] I step by blast
  then show "\<exists>g. c' = c\<lparr>co_graph := g\<rparr>" "adds E c c'" by blast+
  have "body_recorded E (the_sites E c) (ow x) (body x) (co_graph c')" if x: "x \<in> set xs" for x
  proof (rule ofold_establishes[where I = ?I and Q = "\<lambda>b. body_recorded E (the_sites E c) (ow x) (body x) (co_graph b)", OF e I x])
    show "?I b" if "y \<in> set xs" "?I a" "elaborate_body E ow body a y = Inr b" for y a b using step that by blast
    show "body_recorded E (the_sites E c) (ow x) (body x) (co_graph b)" if "?I a" "elaborate_body E ow body a x = Inr b" for a b
      using step[OF x that] by blast
    show "body_recorded E (the_sites E c) (ow x) (body x) (co_graph b)"
      if "y \<in> set xs" "?I a" "body_recorded E (the_sites E c) (ow x) (body x) (co_graph a)" "elaborate_body E ow body a y = Inr b" for y a b
      using step[OF that(1,2,4)] that(3) body_recorded_mono by (simp add: adds_def)
  qed
  then show "\<forall>x \<in> set xs. body_recorded E (the_sites E c) (ow x) (body x) (co_graph c')" by blast
qed

definition getter_owner :: "(64 word \<times> int) \<times> nat \<times> code_decl \<Rightarrow> owner" where
  "getter_owner = (\<lambda>((a, q), n, d). owner_of Getter_Role n a 0 d)"

definition reaction_owner :: "(64 word \<times> int \<times> int) \<times> nat \<times> code_decl \<Rightarrow> owner" where
  "reaction_owner = (\<lambda>((a, r, k), n, d). owner_of Reaction_Role n a k d)"

definition action_owner :: "64 word \<times> code_decl \<times> nat \<times> nat \<times> nat list \<Rightarrow> owner" where
  "action_owner = (\<lambda>(a, d, k, n, pre). owner_of (Action_Role False) n a (int k) d)"

lemma elaborate_getter_body: "elaborate_getter E = elaborate_body E getter_owner (\<lambda>(_, _, d). cd_body d)"
  by (intro ext) (simp add: elaborate_getter_def elaborate_body_def getter_owner_def split: prod.splits)

lemma elaborate_reaction_body: "elaborate_reaction E = elaborate_body E reaction_owner (\<lambda>(_, _, d). cd_body d)"
  by (intro ext) (simp add: elaborate_reaction_def elaborate_body_def reaction_owner_def split: prod.splits)

lemma elaborate_getters_ok:
  assumes "elaborate_getters E c = Inr c'" "composing E c"
  shows "\<exists>g. c' = c\<lparr>co_graph := g\<rparr>" "adds E c c'"
    "\<forall>x \<in> set (co_getters c). body_recorded E (the_sites E c) (getter_owner x) (cd_body (snd (snd x))) (co_graph c')"
proof -
  have "\<forall>x \<in> set (co_getters c). o_node (getter_owner x) < length (co_graph c)"
    using assms(2) by (fastforce simp: composing_def node_for_def getter_owner_def)
  note ok = bodies_ok[OF assms(1)[unfolded elaborate_getters_def elaborate_getter_body] assms(2) this]
  show "\<exists>g. c' = c\<lparr>co_graph := g\<rparr>" "adds E c c'" by (rule ok)+
  show "\<forall>x \<in> set (co_getters c). body_recorded E (the_sites E c) (getter_owner x) (cd_body (snd (snd x))) (co_graph c')"
    using ok(3) by (simp add: case_prod_beta)
qed

lemma elaborate_reactions_ok:
  assumes "elaborate_reactions E c = Inr c'" "composing E c"
  shows "\<exists>g. c' = c\<lparr>co_graph := g\<rparr>" "adds E c c'"
    "\<forall>x \<in> set (co_reactions c). body_recorded E (the_sites E c) (reaction_owner x) (cd_body (snd (snd x))) (co_graph c')"
proof -
  have "\<forall>x \<in> set (co_reactions c). o_node (reaction_owner x) < length (co_graph c)"
    using assms(2) by (fastforce simp: composing_def node_for_def reaction_owner_def)
  note ok = bodies_ok[OF assms(1)[unfolded elaborate_reactions_def elaborate_reaction_body] assms(2) this]
  show "\<exists>g. c' = c\<lparr>co_graph := g\<rparr>" "adds E c c'" by (rule ok)+
  show "\<forall>x \<in> set (co_reactions c). body_recorded E (the_sites E c) (reaction_owner x) (cd_body (snd (snd x))) (co_graph c')"
    using ok(3) by (simp add: case_prod_beta)
qed

text \<open>Enumerating and elaborating the actions.\<close>

lemma composing_actions:
  assumes "composing E c"
    and "\<And>a d k n pre. (a, d, k, n, pre) \<in> set as \<Longrightarrow>
      node_for (co_graph c) n [(unat a, cd_precondition_access d), (unat a, cd_access d)] \<and> (\<forall>m \<in> set pre. m < length (co_graph c))"
  shows "composing E (c\<lparr>co_actions := as\<rparr>)"
  using assms unfolding composing_def by (auto split: prod.splits)

definition add_action :: "64 word \<Rightarrow> code_decl \<Rightarrow> composition \<Rightarrow> nat \<Rightarrow> composition" where
  "add_action a d c k =
     c\<lparr>co_graph := co_graph c @ [Action_Node (unat a) (cd_precondition_access d) (cd_access d) []],
       co_actions := co_actions c @ [(a, d, k, length (co_graph c), [])]\<rparr>"

lemma add_action_ok:
  assumes "composing E c" shows "adds E c (add_action a d c k)"
proof -
  let ?x = "Action_Node (unat a) (cd_precondition_access d) (cd_access d) []"
  let ?c = "c\<lparr>co_graph := co_graph c @ [?x]\<rparr>"
  have c: "composing E ?c" by (rule composing_append[OF assms]) simp
  have "composing E (?c\<lparr>co_actions := co_actions ?c @ [(a, d, k, length (co_graph c), [])]\<rparr>)"
    by (rule composing_actions[OF c]) (use c in \<open>auto simp: composing_def node_for_def\<close>)
  then show ?thesis by (simp add: adds_def add_action_def)
qed

text \<open>The table of actions has one entry for every index of every declaration of every instance.\<close>

definition lists_action :: "composition \<Rightarrow> 64 word \<Rightarrow> code_decl \<Rightarrow> nat \<Rightarrow> bool" where
  "lists_action c a d k \<longleftrightarrow> (\<exists>n pre. (a, d, k, n, pre) \<in> set (co_actions c))"

definition same_rest :: "composition \<Rightarrow> composition \<Rightarrow> bool" where
  "same_rest c c' \<longleftrightarrow> co_getters c' = co_getters c \<and> co_reactions c' = co_reactions c \<and> co_bound c' = co_bound c"

lemma same_rest_refl [simp]: "same_rest c c"
  by (simp add: same_rest_def)

lemma same_rest_trans: "same_rest b c \<Longrightarrow> same_rest c d \<Longrightarrow> same_rest b d"
  by (simp add: same_rest_def)

definition adds_actions :: "elaborator \<Rightarrow> composition \<Rightarrow> composition \<Rightarrow> bool" where
  "adds_actions E c c' \<longleftrightarrow> adds E c c' \<and> same_rest c c' \<and> (\<forall>a d k. lists_action c a d k \<longrightarrow> lists_action c' a d k)"

lemma adds_actions_refl: "composing E c \<Longrightarrow> adds_actions E c c"
  by (simp add: adds_actions_def adds_refl)

lemma adds_actions_trans: "adds_actions E b c \<Longrightarrow> adds_actions E c d \<Longrightarrow> adds_actions E b d"
  by (auto simp: adds_actions_def intro: adds_trans same_rest_trans)

lemma adds_actions_composing: "adds_actions E c c' \<Longrightarrow> composing E c'"
  by (simp add: adds_actions_def adds_def)

lemma add_action_adds:
  "composing E c \<Longrightarrow> adds_actions E c (add_action a d c k) \<and> lists_action (add_action a d c k) a d k"
  using add_action_ok[of E c a d k] unfolding adds_actions_def
  by (auto simp: lists_action_def same_rest_def add_action_def)

lemma add_actions_adds:
  "composing E c \<Longrightarrow> adds_actions E c (foldl (add_action a d) c ks) \<and> (\<forall>k \<in> set ks. lists_action (foldl (add_action a d) c ks) a d k)"
proof (induction ks arbitrary: c)
  case (Cons k ks)
  note a = add_action_adds[OF Cons.prems, of a d k]
  then have "composing E (add_action a d c k)" by (auto dest: adds_actions_composing)
  from Cons.IH[OF this] a show ?case by (auto simp: adds_actions_def intro: adds_trans same_rest_trans)
qed (simp add: adds_actions_refl)

lemma enumerate_action_ok:
  assumes "enumerate_action a c d = Inr c'" "composing E c"
  shows "adds_actions E c c'" "\<forall>ks. indices (cd_dimension d) = Inr ks \<longrightarrow> (\<forall>k \<in> set ks. lists_action c' a d k)"
proof -
  obtain ks where "indices (cd_dimension d) = Inr ks" "c' = foldl (add_action a d) c ks"
    using assms(1) by (auto simp: enumerate_action_def add_action_def [abs_def] obind_eq_Inr)
  then show "adds_actions E c c'" "\<forall>ks. indices (cd_dimension d) = Inr ks \<longrightarrow> (\<forall>k \<in> set ks. lists_action c' a d k)"
    using add_actions_adds[OF assms(2), of a d ks] by auto
qed

lemma enumerate_type_actions:
  assumes e: "ofold (enumerate_action a) ds c = Inr c'" and c: "composing E c"
  shows "adds_actions E c c'"
    "d \<in> set ds \<Longrightarrow> indices (cd_dimension d) = Inr ks \<Longrightarrow> k \<in> set ks \<Longrightarrow> lists_action c' a d k"
proof -
  let ?I = "\<lambda>b. adds_actions E c b"
  have step: "?I b'" "adds_actions E b b'" if "?I b" "enumerate_action a b d = Inr b'" for b b' d
    using enumerate_action_ok(1)[OF that(2) adds_actions_composing[OF that(1)]] adds_actions_trans[OF that(1)] by auto
  show "?I c'" using ofold_invariant[OF e, of ?I] step(1) adds_actions_refl[OF c] by blast
  assume d: "d \<in> set ds" "indices (cd_dimension d) = Inr ks" "k \<in> set ks"
  show "lists_action c' a d k"
  proof (rule ofold_establishes[where I = ?I and Q = "\<lambda>b. lists_action b a d k", OF e adds_actions_refl[OF c] d(1)])
    show "?I b'" if "?I b" "enumerate_action a b x = Inr b'" for x b b' by (rule step(1)[OF that])
    show "lists_action b' a d k" if "?I b" "enumerate_action a b d = Inr b'" for b b'
      using enumerate_action_ok(2)[OF that(2) adds_actions_composing[OF that(1)]] d by blast
    show "lists_action b' a d k" if "?I b" "lists_action b a d k" "enumerate_action a b x = Inr b'" for x b b'
      using step(2)[OF that(1,3)] that(2) by (simp add: adds_actions_def)
  qed
qed

lemma enumerate_actions_ok:
  assumes e: "enumerate_actions E c = Inr c'" and c: "composing E c"
  shows "adds_actions E c c'"
    "(a, code) \<in> set (instance_codes E) \<Longrightarrow> d \<in> set (ct_actions code) \<Longrightarrow> indices (cd_dimension d) = Inr ks \<Longrightarrow>
       k \<in> set ks \<Longrightarrow> lists_action c' a d k"
proof -
  let ?I = "\<lambda>b. adds_actions E c b" and ?f = "\<lambda>c (a, code). ofold (enumerate_action a) (ct_actions code) c"
  have step: "?I b'" "adds_actions E b b'" if "?I b" "?f b x = Inr b'" for b b' x
  proof -
    have "ofold (enumerate_action (fst x)) (ct_actions (snd x)) b = Inr b'" using that(2) by (simp add: case_prod_beta)
    from enumerate_type_actions(1)[OF this adds_actions_composing[OF that(1)]]
    show "?I b'" "adds_actions E b b'" using adds_actions_trans[OF that(1)] by auto
  qed
  show "?I c'"
    by (rule ofold_invariant[OF e[unfolded enumerate_actions_def], of ?I]) (use step(1) adds_actions_refl[OF c] in auto)
  assume d: "(a, code) \<in> set (instance_codes E)" "d \<in> set (ct_actions code)" "indices (cd_dimension d) = Inr ks" "k \<in> set ks"
  show "lists_action c' a d k"
  proof (rule ofold_establishes[where I = ?I and Q = "\<lambda>b. lists_action b a d k",
        OF e[unfolded enumerate_actions_def] adds_actions_refl[OF c] d(1)])
    show "?I b'" if "?I b" "?f b x = Inr b'" for x b b' by (rule step(1)[OF that])
    show "lists_action b' a d k" if "?I b" "?f b (a, code) = Inr b'" for b b'
      using enumerate_type_actions(2)[OF _ adds_actions_composing[OF that(1)] d(2-4)] that(2) by simp
    show "lists_action b' a d k" if "?I b" "lists_action b a d k" "?f b x = Inr b'" for x b b'
      using step(2)[OF that(1,3)] that(2) by (simp add: adds_actions_def)
  qed
qed

definition condition_recorded :: "elaborator \<Rightarrow> sites \<Rightarrow> owner \<Rightarrow> texp \<Rightarrow> graph \<Rightarrow> bool" where
  "condition_recorded E S ow e g \<longleftrightarrow> (\<forall>f \<in> set (callees e). call_edge (computed_for E ow (computations e)) S ow g f)"

definition action_recorded ::
  "elaborator \<Rightarrow> sites \<Rightarrow> graph \<Rightarrow> 64 word \<times> code_decl \<times> nat \<times> nat \<times> nat list \<Rightarrow> bool"
where
  "action_recorded E S g x \<longleftrightarrow> condition_recorded E S (action_owner x) (cd_precondition (fst (snd x))) g \<and>
     body_recorded E S (action_owner x) (cd_body (fst (snd x))) g"

lemma condition_recorded_mono: "condition_recorded E S ow e g \<Longrightarrow> enlarges g g' \<Longrightarrow> condition_recorded E S ow e g'"
  by (auto simp: condition_recorded_def intro: call_edge_mono)

lemma action_recorded_mono: "action_recorded E S g x \<Longrightarrow> enlarges g g' \<Longrightarrow> action_recorded E S g' x"
  by (auto simp: action_recorded_def intro: condition_recorded_mono body_recorded_mono)

text \<open>The precondition and the body of an action are visited with the same frame.\<close>

lemma precondition_frame:
  "owner_frame P (owner_of (Action_Role p) n a k d) m = owner_frame P (owner_of (Action_Role q) n a k d) m"
  by (simp add: owner_frame_def owner_iota_def owner_arguments_def owner_of_def)

lemma call_edge_role: "call_edge V S (owner_of r n a k d) g f = call_edge V S (owner_of r' n a k' d) g f"
  by (cases f) (simp_all add: field_address_def)

lemma condition_recorded_role:
  "condition_recorded E S (owner_of (Action_Role p) n a k d) e g = condition_recorded E S (owner_of (Action_Role q) n a k d) e g"
proof -
  have "computed_for E (owner_of (Action_Role p) n a k d) cs = computed_for E (owner_of (Action_Role q) n a k d) cs" for cs
    using precondition_frame[of _ p n a k d _ q] by (intro ext) (simp add: computed_for_def)
  then show ?thesis using call_edge_role unfolding condition_recorded_def by metis
qed

text \<open>The table of actions with entry \<open>x\<close> at its end, when the node of \<open>x\<close> is there.\<close>

lemma composing_snoc_action:
  assumes "composing E c" "node_for (co_graph c) n [(unat a, cd_precondition_access d), (unat a, cd_access d)]"
    "\<forall>m \<in> set pre. m < length (co_graph c)"
  shows "composing E (c\<lparr>co_actions := co_actions c @ [(a, d, k, n, pre)]\<rparr>)"
  by (rule composing_actions[OF assms(1)]) (use assms in \<open>auto simp: composing_def\<close>)

lemma elaborate_action_ok:
  assumes e: "elaborate_action E b (a, d, k, n, pre) = Inr b'" and b: "composing E b"
    and n: "node_for (co_graph b) n [(unat a, cd_precondition_access d), (unat a, cd_access d)]"
    and pre: "\<forall>m \<in> set pre. m < length (co_graph b)"
  shows "adds E b b'" "same_rest b b'"
    "\<exists>ns. co_actions b' = co_actions b @ [(a, d, k, n, ns)] \<and> action_recorded E (the_sites E b) (co_graph b') (a, d, k, n, ns)"
proof -
  let ?S = "the_sites E b" and ?ow = "\<lambda>p. owner_of (Action_Role p) n a (int k) d"
  obtain g ns h ms where t: "elaborate_tree E (?ow True)
      (visit_expr (el_program E) (el_run E) ?S (?ow True) (cd_precondition d)) (co_graph b) = Inr (g, ns)"
    "elaborate_tree E (?ow False) (visit_stmt (el_program E) (el_run E) ?S (?ow False) (cd_body d)) g = Inr (h, ms)"
    "b' = b\<lparr>co_graph := h, co_actions := co_actions b @ [(a, d, k, n, pre @ ns)]\<rparr>"
    using e by (auto simp: elaborate_action_def obind_eq_Inr Let_def)
  have v: "\<And>s. visiting ?S (?ow True) s \<Longrightarrow>
      visits ?S (?ow True) s (visit_expr (el_program E) (el_run E) ?S (?ow True) (cd_precondition d) s)"
    by (rule visits_expr(1))
  have g0: "graph_wf (co_graph b)" "sites_ok (length (co_graph b)) ?S" "o_node (?ow True) < length (co_graph b)"
    using b composing_sites[OF b] n by (simp_all add: composing_def node_for_def)
  have g1: "graph_wf g" "enlarges (co_graph b) g" "\<forall>m \<in> set ns. m < length g" using tree_ok(1)[OF t(1) v g0] by blast+
  obtain s s' where "visiting ?S (?ow True) s" "x_graph s' = g"
    "owner_frame (el_program E) (?ow True) (static_executor (el_machine E)) = Inr (x_machine s)"
    "visit_expr (el_program E) (el_run E) ?S (?ow True) (cd_precondition d) s = Inr s'"
    using tree_ok(2)[OF t(1) v g0] by blast
  then have p: "condition_recorded E ?S (?ow True) (cd_precondition d) g"
    using expr_callees(1) within_computed_for unfolding condition_recorded_def by blast
  have c1: "composing E (b\<lparr>co_graph := g\<rparr>)" by (rule composing_graph[OF b g1(1,2)])
  have s1: "sites_ok (length g) ?S" using composing_sites[OF c1] the_sites_getters[of "b\<lparr>co_graph := g\<rparr>" b] by simp
  have l: "o_node (?ow False) < length g" using g0(3) g1(2) by (simp add: enlarges_def)
  have h: "graph_wf h" "enlarges g h" "body_recorded E ?S (?ow False) (cd_body d) h" using body_ok[OF t(2) g1(1) s1 l] by blast+
  have bh: "enlarges (co_graph b) h" by (rule enlarges_trans[OF g1(2) h(2)])
  have "length g \<le> length h" using h(2) by (simp add: enlarges_def)
  then have m: "\<forall>m \<in> set (pre @ ns). m < length h" using pre g1(3) bh by (fastforce simp: enlarges_def)
  have "composing E (b\<lparr>co_graph := h\<rparr>)" by (rule composing_graph[OF b h(1) bh])
  from composing_snoc_action[OF this, of n a d "pre @ ns" k] have "composing E b'"
    using node_for_mono[OF n bh] m t(3) by simp
  then show "adds E b b'" using t(3) bh by (simp add: adds_def)
  show "same_rest b b'" using t(3) by (simp add: same_rest_def)
  have "action_recorded E ?S h (a, d, k, n, pre @ ns)"
    using h(3) condition_recorded_mono[OF p h(2)] condition_recorded_role[of E ?S True n a "int k" d _ h False]
    by (simp add: action_recorded_def action_owner_def)
  then show "\<exists>ns. co_actions b' = co_actions b @ [(a, d, k, n, ns)] \<and> action_recorded E ?S (co_graph b') (a, d, k, n, ns)"
    using t(3) by simp
qed

lemma elaborate_actions_ok:
  assumes e: "elaborate_actions E c = Inr c'" and c: "composing E c"
  shows "adds E c c'" "same_rest c c'" "\<forall>x \<in> set (co_actions c'). action_recorded E (the_sites E c) (co_graph c') x"
    "lists_action c a d k \<Longrightarrow> lists_action c' a d k"
proof -
  let ?c = "c\<lparr>co_actions := []\<rparr>" and ?S = "the_sites E c"
  let ?I = "\<lambda>b. adds E ?c b \<and> same_rest c b \<and> (\<forall>x \<in> set (co_actions b). action_recorded E ?S (co_graph b) x)"
  have c0: "composing E ?c" by (rule composing_actions[OF c]) simp
  have step: "?I b' \<and> (\<exists>ns. co_actions b' = co_actions b @ [(a, d, k, n, ns)])"
    if x: "(a, d, k, n, pre) \<in> set (co_actions c)" and b: "?I b" and s: "elaborate_action E b (a, d, k, n, pre) = Inr b'"
    for a d k n pre b b'
  proof -
    have g: "composing E b" "enlarges (co_graph c) (co_graph b)" using b by (simp_all add: adds_def)
    have S: "the_sites E b = ?S" by (rule the_sites_getters) (use b in \<open>simp add: same_rest_def\<close>)
    have n0: "node_for (co_graph c) n [(unat a, cd_precondition_access d), (unat a, cd_access d)]"
      "\<forall>m \<in> set pre. m < length (co_graph c)"
      using x c unfolding composing_def by fastforce+
    have "\<forall>m \<in> set pre. m < length (co_graph b)" using n0(2) g(2) by (auto simp: enlarges_def)
    note ok = elaborate_action_ok[OF s g(1) node_for_mono[OF n0(1) g(2)] this]
    obtain ns where ns: "co_actions b' = co_actions b @ [(a, d, k, n, ns)]"
      "action_recorded E ?S (co_graph b') (a, d, k, n, ns)" using ok(3) S by auto
    have "enlarges (co_graph b) (co_graph b')" using ok(1) by (simp add: adds_def)
    then have "\<forall>x \<in> set (co_actions b'). action_recorded E ?S (co_graph b') x"
      using b ns action_recorded_mono by auto
    then show ?thesis using adds_trans[OF conjunct1[OF b] ok(1)] same_rest_trans[OF _ ok(2)] b ns(1) by blast
  qed
  have keep: "?I b'" if "x \<in> set (co_actions c)" "?I b" "elaborate_action E b x = Inr b'" for x b b'
  proof -
    obtain a d k n pre where "x = (a, d, k, n, pre)" by (metis surj_pair)
    then show ?thesis using step that by blast
  qed
  have I: "?I ?c" using adds_refl[OF c0] by (simp add: same_rest_def)
  have e': "ofold (elaborate_action E) (co_actions c) ?c = Inr c'" using e by (simp add: elaborate_actions_def)
  have r: "?I c'" by (rule ofold_invariant[OF e', of ?I]) (use I keep in blast)+
  then show "adds E c c'" by (simp add: adds_def)
  show "same_rest c c'" "\<forall>x \<in> set (co_actions c'). action_recorded E ?S (co_graph c') x" using r by blast+
  assume "lists_action c a d k"
  then obtain n pre where x: "(a, d, k, n, pre) \<in> set (co_actions c)" by (auto simp: lists_action_def)
  show "lists_action c' a d k"
  proof (rule ofold_establishes[where I = ?I and Q = "\<lambda>b. lists_action b a d k", OF e' I x])
    show "?I b'" if "y \<in> set (co_actions c)" "?I b" "elaborate_action E b y = Inr b'" for y b b' by (rule keep[OF that])
    show "lists_action b' a d k" if b: "?I b" and s: "elaborate_action E b (a, d, k, n, pre) = Inr b'" for b b'
    proof -
      obtain ns where "co_actions b' = co_actions b @ [(a, d, k, n, ns)]" using step[OF x b s] by blast
      then show ?thesis unfolding lists_action_def by (metis in_set_conv_decomp)
    qed
    show "lists_action b' a d k"
      if y: "y \<in> set (co_actions c)" "?I b" and l: "lists_action b a d k" and s: "elaborate_action E b y = Inr b'" for y b b'
    proof -
      obtain a' d' k' n' pre' where "y = (a', d', k', n', pre')" by (metis surj_pair)
      then have "set (co_actions b) \<subseteq> set (co_actions b')" using step[of a' d' k' n' pre' b b'] y s by auto
      then show ?thesis using l unfolding lists_action_def by blast
    qed
  qed
qed

text \<open>Reactions.\<close>

definition add_reaction :: "64 word \<Rightarrow> code_decl \<Rightarrow> composition \<Rightarrow> nat \<Rightarrow> composition" where
  "add_reaction a d c k =
     c\<lparr>co_graph := co_graph c @ [Reaction_Node (unat a) (cd_access d) []],
       co_reactions := insert_new (a, cd_callable d, int k) (length (co_graph c), d) (co_reactions c)\<rparr>"

definition same_actions :: "composition \<Rightarrow> composition \<Rightarrow> bool" where
  "same_actions c c' \<longleftrightarrow> co_getters c' = co_getters c \<and> co_actions c' = co_actions c \<and> co_bound c' = co_bound c"

lemma add_reaction_ok:
  assumes "composing E c"
  shows "adds E c (add_reaction a d c k) \<and> same_actions c (add_reaction a d c k)"
proof -
  let ?g = "co_graph c @ [Reaction_Node (unat a) (cd_access d) []]"
  have "composing E (c\<lparr>co_graph := ?g\<rparr>)" by (rule composing_append[OF assms]) simp
  moreover have "node_for ?g (length (co_graph c)) [(unat a, cd_access d)]" by (rule node_for_last) simp
  ultimately have "composing E (add_reaction a d c k)"
    using set_insert_new[of "(a, cd_callable d, int k)" "(length (co_graph c), d)" "co_reactions c"]
    by (fastforce simp: composing_def add_reaction_def)
  then show ?thesis by (simp add: adds_def add_reaction_def same_actions_def)
qed

lemma enumerate_reactions_ok:
  assumes e: "enumerate_reactions E c = Inr c'" and c: "composing E c"
  shows "adds E c c'" "same_actions c c'"
proof -
  let ?I = "\<lambda>b. adds E c b \<and> same_actions c b"
  have add: "?I (add_reaction a d b k)" if "?I b" for a d b k
    using add_reaction_ok[of E b a d k] that by (auto simp: adds_def same_actions_def intro: enlarges_trans)
  have one: "?I b'" if b: "?I b" and s: "enumerate_reaction a b d = Inr b'" for a d b b'
  proof -
    obtain ks where "b' = foldl (add_reaction a d) b ks"
      using s by (auto simp: enumerate_reaction_def add_reaction_def [abs_def] obind_eq_Inr)
    then show ?thesis using foldl_keeps[of ?I b ks "add_reaction a d"] b add by blast
  qed
  have t: "?I b'" if b: "?I b" and s: "(case x of (a, code) \<Rightarrow> ofold (enumerate_reaction a) (ct_reactions code) b) = Inr b'" for x b b'
  proof -
    have o: "ofold (enumerate_reaction (fst x)) (ct_reactions (snd x)) b = Inr b'" using s by (simp add: case_prod_beta)
    show ?thesis by (rule ofold_invariant[OF o, of ?I, OF b]) (rule one)
  qed
  have I: "?I c" using adds_refl[OF c] by (simp add: same_actions_def)
  have "?I c'" by (rule ofold_invariant[OF e[unfolded enumerate_reactions_def], of ?I, OF I]) (rule t)
  then show "adds E c c'" "same_actions c c'" by blast+
qed

section \<open>Bindings\<close>

text \<open>A binder adds edges from ports to reactions and getters, and keeps the bound ports of the reactions in step.\<close>

definition binding_ok :: "composition \<Rightarrow> graph \<Rightarrow> binding \<Rightarrow> bool" where
  "binding_ok c g s \<longleftrightarrow> graph_wf (b_graph s) \<and> enlarges g (b_graph s) \<and>
     (\<forall>(r, p) \<in> set (b_bound s). edge (b_graph s) p r)"

lemma binding_edge:
  assumes "binding_ok c g s" "n < length g"
  shows "binding_ok c g (s\<lparr>b_graph := add_edge p n (b_graph s), b_machine := m\<rparr>)"
proof -
  have "n < length (b_graph s)" using assms by (auto simp: binding_ok_def enlarges_def)
  then show ?thesis
    using assms enlarges_trans[OF _ enlarges_add_edge, of g "b_graph s"]
    by (auto simp: binding_ok_def graph_wf_add_edge edge_add)
qed

lemma sites_bound:
  assumes "composing E c"
  shows "push_port_at (the_sites E c) a = Some p \<Longrightarrow> p < length (co_graph c)"
    "getter_at (the_sites E c) a q = Some n \<Longrightarrow> n < length (co_graph c)"
    "map_option fst (map_of (co_reactions c) k) = Some n \<Longrightarrow> n < length (co_graph c)"
proof -
  show "push_port_at (the_sites E c) a = Some p \<Longrightarrow> p < length (co_graph c)"
    "getter_at (the_sites E c) a q = Some n \<Longrightarrow> n < length (co_graph c)"
    using composing_sites[OF assms] by (auto simp: sites_ok_def)
  assume "map_option fst (map_of (co_reactions c) k) = Some n"
  then show "n < length (co_graph c)"
    using assms by (fastforce simp: composing_def node_for_def dest: map_of_SomeD)
qed

lemma bind_reaction_ok:
  assumes b: "bind_reaction E c G l r k s = Inr s'" and s: "binding_ok c (co_graph c) s" and c: "composing E c"
  shows "binding_ok c (co_graph c) s'"
proof -
  obtain p n m i j a d where r: "push_port_at (the_sites E c) i = Some p" "map_of (co_reactions c) (j, a, k) = Some (n, d)"
    "s' = \<lparr>b_graph = add_edge p n (b_graph s), b_machine = m, b_bound = b_bound s @ [(n, p)]\<rparr>"
    using b by (auto simp: bind_reaction_def obind_eq_Inr split: if_splits)
  have n: "n < length (co_graph c)" by (rule sites_bound(3)[OF c, of "(j, a, k)"]) (simp add: r(2))
  have "p < length (co_graph c)" by (rule sites_bound(1)[OF c r(1)])
  then have "p < length (b_graph s)" using s by (auto simp: binding_ok_def enlarges_def)
  then show ?thesis using binding_edge[OF s n, where p = p and m = m] r(3) by (auto simp: binding_ok_def edge_added)
qed

lemma bind_getter_ok:
  assumes b: "bind_getter E c G l r s = Inr s'" and s: "binding_ok c (co_graph c) s" and c: "composing E c"
  shows "binding_ok c (co_graph c) s'"
proof -
  obtain p n m i q where r: "getter_at (the_sites E c) i q = Some n"
    "s' = s\<lparr>b_graph := add_edge p n (b_graph s), b_machine := m\<rparr>"
    using b by (auto simp: bind_getter_def obind_eq_Inr split: if_splits)
  show ?thesis using binding_edge[OF s sites_bound(2)[OF c r(1)]] r(2) by simp
qed

lemma binding_machine [simp]: "binding_ok c g (s\<lparr>b_machine := m\<rparr>) = binding_ok c g s"
  by (simp add: binding_ok_def)

lemma bind_condition_machine: "bind_condition E G e s = Inr (b, s') \<Longrightarrow> \<exists>m. s' = s\<lparr>b_machine := m\<rparr>"
  by (auto simp: bind_condition_def obind_eq_Inr split: if_splits)

lemma visit_bind_ok:
  "visit_bind E c G t s = Inr s' \<Longrightarrow> binding_ok c (co_graph c) s \<Longrightarrow> composing E c \<Longrightarrow> binding_ok c (co_graph c) s'"
proof (induction E c G t s arbitrary: s' rule: visit_bind.induct)
  case (1 E c G l r s)
  then show ?case using bind_reaction_ok by simp
next
  case (2 E c G l r e s)
  then obtain k m where "bind_reaction E c G l r k (s\<lparr>b_machine := m\<rparr>) = Inr s'" by (auto simp: obind_eq_Inr)
  then show ?case using bind_reaction_ok "2.prems" by simp
next
  case (3 E c G l r s)
  then show ?case using bind_getter_ok by simp
next
  case (4 E c G bs s)
  show ?case
    by (rule ofold_invariant[of "\<lambda>s b. visit_bind E c G b s" bs s s' "binding_ok c (co_graph c)"]) (use 4 in auto)
next
  case (5 E c G before e t f s)
  obtain b s1 where c: "bind_condition E G e s = Inr (b, s1)"
    "(if b then visit_bind E c G t s1 else visit_bind E c G f s1) = Inr s'"
    using "5.prems"(1) by (auto simp: obind_eq_Inr)
  have "binding_ok c (co_graph c) s1" using bind_condition_machine[OF c(1)] "5.prems"(2) by auto
  then show ?case using "5.IH"[OF c(1) refl] c(2) "5.prems"(3) by (cases b) auto
next
  case (6 E c G i n b s)
  have "binding_ok c (co_graph c) y'"
    if k: "k \<in> set [0..<nat n]" and y: "binding_ok c (co_graph c) y"
      and s: "obind (set_iota G i k y) (visit_bind E c G b) = Inr y'" for k y y'
  proof -
    obtain m where m: "set_iota G i k y = Inr (y\<lparr>b_machine := m\<rparr>)" "visit_bind E c G b (y\<lparr>b_machine := m\<rparr>) = Inr y'"
      using s by (auto simp: obind_eq_Inr set_iota_def)
    have "0 \<le> n" using "6.prems"(1) by (simp split: if_splits)
    then show ?thesis using "6.IH"[OF _ k m] y "6.prems"(3) by simp
  qed
  then show ?case
    using ofold_invariant[of "\<lambda>s k. obind (set_iota G i k s) (visit_bind E c G b)" "[0..<nat n]" s s' "binding_ok c (co_graph c)"]
      "6.prems" by (simp split: if_splits)
next
  case (7 E c G b s)
  then show ?case by simp
qed

definition bindings_ok :: "composition \<Rightarrow> bool" where
  "bindings_ok c \<longleftrightarrow> (\<forall>(r, p) \<in> set (co_bound c). edge (co_graph c) p r)"

lemma elaborate_binder_ok:
  assumes e: "elaborate_binder E a c d = Inr c'" and c: "composing E c" and b: "bindings_ok c"
  shows "adds E c c'" "bindings_ok c'" "\<exists>g bs. c' = c\<lparr>co_graph := g, co_bound := bs\<rparr>"
proof -
  obtain m s where s: "visit_bind E c (bd_generator d) (bd_body d) \<lparr>b_graph = co_graph c, b_machine = m, b_bound = co_bound c\<rparr> = Inr s"
    "c' = c\<lparr>co_graph := b_graph s, co_bound := b_bound s\<rparr>"
    using e by (auto simp: elaborate_binder_def obind_eq_Inr)
  have "binding_ok c (co_graph c) \<lparr>b_graph = co_graph c, b_machine = m, b_bound = co_bound c\<rparr>"
    using c b by (simp add: binding_ok_def composing_def bindings_ok_def)
  note ok = visit_bind_ok[OF s(1) this c]
  have "composing E (c\<lparr>co_graph := b_graph s\<rparr>)" by (rule composing_graph[OF c]) (use ok in \<open>simp_all add: binding_ok_def\<close>)
  then have "composing E c'" using s(2) by (simp add: composing_def)
  then show "adds E c c'" using ok s(2) by (simp add: adds_def binding_ok_def)
  show "bindings_ok c'" using ok s(2) by (simp add: binding_ok_def bindings_ok_def)
  show "\<exists>g bs. c' = c\<lparr>co_graph := g, co_bound := bs\<rparr>" using s(2) by blast
qed

definition same_tables :: "composition \<Rightarrow> composition \<Rightarrow> bool" where
  "same_tables c c' \<longleftrightarrow> co_getters c' = co_getters c \<and> co_actions c' = co_actions c \<and> co_reactions c' = co_reactions c"

lemma elaborate_bindings_ok:
  assumes e: "elaborate_bindings E c = Inr c'" and c: "composing E c" and b: "bindings_ok c"
  shows "adds E c c'" "bindings_ok c'" "same_tables c c'"
proof -
  let ?I = "\<lambda>b. adds E c b \<and> bindings_ok b \<and> same_tables c b"
  have one: "?I y'" if y: "?I y" and s: "elaborate_binder E a y d = Inr y'" for a d y y'
  proof -
    have "composing E y" using y by (simp add: adds_def)
    from elaborate_binder_ok[OF s this] y show ?thesis by (auto simp: same_tables_def intro: adds_trans)
  qed
  have t: "?I y'" if y: "?I y" and s: "(case x of (a, code) \<Rightarrow> ofold (elaborate_binder E a) (ct_binds code) y) = Inr y'" for x y y'
  proof -
    have o: "ofold (elaborate_binder E (fst x)) (ct_binds (snd x)) y = Inr y'" using s by (simp add: case_prod_beta)
    show ?thesis by (rule ofold_invariant[OF o, of ?I, OF y]) (rule one)
  qed
  have I: "?I c" using adds_refl[OF c] b by (simp add: same_tables_def)
  have "?I c'" by (rule ofold_invariant[OF e[unfolded elaborate_bindings_def], of ?I, OF I]) (rule t)
  then show "adds E c c'" "bindings_ok c'" "same_tables c c'" by blast+
qed

section \<open>What the elaboration gives\<close>

lemma port_graph_ok: "composing E \<lparr>co_graph = port_graph E, co_getters = [], co_actions = [], co_reactions = [], co_bound = []\<rparr>"
  by (auto simp: composing_def graph_wf_def port_graph_def nth_append)

definition elaborated :: "elaborator \<Rightarrow> composition \<Rightarrow> bool" where
  "elaborated E c \<longleftrightarrow> composing E c \<and> bindings_ok c \<and>
     (\<forall>x \<in> set (co_getters c). body_recorded E (the_sites E c) (getter_owner x) (cd_body (snd (snd x))) (co_graph c)) \<and>
     (\<forall>x \<in> set (co_actions c). action_recorded E (the_sites E c) (co_graph c) x) \<and>
     (\<forall>x \<in> set (co_reactions c). body_recorded E (the_sites E c) (reaction_owner x) (cd_body (snd (snd x))) (co_graph c)) \<and>
     (\<forall>(a, code) \<in> set (instance_codes E). \<forall>d \<in> set (ct_actions code).
        \<forall>ks. indices (cd_dimension d) = Inr ks \<longrightarrow> (\<forall>k \<in> set ks. lists_action c a d k))"

lemma elaborate_elaborated:
  assumes "elaborate E = Inr (c, deps)"
  shows "elaborated E c"
proof -
  let ?c0 = "\<lparr>co_graph = port_graph E, co_getters = [], co_actions = [], co_reactions = [], co_bound = []\<rparr>"
  let ?c1 = "enumerate_getters E ?c0"
  obtain c2 c3 c4 c5 c6 where e: "elaborate_getters E ?c1 = Inr c2" "enumerate_actions E c2 = Inr c3"
    "elaborate_actions E c3 = Inr c4" "enumerate_reactions E c4 = Inr c5" "elaborate_reactions E c5 = Inr c6"
    "elaborate_bindings E c6 = Inr c"
    using assms by (auto simp: elaborate_def obind_eq_Inr)
  have c1: "composing E ?c1" using enumerate_getters_ok[OF port_graph_ok] by blast
  note g = elaborate_getters_ok[OF e(1) c1]
  have c2: "composing E c2" using g(2) by (simp add: adds_def)
  note n3 = enumerate_actions_ok[OF e(2) c2]
  have c3: "composing E c3" by (rule adds_actions_composing[OF n3(1)])
  note a = elaborate_actions_ok[OF e(3) c3]
  have c4: "composing E c4" using a(1) by (simp add: adds_def)
  note n5 = enumerate_reactions_ok[OF e(4) c4]
  have c5: "composing E c5" using n5(1) by (simp add: adds_def)
  note r = elaborate_reactions_ok[OF e(5) c5]
  have c6: "composing E c6" using r(2) by (simp add: adds_def)
  have b0: "co_bound ?c1 = []" unfolding enumerate_getters_def
    by (intro foldl_keeps[of "\<lambda>c. co_bound c = []"]) (auto simp: enumerate_getter_def intro: foldl_keeps[of "\<lambda>c. co_bound c = []"])
  have "co_bound c6 = []"
    using b0 g(1) n3(1) a(2) n5(2) r(1) by (auto simp: adds_actions_def same_rest_def same_actions_def)
  then have b6: "bindings_ok c6" by (simp add: bindings_ok_def)
  note b = elaborate_bindings_ok[OF e(6) c6 b6]
  have l2: "enlarges (co_graph c2) (co_graph c3)" using n3(1) by (simp add: adds_actions_def adds_def)
  have l3: "enlarges (co_graph c3) (co_graph c4)" using a(1) by (simp add: adds_def)
  have l5: "enlarges (co_graph c4) (co_graph c5)" "enlarges (co_graph c5) (co_graph c6)" "enlarges (co_graph c6) (co_graph c)"
    using n5(1) r(2) b(1) by (simp_all add: adds_def)
  note l6 = enlarges_trans[OF l5(1) enlarges_trans[OF l5(2,3)]]
  note l4 = enlarges_trans[OF enlarges_trans[OF l2 l3] l6]
  have G: "co_getters c = co_getters c2" "co_getters c2 = co_getters ?c1" "co_getters c3 = co_getters c" "co_getters c5 = co_getters c"
    "co_actions c = co_actions c4" "co_reactions c = co_reactions c5"
    using g(1) n3(1) a(2) n5(2) r(1) b(3) by (auto simp: adds_actions_def same_rest_def same_actions_def same_tables_def)
  have S: "the_sites E ?c1 = the_sites E c" "the_sites E c3 = the_sites E c" "the_sites E c5 = the_sites E c"
    by (rule the_sites_getters, simp add: G(1-4))+
  have "composing E c" using b(1) by (simp add: adds_def)
  moreover have "\<forall>x \<in> set (co_getters c). body_recorded E (the_sites E c) (getter_owner x) (cd_body (snd (snd x))) (co_graph c)"
    using g(3) body_recorded_mono[OF _ l4] by (simp add: S(1) G(1,2))
  moreover have "\<forall>x \<in> set (co_actions c). action_recorded E (the_sites E c) (co_graph c) x"
    using a(3) action_recorded_mono[OF _ l6] by (simp add: S(2) G(5))
  moreover have "\<forall>x \<in> set (co_reactions c). body_recorded E (the_sites E c) (reaction_owner x) (cd_body (snd (snd x))) (co_graph c)"
    using r(3) body_recorded_mono[OF _ l5(3)] by (simp add: S(3) G(6))
  moreover have "lists_action c x d k"
    if "(x, code) \<in> set (instance_codes E)" "d \<in> set (ct_actions code)" "indices (cd_dimension d) = Inr ks" "k \<in> set ks" for x code d ks k
    using a(4)[OF n3(2)[OF that]] G(5) by (simp add: lists_action_def)
  ultimately show ?thesis using b(2) unfolding elaborated_def by fast
qed

section \<open>Properties of the elaboration\<close>

text \<open>C4: when the elaboration succeeds, every action of every instance has its node, with the accesses of its precondition
  and body.  Successors of that node are: the pull port of every pull port call in its precondition and body; the getter of
  every getter call, at the instance that its receiver gives when it is executed in its turn; and a node for every activation of its
  body.  The successors of the latter include the port of every push port call of the activation: the port at the address of the
  instance plus the offset of the field, and for an array of ports the element at the index that the elaboration
  computes, which is within bounds.  That index is computed on the frame of the elaboration, so the port that the action calls at
  run time can be another one, see \<open>variable_index_elaborated\<close>; and calls within the index expression, or in the second phase
  of an activation, are not among those with an edge, see \<open>index_calls_not_recorded\<close>.\<close>

theorem every_call_has_an_edge:
  assumes "elaborate E = Inr (c, deps)" and "(a, code) \<in> set (instance_codes E)" and "d \<in> set (ct_actions code)"
    and "indices (cd_dimension d) = Inr ks" and "k \<in> set ks"
  shows "\<exists>n pre. (a, d, k, n, pre) \<in> set (co_actions c) \<and> n < length (co_graph c) \<and>
    own_accesses (co_graph c ! n) = [(unat a, cd_precondition_access d), (unat a, cd_access d)] \<and>
    (let ow = owner_of (Action_Role False) n a (int k) d; S = the_sites E c;
         P = computed_for E ow (computations (cd_precondition d)); B = computed_for E ow (stmt_computations (cd_body d)) in
     (\<forall>f \<in> set (callees (cd_precondition d)). call_edge P S ow (co_graph c) f) \<and>
     (\<forall>f \<in> set (immediate_callees (cd_body d)). call_edge B S ow (co_graph c) f) \<and>
     (\<forall>x \<in> set (activations_in (cd_body d)). activation_edge B S ow (co_graph c) x))"
proof -
  have e: "elaborated E c" by (rule elaborate_elaborated[OF assms(1)])
  then have "lists_action c a d k" using assms(2-) unfolding elaborated_def by fast
  then obtain n pre where x: "(a, d, k, n, pre) \<in> set (co_actions c)" by (auto simp: lists_action_def)
  then have "node_for (co_graph c) n [(unat a, cd_precondition_access d), (unat a, cd_access d)]"
    using e unfolding elaborated_def composing_def by fast
  moreover have "action_recorded E (the_sites E c) (co_graph c) (a, d, k, n, pre)" using e x by (simp add: elaborated_def)
  ultimately show ?thesis
    using x by (intro exI[of _ n] exI[of _ pre])
      (simp add: node_for_def action_recorded_def condition_recorded_def body_recorded_def action_owner_def records_def Let_def)
qed

text \<open>C5: an elaborated composition is a well-formed graph, and its analysis accepts it exactly when no reaction is bound twice,
  every pull port has one getter, no action reaches a cycle, and nothing an action reaches has two successors that may write
  the same instance.\<close>

theorem elaborated_accepted_iff:
  assumes "elaborate E = Inr (c, deps)"
  shows "graph_wf (co_graph c) \<and>
    ((\<exists>memo. analyze_composition E c = Inr memo) \<longleftrightarrow>
     (\<forall>n \<in> set (reaction_counts c). n \<le> 1) \<and> (\<forall>n \<in> set (getter_counts E c). n = 1) \<and>
     (\<forall>a \<in> set (action_nodes c). \<not> cyclic_from (co_graph c) a \<and> deterministic (co_graph c) a))"
proof -
  have c: "composing E c" using elaborate_elaborated[OF assms] by (simp add: elaborated_def)
  then have g: "graph_wf (co_graph c)" by (simp add: composing_def)
  have "\<forall>a \<in> set (action_nodes c). a < length (co_graph c)"
    using c by (fastforce simp: composing_def action_nodes_def node_for_def)
  then show ?thesis
    using analyze_accepts_iff[OF g] g by (simp add: analyze_composition_def)
qed

section \<open>An elaborated program\<close>

text \<open>The program of Declarations with one instance, whose port is bound to its own reaction.\<close>

definition tally_composer :: composer where
  "tally_composer = (case enumerate_instances tally_env 3 5 [(NamedType 30, None, ''t'')] of
     Inr c \<Rightarrow> c | Inl e \<Rightarrow> \<lparr>instances = [], push_ports = [], pull_ports = []\<rparr>)"

definition this_tally :: texp where
  "this_tally = T_Identifier (variable_ev (Pointer (NamedType 30)) Immutable Immutable) (Parameter_Entry 1 (snd tally_receiver))"

definition tick_condition :: texp where
  "tick_condition = T_Binary (value_ev (Basic Bool) Immutable) (Computed LessThaner)
     (T_Field (variable_ev (Basic Intt) Immutable Immutable) this_tally tally_fields 2)
     (T_Literal ((value_ev (Basic Intt) Immutable)\<lparr>e_value := put_scalar Long 5 no_value\<rparr>))"

definition tick_body :: tstmt where
  "tick_body = S_List [S_Activate True [T_Push_Port_Call port_ev tally_fields 1 (Parameter_List [] False) []] S_Empty]"

definition tally_code :: "receiver_access \<Rightarrow> texp \<Rightarrow> tstmt \<Rightarrow> code_decl" where
  "tally_code r p t = \<lparr>cd_callable = 96, cd_dimension = - 1, cd_precondition_access = r, cd_access = AccessNone,
     cd_arguments = Parameter_List [snd tally_receiver] False, cd_locals = 0, cd_generator = tally_generator 5001,
     cd_precondition = p, cd_body = t\<rparr>"

definition ping_reaction :: ty where
  "ping_reaction = MethodBase Reaction 8 30 (snd tally_receiver) (Parameter_List [] False) (Parameter_List [] False)"

definition tally_bind :: bind_decl where
  "tally_bind = \<lparr>bd_locals = 0, bd_generator = tally_generator 0,
     bd_body = B_List [B_Push
       (T_Field (variable_ev (FunctionBase PushPort 7 (Parameter_List [] False) (Parameter_List [] False)) Immutable Immutable) this_tally tally_fields 1)
       (T_Method (variable_ev ping_reaction Immutable Immutable) this_tally (96, ping_reaction))]\<rparr>"

definition tally_elaborator :: elaborator where
  "tally_elaborator = \<lparr>el_program = tally, el_fuel = 12, el_machine = ping_machine,
     el_code = (\<lambda>t. if t = NamedType 30 then
         \<lparr>ct_getters = [], ct_actions = [tally_code AccessRead tick_condition tick_body],
          ct_reactions = [tally_code AccessNone T_Error (S_List [S_Activate False [] S_Empty])], ct_binds = [tally_bind]\<rparr>
       else \<lparr>ct_getters = [], ct_actions = [], ct_reactions = [], ct_binds = []\<rparr>),
     el_composer = tally_composer\<rparr>"

lemma tally_placed:
  "instances tally_composer = [(0, Placed_Instance 0 None (NamedType 30) None True ''t'')] \<and> map fst (push_ports tally_composer) = [8]"
  by code_simp

lemma tally_codes:
  "\<exists>code. instance_codes tally_elaborator = [(0, code)] \<and> ct_actions code = [tally_code AccessRead tick_condition tick_body]"
  using tally_placed by (simp add: instance_codes_def tally_elaborator_def)

lemma tally_elaborates:
  "\<exists>c deps. elaborate tally_elaborator = Inr (c, deps) \<and>
     co_graph c = [PushPort_Node [3], Action_Node 0 AccessRead AccessNone [2], Activation_Node 0 AccessWrite [0],
       Reaction_Node 0 AccessNone [4], Activation_Node 0 AccessWrite []] \<and> deps = [] \<and>
     reaction_counts c = [1] \<and> getter_counts tally_elaborator c = [] \<and> action_nodes c = [1]"
proof -
  have "(case elaborate tally_elaborator of Inl e \<Rightarrow> False | Inr (c, deps) \<Rightarrow>
     co_graph c = [PushPort_Node [3], Action_Node 0 AccessRead AccessNone [2], Activation_Node 0 AccessWrite [0],
       Reaction_Node 0 AccessNone [4], Activation_Node 0 AccessWrite []] \<and> deps = [] \<and>
     reaction_counts c = [1] \<and> getter_counts tally_elaborator c = [] \<and> action_nodes c = [1])"
    by code_simp
  then show ?thesis by (auto split: sum.splits)
qed

theorem every_call_has_an_edge_witness:
  "\<exists>c deps n pre. elaborate tally_elaborator = Inr (c, deps) \<and>
     (0, tally_code AccessRead tick_condition tick_body, 0, n, pre) \<in> set (co_actions c) \<and>
     (let ow = owner_of (Action_Role False) n 0 0 (tally_code AccessRead tick_condition tick_body) in
      activation_edge (computed_for tally_elaborator ow (stmt_computations tick_body)) (the_sites tally_elaborator c) ow
        (co_graph c) (S_Empty, [T_Push_Port_Call port_ev tally_fields 1 (Parameter_List [] False) []]))"
proof -
  let ?d = "tally_code AccessRead tick_condition tick_body"
  obtain c deps where e: "elaborate tally_elaborator = Inr (c, deps)" using tally_elaborates by blast
  obtain code where code: "(0, code) \<in> set (instance_codes tally_elaborator)" "?d \<in> set (ct_actions code)"
    using tally_codes by (metis list.set_intros(1))
  have i: "indices (cd_dimension ?d) = Inr [0]" by (simp add: tally_code_def indices_def)
  have b: "cd_body ?d = tick_body" by (simp add: tally_code_def)
  have "(S_Empty, [T_Push_Port_Call port_ev tally_fields 1 (Parameter_List [] False) []]) \<in> set (activations_in (cd_body ?d))"
    by (simp add: tally_code_def tick_body_def)
  then show ?thesis using every_call_has_an_edge[OF e code i, of 0] e unfolding Let_def b by fastforce
qed

theorem elaborated_accepted_iff_witness:
  "\<exists>c deps. elaborate tally_elaborator = Inr (c, deps) \<and> graph_wf (co_graph c) \<and>
     ((\<exists>memo. analyze_composition tally_elaborator c = Inr memo) \<longleftrightarrow>
      (\<forall>n \<in> {1 :: nat}. n \<le> 1) \<and> \<not> cyclic_from (co_graph c) 1 \<and> deterministic (co_graph c) 1)"
proof -
  obtain c deps where e: "elaborate tally_elaborator = Inr (c, deps)" "reaction_counts c = [1]"
    "getter_counts tally_elaborator c = []" "action_nodes c = [1]" using tally_elaborates by blast
  show ?thesis using elaborated_accepted_iff[OF e(1)] e by auto
qed

section \<open>An index that depends on a variable\<close>

text \<open>
  A component with an array of two push ports, whose action calls the port at the index held by a local variable.  The index is elaborated
  on a frame of zeros, whatever the body assigns to the variable, so the only edge is that to the first port; when the
  action runs, it calls the second one.
\<close>

definition pair_fields :: "field list" where
  "pair_fields = [Field 0 True ''0runtime'' (Pointer (Basic Int32)) {},
     Field 0 False ''pings'' (Array (FunctionBase PushPort 7 (Parameter_List [] False) (Parameter_List [] False)) 2) {}]"

definition pair_env :: tenv where
  "pair_env n = (if n = 30 then Struct Component 1 pair_fields else predeclared n)"

text \<open>The variable is at offset 8 from the base pointer, the receiver at - 16.\<close>

definition pair_generator :: generator where
  "pair_generator = (tally_generator 5001)\<lparr>g_types := pair_env, g_offset := (\<lambda>i. if i = 2 then 8 else - 16)\<rparr>"

definition index_variable :: texp where
  "index_variable = T_Identifier (variable_ev (Basic Intt) Mutable Mutable) (Variable_Entry 2 ''i'' (Basic Intt) Mutable Mutable)"

definition pair_body :: tstmt where
  "pair_body = S_List [
     S_Var [(2, Basic Intt)] [T_Literal ((value_ev (Basic Intt) Immutable)\<lparr>e_value := put_scalar Long 1 no_value\<rparr>)],
     S_Activate True [T_Indexed_Push_Port_Call port_ev pair_fields 1 (Parameter_List [] False)
       (Array (FunctionBase PushPort 7 (Parameter_List [] False) (Parameter_List [] False)) 2) index_variable []] S_Empty]"

definition pair_program :: program where
  "pair_program = tally\<lparr>p_types := pair_env, code_at := [5001 \<mapsto> Noop, 5002 \<mapsto> step_code]\<rparr>"

definition pair_owner :: owner where
  "pair_owner = \<lparr>o_role = Action_Role False, o_node = 0, o_address = 16, o_dimension = - 1, o_iota = 0,
     o_arguments = Parameter_List [snd tally_receiver] False, o_locals = 8, o_generator = pair_generator\<rparr>"

definition pair_sites :: sites where
  "pair_sites = \<lparr>instance_at = (\<lambda>a. a = 16), push_port_at = [24 \<mapsto> 1, 32 \<mapsto> 2], pull_port_at = (\<lambda>a. None), getter_at = (\<lambda>a g. None)\<rparr>"

definition pair_graph :: graph where
  "pair_graph = [Action_Node 16 AccessNone AccessNone [], PushPort_Node [], PushPort_Node []]"

lemma variable_index_elaborated:
  "(case obind (owner_frame pair_program pair_owner (static_executor ping_machine)) (\<lambda>m.
       visit_stmt pair_program (execute_static pair_program 12) pair_sites pair_owner pair_body
         \<lparr>x_graph = pair_graph, x_machine = m, x_activation = None, x_precondition = []\<rparr>) of
     Inl e \<Rightarrow> False
   | Inr s \<Rightarrow> x_graph s = [Action_Node 16 AccessNone AccessNone [3], PushPort_Node [], PushPort_Node [], Activation_Node 16 AccessWrite [1]])"
  by code_simp

text \<open>At run time the first port is not bound, and the second one is bound to the reaction of Phases.\<close>

definition pair_machine :: machine where
  "pair_machine = ping_machine\<lparr>the_memory := (\<lambda>a. if a = 32 then 64 else if a = 64 then 16 else if a = 72 then 96 else 0)\<rparr>"

lemma variable_index_executed:
  "(case generate_component_code pair_generator pair_body of
     Inl e \<Rightarrow> False
   | Inr b \<Rightarrow> map_sum id history (perform_action pair_program 14
         \<lparr>a_dimension = - 1, a_locals = 8, a_precondition = Noop, a_body = b\<rparr> 16 0 pair_machine) =
       Inr [Activated 4112 5001, Activated 4144 5002, Deferred 4144 5002, Scheduled 0, Deferred 4112 5001])"
  by code_simp

section \<open>The frame of a getter\<close>

text \<open>
  The visitor of a getter does not push the fake instruction pointer that the frames of actions and reactions have below the
  base pointer, so the word at the offset of the receiver is not the address of the instance, as it is in theirs.
\<close>

definition receiver_word :: "owner \<Rightarrow> 64 word outcome" where
  "receiver_word ow =
     obind (owner_frame tally ow (static_executor ping_machine)) (\<lambda>m.
     obind (load_from (bp m - 16) 8 m) (\<lambda>bs. Inr (le_word bs)))"

lemma getter_frame_misses_receiver:
  "receiver_word (owner_of Reaction_Role 0 48 0 (tally_code AccessNone T_Error S_Empty)) = Inr 48"
  "receiver_word (owner_of (Action_Role False) 0 48 0 (tally_code AccessNone T_Error S_Empty)) = Inr 48"
  "receiver_word (owner_of Getter_Role 0 48 0 (tally_code AccessNone T_Error S_Empty)) = Inr 0"
  by code_simp+

text \<open>A getter that calls a pull port, and loops and increments outside of activations, end the compiler.\<close>

lemma getter_pull_port_aborts:
  "o_role ow = Getter_Role \<Longrightarrow> e_type w = Some (FunctionBase PullPort i ps rs) \<Longrightarrow> e_kind w = VariableExpressionKind \<Longrightarrow>
     visit_expr P run S ow (T_Call v (T_Field w e fs k) es) s = Inl Not_reached"
  by (simp add: visit_call_def visit_pull_port_def the_type_def)

lemma loops_abort:
  "visit_stmt P run S ow (S_While c b) s = Inl Not_reached" "visit_stmt P run S ow (S_For i n b) s = Inl Not_reached"
  "visit_stmt P run S ow (S_Step up e) s = Inl Not_reached" "visit_stmt P run S ow (S_Add_Assign l r) s = Inl Not_reached"
  by simp_all

end
