(* ===== verification/Spec2Isabelle.thy ===== *)
theory Spec2Isabelle
  imports Identity Arch Stack Ast Memory HeapLife Compose Tasks Schedule Access Phases Constant Folding Wellscoped Declarations Edges
begin

text \<open>
  A model of the compiler and run-time system of a language of reactive components (sources under
  src/src/).  This root theory holds no definition; it collects the theories of the development and
  says what they model and what they show.

  THE PROGRAM.  A source text declares component types.  A component has fields, ports, methods,
  getters, actions and reactions; instances of components are bound into one composition.
  The compiler parses the text (scanner and parser are generated), resolves names, checks types
  (check_types.cpp, semantic.cpp, type.cpp, value.cpp), assigns stack offsets (memory_model.cpp),
  computes how each body uses its component (compute_receiver_access.cpp) and compiles bodies to
  trees of operation objects (generate_code.cpp, operation.cpp).  The composer (composition.cpp)
  enumerates instances and ports, elaborates every body once for every instance into a graph,
  and rejects compositions with unbound ports, with cycles, or in which two activations of one
  transaction may conflict.  Then the composition is executed in the same process: a scheduler
  (partitioned_scheduler.cpp or instance_scheduler.cpp) picks actions whose precondition holds,
  locks the instances they reach, and runs them in two phases (runtime.cpp): in the immutable phase
  an action and the reactions it triggers only read and leave their activation frames on the stack
  (stack.cpp), in the mutable phase the frames are unwound and their bodies change the components.
  Every component has a garbage-collected heap of its own, and heaps form a tree (heap.cpp).

  CONVENTIONS.  A C++ function that may fail is a function into \<open>outcome\<close> (Prelude): \<open>Inr\<close> is a
  return, \<open>Inl\<close> one of the errors NOT_REACHED, UNIMPLEMENTED, failed assert, undefined behaviour,
  the end of the fuel, \<open>Rejected n\<close> (a diagnostic that ends the program, by its number) and
  \<open>Outside_model\<close>, which marks code that is left out; a theorem whose conclusion is about a
  return therefore never speaks about left-out code.  Integers have the width of the source as
  words, or are integers with the bounds written out; addresses of the run-time system are integers, and
  memory maps addresses to bytes in the little-endian order of a 64-bit target.  Sections that
  run under a mutex or spin lock are one step; interleavings are sequences of steps.
\<close>

text \<open>
  THE THEORIES, in the order of the program.

  Types and constants.
  Prelude: results, sequencing, the ordered enumerations of types.hpp.
  Types, Identity: type.hpp and type.cpp: the types as a datatype (objects of named, struct, function
  and component types by number, as the code compares their addresses), the class predicates, field
  lookup, move and merge_change, are_identical and pick.  Shown: are_identical returns and
  answers true exactly on types with the same canonical form.
  Arch: arch.cpp: size, alignment and field offsets.  Shown: size returns for the allocatable types only
  and, when no field type has alignment zero and sizes do not wrap around, fields are aligned, disjoint and inside their struct.
  Scalar, Constant: the numeric function objects of semantic.hpp, value.hpp and value.cpp, and the folding in
  semantic.cpp.  Shown: conversions of constants are exact below 53 bits.  Folding: folding a binary operator, a shift or a
  logical connective gives the bytes, or the error, of executing the operation that the generator makes for it.

  Checking of bodies.
  Ast: the checked syntax tree.  Scope: symbols, scopes, activate and change (symbol.cpp, scope.cpp).
  Check: every visit of check_types.cpp over expressions and statements with the check methods of
  semantic.cpp, from unchecked to checked syntax.  Typed: a judgement on checked syntax;
  Soundness: what the checker accepts meets it.  Wellscoped: the symbols a checked body
  mentions; the body of an activation cannot reach a foreign pointer of the immutable phase.
  Access: compute_receiver_access.cpp; the access of a body is the strongest of its uses of the receiver, which are
  listed without regard to the pass: reads of its state, assignments to it, and pointers to it that are handed over.  The
  positions the pass does not count (conditions, indices of port calls, the arguments of new) are part of the statement.
  Memory: memory_model.cpp and the allocation passes of semantic.cpp; locals lie inside their frame, blocks are balanced, and
  the allocation of a callable returns exactly when its locals have sizes and its body declares no type.

  Code and its execution.
  Stack: stack.cpp, every operation with its assertions; frames and pointer bytes round trip, and all operations keep the pointers
  in bounds, but for the two that set the base pointer to a word they are given, which keep them exactly when it is in bounds.
  Machine: the state of an executor (executor_base.hpp): stack, memory, current component, heap.
  Operation: one constructor per operation class, one definition per execute method.
  Discipline: a judgement that says how many bytes an operation pushes; the interpreter keeps to it
  whatever values it meets, for every operation but the call of a pull port.  Generate: generate_code.cpp, from checked syntax to operations.
  Compile: the code of well-typed trees meets the discipline.  Phases: runtime.cpp, an action in
  two phases.  Declarations: the declarations of callables, getters, reactions, actions and
  instances; it joins checker, generator and interpreter: for programs of \<open>regular\<close> bodies (below), the code of a checked body
  keeps the stack, and a checked action runs each of its activations once, in reverse order.

  Composition.
  Compose: the walks of composition.cpp and runtime.cpp that enumerate instances, ports, actions,
  reactions and getters with their addresses.  Instances: sets of instances with accesses.
  Graph: the structural check, which reports the first defect in its order, Tarjan's search and the instance sets.  Elaborate: the
  elaboration of bodies and binders, with the static executor it computes indices and receivers by.
  Edges: elaboration keeps the graph well formed and enters every call it visits, with the receiver or index that the static
  executor computes, and the composer accepts an elaborated composition exactly when it is well bound, acyclic and deterministic.

  Heaps.
  HeapBlock: blocks of 16-byte slots with four status bits, marking, sweeping.  HeapTree: the
  binary tree of blocks.  HeapAlloc: Heap::allocate and the free list, with the chunk headers it writes into the free memory and
  sizes that wrap around at 64 bits.  HeapCollect: the
  conservative marking and Heap::collect_garbage over the tree of heaps.  HeapLife: a whole
  collection, and inserting, removing and merging heaps.  Shown: allocation returns zeroed slots that
  were free and leaves the objects and the memory outside of its blocks alone, and a collection keeps what is reachable.

  Schedulers.
  Chains: the intrusive task lists.  Locks: the lock of an instance, which queues tasks instead of
  blocking threads.  Tasks: the life of a task and the interleavings of the executors; tasks that
  conflict never execute together, no turn fails an assertion, and every started task can finish.
  Schedule: the instance scheduler; a thread exits only when nothing is left to do.
\<close>

text \<open>
  THE INTERFACES.  Contracts between components are locales, each interpreted on the model of the code that
  provides it.  \<open>task_lists\<close> (Chains) says what appending to and taking from an intrusive list does; it is
  interpreted on the lists of the partitioned scheduler and, in Schedule, on the schedule of the instance
  scheduler.  \<open>handoff_lock\<close> (Locks) is what tasks rely on of the lock of an instance, \<open>access_map\<close> (Instances)
  what the analysis relies on of an instance set, \<open>region_store\<close> (HeapTree) what the heap relies on of the tree of its
  blocks.  \<open>operand_class\<close> (Identity) is the contract of the four functions that pick the type of a binary
  operator, and \<open>replacement\<close> (Scope) what activate and change share.  A client's lemmas are proved from the
  laws of the contract alone.

  FUEL AND BOUNDS.  The walks over types take the nesting depth as fuel, and its end stands for the endless
  recursion a cyclic environment causes; \<open>type_size\<close> and \<open>are_identical\<close> are shown to return on the types they
  are meant for.  Tarjan's search, the instance sets and the dependent instances run with
  \<open>Suc (length g)\<close>, more than a path without repetition can use; for the first two this is shown to be enough, while the
  dependent instances, which the code follows without a record of the path, run out of fuel where the code recurses
  for ever.  Marking runs with \<open>work_left\<close>, the entries of the work list and the slots that are not marked yet,
  which falls with every iteration.  A collection of a tree of heaps returns.  Every started task of the
  partitioned scheduler can finish, by a measure on the locks the tasks still need.  The loop of the mutable phase
  has the number of live frames as its bound, and every frame it unwinds is one of them.  The interpreter has
  fuel for calls, loops and nesting, since programs of the language need not terminate: theorems about execution
  speak of every fuel and every result it gives.  \<open>el_fuel\<close> is the fuel of the interpreter in the static
  executors of the composer.

  ABSTRACTIONS.  Types are given as process_type leaves them.  Two fields of the machine are not in the
  code: \<open>live_frames\<close> lists the base pointers of the frames on the stack, so that a store that would overwrite
  the control words of one of them is the undefined behaviour it is in C++, and \<open>history\<close> records what has been
  done.  The stack offset the code writes into a symbol is a table, and the generator takes what
  it reads of its surroundings (offsets, addresses of callables and of the bodies of activations, access of
  activations) as a record.  \<open>links\<close> says that a generator and a program agree on the types;
  \<open>regular\<close> names the checked trees for which the stack discipline is shown.  It excludes what the findings describe
  (operators on untyped operands that are not folded, println of the name of a type, expression statements that are a
  variable or a value without bytes), calls of callables that the program does not have with the signature of their type, and calls of
  pull ports, which execute a getter read from memory; \<open>built_program\<close> says that the callables and bodies of a program
  were checked and compiled from regular trees.  Sweeping and merging change the free list of a heap, but the chunk headers they
  write into free memory are not written into the memory of the model; \<open>threaded\<close> says that the memory holds them, and allocation keeps it.
  Nodes of the composition graph are numbered in the order of their creation, and the maps
  of getters and reactions keep the order of insertion where the code orders by address, which only decides how nodes
  are numbered.  Addresses that operator new chooses are arguments.  Fractional arithmetic is a parameter of
  the constant folder.

  NOT MODELLED.  Scanner and parser (generated), the class definitions and default visitors of the
  syntax tree, name resolution (glue that fills tables), the driver and error printing, process_type
  (only the checks of dimensions are used), the type checking of binders and of local constants,
  the operations on heap links (new, move, merge and change; their types are checked and their
  heaps are modelled), the operations of floating and complex arithmetic, the messages by which the executors of the
  partitioned scheduler agree to sleep and exit (run_i, poll), the pthread locks of the
  instance scheduler, printing and debugging output, and the names given to parts for diagnostics.
\<close>

end
